(* ===== verification/Prelude.thy ===== *)
theory Prelude
  imports Main "HOL-Library.Word"
begin

text \<open>
  Shared vocabulary of the development: names for the C integer widths, the
  first-fit scan that the kernel's static tables use, and three families of
  pointer lists with their link-update lemmas:
  \<^item> \<open>sll\<close>: singly linked, NULL terminated (free lists, message queues, timer buckets);
  \<^item> \<open>dll\<close>: doubly linked, NULL terminated (run queues, sleep queues);
  \<^item> \<open>ring\<close>: doubly linked and circular through a sentinel (the buffer cache's lists).
  A pointer is an option (\<open>None\<close> is NULL) and the links of all objects are functions
  from objects to pointers, so a C assignment \<open>p->next = q\<close> is a function update.
\<close>

unbundle bit_operations_syntax

type_synonym u8 = "8 word"
type_synonym u16 = "16 word"
type_synonym u32 = "32 word"
type_synonym u64 = "64 word"

named_theorems links \<open>lemmas that update a linked list after pointer assignments\<close>
named_theorems frames \<open>lemmas that keep a linked list under unrelated pointer assignments\<close>

section \<open>Flag words\<close>

text \<open>The C test \<open>w & flag\<close>, the C updates \<open>w |= flag\<close> and \<open>w &= ~flag\<close>.\<close>

definition has :: "u32 \<Rightarrow> u32 \<Rightarrow> bool" where "has st f \<longleftrightarrow> st AND f \<noteq> 0"
definition setf :: "u32 \<Rightarrow> u32 \<Rightarrow> u32" where "setf f st = st OR f"
definition clrf :: "u32 \<Rightarrow> u32 \<Rightarrow> u32" where "clrf f st = st AND NOT f"

lemma has_push_bit: "n < 32 \<Longrightarrow> has st (push_bit n 1) \<longleftrightarrow> bit st n"
  by (simp add: has_def push_bit_eq_mult and_exp_eq_0_iff_not_bit)

lemma bit_setf [simp]:
  "n < 32 \<Longrightarrow> m < 32 \<Longrightarrow> bit (setf (push_bit m 1) st) n \<longleftrightarrow> bit st n \<or> n = m"
  by (auto simp: setf_def bit_simps)

lemma bit_clrf [simp]:
  "n < 32 \<Longrightarrow> m < 32 \<Longrightarrow> bit (clrf (push_bit m 1) st) n \<longleftrightarrow> bit st n \<and> n \<noteq> m"
  by (auto simp: clrf_def bit_simps)

lemma clrf_or: "clrf (f OR g) st = clrf f (clrf g st)"
  by (rule bit_eqI) (auto simp: clrf_def bit_simps)

section \<open>First-fit scans over static tables\<close>

text \<open>The loop \<open>for (i = 0; i < n; i++) if (P i) return i;\<close>.\<close>

definition first_idx :: "(nat \<Rightarrow> bool) \<Rightarrow> nat \<Rightarrow> nat option" where
  "first_idx P n = find P [0..<n]"

lemma first_idx_Some_iff:
  "first_idx P n = Some i \<longleftrightarrow> i < n \<and> P i \<and> (\<forall>j<i. \<not> P j)"
proof -
  have "find P [0..<n] = Some i \<longleftrightarrow> (\<exists>k<n. P k \<and> i = k \<and> (\<forall>j<k. \<not> P j))"
    by (auto simp: find_Some_iff)
  then show ?thesis by (auto simp: first_idx_def)
qed

lemma find_append: "find P (xs @ ys) = (case find P xs of None \<Rightarrow> find P ys | Some x \<Rightarrow> Some x)"
  by (induction xs) auto

lemma first_idx_None_iff: "first_idx P n = None \<longleftrightarrow> (\<forall>i<n. \<not> P i)"
  by (auto simp: first_idx_def find_None_iff)

lemma first_idx_SomeD:
  assumes "first_idx P n = Some i"
  shows "i < n" and "P i" and "\<And>j. j < i \<Longrightarrow> \<not> P j"
  using assms by (auto simp: first_idx_Some_iff)

lemma first_idx_ex: "i < n \<Longrightarrow> P i \<Longrightarrow> \<exists>k. first_idx P n = Some k \<and> k \<le> i"
  by (metis first_idx_None_iff first_idx_Some_iff not_le_imp_less option.exhaust)

lemma first_idx_cong:
  "(\<And>i. i < n \<Longrightarrow> P i = Q i) \<Longrightarrow> first_idx P n = first_idx Q n"
  unfolding first_idx_def by (rule find_cong) auto

lemma first_idx_Suc:
  "first_idx P (Suc n) =
     (case first_idx P n of Some i \<Rightarrow> Some i | None \<Rightarrow> if P n then Some n else None)"
proof (cases "first_idx P n")
  case None
  then have n: "\<not> P i" if "i < n" for i using that by (simp add: first_idx_None_iff)
  show ?thesis
  proof (cases "P n")
    case True
    with n have "first_idx P (Suc n) = Some n" by (auto simp: first_idx_Some_iff)
    with None True show ?thesis by simp
  next
    case False
    with n have "first_idx P (Suc n) = None" by (auto simp: first_idx_None_iff less_Suc_eq)
    with None False show ?thesis by simp
  qed
next
  case (Some i)
  then have "first_idx P (Suc n) = Some i" by (simp add: first_idx_Some_iff)
  with Some show ?thesis by simp
qed

section \<open>Singly linked lists\<close>

primrec sll :: "('a \<Rightarrow> 'a option) \<Rightarrow> 'a option \<Rightarrow> 'a list \<Rightarrow> bool" where
  "sll nx p [] \<longleftrightarrow> p = None"
| "sll nx p (x # xs) \<longleftrightarrow> p = Some x \<and> sll nx (nx x) xs"

lemma sll_None [simp]: "sll nx None xs \<longleftrightarrow> xs = []"
  by (cases xs) auto

lemma sll_Some: "sll nx (Some x) xs \<longleftrightarrow> (\<exists>ys. xs = x # ys \<and> sll nx (nx x) ys)"
  by (cases xs) auto

lemma sll_unique: "sll nx p xs \<Longrightarrow> sll nx p ys \<Longrightarrow> xs = ys"
  by (induction xs arbitrary: p ys) (auto simp: sll_Some)

lemma sll_append:
  "sll nx p (xs @ y # ys) \<Longrightarrow> sll nx (Some y) (y # ys)"
  by (induction xs arbitrary: p) auto

lemma sll_tail_notin: "sll nx (nx x) xs \<Longrightarrow> x \<notin> set xs"
proof
  assume s: "sll nx (nx x) xs" and "x \<in> set xs"
  then obtain as bs where xs: "xs = as @ x # bs" by (meson split_list)
  from s xs have "sll nx (nx x) bs" using sll_append [of nx "nx x" as x bs] by simp
  with s have "xs = bs" by (rule sll_unique)
  with xs show False by simp
qed

lemma sll_distinct: "sll nx p xs \<Longrightarrow> distinct xs"
  by (induction xs arbitrary: p) (auto dest: sll_tail_notin)

lemma sll_upd_other [frames]:
  "x \<notin> set xs \<Longrightarrow> sll (nx(x := q)) p xs = sll nx p xs"
  by (induction xs arbitrary: p) auto

lemma sll_cong [frames]:
  "(\<And>x. x \<in> set xs \<Longrightarrow> nx x = nx' x) \<Longrightarrow> sll nx p xs = sll nx' p xs"
  by (induction xs arbitrary: p) auto

lemma sll_push [links]:
  "sll nx p xs \<Longrightarrow> x \<notin> set xs \<Longrightarrow> sll (nx(x := p)) (Some x) (x # xs)"
  by (simp add: sll_upd_other)

lemma sll_remove_mid [links]:
  assumes "sll nx p (as @ a # x # bs)"
  shows "sll (nx(a := nx x)) p (as @ a # bs)"
  using assms
proof (induction as arbitrary: p)
  case Nil
  then have "a \<notin> set bs"
    using sll_tail_notin [of nx a "x # bs"] by auto
  with Nil show ?case by (auto simp: fun_upd_def [symmetric] sll_upd_other)
next
  case (Cons c as)
  then have "c \<notin> set (as @ a # x # bs)"
    using sll_tail_notin [of nx c "as @ a # x # bs"] by auto
  with Cons show ?case by auto
qed

lemma sll_snoc [links]:
  assumes "sll nx p (xs @ [a])" and "y \<notin> set (xs @ [a])" and "nx y = None"
  shows "sll (nx(a := Some y)) p (xs @ [a, y])"
  using assms
proof (induction xs arbitrary: p)
  case Nil
  then show ?case by auto
next
  case (Cons c xs)
  then have "c \<notin> set (xs @ [a])" using sll_tail_notin [of nx c "xs @ [a]"] by auto
  with Cons show ?case by auto
qed

section \<open>Doubly linked segments\<close>

text \<open>
  \<open>dseg nx pv q p xs q' p'\<close>: following \<open>nx\<close> from pointer \<open>p\<close> visits \<open>xs\<close> and ends at
  pointer \<open>p'\<close>; each node's \<open>pv\<close> is its predecessor, \<open>q\<close> for the first one, and \<open>q'\<close>
  is the last node (\<open>q\<close> when there is none).
\<close>

primrec dseg :: "('a \<Rightarrow> 'a option) \<Rightarrow> ('a \<Rightarrow> 'a option) \<Rightarrow> 'a option \<Rightarrow> 'a option
    \<Rightarrow> 'a list \<Rightarrow> 'a option \<Rightarrow> 'a option \<Rightarrow> bool" where
  "dseg nx pv q p [] q' p' \<longleftrightarrow> p = p' \<and> q = q'"
| "dseg nx pv q p (x # xs) q' p' \<longleftrightarrow>
     p = Some x \<and> pv x = q \<and> dseg nx pv (Some x) (nx x) xs q' p'"

definition lastp :: "'a option \<Rightarrow> 'a list \<Rightarrow> 'a option" where
  "lastp q xs = (if xs = [] then q else Some (last xs))"

definition headp :: "'a list \<Rightarrow> 'a option \<Rightarrow> 'a option" where
  "headp xs p = (if xs = [] then p else Some (hd xs))"

lemma lastp_simps [simp]:
  "lastp q [] = q" "lastp q (x # xs) = lastp (Some x) xs" "lastp q (xs @ [x]) = Some x"
  "lastp q (xs @ y # ys) = lastp (Some y) ys"
  by (auto simp: lastp_def)

lemma headp_simps [simp]: "headp [] p = p" "headp (x # xs) p = Some x"
  by (auto simp: headp_def)

lemma headp_append [simp]: "headp (xs @ ys) p = headp xs (headp ys p)"
  by (cases xs) auto

lemma headp_None_iff [simp]: "headp xs None = None \<longleftrightarrow> xs = []"
  by (cases xs) auto

lemma dseg_append [simp]:
  "dseg nx pv q p (xs @ ys) q' p' \<longleftrightarrow>
     (\<exists>a b. dseg nx pv q p xs a b \<and> dseg nx pv a b ys q' p')"
  by (induction xs arbitrary: q p) auto

lemma dseg_ends: "dseg nx pv q p xs q' p' \<Longrightarrow> p = headp xs p' \<and> q' = lastp q xs"
  by (induction xs arbitrary: q p) auto

lemma dseg_cong [frames]:
  "(\<And>x. x \<in> set xs \<Longrightarrow> nx x = nx' x) \<Longrightarrow> (\<And>x. x \<in> set xs \<Longrightarrow> pv x = pv' x)
    \<Longrightarrow> dseg nx pv q p xs q' p' = dseg nx' pv' q p xs q' p'"
  by (induction xs arbitrary: q p) auto

lemma dseg_upd_nx [frames]:
  "y \<notin> set xs \<Longrightarrow> dseg (nx(y := v)) pv q p xs q' p' = dseg nx pv q p xs q' p'"
  by (rule dseg_cong) auto

lemma dseg_upd_pv [frames]:
  "y \<notin> set xs \<Longrightarrow> dseg nx (pv(y := v)) q p xs q' p' = dseg nx pv q p xs q' p'"
  by (rule dseg_cong) auto

lemma dseg_links:
  "dseg nx pv q p (xs @ y # ys) q' p' \<Longrightarrow> pv y = lastp q xs \<and> nx y = headp ys p'"
  by (auto dest!: dseg_ends)

text \<open>Changing the link that leaves a segment's last node, or the one that enters it.\<close>

lemma dseg_set_exit:
  assumes "dseg nx pv q p xs q' p'" and "distinct xs"
  shows "dseg (case q' of None \<Rightarrow> nx | Some l \<Rightarrow> nx(l := r)) pv q (headp xs r) xs q' r"
proof (cases xs rule: rev_cases)
  case Nil
  with assms show ?thesis by (cases q') auto
next
  case (snoc as l)
  with assms(1) have "q' = Some l" "pv l = lastp q as" "dseg nx pv q p as (lastp q as) (Some l)"
    using dseg_ends by fastforce+
  moreover from this have "p = headp as (Some l)" using dseg_ends by fastforce
  moreover from snoc assms(2) have "l \<notin> set as" by simp
  ultimately show ?thesis using snoc by (simp add: dseg_upd_nx)
qed

lemma dseg_set_entry:
  assumes "dseg nx pv q p xs q' p'" and "distinct xs"
  shows "dseg nx (case xs of [] \<Rightarrow> pv | y # _ \<Rightarrow> pv(y := r)) r p xs (lastp r xs) p'"
proof (cases xs)
  case (Cons y ys)
  with assms have "dseg nx pv (Some y) (nx y) ys q' p'" "y \<notin> set ys" "p = Some y" by auto
  moreover from this have "q' = lastp (Some y) ys" using dseg_ends by fastforce
  ultimately show ?thesis using Cons by (simp add: dseg_upd_pv)
qed (use assms in simp)

section \<open>Rings: circular doubly linked lists with a sentinel\<close>

definition ring :: "('a \<Rightarrow> 'a option) \<Rightarrow> ('a \<Rightarrow> 'a option) \<Rightarrow> 'a \<Rightarrow> 'a list \<Rightarrow> bool" where
  "ring nx pv s xs \<longleftrightarrow> distinct xs \<and> s \<notin> set xs \<and>
     dseg nx pv (Some s) (nx s) xs (pv s) (Some s)"

lemma ring_ends: "ring nx pv s xs \<Longrightarrow> nx s = headp xs (Some s) \<and> pv s = lastp (Some s) xs"
  using dseg_ends [of nx pv "Some s" "nx s" xs "pv s" "Some s"] by (simp add: ring_def)

lemma ring_distinct: "ring nx pv s xs \<Longrightarrow> distinct (s # xs)"
  by (simp add: ring_def)

lemma ring_empty_iff: "ring nx pv s xs \<Longrightarrow> nx s = Some s \<longleftrightarrow> xs = []"
  using ring_ends [of nx pv s xs] ring_distinct [of nx pv s xs] by (cases xs) auto

lemma ring_Nil [simp]: "ring nx pv s [] \<longleftrightarrow> nx s = Some s \<and> pv s = Some s"
  by (auto simp: ring_def)

lemma ring_cong [frames]:
  assumes "\<And>x. x \<in> insert s (set xs) \<Longrightarrow> nx x = nx' x"
    and "\<And>x. x \<in> insert s (set xs) \<Longrightarrow> pv x = pv' x"
  shows "ring nx pv s xs = ring nx' pv' s xs"
proof -
  have "dseg nx pv q p xs q' p' = dseg nx' pv' q p xs q' p'" for q p q' p'
    by (rule dseg_cong) (use assms in auto)
  moreover have "nx s = nx' s" "pv s = pv' s" using assms by auto
  ultimately show ?thesis by (simp only: ring_def)
qed

lemma ring_links:
  assumes "ring nx pv s (as @ y # bs)"
  shows "pv y = lastp (Some s) as" and "nx y = headp bs (Some s)"
proof -
  from assms have "dseg nx pv (Some s) (nx s) (as @ y # bs) (pv s) (Some s)"
    by (simp only: ring_def)
  from dseg_links [OF this] show "pv y = lastp (Some s) as" and "nx y = headp bs (Some s)"
    by blast+
qed

lemma ring_insert_first [links]:
  assumes r: "ring nx pv s xs" and y: "y \<notin> set xs" "y \<noteq> s" and n: "nx s = Some n"
  shows "ring (nx(y := nx s, s := Some y)) (pv(y := Some s, n := Some y)) s (y # xs)"
proof (cases xs)
  case Nil
  with r y n show ?thesis by (auto simp: ring_def)
next
  case (Cons x ys)
  with r n have "n = x" "x \<noteq> s" "s \<notin> set ys" "x \<notin> set ys"
    and "dseg nx pv (Some x) (nx x) ys (pv s) (Some s)"
    by (auto simp: ring_def)
  with Cons r y n show ?thesis
    by (auto simp: ring_def dseg_upd_nx dseg_upd_pv)
qed

lemma ring_insert_last [links]:
  assumes r: "ring nx pv s xs" and y: "y \<notin> set xs" "y \<noteq> s" and p: "pv s = Some p"
  shows "ring (nx(y := Some s, p := Some y)) (pv(y := pv s, s := Some y)) s (xs @ [y])"
proof (cases xs rule: rev_cases)
  case Nil
  with r y p show ?thesis by (auto simp: ring_def)
next
  case (snoc ys x)
  with r p ring_ends [OF r] have "p = x" "x \<noteq> s" "s \<notin> set ys" "x \<notin> set ys"
    by (auto simp: ring_def)
  with snoc r y p show ?thesis
    by (auto simp: ring_def dseg_upd_nx dseg_upd_pv)
qed

lemma ring_remove [links]:
  assumes r: "ring nx pv s (as @ y # bs)"
    and p: "pv y = Some p" and n: "nx y = Some n"
  shows "ring (nx(p := nx y, y := None)) (pv(n := pv y, y := None)) s (as @ bs)"
proof -
  let ?a = "lastp (Some s) as" and ?b = "headp bs (Some s)"
  from r have d: "distinct (s # as @ y # bs)" by (rule ring_distinct)
  have A: "dseg nx pv (Some s) (nx s) as ?a (Some y)"
    and B: "dseg nx pv (Some y) ?b bs (pv s) (Some s)"
    using r ring_links [OF r] by (simp_all add: ring_def)
  have pa: "Some p = ?a" and nb: "Some n = ?b" using ring_links [OF r] p n by auto
  from pa have pin: "p = s \<and> as = [] \<or> (\<exists>as'. as = as' @ [p])"
    by (cases as rule: rev_cases) (auto simp: lastp_def)
  from nb have nin: "n = s \<and> bs = [] \<or> (\<exists>bs'. bs = n # bs')"
    by (cases bs) auto
  have "nx s = headp as (Some y)" using dseg_ends [OF A] by simp
  moreover have "pv s = lastp (Some y) bs" using dseg_ends [OF B] by simp
  ultimately show ?thesis using d A B pin nin p n
    by (auto simp: ring_def dseg_upd_nx dseg_upd_pv)
qed

text \<open>Following \<open>nx\<close> never leaves a ring.\<close>

lemma ring_closed:
  assumes r: "ring nx pv s xs" and x: "x \<in> insert s (set xs)"
  shows "\<exists>y \<in> insert s (set xs). nx x = Some y"
proof (cases "x = s")
  case True
  with ring_ends [OF r] show ?thesis by (cases xs) auto
next
  case False
  with x obtain as bs where xs: "xs = as @ x # bs" by (meson insertE split_list)
  with ring_links(2) [of nx pv s as x bs] r show ?thesis by (cases bs) auto
qed

section \<open>NULL-terminated doubly linked lists with a head and a tail pointer\<close>

definition dll :: "('a \<Rightarrow> 'a option) \<Rightarrow> ('a \<Rightarrow> 'a option) \<Rightarrow> 'a option \<Rightarrow> 'a option \<Rightarrow> 'a list \<Rightarrow> bool"
where
  "dll nx pv h t xs \<longleftrightarrow> distinct xs \<and> dseg nx pv None h xs t None"

lemma dll_Nil [simp]: "dll nx pv h t [] \<longleftrightarrow> h = None \<and> t = None"
  by (auto simp: dll_def)

lemma dll_ends: "dll nx pv h t xs \<Longrightarrow> h = headp xs None \<and> t = lastp None xs"
  using dseg_ends [of nx pv None h xs t None] by (simp add: dll_def)

lemma dll_distinct: "dll nx pv h t xs \<Longrightarrow> distinct xs"
  by (simp add: dll_def)

lemma dll_cong [frames]:
  assumes "\<And>x. x \<in> set xs \<Longrightarrow> nx x = nx' x" and "\<And>x. x \<in> set xs \<Longrightarrow> pv x = pv' x"
  shows "dll nx pv h t xs = dll nx' pv' h t xs"
  using dseg_cong [of xs nx nx' pv pv' None h t None] assms by (simp add: dll_def)

lemma dll_links:
  assumes "dll nx pv h t (as @ y # bs)"
  shows "pv y = lastp None as" and "nx y = headp bs None"
  using dseg_links [of nx pv None h as y bs t None] assms by (auto simp: dll_def)

text \<open>Stores through a pointer that may be NULL.\<close>

definition updo :: "'a option \<Rightarrow> 'b \<Rightarrow> ('a \<Rightarrow> 'b) \<Rightarrow> 'a \<Rightarrow> 'b" where
  "updo p v f = (case p of None \<Rightarrow> f | Some x \<Rightarrow> f(x := v))"

lemma updo_simps [simp]: "updo None v f = f" "updo (Some x) v f = f(x := v)"
  by (simp_all add: updo_def)

lemma updo_other: "p \<noteq> Some x \<Longrightarrow> updo p v f x = f x"
  by (cases p) auto

lemma lastp_in: "lastp None xs = Some x \<Longrightarrow> x \<in> set xs"
  by (auto simp: lastp_def split: if_splits)

lemma headp_in: "headp xs None = Some x \<Longrightarrow> x \<in> set xs"
  by (auto simp: headp_def split: if_splits)

lemma dll_insert [links]:
  assumes d: "dll nx pv h t (as @ bs)" and y: "y \<notin> set (as @ bs)"
  shows "dll ((updo (lastp None as) (Some y) nx)(y := headp bs None))
    ((updo (headp bs None) (Some y) pv)(y := lastp None as))
    (if as = [] then Some y else h) (if bs = [] then Some y else t) (as @ y # bs)"
    (is "dll ?nx ?pv _ _ _")
proof -
  let ?a = "lastp None as" and ?b = "headp bs None"
  have dis: "distinct (as @ bs)" using d by (rule dll_distinct)
  from d obtain a b where A: "dseg nx pv None h as a b" and B: "dseg nx pv a b bs t None"
    by (auto simp: dll_def)
  from dseg_ends [OF A] dseg_ends [OF B] have ab: "a = ?a" "b = ?b" "h = headp as b" "t = lastp a bs"
    by auto
  have "dseg (case ?a of None \<Rightarrow> nx | Some l \<Rightarrow> nx(l := Some y)) pv None (headp as (Some y)) as ?a (Some y)"
    using dseg_set_exit [OF A, of "Some y"] dis ab by auto
  then have A': "dseg ?nx ?pv None (headp as (Some y)) as ?a (Some y)"
  proof (rule dseg_cong [THEN iffD1, rotated -1])
    show "(case ?a of None \<Rightarrow> nx | Some l \<Rightarrow> nx(l := Some y)) x = ?nx x" if "x \<in> set as" for x
      using that y by (auto simp: updo_def split: option.split)
    show "pv x = ?pv x" if "x \<in> set as" for x
      using that y dis headp_in [of bs] by (auto simp: updo_def split: option.split)
  qed
  have "dseg nx (case bs of [] \<Rightarrow> pv | z # _ \<Rightarrow> pv(z := Some y)) (Some y) b bs (lastp (Some y) bs) None"
    using dseg_set_entry [OF B, of "Some y"] dis by auto
  then have B': "dseg ?nx ?pv (Some y) b bs (lastp (Some y) bs) None"
  proof (rule dseg_cong [THEN iffD1, rotated -1])
    show "nx x = ?nx x" if "x \<in> set bs" for x
      using that y dis lastp_in [of as] by (auto simp: updo_def split: option.split)
    show "(case bs of [] \<Rightarrow> pv | z # _ \<Rightarrow> pv(z := Some y)) x = ?pv x" if "x \<in> set bs" for x
      using that y by (cases bs) (auto simp: updo_def)
  qed
  have "dseg ?nx ?pv None (headp as (Some y)) (as @ y # bs) (lastp (Some y) bs) None"
    using A' B' ab by auto
  moreover have "(if as = [] then Some y else h) = headp as (Some y)"
    using ab by (cases as) auto
  moreover have "(if bs = [] then Some y else t) = lastp (Some y) bs"
    using ab by (cases bs) auto
  ultimately show ?thesis using dis y by (simp add: dll_def)
qed

lemma dll_remove [links]:
  assumes d: "dll nx pv h t (as @ y # bs)"
  shows "dll ((updo (pv y) (nx y) nx)(y := None)) ((updo (nx y) (pv y) pv)(y := None))
    (if pv y = None then nx y else h) (if nx y = None then pv y else t) (as @ bs)"
    (is "dll ?nx ?pv _ _ _")
proof -
  let ?a = "lastp None as" and ?b = "headp bs None"
  have dis: "distinct (as @ y # bs)" using d by (rule dll_distinct)
  have L: "pv y = ?a" "nx y = ?b" using dll_links [OF d] by simp_all
  from d have A: "dseg nx pv None h as ?a (Some y)" and B: "dseg nx pv (Some y) ?b bs t None"
    using L by (auto simp: dll_def)
  have ht: "h = headp as (Some y)" "t = lastp (Some y) bs"
    using dseg_ends [OF A] dseg_ends [OF B] by auto
  have "dseg (case ?a of None \<Rightarrow> nx | Some l \<Rightarrow> nx(l := ?b)) pv None (headp as ?b) as ?a ?b"
    using dseg_set_exit [OF A, of ?b] dis by auto
  then have A': "dseg ?nx ?pv None (headp as ?b) as ?a ?b"
  proof (rule dseg_cong [THEN iffD1, rotated -1])
    show "(case ?a of None \<Rightarrow> nx | Some l \<Rightarrow> nx(l := ?b)) x = ?nx x" if "x \<in> set as" for x
      using that dis by (auto simp: L updo_def split: option.split)
    show "pv x = ?pv x" if "x \<in> set as" for x
      using that dis headp_in [of bs] by (auto simp: L updo_def split: option.split)
  qed
  have "dseg nx (case bs of [] \<Rightarrow> pv | z # _ \<Rightarrow> pv(z := ?a)) ?a ?b bs (lastp ?a bs) None"
    using dseg_set_entry [OF B, of ?a] dis by auto
  then have B': "dseg ?nx ?pv ?a ?b bs (lastp ?a bs) None"
  proof (rule dseg_cong [THEN iffD1, rotated -1])
    show "nx x = ?nx x" if "x \<in> set bs" for x
      using that dis lastp_in [of as] by (auto simp: L updo_def split: option.split)
    show "(case bs of [] \<Rightarrow> pv | z # _ \<Rightarrow> pv(z := ?a)) x = ?pv x" if "x \<in> set bs" for x
      using that dis by (cases bs) (auto simp: L updo_def)
  qed
  have "dseg ?nx ?pv None (headp as ?b) (as @ bs) (lastp ?a bs) None"
    using A' B' by auto
  moreover have "(if pv y = None then nx y else h) = headp as ?b"
    unfolding L using ht by (cases as) (auto simp: lastp_def)
  moreover have "(if nx y = None then pv y else t) = lastp ?a bs"
    unfolding L using ht by (cases bs) auto
  ultimately show ?thesis using dis by (simp add: dll_def)
qed

section \<open>Sources of pages\<close>

text \<open>
  What a client relies on when it draws physical pages: an address that is not null is one
  that nobody holds, and from then on it is held.  \<open>draw alloc n\<close> asks \<open>n\<close> times and stops
  at the first null.
\<close>

fun draw :: "('s \<Rightarrow> u64 \<times> 's) \<Rightarrow> nat \<Rightarrow> 's \<Rightarrow> u64 list \<times> 's" where
  "draw alloc 0 s = ([], s)"
| "draw alloc (Suc n) s =
     (let (p, t) = alloc s in
      if p = 0 then ([], t) else (let (ps, u) = draw alloc n t in (p # ps, u)))"

locale page_source =
  fixes ok :: "'s \<Rightarrow> bool"
    and taken :: "'s \<Rightarrow> u64 set"
    and alloc :: "'s \<Rightarrow> u64 \<times> 's"
  assumes alloc_ok: "ok s \<Longrightarrow> alloc s = (p, t) \<Longrightarrow> ok t"
    and alloc_new: "ok s \<Longrightarrow> alloc s = (p, t) \<Longrightarrow>
      p = 0 \<and> t = s \<or> p \<noteq> 0 \<and> p \<notin> taken s \<and> taken t = insert p (taken s)"
begin

lemma draw_fresh:
  "ok s \<Longrightarrow> draw alloc n s = (ps, t) \<Longrightarrow>
     ok t \<and> distinct ps \<and> 0 \<notin> set ps \<and> set ps \<inter> taken s = {} \<and> taken t = set ps \<union> taken s \<and>
     length ps \<le> n \<and> (length ps < n \<longrightarrow> alloc t = (0, t))"
proof (induction n arbitrary: s ps t)
  case 0
  then show ?case by simp
next
  case (Suc n)
  obtain p u where p: "alloc s = (p, u)" by (cases "alloc s")
  note ok' = alloc_ok [OF Suc.prems(1) p] and new = alloc_new [OF Suc.prems(1) p]
  show ?case
  proof (cases "p = 0")
    case True
    with Suc.prems p ok' new show ?thesis by auto
  next
    case False
    obtain qs v where q: "draw alloc n u = (qs, v)" by (cases "draw alloc n u")
    with False Suc.prems p have "ps = p # qs" "t = v" by simp_all
    with Suc.IH [OF ok' q] new False show ?thesis by auto
  qed
qed

end

end
