(* ===== verification/BufCache.thy ===== *)
theory BufCache
  imports Prelude
begin

text \<open>
  The block buffer cache's data (\<open>32_FS/00_bcache\<close>): buffer headers linked by
  pointers into one circular free list and 64 circular hash queues, the platform
  hooks that reach a driver, \<open>bcache_init\<close>, and the list operations of
  \<open>getblk.c\<close>.  Each list operation is related to an operation on the abstract ring
  (a list of buffers); the ring algebra is in Prelude.
\<close>

section \<open>Buffer headers\<close>

text \<open>The objects of type \<open>BufHdr\<close>: \<open>bcache_pool[i]\<close>, \<open>free_head\<close>, \<open>hash_heads[k]\<close>.\<close>

datatype bref = Buf nat | FreeHead | HashHead nat

type_synonym bptr = "bref option"

record bufhdr =
  dev :: u8
  blkno :: u32
  status :: u32
  data :: "u8 list"
  hash_next :: bptr
  hash_prev :: bptr
  free_next :: bptr
  free_prev :: bptr

definition NUM_BUFFERS :: nat where "NUM_BUFFERS = 256"
definition NUM_HASH_QUEUES :: nat where "NUM_HASH_QUEUES = 64"
definition BLOCK_SIZE :: nat where "BLOCK_SIZE = 512"
definition MAX_DEVICES :: nat where "MAX_DEVICES = 8"

definition BUF_LOCKED :: u32 where "BUF_LOCKED = push_bit 0 1"
definition BUF_VALID :: u32 where "BUF_VALID = push_bit 1 1"
definition BUF_DELWRITE :: u32 where "BUF_DELWRITE = push_bit 2 1"
definition BUF_IOBUSY :: u32 where "BUF_IOBUSY = push_bit 3 1"
definition BUF_WANTED :: u32 where "BUF_WANTED = push_bit 4 1"
definition BUF_OLD :: u32 where "BUF_OLD = push_bit 5 1"
definition BUF_ERROR :: u32 where "BUF_ERROR = push_bit 7 1"

lemmas buf_flags = BUF_LOCKED_def BUF_VALID_def BUF_DELWRITE_def BUF_IOBUSY_def
  BUF_WANTED_def BUF_OLD_def BUF_ERROR_def

text \<open>Flag facts by bit number; with these, status reasoning is \<open>simp add: flags\<close>.\<close>

lemma flag_tests:
  "has st BUF_LOCKED = bit st 0" "has st BUF_VALID = bit st 1" "has st BUF_DELWRITE = bit st 2"
  "has st BUF_IOBUSY = bit st 3" "has st BUF_WANTED = bit st 4" "has st BUF_OLD = bit st 5"
  "has st BUF_ERROR = bit st 7"
  by (simp_all only: buf_flags has_push_bit)

lemma flag_updates:
  assumes "n < 32"
  shows "bit (setf BUF_LOCKED st) n \<longleftrightarrow> bit st n \<or> n = 0"
    and "bit (setf BUF_VALID st) n \<longleftrightarrow> bit st n \<or> n = 1"
    and "bit (setf BUF_DELWRITE st) n \<longleftrightarrow> bit st n \<or> n = 2"
    and "bit (setf BUF_IOBUSY st) n \<longleftrightarrow> bit st n \<or> n = 3"
    and "bit (setf BUF_ERROR st) n \<longleftrightarrow> bit st n \<or> n = 7"
    and "bit (clrf BUF_LOCKED st) n \<longleftrightarrow> bit st n \<and> n \<noteq> 0"
    and "bit (clrf BUF_DELWRITE st) n \<longleftrightarrow> bit st n \<and> n \<noteq> 2"
    and "bit (clrf BUF_IOBUSY st) n \<longleftrightarrow> bit st n \<and> n \<noteq> 3"
    and "bit (clrf BUF_WANTED st) n \<longleftrightarrow> bit st n \<and> n \<noteq> 4"
    and "bit (clrf BUF_OLD st) n \<longleftrightarrow> bit st n \<and> n \<noteq> 5"
    and "bit (clrf BUF_ERROR st) n \<longleftrightarrow> bit st n \<and> n \<noteq> 7"
  unfolding buf_flags by (rule bit_setf [OF assms] bit_clrf [OF assms], simp)+

lemmas flags = flag_tests flag_updates

section \<open>Statistics, devices and the cache state\<close>

record bufstats =
  hits :: u64
  misses :: u64
  delayed_writes :: u64
  free_waits :: u64
  busy_waits :: u64
  reads :: u64
  writes :: u64
  readaheads :: u64
  starved :: u64
  read_oob :: u64
  write_oob :: u64
  flushed :: u64

definition zero_stats :: bufstats where
  "zero_stats = \<lparr>hits = 0, misses = 0, delayed_writes = 0, free_waits = 0, busy_waits = 0,
     reads = 0, writes = 0, readaheads = 0, starved = 0, read_oob = 0, write_oob = 0,
     flushed = 0\<rparr>"

text \<open>
  A driver's function table (\<open>uiox_blk_ops_t\<close>): each entry may be NULL. The drivers
  act on their own state \<open>'m\<close>; \<open>op_read\<close> fills the caller's buffer.
\<close>

record 'm blk_ops =
  op_read :: "('m \<Rightarrow> u32 \<Rightarrow> u8 list \<Rightarrow> u8 list \<times> 'm) option"
  op_write :: "('m \<Rightarrow> u32 \<Rightarrow> u8 list \<Rightarrow> 'm) option"
  op_num_blocks :: "('m \<Rightarrow> u32) option"

text \<open>
  \<open>blockdev dev\<close> is \<open>uiox_dev_lookup\<close>'s answer for block class \<open>dev\<close>, unit 0: no device,
  a device without a function table (\<open>Some None\<close>), or its table.
\<close>

record 'm bcache =
  hdr :: "bref \<Rightarrow> bufhdr"
  stats :: bufstats
  blockdev :: "u8 \<Rightarrow> 'm blk_ops option option"
  media :: 'm

definition upd :: "bref \<Rightarrow> (bufhdr \<Rightarrow> bufhdr) \<Rightarrow> 'm bcache \<Rightarrow> 'm bcache" where
  "upd b f s = s\<lparr>hdr := (hdr s)(b := f (hdr s b))\<rparr>"

text \<open>A store through a pointer that the code has tested: \<open>if (p) p->\<dots> = \<dots>\<close>.\<close>

definition updp :: "bptr \<Rightarrow> (bufhdr \<Rightarrow> bufhdr) \<Rightarrow> 'm bcache \<Rightarrow> 'm bcache" where
  "updp p f s = (case p of None \<Rightarrow> s | Some b \<Rightarrow> upd b f s)"

lemma upd_sel [simp]:
  "hdr (upd b f s) = (hdr s)(b := f (hdr s b))" "stats (upd b f s) = stats s"
  "blockdev (upd b f s) = blockdev s" "media (upd b f s) = media s"
  by (simp_all add: upd_def)

lemma updp_simps [simp]: "updp None f s = s" "updp (Some b) f s = upd b f s"
  by (simp_all add: updp_def)

section \<open>The platform hooks (\<open>bcache_plat_dev.c\<close>)\<close>

definition blockdev_ops :: "u8 \<Rightarrow> 'm bcache \<Rightarrow> 'm blk_ops option" where
  "blockdev_ops d s = (case blockdev s d of None \<Rightarrow> None | Some ops \<Rightarrow> ops)"

definition bcache_plat_read_block :: "u8 \<Rightarrow> u32 \<Rightarrow> bref \<Rightarrow> 'm bcache \<Rightarrow> 'm bcache" where
  "bcache_plat_read_block d n b s =
     (case blockdev_ops d s of
        None \<Rightarrow> s
      | Some ops \<Rightarrow>
          (case op_read ops of
             None \<Rightarrow> s
           | Some rd \<Rightarrow> (let (buf, m) = rd (media s) n (data (hdr s b))
               in upd b (\<lambda>h. h\<lparr>data := buf\<rparr>) (s\<lparr>media := m\<rparr>))))"

definition bcache_plat_write_block :: "u8 \<Rightarrow> u32 \<Rightarrow> u8 list \<Rightarrow> 'm bcache \<Rightarrow> 'm bcache" where
  "bcache_plat_write_block d n buf s =
     (case blockdev_ops d s of
        None \<Rightarrow> s
      | Some ops \<Rightarrow>
          (case op_write ops of
             None \<Rightarrow> s
           | Some wr \<Rightarrow> s\<lparr>media := wr (media s) n buf\<rparr>))"

definition bcache_plat_num_blocks :: "u8 \<Rightarrow> 'm bcache \<Rightarrow> u32" where
  "bcache_plat_num_blocks d s =
     (case blockdev_ops d s of
        None \<Rightarrow> 0
      | Some ops \<Rightarrow> (case op_num_blocks ops of None \<Rightarrow> 0 | Some f \<Rightarrow> f (media s)))"

text \<open>What a write does to the driver's state, and nothing else.\<close>

definition medium_write :: "u8 \<Rightarrow> u32 \<Rightarrow> u8 list \<Rightarrow> 'm bcache \<Rightarrow> 'm" where
  "medium_write d n buf s = media (bcache_plat_write_block d n buf s)"

lemma plat_write_sel [simp]:
  "hdr (bcache_plat_write_block d n buf s) = hdr s"
  "stats (bcache_plat_write_block d n buf s) = stats s"
  "blockdev (bcache_plat_write_block d n buf s) = blockdev s"
  by (auto simp: bcache_plat_write_block_def split: option.splits)

lemma medium_write_cong:
  "blockdev s = blockdev t \<Longrightarrow> media s = media t \<Longrightarrow> medium_write d n buf s = medium_write d n buf t"
  by (auto simp: medium_write_def bcache_plat_write_block_def blockdev_ops_def split: option.splits)

section \<open>Hash queues (\<open>getblk.c\<close>)\<close>

definition bcache_hash_slot :: "u8 \<Rightarrow> u32 \<Rightarrow> nat" where
  "bcache_hash_slot d n = unat ((ucast d * 31 XOR n) mod (of_nat NUM_HASH_QUEUES :: u32))"

definition bcache_hash_insert :: "bref \<Rightarrow> 'm bcache \<Rightarrow> 'm bcache" where
  "bcache_hash_insert b s =
     (let h = HashHead (bcache_hash_slot (dev (hdr s b)) (blkno (hdr s b)));
          s = upd b (\<lambda>x. x\<lparr>hash_next := hash_next (hdr s h)\<rparr>) s;
          s = upd b (\<lambda>x. x\<lparr>hash_prev := Some h\<rparr>) s;
          s = updp (hash_next (hdr s b)) (\<lambda>x. x\<lparr>hash_prev := Some b\<rparr>) s
      in upd h (\<lambda>x. x\<lparr>hash_next := Some b\<rparr>) s)"

definition bcache_hash_remove :: "bref \<Rightarrow> 'm bcache \<Rightarrow> 'm bcache" where
  "bcache_hash_remove b s =
     (let s = updp (hash_prev (hdr s b)) (\<lambda>x. x\<lparr>hash_next := hash_next (hdr s b)\<rparr>) s;
          s = updp (hash_next (hdr s b)) (\<lambda>x. x\<lparr>hash_prev := hash_prev (hdr s b)\<rparr>) s
      in upd b (\<lambda>x. x\<lparr>hash_next := None, hash_prev := None\<rparr>) s)"

text \<open>
  The walk \<open>while (b) { if match return b; b = b->hash_next; } return NULL;\<close>. It has no
  bound, so its result is an option: \<open>None\<close> when the walk never returns, \<open>Some p\<close> when it
  returns the pointer \<open>p\<close>.
\<close>

partial_function (option) hash_walk :: "(bref \<Rightarrow> bufhdr) \<Rightarrow> u8 \<Rightarrow> u32 \<Rightarrow> bptr \<Rightarrow> bptr option"
where
  "hash_walk h d n p =
     (if p = None then Some None
      else if dev (h (the p)) = d \<and> blkno (h (the p)) = n then Some p
      else hash_walk h d n (hash_next (h (the p))))"

definition bcache_hash_lookup :: "u8 \<Rightarrow> u32 \<Rightarrow> 'm bcache \<Rightarrow> bptr option" where
  "bcache_hash_lookup d n s =
     hash_walk (hdr s) d n (hash_next (hdr s (HashHead (bcache_hash_slot d n))))"

section \<open>The free list (\<open>getblk.c\<close>)\<close>

definition bcache_fl_remove :: "bref \<Rightarrow> 'm bcache \<Rightarrow> 'm bcache" where
  "bcache_fl_remove b s =
     (let s = updp (free_prev (hdr s b)) (\<lambda>x. x\<lparr>free_next := free_next (hdr s b)\<rparr>) s;
          s = updp (free_next (hdr s b)) (\<lambda>x. x\<lparr>free_prev := free_prev (hdr s b)\<rparr>) s
      in upd b (\<lambda>x. x\<lparr>free_next := None, free_prev := None\<rparr>) s)"

definition bcache_fl_insert_tail :: "bref \<Rightarrow> 'm bcache \<Rightarrow> 'm bcache" where
  "bcache_fl_insert_tail b s =
     (let prev = free_prev (hdr s FreeHead);
          s = upd b (\<lambda>x. x\<lparr>free_prev := prev\<rparr>) s;
          s = upd b (\<lambda>x. x\<lparr>free_next := Some FreeHead\<rparr>) s;
          s = updp prev (\<lambda>x. x\<lparr>free_next := Some b\<rparr>) s
      in upd FreeHead (\<lambda>x. x\<lparr>free_prev := Some b\<rparr>) s)"

definition bcache_fl_insert_head :: "bref \<Rightarrow> 'm bcache \<Rightarrow> 'm bcache" where
  "bcache_fl_insert_head b s =
     (let next = free_next (hdr s FreeHead);
          s = upd b (\<lambda>x. x\<lparr>free_next := next\<rparr>) s;
          s = upd b (\<lambda>x. x\<lparr>free_prev := Some FreeHead\<rparr>) s;
          s = updp next (\<lambda>x. x\<lparr>free_prev := Some b\<rparr>) s
      in upd FreeHead (\<lambda>x. x\<lparr>free_next := Some b\<rparr>) s)"

definition bcache_fl_empty :: "'m bcache \<Rightarrow> bool" where
  "bcache_fl_empty s \<longleftrightarrow> free_next (hdr s FreeHead) = Some FreeHead"

definition bcache_fl_pop_head :: "'m bcache \<Rightarrow> bptr \<times> 'm bcache" where
  "bcache_fl_pop_head s =
     (if free_next (hdr s FreeHead) = Some FreeHead then (None, s)
      else (case free_next (hdr s FreeHead) of
              None \<Rightarrow> (None, s)
            | Some b \<Rightarrow> (Some b, bcache_fl_remove b s)))"

section \<open>\<open>bcache_init\<close>\<close>

definition zero_hdr :: bufhdr where
  "zero_hdr = \<lparr>dev = 0, blkno = 0, status = 0, data = replicate BLOCK_SIZE 0,
     hash_next = None, hash_prev = None, free_next = None, free_prev = None\<rparr>"

definition init_hash_head :: "nat \<Rightarrow> bufhdr" where
  "init_hash_head k = zero_hdr\<lparr>dev := 255, blkno := 0xFFFFFFFF, status := 0,
     hash_next := Some (HashHead k), hash_prev := Some (HashHead k)\<rparr>"

definition init_heads :: "bref \<Rightarrow> bufhdr" where
  "init_heads b =
     (case b of
        FreeHead \<Rightarrow> zero_hdr\<lparr>free_next := Some FreeHead, free_prev := Some FreeHead\<rparr>
      | HashHead k \<Rightarrow> (if k < NUM_HASH_QUEUES then init_hash_head k else zero_hdr)
      | Buf i \<Rightarrow> zero_hdr)"

text \<open>The last loop of \<open>bcache_init\<close>: each buffer is unkeyed and appended to the free list.\<close>

definition init_buf :: "nat \<Rightarrow> 'm bcache \<Rightarrow> 'm bcache" where
  "init_buf i s =
     bcache_fl_insert_tail (Buf i)
       (upd (Buf i) (\<lambda>x. x\<lparr>dev := 255, blkno := 0xFFFFFFFF, status := 0,
                           hash_next := None, hash_prev := None\<rparr>) s)"

definition bcache_init :: "'m bcache \<Rightarrow> 'm bcache" where
  "bcache_init s =
     fold init_buf [0..<NUM_BUFFERS] (s\<lparr>hdr := init_heads, stats := zero_stats\<rparr>)"

section \<open>The abstraction to rings\<close>

definition fnx :: "'m bcache \<Rightarrow> bref \<Rightarrow> bptr" where "fnx s b = free_next (hdr s b)"
definition fpv :: "'m bcache \<Rightarrow> bref \<Rightarrow> bptr" where "fpv s b = free_prev (hdr s b)"
definition hnx :: "'m bcache \<Rightarrow> bref \<Rightarrow> bptr" where "hnx s b = hash_next (hdr s b)"
definition hpv :: "'m bcache \<Rightarrow> bref \<Rightarrow> bptr" where "hpv s b = hash_prev (hdr s b)"

lemmas link_defs = fnx_def fpv_def hnx_def hpv_def

definition free_ring :: "'m bcache \<Rightarrow> bref list \<Rightarrow> bool" where
  "free_ring s xs \<longleftrightarrow> ring (fnx s) (fpv s) FreeHead xs"

definition hash_ring :: "'m bcache \<Rightarrow> nat \<Rightarrow> bref list \<Rightarrow> bool" where
  "hash_ring s k xs \<longleftrightarrow> ring (hnx s) (hpv s) (HashHead k) xs"

text \<open>The fields that do not belong to the free list, seen together.\<close>

definition core :: "bufhdr \<Rightarrow> u8 \<times> u32 \<times> u32 \<times> u8 list \<times> bptr \<times> bptr" where
  "core h = (dev h, blkno h, status h, data h, hash_next h, hash_prev h)"

lemma core_eqD:
  assumes "core h = core k"
  shows "dev h = dev k" "blkno h = blkno k" "status h = status k" "data h = data k"
    "hash_next h = hash_next k" "hash_prev h = hash_prev k"
  using assms by (simp_all add: core_def)

lemma hash_ring_core_cong:
  assumes "\<And>b. core (hdr s b) = core (hdr t b)"
  shows "hash_ring s k xs = hash_ring t k xs"
proof -
  have "hnx s = hnx t" "hpv s = hpv t"
    using core_eqD(5,6) [OF assms] by (auto simp: link_defs)
  then show ?thesis by (simp add: hash_ring_def)
qed

subsection \<open>Free-list operations refine list operations\<close>

lemma fl_core [simp]:
  "core (hdr (bcache_fl_remove b s) c) = core (hdr s c)"
  "core (hdr (bcache_fl_insert_tail b s) c) = core (hdr s c)"
  "core (hdr (bcache_fl_insert_head b s) c) = core (hdr s c)"
  by (auto simp: core_def bcache_fl_remove_def bcache_fl_insert_tail_def
      bcache_fl_insert_head_def Let_def updp_def split: option.splits)

lemma fl_frame [simp]:
  "stats (bcache_fl_remove b s) = stats s" "blockdev (bcache_fl_remove b s) = blockdev s"
  "media (bcache_fl_remove b s) = media s"
  "stats (bcache_fl_insert_tail b s) = stats s"
  "blockdev (bcache_fl_insert_tail b s) = blockdev s"
  "media (bcache_fl_insert_tail b s) = media s"
  "stats (bcache_fl_insert_head b s) = stats s"
  "blockdev (bcache_fl_insert_head b s) = blockdev s"
  "media (bcache_fl_insert_head b s) = media s"
  by (auto simp: bcache_fl_remove_def bcache_fl_insert_tail_def
      bcache_fl_insert_head_def Let_def updp_def split: option.splits)

lemma free_ring_insert_tail:
  assumes r: "free_ring s xs" and b: "b \<notin> set xs" "b \<noteq> FreeHead"
  shows "free_ring (bcache_fl_insert_tail b s) (xs @ [b])"
proof -
  obtain p where p: "fpv s FreeHead = Some p" "p = FreeHead \<or> p \<in> set xs"
    using ring_ends [OF r [unfolded free_ring_def]] by (cases xs rule: rev_cases) auto
  with b have "b \<noteq> p" by auto
  then have "fnx (bcache_fl_insert_tail b s) = (fnx s)(b := Some FreeHead, p := Some b)"
    and "fpv (bcache_fl_insert_tail b s) = (fpv s)(b := fpv s FreeHead, FreeHead := Some b)"
    using p(1) b(2) by (auto intro!: ext simp: link_defs bcache_fl_insert_tail_def Let_def)
  with ring_insert_last [OF r [unfolded free_ring_def] b p(1)] show ?thesis
    by (simp add: free_ring_def)
qed

lemma free_ring_insert_head:
  assumes r: "free_ring s xs" and b: "b \<notin> set xs" "b \<noteq> FreeHead"
  shows "free_ring (bcache_fl_insert_head b s) (b # xs)"
proof -
  obtain p where p: "fnx s FreeHead = Some p" "p = FreeHead \<or> p \<in> set xs"
    using ring_ends [OF r [unfolded free_ring_def]] by (cases xs) auto
  with b have "b \<noteq> p" by auto
  then have "fnx (bcache_fl_insert_head b s) = (fnx s)(b := fnx s FreeHead, FreeHead := Some b)"
    and "fpv (bcache_fl_insert_head b s) = (fpv s)(b := Some FreeHead, p := Some b)"
    using p(1) b(2) by (auto intro!: ext simp: link_defs bcache_fl_insert_head_def Let_def)
  with ring_insert_first [OF r [unfolded free_ring_def] b p(1)] show ?thesis
    by (simp add: free_ring_def)
qed

lemma free_ring_remove:
  assumes r: "free_ring s (as @ b # bs)"
  shows "free_ring (bcache_fl_remove b s) (as @ bs)"
proof -
  note r' = r [unfolded free_ring_def]
  obtain p n where pn: "fpv s b = Some p" "fnx s b = Some n"
    using ring_links [OF r'] by (cases as rule: rev_cases; cases bs) auto
  moreover have "p \<noteq> b" "n \<noteq> b"
    using pn ring_links [OF r'] ring_distinct [OF r']
    by (cases as rule: rev_cases; cases bs; auto)+
  ultimately have "fnx (bcache_fl_remove b s) = (fnx s)(p := fnx s b, b := None)"
    and "fpv (bcache_fl_remove b s) = (fpv s)(n := fpv s b, b := None)"
    by (auto intro!: ext simp: link_defs bcache_fl_remove_def Let_def)
  with ring_remove [OF r' pn] show ?thesis by (simp add: free_ring_def)
qed

lemma fl_empty_iff: "free_ring s xs \<Longrightarrow> bcache_fl_empty s \<longleftrightarrow> xs = []"
  using ring_empty_iff [of "fnx s" "fpv s" FreeHead xs]
  by (simp add: bcache_fl_empty_def free_ring_def fnx_def)

lemma fl_pop_head_Nil: "free_ring s [] \<Longrightarrow> bcache_fl_pop_head s = (None, s)"
  using fl_empty_iff [of s "[]"] by (simp add: bcache_fl_pop_head_def bcache_fl_empty_def)

lemma fl_pop_head_Cons:
  assumes "free_ring s (b # xs)"
  shows "bcache_fl_pop_head s = (Some b, bcache_fl_remove b s)"
    and "free_ring (bcache_fl_remove b s) xs"
proof -
  have "free_next (hdr s FreeHead) = Some b" "b \<noteq> FreeHead"
    using assms ring_ends [of "fnx s" "fpv s" FreeHead "b # xs"]
    by (auto simp: free_ring_def fnx_def ring_def)
  then show "bcache_fl_pop_head s = (Some b, bcache_fl_remove b s)"
    by (simp add: bcache_fl_pop_head_def)
  show "free_ring (bcache_fl_remove b s) xs"
    using free_ring_remove [of s "[]" b xs] assms by simp
qed

subsection \<open>Hash-queue operations refine list operations\<close>

lemma hash_ring_insert:
  assumes r: "hash_ring s k xs" and b: "b \<notin> set xs" "b \<noteq> HashHead k"
    and k: "bcache_hash_slot (dev (hdr s b)) (blkno (hdr s b)) = k"
  shows "hash_ring (bcache_hash_insert b s) k (b # xs)"
proof -
  obtain p where p: "hnx s (HashHead k) = Some p" "p = HashHead k \<or> p \<in> set xs"
    using ring_ends [OF r [unfolded hash_ring_def]] by (cases xs) auto
  with b have "b \<noteq> p" by auto
  then have "hnx (bcache_hash_insert b s) = (hnx s)(b := hnx s (HashHead k), HashHead k := Some b)"
    and "hpv (bcache_hash_insert b s) = (hpv s)(b := Some (HashHead k), p := Some b)"
    using p(1) b(2) by (auto intro!: ext simp: link_defs bcache_hash_insert_def Let_def k)
  with ring_insert_first [OF r [unfolded hash_ring_def] b p(1)] show ?thesis
    by (simp add: hash_ring_def)
qed

lemma hash_ring_remove:
  assumes r: "hash_ring s k (as @ b # bs)"
  shows "hash_ring (bcache_hash_remove b s) k (as @ bs)"
proof -
  note r' = r [unfolded hash_ring_def]
  obtain p n where pn: "hpv s b = Some p" "hnx s b = Some n"
    using ring_links [OF r'] by (cases as rule: rev_cases; cases bs) auto
  moreover have "p \<noteq> b" "n \<noteq> b"
    using pn ring_links [OF r'] ring_distinct [OF r']
    by (cases as rule: rev_cases; cases bs; auto)+
  ultimately have "hnx (bcache_hash_remove b s) = (hnx s)(p := hnx s b, b := None)"
    and "hpv (bcache_hash_remove b s) = (hpv s)(n := hpv s b, b := None)"
    by (auto intro!: ext simp: link_defs bcache_hash_remove_def Let_def)
  with ring_remove [OF r' pn] show ?thesis by (simp add: hash_ring_def)
qed

end
