(* ===== verification/BufAlg.thy ===== *)
theory BufAlg
  imports BufCache
begin

text \<open>
  The five algorithms of the block buffer cache (\<open>getblk\<close>, \<open>brelse\<close>, \<open>bread\<close>,
  \<open>breada\<close>, \<open>bwrite\<close>) with \<open>bdwrite\<close> and \<open>bflush\<close>, over the pointer-level state of
  BufCache.  An operation that may not return has an option result, \<open>None\<close> for "does
  not return"; console output is not modelled.
\<close>

section \<open>brelse\<close>

definition bstat :: "(bufstats \<Rightarrow> bufstats) \<Rightarrow> 'm bcache \<Rightarrow> 'm bcache" where
  "bstat f s = s\<lparr>stats := f (stats s)\<rparr>"

definition upd_status :: "bref \<Rightarrow> (u32 \<Rightarrow> u32) \<Rightarrow> 'm bcache \<Rightarrow> 'm bcache" where
  "upd_status b f = upd b (\<lambda>h. h\<lparr>status := f (status h)\<rparr>)"

definition brelse :: "bptr \<Rightarrow> 'm bcache \<Rightarrow> 'm bcache" where
  "brelse p s =
     (case p of
        None \<Rightarrow> s
      | Some b \<Rightarrow>
          (let s = (if has (status (hdr s b)) BUF_VALID \<and> \<not> has (status (hdr s b)) BUF_OLD
                    then bcache_fl_insert_tail b s
                    else bcache_fl_insert_head b s)
           in upd_status b (clrf (BUF_LOCKED OR BUF_WANTED OR BUF_OLD)) s))"

section \<open>getblk\<close>

definition BCACHE_SPIN_LIMIT :: nat where "BCACHE_SPIN_LIMIT = 100000"

text \<open>Scenario 3: the popped buffer is delayed-write; write it and release it.\<close>

definition getblk_flush :: "bref \<Rightarrow> 'm bcache \<Rightarrow> 'm bcache" where
  "getblk_flush b s =
     (let s = bstat (\<lambda>t. t\<lparr>delayed_writes := delayed_writes t + 1\<rparr>) s;
          s = upd_status b (setf BUF_LOCKED) s;
          s = bcache_plat_write_block (dev (hdr s b)) (blkno (hdr s b)) (data (hdr s b)) s;
          s = upd_status b (clrf (BUF_DELWRITE OR BUF_IOBUSY)) s;
          s = upd_status b (setf BUF_VALID) s
      in brelse (Some b) s)"

text \<open>Scenario 2: the popped buffer is given to the new block.\<close>

definition getblk_reassign :: "u8 \<Rightarrow> u32 \<Rightarrow> bref \<Rightarrow> 'm bcache \<Rightarrow> 'm bcache" where
  "getblk_reassign d n b s =
     (let s = bcache_hash_remove b s;
          s = upd b (\<lambda>h. h\<lparr>dev := d, blkno := n, status := BUF_LOCKED\<rparr>) s;
          s = bcache_hash_insert b s
      in bstat (\<lambda>t. t\<lparr>misses := misses t + 1\<rparr>) s)"

text \<open>Scenario 1: the cached buffer is free; take it.\<close>

definition getblk_hit :: "bref \<Rightarrow> 'm bcache \<Rightarrow> 'm bcache" where
  "getblk_hit b s =
     (let s = bcache_fl_remove b s;
          s = upd_status b (setf BUF_LOCKED) s;
          s = upd_status b (clrf BUF_WANTED) s
      in bstat (\<lambda>t. t\<lparr>hits := hits t + 1\<rparr>) s)"

fun getblk_loop :: "nat \<Rightarrow> u8 \<Rightarrow> u32 \<Rightarrow> 'm bcache \<Rightarrow> (bptr \<times> 'm bcache) option" where
  "getblk_loop 0 d n s = Some (None, s)"
| "getblk_loop (Suc spins) d n s =
     (case bcache_hash_lookup d n s of
        None \<Rightarrow> None
      | Some (Some b) \<Rightarrow>
          if has (status (hdr s b)) BUF_LOCKED
          then getblk_loop spins d n (bstat (\<lambda>t. t\<lparr>busy_waits := busy_waits t + 1\<rparr>) s)
          else Some (Some b, getblk_hit b s)
      | Some None \<Rightarrow>
          if bcache_fl_empty s
          then getblk_loop spins d n (bstat (\<lambda>t. t\<lparr>free_waits := free_waits t + 1\<rparr>) s)
          else
            (case bcache_fl_pop_head s of
               (None, _) \<Rightarrow> None \<comment> \<open>an unlinked free list: the code would follow NULL\<close>
             | (Some b, s) \<Rightarrow>
                 if has (status (hdr s b)) BUF_DELWRITE
                 then getblk_loop spins d n (getblk_flush b s)
                 else Some (Some b, getblk_reassign d n b s)))"

definition getblk :: "u8 \<Rightarrow> u32 \<Rightarrow> 'm bcache \<Rightarrow> (bptr \<times> 'm bcache) option" where
  "getblk d n s = getblk_loop BCACHE_SPIN_LIMIT d n s"

section \<open>bread and breada\<close>

definition bread :: "u8 \<Rightarrow> u32 \<Rightarrow> 'm bcache \<Rightarrow> (bptr \<times> 'm bcache) option" where
  "bread d n s =
     (case getblk d n s of
        None \<Rightarrow> None
      | Some (None, s) \<Rightarrow> Some (None, s)
      | Some (Some b, s) \<Rightarrow>
          if has (status (hdr s b)) BUF_VALID
          then Some (Some b, bstat (\<lambda>t. t\<lparr>reads := reads t + 1\<rparr>) s)
          else
            (let expected = bcache_plat_num_blocks d s in
             if expected \<noteq> 0 \<and> expected \<le> n
             then Some (Some b, upd_status b (setf BUF_ERROR) s)
             else
               (let s = upd_status b (setf BUF_IOBUSY) s;
                    s = bcache_plat_read_block d n b s;
                    s = upd_status b (clrf BUF_IOBUSY) s;
                    s = upd_status b (setf BUF_VALID) s;
                    s = upd_status b (clrf BUF_ERROR) s
                in Some (Some b, bstat (\<lambda>t. t\<lparr>reads := reads t + 1\<rparr>) s))))"

text \<open>The read-ahead half of \<open>breada\<close>, for a block that is absent or not valid.\<close>

definition breada_ahead :: "u8 \<Rightarrow> u32 \<Rightarrow> 'm bcache \<Rightarrow> 'm bcache option" where
  "breada_ahead d ra s =
     (case getblk d ra s of
        None \<Rightarrow> None
      | Some (None, s) \<Rightarrow> Some s
      | Some (Some b, s) \<Rightarrow>
          if has (status (hdr s b)) BUF_VALID then Some (brelse (Some b) s)
          else
            (let s = upd_status b (setf BUF_IOBUSY) s;
                 s = bcache_plat_read_block d ra b s;
                 s = upd_status b (clrf BUF_IOBUSY) s;
                 s = upd_status b (setf BUF_VALID) s;
                 s = bstat (\<lambda>t. t\<lparr>readaheads := readaheads t + 1\<rparr>) s
             in Some (brelse (Some b) s)))"

definition breada :: "u8 \<Rightarrow> u32 \<Rightarrow> u32 \<Rightarrow> 'm bcache \<Rightarrow> (bptr \<times> 'm bcache) option" where
  "breada d n ra s =
     (if ra = 0 \<or> ra = n then bread d n s
      else
        (case bread d n s of
           None \<Rightarrow> None
         | Some (None, s) \<Rightarrow> Some (None, s)
         | Some (Some b, s) \<Rightarrow>
             (case bcache_hash_lookup d ra s of
                None \<Rightarrow> None
              | Some p \<Rightarrow>
                  if p = None \<or> \<not> has (status (hdr s (the p))) BUF_VALID
                  then (case breada_ahead d ra s of
                          None \<Rightarrow> None
                        | Some s \<Rightarrow> Some (Some b, s))
                  else Some (Some b, s))))"

section \<open>bwrite, bdwrite, bflush\<close>

definition bwrite :: "bptr \<Rightarrow> bool \<Rightarrow> bool \<Rightarrow> 'm bcache \<Rightarrow> 'm bcache" where
  "bwrite p sync delayed s =
     (case p of
        None \<Rightarrow> s
      | Some b \<Rightarrow>
          if delayed
          then bstat (\<lambda>t. t\<lparr>writes := writes t + 1\<rparr>)
                 (brelse (Some b) (upd_status b (setf BUF_DELWRITE) s))
          else
            (let s = upd_status b (setf BUF_IOBUSY) s;
                 s = bcache_plat_write_block (dev (hdr s b)) (blkno (hdr s b)) (data (hdr s b)) s;
                 s = upd_status b (clrf BUF_IOBUSY) s;
                 s = upd_status b (setf BUF_VALID) s;
                 s = upd_status b (clrf (BUF_DELWRITE OR BUF_ERROR)) s;
                 s = bstat (\<lambda>t. t\<lparr>writes := writes t + 1\<rparr>) s
             in brelse (Some b) s))"

definition bdwrite :: "bptr \<Rightarrow> 'm bcache \<Rightarrow> 'm bcache" where
  "bdwrite p s = bwrite p False True s"

text \<open>One pass of \<open>bflush\<close>'s loop.\<close>

definition bflush_one :: "u8 \<Rightarrow> nat \<Rightarrow> 'm bcache \<Rightarrow> 'm bcache" where
  "bflush_one d i s =
     (let b = Buf i in
      if dev (hdr s b) \<noteq> d then s
      else if \<not> has (status (hdr s b)) BUF_DELWRITE then s
      else if has (status (hdr s b)) BUF_LOCKED then s
      else
        (let s = upd_status b (setf BUF_IOBUSY) s;
             s = bcache_plat_write_block (dev (hdr s b)) (blkno (hdr s b)) (data (hdr s b)) s;
             s = upd_status b (clrf BUF_IOBUSY) s;
             s = upd_status b (setf BUF_VALID) s;
             s = upd_status b (clrf BUF_DELWRITE) s
         in bstat (\<lambda>t. t\<lparr>writes := writes t + 1\<rparr>) s))"

definition bflush :: "u8 \<Rightarrow> 'm bcache \<Rightarrow> 'm bcache" where
  "bflush d s = fold (bflush_one d) [0..<NUM_BUFFERS] s"

definition bflush_all :: "'m bcache \<Rightarrow> 'm bcache" where
  "bflush_all s = fold (\<lambda>d. bflush (of_nat d)) [0..<MAX_DEVICES] s"

section \<open>The invariant\<close>

abbreviation locked :: "'m bcache \<Rightarrow> bref \<Rightarrow> bool" where
  "locked s b \<equiv> has (status (hdr s b)) BUF_LOCKED"

definition is_buf :: "bref \<Rightarrow> bool" where
  "is_buf b \<longleftrightarrow> (\<exists>i<NUM_BUFFERS. b = Buf i)"

lemma is_buf_simps [simp]: "\<not> is_buf FreeHead" "\<not> is_buf (HashHead k)"
  by (simp_all add: is_buf_def)

definition keyed :: "'m bcache \<Rightarrow> bref \<Rightarrow> u8 \<Rightarrow> u32 \<Rightarrow> bool" where
  "keyed s b d n \<longleftrightarrow> dev (hdr s b) = d \<and> blkno (hdr s b) = n"

text \<open>
  \<open>F\<close> is the free list and \<open>Q k\<close> hash queue \<open>k\<close>. The free list holds exactly the
  unlocked buffers of the pool; every queued buffer is on the queue its key hashes to,
  once, and an unqueued one has NULL hash links; the sentinels keep the key that
  \<open>bcache_init\<close> gave them.
\<close>

definition cache_inv :: "'m bcache \<Rightarrow> bref list \<Rightarrow> (nat \<Rightarrow> bref list) \<Rightarrow> bool" where
  "cache_inv s F Q \<longleftrightarrow>
     free_ring s F \<and> (\<forall>b. b \<in> set F \<longleftrightarrow> is_buf b \<and> \<not> locked s b) \<and>
     (\<forall>k<NUM_HASH_QUEUES. hash_ring s k (Q k) \<and> keyed s (HashHead k) 255 0xFFFFFFFF \<and>
        (\<forall>b\<in>set (Q k). is_buf b \<and> bcache_hash_slot (dev (hdr s b)) (blkno (hdr s b)) = k) \<and>
        (\<forall>a\<in>set (Q k). \<forall>b\<in>set (Q k).
           keyed s a (dev (hdr s b)) (blkno (hdr s b)) \<longrightarrow> a = b)) \<and>
     (\<forall>b. is_buf b \<and> (\<forall>k<NUM_HASH_QUEUES. b \<notin> set (Q k)) \<longrightarrow>
        hash_next (hdr s b) = None \<and> hash_prev (hdr s b) = None)"

definition cached_buf :: "'m bcache \<Rightarrow> (nat \<Rightarrow> bref list) \<Rightarrow> u8 \<Rightarrow> u32 \<Rightarrow> bref option" where
  "cached_buf s Q d n = find (\<lambda>b. keyed s b d n) (Q (bcache_hash_slot d n))"

lemma hash_slot_less: "bcache_hash_slot d n < NUM_HASH_QUEUES"
proof -
  have "x mod (64 :: u32) < 64" for x by (rule word_mod_less_divisor) simp
  then have "unat (x mod (64 :: u32)) < unat (64 :: u32)" for x
    using word_less_nat_alt by blast
  then show ?thesis by (simp add: bcache_hash_slot_def NUM_HASH_QUEUES_def)
qed

lemma cache_inv_free: "cache_inv s F Q \<Longrightarrow> free_ring s F"
  by (simp add: cache_inv_def)

lemma cache_inv_in_free: "cache_inv s F Q \<Longrightarrow> b \<in> set F \<longleftrightarrow> is_buf b \<and> \<not> locked s b"
  by (simp add: cache_inv_def)

lemma cache_inv_hash:
  assumes "cache_inv s F Q" and "k < NUM_HASH_QUEUES"
  shows "hash_ring s k (Q k)" and "keyed s (HashHead k) 255 0xFFFFFFFF"
    and "b \<in> set (Q k) \<Longrightarrow> is_buf b"
    and "b \<in> set (Q k) \<Longrightarrow> bcache_hash_slot (dev (hdr s b)) (blkno (hdr s b)) = k"
    and "a \<in> set (Q k) \<Longrightarrow> b \<in> set (Q k) \<Longrightarrow>
      keyed s a (dev (hdr s b)) (blkno (hdr s b)) \<Longrightarrow> a = b"
  using assms by (auto simp: cache_inv_def)

lemma cache_inv_unqueued:
  assumes "cache_inv s F Q" and "is_buf b" and "\<And>k. k < NUM_HASH_QUEUES \<Longrightarrow> b \<notin> set (Q k)"
  shows "hash_next (hdr s b) = None" and "hash_prev (hdr s b) = None"
  using assms by (auto simp: cache_inv_def)

text \<open>
  How every operation is shown to keep the invariant: if the hash links and the keys
  are untouched, only the free list and the lock bits have to be looked at.
\<close>

lemma cache_invI:
  assumes inv: "cache_inv s F Q" and fr: "free_ring t F'"
    and mem: "\<And>b. b \<in> set F' \<longleftrightarrow> is_buf b \<and> \<not> locked t b"
    and same: "\<And>b. dev (hdr t b) = dev (hdr s b) \<and> blkno (hdr t b) = blkno (hdr s b) \<and>
      hash_next (hdr t b) = hash_next (hdr s b) \<and> hash_prev (hdr t b) = hash_prev (hdr s b)"
  shows "cache_inv t F' Q"
proof -
  have "hnx t = hnx s" "hpv t = hpv s" using same by (auto simp: link_defs)
  then have H: "hash_ring t k xs = hash_ring s k xs" for k xs by (simp add: hash_ring_def)
  have K: "keyed t b d n = keyed s b d n" for b d n using same by (simp add: keyed_def)
  have S: "dev (hdr t b) = dev (hdr s b)" "blkno (hdr t b) = blkno (hdr s b)"
    "hash_next (hdr t b) = hash_next (hdr s b)" "hash_prev (hdr t b) = hash_prev (hdr s b)" for b
    using same by auto
  show ?thesis
    unfolding cache_inv_def H K S
  proof (intro conjI)
    show "free_ring t F'" by (rule fr)
    show "\<forall>b. (b \<in> set F') = (is_buf b \<and> \<not> locked t b)" using mem by blast
  qed (rule inv [unfolded cache_inv_def, THEN conjunct2, THEN conjunct2, THEN conjunct1]
      inv [unfolded cache_inv_def, THEN conjunct2, THEN conjunct2, THEN conjunct2])+
qed

text \<open>Writes to a buffer's status, data or to the counters leave the lists alone.\<close>

lemma bstat_sel [simp]:
  "hdr (bstat f s) = hdr s" "blockdev (bstat f s) = blockdev s" "media (bstat f s) = media s"
  "stats (bstat f s) = f (stats s)"
  by (simp_all add: bstat_def)

lemma upd_status_sel [simp]:
  "stats (upd_status b f s) = stats s" "blockdev (upd_status b f s) = blockdev s"
  "media (upd_status b f s) = media s"
  "hdr (upd_status b f s) c =
     (if c = b then (hdr s b)\<lparr>status := f (status (hdr s b))\<rparr> else hdr s c)"
  by (simp_all add: upd_status_def)

lemma free_ring_cong:
  assumes "\<And>b. free_next (hdr t b) = free_next (hdr s b) \<and> free_prev (hdr t b) = free_prev (hdr s b)"
  shows "free_ring t F = free_ring s F"
proof -
  have "fnx t = fnx s" "fpv t = fpv s" using assms by (auto simp: link_defs)
  then show ?thesis by (simp add: free_ring_def)
qed

definition same_links :: "'m bcache \<Rightarrow> 'm bcache \<Rightarrow> bool" where
  "same_links s t \<longleftrightarrow> (\<forall>b. dev (hdr t b) = dev (hdr s b) \<and> blkno (hdr t b) = blkno (hdr s b) \<and>
     hash_next (hdr t b) = hash_next (hdr s b) \<and> hash_prev (hdr t b) = hash_prev (hdr s b) \<and>
     free_next (hdr t b) = free_next (hdr s b) \<and> free_prev (hdr t b) = free_prev (hdr s b))"

named_theorems stay \<open>operations that move no buffer between lists\<close>

lemma same_links_refl [stay]: "same_links s s"
  by (simp add: same_links_def)

lemma same_links_trans: "same_links s t \<Longrightarrow> same_links t u \<Longrightarrow> same_links s u"
  by (simp add: same_links_def)

lemma same_links_status [stay]: "same_links s t \<Longrightarrow> same_links s (upd_status b f t)"
  by (simp add: same_links_def)

lemma same_links_bstat [stay]: "same_links s t \<Longrightarrow> same_links s (bstat f t)"
  by (simp add: same_links_def)

lemma same_links_write [stay]:
  "same_links s t \<Longrightarrow> same_links s (bcache_plat_write_block d n buf t)"
  by (simp add: same_links_def)

lemma plat_read_hdr:
  "\<exists>buf. hdr (bcache_plat_read_block d n b s) = (hdr s)(b := (hdr s b)\<lparr>data := buf\<rparr>)"
proof -
  have "\<exists>buf. hdr s = (hdr s)(b := (hdr s b)\<lparr>data := buf\<rparr>)"
    by (rule exI [of _ "data (hdr s b)"]) simp
  then show ?thesis
    by (auto simp: bcache_plat_read_block_def split: option.split prod.split)
qed

lemma plat_read_status [simp]:
  "status (hdr (bcache_plat_read_block d n b s) c) = status (hdr s c)"
  using plat_read_hdr [of d n b s] by auto

lemma same_links_read [stay]:
  "same_links s t \<Longrightarrow> same_links s (bcache_plat_read_block d n b t)"
  using plat_read_hdr [of d n b t] by (auto simp: same_links_def)

lemma cache_inv_stay:
  assumes "cache_inv s F Q" and "same_links s t" and "\<And>b. locked t b = locked s b"
  shows "cache_inv t F Q"
proof (rule cache_invI [OF assms(1)])
  show "free_ring t F"
    using cache_inv_free [OF assms(1)] assms(2) free_ring_cong [of t s F]
    by (simp add: same_links_def)
  show "b \<in> set F \<longleftrightarrow> is_buf b \<and> \<not> locked t b" for b
    using cache_inv_in_free [OF assms(1)] assms(3) by simp
qed (use assms(2) in \<open>simp add: same_links_def\<close>)

section \<open>Lookup\<close>

text \<open>A walk that stays among nodes none of which has the key never returns.\<close>

lemma hash_walk_stuck:
  assumes closed: "\<And>x. x \<in> R \<Longrightarrow> \<exists>y\<in>R. hash_next (h x) = Some y"
    and miss: "\<And>x. x \<in> R \<Longrightarrow> \<not> (dev (h x) = d \<and> blkno (h x) = n)"
    and p: "p \<in> Some ` R"
  shows "hash_walk h d n p = None"
proof (rule ccontr)
  assume "hash_walk h d n p \<noteq> None"
  then obtain r where ret: "hash_walk h d n p = Some r" by auto
  have "(\<forall>x\<in>R. \<exists>y\<in>R. hash_next (h x) = Some y) \<longrightarrow>
      (\<forall>x\<in>R. \<not> (dev (h x) = d \<and> blkno (h x) = n)) \<longrightarrow> p \<notin> Some ` R"
  proof (rule hash_walk.raw_induct [where P = "\<lambda>h d n p r.
      (\<forall>x\<in>R. \<exists>y\<in>R. hash_next (h x) = Some y) \<longrightarrow>
      (\<forall>x\<in>R. \<not> (dev (h x) = d \<and> blkno (h x) = n)) \<longrightarrow> p \<notin> Some ` R", OF _ ret], goal_cases)
    case (1 f h d n p r)
    show ?case
    proof (intro impI notI)
      assume A: "\<forall>x\<in>R. \<exists>y\<in>R. hash_next (h x) = Some y"
        and B: "\<forall>x\<in>R. \<not> (dev (h x) = d \<and> blkno (h x) = n)" and "p \<in> Some ` R"
      then obtain x where x: "p = Some x" "x \<in> R" by auto
      with 1(2) B have "f h d n (hash_next (h x)) = Some r" by auto
      with 1(1) A B have "hash_next (h x) \<notin> Some ` R" by blast
      with A x show False by force
    qed
  qed
  with closed miss p show False by blast
qed

lemma hash_walk_finds:
  assumes "dseg nx pv q p (as @ b # bs) q' p'" and "\<And>x. nx x = hash_next (h x)"
    and "\<And>a. a \<in> set as \<Longrightarrow> \<not> (dev (h a) = d \<and> blkno (h a) = n)"
    and "dev (h b) = d \<and> blkno (h b) = n"
  shows "hash_walk h d n p = Some (Some b)"
  using assms
proof (induction as arbitrary: q p)
  case Nil
  then show ?case by (simp add: hash_walk.simps)
next
  case (Cons a as)
  from Cons.prems(1) have "p = Some a" and tl: "dseg nx pv (Some a) (nx a) (as @ b # bs) q' p'"
    unfolding append_Cons dseg.simps by blast+
  moreover have "hash_walk h d n (nx a) = Some (Some b)"
    by (rule Cons.IH [OF tl]) (use Cons.prems in auto)
  moreover have "\<not> (dev (h a) = d \<and> blkno (h a) = n)" using Cons.prems(3) by simp
  ultimately show ?case
    unfolding hash_walk.simps [of h d n p] by (auto simp: Cons.prems(2))
qed

lemma find_split:
  "find P xs = Some x \<Longrightarrow> \<exists>as bs. xs = as @ x # bs \<and> P x \<and> (\<forall>a\<in>set as. \<not> P a)"
proof (induction xs)
  case (Cons y ys)
  show ?case
  proof (cases "P y")
    case True
    with Cons.prems have "y # ys = [] @ x # ys \<and> P x \<and> (\<forall>a\<in>set []. \<not> P a)" by simp
    then show ?thesis by blast
  next
    case False
    with Cons obtain as bs where "ys = as @ x # bs" "P x" "\<forall>a\<in>set as. \<not> P a" by auto
    with False have "y # ys = (y # as) @ x # bs \<and> P x \<and> (\<forall>a\<in>set (y # as). \<not> P a)" by simp
    then show ?thesis by blast
  qed
qed simp

text \<open>
  The lookup of the code as it is: it returns the cached buffer when there is one, and
  otherwise circles through the queue and its sentinel for ever.
\<close>

lemma lookup_hit:
  assumes inv: "cache_inv s F Q" and c: "cached_buf s Q d n = Some b"
  shows "bcache_hash_lookup d n s = Some (Some b)"
proof -
  let ?k = "bcache_hash_slot d n"
  have r: "hash_ring s ?k (Q ?k)" by (rule cache_inv_hash(1) [OF inv hash_slot_less])
  obtain as bs where sp: "Q ?k = as @ b # bs" "keyed s b d n" "\<forall>a\<in>set as. \<not> keyed s a d n"
    using find_split [OF c [unfolded cached_buf_def]] by auto
  have "dseg (hnx s) (hpv s) (Some (HashHead ?k)) (hnx s (HashHead ?k)) (as @ b # bs)
      (hpv s (HashHead ?k)) (Some (HashHead ?k))"
    using r unfolding hash_ring_def ring_def sp(1) by blast
  from hash_walk_finds [OF this] show ?thesis
    using sp unfolding bcache_hash_lookup_def by (auto simp: link_defs keyed_def)
qed

lemma lookup_miss:
  assumes inv: "cache_inv s F Q" and c: "cached_buf s Q d n = None"
    and real: "d \<noteq> 255 \<or> n \<noteq> 0xFFFFFFFF"
  shows "bcache_hash_lookup d n s = None"
proof -
  let ?k = "bcache_hash_slot d n"
  let ?R = "insert (HashHead ?k) (set (Q ?k))"
  have r: "ring (hnx s) (hpv s) (HashHead ?k) (Q ?k)"
    using cache_inv_hash(1) [OF inv hash_slot_less] by (simp add: hash_ring_def)
  show ?thesis unfolding bcache_hash_lookup_def
  proof (rule hash_walk_stuck [where R = ?R])
    show "\<exists>y\<in>?R. hash_next (hdr s x) = Some y" if "x \<in> ?R" for x
      using ring_closed [OF r that] by (simp add: hnx_def)
    show "\<not> (dev (hdr s x) = d \<and> blkno (hdr s x) = n)" if "x \<in> ?R" for x
    proof (cases "x = HashHead ?k")
      case True
      with cache_inv_hash(2) [OF inv hash_slot_less [of d n]] real show ?thesis
        by (auto simp: keyed_def)
    next
      case False
      with that c show ?thesis by (auto simp: cached_buf_def find_None_iff keyed_def)
    qed
    show "hash_next (hdr s (HashHead ?k)) \<in> Some ` ?R"
      using ring_closed [OF r, of "HashHead ?k"] by (auto simp: hnx_def)
  qed
qed

lemma cached_bufD:
  assumes "cache_inv s F Q" and "cached_buf s Q d n = Some b"
  shows "is_buf b" and "keyed s b d n" and "b \<in> set (Q (bcache_hash_slot d n))"
proof -
  obtain as bs where "Q (bcache_hash_slot d n) = as @ b # bs" and k: "keyed s b d n"
    using find_split [OF assms(2) [unfolded cached_buf_def]] by auto
  then show mem: "b \<in> set (Q (bcache_hash_slot d n))" by simp
  show "keyed s b d n" by (rule k)
  show "is_buf b" by (rule cache_inv_hash(3) [OF assms(1) hash_slot_less mem])
qed

section \<open>What getblk does\<close>

lemma getblk_loop_busy:
  assumes "cache_inv s F Q" and "cached_buf s Q d n = Some b" and "locked s b"
  shows "getblk_loop k d n s =
    Some (None, bstat (\<lambda>t. t\<lparr>busy_waits := busy_waits t + of_nat k\<rparr>) s)"
  using assms
proof (induction k arbitrary: s)
  case 0
  then show ?case by (simp add: bstat_def)
next
  case (Suc k)
  let ?s = "bstat (\<lambda>t. t\<lparr>busy_waits := busy_waits t + 1\<rparr>) s"
  have "cache_inv ?s F Q"
    by (rule cache_inv_stay [OF Suc.prems(1)]) (simp_all add: stay)
  moreover have "cached_buf ?s Q d n = Some b"
    using Suc.prems(2) by (simp add: cached_buf_def keyed_def)
  moreover have "bstat (\<lambda>t. t\<lparr>busy_waits := busy_waits t + of_nat k\<rparr>) ?s =
      bstat (\<lambda>t. t\<lparr>busy_waits := busy_waits t + of_nat (Suc k)\<rparr>) s"
    by (simp add: bstat_def algebra_simps)
  ultimately show ?case
    using Suc.IH [of ?s] Suc.prems(3) lookup_hit [OF Suc.prems(1,2)] by simp
qed

lemma getblk_Suc: "getblk d n s = getblk_loop (Suc 99999) d n s"
  unfolding getblk_def BCACHE_SPIN_LIMIT_def by (rule arg_cong [where f = "\<lambda>k. getblk_loop k d n s"]) simp

lemma getblk_spec:
  assumes inv: "cache_inv s F Q" and real: "d \<noteq> 255 \<or> n \<noteq> 0xFFFFFFFF"
  shows "getblk d n s =
    (case cached_buf s Q d n of
       None \<Rightarrow> None
     | Some b \<Rightarrow>
         if locked s b
         then Some (None, bstat (\<lambda>t. t\<lparr>busy_waits := busy_waits t + 100000\<rparr>) s)
         else Some (Some b, getblk_hit b s))"
proof (cases "cached_buf s Q d n")
  case None
  from lookup_miss [OF inv None real] have "getblk_loop (Suc 99999) d n s = None"
    unfolding getblk_loop.simps by simp
  with None show ?thesis by (simp only: getblk_Suc option.case)
next
  case (Some b)
  show ?thesis
  proof (cases "locked s b")
    case True
    with Some getblk_loop_busy [OF inv Some True, of 100000] show ?thesis
      by (simp add: getblk_def BCACHE_SPIN_LIMIT_def)
  next
    case False
    with lookup_hit [OF inv Some]
    have "getblk_loop (Suc 99999) d n s = Some (Some b, getblk_hit b s)"
      unfolding getblk_loop.simps by simp
    with Some False show ?thesis by (simp only: getblk_Suc option.case if_False)
  qed
qed

lemma fl_locked [simp]:
  "locked (bcache_fl_remove b s) c = locked s c"
  "locked (bcache_fl_insert_tail b s) c = locked s c"
  "locked (bcache_fl_insert_head b s) c = locked s c"
  by (simp_all add: core_eqD(3) [OF fl_core(1)] core_eqD(3) [OF fl_core(2)]
      core_eqD(3) [OF fl_core(3)])

text \<open>Operations that change one buffer's place on the free list keep the other lists.\<close>

lemma getblk_hit_core:
  "dev (hdr (getblk_hit b s) c) = dev (hdr s c)"
  "blkno (hdr (getblk_hit b s) c) = blkno (hdr s c)"
  "data (hdr (getblk_hit b s) c) = data (hdr s c)"
  "hash_next (hdr (getblk_hit b s) c) = hash_next (hdr s c)"
  "hash_prev (hdr (getblk_hit b s) c) = hash_prev (hdr s c)"
  "status (hdr (getblk_hit b s) c) =
    (if c = b then clrf BUF_WANTED (setf BUF_LOCKED (status (hdr s b))) else status (hdr s c))"
  using core_eqD [OF fl_core(1) [of b s c]] core_eqD [OF fl_core(1) [of b s b]]
  by (auto simp: getblk_hit_def Let_def)

lemma getblk_hit_frame [simp]:
  "media (getblk_hit b s) = media s" "blockdev (getblk_hit b s) = blockdev s"
  by (simp_all add: getblk_hit_def Let_def)

lemma getblk_hit_free:
  assumes "free_ring s (as @ b # bs)"
  shows "free_ring (getblk_hit b s) (as @ bs)"
proof -
  have "free_ring (getblk_hit b s) (as @ bs) = free_ring (bcache_fl_remove b s) (as @ bs)"
    by (rule free_ring_cong) (simp add: getblk_hit_def Let_def)
  with free_ring_remove [OF assms] show ?thesis by simp
qed

lemma getblk_hit_inv:
  assumes inv: "cache_inv s F Q" and b: "is_buf b" "\<not> locked s b"
  shows "cache_inv (getblk_hit b s) (remove1 b F) Q" and "locked (getblk_hit b s) b"
proof -
  have "b \<in> set F" using cache_inv_in_free [OF inv] b by simp
  then obtain as bs where F: "F = as @ b # bs" "b \<notin> set as" by (meson split_list_first)
  have d: "distinct F"
    using cache_inv_free [OF inv] ring_distinct by (fastforce simp: free_ring_def)
  have rm: "remove1 b F = as @ bs" using F by (simp add: remove1_append)
  show lk: "locked (getblk_hit b s) b" by (simp add: getblk_hit_core flags)
  show "cache_inv (getblk_hit b s) (remove1 b F) Q"
  proof (rule cache_invI [OF inv])
    show "free_ring (getblk_hit b s) (remove1 b F)"
      using getblk_hit_free [of s as b bs] cache_inv_free [OF inv] F rm by simp
    show "c \<in> set (remove1 b F) \<longleftrightarrow> is_buf c \<and> \<not> locked (getblk_hit b s) c" for c
      using d cache_inv_in_free [OF inv, of c] lk
      by (cases "c = b") (auto simp: getblk_hit_core)
  qed (simp add: getblk_hit_core)
qed

section \<open>brelse and bwrite\<close>

definition release_order :: "'m bcache \<Rightarrow> bref \<Rightarrow> bref list \<Rightarrow> bref list" where
  "release_order s b F =
     (if has (status (hdr s b)) BUF_VALID \<and> \<not> has (status (hdr s b)) BUF_OLD
      then F @ [b] else b # F)"

lemma fl_same:
  "dev (hdr (bcache_fl_insert_tail b s) c) = dev (hdr s c)"
  "blkno (hdr (bcache_fl_insert_tail b s) c) = blkno (hdr s c)"
  "status (hdr (bcache_fl_insert_tail b s) c) = status (hdr s c)"
  "data (hdr (bcache_fl_insert_tail b s) c) = data (hdr s c)"
  "hash_next (hdr (bcache_fl_insert_tail b s) c) = hash_next (hdr s c)"
  "hash_prev (hdr (bcache_fl_insert_tail b s) c) = hash_prev (hdr s c)"
  "dev (hdr (bcache_fl_insert_head b s) c) = dev (hdr s c)"
  "blkno (hdr (bcache_fl_insert_head b s) c) = blkno (hdr s c)"
  "status (hdr (bcache_fl_insert_head b s) c) = status (hdr s c)"
  "data (hdr (bcache_fl_insert_head b s) c) = data (hdr s c)"
  "hash_next (hdr (bcache_fl_insert_head b s) c) = hash_next (hdr s c)"
  "hash_prev (hdr (bcache_fl_insert_head b s) c) = hash_prev (hdr s c)"
  using core_eqD [OF fl_core(2) [of b s c]] core_eqD [OF fl_core(3) [of b s c]] by simp_all

lemma brelse_core [simp]:
  "dev (hdr (brelse p s) c) = dev (hdr s c)"
  "blkno (hdr (brelse p s) c) = blkno (hdr s c)"
  "data (hdr (brelse p s) c) = data (hdr s c)"
  "hash_next (hdr (brelse p s) c) = hash_next (hdr s c)"
  "hash_prev (hdr (brelse p s) c) = hash_prev (hdr s c)"
  "media (brelse p s) = media s" "blockdev (brelse p s) = blockdev s"
  "stats (brelse p s) = stats s"
  by (cases p; simp add: brelse_def Let_def fl_same)+

lemma brelse_status [simp]:
  "status (hdr (brelse (Some b) s) c) =
     (if c = b then clrf (BUF_LOCKED OR BUF_WANTED OR BUF_OLD) (status (hdr s b))
      else status (hdr s c))"
  by (simp add: brelse_def Let_def fl_same)

lemma brelse_unlocks: "locked (brelse (Some b) s) c \<longleftrightarrow> c \<noteq> b \<and> locked s c"
  by (simp add: clrf_or flags)

lemma brelse_inv:
  assumes inv: "cache_inv s F Q" and b: "is_buf b" "locked s b"
  shows "cache_inv (brelse (Some b) s) (release_order s b F) Q"
proof (rule cache_invI [OF inv])
  have nF: "b \<notin> set F" "b \<noteq> FreeHead" using cache_inv_in_free [OF inv, of b] b by auto
  have "free_ring (bcache_fl_insert_tail b s) (F @ [b])" "free_ring (bcache_fl_insert_head b s) (b # F)"
    by (simp_all add: free_ring_insert_tail free_ring_insert_head cache_inv_free [OF inv] nF)
  moreover have "free_ring (brelse (Some b) s) G =
      free_ring (if has (status (hdr s b)) BUF_VALID \<and> \<not> has (status (hdr s b)) BUF_OLD
        then bcache_fl_insert_tail b s else bcache_fl_insert_head b s) G" for G
    by (rule free_ring_cong) (simp add: brelse_def Let_def)
  ultimately show "free_ring (brelse (Some b) s) (release_order s b F)"
    by (simp add: release_order_def)
  show "c \<in> set (release_order s b F) \<longleftrightarrow> is_buf c \<and> \<not> locked (brelse (Some b) s) c" for c
    unfolding brelse_unlocks
    by (cases "c = b") (simp_all add: release_order_def cache_inv_in_free [OF inv] b)
qed simp

text \<open>The buffer just before \<open>bwrite\<close> releases it, for both kinds of write.\<close>

definition bwrite_ready :: "bref \<Rightarrow> bool \<Rightarrow> 'm bcache \<Rightarrow> 'm bcache" where
  "bwrite_ready b delayed s =
     (if delayed then upd_status b (setf BUF_DELWRITE) s
      else
        (let s = upd_status b (setf BUF_IOBUSY) s;
             s = bcache_plat_write_block (dev (hdr s b)) (blkno (hdr s b)) (data (hdr s b)) s;
             s = upd_status b (clrf BUF_IOBUSY) s;
             s = upd_status b (setf BUF_VALID) s
         in upd_status b (clrf (BUF_DELWRITE OR BUF_ERROR)) s))"

lemma bstat_commute:
  "bcache_fl_insert_tail b (bstat f s) = bstat f (bcache_fl_insert_tail b s)"
  "bcache_fl_insert_head b (bstat f s) = bstat f (bcache_fl_insert_head b s)"
  "upd_status b g (bstat f s) = bstat f (upd_status b g s)"
  by (simp_all add: bstat_def bcache_fl_insert_tail_def bcache_fl_insert_head_def Let_def
      upd_status_def upd_def updp_def split: option.splits)

lemma bstat_brelse: "bstat f (brelse p s) = brelse p (bstat f s)"
  by (simp add: brelse_def Let_def bstat_commute split: option.split)

lemma bwrite_eq:
  "bwrite (Some b) sync delayed s =
     brelse (Some b) (bstat (\<lambda>t. t\<lparr>writes := writes t + 1\<rparr>) (bwrite_ready b delayed s))"
  by (simp add: bwrite_def bwrite_ready_def Let_def bstat_brelse)

lemma bwrite_ready_links: "same_links s (bwrite_ready b delayed s)"
  by (auto simp: bwrite_ready_def Let_def intro!: stay)

lemma bwrite_ready_data [simp]: "data (hdr (bwrite_ready b delayed s) c) = data (hdr s c)"
  by (simp add: bwrite_ready_def Let_def)

lemma bwrite_ready_status:
  "n < 32 \<Longrightarrow> bit (status (hdr (bwrite_ready b delayed s) c)) n \<longleftrightarrow>
     (if c \<noteq> b then bit (status (hdr s c)) n
      else if delayed then bit (status (hdr s b)) n \<or> n = 2
      else n = 1 \<or> bit (status (hdr s b)) n \<and> n \<notin> {2, 3, 7})"
  by (auto simp: bwrite_ready_def Let_def clrf_or flags)

lemma bwrite_ready_media:
  "media (bwrite_ready b delayed s) =
     (if delayed then media s
      else medium_write (dev (hdr s b)) (blkno (hdr s b)) (data (hdr s b)) s)"
  using medium_write_cong [of "upd_status b (setf BUF_IOBUSY) s" s]
  by (simp add: bwrite_ready_def Let_def medium_write_def)

lemma bwrite_inv:
  assumes inv: "cache_inv s F Q" and b: "is_buf b" "locked s b"
  shows "cache_inv (bwrite (Some b) sync delayed s)
    (release_order (bwrite_ready b delayed s) b F) Q"
proof -
  let ?t = "bstat (\<lambda>t. t\<lparr>writes := writes t + 1\<rparr>) (bwrite_ready b delayed s)"
  have same: "locked ?t c = locked s c" for c using b by (simp add: flag_tests bwrite_ready_status)
  have "cache_inv ?t F Q"
    by (rule cache_inv_stay [OF inv _ same]) (simp add: stay bwrite_ready_links)
  from brelse_inv [OF this b(1)] same b show ?thesis
    by (simp add: bwrite_eq release_order_def)
qed

section \<open>bread\<close>

text \<open>What \<open>bread\<close> does to the buffer that \<open>getblk\<close> gave it.\<close>

definition bread_fill :: "u8 \<Rightarrow> u32 \<Rightarrow> bref \<Rightarrow> 'm bcache \<Rightarrow> 'm bcache" where
  "bread_fill d n b s =
     (if has (status (hdr s b)) BUF_VALID then bstat (\<lambda>t. t\<lparr>reads := reads t + 1\<rparr>) s
      else if bcache_plat_num_blocks d s \<noteq> 0 \<and> bcache_plat_num_blocks d s \<le> n
      then upd_status b (setf BUF_ERROR) s
      else
        (let s = upd_status b (setf BUF_IOBUSY) s;
             s = bcache_plat_read_block d n b s;
             s = upd_status b (clrf BUF_IOBUSY) s;
             s = upd_status b (setf BUF_VALID) s;
             s = upd_status b (clrf BUF_ERROR) s
         in bstat (\<lambda>t. t\<lparr>reads := reads t + 1\<rparr>) s))"

lemma bread_getblk:
  "bread d n s =
     (case getblk d n s of
        None \<Rightarrow> None
      | Some (None, s) \<Rightarrow> Some (None, s)
      | Some (Some b, s) \<Rightarrow> Some (Some b, bread_fill d n b s))"
  by (auto simp: bread_def bread_fill_def Let_def split: option.split prod.split)

lemma bread_fill_links: "same_links s (bread_fill d n b s)"
  by (auto simp: bread_fill_def Let_def intro!: stay)

lemma bread_fill_status:
  assumes "m < 32" and "m \<notin> {1, 3, 7}"
  shows "bit (status (hdr (bread_fill d n b s) c)) m \<longleftrightarrow> bit (status (hdr s c)) m"
  using assms by (auto simp: bread_fill_def Let_def flags)

lemma bread_fill_locked [simp]: "locked (bread_fill d n b s) c = locked s c"
  by (simp add: flag_tests bread_fill_status)

lemma bread_fill_inv: "cache_inv s F Q \<Longrightarrow> cache_inv (bread_fill d n b s) F Q"
  by (rule cache_inv_stay) (simp_all add: bread_fill_links)

text \<open>
  The outcome of \<open>bread\<close> in a well-formed cache: a hang when the block is not cached, NULL
  when its buffer is locked, otherwise the buffer, locked.
\<close>

lemma bread_spec:
  assumes inv: "cache_inv s F Q" and real: "d \<noteq> 255 \<or> n \<noteq> 0xFFFFFFFF"
  shows "bread d n s =
    (case cached_buf s Q d n of
       None \<Rightarrow> None
     | Some b \<Rightarrow>
         if locked s b
         then Some (None, bstat (\<lambda>t. t\<lparr>busy_waits := busy_waits t + 100000\<rparr>) s)
         else Some (Some b, bread_fill d n b (getblk_hit b s)))"
  by (simp add: bread_getblk getblk_spec [OF inv real] split: option.split)

lemma cached_same_links: "same_links s t \<Longrightarrow> cached_buf t Q d n = cached_buf s Q d n"
  by (simp add: cached_buf_def keyed_def same_links_def)

lemma cached_cong:
  assumes "\<And>c. dev (hdr t c) = dev (hdr s c) \<and> blkno (hdr t c) = blkno (hdr s c)"
  shows "cached_buf t Q d n = cached_buf s Q d n"
  using assms by (simp add: cached_buf_def keyed_def)

section \<open>bflush\<close>

text \<open>The buffers that \<open>bflush dev\<close> writes.\<close>

definition flushable :: "u8 \<Rightarrow> 'm bcache \<Rightarrow> bref \<Rightarrow> bool" where
  "flushable d s b \<longleftrightarrow> dev (hdr s b) = d \<and> has (status (hdr s b)) BUF_DELWRITE \<and> \<not> locked s b"

text \<open>The driver's state after writing the flushable buffers among \<open>is\<close>, in order.\<close>

definition flush_media :: "u8 \<Rightarrow> nat list \<Rightarrow> 'm bcache \<Rightarrow> 'm" where
  "flush_media d is s =
     fold (\<lambda>i m. medium_write d (blkno (hdr s (Buf i))) (data (hdr s (Buf i))) (s\<lparr>media := m\<rparr>))
       (filter (\<lambda>i. flushable d s (Buf i)) is) (media s)"

lemma bflush_one_skip: "\<not> flushable d s (Buf i) \<Longrightarrow> bflush_one d i s = s"
  by (auto simp: bflush_one_def flushable_def Let_def)

lemma bflush_one_links: "same_links s (bflush_one d i s)"
  by (auto simp: bflush_one_def Let_def intro!: stay)

lemma bflush_one_frame [simp]:
  "blockdev (bflush_one d i s) = blockdev s"
  "data (hdr (bflush_one d i s) c) = data (hdr s c)"
  by (simp_all add: bflush_one_def Let_def)

lemma bflush_one_status:
  "n < 32 \<Longrightarrow> bit (status (hdr (bflush_one d i s) c)) n \<longleftrightarrow>
     (if c = Buf i \<and> flushable d s (Buf i)
      then n = 1 \<or> bit (status (hdr s c)) n \<and> n \<notin> {2, 3}
      else bit (status (hdr s c)) n)"
  by (auto simp: bflush_one_def flushable_def Let_def flags)

lemma bflush_one_media:
  "media (bflush_one d i s) =
     (if flushable d s (Buf i)
      then medium_write d (blkno (hdr s (Buf i))) (data (hdr s (Buf i))) s else media s)"
  using medium_write_cong [of "upd_status (Buf i) (setf BUF_IOBUSY) s" s]
  by (auto simp: bflush_one_def flushable_def Let_def medium_write_def)

lemma bflush_one_flushable:
  "flushable d' (bflush_one d i s) c \<longleftrightarrow>
     flushable d' s c \<and> \<not> (c = Buf i \<and> flushable d s (Buf i))"
  using bflush_one_links [of s d i]
  by (auto simp: flushable_def [of d'] flag_tests bflush_one_status same_links_def)

end
