(* ===== verification/BufProps.thy ===== *)
theory BufProps
  imports BufAlg
begin

text \<open>
  What the buffer cache promises: the state that \<open>bcache_init\<close> builds, the three
  scenarios of \<open>getblk\<close>, the release order, write-through and delayed writes, and
  \<open>bflush\<close>.  The properties of the manifest stand at the end.
\<close>

section \<open>\<open>bcache_init\<close> establishes the invariant\<close>

lemma init_buf_core:
  "core (hdr (init_buf i s) b) =
     (if b = Buf i then (255, 0xFFFFFFFF, 0, data (hdr s b), None, None) else core (hdr s b))"
  by (simp add: init_buf_def) (simp add: core_def)

lemma init_buf_frame [simp]:
  "blockdev (init_buf i s) = blockdev s" "media (init_buf i s) = media s"
  "stats (init_buf i s) = stats s"
  by (simp_all add: init_buf_def)

lemma init_buf_free:
  assumes "free_ring s (map Buf [0..<i])"
  shows "free_ring (init_buf i s) (map Buf [0..<Suc i])"
proof -
  let ?t = "upd (Buf i) (\<lambda>x. x\<lparr>dev := 255, blkno := 0xFFFFFFFF, status := 0,
                           hash_next := None, hash_prev := None\<rparr>) s"
  have "free_ring ?t (map Buf [0..<i])"
    using assms free_ring_cong [of ?t s] by auto
  then have "free_ring (bcache_fl_insert_tail (Buf i) ?t) (map Buf [0..<i] @ [Buf i])"
    by (rule free_ring_insert_tail) auto
  then show ?thesis by (simp add: init_buf_def)
qed

definition init_upto :: "nat \<Rightarrow> 'm bcache \<Rightarrow> 'm bcache" where
  "init_upto m s = fold init_buf [0..<m] (s\<lparr>hdr := init_heads, stats := zero_stats\<rparr>)"

lemma init_upto_Suc: "init_upto (Suc m) s = init_buf m (init_upto m s)"
  by (simp add: init_upto_def)

lemma init_upto_free: "free_ring (init_upto m s) (map Buf [0..<m])"
proof (induction m)
  case 0
  show ?case by (simp add: init_upto_def free_ring_def link_defs init_heads_def)
next
  case (Suc m)
  then show ?case by (simp add: init_upto_Suc init_buf_free del: upt_Suc)
qed

lemma init_upto_core:
  "core (hdr (init_upto m s) b) =
     (case b of Buf i \<Rightarrow> if i < m then (255, 0xFFFFFFFF, 0, replicate BLOCK_SIZE 0, None, None)
                         else core zero_hdr
      | _ \<Rightarrow> core (init_heads b))"
proof (induction m arbitrary: b)
  case 0
  show ?case by (simp add: init_upto_def init_heads_def split: bref.split)
next
  case (Suc m)
  have "data (hdr (init_upto m s) (Buf m)) = replicate BLOCK_SIZE 0"
    using Suc.IH [of "Buf m"] by (simp add: core_def zero_hdr_def)
  with Suc.IH [of b] show ?case
    by (auto simp: init_upto_Suc init_buf_core less_Suc_eq split: bref.split)
qed

lemma bcache_init_eq: "bcache_init s = init_upto NUM_BUFFERS s"
  by (simp add: bcache_init_def init_upto_def)

lemma init_buf_fields:
  assumes "is_buf b"
  shows "dev (hdr (bcache_init s) b) = 255" "blkno (hdr (bcache_init s) b) = 0xFFFFFFFF"
    "status (hdr (bcache_init s) b) = 0" "hash_next (hdr (bcache_init s) b) = None"
    "hash_prev (hdr (bcache_init s) b) = None"
  using assms init_upto_core [of NUM_BUFFERS s b]
  by (auto simp: bcache_init_eq is_buf_def core_def)

lemma init_sentinel:
  assumes "k < NUM_HASH_QUEUES"
  shows "hash_next (hdr (bcache_init s) (HashHead k)) = Some (HashHead k)"
    "hash_prev (hdr (bcache_init s) (HashHead k)) = Some (HashHead k)"
    "keyed (bcache_init s) (HashHead k) 255 0xFFFFFFFF"
  using assms init_upto_core [of NUM_BUFFERS s "HashHead k"]
  by (auto simp: bcache_init_eq core_def init_heads_def init_hash_head_def keyed_def)

definition all_bufs :: "bref list" where
  "all_bufs = map Buf [0..<NUM_BUFFERS]"

lemma set_all_bufs: "b \<in> set all_bufs \<longleftrightarrow> is_buf b"
  by (auto simp: all_bufs_def is_buf_def)

lemma init_inv: "cache_inv (bcache_init s) all_bufs (\<lambda>_. [])"
  unfolding cache_inv_def
proof (intro conjI allI impI)
  show "free_ring (bcache_init s) all_bufs"
    by (simp add: bcache_init_eq all_bufs_def init_upto_free)
  show "(b \<in> set all_bufs) = (is_buf b \<and> \<not> locked (bcache_init s) b)" for b
    by (auto simp: set_all_bufs init_buf_fields flag_tests)
qed (simp_all add: hash_ring_def link_defs init_sentinel init_buf_fields)

lemma init_frame:
  "blockdev (bcache_init s) = blockdev s" "media (bcache_init s) = media s"
proof -
  have "blockdev (init_upto m s) = blockdev s \<and> media (init_upto m s) = media s" for m
    by (induction m) (simp_all add: init_upto_Suc, simp_all add: init_upto_def)
  then show "blockdev (bcache_init s) = blockdev s" "media (bcache_init s) = media s"
    by (simp_all add: bcache_init_eq)
qed

section \<open>Scenario 2: a free buffer is given to a new block\<close>

lemma hash_remove_sel [simp]:
  "dev (hdr (bcache_hash_remove b s) c) = dev (hdr s c)"
  "blkno (hdr (bcache_hash_remove b s) c) = blkno (hdr s c)"
  "status (hdr (bcache_hash_remove b s) c) = status (hdr s c)"
  "data (hdr (bcache_hash_remove b s) c) = data (hdr s c)"
  "free_next (hdr (bcache_hash_remove b s) c) = free_next (hdr s c)"
  "free_prev (hdr (bcache_hash_remove b s) c) = free_prev (hdr s c)"
  "media (bcache_hash_remove b s) = media s"
  "blockdev (bcache_hash_remove b s) = blockdev s"
  by (auto simp: bcache_hash_remove_def Let_def updp_def split: option.splits)

lemma hash_insert_sel [simp]:
  "dev (hdr (bcache_hash_insert b s) c) = dev (hdr s c)"
  "blkno (hdr (bcache_hash_insert b s) c) = blkno (hdr s c)"
  "status (hdr (bcache_hash_insert b s) c) = status (hdr s c)"
  "data (hdr (bcache_hash_insert b s) c) = data (hdr s c)"
  "free_next (hdr (bcache_hash_insert b s) c) = free_next (hdr s c)"
  "free_prev (hdr (bcache_hash_insert b s) c) = free_prev (hdr s c)"
  "media (bcache_hash_insert b s) = media s"
  "blockdev (bcache_hash_insert b s) = blockdev s"
  by (auto simp: bcache_hash_insert_def Let_def updp_def split: option.splits)

lemma hash_remove_links:
  assumes "p \<noteq> b" and "n \<noteq> b" and "hpv s b = Some p" and "hnx s b = Some n"
  shows "hnx (bcache_hash_remove b s) = (hnx s)(p := hnx s b, b := None)"
    and "hpv (bcache_hash_remove b s) = (hpv s)(n := hpv s b, b := None)"
  using assms by (auto intro!: ext simp: link_defs bcache_hash_remove_def Let_def)

lemma hash_remove_neighbours:
  assumes r: "hash_ring s k (as @ b # bs)"
  obtains p n where "hpv s b = Some p" "hnx s b = Some n" "p \<noteq> b" "n \<noteq> b"
    "p \<in> insert (HashHead k) (set (as @ bs))" "n \<in> insert (HashHead k) (set (as @ bs))"
proof -
  note r' = r [unfolded hash_ring_def]
  have L: "hpv s b = lastp (Some (HashHead k)) as" "hnx s b = headp bs (Some (HashHead k))"
    using ring_links [OF r'] by simp_all
  obtain p where p: "hpv s b = Some p" "p \<in> insert (HashHead k) (set as)"
    using L(1) by (cases as rule: rev_cases) auto
  obtain n where n: "hnx s b = Some n" "n \<in> insert (HashHead k) (set bs)"
    using L(2) by (cases bs) auto
  have "b \<notin> insert (HashHead k) (set (as @ bs))" using ring_distinct [OF r'] by auto
  with p n that show thesis by (metis Un_iff insert_iff set_append)
qed

lemma hash_remove_other:
  assumes r: "hash_ring s j (as @ b # bs)" and x: "hash_ring s k xs" and "k \<noteq> j"
    and disj: "set xs \<inter> set (as @ b # bs) = {}" and bufs: "\<And>a. a \<in> set (as @ b # bs) \<Longrightarrow> is_buf a"
    and bufx: "\<And>a. a \<in> set xs \<Longrightarrow> is_buf a"
  shows "hash_ring (bcache_hash_remove b s) k xs"
proof -
  obtain p n where pn: "hpv s b = Some p" "hnx s b = Some n" "p \<noteq> b" "n \<noteq> b"
    "p \<in> insert (HashHead j) (set (as @ bs))" "n \<in> insert (HashHead j) (set (as @ bs))"
    by (rule hash_remove_neighbours [OF r])
  have ne: "p \<notin> insert (HashHead k) (set xs)" "n \<notin> insert (HashHead k) (set xs)"
    "b \<notin> insert (HashHead k) (set xs)"
    using pn(5,6) \<open>k \<noteq> j\<close> disj bufs bufx is_buf_simps(2) by fastforce+
  have "ring (hnx (bcache_hash_remove b s)) (hpv (bcache_hash_remove b s)) (HashHead k) xs =
      ring (hnx s) (hpv s) (HashHead k) xs"
    by (rule ring_cong) (use ne hash_remove_links [OF pn(3,4,1,2)] in auto)
  with x show ?thesis by (simp add: hash_ring_def)
qed

lemma hash_remove_unqueued:
  assumes "hash_next (hdr s b) = None" and "hash_prev (hdr s b) = None"
  shows "hnx (bcache_hash_remove b s) = hnx s" and "hpv (bcache_hash_remove b s) = hpv s"
  using assms by (auto intro!: ext simp: link_defs bcache_hash_remove_def)

lemma hash_insert_other:
  assumes r: "hash_ring s j ys" and x: "hash_ring s k xs" and "k \<noteq> j"
    and j: "bcache_hash_slot (dev (hdr s b)) (blkno (hdr s b)) = j"
    and b: "is_buf b" "b \<notin> set xs" "b \<notin> set ys"
    and disj: "set xs \<inter> set ys = {}" and bufs: "\<And>a. a \<in> set ys \<union> set xs \<Longrightarrow> is_buf a"
  shows "hash_ring (bcache_hash_insert b s) k xs"
proof -
  obtain p where p: "hnx s (HashHead j) = Some p" "p \<in> insert (HashHead j) (set ys)"
    using ring_ends [OF r [unfolded hash_ring_def]] by (cases ys) auto
  with b have "b \<noteq> p" by auto
  then have L: "hnx (bcache_hash_insert b s) = (hnx s)(b := hnx s (HashHead j), HashHead j := Some b)"
    "hpv (bcache_hash_insert b s) = (hpv s)(b := Some (HashHead j), p := Some b)"
    using p(1) b(1) by (auto intro!: ext simp: link_defs bcache_hash_insert_def Let_def j)
  have ne: "p \<notin> insert (HashHead k) (set xs)" "b \<notin> insert (HashHead k) (set xs)"
    "HashHead j \<notin> insert (HashHead k) (set xs)"
    using p(2) \<open>k \<noteq> j\<close> disj bufs b is_buf_simps(2) by fastforce+
  have "ring (hnx (bcache_hash_insert b s)) (hpv (bcache_hash_insert b s)) (HashHead k) xs =
      ring (hnx s) (hpv s) (HashHead k) xs"
    by (rule ring_cong) (use ne in \<open>auto simp: L\<close>)
  with x show ?thesis by (simp add: hash_ring_def)
qed

text \<open>The part of the invariant about hash queues, and how scenario 2 transforms it.\<close>

definition hash_wf :: "'m bcache \<Rightarrow> (nat \<Rightarrow> bref list) \<Rightarrow> bool" where
  "hash_wf s Q \<longleftrightarrow>
     (\<forall>k<NUM_HASH_QUEUES. hash_ring s k (Q k) \<and> keyed s (HashHead k) 255 0xFFFFFFFF \<and>
        (\<forall>b\<in>set (Q k). is_buf b \<and> bcache_hash_slot (dev (hdr s b)) (blkno (hdr s b)) = k) \<and>
        (\<forall>a\<in>set (Q k). \<forall>b\<in>set (Q k).
           keyed s a (dev (hdr s b)) (blkno (hdr s b)) \<longrightarrow> a = b)) \<and>
     (\<forall>b. is_buf b \<and> (\<forall>k<NUM_HASH_QUEUES. b \<notin> set (Q k)) \<longrightarrow>
        hash_next (hdr s b) = None \<and> hash_prev (hdr s b) = None)"

lemma cache_inv_split:
  "cache_inv s F Q \<longleftrightarrow>
     free_ring s F \<and> (\<forall>b. b \<in> set F \<longleftrightarrow> is_buf b \<and> \<not> locked s b) \<and> hash_wf s Q"
  by (simp add: cache_inv_def hash_wf_def)

lemma hash_wfD:
  assumes "hash_wf s Q" and "k < NUM_HASH_QUEUES"
  shows "hash_ring s k (Q k)" and "keyed s (HashHead k) 255 0xFFFFFFFF"
    and "b \<in> set (Q k) \<Longrightarrow> is_buf b"
    and "b \<in> set (Q k) \<Longrightarrow> bcache_hash_slot (dev (hdr s b)) (blkno (hdr s b)) = k"
    and "a \<in> set (Q k) \<Longrightarrow> b \<in> set (Q k) \<Longrightarrow>
      keyed s a (dev (hdr s b)) (blkno (hdr s b)) \<Longrightarrow> a = b"
  using assms by (auto simp: hash_wf_def)

lemma hash_wf_unqueued:
  assumes "hash_wf s Q" and "is_buf b" and "\<And>k. k < NUM_HASH_QUEUES \<Longrightarrow> b \<notin> set (Q k)"
  shows "hash_next (hdr s b) = None" and "hash_prev (hdr s b) = None"
  using assms by (auto simp: hash_wf_def)

lemma hash_wf_cong:
  assumes "\<And>b. dev (hdr t b) = dev (hdr s b) \<and> blkno (hdr t b) = blkno (hdr s b) \<and>
      hash_next (hdr t b) = hash_next (hdr s b) \<and> hash_prev (hdr t b) = hash_prev (hdr s b)"
  shows "hash_wf t Q = hash_wf s Q"
proof -
  have "hnx t = hnx s" "hpv t = hpv s" using assms by (auto simp: link_defs)
  then have "hash_ring t k xs = hash_ring s k xs" for k xs by (simp add: hash_ring_def)
  then show ?thesis using assms by (simp add: hash_wf_def keyed_def)
qed

lemma hash_wf_disjoint:
  assumes "hash_wf s Q" and "k < NUM_HASH_QUEUES" and "j < NUM_HASH_QUEUES" and "k \<noteq> j"
  shows "set (Q k) \<inter> set (Q j) = {}"
  using hash_wfD(4) [OF assms(1,2)] hash_wfD(4) [OF assms(1,3)] assms(4) by fastforce

lemma hash_wf_detach_ring:
  assumes wf: "hash_wf s Q" and b: "is_buf b" and k: "k < NUM_HASH_QUEUES"
  shows "hash_ring (bcache_hash_remove b s) k (removeAll b (Q k))"
proof (cases "\<exists>j<NUM_HASH_QUEUES. b \<in> set (Q j)")
  case True
  then obtain j as bs where j: "j < NUM_HASH_QUEUES" and Q: "Q j = as @ b # bs"
    by (meson split_list)
  have r: "hash_ring s j (as @ b # bs)" using hash_wfD(1) [OF wf j] Q by simp
  have d: "distinct (as @ b # bs)" using r ring_distinct by (fastforce simp: hash_ring_def)
  show ?thesis
  proof (cases "k = j")
    case True
    with hash_ring_remove [OF r] d Q show ?thesis by (simp add: removeAll_id)
  next
    case False
    have "b \<notin> set (Q k)" using hash_wf_disjoint [OF wf k j False] Q by auto
    moreover have "hash_ring (bcache_hash_remove b s) k (Q k)"
      by (rule hash_remove_other [OF r hash_wfD(1) [OF wf k] False])
        (use hash_wf_disjoint [OF wf k j False] Q hash_wfD(3) [OF wf j] hash_wfD(3) [OF wf k] in auto)
    ultimately show ?thesis by (simp add: removeAll_id)
  qed
next
  case False
  with hash_wf_unqueued [OF wf b] have "hash_next (hdr s b) = None" "hash_prev (hdr s b) = None"
    by auto
  from hash_remove_unqueued [OF this] False k hash_wfD(1) [OF wf k] show ?thesis
    by (simp add: hash_ring_def removeAll_id)
qed

lemma hash_remove_none:
  "hash_next (hdr (bcache_hash_remove b s) b) = None \<and> hash_prev (hdr (bcache_hash_remove b s) b) = None"
  by (simp add: bcache_hash_remove_def Let_def)

lemma hash_remove_keeps_none:
  assumes "hash_wf s Q" and "is_buf c" and "\<And>k. k < NUM_HASH_QUEUES \<Longrightarrow> c \<notin> set (Q k)"
    and "is_buf b" and "c \<noteq> b"
  shows "hash_next (hdr (bcache_hash_remove b s) c) = None \<and>
    hash_prev (hdr (bcache_hash_remove b s) c) = None"
proof (cases "\<exists>j<NUM_HASH_QUEUES. b \<in> set (Q j)")
  case True
  then obtain j as bs where j: "j < NUM_HASH_QUEUES" and Q: "Q j = as @ b # bs"
    by (meson split_list)
  have r: "hash_ring s j (as @ b # bs)" using hash_wfD(1) [OF assms(1) j] Q by simp
  obtain p n where pn: "hpv s b = Some p" "hnx s b = Some n" "p \<noteq> b" "n \<noteq> b"
    "p \<in> insert (HashHead j) (set (as @ bs))" "n \<in> insert (HashHead j) (set (as @ bs))"
    by (rule hash_remove_neighbours [OF r])
  have "c \<noteq> p" "c \<noteq> n" using pn(5,6) assms(2) assms(3) [OF j] Q by auto
  with hash_remove_links [OF pn(3,4,1,2)] hash_wf_unqueued [OF assms(1,2,3)] assms(5)
  show ?thesis by (metis fun_upd_other hnx_def hpv_def)
next
  case False
  with hash_wf_unqueued [OF assms(1,4)] have "hash_next (hdr s b) = None" "hash_prev (hdr s b) = None"
    by auto
  from hash_remove_unqueued [OF this] hash_wf_unqueued [OF assms(1,2,3)] show ?thesis
    by (metis hnx_def hpv_def)
qed

lemma hash_wf_detach:
  assumes wf: "hash_wf s Q" and b: "is_buf b"
  shows "hash_wf (bcache_hash_remove b s) (\<lambda>k. removeAll b (Q k))"
  unfolding hash_wf_def
proof (intro conjI allI impI ballI)
  fix c assume c: "is_buf c \<and> (\<forall>k<NUM_HASH_QUEUES. c \<notin> set (removeAll b (Q k)))"
  have "hash_next (hdr (bcache_hash_remove b s) c) = None \<and>
    hash_prev (hdr (bcache_hash_remove b s) c) = None"
    using hash_remove_none [of b s] hash_remove_keeps_none [OF wf _ _ b, of c] c
    by (cases "c = b") auto
  then show "hash_next (hdr (bcache_hash_remove b s) c) = None"
    "hash_prev (hdr (bcache_hash_remove b s) c) = None" by simp_all
qed (use hash_wfD [OF wf] in \<open>auto simp: hash_wf_detach_ring [OF wf b] keyed_def\<close>)

lemma hash_wf_attach:
  assumes wf: "hash_wf s Q" and b: "is_buf b" and out: "\<And>k. k < NUM_HASH_QUEUES \<Longrightarrow> b \<notin> set (Q k)"
    and j: "j = bcache_hash_slot (dev (hdr s b)) (blkno (hdr s b))"
    and fresh: "\<And>c. c \<in> set (Q j) \<Longrightarrow> \<not> keyed s c (dev (hdr s b)) (blkno (hdr s b))"
  shows "hash_wf (bcache_hash_insert b s) (Q(j := b # Q j))"
proof -
  have jk: "j < NUM_HASH_QUEUES" using j hash_slot_less by simp
  have rj: "hash_ring s j (Q j)" by (rule hash_wfD(1) [OF wf jk])
  have K: "keyed (bcache_hash_insert b s) c d n = keyed s c d n" for c d n by (simp add: keyed_def)
  have R: "hash_ring (bcache_hash_insert b s) k ((Q(j := b # Q j)) k)" if k: "k < NUM_HASH_QUEUES" for k
  proof (cases "k = j")
    case True
    have "b \<noteq> HashHead j" using b by auto
    from hash_ring_insert [OF rj out [OF jk] this j [symmetric]] show ?thesis
      unfolding True fun_upd_same .
  next
    case False
    have "hash_ring (bcache_hash_insert b s) k (Q k)"
      by (rule hash_insert_other [OF rj hash_wfD(1) [OF wf k] False j [symmetric] b out [OF k] out [OF jk]
          hash_wf_disjoint [OF wf k jk False]])
        (use hash_wfD(3) [OF wf k] hash_wfD(3) [OF wf jk] in auto)
    with False show ?thesis by simp
  qed
  have N: "hash_next (hdr (bcache_hash_insert b s) c) = None \<and>
      hash_prev (hdr (bcache_hash_insert b s) c) = None"
    if c: "is_buf c" "\<forall>k<NUM_HASH_QUEUES. c \<notin> set ((Q(j := b # Q j)) k)" for c
  proof -
    obtain p where p: "hnx s (HashHead j) = Some p" "p \<in> insert (HashHead j) (set (Q j))"
      using ring_ends [OF rj [unfolded hash_ring_def]] by (cases "Q j") auto
    have c': "c \<noteq> b" "c \<notin> set (Q j)" using spec [OF c(2), of j] jk by auto
    have "c \<notin> set (Q k)" if "k < NUM_HASH_QUEUES" for k
      using spec [OF c(2), of k] that by (cases "k = j") auto
    then have old: "hash_next (hdr s c) = None" "hash_prev (hdr s c) = None"
      using hash_wf_unqueued [OF wf c(1)] by blast+
    have "c \<noteq> HashHead j" "c \<noteq> p" "b \<noteq> HashHead j" using c(1) c' p(2) b by auto
    with c'(1) p(1) old show ?thesis
      by (simp add: bcache_hash_insert_def Let_def hnx_def j [symmetric])
  qed
  show ?thesis unfolding hash_wf_def K
  proof (intro conjI allI impI ballI)
    fix k x y
    assume k: "k < NUM_HASH_QUEUES" and x: "x \<in> set ((Q(j := b # Q j)) k)"
      and y: "y \<in> set ((Q(j := b # Q j)) k)"
      and same: "keyed s x (dev (hdr (bcache_hash_insert b s) y)) (blkno (hdr (bcache_hash_insert b s) y))"
    have same': "keyed s x (dev (hdr s y)) (blkno (hdr s y))"
      "keyed s y (dev (hdr s x)) (blkno (hdr s x))"
      using same by (simp_all add: keyed_def)
    consider "x \<in> set (Q k)" "y \<in> set (Q k)" | "x = b" "y \<in> set (Q j)"
      | "y = b" "x \<in> set (Q j)" | "x = b" "y = b"
      using x y by (cases "k = j") auto
    then show "x = y"
    proof cases
      case 1
      from hash_wfD(5) [OF wf k this same'(1)] show ?thesis .
    next
      case 2
      with fresh [of y] same'(2) show ?thesis by blast
    next
      case 3
      with fresh [of x] same'(1) show ?thesis by blast
    qed simp
  qed (use R N hash_wfD [OF wf] b j in \<open>auto split: if_splits\<close>)
qed

lemma hash_wf_upd:
  assumes wf: "hash_wf s Q" and b: "is_buf b" and out: "\<And>k. k < NUM_HASH_QUEUES \<Longrightarrow> b \<notin> set (Q k)"
    and f: "\<And>h. hash_next (f h) = hash_next h \<and> hash_prev (f h) = hash_prev h"
  shows "hash_wf (upd b f s) Q"
proof -
  have "hnx (upd b f s) = hnx s" "hpv (upd b f s) = hpv s" using f by (auto simp: link_defs)
  then have R: "hash_ring (upd b f s) k xs = hash_ring s k xs" for k xs by (simp add: hash_ring_def)
  have S: "hdr (upd b f s) c = hdr s c" if "c \<in> set (Q k)" "k < NUM_HASH_QUEUES" for c k
    using that out by auto
  have N: "hash_next (hdr (upd b f s) c) = hash_next (hdr s c)"
    "hash_prev (hdr (upd b f s) c) = hash_prev (hdr s c)" for c using f by auto
  have H: "hdr (upd b f s) (HashHead k) = hdr s (HashHead k)" for k using b by auto
  show ?thesis
    unfolding hash_wf_def R keyed_def H N
    using wf S by (simp add: hash_wf_def keyed_def)
qed

text \<open>The hash queues after buffer \<open>b\<close> moved to the head of queue \<open>j\<close>.\<close>

definition requeue :: "bref \<Rightarrow> nat \<Rightarrow> (nat \<Rightarrow> bref list) \<Rightarrow> nat \<Rightarrow> bref list" where
  "requeue b j Q = (\<lambda>k. if k = j then b # removeAll b (Q k) else removeAll b (Q k))"

lemma reassign_hash_wf:
  assumes wf: "hash_wf s Q" and b: "is_buf b" and none: "cached_buf s Q d n = None"
  shows "hash_wf (getblk_reassign d n b s) (requeue b (bcache_hash_slot d n) Q)"
proof -
  let ?j = "bcache_hash_slot d n" and ?R = "\<lambda>k. removeAll b (Q k)"
  let ?u = "upd b (\<lambda>h. h\<lparr>dev := d, blkno := n, status := BUF_LOCKED\<rparr>) (bcache_hash_remove b s)"
  have u: "hash_wf ?u ?R"
    by (rule hash_wf_upd [OF hash_wf_detach [OF wf b] b]) simp_all
  have "hash_wf (bcache_hash_insert b ?u) (?R(?j := b # ?R ?j))"
  proof (rule hash_wf_attach [OF u b])
    fix c assume c: "c \<in> set (removeAll b (Q ?j))"
    with none have "\<not> keyed s c d n" by (auto simp: cached_buf_def find_None_iff)
    with c show "\<not> keyed ?u c (dev (hdr ?u b)) (blkno (hdr ?u b))" by (auto simp: keyed_def)
  qed simp_all
  moreover have "?R(?j := b # ?R ?j) = requeue b ?j Q" by (auto simp: requeue_def)
  moreover have "hash_wf (getblk_reassign d n b s) X = hash_wf (bcache_hash_insert b ?u) X" for X
    by (rule hash_wf_cong) (simp add: getblk_reassign_def)
  ultimately show ?thesis by simp
qed

lemma reassign_fields:
  "dev (hdr (getblk_reassign d n b s) c) = (if c = b then d else dev (hdr s c))"
  "blkno (hdr (getblk_reassign d n b s) c) = (if c = b then n else blkno (hdr s c))"
  "status (hdr (getblk_reassign d n b s) c) = (if c = b then BUF_LOCKED else status (hdr s c))"
  "data (hdr (getblk_reassign d n b s) c) = data (hdr s c)"
  "free_next (hdr (getblk_reassign d n b s) c) = free_next (hdr s c)"
  "free_prev (hdr (getblk_reassign d n b s) c) = free_prev (hdr s c)"
  "media (getblk_reassign d n b s) = media s" "blockdev (getblk_reassign d n b s) = blockdev s"
  by (simp_all add: getblk_reassign_def Let_def)

lemma BUF_LOCKED_bit: "m < 32 \<Longrightarrow> bit BUF_LOCKED m \<longleftrightarrow> m = 0"
  by (auto simp: BUF_LOCKED_def bit_simps)

lemma cache_inv_hd:
  assumes "cache_inv s (b # F) Q"
  shows "is_buf b" and "\<not> locked s b" and "b \<notin> set F"
    and "free_ring (bcache_fl_remove b s) F" and "bcache_fl_pop_head s = (Some b, bcache_fl_remove b s)"
proof -
  have fr: "free_ring s (b # F)" by (rule cache_inv_free [OF assms])
  show "is_buf b" "\<not> locked s b" using cache_inv_in_free [OF assms, of b] by auto
  show "b \<notin> set F" using ring_distinct [OF fr [unfolded free_ring_def]] by simp
  show "free_ring (bcache_fl_remove b s) F" "bcache_fl_pop_head s = (Some b, bcache_fl_remove b s)"
    using fl_pop_head_Cons [OF fr] by blast+
qed

lemma fl_remove_fields:
  "dev (hdr (bcache_fl_remove b s) c) = dev (hdr s c)"
  "blkno (hdr (bcache_fl_remove b s) c) = blkno (hdr s c)"
  "status (hdr (bcache_fl_remove b s) c) = status (hdr s c)"
  "data (hdr (bcache_fl_remove b s) c) = data (hdr s c)"
  "hash_next (hdr (bcache_fl_remove b s) c) = hash_next (hdr s c)"
  "hash_prev (hdr (bcache_fl_remove b s) c) = hash_prev (hdr s c)"
  using core_eqD [OF fl_core(1) [of b s c]] by simp_all

lemma reassign_inv:
  assumes inv: "cache_inv s (b # F) Q" and none: "cached_buf s Q d n = None"
  shows "cache_inv (getblk_reassign d n b (bcache_fl_remove b s)) F
    (requeue b (bcache_hash_slot d n) Q)"
  unfolding cache_inv_split
proof (intro conjI allI)
  let ?u = "bcache_fl_remove b s"
  have wf: "hash_wf s Q" using inv by (simp add: cache_inv_split)
  have "hash_wf ?u Q = hash_wf s Q"
    by (rule hash_wf_cong) (simp add: fl_remove_fields)
  moreover have "cached_buf ?u Q d n = None"
    using none cached_cong [of ?u s Q d n] by (simp add: fl_remove_fields)
  ultimately show "hash_wf (getblk_reassign d n b ?u) (requeue b (bcache_hash_slot d n) Q)"
    using reassign_hash_wf [of ?u Q b d n] wf cache_inv_hd(1) [OF inv] by simp
  show "free_ring (getblk_reassign d n b ?u) F"
    using cache_inv_hd(4) [OF inv] free_ring_cong [of "getblk_reassign d n b ?u" ?u F]
    by (simp add: reassign_fields)
  show "(c \<in> set F) = (is_buf c \<and> \<not> locked (getblk_reassign d n b ?u) c)" for c
    using cache_inv_in_free [OF inv, of c] cache_inv_hd(3) [OF inv]
    by (cases "c = b") (auto simp: reassign_fields fl_remove_fields flag_tests BUF_LOCKED_bit)
qed

lemma reassign_cached:
  "cached_buf (getblk_reassign d n b s) (requeue b (bcache_hash_slot d n) Q) d n = Some b"
  by (simp add: cached_buf_def requeue_def keyed_def reassign_fields)

section \<open>Scenario 3: a delayed write is flushed and its buffer released\<close>

text \<open>The buffer just before scenario 3 releases it.\<close>

definition flush_ready :: "bref \<Rightarrow> 'm bcache \<Rightarrow> 'm bcache" where
  "flush_ready b s =
     (let s = bstat (\<lambda>t. t\<lparr>delayed_writes := delayed_writes t + 1\<rparr>) s;
          s = upd_status b (setf BUF_LOCKED) s;
          s = bcache_plat_write_block (dev (hdr s b)) (blkno (hdr s b)) (data (hdr s b)) s;
          s = upd_status b (clrf (BUF_DELWRITE OR BUF_IOBUSY)) s
      in upd_status b (setf BUF_VALID) s)"

lemma getblk_flush_eq: "getblk_flush b s = brelse (Some b) (flush_ready b s)"
  by (simp add: getblk_flush_def flush_ready_def Let_def)

lemma flush_ready_links: "same_links s (flush_ready b s)"
  by (auto simp: flush_ready_def Let_def intro!: stay)

lemma flush_ready_data [simp]: "data (hdr (flush_ready b s) c) = data (hdr s c)"
  by (simp add: flush_ready_def Let_def)

lemma flush_ready_status:
  "m < 32 \<Longrightarrow> bit (status (hdr (flush_ready b s) c)) m \<longleftrightarrow>
     (if c = b then m \<in> {0, 1} \<or> bit (status (hdr s b)) m \<and> m \<notin> {2, 3}
      else bit (status (hdr s c)) m)"
  by (auto simp: flush_ready_def Let_def clrf_or flags)

lemma flush_ready_media:
  "media (flush_ready b s) = medium_write (dev (hdr s b)) (blkno (hdr s b)) (data (hdr s b)) s"
proof -
  have "medium_write d n x (upd_status b (setf BUF_LOCKED)
      (bstat (\<lambda>t. t\<lparr>delayed_writes := delayed_writes t + 1\<rparr>) s)) = medium_write d n x s" for d n x
    by (rule medium_write_cong) simp_all
  then show ?thesis by (simp add: flush_ready_def Let_def medium_write_def)
qed

lemma flush_inv:
  assumes inv: "cache_inv s (b # F) Q"
  shows "cache_inv (getblk_flush b (bcache_fl_remove b s))
    (if has (status (hdr s b)) BUF_OLD then b # F else F @ [b]) Q"
proof -
  let ?u = "bcache_fl_remove b s" and ?t = "flush_ready b (bcache_fl_remove b s)"
  have L: "same_links ?u ?t" by (rule flush_ready_links)
  have st: "locked ?t c \<longleftrightarrow> c = b \<or> locked s c" for c
    by (simp add: flag_tests flush_ready_status fl_remove_fields)
  have "cache_inv ?t F Q"
  proof (rule cache_invI [OF inv])
    show "free_ring ?t F"
      using cache_inv_hd(4) [OF inv] free_ring_cong [of ?t ?u F] L by (simp add: same_links_def)
    show "c \<in> set F \<longleftrightarrow> is_buf c \<and> \<not> locked ?t c" for c
      using cache_inv_in_free [OF inv, of c] cache_inv_hd(3) [OF inv] st by auto
  qed (use L in \<open>simp add: same_links_def fl_remove_fields\<close>)
  from brelse_inv [OF this cache_inv_hd(1) [OF inv]] st
  have "cache_inv (brelse (Some b) ?t) (release_order ?t b F) Q" by blast
  moreover have "release_order ?t b F = (if has (status (hdr s b)) BUF_OLD then b # F else F @ [b])"
    by (simp add: release_order_def flag_tests flush_ready_status fl_remove_fields)
  ultimately show ?thesis by (simp add: getblk_flush_eq)
qed

section \<open>\<open>bflush\<close>\<close>

lemma flush_media_step:
  assumes "x \<notin> set xs"
  shows "flush_media d xs (bflush_one d x s) = flush_media d (x # xs) s"
proof -
  let ?s = "bflush_one d x s"
  have "filter (\<lambda>i. flushable d ?s (Buf i)) xs = filter (\<lambda>i. flushable d s (Buf i)) xs"
    using assms by (intro filter_cong) (auto simp: bflush_one_flushable)
  moreover have "medium_write d (blkno (hdr ?s b)) (data (hdr ?s b)) (?s\<lparr>media := m\<rparr>) =
      medium_write d (blkno (hdr s b)) (data (hdr s b)) (s\<lparr>media := m\<rparr>)" for b m
    using bflush_one_links [of s d x]
    by (simp add: same_links_def medium_write_cong [of "?s\<lparr>media := m\<rparr>" "s\<lparr>media := m\<rparr>"])
  ultimately show ?thesis
    by (simp add: flush_media_def bflush_one_media)
qed

lemma bflush_fold:
  assumes "distinct is"
  shows "media (fold (bflush_one d) is s) = flush_media d is s"
    and "same_links s (fold (bflush_one d) is s)"
    and "data (hdr (fold (bflush_one d) is s) c) = data (hdr s c)"
    and "flushable d' (fold (bflush_one d) is s) c \<longleftrightarrow>
      flushable d' s c \<and> \<not> (c \<in> Buf ` set is \<and> d' = d)"
    and "m < 32 \<Longrightarrow> m \<notin> {1, 2, 3} \<Longrightarrow>
      bit (status (hdr (fold (bflush_one d) is s) c)) m = bit (status (hdr s c)) m"
    and "\<not> flushable d s c \<Longrightarrow> hdr (fold (bflush_one d) is s) c = hdr s c"
  using assms
proof (induction "is" arbitrary: s)
  case Nil
  {
    case 1 show ?case by (simp add: flush_media_def)
  next
    case 2 show ?case by (simp add: same_links_refl)
  next
    case 3 show ?case by simp
  next
    case 4 show ?case by simp
  next
    case 5 show ?case by simp
  next
    case 6 show ?case by simp
  }
next
  case (Cons x xs)
  {
    case 1 with Cons.IH(1) [of "bflush_one d x s"] show ?case by (simp add: flush_media_step)
  next
    case 2 with Cons.IH(2) [of "bflush_one d x s"] bflush_one_links [of s d x] show ?case
      by (auto intro: same_links_trans)
  next
    case 3 with Cons.IH(3) [of "bflush_one d x s"] show ?case by simp
  next
    case 4
    have "flushable d s c \<Longrightarrow> flushable d' s c \<Longrightarrow> d' = d" for c by (simp add: flushable_def)
    with 4 Cons.IH(4) [of "bflush_one d x s"] show ?case
      by (auto simp: bflush_one_flushable)
  next
    case 5 with Cons.IH(5) [of "bflush_one d x s"] show ?case by (simp add: bflush_one_status)
  next
    case 6
    then have "\<not> flushable d (bflush_one d x s) c" by (simp add: bflush_one_flushable)
    moreover have "hdr (bflush_one d x s) c = hdr s c"
      using 6(1) by (auto simp: bflush_one_def flushable_def Let_def)
    ultimately show ?case using 6 Cons.IH(6) [of "bflush_one d x s"] by simp
  }
qed

lemma bflush_facts:
  shows bflush_media: "media (bflush d s) = flush_media d [0..<NUM_BUFFERS] s"
    and bflush_links: "same_links s (bflush d s)"
    and bflush_data: "data (hdr (bflush d s) c) = data (hdr s c)"
    and bflush_flushable: "flushable d' (bflush d s) c \<longleftrightarrow>
      flushable d' s c \<and> \<not> (is_buf c \<and> d' = d)"
    and bflush_other: "\<not> flushable d s c \<Longrightarrow> hdr (bflush d s) c = hdr s c"
    and bflush_locked: "locked (bflush d s) c = locked s c"
proof -
  have "distinct [0..<NUM_BUFFERS]" by simp
  note F = bflush_fold [OF this]
  have "c \<in> Buf ` set [0..<NUM_BUFFERS] \<longleftrightarrow> is_buf c" by (auto simp: is_buf_def)
  with F(4) [of d' d s c]
  show "flushable d' (bflush d s) c \<longleftrightarrow> flushable d' s c \<and> \<not> (is_buf c \<and> d' = d)"
    by (simp add: bflush_def)
  show "locked (bflush d s) c = locked s c" by (simp add: flag_tests F(5) bflush_def)
qed (simp_all add: bflush_def bflush_fold)

lemma bflush_inv: "cache_inv s F Q \<Longrightarrow> cache_inv (bflush d s) F Q"
  by (rule cache_inv_stay) (simp_all add: bflush_links bflush_locked)

lemma bflush_all_flushable:
  assumes "is_buf c"
  shows "flushable d' (fold (\<lambda>d. bflush (of_nat d)) ds s) c \<longleftrightarrow>
    flushable d' s c \<and> d' \<notin> of_nat ` set ds"
  using assms by (induction ds arbitrary: s) (auto simp: bflush_flushable)

section \<open>Runs of the cache's calls\<close>

text \<open>
  A client's call that returns: \<open>getblk\<close> and \<open>bread\<close> of a real block, a release or a
  write of a buffer the client holds, a flush.
\<close>

inductive cache_step :: "'m bcache \<Rightarrow> 'm bcache \<Rightarrow> bool" where
  step_getblk: "d \<noteq> 255 \<or> n \<noteq> 0xFFFFFFFF \<Longrightarrow> getblk d n s = Some (r, t) \<Longrightarrow> cache_step s t"
| step_bread: "d \<noteq> 255 \<or> n \<noteq> 0xFFFFFFFF \<Longrightarrow> bread d n s = Some (r, t) \<Longrightarrow> cache_step s t"
| step_brelse: "is_buf b \<Longrightarrow> locked s b \<Longrightarrow> cache_step s (brelse (Some b) s)"
| step_bwrite: "is_buf b \<Longrightarrow> locked s b \<Longrightarrow> cache_step s (bwrite (Some b) sync delayed s)"
| step_bflush: "cache_step s (bflush d s)"

inductive_cases cache_stepE: "cache_step s t"

definition cache_ok :: "'m bcache \<Rightarrow> bool" where
  "cache_ok s \<longleftrightarrow> (\<exists>F Q. cache_inv s F Q)"

lemma getblk_keeps:
  assumes inv: "cache_inv s F Q" and real: "d \<noteq> 255 \<or> n \<noteq> 0xFFFFFFFF"
    and ret: "getblk d n s = Some (r, t)"
  shows "\<exists>b. cached_buf s Q d n = Some b \<and>
    (locked s b \<and> r = None \<and> hdr t = hdr s \<and> cache_inv t F Q \<or>
     \<not> locked s b \<and> r = Some b \<and> t = getblk_hit b s \<and> cache_inv t (remove1 b F) Q)"
proof -
  from ret obtain b where b: "cached_buf s Q d n = Some b"
    by (auto simp: getblk_spec [OF inv real] split: option.splits)
  have same: "cache_inv (bstat f s) F Q" for f
    by (rule cache_inv_stay [OF inv]) (simp_all add: stay)
  show ?thesis
  proof (cases "locked s b")
    case True
    with ret b have "r = None" "t = bstat (\<lambda>t. t\<lparr>busy_waits := busy_waits t + 100000\<rparr>) s"
      by (simp_all add: getblk_spec [OF inv real])
    with True b same show ?thesis by simp
  next
    case False
    with ret b have "r = Some b" "t = getblk_hit b s"
      by (simp_all add: getblk_spec [OF inv real])
    with False b getblk_hit_inv(1) [OF inv cached_bufD(1) [OF inv b] False] show ?thesis by simp
  qed
qed

lemma getblk_ok:
  assumes "cache_ok s" and "d \<noteq> 255 \<or> n \<noteq> 0xFFFFFFFF" and "getblk d n s = Some (r, t)"
  shows "cache_ok t"
proof -
  obtain F Q where inv: "cache_inv s F Q" using assms(1) by (auto simp: cache_ok_def)
  from getblk_keeps [OF inv assms(2,3)] show ?thesis by (auto simp: cache_ok_def)
qed

lemma cache_step_ok: "cache_step s t \<Longrightarrow> cache_ok s \<Longrightarrow> cache_ok t"
proof (induction rule: cache_step.induct)
  case (step_bread d n s r t)
  then obtain p u where g: "getblk d n s = Some (p, u)"
    and t: "t = (case p of None \<Rightarrow> u | Some b \<Rightarrow> bread_fill d n b u)"
    by (auto simp: bread_getblk split: option.splits)
  have "cache_ok u" by (rule getblk_ok [OF step_bread.prems step_bread.hyps(1) g])
  with t bread_fill_inv show ?case
    by (cases p) (auto simp: cache_ok_def, blast)
next
  case (step_getblk d n s r t)
  then show ?case using getblk_ok by blast
next
  case (step_brelse b s)
  then show ?case using brelse_inv unfolding cache_ok_def by blast
next
  case (step_bwrite b s sync delayed)
  then show ?case using bwrite_inv unfolding cache_ok_def by blast
next
  case (step_bflush s d)
  then show ?case using bflush_inv unfolding cache_ok_def by blast
qed

text \<open>A cache as \<open>bcache_init\<close> left it: nothing queued, every buffer free and clean.\<close>

definition cold :: "'m bcache \<Rightarrow> bool" where
  "cold s \<longleftrightarrow> cache_inv s all_bufs (\<lambda>_. []) \<and> (\<forall>b. is_buf b \<longrightarrow> status (hdr s b) = 0)"

lemma cold_init: "cold (bcache_init s)"
  by (simp add: cold_def init_inv init_buf_fields)

lemma cold_hangs:
  assumes "cold s" and "d \<noteq> 255 \<or> n \<noteq> 0xFFFFFFFF"
  shows "getblk d n s = None" and "bread d n s = None"
proof -
  have inv: "cache_inv s all_bufs (\<lambda>_. [])" using assms(1) by (simp add: cold_def)
  show "getblk d n s = None" "bread d n s = None"
    by (simp_all add: getblk_spec [OF inv assms(2)] bread_spec [OF inv assms(2)] cached_buf_def)
qed

lemma cold_bflush:
  assumes "cold s" shows "bflush d s = s"
proof -
  have "fold (bflush_one d) is s = s" if "set is \<subseteq> {0..<NUM_BUFFERS}" for "is"
    using that
  proof (induction "is")
    case (Cons i xs)
    then have "status (hdr s (Buf i)) = 0"
      using assms by (auto simp: cold_def is_buf_def)
    then have "bflush_one d i s = s"
      by (intro bflush_one_skip) (simp add: flushable_def flag_tests)
    with Cons show ?case by simp
  qed simp
  then show ?thesis by (simp add: bflush_def)
qed

lemma cold_step: "cache_step s t \<Longrightarrow> cold s \<Longrightarrow> t = s"
  by (induction rule: cache_step.induct)
     (auto simp: cold_hangs cold_bflush, auto simp: cold_def flag_tests)

section \<open>A concrete cache\<close>

text \<open>
  The instance on which the properties are exercised: a RAM disk of eight blocks as
  block device 1, and the cache after block 7 of it was given buffer 0.
\<close>

type_synonym ramdisk = "u32 \<Rightarrow> u8 list"

definition ram_ops :: "ramdisk blk_ops" where
  "ram_ops = \<lparr>op_read = Some (\<lambda>m n buf. (m n, m)), op_write = Some (\<lambda>m n buf. m(n := buf)),
     op_num_blocks = Some (\<lambda>m. 8)\<rparr>"

definition ram_cache :: "ramdisk bcache" where
  "ram_cache = bcache_init \<lparr>hdr = (\<lambda>b. zero_hdr), stats = zero_stats,
     blockdev = (\<lambda>d. if d = 1 then Some (Some ram_ops) else None),
     media = (\<lambda>n. replicate BLOCK_SIZE 7)\<rparr>"

definition warm_cache :: "ramdisk bcache" where
  "warm_cache = getblk_reassign 1 7 (Buf 0) (bcache_fl_remove (Buf 0) ram_cache)"

definition warm_free :: "bref list" where "warm_free = map Buf [1..<NUM_BUFFERS]"

definition warm_queues :: "nat \<Rightarrow> bref list" where
  "warm_queues = requeue (Buf 0) (bcache_hash_slot 1 7) (\<lambda>_. [])"

lemma all_bufs_Cons: "all_bufs = Buf 0 # warm_free"
proof -
  have "[0..<NUM_BUFFERS] = 0 # [1..<NUM_BUFFERS]"
    using upt_conv_Cons [of 0 NUM_BUFFERS] by (simp add: NUM_BUFFERS_def)
  then show ?thesis by (simp only: all_bufs_def warm_free_def list.map)
qed

lemma ram_inv: "cache_inv ram_cache (Buf 0 # warm_free) (\<lambda>_. [])"
  unfolding ram_cache_def all_bufs_Cons [symmetric] by (rule init_inv)

lemma warm_inv: "cache_inv warm_cache warm_free warm_queues"
  unfolding warm_cache_def warm_queues_def
  by (rule reassign_inv [OF ram_inv]) (simp add: cached_buf_def)

lemma warm_cached: "cached_buf warm_cache warm_queues 1 7 = Some (Buf 0)"
  unfolding warm_cache_def warm_queues_def by (rule reassign_cached)

lemma warm_locked: "locked warm_cache (Buf 0)" "status (hdr warm_cache (Buf 0)) = BUF_LOCKED"
  by (simp_all add: warm_cache_def reassign_fields flag_tests BUF_LOCKED_bit)

lemma is_buf_0: "is_buf (Buf 0)"
  by (simp add: is_buf_def NUM_BUFFERS_def)

definition warm_free_cache :: "ramdisk bcache" where
  "warm_free_cache = bwrite (Some (Buf 0)) True False warm_cache"

lemma warm_free_order:
  "release_order (bwrite_ready (Buf 0) False warm_cache) (Buf 0) warm_free = warm_free @ [Buf 0]"
  by (simp add: release_order_def flag_tests bwrite_ready_status warm_locked BUF_LOCKED_bit)

lemma warm_free_inv: "cache_inv warm_free_cache (warm_free @ [Buf 0]) warm_queues"
  using bwrite_inv [OF warm_inv is_buf_0 warm_locked(1), of True False] warm_free_order
  by (simp add: warm_free_cache_def)

lemma bwrite_fields:
  "dev (hdr (bwrite (Some b) sync delayed s) c) = dev (hdr s c)"
  "blkno (hdr (bwrite (Some b) sync delayed s) c) = blkno (hdr s c)"
  "data (hdr (bwrite (Some b) sync delayed s) c) = data (hdr s c)"
  "media (bwrite (Some b) sync delayed s) = media (bwrite_ready b delayed s)"
  using bwrite_ready_links [of s b delayed] by (simp_all add: bwrite_eq same_links_def)

lemma bwrite_status:
  "m < 32 \<Longrightarrow> bit (status (hdr (bwrite (Some b) sync delayed s) c)) m \<longleftrightarrow>
     (if c \<noteq> b then bit (status (hdr s c)) m
      else m \<notin> {0, 4, 5} \<and>
        (if delayed then bit (status (hdr s b)) m \<or> m = 2
         else m = 1 \<or> bit (status (hdr s b)) m \<and> m \<notin> {2, 3, 7}))"
  by (auto simp: bwrite_eq clrf_or flags bwrite_ready_status)

lemma warm_free_cached: "cached_buf warm_free_cache warm_queues 1 7 = Some (Buf 0)"
  using warm_cached cached_cong [of warm_free_cache warm_cache]
  by (simp add: warm_free_cache_def bwrite_fields)

lemma warm_free_unlocked: "\<not> locked warm_free_cache (Buf 0)"
  by (simp add: warm_free_cache_def bwrite_status flag_tests)

text \<open>The same block with a delayed write pending.\<close>

definition dirty_cache :: "ramdisk bcache" where
  "dirty_cache = bdwrite (Some (Buf 0)) warm_cache"

lemma dirty_inv: "cache_inv dirty_cache (Buf 0 # warm_free) warm_queues"
proof -
  have "release_order (bwrite_ready (Buf 0) True warm_cache) (Buf 0) warm_free = Buf 0 # warm_free"
    by (simp add: release_order_def flag_tests bwrite_ready_status warm_locked BUF_LOCKED_bit)
  with bwrite_inv [OF warm_inv is_buf_0 warm_locked(1), of False True] show ?thesis
    by (simp add: dirty_cache_def bdwrite_def)
qed

lemma dirty_status: "m < 32 \<Longrightarrow> bit (status (hdr dirty_cache (Buf 0))) m \<longleftrightarrow> m = 2"
  by (auto simp: dirty_cache_def bdwrite_def bwrite_status warm_locked BUF_LOCKED_bit)

lemma ram_data: "data (hdr ram_cache (Buf 0)) = replicate BLOCK_SIZE 0"
proof -
  have "core (hdr (init_upto NUM_BUFFERS s) (Buf 0)) =
      (255, 0xFFFFFFFF, 0, replicate BLOCK_SIZE 0, None, None)" for s :: "ramdisk bcache"
    by (simp add: init_upto_core NUM_BUFFERS_def)
  then show ?thesis by (simp add: ram_cache_def bcache_init_eq core_def)
qed

lemma warm_frame:
  "blockdev warm_cache 1 = Some (Some ram_ops)" "media warm_cache = (\<lambda>n. replicate BLOCK_SIZE 7)"
  by (simp_all add: warm_cache_def ram_cache_def reassign_fields init_frame)

lemma dirty_key:
  "dev (hdr dirty_cache (Buf 0)) = 1" "blkno (hdr dirty_cache (Buf 0)) = 7"
  "data (hdr dirty_cache (Buf 0)) = replicate BLOCK_SIZE 0"
  by (simp_all add: dirty_cache_def bdwrite_def bwrite_fields warm_cache_def reassign_fields
      fl_remove_fields ram_data)

lemma dirty_medium: "medium_write 1 7 x dirty_cache 7 = x"
proof -
  have "blockdev dirty_cache 1 = Some (Some ram_ops)"
    by (simp add: dirty_cache_def bdwrite_def bwrite_def Let_def warm_frame)
  then show ?thesis
    by (simp add: medium_write_def bcache_plat_write_block_def blockdev_ops_def ram_ops_def)
qed

section \<open>Properties\<close>

text \<open>C10: a cache in the state \<open>bcache_init\<close> builds serves no block. The hash queues are
  circular while \<open>bcache_hash_lookup\<close> walks until NULL, so the first \<open>getblk\<close> or \<open>bread\<close>
  of any real block never returns, whatever calls that do return came before it.\<close>

theorem cold_cache_never_serves:
  assumes "cache_step\<^sup>*\<^sup>* (bcache_init s) t" and "d \<noteq> 255 \<or> n \<noteq> 0xFFFFFFFF"
  shows "getblk d n t = None \<and> bread d n t = None"
proof -
  from assms(1) have "t = bcache_init s"
    by (induction rule: rtranclp_induct) (auto dest: cold_step [OF _ cold_init])
  then show ?thesis by (simp add: cold_hangs [OF cold_init assms(2)])
qed

theorem cold_cache_never_serves_witness:
  "getblk 1 7 ram_cache = None \<and> bread 1 7 ram_cache = None"
  unfolding ram_cache_def by (rule cold_cache_never_serves [OF rtranclp.rtrancl_refl]) simp

text \<open>C5: every call that returns keeps the cache well formed: free list and hash queues
  remain proper rings, the free list holds exactly the unlocked buffers, every queued
  buffer is on the queue of its key and no key is queued twice.\<close>

theorem cache_runs_ok:
  assumes "cache_step\<^sup>*\<^sup>* s t" and "cache_ok s"
  shows "cache_ok t"
  using assms by (induction rule: rtranclp_induct) (auto dest: cache_step_ok)

theorem cache_runs_ok_witness: "cache_ok warm_free_cache"
proof (rule cache_runs_ok)
  show "cache_step\<^sup>*\<^sup>* warm_cache warm_free_cache"
    unfolding warm_free_cache_def
    by (intro r_into_rtranclp step_bwrite is_buf_0 warm_locked)
  show "cache_ok warm_cache" unfolding cache_ok_def using warm_inv by blast
qed

text \<open>C6: the outcome of \<open>getblk\<close> in every well-formed cache. A cached free block comes
  back locked, off the free list, with data and medium untouched; a cached busy block
  gives NULL after the spin limit; a block that is not cached is never answered.\<close>

theorem getblk_outcome:
  assumes inv: "cache_inv s F Q" and real: "d \<noteq> 255 \<or> n \<noteq> 0xFFFFFFFF"
  shows "case cached_buf s Q d n of
      None \<Rightarrow> getblk d n s = None
    | Some b \<Rightarrow>
        (if locked s b
         then \<exists>t. getblk d n s = Some (None, t) \<and> hdr t = hdr s \<and> media t = media s \<and>
           busy_waits (stats t) = busy_waits (stats s) + of_nat BCACHE_SPIN_LIMIT
         else \<exists>t. getblk d n s = Some (Some b, t) \<and> cache_inv t (remove1 b F) Q \<and>
           locked t b \<and> keyed t b d n \<and> (\<forall>c. data (hdr t c) = data (hdr s c)) \<and>
           media t = media s \<and> hits (stats t) = hits (stats s) + 1)"
proof (cases "cached_buf s Q d n")
  case None
  then show ?thesis by (simp add: getblk_spec [OF inv real])
next
  case (Some b)
  note b = cached_bufD [OF inv Some]
  have "hits (stats (getblk_hit b s)) = hits (stats s) + 1" by (simp add: getblk_hit_def Let_def)
  with Some b getblk_hit_inv [OF inv b(1)] show ?thesis
    by (simp add: getblk_spec [OF inv real] getblk_hit_core keyed_def BCACHE_SPIN_LIMIT_def)
qed

theorem getblk_outcome_witness:
  "\<exists>t. getblk 1 7 warm_free_cache = Some (Some (Buf 0), t) \<and> locked t (Buf 0)"
  using getblk_outcome [OF warm_free_inv, of 1 7] by (auto simp: warm_free_cached warm_free_unlocked)

text \<open>Scenario 2. When the least recently used free buffer is given to a block that
  is not cached, it leaves the free list and its old queue, becomes the first buffer of
  the new block's queue, locked and not valid, and the cache stays well formed.\<close>

theorem getblk_reassign_ok:
  assumes "cache_inv s (b # F) Q" and "cached_buf s Q d n = None"
    and "t = getblk_reassign d n b (snd (bcache_fl_pop_head s))"
  shows "cache_inv t F (requeue b (bcache_hash_slot d n) Q) \<and>
    cached_buf t (requeue b (bcache_hash_slot d n) Q) d n = Some b \<and>
    status (hdr t b) = BUF_LOCKED \<and> media t = media s"
  using reassign_inv [OF assms(1,2)] cache_inv_hd(5) [OF assms(1)] assms(3)
  by (simp add: reassign_cached reassign_fields)

theorem getblk_reassign_ok_witness:
  "cache_inv warm_cache warm_free warm_queues \<and>
   cached_buf warm_cache warm_queues 1 7 = Some (Buf 0)"
proof -
  have "cached_buf ram_cache (\<lambda>_. []) 1 7 = None" by (simp add: cached_buf_def)
  moreover have "warm_cache = getblk_reassign 1 7 (Buf 0) (snd (bcache_fl_pop_head ram_cache))"
    by (simp add: warm_cache_def cache_inv_hd(5) [OF ram_inv])
  ultimately show ?thesis
    using getblk_reassign_ok [OF ram_inv] unfolding warm_queues_def by blast
qed

text \<open>Scenario 3. A popped delayed-write buffer is written to its device and goes back
  on the free list, clean, valid and unlocked: to the tail, or to the head if marked old.\<close>

theorem getblk_flush_ok:
  assumes "cache_inv s (b # F) Q" and "has (status (hdr s b)) BUF_DELWRITE"
    and "t = getblk_flush b (snd (bcache_fl_pop_head s))"
  shows "cache_inv t (if has (status (hdr s b)) BUF_OLD then b # F else F @ [b]) Q \<and>
    media t = medium_write (dev (hdr s b)) (blkno (hdr s b)) (data (hdr s b)) s \<and>
    has (status (hdr t b)) BUF_VALID \<and> \<not> has (status (hdr t b)) BUF_DELWRITE \<and>
    \<not> locked t b"
proof -
  have u: "snd (bcache_fl_pop_head s) = bcache_fl_remove b s"
    using cache_inv_hd(5) [OF assms(1)] by simp
  have "medium_write d n x (bcache_fl_remove b s) = medium_write d n x s" for d n x
    by (rule medium_write_cong) simp_all
  then have "media (getblk_flush b (bcache_fl_remove b s)) =
      medium_write (dev (hdr s b)) (blkno (hdr s b)) (data (hdr s b)) s"
    by (simp add: getblk_flush_eq flush_ready_media fl_remove_fields)
  with flush_inv [OF assms(1)] assms(3) u show ?thesis
    by (simp add: getblk_flush_eq clrf_or flags flush_ready_status)
qed

theorem getblk_flush_ok_witness:
  "\<exists>t :: ramdisk bcache. media t 7 = replicate BLOCK_SIZE 0 \<and> cache_inv t (warm_free @ [Buf 0]) warm_queues"
proof -
  let ?t = "getblk_flush (Buf 0) (snd (bcache_fl_pop_head dirty_cache))"
  have "has (status (hdr dirty_cache (Buf 0))) BUF_DELWRITE"
    "\<not> has (status (hdr dirty_cache (Buf 0))) BUF_OLD"
    by (simp_all add: flag_tests dirty_status)
  with getblk_flush_ok [OF dirty_inv _ refl]
  have t: "cache_inv ?t (warm_free @ [Buf 0]) warm_queues"
    "media ?t = medium_write 1 7 (replicate BLOCK_SIZE 0) dirty_cache"
    by (simp_all add: dirty_key)
  have "media ?t 7 = replicate BLOCK_SIZE 0" using t(2) by (simp add: dirty_medium)
  with t(1) show ?thesis by blast
qed

text \<open>\<open>brelse\<close> unlocks the buffer it is given and puts it on the free list where the
  replacement policy wants it: valid and not old ones become the most recently used,
  the others the next to be reused.\<close>

theorem brelse_lru:
  assumes "cache_inv s F Q" and "is_buf b" and "locked s b"
  shows "cache_inv (brelse (Some b) s)
      (if has (status (hdr s b)) BUF_VALID \<and> \<not> has (status (hdr s b)) BUF_OLD
       then F @ [b] else b # F) Q \<and>
    (\<forall>c. locked (brelse (Some b) s) c \<longleftrightarrow> c \<noteq> b \<and> locked s c) \<and>
    \<not> has (status (hdr (brelse (Some b) s) b)) BUF_WANTED \<and>
    \<not> has (status (hdr (brelse (Some b) s) b)) BUF_OLD"
  using brelse_inv [OF assms] by (auto simp: release_order_def clrf_or flags)

theorem brelse_lru_witness:
  "cache_inv (brelse (Some (Buf 0)) warm_cache) (Buf 0 # warm_free) warm_queues"
  using brelse_lru [OF warm_inv is_buf_0 warm_locked(1)]
  by (simp add: warm_locked flag_tests BUF_LOCKED_bit)

text \<open>What \<open>bwrite\<close> writes, a later \<open>bread\<close> of that block returns: the data given to
  \<open>bwrite\<close>, from the cache and without touching the device again; a write that is not
  delayed has reached the medium by then, a delayed one has not (but stays marked).\<close>

theorem bwrite_bread:
  assumes inv: "cache_inv s F Q" and c: "cached_buf s Q d n = Some b" and lk: "locked s b"
    and real: "d \<noteq> 255 \<or> n \<noteq> 0xFFFFFFFF"
    and valid: "delayed \<longrightarrow> has (status (hdr s b)) BUF_VALID"
  shows "\<exists>t. bread d n (bwrite (Some b) sync delayed s) = Some (Some b, t) \<and>
    data (hdr t b) = data (hdr s b) \<and>
    media t = (if delayed then media s else medium_write d n (data (hdr s b)) s) \<and>
    (has (status (hdr t b)) BUF_DELWRITE \<longleftrightarrow> delayed)"
proof -
  let ?w = "bwrite (Some b) sync delayed s"
  note b = cached_bufD [OF inv c]
  have cw: "cached_buf ?w Q d n = Some b"
    using c cached_cong [of ?w s] by (simp add: bwrite_fields)
  have uw: "\<not> locked ?w b" by (simp add: flag_tests bwrite_status)
  have "has (status (hdr (getblk_hit b ?w) b)) BUF_VALID"
    using valid by (auto simp: getblk_hit_core flags bwrite_status)
  then have "bread d n ?w = Some (Some b, bstat (\<lambda>t. t\<lparr>reads := reads t + 1\<rparr>) (getblk_hit b ?w))"
    using bread_spec [OF bwrite_inv [OF inv b(1) lk] real, of sync delayed] cw uw
    by (simp add: bread_fill_def)
  moreover have "has (status (hdr (getblk_hit b ?w) b)) BUF_DELWRITE \<longleftrightarrow> delayed"
    by (auto simp: getblk_hit_core flags bwrite_status)
  ultimately show ?thesis
    using b(2) by (simp add: getblk_hit_core bwrite_fields bwrite_ready_media keyed_def)
qed

theorem bwrite_bread_witness:
  "\<exists>t. bread 1 7 (bwrite (Some (Buf 0)) True False warm_cache) = Some (Some (Buf 0), t) \<and>
     data (hdr t (Buf 0)) = data (hdr warm_cache (Buf 0))"
  using bwrite_bread [OF warm_inv warm_cached warm_locked(1), of False True] by auto

text \<open>\<open>bflush dev\<close> leaves no unlocked delayed write of that device in the pool: the
  medium is the old one with exactly those buffers written, in pool order, and every
  other buffer, every key, every datum and both kinds of list are as before.\<close>

theorem bflush_writes_delayed:
  "media (bflush d s) = flush_media d [0..<NUM_BUFFERS] s \<and>
   (\<forall>b. is_buf b \<longrightarrow> \<not> flushable d (bflush d s) b) \<and>
   (\<forall>b. \<not> flushable d s b \<longrightarrow> hdr (bflush d s) b = hdr s b) \<and>
   (\<forall>b. data (hdr (bflush d s) b) = data (hdr s b)) \<and>
   (cache_inv s F Q \<longrightarrow> cache_inv (bflush d s) F Q)"
  by (auto simp: bflush_media bflush_flushable bflush_other bflush_data bflush_inv)

theorem bflush_writes_delayed_witness:
  "media (bflush 1 dirty_cache) = flush_media 1 [0..<NUM_BUFFERS] dirty_cache \<and>
   cache_inv (bflush 1 dirty_cache) (Buf 0 # warm_free) warm_queues"
  using bflush_writes_delayed [of 1 dirty_cache "Buf 0 # warm_free" warm_queues] dirty_inv by blast

text \<open>\<open>bread\<close> of a cached free block that holds no data yet fills it from the driver,
  unless the device knows its size and the block lies past its end: then the buffer comes
  back marked with an error, never valid, and nothing is read.\<close>

theorem bread_fills_or_fails:
  assumes inv: "cache_inv s F Q" and c: "cached_buf s Q d n = Some b" and free: "\<not> locked s b"
    and stale: "\<not> has (status (hdr s b)) BUF_VALID"
    and real: "d \<noteq> 255 \<or> n \<noteq> 0xFFFFFFFF"
    and drv: "blockdev s d = Some (Some ops)" "op_read ops = Some rd"
  shows "\<exists>t. bread d n s = Some (Some b, t) \<and> cache_inv t (remove1 b F) Q \<and> locked t b \<and>
    (if bcache_plat_num_blocks d s \<noteq> 0 \<and> bcache_plat_num_blocks d s \<le> n
     then has (status (hdr t b)) BUF_ERROR \<and> \<not> has (status (hdr t b)) BUF_VALID \<and>
       media t = media s \<and> data (hdr t b) = data (hdr s b)
     else \<not> has (status (hdr t b)) BUF_ERROR \<and> has (status (hdr t b)) BUF_VALID \<and>
       (data (hdr t b), media t) = rd (media s) n (data (hdr s b)))"
proof -
  let ?u = "getblk_hit b s"
  have ub: "is_buf b" by (rule cached_bufD(1) [OF inv c])
  have nb: "bcache_plat_num_blocks d ?u = bcache_plat_num_blocks d s"
    by (simp add: bcache_plat_num_blocks_def blockdev_ops_def split: option.split)
  have nv: "\<not> has (status (hdr ?u b)) BUF_VALID"
    using stale by (simp add: getblk_hit_core flags)
  have "cache_inv (bread_fill d n b ?u) (remove1 b F) Q" "locked (bread_fill d n b ?u) b"
    using getblk_hit_inv [OF inv ub free] by (simp_all add: bread_fill_inv)
  moreover have "bread d n s = Some (Some b, bread_fill d n b ?u)"
    using bread_spec [OF inv real] c free by simp
  moreover have "if bcache_plat_num_blocks d s \<noteq> 0 \<and> bcache_plat_num_blocks d s \<le> n
     then has (status (hdr (bread_fill d n b ?u) b)) BUF_ERROR \<and>
       \<not> has (status (hdr (bread_fill d n b ?u) b)) BUF_VALID \<and>
       media (bread_fill d n b ?u) = media s \<and>
       data (hdr (bread_fill d n b ?u) b) = data (hdr s b)
     else \<not> has (status (hdr (bread_fill d n b ?u) b)) BUF_ERROR \<and>
       has (status (hdr (bread_fill d n b ?u) b)) BUF_VALID \<and>
       (data (hdr (bread_fill d n b ?u) b), media (bread_fill d n b ?u)) =
         rd (media s) n (data (hdr s b))"
    using nv drv
    by (auto simp: bread_fill_def nb Let_def flags getblk_hit_core bcache_plat_read_block_def
        blockdev_ops_def split: prod.split)
  ultimately show ?thesis by blast
qed

theorem bread_fills_or_fails_witness:
  "\<exists>t. bread 1 7 (brelse (Some (Buf 0)) warm_cache) = Some (Some (Buf 0), t) \<and>
     data (hdr t (Buf 0)) = replicate BLOCK_SIZE 7"
proof -
  let ?s = "brelse (Some (Buf 0)) warm_cache"
  have dev1: "blockdev ?s 1 = Some (Some ram_ops)" "media ?s = (\<lambda>n. replicate BLOCK_SIZE 7)"
    by (simp_all add: warm_frame)
  have inv: "cache_inv ?s (release_order warm_cache (Buf 0) warm_free) warm_queues"
    by (rule brelse_inv [OF warm_inv is_buf_0 warm_locked(1)])
  have c: "cached_buf ?s warm_queues 1 7 = Some (Buf 0)"
    using warm_cached cached_cong [of ?s warm_cache] by simp
  have rd: "op_read ram_ops = Some (\<lambda>m n buf. (m n, m))" by (simp add: ram_ops_def)
  have "bcache_plat_num_blocks 1 ?s = 8"
    by (simp add: bcache_plat_num_blocks_def blockdev_ops_def warm_frame ram_ops_def)
  moreover have "\<not> locked ?s (Buf 0)" "\<not> has (status (hdr ?s (Buf 0))) BUF_VALID"
    by (simp_all add: clrf_or flags warm_locked BUF_LOCKED_bit)
  ultimately show ?thesis
    using bread_fills_or_fails [OF inv c _ _ _ dev1(1) rd] dev1(2) by auto
qed

end
