(* ===== verification/Ipc.thy ===== *)
theory Ipc
  imports Prelude
begin

text \<open>
  What the three System V mechanisms of \<open>33_PCS/00_IPC\<close> share: limits and flags, the
  permission block, sleeping and waking, and the contract of their tables of named
  objects (\<open>uiox_kix_msg_get\<close>, \<open>uiox_kix_sem_get\<close>, \<open>uiox_kix_shm_get\<close>) as the locale
  \<open>key_table\<close>, and of their pools of slots as the locale \<open>slot_pool\<close>.

  Sleeping: a call that has to wait hands the processor to others until it is woken. What
  happens meanwhile is a list of pairs \<open>(rc, f)\<close>, one per sleep: \<open>ipc_sleep\<close> returns \<open>rc\<close>
  and the other processes' work on the state is \<open>f\<close>. A call that sleeps once more than the
  list has pairs is still asleep. A wakeup is an entry of a log of channels.
\<close>

section \<open>Limits and flags\<close>

definition IPC_MAX_QUEUES :: nat where "IPC_MAX_QUEUES = 16"
definition IPC_MAX_MSGS :: nat where "IPC_MAX_MSGS = 32"
definition IPC_MAX_MSG_BYTES :: nat where "IPC_MAX_MSG_BYTES = 512"
definition IPC_MAX_QUEUE_BYTES :: nat where
  "IPC_MAX_QUEUE_BYTES = IPC_MAX_MSGS * IPC_MAX_MSG_BYTES"
definition IPC_MAX_SHM :: nat where "IPC_MAX_SHM = 16"
definition IPC_MAX_SHM_SIZE :: nat where "IPC_MAX_SHM_SIZE = 64 * 1024"
definition IPC_MAX_SEM_SETS :: nat where "IPC_MAX_SEM_SETS = 16"
definition IPC_MAX_SEMS :: nat where "IPC_MAX_SEMS = 16"

lemmas ipc_limits = IPC_MAX_QUEUES_def IPC_MAX_MSGS_def IPC_MAX_MSG_BYTES_def
  IPC_MAX_QUEUE_BYTES_def IPC_MAX_SHM_def IPC_MAX_SHM_SIZE_def IPC_MAX_SEM_SETS_def
  IPC_MAX_SEMS_def

definition IPC_CREAT :: u32 where "IPC_CREAT = 0x0200"
definition IPC_EXCL :: u32 where "IPC_EXCL = 0x0400"
definition IPC_NOWAIT :: u32 where "IPC_NOWAIT = 0x0800"
definition IPC_RMID :: int where "IPC_RMID = 1"
definition IPC_SET :: int where "IPC_SET = 2"
definition IPC_STAT :: int where "IPC_STAT = 3"

record ipc_perm =
  perm_key :: int
  perm_mode :: u16
  perm_uid :: int
  perm_gid :: int

definition zero_perm :: ipc_perm where
  "zero_perm = \<lparr>perm_key = 0, perm_mode = 0, perm_uid = 0, perm_gid = 0\<rparr>"

text \<open>The mode bits that every \<open>get\<close> stores: \<open>(uint16_t)(flag & 0x1FF)\<close>.\<close>

definition flag_mode :: "u32 \<Rightarrow> u16" where "flag_mode f = ucast (f AND 0x1FF)"

section \<open>Sleeping\<close>

type_synonym 's sleeps = "(int \<times> ('s \<Rightarrow> 's)) list"

text \<open>A system call's answer: its return value, or still asleep.\<close>

datatype 'r answer = Returned 'r | Asleep

text \<open>Other processes' work during the sleeps keeps \<open>P\<close>.\<close>

definition env_keeps :: "('s \<Rightarrow> bool) \<Rightarrow> 's sleeps \<Rightarrow> bool" where
  "env_keeps P env \<longleftrightarrow> (\<forall>(rc, f)\<in>set env. \<forall>s. P s \<longrightarrow> P (f s))"

lemma env_keeps_simps [simp]:
  "env_keeps P []"
  "env_keeps P ((rc, f) # env) \<longleftrightarrow> (\<forall>s. P s \<longrightarrow> P (f s)) \<and> env_keeps P env"
  by (auto simp: env_keeps_def)

section \<open>Tables of named objects\<close>

text \<open>
  \<open>get key args flag\<close> finds the live object of that key or makes one in the first dead
  slot; \<open>rm\<close> removes one (\<open>None\<close> if that does not return, which \<open>wf\<close> states exclude).
  \<open>ok args\<close> is the size check of a creation.
\<close>

locale key_table =
  fixes N :: nat
    and live :: "'s \<Rightarrow> nat \<Rightarrow> bool"
    and key :: "'s \<Rightarrow> nat \<Rightarrow> int"
    and ok :: "'a \<Rightarrow> bool"
    and get :: "int \<Rightarrow> 'a \<Rightarrow> u32 \<Rightarrow> 's \<Rightarrow> int \<times> 's"
    and wf :: "'s \<Rightarrow> bool"
    and rm :: "nat \<Rightarrow> 's \<Rightarrow> 's option"
  assumes get_found:
      "first_idx (\<lambda>i. live s i \<and> key s i = k) N = Some i \<Longrightarrow>
       get k a f s = (if has f IPC_EXCL then - 1 else int i, s)"
    and get_refused:
      "first_idx (\<lambda>i. live s i \<and> key s i = k) N = None \<Longrightarrow>
       \<not> has f IPC_CREAT \<or> \<not> ok a \<or> first_idx (\<lambda>i. \<not> live s i) N = None \<Longrightarrow>
       get k a f s = (- 1, s)"
    and get_makes:
      "first_idx (\<lambda>i. live s i \<and> key s i = k) N = None \<Longrightarrow> has f IPC_CREAT \<Longrightarrow> ok a \<Longrightarrow>
       first_idx (\<lambda>i. \<not> live s i) N = Some i \<Longrightarrow>
       \<exists>t. get k a f s = (int i, t) \<and> live t = (live s)(i := True) \<and> key t = (key s)(i := k)"
    and rm_removes:
      "wf s \<Longrightarrow> i < N \<Longrightarrow> live s i \<Longrightarrow> \<exists>t. rm i s = Some t \<and> wf t \<and>
       live t = (live s)(i := False) \<and> (\<forall>j. j \<noteq> i \<longrightarrow> key t j = key s j)"
begin

definition found :: "int \<Rightarrow> 's \<Rightarrow> nat option" where
  "found k s = first_idx (\<lambda>i. live s i \<and> key s i = k) N"

text \<open>No two live objects have the same key.\<close>

definition unique_keys :: "'s \<Rightarrow> bool" where
  "unique_keys s \<longleftrightarrow>
     (\<forall>i<N. \<forall>j<N. live s i \<and> live s j \<and> key s i = key s j \<longrightarrow> i = j)"

lemma get_cases:
  obtains (found) i where "found k s = Some i"
      "get k a f s = (if has f IPC_EXCL then - 1 else int i, s)"
    | (refused) "found k s = None" "get k a f s = (- 1, s)"
        "\<not> has f IPC_CREAT \<or> \<not> ok a \<or> (\<forall>i<N. live s i)"
    | (makes) i t where "found k s = None" "get k a f s = (int i, t)" "i < N" "\<not> live s i"
        "live t = (live s)(i := True)" "key t = (key s)(i := k)" "has f IPC_CREAT" "ok a"
proof (cases "found k s")
  case None
  show thesis
  proof (cases "\<not> has f IPC_CREAT \<or> \<not> ok a \<or> first_idx (\<lambda>i. \<not> live s i) N = None")
    case True
    with None get_refused [of s k f a] refused show thesis
      by (auto simp: found_def first_idx_None_iff)
  next
    case False
    then obtain i where i: "first_idx (\<lambda>i. \<not> live s i) N = Some i" by auto
    with False None get_makes [of s k f a i] obtain t where
      t: "get k a f s = (int i, t)" "live t = (live s)(i := True)" "key t = (key s)(i := k)"
      by (auto simp: found_def)
    with makes None False first_idx_SomeD [OF i] show thesis by blast
  qed
next
  case (Some i)
  with get_found [of s k i a f] found show thesis by (simp add: found_def)
qed

lemma found_Some: "found k s = Some i \<Longrightarrow> i < N \<and> live s i \<and> key s i = k"
  using first_idx_SomeD [of "\<lambda>i. live s i \<and> key s i = k" N i] by (simp add: found_def)

lemma found_None: "found k s = None \<longleftrightarrow> (\<forall>i<N. live s i \<longrightarrow> key s i \<noteq> k)"
  by (auto simp: found_def first_idx_None_iff)

lemma get_unique:
  assumes u: "unique_keys s"
  shows "unique_keys (snd (get k a f s))"
proof (cases rule: get_cases [of k s a f])
  case (makes i t)
  have no: "\<And>j. j < N \<Longrightarrow> live s j \<Longrightarrow> key s j \<noteq> k" using makes(1) found_None by blast
  have "x = y" if "x < N" "y < N" "live t x" "live t y" "key t x = key t y" for x y
    using that no [of x] no [of y] u
    by (cases "x = i"; cases "y = i") (simp_all add: makes(5,6) unique_keys_def)
  with makes(2) show ?thesis by (simp add: unique_keys_def)
qed (use u in simp_all)

lemma rm_unique:
  assumes "unique_keys s" and "wf s" and "i < N" and "live s i" and "rm i s = Some t"
  shows "unique_keys t" and "\<not> live t i" and "wf t"
  using rm_removes [OF assms(2,3,4)] assms(1,5) by (auto simp: unique_keys_def)

text \<open>After a removal the key is free again: \<open>get\<close> makes a new object or finds none.\<close>

lemma rm_get:
  assumes "unique_keys s" and "wf s" and "i < N" and "live s i" and "rm i s = Some t"
    and "\<not> has f IPC_CREAT"
  shows "get (key s i) a f t = (- 1, t)"
proof -
  obtain u where u: "rm i s = Some u" "live u = (live s)(i := False)"
    "\<forall>j. j \<noteq> i \<longrightarrow> key u j = key s j"
    using rm_removes [OF assms(2,3,4)] by blast
  with assms(1,3,4,5) have "found (key s i) t = None"
    by (auto simp: found_None unique_keys_def)
  with assms(6) get_refused [of t "key s i" f a] show ?thesis by (simp add: found_def)
qed

text \<open>Two processes that ask for the same key reach the same object.\<close>

lemma get_get:
  assumes "get k a f s = (i, t)" and "0 \<le> i" and "\<not> has g IPC_EXCL"
  shows "get k b g t = (i, t)"
proof -
  have "found k t = Some (nat i)"
  proof (cases rule: get_cases [of k s a f])
    case (found j)
    with assms show ?thesis by (auto split: if_splits)
  next
    case (makes j u)
    have "first_idx (\<lambda>i. live u i \<and> key u i = k) N = Some j"
      using makes by (auto simp: first_idx_Some_iff found_def first_idx_None_iff)
    with makes assms show ?thesis by (auto simp: found_def)
  qed (use assms in auto)
  with assms get_found [of t k "nat i" b g] show ?thesis by (simp add: found_def)
qed

lemma get_result:
  assumes "get k a f s = (i, t)" and "i \<noteq> - 1"
  shows "nat i < N" and "0 \<le> i" and "live t (nat i)" and "key t (nat i) = k"
    and "j \<noteq> nat i \<Longrightarrow> live t j = live s j \<and> key t j = key s j"
proof -
  have "nat i < N \<and> 0 \<le> i \<and> live t (nat i) \<and> key t (nat i) = k \<and>
    (\<forall>j. j \<noteq> nat i \<longrightarrow> live t j = live s j \<and> key t j = key s j)"
  proof (cases rule: get_cases [of k s a f])
    case (found j)
    with assms found_Some [of k s j] show ?thesis by (auto split: if_splits)
  qed (use assms in auto)
  then show "nat i < N" "0 \<le> i" "live t (nat i)" "key t (nat i) = k"
    "j \<noteq> nat i \<Longrightarrow> live t j = live s j \<and> key t j = key s j" by blast+
qed

end

section \<open>Pools of slots\<close>

text \<open>A fixed pool whose allocator hands out the first slot that is not in use.\<close>

locale slot_pool =
  fixes N :: nat
    and used :: "'s \<Rightarrow> nat \<Rightarrow> bool"
    and alloc :: "'s \<Rightarrow> nat option \<times> 's"
    and free :: "nat \<Rightarrow> 's \<Rightarrow> 's"
  assumes alloc_first: "fst (alloc s) = first_idx (\<lambda>i. \<not> used s i) N"
    and alloc_used: "fst (alloc s) = Some i \<Longrightarrow> used (snd (alloc s)) = (used s)(i := True)"
    and alloc_full: "fst (alloc s) = None \<Longrightarrow> snd (alloc s) = s"
    and free_used: "i < N \<Longrightarrow> used (free i s) = (used s)(i := False)"
begin

lemma alloc_fresh:
  assumes "alloc s = (Some i, t)"
  shows "i < N" and "\<not> used s i" and "used t = (used s)(i := True)"
  using assms alloc_first [of s] alloc_used [of s i] first_idx_SomeD [of _ N i]
  by (metis fst_conv, metis fst_conv, simp)

lemma alloc_None_iff: "fst (alloc s) = None \<longleftrightarrow> (\<forall>i<N. used s i)"
  by (simp add: alloc_first first_idx_None_iff)

text \<open>A slot is never handed out twice before it is freed.\<close>

lemma alloc_twice:
  assumes "alloc s = (Some i, t)" and "alloc t = (Some j, u)"
  shows "i \<noteq> j"
  using alloc_fresh [OF assms(1)] alloc_fresh [OF assms(2)] by auto

lemma free_alloc:
  assumes "i < N" and "\<And>j. j < i \<Longrightarrow> used s j"
  shows "fst (alloc (free i s)) = Some i"
  using assms by (auto simp: alloc_first free_used first_idx_Some_iff)

end

section \<open>Wait channels\<close>

text \<open>
  The contract between whoever wakes a channel and the process table: a wakeup ends, takes
  every process off the channel and none off another one.  \<open>run_wakeups\<close> carries out the
  wakeups of a call's log, in order.
\<close>

definition run_wakeups :: "('c \<Rightarrow> 's \<Rightarrow> 's option) \<Rightarrow> 'c list \<Rightarrow> 's \<Rightarrow> 's option" where
  "run_wakeups wakeup cs s = fold (\<lambda>c r. Option.bind r (wakeup c)) cs (Some s)"

lemma run_wakeups_simps [simp]:
  "run_wakeups wakeup [] s = Some s"
  "wakeup c s = Some t \<Longrightarrow> run_wakeups wakeup (c # cs) s = run_wakeups wakeup cs t"
  by (simp_all add: run_wakeups_def)

locale wait_channels =
  fixes ok :: "'s \<Rightarrow> bool"
    and waiting :: "'s \<Rightarrow> 'c \<Rightarrow> nat set"
    and wakeup :: "'c \<Rightarrow> 's \<Rightarrow> 's option"
  assumes wakeup_channel:
    "ok s \<Longrightarrow> \<exists>t. wakeup c s = Some t \<and> ok t \<and> waiting t c = {} \<and>
     (\<forall>d. d \<noteq> c \<longrightarrow> waiting t d = waiting s d)"
begin

lemma wakeups_release:
  "ok s \<Longrightarrow> \<exists>t. run_wakeups wakeup cs s = Some t \<and> ok t \<and>
     (\<forall>c. waiting t c = (if c \<in> set cs then {} else waiting s c))"
proof (induction cs arbitrary: s)
  case Nil
  then show ?case by simp
next
  case (Cons c cs)
  from wakeup_channel [OF Cons.prems, of c] obtain u where
    u: "wakeup c s = Some u" "ok u" "waiting u c = {}" "\<forall>d. d \<noteq> c \<longrightarrow> waiting u d = waiting s d"
    by blast
  from Cons.IH [OF u(2)] obtain t where
    t: "run_wakeups wakeup cs u = Some t" "ok t"
      "\<forall>d. waiting t d = (if d \<in> set cs then {} else waiting u d)" by blast
  have "waiting t d = (if d \<in> set (c # cs) then {} else waiting s d)" for d
    using t(3) u(3,4) by (cases "d = c") auto
  with t(1,2) u(1) show ?case by auto
qed

end

end
