(* ===== verification/Sem.thy ===== *)
theory Sem
  imports Ipc
begin

text \<open>
  Semaphores (\<open>33_PCS/00_IPC/src/uiox_kix_sem.c\<close>): the table of sets, \<open>sem_get\<close>,
  \<open>sem_ctl\<close> and the atomic operation array of \<open>sem_op\<close> with its restart after every
  sleep.  C \<open>int\<close> values are unbounded integers here: the code has no defined meaning
  where they would overflow.
\<close>

record semaphore =
  val :: int
  last_pid :: int
  wait_incr :: int
  wait_zero :: int

definition zero_sem :: semaphore where
  "zero_sem = \<lparr>val = 0, last_pid = 0, wait_incr = 0, wait_zero = 0\<rparr>"

record sem_set =
  sem_perm :: ipc_perm
  sems :: "nat \<Rightarrow> semaphore"
  nsems :: int
  otime :: u64
  ctime :: u64
  sem_active :: bool

definition zero_set :: sem_set where
  "zero_set = \<lparr>sem_perm = zero_perm, sems = (\<lambda>n. zero_sem), nsems = 0, otime = 0, ctime = 0,
     sem_active = False\<rparr>"

record sem_buf =
  sem_num :: int
  sem_op :: int
  sem_flg :: u32

text \<open>
  A wait channel is the address of a semaphore; \<open>IPC_WCHAN_SEM_INCR\<close> and
  \<open>IPC_WCHAN_SEM_ZERO\<close> are the same address.
\<close>

datatype sem_chan = SemChan nat nat

record sem_state =
  sem_sets :: "nat \<Rightarrow> sem_set"
  sem_wakes :: "sem_chan list"
  sem_jiffies :: u64

definition GETVAL :: int where "GETVAL = 4"
definition SETVAL :: int where "SETVAL = 5"
definition GETALL :: int where "GETALL = 6"
definition SETALL :: int where "SETALL = 7"

lemmas sem_cmds = GETVAL_def SETVAL_def GETALL_def SETALL_def IPC_RMID_def IPC_SET_def IPC_STAT_def

section \<open>Operations\<close>

definition upd_set :: "nat \<Rightarrow> (sem_set \<Rightarrow> sem_set) \<Rightarrow> sem_state \<Rightarrow> sem_state" where
  "upd_set sid f s = s\<lparr>sem_sets := (sem_sets s)(sid := f (sem_sets s sid))\<rparr>"

definition upd_sem :: "nat \<Rightarrow> nat \<Rightarrow> (semaphore \<Rightarrow> semaphore) \<Rightarrow> sem_state \<Rightarrow> sem_state" where
  "upd_sem sid n f = upd_set sid (\<lambda>ss. ss\<lparr>sems := (sems ss)(n := f (sems ss n))\<rparr>)"

definition sem_wakeup :: "sem_chan \<Rightarrow> sem_state \<Rightarrow> sem_state" where
  "sem_wakeup c s = s\<lparr>sem_wakes := sem_wakes s @ [c]\<rparr>"

lemma upd_set_sel [simp]:
  "sem_sets (upd_set sid f s) = (sem_sets s)(sid := f (sem_sets s sid))"
  "sem_wakes (upd_set sid f s) = sem_wakes s" "sem_jiffies (upd_set sid f s) = sem_jiffies s"
  by (simp_all add: upd_set_def)

lemma upd_sem_sel [simp]:
  "sem_sets (upd_sem sid n f s) = (sem_sets s)
     (sid := (sem_sets s sid)\<lparr>sems := (sems (sem_sets s sid))(n := f (sems (sem_sets s sid) n))\<rparr>)"
  "sem_wakes (upd_sem sid n f s) = sem_wakes s" "sem_jiffies (upd_sem sid n f s) = sem_jiffies s"
  by (simp_all add: upd_sem_def)

lemma sem_wakeup_sel [simp]:
  "sem_sets (sem_wakeup c s) = sem_sets s" "sem_wakes (sem_wakeup c s) = sem_wakes s @ [c]"
  "sem_jiffies (sem_wakeup c s) = sem_jiffies s"
  by (simp_all add: sem_wakeup_def)

definition sem_init :: "sem_state \<Rightarrow> sem_state" where
  "sem_init s = s\<lparr>sem_sets := (\<lambda>i. zero_set)\<rparr>"

definition sem_get :: "int \<Rightarrow> int \<Rightarrow> u32 \<Rightarrow> sem_state \<Rightarrow> int \<times> sem_state" where
  "sem_get k n flag s =
     (case first_idx (\<lambda>i. sem_active (sem_sets s i) \<and> perm_key (sem_perm (sem_sets s i)) = k)
             IPC_MAX_SEM_SETS of
        Some i \<Rightarrow> if has flag IPC_EXCL then (- 1, s) else (int i, s)
      | None \<Rightarrow>
          if \<not> has flag IPC_CREAT then (- 1, s)
          else if n \<le> 0 \<or> int IPC_MAX_SEMS < n then (- 1, s)
          else
            (case first_idx (\<lambda>i. \<not> sem_active (sem_sets s i)) IPC_MAX_SEM_SETS of
               Some i \<Rightarrow>
                 (int i, upd_set i (\<lambda>ss. ss\<lparr>sem_active := True,
                    sem_perm := (sem_perm ss)\<lparr>perm_key := k, perm_mode := flag_mode flag\<rparr>,
                    nsems := n, ctime := sem_jiffies s, sems := (\<lambda>n. zero_sem)\<rparr>) s)
             | None \<Rightarrow> (- 1, s)))"

text \<open>\<open>IPC_RMID\<close>: wake both kinds of waiter of every semaphore, then clear the set.\<close>

definition sem_wake_all :: "nat \<Rightarrow> nat list \<Rightarrow> sem_state \<Rightarrow> sem_state" where
  "sem_wake_all sid ns s = fold (\<lambda>n s. sem_wakeup (SemChan sid n) (sem_wakeup (SemChan sid n) s)) ns s"

definition sem_rmid :: "nat \<Rightarrow> sem_state \<Rightarrow> sem_state" where
  "sem_rmid sid s =
     upd_set sid (\<lambda>ss. zero_set) (sem_wake_all sid [0..<nat (nsems (sem_sets s sid))] s)"

definition sem_setall :: "nat \<Rightarrow> int \<Rightarrow> sem_state \<Rightarrow> sem_state" where
  "sem_setall sid v s =
     fold (\<lambda>n s. sem_wakeup (SemChan sid n) (upd_sem sid n (\<lambda>x. x\<lparr>val := v\<rparr>) s))
       [0..<nat (nsems (sem_sets s sid))] s"

definition sem_ctl :: "int \<Rightarrow> int \<Rightarrow> int \<Rightarrow> int \<Rightarrow> sem_state \<Rightarrow> int \<times> sem_state" where
  "sem_ctl semid semnum cmd v s =
     (if semid < 0 \<or> int IPC_MAX_SEM_SETS \<le> semid then (- 1, s)
      else
        (let sid = nat semid; n = nat semnum; ss = sem_sets s sid in
         if \<not> sem_active ss then (- 1, s)
         else if cmd = GETVAL then
           (if semnum < 0 \<or> nsems ss \<le> semnum then (- 1, s) else (val (sems ss n), s))
         else if cmd = SETVAL then
           (if semnum < 0 \<or> nsems ss \<le> semnum then (- 1, s)
            else (0, sem_wakeup (SemChan sid n)
                   (upd_set sid (\<lambda>ss. ss\<lparr>ctime := sem_jiffies s\<rparr>)
                     (upd_sem sid n (\<lambda>x. x\<lparr>val := v\<rparr>) s))))
         else if cmd = GETALL then (0, s)
         else if cmd = SETALL then
           (0, upd_set sid (\<lambda>ss. ss\<lparr>ctime := sem_jiffies s\<rparr>) (sem_setall sid v s))
         else if cmd = IPC_RMID then (0, sem_rmid sid s)
         else (- 1, s)))"

text \<open>Undo the operations already applied, last one first.\<close>

definition reverse_ops :: "nat \<Rightarrow> sem_buf list \<Rightarrow> sem_state \<Rightarrow> sem_state" where
  "reverse_ops sid pre s =
     fold (\<lambda>o' s. sem_wakeup (SemChan sid (nat (sem_num o')))
             (upd_sem sid (nat (sem_num o')) (\<lambda>x. x\<lparr>val := val x - sem_op o'\<rparr>) s))
       (rev pre) s"

text \<open>
  One pass over the array. \<open>None\<close>: every operation was applied. \<open>Some o\<close>: operation \<open>o\<close>
  has to wait and the operations before it have been reversed.
\<close>

fun sem_scan :: "nat \<Rightarrow> sem_buf list \<Rightarrow> sem_buf list \<Rightarrow> sem_state \<Rightarrow> sem_buf option \<times> sem_state"
where
  "sem_scan sid pre [] s = (None, s)"
| "sem_scan sid pre (o' # ops) s =
     (let n = nat (sem_num o'); v = val (sems (sem_sets s sid) n) in
      if 0 < sem_op o' then
        (let s = upd_sem sid n (\<lambda>x. x\<lparr>val := val x + sem_op o'\<rparr>) s;
             s = sem_wakeup (SemChan sid n) s;
             s = (if val (sems (sem_sets s sid) n) = 0 then sem_wakeup (SemChan sid n) s else s)
         in sem_scan sid (pre @ [o']) ops s)
      else if sem_op o' < 0 then
        (if - sem_op o' \<le> v
         then sem_scan sid (pre @ [o']) ops (upd_sem sid n (\<lambda>x. x\<lparr>val := val x + sem_op o'\<rparr>) s)
         else (Some o', reverse_ops sid pre s))
      else
        (if v \<noteq> 0 then (Some o', reverse_ops sid pre s)
         else sem_scan sid (pre @ [o']) ops s))"

definition bad_index :: "sem_set \<Rightarrow> sem_buf list \<Rightarrow> bool" where
  "bad_index ss ops \<longleftrightarrow> (\<exists>o'\<in>set ops. sem_num o' < 0 \<or> nsems ss \<le> sem_num o')"

text \<open>The count of waiters that a blocked operation belongs to, changed by \<open>d\<close>.\<close>

definition count_waiter :: "nat \<Rightarrow> sem_buf \<Rightarrow> int \<Rightarrow> sem_state \<Rightarrow> sem_state" where
  "count_waiter sid o' d =
     upd_sem sid (nat (sem_num o'))
       (\<lambda>x. if sem_op o' < 0 then x\<lparr>wait_incr := wait_incr x + d\<rparr>
            else x\<lparr>wait_zero := wait_zero x + d\<rparr>)"

definition sem_finish :: "nat \<Rightarrow> sem_buf list \<Rightarrow> int option \<Rightarrow> sem_state \<Rightarrow> sem_state" where
  "sem_finish sid ops caller s =
     (let s = upd_set sid (\<lambda>ss. ss\<lparr>otime := sem_jiffies s\<rparr>) s in
      case caller of
        None \<Rightarrow> s
      | Some pid \<Rightarrow>
          fold (\<lambda>o'. upd_sem sid (nat (sem_num o')) (\<lambda>x. x\<lparr>last_pid := pid\<rparr>)) ops s)"

fun sem_op_loop :: "nat \<Rightarrow> sem_buf list \<Rightarrow> int option \<Rightarrow> sem_state sleeps \<Rightarrow> sem_state
    \<Rightarrow> int answer \<times> sem_state" where
  "sem_op_loop sid ops caller env s =
     (if bad_index (sem_sets s sid) ops then (Returned (- 1), s)
      else
        (case sem_scan sid [] ops s of
           (None, s) \<Rightarrow> (Returned 0, sem_finish sid ops caller s)
         | (Some o', s) \<Rightarrow>
             if has (sem_flg o') IPC_NOWAIT then (Returned (- 1), s)
             else
               (let s = count_waiter sid o' 1 s in
                case env of
                  [] \<Rightarrow> (Asleep, s)
                | (rc, f) # env \<Rightarrow>
                    (let s = count_waiter sid o' (- 1) (f s) in
                     if rc < 0 then (Returned (- 1), s)
                     else sem_op_loop sid ops caller env s))))"

declare sem_op_loop.simps [simp del]

definition sem_op_call :: "int \<Rightarrow> sem_buf list \<Rightarrow> int option \<Rightarrow> sem_state sleeps \<Rightarrow> sem_state
    \<Rightarrow> int answer \<times> sem_state" where
  "sem_op_call semid ops caller env s =
     (if semid < 0 \<or> int IPC_MAX_SEM_SETS \<le> semid then (Returned (- 1), s)
      else if \<not> sem_active (sem_sets s (nat semid)) then (Returned (- 1), s)
      else if ops = [] then (Returned (- 1), s)
      else sem_op_loop (nat semid) ops caller env s)"

section \<open>The table of sets is a table of named objects\<close>

definition sem_live :: "sem_state \<Rightarrow> nat \<Rightarrow> bool" where
  "sem_live s i = sem_active (sem_sets s i)"

definition sem_key :: "sem_state \<Rightarrow> nat \<Rightarrow> int" where
  "sem_key s i = perm_key (sem_perm (sem_sets s i))"

lemma sem_wake_all_sets [simp]:
  "sem_sets (sem_wake_all sid ns s) = sem_sets s"
  "sem_jiffies (sem_wake_all sid ns s) = sem_jiffies s"
  by (induction ns arbitrary: s) (simp_all add: sem_wake_all_def)

interpretation sem_table: key_table IPC_MAX_SEM_SETS sem_live sem_key
  "\<lambda>n. 0 < n \<and> n \<le> int IPC_MAX_SEMS" sem_get "\<lambda>s. True" "\<lambda>i s. Some (sem_rmid i s)"
proof
  show "sem_get k a f s = (if has f IPC_EXCL then - 1 else int i, s)"
    if "first_idx (\<lambda>i. sem_live s i \<and> sem_key s i = k) IPC_MAX_SEM_SETS = Some i" for s k i a f
    using that by (simp add: sem_get_def sem_live_def sem_key_def)
  show "sem_get k a f s = (- 1, s)"
    if "first_idx (\<lambda>i. sem_live s i \<and> sem_key s i = k) IPC_MAX_SEM_SETS = None"
      "\<not> has f IPC_CREAT \<or> \<not> (0 < a \<and> a \<le> int IPC_MAX_SEMS) \<or>
       first_idx (\<lambda>i. \<not> sem_live s i) IPC_MAX_SEM_SETS = None" for s k f a
    using that by (auto simp: sem_get_def sem_live_def sem_key_def)
  show "\<exists>t. sem_get k a f s = (int i, t) \<and> sem_live t = (sem_live s)(i := True) \<and>
      sem_key t = (sem_key s)(i := k)"
    if "first_idx (\<lambda>i. sem_live s i \<and> sem_key s i = k) IPC_MAX_SEM_SETS = None"
      "has f IPC_CREAT" "0 < a \<and> a \<le> int IPC_MAX_SEMS"
      "first_idx (\<lambda>i. \<not> sem_live s i) IPC_MAX_SEM_SETS = Some i" for s k f a i
    using that by (auto simp: sem_get_def sem_live_def sem_key_def fun_eq_iff)
  show "\<exists>t. Some (sem_rmid i s) = Some t \<and> True \<and> sem_live t = (sem_live s)(i := False) \<and>
      (\<forall>j. j \<noteq> i \<longrightarrow> sem_key t j = sem_key s j)" for i s
    by (auto simp: sem_rmid_def sem_live_def sem_key_def zero_set_def fun_eq_iff)
qed

section \<open>The operation array is atomic\<close>

definition vals :: "sem_state \<Rightarrow> nat \<Rightarrow> nat \<Rightarrow> int" where
  "vals s sid n = val (sems (sem_sets s sid) n)"

text \<open>The abstract array: it applies as a whole to the vector of values, or not at all.\<close>

fun apply_op :: "sem_buf \<Rightarrow> (nat \<Rightarrow> int) \<Rightarrow> (nat \<Rightarrow> int) option" where
  "apply_op o' v =
     (let n = nat (sem_num o') in
      if 0 < sem_op o' \<or> sem_op o' < 0 \<and> - sem_op o' \<le> v n \<or> sem_op o' = 0 \<and> v n = 0
      then Some (v(n := v n + sem_op o')) else None)"

declare apply_op.simps [simp del]

fun apply_ops :: "sem_buf list \<Rightarrow> (nat \<Rightarrow> int) \<Rightarrow> (nat \<Rightarrow> int, sem_buf) sum" where
  "apply_ops [] v = Inl v"
| "apply_ops (o' # ops) v =
     (case apply_op o' v of None \<Rightarrow> Inr o' | Some v' \<Rightarrow> apply_ops ops v')"

definition set_vals :: "nat \<Rightarrow> (nat \<Rightarrow> int) \<Rightarrow> sem_set \<Rightarrow> sem_set" where
  "set_vals sid v ss = ss\<lparr>sems := (\<lambda>n. (sems ss n)\<lparr>val := v n\<rparr>)\<rparr>"

text \<open>\<open>t\<close> differs from \<open>s\<close> in the values of set \<open>sid\<close>, now \<open>v\<close>, and in the log.\<close>

definition only_vals :: "nat \<Rightarrow> (nat \<Rightarrow> int) \<Rightarrow> sem_state \<Rightarrow> sem_state \<Rightarrow> bool" where
  "only_vals sid v s t \<longleftrightarrow>
     sem_sets t = (sem_sets s)(sid := set_vals sid v (sem_sets s sid)) \<and>
     sem_jiffies t = sem_jiffies s"

lemma only_vals_vals: "only_vals sid v s t \<Longrightarrow> vals t sid = v"
  by (auto simp: only_vals_def set_vals_def vals_def)

lemma only_vals_trans: "only_vals sid v s t \<Longrightarrow> only_vals sid w t u \<Longrightarrow> only_vals sid w s u"
  by (simp add: only_vals_def set_vals_def)

lemma only_vals_refl: "only_vals sid (vals s sid) s s"
  by (simp add: only_vals_def set_vals_def vals_def)

lemma only_vals_id: "only_vals sid (vals s sid) s t \<Longrightarrow> sem_sets t = sem_sets s"
  by (simp add: only_vals_def set_vals_def vals_def)

lemma only_vals_upd:
  "only_vals sid ((vals s sid)(n := vals s sid n + d)) s (upd_sem sid n (\<lambda>x. x\<lparr>val := val x + d\<rparr>) s)"
  by (auto simp: only_vals_def set_vals_def vals_def fun_eq_iff)

lemma only_vals_wakeup: "only_vals sid v s (sem_wakeup c t) = only_vals sid v s t"
  by (simp add: only_vals_def)

definition sum_on :: "sem_buf list \<Rightarrow> nat \<Rightarrow> int" where
  "sum_on ops n = (\<Sum>o'\<leftarrow>ops. if nat (sem_num o') = n then sem_op o' else 0)"

lemma reverse_step:
  "only_vals sid ((vals s sid)(n := vals s sid n - d)) s (upd_sem sid n (\<lambda>x. x\<lparr>val := val x - d\<rparr>) s)"
  using only_vals_upd [of sid s n "- d"] by simp

lemma reverse_ops_vals:
  "only_vals sid (\<lambda>n. vals s sid n - sum_on pre n) s (reverse_ops sid pre s)"
proof (induction pre arbitrary: s rule: rev_induct)
  case Nil
  then show ?case
    using only_vals_refl [of sid s] by (simp add: reverse_ops_def sum_on_def)
next
  case (snoc o' pre)
  let ?t = "sem_wakeup (SemChan sid (nat (sem_num o')))
      (upd_sem sid (nat (sem_num o')) (\<lambda>x. x\<lparr>val := val x - sem_op o'\<rparr>) s)"
  have t: "only_vals sid ((vals s sid)(nat (sem_num o') := vals s sid (nat (sem_num o')) - sem_op o')) s ?t"
    by (simp add: only_vals_wakeup reverse_step)
  have "(\<lambda>n. vals ?t sid n - sum_on pre n) = (\<lambda>n. vals s sid n - sum_on (pre @ [o']) n)"
    by (auto simp: only_vals_vals [OF t] sum_on_def)
  moreover have "reverse_ops sid (pre @ [o']) s = reverse_ops sid pre ?t"
    by (simp add: reverse_ops_def)
  ultimately show ?case using only_vals_trans [OF t snoc.IH [of ?t]] by simp
qed

lemma sem_scan_refines:
  "case apply_ops ops (vals s sid) of
     Inl v \<Rightarrow> \<exists>t. sem_scan sid pre ops s = (None, t) \<and> only_vals sid v s t
   | Inr o' \<Rightarrow> \<exists>t. sem_scan sid pre ops s = (Some o', t) \<and>
       (\<forall>v. (\<forall>n. v n = vals s sid n - sum_on pre n) \<longrightarrow> only_vals sid v s t)"
proof (induction ops arbitrary: pre s)
  case Nil
  then show ?case by (simp add: only_vals_refl)
next
  case (Cons o' ops)
  let ?n = "nat (sem_num o')"
  show ?case
  proof (cases "apply_op o' (vals s sid)")
    case None
    have "sem_scan sid pre (o' # ops) s = (Some o', reverse_ops sid pre s)"
      using None by (auto simp: apply_op.simps Let_def vals_def not_less split: if_splits)
    moreover have "only_vals sid v s (reverse_ops sid pre s)"
      if "\<forall>n. v n = vals s sid n - sum_on pre n" for v
    proof -
      have "v = (\<lambda>n. vals s sid n - sum_on pre n)" using that by auto
      then show ?thesis using reverse_ops_vals by simp
    qed
    ultimately show ?thesis using None by simp
  next
    case (Some v)
    then have v: "v = (vals s sid)(?n := vals s sid ?n + sem_op o')"
      by (simp add: apply_op.simps Let_def split: if_splits)
    obtain t where t: "sem_scan sid pre (o' # ops) s = sem_scan sid (pre @ [o']) ops t"
      "only_vals sid v s t"
    proof -
      consider "0 < sem_op o'" | "sem_op o' < 0" "- sem_op o' \<le> vals s sid ?n"
        | "sem_op o' = 0" "vals s sid ?n = 0"
        using Some by (auto simp: apply_op.simps Let_def split: if_splits)
      then show thesis
      proof cases
        case 1
        with v only_vals_upd [of sid s ?n "sem_op o'"] that show thesis
          by (simp add: Let_def only_vals_wakeup split: if_splits)
      next
        case 2
        with v only_vals_upd [of sid s ?n "sem_op o'"] that show thesis
          by (simp add: Let_def vals_def)
      next
        case 3
        then have "v = vals s sid" using v by (auto simp: fun_eq_iff)
        with 3 only_vals_refl [of sid s] that show thesis by (simp add: vals_def)
      qed
    qed
    have tv: "vals t sid = v" by (rule only_vals_vals [OF t(2)])
    have eq: "vals t sid n - sum_on (pre @ [o']) n = vals s sid n - sum_on pre n" for n
      by (simp add: tv v sum_on_def)
    from Cons.IH [where s = t and pre = "pre @ [o']"] show ?thesis
      using Some only_vals_trans [OF t(2)] unfolding t(1) tv [symmetric] eq
      by (auto split: sum.splits)
  qed
qed

lemma scan_applies:
  assumes "apply_ops ops (vals s sid) = Inl v"
  obtains t where "sem_scan sid [] ops s = (None, t)" "only_vals sid v s t"
  using sem_scan_refines [where ops = ops and s = s and sid = sid and pre = "[]"] assms by auto

lemma scan_waits:
  assumes "apply_ops ops (vals s sid) = Inr o'"
  obtains t where "sem_scan sid [] ops s = (Some o', t)" "sem_sets t = sem_sets s"
    "sem_jiffies t = sem_jiffies s"
proof -
  obtain t where t: "sem_scan sid [] ops s = (Some o', t)"
    "\<forall>v. (\<forall>n. v n = vals s sid n - sum_on [] n) \<longrightarrow> only_vals sid v s t"
    using sem_scan_refines [where ops = ops and s = s and sid = sid and pre = "[]"] assms by auto
  then have "only_vals sid (vals s sid) s t" by (simp add: sum_on_def)
  then have "sem_sets t = sem_sets s" "sem_jiffies t = sem_jiffies s"
    using only_vals_id [of sid s t] by (simp_all add: only_vals_def)
  with t(1) that show thesis by blast
qed

lemma sem_finish_sel [simp]:
  "vals (sem_finish sid ops caller s) i n = vals s i n"
  "nsems (sem_sets (sem_finish sid ops caller s) i) = nsems (sem_sets s i)"
  "sem_wakes (sem_finish sid ops caller s) = sem_wakes s"
  "i \<noteq> sid \<Longrightarrow> sem_sets (sem_finish sid ops caller s) i = sem_sets s i"
proof -
  have F: "vals (fold (\<lambda>o'. upd_sem sid (nat (sem_num o')) (\<lambda>x. x\<lparr>last_pid := p\<rparr>)) ops t) i n = vals t i n \<and>
    nsems (sem_sets (fold (\<lambda>o'. upd_sem sid (nat (sem_num o')) (\<lambda>x. x\<lparr>last_pid := p\<rparr>)) ops t) i) =
      nsems (sem_sets t i) \<and>
    sem_wakes (fold (\<lambda>o'. upd_sem sid (nat (sem_num o')) (\<lambda>x. x\<lparr>last_pid := p\<rparr>)) ops t) = sem_wakes t \<and>
    (i \<noteq> sid \<longrightarrow> sem_sets (fold (\<lambda>o'. upd_sem sid (nat (sem_num o')) (\<lambda>x. x\<lparr>last_pid := p\<rparr>)) ops t) i =
      sem_sets t i)" for p t
    by (induction ops arbitrary: t) (auto simp: vals_def)
  show "vals (sem_finish sid ops caller s) i n = vals s i n"
    "nsems (sem_sets (sem_finish sid ops caller s) i) = nsems (sem_sets s i)"
    "sem_wakes (sem_finish sid ops caller s) = sem_wakes s"
    "i \<noteq> sid \<Longrightarrow> sem_sets (sem_finish sid ops caller s) i = sem_sets s i"
    by (auto simp: sem_finish_def F Let_def split: option.split) (auto simp: vals_def)
qed

lemma sem_finish_pid:
  assumes "o' \<in> set ops"
  shows "last_pid (sems (sem_sets (sem_finish sid ops (Some pid) s) sid) (nat (sem_num o'))) = pid"
proof -
  have "last_pid (sems (sem_sets (fold (\<lambda>o'. upd_sem sid (nat (sem_num o')) (\<lambda>x. x\<lparr>last_pid := pid\<rparr>)) ops t) sid) n) =
      (if n \<in> (\<lambda>o'. nat (sem_num o')) ` set ops then pid else last_pid (sems (sem_sets t sid) n))" for t n
    by (induction ops arbitrary: t) auto
  with assms show ?thesis by (auto simp: sem_finish_def Let_def)
qed

lemma count_waiter_vals [simp]: "vals (count_waiter sid o' d s) i n = vals s i n"
  by (simp add: count_waiter_def vals_def)

definition sem_nonneg :: "sem_state \<Rightarrow> bool" where
  "sem_nonneg s \<longleftrightarrow> (\<forall>i n. 0 \<le> vals s i n)"

lemma apply_ops_nonneg:
  "apply_ops ops v = Inl w \<Longrightarrow> \<forall>n. 0 \<le> v n \<Longrightarrow> 0 \<le> w n"
proof (induction ops arbitrary: v)
  case (Cons o' ops)
  then obtain v' where v': "apply_op o' v = Some v'" "apply_ops ops v' = Inl w"
    by (auto split: option.splits)
  from v'(1) Cons.prems(2) have "\<forall>n. 0 \<le> v' n"
    by (auto simp: apply_op.simps Let_def split: if_splits)
  with Cons.IH v'(2) show ?case by blast
qed simp

lemma sem_op_loop_nonneg:
  "env_keeps sem_nonneg env \<Longrightarrow> sem_nonneg s \<Longrightarrow>
   sem_nonneg (snd (sem_op_loop sid ops caller env s))"
proof (induction env arbitrary: s)
  case Nil
  show ?case
  proof (cases "apply_ops ops (vals s sid)")
    case (Inl v)
    then obtain t where t: "sem_scan sid [] ops s = (None, t)" "only_vals sid v s t"
      by (rule scan_applies)
    have "0 \<le> vals t i n" for i n
      using Nil.prems(2) apply_ops_nonneg [OF Inl, of n] t(2)
      by (cases "i = sid") (auto simp: only_vals_vals sem_nonneg_def only_vals_def vals_def set_vals_def)
    with t Nil show ?thesis by (simp add: sem_op_loop.simps sem_nonneg_def)
  next
    case (Inr o')
    then obtain t where t: "sem_scan sid [] ops s = (Some o', t)" "sem_sets t = sem_sets s"
      by (rule scan_waits)
    with Nil show ?thesis by (simp add: sem_op_loop.simps Let_def sem_nonneg_def vals_def count_waiter_def)
  qed
next
  case (Cons e env)
  obtain rc f where e: "e = (rc, f)" by force
  show ?case
  proof (cases "apply_ops ops (vals s sid)")
    case (Inl v)
    then obtain t where t: "sem_scan sid [] ops s = (None, t)" "only_vals sid v s t"
      by (rule scan_applies)
    have "0 \<le> vals t i n" for i n
      using Cons.prems(2) apply_ops_nonneg [OF Inl, of n] t(2)
      by (cases "i = sid") (auto simp: only_vals_vals sem_nonneg_def only_vals_def vals_def set_vals_def)
    with t Cons.prems show ?thesis by (simp add: sem_op_loop.simps sem_nonneg_def)
  next
    case (Inr o')
    then obtain t where t: "sem_scan sid [] ops s = (Some o', t)" "sem_sets t = sem_sets s"
      by (rule scan_waits)
    let ?u = "count_waiter sid o' (- 1) (f (count_waiter sid o' 1 t))"
    have tn: "sem_nonneg t" using t(2) Cons.prems(2) by (simp add: sem_nonneg_def vals_def)
    then have "sem_nonneg (count_waiter sid o' 1 t)" by (simp add: sem_nonneg_def)
    with Cons.prems(1) e have "sem_nonneg (f (count_waiter sid o' 1 t))" by simp
    then have u: "sem_nonneg ?u" by (simp add: sem_nonneg_def)
    with Cons.IH [of ?u] Cons.prems t(1) tn show ?thesis
      unfolding e sem_op_loop.simps [of sid ops caller "(rc, f) # env"] by (simp add: Let_def)
  qed
qed

section \<open>Removal\<close>

lemma sem_wake_all_log:
  "sem_wakes (sem_wake_all sid ns s) = sem_wakes s @ concat (map (\<lambda>n. [SemChan sid n, SemChan sid n]) ns)"
  by (induction ns arbitrary: s) (simp_all add: sem_wake_all_def)

lemma sem_rmid_sel:
  "sem_sets (sem_rmid sid s) = (sem_sets s)(sid := zero_set)"
  "n < nat (nsems (sem_sets s sid)) \<Longrightarrow> SemChan sid n \<in> set (drop (length (sem_wakes s)) (sem_wakes (sem_rmid sid s)))"
  by (auto simp: sem_rmid_def sem_wake_all_log)

section \<open>A concrete table\<close>

definition sem_demo :: sem_state where
  "sem_demo = \<lparr>sem_sets = (\<lambda>i. if i = 0
       then zero_set\<lparr>sem_active := True, nsems := 2, sem_perm := zero_perm\<lparr>perm_key := 5\<rparr>,
              sems := (\<lambda>n. zero_sem)(0 := zero_sem\<lparr>val := 1\<rparr>)\<rparr>
       else zero_set), sem_wakes = [], sem_jiffies = 7\<rparr>"

definition sem_P :: "int \<Rightarrow> sem_buf" where "sem_P n = \<lparr>sem_num = n, sem_op = - 1, sem_flg = 0\<rparr>"
definition sem_V :: "int \<Rightarrow> sem_buf" where "sem_V n = \<lparr>sem_num = n, sem_op = 1, sem_flg = 0\<rparr>"

lemmas sem_demo_defs = sem_demo_def sem_P_def sem_V_def zero_set_def zero_sem_def zero_perm_def

section \<open>Properties\<close>

text \<open>C16: \<open>sem_op\<close> is atomic. On a live set and valid indices the array is applied as a
  whole (return 0, the values those of the abstract array, no other set touched) or not at
  all: with \<open>IPC_NOWAIT\<close> on the operation that cannot proceed the call returns -1 with every
  set as it was; otherwise it sleeps with only that operation's waiter count raised, and
  when woken it lowers the count and either unwinds (\<open>rc < 0\<close>) or starts the whole array
  again in the state it finds.\<close>

theorem sem_op_atomic:
  assumes "0 \<le> semid" and "semid < int IPC_MAX_SEM_SETS"
    and "sem_active (sem_sets s (nat semid))" and "ops \<noteq> []"
    and "\<not> bad_index (sem_sets s (nat semid)) ops"
  shows "case apply_ops ops (vals s (nat semid)) of
      Inl v \<Rightarrow> \<exists>t. sem_op_call semid ops caller env s = (Returned 0, t) \<and>
        vals t (nat semid) = v \<and> (\<forall>i. i \<noteq> nat semid \<longrightarrow> sem_sets t i = sem_sets s i)
    | Inr o' \<Rightarrow> \<exists>t. sem_sets t = sem_sets s \<and> sem_op_call semid ops caller env s =
        (if has (sem_flg o') IPC_NOWAIT then (Returned (- 1), t)
         else (case env of
             [] \<Rightarrow> (Asleep, count_waiter (nat semid) o' 1 t)
           | (rc, f) # env' \<Rightarrow>
               (let u = count_waiter (nat semid) o' (- 1) (f (count_waiter (nat semid) o' 1 t))
                in if rc < 0 then (Returned (- 1), u)
                   else sem_op_loop (nat semid) ops caller env' u)))"
proof -
  let ?i = "nat semid"
  have call: "sem_op_call semid ops caller env s = sem_op_loop ?i ops caller env s"
    using assms by (simp add: sem_op_call_def)
  show ?thesis
  proof (cases "apply_ops ops (vals s ?i)")
    case (Inl v)
    then obtain t where t: "sem_scan ?i [] ops s = (None, t)" "only_vals ?i v s t"
      by (rule scan_applies)
    then have "vals (sem_finish ?i ops caller t) ?i = v" using only_vals_vals [OF t(2)] by auto
    with Inl t assms(5) show ?thesis
      by (simp add: call sem_op_loop.simps only_vals_def)
  next
    case (Inr o')
    then obtain t where "sem_scan ?i [] ops s = (Some o', t)" "sem_sets t = sem_sets s"
      by (rule scan_waits)
    with Inr assms(5) show ?thesis
      unfolding call sem_op_loop.simps [of ?i ops caller env]
      by (auto simp: Let_def split: list.split prod.split intro!: exI [of _ t])
  qed
qed

theorem sem_op_atomic_witness:
  "\<exists>t. sem_op_call 0 [sem_P 0, sem_V 1] (Some 9) [] sem_demo = (Returned 0, t) \<and>
     vals t 0 1 = 1 \<and> vals t 0 0 = 0"
proof -
  have "apply_ops [sem_P 0, sem_V 1] (vals sem_demo 0) = Inl ((\<lambda>n. 0)(1 := 1))"
    by (auto simp: apply_op.simps vals_def sem_demo_defs)
  then show ?thesis
    using sem_op_atomic [of 0 sem_demo "[sem_P 0, sem_V 1]" "Some 9" "[]"]
    by (auto simp: bad_index_def sem_demo_defs ipc_limits)
qed

text \<open>No semaphore ever goes negative through \<open>sem_op\<close>: if the values are not negative
  and the other processes keep them so while the caller sleeps, they are not negative after
  the call, whether it returns, fails or is still asleep.\<close>

theorem sem_op_never_negative:
  assumes "env_keeps sem_nonneg env" and "sem_nonneg s"
  shows "sem_nonneg (snd (sem_op_call semid ops caller env s))"
  using assms sem_op_loop_nonneg by (simp add: sem_op_call_def)

theorem sem_op_never_negative_witness:
  "sem_nonneg (snd (sem_op_call 0 [sem_P 1] None [(0, upd_sem 0 1 (\<lambda>x. x\<lparr>val := 3\<rparr>))] sem_demo))"
proof (rule sem_op_never_negative)
  show "sem_nonneg sem_demo" by (simp add: sem_nonneg_def vals_def sem_demo_defs)
  show "env_keeps sem_nonneg [(0, upd_sem 0 1 (\<lambda>x. x\<lparr>val := 3\<rparr>))]"
    by (auto simp: sem_nonneg_def vals_def)
qed

text \<open>\<open>sem_get\<close> names sets by key. A descriptor it returns is reached again by every
  later \<open>sem_get\<close> of that key without \<open>IPC_EXCL\<close>, whatever size it asks for; it is a live
  set of that key; and if no key names two live sets, none does afterwards.\<close>

theorem sem_get_shares:
  assumes "sem_get k n flag s = (i, t)" and "0 \<le> i"
  shows "(\<forall>m g. \<not> has g IPC_EXCL \<longrightarrow> sem_get k m g t = (i, t)) \<and>
    i < int IPC_MAX_SEM_SETS \<and> sem_active (sem_sets t (nat i)) \<and>
    perm_key (sem_perm (sem_sets t (nat i))) = k \<and>
    (sem_table.unique_keys s \<longrightarrow> sem_table.unique_keys t)"
  using sem_table.get_get [OF assms] sem_table.get_result [OF assms(1)] assms
    sem_table.get_unique [of s k n flag]
  by (auto simp: sem_live_def sem_key_def)

theorem sem_get_shares_witness: "sem_get 5 9 0 sem_demo = (0, sem_demo)"
proof -
  have "first_idx (\<lambda>i. sem_active (sem_sets sem_demo i) \<and>
      perm_key (sem_perm (sem_sets sem_demo i)) = 5) IPC_MAX_SEM_SETS = Some 0"
    by (simp add: first_idx_Some_iff sem_demo_defs ipc_limits)
  then have "sem_get 5 2 0 sem_demo = (0, sem_demo)"
    by (simp add: sem_get_def has_def)
  from sem_get_shares [OF this] show ?thesis by (simp add: has_def)
qed

text \<open>Removing a set leaves nobody asleep on it: \<open>IPC_RMID\<close> wakes the channel of every
  semaphore of the set, and the descriptor is dead afterwards, so a restarted \<open>sem_op\<close>
  of a woken process fails instead of waiting.\<close>

theorem sem_rmid_releases:
  assumes "0 \<le> semid" and "semid < int IPC_MAX_SEM_SETS"
    and "sem_active (sem_sets s (nat semid))"
  shows "\<exists>t. sem_ctl semid n IPC_RMID v s = (0, t) \<and>
    (\<forall>m<nat (nsems (sem_sets s (nat semid))).
       SemChan (nat semid) m \<in> set (drop (length (sem_wakes s)) (sem_wakes t))) \<and>
    (ops \<noteq> [] \<longrightarrow> sem_op_loop (nat semid) ops caller env t = (Returned (- 1), t)) \<and>
    sem_op_call semid ops caller env t = (Returned (- 1), t)"
proof -
  let ?t = "sem_rmid (nat semid) s"
  have "bad_index (sem_sets ?t (nat semid)) ops" if "ops \<noteq> []"
    using that by (cases ops) (auto simp: sem_rmid_sel bad_index_def zero_set_def)
  then have "sem_op_loop (nat semid) ops caller env ?t = (Returned (- 1), ?t)" if "ops \<noteq> []"
    using that by (simp add: sem_op_loop.simps)
  moreover have "sem_op_call semid ops caller env ?t = (Returned (- 1), ?t)"
    by (simp add: sem_op_call_def sem_rmid_sel zero_set_def)
  moreover have "sem_ctl semid n IPC_RMID v s = (0, ?t)"
    using assms by (simp add: sem_ctl_def sem_cmds)
  ultimately show ?thesis using sem_rmid_sel(2) by blast
qed

theorem sem_rmid_releases_witness:
  "\<exists>t. sem_ctl 0 0 IPC_RMID 0 sem_demo = (0, t) \<and> SemChan 0 1 \<in> set (sem_wakes t)"
  using sem_rmid_releases [of 0 sem_demo 0 0 "[]" None "[]"]
  by (auto simp: sem_demo_defs ipc_limits)

text \<open>A P operation that takes a semaphore to zero wakes nobody. The processes waiting
  for zero sleep on that semaphore, and the only wakeup for them is on a V that ends at
  zero, which a value that is not negative never does.\<close>

theorem sem_P_to_zero_silent:
  assumes "0 \<le> semid" and "semid < int IPC_MAX_SEM_SETS"
    and "sem_active (sem_sets s (nat semid))"
    and "0 \<le> n" and "n < nsems (sem_sets s (nat semid))"
    and "0 < v" and "vals s (nat semid) (nat n) = v"
  shows "\<exists>t. sem_op_call semid [\<lparr>sem_num = n, sem_op = - v, sem_flg = f\<rparr>] caller env s = (Returned 0, t) \<and>
    vals t (nat semid) (nat n) = 0 \<and> sem_wakes t = sem_wakes s"
proof -
  let ?o = "\<lparr>sem_num = n, sem_op = - v, sem_flg = f\<rparr>"
  have "\<not> bad_index (sem_sets s (nat semid)) [?o]" using assms by (simp add: bad_index_def)
  moreover have "sem_scan (nat semid) [] [?o] s =
      (None, upd_sem (nat semid) (nat n) (\<lambda>x. x\<lparr>val := val x - v\<rparr>) s)"
    using assms by (simp add: vals_def)
  moreover have "vals (upd_sem (nat semid) (nat n) (\<lambda>x. x\<lparr>val := val x - v\<rparr>) s) (nat semid) (nat n) = 0"
    using assms(7) by (simp add: vals_def)
  ultimately show ?thesis using assms(1-3)
    by (simp add: sem_op_call_def sem_op_loop.simps)
qed

theorem sem_P_to_zero_silent_witness:
  "\<exists>t. sem_op_call 0 [\<lparr>sem_num = 0, sem_op = - 1, sem_flg = 0\<rparr>] None [] sem_demo = (Returned 0, t) \<and>
     sem_wakes t = []"
  using sem_P_to_zero_silent [of 0 sem_demo 0 1 0 None "[]"]
  by (auto simp: vals_def sem_demo_defs ipc_limits)

end
