(* ===== verification/Msg.thy ===== *)
theory Msg
  imports Ipc
begin

text \<open>
  Message queues (\<open>33_PCS/00_IPC/src/uiox_kix_msg.c\<close>): the static node pool, the queue
  headers with their linked lists of nodes, \<open>msg_get\<close>, \<open>msg_ctl\<close>, \<open>msg_snd\<close> and the typed
  selection of \<open>msg_rcv\<close>.  A \<open>MsgNode *\<close> is the index of a pool node or NULL.  A loop over
  a linked list has an option result, \<open>None\<close> if the list does not end.
\<close>

record msg =
  mtype :: int
  mtext :: "u8 list"
  msize :: nat

record msg_node =
  node_msg :: msg
  node_next :: "nat option"

record msg_queue =
  mq_perm :: ipc_perm
  mq_first :: "nat option"
  mq_last :: "nat option"
  msg_count :: int
  msg_bytes :: nat
  msg_qbytes :: nat
  last_send_pid :: int
  last_recv_pid :: int
  snd_time :: u64
  rcv_time :: u64
  ctl_time :: u64
  mq_active :: bool

text \<open>A queue's two channels, \<open>IPC_WCHAN_MSG_SPACE\<close> and \<open>_ARRIVE\<close>, are its address.\<close>

datatype msg_chan = MsgChan nat

record msg_state =
  node_pool :: "nat \<Rightarrow> msg_node"
  node_used :: "nat \<Rightarrow> bool"
  pool_ready :: bool
  queues :: "nat \<Rightarrow> msg_queue"
  msg_wakes :: "msg_chan list"
  msg_jiffies :: u64

definition MSG_NODE_POOL_SIZE :: nat where "MSG_NODE_POOL_SIZE = IPC_MAX_QUEUES * IPC_MAX_MSGS"
definition MSG_NOERROR :: u32 where "MSG_NOERROR = 0x1000"

definition zero_node :: msg_node where
  "zero_node = \<lparr>node_msg = \<lparr>mtype = 0, mtext = replicate IPC_MAX_MSG_BYTES 0, msize = 0\<rparr>,
     node_next = None\<rparr>"

definition zero_queue :: msg_queue where
  "zero_queue = \<lparr>mq_perm = zero_perm, mq_first = None, mq_last = None, msg_count = 0,
     msg_bytes = 0, msg_qbytes = 0, last_send_pid = 0, last_recv_pid = 0, snd_time = 0,
     rcv_time = 0, ctl_time = 0, mq_active = False\<rparr>"

section \<open>The node pool\<close>

definition pool_init :: "msg_state \<Rightarrow> msg_state" where
  "pool_init s =
     (if pool_ready s then s
      else s\<lparr>node_pool := (\<lambda>i. zero_node), node_used := (\<lambda>i. False), pool_ready := True\<rparr>)"

definition node_alloc :: "msg_state \<Rightarrow> nat option \<times> msg_state" where
  "node_alloc s =
     (let s = pool_init s in
      case first_idx (\<lambda>i. \<not> node_used s i) MSG_NODE_POOL_SIZE of
        Some i \<Rightarrow> (Some i, s\<lparr>node_pool := (node_pool s)(i := zero_node),
                             node_used := (node_used s)(i := True)\<rparr>)
      | None \<Rightarrow> (None, s))"

definition node_free :: "nat \<Rightarrow> msg_state \<Rightarrow> msg_state" where
  "node_free n s =
     (if n < MSG_NODE_POOL_SIZE
      then s\<lparr>node_pool := (node_pool s)(n := zero_node), node_used := (node_used s)(n := False)\<rparr>
      else s)"

section \<open>Queues\<close>

definition upd_queue :: "nat \<Rightarrow> (msg_queue \<Rightarrow> msg_queue) \<Rightarrow> msg_state \<Rightarrow> msg_state" where
  "upd_queue i f s = s\<lparr>queues := (queues s)(i := f (queues s i))\<rparr>"

definition upd_node :: "nat \<Rightarrow> (msg_node \<Rightarrow> msg_node) \<Rightarrow> msg_state \<Rightarrow> msg_state" where
  "upd_node n f s = s\<lparr>node_pool := (node_pool s)(n := f (node_pool s n))\<rparr>"

definition msg_wakeup :: "nat \<Rightarrow> msg_state \<Rightarrow> msg_state" where
  "msg_wakeup i s = s\<lparr>msg_wakes := msg_wakes s @ [MsgChan i]\<rparr>"

definition msg_init :: "msg_state \<Rightarrow> msg_state" where
  "msg_init s = (pool_init s)\<lparr>queues := (\<lambda>i. zero_queue\<lparr>msg_qbytes := IPC_MAX_QUEUE_BYTES\<rparr>)\<rparr>"

definition msg_get :: "int \<Rightarrow> u32 \<Rightarrow> msg_state \<Rightarrow> int \<times> msg_state" where
  "msg_get k flag s =
     (case first_idx (\<lambda>i. mq_active (queues s i) \<and> perm_key (mq_perm (queues s i)) = k)
             IPC_MAX_QUEUES of
        Some i \<Rightarrow> if has flag IPC_EXCL then (- 1, s) else (int i, s)
      | None \<Rightarrow>
          if \<not> has flag IPC_CREAT then (- 1, s)
          else
            (case first_idx (\<lambda>i. \<not> mq_active (queues s i)) IPC_MAX_QUEUES of
               Some i \<Rightarrow>
                 (int i, upd_queue i (\<lambda>q. q\<lparr>mq_active := True,
                    mq_perm := (mq_perm q)\<lparr>perm_key := k, perm_mode := flag_mode flag\<rparr>,
                    mq_first := None, mq_last := None, msg_count := 0, msg_bytes := 0,
                    msg_qbytes := IPC_MAX_QUEUE_BYTES, ctl_time := msg_jiffies s\<rparr>) s)
             | None \<Rightarrow> (- 1, s)))"

text \<open>\<open>IPC_RMID\<close>'s drain: \<open>while (n) { nx = n->next; node_free(n); n = nx; }\<close>.\<close>

partial_function (option) msg_drain :: "nat option \<Rightarrow> msg_state \<Rightarrow> msg_state option" where
  "msg_drain p s =
     (if p = None then Some s
      else msg_drain (node_next (node_pool s (the p))) (node_free (the p) s))"

definition msg_rmid :: "nat \<Rightarrow> msg_state \<Rightarrow> msg_state option" where
  "msg_rmid i s =
     (case msg_drain (mq_first (queues s i)) s of
        None \<Rightarrow> None
      | Some s \<Rightarrow> Some (msg_wakeup i (msg_wakeup i (upd_queue i (\<lambda>q. zero_queue) s))))"

text \<open>
  \<open>buf\<close> is the caller's buffer (\<open>None\<close> for NULL); the second result is what \<open>IPC_STAT\<close>
  stores into it.
\<close>

definition msg_ctl :: "int \<Rightarrow> int \<Rightarrow> msg_queue option \<Rightarrow> msg_state
    \<Rightarrow> (int \<times> msg_queue option \<times> msg_state) option" where
  "msg_ctl msgqid cmd buf s =
     (if msgqid < 0 \<or> int IPC_MAX_QUEUES \<le> msgqid then Some (- 1, buf, s)
      else
        (let i = nat msgqid; q = queues s i in
         if \<not> mq_active q then Some (- 1, buf, s)
         else if cmd = IPC_STAT then
           Some (0, (case buf of None \<Rightarrow> None | Some b \<Rightarrow> Some q), s)
         else if cmd = IPC_SET then
           Some (0, buf,
             (case buf of
                None \<Rightarrow> s
              | Some b \<Rightarrow> upd_queue i (\<lambda>q. q\<lparr>mq_perm := (mq_perm q)\<lparr>perm_mode := perm_mode (mq_perm b)\<rparr>,
                   msg_qbytes := msg_qbytes b, ctl_time := msg_jiffies s\<rparr>) s))
         else if cmd = IPC_RMID then
           (case msg_rmid i s of None \<Rightarrow> None | Some s \<Rightarrow> Some (0, buf, s))
         else Some (- 1, buf, s)))"

section \<open>Sending\<close>

text \<open>What \<open>msg_snd\<close> does once there is room.\<close>

definition msg_append :: "nat \<Rightarrow> msg \<Rightarrow> nat \<Rightarrow> int option \<Rightarrow> msg_state \<Rightarrow> int \<times> msg_state" where
  "msg_append i m count sender s =
     (case node_alloc s of
        (None, s) \<Rightarrow> (- 1, s)
      | (Some n, s) \<Rightarrow>
          (let s = upd_node n (\<lambda>x. x\<lparr>node_msg := \<lparr>mtype = mtype m,
                     mtext = take count (mtext m) @ drop count (mtext (node_msg x)),
                     msize = count\<rparr>, node_next := None\<rparr>) s;
               s = (case mq_last (queues s i) of
                      Some l \<Rightarrow> upd_node l (\<lambda>x. x\<lparr>node_next := Some n\<rparr>) s
                    | None \<Rightarrow> upd_queue i (\<lambda>q. q\<lparr>mq_first := Some n\<rparr>) s);
               s = upd_queue i (\<lambda>q. q\<lparr>mq_last := Some n, msg_count := msg_count q + 1,
                     msg_bytes := msg_bytes q + count,
                     last_send_pid := (case sender of None \<Rightarrow> 0 | Some pid \<Rightarrow> pid),
                     snd_time := msg_jiffies s\<rparr>) s
           in (int count, msg_wakeup i s)))"

fun msg_snd_loop :: "nat \<Rightarrow> msg \<Rightarrow> nat \<Rightarrow> u32 \<Rightarrow> int option \<Rightarrow> msg_state sleeps \<Rightarrow> msg_state
    \<Rightarrow> int answer \<times> msg_state" where
  "msg_snd_loop i m count flag sender env s =
     (if msg_qbytes (queues s i) < msg_bytes (queues s i) + count then
        (if has flag IPC_NOWAIT then (Returned (- 1), s)
         else
           (case env of
              [] \<Rightarrow> (Asleep, s)
            | (rc, f) # env \<Rightarrow>
                (let s = f s in
                 if rc < 0 then (Returned (- 1), s)
                 else if \<not> mq_active (queues s i) then (Returned (- 1), s)
                 else msg_snd_loop i m count flag sender env s)))
      else
        (let (r, s) = msg_append i m count sender s in (Returned r, s)))"

declare msg_snd_loop.simps [simp del]

definition msg_snd :: "int \<Rightarrow> msg option \<Rightarrow> nat \<Rightarrow> u32 \<Rightarrow> int option \<Rightarrow> msg_state sleeps \<Rightarrow> msg_state
    \<Rightarrow> int answer \<times> msg_state" where
  "msg_snd msgqid m count flag sender env s =
     (if msgqid < 0 \<or> int IPC_MAX_QUEUES \<le> msgqid then (Returned (- 1), s)
      else if \<not> mq_active (queues s (nat msgqid)) then (Returned (- 1), s)
      else if m = None \<or> count = 0 \<or> IPC_MAX_MSG_BYTES < count then (Returned (- 1), s)
      else msg_snd_loop (nat msgqid) (the m) count flag sender env s)"

section \<open>Receiving\<close>

partial_function (option) find_type :: "(nat \<Rightarrow> msg_node) \<Rightarrow> int \<Rightarrow> nat option \<Rightarrow> nat option
    \<Rightarrow> (nat option \<times> nat option) option" where
  "find_type nd t pn n =
     (if n = None then Some (None, None)
      else if mtype (node_msg (nd (the n))) = t then Some (n, pn)
      else find_type nd t n (node_next (nd (the n))))"

partial_function (option) find_lowest :: "(nat \<Rightarrow> msg_node) \<Rightarrow> int \<Rightarrow> int
    \<Rightarrow> nat option \<times> nat option \<Rightarrow> nat option \<Rightarrow> nat option \<Rightarrow> (nat option \<times> nat option) option" where
  "find_lowest nd lim best chosen pn n =
     (if n = None then Some chosen
      else if mtype (node_msg (nd (the n))) \<le> lim \<and> mtype (node_msg (nd (the n))) < best
      then find_lowest nd lim (mtype (node_msg (nd (the n)))) (n, pn) n (node_next (nd (the n)))
      else find_lowest nd lim best chosen n (node_next (nd (the n))))"

text \<open>The chosen node and its predecessor.\<close>

definition msg_select :: "nat \<Rightarrow> int \<Rightarrow> msg_state \<Rightarrow> (nat option \<times> nat option) option" where
  "msg_select i type s =
     (let q = queues s i in
      if type = 0 then Some (mq_first q, None)
      else if 0 < type then find_type (node_pool s) type None (mq_first q)
      else find_lowest (node_pool s) (- type) (- type + 1) (None, None) None (mq_first q))"

definition msg_take :: "nat \<Rightarrow> nat \<Rightarrow> nat option \<Rightarrow> int option \<Rightarrow> msg_state \<Rightarrow> msg_state" where
  "msg_take i c cprev receiver s =
     (let nx = node_next (node_pool s c); k = msize (node_msg (node_pool s c));
          s = (case cprev of
                 Some p \<Rightarrow> upd_node p (\<lambda>x. x\<lparr>node_next := nx\<rparr>) s
               | None \<Rightarrow> upd_queue i (\<lambda>q. q\<lparr>mq_first := nx\<rparr>) s);
          s = upd_queue i (\<lambda>q. if mq_last q = Some c then q\<lparr>mq_last := cprev\<rparr> else q) s;
          s = upd_queue i (\<lambda>q. q\<lparr>msg_count := msg_count q - 1, msg_bytes := msg_bytes q - k,
                last_recv_pid := (case receiver of None \<Rightarrow> 0 | Some pid \<Rightarrow> pid),
                rcv_time := msg_jiffies s\<rparr>) s
      in msg_wakeup i (node_free c s))"

text \<open>
  The answer of \<open>msg_rcv\<close>: the return value and, on success, what it stored into \<open>out_msg\<close>
  (the first \<open>msize\<close> bytes of its text; the rest of the caller's buffer is left alone).
\<close>

fun msg_rcv_loop :: "nat \<Rightarrow> nat \<Rightarrow> int \<Rightarrow> u32 \<Rightarrow> int option \<Rightarrow> msg_state sleeps \<Rightarrow> msg_state
    \<Rightarrow> ((int \<times> msg option) answer \<times> msg_state) option" where
  "msg_rcv_loop i maxcount type flag receiver env s =
     (case msg_select i type s of
        None \<Rightarrow> None
      | Some (None, cprev) \<Rightarrow>
          if has flag IPC_NOWAIT then Some (Returned (- 1, None), s)
          else
            (case env of
               [] \<Rightarrow> Some (Asleep, s)
             | (rc, f) # env \<Rightarrow>
                 (let s = f s in
                  if rc < 0 then Some (Returned (- 1, None), s)
                  else if \<not> mq_active (queues s i) then Some (Returned (- 1, None), s)
                  else msg_rcv_loop i maxcount type flag receiver env s))
      | Some (Some c, cprev) \<Rightarrow>
          (let m = node_msg (node_pool s c) in
           if maxcount < msize m \<and> \<not> has flag MSG_NOERROR then Some (Returned (- 1, None), s)
           else
             (let received = (if maxcount < msize m then maxcount else msize m) in
              Some (Returned (int received,
                      Some \<lparr>mtype = mtype m, mtext = take received (mtext m), msize = received\<rparr>),
                    msg_take i c cprev receiver s))))"

declare msg_rcv_loop.simps [simp del]

definition msg_rcv :: "int \<Rightarrow> bool \<Rightarrow> nat \<Rightarrow> int \<Rightarrow> u32 \<Rightarrow> int option \<Rightarrow> msg_state sleeps \<Rightarrow> msg_state
    \<Rightarrow> ((int \<times> msg option) answer \<times> msg_state) option" where
  "msg_rcv msgqid out maxcount type flag receiver env s =
     (if msgqid < 0 \<or> int IPC_MAX_QUEUES \<le> msgqid then Some (Returned (- 1, None), s)
      else if \<not> mq_active (queues s (nat msgqid)) \<or> \<not> out then Some (Returned (- 1, None), s)
      else msg_rcv_loop (nat msgqid) maxcount type flag receiver env s)"

section \<open>The pool is a pool of slots\<close>

definition slot_used :: "msg_state \<Rightarrow> nat \<Rightarrow> bool" where
  "slot_used s n \<longleftrightarrow> pool_ready s \<and> node_used s n"

interpretation msg_pool: slot_pool MSG_NODE_POOL_SIZE slot_used node_alloc node_free
proof
  have P: "node_used (pool_init s) n = slot_used s n" for s n
    by (simp add: pool_init_def slot_used_def)
  show first: "fst (node_alloc s) = first_idx (\<lambda>i. \<not> slot_used s i) MSG_NODE_POOL_SIZE" for s
    by (simp add: node_alloc_def Let_def P split: option.split)
  have R: "pool_ready (pool_init s)" for s by (simp add: pool_init_def)
  show "slot_used (snd (node_alloc s)) = (slot_used s)(i := True)"
    if "fst (node_alloc s) = Some i" for s i
    using that by (auto simp: node_alloc_def Let_def P R slot_used_def [abs_def] fun_eq_iff
        split: option.splits)
  show "snd (node_alloc s) = s" if "fst (node_alloc s) = None" for s
  proof -
    have "slot_used s 0"
      using that unfolding first first_idx_None_iff by (simp add: MSG_NODE_POOL_SIZE_def ipc_limits)
    then have "pool_init s = s" by (simp add: pool_init_def slot_used_def)
    with that show ?thesis by (auto simp: node_alloc_def Let_def split: option.splits)
  qed
  show "slot_used (node_free i s) = (slot_used s)(i := False)" if "i < MSG_NODE_POOL_SIZE" for i s
    using that by (auto simp: node_free_def slot_used_def fun_eq_iff)
qed

section \<open>Well-formed queues\<close>

definition mnx :: "msg_state \<Rightarrow> nat \<Rightarrow> nat option" where
  "mnx s n = node_next (node_pool s n)"

definition mq_ok :: "msg_state \<Rightarrow> nat \<Rightarrow> nat list \<Rightarrow> bool" where
  "mq_ok s i xs \<longleftrightarrow>
     sll (mnx s) (mq_first (queues s i)) xs \<and> mq_last (queues s i) = lastp None xs \<and>
     msg_count (queues s i) = int (length xs) \<and>
     msg_bytes (queues s i) = (\<Sum>n\<leftarrow>xs. msize (node_msg (node_pool s n))) \<and>
     (\<forall>n\<in>set xs. n < MSG_NODE_POOL_SIZE \<and> node_used s n \<and>
        msize (node_msg (node_pool s n)) \<le> IPC_MAX_MSG_BYTES \<and>
        length (mtext (node_msg (node_pool s n))) = IPC_MAX_MSG_BYTES)"

text \<open>
  \<open>Q i\<close> are the nodes of queue \<open>i\<close>, first to last. No node is on two queues, and every
  node in use is on one: nothing leaks.
\<close>

definition msg_inv :: "msg_state \<Rightarrow> (nat \<Rightarrow> nat list) \<Rightarrow> bool" where
  "msg_inv s Q \<longleftrightarrow> pool_ready s \<and>
     (\<forall>i<IPC_MAX_QUEUES. if mq_active (queues s i) then mq_ok s i (Q i) else Q i = []) \<and>
     (\<forall>i<IPC_MAX_QUEUES. \<forall>j<IPC_MAX_QUEUES. i \<noteq> j \<longrightarrow> set (Q i) \<inter> set (Q j) = {}) \<and>
     (\<forall>n<MSG_NODE_POOL_SIZE. node_used s n \<longrightarrow> (\<exists>i<IPC_MAX_QUEUES. n \<in> set (Q i)))"

lemma mq_ok_cong:
  assumes "queues t i = queues s i"
    and "\<And>n. n \<in> set xs \<Longrightarrow> node_pool t n = node_pool s n \<and> node_used t n = node_used s n"
  shows "mq_ok t i xs = mq_ok s i xs"
proof -
  have "sll (mnx t) p xs = sll (mnx s) p xs" for p
    by (rule sll_cong) (simp add: mnx_def assms(2))
  moreover have "(\<Sum>n\<leftarrow>xs. msize (node_msg (node_pool t n))) =
      (\<Sum>n\<leftarrow>xs. msize (node_msg (node_pool s n)))"
    by (intro arg_cong [where f = sum_list] map_cong) (simp_all add: assms(2))
  ultimately show ?thesis by (simp add: mq_ok_def assms)
qed

lemma msg_invD:
  assumes "msg_inv s Q" and "i < IPC_MAX_QUEUES"
  shows "pool_ready s" and "mq_active (queues s i) \<Longrightarrow> mq_ok s i (Q i)"
    and "j < IPC_MAX_QUEUES \<Longrightarrow> i \<noteq> j \<Longrightarrow> set (Q i) \<inter> set (Q j) = {}"
    and "n < MSG_NODE_POOL_SIZE \<Longrightarrow> node_used s n \<Longrightarrow> \<exists>i<IPC_MAX_QUEUES. n \<in> set (Q i)"
    and "\<not> mq_active (queues s i) \<Longrightarrow> Q i = []"
  using assms by (auto simp: msg_inv_def split: if_splits)

lemma msg_inv_used:
  assumes "msg_inv s Q" and "i < IPC_MAX_QUEUES" and "n \<in> set (Q i)"
  shows "node_used s n" and "n < MSG_NODE_POOL_SIZE" and "mq_active (queues s i)"
proof -
  show a: "mq_active (queues s i)" using msg_invD(5) [OF assms(1,2)] assms(3) by force
  show "node_used s n" "n < MSG_NODE_POOL_SIZE"
    using msg_invD(2) [OF assms(1,2) a] assms(3) by (auto simp: mq_ok_def)
qed

text \<open>
  The shape of every operation: queue \<open>i\<close> gets a new node list, the other queues' headers
  and nodes are as before.
\<close>

lemma msg_invI:
  assumes inv: "msg_inv s Q" and i: "i < IPC_MAX_QUEUES"
    and ready: "pool_ready t"
    and new: "if mq_active (queues t i) then mq_ok t i xs else xs = []"
    and other: "\<And>j. j \<noteq> i \<Longrightarrow> queues t j = queues s j"
    and nodes: "\<And>n j. j < IPC_MAX_QUEUES \<Longrightarrow> j \<noteq> i \<Longrightarrow> n \<in> set (Q j) \<Longrightarrow>
      node_pool t n = node_pool s n \<and> node_used t n = node_used s n \<and> n \<notin> set xs"
    and leak: "\<And>n. n < MSG_NODE_POOL_SIZE \<Longrightarrow> node_used t n \<Longrightarrow>
      n \<in> set xs \<or> (\<exists>j<IPC_MAX_QUEUES. j \<noteq> i \<and> n \<in> set (Q j))"
  shows "msg_inv t (Q(i := xs))"
  unfolding msg_inv_def
proof (intro conjI allI impI)
  show "pool_ready t" by (rule ready)
next
  fix j assume j: "j < IPC_MAX_QUEUES"
  show "if mq_active (queues t j) then mq_ok t j ((Q(i := xs)) j) else (Q(i := xs)) j = []"
  proof (cases "j = i")
    case False
    then have "mq_ok t j (Q j) = mq_ok s j (Q j)"
      using mq_ok_cong [of t j s "Q j"] other nodes j by blast
    with False msg_invD(2,5) [OF inv j] other show ?thesis by auto
  qed (use new in simp)
next
  fix j k assume jk: "j < IPC_MAX_QUEUES" "k < IPC_MAX_QUEUES" "j \<noteq> k"
  then show "set ((Q(i := xs)) j) \<inter> set ((Q(i := xs)) k) = {}"
    using nodes msg_invD(3) [OF inv jk(1,2,3)] by (cases "j = i"; cases "k = i") auto
next
  fix n assume "n < MSG_NODE_POOL_SIZE" "node_used t n"
  from leak [OF this] show "\<exists>j<IPC_MAX_QUEUES. n \<in> set ((Q(i := xs)) j)"
    using i by auto
qed

section \<open>Selection\<close>

abbreviation ty :: "(nat \<Rightarrow> msg_node) \<Rightarrow> nat \<Rightarrow> int" where
  "ty nd n \<equiv> mtype (node_msg (nd n))"

lemma find_type_spec:
  assumes "sll (\<lambda>n. node_next (nd n)) p xs"
  shows "find_type nd t pn p = Some (None, None) \<and> (\<forall>x\<in>set xs. ty nd x \<noteq> t) \<or>
    (\<exists>as c bs. xs = as @ c # bs \<and> find_type nd t pn p = Some (Some c, lastp pn as) \<and>
       ty nd c = t \<and> (\<forall>a\<in>set as. ty nd a \<noteq> t))"
  using assms
proof (induction xs arbitrary: p pn)
  case Nil
  then show ?case by (simp add: find_type.simps)
next
  case (Cons x xs)
  show ?case
  proof (cases "ty nd x = t")
    case True
    with Cons.prems have "find_type nd t pn p = Some (Some x, pn)" by (simp add: find_type.simps)
    with True have "x # xs = [] @ x # xs \<and> find_type nd t pn p = Some (Some x, lastp pn []) \<and>
       ty nd x = t \<and> (\<forall>a\<in>set []. ty nd a \<noteq> t)" by simp
    then show ?thesis by blast
  next
    case False
    with Cons.prems have step: "find_type nd t pn p = find_type nd t (Some x) (node_next (nd x))"
      by (simp add: find_type.simps)
    from Cons.prems have "sll (\<lambda>n. node_next (nd n)) (node_next (nd x)) xs" by simp
    from Cons.IH [OF this, of "Some x"] show ?thesis
    proof (elim disjE exE conjE)
      fix as c bs
      assume "xs = as @ c # bs" "find_type nd t (Some x) (node_next (nd x)) = Some (Some c, lastp (Some x) as)"
        "ty nd c = t" "\<forall>a\<in>set as. ty nd a \<noteq> t"
      with False step have "x # xs = (x # as) @ c # bs \<and>
          find_type nd t pn p = Some (Some c, lastp pn (x # as)) \<and> ty nd c = t \<and>
          (\<forall>a\<in>set (x # as). ty nd a \<noteq> t)" by simp
      then show ?thesis by blast
    qed (use False step in auto)
  qed
qed

lemma find_lowest_spec:
  assumes "sll (\<lambda>n. node_next (nd n)) p xs"
  shows "find_lowest nd lim best ch pn p = Some ch \<and>
      (\<forall>x\<in>set xs. \<not> (ty nd x \<le> lim \<and> ty nd x < best)) \<or>
    (\<exists>as c bs. xs = as @ c # bs \<and> find_lowest nd lim best ch pn p = Some (Some c, lastp pn as) \<and>
       ty nd c \<le> lim \<and> ty nd c < best \<and> (\<forall>a\<in>set as. ty nd a \<le> lim \<longrightarrow> ty nd c < ty nd a) \<and>
       (\<forall>b\<in>set bs. ty nd b \<le> lim \<longrightarrow> ty nd c \<le> ty nd b))"
  using assms
proof (induction xs arbitrary: p pn best ch)
  case Nil
  then show ?case by (simp add: find_lowest.simps)
next
  case (Cons x xs)
  let ?take = "ty nd x \<le> lim \<and> ty nd x < best"
  let ?best = "if ?take then ty nd x else best" and ?ch = "if ?take then (p, pn) else ch"
  from Cons.prems have p: "p = Some x" and tl: "sll (\<lambda>n. node_next (nd n)) (node_next (nd x)) xs"
    by auto
  have step: "find_lowest nd lim best ch pn p =
      find_lowest nd lim ?best ?ch (Some x) (node_next (nd x))"
    by (subst find_lowest.simps) (simp add: p)
  from Cons.IH [OF tl, of ?best ?ch "Some x"] show ?case
  proof (elim disjE exE conjE)
    assume A: "find_lowest nd lim ?best ?ch (Some x) (node_next (nd x)) = Some ?ch"
      and B: "\<forall>y\<in>set xs. \<not> (ty nd y \<le> lim \<and> ty nd y < ?best)"
    show ?thesis
    proof (cases ?take)
      case True
      with A B step p have "x # xs = [] @ x # xs \<and>
          find_lowest nd lim best ch pn p = Some (Some x, lastp pn []) \<and> ty nd x \<le> lim \<and>
          ty nd x < best \<and> (\<forall>a\<in>set []. ty nd a \<le> lim \<longrightarrow> ty nd x < ty nd a) \<and>
          (\<forall>b\<in>set xs. ty nd b \<le> lim \<longrightarrow> ty nd x \<le> ty nd b)" by auto
      then show ?thesis by blast
    qed (use A B step in auto)
  next
    fix as c bs
    assume H: "xs = as @ c # bs"
      "find_lowest nd lim ?best ?ch (Some x) (node_next (nd x)) = Some (Some c, lastp (Some x) as)"
      "ty nd c \<le> lim" "ty nd c < ?best" "\<forall>a\<in>set as. ty nd a \<le> lim \<longrightarrow> ty nd c < ty nd a"
      "\<forall>b\<in>set bs. ty nd b \<le> lim \<longrightarrow> ty nd c \<le> ty nd b"
    then have "x # xs = (x # as) @ c # bs \<and>
        find_lowest nd lim best ch pn p = Some (Some c, lastp pn (x # as)) \<and> ty nd c \<le> lim \<and>
        ty nd c < best \<and> (\<forall>a\<in>set (x # as). ty nd a \<le> lim \<longrightarrow> ty nd c < ty nd a) \<and>
        (\<forall>b\<in>set bs. ty nd b \<le> lim \<longrightarrow> ty nd c \<le> ty nd b)"
      using step by (auto split: if_splits)
    then show ?thesis by blast
  qed
qed

definition matches :: "int \<Rightarrow> int \<Rightarrow> bool" where
  "matches type t \<longleftrightarrow> type = 0 \<or> 0 < type \<and> t = type \<or> type < 0 \<and> t \<le> - type"

text \<open>What the three modes of selection promise about the message at \<open>as @ c # bs\<close>.\<close>

definition selects :: "int \<Rightarrow> (nat \<Rightarrow> msg_node) \<Rightarrow> nat list \<Rightarrow> nat \<Rightarrow> nat list \<Rightarrow> bool" where
  "selects type nd as c bs \<longleftrightarrow> matches type (ty nd c) \<and>
     (if type < 0
      then (\<forall>a\<in>set as. matches type (ty nd a) \<longrightarrow> ty nd c < ty nd a) \<and>
        (\<forall>b\<in>set bs. matches type (ty nd b) \<longrightarrow> ty nd c \<le> ty nd b)
      else \<forall>a\<in>set as. \<not> matches type (ty nd a))"

lemma msg_select_spec:
  assumes "sll (mnx s) (mq_first (queues s i)) xs"
  shows "(\<exists>cp. msg_select i type s = Some (None, cp)) \<and>
      (\<forall>x\<in>set xs. \<not> matches type (ty (node_pool s) x)) \<or>
    (\<exists>as c bs. xs = as @ c # bs \<and> msg_select i type s = Some (Some c, lastp None as) \<and>
       selects type (node_pool s) as c bs)"
proof -
  have l: "sll (\<lambda>n. node_next (node_pool s n)) (mq_first (queues s i)) xs"
    using assms by (simp add: mnx_def [abs_def])
  consider "type = 0" | "0 < type" | "type < 0" by linarith
  then show ?thesis
  proof cases
    case 1
    show ?thesis
    proof (cases xs)
      case (Cons x ys)
      with 1 l have "xs = [] @ x # ys \<and> msg_select i type s = Some (Some x, lastp None []) \<and>
          selects type (node_pool s) [] x ys"
        by (simp add: msg_select_def selects_def matches_def)
      then show ?thesis by blast
    qed (use 1 l in \<open>simp add: msg_select_def\<close>)
  next
    case 2
    with find_type_spec [OF l, of type None] show ?thesis
      by (simp add: msg_select_def selects_def matches_def) blast
  next
    case 3
    then have m: "matches type t \<longleftrightarrow> t \<le> - type" for t by (auto simp: matches_def)
    have sel: "msg_select i type s = find_lowest (node_pool s) (- type) (- type + 1) (None, None)
        None (mq_first (queues s i))"
      using 3 by (simp add: msg_select_def)
    show ?thesis
      unfolding sel selects_def m
      using find_lowest_spec [OF l, of "- type" "- type + 1" "(None, None)" None] 3
      by (elim disjE) (simp_all, blast)
  qed
qed

section \<open>Every operation keeps the queues well formed\<close>

lemma mupd_sel [simp]:
  "queues (upd_queue i f s) = (queues s)(i := f (queues s i))"
  "node_pool (upd_queue i f s) = node_pool s" "node_used (upd_queue i f s) = node_used s"
  "pool_ready (upd_queue i f s) = pool_ready s" "msg_wakes (upd_queue i f s) = msg_wakes s"
  "msg_jiffies (upd_queue i f s) = msg_jiffies s"
  "queues (upd_node n g s) = queues s"
  "node_pool (upd_node n g s) = (node_pool s)(n := g (node_pool s n))"
  "node_used (upd_node n g s) = node_used s" "pool_ready (upd_node n g s) = pool_ready s"
  "msg_wakes (upd_node n g s) = msg_wakes s" "msg_jiffies (upd_node n g s) = msg_jiffies s"
  "queues (msg_wakeup i s) = queues s" "node_pool (msg_wakeup i s) = node_pool s"
  "node_used (msg_wakeup i s) = node_used s" "pool_ready (msg_wakeup i s) = pool_ready s"
  "msg_wakes (msg_wakeup i s) = msg_wakes s @ [MsgChan i]"
  "queues (node_free n s) = queues s" "pool_ready (node_free n s) = pool_ready s"
  "msg_wakes (node_free n s) = msg_wakes s"
  by (simp_all add: upd_queue_def upd_node_def msg_wakeup_def node_free_def)

lemma node_free_sel [simp]:
  "n < MSG_NODE_POOL_SIZE \<Longrightarrow> node_pool (node_free n s) = (node_pool s)(n := zero_node)"
  "n < MSG_NODE_POOL_SIZE \<Longrightarrow> node_used (node_free n s) = (node_used s)(n := False)"
  by (simp_all add: node_free_def)

text \<open>The messages of a queue, first to last: type and text.\<close>

definition contents :: "msg_state \<Rightarrow> nat list \<Rightarrow> (int \<times> u8 list) list" where
  "contents s xs = map (\<lambda>n. (mtype (node_msg (node_pool s n)),
      take (msize (node_msg (node_pool s n))) (mtext (node_msg (node_pool s n))))) xs"

lemma node_alloc_ready:
  assumes "pool_ready s"
  shows "node_alloc s = (None, s) \<or>
    (\<exists>n<MSG_NODE_POOL_SIZE. \<not> node_used s n \<and> node_alloc s = (Some n,
       s\<lparr>node_pool := (node_pool s)(n := zero_node), node_used := (node_used s)(n := True)\<rparr>))"
  using assms
  by (auto simp: node_alloc_def pool_init_def Let_def first_idx_Some_iff split: option.split)

definition new_msg :: "msg \<Rightarrow> nat \<Rightarrow> msg" where
  "new_msg m count = \<lparr>mtype = mtype m,
     mtext = take count (mtext m) @ replicate (IPC_MAX_MSG_BYTES - count) 0, msize = count\<rparr>"

definition linked :: "msg_state \<Rightarrow> nat \<Rightarrow> nat \<Rightarrow> msg \<Rightarrow> nat \<Rightarrow> msg_state" where
  "linked s i n m count =
     (let s = s\<lparr>node_pool := (node_pool s)(n := \<lparr>node_msg = new_msg m count, node_next = None\<rparr>),
                node_used := (node_used s)(n := True)\<rparr>
      in case mq_last (queues s i) of
           Some l \<Rightarrow> upd_node l (\<lambda>x. x\<lparr>node_next := Some n\<rparr>) s
         | None \<Rightarrow> upd_queue i (\<lambda>q. q\<lparr>mq_first := Some n\<rparr>) s)"

lemma msg_append_linked:
  assumes "node_alloc s = (Some n,
       s\<lparr>node_pool := (node_pool s)(n := zero_node), node_used := (node_used s)(n := True)\<rparr>)"
  shows "\<exists>pid. msg_append i m count sender s = (int count, msg_wakeup i
    (upd_queue i (\<lambda>q. q\<lparr>mq_last := Some n, msg_count := msg_count q + 1,
       msg_bytes := msg_bytes q + count, last_send_pid := pid, snd_time := msg_jiffies s\<rparr>)
      (linked s i n m count)))"
proof -
  have "upd_node n (\<lambda>x. x\<lparr>node_msg := \<lparr>mtype = mtype m,
       mtext = take count (mtext m) @ drop count (mtext (node_msg x)), msize = count\<rparr>,
       node_next := None\<rparr>)
      (s\<lparr>node_pool := (node_pool s)(n := zero_node), node_used := (node_used s)(n := True)\<rparr>) =
    s\<lparr>node_pool := (node_pool s)(n := \<lparr>node_msg = new_msg m count, node_next = None\<rparr>),
       node_used := (node_used s)(n := True)\<rparr>"
    by (simp add: upd_node_def new_msg_def zero_node_def)
  then show ?thesis
    using assms
    by (auto simp: msg_append_def linked_def Let_def upd_queue_def upd_node_def split: option.split)
qed

lemma linked_sel:
  "pool_ready (linked s i n m count) = pool_ready s"
  "node_used (linked s i n m count) = (node_used s)(n := True)"
  "j \<noteq> i \<Longrightarrow> queues (linked s i n m count) j = queues s j"
  "mq_active (queues (linked s i n m count) i) = mq_active (queues s i)"
  "msg_count (queues (linked s i n m count) i) = msg_count (queues s i)"
  "msg_bytes (queues (linked s i n m count) i) = msg_bytes (queues s i)"
  "msg_qbytes (queues (linked s i n m count) i) = msg_qbytes (queues s i)"
  "msg_wakes (linked s i n m count) = msg_wakes s"
  "mq_last (queues s i) \<noteq> Some n \<Longrightarrow>
     node_msg (node_pool (linked s i n m count) k) = (if k = n then new_msg m count else node_msg (node_pool s k))"
  "k \<noteq> n \<Longrightarrow> mq_last (queues s i) \<noteq> Some k \<Longrightarrow> node_pool (linked s i n m count) k = node_pool s k"
  by (auto simp: linked_def Let_def split: option.split)

lemma linked_sll:
  assumes l: "sll (mnx s) (mq_first (queues s i)) xs" and last: "mq_last (queues s i) = lastp None xs"
    and n: "n \<notin> set xs"
  shows "sll (mnx (linked s i n m count)) (mq_first (queues (linked s i n m count) i)) (xs @ [n])"
proof (cases xs rule: rev_cases)
  case Nil
  with l last show ?thesis by (simp add: linked_def Let_def mnx_def)
next
  case (snoc ys l)
  then have ll: "mq_last (queues s i) = Some l" and "l \<noteq> n" using last n by (auto simp: lastp_def)
  have "sll ((mnx s)(n := None)) (mq_first (queues s i)) (ys @ [l])"
    using assms(1) n snoc by (simp add: sll_upd_other)
  then have "sll (((mnx s)(n := None))(l := Some n)) (mq_first (queues s i)) (ys @ [l, n])"
    by (rule sll_snoc) (use n snoc in auto)
  moreover have "mnx (linked s i n m count) = ((mnx s)(n := None))(l := Some n)"
    using \<open>l \<noteq> n\<close> by (auto simp: linked_def ll mnx_def fun_eq_iff)
  moreover have "queues (linked s i n m count) = queues s"
    by (simp add: linked_def Let_def ll)
  ultimately show ?thesis using snoc by simp
qed

lemma msg_append_ok:
  assumes inv: "msg_inv s Q" and i: "i < IPC_MAX_QUEUES" and act: "mq_active (queues s i)"
    and m: "length (mtext m) = IPC_MAX_MSG_BYTES" "count \<le> IPC_MAX_MSG_BYTES"
  shows "msg_append i m count sender s = (- 1, s) \<and> (\<forall>n<MSG_NODE_POOL_SIZE. node_used s n) \<or>
    (\<exists>n t. msg_append i m count sender s = (int count, t) \<and> msg_inv t (Q(i := Q i @ [n])) \<and>
       contents t (Q i @ [n]) = contents s (Q i) @ [(mtype m, take count (mtext m))] \<and>
       (\<forall>j<IPC_MAX_QUEUES. j \<noteq> i \<longrightarrow> contents t (Q j) = contents s (Q j)) \<and>
       msg_wakes t = msg_wakes s @ [MsgChan i])"
  using node_alloc_ready [OF msg_invD(1) [OF inv i]]
proof (elim disjE exE conjE)
  assume none: "node_alloc s = (None, s)"
  then have "\<forall>n<MSG_NODE_POOL_SIZE. node_used s n"
    using msg_pool.alloc_None_iff [of s] by (simp add: slot_used_def)
  with none show ?thesis by (simp add: msg_append_def)
next
  fix n assume n: "n < MSG_NODE_POOL_SIZE" "\<not> node_used s n"
    "node_alloc s = (Some n, s\<lparr>node_pool := (node_pool s)(n := zero_node),
       node_used := (node_used s)(n := True)\<rparr>)"
  obtain pid where eq: "msg_append i m count sender s = (int count, msg_wakeup i
    (upd_queue i (\<lambda>q. q\<lparr>mq_last := Some n, msg_count := msg_count q + 1,
       msg_bytes := msg_bytes q + count, last_send_pid := pid, snd_time := msg_jiffies s\<rparr>)
      (linked s i n m count)))" (is "_ = (_, ?t)")
    using msg_append_linked [OF n(3)] by blast
  note ok = msg_invD(2) [OF inv i act]
  have fresh: "n \<notin> set (Q j)" if "j < IPC_MAX_QUEUES" for j
    using msg_inv_used(1) [OF inv that] n(2) by blast
  have lst: "mq_last (queues s i) = lastp None (Q i)" using ok by (simp add: mq_ok_def)
  then have ln: "mq_last (queues s i) \<noteq> Some n" using fresh [OF i] by (auto simp: lastp_def)
  have msgs: "node_msg (node_pool ?t k) = (if k = n then new_msg m count else node_msg (node_pool s k))" for k
    using linked_sel(9) [of s i n m count k] ln by simp
  have tq: "node_used ?t = (node_used s)(n := True)" by (simp add: linked_sel)
  have mnx: "mnx ?t = mnx (linked s i n m count)" by (simp add: mnx_def fun_eq_iff)
  have lm: "length (mtext (new_msg m count)) = IPC_MAX_MSG_BYTES" "msize (new_msg m count) = count"
    using m by (simp_all add: new_msg_def)
  have sl: "sll (mnx ?t) (mq_first (queues ?t i)) (Q i @ [n])"
    unfolding mnx using linked_sll [OF _ lst fresh [OF i], of m count] ok by (simp add: mq_ok_def)
  have "(\<Sum>k\<leftarrow>Q i. msize (node_msg (node_pool ?t k))) = (\<Sum>k\<leftarrow>Q i. msize (node_msg (node_pool s k)))"
    by (intro arg_cong [where f = sum_list] map_cong) (use msgs fresh [OF i] in auto)
  then have new: "mq_ok ?t i (Q i @ [n])"
    using ok sl n m fresh [OF i] unfolding mq_ok_def msgs tq
    by (auto simp: linked_sel lm)
  have "msg_inv ?t (Q(i := Q i @ [n]))"
  proof (rule msg_invI [OF inv i])
    show "if mq_active (queues ?t i) then mq_ok ?t i (Q i @ [n]) else Q i @ [n] = []"
      using new act by (simp add: linked_sel)
    show "node_pool ?t k = node_pool s k \<and> node_used ?t k = node_used s k \<and> k \<notin> set (Q i @ [n])"
      if "j < IPC_MAX_QUEUES" "j \<noteq> i" "k \<in> set (Q j)" for k j
    proof -
      have "k \<noteq> n" "k \<notin> set (Q i)"
        using fresh [OF that(1)] msg_invD(3) [OF inv that(1) i that(2)] that(3) by auto
      moreover from this have "mq_last (queues s i) \<noteq> Some k" using lst by (auto simp: lastp_def)
      ultimately show ?thesis by (simp add: linked_sel)
    qed
    show "k \<in> set (Q i @ [n]) \<or> (\<exists>j<IPC_MAX_QUEUES. j \<noteq> i \<and> k \<in> set (Q j))"
      if "k < MSG_NODE_POOL_SIZE" "node_used ?t k" for k
      using msg_invD(4) [OF inv i that(1)] that(2) unfolding tq by (auto split: if_splits)
  qed (use msg_invD(1) [OF inv i] in \<open>simp_all add: linked_sel\<close>)
  moreover have "contents ?t (Q j) = contents s (Q j)" if "j < IPC_MAX_QUEUES" for j
    unfolding contents_def by (rule map_cong) (use msgs fresh [OF that] in auto)
  moreover have "contents ?t [n] = [(mtype m, take count (mtext m))]"
    unfolding contents_def using msgs m by (simp add: new_msg_def)
  ultimately show ?thesis
    using eq i by (auto simp: linked_sel contents_def)
qed

lemma msg_take_sel:
  assumes "c < MSG_NODE_POOL_SIZE"
  shows "pool_ready (msg_take i c cp r s) = pool_ready s"
    and "node_used (msg_take i c cp r s) = (node_used s)(c := False)"
    and "j \<noteq> i \<Longrightarrow> queues (msg_take i c cp r s) j = queues s j"
    and "mq_active (queues (msg_take i c cp r s) i) = mq_active (queues s i)"
    and "mq_first (queues (msg_take i c cp r s) i) =
      (if cp = None then node_next (node_pool s c) else mq_first (queues s i))"
    and "mq_last (queues (msg_take i c cp r s) i) =
      (if mq_last (queues s i) = Some c then cp else mq_last (queues s i))"
    and "msg_count (queues (msg_take i c cp r s) i) = msg_count (queues s i) - 1"
    and "msg_bytes (queues (msg_take i c cp r s) i) =
      msg_bytes (queues s i) - msize (node_msg (node_pool s c))"
    and "msg_wakes (msg_take i c cp r s) = msg_wakes s @ [MsgChan i]"
    and "k \<noteq> c \<Longrightarrow> node_msg (node_pool (msg_take i c cp r s) k) = node_msg (node_pool s k)"
    and "k \<noteq> c \<Longrightarrow> node_next (node_pool (msg_take i c cp r s) k) =
      (if cp = Some k then node_next (node_pool s c) else node_next (node_pool s k))"
  using assms by (auto simp: msg_take_def Let_def split: option.split)

lemma msg_take_ok:
  assumes inv: "msg_inv s Q" and i: "i < IPC_MAX_QUEUES" and Q: "Q i = as @ c # bs"
    and cp: "cp = lastp None as"
  shows "msg_inv (msg_take i c cp r s) (Q(i := as @ bs))"
    and "contents (msg_take i c cp r s) (as @ bs) = contents s (as @ bs)"
proof -
  let ?t = "msg_take i c cp r s"
  have c: "c < MSG_NODE_POOL_SIZE" and act: "mq_active (queues s i)"
    using msg_inv_used [OF inv i, of c] Q by auto
  note sel = msg_take_sel [OF c, where i = i and cp = cp and r = r and s = s]
  have ok: "mq_ok s i (as @ c # bs)" using msg_invD(2) [OF inv i act] Q by simp
  have l: "sll (mnx s) (mq_first (queues s i)) (as @ c # bs)" using ok by (simp add: mq_ok_def)
  have d: "distinct (as @ c # bs)" by (rule sll_distinct [OF l])
  have same: "node_msg (node_pool ?t k) = node_msg (node_pool s k)" if "k \<in> set (as @ bs)" for k
    using sel(10) [where k = k] d that by auto
  have sl: "sll (mnx ?t) (mq_first (queues ?t i)) (as @ bs)"
  proof (cases as rule: rev_cases)
    case Nil
    with l have "sll (mnx s) (mnx s c) bs" by auto
    moreover have "sll (mnx ?t) (mnx s c) bs = sll (mnx s) (mnx s c) bs"
      by (rule sll_cong) (use d Nil cp sel(11) in \<open>force simp: mnx_def\<close>)
    ultimately show ?thesis using Nil cp sel(5) by (simp add: mnx_def)
  next
    case (snoc as' p)
    then have cpp: "cp = Some p" using cp by simp
    have "sll ((mnx s)(p := mnx s c)) (mq_first (queues s i)) (as' @ p # bs)"
      by (rule sll_remove_mid) (use l snoc in simp)
    moreover have "sll (mnx ?t) (mq_first (queues s i)) (as' @ p # bs) =
        sll ((mnx s)(p := mnx s c)) (mq_first (queues s i)) (as' @ p # bs)"
      by (rule sll_cong) (use d snoc sel(11) in \<open>force simp: mnx_def cpp\<close>)
    ultimately show ?thesis using snoc cpp sel(5) by simp
  qed
  have last: "mq_last (queues ?t i) = lastp None (as @ bs)"
    unfolding sel(6) using ok d cp
    by (cases bs rule: rev_cases) (auto simp: mq_ok_def lastp_def)
  have sum: "(\<Sum>k\<leftarrow>as @ bs. msize (node_msg (node_pool ?t k))) =
      (\<Sum>k\<leftarrow>as @ bs. msize (node_msg (node_pool s k)))"
    by (intro arg_cong [where f = sum_list] map_cong refl) (simp add: same)
  have "mq_ok ?t i (as @ bs)"
    unfolding mq_ok_def
  proof (intro conjI)
    show "msg_count (queues ?t i) = int (length (as @ bs))"
      unfolding sel(7) using ok by (simp add: mq_ok_def)
    show "msg_bytes (queues ?t i) = (\<Sum>k\<leftarrow>as @ bs. msize (node_msg (node_pool ?t k)))"
      unfolding sel(8) sum using ok by (simp add: mq_ok_def)
    show "\<forall>k\<in>set (as @ bs). k < MSG_NODE_POOL_SIZE \<and> node_used ?t k \<and>
        msize (node_msg (node_pool ?t k)) \<le> IPC_MAX_MSG_BYTES \<and>
        length (mtext (node_msg (node_pool ?t k))) = IPC_MAX_MSG_BYTES"
    proof
      fix k assume k: "k \<in> set (as @ bs)"
      then have "k \<noteq> c" using d by auto
      with k ok same [OF k] sel(2) show "k < MSG_NODE_POOL_SIZE \<and> node_used ?t k \<and>
        msize (node_msg (node_pool ?t k)) \<le> IPC_MAX_MSG_BYTES \<and>
        length (mtext (node_msg (node_pool ?t k))) = IPC_MAX_MSG_BYTES"
        by (auto simp: mq_ok_def)
    qed
  qed (rule sl last)+
  then show "msg_inv ?t (Q(i := as @ bs))"
  proof (intro msg_invI [OF inv i])
    show "node_pool ?t n = node_pool s n \<and> node_used ?t n = node_used s n \<and> n \<notin> set (as @ bs)"
      if "j < IPC_MAX_QUEUES" "j \<noteq> i" "n \<in> set (Q j)" for n j
    proof -
      have "n \<notin> set (as @ c # bs)" using msg_invD(3) [OF inv that(1) i that(2)] that(3) Q by auto
      then have "n \<noteq> c" "cp \<noteq> Some n" "n \<notin> set (as @ bs)" using cp by (auto simp: lastp_def split: if_splits)
      then show ?thesis using sel(2) sel(10,11) [where k = n]
        by (auto intro: msg_node.equality)
    qed
    show "n \<in> set (as @ bs) \<or> (\<exists>j<IPC_MAX_QUEUES. j \<noteq> i \<and> n \<in> set (Q j))"
      if small: "n < MSG_NODE_POOL_SIZE" and us: "node_used ?t n" for n
    proof -
      have n: "n \<noteq> c" "node_used s n" using us unfolding sel(2) by (auto split: if_splits)
      obtain j where "j < IPC_MAX_QUEUES" "n \<in> set (Q j)"
        using msg_invD(4) [OF inv i small n(2)] by blast
      with n(1) Q show ?thesis by (cases "j = i") auto
    qed
  qed (use msg_invD(1) [OF inv i] sel act in auto)
  show "contents ?t (as @ bs) = contents s (as @ bs)"
    unfolding contents_def by (rule map_cong) (use same in auto)
qed

section \<open>Removing a queue\<close>

lemma msg_drain_ok:
  assumes "sll (mnx s) p xs" and "\<forall>n\<in>set xs. n < MSG_NODE_POOL_SIZE"
  shows "\<exists>t. msg_drain p s = Some t \<and> queues t = queues s \<and> pool_ready t = pool_ready s \<and>
    msg_wakes t = msg_wakes s \<and> (\<forall>n. node_used t n \<longleftrightarrow> node_used s n \<and> n \<notin> set xs) \<and>
    (\<forall>n. n \<notin> set xs \<longrightarrow> node_pool t n = node_pool s n)"
  using assms
proof (induction xs arbitrary: p s)
  case Nil
  then show ?case by (simp add: msg_drain.simps)
next
  case (Cons x xs)
  then have x: "x \<notin> set xs" "x < MSG_NODE_POOL_SIZE"
    using sll_distinct [of "mnx s" p "x # xs"] by auto
  have "sll (mnx (node_free x s)) (mnx s x) xs = sll (mnx s) (mnx s x) xs"
    by (rule sll_cong) (use x in \<open>auto simp: mnx_def\<close>)
  with Cons.prems have l: "sll (mnx (node_free x s)) (mnx s x) xs" by simp
  have step: "msg_drain p s = msg_drain (mnx s x) (node_free x s)"
    using Cons.prems by (subst msg_drain.simps) (simp add: mnx_def)
  obtain t where t: "msg_drain (mnx s x) (node_free x s) = Some t" "queues t = queues s"
    "pool_ready t = pool_ready s" "msg_wakes t = msg_wakes s"
    "\<forall>n. node_used t n \<longleftrightarrow> node_used (node_free x s) n \<and> n \<notin> set xs"
    "\<forall>n. n \<notin> set xs \<longrightarrow> node_pool t n = node_pool (node_free x s) n"
    using Cons.IH [OF l] Cons.prems(2) by auto
  with x step show ?case by (intro exI [of _ t]) auto
qed

lemma msg_rmid_ok:
  assumes inv: "msg_inv s Q" and i: "i < IPC_MAX_QUEUES" and act: "mq_active (queues s i)"
  shows "\<exists>t. msg_rmid i s = Some t \<and> msg_inv t (Q(i := [])) \<and> \<not> mq_active (queues t i) \<and>
    (\<forall>n. node_used t n \<longleftrightarrow> node_used s n \<and> n \<notin> set (Q i)) \<and>
    msg_wakes t = msg_wakes s @ [MsgChan i, MsgChan i] \<and>
    (\<forall>j<IPC_MAX_QUEUES. j \<noteq> i \<longrightarrow> contents t (Q j) = contents s (Q j)) \<and>
    (\<forall>j. j \<noteq> i \<longrightarrow> queues t j = queues s j)"
proof -
  have ok: "mq_ok s i (Q i)" by (rule msg_invD(2) [OF inv i act])
  obtain t where t: "msg_drain (mq_first (queues s i)) s = Some t" "queues t = queues s"
    "pool_ready t = pool_ready s" "msg_wakes t = msg_wakes s"
    "\<forall>n. node_used t n \<longleftrightarrow> node_used s n \<and> n \<notin> set (Q i)"
    "\<forall>n. n \<notin> set (Q i) \<longrightarrow> node_pool t n = node_pool s n"
    using msg_drain_ok [of s "mq_first (queues s i)" "Q i"] ok by (auto simp: mq_ok_def)
  let ?u = "msg_wakeup i (msg_wakeup i (upd_queue i (\<lambda>q. zero_queue) t))"
  have dj: "n \<notin> set (Q i)" if "j < IPC_MAX_QUEUES" "j \<noteq> i" "n \<in> set (Q j)" for j n
    using msg_invD(3) [OF inv that(1) i that(2)] that(3) by auto
  have "msg_inv ?u (Q(i := []))"
  proof (rule msg_invI [OF inv i])
    show "n \<in> set [] \<or> (\<exists>j<IPC_MAX_QUEUES. j \<noteq> i \<and> n \<in> set (Q j))"
      if "n < MSG_NODE_POOL_SIZE" "node_used ?u n" for n
      using msg_invD(4) [OF inv i that(1)] that(2) t(5) by auto
  qed (use t dj msg_invD(1) [OF inv i] in \<open>auto simp: zero_queue_def\<close>)
  moreover have "contents ?u (Q j) = contents s (Q j)" if "j < IPC_MAX_QUEUES" "j \<noteq> i" for j
    unfolding contents_def by (rule map_cong) (use t(6) dj [OF that] in auto)
  ultimately show ?thesis
    using t by (intro exI [of _ ?u]) (auto simp: msg_rmid_def zero_queue_def)
qed

section \<open>The table of queues is a table of named objects\<close>

definition msg_live :: "msg_state \<Rightarrow> nat \<Rightarrow> bool" where
  "msg_live s i = mq_active (queues s i)"

definition msg_key :: "msg_state \<Rightarrow> nat \<Rightarrow> int" where
  "msg_key s i = perm_key (mq_perm (queues s i))"

definition msg_wf :: "msg_state \<Rightarrow> bool" where
  "msg_wf s \<longleftrightarrow> (\<exists>Q. msg_inv s Q)"

interpretation msg_table: key_table IPC_MAX_QUEUES msg_live msg_key "\<lambda>a :: unit. True"
  "\<lambda>k a. msg_get k" msg_wf msg_rmid
proof
  show "msg_get k f s = (if has f IPC_EXCL then - 1 else int i, s)"
    if "first_idx (\<lambda>i. msg_live s i \<and> msg_key s i = k) IPC_MAX_QUEUES = Some i" for s k i f
    using that by (simp add: msg_get_def msg_live_def msg_key_def)
  show "msg_get k f s = (- 1, s)"
    if "first_idx (\<lambda>i. msg_live s i \<and> msg_key s i = k) IPC_MAX_QUEUES = None"
      "\<not> has f IPC_CREAT \<or> \<not> True \<or> first_idx (\<lambda>i. \<not> msg_live s i) IPC_MAX_QUEUES = None" for s k f
    using that by (auto simp: msg_get_def msg_live_def msg_key_def)
  show "\<exists>t. msg_get k f s = (int i, t) \<and> msg_live t = (msg_live s)(i := True) \<and>
      msg_key t = (msg_key s)(i := k)"
    if "first_idx (\<lambda>i. msg_live s i \<and> msg_key s i = k) IPC_MAX_QUEUES = None" "has f IPC_CREAT" "True"
      "first_idx (\<lambda>i. \<not> msg_live s i) IPC_MAX_QUEUES = Some i" for s k f i
    using that by (auto simp: msg_get_def msg_live_def msg_key_def fun_eq_iff)
  show "\<exists>t. msg_rmid i s = Some t \<and> msg_wf t \<and> msg_live t = (msg_live s)(i := False) \<and>
      (\<forall>j. j \<noteq> i \<longrightarrow> msg_key t j = msg_key s j)"
    if wf: "msg_wf s" and i: "i < IPC_MAX_QUEUES" and act: "msg_live s i" for i s
  proof -
    obtain Q where inv: "msg_inv s Q" using wf by (auto simp: msg_wf_def)
    have a: "mq_active (queues s i)" using act by (simp add: msg_live_def)
    from msg_rmid_ok [OF inv i a] obtain t where "msg_rmid i s = Some t" "msg_inv t (Q(i := []))"
      "\<not> mq_active (queues t i)" "\<forall>j. j \<noteq> i \<longrightarrow> queues t j = queues s j" by blast
    then show ?thesis
      by (intro exI [of _ t]) (auto simp: msg_wf_def msg_live_def msg_key_def fun_eq_iff)
  qed
qed

section \<open>Loops\<close>

lemma msg_snd_loop_wf:
  assumes "env_keeps msg_wf env" and "msg_wf s" and "mq_active (queues s i)" and "i < IPC_MAX_QUEUES"
    and "length (mtext m) = IPC_MAX_MSG_BYTES" and "count \<le> IPC_MAX_MSG_BYTES"
  shows "msg_wf (snd (msg_snd_loop i m count flag sender env s))"
proof -
  have A: "msg_wf (snd (msg_append i m count sender s))"
    if wf: "msg_wf s" and act: "mq_active (queues s i)" for s
  proof -
    obtain Q where inv: "msg_inv s Q" using wf by (auto simp: msg_wf_def)
    from msg_append_ok [OF inv assms(4) act assms(5,6), of sender] inv show ?thesis
      by (auto simp: msg_wf_def)
  qed
  show ?thesis
    using assms(1-3)
  proof (induction env arbitrary: s)
    case Nil
    with A show ?case by (auto simp: msg_snd_loop.simps split: prod.split) (metis snd_conv)
  next
    case (Cons e env)
    obtain rc f where e: "e = (rc, f)" by force
    with Cons.prems have "msg_wf (f s)" "env_keeps msg_wf env" by auto
    with Cons A [OF Cons.prems(2,3)] e show ?case
      by (auto simp: msg_snd_loop.simps [of i m count flag sender "(rc, f) # env"] Let_def split: prod.split)
  qed
qed

text \<open>One try of \<open>msg_rcv\<close> on a queue that has a matching message.\<close>

lemma msg_rcv_found:
  assumes inv: "msg_inv s Q" and i: "i < IPC_MAX_QUEUES" and Q: "Q i = as @ c # bs"
    and sel: "msg_select i type s = Some (Some c, lastp None as)"
    and fits: "msize (node_msg (node_pool s c)) \<le> maxcount \<or> has flag MSG_NOERROR"
  shows "\<exists>t. msg_rcv_loop i maxcount type flag receiver env s =
      Some (Returned (int (min maxcount (msize (node_msg (node_pool s c)))),
        Some \<lparr>mtype = mtype (node_msg (node_pool s c)),
          mtext = take (min maxcount (msize (node_msg (node_pool s c)))) (mtext (node_msg (node_pool s c))),
          msize = min maxcount (msize (node_msg (node_pool s c)))\<rparr>), t) \<and>
      msg_inv t (Q(i := as @ bs)) \<and> contents t (as @ bs) = contents s (as @ bs) \<and>
      msg_wakes t = msg_wakes s @ [MsgChan i]"
proof -
  have "c < MSG_NODE_POOL_SIZE" using msg_inv_used(2) [OF inv i, of c] Q by simp
  then have "msg_wakes (msg_take i c (lastp None as) receiver s) = msg_wakes s @ [MsgChan i]"
    by (rule msg_take_sel(9))
  with msg_take_ok [where r = receiver, OF inv i Q refl] sel fits show ?thesis
    by (auto simp: msg_rcv_loop.simps min_def Let_def)
qed

lemma msg_rcv_loop_wf:
  assumes "env_keeps msg_wf env" and "msg_wf s" and "mq_active (queues s i)" and "i < IPC_MAX_QUEUES"
  shows "\<exists>r t. msg_rcv_loop i maxcount type flag receiver env s = Some (r, t) \<and> msg_wf t"
  using assms(1-3)
proof (induction env arbitrary: s)
  have once: "(\<exists>cp. msg_select i type s = Some (None, cp)) \<or>
      (\<exists>r t. \<forall>env. msg_rcv_loop i maxcount type flag receiver env s = Some (r, t) \<and> msg_wf t)"
    if wf: "msg_wf s" and act: "mq_active (queues s i)" for s
  proof -
    obtain Q where inv: "msg_inv s Q" using wf by (auto simp: msg_wf_def)
    then have "sll (mnx s) (mq_first (queues s i)) (Q i)"
      using msg_invD(2) [OF inv assms(4) act] by (simp add: mq_ok_def)
    from msg_select_spec [OF this, of type] show ?thesis
    proof (elim disjE exE conjE)
      fix as c bs assume Q: "Q i = as @ c # bs"
        and sel: "msg_select i type s = Some (Some c, lastp None as)"
      show ?thesis
        using wf sel msg_take_ok(1) [OF inv assms(4) Q refl, of receiver]
        by (auto simp: msg_rcv_loop.simps Let_def msg_wf_def)
    qed auto
  qed
  {
    case Nil
    from once [OF Nil.prems(2,3)] show ?case
    proof
      assume "\<exists>cp. msg_select i type s = Some (None, cp)"
      with Nil.prems(2) show ?thesis by (auto simp: msg_rcv_loop.simps)
    qed blast
  next
    case (Cons e env)
    obtain rc f where e: "e = (rc, f)" by force
    with Cons.prems have f: "msg_wf (f s)" "env_keeps msg_wf env" by auto
    from once [OF Cons.prems(2,3)] show ?case
    proof
      assume "\<exists>cp. msg_select i type s = Some (None, cp)"
      with e f Cons.IH [of "f s"] Cons.prems show ?thesis
        by (auto simp: msg_rcv_loop.simps [of i maxcount type flag receiver "(rc, f) # env"] Let_def)
    qed blast
  }
qed

section \<open>A concrete queue\<close>

text \<open>Queue 0, key 5, holds messages of types 3, 7 and 9 in nodes 0, 1 and 2.\<close>

definition demo_msg :: "int \<Rightarrow> msg" where
  "demo_msg t = \<lparr>mtype = t, mtext = replicate IPC_MAX_MSG_BYTES 1, msize = 4\<rparr>"

definition demo_node :: "nat \<Rightarrow> msg_node" where
  "demo_node n = (if n = 0 then \<lparr>node_msg = demo_msg 3, node_next = Some 1\<rparr>
     else if n = 1 then \<lparr>node_msg = demo_msg 7, node_next = Some 2\<rparr>
     else if n = 2 then \<lparr>node_msg = demo_msg 9, node_next = None\<rparr> else zero_node)"

definition msg_demo :: msg_state where
  "msg_demo = \<lparr>node_pool = demo_node, node_used = (\<lambda>n. n < 3), pool_ready = True,
     queues = (\<lambda>i. if i = 0 then zero_queue\<lparr>mq_active := True,
          mq_perm := zero_perm\<lparr>perm_key := 5\<rparr>, mq_first := Some 0, mq_last := Some 2,
          msg_count := 3, msg_bytes := 12, msg_qbytes := IPC_MAX_QUEUE_BYTES\<rparr>
        else zero_queue), msg_wakes = [], msg_jiffies = 0\<rparr>"

definition demo_nodes :: "nat \<Rightarrow> nat list" where
  "demo_nodes i = (if i = 0 then [0, 1, 2] else [])"

lemma demo_inv: "msg_inv msg_demo demo_nodes"
proof -
  have "mq_ok msg_demo 0 [0, 1, 2]"
    by (simp add: mq_ok_def msg_demo_def demo_node_def demo_msg_def mnx_def lastp_def
        MSG_NODE_POOL_SIZE_def ipc_limits)
  moreover have "\<exists>i<IPC_MAX_QUEUES. n \<in> set (demo_nodes i)" if "n < 3" for n
    by (rule exI [of _ 0]) (use that in \<open>auto simp: demo_nodes_def ipc_limits\<close>)
  ultimately show ?thesis
    by (auto simp: msg_inv_def demo_nodes_def msg_demo_def zero_queue_def)
qed

lemma demo_queue:
  "mq_active (queues msg_demo 0)" "msg_bytes (queues msg_demo 0) = 12"
  "msg_qbytes (queues msg_demo 0) = 16384" "demo_nodes 0 = [0, 1, 2]"
  by (simp_all add: msg_demo_def demo_nodes_def ipc_limits)

section \<open>Properties\<close>

text \<open>\<open>msg_snd\<close> delivers. With room on a live queue and a free node in the pool it
  returns the byte count at once, the queue's contents are the old ones with exactly the
  sent type and bytes behind them, no other queue changes, the queue's readers are woken
  and the tables stay well formed.\<close>

theorem msg_snd_delivers:
  assumes inv: "msg_inv s Q" and id: "0 \<le> i" "i < int IPC_MAX_QUEUES"
    and act: "mq_active (queues s (nat i))"
    and m: "length (mtext m) = IPC_MAX_MSG_BYTES" "0 < count" "count \<le> IPC_MAX_MSG_BYTES"
    and room: "msg_bytes (queues s (nat i)) + count \<le> msg_qbytes (queues s (nat i))"
    and node: "n < MSG_NODE_POOL_SIZE" "\<not> node_used s n"
  shows "\<exists>k t. msg_snd i (Some m) count flag sender env s = (Returned (int count), t) \<and>
    msg_inv t (Q(nat i := Q (nat i) @ [k])) \<and>
    contents t (Q (nat i) @ [k]) = contents s (Q (nat i)) @ [(mtype m, take count (mtext m))] \<and>
    (\<forall>j<IPC_MAX_QUEUES. j \<noteq> nat i \<longrightarrow> contents t (Q j) = contents s (Q j)) \<and>
    msg_wakes t = msg_wakes s @ [MsgChan (nat i)]"
proof -
  have i: "nat i < IPC_MAX_QUEUES" using id by auto
  have "msg_snd i (Some m) count flag sender env s =
      (let (r, s) = msg_append (nat i) m count sender s in (Returned r, s))"
    using id act m room by (simp add: msg_snd_def msg_snd_loop.simps)
  with msg_append_ok [OF inv i act m(1,3), of sender] node show ?thesis by auto
qed

theorem msg_snd_delivers_witness:
  "\<exists>k t. msg_snd 0 (Some (demo_msg 5)) 4 0 None [] msg_demo = (Returned 4, t) \<and>
     contents t ([0, 1, 2] @ [k]) = contents msg_demo [0, 1, 2] @ [(5, [1, 1, 1, 1])]"
proof -
  have "take 4 (mtext (demo_msg 5)) = [1, 1, 1, 1]"
    by (simp add: demo_msg_def ipc_limits numeral_eq_Suc)
  then show ?thesis
    using msg_snd_delivers [OF demo_inv, of 0 "demo_msg 5" 4 3 0 None "[]"]
    by (auto simp: demo_queue) (auto simp: demo_msg_def ipc_limits MSG_NODE_POOL_SIZE_def msg_demo_def)
qed

text \<open>\<open>msg_rcv\<close> takes the message that the mode asks for: the first one (type 0), the
  first of the type (type > 0), or the first of the lowest type not above the bound
  (type < 0). If the message fits or \<open>MSG_NOERROR\<close> is set the caller gets its type and its
  bytes, cut at the size of the buffer; exactly that message leaves the queue, its node
  goes back to the pool and the queue's senders are woken.\<close>

theorem msg_rcv_takes_selected:
  assumes inv: "msg_inv s Q" and id: "0 \<le> i" "i < int IPC_MAX_QUEUES"
    and act: "mq_active (queues s (nat i))"
    and some: "x \<in> set (Q (nat i))" "matches type (ty (node_pool s) x)"
    and fits: "\<forall>c\<in>set (Q (nat i)). msize (node_msg (node_pool s c)) \<le> maxcount \<or> has flag MSG_NOERROR"
  shows "\<exists>as c bs m t. Q (nat i) = as @ c # bs \<and> selects type (node_pool s) as c bs \<and>
    m = node_msg (node_pool s c) \<and>
    msg_rcv i True maxcount type flag receiver env s =
      Some (Returned (int (min maxcount (msize m)), Some \<lparr>mtype = mtype m,
          mtext = take (min maxcount (msize m)) (mtext m), msize = min maxcount (msize m)\<rparr>), t) \<and>
    msg_inv t (Q(nat i := as @ bs)) \<and> contents t (as @ bs) = contents s (as @ bs) \<and>
    msg_wakes t = msg_wakes s @ [MsgChan (nat i)]"
proof -
  have i: "nat i < IPC_MAX_QUEUES" using id by auto
  have "sll (mnx s) (mq_first (queues s (nat i))) (Q (nat i))"
    using msg_invD(2) [OF inv i act] by (simp add: mq_ok_def)
  from msg_select_spec [OF this, of type] some
  obtain as c bs where Q: "Q (nat i) = as @ c # bs"
    and sel: "msg_select (nat i) type s = Some (Some c, lastp None as)"
    and s: "selects type (node_pool s) as c bs"
    by blast
  have "msize (node_msg (node_pool s c)) \<le> maxcount \<or> has flag MSG_NOERROR" using fits Q by auto
  from msg_rcv_found [OF inv i Q sel this, of receiver env] Q s id act
  show ?thesis by (auto simp: msg_rcv_def)
qed

theorem msg_rcv_takes_selected_witness:
  "\<exists>m t. msg_rcv 0 True 512 (- 8) 0 None [] msg_demo = Some (Returned (4, Some m), t) \<and> mtype m = 3"
proof -
  have fits: "\<forall>c\<in>set (demo_nodes (nat 0)). msize (node_msg (node_pool msg_demo c)) \<le> 512 \<or> has 0 MSG_NOERROR"
    by (auto simp: demo_nodes_def msg_demo_def demo_node_def demo_msg_def)
  have low: "c = 0 \<and> as = []" if "[0, 1, 2] = as @ c # bs" "selects (- 8) (node_pool msg_demo) as c bs"
    for as bs :: "nat list" and c :: nat
    using that by (cases as) (auto simp: selects_def matches_def msg_demo_def demo_node_def demo_msg_def
        Cons_eq_append_conv)
  have node0: "node_msg (node_pool msg_demo 0) = demo_msg 3"
    by (simp add: msg_demo_def demo_node_def)
  have "\<exists>as c bs m t. demo_nodes (nat 0) = as @ c # bs \<and> selects (- 8) (node_pool msg_demo) as c bs \<and>
    m = node_msg (node_pool msg_demo c) \<and>
    msg_rcv 0 True 512 (- 8) 0 None [] msg_demo =
      Some (Returned (int (min 512 (msize m)), Some \<lparr>mtype = mtype m,
          mtext = take (min 512 (msize m)) (mtext m), msize = min 512 (msize m)\<rparr>), t) \<and>
    msg_inv t (demo_nodes(nat 0 := as @ bs)) \<and> contents t (as @ bs) = contents msg_demo (as @ bs) \<and>
    msg_wakes t = msg_wakes msg_demo @ [MsgChan (nat 0)]"
    by (rule msg_rcv_takes_selected [OF demo_inv _ _ _ _ _ fits, where x = 0])
      (simp_all add: demo_queue ipc_limits node0 matches_def demo_msg_def)
  with low node0 show ?thesis by (fastforce simp: demo_queue demo_msg_def)
qed

text \<open>Sending to an empty queue leaves exactly one message there, holding the user's text.\<close>

lemma msg_snd_empty:
  assumes inv: "msg_inv s Q" and id: "0 \<le> i" "i < int IPC_MAX_QUEUES"
    and act: "mq_active (queues s (nat i))" and empty: "Q (nat i) = []"
    and m: "length (mtext m) = IPC_MAX_MSG_BYTES" "0 < count" "count \<le> IPC_MAX_MSG_BYTES"
    and room: "count \<le> msg_qbytes (queues s (nat i))"
    and node: "n < MSG_NODE_POOL_SIZE" "\<not> node_used s n"
  obtains k t where "msg_snd i (Some m) count flag sender env s = (Returned (int count), t)"
    "msg_inv t (Q(nat i := [k]))" "mq_active (queues t (nat i))"
    "node_msg (node_pool t k) = new_msg m count"
proof -
  have i: "nat i < IPC_MAX_QUEUES" using id by auto
  have "msg_bytes (queues s (nat i)) = 0"
    using msg_invD(2) [OF inv i act] empty by (simp add: mq_ok_def)
  then have snd: "msg_snd i (Some m) count flag sender env s =
      (let (r, s) = msg_append (nat i) m count sender s in (Returned r, s))"
    using id act m room by (simp add: msg_snd_def msg_snd_loop.simps)
  from node_alloc_ready [OF msg_invD(1) [OF inv i]] node obtain k where
    k: "k < MSG_NODE_POOL_SIZE" "\<not> node_used s k" "node_alloc s = (Some k,
       s\<lparr>node_pool := (node_pool s)(k := zero_node), node_used := (node_used s)(k := True)\<rparr>)"
    using msg_pool.alloc_None_iff [of s] by (auto simp: slot_used_def)
  from msg_append_linked [OF k(3)] obtain pid where eq: "msg_append (nat i) m count sender s =
    (int count, msg_wakeup (nat i) (upd_queue (nat i) (\<lambda>q. q\<lparr>mq_last := Some k,
       msg_count := msg_count q + 1, msg_bytes := msg_bytes q + count, last_send_pid := pid,
       snd_time := msg_jiffies s\<rparr>) (linked s (nat i) k m count)))" (is "_ = (_, ?t)") by blast
  have lst: "mq_last (queues s (nat i)) = None"
    using msg_invD(2) [OF inv i act] empty by (simp add: mq_ok_def lastp_def)
  from msg_append_ok [OF inv i act m(1,3), of sender] node obtain k' where
    inv': "msg_inv ?t (Q(nat i := Q (nat i) @ [k']))" unfolding eq by auto
  have act': "mq_active (queues ?t (nat i))" using act by (simp add: linked_sel)
  have "mq_ok ?t (nat i) [k']" using msg_invD(2) [OF inv' i act'] empty by (simp del: mupd_sel)
  then have l: "sll (mnx ?t) (mq_first (queues ?t (nat i))) [k']"
    unfolding mq_ok_def by (rule conjunct1)
  have "mq_first (queues ?t (nat i)) = Some k" using lst by (simp add: linked_def Let_def)
  with l have kk: "k' = k" by simp
  have new: "node_msg (node_pool ?t k) = new_msg m count" using lst by (simp add: linked_sel)
  show ?thesis
  proof (rule that [of ?t k])
    show "msg_snd i (Some m) count flag sender env s = (Returned (int count), ?t)"
      by (simp add: snd eq)
    show "msg_inv ?t (Q(nat i := [k]))" using inv' kk empty by simp
  qed (rule act' new)+
qed

text \<open>C30: a message sent to an empty queue is the one received from it: type and bytes come
  back unchanged and the queue is empty again, with every other queue as it was.\<close>

theorem msg_snd_rcv:
  assumes inv: "msg_inv s Q" and id: "0 \<le> i" "i < int IPC_MAX_QUEUES"
    and act: "mq_active (queues s (nat i))" and empty: "Q (nat i) = []"
    and m: "length (mtext m) = IPC_MAX_MSG_BYTES" "0 < count" "count \<le> IPC_MAX_MSG_BYTES"
    and room: "count \<le> msg_qbytes (queues s (nat i))"
    and node: "n < MSG_NODE_POOL_SIZE" "\<not> node_used s n"
    and buf: "count \<le> maxcount" and type: "matches type (mtype m)"
  shows "\<exists>t u. msg_snd i (Some m) count flag sender env s = (Returned (int count), t) \<and>
    msg_rcv i True maxcount type flag' receiver env' t = Some (Returned (int count,
      Some \<lparr>mtype = mtype m, mtext = take count (mtext m), msize = count\<rparr>), u) \<and> msg_inv u Q"
proof -
  have i: "nat i < IPC_MAX_QUEUES" using id by auto
  from msg_snd_empty [OF inv id act empty m room node, of flag sender env] obtain k t where
    snd: "msg_snd i (Some m) count flag sender env s = (Returned (int count), t)" and
    inv': "msg_inv t (Q(nat i := [k]))" and act': "mq_active (queues t (nat i))" and
    new: "node_msg (node_pool t k) = new_msg m count" .
  have nm: "mtype (new_msg m count) = mtype m" "msize (new_msg m count) = count"
    "take count (mtext (new_msg m count)) = take count (mtext m)" "min maxcount count = count"
    using m buf by (simp_all add: new_msg_def)
  have fits: "msize (node_msg (node_pool t k)) \<le> maxcount \<or> has flag' MSG_NOERROR"
    using new buf by (simp add: new_msg_def)
  have "mq_ok t (nat i) [k]" using msg_invD(2) [OF inv' i act'] by simp
  then have l: "sll (mnx t) (mq_first (queues t (nat i))) [k]"
    unfolding mq_ok_def by (rule conjunct1)
  have "matches type (ty (node_pool t) k)" unfolding new using type by (simp add: new_msg_def)
  with msg_select_spec [OF l, of type] have sel: "msg_select (nat i) type t = Some (Some k, lastp None [])"
    by (auto simp: Cons_eq_append_conv)
  have Q1: "(Q(nat i := [k])) (nat i) = [] @ k # []" by simp
  from msg_rcv_found [OF inv' i Q1 sel fits, of receiver env'] obtain u where
    "msg_rcv_loop (nat i) maxcount type flag' receiver env' t = Some (Returned (int count,
      Some \<lparr>mtype = mtype m, mtext = take count (mtext m), msize = count\<rparr>), u)"
    "msg_inv u (Q(nat i := []))"
    unfolding new nm fun_upd_upd append_Nil by blast
  moreover have "Q(nat i := []) = Q" using empty by auto
  ultimately show ?thesis using id act' by (simp add: snd msg_rcv_def)
qed

text \<open>The concrete queue after every message was taken off it.\<close>

definition msg_empty :: msg_state where
  "msg_empty = msg_demo\<lparr>node_used := (\<lambda>n. False),
     queues := (queues msg_demo)(0 := (queues msg_demo 0)\<lparr>mq_first := None, mq_last := None,
       msg_count := 0, msg_bytes := 0\<rparr>)\<rparr>"

lemma empty_inv: "msg_inv msg_empty (\<lambda>i. [])"
  by (auto simp: msg_inv_def msg_empty_def mq_ok_def msg_demo_def lastp_def zero_queue_def)

theorem msg_snd_rcv_witness:
  "\<exists>t u. msg_snd 0 (Some (demo_msg 5)) 4 0 None [] msg_empty = (Returned 4, t) \<and>
     msg_rcv 0 True 512 5 0 None [] t =
       Some (Returned (4, Some \<lparr>mtype = 5, mtext = take 4 (mtext (demo_msg 5)), msize = 4\<rparr>), u)"
  using msg_snd_rcv [OF empty_inv, of 0 "demo_msg 5" 4 0 512 5 0 None "[]" 0 None "[]"]
  by (auto simp: msg_empty_def msg_demo_def demo_msg_def ipc_limits matches_def
      MSG_NODE_POOL_SIZE_def)

text \<open>C21: \<open>msg_snd\<close> and \<open>msg_rcv\<close> keep the tables well formed through any number of sleeps
  during which the other processes do, and \<open>msg_rcv\<close>'s walks over the queue always end.\<close>

theorem msg_calls_wf:
  assumes "env_keeps msg_wf env" and "msg_wf s"
  shows "(length (mtext m) = IPC_MAX_MSG_BYTES \<longrightarrow>
      msg_wf (snd (msg_snd i (Some m) count flag pid env s))) \<and>
    (\<exists>r t. msg_rcv i out maxcount type flag pid env s = Some (r, t) \<and> msg_wf t)"
proof -
  have small: "nat i < IPC_MAX_QUEUES" if "\<not> (i < 0 \<or> int IPC_MAX_QUEUES \<le> i)"
    using that by auto
  have "msg_wf (snd (msg_snd i (Some m) count flag pid env s))"
    if "length (mtext m) = IPC_MAX_MSG_BYTES"
    using msg_snd_loop_wf [OF assms _ small that] assms(2) by (simp add: msg_snd_def)
  moreover have "\<exists>r t. msg_rcv i out maxcount type flag pid env s = Some (r, t) \<and> msg_wf t"
    using msg_rcv_loop_wf [OF assms _ small] assms(2) by (simp add: msg_rcv_def)
  ultimately show ?thesis by blast
qed

theorem msg_calls_wf_witness:
  "\<exists>r t. msg_rcv 0 True 512 4 0 None [(0, \<lambda>s. msg_empty)] msg_demo = Some (r, t) \<and> msg_wf t"
proof -
  have "msg_wf msg_demo" "msg_wf msg_empty" using demo_inv empty_inv by (auto simp: msg_wf_def)
  then show ?thesis using msg_calls_wf [of "[(0, \<lambda>s. msg_empty)]" msg_demo] by auto
qed

text \<open>\<open>IPC_RMID\<close> frees a queue completely: the drain loop ends, exactly the queue's nodes
  go back to the pool, the descriptor is dead, both kinds of waiter are woken, and the
  other queues keep their messages.\<close>

theorem msg_rmid_frees:
  assumes "msg_inv s Q" and "0 \<le> i" and "i < int IPC_MAX_QUEUES"
    and "mq_active (queues s (nat i))"
  shows "\<exists>t. msg_ctl i IPC_RMID buf s = Some (0, buf, t) \<and> msg_inv t (Q(nat i := [])) \<and>
    \<not> mq_active (queues t (nat i)) \<and>
    (\<forall>n. node_used t n \<longleftrightarrow> node_used s n \<and> n \<notin> set (Q (nat i))) \<and>
    msg_wakes t = msg_wakes s @ [MsgChan (nat i), MsgChan (nat i)] \<and>
    (\<forall>j<IPC_MAX_QUEUES. j \<noteq> nat i \<longrightarrow> contents t (Q j) = contents s (Q j))"
proof -
  have "nat i < IPC_MAX_QUEUES" using assms by auto
  from msg_rmid_ok [OF assms(1) this assms(4)] assms(2-4) show ?thesis
    by (auto simp: msg_ctl_def IPC_RMID_def IPC_SET_def IPC_STAT_def)
qed

theorem msg_rmid_frees_witness:
  "\<exists>t. msg_ctl 0 IPC_RMID None msg_demo = Some (0, None, t) \<and> (\<forall>n. \<not> node_used t n)"
proof -
  have "node_used msg_demo n \<longleftrightarrow> n \<in> set (demo_nodes 0)" for n
    by (auto simp: msg_demo_def demo_nodes_def)
  with msg_rmid_frees [OF demo_inv, of 0 None] show ?thesis
    by (auto simp: demo_queue ipc_limits)
qed

text \<open>The failing calls change nothing. A receive that finds no match with
  \<open>IPC_NOWAIT\<close>, or finds a message larger than the buffer without \<open>MSG_NOERROR\<close>, and a send
  with \<open>IPC_NOWAIT\<close> that finds no room or that asks for more than 512 bytes or none, return
  -1 with the state as it was: the message too large stays on the queue.\<close>

theorem msg_errors_change_nothing:
  assumes inv: "msg_inv s Q" and id: "0 \<le> i" "i < int IPC_MAX_QUEUES"
    and act: "mq_active (queues s (nat i))"
  shows "((\<forall>x\<in>set (Q (nat i)). \<not> matches type (ty (node_pool s) x)) \<and> has flag IPC_NOWAIT \<longrightarrow>
      msg_rcv i True maxcount type flag pid env s = Some (Returned (- 1, None), s)) \<and>
    ((\<exists>x\<in>set (Q (nat i)). matches type (ty (node_pool s) x)) \<and>
     (\<forall>x\<in>set (Q (nat i)). maxcount < msize (node_msg (node_pool s x))) \<and> \<not> has flag MSG_NOERROR \<longrightarrow>
      msg_rcv i True maxcount type flag pid env s = Some (Returned (- 1, None), s)) \<and>
    (msg_qbytes (queues s (nat i)) < msg_bytes (queues s (nat i)) + count \<and> has flag IPC_NOWAIT \<or>
     IPC_MAX_MSG_BYTES < count \<or> count = 0 \<longrightarrow>
      msg_snd i m count flag pid env s = (Returned (- 1), s))"
proof -
  have i: "nat i < IPC_MAX_QUEUES" using id by auto
  have "sll (mnx s) (mq_first (queues s (nat i))) (Q (nat i))"
    using msg_invD(2) [OF inv i act] by (simp add: mq_ok_def)
  note sel = msg_select_spec [OF this, of type]
  have none: "\<exists>cp. msg_select (nat i) type s = Some (None, cp)"
    if "\<forall>x\<in>set (Q (nat i)). \<not> matches type (ty (node_pool s) x)"
    using sel that by (auto simp: selects_def)
  have some: "\<exists>c cp. msg_select (nat i) type s = Some (Some c, cp) \<and> c \<in> set (Q (nat i))"
    if "\<exists>x\<in>set (Q (nat i)). matches type (ty (node_pool s) x)"
    using sel that by auto
  have "msg_rcv i True maxcount type flag pid env s = Some (Returned (- 1, None), s)"
    if "\<forall>x\<in>set (Q (nat i)). \<not> matches type (ty (node_pool s) x)" "has flag IPC_NOWAIT"
    using none [OF that(1)] that(2) id act by (auto simp: msg_rcv_def msg_rcv_loop.simps)
  moreover have "msg_rcv i True maxcount type flag pid env s = Some (Returned (- 1, None), s)"
    if "\<exists>x\<in>set (Q (nat i)). matches type (ty (node_pool s) x)"
      "\<forall>x\<in>set (Q (nat i)). maxcount < msize (node_msg (node_pool s x))" "\<not> has flag MSG_NOERROR"
    using some [OF that(1)] that(2,3) id act by (auto simp: msg_rcv_def msg_rcv_loop.simps Let_def)
  ultimately show ?thesis
    using id act by (auto simp: msg_snd_def msg_snd_loop.simps)
qed

theorem msg_errors_change_nothing_witness:
  "msg_rcv 0 True 2 0 0 None [] msg_demo = Some (Returned (- 1, None), msg_demo)"
proof -
  have "\<forall>x\<in>set (demo_nodes (nat 0)). 2 < msize (node_msg (node_pool msg_demo x))"
    by (auto simp: demo_nodes_def msg_demo_def demo_node_def demo_msg_def)
  moreover have "\<exists>x\<in>set (demo_nodes (nat 0)). matches 0 (ty (node_pool msg_demo) x)"
    by (auto simp: demo_nodes_def matches_def)
  moreover have "\<not> has 0 MSG_NOERROR" by (simp add: has_def)
  moreover have "mq_active (queues msg_demo (nat 0))" by (simp add: demo_queue)
  ultimately show ?thesis
    using msg_errors_change_nothing [OF demo_inv, of 0 0 0 2 None "[]"] by (simp add: ipc_limits)
qed

end
