(* ===== verification/Shm.thy ===== *)
theory Shm
  imports Ipc
begin

text \<open>
  Shared memory (\<open>33_PCS/00_IPC/src/uiox_kix_shm.c\<close>): regions by key, backing store that is
  claimed at the first attach without an address hint, the caller's table of attachments,
  detach and removal.  Addresses are 64-bit words; \<open>shm_base\<close> is where \<open>s_shm_pool\<close> lies.
\<close>

record shm_region =
  rg_perm :: ipc_perm
  rg_size :: nat
  rg_mem :: u64
  attach_count :: int
  rg_active :: bool
  mem_allocated :: bool
  rg_atime :: u64
  rg_dtime :: u64
  rg_ctime :: u64
  creator_pid :: int
  rg_last_pid :: int

definition zero_region :: shm_region where
  "zero_region = \<lparr>rg_perm = zero_perm, rg_size = 0, rg_mem = 0, attach_count = 0,
     rg_active = False, mem_allocated = False, rg_atime = 0, rg_dtime = 0, rg_ctime = 0,
     creator_pid = 0, rg_last_pid = 0\<rparr>"

record shm_attach =
  at_shmid :: int
  at_va :: u64
  at_rdonly :: bool
  at_active :: bool

record shm_state =
  regions :: "nat \<Rightarrow> shm_region"
  shm_pool :: "nat \<Rightarrow> nat \<Rightarrow> u8"
  shm_pool_used :: "nat \<Rightarrow> bool"
  shm_base :: u64
  shm_jiffies :: u64

text \<open>The caller's \<open>attaches[]\<close> and \<open>*attach_count\<close>.\<close>

record shm_table =
  attaches :: "nat \<Rightarrow> shm_attach"
  at_count :: nat

definition MAX_SHM_ATTACHES :: nat where "MAX_SHM_ATTACHES = 8"
definition SHM_RDONLY :: u32 where "SHM_RDONLY = 0x1000"
definition SHM_PAGE_SIZE :: u64 where "SHM_PAGE_SIZE = 4096"

definition pool_va :: "shm_state \<Rightarrow> nat \<Rightarrow> u64" where
  "pool_va s i = shm_base s + of_nat (i * IPC_MAX_SHM_SIZE)"

definition upd_region :: "nat \<Rightarrow> (shm_region \<Rightarrow> shm_region) \<Rightarrow> shm_state \<Rightarrow> shm_state" where
  "upd_region i f s = s\<lparr>regions := (regions s)(i := f (regions s i))\<rparr>"

lemma upd_region_sel [simp]:
  "regions (upd_region i f s) = (regions s)(i := f (regions s i))"
  "shm_pool (upd_region i f s) = shm_pool s" "shm_pool_used (upd_region i f s) = shm_pool_used s"
  "shm_base (upd_region i f s) = shm_base s" "shm_jiffies (upd_region i f s) = shm_jiffies s"
  by (simp_all add: upd_region_def)

section \<open>Backing store\<close>

definition shm_mem_alloc :: "nat \<Rightarrow> nat \<Rightarrow> shm_state \<Rightarrow> u64 \<times> shm_state" where
  "shm_mem_alloc slot sz s =
     (if IPC_MAX_SHM \<le> slot then (0, s)
      else if sz = 0 \<or> IPC_MAX_SHM_SIZE < sz then (0, s)
      else if shm_pool_used s slot then (0, s)
      else (pool_va s slot, s\<lparr>shm_pool_used := (shm_pool_used s)(slot := True),
              shm_pool := (shm_pool s)(slot := (\<lambda>k. if k < sz then 0 else shm_pool s slot k))\<rparr>))"

definition shm_mem_free :: "nat \<Rightarrow> shm_state \<Rightarrow> shm_state" where
  "shm_mem_free slot s =
     (if IPC_MAX_SHM \<le> slot then s
      else s\<lparr>shm_pool := (shm_pool s)(slot := (\<lambda>k. if k < IPC_MAX_SHM_SIZE then 0 else shm_pool s slot k)),
             shm_pool_used := (shm_pool_used s)(slot := False)\<rparr>)"

section \<open>Operations\<close>

definition shm_init :: "shm_state \<Rightarrow> shm_state" where
  "shm_init s = s\<lparr>regions := (\<lambda>i. if i < IPC_MAX_SHM then zero_region else regions s i),
     shm_pool_used := (\<lambda>i. if i < IPC_MAX_SHM then False else shm_pool_used s i)\<rparr>"

definition shm_get :: "int \<Rightarrow> nat \<Rightarrow> u32 \<Rightarrow> shm_state \<Rightarrow> int \<times> shm_state" where
  "shm_get k sz flag s =
     (case first_idx (\<lambda>i. rg_active (regions s i) \<and> perm_key (rg_perm (regions s i)) = k) IPC_MAX_SHM of
        Some i \<Rightarrow> if has flag IPC_EXCL then (- 1, s) else (int i, s)
      | None \<Rightarrow>
          if \<not> has flag IPC_CREAT then (- 1, s)
          else if sz = 0 \<or> IPC_MAX_SHM_SIZE < sz then (- 1, s)
          else
            (case first_idx (\<lambda>i. \<not> rg_active (regions s i)) IPC_MAX_SHM of
               Some i \<Rightarrow>
                 (int i, upd_region i (\<lambda>r. r\<lparr>rg_active := True,
                    rg_perm := (rg_perm r)\<lparr>perm_key := k, perm_mode := flag_mode flag\<rparr>,
                    rg_size := sz, rg_mem := 0, mem_allocated := False, attach_count := 0,
                    rg_ctime := shm_jiffies s\<rparr>) s)
             | None \<Rightarrow> (- 1, s)))"

text \<open>The last part of \<open>shm_at\<close>: record the attachment at \<open>va\<close>.\<close>

definition shm_record :: "int \<Rightarrow> u64 \<Rightarrow> u32 \<Rightarrow> shm_table \<Rightarrow> shm_state \<Rightarrow> u64 \<times> shm_table \<times> shm_state"
where
  "shm_record shmid va flags tb s =
     (va,
      tb\<lparr>attaches := (attaches tb)(at_count tb := \<lparr>at_shmid = shmid, at_va = va,
           at_rdonly = has flags SHM_RDONLY, at_active = True\<rparr>), at_count := at_count tb + 1\<rparr>,
      upd_region (nat shmid) (\<lambda>r. r\<lparr>attach_count := attach_count r + 1, rg_atime := shm_jiffies s,
        rg_last_pid := 0\<rparr>) s)"

definition shm_at :: "int \<Rightarrow> u64 \<Rightarrow> u32 \<Rightarrow> shm_table \<Rightarrow> shm_state \<Rightarrow> u64 \<times> shm_table \<times> shm_state"
where
  "shm_at shmid va_hint flags tb s =
     (if shmid < 0 \<or> int IPC_MAX_SHM \<le> shmid then (0, tb, s)
      else if \<not> rg_active (regions s (nat shmid)) then (0, tb, s)
      else if MAX_SHM_ATTACHES \<le> at_count tb then (0, tb, s)
      else if va_hint \<noteq> 0 then shm_record shmid (va_hint AND NOT (SHM_PAGE_SIZE - 1)) flags tb s
      else if \<not> mem_allocated (regions s (nat shmid)) then
        (let (mem, s) = shm_mem_alloc (nat shmid) (rg_size (regions s (nat shmid))) s;
             s = upd_region (nat shmid) (\<lambda>r. r\<lparr>rg_mem := mem\<rparr>) s
         in if mem = 0 then (0, tb, s)
            else shm_record shmid mem flags tb
                   (upd_region (nat shmid) (\<lambda>r. r\<lparr>mem_allocated := True\<rparr>) s))
      else shm_record shmid (rg_mem (regions s (nat shmid))) flags tb s)"

definition shm_dt :: "u64 \<Rightarrow> shm_table \<Rightarrow> shm_state \<Rightarrow> int \<times> shm_table \<times> shm_state" where
  "shm_dt va tb s =
     (case first_idx (\<lambda>i. at_active (attaches tb i) \<and> at_va (attaches tb i) = va) (at_count tb) of
        None \<Rightarrow> (- 1, tb, s)
      | Some i \<Rightarrow>
          (let shmid = at_shmid (attaches tb i);
               tb = tb\<lparr>attaches := (attaches tb)(i := (attaches tb i)\<lparr>at_active := False\<rparr>)\<rparr>
           in if 0 \<le> shmid \<and> shmid < int IPC_MAX_SHM
              then (0, tb, upd_region (nat shmid)
                     (\<lambda>r. r\<lparr>attach_count := (if 0 < attach_count r then attach_count r - 1
                                            else attach_count r), rg_dtime := shm_jiffies s\<rparr>) s)
              else (0, tb, s)))"

definition shm_rmid :: "nat \<Rightarrow> shm_state \<Rightarrow> shm_state" where
  "shm_rmid i s =
     (let s = (if mem_allocated (regions s i)
               then upd_region i (\<lambda>r. r\<lparr>rg_mem := 0, mem_allocated := False\<rparr>) (shm_mem_free i s)
               else s)
      in upd_region i (\<lambda>r. zero_region) s)"

definition shm_ctl :: "int \<Rightarrow> int \<Rightarrow> shm_region option \<Rightarrow> shm_state
    \<Rightarrow> int \<times> shm_region option \<times> shm_state" where
  "shm_ctl shmid cmd buf s =
     (if shmid < 0 \<or> int IPC_MAX_SHM \<le> shmid then (- 1, buf, s)
      else
        (let i = nat shmid; r = regions s i in
         if \<not> rg_active r then (- 1, buf, s)
         else if cmd = IPC_STAT then (0, (case buf of None \<Rightarrow> None | Some b \<Rightarrow> Some r), s)
         else if cmd = IPC_SET then
           (0, buf,
            (case buf of
               None \<Rightarrow> s
             | Some b \<Rightarrow> upd_region i (\<lambda>r. r\<lparr>rg_perm := (rg_perm r)\<lparr>perm_mode := perm_mode (rg_perm b)\<rparr>,
                  rg_ctime := shm_jiffies s\<rparr>) s))
         else if cmd = IPC_RMID then (0, buf, shm_rmid i s)
         else (- 1, buf, s)))"

section \<open>The table of regions is a table of named objects\<close>

definition shm_live :: "shm_state \<Rightarrow> nat \<Rightarrow> bool" where
  "shm_live s i = rg_active (regions s i)"

definition shm_key :: "shm_state \<Rightarrow> nat \<Rightarrow> int" where
  "shm_key s i = perm_key (rg_perm (regions s i))"

lemma shm_mem_free_sel [simp]:
  "regions (shm_mem_free i s) = regions s" "shm_base (shm_mem_free i s) = shm_base s"
  by (simp_all add: shm_mem_free_def)

lemma shm_rmid_regions: "regions (shm_rmid i s) = (regions s)(i := zero_region)"
  by (simp add: shm_rmid_def Let_def)

interpretation shm_table: key_table IPC_MAX_SHM shm_live shm_key
  "\<lambda>sz. 0 < sz \<and> sz \<le> IPC_MAX_SHM_SIZE" shm_get "\<lambda>s. True" "\<lambda>i s. Some (shm_rmid i s)"
proof
  show "shm_get k a f s = (if has f IPC_EXCL then - 1 else int i, s)"
    if "first_idx (\<lambda>i. shm_live s i \<and> shm_key s i = k) IPC_MAX_SHM = Some i" for s k i a f
    using that by (simp add: shm_get_def shm_live_def shm_key_def)
  show "shm_get k a f s = (- 1, s)"
    if "first_idx (\<lambda>i. shm_live s i \<and> shm_key s i = k) IPC_MAX_SHM = None"
      "\<not> has f IPC_CREAT \<or> \<not> (0 < a \<and> a \<le> IPC_MAX_SHM_SIZE) \<or>
       first_idx (\<lambda>i. \<not> shm_live s i) IPC_MAX_SHM = None" for s k f a
    using that by (auto simp: shm_get_def shm_live_def shm_key_def)
  show "\<exists>t. shm_get k a f s = (int i, t) \<and> shm_live t = (shm_live s)(i := True) \<and>
      shm_key t = (shm_key s)(i := k)"
    if "first_idx (\<lambda>i. shm_live s i \<and> shm_key s i = k) IPC_MAX_SHM = None"
      "has f IPC_CREAT" "0 < a \<and> a \<le> IPC_MAX_SHM_SIZE"
      "first_idx (\<lambda>i. \<not> shm_live s i) IPC_MAX_SHM = Some i" for s k f a i
    using that by (auto simp: shm_get_def shm_live_def shm_key_def fun_eq_iff)
  show "\<exists>t. Some (shm_rmid i s) = Some t \<and> True \<and> shm_live t = (shm_live s)(i := False) \<and>
      (\<forall>j. j \<noteq> i \<longrightarrow> shm_key t j = shm_key s j)" for i s
    by (auto simp: shm_rmid_regions shm_live_def shm_key_def zero_region_def fun_eq_iff)
qed

section \<open>The invariant\<close>

text \<open>Only a live region owns its slot of the store, and its address is that slot's.\<close>

definition shm_inv :: "shm_state \<Rightarrow> bool" where
  "shm_inv s \<longleftrightarrow> (\<forall>i<IPC_MAX_SHM. pool_va s i \<noteq> 0 \<and> 0 \<le> attach_count (regions s i) \<and>
     (shm_pool_used s i \<longleftrightarrow> mem_allocated (regions s i)) \<and>
     (mem_allocated (regions s i) \<longrightarrow> rg_active (regions s i) \<and> rg_mem (regions s i) = pool_va s i) \<and>
     (rg_active (regions s i) \<longrightarrow> 0 < rg_size (regions s i) \<and> rg_size (regions s i) \<le> IPC_MAX_SHM_SIZE))"

lemma shm_invD:
  assumes "shm_inv s" and "i < IPC_MAX_SHM"
  shows "pool_va s i \<noteq> 0" and "0 \<le> attach_count (regions s i)"
    and "shm_pool_used s i \<longleftrightarrow> mem_allocated (regions s i)"
    and "mem_allocated (regions s i) \<Longrightarrow> rg_active (regions s i) \<and> rg_mem (regions s i) = pool_va s i"
    and "rg_active (regions s i) \<Longrightarrow> 0 < rg_size (regions s i) \<and> rg_size (regions s i) \<le> IPC_MAX_SHM_SIZE"
  using assms by (auto simp: shm_inv_def)

lemma pool_va_upd [simp]: "pool_va (upd_region i f s) j = pool_va s j"
  by (simp add: pool_va_def)

text \<open>An operation on region \<open>i\<close> alone.\<close>

lemma shm_invI:
  assumes "shm_inv s" and base: "shm_base t = shm_base s"
    and other: "\<And>j. j < IPC_MAX_SHM \<Longrightarrow> j \<noteq> i \<Longrightarrow>
      regions t j = regions s j \<and> shm_pool_used t j = shm_pool_used s j"
    and own: "i < IPC_MAX_SHM \<Longrightarrow> 0 \<le> attach_count (regions t i) \<and>
      (shm_pool_used t i \<longleftrightarrow> mem_allocated (regions t i)) \<and>
      (mem_allocated (regions t i) \<longrightarrow> rg_active (regions t i) \<and> rg_mem (regions t i) = pool_va s i) \<and>
      (rg_active (regions t i) \<longrightarrow> 0 < rg_size (regions t i) \<and> rg_size (regions t i) \<le> IPC_MAX_SHM_SIZE)"
  shows "shm_inv t"
  unfolding shm_inv_def
proof (intro allI impI)
  fix j assume j: "j < IPC_MAX_SHM"
  have pv: "pool_va t j = pool_va s j" by (simp add: pool_va_def base)
  show "pool_va t j \<noteq> 0 \<and> 0 \<le> attach_count (regions t j) \<and>
      (shm_pool_used t j \<longleftrightarrow> mem_allocated (regions t j)) \<and>
      (mem_allocated (regions t j) \<longrightarrow> rg_active (regions t j) \<and> rg_mem (regions t j) = pool_va t j) \<and>
      (rg_active (regions t j) \<longrightarrow> 0 < rg_size (regions t j) \<and> rg_size (regions t j) \<le> IPC_MAX_SHM_SIZE)"
  proof (cases "j = i")
    case True
    with own j shm_invD(1) [OF assms(1) j] pv show ?thesis by simp
  next
    case False
    with shm_invD [OF assms(1) j] other [OF j False] pv show ?thesis by simp
  qed
qed

lemma shm_record_sel:
  assumes "shm_record shmid va flags tb s = (v, tb', t)"
  shows "v = va" and "at_count tb' = at_count tb + 1"
    and "regions t = (regions s)(nat shmid := (regions s (nat shmid))\<lparr>attach_count :=
      attach_count (regions s (nat shmid)) + 1, rg_atime := shm_jiffies s, rg_last_pid := 0\<rparr>)"
    and "shm_pool t = shm_pool s" and "shm_pool_used t = shm_pool_used s" and "shm_base t = shm_base s"
  using assms by (auto simp: shm_record_def)

lemma shm_record_inv:
  assumes "shm_inv s" and "shm_record shmid va flags tb s = (v, tb', t)" and "nat shmid < IPC_MAX_SHM"
  shows "shm_inv t"
  by (rule shm_invI [OF assms(1), of _ "nat shmid"])
    (use shm_record_sel [OF assms(2)] shm_invD [OF assms(1,3)] in auto)

text \<open>The state just before \<open>shm_at\<close> without a hint records the attachment.\<close>

definition shm_claimed :: "nat \<Rightarrow> shm_state \<Rightarrow> shm_state" where
  "shm_claimed i s =
     (if mem_allocated (regions s i) then s
      else s\<lparr>shm_pool_used := (shm_pool_used s)(i := True),
             shm_pool := (shm_pool s)(i := (\<lambda>k. if k < rg_size (regions s i) then 0 else shm_pool s i k)),
             regions := (regions s)(i := (regions s i)\<lparr>rg_mem := pool_va s i, mem_allocated := True\<rparr>)\<rparr>)"

lemma shm_claimed_inv: "shm_inv s \<Longrightarrow> i < IPC_MAX_SHM \<Longrightarrow> rg_active (regions s i) \<Longrightarrow> shm_inv (shm_claimed i s)"
  by (rule shm_invI [of s _ i]) (auto simp: shm_claimed_def dest: shm_invD)

lemma shm_at_nohint:
  assumes inv: "shm_inv s" and i: "i < IPC_MAX_SHM" and act: "rg_active (regions s i)"
    and room: "at_count tb < MAX_SHM_ATTACHES"
  shows "shm_at (int i) 0 flags tb s = shm_record (int i) (pool_va s i) flags tb (shm_claimed i s)"
  using assms shm_invD [OF inv i]
  by (auto simp: shm_at_def shm_claimed_def shm_mem_alloc_def upd_region_def)

lemma shm_at_inv:
  assumes inv: "shm_inv s"
  shows "shm_inv (snd (snd (shm_at shmid hint flags tb s)))"
proof -
  let ?i = "nat shmid"
  have rec: "shm_inv (snd (snd (shm_record shmid va flags tb t)))" if "shm_inv t" "?i < IPC_MAX_SHM" for va t
    using shm_record_inv [OF that(1) _ that(2)] by (metis prod.collapse)
  show ?thesis
  proof (cases "0 \<le> shmid \<and> shmid < int IPC_MAX_SHM \<and> rg_active (regions s ?i) \<and> at_count tb < MAX_SHM_ATTACHES")
    case True
    then have i: "?i < IPC_MAX_SHM" "int ?i = shmid" by auto
    show ?thesis
    proof (cases "hint = 0")
      case True
      with shm_at_nohint [OF inv i(1), of tb flags] i \<open>0 \<le> shmid \<and> _\<close>
        rec [OF shm_claimed_inv [OF inv i(1)] i(1)] show ?thesis by simp
    next
      case False
      with rec [OF inv i(1)] \<open>0 \<le> shmid \<and> _\<close> show ?thesis by (simp add: shm_at_def)
    qed
  next
    case False
    with inv show ?thesis by (auto simp: shm_at_def)
  qed
qed

lemma shm_dt_inv: "shm_inv s \<Longrightarrow> shm_inv (snd (snd (shm_dt va tb s)))"
proof -
  assume inv: "shm_inv s"
  have "shm_inv (upd_region (nat j) (\<lambda>r. r\<lparr>attach_count := (if 0 < attach_count r then attach_count r - 1
      else attach_count r), rg_dtime := shm_jiffies s\<rparr>) s)" for j
    by (rule shm_invI [OF inv, of _ "nat j"]) (use shm_invD [OF inv, of "nat j"] in auto)
  with inv show ?thesis by (auto simp: shm_dt_def Let_def split: option.split)
qed

lemma shm_rmid_inv: "shm_inv s \<Longrightarrow> shm_inv (shm_rmid i s)"
  by (rule shm_invI [of s _ i])
    (auto simp: shm_rmid_regions zero_region_def,
     auto simp: shm_rmid_def shm_mem_free_def Let_def dest: shm_invD split: if_splits)

lemma shm_get_inv: "shm_inv s \<Longrightarrow> shm_inv (snd (shm_get k sz flag s))"
proof -
  assume inv: "shm_inv s"
  have "shm_inv (upd_region i (\<lambda>r. r\<lparr>rg_active := True,
        rg_perm := (rg_perm r)\<lparr>perm_key := k, perm_mode := flag_mode flag\<rparr>,
        rg_size := sz, rg_mem := 0, mem_allocated := False, attach_count := 0,
        rg_ctime := shm_jiffies s\<rparr>) s)"
    if "\<not> rg_active (regions s i)" "\<not> (sz = 0 \<or> IPC_MAX_SHM_SIZE < sz)" for i
    by (rule shm_invI [OF inv, of _ i]) (use that shm_invD [OF inv, of i] in auto)
  with inv first_idx_SomeD(2) [of "\<lambda>i. \<not> rg_active (regions s i)"] show ?thesis
    by (fastforce simp: shm_get_def split: option.split)
qed

section \<open>A concrete region\<close>

definition shm_blank :: shm_state where
  "shm_blank = \<lparr>regions = (\<lambda>i. zero_region), shm_pool = (\<lambda>i k. 0xFF), shm_pool_used = (\<lambda>i. False),
     shm_base = 0x100000, shm_jiffies = 3\<rparr>"

text \<open>Region 0 of 100 bytes, never attached.\<close>

definition shm_demo :: shm_state where
  "shm_demo = upd_region 0 (\<lambda>r. r\<lparr>rg_active := True, rg_perm := zero_perm\<lparr>perm_key := 5\<rparr>,
     rg_size := 100\<rparr>) shm_blank"

definition no_attaches :: shm_table where
  "no_attaches = \<lparr>attaches = (\<lambda>i. \<lparr>at_shmid = 0, at_va = 0, at_rdonly = False, at_active = False\<rparr>),
     at_count = 0\<rparr>"

lemma shm_blank_va: "i < IPC_MAX_SHM \<Longrightarrow> pool_va shm_blank i \<noteq> 0"
proof -
  assume i: "i < IPC_MAX_SHM"
  then have "0x100000 + i * 65536 < (2 :: nat) ^ 64" by (simp add: ipc_limits)
  then have "\<not> (2 :: nat) ^ 64 dvd 0x100000 + i * 65536" by (intro nat_dvd_not_less) simp_all
  moreover have "pool_va shm_blank i = of_nat (0x100000 + i * 65536)"
    by (simp add: pool_va_def shm_blank_def ipc_limits)
  ultimately show ?thesis by (simp add: word_of_nat_eq_0_iff del: of_nat_add of_nat_mult)
qed

lemma shm_demo_inv: "shm_inv shm_demo"
proof (rule shm_invI [of shm_blank _ 0])
  show "shm_inv shm_blank"
    using shm_blank_va by (simp add: shm_inv_def) (simp add: shm_blank_def zero_region_def)
qed (auto simp: shm_demo_def shm_blank_def zero_region_def ipc_limits)

lemma shm_demo_sel: "rg_active (regions shm_demo 0)" "\<not> mem_allocated (regions shm_demo 0)"
  "rg_size (regions shm_demo 0) = 100" "at_count no_attaches = 0"
  by (simp_all add: shm_demo_def shm_blank_def zero_region_def no_attaches_def)

section \<open>Properties\<close>

text \<open>Attaching without a hint gives the region's own slot of the store. The first attach
  claims the slot and hands it out zero-filled over the region's size; a later one gives
  the same address and leaves every byte as it is; no other slot's bytes change.\<close>

theorem shm_attach_storage:
  assumes "shm_inv s" and "i < IPC_MAX_SHM" and "rg_active (regions s i)"
    and "at_count tb < MAX_SHM_ATTACHES"
  shows "\<exists>tb' t. shm_at (int i) 0 flags tb s = (pool_va s i, tb', t) \<and> pool_va s i \<noteq> 0 \<and> shm_inv t \<and>
    at_count tb' = at_count tb + 1 \<and> attach_count (regions t i) = attach_count (regions s i) + 1 \<and>
    (\<forall>k<rg_size (regions s i). shm_pool t i k =
       (if mem_allocated (regions s i) then shm_pool s i k else 0)) \<and>
    (\<forall>j. j \<noteq> i \<longrightarrow> shm_pool t j = shm_pool s j)"
proof -
  obtain v tb' t where r: "shm_record (int i) (pool_va s i) flags tb (shm_claimed i s) = (v, tb', t)"
    by (metis prod.collapse)
  note sel = shm_record_sel [OF r]
  have "shm_inv t"
    using shm_record_inv [OF shm_claimed_inv [OF assms(1-3)] r] assms(2) by simp
  moreover have "attach_count (regions t i) = attach_count (regions s i) + 1"
    by (simp add: sel shm_claimed_def)
  moreover have "\<forall>k<rg_size (regions s i). shm_pool t i k =
       (if mem_allocated (regions s i) then shm_pool s i k else 0)"
    by (simp add: sel shm_claimed_def)
  moreover have "\<forall>j. j \<noteq> i \<longrightarrow> shm_pool t j = shm_pool s j"
    by (simp add: sel shm_claimed_def)
  ultimately show ?thesis
    using shm_at_nohint [OF assms, of flags] r sel(1,2) shm_invD(1) [OF assms(1,2)] by simp
qed

theorem shm_attach_storage_witness:
  "\<exists>tb t. shm_at 0 0 0 no_attaches shm_demo = (0x100000, tb, t) \<and> shm_pool t 0 99 = 0"
proof -
  have "pool_va shm_demo 0 = 0x100000" by (simp add: pool_va_def shm_demo_def shm_blank_def)
  with shm_attach_storage [OF shm_demo_inv, of 0 no_attaches 0] show ?thesis
    by (auto simp: shm_demo_sel ipc_limits MAX_SHM_ATTACHES_def)
qed

text \<open>A detach keeps the data. It lowers the count of the region it finds (never below
  zero) and touches no byte of the store, no region's life and no storage, so a later
  attach of the region finds the same address and the same bytes.\<close>

theorem shm_detach_keeps_data:
  assumes "shm_dt va tb s = (r, tb', t)"
  shows "shm_pool t = shm_pool s \<and> shm_pool_used t = shm_pool_used s \<and>
    (\<forall>i. rg_active (regions t i) = rg_active (regions s i) \<and>
       rg_mem (regions t i) = rg_mem (regions s i) \<and>
       mem_allocated (regions t i) = mem_allocated (regions s i) \<and>
       rg_size (regions t i) = rg_size (regions s i)) \<and>
    (shm_inv s \<longrightarrow> shm_inv t) \<and>
    (r = 0 \<longleftrightarrow> (\<exists>i<at_count tb. at_active (attaches tb i) \<and> at_va (attaches tb i) = va))"
proof -
  have "r = 0 \<longleftrightarrow> first_idx (\<lambda>i. at_active (attaches tb i) \<and> at_va (attaches tb i) = va) (at_count tb) \<noteq> None"
    using assms by (auto simp: shm_dt_def Let_def split: option.splits if_splits)
  then have "r = 0 \<longleftrightarrow> (\<exists>i<at_count tb. at_active (attaches tb i) \<and> at_va (attaches tb i) = va)"
    by (simp add: first_idx_None_iff)
  moreover have "shm_inv s \<longrightarrow> shm_inv t" using shm_dt_inv [of s va tb] assms by simp
  moreover have "shm_pool t = shm_pool s \<and> shm_pool_used t = shm_pool_used s \<and>
    (\<forall>i. rg_active (regions t i) = rg_active (regions s i) \<and>
       rg_mem (regions t i) = rg_mem (regions s i) \<and>
       mem_allocated (regions t i) = mem_allocated (regions s i) \<and>
       rg_size (regions t i) = rg_size (regions s i))"
    using assms by (auto simp: shm_dt_def Let_def split: option.splits if_splits)
  ultimately show ?thesis by blast
qed

theorem shm_detach_keeps_data_witness:
  "\<exists>tb tb' s t. shm_at 0 0 0 no_attaches shm_demo = (0x100000, tb, s) \<and>
     shm_dt 0x100000 tb s = (0, tb', t) \<and> shm_pool t = shm_pool s \<and> shm_inv t"
proof -
  have va: "pool_va shm_demo 0 = 0x100000" by (simp add: pool_va_def shm_demo_def shm_blank_def)
  obtain v tb s where r: "shm_record 0 0x100000 0 no_attaches (shm_claimed 0 shm_demo) = (v, tb, s)"
    by (metis prod.collapse)
  then have at: "shm_at 0 0 0 no_attaches shm_demo = (0x100000, tb, s)"
    using shm_at_nohint [OF shm_demo_inv, of 0 no_attaches 0] shm_record_sel(1) [OF r]
    by (simp add: va shm_demo_sel ipc_limits MAX_SHM_ATTACHES_def)
  then have "shm_inv s" using shm_at_inv [OF shm_demo_inv, of 0 0 0 no_attaches] by simp
  moreover have "at_active (attaches tb 0) \<and> at_va (attaches tb 0) = 0x100000" "at_count tb = 1"
    using r by (auto simp: shm_record_def shm_demo_sel)
  ultimately show ?thesis
    using at shm_detach_keeps_data [where va = "0x100000" and tb = tb and s = s] by (metis prod.collapse less_one)
qed

text \<open>Detaching gives no entry of the attachment table back. Once a table has recorded
  \<open>MAX_SHM_ATTACHES\<close> attachments, no number of detaches makes \<open>shm_at\<close> succeed again.\<close>

theorem shm_table_never_reused:
  assumes "MAX_SHM_ATTACHES \<le> at_count tb"
    and "(tb', t) = fold (\<lambda>va (tb, s). snd (shm_dt va tb s)) vas (tb, s)"
  shows "shm_at shmid hint flags tb' t = (0, tb', t)"
proof -
  have dt: "at_count (fst (snd (shm_dt va tb s))) = at_count tb" for va tb s
    by (auto simp: shm_dt_def Let_def split: option.split)
  have "at_count (fst (fold (\<lambda>va (tb, s). snd (shm_dt va tb s)) vas (tb, s))) = at_count tb"
  proof (induction vas arbitrary: tb s)
    case (Cons va vas)
    obtain r tb1 s1 where "shm_dt va tb s = (r, tb1, s1)" by (metis prod.collapse)
    with Cons [of tb1 s1] dt [of va tb s] show ?case by simp
  qed simp
  with assms(2) have "at_count tb' = at_count tb" by (metis fst_conv)
  with assms(1) show ?thesis by (simp add: shm_at_def)
qed

theorem shm_table_never_reused_witness:
  "\<exists>tb t. at_active (attaches tb 0) = False \<and> shm_at 0 0 0 tb t = (0, tb, t) \<and> rg_active (regions t 0)"
proof -
  let ?tb = "no_attaches\<lparr>at_count := 8\<rparr>"
  have "shm_at 0 0 0 ?tb shm_demo = (0, ?tb, shm_demo)"
    by (rule shm_table_never_reused [where vas = "[]"]) (simp_all add: MAX_SHM_ATTACHES_def)
  moreover have "at_active (attaches ?tb 0) = False" by (simp add: no_attaches_def)
  ultimately show ?thesis using shm_demo_sel(1) by blast
qed

text \<open>\<open>IPC_RMID\<close> releases the backing store and clears all of the slot, so that a region
  made there later, of whatever size, inherits no byte of this one.\<close>

theorem shm_rmid_clears:
  assumes "shm_inv s" and "0 \<le> i" and "i < int IPC_MAX_SHM" and "rg_active (regions s (nat i))"
  shows "\<exists>t. shm_ctl i IPC_RMID buf s = (0, buf, t) \<and> shm_inv t \<and>
    \<not> rg_active (regions t (nat i)) \<and> \<not> shm_pool_used t (nat i) \<and>
    (mem_allocated (regions s (nat i)) \<longrightarrow> (\<forall>k<IPC_MAX_SHM_SIZE. shm_pool t (nat i) k = 0)) \<and>
    (\<forall>j. j \<noteq> nat i \<longrightarrow> regions t j = regions s j \<and> shm_pool t j = shm_pool s j)"
proof -
  let ?t = "shm_rmid (nat i) s"
  have i: "nat i < IPC_MAX_SHM" using assms(2,3) by auto
  have "\<not> shm_pool_used ?t (nat i)"
    using i shm_invD(3) [OF assms(1) i] by (auto simp: shm_rmid_def shm_mem_free_def Let_def)
  moreover have "mem_allocated (regions s (nat i)) \<longrightarrow> (\<forall>k<IPC_MAX_SHM_SIZE. shm_pool ?t (nat i) k = 0)"
    using i by (auto simp: shm_rmid_def shm_mem_free_def Let_def)
  moreover have "shm_pool ?t j = shm_pool s j" if "j \<noteq> nat i" for j
    using that by (simp add: shm_rmid_def shm_mem_free_def Let_def)
  moreover have "shm_ctl i IPC_RMID buf s = (0, buf, ?t)"
    using assms by (simp add: shm_ctl_def IPC_RMID_def IPC_SET_def IPC_STAT_def)
  ultimately show ?thesis
    using shm_rmid_inv [OF assms(1), of "nat i"]
    by (auto simp: shm_rmid_regions zero_region_def)
qed

theorem shm_rmid_clears_witness:
  "\<exists>t. shm_ctl 0 IPC_RMID None shm_demo = (0, None, t) \<and> \<not> rg_active (regions t 0)"
  using shm_rmid_clears [OF shm_demo_inv, of 0 None] by (auto simp: shm_demo_sel ipc_limits)

end
