(* ===== verification/Proc.thy ===== *)
theory Proc
  imports Prelude
begin

text \<open>
  The process table (\<open>33_PCS/40_psa/src/uiox_kix_psa_process.c\<close>) and the sleep queues
  (\<open>uiox_kix_psa_sleep_wakeup.c\<close>): slot allocation, the closed state diagram, the ready
  queue in priority order, sleep and wakeup.  A process pointer is the index of its slot
  or NULL; \<open>p_next\<close> and \<open>p_prev\<close> serve the ready queue and the sleep queues.  A walk over a
  queue has an option result, \<open>None\<close> if it does not end.
\<close>

section \<open>States\<close>

datatype pstate = UNUSED | USER_RUNNING | KERNEL_RUNNING | READY | SLEEP_MEM | READY_SWAPPED
  | SLEEP_SWAPPED | PREEMPTED | CREATED | ZOMBIE

text \<open>The enumerators' values, and the order of states by value.\<close>

definition state_num :: "pstate \<Rightarrow> nat" where
  "state_num st = (case st of UNUSED \<Rightarrow> 0 | USER_RUNNING \<Rightarrow> 1 | KERNEL_RUNNING \<Rightarrow> 2 | READY \<Rightarrow> 3
     | SLEEP_MEM \<Rightarrow> 4 | READY_SWAPPED \<Rightarrow> 5 | SLEEP_SWAPPED \<Rightarrow> 6 | PREEMPTED \<Rightarrow> 7 | CREATED \<Rightarrow> 8
     | ZOMBIE \<Rightarrow> 9)"

lemma state_num_inj: "state_num a = state_num b \<Longrightarrow> a = b"
  by (cases a; cases b) (simp_all add: state_num_def)

instantiation pstate :: linorder
begin

definition less_eq_pstate :: "pstate \<Rightarrow> pstate \<Rightarrow> bool" where
  "less_eq_pstate a b \<longleftrightarrow> state_num a \<le> state_num b"

definition less_pstate :: "pstate \<Rightarrow> pstate \<Rightarrow> bool" where
  "less_pstate a b \<longleftrightarrow> state_num a < state_num b"

instance
  by standard (auto simp: less_eq_pstate_def less_pstate_def intro: state_num_inj)

end

definition all_states :: "pstate list" where
  "all_states = [UNUSED, USER_RUNNING, KERNEL_RUNNING, READY, SLEEP_MEM, READY_SWAPPED,
     SLEEP_SWAPPED, PREEMPTED, CREATED, ZOMBIE]"

text \<open>The state an \<open>int\<close> cast to the enum stands for, if any.\<close>

definition state_of :: "nat \<Rightarrow> pstate option" where
  "state_of n = (if n < length all_states then Some (all_states ! n) else None)"

section \<open>The process table\<close>

record sched_param =
  p_pri :: int
  p_cpu :: int
  p_nice :: int
  p_time :: int

record proc_timer =
  p_utime :: int
  p_stime :: int
  p_cutime :: int
  p_cstime :: int

record proc =
  p_state :: pstate
  p_pid :: u32
  p_ppid :: u32
  p_uid :: u16
  p_euid :: u16
  p_gid :: u16
  p_egid :: u16
  p_size :: u32
  p_addr :: u64
  p_wchan :: u64
  p_sched :: sched_param
  p_sig :: u32
  p_sigmask :: u32
  p_timers :: proc_timer
  p_flag :: u32
  p_exit_code :: int
  p_alarm_expire :: u64
  p_alarm_active :: int
  p_swap_time :: u64
  p_swap_blk :: u32
  p_next :: "nat option"
  p_prev :: "nat option"

definition zero_proc :: proc where
  "zero_proc = \<lparr>p_state = UNUSED, p_pid = 0, p_ppid = 0, p_uid = 0, p_euid = 0, p_gid = 0,
     p_egid = 0, p_size = 0, p_addr = 0, p_wchan = 0,
     p_sched = \<lparr>p_pri = 0, p_cpu = 0, p_nice = 0, p_time = 0\<rparr>, p_sig = 0, p_sigmask = 0,
     p_timers = \<lparr>p_utime = 0, p_stime = 0, p_cutime = 0, p_cstime = 0\<rparr>, p_flag = 0,
     p_exit_code = 0, p_alarm_expire = 0, p_alarm_active = 0, p_swap_time = 0, p_swap_blk = 0,
     p_next = None, p_prev = None\<rparr>"

record sleep_queue =
  sq_head :: "nat option"
  sq_tail :: "nat option"

text \<open>
  \<open>u_abort\<close> and \<open>u_error\<close> are \<open>u_qsave.regs[0]\<close> and \<open>u_error\<close> of each slot's u area;
  \<open>uiox_kix_psa_u\<close> is the current process's one.
\<close>

record psa =
  ptab :: "nat \<Rightarrow> proc"
  current_proc :: "nat option"
  runq_head :: "nat option"
  next_pid :: u32
  sleep_hash :: "nat \<Rightarrow> sleep_queue"
  scheduler_flag :: int
  u_abort :: "nat \<Rightarrow> u64"
  u_error :: "nat \<Rightarrow> int"

definition NPROC :: nat where "NPROC = 64"
definition SLEEP_HASH_SZ :: nat where "SLEEP_HASH_SZ = 64"
definition P_SWAPPED :: u32 where "P_SWAPPED = push_bit 4 1"
definition PZERO :: int where "PZERO = 25"
definition EINVAL :: int where "EINVAL = 22"
definition EINTR :: int where "EINTR = 4"

definition upd_proc :: "nat \<Rightarrow> (proc \<Rightarrow> proc) \<Rightarrow> psa \<Rightarrow> psa" where
  "upd_proc p f s = s\<lparr>ptab := (ptab s)(p := f (ptab s p))\<rparr>"

lemma upd_proc_sel [simp]:
  "ptab (upd_proc p f s) = (ptab s)(p := f (ptab s p))"
  "current_proc (upd_proc p f s) = current_proc s" "runq_head (upd_proc p f s) = runq_head s"
  "next_pid (upd_proc p f s) = next_pid s" "sleep_hash (upd_proc p f s) = sleep_hash s"
  "scheduler_flag (upd_proc p f s) = scheduler_flag s" "u_abort (upd_proc p f s) = u_abort s"
  "u_error (upd_proc p f s) = u_error s"
  by (simp_all add: upd_proc_def)

definition proc_alloc :: "u32 \<Rightarrow> u32 \<Rightarrow> psa \<Rightarrow> nat option \<times> psa" where
  "proc_alloc pid ppid s =
     (case first_idx (\<lambda>i. p_state (ptab s i) = UNUSED) NPROC of
        None \<Rightarrow> (None, s)
      | Some i \<Rightarrow>
          (let s = upd_proc i (\<lambda>x. zero_proc\<lparr>p_state := CREATED, p_ppid := ppid\<rparr>) s in
           if pid \<noteq> 0 then (Some i, upd_proc i (\<lambda>x. x\<lparr>p_pid := pid\<rparr>) s)
           else
             (let s = s\<lparr>next_pid := next_pid s + 1\<rparr>;
                  s = upd_proc i (\<lambda>x. x\<lparr>p_pid := next_pid s\<rparr>) s;
                  s = (if of_nat NPROC \<le> next_pid s then s\<lparr>next_pid := 2\<rparr> else s)
              in (Some i, s))))"

definition proc_free :: "nat option \<Rightarrow> psa \<Rightarrow> psa" where
  "proc_free p s =
     (case p of None \<Rightarrow> s | Some i \<Rightarrow> upd_proc i (\<lambda>x. zero_proc\<lparr>p_state := UNUSED\<rparr>) s)"

definition proc_find :: "u32 \<Rightarrow> psa \<Rightarrow> nat option" where
  "proc_find pid s =
     first_idx (\<lambda>i. p_state (ptab s i) \<noteq> UNUSED \<and> p_pid (ptab s i) = pid) NPROC"

text \<open>The switch of \<open>proc_set_state\<close>.\<close>

definition valid_transition :: "pstate \<Rightarrow> pstate \<Rightarrow> bool" where
  "valid_transition old new =
     (case old of
        UNUSED \<Rightarrow> new = CREATED
      | CREATED \<Rightarrow> new = READY \<or> new = READY_SWAPPED
      | USER_RUNNING \<Rightarrow> new = KERNEL_RUNNING \<or> new = PREEMPTED
      | KERNEL_RUNNING \<Rightarrow> new = USER_RUNNING \<or> new = PREEMPTED \<or> new = ZOMBIE \<or> new = SLEEP_MEM \<or> new = READY
      | READY \<Rightarrow> new = KERNEL_RUNNING \<or> new = SLEEP_MEM \<or> new = READY_SWAPPED
      | SLEEP_MEM \<Rightarrow> new = READY \<or> new = SLEEP_SWAPPED
      | READY_SWAPPED \<Rightarrow> new = READY \<or> new = READY_SWAPPED
      | SLEEP_SWAPPED \<Rightarrow> new = SLEEP_MEM \<or> new = READY_SWAPPED
      | PREEMPTED \<Rightarrow> new = USER_RUNNING \<or> new = READY
      | ZOMBIE \<Rightarrow> False)"

definition enter_state :: "pstate \<Rightarrow> proc \<Rightarrow> proc" where
  "enter_state new x =
     (let x = x\<lparr>p_state := new\<rparr> in
      if new = READY_SWAPPED \<or> new = SLEEP_SWAPPED
      then x\<lparr>p_flag := setf P_SWAPPED (p_flag x)\<rparr>
      else x\<lparr>p_flag := clrf P_SWAPPED (p_flag x)\<rparr>)"

definition proc_set_state :: "nat option \<Rightarrow> nat \<Rightarrow> psa \<Rightarrow> int \<times> psa" where
  "proc_set_state p n s =
     (case p of
        None \<Rightarrow> (- 1, s)
      | Some i \<Rightarrow>
          if state_num ZOMBIE < n then (- EINVAL, s)
          else
            (case state_of n of
               None \<Rightarrow> (- 1, s)
             | Some new \<Rightarrow>
                 if valid_transition (p_state (ptab s i)) new
                 then (0, upd_proc i (enter_state new) s) else (- 1, s)))"

text \<open>\<open>(void)proc_set_state(p, STATE)\<close> with one of the enumerators.\<close>

definition set_state :: "nat \<Rightarrow> pstate \<Rightarrow> psa \<Rightarrow> psa" where
  "set_state i new s = snd (proc_set_state (Some i) (state_num new) s)"

lemma state_of_num [simp]: "state_of (state_num st) = Some st"
  by (cases st) (simp_all add: state_of_def state_num_def all_states_def numeral_eq_Suc)

lemma state_num_le: "state_num st \<le> state_num ZOMBIE"
  by (cases st) (simp_all add: state_num_def)

lemma set_state_eq:
  "set_state i new s =
     (if valid_transition (p_state (ptab s i)) new then upd_proc i (enter_state new) s else s)"
  using state_num_le [of new] by (simp add: set_state_def proc_set_state_def)

definition sig_pending :: "nat option \<Rightarrow> psa \<Rightarrow> u32" where
  "sig_pending p s =
     (case p of None \<Rightarrow> 0 | Some i \<Rightarrow> p_sig (ptab s i) AND NOT (p_sigmask (ptab s i)))"

section \<open>The ready queue\<close>

abbreviation pri :: "psa \<Rightarrow> nat \<Rightarrow> int" where
  "pri s p \<equiv> p_pri (p_sched (ptab s p))"

text \<open>The walk of \<open>sched_enqueue\<close>: \<open>(prev, cur)\<close> where it stops.\<close>

partial_function (option) runq_walk :: "(nat \<Rightarrow> proc) \<Rightarrow> int \<Rightarrow> nat option \<Rightarrow> nat option
    \<Rightarrow> (nat option \<times> nat option) option" where
  "runq_walk tab pr prev cur =
     (if cur \<noteq> None \<and> p_pri (p_sched (tab (the cur))) \<le> pr
      then runq_walk tab pr cur (p_next (tab (the cur)))
      else Some (prev, cur))"

definition link_after :: "nat \<Rightarrow> nat option \<Rightarrow> nat option \<Rightarrow> psa \<Rightarrow> psa" where
  "link_after p prev cur s =
     (let s = upd_proc p (\<lambda>x. x\<lparr>p_next := cur\<rparr>) s;
          s = upd_proc p (\<lambda>x. x\<lparr>p_prev := prev\<rparr>) s;
          s = (case prev of Some q \<Rightarrow> upd_proc q (\<lambda>x. x\<lparr>p_next := Some p\<rparr>) s
               | None \<Rightarrow> s\<lparr>runq_head := Some p\<rparr>)
      in case cur of Some q \<Rightarrow> upd_proc q (\<lambda>x. x\<lparr>p_prev := Some p\<rparr>) s | None \<Rightarrow> s)"

definition sched_enqueue :: "nat option \<Rightarrow> psa \<Rightarrow> psa option" where
  "sched_enqueue p s =
     (case p of
        None \<Rightarrow> Some s
      | Some i \<Rightarrow>
          (case runq_walk (ptab s) (pri s i) None (runq_head s) of
             None \<Rightarrow> None
           | Some (prev, cur) \<Rightarrow> Some (link_after i prev cur s)))"

definition sched_dequeue :: "nat option \<Rightarrow> psa \<Rightarrow> psa" where
  "sched_dequeue p s =
     (case p of
        None \<Rightarrow> s
      | Some i \<Rightarrow>
          (let s = (case p_prev (ptab s i) of
                      Some q \<Rightarrow> upd_proc q (\<lambda>x. x\<lparr>p_next := p_next (ptab s i)\<rparr>) s
                    | None \<Rightarrow> s\<lparr>runq_head := p_next (ptab s i)\<rparr>);
               s = (case p_next (ptab s i) of
                      Some q \<Rightarrow> upd_proc q (\<lambda>x. x\<lparr>p_prev := p_prev (ptab s i)\<rparr>) s
                    | None \<Rightarrow> s)
           in upd_proc i (\<lambda>x. x\<lparr>p_next := None, p_prev := None\<rparr>) s))"

definition sched_pick :: "psa \<Rightarrow> nat option" where
  "sched_pick s = runq_head s"

section \<open>Sleep queues\<close>

definition sleep_hash_slot :: "u64 \<Rightarrow> nat" where
  "sleep_hash_slot wchan = unat (drop_bit 2 wchan mod (of_nat SLEEP_HASH_SZ :: u64))"

definition upd_sq :: "nat \<Rightarrow> (sleep_queue \<Rightarrow> sleep_queue) \<Rightarrow> psa \<Rightarrow> psa" where
  "upd_sq k f s = s\<lparr>sleep_hash := (sleep_hash s)(k := f (sleep_hash s k))\<rparr>"

lemma upd_sq_sel [simp]:
  "ptab (upd_sq k f s) = ptab s" "current_proc (upd_sq k f s) = current_proc s"
  "runq_head (upd_sq k f s) = runq_head s" "next_pid (upd_sq k f s) = next_pid s"
  "sleep_hash (upd_sq k f s) = (sleep_hash s)(k := f (sleep_hash s k))"
  "scheduler_flag (upd_sq k f s) = scheduler_flag s"
  by (simp_all add: upd_sq_def)

definition sleep_enqueue :: "nat \<Rightarrow> u64 \<Rightarrow> psa \<Rightarrow> psa" where
  "sleep_enqueue p wchan s =
     (let k = sleep_hash_slot wchan; head = sq_head (sleep_hash s k);
          s = upd_proc p (\<lambda>x. x\<lparr>p_wchan := wchan, p_next := head, p_prev := None\<rparr>) s;
          s = (case head of Some h \<Rightarrow> upd_proc h (\<lambda>x. x\<lparr>p_prev := Some p\<rparr>) s
               | None \<Rightarrow> upd_sq k (\<lambda>q. q\<lparr>sq_tail := Some p\<rparr>) s)
      in upd_sq k (\<lambda>q. q\<lparr>sq_head := Some p\<rparr>) s)"

definition sleep_dequeue :: "nat \<Rightarrow> u64 \<Rightarrow> psa \<Rightarrow> psa" where
  "sleep_dequeue p wchan s =
     (let k = sleep_hash_slot wchan;
          s = (case p_prev (ptab s p) of
                 Some q \<Rightarrow> upd_proc q (\<lambda>x. x\<lparr>p_next := p_next (ptab s p)\<rparr>) s
               | None \<Rightarrow> upd_sq k (\<lambda>q. q\<lparr>sq_head := p_next (ptab s p)\<rparr>) s);
          s = (case p_next (ptab s p) of
                 Some q \<Rightarrow> upd_proc q (\<lambda>x. x\<lparr>p_prev := p_prev (ptab s p)\<rparr>) s
               | None \<Rightarrow> upd_sq k (\<lambda>q. q\<lparr>sq_tail := p_prev (ptab s p)\<rparr>) s)
      in upd_proc p (\<lambda>x. x\<lparr>p_next := None, p_prev := None, p_wchan := 0\<rparr>) s)"

text \<open>The part common to both branches of \<open>proc_sleep\<close>: go to sleep, run the next process.\<close>

definition sleep_switch :: "nat \<Rightarrow> u64 \<Rightarrow> psa \<Rightarrow> psa" where
  "sleep_switch p wchan s =
     (let s = set_state p SLEEP_MEM s;
          s = sleep_enqueue p wchan s
      in case sched_pick s of
           None \<Rightarrow> s
         | Some nxt \<Rightarrow>
             if nxt \<noteq> p
             then (sched_dequeue (Some nxt) (set_state nxt KERNEL_RUNNING s))\<lparr>current_proc := Some nxt\<rparr>
             else s)"

definition proc_sleep :: "u64 \<Rightarrow> int \<Rightarrow> bool \<Rightarrow> psa \<Rightarrow> int \<times> psa" where
  "proc_sleep wchan priority interruptible s =
     (case current_proc s of
        None \<Rightarrow> (0, s)
      | Some p \<Rightarrow>
          if \<not> interruptible \<or> priority \<le> PZERO then (0, sleep_switch p wchan s)
          else
            (let s = (if sig_pending (Some p) s = 0 then sleep_switch p wchan s else s) in
             if sig_pending (Some p) s = 0 then (0, s)
             else if PZERO < priority then (1, s)
             else
               (- 1, (case current_proc s of
                        None \<Rightarrow> s
                      | Some c \<Rightarrow> s\<lparr>u_abort := (u_abort s)(c := 1), u_error := (u_error s)(c := EINTR)\<rparr>))))"

text \<open>What \<open>proc_wakeup\<close> does to a process that sleeps on the channel.\<close>

definition wake_one :: "nat \<Rightarrow> u64 \<Rightarrow> psa \<Rightarrow> psa option" where
  "wake_one p wchan s =
     (let s = sleep_dequeue p wchan s;
          s = (if p_state (ptab s p) = SLEEP_MEM then set_state p READY s
               else if p_state (ptab s p) = SLEEP_SWAPPED then set_state p READY_SWAPPED s
               else s)
      in Option.bind (if p_state (ptab s p) = READY then sched_enqueue (Some p) s else Some s)
        (\<lambda>s. Some (case current_proc s of
                    None \<Rightarrow> s
                  | Some c \<Rightarrow> if pri s p < pri s c then s\<lparr>scheduler_flag := 1\<rparr> else s)))"

partial_function (option) wake_loop :: "u64 \<Rightarrow> nat option \<Rightarrow> psa \<Rightarrow> psa option" where
  "wake_loop wchan p s =
     (if p = None then Some s
      else if p_wchan (ptab s (the p)) = wchan
      then Option.bind (wake_one (the p) wchan s) (wake_loop wchan (p_next (ptab s (the p))))
      else wake_loop wchan (p_next (ptab s (the p))) s)"

definition proc_wakeup :: "u64 \<Rightarrow> psa \<Rightarrow> psa option" where
  "proc_wakeup wchan s = wake_loop wchan (sq_head (sleep_hash s (sleep_hash_slot wchan))) s"

end
