(* ===== verification/ProcProps.thy ===== *)
theory ProcProps
  imports Proc Ipc
begin

text \<open>
  The process table's invariant and what the operations of Proc do under it: the ready
  queue is a priority-ordered list of READY processes, every sleeping process is on the
  sleep queue of its channel's bucket, wakeup takes exactly the channel's sleepers.
\<close>

section \<open>Queues as lists\<close>

definition rnx :: "psa \<Rightarrow> nat \<Rightarrow> nat option" where "rnx s p = p_next (ptab s p)"
definition rpv :: "psa \<Rightarrow> nat \<Rightarrow> nat option" where "rpv s p = p_prev (ptab s p)"

definition lists_ok :: "psa \<Rightarrow> nat list \<Rightarrow> (nat \<Rightarrow> nat list) \<Rightarrow> bool" where
  "lists_ok s R S \<longleftrightarrow>
     dll (rnx s) (rpv s) (runq_head s) (lastp None R) R \<and>
     (\<forall>k<SLEEP_HASH_SZ. dll (rnx s) (rpv s) (sq_head (sleep_hash s k)) (sq_tail (sleep_hash s k)) (S k) \<and>
        set R \<inter> set (S k) = {} \<and>
        (\<forall>j<SLEEP_HASH_SZ. j \<noteq> k \<longrightarrow> set (S j) \<inter> set (S k) = {}))"

lemma lists_okD:
  assumes "lists_ok s R S"
  shows "dll (rnx s) (rpv s) (runq_head s) (lastp None R) R"
    and "k < SLEEP_HASH_SZ \<Longrightarrow> dll (rnx s) (rpv s) (sq_head (sleep_hash s k)) (sq_tail (sleep_hash s k)) (S k)"
    and "k < SLEEP_HASH_SZ \<Longrightarrow> set R \<inter> set (S k) = {}"
    and "k < SLEEP_HASH_SZ \<Longrightarrow> j < SLEEP_HASH_SZ \<Longrightarrow> j \<noteq> k \<Longrightarrow> set (S j) \<inter> set (S k) = {}"
  using assms by (auto simp: lists_ok_def)

text \<open>An operation on the ready queue, and one on the sleep queue \<open>k\<close>.\<close>

lemma lists_ok_runq:
  assumes ok: "lists_ok s R S"
    and new: "dll (rnx t) (rpv t) (runq_head t) (lastp None R') R'" "set R' \<subseteq> insert p (set R)"
    and out: "\<And>k. k < SLEEP_HASH_SZ \<Longrightarrow> p \<notin> set (S k)"
    and hash: "sleep_hash t = sleep_hash s"
    and rest: "\<And>q. q \<notin> insert p (set R) \<Longrightarrow> rnx t q = rnx s q \<and> rpv t q = rpv s q"
  shows "lists_ok t R' S"
  unfolding lists_ok_def
proof (intro conjI allI impI)
  fix k assume k: "k < SLEEP_HASH_SZ"
  have q: "q \<notin> insert p (set R)" if "q \<in> set (S k)" for q
    using that out [OF k] lists_okD(3) [OF ok k] by auto
  have "dll (rnx t) (rpv t) (sq_head (sleep_hash s k)) (sq_tail (sleep_hash s k)) (S k) =
      dll (rnx s) (rpv s) (sq_head (sleep_hash s k)) (sq_tail (sleep_hash s k)) (S k)"
    by (rule dll_cong) (use rest q in auto)
  with lists_okD(2) [OF ok k] hash
  show "dll (rnx t) (rpv t) (sq_head (sleep_hash t k)) (sq_tail (sleep_hash t k)) (S k)" by simp
  show "set R' \<inter> set (S k) = {}" using new(2) q by auto
  show "set (S j) \<inter> set (S k) = {}" if "j < SLEEP_HASH_SZ" "j \<noteq> k" for j
    using lists_okD(4) [OF ok k that] .
qed (rule new(1))

lemma lists_ok_sleepq:
  assumes ok: "lists_ok s R S" and k: "k < SLEEP_HASH_SZ"
    and new: "dll (rnx t) (rpv t) (sq_head (sleep_hash t k)) (sq_tail (sleep_hash t k)) xs"
      "set xs \<subseteq> insert p (set (S k))"
    and out: "p \<notin> set R" "\<And>j. j < SLEEP_HASH_SZ \<Longrightarrow> j \<noteq> k \<Longrightarrow> p \<notin> set (S j)"
    and hash: "\<And>j. j \<noteq> k \<Longrightarrow> sleep_hash t j = sleep_hash s j" "runq_head t = runq_head s"
    and rest: "\<And>q. q \<notin> insert p (set (S k)) \<Longrightarrow> rnx t q = rnx s q \<and> rpv t q = rpv s q"
  shows "lists_ok t R (S(k := xs))"
  unfolding lists_ok_def
proof (intro conjI allI impI)
  have q: "q \<notin> insert p (set (S k))" if "q \<in> set R" for q
    using that out(1) lists_okD(3) [OF ok k] by auto
  have "dll (rnx t) (rpv t) (runq_head s) (lastp None R) R =
      dll (rnx s) (rpv s) (runq_head s) (lastp None R) R"
    by (rule dll_cong) (use rest q in auto)
  with lists_okD(1) [OF ok] hash(2) show "dll (rnx t) (rpv t) (runq_head t) (lastp None R) R" by simp
  fix j assume j: "j < SLEEP_HASH_SZ"
  have qj: "q \<notin> insert p (set (S k))" if "q \<in> set (S j)" "j \<noteq> k" for q
    using that out(2) [OF j] lists_okD(4) [OF ok k j] by auto
  show "dll (rnx t) (rpv t) (sq_head (sleep_hash t j)) (sq_tail (sleep_hash t j)) ((S(k := xs)) j)"
  proof (cases "j = k")
    case False
    have "dll (rnx t) (rpv t) (sq_head (sleep_hash s j)) (sq_tail (sleep_hash s j)) (S j) =
        dll (rnx s) (rpv s) (sq_head (sleep_hash s j)) (sq_tail (sleep_hash s j)) (S j)"
      by (rule dll_cong) (use rest qj False in auto)
    with lists_okD(2) [OF ok j] hash(1) [OF False] False show ?thesis by simp
  qed (use new(1) in simp)
  show "set R \<inter> set ((S(k := xs)) j) = {}"
    using lists_okD(3) [OF ok j] new(2) q by (cases "j = k") auto
  show "set ((S(k := xs)) i) \<inter> set ((S(k := xs)) j) = {}" if i: "i < SLEEP_HASH_SZ" "i \<noteq> j" for i
  proof -
    have "q \<notin> insert p (set (S k))" if "q \<in> set (S i)" "i \<noteq> k" for q
      using that out(2) [OF i(1)] lists_okD(4) [OF ok k i(1)] by auto
    then show ?thesis
      using lists_okD(4) [OF ok j i] new(2) qj i(2) by (cases "i = k"; cases "j = k") auto
  qed
qed

section \<open>The operations on the links\<close>

text \<open>An entry without its links; every queue operation leaves this part of all entries.\<close>

definition nolinks :: "proc \<Rightarrow> proc" where
  "nolinks x = x\<lparr>p_next := None, p_prev := None\<rparr>"

lemma nolinks_eqD:
  assumes "nolinks x = nolinks y"
  shows "p_state x = p_state y" "p_sched x = p_sched y" "p_wchan x = p_wchan y" "p_pid x = p_pid y"
    "p_sig x = p_sig y" "p_sigmask x = p_sigmask y" "p_flag x = p_flag y"
  using assms by (cases x; cases y; simp add: nolinks_def)+

lemma nolinks_upd [simp]:
  "nolinks (x\<lparr>p_next := a\<rparr>) = nolinks x" "nolinks (x\<lparr>p_prev := a\<rparr>) = nolinks x"
  by (simp_all add: nolinks_def)

lemma link_after_sel:
  assumes "prev \<noteq> Some p" and "cur \<noteq> Some p"
  shows "rnx (link_after p prev cur s) = (updo prev (Some p) (rnx s))(p := cur)"
    and "rpv (link_after p prev cur s) = (updo cur (Some p) (rpv s))(p := prev)"
    and "runq_head (link_after p prev cur s) = (if prev = None then Some p else runq_head s)"
    and "sleep_hash (link_after p prev cur s) = sleep_hash s"
    and "current_proc (link_after p prev cur s) = current_proc s"
    and "next_pid (link_after p prev cur s) = next_pid s"
    and "scheduler_flag (link_after p prev cur s) = scheduler_flag s"
    and "nolinks (ptab (link_after p prev cur s) q) = nolinks (ptab s q)"
  using assms
  by (auto simp: link_after_def Let_def rnx_def rpv_def fun_eq_iff split: option.split)

lemma sched_dequeue_sel:
  assumes "p_prev (ptab s p) \<noteq> Some p" and "p_next (ptab s p) \<noteq> Some p"
  shows "rnx (sched_dequeue (Some p) s) = (updo (rpv s p) (rnx s p) (rnx s))(p := None)"
    and "rpv (sched_dequeue (Some p) s) = (updo (rnx s p) (rpv s p) (rpv s))(p := None)"
    and "runq_head (sched_dequeue (Some p) s) = (if rpv s p = None then rnx s p else runq_head s)"
    and "sleep_hash (sched_dequeue (Some p) s) = sleep_hash s"
    and "current_proc (sched_dequeue (Some p) s) = current_proc s"
    and "next_pid (sched_dequeue (Some p) s) = next_pid s"
    and "nolinks (ptab (sched_dequeue (Some p) s) q) = nolinks (ptab s q)"
  using assms
  by (auto simp: sched_dequeue_def Let_def rnx_def rpv_def fun_eq_iff split: option.split)

lemma sleep_enqueue_sel:
  assumes "sq_head (sleep_hash s (sleep_hash_slot w)) \<noteq> Some p"
  shows "rnx (sleep_enqueue p w s) = (rnx s)(p := sq_head (sleep_hash s (sleep_hash_slot w)))"
    and "rpv (sleep_enqueue p w s) = (updo (sq_head (sleep_hash s (sleep_hash_slot w))) (Some p) (rpv s))(p := None)"
    and "sleep_hash (sleep_enqueue p w s) = (sleep_hash s)(sleep_hash_slot w :=
      \<lparr>sq_head = Some p, sq_tail = (if sq_head (sleep_hash s (sleep_hash_slot w)) = None then Some p
         else sq_tail (sleep_hash s (sleep_hash_slot w)))\<rparr>)"
    and "runq_head (sleep_enqueue p w s) = runq_head s"
    and "current_proc (sleep_enqueue p w s) = current_proc s"
    and "next_pid (sleep_enqueue p w s) = next_pid s"
    and "nolinks (ptab (sleep_enqueue p w s) q) =
      (if q = p then nolinks (ptab s p)\<lparr>p_wchan := w\<rparr> else nolinks (ptab s q))"
  using assms
  by (auto simp: sleep_enqueue_def Let_def rnx_def rpv_def fun_eq_iff nolinks_def split: option.split)

lemma sleep_dequeue_sel:
  assumes "p_prev (ptab s p) \<noteq> Some p" and "p_next (ptab s p) \<noteq> Some p"
  shows "rnx (sleep_dequeue p w s) = (updo (rpv s p) (rnx s p) (rnx s))(p := None)"
    and "rpv (sleep_dequeue p w s) = (updo (rnx s p) (rpv s p) (rpv s))(p := None)"
    and "sleep_hash (sleep_dequeue p w s) = (sleep_hash s)(sleep_hash_slot w :=
      \<lparr>sq_head = (if rpv s p = None then rnx s p else sq_head (sleep_hash s (sleep_hash_slot w))),
       sq_tail = (if rnx s p = None then rpv s p else sq_tail (sleep_hash s (sleep_hash_slot w)))\<rparr>)"
    and "runq_head (sleep_dequeue p w s) = runq_head s"
    and "current_proc (sleep_dequeue p w s) = current_proc s"
    and "next_pid (sleep_dequeue p w s) = next_pid s"
    and "nolinks (ptab (sleep_dequeue p w s) q) =
      (if q = p then nolinks (ptab s p)\<lparr>p_wchan := 0\<rparr> else nolinks (ptab s q))"
  using assms
  by (auto simp: sleep_dequeue_def Let_def rnx_def rpv_def fun_eq_iff nolinks_def split: option.split)

section \<open>The operations on the lists\<close>

lemma dll_no_self:
  assumes "dll nx pv h t (as @ p # bs)"
  shows "pv p \<noteq> Some p" and "nx p \<noteq> Some p"
  using dll_links [OF assms] dll_distinct [OF assms] lastp_in [of as p] headp_in [of bs p] by auto

lemma runq_walk_spec:
  assumes "dseg (\<lambda>q. p_next (tab q)) pv q cur xs q' None"
  shows "runq_walk tab pr prev cur =
    Some (lastp prev (takeWhile (\<lambda>q. p_pri (p_sched (tab q)) \<le> pr) xs),
      headp (dropWhile (\<lambda>q. p_pri (p_sched (tab q)) \<le> pr) xs) None)"
  using assms
proof (induction xs arbitrary: q cur prev)
  case Nil
  then show ?case by (simp add: runq_walk.simps)
next
  case (Cons x xs)
  then have "cur = Some x" "dseg (\<lambda>q. p_next (tab q)) pv (Some x) (p_next (tab x)) xs q' None" by auto
  with Cons.IH [of "Some x" "p_next (tab x)" "Some x"] show ?case
    by (subst runq_walk.simps) simp
qed

lemma enqueue_lists:
  assumes ok: "lists_ok s R S" and p: "p \<notin> set R" "\<And>k. k < SLEEP_HASH_SZ \<Longrightarrow> p \<notin> set (S k)"
  defines "as \<equiv> takeWhile (\<lambda>q. pri s q \<le> pri s p) R"
    and "bs \<equiv> dropWhile (\<lambda>q. pri s q \<le> pri s p) R"
  shows "sched_enqueue (Some p) s = Some (link_after p (lastp None as) (headp bs None) s)"
    and "lists_ok (link_after p (lastp None as) (headp bs None) s) (as @ p # bs) S"
    and "lastp None as \<noteq> Some p" and "headp bs None \<noteq> Some p"
proof -
  let ?t = "link_after p (lastp None as) (headp bs None) s"
  have R: "R = as @ bs" by (simp add: as_def bs_def)
  have d: "dll (rnx s) (rpv s) (runq_head s) (lastp None R) (as @ bs)"
    using lists_okD(1) [OF ok] R by simp
  have "dseg (\<lambda>q. p_next (ptab s q)) (rpv s) None (runq_head s) R (lastp None R) None"
    using lists_okD(1) [OF ok] by (simp add: dll_def rnx_def [abs_def])
  from runq_walk_spec [OF this, of "pri s p" None]
  show "sched_enqueue (Some p) s = Some ?t" by (simp add: sched_enqueue_def as_def bs_def)
  show np: "lastp None as \<noteq> Some p" "headp bs None \<noteq> Some p"
    using p(1) R lastp_in [of as p] headp_in [of bs p] by auto
  note sel = link_after_sel [OF np]
  show "lists_ok ?t (as @ p # bs) S"
  proof (rule lists_ok_runq [OF ok])
    have "lastp None as = None \<longleftrightarrow> as = []" by (simp add: lastp_def)
    moreover have "(if bs = [] then Some p else lastp None R) = lastp None (as @ p # bs)"
      using R by (auto simp: lastp_def)
    ultimately show "dll (rnx ?t) (rpv ?t) (runq_head ?t) (lastp None (as @ p # bs)) (as @ p # bs)"
      using dll_insert [OF d, of p] p(1) R sel(1,2,3) [of s] by simp
    show "rnx ?t q = rnx s q \<and> rpv ?t q = rpv s q" if "q \<notin> insert p (set R)" for q
      unfolding sel(1,2) using that R lastp_in [of as q] headp_in [of bs q]
      by (auto simp: updo_def split: option.split)
  qed (use R p(2) sel(4) in auto)
qed

lemma dequeue_lists:
  assumes ok: "lists_ok s (as @ p # bs) S"
  shows "lists_ok (sched_dequeue (Some p) s) (as @ bs) S"
    and "p_prev (ptab s p) \<noteq> Some p" and "p_next (ptab s p) \<noteq> Some p"
proof -
  let ?t = "sched_dequeue (Some p) s"
  note d = lists_okD(1) [OF ok]
  note self = dll_no_self [OF d]
  show np: "p_prev (ptab s p) \<noteq> Some p" "p_next (ptab s p) \<noteq> Some p"
    using self by (simp_all add: rnx_def rpv_def)
  note sel = sched_dequeue_sel [OF np]
  note L = dll_links [OF d]
  show "lists_ok ?t (as @ bs) S"
  proof (rule lists_ok_runq [OF ok])
    have "(if rnx s p = None then rpv s p else lastp None (as @ p # bs)) = lastp None (as @ bs)"
      unfolding L by (cases bs rule: rev_cases) (auto simp: lastp_def headp_def)
    with dll_remove [OF d] sel(1,2,3)
    show "dll (rnx ?t) (rpv ?t) (runq_head ?t) (lastp None (as @ bs)) (as @ bs)" by simp
    show "p \<notin> set (S k)" if "k < SLEEP_HASH_SZ" for k using lists_okD(3) [OF ok that] by auto
    show "rnx ?t q = rnx s q \<and> rpv ?t q = rpv s q" if "q \<notin> insert p (set (as @ p # bs))" for q
      unfolding sel(1,2) L using that lastp_in [of as q] headp_in [of bs q]
      by (auto simp: updo_def split: option.split)
  qed (use sel(4) in auto)
qed

lemma sleep_enqueue_lists:
  assumes ok: "lists_ok s R S" and p: "p \<notin> set R" "\<And>k. k < SLEEP_HASH_SZ \<Longrightarrow> p \<notin> set (S k)"
    and k: "k = sleep_hash_slot w" "k < SLEEP_HASH_SZ"
  shows "lists_ok (sleep_enqueue p w s) R (S(k := p # S k))"
    and "sq_head (sleep_hash s k) \<noteq> Some p"
proof -
  let ?t = "sleep_enqueue p w s"
  have d: "dll (rnx s) (rpv s) (sq_head (sleep_hash s k)) (sq_tail (sleep_hash s k)) ([] @ S k)"
    using lists_okD(2) [OF ok k(2)] by simp
  have hd: "sq_head (sleep_hash s k) = headp (S k) None" using dll_ends [OF d] by simp
  show np: "sq_head (sleep_hash s k) \<noteq> Some p" unfolding hd using p(2) [OF k(2)] headp_in [of "S k" p] by auto
  note sel = sleep_enqueue_sel [OF np [unfolded k(1)], folded k(1)]
  show "lists_ok ?t R (S(k := p # S k))"
  proof (rule lists_ok_sleepq [OF ok k(2)])
    have "sq_head (sleep_hash s k) = None \<longleftrightarrow> S k = []" unfolding hd by simp
    with dll_insert [OF d, of p] p(2) [OF k(2)] sel(1-3)
    show "dll (rnx ?t) (rpv ?t) (sq_head (sleep_hash ?t k)) (sq_tail (sleep_hash ?t k)) (p # S k)"
      by (simp add: hd)
    show "rnx ?t q = rnx s q \<and> rpv ?t q = rpv s q" if "q \<notin> insert p (set (S k))" for q
      unfolding sel(1,2) hd using that headp_in [of "S k" q]
      by (auto simp: updo_def split: option.split)
  qed (use p sel(3,4) in auto)
qed

lemma sleep_dequeue_lists:
  assumes ok: "lists_ok s R S" and k: "k = sleep_hash_slot w" "k < SLEEP_HASH_SZ"
    and S: "S k = as @ p # bs"
  shows "lists_ok (sleep_dequeue p w s) R (S(k := as @ bs))"
    and "p_prev (ptab s p) \<noteq> Some p" and "p_next (ptab s p) \<noteq> Some p"
    and "p_next (ptab s p) = headp bs None"
proof -
  let ?t = "sleep_dequeue p w s"
  have d: "dll (rnx s) (rpv s) (sq_head (sleep_hash s k)) (sq_tail (sleep_hash s k)) (as @ p # bs)"
    using lists_okD(2) [OF ok k(2)] S by simp
  note self = dll_no_self [OF d]
  show np: "p_prev (ptab s p) \<noteq> Some p" "p_next (ptab s p) \<noteq> Some p"
    using self by (simp_all add: rnx_def rpv_def)
  note L = dll_links [OF d]
  show "p_next (ptab s p) = headp bs None" using L(2) by (simp add: rnx_def)
  note sel = sleep_dequeue_sel [OF np, of w, folded k(1)]
  have pS: "p \<in> set (S k)" using S by simp
  show "lists_ok ?t R (S(k := as @ bs))"
  proof (rule lists_ok_sleepq [OF ok k(2)])
    show "dll (rnx ?t) (rpv ?t) (sq_head (sleep_hash ?t k)) (sq_tail (sleep_hash ?t k)) (as @ bs)"
      using dll_remove [OF d] sel(1-3) by simp
    show "p \<notin> set R" using lists_okD(3) [OF ok k(2)] pS by auto
    show "p \<notin> set (S j)" if "j < SLEEP_HASH_SZ" "j \<noteq> k" for j
      using lists_okD(4) [OF ok k(2) that] pS by auto
    show "rnx ?t q = rnx s q \<and> rpv ?t q = rpv s q" if "q \<notin> insert p (set (S k))" for q
      unfolding sel(1,2) L using that S lastp_in [of as q] headp_in [of bs q]
      by (auto simp: updo_def split: option.split)
  qed (use S sel(3,4) in auto)
qed

lemma sleep_slot_less: "sleep_hash_slot w < SLEEP_HASH_SZ"
proof -
  have "x mod (64 :: u64) < 64" for x by (rule word_mod_less_divisor) simp
  then have "unat (x mod (64 :: u64)) < unat (64 :: u64)" for x
    using word_less_nat_alt by blast
  then show ?thesis by (simp add: sleep_hash_slot_def SLEEP_HASH_SZ_def)
qed

text \<open>Changing fields other than the links.\<close>

lemma lists_ok_fields:
  assumes "\<And>x. p_next (f x) = p_next x \<and> p_prev (f x) = p_prev x"
  shows "lists_ok (upd_proc p f s) R S = lists_ok s R S"
proof -
  have "rnx (upd_proc p f s) = rnx s" "rpv (upd_proc p f s) = rpv s"
    using assms by (auto simp: rnx_def rpv_def fun_eq_iff)
  then show ?thesis by (simp add: lists_ok_def)
qed

lemma enter_state_sel [simp]:
  "p_state (enter_state st x) = st" "p_next (enter_state st x) = p_next x"
  "p_prev (enter_state st x) = p_prev x" "p_sched (enter_state st x) = p_sched x"
  "p_wchan (enter_state st x) = p_wchan x" "p_sig (enter_state st x) = p_sig x"
  "p_sigmask (enter_state st x) = p_sigmask x" "p_pid (enter_state st x) = p_pid x"
  by (simp_all add: enter_state_def Let_def)

section \<open>The invariant\<close>

abbreviation sleeping :: "pstate \<Rightarrow> bool" where
  "sleeping st \<equiv> st = SLEEP_MEM \<or> st = SLEEP_SWAPPED"

definition psa_inv :: "psa \<Rightarrow> nat list \<Rightarrow> (nat \<Rightarrow> nat list) \<Rightarrow> bool" where
  "psa_inv s R S \<longleftrightarrow> lists_ok s R S \<and> sorted (map (pri s) R) \<and>
     (\<forall>p\<in>set R. p < NPROC \<and> p_state (ptab s p) = READY) \<and>
     (\<forall>k<SLEEP_HASH_SZ. \<forall>p. p \<in> set (S k) \<longleftrightarrow>
        p < NPROC \<and> sleeping (p_state (ptab s p)) \<and> sleep_hash_slot (p_wchan (ptab s p)) = k)"

lemma psa_invD:
  assumes "psa_inv s R S"
  shows "lists_ok s R S" and "sorted (map (pri s) R)"
    and "p \<in> set R \<Longrightarrow> p < NPROC" and "p \<in> set R \<Longrightarrow> p_state (ptab s p) = READY"
    and "k < SLEEP_HASH_SZ \<Longrightarrow> p \<in> set (S k) \<longleftrightarrow>
      p < NPROC \<and> sleeping (p_state (ptab s p)) \<and> sleep_hash_slot (p_wchan (ptab s p)) = k"
  using assms by (auto simp: psa_inv_def)

lemma psa_inv_awake:
  assumes "psa_inv s R S" and "\<not> sleeping (p_state (ptab s p))" and "k < SLEEP_HASH_SZ"
  shows "p \<notin> set (S k)"
  using psa_invD(5) [OF assms(1,3)] assms(2) by simp

lemma sorted_takeWhile_all:
  "sorted (map f xs) \<Longrightarrow> x \<in> set (dropWhile (\<lambda>q. f q \<le> v) xs) \<Longrightarrow> v < (f x :: int)"
proof (induction xs)
  case (Cons y ys)
  show ?case
  proof (cases "f y \<le> v")
    case False
    with Cons.prems have "x = y \<or> f y \<le> f x" by auto
    with False show ?thesis by auto
  qed (use Cons in auto)
qed simp

lemma enqueue_inv:
  assumes inv: "psa_inv s R S" and p: "p < NPROC" "p_state (ptab s p) = READY" "p \<notin> set R"
  shows "\<exists>t as bs. sched_enqueue (Some p) s = Some t \<and> R = as @ bs \<and> psa_inv t (as @ p # bs) S \<and>
    (\<forall>a\<in>set as. pri s a \<le> pri s p) \<and> (\<forall>b\<in>set bs. pri s p < pri s b) \<and>
    (\<forall>q. nolinks (ptab t q) = nolinks (ptab s q)) \<and> current_proc t = current_proc s \<and>
    scheduler_flag t = scheduler_flag s"
proof -
  define as where "as = takeWhile (\<lambda>q. pri s q \<le> pri s p) R"
  define bs where "bs = dropWhile (\<lambda>q. pri s q \<le> pri s p) R"
  let ?t = "link_after p (lastp None as) (headp bs None) s"
  have ns: "p \<notin> set (S k)" if "k < SLEEP_HASH_SZ" for k
    using psa_inv_awake [OF inv _ that, of p] p(2) by simp
  note E = enqueue_lists [OF psa_invD(1) [OF inv] p(3) ns, folded as_def bs_def]
  note sel = link_after_sel [OF E(3,4)]
  have R: "R = as @ bs" by (simp add: as_def bs_def)
  have le: "pri s a \<le> pri s p" if "a \<in> set as" for a
    using that by (auto simp: as_def dest: set_takeWhileD)
  have gt: "pri s p < pri s b" if "b \<in> set bs" for b
    using sorted_takeWhile_all [OF psa_invD(2) [OF inv], of b "pri s p"] that by (simp add: bs_def)
  have same: "pri ?t q = pri s q" "p_state (ptab ?t q) = p_state (ptab s q)"
    "p_wchan (ptab ?t q) = p_wchan (ptab s q)" for q
    using nolinks_eqD [OF sel(8) [of s q]] by simp_all
  have "sorted (map (pri s) (as @ p # bs))"
    using psa_invD(2) [OF inv] le gt unfolding R by (auto simp: sorted_append less_imp_le intro: order_trans)
  then have "psa_inv ?t (as @ p # bs) S"
    using E(2) p psa_invD [OF inv] by (auto simp: psa_inv_def same R)
  with E(1) R le gt sel(5,7,8) show ?thesis by blast
qed

lemma dequeue_inv:
  assumes inv: "psa_inv s (as @ p # bs) S"
  shows "psa_inv (sched_dequeue (Some p) s) (as @ bs) S"
    and "nolinks (ptab (sched_dequeue (Some p) s) q) = nolinks (ptab s q)"
proof -
  note D = dequeue_lists [OF psa_invD(1) [OF inv]]
  note sel = sched_dequeue_sel [OF D(2,3)]
  show "nolinks (ptab (sched_dequeue (Some p) s) q) = nolinks (ptab s q)" for q by (rule sel(7))
  have same: "pri (sched_dequeue (Some p) s) q = pri s q"
    "p_state (ptab (sched_dequeue (Some p) s) q) = p_state (ptab s q)"
    "p_wchan (ptab (sched_dequeue (Some p) s) q) = p_wchan (ptab s q)" for q
    using nolinks_eqD [OF sel(7) [of q]] by simp_all
  show "psa_inv (sched_dequeue (Some p) s) (as @ bs) S"
    using D(1) psa_invD [OF inv] unfolding psa_inv_def same
    by (auto simp: sorted_append)
qed

section \<open>Sleep\<close>

lemma enter_state_links:
  "(enter_state st x)\<lparr>p_next := a\<rparr> = enter_state st (x\<lparr>p_next := a\<rparr>)"
  "(enter_state st x)\<lparr>p_prev := a\<rparr> = enter_state st (x\<lparr>p_prev := a\<rparr>)"
  by (simp_all add: enter_state_def Let_def)

lemma dequeue_enter_state:
  assumes "p_prev (ptab s p) \<noteq> Some p" and "p_next (ptab s p) \<noteq> Some p"
  shows "sched_dequeue (Some p) (upd_proc p (enter_state st) s) =
    upd_proc p (enter_state st) (sched_dequeue (Some p) s)"
  using assms
  by (cases "p_prev (ptab s p)"; cases "p_next (ptab s p)")
    (simp_all add: sched_dequeue_def Let_def upd_proc_def enter_state_links fun_upd_twist)

lemma psa_inv_enter:
  assumes inv: "psa_inv s R S" and p: "p \<notin> set R" "\<not> sleeping (p_state (ptab s p))" "\<not> sleeping st"
  shows "psa_inv (upd_proc p (enter_state st) s) R S"
proof -
  let ?t = "upd_proc p (enter_state st) s"
  have pr: "pri ?t q = pri s q" for q by simp
  have st: "p_state (ptab ?t q) = (if q = p then st else p_state (ptab s q))"
    "p_wchan (ptab ?t q) = p_wchan (ptab s q)" for q by simp_all
  have "lists_ok ?t R S" using psa_invD(1) [OF inv] by (simp add: lists_ok_fields)
  then show ?thesis
    unfolding psa_inv_def pr st using psa_invD(2-5) [OF inv] p by auto
qed

definition go_sleep :: "nat \<Rightarrow> u64 \<Rightarrow> psa \<Rightarrow> psa" where
  "go_sleep p w s = sleep_enqueue p w (set_state p SLEEP_MEM s)"

lemma go_sleep_inv:
  assumes inv: "psa_inv s R S" and p: "p < NPROC" "p_state (ptab s p) = KERNEL_RUNNING"
  shows "psa_inv (go_sleep p w s) R (S(sleep_hash_slot w := p # S (sleep_hash_slot w)))"
    and "p_state (ptab (go_sleep p w s) p) = SLEEP_MEM" and "p_wchan (ptab (go_sleep p w s) p) = w"
    and "q \<noteq> p \<Longrightarrow> nolinks (ptab (go_sleep p w s) q) = nolinks (ptab s q)"
    and "p_sig (ptab (go_sleep p w s) p) = p_sig (ptab s p)"
    and "p_sigmask (ptab (go_sleep p w s) p) = p_sigmask (ptab s p)"
    and "current_proc (go_sleep p w s) = current_proc s"
proof -
  let ?k = "sleep_hash_slot w"
  let ?u = "upd_proc p (enter_state SLEEP_MEM) s"
  have set: "set_state p SLEEP_MEM s = ?u" using p(2) by (simp add: set_state_eq valid_transition_def)
  have pR: "p \<notin> set R" using psa_invD(4) [OF inv, of p] p(2) by auto
  have pS: "p \<notin> set (S k)" if "k < SLEEP_HASH_SZ" for k
    using psa_inv_awake [OF inv _ that, of p] p(2) by simp
  have "lists_ok ?u R S" using psa_invD(1) [OF inv] by (simp add: lists_ok_fields)
  note E = sleep_enqueue_lists [OF this pR pS refl sleep_slot_less, of w]
  note sel = sleep_enqueue_sel [OF E(2)]
  have core: "nolinks (ptab (go_sleep p w s) q) =
      (if q = p then (nolinks (ptab ?u p))\<lparr>p_wchan := w\<rparr> else nolinks (ptab s q))" for q
    unfolding go_sleep_def set by (simp add: sel(7))
  then show oth: "nolinks (ptab (go_sleep p w s) q) = nolinks (ptab s q)" if "q \<noteq> p" for q
    using that by simp
  have new: "p_state (ptab (go_sleep p w s) p) = SLEEP_MEM \<and> p_wchan (ptab (go_sleep p w s) p) = w \<and>
      p_sig (ptab (go_sleep p w s) p) = p_sig (ptab s p) \<and>
      p_sigmask (ptab (go_sleep p w s) p) = p_sigmask (ptab s p) \<and>
      p_sched (ptab (go_sleep p w s) p) = p_sched (ptab s p)"
  proof -
    have "nolinks (ptab (go_sleep p w s) p) = nolinks ((ptab ?u p)\<lparr>p_wchan := w\<rparr>)"
      using core [of p] by (simp add: nolinks_def)
    from nolinks_eqD [OF this] show ?thesis by simp
  qed
  then show "p_state (ptab (go_sleep p w s) p) = SLEEP_MEM" "p_wchan (ptab (go_sleep p w s) p) = w"
    "p_sig (ptab (go_sleep p w s) p) = p_sig (ptab s p)"
    "p_sigmask (ptab (go_sleep p w s) p) = p_sigmask (ptab s p)" by auto
  show "current_proc (go_sleep p w s) = current_proc s"
    unfolding go_sleep_def set by (simp add: sel(5))
  have pri: "pri (go_sleep p w s) q = pri s q" for q
    using new nolinks_eqD(2) [OF oth] by (cases "q = p") auto
  have st: "p_state (ptab (go_sleep p w s) q) = (if q = p then SLEEP_MEM else p_state (ptab s q))"
    "p_wchan (ptab (go_sleep p w s) q) = (if q = p then w else p_wchan (ptab s q))" for q
    using new nolinks_eqD(1,3) [OF oth] by auto
  show "psa_inv (go_sleep p w s) R (S(?k := p # S ?k))"
    unfolding psa_inv_def pri st
    using E(1) psa_invD(2-5) [OF inv] pR p(1) sleep_slot_less
    by (auto simp: go_sleep_def set p(2))
qed

lemma sleep_switch_eq:
  "sleep_switch p w s =
    (case runq_head (go_sleep p w s) of
       None \<Rightarrow> go_sleep p w s
     | Some n \<Rightarrow> if n \<noteq> p
         then (sched_dequeue (Some n) (set_state n KERNEL_RUNNING (go_sleep p w s)))\<lparr>current_proc := Some n\<rparr>
         else go_sleep p w s)"
  by (simp add: sleep_switch_def go_sleep_def sched_pick_def Let_def split: option.split)

lemma psa_inv_current [simp]: "psa_inv (s\<lparr>current_proc := c\<rparr>) R S = psa_inv s R S"
proof -
  have "rnx (s\<lparr>current_proc := c\<rparr>) = rnx s" "rpv (s\<lparr>current_proc := c\<rparr>) = rpv s"
    by (auto simp: rnx_def rpv_def)
  then show ?thesis by (simp add: psa_inv_def lists_ok_def)
qed

lemma sleep_switch_inv:
  fixes w :: u64
  assumes inv: "psa_inv s R S" and p: "p < NPROC" "p_state (ptab s p) = KERNEL_RUNNING"
    and cur: "current_proc s = Some p"
  defines "S' \<equiv> S(sleep_hash_slot w := p # S (sleep_hash_slot w))"
  shows "psa_inv (sleep_switch p w s) (tl R) S'"
    and "p_state (ptab (sleep_switch p w s) p) = SLEEP_MEM"
    and "p_wchan (ptab (sleep_switch p w s) p) = w"
    and "current_proc (sleep_switch p w s) = (case R of [] \<Rightarrow> Some p | n # _ \<Rightarrow> Some n)"
    and "R = n # R' \<Longrightarrow> p_state (ptab (sleep_switch p w s) n) = KERNEL_RUNNING"
    and "q \<noteq> p \<Longrightarrow> q \<notin> set (take 1 R) \<Longrightarrow> nolinks (ptab (sleep_switch p w s) q) = nolinks (ptab s q)"
    and "sig_pending (Some p) (sleep_switch p w s) = sig_pending (Some p) s"
proof -
  let ?g = "go_sleep p w s"
  note G = go_sleep_inv [OF inv p, where w = w]
  have ginv: "psa_inv ?g R S'" using G(1) by (simp add: S'_def)
  have head: "runq_head ?g = headp R None"
    using dll_ends [OF lists_okD(1) [OF psa_invD(1) [OF ginv]]] by simp
  have "psa_inv (sleep_switch p w s) (tl R) S' \<and> p_state (ptab (sleep_switch p w s) p) = SLEEP_MEM \<and>
    p_wchan (ptab (sleep_switch p w s) p) = w \<and>
    current_proc (sleep_switch p w s) = (case R of [] \<Rightarrow> Some p | n # _ \<Rightarrow> Some n) \<and>
    (\<forall>n R'. R = n # R' \<longrightarrow> p_state (ptab (sleep_switch p w s) n) = KERNEL_RUNNING) \<and>
    (\<forall>q. q \<noteq> p \<longrightarrow> q \<notin> set (take 1 R) \<longrightarrow> nolinks (ptab (sleep_switch p w s) q) = nolinks (ptab s q)) \<and>
    sig_pending (Some p) (sleep_switch p w s) = sig_pending (Some p) s"
  proof (cases R)
    case Nil
    then have "sleep_switch p w s = ?g" by (simp add: sleep_switch_eq head)
    with Nil G ginv cur show ?thesis by (auto simp: sig_pending_def)
  next
    case (Cons n R')
    have np: "n \<noteq> p" using psa_invD(4) [OF inv, of n] Cons p(2) by auto
    have nst: "p_state (ptab ?g n) = READY" using psa_invD(4) [OF ginv, of n] Cons by simp
    let ?d = "sched_dequeue (Some n) ?g"
    have ginv': "psa_inv ?g ([] @ n # R') S'" using ginv Cons by simp
    have eq: "sleep_switch p w s = (upd_proc n (enter_state KERNEL_RUNNING) ?d)\<lparr>current_proc := Some n\<rparr>"
      using np nst Cons
      by (simp add: sleep_switch_eq head set_state_eq valid_transition_def
          dequeue_enter_state [OF dequeue_lists(2,3) [OF psa_invD(1) [OF ginv']]])
    have dinv: "psa_inv ?d R' S'" and dsame: "nolinks (ptab ?d q) = nolinks (ptab ?g q)" for q
      using dequeue_inv [OF ginv'] by simp_all
    have nR: "n \<notin> set R'"
      using dll_distinct [OF lists_okD(1) [OF psa_invD(1) [OF ginv]]] Cons by simp
    have ndst: "p_state (ptab ?d n) = READY" using nolinks_eqD(1) [OF dsame [of n]] nst by simp
    have "psa_inv (upd_proc n (enter_state KERNEL_RUNNING) ?d) R' S'"
      by (rule psa_inv_enter [OF dinv nR]) (simp_all add: ndst)
    moreover have "p_state (ptab ?d p) = SLEEP_MEM" "p_wchan (ptab ?d p) = w"
      "p_sig (ptab ?d p) = p_sig (ptab s p)" "p_sigmask (ptab ?d p) = p_sigmask (ptab s p)"
      using nolinks_eqD [OF dsame [of p]] G(2,3,5,6) by simp_all
    moreover have "nolinks (ptab ?d q) = nolinks (ptab s q)" if "q \<noteq> p" for q
      using dsame [of q] G(4) [OF that] by simp
    ultimately show ?thesis
      using Cons np by (auto simp: eq sig_pending_def)
  qed
  then show "psa_inv (sleep_switch p w s) (tl R) S'"
    and "p_state (ptab (sleep_switch p w s) p) = SLEEP_MEM"
    and "p_wchan (ptab (sleep_switch p w s) p) = w"
    and "current_proc (sleep_switch p w s) = (case R of [] \<Rightarrow> Some p | n # _ \<Rightarrow> Some n)"
    and "R = n # R' \<Longrightarrow> p_state (ptab (sleep_switch p w s) n) = KERNEL_RUNNING"
    and "q \<noteq> p \<Longrightarrow> q \<notin> set (take 1 R) \<Longrightarrow> nolinks (ptab (sleep_switch p w s) q) = nolinks (ptab s q)"
    and "sig_pending (Some p) (sleep_switch p w s) = sig_pending (Some p) s"
    by blast+
qed

section \<open>Wakeup\<close>

definition woken :: "pstate \<Rightarrow> pstate" where
  "woken st = (if st = SLEEP_MEM then READY else if st = SLEEP_SWAPPED then READY_SWAPPED else st)"

lemma psa_inv_flag [simp]: "psa_inv (s\<lparr>scheduler_flag := c\<rparr>) R S = psa_inv s R S"
proof -
  have "rnx (s\<lparr>scheduler_flag := c\<rparr>) = rnx s" "rpv (s\<lparr>scheduler_flag := c\<rparr>) = rpv s"
    by (auto simp: rnx_def rpv_def)
  then show ?thesis by (simp add: psa_inv_def lists_ok_def)
qed

text \<open>The process taken off its sleep queue, in its new state, before it is enqueued.\<close>

definition roused :: "nat \<Rightarrow> u64 \<Rightarrow> psa \<Rightarrow> psa" where
  "roused p w s = upd_proc p (enter_state (woken (p_state (ptab s p)))) (sleep_dequeue p w s)"

lemma roused_inv:
  assumes inv: "psa_inv s R S" and k: "k = sleep_hash_slot w" "k < SLEEP_HASH_SZ"
    and S: "S k = as @ p # bs"
  shows "psa_inv (roused p w s) R (S(k := as @ bs))"
    and "p_state (ptab (roused p w s) p) = woken (p_state (ptab s p))"
    and "p_wchan (ptab (roused p w s) p) = 0" and "pri (roused p w s) q = pri s q"
    and "q \<noteq> p \<Longrightarrow> nolinks (ptab (roused p w s) q) = nolinks (ptab s q)"
    and "current_proc (roused p w s) = current_proc s"
    and "p_next (ptab s p) = headp bs None" and "p < NPROC" and "sleeping (p_state (ptab s p))"
    and "p \<notin> set R" and "p_state (ptab (sleep_dequeue p w s) p) = p_state (ptab s p)"
proof -
  let ?d = "sleep_dequeue p w s" and ?t = "roused p w s"
  note D = sleep_dequeue_lists [OF psa_invD(1) [OF inv] k S]
  note sel = sleep_dequeue_sel [OF D(2,3), of w]
  have pS: "p \<in> set (S k)" using S by simp
  then show pst: "p < NPROC" "sleeping (p_state (ptab s p))"
    using psa_invD(5) [OF inv k(2)] by blast+
  show pR: "p \<notin> set R" using psa_invD(4) [OF inv, of p] pst(2) by auto
  show "p_next (ptab s p) = headp bs None" by (rule D(4))
  have "distinct (as @ p # bs)"
    using dll_distinct [OF lists_okD(2) [OF psa_invD(1) [OF inv] k(2)]] S by simp
  then have pn: "p \<notin> set (as @ bs)" by auto
  have "nolinks (ptab ?d p) = nolinks ((ptab s p)\<lparr>p_wchan := 0\<rparr>)"
    using sel(7) [of p] by (simp add: nolinks_def)
  note dp = nolinks_eqD [OF this]
  have dq: "nolinks (ptab ?d q) = nolinks (ptab s q)" if "q \<noteq> p" for q
    using sel(7) [of q] that by simp
  show dst: "p_state (ptab ?d p) = p_state (ptab s p)" using dp(1) by simp
  show st: "p_state (ptab ?t p) = woken (p_state (ptab s p))" and wc: "p_wchan (ptab ?t p) = 0"
    using dp by (simp_all add: roused_def)
  show pr: "pri ?t q = pri s q" for q
    using dp(2) nolinks_eqD(2) [OF dq, of q] by (cases "q = p") (auto simp: roused_def)
  show oth: "nolinks (ptab ?t q) = nolinks (ptab s q)" if "q \<noteq> p" for q
    using dq that by (simp add: roused_def)
  show "current_proc ?t = current_proc s" by (simp add: roused_def sel(5))
  have "lists_ok ?t R (S(k := as @ bs))" using D(1) by (simp add: roused_def lists_ok_fields)
  moreover have "p_state (ptab ?t q) = READY" "q < NPROC" if "q \<in> set R" for q
    using psa_invD(3,4) [OF inv that] nolinks_eqD(1) [OF oth, of q] pR that by auto
  moreover have "q \<in> set ((S(k := as @ bs)) j) \<longleftrightarrow>
      q < NPROC \<and> sleeping (p_state (ptab ?t q)) \<and> sleep_hash_slot (p_wchan (ptab ?t q)) = j"
    if j: "j < SLEEP_HASH_SZ" for j q
  proof (cases "q = p")
    case True
    have "p \<notin> set (S j)" if "j \<noteq> k"
      using that psa_invD(5) [OF inv j, of p] psa_invD(5) [OF inv k(2), of p] pS by auto
    with True pn st pst(2) show ?thesis by (auto simp: woken_def)
  next
    case False
    with psa_invD(5) [OF inv j, of q] nolinks_eqD(1,3) [OF oth [OF False]] S show ?thesis
      by (cases "j = k") auto
  qed
  ultimately show "psa_inv ?t R (S(k := as @ bs))"
    using psa_invD(2) [OF inv] unfolding psa_inv_def pr by blast
qed

lemma wake_one_roused:
  assumes "p_state (ptab (sleep_dequeue p w s) p) = p_state (ptab s p)" and "sleeping (p_state (ptab s p))"
  shows "wake_one p w s = Option.bind
    (if p_state (ptab s p) = SLEEP_MEM then sched_enqueue (Some p) (roused p w s) else Some (roused p w s))
    (\<lambda>t. Some (case current_proc t of None \<Rightarrow> t
       | Some c \<Rightarrow> if pri t p < pri t c then t\<lparr>scheduler_flag := 1\<rparr> else t))"
  using assms
  by (auto simp: wake_one_def roused_def woken_def set_state_eq valid_transition_def Let_def
      split: option.split)

lemma wake_one_ok:
  assumes inv: "psa_inv s R S" and k: "k = sleep_hash_slot w" "k < SLEEP_HASH_SZ"
    and S: "S k = as @ p # bs"
  shows "\<exists>t R'. wake_one p w s = Some t \<and> psa_inv t R' (S(k := as @ bs)) \<and>
    p_state (ptab t p) = woken (p_state (ptab s p)) \<and> p_wchan (ptab t p) = 0 \<and>
    (\<forall>q. q \<noteq> p \<longrightarrow> nolinks (ptab t q) = nolinks (ptab s q)) \<and>
    set R' = (if p_state (ptab s p) = SLEEP_MEM then insert p (set R) else set R) \<and>
    current_proc t = current_proc s \<and> (\<forall>q. pri t q = pri s q)"
proof -
  note U = roused_inv [OF inv k S]
  let ?u = "roused p w s"
  define fl where "fl t = (case current_proc t of None \<Rightarrow> t
       | Some c \<Rightarrow> if pri t p < pri t c then t\<lparr>scheduler_flag := 1\<rparr> else t)" for t
  have fl: "psa_inv (fl t) R S = psa_inv t R S" "ptab (fl t) = ptab t" "current_proc (fl t) = current_proc t"
    for t R S by (auto simp: fl_def split: option.split)
  show ?thesis
  proof (cases "p_state (ptab s p) = SLEEP_MEM")
    case True
    then have "p_state (ptab ?u p) = READY" using U(2) by (simp add: woken_def)
    from enqueue_inv [OF U(1) U(8) this U(10)] obtain t as' bs' where
      t: "sched_enqueue (Some p) ?u = Some t" "R = as' @ bs'" "psa_inv t (as' @ p # bs') (S(k := as @ bs))"
      "\<forall>q. nolinks (ptab t q) = nolinks (ptab ?u q)" "current_proc t = current_proc ?u" by blast
    have "wake_one p w s = Some (fl t)"
      unfolding wake_one_roused [OF U(11) U(9)] fl_def using True t(1) by simp
    moreover have "p_state (ptab t p) = woken (p_state (ptab s p))" "p_wchan (ptab t p) = 0"
      using nolinks_eqD(1,3) [OF t(4) [rule_format, of p]] U(2,3) by simp_all
    moreover have "pri t q = pri s q" for q
      using nolinks_eqD(2) [OF t(4) [rule_format, of q]] U(4) [of q] by simp
    ultimately show ?thesis
      using t U(5,6) True
      by (intro exI [of _ "fl t"] exI [of _ "as' @ p # bs'"]) (auto simp: fl)
  next
    case False
    then have "wake_one p w s = Some (fl ?u)"
      unfolding wake_one_roused [OF U(11) U(9)] fl_def by simp
    with U False show ?thesis
      by (intro exI [of _ "fl ?u"] exI [of _ R]) (auto simp: fl)
  qed
qed

lemma wake_loop_ok:
  assumes "psa_inv s R S" and "S k = pre @ xs" and "k = sleep_hash_slot w" and "k < SLEEP_HASH_SZ"
  shows "\<exists>t R'. wake_loop w (headp xs None) s = Some t \<and>
    psa_inv t R' (S(k := pre @ filter (\<lambda>q. p_wchan (ptab s q) \<noteq> w) xs)) \<and>
    (\<forall>q\<in>set xs. p_wchan (ptab s q) = w \<longrightarrow>
       p_state (ptab t q) = woken (p_state (ptab s q)) \<and> p_wchan (ptab t q) = 0) \<and>
    (\<forall>q. q \<notin> set xs \<or> p_wchan (ptab s q) \<noteq> w \<longrightarrow> nolinks (ptab t q) = nolinks (ptab s q)) \<and>
    set R' = set R \<union> {q \<in> set xs. p_wchan (ptab s q) = w \<and> p_state (ptab s q) = SLEEP_MEM} \<and>
    current_proc t = current_proc s \<and> (\<forall>q. pri t q = pri s q)"
  using assms
proof (induction xs arbitrary: s R S pre)
  case Nil
  then have "S(k := pre) = S" by auto
  with Nil show ?case
    by (intro exI [of _ s] exI [of _ R]) (simp add: wake_loop.simps)
next
  case (Cons x xs)
  have dist: "distinct (pre @ x # xs)"
    using dll_distinct [OF lists_okD(2) [OF psa_invD(1) [OF Cons.prems(1)] Cons.prems(4)]] Cons.prems(2) by simp
  have nxt: "p_next (ptab s x) = headp xs None"
    by (rule roused_inv(7) [OF Cons.prems(1,3,4,2)])
  show ?case
  proof (cases "p_wchan (ptab s x) = w")
    case True
    from wake_one_ok [OF Cons.prems(1,3,4,2)] obtain u R1 where
      u: "wake_one x w s = Some u" "psa_inv u R1 (S(k := pre @ xs))"
      "p_state (ptab u x) = woken (p_state (ptab s x))" "p_wchan (ptab u x) = 0"
      "\<forall>q. q \<noteq> x \<longrightarrow> nolinks (ptab u q) = nolinks (ptab s q)"
      "set R1 = (if p_state (ptab s x) = SLEEP_MEM then insert x (set R) else set R)"
      "current_proc u = current_proc s" "\<forall>q. pri u q = pri s q" by blast
    have same: "p_wchan (ptab u q) = p_wchan (ptab s q)" "p_state (ptab u q) = p_state (ptab s q)"
      if "q \<in> set xs" for q
    proof -
      have "q \<noteq> x" using that dist by auto
      then have "nolinks (ptab u q) = nolinks (ptab s q)" using u(5) by simp
      from nolinks_eqD(1,3) [OF this]
      show "p_wchan (ptab u q) = p_wchan (ptab s q)" "p_state (ptab u q) = p_state (ptab s q)" by simp_all
    qed
    have filt: "filter (\<lambda>q. p_wchan (ptab u q) \<noteq> w) xs = filter (\<lambda>q. p_wchan (ptab s q) \<noteq> w) xs"
      by (rule filter_cong) (simp_all add: same)
    have sk: "(S(k := pre @ xs)) k = pre @ xs" by simp
    have step: "wake_loop w (headp (x # xs) None) s = wake_loop w (headp xs None) u"
      using True u(1) nxt by (subst wake_loop.simps) simp
    from Cons.IH [OF u(2) sk Cons.prems(3,4)] obtain t R2 where
      t: "wake_loop w (headp xs None) u = Some t"
      "psa_inv t R2 ((S(k := pre @ xs))(k := pre @ filter (\<lambda>q. p_wchan (ptab u q) \<noteq> w) xs))"
      "\<forall>q\<in>set xs. p_wchan (ptab u q) = w \<longrightarrow>
         p_state (ptab t q) = woken (p_state (ptab u q)) \<and> p_wchan (ptab t q) = 0"
      "\<forall>q. q \<notin> set xs \<or> p_wchan (ptab u q) \<noteq> w \<longrightarrow> nolinks (ptab t q) = nolinks (ptab u q)"
      "set R2 = set R1 \<union> {q \<in> set xs. p_wchan (ptab u q) = w \<and> p_state (ptab u q) = SLEEP_MEM}"
      "current_proc t = current_proc u" "\<forall>q. pri t q = pri u q" by blast
    have tx: "nolinks (ptab t x) = nolinks (ptab u x)" using t(4) dist by auto
    show ?thesis
    proof (intro exI [of _ t] exI [of _ R2] conjI ballI allI impI)
      show "wake_loop w (headp (x # xs) None) s = Some t" using step t(1) by simp
      show "psa_inv t R2 (S(k := pre @ filter (\<lambda>q. p_wchan (ptab s q) \<noteq> w) (x # xs)))"
        using t(2) True filt by simp
      show "p_state (ptab t q) = woken (p_state (ptab s q))" "p_wchan (ptab t q) = 0"
        if "q \<in> set (x # xs)" "p_wchan (ptab s q) = w" for q
        using that t(3) same [of q] nolinks_eqD(1,3) [OF tx] u(3,4) by (cases "q = x"; simp)+
      show "nolinks (ptab t q) = nolinks (ptab s q)"
        if "q \<notin> set (x # xs) \<or> p_wchan (ptab s q) \<noteq> w" for q
      proof -
        have "q \<noteq> x" using that True by auto
        moreover have "q \<notin> set xs \<or> p_wchan (ptab u q) \<noteq> w" using that same [of q] by auto
        ultimately show ?thesis using t(4) u(5) by simp
      qed
      show "set R2 = set R \<union> {q \<in> set (x # xs). p_wchan (ptab s q) = w \<and> p_state (ptab s q) = SLEEP_MEM}"
        unfolding t(5) u(6) using True same by auto
      show "current_proc t = current_proc s" using t(6) u(7) by simp
      show "pri t q = pri s q" for q using t(7) u(8) by simp
    qed
  next
    case False
    have sk: "S k = (pre @ [x]) @ xs" using Cons.prems(2) by simp
    have step: "wake_loop w (headp (x # xs) None) s = wake_loop w (headp xs None) s"
      using False nxt by (subst wake_loop.simps) simp
    from Cons.IH [OF Cons.prems(1) sk Cons.prems(3,4)] obtain t R' where
      t: "wake_loop w (headp xs None) s = Some t"
      "psa_inv t R' (S(k := (pre @ [x]) @ filter (\<lambda>q. p_wchan (ptab s q) \<noteq> w) xs))"
      "\<forall>q\<in>set xs. p_wchan (ptab s q) = w \<longrightarrow>
         p_state (ptab t q) = woken (p_state (ptab s q)) \<and> p_wchan (ptab t q) = 0"
      "\<forall>q. q \<notin> set xs \<or> p_wchan (ptab s q) \<noteq> w \<longrightarrow> nolinks (ptab t q) = nolinks (ptab s q)"
      "set R' = set R \<union> {q \<in> set xs. p_wchan (ptab s q) = w \<and> p_state (ptab s q) = SLEEP_MEM}"
      "current_proc t = current_proc s" "\<forall>q. pri t q = pri s q" by blast
    have a: "set R' = set R \<union> {q \<in> set (x # xs). p_wchan (ptab s q) = w \<and> p_state (ptab s q) = SLEEP_MEM}"
      using False t(5) by auto
    have eq: "(pre @ [x]) @ filter (\<lambda>q. p_wchan (ptab s q) \<noteq> w) xs =
        pre @ filter (\<lambda>q. p_wchan (ptab s q) \<noteq> w) (x # xs)" using False by simp
    have b: "psa_inv t R' (S(k := pre @ filter (\<lambda>q. p_wchan (ptab s q) \<noteq> w) (x # xs)))"
      using t(2) unfolding eq .
    have c: "\<forall>q\<in>set (x # xs). p_wchan (ptab s q) = w \<longrightarrow>
         p_state (ptab t q) = woken (p_state (ptab s q)) \<and> p_wchan (ptab t q) = 0"
      using t(3) False by simp
    have d: "\<forall>q. q \<notin> set (x # xs) \<or> p_wchan (ptab s q) \<noteq> w \<longrightarrow> nolinks (ptab t q) = nolinks (ptab s q)"
      using t(4) by simp
    show ?thesis unfolding step using t(1,6,7) a b c d by blast
  qed
qed

lemma wakeup_ok:
  assumes inv: "psa_inv s R S"
  shows "\<exists>t R'. proc_wakeup w s = Some t \<and>
    psa_inv t R' (S(sleep_hash_slot w := filter (\<lambda>q. p_wchan (ptab s q) \<noteq> w) (S (sleep_hash_slot w)))) \<and>
    (\<forall>q. q < NPROC \<and> sleeping (p_state (ptab s q)) \<and> p_wchan (ptab s q) = w \<longrightarrow>
       p_state (ptab t q) = woken (p_state (ptab s q)) \<and> p_wchan (ptab t q) = 0) \<and>
    (\<forall>q. \<not> (q < NPROC \<and> sleeping (p_state (ptab s q)) \<and> p_wchan (ptab s q) = w) \<longrightarrow>
       nolinks (ptab t q) = nolinks (ptab s q)) \<and>
    set R' = set R \<union> {q. q < NPROC \<and> p_wchan (ptab s q) = w \<and> p_state (ptab s q) = SLEEP_MEM} \<and>
    current_proc t = current_proc s \<and> (\<forall>q. pri t q = pri s q)"
proof -
  let ?k = "sleep_hash_slot w"
  have mem: "q \<in> set (S ?k) \<and> p_wchan (ptab s q) = w \<longleftrightarrow>
      q < NPROC \<and> sleeping (p_state (ptab s q)) \<and> p_wchan (ptab s q) = w" for q
    using psa_invD(5) [OF inv sleep_slot_less] by auto
  have "sq_head (sleep_hash s ?k) = headp (S ?k) None"
    using dll_ends [OF lists_okD(2) [OF psa_invD(1) [OF inv] sleep_slot_less]] by simp
  then have eq: "proc_wakeup w s = wake_loop w (headp (S ?k) None) s" by (simp add: proc_wakeup_def)
  have pre: "S ?k = [] @ S ?k" by simp
  from wake_loop_ok [OF inv pre refl sleep_slot_less] obtain t R' where
    t: "wake_loop w (headp (S ?k) None) s = Some t"
    "psa_inv t R' (S(?k := filter (\<lambda>q. p_wchan (ptab s q) \<noteq> w) (S ?k)))"
    "\<forall>q\<in>set (S ?k). p_wchan (ptab s q) = w \<longrightarrow>
       p_state (ptab t q) = woken (p_state (ptab s q)) \<and> p_wchan (ptab t q) = 0"
    "\<forall>q. q \<notin> set (S ?k) \<or> p_wchan (ptab s q) \<noteq> w \<longrightarrow> nolinks (ptab t q) = nolinks (ptab s q)"
    "set R' = set R \<union> {q \<in> set (S ?k). p_wchan (ptab s q) = w \<and> p_state (ptab s q) = SLEEP_MEM}"
    "current_proc t = current_proc s" "\<forall>q. pri t q = pri s q" by auto
  have "{q \<in> set (S ?k). p_wchan (ptab s q) = w \<and> p_state (ptab s q) = SLEEP_MEM} =
      {q. q < NPROC \<and> p_wchan (ptab s q) = w \<and> p_state (ptab s q) = SLEEP_MEM}"
    using mem by auto
  then have "set R' = set R \<union> {q. q < NPROC \<and> p_wchan (ptab s q) = w \<and> p_state (ptab s q) = SLEEP_MEM}"
    using t(5) by simp
  moreover have "p_state (ptab t q) = woken (p_state (ptab s q)) \<and> p_wchan (ptab t q) = 0"
    if "q < NPROC \<and> sleeping (p_state (ptab s q)) \<and> p_wchan (ptab s q) = w" for q
    using t(3) mem [of q] that by blast
  moreover have "nolinks (ptab t q) = nolinks (ptab s q)"
    if "\<not> (q < NPROC \<and> sleeping (p_state (ptab s q)) \<and> p_wchan (ptab s q) = w)" for q
    using t(4) mem [of q] that by blast
  ultimately show ?thesis
    unfolding eq using t(1,2,6,7) by blast
qed

section \<open>The process table provides wait channels and a pool of slots\<close>

definition psa_ok :: "psa \<Rightarrow> bool" where
  "psa_ok s \<longleftrightarrow> (\<exists>R S. psa_inv s R S)"

definition psa_waiting :: "psa \<Rightarrow> u64 \<Rightarrow> nat set" where
  "psa_waiting s w = {q. q < NPROC \<and> sleeping (p_state (ptab s q)) \<and> p_wchan (ptab s q) = w}"

interpretation psa_channels: wait_channels psa_ok psa_waiting proc_wakeup
proof
  fix s c assume "psa_ok s"
  then obtain R S where inv: "psa_inv s R S" by (auto simp: psa_ok_def)
  from wakeup_ok [OF inv, of c] obtain t R' where
    t: "proc_wakeup c s = Some t"
    "psa_inv t R' (S(sleep_hash_slot c := filter (\<lambda>q. p_wchan (ptab s q) \<noteq> c) (S (sleep_hash_slot c))))"
    "\<forall>q. q < NPROC \<and> sleeping (p_state (ptab s q)) \<and> p_wchan (ptab s q) = c \<longrightarrow>
       p_state (ptab t q) = woken (p_state (ptab s q)) \<and> p_wchan (ptab t q) = 0"
    "\<forall>q. \<not> (q < NPROC \<and> sleeping (p_state (ptab s q)) \<and> p_wchan (ptab s q) = c) \<longrightarrow>
       nolinks (ptab t q) = nolinks (ptab s q)" by blast
  have mem: "q \<in> psa_waiting t d \<longleftrightarrow> q \<in> psa_waiting s d \<and> d \<noteq> c" for q d
  proof (cases "q < NPROC \<and> sleeping (p_state (ptab s q)) \<and> p_wchan (ptab s q) = c")
    case True
    with t(3) have "p_state (ptab t q) = woken (p_state (ptab s q))" by blast
    with True show ?thesis by (auto simp: psa_waiting_def woken_def)
  next
    case False
    with t(4) nolinks_eqD(1,3) [of "ptab t q" "ptab s q"] show ?thesis
      by (auto simp: psa_waiting_def)
  qed
  have "psa_ok t" using t(2) by (auto simp: psa_ok_def)
  moreover have "psa_waiting t c = {}" "\<forall>d. d \<noteq> c \<longrightarrow> psa_waiting t d = psa_waiting s d"
    using mem by blast+
  ultimately show "\<exists>t. proc_wakeup c s = Some t \<and> psa_ok t \<and> psa_waiting t c = {} \<and>
      (\<forall>d. d \<noteq> c \<longrightarrow> psa_waiting t d = psa_waiting s d)"
    using t(1) by blast
qed

definition proc_used :: "psa \<Rightarrow> nat \<Rightarrow> bool" where
  "proc_used s i \<longleftrightarrow> p_state (ptab s i) \<noteq> UNUSED"

interpretation proc_slots: slot_pool NPROC proc_used "proc_alloc pid ppid" "\<lambda>i. proc_free (Some i)"
  for pid ppid
proof
  show "fst (proc_alloc pid ppid s) = first_idx (\<lambda>i. \<not> proc_used s i) NPROC" for s
    by (simp add: proc_alloc_def proc_used_def Let_def split: option.split)
  show "proc_used (snd (proc_alloc pid ppid s)) = (proc_used s)(i := True)"
    if "fst (proc_alloc pid ppid s) = Some i" for s i
    using that by (auto simp: proc_alloc_def proc_used_def Let_def fun_eq_iff
        split: option.splits if_splits)
  show "snd (proc_alloc pid ppid s) = s" if "fst (proc_alloc pid ppid s) = None" for s
    using that by (auto simp: proc_alloc_def Let_def split: option.splits if_splits)
  show "proc_used (proc_free (Some i) s) = (proc_used s)(i := False)" for i s
    by (auto simp: proc_free_def proc_used_def fun_eq_iff)
qed

section \<open>Runs of the state machine of one process\<close>

text \<open>A call of \<open>proc_set_state\<close> on slot \<open>i\<close> with any value whatever.\<close>

inductive state_step :: "nat \<Rightarrow> psa \<Rightarrow> psa \<Rightarrow> bool" for i where
  "proc_set_state (Some i) n s = (r, t) \<Longrightarrow> state_step i s t"

inductive_cases state_stepE: "state_step i s t"
inductive_simps state_step_iff: "state_step i s t"

definition swapped :: "pstate \<Rightarrow> bool" where
  "swapped st \<longleftrightarrow> st = READY_SWAPPED \<or> st = SLEEP_SWAPPED"

lemma P_SWAPPED_flag [simp]: "has (setf P_SWAPPED x) P_SWAPPED" "\<not> has (clrf P_SWAPPED x) P_SWAPPED"
proof -
  have bits: "bit (setf P_SWAPPED x) 4" "\<not> bit (clrf P_SWAPPED x) 4"
    unfolding P_SWAPPED_def by (subst bit_setf; simp) (subst bit_clrf; simp)
  have "has y P_SWAPPED \<longleftrightarrow> bit y 4" for y
    unfolding P_SWAPPED_def by (rule has_push_bit) simp
  with bits show "has (setf P_SWAPPED x) P_SWAPPED" "\<not> has (clrf P_SWAPPED x) P_SWAPPED" by simp_all
qed

lemma state_step_cases:
  assumes "state_step i s t"
  shows "t = s \<or> (\<exists>new. valid_transition (p_state (ptab s i)) new \<and> t = upd_proc i (enter_state new) s)"
  using assms by (auto simp: proc_set_state_def elim!: state_stepE split: if_splits option.splits)

lemma enter_state_flag: "has (p_flag (enter_state st x)) P_SWAPPED \<longleftrightarrow> swapped st"
  by (simp add: enter_state_def Let_def swapped_def)

section \<open>A concrete table\<close>

text \<open>Process 0 runs, 1 is ready, 2 sleeps on channel \<open>0x100\<close>, which hashes to bucket 0.\<close>

definition psa_demo :: psa where
  "psa_demo = \<lparr>ptab = (\<lambda>i. if i = 0 then zero_proc\<lparr>p_state := KERNEL_RUNNING, p_pid := 3, p_sched := \<lparr>p_pri = 50, p_cpu = 0, p_nice = 0, p_time = 0\<rparr>\<rparr>
       else if i = 1 then zero_proc\<lparr>p_state := READY, p_pid := 4, p_sched := \<lparr>p_pri = 40, p_cpu = 0, p_nice = 0, p_time = 0\<rparr>\<rparr>
       else if i = 2 then zero_proc\<lparr>p_state := SLEEP_MEM, p_pid := 5, p_wchan := 0x100\<rparr>
       else zero_proc),
     current_proc = Some 0, runq_head = Some 1, next_pid = 5,
     sleep_hash = (\<lambda>k. if k = 0 then \<lparr>sq_head = Some 2, sq_tail = Some 2\<rparr> else \<lparr>sq_head = None, sq_tail = None\<rparr>),
     scheduler_flag = 0, u_abort = (\<lambda>i. 0), u_error = (\<lambda>i. 0)\<rparr>"

definition demo_sleepers :: "nat \<Rightarrow> nat list" where
  "demo_sleepers k = (if k = 0 then [2] else [])"

lemma slot_0x100: "sleep_hash_slot 0x100 = 0"
  by (simp add: sleep_hash_slot_def SLEEP_HASH_SZ_def drop_bit_eq_div)

lemma psa_demo_inv: "psa_inv psa_demo [1] demo_sleepers"
  by (auto simp: psa_inv_def lists_ok_def dll_def psa_demo_def demo_sleepers_def rnx_def rpv_def
      zero_proc_def NPROC_def SLEEP_HASH_SZ_def slot_0x100 lastp_def)

lemma psa_demo_sel:
  "p_state (ptab psa_demo 0) = KERNEL_RUNNING" "current_proc psa_demo = Some 0"
  "p_sig (ptab psa_demo 0) = 0" "p_state (ptab psa_demo 2) = SLEEP_MEM" "p_wchan (ptab psa_demo 2) = 0x100"
  "pri psa_demo 1 = 40"
  by (simp_all add: psa_demo_def zero_proc_def)

section \<open>Properties\<close>

text \<open>C31: the state machine is closed. Whatever values are passed to \<open>proc_set_state\<close>, from a
  newly allocated slot on: the slot is never UNUSED again, \<open>P_SWAPPED\<close> is set exactly in the
  two swapped states, other slots are not touched, and a ZOMBIE stays as it is for ever.\<close>

theorem state_machine_closed:
  assumes "(state_step i)\<^sup>*\<^sup>* s t" and "p_state (ptab s i) \<noteq> UNUSED"
    and "has (p_flag (ptab s i)) P_SWAPPED \<longleftrightarrow> swapped (p_state (ptab s i))"
  shows "p_state (ptab t i) \<noteq> UNUSED \<and>
    (has (p_flag (ptab t i)) P_SWAPPED \<longleftrightarrow> swapped (p_state (ptab t i))) \<and>
    (\<forall>j. j \<noteq> i \<longrightarrow> ptab t j = ptab s j) \<and> (p_state (ptab s i) = ZOMBIE \<longrightarrow> t = s)"
  using assms
proof (induction rule: rtranclp_induct)
  case (step u t)
  from state_step_cases [OF step.hyps(2)] step.IH [OF step.prems] show ?case
  proof (elim disjE exE conjE)
    fix new assume v: "valid_transition (p_state (ptab u i)) new" and t: "t = upd_proc i (enter_state new) u"
      and IH: "\<forall>j. j \<noteq> i \<longrightarrow> ptab u j = ptab s j" "p_state (ptab s i) = ZOMBIE \<longrightarrow> u = s"
    have "new \<noteq> UNUSED" using v by (auto simp: valid_transition_def split: pstate.splits)
    moreover have "p_state (ptab s i) \<noteq> ZOMBIE"
      using v IH(2) by (auto simp: valid_transition_def)
    ultimately show ?thesis using IH(1) by (simp add: t enter_state_flag)
  qed auto
qed simp

theorem state_machine_closed_witness:
  "(\<exists>t. (state_step 2)\<^sup>*\<^sup>* psa_demo t \<and> p_state (ptab t 2) = SLEEP_SWAPPED \<and> has (p_flag (ptab t 2)) P_SWAPPED)"
proof -
  let ?t = "upd_proc 2 (enter_state SLEEP_SWAPPED) psa_demo"
  have "proc_set_state (Some 2) 6 psa_demo = (0, ?t)"
    by (simp add: proc_set_state_def state_num_def state_of_def all_states_def psa_demo_sel valid_transition_def)
  then have run: "(state_step 2)\<^sup>*\<^sup>* psa_demo ?t" by (intro r_into_rtranclp) (auto simp: state_step_iff)
  have "has (p_flag (ptab ?t 2)) P_SWAPPED \<longleftrightarrow> swapped (p_state (ptab ?t 2))"
    using state_machine_closed [OF run] by (simp add: psa_demo_sel swapped_def)
      (simp add: psa_demo_def zero_proc_def has_def)
  with run show ?thesis by (intro exI [of _ ?t]) (simp add: swapped_def)
qed

text \<open>\<open>sched_enqueue\<close> keeps the ready queue in priority order and is fair among equals:
  the process goes behind every one of a better or the same priority and before every
  worse one, nothing else moves, and \<open>sched_pick\<close> always answers the first of the best.\<close>

theorem enqueue_by_priority:
  assumes "psa_inv s R S" and "p < NPROC" and "p_state (ptab s p) = READY" and "p \<notin> set R"
  shows "\<exists>t as bs. sched_enqueue (Some p) s = Some t \<and> R = as @ bs \<and> psa_inv t (as @ p # bs) S \<and>
    (\<forall>a\<in>set as. pri s a \<le> pri s p) \<and> (\<forall>b\<in>set bs. pri s p < pri s b) \<and>
    sched_pick t = Some (hd (as @ [p])) \<and> (\<forall>q\<in>set (p # R). pri t (hd (as @ [p])) \<le> pri t q)"
proof -
  from enqueue_inv [OF assms] obtain t as bs where t: "sched_enqueue (Some p) s = Some t" "R = as @ bs"
    "psa_inv t (as @ p # bs) S" "\<forall>a\<in>set as. pri s a \<le> pri s p" "\<forall>b\<in>set bs. pri s p < pri s b" by blast
  have "runq_head t = headp (as @ p # bs) None"
    using dll_ends [OF lists_okD(1) [OF psa_invD(1) [OF t(3)]]] by simp
  then have "sched_pick t = Some (hd (as @ [p]))" by (cases as) (simp_all add: sched_pick_def)
  moreover have "\<forall>q\<in>set (p # R). pri t (hd (as @ [p])) \<le> pri t q"
    using psa_invD(2) [OF t(3)] t(2) by (cases as) (auto simp: sorted_append)
  ultimately show ?thesis using t by blast
qed

theorem enqueue_by_priority_witness:
  "\<exists>t. sched_enqueue (Some 3) (upd_proc 3 (enter_state READY) psa_demo) = Some t \<and> sched_pick t = Some 3"
proof -
  let ?s = "upd_proc 3 (enter_state READY) psa_demo"
  have inv: "psa_inv ?s [1] demo_sleepers"
    by (rule psa_inv_enter [OF psa_demo_inv]) (simp_all add: psa_demo_def zero_proc_def)
  have lt: "pri ?s 3 < pri ?s 1" by (simp add: psa_demo_def zero_proc_def)
  from enqueue_by_priority [OF inv, of 3] obtain t as bs where
    t: "sched_enqueue (Some 3) ?s = Some t" "[1] = as @ bs" "\<forall>a\<in>set as. pri ?s a \<le> pri ?s 3"
    "sched_pick t = Some (hd (as @ [3]))" by (auto simp: NPROC_def)
  from t(2,3) lt have "as = []" by (cases as) auto
  with t show ?thesis by auto
qed

text \<open>A process that sleeps (uninterruptibly, or with no deliverable signal) returns 0 from
  \<open>proc_sleep\<close> with itself asleep in memory on its channel's queue, and the best ready
  process taken off the ready queue and running; every other entry is untouched.\<close>

theorem sleep_switches:
  assumes inv: "psa_inv s R S" and cur: "current_proc s = Some p" and p: "p < NPROC"
    "p_state (ptab s p) = KERNEL_RUNNING"
    and quiet: "\<not> interruptible \<or> priority \<le> PZERO \<or> sig_pending (Some p) s = 0"
  shows "\<exists>t. proc_sleep w priority interruptible s = (0, t) \<and>
    psa_inv t (tl R) (S(sleep_hash_slot w := p # S (sleep_hash_slot w))) \<and>
    p_state (ptab t p) = SLEEP_MEM \<and> p_wchan (ptab t p) = w \<and>
    (case R of [] \<Rightarrow> current_proc t = Some p
     | n # _ \<Rightarrow> current_proc t = Some n \<and> p_state (ptab t n) = KERNEL_RUNNING) \<and>
    (\<forall>q. q \<noteq> p \<and> q \<notin> set (take 1 R) \<longrightarrow> nolinks (ptab t q) = nolinks (ptab s q))"
proof -
  note W = sleep_switch_inv [OF inv p cur, where w = w]
  have "proc_sleep w priority interruptible s = (0, sleep_switch p w s)"
    using quiet W(7) by (auto simp: proc_sleep_def cur Let_def)
  with W(1-4,6) W(5) show ?thesis by (intro exI [of _ "sleep_switch p w s"]) (auto split: list.split)
qed

theorem sleep_switches_witness:
  "\<exists>t. proc_sleep 0x200 30 True psa_demo = (0, t) \<and> p_state (ptab t 0) = SLEEP_MEM \<and>
     current_proc t = Some 1"
  using sleep_switches [OF psa_demo_inv psa_demo_sel(2), where w = "0x200" and priority = 30 and interruptible = True]
  by (auto simp: psa_demo_sel NPROC_def sig_pending_def)

text \<open>C11: \<open>proc_wakeup\<close> ends, and wakes exactly the channel's sleepers. Each of them leaves the
  sleep queue, a resident one becomes READY and joins the ready queue, a swapped one
  becomes READY\<open>_\<close>SWAPPED and does not; every other process is untouched, those that share
  the hash bucket included.\<close>

theorem wakeup_exact:
  assumes "psa_inv s R S"
  shows "\<exists>t R'. proc_wakeup w s = Some t \<and>
    psa_inv t R' (S(sleep_hash_slot w := filter (\<lambda>q. p_wchan (ptab s q) \<noteq> w) (S (sleep_hash_slot w)))) \<and>
    set R' = set R \<union> {q. q < NPROC \<and> p_wchan (ptab s q) = w \<and> p_state (ptab s q) = SLEEP_MEM} \<and>
    (\<forall>q\<in>psa_waiting s w. p_state (ptab t q) = woken (p_state (ptab s q)) \<and> p_wchan (ptab t q) = 0) \<and>
    (\<forall>q. q \<notin> psa_waiting s w \<longrightarrow> nolinks (ptab t q) = nolinks (ptab s q)) \<and>
    psa_waiting t w = {} \<and> current_proc t = current_proc s"
proof -
  from wakeup_ok [OF assms, of w] obtain t R' where t: "proc_wakeup w s = Some t"
    "psa_inv t R' (S(sleep_hash_slot w := filter (\<lambda>q. p_wchan (ptab s q) \<noteq> w) (S (sleep_hash_slot w))))"
    "\<forall>q. q < NPROC \<and> sleeping (p_state (ptab s q)) \<and> p_wchan (ptab s q) = w \<longrightarrow>
       p_state (ptab t q) = woken (p_state (ptab s q)) \<and> p_wchan (ptab t q) = 0"
    "\<forall>q. \<not> (q < NPROC \<and> sleeping (p_state (ptab s q)) \<and> p_wchan (ptab s q) = w) \<longrightarrow>
       nolinks (ptab t q) = nolinks (ptab s q)"
    "set R' = set R \<union> {q. q < NPROC \<and> p_wchan (ptab s q) = w \<and> p_state (ptab s q) = SLEEP_MEM}"
    "current_proc t = current_proc s" by blast
  have "psa_ok s" using assms by (auto simp: psa_ok_def)
  with psa_channels.wakeup_channel [of s w] t(1) have "psa_waiting t w = {}" by auto
  moreover have "\<forall>q\<in>psa_waiting s w. p_state (ptab t q) = woken (p_state (ptab s q)) \<and> p_wchan (ptab t q) = 0"
    using t(3) by (simp add: psa_waiting_def)
  moreover have "\<forall>q. q \<notin> psa_waiting s w \<longrightarrow> nolinks (ptab t q) = nolinks (ptab s q)"
    using t(4) by (simp add: psa_waiting_def)
  ultimately show ?thesis using t(1,2,5,6) by blast
qed

theorem wakeup_exact_witness:
  "\<exists>t. proc_wakeup 0x100 psa_demo = Some t \<and> p_state (ptab t 2) = READY \<and> psa_waiting t 0x100 = {}"
proof -
  have "2 \<in> psa_waiting psa_demo 0x100" by (simp add: psa_waiting_def psa_demo_sel NPROC_def)
  with wakeup_exact [OF psa_demo_inv, of "0x100"] show ?thesis
    by (auto simp: psa_demo_sel woken_def)
qed

text \<open>\<open>proc_sleep\<close> never reports an uncaught signal. Its last branch, which returns -1 and
  raises EINTR and the abort flag, is behind a test that the interruptible branch always
  passes: a pending signal always gives 1, and the u areas never change.\<close>

theorem sleep_never_aborts:
  "fst (proc_sleep w priority interruptible s) \<in> {0, 1} \<and>
   u_error (snd (proc_sleep w priority interruptible s)) = u_error s \<and>
   u_abort (snd (proc_sleep w priority interruptible s)) = u_abort s"
proof -
  have D: "u_error (sched_dequeue p t) = u_error t \<and> u_abort (sched_dequeue p t) = u_abort t" for p t
    by (simp add: sched_dequeue_def Let_def split: option.split)
  have E: "u_error (sleep_enqueue p v t) = u_error t \<and> u_abort (sleep_enqueue p v t) = u_abort t" for p v t
    by (simp add: sleep_enqueue_def Let_def upd_sq_def split: option.split)
  have "u_error (set_state i st t) = u_error t \<and> u_abort (set_state i st t) = u_abort t" for i st t
    by (simp add: set_state_eq)
  with D E have "u_error (sleep_switch p w s) = u_error s \<and> u_abort (sleep_switch p w s) = u_abort s" for p
    by (simp add: sleep_switch_def Let_def split: option.split)
  then show ?thesis by (auto simp: proc_sleep_def Let_def split: option.split)
qed

text \<open>The PID counter hands out PIDs that are in use. It restarts at 2 when it reaches the
  table's size and nothing checks the table, so a process that asks for a new PID can get
  one that a live process has, and \<open>proc_find\<close> then finds only one of the two.\<close>

theorem alloc_pid_collides:
  assumes "j < NPROC" and "p_state (ptab s j) \<noteq> UNUSED" and "p_pid (ptab s j) = next_pid s + 1"
    and "fst (proc_alloc 0 ppid s) = Some i" and "i \<noteq> j"
  shows "\<exists>t. proc_alloc 0 ppid s = (Some i, t) \<and> p_state (ptab t i) = CREATED \<and>
    p_pid (ptab t i) = p_pid (ptab t j) \<and> p_state (ptab t j) \<noteq> UNUSED \<and>
    proc_find (p_pid (ptab t i)) t \<noteq> Some (max i j)"
proof -
  obtain t where t: "proc_alloc 0 ppid s = (Some i, t)" using assms(4) by (metis prod.collapse)
  have i: "i < NPROC" using proc_slots.alloc_fresh(1) [OF t] .
  have pt: "ptab t = (ptab s)(i := zero_proc\<lparr>p_state := CREATED, p_ppid := ppid, p_pid := next_pid s + 1\<rparr>)"
    using t by (auto simp: proc_alloc_def Let_def zero_proc_def split: option.splits if_splits)
  have m: "p_state (ptab t k) \<noteq> UNUSED \<and> p_pid (ptab t k) = next_pid s + 1" if "k = i \<or> k = j" for k
    using that pt assms by auto
  have "proc_find (next_pid s + 1) t \<noteq> Some (max i j)"
  proof
    assume "proc_find (next_pid s + 1) t = Some (max i j)"
    from first_idx_SomeD(3) [OF this [unfolded proc_find_def], of "min i j"] m [of "min i j"] assms(5)
    show False by (cases "i < j") (auto simp: min_def max_def)
  qed
  moreover have "p_pid (ptab t i) = next_pid s + 1" "p_pid (ptab t j) = next_pid s + 1"
    "p_state (ptab t i) = CREATED" "p_state (ptab t j) \<noteq> UNUSED"
    using m [of i] m [of j] pt by auto
  ultimately show ?thesis using t by auto
qed

theorem alloc_pid_collides_witness:
  "\<exists>t. proc_alloc 0 1 (psa_demo\<lparr>next_pid := 2\<rparr>) = (Some 3, t) \<and> p_pid (ptab t 3) = p_pid (ptab t 0)"
proof -
  let ?s = "psa_demo\<lparr>next_pid := 2\<rparr>"
  have st: "p_state (ptab ?s i) = UNUSED \<longleftrightarrow> 3 \<le> i" for i
    by (auto simp: psa_demo_def zero_proc_def)
  have "first_idx (\<lambda>i. p_state (ptab ?s i) = UNUSED) NPROC = Some 3"
    by (simp only: st) (simp add: first_idx_Some_iff NPROC_def)
  then have a: "fst (proc_alloc 0 1 ?s) = Some 3" by (simp add: proc_alloc_def Let_def)
  have "p_pid (ptab ?s 0) = next_pid ?s + 1" by (simp add: psa_demo_def)
  from alloc_pid_collides [OF _ _ this a] show ?thesis
    by (simp add: psa_demo_sel NPROC_def) blast
qed

end
