(* ===== verification/Region.thy ===== *)
theory Region
  imports Prelude
begin

text \<open>
  Regions (\<open>33_PCS/40_psa/src/uiox_kix_psa_region.c\<close>): the shared region table with its free
  and active lists, the static pool of page tables, the per-process attachments (pregions) and
  the algorithms allocreg, attachreg, growreg, freereg, detachreg and dupreg.  A region pointer
  is an index into the region table, a page-table pointer the index of its pool row, a pregion
  pointer a u area together with a slot of its \<open>u_pregs\<close>; \<open>None\<close> is NULL.
\<close>

definition NREGION :: nat where "NREGION = 128"
definition PSA_PAGE_SIZE :: u32 where "PSA_PAGE_SIZE = 4096"
definition PSA_MAX_PAGES :: nat where "PSA_MAX_PAGES = 1024"
definition MAX_REG_PER_PROC :: nat where "MAX_REG_PER_PROC = 8"
definition MAX_REGION_SIZE :: int where "MAX_REGION_SIZE = int PSA_MAX_PAGES * 4096"
definition PSA_PHYS_MEM_SIZE :: u32 where "PSA_PHYS_MEM_SIZE = 64 * 1024 * 1024"
definition ENOMEM :: int where "ENOMEM = 12"
definition REG_EINVAL :: int where "REG_EINVAL = 22"

definition PSA_PTE_WRITE :: u16 where "PSA_PTE_WRITE = 0x002"
definition PSA_PTE_COW :: u16 where "PSA_PTE_COW = 0x010"

record pte =
  pte_pfn :: u32
  pte_flags :: u16

record region =
  r_type :: nat
  r_inode :: "nat option"
  r_refcnt :: u16
  r_pgtbl :: "nat option"
  r_npages :: u32
  r_size :: u32
  r_status :: u16
  r_free_next :: "nat option"
  r_act_next :: "nat option"

record pregion =
  pr_region :: "nat option"
  pr_proc :: "nat option"
  pr_type :: nat
  pr_vaddr :: u64
  pr_size :: u32
  pr_valid :: bool

text \<open>\<open>u_pregs v\<close> is the pregion table of u area \<open>v\<close>; \<open>cur_u\<close> is the running process's one.\<close>

record regions =
  region_table :: "nat \<Rightarrow> region"
  free_region_list :: "nat option"
  active_region_list :: "nat option"
  phys_mem_used :: u32
  pgtbl_pool :: "nat \<Rightarrow> nat \<Rightarrow> pte"
  pgtbl_used :: "nat \<Rightarrow> bool"
  pgtbl_ready :: bool
  u_pregs :: "nat \<Rightarrow> nat \<Rightarrow> pregion"
  cur_u :: nat
  reg_error :: "nat \<Rightarrow> int"

definition upd_reg :: "nat \<Rightarrow> (region \<Rightarrow> region) \<Rightarrow> 'z regions_scheme \<Rightarrow> 'z regions_scheme" where
  "upd_reg r f s = s\<lparr>region_table := (region_table s)(r := f (region_table s r))\<rparr>"

definition upd_preg :: "nat \<times> nat \<Rightarrow> (pregion \<Rightarrow> pregion) \<Rightarrow> 'z regions_scheme \<Rightarrow> 'z regions_scheme" where
  "upd_preg a f s = s\<lparr>u_pregs := (u_pregs s)(fst a := (u_pregs s (fst a))(snd a := f (u_pregs s (fst a) (snd a))))\<rparr>"

abbreviation preg :: "'z regions_scheme \<Rightarrow> nat \<times> nat \<Rightarrow> pregion" where
  "preg s a \<equiv> u_pregs s (fst a) (snd a)"

lemma upd_reg_sel [simp]:
  "region_table (upd_reg r f s) = (region_table s)(r := f (region_table s r))"
  "free_region_list (upd_reg r f s) = free_region_list s"
  "active_region_list (upd_reg r f s) = active_region_list s"
  "pgtbl_pool (upd_reg r f s) = pgtbl_pool s" "pgtbl_used (upd_reg r f s) = pgtbl_used s"
  "u_pregs (upd_reg r f s) = u_pregs s" "cur_u (upd_reg r f s) = cur_u s"
  "reg_error (upd_reg r f s) = reg_error s" "pgtbl_ready (upd_reg r f s) = pgtbl_ready s"
  "phys_mem_used (upd_reg r f s) = phys_mem_used s"
  by (simp_all add: upd_reg_def)

lemma upd_preg_sel [simp]:
  "region_table (upd_preg a f s) = region_table s"
  "free_region_list (upd_preg a f s) = free_region_list s"
  "active_region_list (upd_preg a f s) = active_region_list s"
  "pgtbl_pool (upd_preg a f s) = pgtbl_pool s" "pgtbl_used (upd_preg a f s) = pgtbl_used s"
  "preg (upd_preg a f s) b = (if b = a then f (preg s a) else preg s b)" "cur_u (upd_preg a f s) = cur_u s"
  "reg_error (upd_preg a f s) = reg_error s" "pgtbl_ready (upd_preg a f s) = pgtbl_ready s"
  "phys_mem_used (upd_preg a f s) = phys_mem_used s"
  by (auto simp: upd_preg_def prod_eq_iff)

lemma upd_preg_slot [simp]:
  "u_pregs (upd_preg (v, i) f s) w j = (if w = v \<and> j = i then f (u_pregs s v i) else u_pregs s w j)"
  by (simp add: upd_preg_def)

lemma upd_reg_upd: "upd_reg r f (upd_reg r g s) = upd_reg r (\<lambda>x. f (g x)) s"
  by (simp add: upd_reg_def)

section \<open>The pool of page tables\<close>

definition pgtbl_pool_init :: "'z regions_scheme \<Rightarrow> 'z regions_scheme" where
  "pgtbl_pool_init s =
     (if pgtbl_ready s then s
      else s\<lparr>pgtbl_used := (\<lambda>i. if i < NREGION then False else pgtbl_used s i), pgtbl_ready := True\<rparr>)"

definition pgtbl_alloc :: "u32 \<Rightarrow> 'z regions_scheme \<Rightarrow> nat option \<times> 'z regions_scheme" where
  "pgtbl_alloc npages s =
     (if npages = 0 \<or> of_nat PSA_MAX_PAGES < npages then (None, s)
      else
        (let s = pgtbl_pool_init s in
         case first_idx (\<lambda>i. \<not> pgtbl_used s i) NREGION of
           None \<Rightarrow> (None, s)
         | Some i \<Rightarrow>
             (Some i, s\<lparr>pgtbl_pool := (pgtbl_pool s)(i := (\<lambda>j. if j < unat npages
                          then \<lparr>pte_pfn = 0, pte_flags = 0\<rparr> else pgtbl_pool s i j)),
                        pgtbl_used := (pgtbl_used s)(i := True)\<rparr>)))"

definition pgtbl_free :: "nat option \<Rightarrow> 'z regions_scheme \<Rightarrow> 'z regions_scheme" where
  "pgtbl_free tbl s =
     (case tbl of
        None \<Rightarrow> s
      | Some t \<Rightarrow>
          (let s = pgtbl_pool_init s in
           case first_idx (\<lambda>i. i = t) NREGION of
             None \<Rightarrow> s
           | Some i \<Rightarrow> s\<lparr>pgtbl_used := (pgtbl_used s)(i := False)\<rparr>))"

definition pgtbl_copy :: "nat option \<Rightarrow> nat option \<Rightarrow> u32 \<Rightarrow> 'z regions_scheme \<Rightarrow> 'z regions_scheme" where
  "pgtbl_copy dst src npages s =
     (case (dst, src) of
        (Some d, Some c) \<Rightarrow>
          s\<lparr>pgtbl_pool := (pgtbl_pool s)(d := (\<lambda>j. if j < unat npages then pgtbl_pool s c j
                                                else pgtbl_pool s d j))\<rparr>
      | _ \<Rightarrow> s)"

section \<open>The arena\<close>

text \<open>The result is the offset of the block in \<open>phys_mem_pool\<close>.\<close>

definition pmalloc :: "u32 \<Rightarrow> 'z regions_scheme \<Rightarrow> u32 option \<times> 'z regions_scheme" where
  "pmalloc sz s =
     (if sz = 0 then (None, s)
      else if PSA_PHYS_MEM_SIZE < phys_mem_used s + sz then (None, s)
      else (Some (phys_mem_used s), s\<lparr>phys_mem_used := phys_mem_used s + sz\<rparr>))"

definition pmfree :: "u32 \<Rightarrow> u32 \<Rightarrow> 'z regions_scheme \<Rightarrow> 'z regions_scheme" where
  "pmfree addr sz s = s"

section \<open>The region algorithms\<close>

definition zero_region :: region where
  "zero_region = \<lparr>r_type = 0, r_inode = None, r_refcnt = 0, r_pgtbl = None, r_npages = 0, r_size = 0,
     r_status = 0, r_free_next = None, r_act_next = None\<rparr>"

definition region_init :: "'z regions_scheme \<Rightarrow> 'z regions_scheme" where
  "region_init s =
     (let s = s\<lparr>region_table := (\<lambda>i. if i < NREGION
                  then zero_region\<lparr>r_free_next := (if i + 1 < NREGION then Some (i + 1) else None)\<rparr>
                  else region_table s i)\<rparr>;
          s = s\<lparr>free_region_list := Some 0, active_region_list := None, phys_mem_used := 0\<rparr>
      in pgtbl_pool_init s)"

definition allocreg :: "nat option \<Rightarrow> nat \<Rightarrow> 'z regions_scheme \<Rightarrow> nat option \<times> 'z regions_scheme" where
  "allocreg ip ty s =
     (case free_region_list s of
        None \<Rightarrow> (None, s)
      | Some r \<Rightarrow>
          (let s = s\<lparr>free_region_list := r_free_next (region_table s r)\<rparr>;
               s = upd_reg r (\<lambda>x. x\<lparr>r_free_next := None\<rparr>) s;
               s = upd_reg r (\<lambda>x. x\<lparr>r_type := ty, r_inode := ip, r_refcnt := 0, r_pgtbl := None,
                     r_npages := 0, r_size := 0, r_status := 0\<rparr>) s;
               s = upd_reg r (\<lambda>x. x\<lparr>r_act_next := active_region_list s\<rparr>) s
           in (Some r, s\<lparr>active_region_list := Some r\<rparr>)))"

definition attachreg :: "nat option \<Rightarrow> nat option \<Rightarrow> u64 \<Rightarrow> nat \<Rightarrow> 'z regions_scheme
    \<Rightarrow> (nat \<times> nat) option \<times> 'z regions_scheme" where
  "attachreg rp p vaddr ty s =
     (case (rp, p) of
        (Some r, Some q) \<Rightarrow>
          (case first_idx (\<lambda>i. \<not> pr_valid (u_pregs s (cur_u s) i)) MAX_REG_PER_PROC of
             None \<Rightarrow> (None, s)
           | Some i \<Rightarrow>
               (let s = upd_preg (cur_u s, i) (\<lambda>x. x\<lparr>pr_region := Some r, pr_proc := Some q, pr_type := ty,
                          pr_vaddr := vaddr, pr_size := r_size (region_table s r), pr_valid := True\<rparr>) s
                in (Some (cur_u s, i), upd_reg r (\<lambda>x. x\<lparr>r_refcnt := r_refcnt x + 1\<rparr>) s)))
      | _ \<Rightarrow> (None, s))"

definition growreg :: "(nat \<times> nat) option \<Rightarrow> int \<Rightarrow> 'z regions_scheme \<Rightarrow> 'z regions_scheme" where
  "growreg prp delta s =
     (case prp of
        None \<Rightarrow> s
      | Some a \<Rightarrow>
          (case pr_region (preg s a) of
             None \<Rightarrow> s
           | Some r \<Rightarrow>
               (let newsize = int (unat (r_size (region_table s r))) + delta in
                if MAX_REGION_SIZE < newsize then s\<lparr>reg_error := (reg_error s)(cur_u s := ENOMEM)\<rparr>
                else if newsize < 0 then s\<lparr>reg_error := (reg_error s)(cur_u s := REG_EINVAL)\<rparr>
                else
                  (let s = upd_reg r (\<lambda>x. x\<lparr>r_size := of_int newsize\<rparr>) s;
                       s = upd_reg r (\<lambda>x. x\<lparr>r_npages := (of_int newsize + PSA_PAGE_SIZE - 1) div PSA_PAGE_SIZE\<rparr>) s;
                       s = upd_preg a (\<lambda>x. x\<lparr>pr_size := r_size (region_table s r)\<rparr>) s
                   in if r_npages (region_table s r) \<noteq> 0 \<and> r_pgtbl (region_table s r) = None
                      then (let (t, s) = pgtbl_alloc (r_npages (region_table s r)) s
                            in upd_reg r (\<lambda>x. x\<lparr>r_pgtbl := t\<rparr>) s)
                      else s))))"

text \<open>The walk of \<open>freereg\<close> over the active list; \<open>None\<close> if it does not end.\<close>

partial_function (option) unlink_active :: "nat \<Rightarrow> nat option \<Rightarrow> nat option \<Rightarrow> 'z regions_scheme
    \<Rightarrow> 'z regions_scheme option" where
  "unlink_active r prev cur s =
     (if cur = None then Some s
      else if the cur = r
      then Some (if prev = None then s\<lparr>active_region_list := r_act_next (region_table s (the cur))\<rparr>
                 else upd_reg (the prev) (\<lambda>x. x\<lparr>r_act_next := r_act_next (region_table s (the cur))\<rparr>) s)
      else unlink_active r cur (r_act_next (region_table s (the cur))) s)"

definition freereg :: "nat option \<Rightarrow> 'z regions_scheme \<Rightarrow> 'z regions_scheme option" where
  "freereg rp s =
     (case rp of
        None \<Rightarrow> Some s
      | Some r \<Rightarrow>
          if 0 < r_refcnt (region_table s r) then Some s
          else
            (let s = (if r_pgtbl (region_table s r) \<noteq> None
                      then upd_reg r (\<lambda>x. x\<lparr>r_pgtbl := None\<rparr>) (pgtbl_free (r_pgtbl (region_table s r)) s)
                      else s)
             in Option.bind (unlink_active r None (active_region_list s) s)
                  (\<lambda>s. let s = upd_reg r (\<lambda>x. x\<lparr>r_act_next := None\<rparr>) s;
                           s = upd_reg r (\<lambda>x. x\<lparr>r_free_next := free_region_list s\<rparr>) s
                       in Some (s\<lparr>free_region_list := Some r\<rparr>))))"

definition detachreg :: "(nat \<times> nat) option \<Rightarrow> 'z regions_scheme \<Rightarrow> 'z regions_scheme option" where
  "detachreg prp s =
     (case prp of
        None \<Rightarrow> Some s
      | Some a \<Rightarrow>
          if \<not> pr_valid (preg s a) then Some s
          else
            (let rp = pr_region (preg s a);
                 s = (case rp of
                        None \<Rightarrow> s
                      | Some r \<Rightarrow> if 0 < r_refcnt (region_table s r)
                                  then upd_reg r (\<lambda>x. x\<lparr>r_refcnt := r_refcnt x - 1\<rparr>) s else s)
             in Option.bind (case rp of
                               None \<Rightarrow> Some s
                             | Some r \<Rightarrow> if r_refcnt (region_table s r) = 0 then freereg (Some r) s else Some s)
                  (\<lambda>s. Some (upd_preg a (\<lambda>x. x\<lparr>pr_region := None, pr_proc := None, pr_vaddr := 0,
                                pr_size := 0, pr_valid := False\<rparr>) s))))"

text \<open>The entry \<open>dupreg\<close> leaves in the child's table for an entry of the parent's.\<close>

definition cow_entry :: "pte \<Rightarrow> pte" where
  "cow_entry e =
     (if pte_flags e AND PSA_PTE_WRITE \<noteq> 0
      then e\<lparr>pte_flags := (pte_flags e AND NOT PSA_PTE_WRITE) OR PSA_PTE_COW\<rparr> else e)"

definition dupreg :: "nat option \<Rightarrow> 'z regions_scheme \<Rightarrow> (nat option \<times> 'z regions_scheme) option" where
  "dupreg rp s =
     (case rp of
        None \<Rightarrow> Some (None, s)
      | Some r \<Rightarrow>
          (case allocreg (r_inode (region_table s r)) (r_type (region_table s r)) s of
             (None, s) \<Rightarrow> Some (None, s)
           | (Some n, s) \<Rightarrow>
               (let s = upd_reg n (\<lambda>x. x\<lparr>r_size := r_size (region_table s r)\<rparr>) s;
                    s = upd_reg n (\<lambda>x. x\<lparr>r_npages := r_npages (region_table s r)\<rparr>) s
                in if r_pgtbl (region_table s r) \<noteq> None \<and> r_npages (region_table s r) \<noteq> 0
                   then
                     (case pgtbl_alloc (r_npages (region_table s r)) s of
                        (None, s) \<Rightarrow> Option.bind (freereg (Some n) s) (\<lambda>s. Some (None, s))
                      | (Some t, s) \<Rightarrow>
                          (let s = upd_reg n (\<lambda>x. x\<lparr>r_pgtbl := Some t\<rparr>) s;
                               s = pgtbl_copy (Some t) (r_pgtbl (region_table s r)) (r_npages (region_table s r)) s;
                               s = s\<lparr>pgtbl_pool := (pgtbl_pool s)(t := (\<lambda>j. if j < unat (r_npages (region_table s r))
                                        then cow_entry (pgtbl_pool s t j) else pgtbl_pool s t j))\<rparr>
                           in Some (Some n, upd_reg n (\<lambda>x. x\<lparr>r_status := r_status (region_table s r)\<rparr>) s)))
                   else Some (Some n, upd_reg n (\<lambda>x. x\<lparr>r_status := r_status (region_table s r)\<rparr>) s))))"

section \<open>Invariant\<close>

definition NUAREA :: nat where "NUAREA = 64"

text \<open>Every region is on exactly one of the two lists.\<close>

definition reg_lists :: "'z regions_scheme \<Rightarrow> nat list \<Rightarrow> nat list \<Rightarrow> bool" where
  "reg_lists s Fr Ac \<longleftrightarrow>
     sll (\<lambda>r. r_free_next (region_table s r)) (free_region_list s) Fr \<and>
     sll (\<lambda>r. r_act_next (region_table s r)) (active_region_list s) Ac \<and>
     set Fr \<union> set Ac = {..<NREGION} \<and> set Fr \<inter> set Ac = {}"

text \<open>A pool row is in use exactly when an active region has it, and no two share one.\<close>

definition reg_tables :: "'z regions_scheme \<Rightarrow> nat set \<Rightarrow> bool" where
  "reg_tables s A \<longleftrightarrow> pgtbl_ready s \<and>
     (\<forall>t<NREGION. pgtbl_used s t \<longleftrightarrow> (\<exists>r\<in>A. r_pgtbl (region_table s r) = Some t)) \<and>
     (\<forall>r\<in>A. \<forall>t. r_pgtbl (region_table s r) = Some t \<longrightarrow> t < NREGION) \<and>
     (\<forall>r\<in>A. \<forall>q\<in>A. \<forall>t. r_pgtbl (region_table s r) = Some t \<longrightarrow> r_pgtbl (region_table s q) = Some t \<longrightarrow> r = q)"

text \<open>The attachments of a region, and: the reference count counts them.\<close>

definition attachments :: "'z regions_scheme \<Rightarrow> nat \<Rightarrow> (nat \<times> nat) set" where
  "attachments s r = {a. fst a < NUAREA \<and> snd a < MAX_REG_PER_PROC \<and> pr_valid (preg s a) \<and>
     pr_region (preg s a) = Some r}"

definition reg_refs :: "'z regions_scheme \<Rightarrow> nat set \<Rightarrow> bool" where
  "reg_refs s A \<longleftrightarrow>
     (\<forall>a. fst a < NUAREA \<longrightarrow> snd a < MAX_REG_PER_PROC \<longrightarrow> pr_valid (preg s a) \<longrightarrow>
        (\<exists>r\<in>A. pr_region (preg s a) = Some r)) \<and>
     (\<forall>r\<in>A. unat (r_refcnt (region_table s r)) = card (attachments s r))"

definition region_inv :: "'z regions_scheme \<Rightarrow> nat list \<Rightarrow> nat list \<Rightarrow> bool" where
  "region_inv s Fr Ac \<longleftrightarrow> reg_lists s Fr Ac \<and> reg_tables s (set Ac) \<and> reg_refs s (set Ac)"

lemma region_invD:
  assumes "region_inv s Fr Ac"
  shows "reg_lists s Fr Ac" "reg_tables s (set Ac)" "reg_refs s (set Ac)"
  using assms by (simp_all add: region_inv_def)

lemma reg_listsD:
  assumes "reg_lists s Fr Ac"
  shows "sll (\<lambda>r. r_free_next (region_table s r)) (free_region_list s) Fr"
    and "sll (\<lambda>r. r_act_next (region_table s r)) (active_region_list s) Ac"
    and "set Fr \<union> set Ac = {..<NREGION}" and "set Fr \<inter> set Ac = {}"
    and "distinct Fr" and "distinct Ac"
  using assms sll_distinct by (auto simp: reg_lists_def)

lemma reg_tablesD:
  assumes "reg_tables s A"
  shows "pgtbl_ready s"
    and "t < NREGION \<Longrightarrow> pgtbl_used s t \<longleftrightarrow> (\<exists>r\<in>A. r_pgtbl (region_table s r) = Some t)"
    and "r \<in> A \<Longrightarrow> r_pgtbl (region_table s r) = Some t \<Longrightarrow> t < NREGION"
    and "r \<in> A \<Longrightarrow> q \<in> A \<Longrightarrow> r_pgtbl (region_table s r) = Some t \<Longrightarrow>
      r_pgtbl (region_table s q) = Some t \<Longrightarrow> r = q"
  using assms unfolding reg_tables_def by blast+

lemma reg_refsD:
  assumes "reg_refs s A"
  shows "fst a < NUAREA \<Longrightarrow> snd a < MAX_REG_PER_PROC \<Longrightarrow> pr_valid (preg s a) \<Longrightarrow>
      \<exists>r\<in>A. pr_region (preg s a) = Some r"
    and "r \<in> A \<Longrightarrow> unat (r_refcnt (region_table s r)) = card (attachments s r)"
  using assms unfolding reg_refs_def by blast+

lemma finite_attachments [simp]: "finite (attachments s r)"
proof (rule finite_subset)
  show "attachments s r \<subseteq> {..<NUAREA} \<times> {..<MAX_REG_PER_PROC}" by (auto simp: attachments_def)
qed simp

lemma card_attachments: "card (attachments s r) \<le> 512"
proof -
  have "card (attachments s r) \<le> card ({..<NUAREA} \<times> {..<MAX_REG_PER_PROC})"
    by (rule card_mono) (auto simp: attachments_def)
  then show ?thesis by (simp add: NUAREA_def MAX_REG_PER_PROC_def)
qed

lemma refcnt_zero_iff:
  "reg_refs s A \<Longrightarrow> r \<in> A \<Longrightarrow> r_refcnt (region_table s r) = 0 \<longleftrightarrow> attachments s r = {}"
  by (metis card_0_eq finite_attachments reg_refsD(2) unat_eq_0)

text \<open>An operation that keeps the pregions, the tables and the counts keeps those invariants.\<close>

lemma reg_tables_cong:
  assumes "pgtbl_ready t = pgtbl_ready s" and "pgtbl_used t = pgtbl_used s"
    and "\<And>r. r \<in> A \<Longrightarrow> r_pgtbl (region_table t r) = r_pgtbl (region_table s r)"
  shows "reg_tables t A \<longleftrightarrow> reg_tables s A"
  using assms unfolding reg_tables_def by auto

lemma reg_refs_cong:
  assumes "\<And>a. pr_valid (preg t a) = pr_valid (preg s a) \<and> pr_region (preg t a) = pr_region (preg s a)"
    and "\<And>r. r \<in> A \<Longrightarrow> r_refcnt (region_table t r) = r_refcnt (region_table s r)"
  shows "reg_refs t A \<longleftrightarrow> reg_refs s A"
  using assms unfolding reg_refs_def attachments_def by auto

lemma attachments_cong: "u_pregs t = u_pregs s \<Longrightarrow> attachments t r = attachments s r"
  by (simp add: attachments_def)

lemma reg_lists_cong:
  assumes "free_region_list t = free_region_list s" and "active_region_list t = active_region_list s"
    and "\<And>r. r_free_next (region_table t r) = r_free_next (region_table s r)"
    and "\<And>r. r_act_next (region_table t r) = r_act_next (region_table s r)"
  shows "reg_lists t Fr Ac \<longleftrightarrow> reg_lists s Fr Ac"
  using assms unfolding reg_lists_def by simp

section \<open>Initialisation and allocation\<close>

lemma sll_countup:
  "i \<le> n \<Longrightarrow> (\<And>j. i \<le> j \<Longrightarrow> j < n \<Longrightarrow> nx j = (if j + 1 < n then Some (j + 1) else None))
    \<Longrightarrow> sll nx (if i < n then Some i else None) [i..<n]"
proof (induction "n - i" arbitrary: i)
  case 0
  then show ?case by simp
next
  case (Suc k)
  then have "i < n" by simp
  moreover have "sll nx (if i + 1 < n then Some (i + 1) else None) [i + 1..<n]"
    using Suc by (intro Suc.hyps(1)) auto
  ultimately show ?case using Suc.prems(2) [of i] by (simp add: upt_conv_Cons)
qed

lemma region_init_inv:
  assumes "\<not> pgtbl_ready s" and "\<And>a. \<not> pr_valid (preg s a)"
  shows "region_inv (region_init s) [0..<NREGION] []"
proof -
  have "sll (\<lambda>r. r_free_next (region_table (region_init s) r)) (Some 0) [0..<NREGION]"
    using sll_countup [of 0 NREGION "\<lambda>r. r_free_next (region_table (region_init s) r)"] assms(1)
    by (simp add: region_init_def pgtbl_pool_init_def NREGION_def)
  then show ?thesis using assms
    by (auto simp: region_inv_def reg_lists_def reg_tables_def reg_refs_def region_init_def
        pgtbl_pool_init_def)
qed

lemma allocreg_None: "region_inv s [] Ac \<Longrightarrow> allocreg ip ty s = (None, s)"
  using reg_listsD(1) [of s "[]" Ac] by (simp add: allocreg_def region_inv_def)

lemma allocreg_Some:
  assumes inv: "region_inv s (r # Fr) Ac"
  obtains t where "allocreg ip ty s = (Some r, t)" and "region_inv t Fr (r # Ac)"
    and "\<And>q. q \<noteq> r \<Longrightarrow> region_table t q = region_table s q"
    and "region_table t r = (region_table t r)\<lparr>r_type := ty, r_inode := ip, r_refcnt := 0, r_pgtbl := None,
           r_npages := 0, r_size := 0, r_status := 0\<rparr>"
    and "pgtbl_pool t = pgtbl_pool s" "pgtbl_used t = pgtbl_used s" "u_pregs t = u_pregs s" "cur_u t = cur_u s"
proof -
  note l = reg_listsD [OF region_invD(1) [OF inv]]
  have fl: "free_region_list s = Some r" and tl: "sll (\<lambda>q. r_free_next (region_table s q)) (r_free_next (region_table s r)) Fr"
    using l(1) by auto
  have nin: "r \<notin> set Fr" "r \<notin> set Ac" using l(4,5) by auto
  define t where "t = snd (allocreg ip ty s)"
  have t: "allocreg ip ty s = (Some r, t)" "free_region_list t = r_free_next (region_table s r)"
    "active_region_list t = Some r" "pgtbl_pool t = pgtbl_pool s" "pgtbl_used t = pgtbl_used s"
    "u_pregs t = u_pregs s" "cur_u t = cur_u s" "pgtbl_ready t = pgtbl_ready s"
    "\<And>q. q \<noteq> r \<Longrightarrow> region_table t q = region_table s q"
    "region_table t r = (region_table s r)\<lparr>r_type := ty, r_inode := ip, r_refcnt := 0, r_pgtbl := None,
       r_npages := 0, r_size := 0, r_status := 0, r_free_next := None, r_act_next := active_region_list s\<rparr>"
    using fl by (simp_all add: t_def allocreg_def Let_def)
  have "sll (\<lambda>q. r_free_next (region_table s q)) p Fr = sll (\<lambda>q. r_free_next (region_table t q)) p Fr" for p
    by (rule sll_cong) (metis nin(1) t(9))
  moreover have "sll (\<lambda>q. r_act_next (region_table s q)) p Ac = sll (\<lambda>q. r_act_next (region_table t q)) p Ac" for p
    by (rule sll_cong) (metis nin(2) t(9))
  ultimately have "reg_lists t Fr (r # Ac)"
    using l(2,3,4) tl nin by (auto simp: reg_lists_def t(2,3,10))
  moreover have "reg_tables t (set Ac)"
    using region_invD(2) [OF inv] nin(2) by (subst reg_tables_cong [of t s]) (auto simp: t(5,8) intro: t(9) arg_cong)
  then have "reg_tables t (insert r (set Ac))"
    unfolding reg_tables_def by (simp add: t(10))
  moreover have "reg_refs t (set Ac)"
    using region_invD(3) [OF inv] nin(2) by (subst reg_refs_cong [of t s]) (auto simp: t(6) intro: t(9) arg_cong)
  moreover have "attachments t r = {}"
    using reg_refsD(1) [OF region_invD(3) [OF inv]] nin(2) by (force simp: attachments_def t(6))
  ultimately have "region_inv t Fr (r # Ac)"
    unfolding region_inv_def reg_refs_def by (simp add: t(10))
  with that [of t] t show thesis by simp
qed

section \<open>Attaching\<close>

lemma attachments_upd:
  assumes "\<And>b. b \<noteq> a \<Longrightarrow> preg t b = preg s b"
    and "pr_valid (preg t a)" "pr_region (preg t a) = Some r" "\<not> pr_valid (preg s a)"
    and "fst a < NUAREA" "snd a < MAX_REG_PER_PROC"
  shows "attachments t q = (if q = r then insert a (attachments s q) else attachments s q)"
    and "a \<notin> attachments s q"
proof -
  have "b \<in> attachments t q \<longleftrightarrow> b \<in> attachments s q \<or> b = a \<and> q = r" for b
    using assms by (cases "b = a") (auto simp: attachments_def)
  then show "attachments t q = (if q = r then insert a (attachments s q) else attachments s q)" by auto
  show "a \<notin> attachments s q" using assms(4) by (simp add: attachments_def)
qed

lemma attachreg_inv:
  assumes inv: "region_inv s Fr Ac" and r: "r \<in> set Ac" and u: "cur_u s < NUAREA"
    and t: "attachreg (Some r) (Some p) vaddr ty s = (Some a, t)"
  shows "region_inv t Fr Ac" and "fst a = cur_u s" and "snd a < MAX_REG_PER_PROC"
    and "\<not> pr_valid (preg s a)"
    and "preg t a = \<lparr>pr_region = Some r, pr_proc = Some p, pr_type = ty, pr_vaddr = vaddr,
           pr_size = r_size (region_table s r), pr_valid = True\<rparr>"
    and "attachments t r = insert a (attachments s r)"
    and "q \<noteq> r \<Longrightarrow> region_table t q = region_table s q"
    and "r_pgtbl (region_table t q) = r_pgtbl (region_table s q)" and "pgtbl_pool t = pgtbl_pool s"
    and "r_refcnt (region_table t r) = r_refcnt (region_table s r) + 1"
proof -
  from t obtain i where i: "first_idx (\<lambda>i. \<not> pr_valid (u_pregs s (cur_u s) i)) MAX_REG_PER_PROC = Some i"
    by (auto simp: attachreg_def split: option.splits)
  have t': "a = (cur_u s, i)" "t = upd_reg r (\<lambda>x. x\<lparr>r_refcnt := r_refcnt x + 1\<rparr>) (upd_preg (cur_u s, i)
      (\<lambda>x. x\<lparr>pr_region := Some r, pr_proc := Some p, pr_type := ty, pr_vaddr := vaddr,
         pr_size := r_size (region_table s r), pr_valid := True\<rparr>) s)"
    using t i by (auto simp: attachreg_def Let_def)
  have i': "i < MAX_REG_PER_PROC" "\<not> pr_valid (u_pregs s (cur_u s) i)" using first_idx_SomeD [OF i] by auto
  show a: "fst a = cur_u s" "snd a < MAX_REG_PER_PROC" "\<not> pr_valid (preg s a)"
    using i' by (simp_all add: t'(1))
  show p: "preg t a = \<lparr>pr_region = Some r, pr_proc = Some p, pr_type = ty, pr_vaddr = vaddr,
           pr_size = r_size (region_table s r), pr_valid = True\<rparr>"
    by (simp add: t' upd_preg_def)
  have other: "preg t b = preg s b" if "b \<noteq> a" for b
    using that by (auto simp: t' upd_preg_def prod_eq_iff)
  have att: "attachments t q = (if q = r then insert a (attachments s q) else attachments s q)"
    "a \<notin> attachments s q" for q
    using attachments_upd [of a t s r q] other p a u by auto
  show "attachments t r = insert a (attachments s r)" using att(1) by simp
  show "q \<noteq> r \<Longrightarrow> region_table t q = region_table s q"
    "r_pgtbl (region_table t q) = r_pgtbl (region_table s q)" "pgtbl_pool t = pgtbl_pool s"
    "r_refcnt (region_table t r) = r_refcnt (region_table s r) + 1" for q
    by (simp_all add: t'(2))
  have c: "unat (r_refcnt (region_table s r)) = card (attachments s r)"
    using reg_refsD(2) [OF region_invD(3) [OF inv] r] .
  have "unat (r_refcnt (region_table s r) + 1) = Suc (unat (r_refcnt (region_table s r)))"
    using card_attachments [of s r] c by (simp add: unat_word_ariths)
  then have "unat (r_refcnt (region_table t q)) = card (attachments t q)" if "q \<in> set Ac" for q
    using that att c reg_refsD(2) [OF region_invD(3) [OF inv] that] by (simp add: t'(2))
  moreover have "\<exists>q\<in>set Ac. pr_region (preg t b) = Some q"
    if "fst b < NUAREA" "snd b < MAX_REG_PER_PROC" "pr_valid (preg t b)" for b
    using that other p r reg_refsD(1) [OF region_invD(3) [OF inv], of b] by (cases "b = a") auto
  ultimately have "reg_refs t (set Ac)" unfolding reg_refs_def by blast
  moreover have "reg_tables t (set Ac)"
    using region_invD(2) [OF inv] by (subst reg_tables_cong [of t s]) (auto simp: t'(2))
  moreover have "reg_lists t Fr Ac"
    using region_invD(1) [OF inv] by (subst reg_lists_cong [of t s]) (auto simp: t'(2))
  ultimately show "region_inv t Fr Ac" by (simp add: region_inv_def)
qed

section \<open>Page tables\<close>

text \<open>With more regions than tables in use there is always a row: the pool cannot run dry.\<close>

lemma pgtbl_row_free:
  assumes tab: "reg_tables s A" and fin: "finite A" and card: "card A \<le> NREGION"
    and n: "n \<in> A" "r_pgtbl (region_table s n) = None"
  shows "\<exists>i < NREGION. \<not> pgtbl_used s i"
proof (rule ccontr)
  assume "\<not> ?thesis"
  then have "{..<NREGION} \<subseteq> (\<lambda>r. the (r_pgtbl (region_table s r))) ` (A - {n})"
    using reg_tablesD(2) [OF tab] n(2) by (force simp: image_iff)
  then have "NREGION \<le> card ((\<lambda>r. the (r_pgtbl (region_table s r))) ` (A - {n}))"
    using card_mono [of "(\<lambda>r. the (r_pgtbl (region_table s r))) ` (A - {n})" "{..<NREGION}"] fin by simp
  also have "\<dots> \<le> card (A - {n})" using fin by (intro card_image_le) simp
  also have "\<dots> < card A" using n(1) fin by (rule card_Diff1_less [rotated])
  finally show False using card by simp
qed

lemma pgtbl_alloc_ready:
  assumes tab: "reg_tables s A" and fin: "finite A" and card: "card A \<le> NREGION"
    and n: "n \<in> A" "r_pgtbl (region_table s n) = None" and np: "np \<noteq> 0" "np \<le> of_nat PSA_MAX_PAGES"
  obtains i where "i < NREGION" "\<not> pgtbl_used s i" "pgtbl_alloc np s =
    (Some i, s\<lparr>pgtbl_pool := (pgtbl_pool s)(i := (\<lambda>j. if j < unat np
         then \<lparr>pte_pfn = 0, pte_flags = 0\<rparr> else pgtbl_pool s i j)),
       pgtbl_used := (pgtbl_used s)(i := True)\<rparr>)"
proof -
  from pgtbl_row_free [OF tab fin card n] obtain k where "k < NREGION" "\<not> pgtbl_used s k" by blast
  then obtain i where i: "first_idx (\<lambda>i. \<not> pgtbl_used s i) NREGION = Some i"
    using first_idx_ex [of k NREGION "\<lambda>i. \<not> pgtbl_used s i"] by blast
  have "\<not> of_nat PSA_MAX_PAGES < np" using np(2) by simp
  with np(1) i reg_tablesD(1) [OF tab] first_idx_SomeD [OF i] that [of i] show thesis
    by (simp add: pgtbl_alloc_def pgtbl_pool_init_def)
qed

lemma reg_card: "reg_lists s Fr Ac \<Longrightarrow> card (set Ac) \<le> NREGION"
proof -
  assume "reg_lists s Fr Ac"
  then have "set Ac \<subseteq> {..<NREGION}" using reg_listsD(3) by blast
  then show ?thesis using card_mono [of "{..<NREGION}" "set Ac"] by simp
qed

text \<open>Handing row \<open>i\<close> to region \<open>n\<close>, which had none.\<close>

lemma reg_tables_give:
  assumes tab: "reg_tables s A" and n: "n \<in> A" "r_pgtbl (region_table s n) = None"
    and i: "i < NREGION" "\<not> pgtbl_used s i"
    and t: "pgtbl_ready t = pgtbl_ready s" "pgtbl_used t = (pgtbl_used s)(i := True)"
      "\<And>r. r_pgtbl (region_table t r) = (if r = n then Some i else r_pgtbl (region_table s r))"
  shows "reg_tables t A"
proof -
  have fresh: "r_pgtbl (region_table s r) \<noteq> Some i" if "r \<in> A" for r
    using reg_tablesD(2) [OF tab i(1)] i(2) that by blast
  show ?thesis unfolding reg_tables_def t
  proof (intro conjI allI impI ballI)
    show "pgtbl_ready s" by (rule reg_tablesD(1) [OF tab])
  next
    fix k assume k: "k < NREGION"
    show "((pgtbl_used s)(i := True)) k = (\<exists>r\<in>A. (if r = n then Some i else r_pgtbl (region_table s r)) = Some k)"
    proof (cases "k = i")
      case True
      with n(1) show ?thesis by auto
    next
      case False
      then have "(if r = n then Some i else r_pgtbl (region_table s r)) = Some k \<longleftrightarrow>
          r_pgtbl (region_table s r) = Some k" for r using n(2) by simp
      with False reg_tablesD(2) [OF tab k] show ?thesis by simp
    qed
  next
    fix r k assume "r \<in> A" "(if r = n then Some i else r_pgtbl (region_table s r)) = Some k"
    then show "k < NREGION" using reg_tablesD(3) [OF tab] i(1) by (auto split: if_splits)
  next
    fix r q k assume "r \<in> A" "q \<in> A" "(if r = n then Some i else r_pgtbl (region_table s r)) = Some k"
      "(if q = n then Some i else r_pgtbl (region_table s q)) = Some k"
    then show "r = q" using reg_tablesD(4) [OF tab] fresh by (auto split: if_splits)
  qed
qed

section \<open>Growing\<close>

lemma growreg_pages:
  assumes "0 \<le> n" "n \<le> MAX_REGION_SIZE"
  shows "unat ((of_int n + PSA_PAGE_SIZE - 1) div PSA_PAGE_SIZE) = (nat n + 4095) div 4096"
    and "unat ((of_int n + PSA_PAGE_SIZE - 1) div PSA_PAGE_SIZE) \<le> PSA_MAX_PAGES"
    and "unat (of_int n :: u32) = nat n"
proof -
  have n: "nat n \<le> 4194304" using assms by (simp add: MAX_REGION_SIZE_def PSA_MAX_PAGES_def)
  have w: "(of_int n :: u32) = of_nat (nat n)" using assms(1) by simp
  show u: "unat (of_int n :: u32) = nat n"
    unfolding w using n by (intro of_nat_inverse [OF refl]) simp
  have "unat (of_int n + PSA_PAGE_SIZE - 1) = nat n + 4095"
  proof -
    have "of_int n + PSA_PAGE_SIZE - 1 = (of_int n :: u32) + 4095" by (simp add: PSA_PAGE_SIZE_def)
    also have "unat \<dots> = nat n + 4095" using n u by (subst unat_add_lem [THEN iffD1]) simp_all
    finally show ?thesis .
  qed
  then show p: "unat ((of_int n + PSA_PAGE_SIZE - 1) div PSA_PAGE_SIZE) = (nat n + 4095) div 4096"
    by (simp add: unat_div_distrib PSA_PAGE_SIZE_def)
  have "(nat n + 4095) div 4096 \<le> 1024" using n by simp
  with p show "unat ((of_int n + PSA_PAGE_SIZE - 1) div PSA_PAGE_SIZE) \<le> PSA_MAX_PAGES"
    by (simp add: PSA_MAX_PAGES_def)
qed

text \<open>The three outcomes of \<open>growreg\<close> on an attachment of an active region.\<close>

lemma growreg_refused:
  assumes "pr_region (preg s a) = Some r"
    and "n = int (unat (r_size (region_table s r))) + delta" and "n < 0 \<or> MAX_REGION_SIZE < n"
  shows "growreg (Some a) delta s =
    s\<lparr>reg_error := (reg_error s)(cur_u s := (if n < 0 then REG_EINVAL else ENOMEM))\<rparr>"
  using assms by (auto simp: growreg_def Let_def MAX_REGION_SIZE_def PSA_MAX_PAGES_def)

lemma growreg_resized:
  assumes inv: "region_inv s Fr Ac" and r: "pr_region (preg s a) = Some r" "r \<in> set Ac"
    and n: "n = int (unat (r_size (region_table s r))) + delta" "0 \<le> n" "n \<le> MAX_REGION_SIZE"
    and t: "t = growreg (Some a) delta s"
  shows "region_inv t Fr Ac"
    and "unat (r_size (region_table t r)) = nat n"
    and "unat (r_npages (region_table t r)) = (nat n + 4095) div 4096"
    and "unat (r_npages (region_table t r)) \<le> PSA_MAX_PAGES"
    and "pr_size (preg t a) = r_size (region_table t r)"
    and "r_npages (region_table t r) \<noteq> 0 \<Longrightarrow> r_pgtbl (region_table t r) \<noteq> None"
    and "r_pgtbl (region_table s r) \<noteq> None \<Longrightarrow> r_pgtbl (region_table t r) = r_pgtbl (region_table s r)
      \<and> pgtbl_pool t = pgtbl_pool s"
    and "q \<noteq> r \<Longrightarrow> region_table t q = region_table s q"
    and "b \<noteq> a \<Longrightarrow> preg t b = preg s b"
    and "cur_u t = cur_u s" and "attachments t q = attachments s q"
proof -
  let ?np = "(of_int n + PSA_PAGE_SIZE - 1) div PSA_PAGE_SIZE"
  define s1 where "s1 = upd_preg a (\<lambda>x. x\<lparr>pr_size := of_int n\<rparr>)
    (upd_reg r (\<lambda>x. x\<lparr>r_size := of_int n, r_npages := ?np\<rparr>) s)"
  note np = growreg_pages [OF n(2,3)]
  have s1: "region_table s1 = (region_table s)(r := (region_table s r)\<lparr>r_size := of_int n, r_npages := ?np\<rparr>)"
    "\<And>b. preg s1 b = (if b = a then (preg s a)\<lparr>pr_size := of_int n\<rparr> else preg s b)"
    "pgtbl_pool s1 = pgtbl_pool s" "pgtbl_used s1 = pgtbl_used s" "cur_u s1 = cur_u s"
    "pgtbl_ready s1 = pgtbl_ready s" by (simp_all add: s1_def)
  have t1: "t = (if ?np \<noteq> 0 \<and> r_pgtbl (region_table s r) = None
      then (let (k, u) = pgtbl_alloc ?np s1 in upd_reg r (\<lambda>x. x\<lparr>r_pgtbl := k\<rparr>) u) else s1)"
    using r(1) n by (simp add: t growreg_def Let_def s1_def upd_reg_upd flip: n(1))
  have tab1: "reg_tables s1 (set Ac)"
    using region_invD(2) [OF inv] by (subst reg_tables_cong [of s1 s]) (auto simp: s1)
  have ref1: "reg_refs s1 (set Ac)"
    using region_invD(3) [OF inv] by (subst reg_refs_cong [of s1 s]) (auto simp: s1)
  have lst1: "reg_lists s1 Fr Ac"
    using region_invD(1) [OF inv] by (subst reg_lists_cong [of s1 s]) (auto simp: s1_def)
  have "region_inv t Fr Ac \<and> region_table t r = (region_table s r)\<lparr>r_size := of_int n, r_npages := ?np,
      r_pgtbl := r_pgtbl (region_table t r)\<rparr> \<and> (\<forall>b. preg t b = preg s1 b) \<and> cur_u t = cur_u s \<and>
    (?np \<noteq> 0 \<longrightarrow> r_pgtbl (region_table t r) \<noteq> None) \<and> (r_pgtbl (region_table s r) \<noteq> None \<longrightarrow>
      r_pgtbl (region_table t r) = r_pgtbl (region_table s r) \<and> pgtbl_pool t = pgtbl_pool s) \<and>
    (\<forall>q. q \<noteq> r \<longrightarrow> region_table t q = region_table s q)"
  proof (cases "?np \<noteq> 0 \<and> r_pgtbl (region_table s r) = None")
    case False
    then have "t = s1" by (simp only: t1 if_False)
    with False tab1 ref1 lst1 show ?thesis by (auto simp: region_inv_def s1)
  next
    case True
    have le: "?np \<le> of_nat PSA_MAX_PAGES"
      using np(2) by (simp add: word_le_nat_alt PSA_MAX_PAGES_def)
    have none: "r_pgtbl (region_table s1 r) = None" using True by (simp add: s1)
    from pgtbl_alloc_ready [OF tab1 _ reg_card [OF lst1] r(2) none _ le] True obtain i where
      i: "i < NREGION" "\<not> pgtbl_used s1 i" "pgtbl_alloc ?np s1 =
        (Some i, s1\<lparr>pgtbl_pool := (pgtbl_pool s1)(i := (\<lambda>j. if j < unat ?np
           then \<lparr>pte_pfn = 0, pte_flags = 0\<rparr> else pgtbl_pool s1 i j)),
         pgtbl_used := (pgtbl_used s1)(i := True)\<rparr>)" by blast
    define u where "u = s1\<lparr>pgtbl_pool := (pgtbl_pool s1)(i := (\<lambda>j. if j < unat ?np
           then \<lparr>pte_pfn = 0, pte_flags = 0\<rparr> else pgtbl_pool s1 i j)),
         pgtbl_used := (pgtbl_used s1)(i := True)\<rparr>"
    have tu: "t = upd_reg r (\<lambda>x. x\<lparr>r_pgtbl := Some i\<rparr>) u"
      using t1 True i(3) by (simp add: u_def)
    have "reg_tables t (set Ac)"
      by (rule reg_tables_give [OF tab1 r(2) none i(1,2)]) (simp_all add: tu u_def)
    moreover have "reg_refs t (set Ac)"
      using ref1 by (subst reg_refs_cong [of t s1]) (auto simp: tu u_def)
    moreover have "reg_lists t Fr Ac"
      using lst1 by (subst reg_lists_cong [of t s1]) (auto simp: tu u_def)
    ultimately show ?thesis using True by (simp add: region_inv_def tu u_def s1)
  qed
  then have res: "region_inv t Fr Ac" "region_table t r = (region_table s r)\<lparr>r_size := of_int n, r_npages := ?np,
      r_pgtbl := r_pgtbl (region_table t r)\<rparr>" "\<And>b. preg t b = preg s1 b" "cur_u t = cur_u s"
    "?np \<noteq> 0 \<Longrightarrow> r_pgtbl (region_table t r) \<noteq> None" "r_pgtbl (region_table s r) \<noteq> None \<Longrightarrow>
      r_pgtbl (region_table t r) = r_pgtbl (region_table s r) \<and> pgtbl_pool t = pgtbl_pool s"
    "\<And>q. q \<noteq> r \<Longrightarrow> region_table t q = region_table s q" by blast+
  have sz: "r_size (region_table t r) = of_int n" "r_npages (region_table t r) = ?np"
    by (subst res(2), simp)+
  show "region_inv t Fr Ac" "cur_u t = cur_u s" by (fact res(1) res(4))+
  show "unat (r_size (region_table t r)) = nat n" "unat (r_npages (region_table t r)) = (nat n + 4095) div 4096"
    "unat (r_npages (region_table t r)) \<le> PSA_MAX_PAGES" using np sz by simp_all
  show "pr_size (preg t a) = r_size (region_table t r)" "b \<noteq> a \<Longrightarrow> preg t b = preg s b" for b
    using res(3) sz by (simp_all add: s1)
  show "r_npages (region_table t r) \<noteq> 0 \<Longrightarrow> r_pgtbl (region_table t r) \<noteq> None" using res(5) sz by simp
  show "r_pgtbl (region_table s r) \<noteq> None \<Longrightarrow> r_pgtbl (region_table t r) = r_pgtbl (region_table s r)
      \<and> pgtbl_pool t = pgtbl_pool s" "q \<noteq> r \<Longrightarrow> region_table t q = region_table s q" for q
    using res(6,7) by blast+
  show "attachments t q = attachments s q" for q
    using res(3) unfolding attachments_def by (auto simp: s1 split: if_splits)
qed

section \<open>Releasing and detaching\<close>

lemma unlink_active_walk:
  assumes "sll (\<lambda>q. r_act_next (region_table s q)) p (as @ r # bs)" and "r \<notin> set as"
  shows "unlink_active r prev p s =
    Some (case lastp prev as of
            None \<Rightarrow> s\<lparr>active_region_list := r_act_next (region_table s r)\<rparr>
          | Some q \<Rightarrow> upd_reg q (\<lambda>x. x\<lparr>r_act_next := r_act_next (region_table s r)\<rparr>) s)"
  using assms
proof (induction as arbitrary: p prev)
  case Nil
  then have "p = Some r" by simp
  then show ?case by (subst unlink_active.simps) (auto split: option.split)
next
  case (Cons a as)
  then have "p = Some a" "a \<noteq> r" by auto
  with Cons show ?case by (subst unlink_active.simps) simp
qed

text \<open>What \<open>freereg\<close> leaves alone: everything but the links, the table pointer and the row.\<close>

definition same_region :: "region \<Rightarrow> region \<Rightarrow> bool" where
  "same_region x y \<longleftrightarrow> x\<lparr>r_free_next := None, r_act_next := None, r_pgtbl := None\<rparr> =
     y\<lparr>r_free_next := None, r_act_next := None, r_pgtbl := None\<rparr>"

lemma same_regionD:
  "same_region x y \<Longrightarrow> r_refcnt x = r_refcnt y \<and> r_npages x = r_npages y \<and> r_size x = r_size y \<and>
    r_type x = r_type y \<and> r_inode x = r_inode y \<and> r_status x = r_status y"
  by (cases x; cases y) (simp add: same_region_def)

lemma freereg_shared: "r_refcnt (region_table s r) \<noteq> 0 \<Longrightarrow> freereg (Some r) s = Some s"
  by (simp add: freereg_def word_gt_0)

lemma freereg_done:
  assumes lst: "reg_lists s Fr Ac" and tab: "reg_tables s (set Ac)" and r: "r \<in> set Ac"
    and zero: "r_refcnt (region_table s r) = 0"
  obtains t where "freereg (Some r) s = Some t" "reg_lists t (r # Fr) (remove1 r Ac)"
    "reg_tables t (set Ac - {r})" "u_pregs t = u_pregs s" "cur_u t = cur_u s" "pgtbl_pool t = pgtbl_pool s"
    "\<forall>q. same_region (region_table t q) (region_table s q)"
    "\<forall>q. r_pgtbl (region_table t q) = (if q = r then None else r_pgtbl (region_table s q))"
proof -
  note l = reg_listsD [OF lst]
  from r obtain as bs where Ac: "Ac = as @ r # bs" and nas: "r \<notin> set as" by (meson split_list_first)
  with l(6) have nbs: "r \<notin> set bs" and dab: "distinct as" by auto
  have rem: "remove1 r Ac = as @ bs" using nas by (simp add: Ac remove1_append)
  define s1 where "s1 = (if r_pgtbl (region_table s r) \<noteq> None
     then upd_reg r (\<lambda>x. x\<lparr>r_pgtbl := None\<rparr>) (pgtbl_free (r_pgtbl (region_table s r)) s) else s)"
  have s1: "region_table s1 = (region_table s)(r := (region_table s r)\<lparr>r_pgtbl := None\<rparr>)"
    "free_region_list s1 = free_region_list s" "active_region_list s1 = active_region_list s"
    "u_pregs s1 = u_pregs s" "cur_u s1 = cur_u s" "pgtbl_pool s1 = pgtbl_pool s" "pgtbl_ready s1"
    "pgtbl_used s1 = (case r_pgtbl (region_table s r) of None \<Rightarrow> pgtbl_used s
                      | Some k \<Rightarrow> (pgtbl_used s)(k := False))"
    using reg_tablesD(1,3) [OF tab] r
    by (auto simp: s1_def pgtbl_free_def pgtbl_pool_init_def first_idx_Some_iff first_idx_None_iff
        split: option.splits)
  have nx1: "sll (\<lambda>q. r_act_next (region_table s1 q)) (active_region_list s1) (as @ r # bs)"
  proof -
    have "(\<lambda>q. r_act_next (region_table s1 q)) = (\<lambda>q. r_act_next (region_table s q))" by (auto simp: s1(1))
    with l(2) show ?thesis by (simp add: s1(3) Ac)
  qed
  define s2 where "s2 = (case lastp None as of
       None \<Rightarrow> s1\<lparr>active_region_list := r_act_next (region_table s1 r)\<rparr>
     | Some q \<Rightarrow> upd_reg q (\<lambda>x. x\<lparr>r_act_next := r_act_next (region_table s1 r)\<rparr>) s1)"
  define t where "t = (upd_reg r (\<lambda>x. x\<lparr>r_act_next := None, r_free_next := free_region_list s\<rparr>) s2)
    \<lparr>free_region_list := Some r\<rparr>"
  have s2: "free_region_list s2 = free_region_list s" "u_pregs s2 = u_pregs s" "cur_u s2 = cur_u s"
    "pgtbl_pool s2 = pgtbl_pool s" "pgtbl_ready s2" "pgtbl_used s2 = pgtbl_used s1"
    using s1 by (simp_all add: s2_def split: option.split)
  have "freereg (Some r) s = Option.bind (unlink_active r None (active_region_list s1) s1)
      (\<lambda>s. let s = upd_reg r (\<lambda>x. x\<lparr>r_act_next := None\<rparr>) s;
               s = upd_reg r (\<lambda>x. x\<lparr>r_free_next := free_region_list s\<rparr>) s
           in Some (s\<lparr>free_region_list := Some r\<rparr>))"
    using zero by (simp add: freereg_def s1_def Let_def)
  also have "unlink_active r None (active_region_list s1) s1 = Some s2"
    unfolding s2_def by (rule unlink_active_walk [OF nx1 nas])
  finally have eq: "freereg (Some r) s = Some t" using s2(1) by (simp add: t_def Let_def upd_reg_upd)
  have lq: "q \<noteq> r" if "lastp None as = Some q" for q using that nas lastp_in [of as q] by auto
  have tabt: "region_table t q = (if q = r then (region_table s r)\<lparr>r_pgtbl := None, r_act_next := None,
        r_free_next := free_region_list s\<rparr>
      else if Some q = lastp None as then (region_table s q)\<lparr>r_act_next := r_act_next (region_table s r)\<rparr>
      else region_table s q)" for q
    using lq by (auto simp: t_def s2_def s1(1) split: option.split)
  have "sll (\<lambda>q. r_free_next (region_table s q)) p Fr = sll (\<lambda>q. r_free_next (region_table t q)) p Fr" for p
    using l(4) r by (intro sll_cong) (auto simp: tabt)
  then have fr: "sll (\<lambda>q. r_free_next (region_table t q)) (free_region_list t) (r # Fr)"
    using l(1) by (simp add: t_def tabt)
  have ac: "sll (\<lambda>q. r_act_next (region_table t q)) (active_region_list t) (as @ bs)"
  proof (cases as rule: rev_cases)
    case Nil
    have "sll (\<lambda>q. r_act_next (region_table s q)) p bs = sll (\<lambda>q. r_act_next (region_table t q)) p bs" for p
      using nbs Nil by (intro sll_cong) (auto simp: tabt)
    with Nil l(2) show ?thesis by (simp add: Ac t_def s2_def s1(1))
  next
    case (snoc cs c)
    have "sll ((\<lambda>q. r_act_next (region_table s q))(c := r_act_next (region_table s r)))
        (active_region_list s) (cs @ c # bs)"
      using sll_remove_mid [of "\<lambda>q. r_act_next (region_table s q)" "active_region_list s" cs c r bs] l(2)
      by (simp add: Ac snoc)
    also have "sll ((\<lambda>q. r_act_next (region_table s q))(c := r_act_next (region_table s r))) p (cs @ c # bs)
        = sll (\<lambda>q. r_act_next (region_table t q)) p (cs @ c # bs)" for p
      using nas nbs by (intro sll_cong) (auto simp: tabt snoc)
    finally show ?thesis by (simp add: snoc t_def s2_def s1(3))
  qed
  have sets: "set (as @ bs) = set Ac - {r}" using nas nbs by (auto simp: Ac)
  have "reg_lists t (r # Fr) (as @ bs)"
    using fr ac l(3,4) r unfolding reg_lists_def sets by auto
  then have g1: "reg_lists t (r # Fr) (remove1 r Ac)" by (simp add: rem)
  have pg: "r_pgtbl (region_table t q) = (if q = r then None else r_pgtbl (region_table s q))" for q
    by (simp add: tabt)
  have us: "pgtbl_used t = (case r_pgtbl (region_table s r) of None \<Rightarrow> pgtbl_used s
                      | Some k \<Rightarrow> (pgtbl_used s)(k := False))" "pgtbl_ready t"
    using s2 s1(8) by (simp_all add: t_def)
  have g2: "reg_tables t (set Ac - {r})"
    unfolding reg_tables_def pg
  proof (intro conjI allI impI ballI)
    fix k assume k: "k < NREGION"
    have "pgtbl_used t k \<longleftrightarrow> pgtbl_used s k \<and> r_pgtbl (region_table s r) \<noteq> Some k"
      by (auto simp: us split: option.splits)
    also have "\<dots> \<longleftrightarrow> (\<exists>q\<in>set Ac - {r}. (if q = r then None else r_pgtbl (region_table s q)) = Some k)"
      using reg_tablesD(2) [OF tab k] reg_tablesD(4) [OF tab _ r] by auto
    finally show "pgtbl_used t k = (\<exists>q\<in>set Ac - {r}. (if q = r then None else r_pgtbl (region_table s q)) = Some k)" .
  qed (use us(2) reg_tablesD(3,4) [OF tab] in \<open>auto split: if_splits\<close>)
  have g3: "\<forall>q. same_region (region_table t q) (region_table s q)"
    by (simp add: tabt same_region_def)
  show thesis
    by (rule that [OF eq g1 g2]) (use s2 g3 pg in \<open>simp_all add: t_def\<close>)
qed

lemma reg_refs_drop:
  assumes "reg_refs s A" and "attachments s r = {}"
  shows "reg_refs s (A - {r})"
  unfolding reg_refs_def
proof (intro conjI allI impI ballI)
  fix a assume a: "fst a < NUAREA" "snd a < MAX_REG_PER_PROC" "pr_valid (preg s a)"
  from reg_refsD(1) [OF assms(1) a] obtain q where q: "q \<in> A" "pr_region (preg s a) = Some q" by blast
  with a assms(2) have "q \<noteq> r" by (auto simp: attachments_def)
  with q show "\<exists>q\<in>A - {r}. pr_region (preg s a) = Some q" by blast
qed (use reg_refsD(2) [OF assms(1)] in blast)

lemma freereg_inv:
  assumes inv: "region_inv s Fr Ac" and r: "r \<in> set Ac" and zero: "r_refcnt (region_table s r) = 0"
  shows "\<exists>t. freereg (Some r) s = Some t \<and> region_inv t (r # Fr) (remove1 r Ac)"
proof -
  note d = region_invD [OF inv]
  from freereg_done [OF d(1,2) r zero] obtain t where
    t: "freereg (Some r) s = Some t" "reg_lists t (r # Fr) (remove1 r Ac)"
    "reg_tables t (set Ac - {r})" "u_pregs t = u_pregs s"
    "\<forall>q. same_region (region_table t q) (region_table s q)" .
  have sets: "set (remove1 r Ac) = set Ac - {r}"
    using reg_listsD(6) [OF d(1)] by (simp add: set_remove1_eq)
  have "attachments s r = {}" using refcnt_zero_iff [OF d(3) r] zero by simp
  from reg_refs_drop [OF d(3) this] have "reg_refs t (set Ac - {r})"
    using t(5) by (subst reg_refs_cong [of t s]) (auto simp: t(4) dest: same_regionD)
  with t(1-3) show ?thesis by (simp add: region_inv_def sets)
qed

lemma attachments_clear:
  assumes "\<And>b. b \<noteq> a \<Longrightarrow> preg t b = preg s b" and "\<not> pr_valid (preg t a)"
  shows "attachments t q = attachments s q - {a}"
proof -
  have "b \<in> attachments t q \<longleftrightarrow> b \<in> attachments s q - {a}" for b
    using assms by (cases "b = a") (auto simp: attachments_def)
  then show ?thesis by auto
qed

text \<open>The last attachment takes the region with it; any other only lowers the count.\<close>

lemma detachreg_inv:
  fixes s :: "'z regions_scheme"
  assumes inv: "region_inv s Fr Ac" and a: "fst a < NUAREA" "snd a < MAX_REG_PER_PROC" "pr_valid (preg s a)"
    and ar: "pr_region (preg s a) = Some r"
  obtains t where "detachreg (Some a) s = Some t" "\<not> pr_valid (preg t a)" "\<forall>b. b \<noteq> a \<longrightarrow> preg t b = preg s b"
    "\<forall>q. attachments t q = attachments s q - {a}" "pgtbl_pool t = pgtbl_pool s" "cur_u t = cur_u s"
    "region_inv t (if attachments s r = {a} then r # Fr else Fr)
                  (if attachments s r = {a} then remove1 r Ac else Ac)"
    "\<forall>q. r_npages (region_table t q) = r_npages (region_table s q)"
    "\<forall>q. q \<noteq> r \<or> attachments s r \<noteq> {a} \<longrightarrow> r_pgtbl (region_table t q) = r_pgtbl (region_table s q)"
proof -
  note d = region_invD [OF inv] and rr = reg_refsD [OF region_invD(3) [OF inv]]
  have r: "r \<in> set Ac" using rr(1) [OF a] ar by auto
  have ain: "a \<in> attachments s r" using a ar by (simp add: attachments_def)
  have c0: "0 < card (attachments s r)" using ain by (auto simp: card_gt_0_iff)
  have cnt: "unat (r_refcnt (region_table s r) - 1) = card (attachments s r) - 1"
    "r_refcnt (region_table s r) \<noteq> 0"
  proof -
    show "r_refcnt (region_table s r) \<noteq> 0" using rr(2) [OF r] c0 by auto
    then show "unat (r_refcnt (region_table s r) - 1) = card (attachments s r) - 1"
      using rr(2) [OF r] by (simp add: unat_minus_one)
  qed
  have last: "r_refcnt (region_table s r) - 1 = 0 \<longleftrightarrow> attachments s r = {a}"
  proof -
    have "r_refcnt (region_table s r) - 1 = 0 \<longleftrightarrow> card (attachments s r) = 1"
      using cnt(1) ain unat_eq_0 [of "r_refcnt (region_table s r) - 1"]
      by (cases "attachments s r = {}") (auto simp: le_eq_less_or_eq)
    then show ?thesis using ain by (auto simp: card_1_singleton_iff)
  qed
  define s1 where "s1 = upd_reg r (\<lambda>x. x\<lparr>r_refcnt := r_refcnt x - 1\<rparr>) s"
  define clear where "clear = (\<lambda>u. upd_preg a (\<lambda>x. x\<lparr>pr_region := None, pr_proc := None, pr_vaddr := 0,
     pr_size := 0, pr_valid := False\<rparr>) (u :: 'z regions_scheme))"
  have clr: "region_table (clear u) = region_table u" "pgtbl_pool (clear u) = pgtbl_pool u"
    "cur_u (clear u) = cur_u u" "\<not> pr_valid (preg (clear u) a)" "b \<noteq> a \<Longrightarrow> preg (clear u) b = preg u b" for u b
    by (simp_all add: clear_def)
  have run: "detachreg (Some a) s = Option.bind
      (if r_refcnt (region_table s r) - 1 = 0 then freereg (Some r) s1 else Some s1) (\<lambda>u. Some (clear u))"
    using a(3) ar cnt(2) by (simp add: detachreg_def s1_def clear_def word_gt_0 Let_def)
  have att: "attachments (clear u) q = attachments s q - {a}" if "u_pregs u = u_pregs s" for u :: "'z regions_scheme" and q
    using attachments_clear [of a "clear u" s q] clr(4,5) that by simp
  have refs: "reg_refs (clear u) B" if u: "u_pregs u = u_pregs s" and B: "B \<subseteq> set Ac"
    and cov: "\<And>b. pr_valid (preg s b) \<Longrightarrow> b \<noteq> a \<Longrightarrow> fst b < NUAREA \<Longrightarrow> snd b < MAX_REG_PER_PROC
        \<Longrightarrow> \<exists>q\<in>B. pr_region (preg s b) = Some q"
    and cn: "\<And>q. q \<in> B \<Longrightarrow> r_refcnt (region_table u q) =
        (if q = r then r_refcnt (region_table s r) - 1 else r_refcnt (region_table s q))"
    for u :: "'z regions_scheme" and B
    unfolding reg_refs_def
  proof (intro conjI allI impI ballI)
    fix b assume b: "fst b < NUAREA" "snd b < MAX_REG_PER_PROC" "pr_valid (preg (clear u) b)"
    then have "b \<noteq> a" using clr(4) by metis
    with b clr(5) [of b u] u cov [of b] show "\<exists>q\<in>B. pr_region (preg (clear u) b) = Some q" by simp
  next
    fix q assume q: "q \<in> B"
    have "a \<notin> attachments s q" if "q \<noteq> r" using ar that by (simp add: attachments_def)
    then have "q \<noteq> r \<Longrightarrow> card (attachments s q - {a}) = card (attachments s q)" by simp
    moreover have "card (attachments s r - {a}) = card (attachments s r) - 1"
      using ain by simp
    ultimately show "unat (r_refcnt (region_table (clear u) q)) = card (attachments (clear u) q)"
      unfolding att [OF u] clr(1) cn [OF q] using cnt(1) rr(2) [of q] B q by (cases "q = r") auto
  qed
  have lst1: "reg_lists s1 Fr Ac" using d(1) by (subst reg_lists_cong [of s1 s]) (auto simp: s1_def)
  have tab1: "reg_tables s1 (set Ac)" using d(2) by (subst reg_tables_cong [of s1 s]) (auto simp: s1_def)
  show thesis
  proof (cases "attachments s r = {a}")
    case False
    have "reg_refs (clear s1) (set Ac)"
      by (rule refs) (use rr(1) in \<open>auto simp: s1_def\<close>)
    moreover have "reg_lists (clear s1) Fr Ac"
      using lst1 by (subst reg_lists_cong [of _ s1]) (auto simp: clear_def)
    moreover have "reg_tables (clear s1) (set Ac)"
      using tab1 by (subst reg_tables_cong [of _ s1]) (auto simp: clear_def)
    ultimately have "region_inv (clear s1) Fr Ac" by (simp add: region_inv_def)
    moreover have "detachreg (Some a) s = Some (clear s1)" using run last False by simp
    moreover have "\<forall>q. attachments (clear s1) q = attachments s q - {a}" using att [of s1] by (simp add: s1_def)
    ultimately show thesis using that [of "clear s1"] False clr(4,5)
      by (simp add: s1_def clear_def)
  next
    case True
    have z: "r_refcnt (region_table s1 r) = 0" using last True by (simp add: s1_def)
    from freereg_done [OF lst1 tab1 r z] obtain u where
      u: "freereg (Some r) s1 = Some u" "reg_lists u (r # Fr) (remove1 r Ac)" "reg_tables u (set Ac - {r})"
      "u_pregs u = u_pregs s1" "cur_u u = cur_u s1" "pgtbl_pool u = pgtbl_pool s1"
      "\<forall>q. same_region (region_table u q) (region_table s1 q)"
      "\<forall>q. r_pgtbl (region_table u q) = (if q = r then None else r_pgtbl (region_table s1 q))" .
    have us: "u_pregs u = u_pregs s" using u(4) by (simp add: s1_def)
    have sets: "set (remove1 r Ac) = set Ac - {r}"
      using reg_listsD(6) [OF d(1)] by (simp add: set_remove1_eq)
    have "reg_refs (clear u) (set Ac - {r})"
    proof (rule refs [OF us])
      fix b assume b: "pr_valid (preg s b)" "b \<noteq> a" "fst b < NUAREA" "snd b < MAX_REG_PER_PROC"
      from rr(1) [OF b(3,4,1)] obtain q where q: "q \<in> set Ac" "pr_region (preg s b) = Some q" by blast
      with b True have "q \<noteq> r" by (auto simp: attachments_def)
      with q show "\<exists>q\<in>set Ac - {r}. pr_region (preg s b) = Some q" by blast
    next
      fix q assume "q \<in> set Ac - {r}"
      then show "r_refcnt (region_table u q) =
          (if q = r then r_refcnt (region_table s r) - 1 else r_refcnt (region_table s q))"
        using same_regionD [OF u(7) [rule_format, of q]] by (simp add: s1_def)
    qed auto
    moreover have "reg_lists (clear u) (r # Fr) (remove1 r Ac)"
      using u(2) by (subst reg_lists_cong [of _ u]) (auto simp: clear_def)
    moreover have "reg_tables (clear u) (set Ac - {r})"
      using u(3) by (subst reg_tables_cong [of _ u]) (auto simp: clear_def)
    ultimately have "region_inv (clear u) (r # Fr) (remove1 r Ac)" by (simp add: region_inv_def sets)
    moreover have "detachreg (Some a) s = Some (clear u)" using run last True u(1) by simp
    moreover have "\<forall>q. r_npages (region_table (clear u) q) = r_npages (region_table s q)"
    proof
      fix q show "r_npages (region_table (clear u) q) = r_npages (region_table s q)"
        using same_regionD [OF u(7) [rule_format, of q]] by (simp add: clr(1) s1_def)
    qed
    ultimately show thesis using that [of "clear u"] True clr(3,4,5) att [OF us] u(5,6,8) us
      by (simp add: s1_def clear_def)
  qed
qed

section \<open>Duplicating\<close>

lemma dupreg_none: "region_inv s [] Ac \<Longrightarrow> dupreg (Some r) s = Some (None, s)"
  by (simp add: dupreg_def allocreg_None)

lemma dupreg_done:
  assumes inv: "region_inv s (n # Fr) Ac" and r: "r \<in> set Ac"
    and np: "unat (r_npages (region_table s r)) \<le> PSA_MAX_PAGES"
  obtains t where "dupreg (Some r) s = Some (Some n, t)" "region_inv t Fr (n # Ac)"
    "\<forall>q. q \<noteq> n \<longrightarrow> region_table t q = region_table s q" "u_pregs t = u_pregs s" "cur_u t = cur_u s"
    "r_refcnt (region_table t n) = 0" "r_npages (region_table t n) = r_npages (region_table s r)"
    "r_size (region_table t n) = r_size (region_table s r)" "r_status (region_table t n) = r_status (region_table s r)"
    "\<forall>k. r_pgtbl (region_table s r) = Some k \<longrightarrow> r_npages (region_table s r) \<noteq> 0 \<longrightarrow>
       (\<exists>c. r_pgtbl (region_table t n) = Some c \<and> \<not> pgtbl_used s c \<and>
          pgtbl_pool t = (pgtbl_pool s)(c := (\<lambda>j. if j < unat (r_npages (region_table s r))
             then cow_entry (pgtbl_pool s k j) else pgtbl_pool s c j)))"
    "r_pgtbl (region_table s r) = None \<or> r_npages (region_table s r) = 0 \<longrightarrow>
       r_pgtbl (region_table t n) = None \<and> pgtbl_pool t = pgtbl_pool s"
proof -
  note l = reg_listsD [OF region_invD(1) [OF inv]]
  have nr: "n \<noteq> r" using l(4) r by auto
  from allocreg_Some [OF inv, of "r_inode (region_table s r)" "r_type (region_table s r)"] obtain s1 where
    s1: "allocreg (r_inode (region_table s r)) (r_type (region_table s r)) s = (Some n, s1)"
    "region_inv s1 Fr (n # Ac)" "\<And>q. q \<noteq> n \<Longrightarrow> region_table s1 q = region_table s q"
    "region_table s1 n = (region_table s1 n)\<lparr>r_type := r_type (region_table s r), r_inode := r_inode (region_table s r),
       r_refcnt := 0, r_pgtbl := None, r_npages := 0, r_size := 0, r_status := 0\<rparr>"
    "pgtbl_pool s1 = pgtbl_pool s" "pgtbl_used s1 = pgtbl_used s" "u_pregs s1 = u_pregs s" "cur_u s1 = cur_u s"
    by blast
  define s2 where "s2 = upd_reg n (\<lambda>x. x\<lparr>r_size := r_size (region_table s r), r_npages := r_npages (region_table s r)\<rparr>) s1"
  have none1: "r_pgtbl (region_table s1 n) = None" "r_refcnt (region_table s1 n) = 0"
    by (subst s1(4), simp)+
  note d1 = region_invD [OF s1(2)]
  have tab2: "reg_tables s2 (set (n # Ac))" using d1(2) by (subst reg_tables_cong [of s2 s1]) (auto simp: s2_def)
  have ref2: "reg_refs s2 (set (n # Ac))" using d1(3) by (subst reg_refs_cong [of s2 s1]) (auto simp: s2_def)
  have lst2: "reg_lists s2 Fr (n # Ac)" using d1(1) by (subst reg_lists_cong [of s2 s1]) (auto simp: s2_def)
  have none2: "r_pgtbl (region_table s2 n) = None" using none1 by (simp add: s2_def)
  define fin where "fin = (\<lambda>u. upd_reg n (\<lambda>x. x\<lparr>r_status := r_status (region_table s r)\<rparr>) (u :: 'a regions_scheme))"
  show thesis
  proof (cases "r_pgtbl (region_table s r) \<noteq> None \<and> r_npages (region_table s r) \<noteq> 0")
    case False
    have eq: "dupreg (Some r) s = Some (Some n, fin s2)"
      using s1(1,3) nr False by (auto simp: dupreg_def Let_def s2_def fin_def upd_reg_upd)
    have "region_inv (fin s2) Fr (n # Ac)"
      unfolding region_inv_def using lst2 tab2 ref2
      by (subst reg_lists_cong [of _ s2], auto simp: fin_def, subst reg_tables_cong [of _ s2], auto simp: fin_def,
          subst reg_refs_cong [of _ s2], auto simp: fin_def)
    with that [OF eq] False s1 nr none1 show thesis by (auto simp: fin_def s2_def)
  next
    case True
    then obtain k where k: "r_pgtbl (region_table s r) = Some k" by blast
    have le: "r_npages (region_table s r) \<le> of_nat PSA_MAX_PAGES"
      using np by (simp add: word_le_nat_alt PSA_MAX_PAGES_def)
    from pgtbl_alloc_ready [OF tab2 _ reg_card [OF lst2] _ none2 _ le] True obtain c where
      c: "c < NREGION" "\<not> pgtbl_used s2 c" "pgtbl_alloc (r_npages (region_table s r)) s2 =
        (Some c, s2\<lparr>pgtbl_pool := (pgtbl_pool s2)(c := (\<lambda>j. if j < unat (r_npages (region_table s r))
           then \<lparr>pte_pfn = 0, pte_flags = 0\<rparr> else pgtbl_pool s2 c j)),
         pgtbl_used := (pgtbl_used s2)(c := True)\<rparr>)" by auto
    have us: "pgtbl_used s2 = pgtbl_used s" "pgtbl_pool s2 = pgtbl_pool s"
      using s1(5,6) by (simp_all add: s2_def)
    have "pgtbl_used s k" using reg_tablesD(2,3) [OF region_invD(2) [OF inv]] r k by blast
    then have ck: "c \<noteq> k" using c(2) us by auto
    define u where "u = upd_reg n (\<lambda>x. x\<lparr>r_pgtbl := Some c\<rparr>)
      (s2\<lparr>pgtbl_pool := (pgtbl_pool s)(c := (\<lambda>j. if j < unat (r_npages (region_table s r))
           then cow_entry (pgtbl_pool s k j) else pgtbl_pool s c j)), pgtbl_used := (pgtbl_used s)(c := True)\<rparr>)"
    have eq: "dupreg (Some r) s = Some (Some n, fin u)"
      using s1(1,3) nr True c(3) k ck
      by (simp add: dupreg_def Let_def s2_def fin_def upd_reg_upd)
        (simp add: u_def s2_def upd_reg_def us s1(5,6) pgtbl_copy_def fun_upd_def cong: if_cong)
    have sel: "u_pregs (fin u) = u_pregs s2" "pgtbl_ready (fin u) = pgtbl_ready s2"
      "pgtbl_used (fin u) = (pgtbl_used s2)(c := True)"
      "\<And>q. r_pgtbl (region_table (fin u) q) = (if q = n then Some c else r_pgtbl (region_table s2 q))"
      "\<And>q. r_refcnt (region_table (fin u) q) = r_refcnt (region_table s2 q)"
      "\<And>q. r_free_next (region_table (fin u) q) = r_free_next (region_table s2 q)"
      "\<And>q. r_act_next (region_table (fin u) q) = r_act_next (region_table s2 q)"
      "free_region_list (fin u) = free_region_list s2" "active_region_list (fin u) = active_region_list s2"
      by (simp_all add: fin_def u_def us)
    have "reg_tables (fin u) (set (n # Ac))"
      by (rule reg_tables_give [OF tab2 _ none2 c(1,2)]) (simp_all add: sel)
    moreover have "reg_refs (fin u) (set (n # Ac))"
      using ref2 by (subst reg_refs_cong [of _ s2]) (auto simp: sel)
    moreover have "reg_lists (fin u) Fr (n # Ac)"
      using lst2 by (subst reg_lists_cong [of _ s2]) (auto simp: sel)
    ultimately have "region_inv (fin u) Fr (n # Ac)" by (simp add: region_inv_def)
    with that [OF eq] True s1 nr none1 c(2) us k show thesis by (auto simp: fin_def u_def s2_def)
  qed
qed

section \<open>Runs of the region algorithms\<close>

definition reg_sizes :: "'z regions_scheme \<Rightarrow> nat set \<Rightarrow> bool" where
  "reg_sizes s A \<longleftrightarrow> (\<forall>r\<in>A. unat (r_npages (region_table s r)) \<le> PSA_MAX_PAGES \<and>
     (r_npages (region_table s r) \<noteq> 0 \<longrightarrow> r_pgtbl (region_table s r) \<noteq> None))"

definition regions_ok :: "'z regions_scheme \<Rightarrow> bool" where
  "regions_ok s \<longleftrightarrow> cur_u s < NUAREA \<and> (\<exists>Fr Ac. region_inv s Fr Ac \<and> reg_sizes s (set Ac))"

text \<open>A region is active when the walk over the active list meets it.\<close>

definition active :: "'z regions_scheme \<Rightarrow> nat \<Rightarrow> bool" where
  "active s r \<longleftrightarrow> (\<exists>Ac. sll (\<lambda>q. r_act_next (region_table s q)) (active_region_list s) Ac \<and> r \<in> set Ac)"

lemma active_iff: "reg_lists s Fr Ac \<Longrightarrow> active s r \<longleftrightarrow> r \<in> set Ac"
  using reg_listsD(2) sll_unique unfolding active_def by metis

definition slot_ok :: "nat \<times> nat \<Rightarrow> bool" where
  "slot_ok a \<longleftrightarrow> fst a < NUAREA \<and> snd a < MAX_REG_PER_PROC"

inductive region_step :: "'z regions_scheme \<Rightarrow> 'z regions_scheme \<Rightarrow> bool" where
  alloc: "allocreg ip ty s = (r, t) \<Longrightarrow> region_step s t"
| attach: "active s r \<Longrightarrow> attachreg (Some r) p va ty s = (a, t) \<Longrightarrow> region_step s t"
| grow: "slot_ok a \<Longrightarrow> pr_valid (preg s a) \<Longrightarrow> growreg (Some a) d s = t \<Longrightarrow> region_step s t"
| detach: "slot_ok a \<Longrightarrow> detachreg (Some a) s = Some t \<Longrightarrow> region_step s t"
| release: "active s r \<Longrightarrow> freereg (Some r) s = Some t \<Longrightarrow> region_step s t"
| dup: "active s r \<Longrightarrow> dupreg (Some r) s = Some (x, t) \<Longrightarrow> region_step s t"
| switch: "v < NUAREA \<Longrightarrow> region_step s (s\<lparr>cur_u := v\<rparr>)"

inductive_cases region_stepE: "region_step s t"

lemma regions_okI:
  "cur_u s < NUAREA \<Longrightarrow> region_inv s Fr Ac \<Longrightarrow> reg_sizes s (set Ac) \<Longrightarrow> regions_ok s"
  unfolding regions_ok_def by blast

lemma reg_sizes_sub:
  assumes "reg_sizes s A" and "B \<subseteq> A"
    and "\<And>r. r \<in> B \<Longrightarrow> r_npages (region_table t r) = r_npages (region_table s r) \<and>
      r_pgtbl (region_table t r) = r_pgtbl (region_table s r)"
  shows "reg_sizes t B"
  using assms unfolding reg_sizes_def by (metis subsetD)

text \<open>Detaching a pregion of a well-formed table ends, whether it is attached or not.\<close>

lemma detach_ok:
  assumes ok: "regions_ok s" and a: "slot_ok a"
  shows "\<exists>t. detachreg (Some a) s = Some t \<and> regions_ok t"
proof -
  from ok obtain Fr Ac where inv: "region_inv s Fr Ac" and sz: "reg_sizes s (set Ac)" and u: "cur_u s < NUAREA"
    unfolding regions_ok_def by blast
  show ?thesis
  proof (cases "pr_valid (preg s a)")
    case False
    with ok show ?thesis by (simp add: detachreg_def)
  next
    case True
    with a reg_refsD(1) [OF region_invD(3) [OF inv], of a] obtain r where r: "pr_region (preg s a) = Some r"
      by (auto simp: slot_ok_def)
    have a': "fst a < NUAREA" "snd a < MAX_REG_PER_PROC" using a by (simp_all add: slot_ok_def)
    from detachreg_inv [OF inv a' True r] obtain t where t: "detachreg (Some a) s = Some t"
      "cur_u t = cur_u s" "region_inv t (if attachments s r = {a} then r # Fr else Fr)
                  (if attachments s r = {a} then remove1 r Ac else Ac)"
      "\<forall>q. r_npages (region_table t q) = r_npages (region_table s q)"
      "\<forall>q. q \<noteq> r \<or> attachments s r \<noteq> {a} \<longrightarrow> r_pgtbl (region_table t q) = r_pgtbl (region_table s q)" .
    have d: "distinct Ac" using reg_listsD(6) [OF region_invD(1) [OF inv]] .
    have "reg_sizes t (set (if attachments s r = {a} then remove1 r Ac else Ac))"
    proof (cases "attachments s r = {a}")
      case True
      with d have "set (remove1 r Ac) = set Ac - {r}" by (simp add: set_remove1_eq)
      moreover have "reg_sizes t (set Ac - {r})"
        by (rule reg_sizes_sub [OF sz]) (use t(4,5) in auto)
      ultimately show ?thesis using True by simp
    next
      case False
      with t(4,5) show ?thesis by (simp add: reg_sizes_sub [OF sz order_refl])
    qed
    with t(1,2,3) u show ?thesis using regions_okI [of t] by auto
  qed
qed

lemma release_ok:
  assumes ok: "regions_ok s" and r: "active s r"
  shows "\<exists>t. freereg (Some r) s = Some t \<and> regions_ok t"
proof -
  from ok obtain Fr Ac where inv: "region_inv s Fr Ac" and sz: "reg_sizes s (set Ac)" and u: "cur_u s < NUAREA"
    unfolding regions_ok_def by blast
  note d = region_invD [OF inv]
  have r': "r \<in> set Ac" using r active_iff [OF d(1)] by simp
  show ?thesis
  proof (cases "r_refcnt (region_table s r) = 0")
    case False
    with ok freereg_shared show ?thesis by blast
  next
    case True
    from freereg_done [OF d(1,2) r' True] obtain t where
      t: "freereg (Some r) s = Some t" "cur_u t = cur_u s"
      "\<forall>q. same_region (region_table t q) (region_table s q)"
      "\<forall>q. r_pgtbl (region_table t q) = (if q = r then None else r_pgtbl (region_table s q))" .
    from freereg_inv [OF inv r' True] t(1) have inv': "region_inv t (r # Fr) (remove1 r Ac)" by simp
    have "reg_sizes t (set (remove1 r Ac))"
      using reg_listsD(6) [OF d(1)] t(3,4)
      by (intro reg_sizes_sub [OF sz]) (auto simp: set_remove1_eq dest: same_regionD)
    with inv' t(1,2) u show ?thesis using regions_okI [of t] by auto
  qed
qed

lemma dup_ok:
  assumes ok: "regions_ok s" and r: "active s r"
  shows "\<exists>x t. dupreg (Some r) s = Some (x, t) \<and> regions_ok t"
proof -
  from ok obtain Fr Ac where inv: "region_inv s Fr Ac" and sz: "reg_sizes s (set Ac)" and u: "cur_u s < NUAREA"
    unfolding regions_ok_def by blast
  note l = reg_listsD [OF region_invD(1) [OF inv]]
  have r': "r \<in> set Ac" using r active_iff [OF region_invD(1) [OF inv]] by simp
  have np: "unat (r_npages (region_table s r)) \<le> PSA_MAX_PAGES" using sz r' by (simp add: reg_sizes_def)
  show ?thesis
  proof (cases Fr)
    case Nil
    with inv ok dupreg_none [of s Ac r] show ?thesis by auto
  next
    case (Cons n Fr')
    have nn: "n \<notin> set Ac" using l(4) Cons by auto
    from dupreg_done [OF inv [unfolded Cons] r' np] obtain t where
      t: "dupreg (Some r) s = Some (Some n, t)" "region_inv t Fr' (n # Ac)"
      "\<forall>q. q \<noteq> n \<longrightarrow> region_table t q = region_table s q" "cur_u t = cur_u s"
      "r_npages (region_table t n) = r_npages (region_table s r)"
      "\<forall>k. r_pgtbl (region_table s r) = Some k \<longrightarrow> r_npages (region_table s r) \<noteq> 0 \<longrightarrow>
         (\<exists>c. r_pgtbl (region_table t n) = Some c \<and> \<not> pgtbl_used s c \<and>
            pgtbl_pool t = (pgtbl_pool s)(c := (\<lambda>j. if j < unat (r_npages (region_table s r))
               then cow_entry (pgtbl_pool s k j) else pgtbl_pool s c j)))" .
    have "reg_sizes t (set Ac)"
      using nn t(3) by (intro reg_sizes_sub [OF sz]) auto
    moreover have "r_npages (region_table s r) \<noteq> 0 \<Longrightarrow> r_pgtbl (region_table t n) \<noteq> None"
      using sz r' t(6) unfolding reg_sizes_def by fastforce
    ultimately have "reg_sizes t (set (n # Ac))" using np t(5) by (simp add: reg_sizes_def)
    with t(1,2,4) u show ?thesis using regions_okI [of t] by auto
  qed
qed

lemma region_step_ok: "region_step s t \<Longrightarrow> regions_ok s \<Longrightarrow> regions_ok t"
proof (induction rule: region_step.induct)
  case (alloc ip ty s r t)
  from alloc.prems obtain Fr Ac where inv: "region_inv s Fr Ac" and sz: "reg_sizes s (set Ac)" and u: "cur_u s < NUAREA"
    unfolding regions_ok_def by blast
  show ?case
  proof (cases Fr)
    case Nil
    with inv alloc allocreg_None [of s Ac ip ty] show ?thesis by simp
  next
    case (Cons n Fr')
    have nn: "n \<notin> set Ac" using reg_listsD(4) [OF region_invD(1) [OF inv]] Cons by auto
    from allocreg_Some [OF inv [unfolded Cons], of ip ty] obtain t' where
      t': "allocreg ip ty s = (Some n, t')" "region_inv t' Fr' (n # Ac)"
      "\<And>q. q \<noteq> n \<Longrightarrow> region_table t' q = region_table s q" "cur_u t' = cur_u s"
      "region_table t' n = (region_table t' n)\<lparr>r_type := ty, r_inode := ip, r_refcnt := 0, r_pgtbl := None,
           r_npages := 0, r_size := 0, r_status := 0\<rparr>" by blast
    have "r_npages (region_table t' n) = 0" by (subst t'(5)) simp
    with t' alloc.hyps have t: "region_inv t Fr' (n # Ac)" "\<And>q. q \<noteq> n \<Longrightarrow> region_table t q = region_table s q"
      "r_npages (region_table t n) = 0" "cur_u t = cur_u s" by simp_all
    have "reg_sizes t (set Ac)"
    proof (rule reg_sizes_sub [OF sz order_refl])
      fix q assume "q \<in> set Ac"
      with nn have "region_table t q = region_table s q" using t(2) by metis
      then show "r_npages (region_table t q) = r_npages (region_table s q) \<and>
        r_pgtbl (region_table t q) = r_pgtbl (region_table s q)" by simp
    qed
    with t u show ?thesis using regions_okI [of t] by (simp add: reg_sizes_def)
  qed
next
  case (attach s r p va ty a t)
  from attach.prems obtain Fr Ac where inv: "region_inv s Fr Ac" and sz: "reg_sizes s (set Ac)" and u: "cur_u s < NUAREA"
    unfolding regions_ok_def by blast
  have r: "r \<in> set Ac" using attach.hyps(1) active_iff [OF region_invD(1) [OF inv]] by simp
  show ?case
  proof (cases "a = None")
    case True
    with attach show ?thesis by (auto simp: attachreg_def Let_def split: option.splits)
  next
    case False
    with attach.hyps(2) obtain q b where q: "p = Some q" "a = Some b"
      by (cases p; cases a) (simp_all add: attachreg_def)
    note t = attachreg_inv [OF inv r u attach.hyps(2) [unfolded q]]
    have "cur_u t = cur_u s"
      using attach.hyps(2) by (auto simp: attachreg_def Let_def split: option.splits)
    moreover have "r_npages (region_table t k) = r_npages (region_table s k)" for k
      using attach.hyps(2) by (auto simp: attachreg_def Let_def split: option.splits)
    then have "reg_sizes t (set Ac)" using t(8) by (intro reg_sizes_sub [OF sz]) auto
    ultimately show ?thesis using regions_okI [of t] t(1) u by simp
  qed
next
  case (grow a s d t)
  from grow.prems obtain Fr Ac where inv: "region_inv s Fr Ac" and sz: "reg_sizes s (set Ac)" and u: "cur_u s < NUAREA"
    unfolding regions_ok_def by blast
  from grow.hyps reg_refsD(1) [OF region_invD(3) [OF inv], of a] obtain r where
    r: "pr_region (preg s a) = Some r" "r \<in> set Ac" by (auto simp: slot_ok_def)
  define n where "n = int (unat (r_size (region_table s r))) + d"
  show ?case
  proof (cases "n < 0 \<or> MAX_REGION_SIZE < n")
    case True
    note t = growreg_refused [OF r(1) n_def True, unfolded grow.hyps(3)]
    have "region_inv t Fr Ac"
      using inv unfolding t region_inv_def reg_lists_def reg_tables_def reg_refs_def attachments_def by simp
    moreover have "reg_sizes t (set Ac)" using sz by (simp add: t reg_sizes_def)
    ultimately show ?thesis using regions_okI [of t] u by (simp add: t)
  next
    case False
    then have n: "0 \<le> n" "n \<le> MAX_REGION_SIZE" by auto
    note t = growreg_resized [OF inv r n_def n grow.hyps(3) [symmetric]]
    have "reg_sizes t (set Ac - {r})" using t(8) by (intro reg_sizes_sub [OF sz]) auto
    then have "reg_sizes t (set Ac)" using t(4,6) unfolding reg_sizes_def by blast
    with t(1,10) u show ?thesis using regions_okI [of t] by simp
  qed
next
  case (detach a s t)
  with detach_ok [of s a] show ?case by simp
next
  case (release s r t)
  with release_ok [of s r] show ?case by simp
next
  case (dup s r x t)
  with dup_ok [of s r] show ?case by simp
next
  case (switch v s)
  then obtain Fr Ac where inv: "region_inv s Fr Ac" and sz: "reg_sizes s (set Ac)"
    unfolding regions_ok_def by blast
  have "region_inv (s\<lparr>cur_u := v\<rparr>) Fr Ac"
    using inv unfolding region_inv_def reg_lists_def reg_tables_def reg_refs_def attachments_def by simp
  moreover have "reg_sizes (s\<lparr>cur_u := v\<rparr>) (set Ac)" using sz by (simp add: reg_sizes_def)
  ultimately show ?case using regions_okI [of "s\<lparr>cur_u := v\<rparr>"] switch.hyps by simp
qed

section \<open>Properties\<close>

lemma region_steps_ok: "region_step\<^sup>*\<^sup>* s t \<Longrightarrow> regions_ok s \<Longrightarrow> regions_ok t"
  by (induction rule: rtranclp_induct) (simp_all add: region_step_ok)

lemma region_init_ok:
  assumes "\<not> pgtbl_ready s" and "\<And>a. \<not> pr_valid (preg s a)" and "cur_u s < NUAREA"
  shows "regions_ok (region_init s)"
  using region_init_inv [OF assms(1,2)] assms(3)
  by (intro regions_okI [of _ "[0..<NREGION]" "[]"])
    (simp_all add: reg_sizes_def region_init_def pgtbl_pool_init_def Let_def)

lemma regions_ok_active:
  assumes "regions_ok s" and "active s r"
  shows "r < NREGION" and "unat (r_refcnt (region_table s r)) = card (attachments s r)"
    and "unat (r_npages (region_table s r)) \<le> PSA_MAX_PAGES"
    and "r_npages (region_table s r) \<noteq> 0 \<Longrightarrow> \<exists>k < NREGION. r_pgtbl (region_table s r) = Some k \<and> pgtbl_used s k"
proof -
  from assms(1) obtain Fr Ac where inv: "region_inv s Fr Ac" and sz: "reg_sizes s (set Ac)"
    unfolding regions_ok_def by blast
  note d = region_invD [OF inv]
  have r: "r \<in> set Ac" using assms(2) active_iff [OF d(1)] by simp
  show "r < NREGION" using reg_listsD(3) [OF d(1)] r by blast
  show "unat (r_refcnt (region_table s r)) = card (attachments s r)" by (rule reg_refsD(2) [OF d(3) r])
  show "unat (r_npages (region_table s r)) \<le> PSA_MAX_PAGES" using sz r by (simp add: reg_sizes_def)
  show "\<exists>k < NREGION. r_pgtbl (region_table s r) = Some k \<and> pgtbl_used s k" if "r_npages (region_table s r) \<noteq> 0"
  proof -
    from sz r that obtain k where k: "r_pgtbl (region_table s r) = Some k" by (auto simp: reg_sizes_def)
    with reg_tablesD(2,3) [OF d(2)] r show ?thesis by blast
  qed
qed

text \<open>C14: whatever sequence of region algorithms runs after \<open>region_init\<close>, the reference count of an
  active region is the number of attachments to it, its page table is a pool row of its own of
  at most 1024 entries, and \<open>detachreg\<close>, \<open>freereg\<close> and \<open>dupreg\<close> end.\<close>

theorem region_runs_ok:
  assumes "\<not> pgtbl_ready s" and "\<And>a. \<not> pr_valid (preg s a)" and "cur_u s < NUAREA"
    and "region_step\<^sup>*\<^sup>* (region_init s) t" and "active t r" and "slot_ok a"
  shows "r < NREGION \<and> unat (r_refcnt (region_table t r)) = card (attachments t r) \<and>
    unat (r_npages (region_table t r)) \<le> PSA_MAX_PAGES \<and>
    (r_npages (region_table t r) \<noteq> 0 \<longrightarrow> (\<exists>k < NREGION. r_pgtbl (region_table t r) = Some k \<and> pgtbl_used t k \<and>
       (\<forall>q. active t q \<longrightarrow> r_pgtbl (region_table t q) = Some k \<longrightarrow> q = r))) \<and>
    (\<exists>u. detachreg (Some a) t = Some u) \<and> (\<exists>u. freereg (Some r) t = Some u) \<and> (\<exists>x u. dupreg (Some r) t = Some (x, u))"
proof -
  from region_steps_ok [OF assms(4)] region_init_ok [OF assms(1,2,3)] have ok: "regions_ok t" by blast
  from ok obtain Fr Ac where inv: "region_inv t Fr Ac" unfolding regions_ok_def by blast
  note d = region_invD [OF inv]
  have r: "r \<in> set Ac" using assms(5) active_iff [OF d(1)] by simp
  have "q = r" if "active t q" "r_pgtbl (region_table t q) = Some k" "r_pgtbl (region_table t r) = Some k" for q k
    using reg_tablesD(4) [OF d(2) _ r that(2,3)] that(1) active_iff [OF d(1)] by simp
  with regions_ok_active [OF ok assms(5)] detach_ok [OF ok assms(6)] release_ok [OF ok assms(5)]
    dup_ok [OF ok assms(5)] show ?thesis by blast
qed

text \<open>A table of regions where u area 0 has attached one region of one page.\<close>

definition reg_boot :: regions where
  "reg_boot = \<lparr>region_table = (\<lambda>i. zero_region), free_region_list = None, active_region_list = None,
     phys_mem_used = 0, pgtbl_pool = (\<lambda>i j. \<lparr>pte_pfn = 0, pte_flags = 0\<rparr>), pgtbl_used = (\<lambda>i. False),
     pgtbl_ready = False, u_pregs = (\<lambda>v i. \<lparr>pr_region = None, pr_proc = None, pr_type = 0, pr_vaddr = 0,
       pr_size = 0, pr_valid = False\<rparr>), cur_u = 0, reg_error = (\<lambda>v. 0)\<rparr>"

definition reg_demo :: regions where
  "reg_demo = growreg (Some (0, 0)) 4096 (snd (attachreg (Some 0) (Some 0) 0x400000 2
     (snd (allocreg None 2 (region_init reg_boot)))))"

lemma reg_demo_sel:
  shows "region_step\<^sup>*\<^sup>* (region_init reg_boot) reg_demo" and "active reg_demo 0"
    and "r_npages (region_table reg_demo 0) = 1" and "r_pgtbl (region_table reg_demo 0) = Some 0"
    and "r_refcnt (region_table reg_demo 0) = 1" and "pr_region (preg reg_demo (0, 0)) = Some 0"
    and "pr_valid (preg reg_demo (0, 0))" and "free_region_list reg_demo = Some 1"
    and "r_size (region_table reg_demo 0) = 4096" "cur_u reg_demo = 0"
    "\<not> pr_valid (u_pregs reg_demo 0 1)" "pgtbl_pool reg_demo 0 0 = \<lparr>pte_pfn = 0, pte_flags = 0\<rparr>"
proof -
  let ?a = "snd (allocreg None 2 (region_init reg_boot))"
  let ?b = "snd (attachreg (Some 0) (Some 0) 0x400000 2 ?a)"
  have a: "allocreg None 2 (region_init reg_boot) = (Some 0, ?a)" "active_region_list ?a = Some 0"
    "r_act_next (region_table ?a 0) = None" "r_size (region_table ?a 0) = 0" "r_pgtbl (region_table ?a 0) = None"
    "r_refcnt (region_table ?a 0) = 0" "cur_u ?a = 0" "pgtbl_ready ?a"
    "u_pregs ?a = u_pregs reg_boot" "pgtbl_used ?a = (\<lambda>i. False)" "free_region_list ?a = Some 1"
    "\<not> pr_valid (u_pregs ?a 0 1)"
    by (simp_all add: allocreg_def region_init_def reg_boot_def pgtbl_pool_init_def Let_def zero_region_def NREGION_def)
  have f: "first_idx (\<lambda>i. \<not> pr_valid (u_pregs ?a (cur_u ?a) i)) MAX_REG_PER_PROC = Some 0"
    unfolding a(7,9) by (simp add: reg_boot_def first_idx_Some_iff MAX_REG_PER_PROC_def)
  have b: "attachreg (Some 0) (Some 0) 0x400000 2 ?a = (Some (0, 0), ?b)"
    "active_region_list ?b = Some 0" "r_act_next (region_table ?b 0) = None" "r_size (region_table ?b 0) = 0"
    "r_pgtbl (region_table ?b 0) = None" "r_refcnt (region_table ?b 0) = 1" "pgtbl_ready ?b"
    "pr_region (preg ?b (0, 0)) = Some 0" "pr_valid (preg ?b (0, 0))" "pgtbl_used ?b = (\<lambda>i. False)"
    "free_region_list ?b = Some 1" "cur_u ?b = 0" "\<not> pr_valid (u_pregs ?b 0 1)" using f a by (simp_all add: attachreg_def Let_def)
  have "first_idx (\<lambda>i. True) NREGION = Some 0" by (simp add: first_idx_Some_iff NREGION_def)
  then have c: "r_npages (region_table reg_demo 0) = 1" "r_pgtbl (region_table reg_demo 0) = Some 0"
    "r_refcnt (region_table reg_demo 0) = 1" "pr_region (preg reg_demo (0, 0)) = Some 0"
    "pr_valid (preg reg_demo (0, 0))" "active_region_list reg_demo = Some 0" "r_act_next (region_table reg_demo 0) = None"
    "free_region_list reg_demo = Some 1" "r_size (region_table reg_demo 0) = 4096" "cur_u reg_demo = 0"
    "\<not> pr_valid (u_pregs reg_demo 0 1)" "pgtbl_pool reg_demo 0 0 = \<lparr>pte_pfn = 0, pte_flags = 0\<rparr>"
    using b unfolding reg_demo_def
    by (simp_all add: growreg_def Let_def MAX_REGION_SIZE_def PSA_MAX_PAGES_def PSA_PAGE_SIZE_def
        pgtbl_alloc_def pgtbl_pool_init_def)
  show "active reg_demo 0"
    unfolding active_def by (rule exI [of _ "[0]"]) (simp add: c)
  have st: "region_step (region_init reg_boot) ?a" by (rule region_step.alloc [OF a(1)])
  have "active ?a 0" unfolding active_def by (rule exI [of _ "[0]"]) (simp add: a(2,3))
  then have "region_step ?a ?b" by (rule region_step.attach [OF _ b(1)])
  moreover have "region_step ?b reg_demo" unfolding reg_demo_def
    by (rule region_step.grow [OF _ b(9) refl]) (simp add: slot_ok_def NUAREA_def MAX_REG_PER_PROC_def)
  ultimately show "region_step\<^sup>*\<^sup>* (region_init reg_boot) reg_demo" using st
    by (meson converse_rtranclp_into_rtranclp r_into_rtranclp)
  show "r_npages (region_table reg_demo 0) = 1" "r_pgtbl (region_table reg_demo 0) = Some 0"
    "r_refcnt (region_table reg_demo 0) = 1" "pr_region (preg reg_demo (0, 0)) = Some 0"
    "pr_valid (preg reg_demo (0, 0))" "free_region_list reg_demo = Some 1"
    "r_size (region_table reg_demo 0) = 4096" "cur_u reg_demo = 0"
    "\<not> pr_valid (u_pregs reg_demo 0 1)" "pgtbl_pool reg_demo 0 0 = \<lparr>pte_pfn = 0, pte_flags = 0\<rparr>" by (fact c)+
qed

lemma region_runs_ok_witness:
  "unat (r_refcnt (region_table reg_demo 0)) = card (attachments reg_demo 0) \<and>
   (\<exists>u. detachreg (Some (0, 0)) reg_demo = Some u)"
proof -
  have "\<not> pgtbl_ready reg_boot" "\<And>a. \<not> pr_valid (preg reg_boot a)" "cur_u reg_boot < NUAREA"
    by (simp_all add: reg_boot_def NUAREA_def)
  from region_runs_ok [OF this reg_demo_sel(1,2), of "(0, 0)"] show ?thesis
    by (simp add: slot_ok_def NUAREA_def MAX_REG_PER_PROC_def)
qed

lemma dup_child:
  assumes ok: "regions_ok s" and act: "active s r" and dup: "dupreg (Some r) s = Some (Some n, t)"
    and np: "r_npages (region_table s r) \<noteq> 0"
  obtains k c where "r_pgtbl (region_table s r) = Some k" "r_pgtbl (region_table t n) = Some c" "c \<noteq> k"
    "region_table t r = region_table s r" "pgtbl_pool t k = pgtbl_pool s k" "r_refcnt (region_table t n) = 0"
    "r_npages (region_table t n) = r_npages (region_table s r)"
    "\<forall>j < unat (r_npages (region_table s r)). pgtbl_pool t c j = cow_entry (pgtbl_pool s k j)"
    "r_size (region_table t n) = r_size (region_table s r)" "cur_u t = cur_u s" "u_pregs t = u_pregs s"
proof -
  from ok obtain Fr Ac where inv: "region_inv s Fr Ac" unfolding regions_ok_def by blast
  note d = region_invD [OF inv]
  have r: "r \<in> set Ac" using act active_iff [OF d(1)] by simp
  from regions_ok_active(4) [OF ok act np] obtain k where
    k: "r_pgtbl (region_table s r) = Some k" "pgtbl_used s k" by blast
  have "Fr \<noteq> []" using dup dupreg_none [of s Ac r] inv by auto
  then obtain m Fr' where Fr: "Fr = m # Fr'" by (cases Fr) auto
  have mr: "m \<noteq> r" using reg_listsD(4) [OF d(1)] r Fr by auto
  from dupreg_done [OF inv [unfolded Fr] r regions_ok_active(3) [OF ok act]] obtain t' where
    t': "dupreg (Some r) s = Some (Some m, t')" "\<forall>q. q \<noteq> m \<longrightarrow> region_table t' q = region_table s q"
    "r_refcnt (region_table t' m) = 0" "r_npages (region_table t' m) = r_npages (region_table s r)"
    "\<forall>k. r_pgtbl (region_table s r) = Some k \<longrightarrow> r_npages (region_table s r) \<noteq> 0 \<longrightarrow>
       (\<exists>c. r_pgtbl (region_table t' m) = Some c \<and> \<not> pgtbl_used s c \<and>
          pgtbl_pool t' = (pgtbl_pool s)(c := (\<lambda>j. if j < unat (r_npages (region_table s r))
             then cow_entry (pgtbl_pool s k j) else pgtbl_pool s c j)))"
    "r_size (region_table t' m) = r_size (region_table s r)" "cur_u t' = cur_u s" "u_pregs t' = u_pregs s" .
  from t'(5) k(1) np obtain c where c: "r_pgtbl (region_table t' m) = Some c" "\<not> pgtbl_used s c"
    "pgtbl_pool t' = (pgtbl_pool s)(c := (\<lambda>j. if j < unat (r_npages (region_table s r))
             then cow_entry (pgtbl_pool s k j) else pgtbl_pool s c j))" by blast
  have e: "m = n" "t' = t" using dup t'(1) by simp_all
  have ck: "c \<noteq> k" using c(2) k(2) by auto
  show thesis
    by (rule that [of k c]) (use k(1) c ck t'(2,3,4,6,7,8) mr in \<open>simp_all add: e\<close>)
qed

text \<open>\<open>dupreg\<close> gives the child a page table of its own over the same frames in which no entry is
  writable, each that was writable carrying \<open>dupreg\<close>'s copy-on-write bit; the parent's region and
  entries, its write permission included, stay as they were.\<close>

theorem dupreg_shares_frames:
  assumes ok: "regions_ok s" and act: "active s r" and dup: "dupreg (Some r) s = Some (Some n, t)"
    and np: "r_npages (region_table s r) \<noteq> 0"
  shows "\<exists>k c. r_pgtbl (region_table s r) = Some k \<and> r_pgtbl (region_table t n) = Some c \<and> c \<noteq> k \<and>
    region_table t r = region_table s r \<and> pgtbl_pool t k = pgtbl_pool s k \<and> r_refcnt (region_table t n) = 0 \<and>
    r_npages (region_table t n) = r_npages (region_table s r) \<and>
    (\<forall>j < unat (r_npages (region_table s r)).
       pte_pfn (pgtbl_pool t c j) = pte_pfn (pgtbl_pool s k j) \<and>
       pte_flags (pgtbl_pool t c j) AND PSA_PTE_WRITE = 0 \<and>
       (pte_flags (pgtbl_pool s k j) AND PSA_PTE_WRITE \<noteq> 0 \<longrightarrow> pte_flags (pgtbl_pool t c j) AND PSA_PTE_COW \<noteq> 0))"
proof -
  from dup_child [OF ok act dup np] obtain k c where
    c: "r_pgtbl (region_table s r) = Some k" "r_pgtbl (region_table t n) = Some c" "c \<noteq> k"
    "region_table t r = region_table s r" "pgtbl_pool t k = pgtbl_pool s k" "r_refcnt (region_table t n) = 0"
    "r_npages (region_table t n) = r_npages (region_table s r)"
    "\<forall>j < unat (r_npages (region_table s r)). pgtbl_pool t c j = cow_entry (pgtbl_pool s k j)" .
  have bits: "((f AND NOT PSA_PTE_WRITE) OR PSA_PTE_COW) AND PSA_PTE_WRITE = 0"
    "((f AND NOT PSA_PTE_WRITE) OR PSA_PTE_COW) AND PSA_PTE_COW \<noteq> 0" for f :: u16
    by (simp_all add: PSA_PTE_WRITE_def PSA_PTE_COW_def word_ao_dist word_bw_assocs)
  have "pte_pfn (cow_entry x) = pte_pfn x \<and> pte_flags (cow_entry x) AND PSA_PTE_WRITE = 0 \<and>
      (pte_flags x AND PSA_PTE_WRITE \<noteq> 0 \<longrightarrow> pte_flags (cow_entry x) AND PSA_PTE_COW \<noteq> 0)" for x
    using bits by (simp add: cow_entry_def)
  with c show ?thesis by (intro exI [of _ k] exI [of _ c]) simp
qed

lemma dup_some:
  assumes ok: "regions_ok s" and act: "active s r" and free: "free_region_list s \<noteq> None"
  shows "\<exists>n t. dupreg (Some r) s = Some (Some n, t)"
proof -
  from ok obtain Fr Ac where inv: "region_inv s Fr Ac" unfolding regions_ok_def by blast
  note d = region_invD [OF inv]
  have r: "r \<in> set Ac" using act active_iff [OF d(1)] by simp
  obtain m Fr' where Fr: "Fr = m # Fr'" using reg_listsD(1) [OF d(1)] free by (cases Fr) auto
  from dupreg_done [OF inv [unfolded Fr] r regions_ok_active(3) [OF ok act]] obtain t where
    "dupreg (Some r) s = Some (Some m, t)" .
  then show ?thesis by blast
qed

lemma dupreg_shares_frames_witness:
  "\<exists>n t. dupreg (Some 0) reg_demo = Some (Some n, t) \<and> region_table t 0 = region_table reg_demo 0"
proof -
  have ok: "regions_ok reg_demo"
    by (rule region_steps_ok [OF reg_demo_sel(1)], rule region_init_ok) (simp_all add: reg_boot_def NUAREA_def)
  have "free_region_list reg_demo \<noteq> None" by (simp add: reg_demo_sel(8))
  from dup_some [OF ok reg_demo_sel(2) this] obtain n t where
    d: "dupreg (Some 0) reg_demo = Some (Some n, t)" by blast
  have "r_npages (region_table reg_demo 0) \<noteq> 0" by (simp add: reg_demo_sel(3))
  from dupreg_shares_frames [OF ok reg_demo_sel(2) d this] d show ?thesis by blast
qed

text \<open>A page table is cleared over the pages it is first taken for, not over those a later
  \<open>growreg\<close> adds: growing by one page twice leaves in the second entry whatever the row's
  previous owner had there.\<close>

theorem growreg_keeps_stale_entry:
  assumes "pr_region (preg s a) = Some r" and "r_size (region_table s r) = 0"
    and "r_pgtbl (region_table s r) = None" and "pgtbl_ready s"
    and "first_idx (\<lambda>i. \<not> pgtbl_used s i) NREGION = Some k"
    and "t = growreg (Some a) 4096 (growreg (Some a) 4096 s)"
  shows "r_npages (region_table t r) = 2 \<and> r_pgtbl (region_table t r) = Some k \<and>
    pgtbl_pool t k 0 = \<lparr>pte_pfn = 0, pte_flags = 0\<rparr> \<and> pgtbl_pool t k 1 = pgtbl_pool s k 1"
proof -
  define u where "u = growreg (Some a) 4096 s"
  have u: "pr_region (preg u a) = Some r" "r_size (region_table u r) = 4096"
    "r_pgtbl (region_table u r) = Some k" "pgtbl_pool u = (pgtbl_pool s)(k := (\<lambda>j. if j < 1
         then \<lparr>pte_pfn = 0, pte_flags = 0\<rparr> else pgtbl_pool s k j))"
    using assms(1-5) by (simp_all add: u_def growreg_def Let_def MAX_REGION_SIZE_def PSA_MAX_PAGES_def
        PSA_PAGE_SIZE_def pgtbl_alloc_def pgtbl_pool_init_def cong: if_cong)
  have "t = growreg (Some a) 4096 u" using assms(6) by (simp add: u_def)
  with u show ?thesis
    by (simp add: growreg_def Let_def MAX_REGION_SIZE_def PSA_MAX_PAGES_def PSA_PAGE_SIZE_def)
qed

text \<open>Row 0 last belonged to a region whose second page was valid in frame 7.\<close>

definition reg_stale :: regions where
  "reg_stale = (snd (attachreg (Some 0) (Some 0) 0x400000 2 (snd (allocreg None 2 (region_init reg_boot)))))
     \<lparr>pgtbl_pool := (\<lambda>i j. if i = 0 \<and> j = 1 then \<lparr>pte_pfn = 7, pte_flags = 5\<rparr>
                         else \<lparr>pte_pfn = 0, pte_flags = 0\<rparr>)\<rparr>"

lemma growreg_keeps_stale_entry_witness:
  "pgtbl_pool (growreg (Some (0, 0)) 4096 (growreg (Some (0, 0)) 4096 reg_stale)) 0 1 =
     \<lparr>pte_pfn = 7, pte_flags = 5\<rparr>"
proof -
  have a: "first_idx (\<lambda>i. True) MAX_REG_PER_PROC = Some 0" "first_idx (\<lambda>i. True) NREGION = Some 0"
    by (simp_all add: first_idx_Some_iff MAX_REG_PER_PROC_def NREGION_def)
  have "pr_region (preg reg_stale (0, 0)) = Some 0" "r_size (region_table reg_stale 0) = 0"
    "r_pgtbl (region_table reg_stale 0) = None" "pgtbl_ready reg_stale"
    "first_idx (\<lambda>i. \<not> pgtbl_used reg_stale i) NREGION = Some 0"
    "pgtbl_pool reg_stale 0 1 = \<lparr>pte_pfn = 7, pte_flags = 5\<rparr>"
    by (simp_all add: reg_stale_def attachreg_def allocreg_def region_init_def reg_boot_def
        pgtbl_pool_init_def Let_def zero_region_def a)
  from growreg_keeps_stale_entry [OF this(1-5) refl] this(6) show ?thesis by simp
qed

section \<open>Regions inside a larger state\<close>

lemma extend_sel [simp]:
  "region_table (regions.extend r m) = region_table r" "free_region_list (regions.extend r m) = free_region_list r"
  "active_region_list (regions.extend r m) = active_region_list r" "phys_mem_used (regions.extend r m) = phys_mem_used r"
  "pgtbl_pool (regions.extend r m) = pgtbl_pool r" "pgtbl_used (regions.extend r m) = pgtbl_used r"
  "pgtbl_ready (regions.extend r m) = pgtbl_ready r" "u_pregs (regions.extend r m) = u_pregs r"
  "cur_u (regions.extend r m) = cur_u r" "reg_error (regions.extend r m) = reg_error r"
  by (simp_all add: regions.extend_def)

lemma extend_ok [simp]:
  "regions_ok (regions.extend r m) \<longleftrightarrow> regions_ok r" "active (regions.extend r m) q \<longleftrightarrow> active r q"
  by (simp_all add: regions_ok_def region_inv_def reg_lists_def reg_tables_def reg_refs_def attachments_def
      reg_sizes_def active_def)

text \<open>The region algorithms keep what surrounds the regions.\<close>

lemma upd_more [simp]:
  "regions.more (upd_reg r f s) = regions.more s" "regions.more (upd_preg a g s) = regions.more s"
  by (simp_all add: upd_reg_def upd_preg_def)

lemma allocreg_more: "allocreg ip ty s = (x, t) \<Longrightarrow> regions.more t = regions.more s"
  by (auto simp: allocreg_def Let_def split: option.splits)

lemma pgtbl_alloc_more: "pgtbl_alloc np s = (x, t) \<Longrightarrow> regions.more t = regions.more s"
  by (auto simp: pgtbl_alloc_def pgtbl_pool_init_def Let_def split: option.splits if_splits)

lemma dupreg_more:
  assumes "dupreg (Some r) s = Some (Some n, t)"
  shows "regions.more t = regions.more s"
proof -
  obtain x s1 where a: "allocreg (r_inode (region_table s r)) (r_type (region_table s r)) s = (x, s1)"
    by (cases "allocreg (r_inode (region_table s r)) (r_type (region_table s r)) s")
  then obtain m where x: "x = Some m" using assms by (cases x) (simp_all add: dupreg_def)
  define s2 where "s2 = upd_reg m (\<lambda>x. x\<lparr>r_npages := r_npages (region_table (upd_reg m
    (\<lambda>x. x\<lparr>r_size := r_size (region_table s1 r)\<rparr>) s1) r)\<rparr>) (upd_reg m (\<lambda>x. x\<lparr>r_size := r_size (region_table s1 r)\<rparr>) s1)"
  have m2: "regions.more s2 = regions.more s" using allocreg_more [OF a] by (simp add: s2_def)
  have d: "dupreg (Some r) s =
      (if r_pgtbl (region_table s2 r) \<noteq> None \<and> r_npages (region_table s2 r) \<noteq> 0
       then (case pgtbl_alloc (r_npages (region_table s2 r)) s2 of
          (None, s) \<Rightarrow> Option.bind (freereg (Some m) s) (\<lambda>s. Some (None, s))
        | (Some t, s) \<Rightarrow>
            (let s = upd_reg m (\<lambda>x. x\<lparr>r_pgtbl := Some t\<rparr>) s;
                 s = pgtbl_copy (Some t) (r_pgtbl (region_table s r)) (r_npages (region_table s r)) s;
                 s = s\<lparr>pgtbl_pool := (pgtbl_pool s)(t := (\<lambda>j. if j < unat (r_npages (region_table s r))
                          then cow_entry (pgtbl_pool s t j) else pgtbl_pool s t j))\<rparr>
             in Some (Some m, upd_reg m (\<lambda>x. x\<lparr>r_status := r_status (region_table s r)\<rparr>) s)))
       else Some (Some m, upd_reg m (\<lambda>x. x\<lparr>r_status := r_status (region_table s2 r)\<rparr>) s2))"
    using a x by (simp only: dupreg_def option.simps prod.simps Let_def s2_def)
  show ?thesis
  proof (cases "r_pgtbl (region_table s2 r) \<noteq> None \<and> r_npages (region_table s2 r) \<noteq> 0")
    case False
    with assms d have "t = upd_reg m (\<lambda>x. x\<lparr>r_status := r_status (region_table s2 r)\<rparr>) s2" by auto
    with m2 show ?thesis by simp
  next
    case True
    obtain y s3 where p: "pgtbl_alloc (r_npages (region_table s2 r)) s2 = (y, s3)"
      by (cases "pgtbl_alloc (r_npages (region_table s2 r)) s2")
    have m3: "regions.more s3 = regions.more s" using pgtbl_alloc_more [OF p] m2 by simp
    have c: "regions.more (pgtbl_copy u v w z) = regions.more z" for u v w and z :: "'a regions_scheme"
      by (simp add: pgtbl_copy_def split: option.split)
    show ?thesis
    proof (cases y)
      case None
      with assms d True p show ?thesis by (simp add: bind_eq_Some_conv)
    next
      case (Some k)
      with assms d True p m3 c show ?thesis by (auto simp: Let_def)
    qed
  qed
qed

lemma attachreg_more:
  "attachreg r p va ty s = (a, t) \<Longrightarrow> regions.more t = regions.more s"
  by (auto simp: attachreg_def Let_def split: option.splits)

end
