(* ===== verification/PhysAlloc.thy ===== *)
theory PhysAlloc
  imports Prelude
begin

text \<open>
  The physical page allocator (\<open>33_PCS/02_MemMngnt/src/uiox_phys_alloc.c\<close>): a pool of page
  descriptors, a LIFO list of the free ones and a reference count per page.  Addresses are
  64-bit words (\<open>uiox_uintptr_t\<close> on the 64-bit targets); a descriptor pointer is its index in
  \<open>s_pages\<close>, so the C pointer \<open>NULL\<close> is \<open>None\<close>, and the returned \<open>void *\<close> is the address word,
  whose zero is \<open>NULL\<close>.
\<close>

definition UIOX_PAGE_SHIFT :: nat where "UIOX_PAGE_SHIFT = 12"
definition UIOX_PAGE_SIZE :: u64 where "UIOX_PAGE_SIZE = push_bit UIOX_PAGE_SHIFT 1"
definition UIOX_PAGE_MASK :: u64 where "UIOX_PAGE_MASK = NOT (UIOX_PAGE_SIZE - 1)"
definition UIOX_MAX_PAGES :: nat where "UIOX_MAX_PAGES = 16384"

record page =
  pg_phys :: u64
  pg_next :: "nat option"
  pg_flags :: u32
  pg_refcount :: u32

record phys =
  pages :: "nat \<Rightarrow> page"
  free_list :: "nat option"
  nr_free :: u32
  nr_total :: u32
  mm_ready :: bool

text \<open>The pool before \<open>uiox_mm_init\<close>: static storage, all zero.\<close>

definition phys_boot :: phys where
  "phys_boot = \<lparr>pages = (\<lambda>i. \<lparr>pg_phys = 0, pg_next = None, pg_flags = 0, pg_refcount = 0\<rparr>),
     free_list = None, nr_free = 0, nr_total = 0, mm_ready = False\<rparr>"

text \<open>One iteration of the fill loop.\<close>

definition mm_fill_one :: "u64 \<Rightarrow> nat \<Rightarrow> phys \<Rightarrow> phys" where
  "mm_fill_one addr i s =
     s\<lparr>pages := (pages s)(i := \<lparr>pg_phys = addr, pg_next = free_list s, pg_flags = 0, pg_refcount = 0\<rparr>),
       free_list := Some i, nr_free := nr_free s + 1, nr_total := nr_total s + 1\<rparr>"

function mm_fill :: "u64 \<Rightarrow> u64 \<Rightarrow> nat \<Rightarrow> phys \<Rightarrow> phys" where
  "mm_fill base addr i s =
     (if i < UIOX_MAX_PAGES
      then if addr = base then mm_fill_one addr i s
           else mm_fill base (addr - UIOX_PAGE_SIZE) (i + 1) (mm_fill_one addr i s)
      else s)"
  by pat_completeness auto
termination by (relation "measure (\<lambda>(base, addr, i, s). UIOX_MAX_PAGES - i)") auto

declare mm_fill.simps [simp del]

definition mm_base :: "u64 \<Rightarrow> u64" where
  "mm_base dram_base = (dram_base + UIOX_PAGE_SIZE - 1) AND UIOX_PAGE_MASK"

definition mm_top :: "u64 \<Rightarrow> u64 \<Rightarrow> u64" where
  "mm_top dram_base dram_size = (dram_base + dram_size) AND UIOX_PAGE_MASK"

definition uiox_mm_init :: "u64 \<Rightarrow> u64 \<Rightarrow> phys \<Rightarrow> phys" where
  "uiox_mm_init dram_base dram_size s =
     (let base = mm_base dram_base; top = mm_top dram_base dram_size in
      if top \<le> base then s
      else
        (let s = s\<lparr>free_list := None, nr_free := 0, nr_total := 0\<rparr>;
             s = mm_fill base (top - UIOX_PAGE_SIZE) 0 s
         in s\<lparr>mm_ready := True\<rparr>))"

definition phys_alloc_page :: "phys \<Rightarrow> u64 \<times> phys" where
  "phys_alloc_page s =
     (if \<not> mm_ready s then (0, s)
      else
        (case free_list s of
           None \<Rightarrow> (0, s)
         | Some i \<Rightarrow>
             (let pg = pages s i;
                  s = s\<lparr>free_list := pg_next pg,
                        pages := (pages s)(i := pg\<lparr>pg_next := None, pg_refcount := 1\<rparr>),
                        nr_free := nr_free s - 1\<rparr>
              in (pg_phys pg, s))))"

text \<open>The body of the search loop for the descriptor that matches.\<close>

definition page_unref :: "nat \<Rightarrow> phys \<Rightarrow> phys" where
  "page_unref i s =
     (let s = (if 0 < pg_refcount (pages s i)
               then s\<lparr>pages := (pages s)(i := (pages s i)\<lparr>pg_refcount := pg_refcount (pages s i) - 1\<rparr>)\<rparr>
               else s)
      in if pg_refcount (pages s i) = 0
         then s\<lparr>pages := (pages s)(i := (pages s i)\<lparr>pg_next := free_list s\<rparr>), free_list := Some i,
                nr_free := nr_free s + 1\<rparr>
         else s)"

definition phys_free_page :: "u64 \<Rightarrow> phys \<Rightarrow> phys" where
  "phys_free_page pg s =
     (if pg = 0 \<or> \<not> mm_ready s then s
      else
        (case first_idx (\<lambda>i. pg_phys (pages s i) = pg AND UIOX_PAGE_MASK) (unat (nr_total s)) of
           None \<Rightarrow> s
         | Some i \<Rightarrow> page_unref i s))"

definition uiox_mm_free_pages :: "phys \<Rightarrow> u32" where "uiox_mm_free_pages s = nr_free s"
definition uiox_mm_total_pages :: "phys \<Rightarrow> u32" where "uiox_mm_total_pages s = nr_total s"

section \<open>Invariant\<close>

text \<open>
  \<open>phys_inv s F\<close>: the descriptors \<open>0 .. nr_total - 1\<close> have page addresses of their own, the
  free list is \<open>F\<close>, its members are exactly the descriptors with no reference, no page has more
  than one reference and the free count is the length of the list.
\<close>

definition phys_inv :: "phys \<Rightarrow> nat list \<Rightarrow> bool" where
  "phys_inv s F \<longleftrightarrow> unat (nr_total s) \<le> UIOX_MAX_PAGES \<and>
     (\<forall>i < unat (nr_total s). pg_phys (pages s i) AND UIOX_PAGE_MASK = pg_phys (pages s i)) \<and>
     inj_on (\<lambda>i. pg_phys (pages s i)) {..<unat (nr_total s)} \<and>
     sll (\<lambda>i. pg_next (pages s i)) (free_list s) F \<and>
     set F = {i. i < unat (nr_total s) \<and> pg_refcount (pages s i) = 0} \<and>
     (\<forall>i < unat (nr_total s). pg_refcount (pages s i) \<le> 1) \<and>
     unat (nr_free s) = length F"

text \<open>The pages handed out and not given back, by address.\<close>

definition held :: "phys \<Rightarrow> u64 set" where
  "held s = {pg_phys (pages s i) |i. i < unat (nr_total s) \<and> pg_refcount (pages s i) \<noteq> 0}"

lemma phys_invD:
  assumes "phys_inv s F"
  shows "unat (nr_total s) \<le> UIOX_MAX_PAGES"
    and "i < unat (nr_total s) \<Longrightarrow> pg_phys (pages s i) AND UIOX_PAGE_MASK = pg_phys (pages s i)"
    and "inj_on (\<lambda>i. pg_phys (pages s i)) {..<unat (nr_total s)}"
    and "sll (\<lambda>i. pg_next (pages s i)) (free_list s) F"
    and "set F = {i. i < unat (nr_total s) \<and> pg_refcount (pages s i) = 0}"
    and "i < unat (nr_total s) \<Longrightarrow> pg_refcount (pages s i) \<le> 1"
    and "unat (nr_free s) = length F" and "distinct F"
  using assms sll_distinct [of "\<lambda>i. pg_next (pages s i)" "free_list s" F]
  by (simp_all add: phys_inv_def)

lemma phys_free_bound: "phys_inv s F \<Longrightarrow> length F \<le> UIOX_MAX_PAGES"
proof -
  assume inv: "phys_inv s F"
  have "length F = card (set F)" using phys_invD(8) [OF inv] by (simp add: distinct_card)
  also have "\<dots> \<le> card {..<unat (nr_total s)}"
    using phys_invD(5) [OF inv] by (intro card_mono) auto
  finally show ?thesis using phys_invD(1) [OF inv] by simp
qed

section \<open>Initialisation\<close>

lemma page_bytes: "UIOX_PAGE_SIZE = 4096"
  by (simp add: UIOX_PAGE_SIZE_def UIOX_PAGE_SHIFT_def push_bit_eq_mult)

lemma sll_countdown:
  "(\<And>j. j < n \<Longrightarrow> nx j = (if j = 0 then None else Some (j - 1)))
    \<Longrightarrow> sll nx (if n = 0 then None else Some (n - 1)) (rev [0..<n])"
  by (induction n) auto

text \<open>The pages above \<open>base\<close> have addresses other than \<open>base\<close>.\<close>

lemma page_offset_zero:
  assumes "j * 4096 < 2 ^ 64"
  shows "of_nat j * (4096 :: u64) = 0 \<longleftrightarrow> j = 0"
proof -
  have "of_nat j * (4096 :: u64) = of_nat (j * 4096)" by simp
  also have "\<dots> = 0 \<longleftrightarrow> 2 ^ 64 dvd j * 4096"
    by (subst word_of_nat_eq_0_iff) simp
  also have "\<dots> \<longleftrightarrow> j * 4096 = 0"
    using assms by (auto dest: dvd_imp_le)
  finally show ?thesis by simp
qed

text \<open>
  The loop from iteration \<open>i\<close> on: descriptors \<open>i .. i + k - 1\<close> take the pages from \<open>addr\<close> down
  to \<open>base\<close>, where \<open>k\<close> is bounded by the pool.
\<close>

lemma mm_fill_spec:
  assumes "addr = base + of_nat m * UIOX_PAGE_SIZE" and "i \<le> UIOX_MAX_PAGES" and "m * 4096 < 2 ^ 64"
    and "k = min (UIOX_MAX_PAGES - i) (m + 1)"
  shows "pages (mm_fill base addr i s) j =
        (if i \<le> j \<and> j < i + k
         then \<lparr>pg_phys = addr - of_nat (j - i) * UIOX_PAGE_SIZE,
               pg_next = (if j = i then free_list s else Some (j - 1)), pg_flags = 0, pg_refcount = 0\<rparr>
         else pages s j) \<and>
     free_list (mm_fill base addr i s) = (if k = 0 then free_list s else Some (i + k - 1)) \<and>
     nr_total (mm_fill base addr i s) = nr_total s + of_nat k \<and>
     nr_free (mm_fill base addr i s) = nr_free s + of_nat k \<and>
     mm_ready (mm_fill base addr i s) = mm_ready s"
  using assms
proof (induction m arbitrary: addr i s k)
  case 0
  then show ?case
    by (subst mm_fill.simps) (auto simp: mm_fill_one_def mm_fill.simps)
next
  case (Suc m)
  show ?case
  proof (cases "i < UIOX_MAX_PAGES")
    case False
    then have "mm_fill base addr i s = s" by (subst mm_fill.simps) simp
    with False Suc.prems(4) show ?thesis by auto
  next
    case True
    have ne: "addr \<noteq> base"
      using page_offset_zero [of "Suc m"] Suc.prems(1,3) by (simp add: page_bytes)
    have k: "k = Suc (min (UIOX_MAX_PAGES - Suc i) (m + 1))" using Suc.prems(4) True by simp
    have st: "mm_fill base addr i s =
        mm_fill base (addr - UIOX_PAGE_SIZE) (Suc i) (mm_fill_one addr i s)"
      using True ne by (subst mm_fill.simps) simp
    have a: "addr - UIOX_PAGE_SIZE = base + of_nat m * UIOX_PAGE_SIZE"
      using Suc.prems(1) by (simp add: algebra_simps)
    from Suc.IH [OF a, of "Suc i" "k - 1" "mm_fill_one addr i s"] True Suc.prems(3) k
    have ih: "pages (mm_fill base addr i s) j =
        (if Suc i \<le> j \<and> j < i + k
         then \<lparr>pg_phys = addr - UIOX_PAGE_SIZE - of_nat (j - Suc i) * UIOX_PAGE_SIZE,
               pg_next = (if j = Suc i then Some i else Some (j - 1)), pg_flags = 0, pg_refcount = 0\<rparr>
         else ((pages s)(i := \<lparr>pg_phys = addr, pg_next = free_list s, pg_flags = 0, pg_refcount = 0\<rparr>)) j) \<and>
      free_list (mm_fill base addr i s) = Some (i + k - 1) \<and>
      nr_total (mm_fill base addr i s) = nr_total s + of_nat k \<and>
      nr_free (mm_fill base addr i s) = nr_free s + of_nat k \<and>
      mm_ready (mm_fill base addr i s) = mm_ready s"
      unfolding st mm_fill_one_def by simp
    have off: "addr - UIOX_PAGE_SIZE - of_nat (j - Suc i) * UIOX_PAGE_SIZE =
        addr - of_nat (j - i) * UIOX_PAGE_SIZE" if "Suc i \<le> j"
    proof -
      have "of_nat (j - i) = (1 :: u64) + of_nat (j - Suc i)"
        using that by (metis Suc_diff_Suc Suc_le_lessD of_nat_Suc)
      then show ?thesis by (simp add: algebra_simps)
    qed
    show ?thesis using ih off k True by auto
  qed
qed

text \<open>Rounding an address down to a page.\<close>

lemma page_mask_shift: "x AND UIOX_PAGE_MASK = push_bit 12 (drop_bit 12 x)"
proof -
  have "UIOX_PAGE_MASK = NOT (mask 12)"
    by (simp add: UIOX_PAGE_MASK_def UIOX_PAGE_SIZE_def UIOX_PAGE_SHIFT_def mask_eq_decr_exp push_bit_eq_mult)
  then show ?thesis by (simp add: bit_eq_iff bit_simps) (auto simp: bit_simps)
qed

lemma unat_page_mask: "unat (x AND UIOX_PAGE_MASK) = unat x div 4096 * 4096"
proof -
  have "unat (push_bit 12 (drop_bit 12 x)) = unat (drop_bit 12 x) * 4096"
  proof -
    have "unat (drop_bit 12 x) = unat x div 4096"
      by (subst unat_drop_bit_eq) (simp only: drop_bit_eq_div, simp)
    moreover have "unat x < 2 ^ 64" using unsigned_less [of x] by simp
    ultimately have "unat (drop_bit 12 x) * 4096 < 2 ^ 64" by linarith
    then show ?thesis by (simp add: push_bit_eq_mult unat_word_ariths)
  qed
  moreover have "unat (drop_bit 12 x) = unat x div 4096"
    by (subst unat_drop_bit_eq) (simp only: drop_bit_eq_div, simp)
  ultimately show ?thesis by (simp add: page_mask_shift)
qed

lemma page_aligned: "x AND UIOX_PAGE_MASK = x \<longleftrightarrow> 4096 dvd unat x"
proof -
  have "x AND UIOX_PAGE_MASK = x \<longleftrightarrow> unat x div 4096 * 4096 = unat x"
    by (metis unat_page_mask word_unat_eq_iff)
  also have "\<dots> \<longleftrightarrow> 4096 dvd unat x" by (metis dvd_div_mult_self dvd_triv_right)
  finally show ?thesis .
qed

text \<open>Page-aligned \<open>base < top\<close> are a whole number of pages apart.\<close>

lemma page_span:
  assumes "base AND UIOX_PAGE_MASK = base" and "tp AND UIOX_PAGE_MASK = tp" and "base < tp"
  obtains m where "tp - UIOX_PAGE_SIZE = base + of_nat m * UIOX_PAGE_SIZE"
    and "Suc m = (unat tp - unat base) div 4096" and "unat base + Suc m * 4096 = unat tp"
proof -
  have lt: "unat base < unat tp" using assms(3) by (simp add: word_less_nat_alt)
  from assms(1,2) obtain b t where b: "unat base = 4096 * b" and t: "unat tp = 4096 * t"
    unfolding page_aligned dvd_def by blast
  have m: "Suc (t - b - 1) = t - b" using lt b t by simp
  have eq: "unat base + Suc (t - b - 1) * 4096 = unat tp" unfolding m using lt b t by simp
  have "tp = of_nat (unat base + Suc (t - b - 1) * 4096)" unfolding eq by simp
  also have "\<dots> = base + of_nat (Suc (t - b - 1)) * 4096"
    by (simp only: of_nat_add of_nat_mult of_nat_numeral) simp
  also have "\<dots> = base + (of_nat (t - b - 1) * 4096 + 4096)"
    by (simp only: of_nat_Suc distrib_right mult_1 add.commute)
  finally have "tp - UIOX_PAGE_SIZE = base + of_nat (t - b - 1) * UIOX_PAGE_SIZE"
    by (simp only: page_bytes add.assoc [symmetric] add_diff_cancel_right')
  moreover have "Suc (t - b - 1) = (unat tp - unat base) div 4096"
    unfolding m using b t by (simp add: right_diff_distrib' [symmetric])
  ultimately show thesis using that eq by blast
qed

lemma mm_base_aligned [simp]: "mm_base b AND UIOX_PAGE_MASK = mm_base b"
  and mm_top_aligned [simp]: "mm_top b z AND UIOX_PAGE_MASK = mm_top b z"
  by (simp_all add: mm_base_def mm_top_def)

text \<open>What \<open>uiox_mm_init\<close> builds: descriptor \<open>i\<close> has the \<open>i\<close>-th page from the top.\<close>

lemma mm_init_eq:
  assumes "mm_base b < mm_top b z"
    and "n = min UIOX_MAX_PAGES ((unat (mm_top b z) - unat (mm_base b)) div 4096)"
    and t: "t = uiox_mm_init b z s"
  shows "i < n \<Longrightarrow> pages t i = \<lparr>pg_phys = mm_top b z - of_nat (i + 1) * UIOX_PAGE_SIZE,
      pg_next = (if i = 0 then None else Some (i - 1)), pg_flags = 0, pg_refcount = 0\<rparr>"
    and "0 < n" and "free_list t = Some (n - 1)" and "nr_total t = of_nat n"
    and "nr_free t = of_nat n" and "mm_ready t" and "unat (mm_base b) + n * 4096 \<le> unat (mm_top b z)"
    and "n < 2 ^ 32" and "n \<le> UIOX_MAX_PAGES"
proof -
  from page_span [OF mm_base_aligned mm_top_aligned assms(1)] obtain m where
    m: "mm_top b z - UIOX_PAGE_SIZE = mm_base b + of_nat m * UIOX_PAGE_SIZE"
      "Suc m = (unat (mm_top b z) - unat (mm_base b)) div 4096"
      "unat (mm_base b) + Suc m * 4096 = unat (mm_top b z)" .
  have n: "n = min (UIOX_MAX_PAGES - 0) (m + 1)" using assms(2) m(2) by simp
  have "unat (mm_top b z) < 2 ^ 64" using unsigned_less [of "mm_top b z"] by simp
  with m(3) have b: "m * 4096 < 2 ^ 64" by simp
  show n0: "0 < n" using n by (simp add: UIOX_MAX_PAGES_def)
  show "n < 2 ^ 32" "n \<le> UIOX_MAX_PAGES" using n by (auto simp: UIOX_MAX_PAGES_def)
  show "unat (mm_base b) + n * 4096 \<le> unat (mm_top b z)"
  proof -
    have "n \<le> Suc m" using n by simp
    then have "n * 4096 \<le> Suc m * 4096" by (rule mult_le_mono1)
    with m(3) show ?thesis by linarith
  qed
  have teq: "t = (mm_fill (mm_base b) (mm_top b z - UIOX_PAGE_SIZE) 0
      (s\<lparr>free_list := None, nr_free := 0, nr_total := 0\<rparr>))\<lparr>mm_ready := True\<rparr>"
    using assms(1) t by (simp add: uiox_mm_init_def Let_def)
  note spec = mm_fill_spec [OF m(1) le0 b n, of "s\<lparr>free_list := None, nr_free := 0, nr_total := 0\<rparr>"]
  show "mm_ready t" by (simp add: teq)
  show "free_list t = Some (n - 1)" "nr_total t = of_nat n" "nr_free t = of_nat n"
    using spec n0 by (simp_all add: teq)
  show "pages t i = \<lparr>pg_phys = mm_top b z - of_nat (i + 1) * UIOX_PAGE_SIZE,
      pg_next = (if i = 0 then None else Some (i - 1)), pg_flags = 0, pg_refcount = 0\<rparr>" if "i < n"
    using spec [of i] that by (simp add: teq algebra_simps)
qed

text \<open>The pages of a span that does not wrap have addresses of their own, all page aligned.\<close>

lemma span_page:
  assumes "unat base + n * 4096 \<le> unat tp" and "i < n" and "4096 dvd unat tp"
  shows "unat (tp - of_nat (i + 1) * UIOX_PAGE_SIZE) = unat tp - (i + 1) * 4096"
    and "(tp - of_nat (i + 1) * UIOX_PAGE_SIZE) AND UIOX_PAGE_MASK = tp - of_nat (i + 1) * UIOX_PAGE_SIZE"
proof -
  have lt: "unat tp < 2 ^ 64" using unsigned_less [of tp] by simp
  have le: "(i + 1) * 4096 \<le> n * 4096" using assms(2) by simp
  have w: "unat (of_nat ((i + 1) * 4096) :: u64) = (i + 1) * 4096"
    using assms(1) le lt by (intro of_nat_inverse [OF refl]) simp
  have "of_nat (i + 1) * UIOX_PAGE_SIZE = (of_nat ((i + 1) * 4096) :: u64)"
    by (simp add: page_bytes)
  moreover have "(of_nat ((i + 1) * 4096) :: u64) \<le> tp"
    unfolding word_le_nat_alt w using assms(1) le by linarith
  ultimately show *: "unat (tp - of_nat (i + 1) * UIOX_PAGE_SIZE) = unat tp - (i + 1) * 4096"
    by (simp only: unat_sub w)
  show "(tp - of_nat (i + 1) * UIOX_PAGE_SIZE) AND UIOX_PAGE_MASK = tp - of_nat (i + 1) * UIOX_PAGE_SIZE"
    unfolding page_aligned * using assms(3) by (intro dvd_diff_nat) simp_all
qed

lemma mm_init_inv:
  assumes "mm_base b < mm_top b z"
    and n: "n = min UIOX_MAX_PAGES ((unat (mm_top b z) - unat (mm_base b)) div 4096)"
  shows "phys_inv (uiox_mm_init b z s) (rev [0..<n])"
proof -
  note t = mm_init_eq [OF assms, where t = "uiox_mm_init b z s" and s = s, OF refl]
  have al: "4096 dvd unat (mm_top b z)" using mm_top_aligned by (simp only: page_aligned)
  note sp = span_page [OF t(7) _ al]
  have tot: "unat (nr_total (uiox_mm_init b z s)) = n" "unat (nr_free (uiox_mm_init b z s)) = n"
    using t(4,5,8) of_nat_inverse [OF refl, where 'a = 32, of n] by simp_all
  have "inj_on (\<lambda>i. pg_phys (pages (uiox_mm_init b z s) i)) {..<n}"
  proof (rule inj_onI)
    fix i j assume "i \<in> {..<n}" "j \<in> {..<n}"
      "pg_phys (pages (uiox_mm_init b z s) i) = pg_phys (pages (uiox_mm_init b z s) j)"
    with t(1) have ij: "i < n" "j < n" "mm_top b z - of_nat (i + 1) * UIOX_PAGE_SIZE =
        mm_top b z - of_nat (j + 1) * UIOX_PAGE_SIZE" by simp_all
    from ij(3) have "unat (mm_top b z) - (i + 1) * 4096 = unat (mm_top b z) - (j + 1) * 4096"
      by (simp only: sp(1) [OF ij(1), symmetric] sp(1) [OF ij(2), symmetric])
    moreover have "(i + 1) * 4096 \<le> unat (mm_top b z)" "(j + 1) * 4096 \<le> unat (mm_top b z)"
      using t(7) ij(1,2) by auto
    ultimately have "(i + 1) * 4096 = (j + 1) * (4096 :: nat)" by (metis diff_diff_cancel)
    then show "i = j" by simp
  qed
  moreover have "sll (\<lambda>j. pg_next (pages (uiox_mm_init b z s) j)) (free_list (uiox_mm_init b z s)) (rev [0..<n])"
    using sll_countdown [of n "\<lambda>j. pg_next (pages (uiox_mm_init b z s) j)"] t(1,2,3) by simp
  ultimately show ?thesis unfolding phys_inv_def tot using t(1,9) sp(2) by auto
qed

section \<open>Allocation and release\<close>

lemma alloc_empty: "phys_inv s [] \<Longrightarrow> phys_alloc_page s = (0, s)"
  using phys_invD(4) [of s "[]"] by (simp add: phys_alloc_page_def)

lemma alloc_head:
  assumes inv: "phys_inv s (i # F)" and ready: "mm_ready s"
    and t: "phys_alloc_page s = (p, t)"
  shows "p = pg_phys (pages s i)" and "phys_inv t F" and "p \<notin> held s" and "held t = insert p (held s)"
    and "mm_ready t" and "nr_total t = nr_total s" and "free_list t = pg_next (pages s i)"
    and "pg_phys (pages t j) = pg_phys (pages s j)" and "i < unat (nr_total s)"
proof -
  note d = phys_invD [OF inv]
  have i: "i < unat (nr_total s)" "pg_refcount (pages s i) = 0" and iF: "i \<notin> set F"
    using d(5,8) by auto
  have fl: "free_list s = Some i" and tl: "sll (\<lambda>j. pg_next (pages s j)) (pg_next (pages s i)) F"
    using d(4) by auto
  have teq: "p = pg_phys (pages s i)" "t = s\<lparr>free_list := pg_next (pages s i),
      pages := (pages s)(i := (pages s i)\<lparr>pg_next := None, pg_refcount := 1\<rparr>), nr_free := nr_free s - 1\<rparr>"
    using t ready fl by (simp_all add: phys_alloc_page_def Let_def)
  show "p = pg_phys (pages s i)" by (fact teq(1))
  show "free_list t = pg_next (pages s i)" "mm_ready t" "nr_total t = nr_total s"
    "pg_phys (pages t j) = pg_phys (pages s j)" "i < unat (nr_total s)" for j
    using ready i by (simp_all add: teq(2))
  have "p = pg_phys (pages s j) \<Longrightarrow> j < unat (nr_total s) \<Longrightarrow> j = i" for j
    using d(3) i teq(1) by (simp add: inj_on_def)
  then show "p \<notin> held s" using i by (auto simp: held_def)
  show "held t = insert p (held s)" using i by (auto simp: held_def teq)
  have "sll (\<lambda>j. pg_next (pages s j)) q F = sll (\<lambda>j. pg_next (pages t j)) q F" for q
    by (rule sll_cong) (use iF in \<open>auto simp: teq(2)\<close>)
  with tl have "sll (\<lambda>j. pg_next (pages t j)) (free_list t) F" by (simp add: teq(2))
  moreover have "set F = {j. j < unat (nr_total t) \<and> pg_refcount (pages t j) = 0}"
    using d(5) iF i by (auto simp: teq(2))
  moreover have "unat (nr_free t) = length F"
    using d(7) by (simp add: teq(2) unat_sub_if' word_le_nat_alt)
  moreover have sel: "nr_total t = nr_total s" "pg_phys (pages t j) = pg_phys (pages s j)"
    "pg_refcount (pages t j) = (if j = i then 1 else pg_refcount (pages s j))" for j
    by (simp_all add: teq(2))
  ultimately show "phys_inv t F" using d(1,2,3,6)
    unfolding phys_inv_def sel by (intro conjI) simp_all
qed

lemma held_find:
  assumes inv: "phys_inv s F" and p: "p \<in> held s" "q AND UIOX_PAGE_MASK = p"
  obtains i where "first_idx (\<lambda>i. pg_phys (pages s i) = q AND UIOX_PAGE_MASK) (unat (nr_total s)) = Some i"
    "i < unat (nr_total s)" "pg_phys (pages s i) = p" "pg_refcount (pages s i) = 1"
proof -
  note d = phys_invD [OF inv]
  from p(1) obtain k where k: "k < unat (nr_total s)" "pg_phys (pages s k) = p" "pg_refcount (pages s k) \<noteq> 0"
    by (auto simp: held_def)
  from first_idx_ex [of k "unat (nr_total s)" "\<lambda>i. pg_phys (pages s i) = q AND UIOX_PAGE_MASK"] k p(2)
  obtain i where i: "first_idx (\<lambda>i. pg_phys (pages s i) = q AND UIOX_PAGE_MASK) (unat (nr_total s)) = Some i"
    by auto
  have lt: "i < unat (nr_total s)" and ph: "pg_phys (pages s i) = p"
    using first_idx_SomeD [OF i] p(2) by auto
  with k d(3) have "i = k" by (auto simp: inj_on_def)
  moreover have "pg_refcount (pages s k) = 1"
  proof -
    have "unat (pg_refcount (pages s k)) \<le> 1" "unat (pg_refcount (pages s k)) \<noteq> 0"
      using d(6) [OF k(1)] k(3) by (simp_all add: word_le_nat_alt unat_eq_0)
    then have "unat (pg_refcount (pages s k)) = unat (1 :: u32)" by simp
    then show ?thesis by (simp only: word_unat_eq_iff)
  qed
  ultimately show thesis using that i lt ph by blast
qed

lemma free_held:
  assumes inv: "phys_inv s F" and ready: "mm_ready s"
    and p: "p \<in> held s" "q AND UIOX_PAGE_MASK = p" "q \<noteq> 0" and t: "t = phys_free_page q s"
  obtains i where "phys_inv t (i # F)" "pg_phys (pages t i) = p" "held t = held s - {p}"
    "mm_ready t" "nr_total t = nr_total s" "\<forall>j. pg_phys (pages t j) = pg_phys (pages s j)"
proof -
  note d = phys_invD [OF inv]
  from held_find [OF inv p(1,2)] obtain i where
    i: "first_idx (\<lambda>i. pg_phys (pages s i) = q AND UIOX_PAGE_MASK) (unat (nr_total s)) = Some i"
    "i < unat (nr_total s)" "pg_phys (pages s i) = p" "pg_refcount (pages s i) = 1" .
  have iF: "i \<notin> set F" using d(5) i(4) by simp
  have teq: "t = s\<lparr>pages := (pages s)(i := (pages s i)\<lparr>pg_refcount := 0, pg_next := free_list s\<rparr>),
      free_list := Some i, nr_free := nr_free s + 1\<rparr>"
    using ready p(3) i by (simp add: t phys_free_page_def page_unref_def Let_def)
  have "unat (nr_total s) < 2 ^ 32" using unsigned_less [of "nr_total s"] by simp
  have "unat (nr_free t) = length (i # F)"
    using d(7) phys_free_bound [OF inv] by (simp add: teq unat_word_ariths UIOX_MAX_PAGES_def)
  moreover have "sll (\<lambda>j. pg_next (pages s j)) q F = sll (\<lambda>j. pg_next (pages t j)) q F" for q
    by (rule sll_cong) (use iF in \<open>auto simp: teq\<close>)
  moreover have "free_list t = Some i" "pg_next (pages t i) = free_list s" by (simp_all add: teq)
  ultimately have l: "sll (\<lambda>j. pg_next (pages t j)) (free_list t) (i # F)"
    and c: "unat (nr_free t) = length (i # F)" using d(4) by simp_all
  have "set (i # F) = {j. j < unat (nr_total t) \<and> pg_refcount (pages t j) = 0}"
    using d(5) i(2) by (auto simp: teq)
  moreover have sel: "nr_total t = nr_total s" "pg_phys (pages t j) = pg_phys (pages s j)"
    "pg_refcount (pages t j) = (if j = i then 0 else pg_refcount (pages s j))" for j
    by (simp_all add: teq)
  ultimately have inv': "phys_inv t (i # F)"
    using d(1,2,3,6) l c unfolding phys_inv_def sel by (intro conjI) simp_all
  have "p = pg_phys (pages s j) \<Longrightarrow> j < unat (nr_total s) \<Longrightarrow> j = i" for j
    using d(3) i by (simp add: inj_on_def)
  then have "held t = held s - {p}" using i by (auto simp: held_def sel) metis
  with inv' that [of i] ready i show thesis by (simp add: teq)
qed

text \<open>
  \<open>phys_reach s H\<close>: the pool after \<open>uiox_mm_init\<close> on a region above page 0 and any sequence of
  allocations and of releases of pages that are held; \<open>H\<close> is what the callers hold.
\<close>

inductive phys_reach :: "phys \<Rightarrow> u64 set \<Rightarrow> bool" where
  init: "mm_base b < mm_top b z \<Longrightarrow> mm_base b \<noteq> 0 \<Longrightarrow> phys_reach (uiox_mm_init b z phys_boot) {}"
| alloc: "phys_reach s H \<Longrightarrow> phys_alloc_page s = (p, t) \<Longrightarrow> p \<noteq> 0 \<Longrightarrow> phys_reach t (insert p H)"
| full: "phys_reach s H \<Longrightarrow> phys_alloc_page s = (0, t) \<Longrightarrow> phys_reach t H"
| release: "phys_reach s H \<Longrightarrow> q AND UIOX_PAGE_MASK \<in> H \<Longrightarrow> q \<noteq> 0
    \<Longrightarrow> phys_reach (phys_free_page q s) (H - {q AND UIOX_PAGE_MASK})"

definition phys_ok :: "phys \<Rightarrow> bool" where
  "phys_ok s \<longleftrightarrow> mm_ready s \<and> (\<exists>F. phys_inv s F) \<and>
     (\<forall>i < unat (nr_total s). pg_phys (pages s i) \<noteq> 0)"

lemma phys_okE:
  assumes "phys_ok s"
  obtains F where "mm_ready s" and "phys_inv s F"
    and "\<And>i. i < unat (nr_total s) \<Longrightarrow> pg_phys (pages s i) \<noteq> 0"
  using assms by (auto simp: phys_ok_def)

lemma phys_ok_init:
  assumes lt: "mm_base b < mm_top b z" and "mm_base b \<noteq> 0"
  shows "phys_ok (uiox_mm_init b z s)" and "held (uiox_mm_init b z s) = {}"
proof -
  define n where "n = min UIOX_MAX_PAGES ((unat (mm_top b z) - unat (mm_base b)) div 4096)"
  note t = mm_init_eq [OF lt n_def, where t = "uiox_mm_init b z s" and s = s, OF refl]
  have al: "4096 dvd unat (mm_top b z)" using mm_top_aligned by (simp only: page_aligned)
  have tot: "unat (nr_total (uiox_mm_init b z s)) = n"
    using t(4,8) of_nat_inverse [OF refl, where 'a = 32, of n] by simp
  have b0: "0 < unat (mm_base b)" using assms(2) by (simp add: unat_gt_0)
  have "pg_phys (pages (uiox_mm_init b z s) i) \<noteq> 0" if "i < n" for i
  proof -
    have "unat (pg_phys (pages (uiox_mm_init b z s) i)) = unat (mm_top b z) - (i + 1) * 4096"
      unfolding t(1) [OF that] using span_page(1) [OF t(7) that al] by simp
    moreover have "(i + 1) * 4096 \<le> n * 4096" using that by simp
    ultimately have "unat (pg_phys (pages (uiox_mm_init b z s) i)) \<noteq> 0"
      using t(7) b0 by linarith
    then show ?thesis by auto
  qed
  with mm_init_inv [OF lt n_def, of s] t(6) show "phys_ok (uiox_mm_init b z s)"
    unfolding phys_ok_def tot by blast
  show "held (uiox_mm_init b z s) = {}" unfolding held_def tot using t(1) by auto
qed

lemma phys_ok_alloc:
  assumes "phys_ok s" and t: "phys_alloc_page s = (p, t)"
  shows "phys_ok t"
    and "p = 0 \<longleftrightarrow> free_list s = None"
    and "p = 0 \<Longrightarrow> t = s"
    and "p \<noteq> 0 \<Longrightarrow> p \<notin> held s \<and> held t = insert p (held s) \<and> p AND UIOX_PAGE_MASK = p"
proof -
  from assms(1) obtain F where ok: "mm_ready s" "phys_inv s F"
    "\<And>i. i < unat (nr_total s) \<Longrightarrow> pg_phys (pages s i) \<noteq> 0" by (rule phys_okE) blast
  have "phys_ok t \<and> (p = 0 \<longleftrightarrow> free_list s = None) \<and> (p = 0 \<longrightarrow> t = s) \<and>
    (p \<noteq> 0 \<longrightarrow> p \<notin> held s \<and> held t = insert p (held s) \<and> p AND UIOX_PAGE_MASK = p)"
  proof (cases F)
    case Nil
    with ok(2) t alloc_empty [of s] phys_invD(4) [of s "[]"] assms(1) show ?thesis by simp
  next
    case (Cons i F')
    note a = alloc_head [OF ok(2) [unfolded Cons] ok(1) t]
    have "free_list s = Some i" using phys_invD(4) [OF ok(2)] Cons by simp
    moreover have "phys_ok t" unfolding phys_ok_def a(6,8) using a(2,5) ok(3) by blast
    moreover have "p \<noteq> 0" using a(1) ok(3) [OF a(9)] by simp
    ultimately show ?thesis using a(1,3,4) phys_invD(2) [OF ok(2) a(9)] by simp
  qed
  then show "phys_ok t" "p = 0 \<longleftrightarrow> free_list s = None" "p = 0 \<Longrightarrow> t = s"
    "p \<noteq> 0 \<Longrightarrow> p \<notin> held s \<and> held t = insert p (held s) \<and> p AND UIOX_PAGE_MASK = p" by blast+
qed

lemma phys_ok_free:
  assumes "phys_ok s" and "q AND UIOX_PAGE_MASK \<in> held s" and "q \<noteq> 0"
  shows "phys_ok (phys_free_page q s)"
    and "held (phys_free_page q s) = held s - {q AND UIOX_PAGE_MASK}"
proof -
  from assms(1) obtain F where ok: "mm_ready s" "phys_inv s F"
    "\<And>i. i < unat (nr_total s) \<Longrightarrow> pg_phys (pages s i) \<noteq> 0" by (rule phys_okE) blast
  from free_held [OF ok(2,1) assms(2) refl assms(3) refl] obtain i where
    i: "phys_inv (phys_free_page q s) (i # F)" "pg_phys (pages (phys_free_page q s) i) = q AND UIOX_PAGE_MASK"
    "held (phys_free_page q s) = held s - {q AND UIOX_PAGE_MASK}"
    "mm_ready (phys_free_page q s)" "nr_total (phys_free_page q s) = nr_total s"
    "\<forall>j. pg_phys (pages (phys_free_page q s) j) = pg_phys (pages s j)" .
  show "held (phys_free_page q s) = held s - {q AND UIOX_PAGE_MASK}" by (fact i(3))
  show "phys_ok (phys_free_page q s)" unfolding phys_ok_def i(5) using i(1,4,6) ok(3) by auto
qed

lemma phys_reach_ok: "phys_reach s H \<Longrightarrow> phys_ok s \<and> held s = H"
proof (induction rule: phys_reach.induct)
  case (init b z)
  then show ?case using phys_ok_init by blast
next
  case (alloc s H p t)
  then show ?case using phys_ok_alloc(1,4) [of s p t] by blast
next
  case (full s H t)
  then show ?case using phys_ok_alloc(3) [of s 0 t] by blast
next
  case (release s H q)
  then show ?case using phys_ok_free [of s q] by blast
qed

text \<open>The pool is a source of fresh pages for whoever draws from it.\<close>

interpretation phys_source: page_source phys_ok held phys_alloc_page
proof unfold_locales
  fix s :: phys and p t assume ok: "phys_ok s" and t: "phys_alloc_page s = (p, t)"
  note a = phys_ok_alloc [OF ok t]
  show "phys_ok t" by (fact a(1))
  show "p = 0 \<and> t = s \<or> p \<noteq> 0 \<and> p \<notin> held s \<and> held t = insert p (held s)"
    using a(3,4) by blast
qed

text \<open>Every page is either held or on the free list.\<close>

lemma phys_count:
  assumes inv: "phys_inv s F"
  shows "card (held s) + length F = unat (nr_total s)"
proof -
  let ?n = "unat (nr_total s)" and ?U = "{i. i < unat (nr_total s) \<and> pg_refcount (pages s i) \<noteq> 0}"
  have "held s = (\<lambda>i. pg_phys (pages s i)) ` ?U" by (auto simp: held_def)
  moreover have "inj_on (\<lambda>i. pg_phys (pages s i)) ?U"
    using phys_invD(3) [OF inv] by (rule inj_on_subset) auto
  ultimately have "card (held s) = card ?U" by (simp add: card_image)
  moreover have "length F = card (set F)" using phys_invD(8) [OF inv] by (simp add: distinct_card)
  moreover have "?U \<union> set F = {..<?n}" "?U \<inter> set F = {}" using phys_invD(5) [OF inv] by auto
  then have "card ?U + card (set F) = ?n"
    using card_Un_disjoint [of ?U "set F"] by (simp add: finite_subset [of ?U "{..<?n}"])
  ultimately show ?thesis by simp
qed

section \<open>Properties\<close>

text \<open>\<open>uiox_mm_init\<close> describes the pages of the region from the top down, at most
  \<open>UIOX_MAX_PAGES\<close> of them: descriptor \<open>i\<close> is page \<open>top - (i + 1) * 4096\<close>, none below the rounded
  base, all of them are free and the free list gives the lowest described page first.\<close>

theorem mm_init_pages:
  assumes "mm_base b < mm_top b z"
    and "n = min UIOX_MAX_PAGES ((unat (mm_top b z) - unat (mm_base b)) div 4096)"
    and "i < n"
  shows "0 < n \<and> uiox_mm_total_pages (uiox_mm_init b z s) = of_nat n \<and>
    uiox_mm_free_pages (uiox_mm_init b z s) = of_nat n \<and>
    phys_inv (uiox_mm_init b z s) (rev [0..<n]) \<and> held (uiox_mm_init b z s) = {} \<and>
    unat (pg_phys (pages (uiox_mm_init b z s) i)) = unat (mm_top b z) - (i + 1) * 4096 \<and>
    mm_base b \<le> pg_phys (pages (uiox_mm_init b z s) i) \<and>
    pg_phys (pages (uiox_mm_init b z s) i) < mm_top b z"
proof -
  note t = mm_init_eq [OF assms(1,2), where t = "uiox_mm_init b z s" and s = s, OF refl]
  have al: "4096 dvd unat (mm_top b z)" using mm_top_aligned by (simp only: page_aligned)
  have tot: "unat (nr_total (uiox_mm_init b z s)) = n"
    using t(4,8) of_nat_inverse [OF refl, where 'a = 32, of n] by simp
  have ph: "unat (pg_phys (pages (uiox_mm_init b z s) i)) = unat (mm_top b z) - (i + 1) * 4096"
    unfolding t(1) [OF assms(3)] using span_page(1) [OF t(7) assms(3) al] by simp
  have tp: "0 < unat (mm_top b z)" using t(2,7) by linarith
  have "(i + 1) * 4096 \<le> n * 4096" using assms(3) by simp
  with t(7) ph have "mm_base b \<le> pg_phys (pages (uiox_mm_init b z s) i)"
    "pg_phys (pages (uiox_mm_init b z s) i) < mm_top b z"
    unfolding word_le_nat_alt word_less_nat_alt by linarith (use tp ph in simp)
  moreover have "held (uiox_mm_init b z s) = {}" unfolding held_def tot using t(1) by auto
  ultimately show ?thesis using t(2,4,5) ph mm_init_inv [OF assms(1,2)]
    by (simp add: uiox_mm_total_pages_def uiox_mm_free_pages_def)
qed

text \<open>A region of two and a half pages, not aligned at either end, gives two pages.\<close>

lemma mm_init_pages_witness:
  "uiox_mm_total_pages (uiox_mm_init 0x40000800 0x2C00 phys_boot) = 2 \<and>
   unat (pg_phys (pages (uiox_mm_init 0x40000800 0x2C00 phys_boot) 1)) = 0x40001000"
proof -
  have b: "mm_base 0x40000800 = 0x40001000" "mm_top 0x40000800 0x2C00 = 0x40003000"
    by (simp_all add: mm_base_def mm_top_def page_mask_shift page_bytes)
  have "mm_base 0x40000800 < mm_top 0x40000800 0x2C00"
    "2 = min UIOX_MAX_PAGES ((unat (mm_top 0x40000800 0x2C00) - unat (mm_base 0x40000800)) div 4096)"
    unfolding b by (simp_all add: UIOX_MAX_PAGES_def)
  from mm_init_pages [OF this, of 1 phys_boot] show ?thesis unfolding b by simp
qed

text \<open>C18: however allocations and releases of held pages follow each other, a page that is handed
  out is page aligned and held by nobody, the allocator fails exactly when every page is held,
  and the free count is the number of pages not held.\<close>

theorem phys_exclusive:
  assumes "phys_reach s H" and "phys_alloc_page s = (p, t)"
  shows "held s = H \<and> card H + unat (uiox_mm_free_pages s) = unat (uiox_mm_total_pages s) \<and>
    (p = 0 \<longleftrightarrow> card H = unat (uiox_mm_total_pages s)) \<and>
    (p = 0 \<longrightarrow> t = s) \<and> (p \<noteq> 0 \<longrightarrow> p \<notin> H \<and> held t = insert p H \<and> p AND UIOX_PAGE_MASK = p)"
proof -
  from phys_reach_ok [OF assms(1)] have ok: "phys_ok s" and H: "held s = H" by blast+
  from ok obtain F where F: "phys_inv s F" by (rule phys_okE)
  note a = phys_ok_alloc [OF ok assms(2)]
  have c: "card H + unat (nr_free s) = unat (nr_total s)"
    using phys_count [OF F] phys_invD(7) [OF F] H by simp
  have "free_list s = None \<longleftrightarrow> F = []" using phys_invD(4) [OF F] by (cases F) auto
  also have "\<dots> \<longleftrightarrow> card H = unat (nr_total s)" using c phys_invD(7) [OF F] by auto
  finally show ?thesis using a c H by (simp add: uiox_mm_free_pages_def uiox_mm_total_pages_def)
qed

text \<open>Releasing a page twice corrupts the list: the next two allocations return the same page
  and the one after them fails, whatever else was free.\<close>

theorem phys_double_free:
  assumes "phys_reach s H" and "p \<in> H"
    and "phys_alloc_page (phys_free_page p (phys_free_page p s)) = (q, t)"
    and "phys_alloc_page t = (r, u)" and "phys_alloc_page u = (v, w)"
  shows "q = p \<and> r = p \<and> v = 0"
proof -
  from phys_reach_ok [OF assms(1)] assms(2) have ok: "phys_ok s" and p: "p \<in> held s" by auto
  from ok obtain F where F: "mm_ready s" "phys_inv s F"
    "\<And>i. i < unat (nr_total s) \<Longrightarrow> pg_phys (pages s i) \<noteq> 0" by (rule phys_okE) blast
  have m: "p AND UIOX_PAGE_MASK = p" and p0: "p \<noteq> 0"
    using p phys_invD(2) [OF F(2)] F(3) by (auto simp: held_def)
  from held_find [OF F(2) p m] obtain i where
    i: "first_idx (\<lambda>i. pg_phys (pages s i) = p AND UIOX_PAGE_MASK) (unat (nr_total s)) = Some i"
    "i < unat (nr_total s)" "pg_phys (pages s i) = p" "pg_refcount (pages s i) = 1" .
  define s1 where "s1 = s\<lparr>pages := (pages s)(i := (pages s i)\<lparr>pg_refcount := 0, pg_next := free_list s\<rparr>),
      free_list := Some i, nr_free := nr_free s + 1\<rparr>"
  have s1: "phys_free_page p s = s1"
    using F(1) p0 i by (simp add: s1_def phys_free_page_def page_unref_def Let_def)
  have "first_idx (\<lambda>i. pg_phys (pages s1 i) = p AND UIOX_PAGE_MASK) (unat (nr_total s1)) =
      first_idx (\<lambda>i. pg_phys (pages s i) = p AND UIOX_PAGE_MASK) (unat (nr_total s))"
    by (auto simp: s1_def intro!: first_idx_cong)
  with i(1) have idx: "first_idx (\<lambda>i. pg_phys (pages s1 i) = p AND UIOX_PAGE_MASK) (unat (nr_total s1)) = Some i"
    by simp
  have sel: "mm_ready s1" "pg_refcount (pages s1 i) = 0" "free_list s1 = Some i" "pg_phys (pages s1 i) = p"
    using F(1) i(3) by (simp_all add: s1_def)
  define s2 where "s2 = s1\<lparr>pages := (pages s1)(i := (pages s1 i)\<lparr>pg_next := Some i\<rparr>),
      free_list := Some i, nr_free := nr_free s1 + 1\<rparr>"
  have s2: "phys_free_page p s1 = s2"
    using sel p0 idx by (simp add: s2_def phys_free_page_def page_unref_def Let_def)
  have sel2: "mm_ready s2" "free_list s2 = Some i" "pg_next (pages s2 i) = Some i" "pg_phys (pages s2 i) = p"
    using sel by (simp_all add: s2_def)
  have q: "q = p" "mm_ready t" "free_list t = Some i" "pg_next (pages t i) = None" "pg_phys (pages t i) = p"
    using assms(3) sel2 unfolding s1 s2 by (auto simp: phys_alloc_page_def Let_def)
  then have "r = p" "free_list u = None" "mm_ready u"
    using assms(4) by (auto simp: phys_alloc_page_def Let_def)
  with assms(5) q(1) show ?thesis by (simp add: phys_alloc_page_def)
qed

text \<open>A pool of two pages, one of them held.\<close>

definition phys_demo :: phys where
  "phys_demo = uiox_mm_init 0x40000000 0x2000 phys_boot"

lemma phys_demo_reach:
  shows "phys_reach phys_demo {}" and "fst (phys_alloc_page phys_demo) = 0x40000000"
  and "phys_reach (snd (phys_alloc_page phys_demo)) {0x40000000}"
proof -
  have b: "mm_base 0x40000000 = 0x40000000" "mm_top 0x40000000 0x2000 = 0x40002000"
    by (simp_all add: mm_base_def mm_top_def page_mask_shift page_bytes)
  show r: "phys_reach phys_demo {}"
    unfolding phys_demo_def by (rule phys_reach.init) (simp_all add: b)
  have n: "mm_base 0x40000000 < mm_top 0x40000000 0x2000"
    "2 = min UIOX_MAX_PAGES ((unat (mm_top 0x40000000 0x2000) - unat (mm_base 0x40000000)) div 4096)"
    unfolding b by (simp_all add: UIOX_MAX_PAGES_def)
  note t = mm_init_eq [OF n phys_demo_def]
  have "pages phys_demo 1 = \<lparr>pg_phys = 0x40000000, pg_next = Some 0, pg_flags = 0, pg_refcount = 0\<rparr>"
    using t(1) [of 1] by (simp add: page_bytes b)
  with t(3,6) show f: "fst (phys_alloc_page phys_demo) = 0x40000000"
    by (simp add: phys_alloc_page_def Let_def)
  show "phys_reach (snd (phys_alloc_page phys_demo)) {0x40000000}"
    using phys_reach.alloc [OF r, of "0x40000000" "snd (phys_alloc_page phys_demo)"] f
    by (simp add: prod_eq_iff)
qed

lemma phys_exclusive_witness:
  "held phys_demo = {} \<and> 0x40000000 \<in> held (snd (phys_alloc_page phys_demo))"
  using phys_exclusive [OF phys_demo_reach(1), of "0x40000000" "snd (phys_alloc_page phys_demo)"]
    phys_demo_reach(2) by (simp add: prod_eq_iff)

lemma phys_double_free_witness:
  "\<exists>t u v. phys_alloc_page (phys_free_page 0x40000000 (phys_free_page 0x40000000
      (snd (phys_alloc_page phys_demo)))) = (0x40000000, t) \<and> phys_alloc_page t = (0x40000000, u) \<and>
    phys_alloc_page u = (0, v)"
proof -
  obtain q t r u v w where
    "phys_alloc_page (phys_free_page 0x40000000 (phys_free_page 0x40000000
      (snd (phys_alloc_page phys_demo)))) = (q, t)" "phys_alloc_page t = (r, u)"
    "phys_alloc_page u = (v, w)" by (metis surj_pair)
  with phys_double_free [OF phys_demo_reach(3), of "0x40000000" q t r u v w] show ?thesis by simp
qed

end
