(* ===== verification/PageFault.thy ===== *)
theory PageFault
  imports Region PhysAlloc
begin

text \<open>
  Demand paging (\<open>33_PCS/02_MemMngnt/src/uiox_kix_page_fault.c\<close>): frame descriptors, the ring of
  free frame numbers, the page cache (a hash of resident frames by number), the legality test of
  an address and the protection fault handler that implements copy on write.  The state extends
  the regions' one.  A descriptor pointer is the index of its frame, a page-table-entry pointer a
  pool row with an index.  \<open>memory\<close> is physical memory by address; the messages of
  \<open>send_sigsegv\<close> are counted and the processes handed to the scheduler's
  \<open>recalculate_priority\<close> are logged.
\<close>

definition UIOX_PHYS_PAGES :: nat where "UIOX_PHYS_PAGES = 2048"
definition UIOX_PAGE_HASH_SZ :: nat where "UIOX_PAGE_HASH_SZ = 256"
definition PTE_VALID :: u16 where "PTE_VALID = 0x001"
definition PTE_WRITE :: u16 where "PTE_WRITE = 0x002"
definition PTE_DIRTY :: u16 where "PTE_DIRTY = 0x008"
definition PTE_COW :: u16 where "PTE_COW = 0x020"
definition PTE_IN_SWAP :: u16 where "PTE_IN_SWAP = 0x100"
definition REG_LOCKED :: u16 where "REG_LOCKED = 0x01"

record pfdata =
  pfd_valid :: bool
  pfd_refcnt :: u16
  pfd_pfn :: u32
  pfd_pte :: "(nat \<times> nat) option"
  pfd_on_hash :: bool
  pfd_hash_next :: "nat option"
  pfd_content_valid :: bool
  pfd_kva :: u64

record paging = regions +
  pfdata_table :: "nat \<Rightarrow> pfdata"
  pc_hash :: "nat \<Rightarrow> nat option"
  pc_total :: int
  fpl_pages :: "nat \<Rightarrow> u32"
  fpl_count :: int
  fpl_head :: nat
  fpl_tail :: nat
  memory :: "u64 \<Rightarrow> u8"
  sigsegvs :: nat
  recalcs :: "nat list"

definition upd_pfd :: "nat \<Rightarrow> (pfdata \<Rightarrow> pfdata) \<Rightarrow> paging \<Rightarrow> paging" where
  "upd_pfd i f s = s\<lparr>pfdata_table := (pfdata_table s)(i := f (pfdata_table s i))\<rparr>"

definition upd_pte :: "nat \<times> nat \<Rightarrow> (pte \<Rightarrow> pte) \<Rightarrow> paging \<Rightarrow> paging" where
  "upd_pte e f s = s\<lparr>pgtbl_pool := (pgtbl_pool s)(fst e := (pgtbl_pool s (fst e))(snd e := f (pgtbl_pool s (fst e) (snd e))))\<rparr>"

abbreviation pte_at :: "paging \<Rightarrow> nat \<times> nat \<Rightarrow> pte" where
  "pte_at s e \<equiv> pgtbl_pool s (fst e) (snd e)"

abbreviation pfd :: "paging \<Rightarrow> nat \<Rightarrow> pfdata" where
  "pfd s i \<equiv> pfdata_table s i"

section \<open>The free frames\<close>

text \<open>The seeding loop of \<open>page_fault_init\<close>, from frame \<open>i\<close> on, with the physical allocator's pool.\<close>

function seed_frames :: "nat \<Rightarrow> paging \<Rightarrow> phys \<Rightarrow> paging \<times> phys" where
  "seed_frames i s m =
     (if i < UIOX_PHYS_PAGES
      then
        (let (p, m) = phys_alloc_page m in
         if p = 0 then (s, m)
         else
           (let s = upd_pfd i (\<lambda>x. x\<lparr>pfd_kva := p\<rparr>) s;
                s = s\<lparr>fpl_pages := (fpl_pages s)(fpl_tail s := of_nat i)\<rparr>;
                s = s\<lparr>fpl_tail := (fpl_tail s + 1) mod UIOX_PHYS_PAGES\<rparr>;
                s = s\<lparr>fpl_count := fpl_count s + 1\<rparr>
            in seed_frames (i + 1) s m))
      else (s, m))"
  by pat_completeness auto
termination by (relation "measure (\<lambda>(i, s, m). UIOX_PHYS_PAGES - i)") auto

declare seed_frames.simps [simp del]

definition clear_pfd :: "pfdata \<Rightarrow> pfdata" where
  "clear_pfd x = x\<lparr>pfd_valid := False, pfd_refcnt := 0, pfd_pfn := 0, pfd_pte := None, pfd_on_hash := False,
     pfd_hash_next := None, pfd_content_valid := False\<rparr>"

definition page_fault_init :: "paging \<Rightarrow> phys \<Rightarrow> paging \<times> phys" where
  "page_fault_init s m =
     (let s = s\<lparr>pfdata_table := (\<lambda>i. if i < UIOX_PHYS_PAGES then clear_pfd (pfdata_table s i) else pfdata_table s i)\<rparr>;
          s = s\<lparr>pc_hash := (\<lambda>k. if k < UIOX_PAGE_HASH_SZ then None else pc_hash s k), pc_total := 0\<rparr>;
          s = s\<lparr>fpl_count := 0, fpl_head := 0, fpl_tail := 0\<rparr>
      in seed_frames 0 s m)"

definition send_sigsegv :: "paging \<Rightarrow> paging" where
  "send_sigsegv s = s\<lparr>sigsegvs := sigsegvs s + 1\<rparr>"

definition region_lock :: "(nat \<times> nat) option \<Rightarrow> paging \<Rightarrow> paging" where
  "region_lock pr s =
     (case pr of
        None \<Rightarrow> s
      | Some a \<Rightarrow> (case pr_region (preg s a) of
                     None \<Rightarrow> s
                   | Some r \<Rightarrow> upd_reg r (\<lambda>x. x\<lparr>r_status := r_status x OR REG_LOCKED\<rparr>) s))"

definition region_unlock :: "(nat \<times> nat) option \<Rightarrow> paging \<Rightarrow> paging" where
  "region_unlock pr s =
     (case pr of
        None \<Rightarrow> s
      | Some a \<Rightarrow> (case pr_region (preg s a) of
                     None \<Rightarrow> s
                   | Some r \<Rightarrow>
                       if r_status (region_table s r) AND REG_LOCKED \<noteq> 0
                       then upd_reg r (\<lambda>x. x\<lparr>r_status := r_status x AND NOT REG_LOCKED\<rparr>) s else s))"

definition recalc_priority_after_fault :: "(nat \<times> nat) option \<Rightarrow> paging \<Rightarrow> paging" where
  "recalc_priority_after_fault pr s =
     (case pr of
        None \<Rightarrow> s
      | Some a \<Rightarrow> (case pr_proc (preg s a) of None \<Rightarrow> s | Some p \<Rightarrow> s\<lparr>recalcs := recalcs s @ [p]\<rparr>))"

section \<open>Addresses\<close>

definition find_pte :: "(nat \<times> nat) option \<Rightarrow> u64 \<Rightarrow> paging \<Rightarrow> (nat \<times> nat) option" where
  "find_pte pr vaddr s =
     (case pr of
        None \<Rightarrow> None
      | Some a \<Rightarrow>
          (case pr_region (preg s a) of
             None \<Rightarrow> None
           | Some r \<Rightarrow>
               (case r_pgtbl (region_table s r) of
                  None \<Rightarrow> None
                | Some k \<Rightarrow>
                    if vaddr < pr_vaddr (preg s a) then None
                    else
                      (let offset = vaddr - pr_vaddr (preg s a) in
                       if ucast (r_size (region_table s r)) \<le> offset then None
                       else
                         (let page = (ucast (drop_bit UIOX_PAGE_SHIFT offset) :: u32) in
                          if r_npages (region_table s r) \<le> page then None else Some (k, unat page))))))"

definition find_dbd :: "(nat \<times> nat) option \<Rightarrow> paging \<Rightarrow> nat option" where
  "find_dbd pte s = None"

section \<open>The page cache\<close>

definition cache_slot :: "u32 \<Rightarrow> nat" where
  "cache_slot pfn = unat (pfn mod of_nat UIOX_PAGE_HASH_SZ)"

partial_function (option) cache_walk :: "u32 \<Rightarrow> nat option \<Rightarrow> paging \<Rightarrow> nat option option" where
  "cache_walk pfn p s =
     (if p = None then Some None
      else if pfd_pfn (pfd s (the p)) = pfn then Some p
      else cache_walk pfn (pfd_hash_next (pfd s (the p))) s)"

text \<open>\<open>None\<close>: the walk does not end; \<open>Some None\<close>: NULL.\<close>

definition find_in_cache :: "u32 \<Rightarrow> paging \<Rightarrow> nat option option" where
  "find_in_cache pfn s = cache_walk pfn (pc_hash s (cache_slot pfn)) s"

definition add_to_cache :: "nat option \<Rightarrow> paging \<Rightarrow> paging" where
  "add_to_cache p s =
     (case p of
        None \<Rightarrow> s
      | Some i \<Rightarrow>
          if pfd_on_hash (pfd s i) then s
          else
            (let k = cache_slot (pfd_pfn (pfd s i));
                 s = upd_pfd i (\<lambda>x. x\<lparr>pfd_hash_next := pc_hash s k\<rparr>) s;
                 s = s\<lparr>pc_hash := (pc_hash s)(k := Some i)\<rparr>;
                 s = upd_pfd i (\<lambda>x. x\<lparr>pfd_on_hash := True\<rparr>) s
             in s\<lparr>pc_total := pc_total s + 1\<rparr>))"

partial_function (option) uncache_walk :: "nat \<Rightarrow> nat \<Rightarrow> nat option \<Rightarrow> nat option \<Rightarrow> paging \<Rightarrow> paging option" where
  "uncache_walk i k prev cur s =
     (if cur = None then Some s
      else if the cur = i
      then
        (let s = (if prev = None then s\<lparr>pc_hash := (pc_hash s)(k := pfd_hash_next (pfd s i))\<rparr>
                  else upd_pfd (the prev) (\<lambda>x. x\<lparr>pfd_hash_next := pfd_hash_next (pfd s i)\<rparr>) s);
             s = upd_pfd i (\<lambda>x. x\<lparr>pfd_hash_next := None, pfd_on_hash := False\<rparr>) s
         in Some (s\<lparr>pc_total := pc_total s - 1\<rparr>))
      else uncache_walk i k cur (pfd_hash_next (pfd s (the cur))) s)"

definition remove_from_cache :: "nat option \<Rightarrow> paging \<Rightarrow> paging option" where
  "remove_from_cache p s =
     (case p of
        None \<Rightarrow> Some s
      | Some i \<Rightarrow>
          if \<not> pfd_on_hash (pfd s i) then Some s
          else (let k = cache_slot (pfd_pfn (pfd s i)) in uncache_walk i k None (pc_hash s k) s))"

section \<open>Frames\<close>

definition alloc_physical_page :: "paging \<Rightarrow> nat option \<times> paging" where
  "alloc_physical_page s =
     (if fpl_count s = 0 then (None, s)
      else
        (let pfn = fpl_pages s (fpl_head s);
             s = s\<lparr>fpl_head := (fpl_head s + 1) mod UIOX_PHYS_PAGES, fpl_count := fpl_count s - 1\<rparr>;
             i = unat (pfn mod of_nat UIOX_PHYS_PAGES)
         in (Some i, upd_pfd i (\<lambda>x. x\<lparr>pfd_valid := True, pfd_pfn := pfn, pfd_refcnt := 1, pfd_pte := None,
               pfd_on_hash := False, pfd_hash_next := None, pfd_content_valid := False\<rparr>) s)))"

definition free_physical_page :: "u32 \<Rightarrow> paging \<Rightarrow> paging option" where
  "free_physical_page pfn s =
     (let i = unat (pfn mod of_nat UIOX_PHYS_PAGES) in
      Option.bind (remove_from_cache (Some i) s)
        (\<lambda>s. let s = upd_pfd i (\<lambda>x. x\<lparr>pfd_valid := False, pfd_refcnt := 0, pfd_pte := None,
                       pfd_content_valid := False\<rparr>) s;
                 s = s\<lparr>fpl_pages := (fpl_pages s)(fpl_tail s := pfn)\<rparr>
             in Some (s\<lparr>fpl_tail := (fpl_tail s + 1) mod UIOX_PHYS_PAGES, fpl_count := fpl_count s + 1\<rparr>)))"

definition read_page_from_swap :: "nat option \<Rightarrow> paging \<Rightarrow> int \<times> paging" where
  "read_page_from_swap p s =
     (case p of None \<Rightarrow> (- 1, s) | Some i \<Rightarrow> (0, upd_pfd i (\<lambda>x. x\<lparr>pfd_content_valid := True\<rparr>) s))"

definition read_page_from_file :: "nat option \<Rightarrow> paging \<Rightarrow> int \<times> paging" where
  "read_page_from_file p s =
     (case p of None \<Rightarrow> (- 1, s) | Some i \<Rightarrow> (0, upd_pfd i (\<lambda>x. x\<lparr>pfd_content_valid := True\<rparr>) s))"

definition free_swap_block :: "u32 \<Rightarrow> paging \<Rightarrow> paging" where
  "free_swap_block blk s = s"

section \<open>The protection fault\<close>

text \<open>\<open>memcpy(dst, src, UIOX_PAGE_SIZE)\<close>, and the address the handler computes for a frame: the
  32-bit shift of its number.\<close>

definition copy_page :: "u64 \<Rightarrow> u64 \<Rightarrow> paging \<Rightarrow> paging" where
  "copy_page dst src s =
     s\<lparr>memory := (\<lambda>a. if a - dst < UIOX_PAGE_SIZE then memory s (src + (a - dst)) else memory s a)\<rparr>"

definition frame_address :: "u32 \<Rightarrow> u64" where
  "frame_address pfn = ucast (push_bit UIOX_PAGE_SHIFT pfn)"

text \<open>The two branches on the reference count; \<open>None\<close> inside is the exit through \<open>out\<close>.\<close>

definition cow_copy :: "nat \<times> nat \<Rightarrow> nat \<Rightarrow> paging \<Rightarrow> bool \<times> paging" where
  "cow_copy e i s =
     (case alloc_physical_page s of
        (None, s) \<Rightarrow> (False, send_sigsegv s)
      | (Some n, s) \<Rightarrow>
          (let s = copy_page (frame_address (pfd_pfn (pfd s n))) (frame_address (pfd_pfn (pfd s i))) s;
               s = upd_pfd i (\<lambda>x. x\<lparr>pfd_refcnt := pfd_refcnt x - 1\<rparr>) s;
               s = upd_pfd n (\<lambda>x. x\<lparr>pfd_content_valid := True, pfd_pte := Some e\<rparr>) s;
               s = add_to_cache (Some n) s
           in (True, upd_pte e (\<lambda>x. x\<lparr>pte_pfn := pfd_pfn (pfd s n)\<rparr>) s)))"

definition cow_steal :: "nat \<times> nat \<Rightarrow> nat \<Rightarrow> paging \<Rightarrow> paging option" where
  "cow_steal e i s =
     (let s = (if pte_flags (pte_at s e) AND PTE_IN_SWAP \<noteq> 0
               then upd_pte e (\<lambda>x. x\<lparr>pte_flags := pte_flags x AND NOT PTE_IN_SWAP\<rparr>) (free_swap_block 0 s)
               else s)
      in remove_from_cache (Some i) s)"

definition cow_flags :: "pte \<Rightarrow> pte" where
  "cow_flags x =
     (let x = x\<lparr>pte_flags := pte_flags x OR PTE_WRITE\<rparr>; x = x\<lparr>pte_flags := pte_flags x OR PTE_DIRTY\<rparr>
      in x\<lparr>pte_flags := pte_flags x AND NOT PTE_COW\<rparr>)"

definition pfault_body :: "nat \<times> nat \<Rightarrow> (nat \<times> nat) option \<Rightarrow> paging \<Rightarrow> paging option" where
  "pfault_body e pr s =
     (if pte_flags (pte_at s e) AND PTE_VALID = 0 then Some (send_sigsegv s)
      else if pte_flags (pte_at s e) AND PTE_COW = 0 then Some (send_sigsegv s)
      else
        Option.bind (find_in_cache (pte_pfn (pte_at s e)) s)
          (\<lambda>p. case p of
             None \<Rightarrow> Some (send_sigsegv s)
           | Some i \<Rightarrow>
               Option.bind (if 1 < pfd_refcnt (pfd s i) then Some (cow_copy e i s)
                            else map_option (Pair True) (cow_steal e i s))
                 (\<lambda>(go, s). Some (if go then recalc_priority_after_fault pr (upd_pte e cow_flags s) else s))))"

definition pfault :: "u64 \<Rightarrow> (nat \<times> nat) option \<Rightarrow> paging \<Rightarrow> paging option" where
  "pfault faulted_addr pr s =
     (case pr of
        None \<Rightarrow> Some (send_sigsegv s)
      | Some a \<Rightarrow>
          if pr_region (preg s a) = None then Some (send_sigsegv s)
          else
            (let s = region_lock pr s in
             Option.bind (case find_pte pr faulted_addr s of
                            None \<Rightarrow> Some (send_sigsegv s)
                          | Some e \<Rightarrow> pfault_body e pr s)
               (\<lambda>s. Some (region_unlock pr s))))"

section \<open>Invariant\<close>

lemma upd_pfd_sel [simp]:
  "pfdata_table (upd_pfd i f s) = (pfdata_table s)(i := f (pfd s i))"
  "pc_hash (upd_pfd i f s) = pc_hash s" "pc_total (upd_pfd i f s) = pc_total s"
  "fpl_pages (upd_pfd i f s) = fpl_pages s" "fpl_count (upd_pfd i f s) = fpl_count s"
  "fpl_head (upd_pfd i f s) = fpl_head s" "fpl_tail (upd_pfd i f s) = fpl_tail s"
  "memory (upd_pfd i f s) = memory s" "sigsegvs (upd_pfd i f s) = sigsegvs s"
  "recalcs (upd_pfd i f s) = recalcs s" "pgtbl_pool (upd_pfd i f s) = pgtbl_pool s"
  "region_table (upd_pfd i f s) = region_table s" "u_pregs (upd_pfd i f s) = u_pregs s"
  by (simp_all add: upd_pfd_def)

lemma upd_pte_sel [simp]:
  "pfdata_table (upd_pte e f s) = pfdata_table s"
  "pc_hash (upd_pte e f s) = pc_hash s" "pc_total (upd_pte e f s) = pc_total s"
  "fpl_pages (upd_pte e f s) = fpl_pages s" "fpl_count (upd_pte e f s) = fpl_count s"
  "fpl_head (upd_pte e f s) = fpl_head s" "fpl_tail (upd_pte e f s) = fpl_tail s"
  "memory (upd_pte e f s) = memory s" "sigsegvs (upd_pte e f s) = sigsegvs s"
  "recalcs (upd_pte e f s) = recalcs s" "region_table (upd_pte e f s) = region_table s"
  "u_pregs (upd_pte e f s) = u_pregs s"
  "pgtbl_pool (upd_pte e f s) k j = (if (k, j) = e then f (pte_at s e) else pgtbl_pool s k j)"
  by (auto simp: upd_pte_def prod_eq_iff)

definition next_frame :: "paging \<Rightarrow> nat \<Rightarrow> nat option" where
  "next_frame s i = pfd_hash_next (pfd s i)"

definition cached :: "paging \<Rightarrow> nat set" where
  "cached s = {i. i < UIOX_PHYS_PAGES \<and> pfd_on_hash (pfd s i)}"

text \<open>The ring holds the list \<open>R\<close> of free frames, from \<open>fpl_head\<close> on.\<close>

definition ring_inv :: "paging \<Rightarrow> nat list \<Rightarrow> bool" where
  "ring_inv s R \<longleftrightarrow> fpl_count s = int (length R) \<and> fpl_head s < UIOX_PHYS_PAGES \<and>
     fpl_tail s = (fpl_head s + length R) mod UIOX_PHYS_PAGES \<and>
     (\<forall>i < length R. fpl_pages s ((fpl_head s + i) mod UIOX_PHYS_PAGES) = of_nat (R ! i)) \<and>
     distinct R \<and> set R \<subseteq> {..<UIOX_PHYS_PAGES}"

text \<open>Bucket \<open>k\<close> chains exactly the cached frames whose number is \<open>k\<close> modulo the hash size.\<close>

definition buckets_inv :: "paging \<Rightarrow> (nat \<Rightarrow> nat list) \<Rightarrow> bool" where
  "buckets_inv s C \<longleftrightarrow> (\<forall>k < UIOX_PAGE_HASH_SZ. sll (next_frame s) (pc_hash s k) (C k) \<and>
       set (C k) = {i \<in> cached s. i mod UIOX_PAGE_HASH_SZ = k}) \<and>
     pc_total s = int (card (cached s))"

text \<open>A valid descriptor has its own number and is not free; a cached one is valid.\<close>

definition frames_inv :: "paging \<Rightarrow> nat set \<Rightarrow> bool" where
  "frames_inv s F \<longleftrightarrow> (\<forall>i < UIOX_PHYS_PAGES. pfd_valid (pfd s i) \<longrightarrow> pfd_pfn (pfd s i) = of_nat i \<and> i \<notin> F) \<and>
     (\<forall>i \<in> cached s. pfd_valid (pfd s i))"

definition paging_inv :: "paging \<Rightarrow> nat list \<Rightarrow> (nat \<Rightarrow> nat list) \<Rightarrow> bool" where
  "paging_inv s R C \<longleftrightarrow> ring_inv s R \<and> buckets_inv s C \<and> frames_inv s (set R)"

lemma paging_invD:
  assumes "paging_inv s R C"
  shows "ring_inv s R" "buckets_inv s C" "frames_inv s (set R)"
  using assms by (simp_all add: paging_inv_def)

lemma ring_invD:
  assumes "ring_inv s R"
  shows "fpl_count s = int (length R)" "fpl_head s < UIOX_PHYS_PAGES"
    "fpl_tail s = (fpl_head s + length R) mod UIOX_PHYS_PAGES"
    "\<And>i. i < length R \<Longrightarrow> fpl_pages s ((fpl_head s + i) mod UIOX_PHYS_PAGES) = of_nat (R ! i)"
    "distinct R" "set R \<subseteq> {..<UIOX_PHYS_PAGES}"
  using assms by (simp_all add: ring_inv_def)

lemma buckets_invD:
  assumes "buckets_inv s C"
  shows "k < UIOX_PAGE_HASH_SZ \<Longrightarrow> sll (next_frame s) (pc_hash s k) (C k)"
    and "k < UIOX_PAGE_HASH_SZ \<Longrightarrow> set (C k) = {i \<in> cached s. i mod UIOX_PAGE_HASH_SZ = k}"
    and "pc_total s = int (card (cached s))"
  using assms by (simp_all add: buckets_inv_def)

lemma frames_invD:
  assumes "frames_inv s F"
  shows "i < UIOX_PHYS_PAGES \<Longrightarrow> pfd_valid (pfd s i) \<Longrightarrow> pfd_pfn (pfd s i) = of_nat i"
    and "i < UIOX_PHYS_PAGES \<Longrightarrow> pfd_valid (pfd s i) \<Longrightarrow> i \<notin> F"
    and "i \<in> cached s \<Longrightarrow> pfd_valid (pfd s i)"
  using assms unfolding frames_inv_def by blast+

lemma finite_cached [simp]: "finite (cached s)"
  by (rule finite_subset [of _ "{..<UIOX_PHYS_PAGES}"]) (auto simp: cached_def)

lemma cached_less: "i \<in> cached s \<Longrightarrow> i < UIOX_PHYS_PAGES"
  by (simp add: cached_def)

text \<open>Frame numbers as words.\<close>

lemma frame_word:
  assumes "i < UIOX_PHYS_PAGES"
  shows "unat (of_nat i :: u32) = i" and "unat ((of_nat i :: u32) mod of_nat UIOX_PHYS_PAGES) = i"
    and "cache_slot (of_nat i) = i mod UIOX_PAGE_HASH_SZ"
proof -
  show u: "unat (of_nat i :: u32) = i"
    using assms by (intro of_nat_inverse [OF refl]) (simp add: UIOX_PHYS_PAGES_def)
  then show "unat ((of_nat i :: u32) mod of_nat UIOX_PHYS_PAGES) = i"
    using assms by (simp add: unat_mod_distrib UIOX_PHYS_PAGES_def)
  show "cache_slot (of_nat i) = i mod UIOX_PAGE_HASH_SZ"
    using u by (simp add: cache_slot_def unat_mod_distrib UIOX_PAGE_HASH_SZ_def)
qed

lemma frame_word_inj:
  "i < UIOX_PHYS_PAGES \<Longrightarrow> j < UIOX_PHYS_PAGES \<Longrightarrow> (of_nat i :: u32) = of_nat j \<longleftrightarrow> i = j"
  using frame_word(1) by metis

lemma slot_bound: "i mod UIOX_PAGE_HASH_SZ < UIOX_PAGE_HASH_SZ"
  by (simp add: UIOX_PAGE_HASH_SZ_def)

section \<open>The frame ring\<close>

lemma ring_index_inj:
  assumes "(h + i) mod n = (h + j) mod n" and "i < n" and "j < (n :: nat)"
  shows "i = j"
proof -
  from assms(1) obtain a b where "h + i + n * a = h + j + n * b" by (auto simp: nat_mod_eq_iff)
  then have "(i + n * a) mod n = (j + n * b) mod n" by simp
  with assms(2,3) show ?thesis by simp
qed

lemma ring_alloc_none: "ring_inv s [] \<Longrightarrow> alloc_physical_page s = (None, s)"
  by (simp add: alloc_physical_page_def ring_inv_def)

lemma alloc_frame:
  assumes inv: "paging_inv s (i # R) C"
  obtains t where "alloc_physical_page s = (Some i, t)" "paging_inv t R C" "i < UIOX_PHYS_PAGES"
    "\<not> pfd_valid (pfd s i)" "\<forall>j. j \<noteq> i \<longrightarrow> pfd t j = pfd s j"
    "pfd t i = (pfd s i)\<lparr>pfd_valid := True, pfd_pfn := of_nat i, pfd_refcnt := 1, pfd_pte := None,
       pfd_on_hash := False, pfd_hash_next := None, pfd_content_valid := False\<rparr>"
    "cached t = cached s" "memory t = memory s" "pgtbl_pool t = pgtbl_pool s" "region_table t = region_table s"
    "u_pregs t = u_pregs s" "sigsegvs t = sigsegvs s" "recalcs t = recalcs s"
proof -
  note d = paging_invD [OF inv] and r = ring_invD [OF paging_invD(1) [OF inv]]
  have i: "i < UIOX_PHYS_PAGES" "i \<notin> set R" "distinct R" using r(5,6) by auto
  have nv: "\<not> pfd_valid (pfd s i)" using frames_invD(2) [OF d(3) i(1)] by auto
  then have nc: "i \<notin> cached s" using frames_invD(3) [OF d(3)] by blast
  have hd: "fpl_pages s (fpl_head s) = of_nat i" using r(4) [of 0] r(2) by simp
  define t where "t = upd_pfd i (\<lambda>x. x\<lparr>pfd_valid := True, pfd_pfn := of_nat i, pfd_refcnt := 1, pfd_pte := None,
       pfd_on_hash := False, pfd_hash_next := None, pfd_content_valid := False\<rparr>)
     (s\<lparr>fpl_head := (fpl_head s + 1) mod UIOX_PHYS_PAGES, fpl_count := fpl_count s - 1\<rparr>)"
  have eq: "alloc_physical_page s = (Some i, t)"
    using r(1) hd frame_word(2) [OF i(1)] by (simp add: alloc_physical_page_def t_def Let_def)
  have ca: "cached t = cached s" using nc by (auto simp: cached_def t_def)
  have "ring_inv t R"
    unfolding ring_inv_def
  proof (intro conjI allI impI)
    fix k assume "k < length R"
    then have "fpl_pages s ((fpl_head s + Suc k) mod UIOX_PHYS_PAGES) = of_nat (R ! k)" using r(4) [of "Suc k"] by simp
    then show "fpl_pages t ((fpl_head t + k) mod UIOX_PHYS_PAGES) = of_nat (R ! k)"
      by (simp add: t_def mod_add_left_eq)
  qed (use r i in \<open>simp_all add: t_def mod_add_left_eq UIOX_PHYS_PAGES_def\<close>)
  moreover have "buckets_inv t C"
  proof -
    have "sll (next_frame s) p (C k) = sll (next_frame t) p (C k)" if "k < UIOX_PAGE_HASH_SZ" for p k
      using buckets_invD(2) [OF d(2) that] nc by (intro sll_cong) (auto simp: next_frame_def t_def)
    with d(2) show ?thesis unfolding buckets_inv_def ca by (simp add: t_def)
  qed
  moreover have "frames_inv t (set R)"
    using d(3) i nc unfolding frames_inv_def ca by (auto simp: t_def)
  ultimately have "paging_inv t R C" by (simp add: paging_inv_def)
  with that [OF eq] i(1) nv ca show thesis by (simp add: t_def)
qed

section \<open>The page cache\<close>

lemma cache_walk_spec:
  assumes "sll (next_frame s) p xs" and "\<And>j. j \<in> set xs \<Longrightarrow> pfd_pfn (pfd s j) = pfn \<longleftrightarrow> j = i"
  shows "cache_walk pfn p s = Some (if i \<in> set xs then Some i else None)"
  using assms
proof (induction xs arbitrary: p)
  case Nil
  then show ?case by (simp add: cache_walk.simps)
next
  case (Cons x xs)
  have IH: "cache_walk pfn (next_frame s x) s = Some (if i \<in> set xs then Some i else None)"
    using Cons by simp
  from Cons.prems have "p = Some x" "pfd_pfn (pfd s x) = pfn \<longleftrightarrow> x = i" by auto
  with IH show ?case by (subst cache_walk.simps) (auto simp: next_frame_def)
qed

lemma find_in_cache_spec:
  assumes inv: "paging_inv s R C" and i: "i < UIOX_PHYS_PAGES"
  shows "find_in_cache (of_nat i) s = Some (if i \<in> cached s then Some i else None)"
proof -
  note d = paging_invD [OF inv]
  let ?k = "i mod UIOX_PAGE_HASH_SZ"
  note b = buckets_invD(1,2) [OF d(2) slot_bound, of i]
  have own: "pfd_pfn (pfd s j) = of_nat i \<longleftrightarrow> j = i" if "j \<in> set (C ?k)" for j
  proof -
    have "j \<in> cached s" using b(2) that by auto
    then have "pfd_pfn (pfd s j) = of_nat j" "j < UIOX_PHYS_PAGES"
      using frames_invD(1,3) [OF d(3)] cached_less by blast+
    then show ?thesis using frame_word_inj [OF _ i, of j] by simp
  qed
  have "i \<in> set (C ?k) \<longleftrightarrow> i \<in> cached s" using b(2) by auto
  with cache_walk_spec [OF b(1) own] show ?thesis by (simp add: find_in_cache_def frame_word(3) [OF i])
qed

lemma add_to_cache_spec:
  assumes inv: "paging_inv s R C" and i: "i < UIOX_PHYS_PAGES" "pfd_valid (pfd s i)" "i \<notin> cached s"
    and t: "t = add_to_cache (Some i) s"
  defines "k \<equiv> i mod UIOX_PAGE_HASH_SZ"
  shows "paging_inv t R (C(k := i # C k))" and "cached t = insert i (cached s)"
    and "\<forall>j. j \<noteq> i \<longrightarrow> pfd t j = pfd s j"
    and "pfd t i = (pfd s i)\<lparr>pfd_hash_next := pc_hash s k, pfd_on_hash := True\<rparr>"
    and "memory t = memory s" "pgtbl_pool t = pgtbl_pool s" "region_table t = region_table s"
    "u_pregs t = u_pregs s" "sigsegvs t = sigsegvs s" "recalcs t = recalcs s"
proof -
  note d = paging_invD [OF inv]
  have pfn: "pfd_pfn (pfd s i) = of_nat i" using frames_invD(1) [OF d(3) i(1,2)] .
  have noh: "\<not> pfd_on_hash (pfd s i)" using i(1,3) by (simp add: cached_def)
  have teq: "t = upd_pfd i (\<lambda>x. x\<lparr>pfd_hash_next := pc_hash s k, pfd_on_hash := True\<rparr>)
      (s\<lparr>pc_hash := (pc_hash s)(k := Some i), pc_total := pc_total s + 1\<rparr>)"
    using noh by (simp add: t add_to_cache_def pfn frame_word(3) [OF i(1)] Let_def k_def upd_pfd_def)
  show ca: "cached t = insert i (cached s)" using i(1) by (auto simp: cached_def teq)
  show "\<forall>j. j \<noteq> i \<longrightarrow> pfd t j = pfd s j" "pfd t i = (pfd s i)\<lparr>pfd_hash_next := pc_hash s k, pfd_on_hash := True\<rparr>"
    "memory t = memory s" "pgtbl_pool t = pgtbl_pool s" "region_table t = region_table s"
    "u_pregs t = u_pregs s" "sigsegvs t = sigsegvs s" "recalcs t = recalcs s"
    by (simp_all add: teq)
  have other: "sll (next_frame s) p (C m) = sll (next_frame t) p (C m)" if "m < UIOX_PAGE_HASH_SZ" for p m
    using buckets_invD(2) [OF d(2) that] i(3) by (intro sll_cong) (auto simp: next_frame_def teq)
  have "buckets_inv t (C(k := i # C k))"
    unfolding buckets_inv_def ca
  proof (intro conjI allI impI)
    fix m assume m: "m < UIOX_PAGE_HASH_SZ"
    note b = buckets_invD(1,2) [OF d(2) m]
    show "sll (next_frame t) (pc_hash t m) ((C(k := i # C k)) m)"
      using b(1) other [OF m] by (cases "m = k") (simp_all add: teq next_frame_def)
    show "set ((C(k := i # C k)) m) = {j \<in> insert i (cached s). j mod UIOX_PAGE_HASH_SZ = m}"
      using b(2) by (cases "m = k") (auto simp: k_def)
  next
    show "pc_total t = int (card (insert i (cached s)))"
      using buckets_invD(3) [OF d(2)] i(3) by (simp add: teq)
  qed
  moreover have "ring_inv t R" using d(1) unfolding ring_inv_def by (simp add: teq)
  moreover have "frames_inv t (set R)" using d(3) i(2) unfolding frames_inv_def ca by (simp add: teq)
  ultimately show "paging_inv t R (C(k := i # C k))" by (simp add: paging_inv_def)
qed

lemma uncache_walk_spec:
  assumes "sll (next_frame s) p (as @ i # bs)" and "i \<notin> set as"
  shows "uncache_walk i k prev p s = Some
    (let s = (case lastp prev as of
                None \<Rightarrow> s\<lparr>pc_hash := (pc_hash s)(k := pfd_hash_next (pfd s i))\<rparr>
              | Some q \<Rightarrow> upd_pfd q (\<lambda>x. x\<lparr>pfd_hash_next := pfd_hash_next (pfd s i)\<rparr>) s)
     in (upd_pfd i (\<lambda>x. x\<lparr>pfd_hash_next := None, pfd_on_hash := False\<rparr>) s)\<lparr>pc_total := pc_total s - 1\<rparr>)"
  using assms
proof (induction as arbitrary: p prev)
  case Nil
  then have "p = Some i" by simp
  then show ?case by (subst uncache_walk.simps) (auto simp: Let_def split: option.split)
next
  case (Cons a as)
  then have "p = Some a" "a \<noteq> i" by auto
  with Cons show ?case by (subst uncache_walk.simps) (simp add: next_frame_def)
qed

lemma remove_from_cache_spec:
  assumes inv: "paging_inv s R C" and i: "i \<in> cached s"
  defines "k \<equiv> i mod UIOX_PAGE_HASH_SZ"
  obtains t where "remove_from_cache (Some i) s = Some t" "paging_inv t R (C(k := remove1 i (C k)))"
    "cached t = cached s - {i}" "\<forall>j. j \<noteq> i \<longrightarrow> pfd_refcnt (pfd t j) = pfd_refcnt (pfd s j)"
    "\<forall>j. pfd_valid (pfd t j) = pfd_valid (pfd s j) \<and> pfd_pfn (pfd t j) = pfd_pfn (pfd s j) \<and> pfd_kva (pfd t j) = pfd_kva (pfd s j)"
    "memory t = memory s" "pgtbl_pool t = pgtbl_pool s" "region_table t = region_table s"
    "u_pregs t = u_pregs s" "sigsegvs t = sigsegvs s" "recalcs t = recalcs s"
proof -
  note d = paging_invD [OF inv]
  have il: "i < UIOX_PHYS_PAGES" and oh: "pfd_on_hash (pfd s i)" using i by (auto simp: cached_def)
  have val: "pfd_valid (pfd s i)" using frames_invD(3) [OF d(3) i] .
  have pfn: "pfd_pfn (pfd s i) = of_nat i" using frames_invD(1) [OF d(3) il val] .
  note b = buckets_invD(1,2) [OF d(2) slot_bound, of i, folded k_def]
  have "i \<in> set (C k)" using b(2) i by (simp add: k_def)
  then obtain as bs where C: "C k = as @ i # bs" and nas: "i \<notin> set as" by (meson split_list_first)
  have dist: "distinct (C k)" using sll_distinct [OF b(1)] .
  then have nbs: "i \<notin> set bs" using C by simp
  have rem: "remove1 i (C k) = as @ bs" using nas by (simp add: C remove1_append)
  define s1 where "s1 = (case lastp None as of
                None \<Rightarrow> s\<lparr>pc_hash := (pc_hash s)(k := pfd_hash_next (pfd s i))\<rparr>
              | Some q \<Rightarrow> upd_pfd q (\<lambda>x. x\<lparr>pfd_hash_next := pfd_hash_next (pfd s i)\<rparr>) s)"
  define t where "t = (upd_pfd i (\<lambda>x. x\<lparr>pfd_hash_next := None, pfd_on_hash := False\<rparr>) s1)\<lparr>pc_total := pc_total s1 - 1\<rparr>"
  have eq: "remove_from_cache (Some i) s = Some t"
    using oh uncache_walk_spec [OF b(1) [unfolded C] nas, of k None]
    by (simp add: remove_from_cache_def pfn frame_word(3) [OF il] Let_def t_def s1_def flip: k_def)
  have lq: "q \<noteq> i" if "lastp None as = Some q" for q using that nas lastp_in [of as q] by auto
  have tab: "pfd t j = (if j = i then (pfd s i)\<lparr>pfd_hash_next := None, pfd_on_hash := False\<rparr>
      else if Some j = lastp None as then (pfd s j)\<lparr>pfd_hash_next := pfd_hash_next (pfd s i)\<rparr> else pfd s j)" for j
    using lq by (auto simp: t_def s1_def split: option.split)
  have keep: "memory t = memory s" "pgtbl_pool t = pgtbl_pool s" "region_table t = region_table s"
    "u_pregs t = u_pregs s" "sigsegvs t = sigsegvs s" "recalcs t = recalcs s" "pc_total t = pc_total s - 1"
    "fpl_pages t = fpl_pages s" "fpl_count t = fpl_count s" "fpl_head t = fpl_head s" "fpl_tail t = fpl_tail s"
    by (simp_all add: t_def s1_def split: option.split)
  have ca: "cached t = cached s - {i}" using il by (auto simp: cached_def tab)
  have inck: "set (C k) \<subseteq> cached s" using b(2) by auto
  have chain: "sll (next_frame t) (pc_hash t k) (as @ bs)"
  proof (cases as rule: rev_cases)
    case Nil
    have "sll (next_frame s) p bs = sll (next_frame t) p bs" for p
      using nbs Nil by (intro sll_cong) (auto simp: next_frame_def tab)
    with Nil b(1) show ?thesis by (simp add: C t_def s1_def next_frame_def)
  next
    case (snoc cs c)
    have "sll ((next_frame s)(c := next_frame s i)) (pc_hash s k) (cs @ c # bs)"
      using sll_remove_mid [of "next_frame s" "pc_hash s k" cs c i bs] b(1) by (simp add: C snoc)
    also have "sll ((next_frame s)(c := next_frame s i)) p (cs @ c # bs) = sll (next_frame t) p (cs @ c # bs)" for p
      using nas nbs by (intro sll_cong) (auto simp: tab snoc next_frame_def)
    finally show ?thesis by (simp add: snoc t_def s1_def)
  qed
  have "buckets_inv t (C(k := as @ bs))"
    unfolding buckets_inv_def ca
  proof (intro conjI allI impI)
    fix m assume m: "m < UIOX_PAGE_HASH_SZ"
    note bm = buckets_invD(1,2) [OF d(2) m]
    show "sll (next_frame t) (pc_hash t m) ((C(k := as @ bs)) m)"
    proof (cases "m = k")
      case False
      have "set (C m) \<inter> set (C k) = {}" using bm(2) b(2) False by auto
      then have dis: "i \<notin> set (C m)" "\<And>q. lastp None as = Some q \<Longrightarrow> q \<notin> set (C m)"
        using C lastp_in [of as] by auto
      have "sll (next_frame s) p (C m) = sll (next_frame t) p (C m)" for p
      proof (rule sll_cong)
        fix x assume "x \<in> set (C m)"
        with dis have "x \<noteq> i" "Some x \<noteq> lastp None as" by metis+
        then show "next_frame s x = next_frame t x" by (simp add: next_frame_def tab)
      qed
      moreover have "pc_hash t m = pc_hash s m" using False by (simp add: t_def s1_def split: option.split)
      ultimately show ?thesis using bm(1) False by simp
    qed (use chain in simp)
    show "set ((C(k := as @ bs)) m) = {j \<in> cached s - {i}. j mod UIOX_PAGE_HASH_SZ = m}"
    proof (cases "m = k")
      case True
      have "set (as @ bs) = set (C k) - {i}" using nas nbs by (auto simp: C)
      with True b(2) show ?thesis by auto
    next
      case False
      then have "i mod UIOX_PAGE_HASH_SZ \<noteq> m" by (simp add: k_def)
      with False bm(2) show ?thesis by auto
    qed
  next
    have "0 < card (cached s)" using i by (auto simp: card_gt_0_iff)
    then show "pc_total t = int (card (cached s - {i}))"
      using buckets_invD(3) [OF d(2)] i by (simp add: keep(7) of_nat_diff)
  qed
  moreover have "ring_inv t R" using d(1) unfolding ring_inv_def keep by simp
  moreover have "frames_inv t (set R)" using d(3) unfolding frames_inv_def ca by (auto simp: tab)
  ultimately have "paging_inv t R (C(k := remove1 i (C k)))" by (simp add: paging_inv_def rem)
  from that [OF eq this ca] keep show thesis by (simp add: tab)
qed

lemma uncached: "i < UIOX_PHYS_PAGES \<Longrightarrow> i \<notin> cached s \<Longrightarrow> remove_from_cache (Some i) s = Some s"
  by (simp add: remove_from_cache_def cached_def)

text \<open>Releasing a frame that is not free puts it at the end of the ring.\<close>

lemma free_frame:
  assumes inv: "paging_inv s R C" and i: "i < UIOX_PHYS_PAGES" "i \<notin> set R"
  obtains t C' where "free_physical_page (of_nat i) s = Some t" "paging_inv t (R @ [i]) C'"
    "cached t = cached s - {i}" "\<not> pfd_valid (pfd t i)"
    "\<forall>j. j \<noteq> i \<longrightarrow> pfd_valid (pfd t j) = pfd_valid (pfd s j)" "\<forall>j. pfd_kva (pfd t j) = pfd_kva (pfd s j)"
proof -
  have "\<exists>u C'. remove_from_cache (Some i) s = Some u \<and> paging_inv u R C' \<and> cached u = cached s - {i} \<and>
      (\<forall>j. pfd_valid (pfd u j) = pfd_valid (pfd s j) \<and> pfd_kva (pfd u j) = pfd_kva (pfd s j))"
  proof (cases "i \<in> cached s")
    case True
    from remove_from_cache_spec [OF inv True] show ?thesis by metis
  next
    case False
    with uncached [OF i(1) False] inv show ?thesis by auto
  qed
  then obtain u C' where u: "remove_from_cache (Some i) s = Some u" "paging_inv u R C'" "cached u = cached s - {i}"
    "\<And>j. pfd_valid (pfd u j) = pfd_valid (pfd s j) \<and> pfd_kva (pfd u j) = pfd_kva (pfd s j)" by blast
  note d = paging_invD [OF u(2)] and r = ring_invD [OF paging_invD(1) [OF u(2)]]
  have nc: "i \<notin> cached u" using u(3) by simp
  define t where "t = upd_pfd i (\<lambda>x. x\<lparr>pfd_valid := False, pfd_refcnt := 0, pfd_pte := None, pfd_content_valid := False\<rparr>)
    (u\<lparr>fpl_pages := (fpl_pages u)(fpl_tail u := of_nat i), fpl_tail := (fpl_tail u + 1) mod UIOX_PHYS_PAGES,
       fpl_count := fpl_count u + 1\<rparr>)"
  have eq: "free_physical_page (of_nat i) s = Some t"
    using u(1) frame_word(2) [OF i(1)] by (simp add: free_physical_page_def t_def Let_def upd_pfd_def)
  have ca: "cached t = cached u" by (auto simp: cached_def t_def)
  have "set R \<subseteq> {..<UIOX_PHYS_PAGES} - {i}" using r(6) i(2) by auto
  then have "card (set R) \<le> card ({..<UIOX_PHYS_PAGES} - {i})" by (intro card_mono) auto
  then have len: "length R < UIOX_PHYS_PAGES" using r(5) i(1) by (simp add: distinct_card)
  have "ring_inv t (R @ [i])"
    unfolding ring_inv_def
  proof (intro conjI allI impI)
    fix k assume k: "k < length (R @ [i])"
    show "fpl_pages t ((fpl_head t + k) mod UIOX_PHYS_PAGES) = of_nat ((R @ [i]) ! k)"
    proof (cases "k = length R")
      case False
      with k have k': "k < length R" by simp
      have "(fpl_head u + k) mod UIOX_PHYS_PAGES \<noteq> fpl_tail u"
        unfolding r(3) using ring_index_inj [of "fpl_head u" k UIOX_PHYS_PAGES "length R"] k' len by auto
      with k' r(4) [OF k'] show ?thesis by (simp add: t_def nth_append)
    qed (use r(3) in \<open>simp add: t_def\<close>)
  next
    show "fpl_tail t = (fpl_head t + length (R @ [i])) mod UIOX_PHYS_PAGES"
      using r(3) by (simp add: t_def mod_Suc_eq)
  qed (use r i in \<open>simp_all add: t_def\<close>)
  moreover have "buckets_inv t C'"
  proof -
    have "next_frame t = next_frame u" by (auto simp: next_frame_def t_def)
    with d(2) show ?thesis unfolding buckets_inv_def ca by (simp add: t_def)
  qed
  moreover have "frames_inv t (set (R @ [i]))"
    using d(3) nc unfolding frames_inv_def ca by (auto simp: t_def)
  ultimately have "paging_inv t (R @ [i]) C'" by (simp add: paging_inv_def)
  with that [OF eq] ca u(3,4) show thesis by (simp add: t_def)
qed

section \<open>Initialisation\<close>

text \<open>The seeding loop draws pages from the physical pool, one per frame, until it is dry.\<close>

lemma seed_frames_spec:
  assumes "draw phys_alloc_page (UIOX_PHYS_PAGES - i) m = (ps, m')" and "i \<le> UIOX_PHYS_PAGES"
    and "fpl_tail s = i mod UIOX_PHYS_PAGES"
  shows "\<exists>t. seed_frames i s m = (t, m') \<and> fpl_count t = fpl_count s + int (length ps) \<and>
    fpl_tail t = (i + length ps) mod UIOX_PHYS_PAGES \<and> fpl_head t = fpl_head s \<and>
    (\<forall>j. fpl_pages t j = (if i \<le> j \<and> j < i + length ps then of_nat j else fpl_pages s j)) \<and>
    (\<forall>j. pfd t j = (if i \<le> j \<and> j < i + length ps then (pfd s j)\<lparr>pfd_kva := ps ! (j - i)\<rparr> else pfd s j)) \<and>
    pc_hash t = pc_hash s \<and> pc_total t = pc_total s"
  using assms
proof (induction "UIOX_PHYS_PAGES - i" arbitrary: i s m ps)
  case 0
  then have "seed_frames i s m = (s, m)" by (subst seed_frames.simps) simp
  moreover have "ps = []" "m' = m" using 0 by simp_all
  ultimately show ?case using 0(1,3,4) by (intro exI [of _ s]) auto
next
  case (Suc n)
  from Suc.hyps(2) have i: "i < UIOX_PHYS_PAGES" and n: "n = UIOX_PHYS_PAGES - Suc i" by simp_all
  obtain p m1 where p: "phys_alloc_page m = (p, m1)" by (cases "phys_alloc_page m")
  show ?case
  proof (cases "p = 0")
    case True
    have "draw phys_alloc_page (Suc n) m = ([], m1)" using p True by simp
    with Suc.hyps(2) Suc.prems(1) have ps: "ps = []" "m' = m1" by simp_all
    have "seed_frames i s m = (s, m1)" using i p True by (subst seed_frames.simps) simp
    with ps Suc.prems(3) show ?thesis by (intro exI [of _ s]) auto
  next
    case False
    obtain qs m2 where q: "draw phys_alloc_page n m1 = (qs, m2)" by (cases "draw phys_alloc_page n m1")
    have "draw phys_alloc_page (Suc n) m = (p # qs, m2)" using p q False by simp
    with Suc.hyps(2) Suc.prems(1) have ps: "ps = p # qs" "m' = m2" by simp_all
    define s1 where "s1 = (upd_pfd i (\<lambda>x. x\<lparr>pfd_kva := p\<rparr>) s)\<lparr>fpl_pages := (fpl_pages s)(i := of_nat i),
      fpl_tail := Suc i mod UIOX_PHYS_PAGES, fpl_count := fpl_count s + 1\<rparr>"
    have st: "seed_frames i s m = seed_frames (Suc i) s1 m1"
      using i p False Suc.prems(3) by (subst seed_frames.simps) (simp add: s1_def Let_def)
    have q': "draw phys_alloc_page (UIOX_PHYS_PAGES - Suc i) m1 = (qs, m')" using q ps n by simp
    from Suc.hyps(1) [OF n q', of s1] i obtain t where
      t: "seed_frames (Suc i) s1 m1 = (t, m')" "fpl_count t = fpl_count s1 + int (length qs)"
      "fpl_tail t = (Suc i + length qs) mod UIOX_PHYS_PAGES" "fpl_head t = fpl_head s1"
      "\<And>j. fpl_pages t j = (if Suc i \<le> j \<and> j < Suc i + length qs then of_nat j else fpl_pages s1 j)"
      "\<And>j. pfd t j = (if Suc i \<le> j \<and> j < Suc i + length qs then (pfd s1 j)\<lparr>pfd_kva := qs ! (j - Suc i)\<rparr> else pfd s1 j)"
      "pc_hash t = pc_hash s1" "pc_total t = pc_total s1" by (auto simp: s1_def)
    show ?thesis
    proof (intro exI [of _ t] conjI allI)
      fix j
      show "fpl_pages t j = (if i \<le> j \<and> j < i + length ps then of_nat j else fpl_pages s j)"
        using t(5) [of j] by (auto simp: s1_def ps)
      have "qs ! (j - Suc i) = ps ! (j - i)" if "Suc i \<le> j"
        using that by (simp add: ps Suc_diff_le nth_Cons' ) 
      then show "pfd t j = (if i \<le> j \<and> j < i + length ps then (pfd s j)\<lparr>pfd_kva := ps ! (j - i)\<rparr> else pfd s j)"
        using t(6) [of j] by (auto simp: s1_def ps)
    qed (use st t ps in \<open>simp_all add: s1_def\<close>)
  qed
qed

section \<open>Properties\<close>

lemma init_frames:
  assumes m: "phys_ok m" and t: "page_fault_init s m = (t, m')"
  obtains n ps where "n \<le> UIOX_PHYS_PAGES" "length ps = n" "distinct ps" "0 \<notin> set ps" "set ps \<inter> held m = {}"
    "held m' = set ps \<union> held m" "paging_inv t [0..<n] (\<lambda>k. [])" "\<forall>i<n. pfd_kva (pfd t i) = ps ! i"
    "n < UIOX_PHYS_PAGES \<longrightarrow> phys_alloc_page m' = (0, m')" "fpl_count t = int n" "phys_ok m'"
proof -
  obtain ps m2 where dr: "draw phys_alloc_page UIOX_PHYS_PAGES m = (ps, m2)"
    by (cases "draw phys_alloc_page UIOX_PHYS_PAGES m")
  note f = phys_source.draw_fresh [OF m dr]
  define s0 where "s0 = s\<lparr>pfdata_table := (\<lambda>i. if i < UIOX_PHYS_PAGES then clear_pfd (pfdata_table s i) else pfdata_table s i),
      pc_hash := (\<lambda>k. if k < UIOX_PAGE_HASH_SZ then None else pc_hash s k), pc_total := 0,
      fpl_count := 0, fpl_head := 0, fpl_tail := 0\<rparr>"
  have st: "page_fault_init s m = seed_frames 0 s0 m" by (simp add: page_fault_init_def s0_def Let_def cong: if_cong)
  from seed_frames_spec [of 0 m ps m2 s0] dr obtain u where u: "seed_frames 0 s0 m = (u, m2)"
    "fpl_count u = int (length ps)" "fpl_tail u = length ps mod UIOX_PHYS_PAGES" "fpl_head u = 0"
    "\<forall>j. fpl_pages u j = (if j < length ps then of_nat j else fpl_pages s0 j)"
    "\<forall>j. pfd u j = (if j < length ps then (pfd s0 j)\<lparr>pfd_kva := ps ! j\<rparr> else pfd s0 j)"
    "pc_hash u = pc_hash s0" "pc_total u = 0" by (auto simp: s0_def)
  have e: "t = u" "m' = m2" using t st u(1) by simp_all
  have clr: "\<not> pfd_valid (pfd u j) \<and> \<not> pfd_on_hash (pfd u j)" if "j < UIOX_PHYS_PAGES" for j
    using u(6) that by (simp add: s0_def clear_pfd_def)
  have "cached u = {}" using clr by (auto simp: cached_def)
  then have "buckets_inv u (\<lambda>k. [])" by (simp add: buckets_inv_def u(7,8) s0_def)
  moreover have "frames_inv u (set [0..<length ps])" using clr by (auto simp: frames_inv_def cached_def)
  moreover have "ring_inv u [0..<length ps]"
    using f u(2-5) by (auto simp: ring_inv_def UIOX_PHYS_PAGES_def)
  ultimately have "paging_inv u [0..<length ps] (\<lambda>k. [])" by (simp add: paging_inv_def)
  then show thesis using that [of "length ps" ps] f u(2,6) unfolding e by simp
qed

text \<open>After \<open>page_fault_init\<close> on a pool in working order, every frame in the ring has a page of
  its own behind it: frames \<open>0 .. n - 1\<close>, all different, non-null, held by nobody before and held
  now, and fewer than 2048 of them only if the pool is exhausted.\<close>

theorem frames_are_backed:
  assumes "phys_reach m H" and "page_fault_init s m = (t, m')"
  shows "\<exists>n \<le> UIOX_PHYS_PAGES. paging_inv t [0..<n] (\<lambda>k. []) \<and> fpl_count t = int n \<and>
    inj_on (\<lambda>i. pfd_kva (pfd t i)) {..<n} \<and>
    (\<forall>i<n. pfd_kva (pfd t i) \<noteq> 0 \<and> pfd_kva (pfd t i) \<notin> H) \<and>
    held m' = (\<lambda>i. pfd_kva (pfd t i)) ` {..<n} \<union> H \<and>
    (n < UIOX_PHYS_PAGES \<longrightarrow> fst (phys_alloc_page m') = 0)"
proof -
  from phys_reach_ok [OF assms(1)] have m: "phys_ok m" and H: "held m = H" by auto
  from init_frames [OF m assms(2)] obtain n ps where n: "n \<le> UIOX_PHYS_PAGES" "length ps = n" "distinct ps"
    "0 \<notin> set ps" "set ps \<inter> held m = {}" "held m' = set ps \<union> held m" "paging_inv t [0..<n] (\<lambda>k. [])"
    "\<forall>i<n. pfd_kva (pfd t i) = ps ! i" "n < UIOX_PHYS_PAGES \<longrightarrow> phys_alloc_page m' = (0, m')"
    "fpl_count t = int n" .
  have "inj_on (\<lambda>i. pfd_kva (pfd t i)) {..<n}"
    using n(2,3,8) by (auto simp: inj_on_def nth_eq_iff_index_eq)
  moreover have img: "(\<lambda>i. pfd_kva (pfd t i)) ` {..<n} = set ps"
    using n(2,8) by (auto simp: set_conv_nth)
  moreover have "\<forall>i<n. pfd_kva (pfd t i) \<in> set ps" using n(2,8) by auto
  then have "\<forall>i<n. pfd_kva (pfd t i) \<noteq> 0 \<and> pfd_kva (pfd t i) \<notin> H"
    using n(4,5) unfolding H by (metis disjoint_iff)
  moreover have "held m' = (\<lambda>i. pfd_kva (pfd t i)) ` {..<n} \<union> H" by (simp only: img n(6) H)
  moreover have "n < UIOX_PHYS_PAGES \<longrightarrow> fst (phys_alloc_page m') = 0" using n(9) by auto
  ultimately show ?thesis using n(1,7,10) by blast
qed

definition paging_boot :: paging where
  "paging_boot = regions.extend reg_boot \<lparr>pfdata_table = (\<lambda>i. \<lparr>pfd_valid = False, pfd_refcnt = 0, pfd_pfn = 0,
       pfd_pte = None, pfd_on_hash = False, pfd_hash_next = None, pfd_content_valid = False, pfd_kva = 0\<rparr>),
     pc_hash = (\<lambda>k. None), pc_total = 0, fpl_pages = (\<lambda>i. 0), fpl_count = 0, fpl_head = 0, fpl_tail = 0,
     memory = (\<lambda>a. 0), sigsegvs = 0, recalcs = []\<rparr>"

lemma frames_are_backed_witness:
  "\<exists>n \<le> 2048. fpl_count (fst (page_fault_init paging_boot phys_demo)) = int n"
proof -
  obtain t m' where t: "page_fault_init paging_boot phys_demo = (t, m')" by (cases "page_fault_init paging_boot phys_demo")
  from frames_are_backed [OF phys_demo_reach(1) t] show ?thesis
    unfolding t by (auto simp: UIOX_PHYS_PAGES_def)
qed

text \<open>The ring is a first-in first-out queue of frames: allocation takes its front and marks the
  frame as its owner's, release appends to its end, and an empty ring fails without a change.\<close>

theorem frame_ring_fifo:
  assumes "paging_inv s R C"
  shows "(case R of [] \<Rightarrow> alloc_physical_page s = (None, s)
          | i # R' \<Rightarrow> \<exists>t. alloc_physical_page s = (Some i, t) \<and> paging_inv t R' C \<and>
              pfd_valid (pfd t i) \<and> pfd_refcnt (pfd t i) = 1 \<and> pfd_pfn (pfd t i) = of_nat i) \<and>
    (\<forall>i < UIOX_PHYS_PAGES. i \<notin> set R \<longrightarrow>
       (\<exists>t C'. free_physical_page (of_nat i) s = Some t \<and> paging_inv t (R @ [i]) C' \<and> \<not> pfd_valid (pfd t i)))"
proof -
  have "case R of [] \<Rightarrow> alloc_physical_page s = (None, s)
          | i # R' \<Rightarrow> \<exists>t. alloc_physical_page s = (Some i, t) \<and> paging_inv t R' C \<and>
              pfd_valid (pfd t i) \<and> pfd_refcnt (pfd t i) = 1 \<and> pfd_pfn (pfd t i) = of_nat i"
  proof (cases R)
    case Nil
    with ring_alloc_none [of s] paging_invD(1) [OF assms] show ?thesis by simp
  next
    case (Cons i R')
    from alloc_frame [OF assms [unfolded Cons]] obtain t where t: "alloc_physical_page s = (Some i, t)"
      "paging_inv t R' C" "pfd t i = (pfd s i)\<lparr>pfd_valid := True, pfd_pfn := of_nat i, pfd_refcnt := 1, pfd_pte := None,
       pfd_on_hash := False, pfd_hash_next := None, pfd_content_valid := False\<rparr>" .
    then show ?thesis by (simp add: Cons)
  qed
  moreover have "\<exists>t C'. free_physical_page (of_nat i) s = Some t \<and> paging_inv t (R @ [i]) C' \<and> \<not> pfd_valid (pfd t i)"
    if i: "i < UIOX_PHYS_PAGES" "i \<notin> set R" for i
  proof -
    from free_frame [OF assms i] obtain t C' where "free_physical_page (of_nat i) s = Some t"
      "paging_inv t (R @ [i]) C'" "\<not> pfd_valid (pfd t i)" .
    then show ?thesis by blast
  qed
  ultimately show ?thesis by blast
qed

section \<open>Copy on write\<close>

lemma find_pte_cong:
  assumes "u_pregs t = u_pregs s"
    and "\<And>r. r_pgtbl (region_table t r) = r_pgtbl (region_table s r) \<and> r_size (region_table t r) = r_size (region_table s r) \<and>
      r_npages (region_table t r) = r_npages (region_table s r)"
  shows "find_pte pr va t = find_pte pr va s"
  using assms by (simp add: find_pte_def Let_def cong: option.case_cong if_cong)

lemma find_pte_lock [simp]: "find_pte pr va (region_lock q s) = find_pte pr va s"
  by (rule find_pte_cong) (auto simp: region_lock_def split: option.split)

lemma region_lock_keeps [simp]:
  "pgtbl_pool (region_lock q s) = pgtbl_pool s" "pfdata_table (region_lock q s) = pfdata_table s"
  "memory (region_lock q s) = memory s" "sigsegvs (region_lock q s) = sigsegvs s"
  "recalcs (region_lock q s) = recalcs s" "u_pregs (region_lock q s) = u_pregs s"
  "pc_hash (region_lock q s) = pc_hash s" "pc_total (region_lock q s) = pc_total s"
  "fpl_pages (region_lock q s) = fpl_pages s" "fpl_count (region_lock q s) = fpl_count s"
  "fpl_head (region_lock q s) = fpl_head s" "fpl_tail (region_lock q s) = fpl_tail s"
  by (auto simp: region_lock_def upd_reg_def split: option.split)

lemma region_unlock_keeps [simp]:
  "pgtbl_pool (region_unlock q s) = pgtbl_pool s" "pfdata_table (region_unlock q s) = pfdata_table s"
  "memory (region_unlock q s) = memory s" "sigsegvs (region_unlock q s) = sigsegvs s"
  "recalcs (region_unlock q s) = recalcs s" "u_pregs (region_unlock q s) = u_pregs s"
  "pc_hash (region_unlock q s) = pc_hash s" "pc_total (region_unlock q s) = pc_total s"
  "fpl_pages (region_unlock q s) = fpl_pages s" "fpl_count (region_unlock q s) = fpl_count s"
  "fpl_head (region_unlock q s) = fpl_head s" "fpl_tail (region_unlock q s) = fpl_tail s"
  by (auto simp: region_unlock_def upd_reg_def split: option.split)

lemma paging_inv_cong:
  assumes "pfdata_table t = pfdata_table s" "pc_hash t = pc_hash s" "pc_total t = pc_total s"
    "fpl_pages t = fpl_pages s" "fpl_count t = fpl_count s" "fpl_head t = fpl_head s" "fpl_tail t = fpl_tail s"
  shows "paging_inv t R C \<longleftrightarrow> paging_inv s R C" and "cached t = cached s"
proof -
  have "cached t = cached s" "next_frame t = next_frame s"
    using assms by (auto simp: cached_def next_frame_def)
  then show "paging_inv t R C \<longleftrightarrow> paging_inv s R C" "cached t = cached s"
    using assms by (simp_all add: paging_inv_def ring_inv_def buckets_inv_def frames_inv_def)
qed

lemma region_lock_inv [simp]:
  "paging_inv (region_lock q s) R C \<longleftrightarrow> paging_inv s R C"
  "paging_inv (region_unlock q s) R C \<longleftrightarrow> paging_inv s R C"
  "cached (region_lock q s) = cached s" "cached (region_unlock q s) = cached s"
  by (rule paging_inv_cong; simp)+

lemma send_sigsegv_keeps [simp]:
  "pgtbl_pool (send_sigsegv s) = pgtbl_pool s" "pfdata_table (send_sigsegv s) = pfdata_table s"
  "memory (send_sigsegv s) = memory s" "sigsegvs (send_sigsegv s) = sigsegvs s + 1"
  "recalcs (send_sigsegv s) = recalcs s" "region_table (send_sigsegv s) = region_table s"
  "u_pregs (send_sigsegv s) = u_pregs s"
  by (simp_all add: send_sigsegv_def)

text \<open>Copying between two different frames touches the target page only.\<close>

lemma copy_page_sel [simp]:
  "pfdata_table (copy_page d c s) = pfdata_table s" "pgtbl_pool (copy_page d c s) = pgtbl_pool s"
  "sigsegvs (copy_page d c s) = sigsegvs s" "recalcs (copy_page d c s) = recalcs s"
  "u_pregs (copy_page d c s) = u_pregs s" "region_table (copy_page d c s) = region_table s"
  by (simp_all add: copy_page_def)

lemma copy_page_inv [simp]:
  "paging_inv (copy_page d c s) R C \<longleftrightarrow> paging_inv s R C" "cached (copy_page d c s) = cached s"
  by (rule paging_inv_cong; simp add: copy_page_def)+

lemma upd_pte_inv [simp]:
  "paging_inv (upd_pte e f s) R C \<longleftrightarrow> paging_inv s R C" "cached (upd_pte e f s) = cached s"
  by (rule paging_inv_cong; simp)+

lemma copy_page_memory:
  "memory (copy_page d c s) a = (if a - d < UIOX_PAGE_SIZE then memory s (c + (a - d)) else memory s a)"
  by (simp add: copy_page_def)

text \<open>Updates of a descriptor that keep its number, its state and its links keep the invariant.\<close>

lemma upd_pfd_inv:
  assumes "\<And>x. pfd_valid (f x) = pfd_valid x \<and> pfd_pfn (f x) = pfd_pfn x \<and> pfd_on_hash (f x) = pfd_on_hash x \<and>
      pfd_hash_next (f x) = pfd_hash_next x"
  shows "paging_inv (upd_pfd i f s) R C \<longleftrightarrow> paging_inv s R C" and "cached (upd_pfd i f s) = cached s"
proof -
  have "cached (upd_pfd i f s) = cached s" "next_frame (upd_pfd i f s) = next_frame s"
    using assms by (auto simp: cached_def next_frame_def)
  then show "paging_inv (upd_pfd i f s) R C \<longleftrightarrow> paging_inv s R C" "cached (upd_pfd i f s) = cached s"
    using assms by (auto simp: paging_inv_def ring_inv_def buckets_inv_def frames_inv_def)
qed

lemma cow_copy_spec:
  assumes inv: "paging_inv s (n # R) C" and i: "i \<in> cached s"
  obtains t where "cow_copy e i s = (True, t)"
    "paging_inv t R (C(n mod UIOX_PAGE_HASH_SZ := n # C (n mod UIOX_PAGE_HASH_SZ)))"
    "pfd_refcnt (pfd t i) = pfd_refcnt (pfd s i) - 1" "pfd_refcnt (pfd t n) = 1" "n \<noteq> i"
    "pte_at t e = (pte_at s e)\<lparr>pte_pfn := of_nat n\<rparr>" "\<forall>k j. (k, j) \<noteq> e \<longrightarrow> pgtbl_pool t k j = pgtbl_pool s k j"
    "cached t = insert n (cached s)" "sigsegvs t = sigsegvs s" "recalcs t = recalcs s" "u_pregs t = u_pregs s"
    "\<forall>a. memory t a = (if a - frame_address (of_nat n) < UIOX_PAGE_SIZE
       then memory s (frame_address (of_nat i) + (a - frame_address (of_nat n))) else memory s a)"
    "\<forall>q. q \<noteq> i \<longrightarrow> q \<noteq> n \<longrightarrow> pfd t q = pfd s q" "region_table t = region_table s"
    "pfd_kva (pfd t n) = pfd_kva (pfd s n)"
proof -
  note d = paging_invD [OF inv]
  have il: "i < UIOX_PHYS_PAGES" and iv: "pfd_valid (pfd s i)"
    using i frames_invD(3) [OF d(3)] cached_less by blast+
  have ip: "pfd_pfn (pfd s i) = of_nat i" using frames_invD(1) [OF d(3) il iv] .
  from alloc_frame [OF inv] obtain s1 where s1: "alloc_physical_page s = (Some n, s1)" "paging_inv s1 R C"
    "n < UIOX_PHYS_PAGES" "\<not> pfd_valid (pfd s n)" "\<forall>j. j \<noteq> n \<longrightarrow> pfd s1 j = pfd s j"
    "pfd s1 n = (pfd s n)\<lparr>pfd_valid := True, pfd_pfn := of_nat n, pfd_refcnt := 1, pfd_pte := None,
       pfd_on_hash := False, pfd_hash_next := None, pfd_content_valid := False\<rparr>"
    "cached s1 = cached s" "memory s1 = memory s" "pgtbl_pool s1 = pgtbl_pool s" "region_table s1 = region_table s"
    "u_pregs s1 = u_pregs s" "sigsegvs s1 = sigsegvs s" "recalcs s1 = recalcs s" .
  have ni: "n \<noteq> i" using s1(4) iv by auto
  have nc: "n \<notin> cached s" using s1(4) frames_invD(3) [OF d(3)] by blast
  define s2 where "s2 = upd_pfd n (\<lambda>x. x\<lparr>pfd_content_valid := True, pfd_pte := Some e\<rparr>)
    (upd_pfd i (\<lambda>x. x\<lparr>pfd_refcnt := pfd_refcnt x - 1\<rparr>)
      (copy_page (frame_address (of_nat n)) (frame_address (of_nat i)) s1))"
  have inv2: "paging_inv s2 R C" "cached s2 = cached s"
    using s1(2,7) by (simp_all add: s2_def upd_pfd_inv)
  have nv2: "pfd_valid (pfd s2 n)" using s1(6) ni by (simp add: s2_def)
  have pn2: "pfd_pfn (pfd s2 n) = of_nat n" using s1(6) ni by (simp add: s2_def)
  define s3 where "s3 = add_to_cache (Some n) s2"
  have nc2: "n \<notin> cached s2" using nc inv2 by simp
  note a = add_to_cache_spec [OF inv2(1) s1(3) nv2 nc2 s3_def]
  have eq: "cow_copy e i s = (True, upd_pte e (\<lambda>x. x\<lparr>pte_pfn := of_nat n\<rparr>) s3)"
  proof -
    have "pfd_pfn (pfd s1 n) = of_nat n" "pfd_pfn (pfd s1 i) = of_nat i" "pfd_pfn (pfd s3 n) = of_nat n"
      using s1(5,6) ni ip a(4) pn2 by simp_all
    then show ?thesis by (simp add: cow_copy_def s1(1) Let_def s2_def s3_def)
  qed
  have inv3: "paging_inv (upd_pte e (\<lambda>x. x\<lparr>pte_pfn := of_nat n\<rparr>) s3) R
      (C(n mod UIOX_PAGE_HASH_SZ := n # C (n mod UIOX_PAGE_HASH_SZ)))"
    using a(1) by simp
  have ca3: "cached (upd_pte e (\<lambda>x. x\<lparr>pte_pfn := of_nat n\<rparr>) s3) = insert n (cached s)"
    using a(2) inv2(2) by simp
  show thesis
  proof (rule that [OF eq inv3 _ _ ni _ _ ca3])
    show "pfd_refcnt (pfd (upd_pte e (\<lambda>x. x\<lparr>pte_pfn := of_nat n\<rparr>) s3) i) = pfd_refcnt (pfd s i) - 1"
      using a(3) s1(5) ni by (simp add: s2_def)
    show "pfd_refcnt (pfd (upd_pte e (\<lambda>x. x\<lparr>pte_pfn := of_nat n\<rparr>) s3) n) = 1"
      using a(4) s1(6) ni by (simp add: s2_def)
    show "pte_at (upd_pte e (\<lambda>x. x\<lparr>pte_pfn := of_nat n\<rparr>) s3) e = (pte_at s e)\<lparr>pte_pfn := of_nat n\<rparr>"
      "\<forall>k j. (k, j) \<noteq> e \<longrightarrow> pgtbl_pool (upd_pte e (\<lambda>x. x\<lparr>pte_pfn := of_nat n\<rparr>) s3) k j = pgtbl_pool s k j"
      using a(6) s1(9) by (simp_all add: s2_def)
    show "\<forall>q. q \<noteq> i \<longrightarrow> q \<noteq> n \<longrightarrow> pfd (upd_pte e (\<lambda>x. x\<lparr>pte_pfn := of_nat n\<rparr>) s3) q = pfd s q"
      using a(3) s1(5) by (simp add: s2_def)
    show "pfd_kva (pfd (upd_pte e (\<lambda>x. x\<lparr>pte_pfn := of_nat n\<rparr>) s3) n) = pfd_kva (pfd s n)"
      using a(4) s1(6) ni by (simp add: s2_def)
  qed (use a(5,7-10) s1(8,10-13) in \<open>simp_all add: s2_def copy_page_memory\<close>)
qed

lemma pfault_run:
  assumes "pr_region (preg s a) = Some r"
  shows "pfault va (Some a) s =
    Option.bind (case find_pte (Some a) va s of
                   None \<Rightarrow> Some (send_sigsegv (region_lock (Some a) s))
                 | Some e \<Rightarrow> pfault_body e (Some a) (region_lock (Some a) s))
      (\<lambda>s. Some (region_unlock (Some a) s))"
  using assms by (simp add: pfault_def Let_def)

lemma region_unlock_clears:
  "pr_region (preg s a) = Some r \<Longrightarrow>
     r_status (region_table (region_unlock (Some a) s) r) AND REG_LOCKED = 0"
  by (auto simp: region_unlock_def REG_LOCKED_def word_bw_assocs)

lemma recalc_sel [simp]:
  "pgtbl_pool (recalc_priority_after_fault p s) = pgtbl_pool s" "memory (recalc_priority_after_fault p s) = memory s"
  "pfdata_table (recalc_priority_after_fault p s) = pfdata_table s"
  "sigsegvs (recalc_priority_after_fault p s) = sigsegvs s" "u_pregs (recalc_priority_after_fault p s) = u_pregs s"
  "region_table (recalc_priority_after_fault p s) = region_table s"
  by (auto simp: recalc_priority_after_fault_def split: option.split)

lemma recalc_inv [simp]:
  "paging_inv (recalc_priority_after_fault p s) R C \<longleftrightarrow> paging_inv s R C"
  "cached (recalc_priority_after_fault p s) = cached s"
  by (rule paging_inv_cong; auto simp: recalc_priority_after_fault_def split: option.split)+

lemma cow_flags_eq:
  "cow_flags x = x\<lparr>pte_flags := ((pte_flags x OR PTE_WRITE) OR PTE_DIRTY) AND NOT PTE_COW\<rparr>"
  by (simp add: cow_flags_def Let_def)

text \<open>Two different pages have no address in common.\<close>

lemma pages_apart:
  fixes a c b :: u64
  assumes "a AND UIOX_PAGE_MASK = a" and "c AND UIOX_PAGE_MASK = c" and "a \<noteq> c" and "b < UIOX_PAGE_SIZE"
  shows "\<not> a + b - c < UIOX_PAGE_SIZE"
proof
  have page: "unat (x + y) = unat x + unat y \<and> unat (x + y) div 4096 * 4096 = unat x"
    if al: "x AND UIOX_PAGE_MASK = x" and lt: "y < UIOX_PAGE_SIZE" for x y :: u64
  proof -
    have y: "unat y < 4096"
      using lt by (simp add: UIOX_PAGE_SIZE_def UIOX_PAGE_SHIFT_def word_less_nat_alt)
    obtain q where q: "unat x = 4096 * q" using al page_aligned [of x] by (auto simp: dvd_def)
    have "unat x < 2 ^ 64" using unsigned_less [of x] by simp
    then have "q < 2 ^ 52" using q by simp
    then have "unat x + unat y < 2 ^ 64" using q y by simp
    then have "unat (x + y) = unat x + unat y" by (simp add: unat_word_ariths)
    then show ?thesis using q y by simp
  qed
  assume "a + b - c < UIOX_PAGE_SIZE"
  moreover have e: "c + (a + b - c) = a + b" by simp
  ultimately have "unat (a + b) div 4096 * 4096 = unat c" using page [OF assms(2), of "a + b - c"] unfolding e by blast
  moreover from page [OF assms(1,4)] have "unat (a + b) div 4096 * 4096 = unat a" by blast
  ultimately have "unat a = unat c" by (simp only:)
  with assms(3) show False by (simp add: word_unat_eq_iff)
qed

lemma frame_address_aligned:
  assumes "n < UIOX_PHYS_PAGES"
  shows "frame_address (of_nat n) AND UIOX_PAGE_MASK = frame_address (of_nat n)"
proof -
  have n: "n < 2048" using assms by (simp add: UIOX_PHYS_PAGES_def)
  have "unat (push_bit 12 (of_nat n :: u32)) = n * 4096"
    using n by (simp add: push_bit_eq_mult unat_word_ariths unsigned_of_nat take_bit_nat_eq_self)
  then have "unat (frame_address (of_nat n)) = n * 4096"
    using n by (simp add: frame_address_def UIOX_PAGE_SHIFT_def unsigned_ucast_eq take_bit_nat_eq_self)
  then show ?thesis by (simp add: page_aligned)
qed

text \<open>C28: a write to a copy-on-write page whose frame is shared gives the writer the next free frame:
  its entry maps that frame, writable, dirty and no longer copy-on-write, the old frame loses one
  reference, no other entry changes, and the region is unlocked again.  But the handler copies
  between the addresses \<open>pfd_pfn << 12\<close>, while the memory behind a frame is at \<open>pfd_kva\<close>: when the new
  frame's page is not the one at its number times 4096, all of its bytes stay what they were, so the
  writer goes on with stale memory, and the page at the number times 4096 is overwritten.\<close>

theorem pfault_copies_by_number:
  assumes inv: "paging_inv s (n # R) C" and a: "pr_region (preg s a) = Some r"
    and e: "find_pte (Some a) va s = Some e"
    and fl: "pte_flags (pte_at s e) AND PTE_VALID \<noteq> 0" "pte_flags (pte_at s e) AND PTE_COW \<noteq> 0"
    and i: "pte_pfn (pte_at s e) = of_nat i" "i \<in> cached s" "1 < pfd_refcnt (pfd s i)"
    and kva: "pfd_kva (pfd s n) AND UIOX_PAGE_MASK = pfd_kva (pfd s n)" "pfd_kva (pfd s n) \<noteq> frame_address (of_nat n)"
  shows "\<exists>t. pfault va (Some a) s = Some t \<and>
    pte_at t e = \<lparr>pte_pfn = of_nat n,
      pte_flags = ((pte_flags (pte_at s e) OR PTE_WRITE) OR PTE_DIRTY) AND NOT PTE_COW\<rparr> \<and>
    (\<forall>k j. (k, j) \<noteq> e \<longrightarrow> pgtbl_pool t k j = pgtbl_pool s k j) \<and>
    pfd_kva (pfd t n) = pfd_kva (pfd s n) \<and>
    (\<forall>b < UIOX_PAGE_SIZE. memory t (pfd_kva (pfd t n) + b) = memory s (pfd_kva (pfd s n) + b)) \<and>
    (\<forall>b < UIOX_PAGE_SIZE. memory t (frame_address (of_nat n) + b) = memory s (frame_address (of_nat i) + b)) \<and>
    (\<forall>x. UIOX_PAGE_SIZE \<le> x - frame_address (of_nat n) \<longrightarrow> memory t x = memory s x) \<and>
    pfd_refcnt (pfd t i) = pfd_refcnt (pfd s i) - 1 \<and> pfd_refcnt (pfd t n) = 1 \<and>
    (\<exists>C'. paging_inv t R C') \<and> n \<in> cached t \<and> sigsegvs t = sigsegvs s \<and>
    r_status (region_table t r) AND REG_LOCKED = 0"
proof -
  let ?s = "region_lock (Some a) s"
  have inv': "paging_inv ?s (n # R) C" and ic: "i \<in> cached ?s" using inv i(2) by simp_all
  have il: "i < UIOX_PHYS_PAGES" using i(2) cached_less by blast
  have nl: "n < UIOX_PHYS_PAGES" using ring_invD(6) [OF paging_invD(1) [OF inv]] by auto
  from cow_copy_spec [OF inv' ic, of e] obtain u where u: "cow_copy e i ?s = (True, u)"
    "paging_inv u R (C(n mod UIOX_PAGE_HASH_SZ := n # C (n mod UIOX_PAGE_HASH_SZ)))"
    "pfd_refcnt (pfd u i) = pfd_refcnt (pfd ?s i) - 1" "pfd_refcnt (pfd u n) = 1"
    "pte_at u e = (pte_at ?s e)\<lparr>pte_pfn := of_nat n\<rparr>" "\<forall>k j. (k, j) \<noteq> e \<longrightarrow> pgtbl_pool u k j = pgtbl_pool ?s k j"
    "cached u = insert n (cached ?s)" "sigsegvs u = sigsegvs ?s" "u_pregs u = u_pregs ?s"
    "\<forall>x. memory u x = (if x - frame_address (of_nat n) < UIOX_PAGE_SIZE
       then memory ?s (frame_address (of_nat i) + (x - frame_address (of_nat n))) else memory ?s x)"
    "pfd_kva (pfd u n) = pfd_kva (pfd ?s n)" .
  define t where "t = region_unlock (Some a) (recalc_priority_after_fault (Some a) (upd_pte e cow_flags u))"
  have "find_in_cache (pte_pfn (pte_at ?s e)) ?s = Some (Some i)"
    using find_in_cache_spec [OF inv' il] ic i(1) by simp
  then have "pfault_body e (Some a) ?s = Some (recalc_priority_after_fault (Some a) (upd_pte e cow_flags u))"
    using fl i(3) u(1) by (simp add: pfault_body_def)
  then have run: "pfault va (Some a) s = Some t" using pfault_run [OF a, of va] e by (simp add: t_def)
  have "pr_region (preg (recalc_priority_after_fault (Some a) (upd_pte e cow_flags u)) a) = Some r"
    using u(9) a by simp
  from region_unlock_clears [OF this] have lock: "r_status (region_table t r) AND REG_LOCKED = 0" by (simp add: t_def)
  have pte: "pte_at t e = \<lparr>pte_pfn = of_nat n,
      pte_flags = ((pte_flags (pte_at s e) OR PTE_WRITE) OR PTE_DIRTY) AND NOT PTE_COW\<rparr>"
    using u(5) by (cases "pte_at s e") (simp add: t_def cow_flags_eq)
  have other: "\<forall>k j. (k, j) \<noteq> e \<longrightarrow> pgtbl_pool t k j = pgtbl_pool s k j" using u(6) by (simp add: t_def)
  have at: "pfd_kva (pfd t n) = pfd_kva (pfd s n)" using u(11) by (simp add: t_def)
  have mem: "\<forall>b < UIOX_PAGE_SIZE. memory t (frame_address (of_nat n) + b) = memory s (frame_address (of_nat i) + b)"
    "\<forall>x. UIOX_PAGE_SIZE \<le> x - frame_address (of_nat n) \<longrightarrow> memory t x = memory s x"
    unfolding not_less [symmetric] using u(10) by (simp_all add: t_def)
  have stale: "\<forall>b < UIOX_PAGE_SIZE. memory t (pfd_kva (pfd t n) + b) = memory s (pfd_kva (pfd s n) + b)"
    unfolding at using mem(2) pages_apart [OF kva(1) frame_address_aligned [OF nl] kva(2)] by (simp add: not_less)
  have "\<exists>C'. paging_inv t R C'" using u(2) by (auto simp: t_def)
  with run lock pte other mem stale at u(3,4,7,8) show ?thesis by (intro exI [of _ t]) (simp add: t_def)
qed

lemma pfault_signals:
  assumes inv: "paging_inv s R C" and a: "pr_region (preg s a) = Some r"
    and no: "case find_pte (Some a) va s of None \<Rightarrow> True
       | Some e \<Rightarrow> pte_flags (pte_at s e) AND PTE_VALID = 0 \<or> pte_flags (pte_at s e) AND PTE_COW = 0 \<or>
           (\<exists>i < UIOX_PHYS_PAGES. pte_pfn (pte_at s e) = of_nat i \<and> i \<notin> cached s)"
  shows "\<exists>t. pfault va (Some a) s = Some t \<and> sigsegvs t = sigsegvs s + 1 \<and> pgtbl_pool t = pgtbl_pool s \<and>
    pfdata_table t = pfdata_table s \<and> memory t = memory s \<and> recalcs t = recalcs s \<and>
    r_status (region_table t r) AND REG_LOCKED = 0"
proof -
  let ?s = "region_lock (Some a) s"
  define t where "t = region_unlock (Some a) (send_sigsegv ?s)"
  have inv': "paging_inv ?s R C" using inv by simp
  have "(case find_pte (Some a) va s of None \<Rightarrow> Some (send_sigsegv ?s) | Some e \<Rightarrow> pfault_body e (Some a) ?s)
      = Some (send_sigsegv ?s)"
  proof (cases "find_pte (Some a) va s")
    case (Some e)
    show ?thesis
    proof (cases "pte_flags (pte_at s e) AND PTE_VALID = 0 \<or> pte_flags (pte_at s e) AND PTE_COW = 0")
      case True
      with Some show ?thesis by (auto simp: pfault_body_def)
    next
      case False
      with no Some obtain i where i: "i < UIOX_PHYS_PAGES" "pte_pfn (pte_at s e) = of_nat i" "i \<notin> cached s" by auto
      from find_in_cache_spec [OF inv' i(1)] i(3) have "find_in_cache (of_nat i) ?s = Some None" by simp
      with False i(2) Some show ?thesis by (simp add: pfault_body_def)
    qed
  qed simp
  then have run: "pfault va (Some a) s = Some t" using pfault_run [OF a, of va] by (simp add: t_def)
  have "pr_region (preg (send_sigsegv ?s) a) = Some r" using a by simp
  from region_unlock_clears [OF this] run show ?thesis by (simp add: t_def)
qed

text \<open>Every other protection fault (an address outside the mapping, an entry that is not valid or
  not copy-on-write, a frame that is not in the page cache) signals the process once and leaves
  entries, frames and memory as they were, with the region unlocked.\<close>

theorem pfault_denied:
  assumes inv: "paging_inv s R C" and a: "pr_region (preg s a) = Some r"
    and no: "case find_pte (Some a) va s of None \<Rightarrow> True
       | Some e \<Rightarrow> pte_flags (pte_at s e) AND PTE_VALID = 0 \<or> pte_flags (pte_at s e) AND PTE_COW = 0 \<or>
           (\<exists>i < UIOX_PHYS_PAGES. pte_pfn (pte_at s e) = of_nat i \<and> i \<notin> cached s)"
  shows "\<exists>t. pfault va (Some a) s = Some t \<and> sigsegvs t = sigsegvs s + 1 \<and> pgtbl_pool t = pgtbl_pool s \<and>
    pfdata_table t = pfdata_table s \<and> memory t = memory s \<and> recalcs t = recalcs s \<and>
    r_status (region_table t r) AND REG_LOCKED = 0"
  using assms by (rule pfault_signals)

text \<open>C1: after fork the child dies on its first write.  \<open>dupreg\<close> marks the child's writable entries
  with the bit \<open>0x010\<close> while the fault handler tests \<open>0x020\<close>: wherever the child attaches the
  duplicate, a fault on one of its pages, unless the parent's own entry had the handler's bit
  already, is answered with a signal and leaves the entry as read-only as \<open>dupreg\<close> made it.\<close>

theorem fork_child_write_faults:
  assumes ok: "regions_ok s" and act: "active s r" and np: "r_npages (region_table s r) \<noteq> 0"
    and k: "r_pgtbl (region_table s r) = Some k" and dup: "dupreg (Some r) s = Some (Some n, t)"
    and att: "attachreg (Some n) (Some p) va ty t = (Some a, u)" and u0: "cur_u t < NUAREA"
    and inv: "paging_inv u R C" and e: "find_pte (Some a) addr u = Some (c, j)"
    and par: "pte_flags (pgtbl_pool s k j) AND PTE_COW = 0"
  shows "\<exists>v. pfault addr (Some a) u = Some v \<and> sigsegvs v = sigsegvs u + 1 \<and> pgtbl_pool v = pgtbl_pool u \<and>
    pte_flags (pgtbl_pool v c j) AND PTE_WRITE = 0"
proof -
  from dup_child [OF ok act dup np] obtain k' d where d': "r_pgtbl (region_table s r) = Some k'"
    "r_pgtbl (region_table t n) = Some d" "r_npages (region_table t n) = r_npages (region_table s r)"
    "\<forall>j < unat (r_npages (region_table s r)). pgtbl_pool t d j = cow_entry (pgtbl_pool s k' j)" .
  with k have d: "r_pgtbl (region_table t n) = Some d" "r_npages (region_table t n) = r_npages (region_table s r)"
    "\<And>j. j < unat (r_npages (region_table s r)) \<Longrightarrow> pgtbl_pool t d j = cow_entry (pgtbl_pool s k j)" by auto
  have pool: "pgtbl_pool u = pgtbl_pool t" and pgt: "\<And>q. r_pgtbl (region_table u q) = r_pgtbl (region_table t q)"
    and npu: "\<And>q. r_npages (region_table u q) = r_npages (region_table t q)"
    and reg: "pr_region (preg u a) = Some n"
    using att by (auto simp: attachreg_def Let_def split: option.splits)
  have cj: "c = d" "j < unat (r_npages (region_table s r))"
    using e d reg pgt npu
    by (auto simp: find_pte_def Let_def word_le_nat_alt not_le split: option.splits if_splits)
  have bits: "((f AND NOT PSA_PTE_WRITE) OR PSA_PTE_COW) AND PTE_WRITE = 0"
    "((f AND NOT PSA_PTE_WRITE) OR PSA_PTE_COW) AND PTE_COW = f AND PTE_COW" for f :: u16
    by (simp_all add: PSA_PTE_WRITE_def PSA_PTE_COW_def PTE_WRITE_def PTE_COW_def word_ao_dist word_bw_assocs)
  have "pte_flags (pgtbl_pool t d j) AND PTE_WRITE = 0" "pte_flags (pgtbl_pool t d j) AND PTE_COW = 0"
    using bits par unfolding d(3) [OF cj(2)]
    by (auto simp: cow_entry_def PTE_WRITE_def PSA_PTE_WRITE_def)
  then show ?thesis
    using pfault_signals [OF inv reg, of addr] e cj(1) by (auto simp: pool)
qed

section \<open>Concrete states\<close>

text \<open>One process with a page at 0x400000 in frame 5, shared copy-on-write; frame 7 is free.\<close>

definition cow_demo :: paging where
  "cow_demo = paging_boot\<lparr>
     region_table := (\<lambda>r. zero_region\<lparr>r_refcnt := 1, r_pgtbl := Some 0, r_npages := 1, r_size := 4096\<rparr>),
     u_pregs := (\<lambda>v i. \<lparr>pr_region = Some 0, pr_proc = Some 3, pr_type = 2, pr_vaddr = 0x400000,
        pr_size = 4096, pr_valid = True\<rparr>),
     pgtbl_pool := (\<lambda>k j. \<lparr>pte_pfn = 5, pte_flags = 0x25\<rparr>),
     pfdata_table := (pfdata_table paging_boot)(7 := (pfdata_table paging_boot 7)\<lparr>pfd_kva := 0x40007000\<rparr>, 5 := \<lparr>pfd_valid = True, pfd_refcnt = 2, pfd_pfn = 5,
        pfd_pte = None, pfd_on_hash = True, pfd_hash_next = None, pfd_content_valid = True, pfd_kva = 0x40005000\<rparr>),
     pc_hash := (pc_hash paging_boot)(5 := Some 5), pc_total := 1,
     fpl_pages := (\<lambda>i. 7), fpl_count := 1, fpl_head := 0, fpl_tail := 1\<rparr>"

lemma boot_frames [simp]:
  "\<not> pfd_valid (pfd paging_boot i)" "\<not> pfd_on_hash (pfd paging_boot i)" "pc_hash paging_boot k = None"
  "pc_total paging_boot = 0" "fpl_count paging_boot = 0" "fpl_head paging_boot = 0" "fpl_tail paging_boot = 0"
  by (simp_all add: paging_boot_def regions.extend_def)

lemma cow_demo_inv:
  shows "paging_inv cow_demo [7] (\<lambda>k. if k = 5 then [5] else [])" and "5 \<in> cached cow_demo"
proof -
  have ca: "cached cow_demo = {5}" by (auto simp: cached_def cow_demo_def UIOX_PHYS_PAGES_def)
  then show "5 \<in> cached cow_demo" by simp
  have "buckets_inv cow_demo (\<lambda>k. if k = 5 then [5] else [])"
    unfolding buckets_inv_def ca by (auto simp: cow_demo_def next_frame_def UIOX_PAGE_HASH_SZ_def)
  moreover have "ring_inv cow_demo [7]"
    by (simp add: ring_inv_def cow_demo_def UIOX_PHYS_PAGES_def)
  moreover have "frames_inv cow_demo (set [7])"
    unfolding frames_inv_def ca by (auto simp: cow_demo_def)
  ultimately show "paging_inv cow_demo [7] (\<lambda>k. if k = 5 then [5] else [])" by (simp add: paging_inv_def)
qed

lemma cow_demo_pte:
  shows "find_pte (Some (0, 0)) 0x400010 cow_demo = Some (0, 0)"
    and "find_pte (Some (0, 0)) 0x500000 cow_demo = None"
    and "pr_region (preg cow_demo (0, 0)) = Some 0"
    and "pte_at cow_demo (0, 0) = \<lparr>pte_pfn = 5, pte_flags = 0x25\<rparr>" and "pfd_refcnt (pfd cow_demo 5) = 2"
  by (simp_all add: find_pte_def cow_demo_def zero_region_def Let_def UIOX_PAGE_SHIFT_def drop_bit_eq_div)

lemma frame_ring_fifo_witness: "\<exists>t. alloc_physical_page cow_demo = (Some 7, t) \<and> pfd_refcnt (pfd t 7) = 1"
  using frame_ring_fifo [OF cow_demo_inv(1)] by auto

text \<open>Frame 7 has its memory at 0x40007000, as if main memory started at 0x40000000.\<close>

lemma pfault_copies_by_number_witness:
  "\<exists>t. pfault 0x400010 (Some (0, 0)) cow_demo = Some t \<and> pte_at t (0, 0) = \<lparr>pte_pfn = 7, pte_flags = 0xF\<rparr> \<and>
     memory t (pfd_kva (pfd t 7) + 16) = memory cow_demo (0x40007000 + 16) \<and> sigsegvs t = sigsegvs cow_demo"
proof -
  have k: "pfd_kva (pfd cow_demo 7) = 0x40007000" by (simp add: cow_demo_def)
  have kva: "pfd_kva (pfd cow_demo 7) AND UIOX_PAGE_MASK = pfd_kva (pfd cow_demo 7)"
    "pfd_kva (pfd cow_demo 7) \<noteq> frame_address (of_nat 7)"
    unfolding k by (simp_all add: page_aligned frame_address_def UIOX_PAGE_SHIFT_def)
  have "pte_flags (pte_at cow_demo (0, 0)) AND PTE_VALID \<noteq> 0" "pte_flags (pte_at cow_demo (0, 0)) AND PTE_COW \<noteq> 0"
    "pte_pfn (pte_at cow_demo (0, 0)) = of_nat 5" "1 < pfd_refcnt (pfd cow_demo 5)"
    unfolding cow_demo_pte by (simp_all add: PTE_VALID_def PTE_COW_def)
  from pfault_copies_by_number [OF cow_demo_inv(1) cow_demo_pte(3,1) this(1-3) cow_demo_inv(2) this(4) kva]
  obtain t where t: "pfault 0x400010 (Some (0, 0)) cow_demo = Some t" "pte_at t (0, 0) = \<lparr>pte_pfn = of_nat 7,
      pte_flags = ((pte_flags (pte_at cow_demo (0, 0)) OR PTE_WRITE) OR PTE_DIRTY) AND NOT PTE_COW\<rparr>"
    "\<forall>b < UIOX_PAGE_SIZE. memory t (pfd_kva (pfd t 7) + b) = memory cow_demo (pfd_kva (pfd cow_demo 7) + b)"
    "sigsegvs t = sigsegvs cow_demo" by blast
  have "(((0x25 :: u16) OR PTE_WRITE) OR PTE_DIRTY) AND NOT PTE_COW = 0xF"
    by (simp add: PTE_WRITE_def PTE_DIRTY_def PTE_COW_def)
  moreover have "(16 :: u64) < UIOX_PAGE_SIZE" by (simp add: UIOX_PAGE_SIZE_def UIOX_PAGE_SHIFT_def)
  ultimately show ?thesis using t k unfolding cow_demo_pte by auto
qed

lemma pfault_denied_witness:
  "\<exists>t. pfault 0x500000 (Some (0, 0)) cow_demo = Some t \<and> sigsegvs t = sigsegvs cow_demo + 1 \<and> memory t = memory cow_demo"
  using pfault_denied [OF cow_demo_inv(1) cow_demo_pte(3), of "0x500000"] cow_demo_pte(2) by auto

text \<open>The one-region state of \<open>Region\<close> with an idle paging system around it.\<close>

definition fork_demo :: paging where
  "fork_demo = regions.extend reg_demo (regions.more paging_boot)"

lemma more_frames:
  assumes "regions.more t = regions.more (s :: paging)"
  shows "pfdata_table t = pfdata_table s" "pc_hash t = pc_hash s" "pc_total t = pc_total s"
    "fpl_pages t = fpl_pages s" "fpl_count t = fpl_count s" "fpl_head t = fpl_head s" "fpl_tail t = fpl_tail s"
  using assms by (cases t; cases s; simp)+

lemma boot_inv:
  assumes "regions.more t = regions.more paging_boot"
  shows "paging_inv t [] (\<lambda>k. [])"
proof -
  have "paging_inv paging_boot [] (\<lambda>k. [])"
    by (simp add: paging_inv_def ring_inv_def buckets_inv_def frames_inv_def cached_def UIOX_PHYS_PAGES_def)
  then show ?thesis using paging_inv_cong(1) [OF more_frames [OF assms]] by simp
qed

lemma fork_child_write_faults_witness:
  "\<exists>n t a u v. dupreg (Some 0) fork_demo = Some (Some n, t) \<and>
     attachreg (Some n) (Some 1) 0x400000 2 t = (Some a, u) \<and>
     pfault 0x400000 (Some a) u = Some v \<and> sigsegvs v = sigsegvs u + 1"
proof -
  have "regions_ok reg_demo"
    by (rule region_steps_ok [OF reg_demo_sel(1)], rule region_init_ok) (simp_all add: reg_boot_def NUAREA_def)
  then have ok: "regions_ok fork_demo" and act: "active fork_demo 0" and np: "r_npages (region_table fork_demo 0) \<noteq> 0"
    and k: "r_pgtbl (region_table fork_demo 0) = Some 0" and fr: "free_region_list fork_demo \<noteq> None"
    using reg_demo_sel by (simp_all add: fork_demo_def)
  from dup_some [OF ok act fr] obtain n t where dup: "dupreg (Some 0) fork_demo = Some (Some n, t)" by blast
  from dup_child [OF ok act dup np] obtain c where c: "r_pgtbl (region_table t n) = Some c"
    "r_npages (region_table t n) = r_npages (region_table fork_demo 0)"
    "r_size (region_table t n) = r_size (region_table fork_demo 0)" "cur_u t = cur_u fork_demo"
    "u_pregs t = u_pregs fork_demo" .
  have free: "\<not> pr_valid (u_pregs t 0 1)" and cu: "cur_u t = 0"
    using c(4,5) reg_demo_sel(10,11) by (simp_all add: fork_demo_def)
  from first_idx_ex [of 1 MAX_REG_PER_PROC "\<lambda>i. \<not> pr_valid (u_pregs t 0 i)"] free obtain i where
    i: "first_idx (\<lambda>i. \<not> pr_valid (u_pregs t 0 i)) MAX_REG_PER_PROC = Some i"
    by (auto simp: MAX_REG_PER_PROC_def)
  define u where "u = snd (attachreg (Some n) (Some 1) 0x400000 2 t)"
  have att: "attachreg (Some n) (Some 1) 0x400000 2 t = (Some (0, i), u)"
    using i cu by (simp add: u_def attachreg_def Let_def)
  have reg: "region_table u n = (region_table t n)\<lparr>r_refcnt := r_refcnt (region_table t n) + 1\<rparr>"
    "pr_region (u_pregs u 0 i) = Some n" "pr_vaddr (u_pregs u 0 i) = 0x400000"
    using i cu by (simp_all add: u_def attachreg_def Let_def)
  have e: "find_pte (Some (0, i)) 0x400000 u = Some (c, 0)"
    using c(1-3) reg reg_demo_sel(3,9) by (simp add: find_pte_def Let_def fork_demo_def)
  have inv: "paging_inv u [] (\<lambda>k. [])"
    by (rule boot_inv) (simp add: attachreg_more [OF att] dupreg_more [OF dup] fork_demo_def regions.extend_def)
  have cu': "cur_u t < NUAREA" by (simp add: cu NUAREA_def)
  have par: "pte_flags (pgtbl_pool fork_demo 0 0) AND PTE_COW = 0"
    using reg_demo_sel(12) by (simp add: fork_demo_def)
  from fork_child_write_faults [OF ok act np k dup att cu' inv e par] dup att show ?thesis by blast
qed

end
