(* ===== verification/ResMap.thy ===== *)
theory ResMap
  imports Prelude
begin

text \<open>
  The swap device's resource map (\<open>33_PCS/02_MemMngnt/src/uiox_kix_swapper.c\<close>, map_malloc,
  map_free and map_init): an array of extents of free units, first fit on allocation, merged with
  its neighbours on release.  The map argument is never NULL here (the callers pass the address of
  a global).  The theory ends with the interface \<open>run_store\<close> the swapper relies on.
\<close>

definition MAP_MAX_ENTRIES :: nat where "MAP_MAX_ENTRIES = 512"

record map_entry =
  me_addr :: u32
  me_size :: u32
  me_valid :: bool

record res_map =
  rm_entries :: "nat \<Rightarrow> map_entry"
  rm_nentries :: nat
  rm_name :: string

definition upd_entry :: "nat \<Rightarrow> (map_entry \<Rightarrow> map_entry) \<Rightarrow> res_map \<Rightarrow> res_map" where
  "upd_entry i f m = m\<lparr>rm_entries := (rm_entries m)(i := f (rm_entries m i))\<rparr>"

lemma upd_entry_sel [simp]:
  "rm_entries (upd_entry i f m) = (rm_entries m)(i := f (rm_entries m i))"
  "rm_nentries (upd_entry i f m) = rm_nentries m"
  "rm_name (upd_entry i f m) = rm_name m"
  by (simp_all add: upd_entry_def)

definition map_malloc :: "u32 \<Rightarrow> res_map \<Rightarrow> u32 \<times> res_map" where
  "map_malloc units m =
     (if units = 0 then (0, m)
      else (case first_idx (\<lambda>i. me_valid (rm_entries m i) \<and> units \<le> me_size (rm_entries m i))
                   (rm_nentries m) of
              None \<Rightarrow> (0, m)
            | Some i \<Rightarrow>
                (me_addr (rm_entries m i),
                 if me_size (rm_entries m i) = units
                 then upd_entry i (\<lambda>e. e\<lparr>me_valid := False, me_size := 0, me_addr := 0\<rparr>) m
                 else upd_entry i (\<lambda>e. e\<lparr>me_addr := me_addr e + units, me_size := me_size e - units\<rparr>) m)))"

text \<open>The bodies of the two merge loops, on \<open>slot\<close>, \<open>addr\<close>, \<open>units\<close> and the map.\<close>

definition merge_left :: "nat \<Rightarrow> nat \<times> u32 \<times> u32 \<times> res_map \<Rightarrow> nat \<times> u32 \<times> u32 \<times> res_map" where
  "merge_left i = (\<lambda>(slot, addr, units, m).
     let e = rm_entries m i in
     if \<not> me_valid e \<or> i = slot then (slot, addr, units, m)
     else if me_addr e + me_size e = addr then
       (let m = upd_entry i (\<lambda>e. e\<lparr>me_size := me_size e + units\<rparr>) m;
            m = upd_entry slot (\<lambda>e. e\<lparr>me_valid := False\<rparr>) m
        in (i, me_addr (rm_entries m i), me_size (rm_entries m i), m))
     else (slot, addr, units, m))"

definition merge_right :: "nat \<Rightarrow> nat \<times> u32 \<times> u32 \<times> res_map \<Rightarrow> nat \<times> u32 \<times> u32 \<times> res_map" where
  "merge_right i = (\<lambda>(slot, addr, units, m).
     let e = rm_entries m i in
     if \<not> me_valid e \<or> i = slot then (slot, addr, units, m)
     else if addr + units = me_addr e then
       (let m = upd_entry slot (\<lambda>f. f\<lparr>me_size := me_size f + me_size e\<rparr>) m;
            m = upd_entry i (\<lambda>e. e\<lparr>me_valid := False\<rparr>) m
        in (slot, addr, me_size (rm_entries m slot), m))
     else (slot, addr, units, m))"

definition map_slot :: "res_map \<Rightarrow> nat option \<times> res_map" where
  "map_slot m =
     (case first_idx (\<lambda>i. \<not> me_valid (rm_entries m i)) (rm_nentries m) of
        Some i \<Rightarrow> (Some i, m)
      | None \<Rightarrow>
          if rm_nentries m < MAP_MAX_ENTRIES
          then (Some (rm_nentries m), m\<lparr>rm_nentries := rm_nentries m + 1\<rparr>)
          else (None, m))"

definition map_free :: "u32 \<Rightarrow> u32 \<Rightarrow> res_map \<Rightarrow> res_map" where
  "map_free addr units m =
     (if units = 0 then m
      else (case map_slot m of
              (None, m) \<Rightarrow> m
            | (Some slot, m) \<Rightarrow>
                (let m = upd_entry slot (\<lambda>e. e\<lparr>me_valid := True, me_addr := addr, me_size := units\<rparr>) m;
                     (slot, addr, units, m) = fold merge_left [0..<rm_nentries m] (slot, addr, units, m);
                     (slot, addr, units, m) = fold merge_right [0..<rm_nentries m] (slot, addr, units, m)
                 in m)))"

definition map_init :: "string \<Rightarrow> u32 \<Rightarrow> u32 \<Rightarrow> res_map \<Rightarrow> res_map" where
  "map_init name start nunits m =
     (let m = m\<lparr>rm_entries := (\<lambda>i. if i < MAP_MAX_ENTRIES
                  then \<lparr>me_addr = 0, me_size = 0, me_valid = False\<rparr> else rm_entries m i)\<rparr>;
          m = m\<lparr>rm_name := name\<rparr>;
          m = upd_entry 0 (\<lambda>e. e\<lparr>me_valid := True, me_addr := start, me_size := nunits\<rparr>) m
      in m\<lparr>rm_nentries := 1\<rparr>)"

section \<open>The set of free units\<close>

definition run :: "u32 \<Rightarrow> u32 \<Rightarrow> nat set" where
  "run a n = {unat a ..< unat a + unat n}"

definition live :: "res_map \<Rightarrow> nat \<Rightarrow> bool" where
  "live m i \<longleftrightarrow> i < rm_nentries m \<and> me_valid (rm_entries m i)"

abbreviation lo :: "res_map \<Rightarrow> nat \<Rightarrow> nat" where "lo m i \<equiv> unat (me_addr (rm_entries m i))"
abbreviation hi :: "res_map \<Rightarrow> nat \<Rightarrow> nat" where "hi m i \<equiv> lo m i + unat (me_size (rm_entries m i))"

definition free_units :: "res_map \<Rightarrow> nat set" where
  "free_units m = (\<Union>i\<in>Collect (live m). {lo m i ..< hi m i})"

text \<open>An extent is not empty, does not start at unit 0 and does not wrap around.\<close>

definition ext_ok :: "res_map \<Rightarrow> nat \<Rightarrow> bool" where
  "ext_ok m i \<longleftrightarrow> 0 < lo m i \<and> lo m i < hi m i \<and> hi m i < 2 ^ 32"

text \<open>Two extents with a gap between them, and two that at most touch.\<close>

definition apart :: "res_map \<Rightarrow> nat \<Rightarrow> nat \<Rightarrow> bool" where
  "apart m i j \<longleftrightarrow> hi m i < lo m j \<or> hi m j < lo m i"

definition beside :: "res_map \<Rightarrow> nat \<Rightarrow> nat \<Rightarrow> bool" where
  "beside m i j \<longleftrightarrow> hi m i \<le> lo m j \<or> hi m j \<le> lo m i"

definition map_ok :: "res_map \<Rightarrow> bool" where
  "map_ok m \<longleftrightarrow> rm_nentries m \<le> MAP_MAX_ENTRIES \<and> (\<forall>i. live m i \<longrightarrow> ext_ok m i) \<and>
     (\<forall>i j. live m i \<longrightarrow> live m j \<longrightarrow> i \<noteq> j \<longrightarrow> apart m i j)"

definition map_room :: "res_map \<Rightarrow> bool" where
  "map_room m \<longleftrightarrow> rm_nentries m < MAP_MAX_ENTRIES \<or> (\<exists>i<rm_nentries m. \<not> me_valid (rm_entries m i))"

lemma map_okD:
  assumes "map_ok m"
  shows "rm_nentries m \<le> MAP_MAX_ENTRIES" and "live m i \<Longrightarrow> ext_ok m i"
    and "live m i \<Longrightarrow> live m j \<Longrightarrow> i \<noteq> j \<Longrightarrow> apart m i j"
  using assms by (auto simp: map_ok_def)

lemma word_end: "unat a + unat n < 2 ^ 32 \<Longrightarrow> unat (a + n) = unat a + unat n" for a n :: u32
  by (simp add: unat_word_ariths)

lemma word_end_iff:
  "unat a + unat n < 2 ^ 32 \<Longrightarrow> a + n = b \<longleftrightarrow> unat a + unat n = unat b" for a n b :: u32
  by (metis word_end word_unat_eq_iff)

lemma in_free_units: "x \<in> free_units m \<longleftrightarrow> (\<exists>i. live m i \<and> lo m i \<le> x \<and> x < hi m i)"
  by (auto simp: free_units_def)

text \<open>A run of consecutive free units lies in one extent.\<close>

lemma free_run_extent:
  assumes ok: "map_ok m" and run: "{a ..< a + n} \<subseteq> free_units m" and "0 < n"
  shows "\<exists>i. live m i \<and> lo m i \<le> a \<and> a + n \<le> hi m i"
proof -
  from run \<open>0 < n\<close> have "a \<in> free_units m" by auto
  then obtain i where i: "live m i" "lo m i \<le> a" "a < hi m i" by (auto simp: in_free_units)
  have "a + n \<le> hi m i"
  proof (rule ccontr)
    assume "\<not> a + n \<le> hi m i"
    then have "hi m i \<in> free_units m" using run i by auto
    then obtain j where j: "live m j" "lo m j \<le> hi m i" "hi m i < hi m j" by (auto simp: in_free_units)
    then have "j \<noteq> i" by auto
    from map_okD(3) [OF ok i(1) j(1)] this have "apart m i j" by auto
    with j map_okD(2) [OF ok i(1)] map_okD(2) [OF ok j(1)] i(2,3) show False
      by (auto simp: apart_def ext_ok_def)
  qed
  with i show ?thesis by blast
qed

section \<open>Allocation\<close>

lemma apart_sym: "apart m i j = apart m j i"
  by (auto simp: apart_def)

lemma live_upd: "live (upd_entry i f m) j =
    (if j = i then i < rm_nentries m \<and> me_valid (f (rm_entries m i)) else live m j)"
  by (auto simp: live_def)

text \<open>What \<open>map_malloc\<close> leaves of the extent it takes from.\<close>

lemma map_malloc_take:
  assumes ok: "map_ok m" and i: "live m i" and u: "units \<noteq> 0" "units \<le> me_size (rm_entries m i)"
  defines "m' \<equiv> (if me_size (rm_entries m i) = units
      then upd_entry i (\<lambda>e. e\<lparr>me_valid := False, me_size := 0, me_addr := 0\<rparr>) m
      else upd_entry i (\<lambda>e. e\<lparr>me_addr := me_addr e + units, me_size := me_size e - units\<rparr>) m)"
  shows "map_ok m' \<and> free_units m' = free_units m - run (me_addr (rm_entries m i)) units \<and>
    run (me_addr (rm_entries m i)) units \<subseteq> free_units m \<and> rm_nentries m' = rm_nentries m"
proof -
  note E = map_okD(2) [OF ok i]
  have ule: "unat units \<le> unat (me_size (rm_entries m i))" "0 < unat units"
    using u by (simp_all add: word_le_nat_alt unat_gt_0)
  have oth: "x \<notin> {lo m i ..< hi m i}" if "live m j" "j \<noteq> i" "lo m j \<le> x" "x < hi m j" for j x
    using map_okD(3) [OF ok that(1) i that(2)] that E map_okD(2) [OF ok that(1)]
    by (auto simp: apart_def ext_ok_def)
  have sub: "run (me_addr (rm_entries m i)) units \<subseteq> free_units m"
    using i ule by (auto simp: run_def in_free_units intro!: exI [of _ i])
  show ?thesis
  proof (cases "me_size (rm_entries m i) = units")
    case True
    have lv: "live m' j \<longleftrightarrow> live m j \<and> j \<noteq> i" for j by (auto simp: m'_def True live_def)
    have same: "rm_entries m' j = rm_entries m j" if "j \<noteq> i" for j using that by (simp add: m'_def True)
    have "free_units m' = free_units m - run (me_addr (rm_entries m i)) units"
    proof (intro set_eqI iffI)
      fix x assume "x \<in> free_units m'"
      then obtain j where j: "live m j" "j \<noteq> i" "lo m j \<le> x" "x < hi m j"
        by (auto simp: in_free_units lv same)
      with oth [OF j] show "x \<in> free_units m - run (me_addr (rm_entries m i)) units"
        by (auto simp: in_free_units run_def True)
    next
      fix x assume "x \<in> free_units m - run (me_addr (rm_entries m i)) units"
      then obtain j where j: "live m j" "lo m j \<le> x" "x < hi m j" "j \<noteq> i"
        by (auto simp: in_free_units run_def True [symmetric])
      then show "x \<in> free_units m'" by (auto simp: in_free_units lv same)
    qed
    moreover have "map_ok m'"
      using ok by (auto simp: map_ok_def lv same ext_ok_def apart_def) (auto simp: m'_def True)
    ultimately show ?thesis using sub by (simp add: m'_def True)
  next
    case False
    have lv: "live m' j \<longleftrightarrow> live m j" for j by (auto simp: m'_def False live_def)
    have same: "rm_entries m' j = rm_entries m j" if "j \<noteq> i" for j using that by (simp add: m'_def False)
    have less: "unat units < unat (me_size (rm_entries m i))"
      using ule(1) False by (metis le_neq_implies_less word_unat_eq_iff)
    have new: "lo m' i = lo m i + unat units" "hi m' i = hi m i"
      using E less by (simp_all add: m'_def False ext_ok_def word_end unat_sub word_le_nat_alt)
    have "free_units m' = free_units m - run (me_addr (rm_entries m i)) units"
    proof (intro set_eqI iffI)
      fix x assume "x \<in> free_units m'"
      then obtain j where j: "live m j" "lo m' j \<le> x" "x < hi m' j" by (auto simp: in_free_units lv)
      show "x \<in> free_units m - run (me_addr (rm_entries m i)) units"
      proof (cases "j = i")
        case True
        with j new i show ?thesis by (auto simp: in_free_units run_def)
      next
        case False
        with j oth [OF j(1) False, of x] less show ?thesis
          by (auto simp: in_free_units run_def same)
      qed
    next
      fix x assume x: "x \<in> free_units m - run (me_addr (rm_entries m i)) units"
      then obtain j where j: "live m j" "lo m j \<le> x" "x < hi m j" by (auto simp: in_free_units)
      have "lo m' j \<le> x \<and> x < hi m' j"
      proof (cases "j = i")
        case True
        with j new x show ?thesis by (auto simp: run_def)
      qed (use j same in simp)
      with j(1) show "x \<in> free_units m'" using lv by (auto simp: in_free_units)
    qed
    moreover have "map_ok m'"
    proof -
      have "ext_ok m' j" if "live m j" for j
        using map_okD(2) [OF ok that] new less same by (cases "j = i") (auto simp: ext_ok_def)
      moreover have "apart m' j k" if "live m j" "live m k" "j \<noteq> k" for j k
        using map_okD(3) [OF ok that] new same E less
        by (cases "j = i"; cases "k = i") (auto simp: apart_def ext_ok_def)
      ultimately show ?thesis
        using map_okD(1) [OF ok] unfolding map_ok_def lv by (simp add: m'_def False)
    qed
    ultimately show ?thesis using sub by (simp add: m'_def False)
  qed
qed

lemma map_malloc_None:
  assumes "map_malloc units m = (a, m')" and "units \<noteq> 0"
    and "\<And>i. live m i \<Longrightarrow> \<not> units \<le> me_size (rm_entries m i)"
  shows "a = 0 \<and> m' = m"
proof -
  have "first_idx (\<lambda>i. me_valid (rm_entries m i) \<and> units \<le> me_size (rm_entries m i)) (rm_nentries m) = None"
    using assms(3) by (auto simp: first_idx_None_iff live_def)
  with assms(1,2) show ?thesis by (simp add: map_malloc_def)
qed

lemma map_malloc_spec:
  assumes ok: "map_ok m" and u: "units \<noteq> 0" and m: "map_malloc units m = (a, m')"
  shows "map_ok m' \<and> rm_nentries m' = rm_nentries m \<and>
    (if \<exists>b. {b ..< b + unat units} \<subseteq> free_units m
     then a \<noteq> 0 \<and> unat a + unat units < 2 ^ 32 \<and> run a units \<subseteq> free_units m \<and>
       free_units m' = free_units m - run a units
     else a = 0 \<and> m' = m)"
proof (cases "\<exists>i. live m i \<and> units \<le> me_size (rm_entries m i)")
  case True
  then obtain i where "first_idx (\<lambda>i. me_valid (rm_entries m i) \<and> units \<le> me_size (rm_entries m i))
      (rm_nentries m) = Some i"
    using first_idx_ex by (metis (mono_tags, lifting) live_def)
  note F = this first_idx_SomeD [OF this]
  then have i: "live m i" "units \<le> me_size (rm_entries m i)" by (auto simp: live_def)
  note T = map_malloc_take [OF ok i(1) u i(2)] and E = map_okD(2) [OF ok i(1)]
  have a: "a = me_addr (rm_entries m i)" using m F u by (simp add: map_malloc_def)
  have "{unat a ..< unat a + unat units} \<subseteq> free_units m" using T a by (simp add: run_def)
  moreover have "a \<noteq> 0" "unat a + unat units < 2 ^ 32"
    using E i(2) by (auto simp: a ext_ok_def word_le_nat_alt)
  ultimately show ?thesis using T m F u by (auto simp: map_malloc_def)
next
  case False
  then have "a = 0 \<and> m' = m" using map_malloc_None [OF m u] by blast
  moreover have "\<nexists>b. {b ..< b + unat units} \<subseteq> free_units m"
  proof
    assume "\<exists>b. {b ..< b + unat units} \<subseteq> free_units m"
    then obtain b where b: "{b ..< b + unat units} \<subseteq> free_units m" ..
    have "0 < unat units" using u by (simp add: unat_gt_0)
    from free_run_extent [OF ok b this] obtain i where "live m i" "lo m i \<le> b" "b + unat units \<le> hi m i"
      by blast
    with False show False by (auto simp: word_le_nat_alt)
  qed
  ultimately show ?thesis using ok by simp
qed

section \<open>Release\<close>

lemma fold_upt_inv:
  assumes "P 0 s" and "\<And>i s. i < n \<Longrightarrow> P i s \<Longrightarrow> P (Suc i) (f i s)"
  shows "P n (fold f [0..<n] s)"
  using assms by (induction n) simp_all

text \<open>
  What holds during the merge loops: the extent being placed may touch others, all others are
  apart from each other and at most touch it.
\<close>

definition placing :: "nat \<Rightarrow> nat set \<Rightarrow> nat \<times> u32 \<times> u32 \<times> res_map \<Rightarrow> bool" where
  "placing N U = (\<lambda>(slot, addr, units, m).
     rm_nentries m = N \<and> N \<le> MAP_MAX_ENTRIES \<and> live m slot \<and>
     me_addr (rm_entries m slot) = addr \<and> me_size (rm_entries m slot) = units \<and>
     (\<forall>i. live m i \<longrightarrow> ext_ok m i) \<and>
     (\<forall>i j. live m i \<longrightarrow> live m j \<longrightarrow> i \<noteq> j \<longrightarrow> i \<noteq> slot \<longrightarrow> j \<noteq> slot \<longrightarrow> apart m i j) \<and>
     (\<forall>j. live m j \<longrightarrow> j \<noteq> slot \<longrightarrow> beside m slot j) \<and> free_units m = U)"

definition no_left :: "nat \<Rightarrow> nat \<times> u32 \<times> u32 \<times> res_map \<Rightarrow> bool" where
  "no_left k = (\<lambda>(slot, addr, units, m). \<forall>j<k. live m j \<longrightarrow> j \<noteq> slot \<longrightarrow> hi m j \<noteq> lo m slot)"

definition no_right :: "nat \<Rightarrow> nat \<times> u32 \<times> u32 \<times> res_map \<Rightarrow> bool" where
  "no_right k = (\<lambda>(slot, addr, units, m). \<forall>j<k. live m j \<longrightarrow> j \<noteq> slot \<longrightarrow> lo m j \<noteq> hi m slot)"

lemma no_left_0 [simp]: "no_left 0 s" and no_right_0 [simp]: "no_right 0 s"
  by (simp_all add: no_left_def no_right_def split: prod.split)

text \<open>Two extents that touch become one: \<open>a\<close> keeps its start and takes the units of \<open>b\<close>.\<close>

lemma join_extents:
  fixes m a b
  defines "m' \<equiv> upd_entry b (\<lambda>e. e\<lparr>me_valid := False\<rparr>)
      (upd_entry a (\<lambda>e. e\<lparr>me_size := me_size e + me_size (rm_entries m b)\<rparr>) m)"
  assumes a: "live m a" "ext_ok m a" and b: "live m b" "ext_ok m b" and ab: "a \<noteq> b" "hi m a = lo m b"
  shows "live m' j \<longleftrightarrow> live m j \<and> j \<noteq> b" and "lo m' j = lo m j" and "hi m' a = hi m b"
    and "j \<noteq> a \<Longrightarrow> hi m' j = hi m j" and "free_units m' = free_units m" and "rm_nentries m' = rm_nentries m"
proof -
  have fit: "unat (me_size (rm_entries m a)) + unat (me_size (rm_entries m b)) < 2 ^ 32"
    using a b ab by (simp add: ext_ok_def)
  show live: "live m' j \<longleftrightarrow> live m j \<and> j \<noteq> b" for j by (auto simp: m'_def live_upd live_def)
  show lo: "lo m' j = lo m j" for j by (simp add: m'_def)
  show hia: "hi m' a = hi m b" using ab fit by (simp add: m'_def word_end)
  show hi: "hi m' j = hi m j" if "j \<noteq> a" for j using that by (simp add: m'_def)
  show "rm_nentries m' = rm_nentries m" by (simp add: m'_def)
  show "free_units m' = free_units m"
  proof (intro set_eqI iffI)
    fix x assume "x \<in> free_units m'"
    then obtain j where j: "live m j" "j \<noteq> b" "lo m j \<le> x" "x < hi m' j"
      by (auto simp: in_free_units live lo)
    show "x \<in> free_units m"
    proof (cases "j = a \<and> lo m b \<le> x")
      case True
      with j b(1) hia show ?thesis unfolding in_free_units by metis
    next
      case False
      with j ab hi have "x < hi m j" by (cases "j = a") auto
      with j show ?thesis unfolding in_free_units by metis
    qed
  next
    fix x assume "x \<in> free_units m"
    then obtain j where j: "live m j" "lo m j \<le> x" "x < hi m j" by (auto simp: in_free_units)
    consider "j = b" | "j = a" | "j \<noteq> a" "j \<noteq> b" by blast
    then show "x \<in> free_units m'"
    proof cases
      case 1
      have "lo m' a \<le> x" "x < hi m' a" using j 1 ab hia a(2) by (auto simp: lo ext_ok_def)
      then show ?thesis using a(1) ab(1) live unfolding in_free_units by metis
    next
      case 2
      have "lo m' a \<le> x" "x < hi m' a" using j 2 ab hia b(2) by (auto simp: lo ext_ok_def)
      then show ?thesis using a(1) ab(1) live unfolding in_free_units by metis
    next
      case 3
      then show ?thesis using j live lo hi unfolding in_free_units by metis
    qed
  qed
qed

lemma placingD:
  assumes "placing N U (slot, addr, units, m)"
  shows "live m slot" and "me_addr (rm_entries m slot) = addr" and "me_size (rm_entries m slot) = units"
    and "live m i \<Longrightarrow> ext_ok m i" and "live m i \<Longrightarrow> live m j \<Longrightarrow> i \<noteq> j \<Longrightarrow> i \<noteq> slot \<Longrightarrow> j \<noteq> slot \<Longrightarrow> apart m i j"
    and "live m j \<Longrightarrow> j \<noteq> slot \<Longrightarrow> beside m slot j"
  using assms by (auto simp: placing_def)

lemma placingI:
  assumes "rm_nentries m = N" and "N \<le> MAP_MAX_ENTRIES" and "live m slot" and "free_units m = U"
    and "\<And>i. live m i \<Longrightarrow> ext_ok m i"
    and "\<And>i j. live m i \<Longrightarrow> live m j \<Longrightarrow> i \<noteq> j \<Longrightarrow> i \<noteq> slot \<Longrightarrow> j \<noteq> slot \<Longrightarrow> apart m i j"
    and "\<And>j. live m j \<Longrightarrow> j \<noteq> slot \<Longrightarrow> beside m slot j"
  shows "placing N U (slot, me_addr (rm_entries m slot), me_size (rm_entries m slot), m)"
  using assms unfolding placing_def by blast

lemma merge_left_step:
  assumes i: "i < N" and P: "placing N U s" and L: "no_left i s"
  shows "placing N U (merge_left i s) \<and> no_left (Suc i) (merge_left i s)"
proof -
  obtain slot addr units m where s: "s = (slot, addr, units, m)" by (cases s)
  note P = P [unfolded s] and L = L [unfolded s]
  note D = placingD [OF P]
  have n: "rm_nentries m = N" using P by (simp add: placing_def)
  show ?thesis
  proof (cases "live m i \<and> i \<noteq> slot \<and> hi m i = lo m slot")
    case True
    then have li: "live m i" and ne: "i \<noteq> slot" and touch: "hi m i = lo m slot" by auto
    define m' where "m' = upd_entry slot (\<lambda>e. e\<lparr>me_valid := False\<rparr>)
      (upd_entry i (\<lambda>e. e\<lparr>me_size := me_size e + me_size (rm_entries m slot)\<rparr>) m)"
    note J = join_extents [OF li D(4) [OF li] D(1) D(4) [OF D(1)] ne touch, folded m'_def]
    have "me_addr (rm_entries m i) + me_size (rm_entries m i) = addr"
      using touch D(2) D(4) [OF li] by (simp add: word_end_iff ext_ok_def)
    then have eq: "merge_left i s = (i, me_addr (rm_entries m' i), me_size (rm_entries m' i), m')"
      using li ne D(3) by (simp add: s merge_left_def Let_def live_def m'_def)
    have far: "hi m i < lo m j \<and> hi m slot \<le> lo m j \<or> hi m j < lo m i"
      if "live m j" "j \<noteq> slot" "j \<noteq> i" for j
      using D(5) [OF li that(1)] D(6) [OF that(1,2)] that ne touch D(4) [OF that(1)]
      by (auto simp: apart_def beside_def ext_ok_def)
    have "placing N U (merge_left i s)"
      unfolding eq
    proof (rule placingI)
      show "rm_nentries m' = N" "N \<le> MAP_MAX_ENTRIES" "free_units m' = U" "live m' i"
        using P J(1,5,6) li ne by (simp_all add: placing_def)
    next
      fix j assume "live m' j"
      then have "live m j" "j \<noteq> slot" using J(1) by auto
      then show "ext_ok m' j"
        using D(4) [of j] D(4) [OF D(1)] J(2,3,4) touch D(4) [OF li]
        by (cases "j = i") (auto simp: ext_ok_def)
    next
      fix j k assume "live m' j" "live m' k" "j \<noteq> k" "j \<noteq> i" "k \<noteq> i"
      then show "apart m' j k" using D(5) [of j k] J(1,2,4) by (simp add: apart_def)
    next
      fix j assume "live m' j" "j \<noteq> i"
      then show "beside m' i j" using far [of j] J(1,2,3,4) by (auto simp: beside_def)
    qed
    moreover have "no_left (Suc i) (merge_left i s)"
    proof -
      have "hi m j \<noteq> lo m i" if "live m j" "j \<noteq> slot" "j \<noteq> i" for j
        using far [OF that] D(4) [OF li] D(4) [OF that(1)] by (auto simp: ext_ok_def)
      then show ?thesis using J(1,2,4) unfolding eq no_left_def by simp
    qed
    ultimately show ?thesis ..
  next
    case False
    have "merge_left i s = s"
    proof (cases "live m i \<and> i \<noteq> slot")
      case True
      with False have "hi m i \<noteq> lo m slot" by simp
      then have "me_addr (rm_entries m i) + me_size (rm_entries m i) \<noteq> addr"
        using D(2) D(4) [of i] True by (simp add: word_end_iff ext_ok_def)
      then show ?thesis by (simp add: s merge_left_def Let_def)
    next
      case False
      then show ?thesis using i n by (auto simp: s merge_left_def live_def Let_def)
    qed
    moreover have "no_left (Suc i) s" using L False by (auto simp: s no_left_def less_Suc_eq)
    ultimately show ?thesis using P s by simp
  qed
qed

lemma merge_right_step:
  assumes i: "i < N" and P: "placing N U s" and R: "no_right i s" and L: "no_left N s"
  shows "placing N U (merge_right i s) \<and> no_right (Suc i) (merge_right i s) \<and> no_left N (merge_right i s)"
proof -
  obtain slot addr units m where s: "s = (slot, addr, units, m)" by (cases s)
  note P = P [unfolded s] and R = R [unfolded s] and L = L [unfolded s]
  note D = placingD [OF P]
  have n: "rm_nentries m = N" using P by (simp add: placing_def)
  have fit: "unat addr + unat units < 2 ^ 32" using D(2,3) D(4) [OF D(1)] by (simp add: ext_ok_def)
  show ?thesis
  proof (cases "live m i \<and> i \<noteq> slot \<and> lo m i = hi m slot")
    case True
    then have li: "live m i" and ne: "i \<noteq> slot" "slot \<noteq> i" and touch: "hi m slot = lo m i" by auto
    define m' where "m' = upd_entry i (\<lambda>e. e\<lparr>me_valid := False\<rparr>)
      (upd_entry slot (\<lambda>e. e\<lparr>me_size := me_size e + me_size (rm_entries m i)\<rparr>) m)"
    note J = join_extents [OF D(1) D(4) [OF D(1)] li D(4) [OF li] ne(2) touch, folded m'_def]
    have "addr + units = me_addr (rm_entries m i)"
      using touch D(2,3) fit by (simp add: word_end_iff)
    then have eq: "merge_right i s = (slot, me_addr (rm_entries m' slot), me_size (rm_entries m' slot), m')"
      using li ne D(2) by (simp add: s merge_right_def Let_def live_def m'_def)
    have far: "hi m i < lo m j \<or> hi m j < lo m i \<and> hi m j \<le> lo m slot"
      if "live m j" "j \<noteq> slot" "j \<noteq> i" for j
      using D(5) [OF li that(1)] D(6) [OF that(1,2)] that ne touch D(4) [OF that(1)]
      by (auto simp: apart_def beside_def ext_ok_def)
    have "placing N U (merge_right i s)"
      unfolding eq
    proof (rule placingI)
      show "rm_nentries m' = N" "N \<le> MAP_MAX_ENTRIES" "free_units m' = U" "live m' slot"
        using P J(1,5,6) ne by (simp_all add: placing_def)
    next
      fix j assume "live m' j"
      then have "live m j" using J(1) by auto
      then show "ext_ok m' j"
        using D(4) [of j] D(4) [OF D(1)] J(2,3,4) touch D(4) [OF li]
        by (cases "j = slot") (auto simp: ext_ok_def)
    next
      fix j k assume "live m' j" "live m' k" "j \<noteq> k" "j \<noteq> slot" "k \<noteq> slot"
      then show "apart m' j k" using D(5) [of j k] J(1,2,4) by (simp add: apart_def)
    next
      fix j assume "live m' j" "j \<noteq> slot"
      then show "beside m' slot j" using far [of j] J(1,2,3,4) by (auto simp: beside_def)
    qed
    moreover have "no_right (Suc i) (merge_right i s)"
    proof -
      have "lo m j \<noteq> hi m i" if "live m j" "j \<noteq> slot" "j \<noteq> i" for j
        using far [OF that] D(4) [OF li] D(4) [OF that(1)] by (auto simp: ext_ok_def)
      then show ?thesis using J(1,2,3) unfolding eq no_right_def by simp
    qed
    moreover have "no_left N (merge_right i s)"
      using L J(1,2,4) unfolding eq no_left_def by simp
    ultimately show ?thesis by blast
  next
    case False
    have "merge_right i s = s"
    proof (cases "live m i \<and> i \<noteq> slot")
      case True
      with False have "hi m slot \<noteq> lo m i" by auto
      then have "addr + units \<noteq> me_addr (rm_entries m i)"
        using D(2,3) fit by (auto simp: word_end_iff)
      then show ?thesis by (simp add: s merge_right_def Let_def)
    next
      case False
      then show ?thesis using i n by (auto simp: s merge_right_def live_def Let_def)
    qed
    moreover have "no_right (Suc i) s" using R False by (auto simp: s no_right_def less_Suc_eq)
    ultimately show ?thesis using P L s by simp
  qed
qed

lemma merged_ok:
  assumes P: "placing N U (slot, addr, units, m)" and L: "no_left N (slot, addr, units, m)"
    and R: "no_right N (slot, addr, units, m)"
  shows "map_ok m \<and> free_units m = U \<and> rm_nentries m = N"
proof -
  note D = placingD [OF P]
  have n: "rm_nentries m = N" "N \<le> MAP_MAX_ENTRIES" "free_units m = U" using P by (auto simp: placing_def)
  have slot: "apart m slot j" if "live m j" "j \<noteq> slot" for j
  proof -
    have "j < N" using that(1) n(1) by (simp add: live_def)
    with L R that have "hi m j \<noteq> lo m slot" "lo m j \<noteq> hi m slot" by (auto simp: no_left_def no_right_def)
    with D(6) [OF that] show ?thesis by (auto simp: beside_def apart_def)
  qed
  have "apart m i j" if "live m i" "live m j" "i \<noteq> j" for i j
    using D(5) [OF that] slot [OF that(1)] slot [OF that(2)] that(3) apart_sym by blast
  with D(4) n show ?thesis by (simp add: map_ok_def)
qed

lemma map_slot_spec:
  assumes ok: "map_ok m"
  shows "case map_slot m of
      (None, m') \<Rightarrow> \<not> map_room m \<and> m' = m
    | (Some i, m') \<Rightarrow> map_room m \<and> i < rm_nentries m' \<and> rm_nentries m' \<le> MAP_MAX_ENTRIES \<and>
        \<not> live m i \<and> rm_entries m' = rm_entries m \<and>
        (\<forall>j. live m' j \<and> j \<noteq> i \<longleftrightarrow> live m j) \<and>
        (rm_nentries m' = rm_nentries m \<or> rm_nentries m' = Suc (rm_nentries m) \<and> (\<forall>j<rm_nentries m. live m j))"
proof (cases "first_idx (\<lambda>i. \<not> me_valid (rm_entries m i)) (rm_nentries m)")
  case None
  then have all: "\<forall>i<rm_nentries m. me_valid (rm_entries m i)" by (simp add: first_idx_None_iff)
  show ?thesis using None all by (auto simp: map_slot_def map_room_def live_def less_Suc_eq)
next
  case (Some i)
  then show ?thesis
    using first_idx_SomeD [OF Some] map_okD(1) [OF ok]
    by (auto simp: map_slot_def map_room_def live_def)
qed

lemma map_free_full:
  assumes "map_ok m" and "\<not> map_room m"
  shows "map_free a n m = m"
  using map_slot_spec [OF assms(1)] assms(2) by (auto simp: map_free_def split: prod.splits option.splits)

lemma map_free_spec:
  assumes ok: "map_ok m" and u: "units \<noteq> 0" and a: "addr \<noteq> 0" "unat addr + unat units < 2 ^ 32"
    and new: "run addr units \<inter> free_units m = {}" and room: "map_room m"
  shows "map_ok (map_free addr units m) \<and> free_units (map_free addr units m) = free_units m \<union> run addr units \<and>
    (rm_nentries (map_free addr units m) = rm_nentries m \<or>
     rm_nentries (map_free addr units m) = Suc (rm_nentries m) \<and> (\<forall>j<rm_nentries m. live m j))"
proof -
  from map_slot_spec [OF ok] room obtain slot m1 where ms: "map_slot m = (Some slot, m1)"
    and s1: "slot < rm_nentries m1" "rm_nentries m1 \<le> MAP_MAX_ENTRIES" "\<not> live m slot"
      "rm_entries m1 = rm_entries m" "\<And>j. live m1 j \<and> j \<noteq> slot \<longleftrightarrow> live m j"
      "rm_nentries m1 = rm_nentries m \<or> rm_nentries m1 = Suc (rm_nentries m) \<and> (\<forall>j<rm_nentries m. live m j)"
    by (auto split: prod.splits option.splits)
  define m2 where "m2 = upd_entry slot (\<lambda>e. e\<lparr>me_valid := True, me_addr := addr, me_size := units\<rparr>) m1"
  define N where "N = rm_nentries m1"
  have live: "live m2 j \<longleftrightarrow> j = slot \<or> live m j" for j
    using s1(1) s1(5) [of j] by (auto simp: m2_def live_def)
  have new2: "me_addr (rm_entries m2 slot) = addr" "me_size (rm_entries m2 slot) = units"
    by (simp_all add: m2_def)
  have old: "rm_entries m2 j = rm_entries m j" if "j \<noteq> slot" for j using that s1(4) by (simp add: m2_def)
  have U: "free_units m2 = free_units m \<union> run addr units"
    using s1(3) by (auto simp: in_free_units live run_def new2 old set_eq_iff) (metis old)+
  have pos: "0 < unat addr" "0 < unat units" using a(1) u by (simp_all add: unat_gt_0)
  have P0: "placing N (free_units m \<union> run addr units) (slot, addr, units, m2)"
  proof -
    have "ext_ok m2 j" if "live m2 j" for j
      using that pos a(2) map_okD(2) [OF ok, of j] old [of j]
      by (cases "j = slot") (auto simp: live ext_ok_def new2)
    moreover have "apart m2 i j" if "live m2 i" "live m2 j" "i \<noteq> j" "i \<noteq> slot" "j \<noteq> slot" for i j
      using that map_okD(3) [OF ok, of i j] old by (simp add: live apart_def)
    moreover have "beside m2 slot j" if "live m2 j" "j \<noteq> slot" for j
    proof (rule ccontr)
      assume "\<not> beside m2 slot j"
      then have "max (unat addr) (lo m j) \<in> run addr units \<inter> free_units m"
        using that pos map_okD(2) [OF ok, of j] unfolding in_free_units run_def
        by (auto simp: beside_def new2 old live in_free_units ext_ok_def max_def intro!: exI [of _ j])
      with new show False by blast
    qed
    moreover have "rm_nentries m2 = N" by (simp add: N_def m2_def)
    moreover have "live m2 slot" by (simp add: live)
    ultimately show ?thesis
      using placingI [of m2 N slot "free_units m2"] s1(2) U by (simp add: new2 N_def)
  qed
  let ?l = "fold merge_left [0..<N] (slot, addr, units, m2)"
  have l: "placing N (free_units m \<union> run addr units) ?l \<and> no_left N ?l"
    by (rule fold_upt_inv [of "\<lambda>k s. placing N (free_units m \<union> run addr units) s \<and> no_left k s"])
      (use P0 merge_left_step in auto)
  obtain sl al ul ml where le: "?l = (sl, al, ul, ml)" by (cases ?l)
  have nl: "rm_nentries ml = N" using l by (simp add: le placing_def)
  let ?r = "fold merge_right [0..<N] ?l"
  have r: "placing N (free_units m \<union> run addr units) ?r \<and> no_right N ?r \<and> no_left N ?r"
    by (rule fold_upt_inv [of "\<lambda>k s. placing N (free_units m \<union> run addr units) s \<and> no_right k s \<and> no_left N s"])
      (use l merge_right_step in auto)
  obtain sr ar ur mr where re: "?r = (sr, ar, ur, mr)" by (cases ?r)
  have "map_free addr units m = mr"
    using u ms re le nl by (simp add: map_free_def Let_def m2_def [symmetric] N_def [symmetric])
  moreover have "map_ok mr \<and> free_units mr = free_units m \<union> run addr units \<and> rm_nentries mr = N"
    by (rule merged_ok) (use r re in auto)
  ultimately show ?thesis using s1(6) by (simp add: N_def)
qed

lemma map_init_spec:
  assumes "start \<noteq> 0" and "n \<noteq> 0" and "unat start + unat n < 2 ^ 32"
  shows "map_ok (map_init nm start n m) \<and> free_units (map_init nm start n m) = run start n \<and>
    rm_nentries (map_init nm start n m) = 1"
proof -
  let ?m = "map_init nm start n m"
  have live: "live ?m i \<longleftrightarrow> i = 0" for i by (auto simp: live_def map_init_def)
  have e: "rm_entries ?m 0 = \<lparr>me_addr = start, me_size = n, me_valid = True\<rparr>"
    by (simp add: map_init_def MAP_MAX_ENTRIES_def)
  have n1: "rm_nentries ?m = 1" by (simp add: map_init_def)
  have "0 < unat start" "0 < unat n" using assms by (simp_all add: unat_gt_0)
  then have "ext_ok ?m 0" using assms(3) by (simp add: ext_ok_def e)
  then have "map_ok ?m" unfolding map_ok_def live n1 by (simp add: MAP_MAX_ENTRIES_def)
  moreover have "free_units ?m = run start n" unfolding free_units_def live by (simp add: e run_def)
  ultimately show ?thesis using n1 by simp
qed

section \<open>The interface of a store of runs\<close>

text \<open>The units of a resource are the free ones together with what each owner holds.\<close>

definition shared_out :: "nat set \<Rightarrow> nat set \<Rightarrow> (nat \<Rightarrow> nat set) \<Rightarrow> bool" where
  "shared_out U F I \<longleftrightarrow> F \<union> (\<Union>p. I p) = U \<and> (\<forall>p. F \<inter> I p = {}) \<and> (\<forall>p q. p \<noteq> q \<longrightarrow> I p \<inter> I q = {})"

lemma shared_outD:
  assumes "shared_out U F I"
  shows "F \<union> (\<Union>p. I p) = U" and "F \<inter> I p = {}" and "p \<noteq> q \<Longrightarrow> I p \<inter> I q = {}"
  using assms by (auto simp: shared_out_def)

locale run_store =
  fixes claim :: "u32 \<Rightarrow> 'm \<Rightarrow> u32 \<times> 'm" and release :: "u32 \<Rightarrow> u32 \<Rightarrow> 'm \<Rightarrow> 'm"
    and units :: "'m \<Rightarrow> nat set" and ok room :: "'m \<Rightarrow> bool"
  assumes claim_ok: "ok m \<Longrightarrow> n \<noteq> 0 \<Longrightarrow> claim n m = (a, m') \<Longrightarrow> ok m'"
    and claim_run: "ok m \<Longrightarrow> n \<noteq> 0 \<Longrightarrow> claim n m = (a, m') \<Longrightarrow> a \<noteq> 0 \<Longrightarrow>
      run a n \<subseteq> units m \<and> units m' = units m - run a n \<and> unat a + unat n < 2 ^ 32"
    and claim_fail: "ok m \<Longrightarrow> n \<noteq> 0 \<Longrightarrow> claim n m = (0, m') \<Longrightarrow>
      m' = m \<and> (\<nexists>b. {b ..< b + unat n} \<subseteq> units m)"
    and release_ok: "ok m \<Longrightarrow> room m \<Longrightarrow> n \<noteq> 0 \<Longrightarrow> a \<noteq> 0 \<Longrightarrow> unat a + unat n < 2 ^ 32 \<Longrightarrow>
      run a n \<inter> units m = {} \<Longrightarrow> ok (release a n m) \<and> units (release a n m) = units m \<union> run a n"
begin

lemma claim_release:
  assumes "ok m" and "n \<noteq> 0" and "claim n m = (a, m')" and "a \<noteq> 0" and "room m'"
  shows "ok (release a n m') \<and> units (release a n m') = units m"
proof -
  note T = claim_run [OF assms(1-4)] and O = claim_ok [OF assms(1-3)]
  have "run a n \<inter> units m' = {}" using T by auto
  from release_ok [OF O assms(5,2,4) _ this] T show ?thesis by auto
qed

lemma claim_again:
  assumes "ok m" and "n \<noteq> 0" and "claim n m = (a, m')" and "a \<noteq> 0" and "room m'"
  shows "fst (claim n (release a n m')) \<noteq> 0"
proof
  assume z: "fst (claim n (release a n m')) = 0"
  note G = claim_release [OF assms]
  obtain x where "claim n (release a n m') = (0, x)" using z by (metis prod.collapse)
  from claim_fail [OF conjunct1 [OF G] assms(2) this] have "\<nexists>b. {b ..< b + unat n} \<subseteq> units m"
    using G by simp
  with claim_run [OF assms(1-4)] show False by (auto simp: run_def)
qed

lemma claim_shares:
  assumes "ok m" and "n \<noteq> 0" and "claim n m = (a, m')" and "a \<noteq> 0"
    and "shared_out U (units m) I" and "I p = {}"
  shows "shared_out U (units m') (I(p := run a n))"
proof -
  note T = claim_run [OF assms(1-4)]
  then have "units m = units m' \<union> run a n" "units m' \<inter> run a n = {}" by auto
  with assms(5,6) show ?thesis by (auto simp: shared_out_def)
qed

lemma release_shares:
  assumes "ok m" and "room m" and "n \<noteq> 0" and "a \<noteq> 0" and "unat a + unat n < 2 ^ 32"
    and "shared_out U (units m) I" and "I p = run a n"
  shows "ok (release a n m) \<and> shared_out U (units (release a n m)) (I(p := {}))"
proof -
  have "run a n \<inter> units m = {}" using shared_outD(2) [OF assms(6), of p] assms(7) by auto
  note G = release_ok [OF assms(1-5) this]
  have "\<And>q. q \<noteq> p \<Longrightarrow> I q \<inter> run a n = {}" using shared_outD(3) [OF assms(6), of _ p] assms(7) by auto
  with G assms(6,7) show ?thesis unfolding shared_out_def by auto (metis UnI2 UN_I iso_tuple_UNIV_I)+
qed

end

interpretation swap_units: run_store map_malloc map_free free_units map_ok map_room
proof unfold_locales
  fix m m' :: res_map and n a :: u32
  assume "map_ok m" "n \<noteq> 0" "map_malloc n m = (a, m')"
  note S = map_malloc_spec [OF this]
  then show "map_ok m'" by blast
  assume "a \<noteq> 0"
  with S show "run a n \<subseteq> free_units m \<and> free_units m' = free_units m - run a n \<and> unat a + unat n < 2 ^ 32"
    by (auto split: if_splits)
next
  fix m m' :: res_map and n :: u32
  assume "map_ok m" "n \<noteq> 0" "map_malloc n m = (0, m')"
  from map_malloc_spec [OF this] show "m' = m \<and> (\<nexists>b. {b ..< b + unat n} \<subseteq> free_units m)"
    by (auto split: if_splits)
next
  fix m :: res_map and n a :: u32
  assume "map_ok m" "map_room m" "n \<noteq> 0" "a \<noteq> 0" "unat a + unat n < 2 ^ 32" "run a n \<inter> free_units m = {}"
  from map_free_spec [OF this(1,3,4,5,6,2)]
  show "map_ok (map_free a n m) \<and> free_units (map_free a n m) = free_units m \<union> run a n" by blast
qed

section \<open>Properties\<close>

text \<open>\<open>map_malloc\<close> fails, changing nothing, exactly when no run of the requested number of
  consecutive units is free; otherwise it returns the start of a free run in the first extent that
  holds one, that run is the only thing the map loses, and the extents stay apart.\<close>

theorem map_malloc_first_fit:
  assumes "map_ok m" and "units \<noteq> 0" and "map_malloc units m = (a, m')"
  shows "map_ok m' \<and>
    (if \<exists>b. {b ..< b + unat units} \<subseteq> free_units m
     then a \<noteq> 0 \<and> run a units \<subseteq> free_units m \<and> free_units m' = free_units m - run a units \<and>
       (\<exists>i. live m i \<and> a = me_addr (rm_entries m i) \<and> (\<forall>j<i. live m j \<longrightarrow> me_size (rm_entries m j) < units))
     else a = 0 \<and> m' = m)"
proof (cases "a = 0")
  case True
  then show ?thesis
    using swap_units.claim_fail [OF assms(1,2), of m'] swap_units.claim_ok [OF assms] assms(3) by simp
next
  case False
  note R = swap_units.claim_run [OF assms False] and O = swap_units.claim_ok [OF assms]
  have "\<exists>i. live m i \<and> a = me_addr (rm_entries m i) \<and> (\<forall>j<i. live m j \<longrightarrow> me_size (rm_entries m j) < units)"
    using assms(2,3) False
    by (auto simp: map_malloc_def live_def first_idx_Some_iff not_le split: option.splits)
  moreover have "\<exists>b. {b ..< b + unat units} \<subseteq> free_units m" using R by (auto simp: run_def)
  ultimately show ?thesis using R O False by auto
qed

text \<open>Two free extents, the first too short for the request.\<close>

definition map_demo :: res_map where
  "map_demo = \<lparr>rm_entries = (\<lambda>i. if i = 0 then \<lparr>me_addr = 4, me_size = 2, me_valid = True\<rparr>
       else \<lparr>me_addr = 10, me_size = 5, me_valid = True\<rparr>), rm_nentries = 2, rm_name = ''swap''\<rparr>"

lemma live_demo: "live map_demo i \<longleftrightarrow> i = 0 \<or> i = 1"
  by (auto simp: live_def map_demo_def)

lemma map_demo_facts:
  "map_ok map_demo" "map_room map_demo" "free_units map_demo = {4..<6} \<union> {10..<15}"
  "map_malloc 3 map_demo = (10, upd_entry 1 (\<lambda>e. e\<lparr>me_addr := 13, me_size := 2\<rparr>) map_demo)"
proof -
  have set: "Collect (live map_demo) = {0, 1}" by (auto simp: live_demo)
  show "map_ok map_demo"
    by (auto simp: map_ok_def live_demo ext_ok_def apart_def) (auto simp: map_demo_def MAP_MAX_ENTRIES_def)
  show "map_room map_demo" by (simp add: map_room_def map_demo_def MAP_MAX_ENTRIES_def)
  show "free_units map_demo = {4..<6} \<union> {10..<15}"
    unfolding free_units_def set by (simp add: map_demo_def)
  have "first_idx (\<lambda>i. me_valid (rm_entries map_demo i) \<and> 3 \<le> me_size (rm_entries map_demo i))
      (rm_nentries map_demo) = Some 1"
    by (simp add: first_idx_def map_demo_def upt_rec)
  then show "map_malloc 3 map_demo = (10, upd_entry 1 (\<lambda>e. e\<lparr>me_addr := 13, me_size := 2\<rparr>) map_demo)"
    by (simp add: map_malloc_def upd_entry_def) (simp add: map_demo_def)
qed

lemma map_malloc_first_fit_witness:
  "free_units (snd (map_malloc 3 map_demo)) = {4..<6} \<union> {13..<15}"
proof -
  have "{10 ..< 10 + unat (3 :: u32)} \<subseteq> free_units map_demo" by (auto simp: map_demo_facts(3))
  then have ex: "\<exists>b. {b ..< b + unat (3 :: u32)} \<subseteq> free_units map_demo" ..
  have "(3 :: u32) \<noteq> 0" by simp
  note W = map_malloc_first_fit [OF map_demo_facts(1) this map_demo_facts(4), unfolded if_P [OF ex]]
  have "free_units (snd (map_malloc 3 map_demo)) = free_units map_demo - run 10 3"
    unfolding map_demo_facts(4) snd_conv using W by (elim conjE)
  moreover have "run 10 3 = {10..<13}" by (simp add: run_def)
  moreover have "{4..<6} \<union> {10..<15} - {10..<13} = {4..<6} \<union> {13..<15::nat}"
    by (rule set_eqI) (simp only: Un_iff Diff_iff atLeastLessThan_iff, presburger)
  ultimately show ?thesis by (simp only: map_demo_facts(3))
qed

text \<open>C4: a released run is merged with its neighbours: afterwards a request succeeds exactly when the
  units free before together with the released ones contain a long enough run, however they were
  split into extents.\<close>

theorem map_free_merges:
  assumes "map_ok m" and "map_room m" and "units \<noteq> 0" and "addr \<noteq> 0" and "unat addr + unat units < 2 ^ 32"
    and "run addr units \<inter> free_units m = {}" and "k \<noteq> 0"
  shows "fst (map_malloc k (map_free addr units m)) \<noteq> 0 \<longleftrightarrow>
    (\<exists>b. {b ..< b + unat k} \<subseteq> free_units m \<union> run addr units)"
proof -
  note G = swap_units.release_ok [OF assms(1-6)]
  obtain a m' where M: "map_malloc k (map_free addr units m) = (a, m')" by fastforce
  from map_malloc_spec [OF _ assms(7) M] G M show ?thesis by (auto split: if_splits)
qed

text \<open>The four units between the two extents join them: eleven units in a row.\<close>

lemma map_free_merges_witness:
  "fst (map_malloc 11 (map_free 6 4 map_demo)) \<noteq> 0 \<and> fst (map_malloc 12 (map_free 6 4 map_demo)) = 0"
proof -
  have dis: "run 6 4 \<inter> free_units map_demo = {}" by (auto simp: map_demo_facts(3) run_def)
  have U: "free_units map_demo \<union> run 6 4 = {4..<15}" by (auto simp: map_demo_facts(3) run_def)
  note T = map_free_merges [OF map_demo_facts(1,2) _ _ _ dis, unfolded U]
  have "{4 ..< 4 + unat (11 :: u32)} \<subseteq> {4..<15::nat}" by simp
  moreover have "\<not> {b ..< b + unat (12 :: u32)} \<subseteq> {4..<15}" for b :: nat
  proof
    assume sub: "{b ..< b + unat (12 :: u32)} \<subseteq> {4..<15}"
    have "b \<in> {4..<15}" "b + 11 \<in> {4..<15}" by (rule subsetD [OF sub]; simp)+
    then show False by simp
  qed
  ultimately show ?thesis using T [of 11] T [of 12] by auto
qed

end
