(* ===== verification/Swapper.thy ===== *)
theory Swapper
  imports ProcProps PageFault ResMap
begin

text \<open>
  The swapper (\<open>33_PCS/02_MemMngnt/src/uiox_kix_swapper.c\<close>): moving processes between main memory
  and the swap device, the choice of the process to bring in and of the one to evict, and the
  swapper's loop, which has an option result (\<open>None\<close> if it does not return).  The state joins the
  process table, the per-block and per-frame arrays, the resource map and \<open>jiffies\<close>.  The C
  \<open>int\<close> counters are integers, the cast \<open>(int)p_size\<close> is \<open>sint\<close>.
\<close>

definition SWAP_BLOCKS :: nat where "SWAP_BLOCKS = 8192"
definition MIN_RESIDENCE :: int where "MIN_RESIDENCE = 5"
definition P_LOADED :: u32 where "P_LOADED = 0x0001"
definition P_STICKY :: u32 where "P_STICKY = 0x0002"

record swap =
  procs :: psa
  sd_used :: "nat \<Rightarrow> u8"
  sd_free_blocks :: u32
  swap_map :: res_map
  pm_free_pages :: int
  pm_used :: "nat \<Rightarrow> u8"
  swapper_sleep :: int
  jiffies :: u64

abbreviation proc_at :: "swap \<Rightarrow> nat \<Rightarrow> proc" where
  "proc_at s p \<equiv> ptab (procs s) p"

definition upd_swp :: "nat \<Rightarrow> (proc \<Rightarrow> proc) \<Rightarrow> swap \<Rightarrow> swap" where
  "upd_swp p f s = s\<lparr>procs := upd_proc p f (procs s)\<rparr>"

definition swp_state :: "nat \<Rightarrow> pstate \<Rightarrow> swap \<Rightarrow> swap" where
  "swp_state p st s = s\<lparr>procs := set_state p st (procs s)\<rparr>"

definition enough_memory_for :: "nat option \<Rightarrow> swap \<Rightarrow> bool" where
  "enough_memory_for p s =
     (case p of None \<Rightarrow> False | Some i \<Rightarrow> sint (p_size (proc_at s i)) \<le> pm_free_pages s)"

text \<open>The loops over \<open>sd_used\<close>, from \<open>blk\<close> while below \<open>blk + size\<close> and below the device's end.\<close>

definition mark_blocks :: "u8 \<Rightarrow> u32 \<Rightarrow> u32 \<Rightarrow> (nat \<Rightarrow> u8) \<Rightarrow> nat \<Rightarrow> u8" where
  "mark_blocks v blk sz used =
     (\<lambda>b. if unat blk \<le> b \<and> b < unat (blk + sz) \<and> b < SWAP_BLOCKS then v else used b)"

definition swap_out_process :: "nat option \<Rightarrow> swap \<Rightarrow> int \<times> swap" where
  "swap_out_process p s =
     (case p of
        None \<Rightarrow> (- 1, s)
      | Some i \<Rightarrow>
          (let sz = p_size (proc_at s i); (blk, m) = map_malloc sz (swap_map s);
               s = s\<lparr>swap_map := m\<rparr> in
           if blk = 0 then (- 1, s)
           else
             (let s = upd_swp i (\<lambda>x. x\<lparr>p_swap_blk := blk\<rparr>) s;
                  s = s\<lparr>sd_used := mark_blocks 1 blk sz (sd_used s)\<rparr>;
                  s = s\<lparr>sd_free_blocks := sd_free_blocks s - sz\<rparr>;
                  s = s\<lparr>pm_free_pages := pm_free_pages s + sint sz\<rparr>;
                  s = s\<lparr>pm_used := (\<lambda>f. if f < unat sz \<and> f < UIOX_PHYS_PAGES then 0 else pm_used s f)\<rparr>;
                  s = (if p_state (proc_at s i) = READY then swp_state i READY_SWAPPED s
                       else if p_state (proc_at s i) = SLEEP_MEM then swp_state i SLEEP_SWAPPED s
                       else s);
                  s = upd_swp i (\<lambda>x. x\<lparr>p_swap_time := jiffies s\<rparr>) s;
                  s = upd_swp i (\<lambda>x. x\<lparr>p_flag := clrf P_LOADED (p_flag x)\<rparr>) s
              in (0, s))))"

text \<open>The claiming loop of \<open>swap_in_process\<close>: \<open>n\<close> frames, lowest numbers first.\<close>

definition claim_frame :: "int \<Rightarrow> nat \<Rightarrow> int \<times> (nat \<Rightarrow> u8) \<Rightarrow> int \<times> (nat \<Rightarrow> u8)" where
  "claim_frame n i = (\<lambda>(allocated, used).
     if allocated < n \<and> used i = 0 then (allocated + 1, used(i := 1)) else (allocated, used))"

definition claim_frames :: "int \<Rightarrow> (nat \<Rightarrow> u8) \<Rightarrow> nat \<Rightarrow> u8" where
  "claim_frames n used = snd (fold (claim_frame n) [0..<UIOX_PHYS_PAGES] (0, used))"

definition swap_in_process :: "nat option \<Rightarrow> swap \<Rightarrow> int \<times> swap" where
  "swap_in_process p s =
     (case p of
        None \<Rightarrow> (- 1, s)
      | Some i \<Rightarrow>
          if \<not> enough_memory_for p s then (- 1, s)
          else
            (let sz = p_size (proc_at s i); blk = p_swap_blk (proc_at s i);
                 s = s\<lparr>pm_used := claim_frames (sint sz) (pm_used s)\<rparr>;
                 s = (if blk \<noteq> 0 then
                        (let s = s\<lparr>sd_used := mark_blocks 0 blk sz (sd_used s)\<rparr>;
                             s = s\<lparr>swap_map := map_free blk sz (swap_map s)\<rparr>
                         in upd_swp i (\<lambda>x. x\<lparr>p_swap_blk := 0\<rparr>) s)
                      else s);
                 s = s\<lparr>pm_free_pages := pm_free_pages s - sint sz\<rparr>;
                 s = s\<lparr>sd_free_blocks := sd_free_blocks s + sz\<rparr>;
                 s = (if p_state (proc_at s i) = READY_SWAPPED then swp_state i READY s
                      else if p_state (proc_at s i) = SLEEP_SWAPPED then swp_state i SLEEP_MEM s
                      else s)
             in (0, upd_swp i (\<lambda>x. x\<lparr>p_flag := setf P_LOADED (p_flag x)\<rparr>) s)))"

section \<open>Choosing processes\<close>

definition longest_out :: "swap \<Rightarrow> nat \<Rightarrow> nat option \<Rightarrow> nat option" where
  "longest_out s i best =
     (if p_state (proc_at s i) \<noteq> READY_SWAPPED then best
      else (case best of
              None \<Rightarrow> Some i
            | Some b \<Rightarrow> if p_swap_time (proc_at s i) < p_swap_time (proc_at s b) then Some i else best))"

definition pick_longest_swapped_out :: "swap \<Rightarrow> nat option" where
  "pick_longest_swapped_out s = fold (longest_out s) [0..<NPROC] None"

definition has_sleeping :: "swap \<Rightarrow> bool" where
  "has_sleeping s \<longleftrightarrow> (\<exists>i\<in>set [0..<NPROC]. p_state (proc_at s i) = SLEEP_MEM \<and> has (p_flag (proc_at s i)) P_LOADED)"

text \<open>The score of a process, \<open>None\<close> where the loop continues without one.\<close>

definition swap_score :: "swap \<Rightarrow> nat \<Rightarrow> int option" where
  "swap_score s i =
     (let x = proc_at s i in
      if p_state x = UNUSED then None
      else if p_state x = ZOMBIE then None
      else if \<not> has (p_flag x) P_LOADED then None
      else if has (p_flag x) P_STICKY then None
      else if has_sleeping s \<and> p_state x = SLEEP_MEM then Some (p_time (p_sched x) - p_pri (p_sched x))
      else if \<not> has_sleeping s then Some (p_time (p_sched x) + p_nice (p_sched x))
      else None)"

definition better_victim :: "swap \<Rightarrow> nat \<Rightarrow> int \<times> nat option \<Rightarrow> int \<times> nat option" where
  "better_victim s i = (\<lambda>(best_score, best).
     case swap_score s i of
       None \<Rightarrow> (best_score, best)
     | Some score \<Rightarrow> if best_score < score then (score, Some i) else (best_score, best))"

definition pick_swap_out_candidate :: "swap \<Rightarrow> nat option" where
  "pick_swap_out_candidate s = snd (fold (better_victim s) [0..<NPROC] (- 1, None))"

section \<open>The swapper\<close>

partial_function (option) swapper :: "swap \<Rightarrow> swap option" where
  "swapper s =
     (case pick_longest_swapped_out s of
        None \<Rightarrow> Some (s\<lparr>swapper_sleep := 1\<rparr>)
      | Some p \<Rightarrow>
          if enough_memory_for (Some p) s
          then (case swap_in_process (Some p) s of
                  (rc, t) \<Rightarrow>
                    if rc = 0
                    then Option.bind (sched_enqueue (Some p) (procs t)) (\<lambda>q. swapper (t\<lparr>procs := q\<rparr>))
                    else swapper t)
          else (case pick_swap_out_candidate s of
                  None \<Rightarrow> Some (s\<lparr>swapper_sleep := 1\<rparr>)
                | Some v \<Rightarrow>
                    if p_time (p_sched (proc_at s v)) < MIN_RESIDENCE
                    then Some (s\<lparr>swapper_sleep := 1\<rparr>)
                    else swapper (snd (swap_out_process (Some v) s))))"

definition wakeup_swapper :: "swap \<Rightarrow> swap option" where
  "wakeup_swapper s =
     (if swapper_sleep s = 0 then Some s
      else if int UIOX_PHYS_PAGES div 4 \<le> pm_free_pages s then Some s
      else swapper (s\<lparr>swapper_sleep := 0\<rparr>))"

section \<open>What a transfer does\<close>

definition swapped_out :: "u32 \<Rightarrow> u64 \<Rightarrow> proc \<Rightarrow> proc" where
  "swapped_out blk now x =
     (let y = (if p_state x = READY then enter_state READY_SWAPPED x
               else if p_state x = SLEEP_MEM then enter_state SLEEP_SWAPPED x else x)
      in y\<lparr>p_swap_blk := blk, p_swap_time := now, p_flag := clrf P_LOADED (p_flag y)\<rparr>)"

definition swapped_in :: "proc \<Rightarrow> proc" where
  "swapped_in x =
     (let y = (if p_state x = READY_SWAPPED then enter_state READY x
               else if p_state x = SLEEP_SWAPPED then enter_state SLEEP_MEM x else x)
      in y\<lparr>p_swap_blk := 0, p_flag := setf P_LOADED (p_flag y)\<rparr>)"

lemma enter_state_more [simp]:
  "p_size (enter_state st x) = p_size x" "p_swap_blk (enter_state st x) = p_swap_blk x"
  "p_swap_time (enter_state st x) = p_swap_time x"
  by (simp_all add: enter_state_def Let_def)

lemma enter_state_put:
  "enter_state st (x\<lparr>p_swap_blk := b\<rparr>) = (enter_state st x)\<lparr>p_swap_blk := b\<rparr>"
  by (simp add: enter_state_def Let_def)

lemma swapped_sel [simp]:
  "p_size (swapped_out b j x) = p_size x" "p_swap_blk (swapped_out b j x) = b"
  "p_sched (swapped_out b j x) = p_sched x" "p_wchan (swapped_out b j x) = p_wchan x"
  "p_next (swapped_out b j x) = p_next x" "p_prev (swapped_out b j x) = p_prev x"
  "p_size (swapped_in x) = p_size x" "p_swap_blk (swapped_in x) = 0"
  "p_sched (swapped_in x) = p_sched x" "p_wchan (swapped_in x) = p_wchan x"
  "p_next (swapped_in x) = p_next x" "p_prev (swapped_in x) = p_prev x"
  "p_swap_time (swapped_in x) = p_swap_time x"
  "p_state (swapped_out b j x) = (if p_state x = READY then READY_SWAPPED
     else if p_state x = SLEEP_MEM then SLEEP_SWAPPED else p_state x)"
  "p_state (swapped_in x) = (if p_state x = READY_SWAPPED then READY
     else if p_state x = SLEEP_SWAPPED then SLEEP_MEM else p_state x)"
  by (simp_all add: swapped_out_def swapped_in_def Let_def)

lemma swapped_out_flag: "\<not> has (p_flag (swapped_out b j x)) P_LOADED"
  by (simp add: swapped_out_def Let_def has_def clrf_def and.assoc)

lemma no_blk: "p_swap_blk x = 0 \<Longrightarrow> x\<lparr>p_swap_blk := 0\<rparr> = x"
  by (cases x) simp

lemma upd_proc_twice: "upd_proc p f (upd_proc p g s) = upd_proc p (\<lambda>x. f (g x)) s"
  by (simp add: upd_proc_def)

lemma upd_proc_eqI: "f (ptab s p) = g (ptab s p) \<Longrightarrow> upd_proc p f s = upd_proc p g s"
  by (simp add: upd_proc_def)

lemma swap_out_eq:
  assumes "map_malloc (p_size (proc_at s i)) (swap_map s) = (blk, m)"
  shows "swap_out_process (Some i) s =
    (if blk = 0 then (- 1, s\<lparr>swap_map := m\<rparr>)
     else (0, s\<lparr>procs := upd_proc i (swapped_out blk (jiffies s)) (procs s), swap_map := m,
       sd_used := mark_blocks 1 blk (p_size (proc_at s i)) (sd_used s),
       sd_free_blocks := sd_free_blocks s - p_size (proc_at s i),
       pm_free_pages := pm_free_pages s + sint (p_size (proc_at s i)),
       pm_used := (\<lambda>f. if f < unat (p_size (proc_at s i)) \<and> f < UIOX_PHYS_PAGES then 0 else pm_used s f)\<rparr>))"
  by (simp add: swap_out_process_def assms Let_def upd_swp_def swp_state_def set_state_eq
      valid_transition_def upd_proc_twice)
    (auto intro!: swap.equality upd_proc_eqI simp: swapped_out_def enter_state_put Let_def)

lemma swap_in_eq:
  assumes "enough_memory_for (Some i) s"
  shows "swap_in_process (Some i) s =
    (0, s\<lparr>procs := upd_proc i swapped_in (procs s),
       swap_map := (if p_swap_blk (proc_at s i) \<noteq> 0
         then map_free (p_swap_blk (proc_at s i)) (p_size (proc_at s i)) (swap_map s) else swap_map s),
       sd_used := (if p_swap_blk (proc_at s i) \<noteq> 0
         then mark_blocks 0 (p_swap_blk (proc_at s i)) (p_size (proc_at s i)) (sd_used s) else sd_used s),
       sd_free_blocks := sd_free_blocks s + p_size (proc_at s i),
       pm_free_pages := pm_free_pages s - sint (p_size (proc_at s i)),
       pm_used := claim_frames (sint (p_size (proc_at s i))) (pm_used s)\<rparr>)"
  using assms
  by (simp add: swap_in_process_def Let_def upd_swp_def swp_state_def set_state_eq
      valid_transition_def upd_proc_twice)
    (auto intro!: swap.equality upd_proc_eqI simp: swapped_in_def enter_state_put Let_def no_blk)

section \<open>The device's space\<close>

definition image_of :: "psa \<Rightarrow> nat \<Rightarrow> nat set" where
  "image_of q p = (if p < NPROC \<and> p_swap_blk (ptab q p) \<noteq> 0
     then run (p_swap_blk (ptab q p)) (p_size (ptab q p)) else {})"

text \<open>
  The device's two views agree with each other and with the processes: every block of the area \<open>A\<close>
  that the map manages is either free in the map or part of exactly one swapped process, and
  \<open>sd_used\<close> marks the latter.  A process with blocks on the device is not marked as loaded.
  \<open>sd_free_blocks\<close> is the number of free blocks plus \<open>x\<close>.
\<close>

definition swap_inv :: "nat set \<Rightarrow> u32 \<Rightarrow> swap \<Rightarrow> bool" where
  "swap_inv A x s \<longleftrightarrow> (\<exists>lo hi. 0 < lo \<and> hi \<le> SWAP_BLOCKS \<and> A = {lo ..< hi}) \<and>
     map_ok (swap_map s) \<and> rm_nentries (swap_map s) \<le> NPROC + 2 \<and>
     shared_out A (free_units (swap_map s)) (image_of (procs s)) \<and>
     (\<forall>p<NPROC. p_swap_blk (proc_at s p) \<noteq> 0 \<longrightarrow>
        p_size (proc_at s p) \<noteq> 0 \<and> \<not> has (p_flag (proc_at s p)) P_LOADED) \<and>
     (\<forall>b\<in>A. sd_used s b = 0 \<longleftrightarrow> b \<in> free_units (swap_map s)) \<and>
     sd_free_blocks s = of_nat (card (free_units (swap_map s))) + x"

lemma swap_invD:
  assumes "swap_inv A x s"
  shows "map_ok (swap_map s)" and "rm_nentries (swap_map s) \<le> NPROC + 2"
    and "shared_out A (free_units (swap_map s)) (image_of (procs s))"
    and "p < NPROC \<Longrightarrow> p_swap_blk (proc_at s p) \<noteq> 0 \<Longrightarrow> p_size (proc_at s p) \<noteq> 0"
    and "b \<in> A \<Longrightarrow> sd_used s b = 0 \<longleftrightarrow> b \<in> free_units (swap_map s)"
    and "sd_free_blocks s = of_nat (card (free_units (swap_map s))) + x"
    and "\<exists>lo hi. 0 < lo \<and> hi \<le> SWAP_BLOCKS \<and> A = {lo ..< hi}" and "finite A"
    and "p < NPROC \<Longrightarrow> has (p_flag (proc_at s p)) P_LOADED \<Longrightarrow> p_swap_blk (proc_at s p) = 0"
  using assms by (auto simp: swap_inv_def)

lemma swap_free_sub: "swap_inv A x s \<Longrightarrow> free_units (swap_map s) \<subseteq> A"
  using shared_outD(1) [OF swap_invD(3)] by blast

lemma swap_area: "swap_inv A x s \<Longrightarrow> b \<in> A \<Longrightarrow> 0 < b \<and> b < SWAP_BLOCKS"
  using swap_invD(7) [of A x s] by auto

lemma swap_room: "swap_inv A x s \<Longrightarrow> map_room (swap_map s)"
  using swap_invD(2) [of A x s] by (auto simp: map_room_def NPROC_def MAP_MAX_ENTRIES_def)

text \<open>Extents are the gaps between images, so there are at most 65 of them.\<close>

lemma live_bound:
  assumes ok: "map_ok m" and sh: "shared_out {L ..< B} (free_units m) (image_of q)"
  shows "card (Collect (live m)) \<le> NPROC + 1"
proof -
  have inj: "inj_on (hi m) (Collect (live m))"
  proof (rule inj_onI, rule ccontr)
    fix i j assume *: "i \<in> Collect (live m)" "j \<in> Collect (live m)" "hi m i = hi m j" "i \<noteq> j"
    then have "apart m i j" "ext_ok m i" "ext_ok m j" using map_okD(2,3) [OF ok] by auto
    with *(3) show False by (auto simp: apart_def ext_ok_def)
  qed
  have "hi m i \<in> insert B ((\<lambda>p. unat (p_swap_blk (ptab q p))) ` {..<NPROC})" if i: "live m i" for i
  proof (cases "hi m i = B")
    case False
    have E: "ext_ok m i" by (rule map_okD(2) [OF ok i])
    then have last: "hi m i - 1 \<in> free_units m"
      using i unfolding in_free_units ext_ok_def by (intro exI [of _ i]) auto
    then have "hi m i - 1 \<in> {L ..< B}" using shared_outD(1) [OF sh] by blast
    then have "hi m i \<in> {L ..< B}" using False E by (auto simp: ext_ok_def)
    moreover have "hi m i \<notin> free_units m"
    proof
      assume "hi m i \<in> free_units m"
      then obtain j where j: "live m j" "lo m j \<le> hi m i" "hi m i < hi m j" unfolding in_free_units by blast
      then have "i \<noteq> j" by auto
      from map_okD(3) [OF ok i j(1) this] j E show False by (auto simp: apart_def ext_ok_def)
    qed
    ultimately obtain p where p: "hi m i \<in> image_of q p" using shared_outD(1) [OF sh] by blast
    have out: "hi m i - 1 \<notin> image_of q p" using shared_outD(2) [OF sh, of p] last by blast
    from p have "p < NPROC" and r: "hi m i \<in> run (p_swap_blk (ptab q p)) (p_size (ptab q p))"
      and im: "image_of q p = run (p_swap_blk (ptab q p)) (p_size (ptab q p))"
      by (auto simp: image_of_def split: if_splits)
    have "hi m i = unat (p_swap_blk (ptab q p))"
      using r out [unfolded im] E by (auto simp: run_def ext_ok_def)
    with \<open>p < NPROC\<close> show ?thesis by auto
  qed simp
  then have sub: "hi m ` Collect (live m) \<subseteq> insert B ((\<lambda>p. unat (p_swap_blk (ptab q p))) ` {..<NPROC})"
    (is "_ \<subseteq> insert B ?A") by blast
  have fin: "finite ?A" by simp
  have "card ?A \<le> NPROC" using card_image_le [of "{..<NPROC}" "\<lambda>p. unat (p_swap_blk (ptab q p))"] by simp
  then have "card (insert B ?A) \<le> NPROC + 1" using card_insert_if [OF fin, of B] by (simp split: if_splits)
  then have "card (hi m ` Collect (live m)) \<le> NPROC + 1"
    using card_mono [OF _ sub] fin by simp
  then show ?thesis by (simp add: card_image [OF inj])
qed

lemma image_upd:
  "image_of (upd_proc p f q) = (image_of q)(p := (if p < NPROC \<and> p_swap_blk (f (ptab q p)) \<noteq> 0
     then run (p_swap_blk (f (ptab q p))) (p_size (f (ptab q p))) else {}))"
  by (auto simp: image_of_def fun_eq_iff)

lemma card_run: "card (run a n) = unat n" and finite_run [simp]: "finite (run a n)"
  by (simp_all add: run_def)

lemma finite_free: "swap_inv A x s \<Longrightarrow> finite (free_units (swap_map s))"
  by (rule finite_subset [OF swap_free_sub swap_invD(8)])

lemma image_facts:
  assumes inv: "swap_inv A x s" and p: "p < NPROC" "p_swap_blk (proc_at s p) \<noteq> 0"
  shows "image_of (procs s) p = run (p_swap_blk (proc_at s p)) (p_size (proc_at s p))"
    and "run (p_swap_blk (proc_at s p)) (p_size (proc_at s p)) \<subseteq> A"
    and "unat (p_swap_blk (proc_at s p)) + unat (p_size (proc_at s p)) \<le> SWAP_BLOCKS"
proof -
  show im: "image_of (procs s) p = run (p_swap_blk (proc_at s p)) (p_size (proc_at s p))"
    using p by (simp add: image_of_def)
  then show sub: "run (p_swap_blk (proc_at s p)) (p_size (proc_at s p)) \<subseteq> A"
    using shared_outD(1) [OF swap_invD(3) [OF inv]] by blast
  have "0 < unat (p_size (proc_at s p))" using swap_invD(4) [OF inv p] by (simp add: unat_gt_0)
  then have "unat (p_swap_blk (proc_at s p)) + unat (p_size (proc_at s p)) - 1 \<in> A"
    using sub by (auto simp: run_def)
  then show "unat (p_swap_blk (proc_at s p)) + unat (p_size (proc_at s p)) \<le> SWAP_BLOCKS"
    using swap_area [OF inv] by fastforce
qed

lemma mark_run:
  assumes "unat blk + unat n \<le> SWAP_BLOCKS"
  shows "mark_blocks v blk n used b = (if b \<in> run blk n then v else used b)"
proof -
  have "unat blk + unat n < 2 ^ 32" using assms by (simp add: SWAP_BLOCKS_def)
  from word_end [OF this] show ?thesis using assms by (auto simp: mark_blocks_def run_def)
qed

lemma swap_out_inv:
  assumes inv: "swap_inv A x s" and p: "p < NPROC" "p_swap_blk (proc_at s p) = 0"
  shows "swap_inv A x (snd (swap_out_process (Some p) s))"
proof -
  let ?n = "p_size (proc_at s p)"
  obtain blk m where M: "map_malloc ?n (swap_map s) = (blk, m)" by fastforce
  note ok = swap_invD(1) [OF inv]
  show ?thesis
  proof (cases "blk = 0")
    case True
    have "m = swap_map s"
      using swap_units.claim_fail [OF ok, of ?n m] M True by (cases "?n = 0") (auto simp: map_malloc_def)
    then show ?thesis using inv True by (simp add: swap_out_eq [OF M])
  next
    case False
    then have n0: "?n \<noteq> 0" using M by (auto simp: map_malloc_def)
    note R = swap_units.claim_run [OF ok n0 M False]
    have bnd: "unat blk + unat ?n \<le> SWAP_BLOCKS"
    proof -
      have "0 < unat ?n" using n0 by (simp add: unat_gt_0)
      then have "unat blk + unat ?n - 1 \<in> run blk ?n" by (auto simp: run_def)
      then have "unat blk + unat ?n - 1 \<in> A" using R swap_free_sub [OF inv] by blast
      then show ?thesis using swap_area [OF inv] by fastforce
    qed
    let ?t = "snd (swap_out_process (Some p) s)"
    have t: "swap_map ?t = m" "procs ?t = upd_proc p (swapped_out blk (jiffies s)) (procs s)"
      "sd_used ?t = mark_blocks 1 blk ?n (sd_used s)" "sd_free_blocks ?t = sd_free_blocks s - ?n"
      using False by (simp_all add: swap_out_eq [OF M])
    have "map_ok m" by (rule swap_units.claim_ok [OF ok n0 M])
    moreover have "rm_nentries m \<le> NPROC + 2"
      using swap_invD(2) [OF inv] map_malloc_spec [OF ok n0 M] by simp
    moreover have "shared_out A (free_units m) (image_of (procs ?t))"
    proof -
      have "image_of (procs s) p = {}" using p by (simp add: image_of_def)
      from swap_units.claim_shares [OF ok n0 M False swap_invD(3) [OF inv] this] p False
      show ?thesis by (simp add: t image_upd)
    qed
    moreover have "\<forall>q<NPROC. p_swap_blk (proc_at ?t q) \<noteq> 0 \<longrightarrow>
        p_size (proc_at ?t q) \<noteq> 0 \<and> \<not> has (p_flag (proc_at ?t q)) P_LOADED"
      using swap_invD(4,9) [OF inv] n0 by (auto simp: t swapped_out_flag)
    moreover have "\<forall>b\<in>A. sd_used ?t b = 0 \<longleftrightarrow> b \<in> free_units m"
      using swap_invD(5) [OF inv] R by (simp add: t mark_run [OF bnd])
    moreover have "sd_free_blocks ?t = of_nat (card (free_units m)) + x"
    proof -
      have "card (free_units m) = card (free_units (swap_map s)) - unat ?n"
        using R finite_free [OF inv] by (simp add: card_Diff_subset card_run)
      moreover have "unat ?n \<le> card (free_units (swap_map s))"
        using card_mono [OF finite_free [OF inv], of "run blk ?n"] R by (simp add: card_run)
      ultimately have "of_nat (card (free_units m)) = of_nat (card (free_units (swap_map s))) - ?n"
        by (simp add: of_nat_diff)
      then show ?thesis using swap_invD(6) [OF inv] by (simp add: t)
    qed
    ultimately show ?thesis using swap_invD(7) [OF inv] unfolding swap_inv_def t(1) by blast
  qed
qed

lemma swap_in_inv:
  assumes inv: "swap_inv A x s" and p: "p < NPROC" "p_swap_blk (proc_at s p) \<noteq> 0"
  shows "swap_inv A x (snd (swap_in_process (Some p) s))"
proof (cases "enough_memory_for (Some p) s")
  case False
  then show ?thesis using inv by (simp add: swap_in_process_def)
next
  case True
  let ?n = "p_size (proc_at s p)" and ?blk = "p_swap_blk (proc_at s p)"
  let ?t = "snd (swap_in_process (Some p) s)" and ?m = "map_free ?blk ?n (swap_map s)"
  have t: "swap_map ?t = ?m" "procs ?t = upd_proc p swapped_in (procs s)"
    "sd_used ?t = mark_blocks 0 ?blk ?n (sd_used s)" "sd_free_blocks ?t = sd_free_blocks s + ?n"
    using p by (simp_all add: swap_in_eq [OF True])
  note ok = swap_invD(1) [OF inv] and n0 = swap_invD(4) [OF inv p] and im = image_facts [OF inv p]
  have bnd: "unat ?blk + unat ?n < 2 ^ 32" using im(3) by (simp add: SWAP_BLOCKS_def)
  have dis: "run ?blk ?n \<inter> free_units (swap_map s) = {}"
    using shared_outD(2) [OF swap_invD(3) [OF inv], of p] im(1) by blast
  note F = map_free_spec [OF ok n0 p(2) bnd dis swap_room [OF inv]]
  have G: "map_ok ?m" "shared_out A (free_units ?m) ((image_of (procs s))(p := {}))"
    using swap_units.release_shares [OF ok swap_room [OF inv] n0 p(2) bnd swap_invD(3) [OF inv] im(1)] by auto
  have "rm_nentries ?m \<le> NPROC + 2"
  proof (cases "rm_nentries ?m = rm_nentries (swap_map s)")
    case False
    with F have grow: "rm_nentries ?m = Suc (rm_nentries (swap_map s))"
      "Collect (live (swap_map s)) = {..<rm_nentries (swap_map s)}"
      by (auto simp: live_def)
    obtain lo hi where "A = {lo ..< hi}" using swap_invD(7) [OF inv] by blast
    from live_bound [OF ok swap_invD(3) [OF inv, unfolded this]] grow show ?thesis by simp
  qed (use swap_invD(2) [OF inv] in simp)
  moreover have "shared_out A (free_units ?m) (image_of (procs ?t))"
    using G(2) by (simp add: t image_upd)
  moreover have "\<forall>q<NPROC. p_swap_blk (proc_at ?t q) \<noteq> 0 \<longrightarrow>
      p_size (proc_at ?t q) \<noteq> 0 \<and> \<not> has (p_flag (proc_at ?t q)) P_LOADED"
    using swap_invD(4,9) [OF inv] by (auto simp: t)
  moreover have "\<forall>b\<in>A. sd_used ?t b = 0 \<longleftrightarrow> b \<in> free_units ?m"
    using swap_invD(5) [OF inv] F by (simp add: t mark_run [OF im(3)])
  moreover have "sd_free_blocks ?t = of_nat (card (free_units ?m)) + x"
  proof -
    have c: "card (free_units ?m) = card (free_units (swap_map s)) + unat ?n"
      using F dis finite_free [OF inv] by (simp add: card_Un_disjoint Int_commute card_run)
    then show ?thesis using swap_invD(6) [OF inv] by (simp add: t)
  qed
  ultimately show ?thesis using G(1) swap_invD(7) [OF inv] unfolding swap_inv_def t(1) by blast
qed


text \<open>
  Where a run starts: nothing is on the device, and its map is either empty, as the static storage is
  when the kernel starts and as it stays, because nothing in the repository calls \<open>map_init\<close>, or has
  been set up by \<open>map_init\<close> on \<open>n\<close> blocks from block \<open>a\<close> on, inside the device and above block 0, with
  the count set to match.
\<close>

definition swap_start :: "u32 \<Rightarrow> u32 \<Rightarrow> swap \<Rightarrow> bool" where
  "swap_start a n s \<longleftrightarrow>
     (if n = 0 then rm_nentries (swap_map s) = 0 else \<exists>nm m. swap_map s = map_init nm a n m) \<and>
     a \<noteq> 0 \<and> unat a + unat n \<le> SWAP_BLOCKS \<and> sd_free_blocks s = n \<and>
     (\<forall>b. sd_used s b = 0) \<and> (\<forall>p<NPROC. p_swap_blk (proc_at s p) = 0)"

text \<open>
  What then happens to it, with the guards of the swapper: a process that is loaded is written out,
  one that is ready and swapped out is read in, with blocks or without, and the rest of the kernel
  runs, which leaves the blocks of a process and the size of one that has blocks alone and marks
  none of these as loaded.  The label is the number of blocks counted as free that nobody held.
\<close>

inductive swap_step :: "swap \<Rightarrow> u32 \<Rightarrow> swap \<Rightarrow> bool" where
  write_out: "p < NPROC \<Longrightarrow> has (p_flag (proc_at s p)) P_LOADED \<Longrightarrow>
    swap_step s 0 (snd (swap_out_process (Some p) s))"
| read_in: "p < NPROC \<Longrightarrow> p_state (proc_at s p) = READY_SWAPPED \<Longrightarrow>
    swap_step s (if enough_memory_for (Some p) s \<and> p_swap_blk (proc_at s p) = 0 then p_size (proc_at s p) else 0)
      (snd (swap_in_process (Some p) s))"
| elsewhere: "(\<And>p. p < NPROC \<Longrightarrow> p_swap_blk (ptab q p) = p_swap_blk (proc_at s p) \<and>
      (p_swap_blk (ptab q p) \<noteq> 0 \<longrightarrow> p_size (ptab q p) = p_size (proc_at s p) \<and>
        (has (p_flag (ptab q p)) P_LOADED \<longrightarrow> has (p_flag (proc_at s p)) P_LOADED))) \<Longrightarrow>
    swap_step s 0 (s\<lparr>procs := q, pm_free_pages := f, pm_used := u, swapper_sleep := w, jiffies := j\<rparr>)"

inductive swap_run :: "swap \<Rightarrow> u32 \<Rightarrow> swap \<Rightarrow> bool" where
  none: "swap_run s 0 s"
| more: "swap_run s x t \<Longrightarrow> swap_step t d u \<Longrightarrow> swap_run s (x + d) u"

lemma swap_start_inv:
  assumes "swap_start a n s"
  shows "swap_inv (run a n) 0 s"
proof -
  have a: "a \<noteq> 0" "unat a + unat n \<le> SWAP_BLOCKS" using assms by (simp_all add: swap_start_def)
  have "\<exists>lo hi. 0 < lo \<and> hi \<le> SWAP_BLOCKS \<and> run a n = {lo ..< hi}"
    using a by (intro exI [of _ "unat a"] exI [of _ "unat a + unat n"]) (simp add: run_def unat_gt_0)
  moreover have "map_ok (swap_map s) \<and> rm_nentries (swap_map s) \<le> NPROC + 2 \<and> free_units (swap_map s) = run a n"
  proof (cases "n = 0")
    case True
    then have "rm_nentries (swap_map s) = 0" using assms by (simp add: swap_start_def)
    then show ?thesis using True by (auto simp: map_ok_def live_def free_units_def run_def)
  next
    case False
    then obtain nm m where m: "swap_map s = map_init nm a n m" using assms by (auto simp: swap_start_def)
    have "unat a + unat n < 2 ^ 32" using a(2) by (simp add: SWAP_BLOCKS_def)
    from map_init_spec [of a n nm m, folded m] this a(1) False show ?thesis by simp
  qed
  moreover have "image_of (procs s) = (\<lambda>p. {})"
    using assms by (auto simp: image_of_def swap_start_def fun_eq_iff)
  ultimately show ?thesis
    using assms by (simp add: swap_inv_def swap_start_def shared_out_def card_run)
qed




lemma sint_small: "unat n < 2 ^ 31 \<Longrightarrow> sint n = int (unat n)" for n :: u32
proof -
  assume "unat n < 2 ^ 31"
  then have "int (unat n) < int (2 ^ 31)" by (simp only: of_nat_less_iff)
  then have u: "uint n = int (unat n)" "uint n < 2 ^ 31" by simp_all
  have lower: "- (2 ^ 31) \<le> uint n" by (rule order_trans [OF _ uint_ge_0]) simp
  have "sint n = signed_take_bit 31 (uint n)" by (simp only: sint_uint) simp
  also have "\<dots> = uint n" by (rule signed_take_bit_int_eq_self [OF lower u(2)])
  finally show ?thesis by (simp only: u(1))
qed

lemma swap_out_taken:
  assumes "swap_out_process (Some p) s = (0, t)"
  obtains blk m where "map_malloc (p_size (proc_at s p)) (swap_map s) = (blk, m)" and "blk \<noteq> 0"
    and "p_size (proc_at s p) \<noteq> 0"
proof -
  obtain blk m where M: "map_malloc (p_size (proc_at s p)) (swap_map s) = (blk, m)" by fastforce
  with assms have "blk \<noteq> 0" by (auto simp: swap_out_eq [OF M] split: if_splits)
  moreover from M this have "p_size (proc_at s p) \<noteq> 0" by (auto simp: map_malloc_def)
  ultimately show thesis using that M by blast
qed

text \<open>Writing a resident process out and reading it back restores its state, the free blocks of
  the map, both views of the device and the count of free pages; no other process is touched.\<close>

theorem swap_out_in:
  assumes inv: "swap_inv A x s" and p: "p < NPROC" "p_swap_blk (proc_at s p) = 0"
    and st: "p_state (proc_at s p) \<in> {READY, SLEEP_MEM}" and mem: "0 \<le> pm_free_pages s"
    and out: "swap_out_process (Some p) s = (0, t)" and bk: "swap_in_process (Some p) t = (rc, u)"
  shows "rc = 0 \<and> free_units (swap_map u) = free_units (swap_map s) \<and>
    (\<forall>b\<in>A. sd_used u b = 0 \<longleftrightarrow> sd_used s b = 0) \<and> sd_free_blocks u = sd_free_blocks s \<and>
    pm_free_pages u = pm_free_pages s \<and> p_state (proc_at u p) = p_state (proc_at s p) \<and>
    p_swap_blk (proc_at u p) = 0 \<and> (\<forall>q. q = p \<or> proc_at u q = proc_at s q)"
proof -
  from swap_out_taken [OF out] obtain blk m where
    M: "map_malloc (p_size (proc_at s p)) (swap_map s) = (blk, m)" "blk \<noteq> 0" "p_size (proc_at s p) \<noteq> 0" .
  note t = out [unfolded swap_out_eq [OF M(1)], simplified M(2), simplified]
  have tinv: "swap_inv A x t" using swap_out_inv [OF inv p] out by simp
  have tp: "p_swap_blk (proc_at t p) = blk" "p_size (proc_at t p) = p_size (proc_at s p)" "swap_map t = m"
    using t by auto
  have enough: "enough_memory_for (Some p) t" using t mem by (auto simp: enough_memory_for_def)
  note u = bk [unfolded swap_in_eq [OF enough], simplified]
  have uinv: "swap_inv A x u" using swap_in_inv [OF tinv p(1)] tp M(2) bk by simp
  have "map_free blk (p_size (proc_at s p)) m = swap_map u" using u tp M(2) by auto
  then have U: "free_units (swap_map u) = free_units (swap_map s)"
    using swap_units.claim_release [OF swap_invD(1) [OF inv] M(3,1,2)] swap_room [OF tinv] tp(3) by auto
  have "sd_used u b = 0 \<longleftrightarrow> sd_used s b = 0" if "b \<in> A" for b
    using swap_invD(5) [OF uinv that] swap_invD(5) [OF inv that] U by simp
  moreover have "proc_at u q = proc_at s q" if "q \<noteq> p" for q using t u that by auto
  ultimately show ?thesis using t u tp U st by auto
qed

text \<open>The frames are not accounted for by owner: a swap-out clears the marks of the lowest
  \<open>p_size\<close> frames whoever holds them, so if one of those was free already the count of free pages
  exceeds the number of frames marked free from then on.\<close>

theorem swap_out_frames_diverge:
  assumes "pm_free_pages s = int (card {f. f < UIOX_PHYS_PAGES \<and> pm_used s f = 0})"
    and "unat (p_size (proc_at s p)) \<le> UIOX_PHYS_PAGES" and "f < unat (p_size (proc_at s p))"
    and "pm_used s f = 0" and "swap_out_process (Some p) s = (0, t)"
  shows "int (card {f. f < UIOX_PHYS_PAGES \<and> pm_used t f = 0}) < pm_free_pages t \<and>
    (\<forall>f. f < unat (p_size (proc_at s p)) \<longrightarrow> pm_used t f = 0)"
proof -
  from swap_out_taken [OF assms(5)] obtain blk m where
    M: "map_malloc (p_size (proc_at s p)) (swap_map s) = (blk, m)" "blk \<noteq> 0" .
  note t = assms(5) [unfolded swap_out_eq [OF M(1)], simplified M(2), simplified]
  let ?n = "unat (p_size (proc_at s p))" and ?Z = "{f. f < UIOX_PHYS_PAGES \<and> pm_used s f = 0}"
  have Z: "{f. f < UIOX_PHYS_PAGES \<and> pm_used t f = 0} = ?Z \<union> ({..<?n} - {f})"
    using t assms(2-4) by auto
  have sz: "sint (p_size (proc_at s p)) = int ?n"
    using assms(2) by (simp add: sint_small UIOX_PHYS_PAGES_def)
  have "card (?Z \<union> ({..<?n} - {f})) \<le> card ?Z + card ({..<?n} - {f})" by (rule card_Un_le)
  also have "\<dots> < card ?Z + ?n" using assms(3) by simp
  finally have "int (card (?Z \<union> ({..<?n} - {f}))) < int (card ?Z) + int ?n"
    by (simp only: of_nat_less_iff of_nat_add [symmetric])
  moreover have pm: "pm_free_pages t = int (card ?Z) + int ?n" using t sz assms(1) by auto
  ultimately have less: "int (card (?Z \<union> ({..<?n} - {f}))) < pm_free_pages t" by (simp only: pm)
  have "\<forall>f. f < ?n \<longrightarrow> pm_used t f = 0" using t assms(2) by auto
  with less show ?thesis unfolding Z by (rule conjI)
qed

section \<open>The loop\<close>

lemma pick_longest_spec:
  "case pick_longest_swapped_out s of
     None \<Rightarrow> \<forall>i<NPROC. p_state (proc_at s i) \<noteq> READY_SWAPPED
   | Some p \<Rightarrow> p < NPROC \<and> p_state (proc_at s p) = READY_SWAPPED \<and>
       (\<forall>i<NPROC. p_state (proc_at s i) = READY_SWAPPED \<longrightarrow> p_swap_time (proc_at s p) \<le> p_swap_time (proc_at s i))"
proof -
  define P where "P k best \<longleftrightarrow> (case best of
     None \<Rightarrow> \<forall>i<k. p_state (proc_at s i) \<noteq> READY_SWAPPED
   | Some p \<Rightarrow> p < k \<and> p_state (proc_at s p) = READY_SWAPPED \<and>
       (\<forall>i<k. p_state (proc_at s i) = READY_SWAPPED \<longrightarrow> p_swap_time (proc_at s p) \<le> p_swap_time (proc_at s i)))"
    for k best
  have "P NPROC (fold (longest_out s) [0..<NPROC] None)"
  proof (rule fold_upt_inv)
    fix i best assume "i < NPROC" "P i best"
    then show "P (Suc i) (longest_out s i best)"
      by (cases best) (auto simp: P_def longest_out_def less_Suc_eq)
  qed (simp add: P_def)
  then show ?thesis by (simp add: P_def pick_longest_swapped_out_def)
qed

text \<open>C32: when the process to evict cannot be written out because the device has no run of free blocks
  long enough (always, as long as nobody calls \<open>map_init\<close>), the swapper never returns: it ignores the
  failed \<open>swap_out_process\<close> and starts over with the state unchanged.\<close>

theorem swapper_spins:
  assumes "map_ok (swap_map s)" and "pick_longest_swapped_out s = Some p" and "\<not> enough_memory_for (Some p) s"
    and "pick_swap_out_candidate s = Some v" and "MIN_RESIDENCE \<le> p_time (p_sched (proc_at s v))"
    and "\<nexists>b. {b ..< b + unat (p_size (proc_at s v))} \<subseteq> free_units (swap_map s)"
  shows "swapper s = None"
proof -
  obtain blk m where M: "map_malloc (p_size (proc_at s v)) (swap_map s) = (blk, m)" by fastforce
  have n0: "p_size (proc_at s v) \<noteq> 0" using assms(6) by auto
  from map_malloc_spec [OF assms(1) n0 M] assms(6) have "blk = 0" "m = swap_map s" by auto
  then have stuck: "snd (swap_out_process (Some v) s) = s" by (simp add: swap_out_eq [OF M])
  have "x \<noteq> s" if "swapper x = Some t" for x t
    using that
  proof (rule swapper.raw_induct [rotated])
    fix rec x t
    assume IH: "\<And>x t. rec x = Some t \<Longrightarrow> x \<noteq> s"
      and body: "(case pick_longest_swapped_out x of
        None \<Rightarrow> Some (x\<lparr>swapper_sleep := 1\<rparr>)
      | Some p \<Rightarrow>
          if enough_memory_for (Some p) x
          then (case swap_in_process (Some p) x of
                  (rc, t) \<Rightarrow>
                    if rc = 0
                    then Option.bind (sched_enqueue (Some p) (procs t)) (\<lambda>q. rec (t\<lparr>procs := q\<rparr>))
                    else rec t)
          else (case pick_swap_out_candidate x of
                  None \<Rightarrow> Some (x\<lparr>swapper_sleep := 1\<rparr>)
                | Some v \<Rightarrow>
                    if p_time (p_sched (proc_at x v)) < MIN_RESIDENCE
                    then Some (x\<lparr>swapper_sleep := 1\<rparr>)
                    else rec (snd (swap_out_process (Some v) x)))) = Some t"
    show "x \<noteq> s"
    proof
      assume "x = s"
      with body assms stuck have "rec s = Some t" by simp
      with IH show False by blast
    qed
  qed
  then show ?thesis by (cases "swapper s") auto
qed

definition to_bring :: "swap \<Rightarrow> nat set" where
  "to_bring s = {p. p < NPROC \<and> p_state (proc_at s p) = READY_SWAPPED}"

lemma psa_inv_upd:
  assumes inv: "psa_inv s R S" and f: "\<And>x. p_next (f x) = p_next x \<and> p_prev (f x) = p_prev x \<and>
      p_sched (f x) = p_sched x \<and> p_wchan (f x) = p_wchan x"
    and st: "p \<notin> set R" "\<not> sleeping (p_state (ptab s p))" "\<not> sleeping (p_state (f (ptab s p)))"
  shows "psa_inv (upd_proc p f s) R S"
proof -
  have "lists_ok (upd_proc p f s) R S" using psa_invD(1) [OF inv] f by (simp add: lists_ok_fields)
  moreover have "pri (upd_proc p f s) q = pri s q" "p_wchan (ptab (upd_proc p f s) q) = p_wchan (ptab s q)"
    "p_state (ptab (upd_proc p f s) q) = (if q = p then p_state (f (ptab s p)) else p_state (ptab s q))" for q
    using f by simp_all
  ultimately show ?thesis unfolding psa_inv_def using psa_invD(2-5) [OF inv] st by auto
qed

lemma nolinks_sizes:
  assumes "nolinks x = nolinks y"
  shows "p_size x = p_size y" "p_swap_blk x = p_swap_blk y"
  using assms by (cases x; cases y; simp add: nolinks_def)+

lemma finite_to_bring [simp]: "finite (to_bring s)"
  by (rule finite_subset [of _ "{..<NPROC}"]) (auto simp: to_bring_def)

text \<open>One round of the loop that brings process \<open>p\<close> in.\<close>

lemma bring_one:
  assumes inv: "psa_inv (procs s) R S" and p: "pick_longest_swapped_out s = Some p"
    and mem: "enough_memory_for (Some p) s"
  shows "\<exists>t R'. swapper s = swapper t \<and> psa_inv (procs t) R' S \<and> set R' = insert p (set R) \<and>
    pm_free_pages t = pm_free_pages s - sint (p_size (proc_at s p)) \<and>
    (\<forall>x. nolinks (proc_at t x) = nolinks (if x = p then swapped_in (proc_at s p) else proc_at s x))"
proof -
  from pick_longest_spec [of s] p have pst: "p < NPROC" "p_state (proc_at s p) = READY_SWAPPED" by simp_all
  obtain u where u: "swap_in_process (Some p) s = (0, u)" "procs u = upd_proc p swapped_in (procs s)"
    "pm_free_pages u = pm_free_pages s - sint (p_size (proc_at s p))"
    by (simp add: swap_in_eq [OF mem])
  have pR: "p \<notin> set R" using psa_invD(4) [OF inv, of p] pst(2) by auto
  have "psa_inv (procs u) R S"
    unfolding u(2) by (rule psa_inv_upd [OF inv _ pR]) (simp_all add: pst(2))
  moreover have "p_state (proc_at u p) = READY" by (simp add: u(2) pst(2))
  ultimately obtain q as bs where q: "sched_enqueue (Some p) (procs u) = Some q" "R = as @ bs"
    "psa_inv q (as @ p # bs) S" "\<forall>x. nolinks (ptab q x) = nolinks (proc_at u x)"
    using enqueue_inv [OF _ pst(1) _ pR] by metis
  have "swapper s = swapper (u\<lparr>procs := q\<rparr>)"
    by (subst swapper.simps) (simp add: p mem u(1) q(1))
  then show ?thesis
    using q u by (intro exI [of _ "u\<lparr>procs := q\<rparr>"] exI [of _ "as @ p # bs"]) auto
qed

lemma swapper_brings:
  assumes "psa_inv (procs s) R S" and "\<And>p. p \<in> to_bring s \<Longrightarrow> 0 \<le> sint (p_size (proc_at s p))"
    and "(\<Sum>p\<in>to_bring s. sint (p_size (proc_at s p))) \<le> pm_free_pages s"
  shows "\<exists>t R'. swapper s = Some t \<and> swapper_sleep t = 1 \<and> psa_inv (procs t) R' S \<and>
    set R' = set R \<union> to_bring s \<and>
    (\<forall>p. p_state (proc_at t p) = (if p \<in> to_bring s then READY else p_state (proc_at s p))) \<and>
    pm_free_pages t = pm_free_pages s - (\<Sum>p\<in>to_bring s. sint (p_size (proc_at s p)))"
  using assms
proof (induction "card (to_bring s)" arbitrary: s R)
  case 0
  then have none: "to_bring s = {}" by simp
  then have "pick_longest_swapped_out s = None"
    using pick_longest_spec [of s] by (auto simp: to_bring_def split: option.splits)
  then have "swapper s = Some (s\<lparr>swapper_sleep := 1\<rparr>)" by (subst swapper.simps) simp
  with 0 none show ?case by (intro exI [of _ "s\<lparr>swapper_sleep := 1\<rparr>"] exI [of _ R]) simp
next
  case (Suc n)
  have "to_bring s \<noteq> {}" using Suc.hyps(2) by auto
  then obtain p where pick: "pick_longest_swapped_out s = Some p"
    using pick_longest_spec [of s] by (auto simp: to_bring_def split: option.splits)
  with pick_longest_spec [of s] have p: "p \<in> to_bring s" by (simp add: to_bring_def)
  have "sint (p_size (proc_at s p)) \<le> (\<Sum>p\<in>to_bring s. sint (p_size (proc_at s p)))"
    by (rule member_le_sum) (use p Suc.prems(2) in auto)
  with Suc.prems(3) have "enough_memory_for (Some p) s" by (simp add: enough_memory_for_def)
  from bring_one [OF Suc.prems(1) pick this] obtain t R' where
    t: "swapper s = swapper t" "psa_inv (procs t) R' S" "set R' = insert p (set R)"
      "pm_free_pages t = pm_free_pages s - sint (p_size (proc_at s p))" and
    same: "\<And>x. nolinks (proc_at t x) = nolinks (if x = p then swapped_in (proc_at s p) else proc_at s x)"
    by blast
  have st: "p_state (proc_at t x) = (if x = p then READY else p_state (proc_at s x))" for x
    using nolinks_eqD(1) [OF same [of x]] p by (simp add: to_bring_def split: if_splits)
  have sz: "p_size (proc_at t x) = p_size (proc_at s x)" for x
    using nolinks_sizes(1) [OF same [of x]] by (simp split: if_splits)
  have tb: "to_bring t = to_bring s - {p}" by (auto simp: to_bring_def st split: if_splits)
  have sum: "(\<Sum>x\<in>to_bring s. sint (p_size (proc_at s x))) =
      sint (p_size (proc_at s p)) + (\<Sum>x\<in>to_bring t. sint (p_size (proc_at t x)))"
    unfolding tb sz by (rule sum.remove) (use p in auto)
  have "n = card (to_bring t)" using Suc.hyps(2) p by (simp add: tb)
  from Suc.hyps(1) [OF this t(2)] Suc.prems(2,3) sum obtain u R'' where
    u: "swapper t = Some u" "swapper_sleep u = 1" "psa_inv (procs u) R'' S" "set R'' = set R' \<union> to_bring t"
      "\<forall>p. p_state (proc_at u p) = (if p \<in> to_bring t then READY else p_state (proc_at t p))"
      "pm_free_pages u = pm_free_pages t - (\<Sum>p\<in>to_bring t. sint (p_size (proc_at t p)))"
    by (auto simp: tb sz t(4))
  show ?case
    by (rule exI [of _ u], rule exI [of _ R''])
      (use u t(1,3,4) sum p st in \<open>auto simp: tb to_bring_def\<close>)
qed

text \<open>C23: when memory has room for all processes that are ready but swapped out, the swapper returns
  and has brought in exactly those: each is ready and on the run queue, no other process changed its
  state, and the free pages went down by their sizes.\<close>

theorem swapper_brings_in_all:
  assumes "psa_inv (procs s) R S" and "\<And>p. p \<in> to_bring s \<Longrightarrow> 0 \<le> sint (p_size (proc_at s p))"
    and "(\<Sum>p\<in>to_bring s. sint (p_size (proc_at s p))) \<le> pm_free_pages s"
  shows "\<exists>t R'. swapper s = Some t \<and> swapper_sleep t = 1 \<and> psa_inv (procs t) R' S \<and>
    set R' = set R \<union> to_bring s \<and> to_bring t = {} \<and>
    (\<forall>p. p_state (proc_at t p) = (if p \<in> to_bring s then READY else p_state (proc_at s p))) \<and>
    pm_free_pages t = pm_free_pages s - (\<Sum>p\<in>to_bring s. sint (p_size (proc_at s p)))"
proof -
  from swapper_brings [OF assms] obtain t R' where
    t: "swapper s = Some t" "swapper_sleep t = 1" "psa_inv (procs t) R' S" "set R' = set R \<union> to_bring s"
      "\<forall>p. p_state (proc_at t p) = (if p \<in> to_bring s then READY else p_state (proc_at s p))"
      "pm_free_pages t = pm_free_pages s - (\<Sum>p\<in>to_bring s. sint (p_size (proc_at s p)))" by blast
  have "to_bring t = {}" unfolding to_bring_def [of t] using t(5) by (auto simp: to_bring_def)
  with t show ?thesis by blast
qed

section \<open>Instances\<close>

text \<open>
  The victim chosen: the highest score that is not negative.  Three machines: one resident ready
  process on an empty device; one process waiting outside and one resident without a resource map;
  the same with memory to spare.
\<close>

lemma pick_candidate_spec:
  "case pick_swap_out_candidate s of
     None \<Rightarrow> \<forall>i<NPROC. \<forall>d. swap_score s i = Some d \<longrightarrow> d < 0
   | Some v \<Rightarrow> v < NPROC \<and> (\<exists>c. swap_score s v = Some c \<and> 0 \<le> c \<and>
       (\<forall>i<NPROC. \<forall>d. swap_score s i = Some d \<longrightarrow> d \<le> c))"
proof -
  define P where "P k b \<longleftrightarrow> (case snd b of
     None \<Rightarrow> fst b = - 1 \<and> (\<forall>i<k. \<forall>d. swap_score s i = Some d \<longrightarrow> d < 0)
   | Some v \<Rightarrow> v < k \<and> swap_score s v = Some (fst b) \<and> 0 \<le> fst b \<and>
       (\<forall>i<k. \<forall>d. swap_score s i = Some d \<longrightarrow> d \<le> fst b))" for k and b :: "int \<times> nat option"
  have "P NPROC (fold (better_victim s) [0..<NPROC] (- 1, None))"
  proof (rule fold_upt_inv)
    fix i b assume "i < NPROC" "P i b"
    then show "P (Suc i) (better_victim s i b)"
      by (cases b; cases "snd b"; cases "swap_score s i")
        (auto simp: P_def better_victim_def less_Suc_eq not_less intro: order_trans [OF _ less_imp_le])
  qed (simp add: P_def)
  then show ?thesis
    by (auto simp: P_def pick_swap_out_candidate_def split: option.splits)
qed

text \<open>Whatever the swapper has done when it returns is a run of these steps.\<close>

lemma swap_run_first: "swap_run t x u \<Longrightarrow> swap_step s d t \<Longrightarrow> swap_run s (d + x) u"
proof (induction rule: swap_run.induct)
  case (none t)
  from more [OF swap_run.none this] show ?case by simp
next
  case (more t x v e u)
  from swap_run.more [OF more.IH [OF more.prems] more.hyps(2)] show ?case by (simp add: add.assoc)
qed

lemma enqueue_step:
  assumes "sched_enqueue p (procs s) = Some q"
  shows "swap_step s 0 (s\<lparr>procs := q\<rparr>)"
proof -
  have "nolinks (ptab (link_after i prev cur r) x) = nolinks (ptab r x)" for i prev cur r x
    by (auto simp: link_after_def Let_def split: option.split)
  then have "nolinks (ptab q x) = nolinks (proc_at s x)" for x
    using assms by (auto simp: sched_enqueue_def split: option.splits)
  then have "p_swap_blk (ptab q x) = p_swap_blk (proc_at s x) \<and> p_size (ptab q x) = p_size (proc_at s x) \<and>
      p_flag (ptab q x) = p_flag (proc_at s x)" for x
    using nolinks_sizes nolinks_eqD(7) by blast
  then have "swap_step s 0 (s\<lparr>procs := q, pm_free_pages := pm_free_pages s, pm_used := pm_used s,
      swapper_sleep := swapper_sleep s, jiffies := jiffies s\<rparr>)"
    by (intro elsewhere) simp
  then show ?thesis by simp
qed

lemma sleep_step: "swap_step s 0 (s\<lparr>swapper_sleep := w\<rparr>)"
proof -
  have "swap_step s 0 (s\<lparr>procs := procs s, pm_free_pages := pm_free_pages s, pm_used := pm_used s,
      swapper_sleep := w, jiffies := jiffies s\<rparr>)"
    by (intro elsewhere) simp
  then show ?thesis by simp
qed

lemma candidate_loaded:
  assumes "pick_swap_out_candidate s = Some v"
  shows "v < NPROC" and "has (p_flag (proc_at s v)) P_LOADED"
  using pick_candidate_spec [of s] assms by (auto simp: swap_score_def Let_def split: if_splits)

lemma swapper_is_run:
  assumes "swapper s = Some t"
  shows "\<exists>x. swap_run s x t"
  using assms
proof (rule swapper.raw_induct [rotated])
  fix rec s t
  assume IH: "\<And>s t. rec s = Some t \<Longrightarrow> \<exists>x. swap_run s x t"
    and body: "(case pick_longest_swapped_out s of
        None \<Rightarrow> Some (s\<lparr>swapper_sleep := 1\<rparr>)
      | Some p \<Rightarrow>
          if enough_memory_for (Some p) s
          then (case swap_in_process (Some p) s of
                  (rc, t) \<Rightarrow>
                    if rc = 0
                    then Option.bind (sched_enqueue (Some p) (procs t)) (\<lambda>q. rec (t\<lparr>procs := q\<rparr>))
                    else rec t)
          else (case pick_swap_out_candidate s of
                  None \<Rightarrow> Some (s\<lparr>swapper_sleep := 1\<rparr>)
                | Some v \<Rightarrow>
                    if p_time (p_sched (proc_at s v)) < MIN_RESIDENCE
                    then Some (s\<lparr>swapper_sleep := 1\<rparr>)
                    else rec (snd (swap_out_process (Some v) s)))) = Some t"
  have stop: "\<exists>x. swap_run s x (s\<lparr>swapper_sleep := 1\<rparr>)"
    using swap_run.more [OF swap_run.none sleep_step] by blast
  have go: "\<exists>x. swap_run s x t" if "swap_step s d u" "rec u = Some t" for d u
    using IH [OF that(2)] swap_run_first [OF _ that(1)] by blast
  show "\<exists>x. swap_run s x t"
  proof (cases "pick_longest_swapped_out s")
    case None
    with body stop show ?thesis by auto
  next
    case (Some p)
    then have p: "p < NPROC" "p_state (proc_at s p) = READY_SWAPPED" using pick_longest_spec [of s] by simp_all
    show ?thesis
    proof (cases "enough_memory_for (Some p) s")
      case True
      let ?u = "snd (swap_in_process (Some p) s)"
      have "fst (swap_in_process (Some p) s) = 0" by (simp add: swap_in_eq [OF True])
      with body Some True obtain q where q: "sched_enqueue (Some p) (procs ?u) = Some q" "rec (?u\<lparr>procs := q\<rparr>) = Some t"
        by (auto simp: split_beta bind_eq_Some_conv)
      from IH [OF q(2)] obtain x where "swap_run (?u\<lparr>procs := q\<rparr>) x t" by blast
      from swap_run_first [OF swap_run_first [OF this enqueue_step [OF q(1)]] read_in [OF p]] show ?thesis by blast
    next
      case False
      show ?thesis
      proof (cases "pick_swap_out_candidate s")
        case None
        with body Some False stop show ?thesis by auto
      next
        case (Some v)
        note v = candidate_loaded [OF Some]
        show ?thesis
        proof (cases "p_time (p_sched (proc_at s v)) < MIN_RESIDENCE")
          case True
          with body \<open>pick_longest_swapped_out s = Some p\<close> False Some stop show ?thesis by auto
        next
          case res: False
          with body \<open>pick_longest_swapped_out s = Some p\<close> False Some
          have "rec (snd (swap_out_process (Some v) s)) = Some t" by simp
          with go [OF write_out [OF v]] show ?thesis by blast
        qed
      qed
    qed
  qed
qed

definition sw_proc :: "pstate \<Rightarrow> u32 \<Rightarrow> proc" where
  "sw_proc st fl = zero_proc\<lparr>p_state := st, p_size := 3, p_flag := fl,
     p_sched := \<lparr>p_pri = 0, p_cpu = 0, p_nice = 0, p_time = 9\<rparr>\<rparr>"

definition sw_table :: "(nat \<Rightarrow> proc) \<Rightarrow> psa" where
  "sw_table f = \<lparr>ptab = f, current_proc = None, runq_head = None, next_pid = 1,
     sleep_hash = (\<lambda>k. \<lparr>sq_head = None, sq_tail = None\<rparr>), scheduler_flag = 0,
     u_abort = (\<lambda>i. 0), u_error = (\<lambda>i. 0)\<rparr>"

definition no_map :: res_map where
  "no_map = \<lparr>rm_entries = (\<lambda>i. \<lparr>me_addr = 0, me_size = 0, me_valid = False\<rparr>), rm_nentries = 0, rm_name = ''none''\<rparr>"

definition swap_demo :: swap where
  "swap_demo = \<lparr>procs = sw_table (\<lambda>i. if i = 0 then sw_proc READY P_LOADED else zero_proc),
     sd_used = (\<lambda>b. 0), sd_free_blocks = 8191, swap_map = map_init ''swap'' 1 8191 no_map,
     pm_free_pages = 1, pm_used = (\<lambda>f. if f = 0 then 0 else 1), swapper_sleep = 0, jiffies = 100\<rparr>"

definition stuck_demo :: swap where
  "stuck_demo = swap_demo\<lparr>procs := sw_table (\<lambda>i. if i = 0 then sw_proc READY_SWAPPED 0
     else if i = 1 then sw_proc READY P_LOADED else zero_proc), swap_map := no_map\<rparr>"

lemma swap_demo_start: "swap_start 1 8191 swap_demo" "swap_inv (run 1 8191) 0 swap_demo"
proof -
  show f: "swap_start 1 8191 swap_demo"
    by (auto simp: swap_start_def swap_demo_def sw_table_def sw_proc_def zero_proc_def SWAP_BLOCKS_def)
  show "swap_inv (run 1 8191) 0 swap_demo" by (rule swap_start_inv [OF f])
qed

lemma swap_demo_out:
  "\<exists>t. swap_out_process (Some 0) swap_demo = (0, t) \<and> sd_free_blocks t = 8188"
proof -
  have "first_idx (\<lambda>i. me_valid (rm_entries (swap_map swap_demo) i) \<and> 3 \<le> me_size (rm_entries (swap_map swap_demo) i))
      (rm_nentries (swap_map swap_demo)) = Some 0"
    by (simp add: first_idx_def swap_demo_def map_init_def no_map_def)
  then have "map_malloc (p_size (proc_at swap_demo 0)) (swap_map swap_demo) =
      (1, upd_entry 0 (\<lambda>e. e\<lparr>me_addr := me_addr e + 3, me_size := me_size e - 3\<rparr>) (swap_map swap_demo))"
    by (simp add: map_malloc_def swap_demo_def sw_table_def sw_proc_def map_init_def)
  from swap_out_eq [OF this] show ?thesis
    by (simp add: swap_demo_def sw_table_def sw_proc_def)
qed

lemma demo_size: "p_size (proc_at swap_demo 0) = 3" "p_state (proc_at swap_demo 0) = READY"
  "p_swap_blk (proc_at swap_demo 0) = 0" "pm_free_pages swap_demo = 1"
  by (simp_all add: swap_demo_def sw_table_def sw_proc_def zero_proc_def)


lemma swap_out_in_witness:
  "\<exists>t u. swap_out_process (Some 0) swap_demo = (0, t) \<and> swap_in_process (Some 0) t = (0, u) \<and>
     sd_free_blocks u = 8191 \<and> p_state (proc_at u 0) = READY"
proof -
  from swap_demo_out obtain t where t: "swap_out_process (Some 0) swap_demo = (0, t)" by blast
  obtain rc u where u: "swap_in_process (Some 0) t = (rc, u)" by fastforce
  have "0 < NPROC" "p_state (proc_at swap_demo 0) \<in> {READY, SLEEP_MEM}" "0 \<le> pm_free_pages swap_demo"
    by (simp_all add: NPROC_def demo_size)
  from swap_out_in [OF swap_demo_start(2) this(1) demo_size(3) this(2,3) t u]
  have "rc = 0" "sd_free_blocks u = sd_free_blocks swap_demo" "p_state (proc_at u 0) = READY"
    by (simp_all add: demo_size)
  then show ?thesis using t u by (auto simp: swap_demo_def)
qed

lemma swap_out_frames_diverge_witness:
  "\<exists>t. swap_out_process (Some 0) swap_demo = (0, t) \<and>
     int (card {f. f < UIOX_PHYS_PAGES \<and> pm_used t f = 0}) < pm_free_pages t"
proof -
  from swap_demo_out obtain t where t: "swap_out_process (Some 0) swap_demo = (0, t)" by blast
  have "{f. f < UIOX_PHYS_PAGES \<and> pm_used swap_demo f = 0} = {0}"
    by (auto simp: swap_demo_def UIOX_PHYS_PAGES_def)
  then have "pm_free_pages swap_demo = int (card {f. f < UIOX_PHYS_PAGES \<and> pm_used swap_demo f = 0})"
    by (simp add: demo_size)
  moreover have "unat (p_size (proc_at swap_demo 0)) \<le> UIOX_PHYS_PAGES" "0 < unat (p_size (proc_at swap_demo 0))"
    by (simp_all add: demo_size UIOX_PHYS_PAGES_def)
  moreover have "pm_used swap_demo 0 = 0" by (simp add: swap_demo_def)
  ultimately show ?thesis using swap_out_frames_diverge [OF _ _ _ _ t] t by blast
qed

lemma stuck_demo_states:
  "p_state (proc_at stuck_demo i) = (if i = 0 then READY_SWAPPED else if i = 1 then READY else UNUSED)"
  "proc_at stuck_demo 0 = sw_proc READY_SWAPPED 0" "proc_at stuck_demo 1 = sw_proc READY P_LOADED"
  "proc_at stuck_demo (Suc 0) = sw_proc READY P_LOADED"
  "pm_free_pages stuck_demo = 1" "swap_map stuck_demo = no_map"
  by (simp_all add: stuck_demo_def sw_table_def sw_proc_def zero_proc_def swap_demo_def)

lemma stuck_demo_picks:
  "pick_longest_swapped_out stuck_demo = Some 0" "pick_swap_out_candidate stuck_demo = Some 1"
proof -
  show "pick_longest_swapped_out stuck_demo = Some 0"
    using pick_longest_spec [of stuck_demo]
    by (auto simp: stuck_demo_states NPROC_def split: option.splits if_splits)
  have "\<not> has_sleeping stuck_demo" by (auto simp: has_sleeping_def stuck_demo_states)
  then have score: "swap_score stuck_demo i = (if i = 1 then Some 9 else None)" for i
    by (auto simp: swap_score_def stuck_demo_states Let_def)
      (auto simp: sw_proc_def has_def P_LOADED_def P_STICKY_def)
  show "pick_swap_out_candidate stuck_demo = Some 1"
    using pick_candidate_spec [of stuck_demo]
    by (auto simp: score NPROC_def split: option.splits if_splits)
qed

lemma swapper_spins_witness: "swapper stuck_demo = None"
proof (rule swapper_spins [OF _ stuck_demo_picks(1) _ stuck_demo_picks(2)])
  show "map_ok (swap_map stuck_demo)" "\<nexists>b. {b ..< b + unat (p_size (proc_at stuck_demo 1))} \<subseteq> free_units (swap_map stuck_demo)"
    by (auto simp: stuck_demo_states no_map_def map_ok_def live_def free_units_def sw_proc_def)
qed (simp_all add: enough_memory_for_def stuck_demo_states sw_proc_def MIN_RESIDENCE_def)

lemma swapper_brings_in_all_witness:
  "\<exists>t. swapper (stuck_demo\<lparr>pm_free_pages := 10\<rparr>) = Some t \<and> p_state (proc_at t 0) = READY \<and> pm_free_pages t = 7"
proof -
  let ?s = "stuck_demo\<lparr>pm_free_pages := 10\<rparr>"
  have inv: "psa_inv (procs ?s) [] (\<lambda>k. [])"
    using stuck_demo_states(1)
    by (simp add: psa_inv_def lists_ok_def) (simp add: stuck_demo_def sw_table_def)
  have tb: "to_bring ?s = {0}" by (auto simp: to_bring_def stuck_demo_states NPROC_def split: if_splits)
  have sz: "p_size (proc_at stuck_demo 0) = 3" by (simp add: stuck_demo_states sw_proc_def)
  from swapper_brings_in_all [OF inv] show ?thesis
    by (simp add: tb sz) (metis (full_types))
qed

end
