(* ===== verification/Timer.thy ===== *)
theory Timer
  imports Prelude
begin

text \<open>
  The timer wheel (\<open>33_PCS/01_schedular/src/uiox_kix_timer.c\<close>): the static pool of nodes and the 256
  buckets of tier one (the other tiers are only ever cleared).  A node pointer is its index in the
  pool.  A callback is a \<open>timer_fn\<close>; what calling one does is the argument \<open>cb\<close> of \<open>timer_run\<close>, and
  the state is an extensible record so that callbacks can act on more than the wheel, and a callback
  may change the wheel while it is walked.  The walk of \<open>timer_run\<close> has an option result, \<open>None\<close> if it
  does not end.  The lemmas are about callbacks that at most arm timers (\<open>arms_only\<close>); theory
  \<open>TimeServ\<close> shows that the kernel's are of this kind.
\<close>

definition TVEC_SIZE :: u64 where "TVEC_SIZE = 256"
definition MAX_TIMER_NODES :: nat where "MAX_TIMER_NODES = 256"
definition TIMER_MAGIC :: u64 where "TIMER_MAGIC = 0xDEADBEEF"

text \<open>The functions the kernel registers, and any other.\<close>

datatype timer_fn = AlarmCallback | PosixTimerExpire | OtherFn nat

record timer_node =
  t_expires :: u64
  t_fn :: "timer_fn option"
  t_data :: u64
  t_magic :: u64
  t_active :: bool
  t_next :: "nat option"

record timers =
  node_pool :: "nat \<Rightarrow> timer_node"
  node_used :: "nat \<Rightarrow> bool"
  pool_ready :: bool
  tv1 :: "nat \<Rightarrow> nat option"
  tv2 :: "nat \<Rightarrow> nat option"
  tv3 :: "nat \<Rightarrow> nat option"
  tv4 :: "nat \<Rightarrow> nat option"
  tv5 :: "nat \<Rightarrow> nat option"
  timer_jiffies :: u64
  running_timer :: "nat option"
  jiffies :: u64

definition zero_node :: timer_node where
  "zero_node = \<lparr>t_expires = 0, t_fn = None, t_data = 0, t_magic = 0, t_active = False, t_next = None\<rparr>"

definition upd_node :: "nat \<Rightarrow> (timer_node \<Rightarrow> timer_node) \<Rightarrow> 'z timers_scheme \<Rightarrow> 'z timers_scheme" where
  "upd_node i f s = s\<lparr>node_pool := (node_pool s)(i := f (node_pool s i))\<rparr>"

lemma upd_node_sel [simp]:
  "node_pool (upd_node i f s) = (node_pool s)(i := f (node_pool s i))"
  "node_used (upd_node i f s) = node_used s" "pool_ready (upd_node i f s) = pool_ready s"
  "tv1 (upd_node i f s) = tv1 s" "jiffies (upd_node i f s) = jiffies s"
  "running_timer (upd_node i f s) = running_timer s" "timer_jiffies (upd_node i f s) = timer_jiffies s"
  "timers.more (upd_node i f s) = timers.more s"
  by (simp_all add: upd_node_def)

definition pool_init :: "'z timers_scheme \<Rightarrow> 'z timers_scheme" where
  "pool_init s =
     (if pool_ready s then s
      else s\<lparr>node_pool := (\<lambda>i. if i < MAX_TIMER_NODES then zero_node else node_pool s i),
             node_used := (\<lambda>i. if i < MAX_TIMER_NODES then False else node_used s i),
             pool_ready := True\<rparr>)"

definition timer_node_alloc :: "'z timers_scheme \<Rightarrow> nat option \<times> 'z timers_scheme" where
  "timer_node_alloc s =
     (let s = pool_init s in
      case first_idx (\<lambda>i. \<not> node_used s i) MAX_TIMER_NODES of
        Some i \<Rightarrow> (Some i, (upd_node i (\<lambda>n. zero_node) s)\<lparr>node_used := (node_used s)(i := True)\<rparr>)
      | None \<Rightarrow> (None, s))"

definition timer_node_free :: "nat option \<Rightarrow> 'z timers_scheme \<Rightarrow> 'z timers_scheme" where
  "timer_node_free t s =
     (case t of
        None \<Rightarrow> s
      | Some i \<Rightarrow>
          if i < MAX_TIMER_NODES
          then (upd_node i (\<lambda>n. zero_node) s)\<lparr>node_used := (node_used s)(i := False)\<rparr>
          else s)"

definition timer_init :: "'z timers_scheme \<Rightarrow> 'z timers_scheme" where
  "timer_init s =
     (let s = pool_init s;
          s = s\<lparr>tv1 := (\<lambda>i. if i < unat TVEC_SIZE then None else tv1 s i)\<rparr>;
          s = s\<lparr>tv2 := (\<lambda>i. if i < 64 then None else tv2 s i), tv3 := (\<lambda>i. if i < 64 then None else tv3 s i),
                tv4 := (\<lambda>i. if i < 64 then None else tv4 s i), tv5 := (\<lambda>i. if i < 64 then None else tv5 s i)\<rparr>
      in s\<lparr>timer_jiffies := jiffies s, running_timer := None\<rparr>)"

definition uiox_timer_init :: "'z timers_scheme \<Rightarrow> 'z timers_scheme" where
  "uiox_timer_init s = timer_init s"

definition tv1_index :: "u64 \<Rightarrow> nat" where
  "tv1_index e = unat (e AND (TVEC_SIZE - 1))"

definition timer_add :: "u64 \<Rightarrow> timer_fn option \<Rightarrow> u64 \<Rightarrow> 'z timers_scheme \<Rightarrow> nat option \<times> 'z timers_scheme" where
  "timer_add e fn d s =
     (case timer_node_alloc s of
        (None, s) \<Rightarrow> (None, s)
      | (Some t, s) \<Rightarrow>
          (let s = upd_node t (\<lambda>n. n\<lparr>t_expires := e, t_fn := fn, t_data := d, t_magic := TIMER_MAGIC, t_active := True\<rparr>) s;
               idx = tv1_index e;
               s = upd_node t (\<lambda>n. n\<lparr>t_next := tv1 s idx\<rparr>) s
           in (Some t, s\<lparr>tv1 := (tv1 s)(idx := Some t)\<rparr>)))"

definition timer_del :: "nat option \<Rightarrow> 'z timers_scheme \<Rightarrow> 'z timers_scheme" where
  "timer_del t s = (case t of None \<Rightarrow> s | Some i \<Rightarrow> upd_node i (\<lambda>n. n\<lparr>t_active := False\<rparr>) s)"

text \<open>Take node \<open>x\<close> out after \<open>prev\<close>, deactivate it and call its function.\<close>

definition fire :: "(timer_fn \<Rightarrow> u64 \<Rightarrow> 'z timers_scheme \<Rightarrow> 'z timers_scheme) \<Rightarrow> nat \<Rightarrow> nat option \<Rightarrow> nat
    \<Rightarrow> 'z timers_scheme \<Rightarrow> 'z timers_scheme" where
  "fire cb idx prev x s =
     (let nx = t_next (node_pool s x);
          s = (case prev of Some q \<Rightarrow> upd_node q (\<lambda>n. n\<lparr>t_next := nx\<rparr>) s
               | None \<Rightarrow> s\<lparr>tv1 := (tv1 s)(idx := nx)\<rparr>);
          s = upd_node x (\<lambda>n. n\<lparr>t_active := False\<rparr>) s;
          s = s\<lparr>running_timer := Some x\<rparr>;
          s = (case t_fn (node_pool s x) of None \<Rightarrow> s | Some f \<Rightarrow> cb f (t_data (node_pool s x)) s)
      in s\<lparr>running_timer := None\<rparr>)"

partial_function (option) timer_walk :: "(timer_fn \<Rightarrow> u64 \<Rightarrow> 'z timers_scheme \<Rightarrow> 'z timers_scheme) \<Rightarrow> nat
    \<Rightarrow> nat option \<Rightarrow> nat option \<Rightarrow> 'z timers_scheme \<Rightarrow> 'z timers_scheme option" where
  "timer_walk cb idx prev t s =
     (if t = None then Some s
      else if t_active (node_pool s (the t)) \<and> t_expires (node_pool s (the t)) \<le> jiffies s
      then timer_walk cb idx prev (t_next (node_pool s (the t))) (fire cb idx prev (the t) s)
      else timer_walk cb idx t (t_next (node_pool s (the t))) s)"

definition timer_run :: "(timer_fn \<Rightarrow> u64 \<Rightarrow> 'z timers_scheme \<Rightarrow> 'z timers_scheme) \<Rightarrow> 'z timers_scheme
    \<Rightarrow> 'z timers_scheme option" where
  "timer_run cb s =
     (let idx = tv1_index (jiffies s) in
      map_option (\<lambda>s. s\<lparr>timer_jiffies := jiffies s\<rparr>) (timer_walk cb idx None (tv1 s idx) s))"

definition timer_free :: "nat option \<Rightarrow> 'z timers_scheme \<Rightarrow> 'z timers_scheme" where
  "timer_free t s = timer_node_free t s"

section \<open>The invariant\<close>

definition tnx :: "'z timers_scheme \<Rightarrow> nat \<Rightarrow> nat option" where
  "tnx s x = t_next (node_pool s x)"

text \<open>\<open>B k\<close> are the nodes of bucket \<open>k\<close> in order.\<close>

definition wheel_inv :: "'z timers_scheme \<Rightarrow> (nat \<Rightarrow> nat list) \<Rightarrow> bool" where
  "wheel_inv s B \<longleftrightarrow> pool_ready s \<and>
     (\<forall>k<256. sll (tnx s) (tv1 s k) (B k) \<and>
        (\<forall>x\<in>set (B k). x < MAX_TIMER_NODES \<and> node_used s x \<and> tv1_index (t_expires (node_pool s x)) = k))"

lemma wheel_invD:
  assumes "wheel_inv s B"
  shows "pool_ready s" and "k < 256 \<Longrightarrow> sll (tnx s) (tv1 s k) (B k)"
    and "k < 256 \<Longrightarrow> x \<in> set (B k) \<Longrightarrow> x < MAX_TIMER_NODES"
    and "k < 256 \<Longrightarrow> x \<in> set (B k) \<Longrightarrow> node_used s x"
    and "k < 256 \<Longrightarrow> x \<in> set (B k) \<Longrightarrow> tv1_index (t_expires (node_pool s x)) = k"
  using assms by (auto simp: wheel_inv_def)

lemma tv1_index_mod: "tv1_index e = unat e mod 256"
proof -
  have "e AND (TVEC_SIZE - 1) = take_bit 8 e"
    by (simp add: TVEC_SIZE_def take_bit_eq_mask mask_eq_exp_minus_1)
  then show ?thesis by (simp add: tv1_index_def take_bit_eq_mod unat_mod_distrib)
qed

lemma tv1_index_less: "tv1_index e < 256"
  by (simp add: tv1_index_mod)

lemma buckets_disjoint:
  assumes "wheel_inv s B" and "k < 256" and "j < 256" and "x \<in> set (B k)" and "x \<in> set (B j)"
  shows "k = j"
  using wheel_invD(5) [OF assms(1)] assms(2-5) by metis

definition due :: "'z timers_scheme \<Rightarrow> nat \<Rightarrow> bool" where
  "due s x \<longleftrightarrow> t_active (node_pool s x) \<and> t_expires (node_pool s x) \<le> jiffies s"

definition unlinked :: "timer_node \<Rightarrow> timer_node" where
  "unlinked n = n\<lparr>t_next := None\<rparr>"

lemma unlinked_eqD:
  assumes "unlinked m = unlinked n"
  shows "t_expires m = t_expires n" "t_fn m = t_fn n" "t_data m = t_data n" "t_active m = t_active n"
  using assms by (cases m; cases n; simp add: unlinked_def)+

lemma sll_head: "sll nx p xs \<Longrightarrow> p = headp xs None"
  by (cases xs) auto

text \<open>What \<open>timer_run\<close> does with a node before it calls its function.\<close>

definition unlink_node :: "nat \<Rightarrow> nat option \<Rightarrow> nat \<Rightarrow> 'z timers_scheme \<Rightarrow> 'z timers_scheme" where
  "unlink_node idx prev x s =
     (let nx = t_next (node_pool s x);
          s = (case prev of Some q \<Rightarrow> upd_node q (\<lambda>n. n\<lparr>t_next := nx\<rparr>) s
               | None \<Rightarrow> s\<lparr>tv1 := (tv1 s)(idx := nx)\<rparr>);
          s = upd_node x (\<lambda>n. n\<lparr>t_active := False\<rparr>) s
      in s\<lparr>running_timer := Some x\<rparr>)"

lemma fire_eq:
  "fire cb idx prev x s = (case t_fn (node_pool s x) of None \<Rightarrow> unlink_node idx prev x s
     | Some f \<Rightarrow> cb f (t_data (node_pool s x)) (unlink_node idx prev x s))\<lparr>running_timer := None\<rparr>"
  by (auto simp: fire_def unlink_node_def Let_def split: option.split)

lemma unlink_node_sel:
  assumes "prev \<noteq> Some x"
  shows "node_used (unlink_node idx prev x s) = node_used s" "pool_ready (unlink_node idx prev x s) = pool_ready s"
    "jiffies (unlink_node idx prev x s) = jiffies s"
    "tv1 (unlink_node idx prev x s) = (if prev = None then (tv1 s)(idx := tnx s x) else tv1 s)"
    "tnx (unlink_node idx prev x s) = (case prev of None \<Rightarrow> tnx s | Some q \<Rightarrow> (tnx s)(q := tnx s x))"
    "unlinked (node_pool (unlink_node idx prev x s) y) =
       unlinked (if y = x then (node_pool s x)\<lparr>t_active := False\<rparr> else node_pool s y)"
    "timers.more (unlink_node idx prev x s) = timers.more s"
  using assms
  by (auto simp: unlink_node_def Let_def tnx_def unlinked_def fun_eq_iff split: option.splits)

text \<open>
  The bucket of the walk: \<open>N\<close> are nodes that callbacks have put in front of it since the walk began,
  \<open>as\<close> the nodes it has passed and left in place, \<open>x # xs\<close> those to come.  While nothing has been left
  in place, taking \<open>x\<close> out sets the head of the bucket to the rest and so drops \<open>N\<close>.
\<close>

lemma unlink_inv:
  assumes inv: "wheel_inv s B" and idx: "idx < 256" and B: "B idx = N @ as @ x # xs"
  shows "wheel_inv (unlink_node idx (lastp None as) x s) (B(idx := (if as = [] then [] else N) @ as @ xs))"
    (is "wheel_inv ?u ?B")
proof -
  note D = wheel_invD [OF inv]
  have l: "sll (tnx s) (tv1 s idx) ((N @ as) @ x # xs)" using D(2) [OF idx] B by simp
  from sll_distinct [OF l] have np: "lastp None as \<noteq> Some x" by (cases as rule: rev_cases) auto
  note F = unlink_node_sel [OF np, of idx s]
  have exp: "t_expires (node_pool ?u y) = t_expires (node_pool s y)" for y
    using unlinked_eqD(1) [OF F(6) [of y]] by (simp split: if_splits)
  have "sll (tnx ?u) (tv1 ?u k) (?B k)" if k: "k < 256" for k
  proof (cases "k = idx")
    case True
    show ?thesis
    proof (cases as rule: rev_cases)
      case Nil
      from sll_append [OF l] have "sll (tnx s) (tnx s x) xs" by simp
      then show ?thesis using Nil True F(4,5) by simp
    next
      case (snoc bs q)
      have "sll ((tnx s)(q := tnx s x)) (tv1 s idx) ((N @ bs) @ q # xs)"
        by (rule sll_remove_mid) (use l snoc in simp)
      then show ?thesis using snoc True F(4,5) by simp
    qed
  next
    case False
    then have old: "sll (tnx s) (tv1 s k) (B k)" using D(2) [OF k] by simp
    show ?thesis
    proof (cases as rule: rev_cases)
      case Nil
      then show ?thesis using old False F(4,5) by simp
    next
      case (snoc bs q)
      have "q \<notin> set (B k)" using buckets_disjoint [OF inv k idx, of q] False B snoc by auto
      then show ?thesis using snoc old False F(4,5) by (simp add: sll_upd_other)
    qed
  qed
  moreover have "y < MAX_TIMER_NODES \<and> node_used ?u y \<and> tv1_index (t_expires (node_pool ?u y)) = k"
    if "k < 256" "y \<in> set (?B k)" for k y
  proof -
    have "y \<in> set (B k)" using that(2) B by (auto split: if_splits)
    then show ?thesis using D(3-5) [OF that(1)] F(1) exp by simp
  qed
  ultimately show ?thesis using D(1) F(2) by (simp add: wheel_inv_def)
qed

lemma wheel_inv_keeps:
  assumes "node_pool t = node_pool s" "node_used t = node_used s" "pool_ready t = pool_ready s" "tv1 t = tv1 s"
  shows "wheel_inv t B = wheel_inv s B"
proof -
  have "tnx t = tnx s" using assms(1) by (simp add: tnx_def fun_eq_iff)
  then show ?thesis using assms by (simp add: wheel_inv_def)
qed


lemma timer_add_ok:
  assumes inv: "wheel_inv s B" and add: "timer_add e fn d s = (Some x, t)"
  shows "wheel_inv t (B(tv1_index e := x # B (tv1_index e)))" and "x \<notin> set (B k) \<or> 256 \<le> k"
    and "node_pool t x = \<lparr>t_expires = e, t_fn = fn, t_data = d, t_magic = TIMER_MAGIC, t_active = True, t_next = tv1 s (tv1_index e)\<rparr>"
    and "y \<noteq> x \<Longrightarrow> node_pool t y = node_pool s y" and "jiffies t = jiffies s" and "timers.more t = timers.more s"
    and "\<not> node_used s x" and "node_used t = (node_used s)(x := True)" and "pool_ready t"
proof -
  have ready: "pool_init s = s" using wheel_invD(1) [OF inv] by (simp add: pool_init_def)
  from add obtain fi: "first_idx (\<lambda>i. \<not> node_used s i) MAX_TIMER_NODES = Some x"
    by (auto simp: timer_add_def timer_node_alloc_def ready Let_def split: option.splits)
  note X = first_idx_SomeD [OF fi]
  show free: "\<not> node_used s x" using X by simp
  then show notin: "x \<notin> set (B k) \<or> 256 \<le> k" for k
    using wheel_invD(4) [OF inv, of k x] by (cases "k < 256") auto
  have t: "t = (upd_node x (\<lambda>n. \<lparr>t_expires = e, t_fn = fn, t_data = d, t_magic = TIMER_MAGIC, t_active = True,
      t_next = tv1 s (tv1_index e)\<rparr>) s)\<lparr>node_used := (node_used s)(x := True), tv1 := (tv1 s)(tv1_index e := Some x)\<rparr>"
    using add fi by (simp add: timer_add_def timer_node_alloc_def ready zero_node_def upd_node_def Let_def)
      (auto intro!: timers.equality)
  show "node_pool t x = \<lparr>t_expires = e, t_fn = fn, t_data = d, t_magic = TIMER_MAGIC, t_active = True, t_next = tv1 s (tv1_index e)\<rparr>"
    "jiffies t = jiffies s" "timers.more t = timers.more s" "node_used t = (node_used s)(x := True)" "pool_ready t"
    using wheel_invD(1) [OF inv] by (simp_all add: t)
  show "node_pool t y = node_pool s y" if "y \<noteq> x" using that by (simp add: t)
  have tnx: "tnx t = (tnx s)(x := tv1 s (tv1_index e))" by (simp add: t tnx_def fun_eq_iff)
  show "wheel_inv t (B(tv1_index e := x # B (tv1_index e)))"
    unfolding wheel_inv_def
  proof (intro conjI allI impI ballI)
    show "pool_ready t" using wheel_invD(1) [OF inv] by (simp add: t)
    fix k :: nat assume k: "k < 256"
    have old: "sll (tnx t) (tv1 s k) (B k)"
      unfolding tnx using wheel_invD(2) [OF inv k] notin [of k] k by (simp add: sll_upd_other)
    show "sll (tnx t) (tv1 t k) ((B(tv1_index e := x # B (tv1_index e))) k)"
      using old by (cases "k = tv1_index e") (simp_all add: t [THEN arg_cong [where f = tv1]] tnx)
    fix y assume y: "y \<in> set ((B(tv1_index e := x # B (tv1_index e))) k)"
    show "y < MAX_TIMER_NODES" "node_used t y" "tv1_index (t_expires (node_pool t y)) = k"
      using y wheel_invD(3-5) [OF inv k, of y] X by (auto simp: t split: if_splits)
  qed
qed

section \<open>Callbacks\<close>

text \<open>
  A callback may arm timers, for any tick, this one's bucket included, and do what it likes outside
  of the wheel: it puts nodes in front of buckets and leaves those in use as they are.  The
  callbacks of the repository are of this kind.
\<close>

definition arms_only :: "(timer_fn \<Rightarrow> u64 \<Rightarrow> 'z timers_scheme \<Rightarrow> 'z timers_scheme) \<Rightarrow> bool" where
  "arms_only cb \<longleftrightarrow> (\<forall>f d s B. wheel_inv s B \<longrightarrow>
     (\<exists>N. wheel_inv (cb f d s) (\<lambda>k. N k @ B k)) \<and> jiffies (cb f d s) = jiffies s \<and>
     (\<forall>y. node_used s y \<longrightarrow> node_used (cb f d s) y \<and> node_pool (cb f d s) y = node_pool s y))"

lemma arms_onlyD:
  assumes "arms_only cb" and "wheel_inv s B"
  obtains N where "wheel_inv (cb f d s) (\<lambda>k. N k @ B k)" and "jiffies (cb f d s) = jiffies s"
    and "\<And>y. node_used s y \<Longrightarrow> node_used (cb f d s) y \<and> node_pool (cb f d s) y = node_pool s y"
  using assms unfolding arms_only_def by blast

lemma timer_add_arms:
  assumes inv: "wheel_inv s B"
  shows "(\<exists>N. wheel_inv (snd (timer_add e f d s)) (\<lambda>k. N k @ B k)) \<and> jiffies (snd (timer_add e f d s)) = jiffies s \<and>
     (\<forall>y. node_used s y \<longrightarrow> node_used (snd (timer_add e f d s)) y \<and> node_pool (snd (timer_add e f d s)) y = node_pool s y)"
proof (cases "fst (timer_add e f d s)")
  case None
  have "pool_init s = s" using wheel_invD(1) [OF inv] by (simp add: pool_init_def)
  then have "snd (timer_add e f d s) = s"
    using None by (auto simp: timer_add_def timer_node_alloc_def Let_def split: option.splits)
  moreover have "\<exists>N. wheel_inv s (\<lambda>k. N k @ B k)" by (rule exI [where x = "\<lambda>k. []"]) (use inv in simp)
  ultimately show ?thesis by simp
next
  case (Some x)
  then have r: "timer_add e f d s = (Some x, snd (timer_add e f d s))" by (simp add: prod_eq_iff)
  note A = timer_add_ok [OF inv r]
  let ?t = "snd (timer_add e f d s)" and ?N = "\<lambda>k. if k = tv1_index e then [x] else []"
  have "(\<lambda>k. ?N k @ B k) = B(tv1_index e := x # B (tv1_index e))" by (auto simp: fun_eq_iff)
  then have "wheel_inv ?t (\<lambda>k. ?N k @ B k)" using A(1) by simp
  moreover have "node_used ?t y \<and> node_pool ?t y = node_pool s y" if "node_used s y" for y
    using A(4) [of y] A(7,8) that by (cases "y = x") auto
  ultimately show ?thesis using A(5) by (intro conjI exI [of _ ?N]) simp_all
qed

text \<open>
  The rest of a walk.  The nodes in use that are due in the rest of the bucket become inactive and no
  others, what was in a bucket stays in it otherwise, and a condition \<open>called\<close> that the function of
  such a node establishes holds in the end, if all callbacks keep it.
\<close>

lemma timer_walk_spec:
  assumes cb: "arms_only cb" and keep: "\<forall>g a u. called (timers.more u) \<longrightarrow> called (timers.more (cb g a u))"
    and inv: "wheel_inv s B" and idx: "idx < 256" and B: "B idx = N @ as @ xs"
  shows "\<exists>t C. timer_walk cb idx (lastp None as) (headp xs None) s = Some t \<and> wheel_inv t C \<and>
    jiffies t = jiffies s \<and> (\<forall>k<256. k \<noteq> idx \<longrightarrow> set (B k) \<subseteq> set (C k)) \<and>
    set as \<union> {y \<in> set xs. \<not> due s y} \<subseteq> set (C idx) \<and>
    (\<forall>y. node_used s y \<longrightarrow> node_used t y \<and> unlinked (node_pool t y) =
       unlinked (if y \<in> set xs \<and> due s y then (node_pool s y)\<lparr>t_active := False\<rparr> else node_pool s y)) \<and>
    (called (timers.more s) \<or>
       (\<exists>x\<in>set xs. due s x \<and> (\<exists>f. t_fn (node_pool s x) = Some f \<and>
          (\<forall>u. jiffies u = jiffies s \<longrightarrow> called (timers.more (cb f (t_data (node_pool s x)) u))))) \<longrightarrow>
     called (timers.more t))"
  using inv B
proof (induction xs arbitrary: s B N as)
  case Nil
  then show ?case by (intro exI [of _ s] exI [of _ B]) (auto simp: timer_walk.simps)
next
  case (Cons x xs)
  note D = wheel_invD [OF Cons.prems(1)]
  have l: "sll (tnx s) (tv1 s idx) ((N @ as) @ x # xs)" using D(2) [OF idx] Cons.prems(2) by simp
  have xn: "t_next (node_pool s x) = headp xs None"
  proof -
    from sll_append [OF l] have "sll (tnx s) (tnx s x) xs" by simp
    from sll_head [OF this] show ?thesis by (simp add: tnx_def)
  qed
  have x: "node_used s x" using D(4) [OF idx, of x] Cons.prems(2) by simp
  show ?case
  proof (cases "due s x")
    case False
    have B': "B idx = N @ (as @ [x]) @ xs" using Cons.prems(2) by simp
    have step: "timer_walk cb idx (lastp None as) (headp (x # xs) None) s =
        timer_walk cb idx (lastp None (as @ [x])) (headp xs None) s"
      using False xn unfolding due_def by (subst timer_walk.simps) auto
    have same: "set as \<union> {y \<in> set (x # xs). \<not> due s y} = set (as @ [x]) \<union> {y \<in> set xs. \<not> due s y}"
      "(y \<in> set (x # xs) \<and> due s y) = (y \<in> set xs \<and> due s y)"
      "(\<exists>y\<in>set (x # xs). due s y \<and> P y) = (\<exists>y\<in>set xs. due s y \<and> P y)" for y P
      using False by auto
    show ?thesis unfolding step same by (rule Cons.IH [OF Cons.prems(1) B'])
  next
    case True
    let ?u = "unlink_node idx (lastp None as) x s" and ?v = "fire cb idx (lastp None as) x s"
    let ?B = "B(idx := (if as = [] then [] else N) @ as @ xs)"
    from sll_distinct [OF l] have np: "lastp None as \<noteq> Some x" and mem: "x \<notin> set xs"
      by (cases as rule: rev_cases; simp)+
    note F = unlink_node_sel [OF np, of idx s] and uinv = unlink_inv [OF Cons.prems(1) idx Cons.prems(2)]
    have fired: "(\<exists>M. wheel_inv ?v (\<lambda>k. M k @ ?B k)) \<and> jiffies ?v = jiffies s \<and>
        (\<forall>y. node_used s y \<longrightarrow> node_used ?v y \<and> node_pool ?v y = node_pool ?u y) \<and>
        (called (timers.more s) \<longrightarrow> called (timers.more ?v)) \<and>
        (\<forall>f. t_fn (node_pool s x) = Some f \<longrightarrow> timers.more ?v = timers.more (cb f (t_data (node_pool s x)) ?u))"
    proof (cases "t_fn (node_pool s x)")
      case None
      then have v: "?v = ?u\<lparr>running_timer := None\<rparr>" by (simp add: fire_eq)
      have "wheel_inv ?v B' = wheel_inv ?u B'" for B' unfolding v by (rule wheel_inv_keeps) simp_all
      with uinv have "wheel_inv ?v ?B" by blast
      then have "wheel_inv ?v (\<lambda>k. [] @ ?B k)" unfolding append_Nil .
      then have "\<exists>M. wheel_inv ?v (\<lambda>k. M k @ ?B k)" by (rule exI [where x = "\<lambda>k. []"])
      then show ?thesis using F(1,3,7) None by (simp add: v)
    next
      case (Some f)
      then have v: "?v = (cb f (t_data (node_pool s x)) ?u)\<lparr>running_timer := None\<rparr>" by (simp add: fire_eq)
      obtain M where M: "wheel_inv (cb f (t_data (node_pool s x)) ?u) (\<lambda>k. M k @ ?B k)"
        "jiffies (cb f (t_data (node_pool s x)) ?u) = jiffies ?u"
        "\<And>y. node_used ?u y \<Longrightarrow> node_used (cb f (t_data (node_pool s x)) ?u) y \<and>
          node_pool (cb f (t_data (node_pool s x)) ?u) y = node_pool ?u y"
        by (rule arms_onlyD [OF cb uinv]) blast
      have "wheel_inv ?v B' = wheel_inv (cb f (t_data (node_pool s x)) ?u) B'" for B'
        unfolding v by (rule wheel_inv_keeps) simp_all
      with M(1) have "\<exists>M. wheel_inv ?v (\<lambda>k. M k @ ?B k)" by blast
      moreover have "called (timers.more s) \<longrightarrow> called (timers.more ?v)"
        using keep F(7) by (simp add: v)
      ultimately show ?thesis using M(2,3) F(1,3) Some by (simp add: v)
    qed
    then obtain M where vinv: "wheel_inv ?v (\<lambda>k. M k @ ?B k)" and jv: "jiffies ?v = jiffies s" by blast
    have same: "unlinked (node_pool ?v y) = unlinked (node_pool s y)" if "node_used s y" "y \<noteq> x" for y
      using fired F(6) [of y] that by simp
    have self: "unlinked (node_pool ?v x) = unlinked ((node_pool s x)\<lparr>t_active := False\<rparr>)"
      using fired F(6) [of x] x by simp
    have used: "node_used s y" if "y \<in> set xs" for y using D(4) [OF idx, of y] Cons.prems(2) that by simp
    have due: "due ?v y = due s y" if y: "y \<in> set xs" for y
    proof -
      have "y \<noteq> x" using y mem by auto
      from unlinked_eqD(1,4) [OF same [OF used [OF y] this]] jv show ?thesis by (simp add: due_def)
    qed
    have ndue: "\<not> due ?v x" using unlinked_eqD(4) [OF self] by (simp add: due_def)
    have split: "(\<lambda>k. M k @ ?B k) idx = (M idx @ (if as = [] then [] else N)) @ as @ xs" by simp
    from Cons.IH [OF vinv split] obtain t C where
      t: "timer_walk cb idx (lastp None as) (headp xs None) ?v = Some t" "wheel_inv t C" "jiffies t = jiffies ?v" and
      C: "\<forall>k<256. k \<noteq> idx \<longrightarrow> set (M k @ ?B k) \<subseteq> set (C k)"
        "set as \<union> {y \<in> set xs. \<not> due ?v y} \<subseteq> set (C idx)" and
      n: "\<forall>y. node_used ?v y \<longrightarrow> node_used t y \<and> unlinked (node_pool t y) =
        unlinked (if y \<in> set xs \<and> due ?v y then (node_pool ?v y)\<lparr>t_active := False\<rparr> else node_pool ?v y)" and
      c: "called (timers.more ?v) \<or>
        (\<exists>x\<in>set xs. due ?v x \<and> (\<exists>f. t_fn (node_pool ?v x) = Some f \<and>
          (\<forall>u. jiffies u = jiffies ?v \<longrightarrow> called (timers.more (cb f (t_data (node_pool ?v x)) u))))) \<longrightarrow>
        called (timers.more t)" by blast
    have step: "timer_walk cb idx (lastp None as) (headp (x # xs) None) s = Some t"
      using t(1) True xn by (subst timer_walk.simps) (simp add: due_def)
    have nodes: "node_used t y \<and> unlinked (node_pool t y) =
        unlinked (if y \<in> set (x # xs) \<and> due s y then (node_pool s y)\<lparr>t_active := False\<rparr> else node_pool s y)"
      if y: "node_used s y" for y
    proof -
      have vy: "node_used ?v y" using fired y by blast
      show ?thesis
      proof (cases "y = x")
        case True
        with n vy mem self \<open>due s x\<close> show ?thesis by simp
      next
        case False
        note same = same [OF y False]
        have "unlinked ((node_pool ?v y)\<lparr>t_active := False\<rparr>) = unlinked ((node_pool s y)\<lparr>t_active := False\<rparr>)"
          using same by (cases "node_pool ?v y"; cases "node_pool s y") (simp add: unlinked_def)
        with n vy same due False show ?thesis by auto
      qed
    qed
    have calls: "called (timers.more t)" if "called (timers.more s) \<or>
       (\<exists>y\<in>set (x # xs). due s y \<and> (\<exists>f. t_fn (node_pool s y) = Some f \<and>
          (\<forall>u. jiffies u = jiffies s \<longrightarrow> called (timers.more (cb f (t_data (node_pool s y)) u)))))"
      using that
    proof (elim disjE bexE)
      assume "called (timers.more s)"
      with fired c show ?thesis by blast
    next
      fix y assume y: "y \<in> set (x # xs)" "due s y \<and> (\<exists>f. t_fn (node_pool s y) = Some f \<and>
          (\<forall>u. jiffies u = jiffies s \<longrightarrow> called (timers.more (cb f (t_data (node_pool s y)) u))))"
      show ?thesis
      proof (cases "y = x")
        case True
        with y F(3) fired have "called (timers.more ?v)" by auto
        with c show ?thesis by blast
      next
        case False
        with y have yx: "y \<in> set xs" by simp
        have "t_fn (node_pool ?v y) = t_fn (node_pool s y)" "t_data (node_pool ?v y) = t_data (node_pool s y)"
          using unlinked_eqD(2,3) [OF same [OF used [OF yx] False]] by simp_all
        with y yx due jv c show ?thesis by auto
      qed
    qed
    have "set as \<union> {y \<in> set (x # xs). \<not> due s y} \<subseteq> set (C idx)" using C(2) due True by auto
    moreover have "\<forall>k<256. k \<noteq> idx \<longrightarrow> set (B k) \<subseteq> set (C k)" using C(1) by auto
    ultimately show ?thesis using step t(2,3) jv nodes calls by (intro exI [of _ t] exI [of _ C]) simp
  qed
qed

text \<open>What one \<open>timer_run\<close> does.\<close>

lemma timer_run_ok:
  fixes s :: "'z timers_scheme"
  assumes cb: "arms_only cb" and keep: "\<forall>g a u. called (timers.more u) \<longrightarrow> called (timers.more (cb g a u))"
    and inv: "wheel_inv s B"
  defines "k \<equiv> tv1_index (jiffies s)"
  shows "\<exists>t C. timer_run cb s = Some t \<and> wheel_inv t C \<and> jiffies t = jiffies s \<and>
    (\<forall>j<256. {y \<in> set (B j). \<not> (j = k \<and> due s y)} \<subseteq> set (C j)) \<and>
    (\<forall>y. node_used s y \<longrightarrow> node_used t y \<and> unlinked (node_pool t y) =
       unlinked (if y \<in> set (B k) \<and> due s y then (node_pool s y)\<lparr>t_active := False\<rparr> else node_pool s y)) \<and>
    (called (timers.more s) \<or>
       (\<exists>x\<in>set (B k). due s x \<and> (\<exists>f. t_fn (node_pool s x) = Some f \<and>
          (\<forall>u. jiffies u = jiffies s \<longrightarrow> called (timers.more (cb f (t_data (node_pool s x)) u))))) \<longrightarrow>
     called (timers.more t))"
proof -
  have k: "k < 256" by (simp add: k_def tv1_index_less)
  have B: "B k = [] @ [] @ B k" by simp
  from timer_walk_spec [OF cb keep inv k B] obtain t C where
    t: "timer_walk cb k (lastp None []) (headp (B k) None) s = Some t" "wheel_inv t C" "jiffies t = jiffies s" and
    C: "\<forall>j<256. j \<noteq> k \<longrightarrow> set (B j) \<subseteq> set (C j)" "set [] \<union> {y \<in> set (B k). \<not> due s y} \<subseteq> set (C k)" and
    n: "\<forall>y. node_used s y \<longrightarrow> node_used t y \<and> unlinked (node_pool t y) =
       unlinked (if y \<in> set (B k) \<and> due s y then (node_pool s y)\<lparr>t_active := False\<rparr> else node_pool s y)" and
    c: "called (timers.more s) \<or>
       (\<exists>x\<in>set (B k). due s x \<and> (\<exists>f. t_fn (node_pool s x) = Some f \<and>
          (\<forall>u. jiffies u = jiffies s \<longrightarrow> called (timers.more (cb f (t_data (node_pool s x)) u))))) \<longrightarrow>
       called (timers.more t)" by blast
  have "tv1 s k = headp (B k) None" by (rule sll_head [OF wheel_invD(2) [OF inv k]])
  then have run: "timer_run cb s = Some (t\<lparr>timer_jiffies := jiffies t\<rparr>)"
    using t(1) by (simp add: timer_run_def k_def)
  have "wheel_inv (t\<lparr>timer_jiffies := jiffies t\<rparr>) C"
    using t(2) wheel_inv_keeps [of "t\<lparr>timer_jiffies := jiffies t\<rparr>" t] by simp
  moreover have "\<forall>j<256. {y \<in> set (B j). \<not> (j = k \<and> due s y)} \<subseteq> set (C j)"
    using C by auto
  ultimately show ?thesis using run t(3) n c
    by (intro exI [of _ "t\<lparr>timer_jiffies := jiffies t\<rparr>"] exI [of _ C]) simp
qed

section \<open>Properties\<close>



text \<open>\<open>timer_run\<close> ends, and of the timers in use exactly those that are in the current tick's bucket,
  active and not past their deadline before now become inactive; every other timer of the wheel
  keeps its place, deadline and state, the inactive ones too.\<close>

theorem timer_run_fires_due:
  assumes "arms_only cb" and "wheel_inv s B"
  shows "\<exists>t C. timer_run cb s = Some t \<and> wheel_inv t C \<and>
    (\<forall>j<256. {y \<in> set (B j). \<not> (j = tv1_index (jiffies s) \<and> due s y)} \<subseteq> set (C j)) \<and>
    (\<forall>y. node_used s y \<longrightarrow> t_expires (node_pool t y) = t_expires (node_pool s y) \<and>
       t_active (node_pool t y) =
         (t_active (node_pool s y) \<and> \<not> (y \<in> set (B (tv1_index (jiffies s))) \<and> due s y)))"
proof -
  from timer_run_ok [where called = "\<lambda>z. True", OF assms(1) _ assms(2)] obtain t C where
    t: "timer_run cb s = Some t" "wheel_inv t C"
      "\<forall>j<256. {y \<in> set (B j). \<not> (j = tv1_index (jiffies s) \<and> due s y)} \<subseteq> set (C j)" and
    n: "\<And>y. node_used s y \<Longrightarrow> unlinked (node_pool t y) = unlinked (if y \<in> set (B (tv1_index (jiffies s))) \<and> due s y
        then (node_pool s y)\<lparr>t_active := False\<rparr> else node_pool s y)" by blast
  have "t_expires (node_pool t y) = t_expires (node_pool s y) \<and> t_active (node_pool t y) =
      (t_active (node_pool s y) \<and> \<not> (y \<in> set (B (tv1_index (jiffies s))) \<and> due s y))" if "node_used s y" for y
    using unlinked_eqD(1,4) [OF n [OF that]] by auto
  with t show ?thesis by blast
qed



lemma bucket_next:
  assumes "wheel_inv s B" and "k < 256" and "B k = as @ x # xs"
  shows "tnx s x = headp xs None" and "distinct (as @ x # xs)"
proof -
  have l: "sll (tnx s) (tv1 s k) (as @ x # xs)" using wheel_invD(2) [OF assms(1,2)] assms(3) by simp
  from sll_append [OF l] have "sll (tnx s) (tnx s x) xs" by simp
  then show "tnx s x = headp xs None" by (rule sll_head)
  from l show "distinct (as @ x # xs)" by (rule sll_distinct)
qed

text \<open>Returning the node of a timer that is still in the wheel cuts its bucket off behind it.\<close>

lemma timer_free_cuts:
  assumes inv: "wheel_inv s B" and k: "k < 256" and B: "B k = as @ x # bs" and y: "y \<in> set bs"
  defines "t \<equiv> timer_free (Some x) (timer_del (Some x) s)"
  shows "sll (tnx t) (tv1 t k) (as @ [x]) \<and> node_pool t y = node_pool s y \<and> node_used t y \<and>
    (\<forall>j xs. sll (tnx t) (tv1 t j) xs \<longrightarrow> j < 256 \<longrightarrow> y \<notin> set xs)"
proof -
  note D = wheel_invD [OF inv] and nx = bucket_next [OF inv k B]
  have x: "x < MAX_TIMER_NODES" using D(3) [OF k, of x] B by simp
  have t: "node_pool t = (node_pool s)(x := zero_node)" "tv1 t = tv1 s"
    "node_used t = (node_used s)(x := False)"
    using x by (simp_all add: t_def timer_free_def timer_node_free_def timer_del_def)
  have tnx: "tnx t = (tnx s)(x := None)" by (auto simp: tnx_def t zero_node_def fun_eq_iff)
  have ne: "y \<noteq> x" "y \<notin> set as" using nx(2) y by auto
  have cut: "sll (tnx t) (tv1 t k) (as @ [x])"
  proof -
    have "sll nxt p (as @ x # bs) \<Longrightarrow> distinct (as @ x # bs) \<Longrightarrow> sll (nxt(x := None)) p (as @ [x])" for nxt p
      by (induction as arbitrary: p) auto
    then show ?thesis using D(2) [OF k] B nx(2) unfolding tnx t(2) by simp
  qed
  have "y \<notin> set xs" if "sll (tnx t) (tv1 t j) xs" "j < 256" for j xs
  proof (cases "j = k")
    case True
    then have "xs = as @ [x]" using sll_unique [OF that(1)] cut by simp
    then show ?thesis using ne by simp
  next
    case False
    have "x \<notin> set (B j)" using buckets_disjoint [OF inv k that(2), of x] B False by auto
    then have "sll (tnx t) (tv1 t j) (B j)" using D(2) [OF that(2)] by (simp add: tnx t(2) sll_upd_other)
    then have "xs = B j" using sll_unique [OF that(1)] by simp
    moreover have "y \<notin> set (B j)" using buckets_disjoint [OF inv k that(2), of y] B y False by auto
    ultimately show ?thesis by simp
  qed
  moreover have "node_used t y" using D(4) [OF k, of y] B y ne by (simp add: t)
  ultimately show ?thesis using cut ne by (simp add: t)
qed

text \<open>
  An empty wheel at tick 1000, whose state beyond the timers is a log of the calls, a callback that
  logs its call and arms an alarm 256 ticks ahead, in the bucket of this tick, and a wheel with two
  timers in one bucket.
\<close>

definition log_and_rearm :: "timer_fn \<Rightarrow> u64 \<Rightarrow> (timer_fn \<times> u64 \<times> u64) list timers_scheme
    \<Rightarrow> (timer_fn \<times> u64 \<times> u64) list timers_scheme" where
  "log_and_rearm f d s =
     timers.more_update (\<lambda>l. (f, d, jiffies s) # l) (snd (timer_add (jiffies s + 256) (Some AlarmCallback) d s))"



lemma more_update_wheel:
  "node_pool (timers.more_update g s) = node_pool s" "node_used (timers.more_update g s) = node_used s"
  "jiffies (timers.more_update g s) = jiffies s" "wheel_inv (timers.more_update g s) B = wheel_inv s B"
  by (cases s; simp; fail)+ (rule wheel_inv_keeps; cases s; simp)

lemma log_and_rearm_arms: "arms_only log_and_rearm"
  using timer_add_arms unfolding arms_only_def log_and_rearm_def more_update_wheel by blast

definition wheel_demo :: "(timer_fn \<times> u64 \<times> u64) list timers_scheme" where
  "wheel_demo = \<lparr>node_pool = (\<lambda>i. zero_node), node_used = (\<lambda>i. False), pool_ready = True,
     tv1 = (\<lambda>k. None), tv2 = (\<lambda>k. None), tv3 = (\<lambda>k. None), tv4 = (\<lambda>k. None), tv5 = (\<lambda>k. None),
     timer_jiffies = 1000, running_timer = None, jiffies = 1000, \<dots> = []\<rparr>"

lemma wheel_demo_inv: "wheel_inv wheel_demo (\<lambda>k. [])" and wheel_demo_jiffies: "jiffies wheel_demo = 1000"
  by (simp_all add: wheel_inv_def wheel_demo_def)

lemma demo_add: "\<exists>t. timer_add e fn d wheel_demo = (Some 0, t)"
proof -
  have "first_idx (\<lambda>i. \<not> node_used wheel_demo i) MAX_TIMER_NODES = Some 0"
    by (simp add: first_idx_Some_iff MAX_TIMER_NODES_def wheel_demo_def)
  then show ?thesis
    by (simp add: timer_add_def timer_node_alloc_def pool_init_def wheel_demo_def Let_def)
qed


lemma two_timers:
  "\<exists>s :: (timer_fn \<times> u64 \<times> u64) list timers_scheme.
     wheel_inv s (\<lambda>k. if k = 88 then [1, 0] else []) \<and> jiffies s = 1000"
proof -
  have i: "tv1_index 2136 = 88" "tv1_index 1112 = 88" by (simp_all add: tv1_index_def TVEC_SIZE_def)
  from demo_add obtain s where s: "timer_add 2136 None 0 wheel_demo = (Some 0, s)" by blast
  note A = timer_add_ok [OF wheel_demo_inv s]
  have used: "node_used s = (\<lambda>i. i = 0)" "pool_ready s"
    using A(8,9) by (auto simp: wheel_demo_def fun_eq_iff)
  have "first_idx (\<lambda>i. \<not> node_used s i) MAX_TIMER_NODES = Some 1"
    by (simp add: first_idx_Some_iff MAX_TIMER_NODES_def used)
  then obtain t where t: "timer_add 1112 None 0 s = (Some 1, t)"
    using used(2) by (simp add: timer_add_def timer_node_alloc_def pool_init_def Let_def)
  note C = timer_add_ok [OF A(1) t]
  have eq: "(((\<lambda>k. []) (tv1_index 2136 := [0]))(tv1_index 1112 := 1 # ((\<lambda>k. []) (tv1_index 2136 := [0])) (tv1_index 1112)))
      = (\<lambda>k. if k = 88 then [1, 0] else [])" by (auto simp: i fun_eq_iff)
  show ?thesis using C(1) [unfolded eq] C(5) A(5) wheel_demo_jiffies by auto
qed

lemma timer_run_fires_due_witness:
  "\<exists>t C. timer_run log_and_rearm wheel_demo = Some t \<and> wheel_inv t C"
  using timer_run_fires_due [OF log_and_rearm_arms wheel_demo_inv] by blast

end
