(* ===== verification/TimeServ.thy ===== *)
theory TimeServ
  imports Timer Proc
begin

text \<open>
  Time (\<open>33_PCS/01_schedular/src/uiox_kix_timekeeping.c\<close> and \<open>uiox_kix_time_service.c\<close>): the choice of
  the timer source, the wall clock and its adjustment, alarms, interval timers and POSIX timers on
  top of the timer wheel.  An \<open>int64_t\<close> is an integer and its cast to \<open>uint64_t\<close> is \<open>of_int\<close>; a
  pointer to a result is an option, the value written is part of the result.  The scheduler's
  process is its 40_psa entry, by index.
\<close>

definition HZ :: u64 where "HZ = 1000"
definition TICK_NSEC :: u64 where "TICK_NSEC = 1000000000 div HZ"
definition MAX_POSIX_TIMERS :: nat where "MAX_POSIX_TIMERS = 16"
definition UIOX_CLOCK_REALTIME :: nat where "UIOX_CLOCK_REALTIME = 0"

record timeval =
  tv_sec :: int
  tv_usec :: u32

record itimerval =
  it_interval :: timeval
  it_value :: timeval

record xtime =
  xt_sec :: int
  xt_nsec :: u32

record posix_timer =
  pt_clock :: nat
  pt_spec :: itimerval
  pt_overruns :: u64
  pt_active :: bool
  pt_node :: "nat option"
  pt_id :: int

record tserv = timers +
  xtime :: xtime
  posix_timers :: "nat \<Rightarrow> posix_timer"
  posix_pool_init :: bool
  tprocs :: "nat \<Rightarrow> proc"
  monotonic_base :: u64
  active_timer :: "nat option"

section \<open>Timekeeping\<close>

text \<open>The sources in the table, and whether each has a monotonic clock.\<close>

datatype timer_source = SRC_NONE | SRC_PIT | SRC_TSC | SRC_HPET

definition timer_table :: "timer_source list" where
  "timer_table = [SRC_HPET, SRC_TSC, SRC_PIT, SRC_NONE]"

definition source_monotonic :: "timer_source \<Rightarrow> (tserv \<Rightarrow> u64) option" where
  "source_monotonic src =
     (case src of SRC_NONE \<Rightarrow> None
      | SRC_PIT \<Rightarrow> Some (\<lambda>s. jiffies s * TICK_NSEC)
      | SRC_TSC \<Rightarrow> Some (\<lambda>s. jiffies s * TICK_NSEC)
      | SRC_HPET \<Rightarrow> Some (\<lambda>s. jiffies s * TICK_NSEC))"

definition select_timer :: "tserv \<Rightarrow> nat \<times> tserv" where
  "select_timer s =
     (case first_idx (\<lambda>i. timer_table ! i \<noteq> SRC_NONE) (length timer_table) of
        Some i \<Rightarrow> (i, s\<lparr>active_timer := Some i\<rparr>)
      | None \<Rightarrow> (length timer_table - 1, s\<lparr>active_timer := Some (length timer_table - 1)\<rparr>))"

definition get_cmos_time :: "tserv \<Rightarrow> int" where
  "get_cmos_time s = xt_sec (xtime s)"

definition timekeeping_init :: "tserv \<Rightarrow> tserv" where
  "timekeeping_init s =
     (let s = snd (select_timer s);
          s = s\<lparr>xtime := (xtime s)\<lparr>xt_sec := get_cmos_time s\<rparr>\<rparr>;
          s = s\<lparr>xtime := (xtime s)\<lparr>xt_nsec := 0\<rparr>\<rparr>
      in s\<lparr>monotonic_base := 0\<rparr>)"

definition timekeeping_get_seconds :: "tserv \<Rightarrow> int" where
  "timekeeping_get_seconds s = xt_sec (xtime s)"

definition timekeeping_monotonic_ns :: "tserv \<Rightarrow> u64" where
  "timekeeping_monotonic_ns s =
     (case active_timer s of
        None \<Rightarrow> monotonic_base s
      | Some i \<Rightarrow> (case source_monotonic (timer_table ! i) of None \<Rightarrow> monotonic_base s | Some f \<Rightarrow> f s))"

section \<open>The wall clock\<close>

definition serv_time :: "tserv \<Rightarrow> int" where
  "serv_time s = xt_sec (xtime s)"

definition gettimeofday :: "timeval option \<Rightarrow> tserv \<Rightarrow> int \<times> timeval option" where
  "gettimeofday tv s =
     (if tv = None then (- 1, tv)
      else (0, Some \<lparr>tv_sec = xt_sec (xtime s), tv_usec = xt_nsec (xtime s) div 1000\<rparr>))"

text \<open>The carry loop of \<open>adjtimex\<close>.\<close>

function nsec_carry :: "int \<Rightarrow> u32 \<Rightarrow> int \<times> u32" where
  "nsec_carry sec ns = (if 1000000000 \<le> ns then nsec_carry (sec + 1) (ns - 1000000000) else (sec, ns))"
  by auto
termination
  by (relation "measure (\<lambda>(sec, ns). unat ns)") (auto simp: unat_sub word_le_nat_alt)

definition adjtimex :: "int \<Rightarrow> int \<Rightarrow> tserv \<Rightarrow> int \<times> tserv" where
  "adjtimex delta_sec delta_nsec s =
     (case nsec_carry (xt_sec (xtime s) + delta_sec) (of_int (sint (xt_nsec (xtime s)) + delta_nsec)) of
        (sec, ns) \<Rightarrow> (0, s\<lparr>xtime := \<lparr>xt_sec = sec, xt_nsec = ns\<rparr>\<rparr>))"

definition clock_gettime :: "nat \<Rightarrow> xtime option \<Rightarrow> tserv \<Rightarrow> int \<times> xtime option" where
  "clock_gettime cid res s =
     (if res = None then (- 1, None)
      else if cid = UIOX_CLOCK_REALTIME then (0, Some (xtime s))
      else (let ns = timekeeping_monotonic_ns s
            in (0, Some \<lparr>xt_sec = uint (ns div 1000000000), xt_nsec = ucast (ns mod 1000000000)\<rparr>)))"

definition clock_settime :: "nat \<Rightarrow> xtime option \<Rightarrow> tserv \<Rightarrow> int \<times> tserv" where
  "clock_settime cid x s =
     (case x of None \<Rightarrow> (- 1, s)
      | Some v \<Rightarrow> if cid \<noteq> UIOX_CLOCK_REALTIME then (- 1, s) else (0, s\<lparr>xtime := v\<rparr>))"

definition clock_getres :: "nat \<Rightarrow> xtime option \<Rightarrow> int \<times> xtime option" where
  "clock_getres cid res =
     (if res = None then (- 1, None) else (0, Some \<lparr>xt_sec = 0, xt_nsec = ucast TICK_NSEC\<rparr>))"

section \<open>Alarms\<close>

definition upd_tproc :: "nat \<Rightarrow> (proc \<Rightarrow> proc) \<Rightarrow> tserv \<Rightarrow> tserv" where
  "upd_tproc i f s = s\<lparr>tprocs := (tprocs s)(i := f (tprocs s i))\<rparr>"

text \<open>A difference of ticks is cut to 32 bits by the cast to \<open>unsigned int\<close>.\<close>

definition alarm_remaining :: "nat option \<Rightarrow> tserv \<Rightarrow> u32" where
  "alarm_remaining p s =
     (case p of
        None \<Rightarrow> 0
      | Some i \<Rightarrow>
          if p_alarm_active (tprocs s i) = 0 then 0
          else (let left = (if jiffies s < p_alarm_expire (tprocs s i) then p_alarm_expire (tprocs s i) - jiffies s else 0)
                in ucast (left div HZ)))"

definition serv_alarm :: "nat option \<Rightarrow> u32 \<Rightarrow> tserv \<Rightarrow> u32 \<times> tserv" where
  "serv_alarm p seconds s =
     (case p of
        None \<Rightarrow> (0, s)
      | Some i \<Rightarrow>
          (let remaining = alarm_remaining p s;
               s = upd_tproc i (\<lambda>x. x\<lparr>p_alarm_active := 0\<rparr>) s;
               s = (if 0 < seconds then
                      (let s = upd_tproc i (\<lambda>x. x\<lparr>p_alarm_expire := jiffies s + ucast seconds * HZ\<rparr>) s;
                           s = upd_tproc i (\<lambda>x. x\<lparr>p_alarm_active := 1\<rparr>) s
                       in snd (timer_add (p_alarm_expire (tprocs s i)) (Some AlarmCallback) (ucast (p_pid (tprocs s i))) s))
                    else s)
           in (remaining, s)))"

definition remaining_val :: "nat option \<Rightarrow> tserv \<Rightarrow> itimerval" where
  "remaining_val p s = \<lparr>it_interval = \<lparr>tv_sec = 0, tv_usec = 0\<rparr>,
     it_value = \<lparr>tv_sec = uint (alarm_remaining p s), tv_usec = 0\<rparr>\<rparr>"

definition serv_setitimer :: "nat option \<Rightarrow> itimerval option \<Rightarrow> itimerval option \<Rightarrow> tserv
    \<Rightarrow> int \<times> itimerval option \<times> tserv" where
  "serv_setitimer p new_val old_val s =
     (case new_val of
        None \<Rightarrow> (- 1, old_val, s)
      | Some v \<Rightarrow>
          if p = None then (- 1, old_val, s)
          else (0, (if old_val = None then None else Some (remaining_val p s)),
                snd (serv_alarm p (of_int (tv_sec (it_value v))) s)))"

definition serv_getitimer :: "nat option \<Rightarrow> itimerval option \<Rightarrow> tserv \<Rightarrow> int \<times> itimerval option" where
  "serv_getitimer p val s =
     (if p = None \<or> val = None then (- 1, val) else (0, Some (remaining_val p s)))"

section \<open>POSIX timers\<close>

definition upd_ptimer :: "nat \<Rightarrow> (posix_timer \<Rightarrow> posix_timer) \<Rightarrow> tserv \<Rightarrow> tserv" where
  "upd_ptimer i f s = s\<lparr>posix_timers := (posix_timers s)(i := f (posix_timers s i))\<rparr>"

definition zero_tv :: timeval where "zero_tv = \<lparr>tv_sec = 0, tv_usec = 0\<rparr>"

definition ensure_pool :: "tserv \<Rightarrow> tserv" where
  "ensure_pool s =
     (if posix_pool_init s then s
      else s\<lparr>posix_timers := (\<lambda>i. if i < MAX_POSIX_TIMERS
               then \<lparr>pt_clock = UIOX_CLOCK_REALTIME, pt_spec = \<lparr>it_interval = zero_tv, it_value = zero_tv\<rparr>,
                     pt_overruns = 0, pt_active = False, pt_node = None, pt_id = int i\<rparr>
               else posix_timers s i),
             posix_pool_init := True\<rparr>)"

definition posix_timer_expire :: "u64 \<Rightarrow> tserv \<Rightarrow> tserv" where
  "posix_timer_expire data s =
     (let idx = sint (ucast data :: u32) in
      if idx < 0 \<or> int MAX_POSIX_TIMERS \<le> idx then s
      else
        (let i = nat idx; s = upd_ptimer i (\<lambda>t. t\<lparr>pt_overruns := pt_overruns t + 1\<rparr>) s;
             every = tv_sec (it_interval (pt_spec (posix_timers s i))) in
         if 0 < every then
           (case timer_add (jiffies s + of_int every * HZ) (Some PosixTimerExpire) (of_int idx) s of
              (n, s) \<Rightarrow> upd_ptimer i (\<lambda>t. t\<lparr>pt_node := n\<rparr>) s)
         else upd_ptimer i (\<lambda>t. t\<lparr>pt_active := False\<rparr>) s))"

text \<open>The callbacks these services register, as an argument for \<open>timer_run\<close>.\<close>

definition serv_call :: "timer_fn \<Rightarrow> u64 \<Rightarrow> tserv \<Rightarrow> tserv" where
  "serv_call f data s = (case f of PosixTimerExpire \<Rightarrow> posix_timer_expire data s | _ \<Rightarrow> s)"

definition ptimer_create :: "nat \<Rightarrow> bool \<Rightarrow> tserv \<Rightarrow> int \<times> nat option \<times> tserv" where
  "ptimer_create cid has_out s =
     (if \<not> has_out then (- 1, None, s)
      else
        (let s = ensure_pool s in
         case first_idx (\<lambda>i. \<not> pt_active (posix_timers s i)) MAX_POSIX_TIMERS of
           Some i \<Rightarrow> (int i, Some i,
             upd_ptimer i (\<lambda>t. t\<lparr>pt_clock := cid, pt_overruns := 0, pt_active := False, pt_node := None\<rparr>) s)
         | None \<Rightarrow> (- 1, None, s)))"

definition ptimer_settime :: "nat option \<Rightarrow> itimerval option \<Rightarrow> tserv \<Rightarrow> int \<times> tserv" where
  "ptimer_settime t spec s =
     (case (t, spec) of
        (Some i, Some v) \<Rightarrow>
          (let s = upd_ptimer i (\<lambda>t. t\<lparr>pt_spec := v\<rparr>) s;
               s = (if pt_node (posix_timers s i) \<noteq> None
                    then upd_ptimer i (\<lambda>t. t\<lparr>pt_node := None\<rparr>) (timer_del (pt_node (posix_timers s i)) s)
                    else s);
               s = (if 0 < tv_sec (it_value v)
                    then (case timer_add (jiffies s + of_int (tv_sec (it_value v)) * HZ) (Some PosixTimerExpire)
                                (of_int (pt_id (posix_timers s i))) s of
                            (n, s) \<Rightarrow> upd_ptimer i (\<lambda>t. t\<lparr>pt_active := True\<rparr>) (upd_ptimer i (\<lambda>t. t\<lparr>pt_node := n\<rparr>) s))
                    else upd_ptimer i (\<lambda>t. t\<lparr>pt_active := False\<rparr>) s)
           in (0, s))
      | _ \<Rightarrow> (- 1, s))"

definition ptimer_gettime :: "nat option \<Rightarrow> itimerval option \<Rightarrow> tserv \<Rightarrow> int \<times> itimerval option" where
  "ptimer_gettime t res s =
     (case t of None \<Rightarrow> (- 1, res)
      | Some i \<Rightarrow> if res = None then (- 1, res) else (0, Some (pt_spec (posix_timers s i))))"

definition ptimer_getoverrun :: "nat option \<Rightarrow> tserv \<Rightarrow> int \<times> tserv" where
  "ptimer_getoverrun t s =
     (case t of None \<Rightarrow> (- 1, s)
      | Some i \<Rightarrow> (sint (ucast (pt_overruns (posix_timers s i)) :: u32), upd_ptimer i (\<lambda>t. t\<lparr>pt_overruns := 0\<rparr>) s))"

definition ptimer_delete :: "nat option \<Rightarrow> tserv \<Rightarrow> int \<times> tserv" where
  "ptimer_delete t s =
     (case t of None \<Rightarrow> (- 1, s)
      | Some i \<Rightarrow>
          (let s = (if pt_node (posix_timers s i) \<noteq> None
                    then upd_ptimer i (\<lambda>t. t\<lparr>pt_node := None\<rparr>)
                      (timer_free (pt_node (posix_timers s i)) (timer_del (pt_node (posix_timers s i)) s))
                    else s)
           in (0, upd_ptimer i (\<lambda>t. t\<lparr>pt_active := False\<rparr>) s)))"

section \<open>Properties\<close>

lemma serv_upd_sel [simp]:
  "node_pool (upd_tproc i f s) = node_pool s" "node_used (upd_tproc i f s) = node_used s"
  "pool_ready (upd_tproc i f s) = pool_ready s" "tv1 (upd_tproc i f s) = tv1 s" "jiffies (upd_tproc i f s) = jiffies s"
  "tprocs (upd_tproc i f s) = (tprocs s)(i := f (tprocs s i))"
  "node_pool (upd_ptimer i g s) = node_pool s" "node_used (upd_ptimer i g s) = node_used s"
  "pool_ready (upd_ptimer i g s) = pool_ready s" "tv1 (upd_ptimer i g s) = tv1 s" "jiffies (upd_ptimer i g s) = jiffies s"
  "posix_timers (upd_ptimer i g s) = (posix_timers s)(i := g (posix_timers s i))"
  "posix_pool_init (upd_ptimer i g s) = posix_pool_init s"
  by (simp_all add: upd_tproc_def upd_ptimer_def)

lemma wheel_inv_upd [simp]:
  "wheel_inv (upd_tproc i f s) B = wheel_inv s B" "wheel_inv (upd_ptimer i g s) B = wheel_inv s B"
  by (rule wheel_inv_keeps; simp)+

declare nsec_carry.simps [simp del]

lemma nsec_carry_total:
  "nsec_carry sec ns = (a, b) \<Longrightarrow> a * 1000000000 + uint b = sec * 1000000000 + uint ns \<and> uint b < 1000000000"
proof (induction sec ns rule: nsec_carry.induct)
  case (1 sec ns)
  show ?case
  proof (cases "1000000000 \<le> ns")
    case True
    then have "uint (ns - 1000000000) = uint ns - 1000000000"
      by (simp add: uint_sub_if' word_le_def)
    with 1 True show ?thesis by (simp add: nsec_carry.simps [of sec ns])
  next
    case False
    with 1(2) have "a = sec" "b = ns" by (simp_all add: nsec_carry.simps [of sec ns])
    with False show ?thesis by (simp add: word_le_def)
  qed
qed

lemma wrap32:
  fixes n d :: int
  assumes "0 \<le> n" and "n < 1000000000" and "- (2 ^ 31) \<le> d" and "d < 2 ^ 30"
  shows "(n + d) mod 2 ^ 32 = n + d + (if n + d < 0 then 2 ^ 32 else 0)"
proof (cases "n + d < 0")
  case True
  have "(n + d) mod 2 ^ 32 = (n + d + 2 ^ 32) mod 2 ^ 32" by simp
  also have "\<dots> = n + d + 2 ^ 32" by (rule mod_pos_pos_trivial) (use True assms in auto)
  finally show ?thesis using True by simp
next
  case False
  have "(n + d) mod 2 ^ 32 = n + d" by (rule mod_pos_pos_trivial) (use False assms in auto)
  with False show ?thesis by simp
qed

text \<open>\<open>adjtimex\<close> moves the wall clock by exactly its delta and leaves fewer than \<open>10^9\<close> nanoseconds
  when the nanoseconds do not go negative; when they do, the sum is read as an unsigned number and
  the clock ends up \<open>2^32\<close> nanoseconds, more than four seconds, ahead.\<close>

theorem adjtimex_total:
  assumes "uint (xt_nsec (xtime s)) < 1000000000" and "- (2 ^ 31) \<le> dn" and "dn < 2 ^ 30"
    and "adjtimex ds dn s = (rc, t)"
  shows "rc = 0 \<and> uint (xt_nsec (xtime t)) < 1000000000 \<and>
    xt_sec (xtime t) * 1000000000 + uint (xt_nsec (xtime t)) =
      xt_sec (xtime s) * 1000000000 + uint (xt_nsec (xtime s)) + ds * 1000000000 + dn +
      (if uint (xt_nsec (xtime s)) + dn < 0 then 2 ^ 32 else 0)"
proof -
  let ?n = "uint (xt_nsec (xtime s))"
  have s: "sint (xt_nsec (xtime s)) = ?n"
  proof -
    have lower: "- (2 ^ 31) \<le> ?n" by (rule order_trans [OF _ uint_ge_0]) simp
    have "sint (xt_nsec (xtime s)) = signed_take_bit 31 ?n" by (simp only: sint_uint) simp
    also have "\<dots> = ?n" by (rule signed_take_bit_int_eq_self [OF lower]) (use assms(1) in simp)
    finally show ?thesis .
  qed
  have u: "uint (of_int (?n + dn) :: u32) = ?n + dn + (if ?n + dn < 0 then 2 ^ 32 else 0)"
  proof -
    have ge: "0 \<le> ?n" by simp
    have "uint (of_int (?n + dn) :: u32) = (?n + dn) mod 2 ^ 32"
      by (simp only: uint_word_of_int) simp
    also have "\<dots> = ?n + dn + (if ?n + dn < 0 then 2 ^ 32 else 0)" by (rule wrap32 [OF ge assms(1-3)])
    finally show ?thesis .
  qed
  obtain a b where ab: "nsec_carry (xt_sec (xtime s) + ds) (of_int (?n + dn)) = (a, b)" by fastforce
  then have t: "rc = 0" "xtime t = \<lparr>xt_sec = a, xt_nsec = b\<rparr>" using assms(4) by (auto simp: adjtimex_def s)
  from nsec_carry_total [OF ab] t u show ?thesis by (simp add: algebra_simps)
qed

text \<open>Creating a POSIX timer does not reserve it: until \<open>timer_settime\<close> arms it, the next
  \<open>timer_create\<close> hands out the same timer again.\<close>

theorem ptimer_create_aliases:
  assumes "ptimer_create c True s = (tid, Some i, t)"
  shows "tid = int i \<and> i < MAX_POSIX_TIMERS \<and> (\<exists>u. ptimer_create d True t = (tid, Some i, u))"
proof -
  let ?e = "ensure_pool s"
  from assms have f: "first_idx (\<lambda>i. \<not> pt_active (posix_timers ?e i)) MAX_POSIX_TIMERS = Some i" "tid = int i"
    and t: "t = upd_ptimer i (\<lambda>t. t\<lparr>pt_clock := c, pt_overruns := 0, pt_active := False, pt_node := None\<rparr>) ?e"
    by (auto simp: ptimer_create_def Let_def split: option.splits)
  have "posix_pool_init ?e" by (simp add: ensure_pool_def)
  then have e: "ensure_pool t = t" by (simp add: t ensure_pool_def)
  have "first_idx (\<lambda>i. \<not> pt_active (posix_timers t i)) MAX_POSIX_TIMERS = Some i"
    using f(1) by (auto simp: first_idx_Some_iff t)
  then show ?thesis using f first_idx_SomeD [OF f(1)] by (simp add: ptimer_create_def e)
qed

text \<open>Deleting a POSIX timer that is armed drops the timers queued after it in its bucket: they stay
  active, their nodes in use, but no bucket leads to them any more.\<close>

theorem ptimer_delete_loses_rest:
  assumes "wheel_inv s B" and "pt_node (posix_timers s i) = Some x" and "k < 256" and "B k = as @ x # bs"
    and "y \<in> set bs" and "ptimer_delete (Some i) s = (rc, t)"
  shows "rc = 0 \<and> node_pool t y = node_pool s y \<and> node_used t y \<and>
    (\<forall>j xs. sll (tnx t) (tv1 t j) xs \<longrightarrow> j < 256 \<longrightarrow> y \<notin> set xs)"
proof -
  let ?u = "timer_free (Some x) (timer_del (Some x) s)"
  note L = timer_free_cuts [OF assms(1,3,4,5)]
  have t: "rc = 0" "t = upd_ptimer i (\<lambda>t. t\<lparr>pt_active := False\<rparr>) (upd_ptimer i (\<lambda>t. t\<lparr>pt_node := None\<rparr>) ?u)"
    using assms(2,6) by (auto simp: ptimer_delete_def)
  have "tnx t = tnx ?u" by (simp add: t(2) tnx_def fun_eq_iff)
  then show ?thesis using L by (simp add: t)
qed

lemma timer_add_succeeds:
  assumes "wheel_inv s B" and "a < MAX_TIMER_NODES" and "\<not> node_used s a"
  shows "\<exists>x t. timer_add e f d s = (Some x, t)"
proof -
  have ready: "pool_init s = s" using wheel_invD(1) [OF assms(1)] by (simp add: pool_init_def)
  obtain x where "first_idx (\<lambda>i. \<not> node_used s i) MAX_TIMER_NODES = Some x"
    using first_idx_ex [of a MAX_TIMER_NODES "\<lambda>i. \<not> node_used s i"] assms(2,3) by blast
  then show ?thesis by (simp add: timer_add_def timer_node_alloc_def ready Let_def)
qed

text \<open>The callbacks of the kernel arm timers and do nothing else to the wheel, so that
  \<open>timer_run_fires_due\<close> and the guarantee for a timer armed from outside hold with them.\<close>

lemma expire_arms:
  assumes "wheel_inv s B"
  shows "(\<exists>N. wheel_inv (posix_timer_expire d s) (\<lambda>k. N k @ B k)) \<and> jiffies (posix_timer_expire d s) = jiffies s \<and>
    (\<forall>y. node_used s y \<longrightarrow> node_used (posix_timer_expire d s) y \<and> node_pool (posix_timer_expire d s) y = node_pool s y)"
proof -
  let ?idx = "sint (ucast d :: u32)" and ?i = "nat (sint (ucast d :: u32))"
  let ?u = "upd_ptimer ?i (\<lambda>t. t\<lparr>pt_overruns := pt_overruns t + 1\<rparr>) s"
  let ?r = "timer_add (jiffies ?u + of_int (tv_sec (it_interval (pt_spec (posix_timers ?u ?i)))) * HZ)
    (Some PosixTimerExpire) (of_int ?idx) ?u"
  have uinv: "wheel_inv ?u B" using assms by simp
  have none: "\<exists>N. wheel_inv s (\<lambda>k. N k @ B k)" by (rule exI [where x = "\<lambda>k. []"]) (use assms in simp)
  have tinv: "(\<exists>N. wheel_inv t (\<lambda>k. N k @ B k)) \<and> jiffies t = jiffies s \<and>
      (\<forall>y. node_used s y \<longrightarrow> node_used t y \<and> node_pool t y = node_pool s y)"
    if "t = s \<or> t = ?u \<or> t = snd ?r" for t
    using that none timer_add_arms [OF uinv] by auto
  show ?thesis
  proof (cases "?idx < 0 \<or> int MAX_POSIX_TIMERS \<le> ?idx")
    case True
    then have "posix_timer_expire d s = s" by (simp only: posix_timer_expire_def Let_def if_True)
    with tinv [of s] show ?thesis by simp
  next
    case False
    then obtain g t where "posix_timer_expire d s = upd_ptimer ?i g t" "t = ?u \<or> t = snd ?r"
      by (cases "0 < tv_sec (it_interval (pt_spec (posix_timers ?u ?i)))")
        (simp_all only: posix_timer_expire_def Let_def split_beta if_False if_True, blast+)
    with tinv [of t] show ?thesis by auto
  qed
qed

lemma serv_call_arms_only: "arms_only serv_call"
  unfolding arms_only_def
proof (intro allI impI)
  fix f d s B
  assume inv: "wheel_inv (s :: tserv) B"
  have "\<exists>N. wheel_inv s (\<lambda>k. N k @ B k)" by (rule exI [where x = "\<lambda>k. []"]) (use inv in simp)
  then show "(\<exists>N. wheel_inv (serv_call f d s) (\<lambda>k. N k @ B k)) \<and> jiffies (serv_call f d s) = jiffies s \<and>
      (\<forall>y. node_used s y \<longrightarrow> node_used (serv_call f d s) y \<and> node_pool (serv_call f d s) y = node_pool s y)"
    using expire_arms [OF inv, of d] by (cases f) (simp_all add: serv_call_def)
qed

text \<open>
  The guarantee does not extend to a timer that a callback arms.  A POSIX timer with an interval of
  32 seconds, 32000 ticks, arms itself again in the bucket that is being walked; when the other timer
  of that bucket is due on the same tick, taking it out drops the new one, which stays active but is
  in no bucket any more and will never expire.
\<close>

lemma more_posix_timers: "timers.more t = timers.more s \<Longrightarrow> posix_timers t = posix_timers s" for s t :: tserv
  by (cases s; cases t) (simp add: timers.defs)

lemma small_data: "i < MAX_POSIX_TIMERS \<Longrightarrow> sint (ucast (of_nat i :: u64) :: u32) = int i"
proof -
  assume "i < MAX_POSIX_TIMERS"
  then have "i \<in> set [0..<16]" by (simp add: MAX_POSIX_TIMERS_def)
  then show ?thesis by (simp add: upt_rec) (elim disjE; simp)
qed

lemma same_bucket: "tv1_index (j + 32 * HZ) = tv1_index j"
proof -
  have "unat (j + 32 * HZ) mod 256 = (unat j + 125 * 256) mod 2 ^ 64 mod 256"
    by (simp only: unat_word_ariths) (simp add: HZ_def)
  also have "\<dots> = (unat j + 125 * 256) mod 256" by (rule mod_mod_cancel) simp
  also have "\<dots> = unat j mod 256" by (rule mod_mult_self1)
  finally show ?thesis by (simp only: tv1_index_mod)
qed

theorem rearmed_timer_lost:
  assumes inv: "wheel_inv s B" and B: "B (tv1_index (jiffies s)) = [x, y]" and due: "due s x" "due s y"
    and fx: "t_fn (node_pool s x) = Some PosixTimerExpire" "t_data (node_pool s x) = of_nat i" "i < MAX_POSIX_TIMERS"
    and every: "tv_sec (it_interval (pt_spec (posix_timers s i))) = 32" and fy: "t_fn (node_pool s y) = Some AlarmCallback"
    and free: "a < MAX_TIMER_NODES" "\<not> node_used s a"
  shows "\<exists>t z. timer_run serv_call s = Some t \<and> pt_node (posix_timers t i) = Some z \<and> node_used t z \<and>
    t_active (node_pool t z) \<and> t_expires (node_pool t z) = jiffies s + 32 * HZ \<and>
    (\<forall>k<256. \<forall>xs. sll (tnx t) (tv1 t k) xs \<longrightarrow> z \<notin> set xs)"
proof -
  let ?k = "tv1_index (jiffies s)" and ?bump = "\<lambda>t. t\<lparr>pt_overruns := pt_overruns t + 1\<rparr>"
  have k: "?k < 256" by (rule tv1_index_less)
  note D = wheel_invD [OF inv]
  have nx: "tnx s x = Some y" "tnx s y = None" "x \<noteq> y"
    using bucket_next [OF inv k, of "[]" x "[y]"] bucket_next [OF inv k, of "[x]" y "[]"] B by simp_all
  let ?u = "unlink_node ?k None x s" and ?w = "upd_ptimer i ?bump (unlink_node ?k None x s)"
  note U = unlink_node_sel [of None x ?k s, simplified]
  have uinv: "wheel_inv ?w (B(?k := [y]))" using unlink_inv [OF inv k, of "[]" "[]" x "[y]"] B by simp
  have "\<not> node_used ?w a" using free(2) U(1) by simp
  from timer_add_succeeds [OF uinv free(1) this] obtain z t where
    add: "timer_add (jiffies s + 32 * HZ) (Some PosixTimerExpire) (of_int (int i)) ?w = (Some z, t)" by blast
  note A = timer_add_ok [OF uinv add, unfolded same_bucket]
  have pt: "posix_timers ?u = posix_timers s" by (rule more_posix_timers [OF U(7)])
  let ?v = "fire serv_call ?k None x s"
  have v: "?v = (upd_ptimer i (\<lambda>t. t\<lparr>pt_node := Some z\<rparr>) t)\<lparr>running_timer := None\<rparr>"
    using fx every add small_data [OF fx(3)] U(3)
    by (simp add: fire_eq serv_call_def posix_timer_expire_def Let_def pt)
  have vinv: "wheel_inv ?v (B(?k := [z, y]))"
  proof -
    have "wheel_inv ?v (B(?k := [z, y])) = wheel_inv t (B(?k := [z, y]))"
      by (rule wheel_inv_keeps) (simp_all add: v)
    with A(1) show ?thesis by simp
  qed
  have ny: "y \<noteq> z" using A(2) [of ?k] k by auto
  have "unlinked (node_pool ?v y) = unlinked (node_pool s y)" using U(6) [of y] A(4) [OF ny] nx(3) by (simp add: v)
  note Y = unlinked_eqD [OF this]
  have duey: "due ?v y" using due(2) Y U(3) A(5) by (simp add: due_def v)
  have nxy: "t_next (node_pool ?v y) = None"
    using bucket_next(1) [OF vinv k, of "[z]" y "[]"] by (simp add: tnx_def)
  let ?r = "fire serv_call ?k None y ?v"
  have r: "?r = (unlink_node ?k None y ?v)\<lparr>running_timer := None\<rparr>"
    using Y(2) fy by (simp add: fire_eq serv_call_def)
  have walk: "timer_walk serv_call ?k None (tv1 s ?k) s = Some ?r"
  proof -
    have "tv1 s ?k = Some x" using D(2) [OF k] B by simp
    moreover have "timer_walk serv_call ?k None (Some x) s = timer_walk serv_call ?k None (Some y) ?v"
      using due(1) nx(1) unfolding due_def tnx_def by (subst timer_walk.simps) simp
    moreover have "\<dots> = timer_walk serv_call ?k None None ?r"
      using duey nxy unfolding due_def by (subst timer_walk.simps) simp
    ultimately show ?thesis by (simp add: timer_walk.simps)
  qed
  note R = unlink_node_sel [of None y ?k ?v, simplified]
  have "wheel_inv (unlink_node ?k None y ?v) (B(?k := []))"
    using unlink_inv [OF vinv k, of "[z]" "[]" y "[]"] by simp
  moreover have "wheel_inv (?r\<lparr>timer_jiffies := jiffies ?r\<rparr>) C = wheel_inv (unlink_node ?k None y ?v) C" for C
    by (rule wheel_inv_keeps) (simp_all add: r)
  ultimately have rinv: "wheel_inv (?r\<lparr>timer_jiffies := jiffies ?r\<rparr>) (B(?k := []))" by simp
  have gone: "z \<notin> set xs" if "j < 256" "sll (tnx (?r\<lparr>timer_jiffies := jiffies ?r\<rparr>)) (tv1 (?r\<lparr>timer_jiffies := jiffies ?r\<rparr>) j) xs" for j xs
    using sll_unique [OF wheel_invD(2) [OF rinv that(1)] that(2)] A(2) [of j] that(1) by (auto split: if_splits)
  have pz: "posix_timers ?r = posix_timers ?v" by (simp add: r more_posix_timers [OF R(7)])
  have "node_pool ?r z = node_pool (unlink_node ?k None y ?v) z" unfolding r by simp
  moreover have "node_pool ?v z = node_pool t z" by (simp add: v)
  ultimately have zv: "unlinked (node_pool ?r z) = unlinked (node_pool t z)" using R(6) [of z] ny by simp
  note Z = unlinked_eqD [OF zv]
  have "node_used ?r = node_used (unlink_node ?k None y ?v)" unfolding r by simp
  moreover have "node_used ?v z" using A(8) by (simp add: v)
  moreover have "pt_node (posix_timers ?v i) = Some z" by (simp add: v)
  ultimately show ?thesis
    using walk gone pz Z(1,4) A(3) R(1) U(3)
    by (intro exI [of _ "?r\<lparr>timer_jiffies := jiffies ?r\<rparr>"] exI [of _ z]) (simp add: timer_run_def Let_def)
qed

text \<open>Arming an alarm adds one node and leaves those in the wheel alone.\<close>

lemma serv_alarm_arms:
  assumes inv: "wheel_inv s B" and free: "a < MAX_TIMER_NODES" "\<not> node_used s a" and n: "0 < n"
    and al: "serv_alarm (Some i) n s = (r, t)"
  shows "\<exists>x. \<not> node_used s x \<and> node_used t = (node_used s)(x := True) \<and>
    wheel_inv t (B(tv1_index (jiffies s + ucast n * HZ) := x # B (tv1_index (jiffies s + ucast n * HZ)))) \<and>
    t_expires (node_pool t x) = jiffies s + ucast n * HZ \<and> t_fn (node_pool t x) = Some AlarmCallback \<and>
    t_active (node_pool t x) \<and> (\<forall>y. y = x \<or> node_pool t y = node_pool s y) \<and> jiffies t = jiffies s \<and>
    p_alarm_active (tprocs t i) = 1 \<and> p_alarm_expire (tprocs t i) = jiffies s + ucast n * HZ"
proof -
  let ?e = "jiffies s + ucast n * HZ"
  let ?u = "upd_tproc i (\<lambda>x. x\<lparr>p_alarm_active := 1\<rparr>) (upd_tproc i (\<lambda>x. x\<lparr>p_alarm_expire := ?e\<rparr>)
    (upd_tproc i (\<lambda>x. x\<lparr>p_alarm_active := 0\<rparr>) s))"
  have uinv: "wheel_inv ?u B" using inv by simp
  have free': "\<not> node_used ?u a" using free(2) by simp
  from timer_add_succeeds [OF uinv free(1) this] obtain x v where
    add: "timer_add ?e (Some AlarmCallback) (ucast (p_pid (tprocs ?u i))) ?u = (Some x, v)" by blast
  have t: "t = v" using al n add by (simp add: serv_alarm_def Let_def)
  note A = timer_add_ok [OF uinv add]
  have pr: "tprocs v = tprocs ?u"
    using A(6) by (cases v, cases ?u) (simp add: timers.defs)
  show ?thesis
    unfolding t using A(1,3,4,5,7,8) by (intro exI [of _ x]) (auto simp: pr)
qed

lemma unat_widen: "unat (ucast n :: u64) = unat n" for n :: u32
proof -
  have "unat n < 2 ^ 32" using unsigned_less [of n] by simp
  then have "unat n < 2 ^ 64" by simp
  then show ?thesis by (simp only: unsigned_ucast_eq) (simp add: take_bit_nat_eq_self_iff)
qed

lemma narrow_widen: "ucast (ucast n :: u64) = n" for n :: u32
proof -
  have "unat n < 2 ^ 32" using unsigned_less [of n] by simp
  then have "unat (ucast (ucast n :: u64) :: u32) = unat n"
    by (simp only: unsigned_ucast_eq [where 'b = 64] unat_widen) (simp add: take_bit_nat_eq_self_iff)
  then show ?thesis by (simp add: word_unat_eq_iff)
qed

lemma alarm_seconds:
  fixes n :: u32 and j :: u64
  assumes "unat j + unat n * 1000 < 2 ^ 64" and "0 < n"
  shows "j < j + ucast n * HZ" and "ucast ((j + ucast n * HZ - j) div HZ) = n"
proof -
  have m: "unat (ucast n * HZ) = unat n * 1000" using assms(1) by (simp add: HZ_def unat_word_ariths unat_widen)
  have sum: "unat (j + ucast n * HZ) = unat j + unat n * 1000"
    using assms(1) m by (simp only: unat_word_ariths) simp
  have "0 < unat n" using assms(2) by (simp add: word_gt_0 unat_gt_0)
  with sum show "j < j + ucast n * HZ" by (simp add: word_less_nat_alt)
  have "unat ((ucast n * HZ) div HZ) = unat (ucast n :: u64)"
    using m by (simp only: unat_div_distrib) (simp add: HZ_def unat_widen)
  then have "(ucast n * HZ) div HZ = (ucast n :: u64)" by (simp add: word_unat_eq_iff)
  then show "ucast ((j + ucast n * HZ - j) div HZ) = n" by (simp add: narrow_widen)
qed

text \<open>A new alarm returns the seconds left of the old one and takes its place in the process entry,
  but the old alarm's timer stays armed in the wheel beside the new one and will fire too.\<close>

theorem alarm_replaced_still_armed:
  assumes "wheel_inv s B" and "a < MAX_TIMER_NODES" "b < MAX_TIMER_NODES" "a \<noteq> b" "\<not> node_used s a" "\<not> node_used s b"
    and "0 < n" and "0 < m" and "unat (jiffies s) + unat n * 1000 < 2 ^ 64"
    and "serv_alarm (Some i) n s = (r, t)" and "serv_alarm (Some i) m t = (q, u)"
  shows "q = n \<and> p_alarm_expire (tprocs u i) = jiffies s + ucast m * HZ \<and>
    (\<exists>C x y. wheel_inv u C \<and> x \<noteq> y \<and> t_active (node_pool u x) \<and> t_active (node_pool u y) \<and>
       t_expires (node_pool u x) = jiffies s + ucast n * HZ \<and> x \<in> set (C (tv1_index (jiffies s + ucast n * HZ))) \<and>
       t_expires (node_pool u y) = jiffies s + ucast m * HZ \<and> y \<in> set (C (tv1_index (jiffies s + ucast m * HZ))))"
proof -
  from serv_alarm_arms [OF assms(1,2,5,7,10)] obtain x where
    x: "node_used t = (node_used s)(x := True)"
      "wheel_inv t (B(tv1_index (jiffies s + ucast n * HZ) := x # B (tv1_index (jiffies s + ucast n * HZ))))"
      "t_expires (node_pool t x) = jiffies s + ucast n * HZ" "t_active (node_pool t x)" "jiffies t = jiffies s"
      "p_alarm_active (tprocs t i) = 1" "p_alarm_expire (tprocs t i) = jiffies s + ucast n * HZ" by blast
  obtain c where c: "c < MAX_TIMER_NODES" "\<not> node_used t c"
    using assms(2-6) x(1) by (cases "a = x") auto
  from serv_alarm_arms [OF x(2) c assms(8,11)] obtain y where
    y: "\<not> node_used t y" "wheel_inv u ((B(tv1_index (jiffies s + ucast n * HZ) := x # B (tv1_index (jiffies s + ucast n * HZ))))
        (tv1_index (jiffies t + ucast m * HZ) := y # (B(tv1_index (jiffies s + ucast n * HZ) := x # B (tv1_index (jiffies s + ucast n * HZ))))
          (tv1_index (jiffies t + ucast m * HZ))))"
      "t_expires (node_pool u y) = jiffies t + ucast m * HZ" "t_active (node_pool u y)"
      "\<forall>z. z = y \<or> node_pool u z = node_pool t z" "p_alarm_expire (tprocs u i) = jiffies t + ucast m * HZ" by blast
  have ne: "x \<noteq> y" using y(1) x(1) by auto
  have "q = alarm_remaining (Some i) t" using assms(8,11) by (simp add: serv_alarm_def Let_def)
  then have "q = n" using alarm_seconds [OF assms(9,7)] x(5-7) by (simp add: alarm_remaining_def Let_def)
  moreover have "node_pool u x = node_pool t x" using y(5) ne by metis
  ultimately show ?thesis
    using y(2-4,6) x(3,4,5) ne
    by (intro conjI exI [of _ "(B(tv1_index (jiffies s + ucast n * HZ) := x # B (tv1_index (jiffies s + ucast n * HZ))))
        (tv1_index (jiffies t + ucast m * HZ) := y # (B(tv1_index (jiffies s + ucast n * HZ) := x # B (tv1_index (jiffies s + ucast n * HZ))))
          (tv1_index (jiffies t + ucast m * HZ)))"] exI [of _ x] exI [of _ y]) auto
qed

text \<open>A machine 1000 ticks after boot.\<close>

definition serv_demo :: tserv where
  "serv_demo = \<lparr>node_pool = (\<lambda>i. zero_node), node_used = (\<lambda>i. False), pool_ready = True,
     tv1 = (\<lambda>k. None), tv2 = (\<lambda>k. None), tv3 = (\<lambda>k. None), tv4 = (\<lambda>k. None), tv5 = (\<lambda>k. None),
     timer_jiffies = 1000, running_timer = None, jiffies = 1000, xtime = \<lparr>xt_sec = 1, xt_nsec = 500\<rparr>,
     posix_timers = (\<lambda>i. \<lparr>pt_clock = 0, pt_spec = \<lparr>it_interval = zero_tv, it_value = zero_tv\<rparr>,
       pt_overruns = 0, pt_active = False, pt_node = None, pt_id = int i\<rparr>),
     posix_pool_init = True, tprocs = (\<lambda>i. zero_proc), monotonic_base = 0, active_timer = Some 0\<rparr>"

lemma serv_demo_facts:
  "wheel_inv serv_demo (\<lambda>k. [])" "jiffies serv_demo = 1000" "\<not> node_used serv_demo i"
  "xtime serv_demo = \<lparr>xt_sec = 1, xt_nsec = 500\<rparr>" "\<not> pt_active (posix_timers serv_demo i)" "posix_pool_init serv_demo"
  by (simp_all add: wheel_inv_def serv_demo_def)

text \<open>One microsecond back from 500 nanoseconds after the first second.\<close>

lemma adjtimex_total_witness:
  "\<exists>t. adjtimex 0 (- 1000) serv_demo = (0, t) \<and>
     xt_sec (xtime t) * 1000000000 + uint (xt_nsec (xtime t)) = 1000000500 - 1000 + 2 ^ 32"
proof -
  obtain rc t where a: "adjtimex 0 (- 1000) serv_demo = (rc, t)" by fastforce
  from adjtimex_total [OF _ _ _ a] show ?thesis using a by (auto simp: serv_demo_facts)
qed

lemma demo_create: "\<exists>t. ptimer_create 0 True serv_demo = (0, Some 0, t)"
proof -
  have "first_idx (\<lambda>i. \<not> pt_active (posix_timers serv_demo i)) MAX_POSIX_TIMERS = Some 0"
    by (simp add: first_idx_Some_iff MAX_POSIX_TIMERS_def serv_demo_facts)
  then show ?thesis by (simp add: ptimer_create_def ensure_pool_def serv_demo_facts)
qed

lemma ptimer_create_aliases_witness:
  "\<exists>t u. ptimer_create 0 True serv_demo = (0, Some 0, t) \<and> ptimer_create 1 True t = (0, Some 0, u)"
proof -
  from demo_create obtain t where t: "ptimer_create 0 True serv_demo = (0, Some 0, t)" by blast
  from ptimer_create_aliases [OF t, of 1] t show ?thesis by blast
qed

lemma alarm_replaced_still_armed_witness:
  "\<exists>t u r. serv_alarm (Some 0) 60 serv_demo = (r, t) \<and> serv_alarm (Some 0) 5 t = (60, u)"
proof -
  obtain r t where t: "serv_alarm (Some 0) 60 serv_demo = (r, t)" by fastforce
  obtain q u where u: "serv_alarm (Some 0) 5 t = (q, u)" by fastforce
  have "q = 60"
    by (rule alarm_replaced_still_armed [OF serv_demo_facts(1) _ _ _ serv_demo_facts(3) serv_demo_facts(3) _ _ _ t u,
        of 0 1, THEN conjunct1])
      (simp_all add: MAX_TIMER_NODES_def serv_demo_facts(2))
  then show ?thesis using t u by blast
qed

text \<open>Timer 0 of the machine owns the first of two nodes in one bucket.\<close>

lemma ptimer_delete_loses_rest_witness:
  "\<exists>s t y. wheel_inv s (\<lambda>k. if k = 88 then [1, 0] else []) \<and> pt_node (posix_timers s 0) = Some 1 \<and>
     ptimer_delete (Some 0) s = (0, t) \<and> node_used t y \<and> (\<forall>j xs. sll (tnx t) (tv1 t j) xs \<longrightarrow> j < 256 \<longrightarrow> y \<notin> set xs)"
proof -
  define s where "s = serv_demo\<lparr>node_pool := (\<lambda>i. if i = 0 then zero_node\<lparr>t_expires := 2136\<rparr>
      else if i = 1 then zero_node\<lparr>t_expires := 1112, t_next := Some 0\<rparr> else zero_node),
    node_used := (\<lambda>i. i < 2), tv1 := (\<lambda>k. if k = 88 then Some 1 else None),
    posix_timers := (\<lambda>i. (posix_timers serv_demo i)\<lparr>pt_node := Some 1\<rparr>)\<rparr>"
  have i: "tv1_index 2136 = 88" "tv1_index 1112 = 88" by (simp_all add: tv1_index_def TVEC_SIZE_def)
  have inv: "wheel_inv s (\<lambda>k. if k = 88 then [1, 0] else [])"
    by (auto simp: wheel_inv_def s_def serv_demo_facts(6) tnx_def zero_node_def MAX_TIMER_NODES_def i serv_demo_def)
  have node: "pt_node (posix_timers s 0) = Some 1" by (simp add: s_def)
  obtain rc t where t: "ptimer_delete (Some 0) s = (rc, t)" by fastforce
  from ptimer_delete_loses_rest [OF inv node, of 88 "[]" "[0]" 0, OF _ _ _ t] inv node t
  show ?thesis by auto
qed

end
