(* ===== verification/Bytes.thy ===== *)
theory Bytes
  imports Prelude
begin

text \<open>
  Byte images.  The on-disk structures of the file system and of its journal are packed C
  structs that the code copies byte for byte, so the model keeps them as byte lists and reads a
  field with \<open>le_word\<close> (little endian, as all four targets of the kernel are) and writes it with
  \<open>put_le\<close>.  The second half holds the two CRC-32 routines of the code, the bitwise one of the
  journal and the table-driven one of the file system, with the proof that they agree.
\<close>

section \<open>Little-endian fields\<close>

text \<open>The \<open>k\<close>-byte field at offset \<open>i\<close>, and the bytes of a word.\<close>

primrec le_word :: "nat \<Rightarrow> u8 list \<Rightarrow> nat \<Rightarrow> 'a::len word" where
  "le_word 0 bs i = 0"
| "le_word (Suc k) bs i = ucast (bs ! i) OR push_bit 8 (le_word k bs (Suc i))"

primrec le_bytes :: "nat \<Rightarrow> 'a::len word \<Rightarrow> u8 list" where
  "le_bytes 0 w = []"
| "le_bytes (Suc k) w = ucast w # le_bytes k (drop_bit 8 w)"

text \<open>\<open>memcpy (dst + i, ys, n)\<close> into an image that has room.\<close>

definition put_bytes :: "nat \<Rightarrow> u8 list \<Rightarrow> u8 list \<Rightarrow> u8 list" where
  "put_bytes i ys bs = take i bs @ ys @ drop (i + length ys) bs"

definition put_le :: "nat \<Rightarrow> nat \<Rightarrow> 'a::len word \<Rightarrow> u8 list \<Rightarrow> u8 list" where
  "put_le k i w bs = put_bytes i (le_bytes k w) bs"

definition slice :: "nat \<Rightarrow> nat \<Rightarrow> 'a list \<Rightarrow> 'a list" where
  "slice i n xs = take n (drop i xs)"

lemma length_le_bytes [simp]: "length (le_bytes k w) = k"
  by (induction k arbitrary: w) auto

lemma length_put_bytes [simp]:
  "i + length ys \<le> length bs \<Longrightarrow> length (put_bytes i ys bs) = length bs"
  by (simp add: put_bytes_def)

lemma length_put_le [simp]: "i + k \<le> length bs \<Longrightarrow> length (put_le k i w bs) = length bs"
  by (simp add: put_le_def)

lemma length_slice: "i + n \<le> length xs \<Longrightarrow> length (slice i n xs) = n"
  by (simp add: slice_def)

lemma put_bytes_nth:
  assumes "i + length ys \<le> length bs" and "j < length bs"
  shows "put_bytes i ys bs ! j = (if i \<le> j \<and> j < i + length ys then ys ! (j - i) else bs ! j)"
  using assms by (auto simp: put_bytes_def nth_append min_def add.commute)

lemma le_word_cong:
  "(\<And>j. i \<le> j \<Longrightarrow> j < i + k \<Longrightarrow> xs ! j = ys ! j) \<Longrightarrow> le_word k xs i = le_word k ys i"
  by (induction k arbitrary: i) auto

lemma le_word_take_bit: "(le_word k (pre @ le_bytes k w @ post) (length pre) :: 'a::len word) = take_bit (8 * k) w"
proof (induction k arbitrary: w pre)
  case (Suc k)
  have "(le_word k (pre @ le_bytes (Suc k) w @ post) (Suc (length pre)) :: 'a word) =
      take_bit (8 * k) (drop_bit 8 w)"
    using Suc.IH [of "pre @ [ucast w]" "drop_bit 8 w"] by simp
  moreover have "ucast (ucast w :: u8) OR push_bit 8 (take_bit (8 * k) (drop_bit 8 w)) = take_bit (8 * Suc k) w"
    by (rule bit_word_eqI) (auto simp: bit_simps)
  ultimately show ?case by (simp add: nth_append)
qed simp

lemma get_put_same:
  fixes w :: "'a::len word"
  assumes "i + k \<le> length bs" and "LENGTH('a) = 8 * k"
  shows "le_word k (put_le k i w bs) i = w"
proof -
  have "le_word k (put_le k i w bs) i = take_bit (8 * k) w"
    using le_word_take_bit [of k "take i bs" w "drop (i + k) bs"] assms(1)
    by (simp add: put_le_def put_bytes_def min.absorb2)
  then show ?thesis by (simp add: assms(2) [symmetric])
qed

lemma get_put_other:
  assumes "i + k \<le> length bs" and "j + m \<le> length bs" and "j + m \<le> i \<or> i + k \<le> j"
  shows "le_word m (put_le k i w bs) j = le_word m bs j"
  by (rule le_word_cong) (use assms in \<open>auto simp: put_le_def put_bytes_nth\<close>)

section \<open>CRC-32, bit by bit (\<open>tx_crc32\<close>, \<open>jr_crc32\<close>, \<open>rc_crc32\<close>)\<close>

definition UIOX_JR_CRC32_POLY :: u32 where "UIOX_JR_CRC32_POLY = 0xEDB88320"

definition crc_bit :: "u32 \<Rightarrow> u32" where
  "crc_bit crc = drop_bit 1 crc XOR (if crc AND 1 \<noteq> 0 then UIOX_JR_CRC32_POLY else 0)"

definition crc_byte :: "u8 \<Rightarrow> u32 \<Rightarrow> u32" where
  "crc_byte b crc = (crc_bit ^^ 8) (crc XOR ucast b)"

definition tx_crc32 :: "u8 list \<Rightarrow> u32" where
  "tx_crc32 xs = fold crc_byte xs 0xFFFFFFFF XOR 0xFFFFFFFF"

section \<open>CRC-32 by table (\<open>unfs_crc32\<close>)\<close>

definition UNFS_CRC32_POLY :: u32 where "UNFS_CRC32_POLY = 0xEDB88320"

definition unfs_crc32_tab :: "nat \<Rightarrow> u32" where
  "unfs_crc32_tab i =
     ((\<lambda>c. if c AND 1 \<noteq> 0 then UNFS_CRC32_POLY XOR drop_bit 1 c else drop_bit 1 c) ^^ 8) (of_nat i)"

definition unfs_crc32 :: "u8 list \<Rightarrow> u32" where
  "unfs_crc32 xs =
     fold (\<lambda>b crc. unfs_crc32_tab (unat ((crc XOR ucast b) AND 0xFF)) XOR drop_bit 8 crc) xs 0xFFFFFFFF
     XOR 0xFFFFFFFF"

section \<open>The two routines agree\<close>

lemma crc_bit_alt:
  "crc_bit = (\<lambda>c. if c AND 1 \<noteq> 0 then UNFS_CRC32_POLY XOR drop_bit 1 c else drop_bit 1 c)"
  by (rule ext) (simp add: crc_bit_def UNFS_CRC32_POLY_def UIOX_JR_CRC32_POLY_def xor.commute)

lemma xor_cancel: "(a :: u32) XOR (a XOR b) = b" "a XOR c = b XOR c \<longleftrightarrow> a = b" for a b c :: u32
  by (simp_all flip: xor.assoc) (metis xor.assoc xor.right_neutral xor_self_eq)

lemma crc_bit_xor: "crc_bit (a XOR b) = crc_bit a XOR crc_bit b"
proof -
  have "(a XOR b) AND 1 \<noteq> 0 \<longleftrightarrow> (a AND 1 \<noteq> 0) \<noteq> (b AND 1 \<noteq> 0)"
    by (simp add: and_one_eq odd_iff_mod_2_eq_one even_xor_iff flip: odd_iff_mod_2_eq_one)
  then show ?thesis
    by (cases "a AND 1 \<noteq> 0"; cases "b AND 1 \<noteq> 0")
      (simp_all add: crc_bit_def drop_bit_xor xor.assoc xor.left_commute xor.commute xor_cancel)
qed

lemma crc_bits_xor: "(crc_bit ^^ n) (a XOR b) = (crc_bit ^^ n) a XOR (crc_bit ^^ n) b"
  by (induction n) (simp_all add: crc_bit_xor)

lemma crc_bits_shift: "take_bit n c = 0 \<Longrightarrow> (crc_bit ^^ n) c = drop_bit n c"
proof (induction n)
  case (Suc n)
  have t: "take_bit n c = 0"
    using arg_cong [OF Suc.prems, of "take_bit n"] by simp
  have "\<not> bit c n" using Suc.prems by (metis bit_0_eq bit_take_bit_iff bot_apply lessI bot_bool_def)
  then have "drop_bit n c AND 1 = 0"
    by (simp add: and_one_eq even_drop_bit_iff_not_bit flip: even_iff_mod_2_eq_zero)
  then have "crc_bit (drop_bit n c) = drop_bit (Suc n) c" by (simp add: crc_bit_def)
  with Suc.IH [OF t] show ?case by simp
qed simp

lemma crc_byte_table:
  "crc_byte b crc = unfs_crc32_tab (unat ((crc XOR ucast b) AND 0xFF)) XOR drop_bit 8 crc"
proof -
  let ?x = "crc XOR ucast b"
  have x: "?x = (?x AND 0xFF) XOR (?x AND NOT 0xFF)"
    by (rule bit_word_eqI) (auto simp: bit_simps)
  have m: "(0xFF :: u32) = mask 8" by (simp add: mask_eq_exp_minus_1)
  have t: "take_bit 8 (?x AND NOT 0xFF) = 0"
    unfolding m by (rule bit_word_eqI) (auto simp: bit_simps)
  have d: "drop_bit 8 (?x AND NOT 0xFF) = drop_bit 8 crc"
    unfolding m by (rule bit_word_eqI) (auto simp: bit_simps dest: bit_imp_le_length)
  have "(crc_bit ^^ 8) ?x = (crc_bit ^^ 8) (?x AND 0xFF) XOR (crc_bit ^^ 8) (?x AND NOT 0xFF)"
    using crc_bits_xor [of 8 "?x AND 0xFF" "?x AND NOT 0xFF"] x by simp
  also have "(crc_bit ^^ 8) (?x AND NOT 0xFF) = drop_bit 8 crc"
    using crc_bits_shift [OF t] d by simp
  finally show ?thesis
    by (simp add: crc_byte_def unfs_crc32_tab_def crc_bit_alt)
qed

lemma crc_byte_fun:
  "crc_byte = (\<lambda>b crc. unfs_crc32_tab (unat ((crc XOR ucast b) AND 0xFF)) XOR drop_bit 8 crc)"
  by (intro ext) (rule crc_byte_table)

text \<open>C36: The table-driven CRC-32 of the file system and the bitwise CRC-32 that the journal
  repeats in three files compute the same function: a checksum written by one is accepted by the
  other.\<close>

theorem crc_table_matches_bitwise: "unfs_crc32 xs = tx_crc32 xs"
  unfolding unfs_crc32_def tx_crc32_def crc_byte_fun ..

section \<open>What the checksum detects\<close>

text \<open>One shift step is a bijection: the bit it shifts out is recovered from the top bit.\<close>

lemma crc_bit_inj: "crc_bit a = crc_bit b \<Longrightarrow> a = b"
proof -
  assume e: "crc_bit a = crc_bit b"
  have top: "bit (crc_bit c) 31 \<longleftrightarrow> bit c 0" for c :: u32
    by (auto simp: crc_bit_def UIOX_JR_CRC32_POLY_def bit_simps and_one_eq bit_0 odd_iff_mod_2_eq_one dest: bit_imp_le_length)
  have "bit a 0 = bit b 0" using top e by metis
  then have "drop_bit 1 a = drop_bit 1 b"
    using e by (auto simp: crc_bit_def xor_cancel(2) and_one_eq bit_0 odd_iff_mod_2_eq_one even_iff_mod_2_eq_zero)
  then have "bit a (Suc n) = bit b (Suc n)" for n
    by (metis bit_drop_bit_eq comp_apply plus_1_eq_Suc)
  with \<open>bit a 0 = bit b 0\<close> show "a = b"
    by (intro bit_word_eqI) (metis not0_implies_Suc)
qed

lemma crc_bits_inj: "(crc_bit ^^ n) a = (crc_bit ^^ n) b \<Longrightarrow> a = b"
  by (induction n) (auto dest: crc_bit_inj)

lemma crc_fold_inj: "fold crc_byte xs a = fold crc_byte xs b \<Longrightarrow> a = b"
proof (induction xs arbitrary: a b)
  case (Cons x xs)
  from Cons.IH Cons.prems have "crc_byte x a = crc_byte x b" by simp
  then have "a XOR ucast x = b XOR ucast x" unfolding crc_byte_def by (rule crc_bits_inj)
  then show ?case by (simp add: xor_cancel(2))
qed simp

text \<open>The checksum detects every corruption confined to one byte: two images that differ in
  exactly one byte never have the same CRC.\<close>

theorem crc_detects_one_byte:
  assumes "b \<noteq> c"
  shows "unfs_crc32 (xs @ b # ys) \<noteq> unfs_crc32 (xs @ c # ys)"
proof
  assume "unfs_crc32 (xs @ b # ys) = unfs_crc32 (xs @ c # ys)"
  then have "fold crc_byte ys (crc_byte b (fold crc_byte xs 0xFFFFFFFF)) =
      fold crc_byte ys (crc_byte c (fold crc_byte xs 0xFFFFFFFF))"
    by (simp add: unfs_crc32_def xor_cancel(2) flip: crc_byte_fun)
  then have "crc_byte b (fold crc_byte xs 0xFFFFFFFF) = crc_byte c (fold crc_byte xs 0xFFFFFFFF)"
    by (rule crc_fold_inj)
  then have "fold crc_byte xs 0xFFFFFFFF XOR ucast b = fold crc_byte xs 0xFFFFFFFF XOR ucast c"
    unfolding crc_byte_def by (rule crc_bits_inj)
  then have "(ucast b :: u32) = ucast c" by (metis xor_cancel(2) xor.commute)
  from arg_cong [OF this, of "ucast :: u32 \<Rightarrow> u8"] have "b = c"
    by (simp add: ucast_up_ucast_id is_up)
  with assms show False ..
qed

lemma crc_detects_one_byte_witness:
  "unfs_crc32 [1, 2, 3] \<noteq> unfs_crc32 [1, 7, 3]"
proof -
  have "unfs_crc32 ([1] @ 2 # [3]) \<noteq> unfs_crc32 ([1] @ 7 # [3])"
    by (rule crc_detects_one_byte) simp
  then show ?thesis by simp
qed

end
