(* ===== verification/Journal.thy ===== *)
theory Journal
  imports Bytes
begin

text \<open>
  The file-system journal (\<open>32_FS/02_jrnal\<close>): transactions and handles
  (\<open>uiox_kix_jrnl_tx.c\<close>) and the lifecycle, commit, checkpoint and VFS hooks
  (\<open>uiox_kix_jrnl.c\<close>).  A context pointer is the index of its slot in \<open>s_ctx_pool\<close> and a handle
  pointer the index of its slot in \<open>s_handle_pool\<close>; \<open>None\<close> is NULL.  The time callback's answer
  is an argument \<open>now\<close>; console output is not modelled.
\<close>

section \<open>Types (\<open>uiox_kix_jrnl_types.h\<close>, \<open>uiox_kix_jrnl_tx.h\<close>)\<close>

datatype jr_err = JR_OK | JR_INVAL | JR_NOMEM | JR_IO | JR_BADMAGIC | JR_BADVERSION | JR_CORRUPT
  | JR_FULL | JR_ABORT | JR_NOTFOUND | JR_ALREADY | JR_NOTOPEN | JR_OVERFLOW | JR_CHECKSUM

datatype jr_mode = MODE_METADATA | MODE_ORDERED | MODE_DATA

datatype jr_tx_state = TX_INACTIVE | TX_RUNNING | TX_LOCKED | TX_FLUSH | TX_COMMIT | TX_CHECKPOINT

definition JR_SUPER_MAGIC :: u32 where "JR_SUPER_MAGIC = 0x554A5253"
definition JR_DESC_MAGIC :: u32 where "JR_DESC_MAGIC = 0x554A4442"
definition JR_COMMIT_MAGIC :: u32 where "JR_COMMIT_MAGIC = 0x554A434D"
definition JR_REVOKE_MAGIC :: u32 where "JR_REVOKE_MAGIC = 0x554A5256"
definition JR_BLOCK_SIZE :: nat where "JR_BLOCK_SIZE = 4096"
definition JR_MAX_HANDLES :: nat where "JR_MAX_HANDLES = 64"
definition JR_MAX_BLOCKS :: nat where "JR_MAX_BLOCKS = 256"
definition JR_MAX_REVOKE :: nat where "JR_MAX_REVOKE = 128"
definition JR_MIN_LOG_BLOCKS :: u32 where "JR_MIN_LOG_BLOCKS = 1024"
definition JR_SLOT_NONE :: u16 where "JR_SLOT_NONE = 0xFFFF"
definition JR_MAX_DEVICES :: nat where "JR_MAX_DEVICES = 4"

lemmas jr_consts = JR_MAX_BLOCKS_def JR_SLOT_NONE_def

text \<open>The journal superblock; \<open>uuid\<close> and the padding are never looked at.\<close>

record jr_super =
  js_magic :: u32
  js_format_version :: u32
  js_block_size :: u32
  js_log_blocks :: u32
  js_log_first :: u32
  js_sequence :: u32
  js_log_start :: u32
  js_errno :: u32
  js_feature_compat :: u32
  js_feature_incompat :: u32
  js_nr_users :: u32
  js_checksum :: u32

record jr_logged =
  lb_blocknr :: u64
  lb_index :: u16
  lb_checksum :: u32
  lb_escaped :: bool
  lb_revoked :: bool

record jr_handle =
  h_tx_id :: u32
  h_reserved :: nat
  h_used :: nat
  h_aborted :: bool
  h_sync :: bool

text \<open>\<open>tx_blocks\<close> and \<open>tx_revoked\<close> are the arrays; \<open>tx_block_count\<close> and \<open>tx_revoke_count\<close> of
  their entries are in use.\<close>

record jr_tx =
  tx_tid :: u32
  tx_state :: jr_tx_state
  tx_mode :: jr_mode
  tx_blocks :: "nat \<Rightarrow> jr_logged"
  tx_block_count :: nat
  tx_revoked :: "nat \<Rightarrow> u64"
  tx_revoke_count :: nat
  tx_handle_count :: u32
  tx_data_checksum :: u32
  tx_start_time :: u64
  tx_commit_time :: u64

record jr_ctx =
  jc_jsb :: jr_super
  jc_log_dev_base :: u64
  jc_log_blocks :: u32
  jc_log_head :: u32
  jc_log_tail :: u32
  jc_free_blocks :: u32
  jc_tx :: jr_tx
  jc_tx_open :: bool
  jc_mode :: jr_mode
  jc_aborted :: bool
  jc_initialized :: bool
  jc_mounted :: bool
  jc_commit_interval :: u32
  jc_last_commit :: u64
  jc_pool :: "nat \<Rightarrow> u8 list"

text \<open>The file-scope state: the handle pool, the contexts, and the per-device table \<open>s_jr\<close>.\<close>

record jr_state =
  jr_handles :: "nat \<Rightarrow> jr_handle"
  jr_used :: "nat \<Rightarrow> bool"
  jr_ctxs :: "nat \<Rightarrow> jr_ctx"
  s_jr :: "nat \<Rightarrow> nat option"

definition zero_logged :: jr_logged where
  "zero_logged = \<lparr>lb_blocknr = 0, lb_index = 0, lb_checksum = 0, lb_escaped = False, lb_revoked = False\<rparr>"

definition zero_handle :: jr_handle where
  "zero_handle = \<lparr>h_tx_id = 0, h_reserved = 0, h_used = 0, h_aborted = False, h_sync = False\<rparr>"

definition zero_tx :: jr_tx where
  "zero_tx = \<lparr>tx_tid = 0, tx_state = TX_INACTIVE, tx_mode = MODE_METADATA,
     tx_blocks = (\<lambda>_. zero_logged), tx_block_count = 0, tx_revoked = (\<lambda>_. 0), tx_revoke_count = 0,
     tx_handle_count = 0, tx_data_checksum = 0, tx_start_time = 0, tx_commit_time = 0\<rparr>"

definition zero_super :: jr_super where
  "zero_super = \<lparr>js_magic = 0, js_format_version = 0, js_block_size = 0, js_log_blocks = 0,
     js_log_first = 0, js_sequence = 0, js_log_start = 0, js_errno = 0, js_feature_compat = 0,
     js_feature_incompat = 0, js_nr_users = 0, js_checksum = 0\<rparr>"

definition zero_ctx :: jr_ctx where
  "zero_ctx = \<lparr>jc_jsb = zero_super, jc_log_dev_base = 0, jc_log_blocks = 0, jc_log_head = 0,
     jc_log_tail = 0, jc_free_blocks = 0, jc_tx = zero_tx, jc_tx_open = False,
     jc_mode = MODE_METADATA, jc_aborted = False, jc_initialized = False, jc_mounted = False,
     jc_commit_interval = 0, jc_last_commit = 0, jc_pool = (\<lambda>_. replicate JR_BLOCK_SIZE 0)\<rparr>"

definition upd_ctx :: "nat \<Rightarrow> (jr_ctx \<Rightarrow> jr_ctx) \<Rightarrow> jr_state \<Rightarrow> jr_state" where
  "upd_ctx c f s = s\<lparr>jr_ctxs := (jr_ctxs s)(c := f (jr_ctxs s c))\<rparr>"

definition upd_handle :: "nat \<Rightarrow> (jr_handle \<Rightarrow> jr_handle) \<Rightarrow> jr_state \<Rightarrow> jr_state" where
  "upd_handle h f s = s\<lparr>jr_handles := (jr_handles s)(h := f (jr_handles s h))\<rparr>"

abbreviation upd_tx :: "nat \<Rightarrow> (jr_tx \<Rightarrow> jr_tx) \<Rightarrow> jr_state \<Rightarrow> jr_state" where
  "upd_tx c f \<equiv> upd_ctx c (\<lambda>k. k\<lparr>jc_tx := f (jc_tx k)\<rparr>)"

definition upd_logged :: "nat \<Rightarrow> (jr_logged \<Rightarrow> jr_logged) \<Rightarrow> jr_tx \<Rightarrow> jr_tx" where
  "upd_logged i f t = t\<lparr>tx_blocks := (tx_blocks t)(i := f (tx_blocks t i))\<rparr>"

text \<open>\<open>tx_memcpy\<close> of a block into pool slot \<open>k\<close>.\<close>

definition fill_slot :: "nat \<Rightarrow> u8 list \<Rightarrow> jr_ctx \<Rightarrow> jr_ctx" where
  "fill_slot k buf c = c\<lparr>jc_pool := (jc_pool c)(k := buf)\<rparr>"

section \<open>Handles\<close>

definition alloc_handle :: "jr_state \<Rightarrow> nat option \<times> jr_state" where
  "alloc_handle s =
     (case first_idx (\<lambda>i. \<not> jr_used s i) JR_MAX_HANDLES of
        None \<Rightarrow> (None, s)
      | Some i \<Rightarrow> (Some i, upd_handle i (\<lambda>_. zero_handle) (s\<lparr>jr_used := (jr_used s)(i := True)\<rparr>)))"

definition free_handle :: "nat option \<Rightarrow> jr_state \<Rightarrow> jr_state" where
  "free_handle h s =
     (case h of
        None \<Rightarrow> s
      | Some i \<Rightarrow> if i < JR_MAX_HANDLES then s\<lparr>jr_used := (jr_used s)(i := False)\<rparr> else s)"

section \<open>The log pool\<close>

definition pool_slot :: "u16 \<Rightarrow> nat option" where
  "pool_slot idx =
     (if idx = JR_SLOT_NONE then None
      else if JR_MAX_BLOCKS \<le> unat idx then None
      else Some (unat idx))"

definition slot_taken :: "jr_tx \<Rightarrow> nat \<Rightarrow> bool" where
  "slot_taken t cand \<longleftrightarrow> (\<exists>i<tx_block_count t. lb_index (tx_blocks t i) = of_nat cand)"

definition pool_alloc :: "jr_tx \<Rightarrow> u16" where
  "pool_alloc t =
     (case first_idx (\<lambda>cand. \<not> slot_taken t cand) JR_MAX_BLOCKS of
        None \<Rightarrow> JR_SLOT_NONE
      | Some cand \<Rightarrow> of_nat cand)"

definition pool_release_all :: "jr_tx \<Rightarrow> jr_tx" where
  "pool_release_all t =
     t\<lparr>tx_blocks := (\<lambda>i. if i < tx_block_count t then (tx_blocks t i)\<lparr>lb_index := JR_SLOT_NONE\<rparr>
                         else tx_blocks t i),
       tx_block_count := 0\<rparr>"

definition jr_block_data :: "jr_ctx \<Rightarrow> jr_logged \<Rightarrow> u8 list option" where
  "jr_block_data c lb =
     (if lb_index lb = JR_SLOT_NONE then None
      else if JR_MAX_BLOCKS \<le> unat (lb_index lb) then None
      else Some (jc_pool c (unat (lb_index lb))))"

section \<open>Transactions (\<open>uiox_kix_jrnl_tx.c\<close>)\<close>

definition tx_begin :: "u64 \<Rightarrow> nat \<Rightarrow> jr_state \<Rightarrow> jr_err \<times> jr_state" where
  "tx_begin now c s =
     (let k = jr_ctxs s c in
      if jc_tx_open k then (JR_ALREADY, s)
      else if jc_aborted k then (JR_ABORT, s)
      else
        (JR_OK, upd_ctx c (\<lambda>k. k\<lparr>jc_tx := zero_tx\<lparr>tx_tid := js_sequence (jc_jsb k), tx_state := TX_RUNNING,
             tx_mode := jc_mode k, tx_start_time := now, tx_data_checksum := 0xFFFFFFFF\<rparr>,
           jc_jsb := (jc_jsb k)\<lparr>js_sequence := js_sequence (jc_jsb k) + 1\<rparr>,
           jc_tx_open := True\<rparr>)
         (upd_tx c pool_release_all s)))"

text \<open>\<open>uiox_jr_force_commit\<close>: it only references the two routines a commit would use.\<close>

definition jr_force_commit :: "nat option \<Rightarrow> jr_state \<Rightarrow> jr_err \<times> jr_state" where
  "jr_force_commit c s = (case c of None \<Rightarrow> (JR_INVAL, s) | Some _ \<Rightarrow> (JR_NOMEM, s))"

text \<open>The tail of \<open>uiox_jr_start\<close>, once the transaction has room.\<close>

definition jr_start_handle :: "nat \<Rightarrow> nat \<Rightarrow> jr_state \<Rightarrow> nat option \<times> jr_state" where
  "jr_start_handle c nblocks s =
     (case alloc_handle s of
        (None, s) \<Rightarrow> (None, s)
      | (Some h, s) \<Rightarrow>
          (let s = upd_handle h (\<lambda>r. r\<lparr>h_tx_id := tx_tid (jc_tx (jr_ctxs s c)), h_reserved := nblocks,
                       h_used := 0, h_aborted := False\<rparr>) s
           in (Some h, upd_tx c (\<lambda>t. t\<lparr>tx_handle_count := tx_handle_count t + 1\<rparr>) s)))"

definition jr_start :: "u64 \<Rightarrow> nat option \<Rightarrow> nat \<Rightarrow> jr_state \<Rightarrow> nat option \<times> jr_state" where
  "jr_start now cp nblocks s =
     (case cp of
        None \<Rightarrow> (None, s)
      | Some c \<Rightarrow>
          if jc_aborted (jr_ctxs s c) then (None, s)
          else if nblocks = 0 \<or> JR_MAX_BLOCKS < nblocks then (None, s)
          else
            (let (e, s) = (if jc_tx_open (jr_ctxs s c) then (JR_OK, s) else tx_begin now c s) in
             if e \<noteq> JR_OK then (None, s)
             else if JR_MAX_BLOCKS < tx_block_count (jc_tx (jr_ctxs s c)) + nblocks
             then
               (let (e, s) = jr_force_commit (Some c) s in
                if e \<noteq> JR_OK then (None, s)
                else
                  (let (e, s) = tx_begin now c s in
                   if e \<noteq> JR_OK then (None, s) else jr_start_handle c nblocks s))
             else jr_start_handle c nblocks s))"

definition logged_idx :: "jr_tx \<Rightarrow> u64 \<Rightarrow> nat option" where
  "logged_idx t blk = first_idx (\<lambda>i. lb_blocknr (tx_blocks t i) = blk) (tx_block_count t)"

text \<open>The last part of \<open>uiox_jr_get_write_access\<close>: a block seen for the first time.\<close>

definition jr_log_new :: "nat \<Rightarrow> nat \<Rightarrow> u64 \<Rightarrow> u8 list \<Rightarrow> jr_state \<Rightarrow> jr_err \<times> jr_state" where
  "jr_log_new h c blk buf s =
     (let idx = pool_alloc (jc_tx (jr_ctxs s c)) in
      if idx = JR_SLOT_NONE then (JR_FULL, s)
      else
        (case pool_slot idx of
           None \<Rightarrow> (JR_CORRUPT, s)
         | Some k \<Rightarrow>
             (let s = upd_ctx c (fill_slot k buf) s;
                  first_word = le_word 4 buf 0 :: u32;
                  s = upd_tx c (\<lambda>t. upd_logged (tx_block_count t) (\<lambda>lb. lb\<lparr>lb_blocknr := blk,
                        lb_index := idx, lb_revoked := False, lb_checksum := tx_crc32 buf,
                        lb_escaped := (first_word = JR_DESC_MAGIC \<or> first_word = JR_COMMIT_MAGIC)\<rparr>) t) s;
                  s = upd_tx c (\<lambda>t. t\<lparr>tx_block_count := tx_block_count t + 1\<rparr>) s;
                  s = upd_handle h (\<lambda>r. r\<lparr>h_used := h_used r + 1\<rparr>) s
              in (JR_OK, upd_tx c (\<lambda>t. t\<lparr>tx_data_checksum := tx_crc32 buf XOR tx_data_checksum t\<rparr>) s))))"

definition jr_get_write_access ::
  "nat option \<Rightarrow> nat option \<Rightarrow> u64 \<Rightarrow> u8 list \<Rightarrow> jr_state \<Rightarrow> jr_err \<times> jr_state" where
  "jr_get_write_access hp cp blk buf s =
     (case (hp, cp) of
        (Some h, Some c) \<Rightarrow>
          if h_aborted (jr_handles s h) \<or> jc_aborted (jr_ctxs s c) then (JR_ABORT, s)
          else if h_reserved (jr_handles s h) \<le> h_used (jr_handles s h) then (JR_FULL, s)
          else if JR_MAX_BLOCKS \<le> tx_block_count (jc_tx (jr_ctxs s c)) then (JR_FULL, s)
          else
            (case logged_idx (jc_tx (jr_ctxs s c)) blk of
               Some i \<Rightarrow>
                 (case pool_slot (lb_index (tx_blocks (jc_tx (jr_ctxs s c)) i)) of
                    None \<Rightarrow> (JR_CORRUPT, s)
                  | Some k \<Rightarrow>
                      (JR_OK, upd_tx c (upd_logged i (\<lambda>lb. lb\<lparr>lb_checksum := tx_crc32 buf, lb_revoked := False\<rparr>))
                         (upd_ctx c (fill_slot k buf) s)))
             | None \<Rightarrow> jr_log_new h c blk buf s)
      | _ \<Rightarrow> (JR_INVAL, s))"

definition jr_dirty_metadata ::
  "nat option \<Rightarrow> nat option \<Rightarrow> u64 \<Rightarrow> u8 list \<Rightarrow> jr_state \<Rightarrow> jr_err \<times> jr_state" where
  "jr_dirty_metadata hp cp blk buf s =
     (case (hp, cp) of
        (Some h, Some c) \<Rightarrow>
          if h_aborted (jr_handles s h) \<or> jc_aborted (jr_ctxs s c) then (JR_ABORT, s)
          else
            (case logged_idx (jc_tx (jr_ctxs s c)) blk of
               Some i \<Rightarrow>
                 (case pool_slot (lb_index (tx_blocks (jc_tx (jr_ctxs s c)) i)) of
                    None \<Rightarrow> (JR_CORRUPT, s)
                  | Some k \<Rightarrow>
                      (let s = upd_tx c (\<lambda>t. t\<lparr>tx_data_checksum := tx_data_checksum t XOR lb_checksum (tx_blocks t i)\<rparr>) s;
                           s = upd_ctx c (fill_slot k buf) s;
                           newsum = tx_crc32 buf;
                           s = upd_tx c (upd_logged i (\<lambda>lb. lb\<lparr>lb_checksum := newsum\<rparr>)) s
                       in (JR_OK, upd_tx c (\<lambda>t. t\<lparr>tx_data_checksum := tx_data_checksum t XOR newsum\<rparr>) s)))
             | None \<Rightarrow> jr_get_write_access hp cp blk buf s)
      | _ \<Rightarrow> (JR_INVAL, s))"

definition jr_revoke :: "nat option \<Rightarrow> nat option \<Rightarrow> u64 \<Rightarrow> jr_state \<Rightarrow> jr_err \<times> jr_state" where
  "jr_revoke hp cp blk s =
     (case (hp, cp) of
        (Some h, Some c) \<Rightarrow>
          if h_aborted (jr_handles s h) \<or> jc_aborted (jr_ctxs s c) then (JR_ABORT, s)
          else
            (let t = jc_tx (jr_ctxs s c) in
             if JR_MAX_REVOKE \<le> tx_revoke_count t then (JR_FULL, s)
             else if \<exists>i<tx_revoke_count t. tx_revoked t i = blk then (JR_OK, s)
             else
               (JR_OK, upd_tx c (\<lambda>t. t\<lparr>tx_revoked := (tx_revoked t)(tx_revoke_count t := blk),
                    tx_revoke_count := tx_revoke_count t + 1,
                    tx_blocks := (\<lambda>i. if i < tx_block_count t \<and> lb_blocknr (tx_blocks t i) = blk
                                      then (tx_blocks t i)\<lparr>lb_revoked := True\<rparr> else tx_blocks t i)\<rparr>) s))
      | _ \<Rightarrow> (JR_INVAL, s))"

definition jr_stop :: "nat option \<Rightarrow> nat option \<Rightarrow> jr_state \<Rightarrow> jr_err \<times> jr_state" where
  "jr_stop hp cp s =
     (case (hp, cp) of
        (Some h, Some c) \<Rightarrow>
          (let sync = h_sync (jr_handles s h);
               s = upd_tx c (\<lambda>t. if 0 < tx_handle_count t then t\<lparr>tx_handle_count := tx_handle_count t - 1\<rparr> else t) s;
               s = free_handle (Some h) s
           in if sync \<and> tx_handle_count (jc_tx (jr_ctxs s c)) = 0 then jr_force_commit (Some c) s
              else (JR_OK, s))
      | _ \<Rightarrow> (JR_INVAL, s))"

definition jr_is_aborted :: "nat option \<Rightarrow> jr_state \<Rightarrow> bool" where
  "jr_is_aborted cp s = (case cp of None \<Rightarrow> True | Some c \<Rightarrow> jc_aborted (jr_ctxs s c))"

section \<open>The platform hooks\<close>

text \<open>Three weak functions that a platform may replace, over its storage \<open>'m\<close>, and the built-in
  ones: the log is memory at \<open>log_dev_base\<close>, and the write to the file system does nothing.\<close>

record 'm jr_plat =
  plat_log_read :: "u64 \<Rightarrow> u32 \<Rightarrow> 'm \<Rightarrow> jr_err \<times> u8 list"
  plat_log_write :: "u64 \<Rightarrow> u32 \<Rightarrow> u8 list \<Rightarrow> 'm \<Rightarrow> jr_err \<times> 'm"
  plat_fs_write :: "u64 \<Rightarrow> u8 list \<Rightarrow> 'm \<Rightarrow> jr_err \<times> 'm"

definition mem_log_read :: "u64 \<Rightarrow> u32 \<Rightarrow> (u64 \<Rightarrow> u8) \<Rightarrow> jr_err \<times> u8 list" where
  "mem_log_read base blk m =
     (JR_OK, map (\<lambda>k. m (base + ucast blk * of_nat JR_BLOCK_SIZE + of_nat k)) [0..<JR_BLOCK_SIZE])"

definition mem_log_write :: "u64 \<Rightarrow> u32 \<Rightarrow> u8 list \<Rightarrow> (u64 \<Rightarrow> u8) \<Rightarrow> jr_err \<times> (u64 \<Rightarrow> u8)" where
  "mem_log_write base blk buf m =
     (let dst = base + ucast blk * of_nat JR_BLOCK_SIZE in
      (JR_OK, \<lambda>a. if unat (a - dst) < JR_BLOCK_SIZE then buf ! unat (a - dst) else m a))"

definition mem_fs_write :: "u64 \<Rightarrow> u8 list \<Rightarrow> (u64 \<Rightarrow> u8) \<Rightarrow> jr_err \<times> (u64 \<Rightarrow> u8)" where
  "mem_fs_write blk buf m = (JR_OK, m)"

definition mem_plat :: "(u64 \<Rightarrow> u8) jr_plat" where
  "mem_plat = \<lparr>plat_log_read = mem_log_read, plat_log_write = mem_log_write, plat_fs_write = mem_fs_write\<rparr>"

section \<open>Lifecycle (\<open>uiox_kix_jrnl.c\<close>)\<close>

definition jr_ctx_alloc :: "u8 \<Rightarrow> nat option" where
  "jr_ctx_alloc dev = (if JR_MAX_DEVICES \<le> unat dev then None else Some (unat dev))"

definition jr_register :: "nat option \<Rightarrow> u8 \<Rightarrow> jr_state \<Rightarrow> jr_err \<times> jr_state" where
  "jr_register cp dev s =
     (case cp of
        None \<Rightarrow> (JR_INVAL, s)
      | Some c \<Rightarrow>
          if JR_MAX_DEVICES \<le> unat dev then (JR_INVAL, s)
          else if s_jr s (unat dev) \<noteq> None then (JR_ALREADY, s)
          else (JR_OK, s\<lparr>s_jr := (s_jr s)(unat dev := Some c)\<rparr>))"

definition jr_ctx_for :: "u8 \<Rightarrow> jr_state \<Rightarrow> nat option" where
  "jr_ctx_for dev s = (if JR_MAX_DEVICES \<le> unat dev then None else s_jr s (unat dev))"

definition jr_unregister :: "u8 \<Rightarrow> jr_state \<Rightarrow> jr_state" where
  "jr_unregister dev s = (if unat dev < JR_MAX_DEVICES then s\<lparr>s_jr := (s_jr s)(unat dev := None)\<rparr> else s)"

definition jr_init :: "nat option \<Rightarrow> u64 \<Rightarrow> u32 \<Rightarrow> jr_mode \<Rightarrow> jr_state \<Rightarrow> jr_err \<times> jr_state" where
  "jr_init cp base blocks mode s =
     (case cp of
        None \<Rightarrow> (JR_INVAL, s)
      | Some c \<Rightarrow>
          if blocks < JR_MIN_LOG_BLOCKS then (JR_INVAL, s)
          else if mode = MODE_ORDERED then (JR_INVAL, s)
          else
            (JR_OK, upd_ctx c (\<lambda>_. zero_ctx\<lparr>jc_log_dev_base := base, jc_log_blocks := blocks,
               jc_log_head := 1, jc_log_tail := 1, jc_free_blocks := blocks - 1, jc_mode := mode,
               jc_commit_interval := 5000,
               jc_jsb := zero_super\<lparr>js_magic := JR_SUPER_MAGIC, js_format_version := 1,
                 js_block_size := of_nat JR_BLOCK_SIZE, js_log_blocks := blocks, js_log_first := 1,
                 js_sequence := 1\<rparr>,
               jc_initialized := True\<rparr>) s))"

text \<open>\<open>jr_write_logged_blocks\<close>, over the storage \<open>m\<close>.\<close>

definition write_logged_one ::
  "'m jr_plat \<Rightarrow> nat \<Rightarrow> nat \<Rightarrow> jr_err \<times> jr_state \<times> 'm \<Rightarrow> jr_err \<times> jr_state \<times> 'm" where
  "write_logged_one p c i r =
     (case r of
        (JR_OK, s, m) \<Rightarrow>
          (let k = jr_ctxs s c; lb = tx_blocks (jc_tx k) i in
           (case jr_block_data k lb of
              None \<Rightarrow> (JR_OK, s, m)
            | Some slot \<Rightarrow>
                (let data = (if lb_escaped lb then put_bytes 0 [0, 0, 0, 0] slot else slot);
                     (e, m) = plat_log_write p (jc_log_dev_base k) (jc_log_head k) data m
                 in if e \<noteq> JR_OK then (e, s, m)
                    else (JR_OK, upd_ctx c (\<lambda>k. k\<lparr>jc_log_head := (jc_log_head k + 1) mod jc_log_blocks k,
                           jc_free_blocks := (if jc_free_blocks k \<noteq> 0 then jc_free_blocks k - 1
                                              else jc_free_blocks k)\<rparr>) s, m))))
      | _ \<Rightarrow> r)"

definition jr_write_logged_blocks ::
  "'m jr_plat \<Rightarrow> nat \<Rightarrow> jr_state \<Rightarrow> 'm \<Rightarrow> jr_err \<times> jr_state \<times> 'm" where
  "jr_write_logged_blocks p c s m =
     fold (write_logged_one p c) [0..<tx_block_count (jc_tx (jr_ctxs s c))] (JR_OK, s, m)"

definition jr_abort :: "nat option \<Rightarrow> jr_state \<Rightarrow> jr_state" where
  "jr_abort cp s = (case cp of None \<Rightarrow> s | Some c \<Rightarrow> upd_ctx c (\<lambda>k. k\<lparr>jc_aborted := True\<rparr>) s)"

definition checkpoint_one ::
  "'m jr_plat \<Rightarrow> nat \<Rightarrow> nat \<Rightarrow> jr_err \<times> jr_state \<times> 'm \<Rightarrow> jr_err \<times> jr_state \<times> 'm" where
  "checkpoint_one p c i r =
     (case r of
        (JR_OK, s, m) \<Rightarrow>
          (let k = jr_ctxs s c; lb = tx_blocks (jc_tx k) i in
           if lb_revoked lb then (JR_OK, s, m)
           else
             (case jr_block_data k lb of
                None \<Rightarrow> (JR_OK, s, m)
              | Some slot \<Rightarrow>
                  (let (e, m) = plat_fs_write p (lb_blocknr lb) slot m in
                   if e \<noteq> JR_OK then (e, jr_abort (Some c) s, m) else (JR_OK, s, m))))
      | _ \<Rightarrow> r)"

definition jr_checkpoint :: "'m jr_plat \<Rightarrow> nat option \<Rightarrow> jr_state \<Rightarrow> 'm \<Rightarrow> jr_err \<times> jr_state \<times> 'm" where
  "jr_checkpoint p cp s m =
     (case cp of
        None \<Rightarrow> (JR_INVAL, s, m)
      | Some c \<Rightarrow>
          if tx_state (jc_tx (jr_ctxs s c)) \<noteq> TX_CHECKPOINT then (JR_OK, s, m)
          else fold (checkpoint_one p c) [0..<tx_block_count (jc_tx (jr_ctxs s c))] (JR_OK, s, m))"

definition jr_tick :: "u64 \<Rightarrow> nat option \<Rightarrow> jr_state \<Rightarrow> jr_err \<times> jr_state" where
  "jr_tick now cp s =
     (case cp of
        None \<Rightarrow> (JR_INVAL, s)
      | Some c \<Rightarrow>
          if \<not> jc_initialized (jr_ctxs s c) then (JR_INVAL, s)
          else if now < jc_last_commit (jr_ctxs s c) + ucast (jc_commit_interval (jr_ctxs s c)) then (JR_OK, s)
          else jr_force_commit (Some c) (upd_ctx c (\<lambda>k. k\<lparr>jc_last_commit := now\<rparr>) s))"

definition jr_unmount :: "nat option \<Rightarrow> jr_state \<Rightarrow> jr_err \<times> jr_state" where
  "jr_unmount cp s =
     (case cp of
        None \<Rightarrow> (JR_INVAL, s)
      | Some c \<Rightarrow>
          (let (e, s) = (if jc_tx_open (jr_ctxs s c) then jr_force_commit (Some c) s else (JR_OK, s)) in
           if e \<noteq> JR_OK then (e, s)
           else (JR_OK, upd_ctx c (\<lambda>k. k\<lparr>jc_mounted := False\<rparr>) s)))"

section \<open>The VFS hooks\<close>

definition jr_vfs_get_write_access ::
  "u64 \<Rightarrow> nat option \<Rightarrow> u64 \<Rightarrow> u8 list \<Rightarrow> jr_state \<Rightarrow> jr_err \<times> jr_state" where
  "jr_vfs_get_write_access now cp blk buf s =
     (case cp of
        None \<Rightarrow> (JR_INVAL, s)
      | Some c \<Rightarrow>
          if \<not> jc_initialized (jr_ctxs s c) then (JR_INVAL, s)
          else
            (case jr_start now cp 1 s of
               (None, s) \<Rightarrow> (JR_FULL, s)
             | (Some h, s) \<Rightarrow>
                 (let (rc, s) = jr_get_write_access (Some h) cp blk buf s
                  in (rc, snd (jr_stop (Some h) cp s)))))"

definition jr_vfs_dirty_metadata ::
  "u64 \<Rightarrow> nat option \<Rightarrow> u64 \<Rightarrow> u8 list \<Rightarrow> jr_state \<Rightarrow> jr_err \<times> jr_state" where
  "jr_vfs_dirty_metadata now cp blk buf s =
     (case cp of
        None \<Rightarrow> (JR_INVAL, s)
      | Some c \<Rightarrow>
          if \<not> jc_initialized (jr_ctxs s c) then (JR_INVAL, s)
          else
            (case jr_start now cp 1 s of
               (None, s) \<Rightarrow> (JR_FULL, s)
             | (Some h, s) \<Rightarrow>
                 (let (rc, s) = jr_dirty_metadata (Some h) cp blk buf s
                  in (rc, snd (jr_stop (Some h) cp s)))))"

definition jr_vfs_revoke :: "u64 \<Rightarrow> nat option \<Rightarrow> u64 \<Rightarrow> jr_state \<Rightarrow> jr_err \<times> jr_state" where
  "jr_vfs_revoke now cp blk s =
     (case cp of
        None \<Rightarrow> (JR_INVAL, s)
      | Some c \<Rightarrow>
          if \<not> jc_initialized (jr_ctxs s c) then (JR_INVAL, s)
          else
            (case jr_start now cp 1 s of
               (None, s) \<Rightarrow> (JR_FULL, s)
             | (Some h, s) \<Rightarrow>
                 (let (rc, s) = jr_revoke (Some h) cp blk s
                  in (rc, snd (jr_stop (Some h) cp s)))))"

end
