(* ===== verification/JrnlProps.thy ===== *)
theory JrnlProps
  imports Journal
begin

text \<open>
  What the journal's transaction keeps: the invariant of the logged blocks, the image that each
  hook leaves in the log, the interface that the allocator's hooks rely on (locale
  \<open>update_log\<close>), and what a commit that never succeeds does to it.
\<close>

section \<open>Selectors\<close>

lemma upd_ctx_sel [simp]:
  "jr_handles (upd_ctx c f s) = jr_handles s" "jr_used (upd_ctx c f s) = jr_used s"
  "s_jr (upd_ctx c f s) = s_jr s" "jr_ctxs (upd_ctx c f s) = (jr_ctxs s)(c := f (jr_ctxs s c))"
  by (simp_all add: upd_ctx_def)

lemma upd_handle_sel [simp]:
  "jr_handles (upd_handle h f s) = (jr_handles s)(h := f (jr_handles s h))"
  "jr_used (upd_handle h f s) = jr_used s" "s_jr (upd_handle h f s) = s_jr s"
  "jr_ctxs (upd_handle h f s) = jr_ctxs s"
  by (simp_all add: upd_handle_def)

lemma upd_logged_sel [simp]:
  "tx_blocks (upd_logged i f t) = (tx_blocks t)(i := f (tx_blocks t i))"
  "tx_block_count (upd_logged i f t) = tx_block_count t"
  "tx_handle_count (upd_logged i f t) = tx_handle_count t"
  "tx_data_checksum (upd_logged i f t) = tx_data_checksum t"
  by (simp_all add: upd_logged_def)

lemma fill_slot_sel [simp]:
  "jc_tx (fill_slot k buf c) = jc_tx c" "jc_pool (fill_slot k buf c) = (jc_pool c)(k := buf)"
  "jc_tx_open (fill_slot k buf c) = jc_tx_open c" "jc_aborted (fill_slot k buf c) = jc_aborted c"
  "jc_initialized (fill_slot k buf c) = jc_initialized c"
  by (simp_all add: fill_slot_def)

section \<open>The invariant of a transaction\<close>

text \<open>Every logged block has a pool slot of its own and a file-system block of its own, and its
  checksum is that of the bytes in its slot.\<close>

definition jr_ok :: "jr_ctx \<Rightarrow> bool" where
  "jr_ok k \<longleftrightarrow>
     (let t = jc_tx k; n = tx_block_count t in
      jc_tx_open k \<longrightarrow>
        n \<le> JR_MAX_BLOCKS \<and>
        (\<forall>i<n. unat (lb_index (tx_blocks t i)) < JR_MAX_BLOCKS \<and>
           lb_checksum (tx_blocks t i) = tx_crc32 (jc_pool k (unat (lb_index (tx_blocks t i))))) \<and>
        inj_on (\<lambda>i. lb_index (tx_blocks t i)) {..<n} \<and>
        inj_on (\<lambda>i. lb_blocknr (tx_blocks t i)) {..<n})"

text \<open>The image that the open transaction holds of a file-system block.\<close>

definition jr_image :: "jr_ctx \<Rightarrow> u64 \<Rightarrow> u8 list option" where
  "jr_image k blk =
     (if jc_tx_open k
      then (case logged_idx (jc_tx k) blk of
              None \<Rightarrow> None
            | Some i \<Rightarrow> jr_block_data k (tx_blocks (jc_tx k) i))
      else None)"

lemma slot_bytes:
  "unat idx < JR_MAX_BLOCKS \<Longrightarrow> pool_slot idx = Some (unat idx)"
  "unat (lb_index lb) < JR_MAX_BLOCKS \<Longrightarrow> jr_block_data k lb = Some (jc_pool k (unat (lb_index lb)))"
  by (auto simp: pool_slot_def jr_block_data_def jr_consts)

lemma logged_idx_inj:
  assumes "inj_on (\<lambda>i. lb_blocknr (tx_blocks t i)) {..<tx_block_count t}" and "i < tx_block_count t"
  shows "logged_idx t (lb_blocknr (tx_blocks t i)) = Some i"
  using assms by (auto simp: logged_idx_def first_idx_Some_iff inj_on_def)

lemma slot_unat: "cand < JR_MAX_BLOCKS \<Longrightarrow> unat (of_nat cand :: u16) = cand"
  by (simp add: JR_MAX_BLOCKS_def unsigned_of_nat take_bit_nat_eq_self)

text \<open>While fewer than 256 blocks are logged a pool slot is free.\<close>

lemma pool_alloc_fresh:
  assumes "tx_block_count t < JR_MAX_BLOCKS"
  shows "unat (pool_alloc t) < JR_MAX_BLOCKS" and "i < tx_block_count t \<Longrightarrow> lb_index (tx_blocks t i) \<noteq> pool_alloc t"
proof -
  let ?n = "tx_block_count t"
  have "\<exists>cand<JR_MAX_BLOCKS. \<not> slot_taken t cand"
  proof (rule ccontr)
    assume all: "\<not> ?thesis"
    have "{..<JR_MAX_BLOCKS} \<subseteq> (\<lambda>i. unat (lb_index (tx_blocks t i))) ` {..<?n}"
    proof
      fix cand assume c: "cand \<in> {..<JR_MAX_BLOCKS}"
      with all obtain i where "i < ?n" "lb_index (tx_blocks t i) = of_nat cand"
        by (auto simp: slot_taken_def)
      with c show "cand \<in> (\<lambda>i. unat (lb_index (tx_blocks t i))) ` {..<?n}"
        by (intro image_eqI [of _ _ i]) (simp_all add: slot_unat)
    qed
    then have "card {..<JR_MAX_BLOCKS} \<le> card ((\<lambda>i. unat (lb_index (tx_blocks t i))) ` {..<?n})"
      by (rule card_mono [rotated]) simp
    also have "\<dots> \<le> card {..<?n}" by (rule card_image_le) simp
    finally show False using assms by simp
  qed
  then obtain d where "d < JR_MAX_BLOCKS" "\<not> slot_taken t d" by blast
  from first_idx_ex [where P = "\<lambda>cand. \<not> slot_taken t cand", OF this]
  obtain cand where c: "first_idx (\<lambda>cand. \<not> slot_taken t cand) JR_MAX_BLOCKS = Some cand" by blast
  then have "cand < JR_MAX_BLOCKS" "\<not> slot_taken t cand" by (rule first_idx_SomeD)+
  with c show "unat (pool_alloc t) < JR_MAX_BLOCKS"
    and "i < ?n \<Longrightarrow> lb_index (tx_blocks t i) \<noteq> pool_alloc t"
    by (auto simp: pool_alloc_def slot_taken_def slot_unat)
qed

section \<open>What logging a block does to its context\<close>

definition log_access :: "u64 \<Rightarrow> u8 list \<Rightarrow> jr_ctx \<Rightarrow> jr_ctx" where
  "log_access blk buf k =
     (let t = jc_tx k in
      case logged_idx t blk of
        Some i \<Rightarrow> (fill_slot (unat (lb_index (tx_blocks t i))) buf k)\<lparr>jc_tx :=
            upd_logged i (\<lambda>lb. lb\<lparr>lb_checksum := tx_crc32 buf, lb_revoked := False\<rparr>) t\<rparr>
      | None \<Rightarrow>
          (let n = tx_block_count t; idx = pool_alloc t; w = le_word 4 buf 0 :: u32 in
           (fill_slot (unat idx) buf k)\<lparr>jc_tx :=
             (upd_logged n (\<lambda>lb. lb\<lparr>lb_blocknr := blk, lb_index := idx, lb_revoked := False,
                 lb_checksum := tx_crc32 buf, lb_escaped := (w = JR_DESC_MAGIC \<or> w = JR_COMMIT_MAGIC)\<rparr>) t)
               \<lparr>tx_block_count := n + 1, tx_data_checksum := tx_crc32 buf XOR tx_data_checksum t\<rparr>\<rparr>))"

definition log_dirty :: "u64 \<Rightarrow> u8 list \<Rightarrow> jr_ctx \<Rightarrow> jr_ctx" where
  "log_dirty blk buf k =
     (let t = jc_tx k in
      case logged_idx t blk of
        Some i \<Rightarrow> (fill_slot (unat (lb_index (tx_blocks t i))) buf k)\<lparr>jc_tx :=
            (upd_logged i (\<lambda>lb. lb\<lparr>lb_checksum := tx_crc32 buf\<rparr>) t)
              \<lparr>tx_data_checksum := (tx_data_checksum t XOR lb_checksum (tx_blocks t i)) XOR tx_crc32 buf\<rparr>\<rparr>
      | None \<Rightarrow> log_access blk buf k)"

lemma jr_okD:
  assumes "jr_ok k" and "jc_tx_open k"
  shows "tx_block_count (jc_tx k) \<le> JR_MAX_BLOCKS"
    and "i < tx_block_count (jc_tx k) \<Longrightarrow> unat (lb_index (tx_blocks (jc_tx k) i)) < JR_MAX_BLOCKS"
    and "i < tx_block_count (jc_tx k) \<Longrightarrow>
      lb_checksum (tx_blocks (jc_tx k) i) = tx_crc32 (jc_pool k (unat (lb_index (tx_blocks (jc_tx k) i))))"
    and "inj_on (\<lambda>i. lb_index (tx_blocks (jc_tx k) i)) {..<tx_block_count (jc_tx k)}"
    and "inj_on (\<lambda>i. lb_blocknr (tx_blocks (jc_tx k) i)) {..<tx_block_count (jc_tx k)}"
  using assms by (simp_all add: jr_ok_def Let_def)

text \<open>The two shapes of an update: the bytes of one logged block are replaced, or a block is added.\<close>

lemma logged_refill:
  assumes ok: "jr_ok k" and op: "jc_tx_open k" and i: "logged_idx (jc_tx k) blk = Some i"
    and f: "\<And>lb. lb_blocknr (f lb) = lb_blocknr lb" "\<And>lb. lb_index (f lb) = lb_index lb"
      "\<And>lb. lb_checksum (f lb) = tx_crc32 buf"
    and k': "jc_tx_open k'" "jc_pool k' = (jc_pool k)(unat (lb_index (tx_blocks (jc_tx k) i)) := buf)"
      "tx_blocks (jc_tx k') = (tx_blocks (jc_tx k))(i := f (tx_blocks (jc_tx k) i))"
      "tx_block_count (jc_tx k') = tx_block_count (jc_tx k)"
  shows "jr_ok k'" and "jr_image k' = (jr_image k)(blk \<mapsto> buf)"
proof -
  let ?t = "jc_tx k" and ?n = "tx_block_count (jc_tx k)"
  note ok = jr_okD [OF ok op]
  have i: "i < ?n" "lb_blocknr (tx_blocks ?t i) = blk"
    using i by (auto simp: logged_idx_def dest: first_idx_SomeD)
  have same: "lb_blocknr (tx_blocks (jc_tx k') j) = lb_blocknr (tx_blocks ?t j)"
    "lb_index (tx_blocks (jc_tx k') j) = lb_index (tx_blocks ?t j)" for j
    using k'(3) f by auto
  have other: "unat (lb_index (tx_blocks ?t j)) \<noteq> unat (lb_index (tx_blocks ?t i))" if "j < ?n" "j \<noteq> i" for j
    using inj_onD [OF ok(4)] that i(1) by (auto simp: word_unat_eq_iff)
  have sum: "lb_checksum (tx_blocks (jc_tx k') j) =
      tx_crc32 (jc_pool k' (unat (lb_index (tx_blocks (jc_tx k') j))))" if "j < ?n" for j
    using ok(3) [OF that] other [OF that] k'(2,3) f by (cases "j = i") auto
  show "jr_ok k'"
    using ok sum k'(4) by (simp add: jr_ok_def Let_def same)
  have idx: "logged_idx (jc_tx k') b = logged_idx ?t b" for b
    by (simp add: logged_idx_def same k'(4))
  show "jr_image k' = (jr_image k)(blk \<mapsto> buf)"
  proof (rule ext)
    fix b
    show "jr_image k' b = ((jr_image k)(blk \<mapsto> buf)) b"
    proof (cases "logged_idx ?t b")
      case None
      moreover have "b \<noteq> blk" using None i logged_idx_inj [OF ok(5) i(1)] by auto
      ultimately show ?thesis by (simp add: jr_image_def idx)
    next
      case (Some j)
      then have j: "j < ?n" "lb_blocknr (tx_blocks ?t j) = b"
        by (auto simp: logged_idx_def dest: first_idx_SomeD)
      have "(b = blk) = (j = i)" using j i inj_onD [OF ok(5)] by auto
      with Some other [OF j(1)] show ?thesis
        by (simp add: jr_image_def idx op k'(1,2) same slot_bytes(2) ok(2) [OF j(1)])
    qed
  qed
qed

lemma logged_append:
  assumes ok: "jr_ok k" and op: "jc_tx_open k" and new: "logged_idx (jc_tx k) blk = None"
    and room: "tx_block_count (jc_tx k) < JR_MAX_BLOCKS"
    and e: "lb_blocknr e = blk" "lb_index e = pool_alloc (jc_tx k)" "lb_checksum e = tx_crc32 buf"
    and k': "jc_tx_open k'" "jc_pool k' = (jc_pool k)(unat (pool_alloc (jc_tx k)) := buf)"
      "tx_blocks (jc_tx k') = (tx_blocks (jc_tx k))(tx_block_count (jc_tx k) := e)"
      "tx_block_count (jc_tx k') = tx_block_count (jc_tx k) + 1"
  shows "jr_ok k'" and "jr_image k' = (jr_image k)(blk \<mapsto> buf)"
proof -
  let ?t = "jc_tx k" and ?n = "tx_block_count (jc_tx k)" and ?x = "pool_alloc (jc_tx k)"
  note ok = jr_okD [OF ok op] and fresh = pool_alloc_fresh [OF room]
  have newb: "lb_blocknr (tx_blocks ?t j) \<noteq> blk" if "j < ?n" for j
    using new that by (auto simp: logged_idx_def first_idx_None_iff)
  have other: "unat (lb_index (tx_blocks ?t j)) \<noteq> unat ?x" if "j < ?n" for j
    using fresh(2) [OF that] by (simp add: word_unat_eq_iff)
  have at: "tx_blocks (jc_tx k') j = tx_blocks ?t j" if "j < ?n" for j
    using k'(3) that by simp
  have en: "tx_blocks (jc_tx k') ?n = e" using k'(3) by simp
  have sum: "unat (lb_index (tx_blocks (jc_tx k') j)) < JR_MAX_BLOCKS \<and>
      lb_checksum (tx_blocks (jc_tx k') j) =
        tx_crc32 (jc_pool k' (unat (lb_index (tx_blocks (jc_tx k') j))))" if "j < Suc ?n" for j
  proof (cases "j = ?n")
    case True
    then show ?thesis using fresh(1) e k'(2) en by simp
  next
    case False
    with that have "j < ?n" by simp
    with ok(2,3) other k'(2) show ?thesis by (simp add: at)
  qed
  have "inj_on (\<lambda>i. lb_index (tx_blocks (jc_tx k') i)) {..<Suc ?n}"
    "inj_on (\<lambda>i. lb_blocknr (tx_blocks (jc_tx k') i)) {..<Suc ?n}"
    using ok(4,5) fresh(2) newb e en unfolding lessThan_Suc inj_on_insert
    by (auto simp: at inj_on_def) (metis at)+
  then show "jr_ok k'"
    using sum k'(4) room by (simp add: jr_ok_def Let_def)
  have idx: "logged_idx (jc_tx k') b = (if b = blk then Some ?n else logged_idx ?t b)" for b
  proof -
    have "first_idx (\<lambda>i. lb_blocknr (tx_blocks (jc_tx k') i) = b) ?n = logged_idx ?t b"
      unfolding logged_idx_def by (rule first_idx_cong) (simp add: at)
    with newb show ?thesis
      using new en e(1) by (auto simp: logged_idx_def k'(4) first_idx_Suc split: option.split)
  qed
  show "jr_image k' = (jr_image k)(blk \<mapsto> buf)"
  proof (rule ext)
    fix b
    show "jr_image k' b = ((jr_image k)(blk \<mapsto> buf)) b"
    proof (cases "b = blk")
      case True
      then show ?thesis
        using fresh(1) by (simp add: jr_image_def idx k'(1,2) en e(2) slot_bytes(2))
    next
      case False
      show ?thesis
      proof (cases "logged_idx ?t b")
        case None
        with False show ?thesis by (simp add: jr_image_def idx)
      next
        case (Some j)
        then have j: "j < ?n" by (auto simp: logged_idx_def dest: first_idx_SomeD)
        with Some False other [OF j] show ?thesis
          by (simp add: jr_image_def idx op k'(1,2) at slot_bytes(2) ok(2) [OF j])
      qed
    qed
  qed
qed


section \<open>The hooks\<close>

text \<open>The context after \<open>uiox_jr_start\<close> has made sure that a transaction is open.\<close>

definition begun :: "u64 \<Rightarrow> jr_ctx \<Rightarrow> jr_ctx" where
  "begun now k =
     (if jc_tx_open k then k
      else k\<lparr>jc_tx := zero_tx\<lparr>tx_tid := js_sequence (jc_jsb k), tx_state := TX_RUNNING,
               tx_mode := jc_mode k, tx_start_time := now, tx_data_checksum := 0xFFFFFFFF\<rparr>,
             jc_jsb := (jc_jsb k)\<lparr>js_sequence := js_sequence (jc_jsb k) + 1\<rparr>,
             jc_tx_open := True\<rparr>)"

definition jr_ready :: "nat \<Rightarrow> jr_state \<Rightarrow> bool" where
  "jr_ready c s \<longleftrightarrow>
     jr_ok (jr_ctxs s c) \<and> jc_initialized (jr_ctxs s c) \<and> \<not> jc_aborted (jr_ctxs s c) \<and>
     (jc_tx_open (jr_ctxs s c) \<longrightarrow> tx_handle_count (jc_tx (jr_ctxs s c)) \<noteq> - 1) \<and>
     (\<exists>h<JR_MAX_HANDLES. \<not> jr_used s h)"

definition jr_room :: "nat \<Rightarrow> jr_state \<Rightarrow> bool" where
  "jr_room c s \<longleftrightarrow>
     (jc_tx_open (jr_ctxs s c) \<longrightarrow> tx_block_count (jc_tx (jr_ctxs s c)) < JR_MAX_BLOCKS)"

lemma begun_sel [simp]:
  "jc_tx_open (begun now k)" "jc_aborted (begun now k) = jc_aborted k"
  "jc_initialized (begun now k) = jc_initialized k"
  by (simp_all add: begun_def)

lemma begun_open: "jc_tx_open k \<Longrightarrow> begun now k = k"
  by (simp add: begun_def)

lemma begun_ok: "jr_ok k \<Longrightarrow> jr_ok (begun now k)"
  by (simp add: begun_def jr_ok_def zero_tx_def Let_def)

lemma begun_image: "jr_image (begun now k) = jr_image k"
  by (rule ext) (simp add: begun_def jr_image_def zero_tx_def logged_idx_def first_idx_def)

lemma begun_room:
  "(jc_tx_open k \<longrightarrow> tx_block_count (jc_tx k) < JR_MAX_BLOCKS) \<Longrightarrow>
     tx_block_count (jc_tx (begun now k)) < JR_MAX_BLOCKS"
  by (simp add: begun_def zero_tx_def JR_MAX_BLOCKS_def)

text \<open>One handle more or less is open; nothing else in the transaction moves.\<close>

definition with_handles :: "(u32 \<Rightarrow> u32) \<Rightarrow> jr_ctx \<Rightarrow> jr_ctx" where
  "with_handles f k = k\<lparr>jc_tx := (jc_tx k)\<lparr>tx_handle_count := f (tx_handle_count (jc_tx k))\<rparr>\<rparr>"

lemma jr_start_spec:
  assumes r: "\<not> jc_aborted (jr_ctxs s c)" "jr_room c s"
    and h: "first_idx (\<lambda>i. \<not> jr_used s i) JR_MAX_HANDLES = Some h"
  obtains t where "jr_start now (Some c) 1 s = (Some h, t)"
    and "jr_used t = (jr_used s)(h := True)" and "s_jr t = s_jr s"
    and "jr_ctxs t = (jr_ctxs s)(c := with_handles (\<lambda>n. n + 1) (begun now (jr_ctxs s c)))"
    and "h_reserved (jr_handles t h) = 1" and "h_used (jr_handles t h) = 0"
    and "\<not> h_aborted (jr_handles t h)" and "\<not> h_sync (jr_handles t h)"
proof -
  define s1 where "s1 = snd (if jc_tx_open (jr_ctxs s c) then (JR_OK, s) else tx_begin now c s)"
  have s1: "(if jc_tx_open (jr_ctxs s c) then (JR_OK, s) else tx_begin now c s) = (JR_OK, s1)"
    "jr_ctxs s1 = (jr_ctxs s)(c := begun now (jr_ctxs s c))" "jr_used s1 = jr_used s"
    "s_jr s1 = s_jr s"
    using r(1) by (auto simp: s1_def tx_begin_def begun_def Let_def pool_release_all_def)
  have room: "\<not> JR_MAX_BLOCKS < tx_block_count (jc_tx (jr_ctxs s1 c)) + 1"
    using begun_room [of "jr_ctxs s c" now] r(2) by (simp add: s1(2) jr_room_def)
  have n: "\<not> (1 = (0 :: nat) \<or> JR_MAX_BLOCKS < 1)" by (simp add: JR_MAX_BLOCKS_def)
  define t where "t = snd (jr_start_handle c 1 s1)"
  have H: "jr_start_handle c 1 s1 = (Some h, t)"
    using h by (simp add: t_def jr_start_handle_def alloc_handle_def s1(3) Let_def)
  have "jr_start now (Some c) 1 s = (Some h, t)"
    unfolding jr_start_def option.case using r(1) n s1(1) room H by (simp del: fun_upd_apply)
  moreover have "jr_used t = (jr_used s)(h := True)" "s_jr t = s_jr s"
    "jr_ctxs t = (jr_ctxs s)(c := with_handles (\<lambda>n. n + 1) (begun now (jr_ctxs s c)))"
    "h_reserved (jr_handles t h) = 1" "h_used (jr_handles t h) = 0"
    "\<not> h_aborted (jr_handles t h)" "\<not> h_sync (jr_handles t h)"
    using h by (auto simp: t_def jr_start_handle_def alloc_handle_def s1 Let_def with_handles_def zero_handle_def)
  ultimately show ?thesis by (rule that)
qed

lemma jr_stop_spec:
  assumes "\<not> h_sync (jr_handles s h)" and "h < JR_MAX_HANDLES"
    and "jr_ctxs s = (f)(c := with_handles (\<lambda>n. n + 1) k)" and "tx_handle_count (jc_tx k) \<noteq> - 1"
  shows "jr_ctxs (snd (jr_stop (Some h) (Some c) s)) = f(c := k)"
    and "jr_used (snd (jr_stop (Some h) (Some c) s)) = (jr_used s)(h := False)"
    and "s_jr (snd (jr_stop (Some h) (Some c) s)) = s_jr s"
proof -
  have "tx_handle_count (jc_tx k) + 1 \<noteq> 0"
    using assms(4) by (metis add_eq_0_iff2)
  then have "0 < tx_handle_count (jc_tx k) + 1" by (simp add: word_gt_0)
  then show "jr_ctxs (snd (jr_stop (Some h) (Some c) s)) = f(c := k)"
    "jr_used (snd (jr_stop (Some h) (Some c) s)) = (jr_used s)(h := False)"
    "s_jr (snd (jr_stop (Some h) (Some c) s)) = s_jr s"
    using assms by (auto simp: jr_stop_def Let_def free_handle_def with_handles_def)
qed


lemma gwa_spec:
  assumes h: "h_reserved (jr_handles t h) = 1" "h_used (jr_handles t h) = 0" "\<not> h_aborted (jr_handles t h)"
    and k: "jr_ok (jr_ctxs t c)" "jc_tx_open (jr_ctxs t c)" "\<not> jc_aborted (jr_ctxs t c)"
      "tx_block_count (jc_tx (jr_ctxs t c)) < JR_MAX_BLOCKS"
  obtains u where "jr_get_write_access (Some h) (Some c) blk buf t = (JR_OK, u)"
    and "jr_ctxs u = (jr_ctxs t)(c := log_access blk buf (jr_ctxs t c))"
    and "jr_used u = jr_used t" and "s_jr u = s_jr t" and "h_sync (jr_handles u h) = h_sync (jr_handles t h)"
proof -
  define u where "u = snd (jr_get_write_access (Some h) (Some c) blk buf t)"
  have fresh: "unat (pool_alloc (jc_tx (jr_ctxs t c))) < JR_MAX_BLOCKS"
    by (rule pool_alloc_fresh(1) [OF k(4)])
  then have none: "pool_alloc (jc_tx (jr_ctxs t c)) \<noteq> JR_SLOT_NONE" by (auto simp: jr_consts)
  have slot: "pool_slot (lb_index (tx_blocks (jc_tx (jr_ctxs t c)) i)) =
      Some (unat (lb_index (tx_blocks (jc_tx (jr_ctxs t c)) i)))"
    if "logged_idx (jc_tx (jr_ctxs t c)) blk = Some i" for i
    using that jr_okD(2) [OF k(1,2)] by (auto simp: logged_idx_def slot_bytes dest: first_idx_SomeD)
  have "jr_get_write_access (Some h) (Some c) blk buf t = (JR_OK, u)"
    "jr_ctxs u = (jr_ctxs t)(c := log_access blk buf (jr_ctxs t c))"
    "jr_used u = jr_used t" "s_jr u = s_jr t" "h_sync (jr_handles u h) = h_sync (jr_handles t h)"
    using h k(3,4) none slot slot_bytes(1) [OF fresh]
    by (auto simp: u_def jr_get_write_access_def jr_log_new_def log_access_def Let_def fill_slot_def
        upd_logged_def split: option.split)
  then show ?thesis by (rule that)
qed

lemma dirty_spec:
  assumes h: "h_reserved (jr_handles t h) = 1" "h_used (jr_handles t h) = 0" "\<not> h_aborted (jr_handles t h)"
    and k: "jr_ok (jr_ctxs t c)" "jc_tx_open (jr_ctxs t c)" "\<not> jc_aborted (jr_ctxs t c)"
      "tx_block_count (jc_tx (jr_ctxs t c)) < JR_MAX_BLOCKS"
  obtains u where "jr_dirty_metadata (Some h) (Some c) blk buf t = (JR_OK, u)"
    and "jr_ctxs u = (jr_ctxs t)(c := log_dirty blk buf (jr_ctxs t c))"
    and "jr_used u = jr_used t" and "s_jr u = s_jr t" and "h_sync (jr_handles u h) = h_sync (jr_handles t h)"
proof (cases "logged_idx (jc_tx (jr_ctxs t c)) blk")
  case None
  then have "jr_dirty_metadata (Some h) (Some c) blk buf t = jr_get_write_access (Some h) (Some c) blk buf t"
    "log_dirty blk buf (jr_ctxs t c) = log_access blk buf (jr_ctxs t c)"
    using h(3) k(3) by (simp_all add: jr_dirty_metadata_def log_dirty_def Let_def)
  with gwa_spec [OF assms, of blk buf] that show ?thesis by metis
next
  case (Some i)
  define u where "u = snd (jr_dirty_metadata (Some h) (Some c) blk buf t)"
  have "unat (lb_index (tx_blocks (jc_tx (jr_ctxs t c)) i)) < JR_MAX_BLOCKS"
    using Some jr_okD(2) [OF k(1,2)] by (auto simp: logged_idx_def dest: first_idx_SomeD)
  then have "jr_dirty_metadata (Some h) (Some c) blk buf t = (JR_OK, u)"
    "jr_ctxs u = (jr_ctxs t)(c := log_dirty blk buf (jr_ctxs t c))"
    "jr_used u = jr_used t" "s_jr u = s_jr t" "h_sync (jr_handles u h) = h_sync (jr_handles t h)"
    using h(3) k(3) Some slot_bytes(1)
    by (auto simp: u_def jr_dirty_metadata_def log_dirty_def Let_def fill_slot_def upd_logged_def)
  then show ?thesis by (rule that)
qed

lemma log_access_ok:
  assumes "jr_ok k" and "jc_tx_open k" and "tx_block_count (jc_tx k) < JR_MAX_BLOCKS"
  shows "jr_ok (log_access blk buf k)" and "jr_image (log_access blk buf k) = (jr_image k)(blk \<mapsto> buf)"
proof -
  have "jr_ok (log_access blk buf k) \<and> jr_image (log_access blk buf k) = (jr_image k)(blk \<mapsto> buf)"
  proof (cases "logged_idx (jc_tx k) blk")
    case None
    show ?thesis
      by (intro conjI; rule logged_append [OF assms(1,2) None assms(3)])
        (simp_all add: log_access_def None Let_def assms(2))
  next
    case (Some i)
    show ?thesis
      by (intro conjI; rule logged_refill [OF assms(1,2) Some,
          where f = "\<lambda>lb. lb\<lparr>lb_checksum := tx_crc32 buf, lb_revoked := False\<rparr>"])
        (simp_all add: log_access_def Some Let_def assms(2))
  qed
  then show "jr_ok (log_access blk buf k)" "jr_image (log_access blk buf k) = (jr_image k)(blk \<mapsto> buf)"
    by simp_all
qed

lemma log_dirty_ok:
  assumes "jr_ok k" and "jc_tx_open k" and "tx_block_count (jc_tx k) < JR_MAX_BLOCKS"
  shows "jr_ok (log_dirty blk buf k)" and "jr_image (log_dirty blk buf k) = (jr_image k)(blk \<mapsto> buf)"
proof -
  have "jr_ok (log_dirty blk buf k) \<and> jr_image (log_dirty blk buf k) = (jr_image k)(blk \<mapsto> buf)"
  proof (cases "logged_idx (jc_tx k) blk")
    case None
    then show ?thesis using log_access_ok [OF assms, of blk buf] by (simp add: log_dirty_def Let_def)
  next
    case (Some i)
    show ?thesis
      by (intro conjI; rule logged_refill [OF assms(1,2) Some,
          where f = "\<lambda>lb. lb\<lparr>lb_checksum := tx_crc32 buf\<rparr>"])
        (simp_all add: log_dirty_def Some Let_def assms(2))
  qed
  then show "jr_ok (log_dirty blk buf k)" "jr_image (log_dirty blk buf k) = (jr_image k)(blk \<mapsto> buf)"
    by simp_all
qed

lemma log_flags [simp]:
  "jc_tx_open (log_access blk buf k) = jc_tx_open k" "jc_tx_open (log_dirty blk buf k) = jc_tx_open k"
  "jc_aborted (log_access blk buf k) = jc_aborted k" "jc_aborted (log_dirty blk buf k) = jc_aborted k"
  "jc_initialized (log_access blk buf k) = jc_initialized k"
  "jc_initialized (log_dirty blk buf k) = jc_initialized k"
  "tx_handle_count (jc_tx (log_access blk buf k)) = tx_handle_count (jc_tx k)"
  "tx_handle_count (jc_tx (log_dirty blk buf k)) = tx_handle_count (jc_tx k)"
  by (simp_all add: log_access_def log_dirty_def Let_def split: option.split)

text \<open>A hook is: open a transaction if none is open, log the block, release the handle.\<close>

lemma with_handles_ok: "jr_ok (with_handles f k) = jr_ok k"
  by (simp add: with_handles_def jr_ok_def Let_def)

lemma with_handles_log:
  "log_access blk buf (with_handles f k) = with_handles f (log_access blk buf k)"
  "log_dirty blk buf (with_handles f k) = with_handles f (log_dirty blk buf k)"
  by (auto simp: with_handles_def log_access_def log_dirty_def Let_def fill_slot_def upd_logged_def
      logged_idx_def pool_alloc_def slot_taken_def split: option.split)

lemma with_handles_sel [simp]:
  "jc_tx_open (with_handles f k) = jc_tx_open k" "jc_aborted (with_handles f k) = jc_aborted k"
  "tx_block_count (jc_tx (with_handles f k)) = tx_block_count (jc_tx k)"
  "tx_handle_count (jc_tx (with_handles f k)) = f (tx_handle_count (jc_tx k))"
  by (simp_all add: with_handles_def)

lemma hooks_run:
  assumes r: "jr_ready c s" "jr_room c s"
  obtains t u where "jr_vfs_get_write_access now (Some c) blk buf s = (JR_OK, t)"
    and "jr_ctxs t = (jr_ctxs s)(c := log_access blk buf (begun now (jr_ctxs s c)))"
    and "jr_used t = jr_used s" and "s_jr t = s_jr s"
    and "jr_vfs_dirty_metadata now (Some c) blk buf s = (JR_OK, u)"
    and "jr_ctxs u = (jr_ctxs s)(c := log_dirty blk buf (begun now (jr_ctxs s c)))"
    and "jr_used u = jr_used s" and "s_jr u = s_jr s"
proof -
  let ?k = "begun now (jr_ctxs s c)" and ?kt = "with_handles (\<lambda>n. n + 1) (begun now (jr_ctxs s c))"
  obtain h where h: "first_idx (\<lambda>i. \<not> jr_used s i) JR_MAX_HANDLES = Some h"
    using r(1) first_idx_ex [where P = "\<lambda>i. \<not> jr_used s i"] unfolding jr_ready_def by blast
  then have hb: "h < JR_MAX_HANDLES" "\<not> jr_used s h" by (rule first_idx_SomeD)+
  from r(1) have rs: "jr_ok (jr_ctxs s c)" "jc_initialized (jr_ctxs s c)" "\<not> jc_aborted (jr_ctxs s c)"
    by (auto simp: jr_ready_def)
  obtain t where t: "jr_start now (Some c) 1 s = (Some h, t)" "jr_used t = (jr_used s)(h := True)"
    "s_jr t = s_jr s" "jr_ctxs t = (jr_ctxs s)(c := ?kt)" "h_reserved (jr_handles t h) = 1"
    "h_used (jr_handles t h) = 0" "\<not> h_aborted (jr_handles t h)" "\<not> h_sync (jr_handles t h)"
    using jr_start_spec [OF rs(3) r(2) h, of now] by blast
  have room: "tx_block_count (jc_tx ?k) < JR_MAX_BLOCKS"
    using begun_room [of "jr_ctxs s c" now] r(2) by (simp add: jr_room_def)
  have okk: "jr_ok ?k" by (rule begun_ok [OF rs(1)])
  have hc: "tx_handle_count (jc_tx ?k) \<noteq> - 1"
    using r(1) by (auto simp: jr_ready_def begun_def zero_tx_def)
  have kt: "jr_ok ?kt" "jc_tx_open ?kt" "\<not> jc_aborted ?kt" "tx_block_count (jc_tx ?kt) < JR_MAX_BLOCKS"
    using okk room rs(3) by (simp_all add: with_handles_ok)
  have used: "(jr_used t)(h := False) = jr_used s" using hb(2) by (auto simp: t(2) fun_eq_iff)
  have stop: "jr_ctxs (snd (jr_stop (Some h) (Some c) u)) = (jr_ctxs s)(c := f ?k) \<and>
      jr_used (snd (jr_stop (Some h) (Some c) u)) = jr_used s \<and>
      s_jr (snd (jr_stop (Some h) (Some c) u)) = s_jr s"
    if u: "jr_ctxs u = (jr_ctxs t)(c := f (jr_ctxs t c))" "jr_used u = jr_used t" "s_jr u = s_jr t"
      "h_sync (jr_handles u h) = h_sync (jr_handles t h)"
      and f: "f ?kt = with_handles (\<lambda>n. n + 1) (f ?k)"
        "tx_handle_count (jc_tx (f ?k)) = tx_handle_count (jc_tx ?k)" for f u
  proof -
    have sy: "\<not> h_sync (jr_handles u h)" using u(4) t(8) by simp
    have cx: "jr_ctxs u = (jr_ctxs s)(c := with_handles (\<lambda>n. n + 1) (f ?k))" by (simp add: u(1) t(4) f(1))
    have n: "tx_handle_count (jc_tx (f ?k)) \<noteq> - 1" using hc f(2) by simp
    note jr_stop_spec [OF sy hb(1) cx n]
    then show ?thesis using u(2,3) used t(3) by simp
  qed
  have la: "log_access blk buf ?kt = with_handles (\<lambda>n. n + 1) (log_access blk buf ?k)"
    "log_dirty blk buf ?kt = with_handles (\<lambda>n. n + 1) (log_dirty blk buf ?k)"
    by (rule with_handles_log)+
  obtain u where u: "jr_get_write_access (Some h) (Some c) blk buf t = (JR_OK, u)"
    "jr_ctxs u = (jr_ctxs t)(c := log_access blk buf (jr_ctxs t c))"
    "jr_used u = jr_used t" "s_jr u = s_jr t" "h_sync (jr_handles u h) = h_sync (jr_handles t h)"
    by (rule gwa_spec [OF t(5-7), of c blk buf]) (use kt t(4) in auto)
  obtain v where v: "jr_dirty_metadata (Some h) (Some c) blk buf t = (JR_OK, v)"
    "jr_ctxs v = (jr_ctxs t)(c := log_dirty blk buf (jr_ctxs t c))"
    "jr_used v = jr_used t" "s_jr v = s_jr t" "h_sync (jr_handles v h) = h_sync (jr_handles t h)"
    by (rule dirty_spec [OF t(5-7), of c blk buf]) (use kt t(4) in auto)
  have "jr_vfs_get_write_access now (Some c) blk buf s = (JR_OK, snd (jr_stop (Some h) (Some c) u))"
    "jr_vfs_dirty_metadata now (Some c) blk buf s = (JR_OK, snd (jr_stop (Some h) (Some c) v))"
    using rs(2) t(1) u(1) v(1)
    by (simp_all add: jr_vfs_get_write_access_def jr_vfs_dirty_metadata_def)
  with stop [OF u(2-5) la(1)] stop [OF v(2-5) la(2)] show ?thesis
    by (intro that [of "snd (jr_stop (Some h) (Some c) u)" "snd (jr_stop (Some h) (Some c) v)"]) auto
qed


lemma hooks_keep:
  assumes "jr_ready c s" and "jc_tx_open k'" "\<not> jc_aborted k'" "jc_initialized k'" "jr_ok k'"
    "tx_handle_count (jc_tx k') = tx_handle_count (jc_tx (begun now (jr_ctxs s c)))"
    and "jr_ctxs t = (jr_ctxs s)(c := k')" and "jr_used t = jr_used s"
  shows "jr_ready c t"
proof -
  have "tx_handle_count (jc_tx (begun now (jr_ctxs s c))) \<noteq> - 1"
    using assms(1) by (auto simp: jr_ready_def begun_def zero_tx_def)
  with assms show ?thesis by (simp add: jr_ready_def)
qed

section \<open>The interface of the hooks\<close>

text \<open>What a caller that records an update relies on: the image handed over last is the one the log
  holds, for that block and no other; with no room the call fails and changes nothing.\<close>

locale update_log =
  fixes pre post :: "u64 \<Rightarrow> u8 list \<Rightarrow> 's \<Rightarrow> jr_err \<times> 's"
    and image :: "'s \<Rightarrow> u64 \<Rightarrow> u8 list option" and ready room :: "'s \<Rightarrow> bool"
  assumes pre_ok: "ready s \<Longrightarrow> room s \<Longrightarrow> \<exists>t. pre b x s = (JR_OK, t) \<and> ready t \<and> image t = (image s)(b \<mapsto> x)"
    and post_ok: "ready s \<Longrightarrow> room s \<Longrightarrow> \<exists>t. post b x s = (JR_OK, t) \<and> ready t \<and> image t = (image s)(b \<mapsto> x)"
    and pre_full: "ready s \<Longrightarrow> \<not> room s \<Longrightarrow> pre b x s = (JR_FULL, s)"
    and post_full: "ready s \<Longrightarrow> \<not> room s \<Longrightarrow> post b x s = (JR_FULL, s)"
begin

lemma both_image:
  assumes "ready s"
  shows "ready (snd (post b y (snd (pre b x s)))) \<and> image (snd (post b y (snd (pre b x s)))) =
    (if \<not> room s then image s
     else if room (snd (pre b x s)) then (image s)(b \<mapsto> y) else (image s)(b \<mapsto> x))"
proof (cases "room s")
  case False
  then show ?thesis
    using pre_full [OF assms False, of b x] post_full [OF assms False, of b y] assms by simp
next
  case True
  obtain t where t: "pre b x s = (JR_OK, t)" "ready t" "image t = (image s)(b \<mapsto> x)"
    using pre_ok [OF assms True] by blast
  show ?thesis
  proof (cases "room t")
    case True
    from post_ok [OF t(2) True, of b y] t True \<open>room s\<close> show ?thesis by auto
  next
    case False
    from post_full [OF t(2) False, of b y] t False \<open>room s\<close> show ?thesis by simp
  qed
qed

end

lemma hook_full:
  assumes "jr_ready c s" and "\<not> jr_room c s"
  shows "jr_start now (Some c) 1 s = (None, s)"
proof -
  have n: "\<not> (1 = (0 :: nat) \<or> JR_MAX_BLOCKS < 1)" by (simp add: JR_MAX_BLOCKS_def)
  show ?thesis using assms n by (simp add: jr_start_def jr_ready_def jr_room_def jr_force_commit_def)
qed

interpretation journal: update_log "jr_vfs_get_write_access now (Some c)" "jr_vfs_dirty_metadata now (Some c)"
  "\<lambda>s. jr_image (jr_ctxs s c)" "jr_ready c" "jr_room c" for now c
proof unfold_locales
  fix s b x
  assume R: "jr_ready c s" "jr_room c s"
  let ?k = "begun now (jr_ctxs s c)"
  have k: "jr_ok ?k" "jc_tx_open ?k" "tx_block_count (jc_tx ?k) < JR_MAX_BLOCKS"
    using R begun_ok begun_room by (auto simp: jr_ready_def jr_room_def)
  have f: "jc_initialized (jr_ctxs s c)" "\<not> jc_aborted (jr_ctxs s c)" using R(1) by (auto simp: jr_ready_def)
  obtain t u where T: "jr_vfs_get_write_access now (Some c) b x s = (JR_OK, t)"
    "jr_ctxs t = (jr_ctxs s)(c := log_access b x ?k)" "jr_used t = jr_used s"
    and U: "jr_vfs_dirty_metadata now (Some c) b x s = (JR_OK, u)"
    "jr_ctxs u = (jr_ctxs s)(c := log_dirty b x ?k)" "jr_used u = jr_used s"
    using hooks_run [OF R, of now b x] by metis
  have "jr_ready c t" by (rule hooks_keep [OF R(1) _ _ _ log_access_ok(1) [OF k, of b x] _ T(2,3)]) (simp_all add: f)
  with T log_access_ok(2) [OF k, of b x]
  show "\<exists>t. jr_vfs_get_write_access now (Some c) b x s = (JR_OK, t) \<and> jr_ready c t \<and>
      jr_image (jr_ctxs t c) = (jr_image (jr_ctxs s c))(b \<mapsto> x)"
    by (auto simp: begun_image)
  have "jr_ready c u" by (rule hooks_keep [OF R(1) _ _ _ log_dirty_ok(1) [OF k, of b x] _ U(2,3)]) (simp_all add: f)
  with U log_dirty_ok(2) [OF k, of b x]
  show "\<exists>t. jr_vfs_dirty_metadata now (Some c) b x s = (JR_OK, t) \<and> jr_ready c t \<and>
      jr_image (jr_ctxs t c) = (jr_image (jr_ctxs s c))(b \<mapsto> x)"
    by (auto simp: begun_image)
next
  fix s b x
  assume R: "jr_ready c s" "\<not> jr_room c s"
  then have "jc_initialized (jr_ctxs s c)" by (simp add: jr_ready_def)
  with hook_full [OF R, of now]
  show "jr_vfs_get_write_access now (Some c) b x s = (JR_FULL, s)"
    "jr_vfs_dirty_metadata now (Some c) b x s = (JR_FULL, s)"
    by (simp_all add: jr_vfs_get_write_access_def jr_vfs_dirty_metadata_def)
qed


section \<open>A transaction that is never committed\<close>

text \<open>The calls the rest of the kernel makes on a journal, and their effect on the state.\<close>

datatype jr_op = NotePre u64 u64 "u8 list" | NotePost u64 u64 "u8 list" | NoteRevoke u64 u64
  | Tick u64 | Unmount

fun jr_do :: "nat \<Rightarrow> jr_op \<Rightarrow> jr_state \<Rightarrow> jr_state" where
  "jr_do c (NotePre now blk buf) s = snd (jr_vfs_get_write_access now (Some c) blk buf s)"
| "jr_do c (NotePost now blk buf) s = snd (jr_vfs_dirty_metadata now (Some c) blk buf s)"
| "jr_do c (NoteRevoke now blk) s = snd (jr_vfs_revoke now (Some c) blk s)"
| "jr_do c (Tick now) s = snd (jr_tick now (Some c) s)"
| "jr_do c Unmount s = snd (jr_unmount (Some c) s)"

definition grows :: "nat \<Rightarrow> jr_state \<Rightarrow> jr_state \<Rightarrow> bool" where
  "grows c s t \<longleftrightarrow>
     (jc_tx_open (jr_ctxs s c) \<longrightarrow>
        jc_tx_open (jr_ctxs t c) \<and> tx_tid (jc_tx (jr_ctxs t c)) = tx_tid (jc_tx (jr_ctxs s c)) \<and>
        tx_block_count (jc_tx (jr_ctxs s c)) \<le> tx_block_count (jc_tx (jr_ctxs t c)) \<and>
        (\<forall>i<tx_block_count (jc_tx (jr_ctxs s c)).
           lb_blocknr (tx_blocks (jc_tx (jr_ctxs t c)) i) = lb_blocknr (tx_blocks (jc_tx (jr_ctxs s c)) i)) \<and>
        (jc_initialized (jr_ctxs s c) \<longrightarrow> jc_initialized (jr_ctxs t c)))"

lemma grows_refl [simp]: "grows c s s"
  by (simp add: grows_def)

lemma grows_trans: "grows c s t \<Longrightarrow> grows c t u \<Longrightarrow> grows c s u"
  by (fastforce simp: grows_def)

lemma grows_upd:
  "(\<And>k. jc_tx_open (f k) = jc_tx_open k \<and> jc_initialized (f k) = jc_initialized k \<and>
      tx_tid (jc_tx (f k)) = tx_tid (jc_tx k) \<and> tx_block_count (jc_tx k) \<le> tx_block_count (jc_tx (f k)) \<and>
      (\<forall>i<tx_block_count (jc_tx k). lb_blocknr (tx_blocks (jc_tx (f k)) i) = lb_blocknr (tx_blocks (jc_tx k) i))) \<Longrightarrow>
    grows c s (upd_ctx c f s)"
  by (simp add: grows_def)

lemma grows_same_ctx: "jr_ctxs t c = jr_ctxs s c \<Longrightarrow> grows c s t"
  by (simp add: grows_def)

lemma grows_start: "grows c s (snd (jr_start now (Some c) n s))"
  by (auto simp: grows_def jr_start_def jr_start_handle_def alloc_handle_def jr_force_commit_def Let_def
      tx_begin_def split: option.split prod.split)

lemma grows_access: "grows c s (snd (jr_get_write_access h (Some c) blk buf s))"
  by (auto simp: grows_def jr_get_write_access_def jr_log_new_def Let_def upd_logged_def
      split: option.split)

lemma grows_dirty: "grows c s (snd (jr_dirty_metadata h (Some c) blk buf s))"
  using grows_access [of c s h blk buf]
  by (auto simp: grows_def jr_dirty_metadata_def Let_def upd_logged_def split: option.split)

lemma grows_revoke: "grows c s (snd (jr_revoke h (Some c) blk s))"
  by (auto simp: grows_def jr_revoke_def Let_def split: option.split)

lemma grows_stop: "grows c s (snd (jr_stop h (Some c) s))"
  by (auto simp: grows_def jr_stop_def Let_def free_handle_def jr_force_commit_def split: option.split)

lemma grows_do: "grows c s (jr_do c op s)"
proof (cases op)
  case (NotePre now blk buf)
  have "grows c s (snd (jr_stop (Some h) (Some c) (snd (jr_get_write_access (Some h) (Some c) blk buf u))))"
    if "jr_start now (Some c) 1 s = (Some h, u)" for h u
    using grows_start [of c s now 1] that grows_access grows_stop grows_trans by (metis snd_conv)
  moreover have "grows c s u" if "jr_start now (Some c) 1 s = (h, u)" for h u
    using grows_start [of c s now 1] that by simp
  ultimately show ?thesis
    by (auto simp: NotePre jr_vfs_get_write_access_def split: option.split prod.split)
next
  case (NotePost now blk buf)
  have "grows c s (snd (jr_stop (Some h) (Some c) (snd (jr_dirty_metadata (Some h) (Some c) blk buf u))))"
    if "jr_start now (Some c) 1 s = (Some h, u)" for h u
    using grows_start [of c s now 1] that grows_dirty grows_stop grows_trans by (metis snd_conv)
  moreover have "grows c s u" if "jr_start now (Some c) 1 s = (h, u)" for h u
    using grows_start [of c s now 1] that by simp
  ultimately show ?thesis
    by (auto simp: NotePost jr_vfs_dirty_metadata_def split: option.split prod.split)
next
  case (NoteRevoke now blk)
  have "grows c s (snd (jr_stop (Some h) (Some c) (snd (jr_revoke (Some h) (Some c) blk u))))"
    if "jr_start now (Some c) 1 s = (Some h, u)" for h u
    using grows_start [of c s now 1] that grows_revoke grows_stop grows_trans by (metis snd_conv)
  moreover have "grows c s u" if "jr_start now (Some c) 1 s = (h, u)" for h u
    using grows_start [of c s now 1] that by simp
  ultimately show ?thesis
    by (auto simp: NoteRevoke jr_vfs_revoke_def split: option.split prod.split)
next
  case (Tick now)
  then show ?thesis by (auto simp: grows_def jr_tick_def jr_force_commit_def)
next
  case Unmount
  then show ?thesis by (auto simp: grows_def jr_unmount_def jr_force_commit_def)
qed

lemma grows_steps: "grows c s (fold (jr_do c) ops s)"
  by (induction ops arbitrary: s) (auto intro: grows_do grows_trans)

lemma hook_refused:
  assumes "jc_tx_open (jr_ctxs s c)" and "JR_MAX_BLOCKS \<le> tx_block_count (jc_tx (jr_ctxs s c))"
    and "jc_initialized (jr_ctxs s c)"
  shows "jr_vfs_get_write_access now (Some c) blk buf s = (JR_FULL, s)"
    and "jr_vfs_dirty_metadata now (Some c) blk buf s = (JR_FULL, s)"
    and "jr_vfs_revoke now (Some c) blk s = (JR_FULL, s)"
proof -
  have n: "\<not> (1 = (0 :: nat) \<or> JR_MAX_BLOCKS < 1)" by (simp add: JR_MAX_BLOCKS_def)
  have "jr_start now (Some c) 1 s = (None, s)"
    using assms(1,2) n by (simp add: jr_start_def jr_force_commit_def)
  then show "jr_vfs_get_write_access now (Some c) blk buf s = (JR_FULL, s)"
    "jr_vfs_dirty_metadata now (Some c) blk buf s = (JR_FULL, s)"
    "jr_vfs_revoke now (Some c) blk s = (JR_FULL, s)"
    using assms(3) by (simp_all add: jr_vfs_get_write_access_def jr_vfs_dirty_metadata_def jr_vfs_revoke_def)
qed

section \<open>Properties\<close>

text \<open>The two hooks around a block update, the old image before it and the new one after it, leave
  the new image in the log for that block and keep every other logged block, and the invariant of
  the log holds again.  The exceptions are the ends of the table: with 256 blocks logged nothing is
  recorded, and when the old image takes the last entry the new one is refused, so the log keeps the
  old image of a block that has changed.\<close>

theorem journal_logs_update:
  assumes "jr_ready c s"
  shows "jr_ready c (snd (jr_vfs_dirty_metadata now (Some c) b y (snd (jr_vfs_get_write_access now (Some c) b x s)))) \<and>
    jr_image (jr_ctxs (snd (jr_vfs_dirty_metadata now (Some c) b y
        (snd (jr_vfs_get_write_access now (Some c) b x s)))) c) =
      (if \<not> jr_room c s then jr_image (jr_ctxs s c)
       else if jr_room c (snd (jr_vfs_get_write_access now (Some c) b x s))
       then (jr_image (jr_ctxs s c))(b \<mapsto> y) else (jr_image (jr_ctxs s c))(b \<mapsto> x))"
  by (rule journal.both_image [OF assms])

text \<open>C33: No transaction is ever committed: \<open>uiox_jr_force_commit\<close> always fails, so under any sequence
  of hooks, ticks and unmounts the open transaction stays the same one and only gains blocks; once it
  holds 256 each of the three hooks (write access, dirty metadata, revoke) is refused for ever and
  changes nothing, for the blocks it has logged too, and the journal cannot be unmounted.\<close>

theorem journal_never_commits:
  assumes "jc_tx_open (jr_ctxs s c)" and "jc_initialized (jr_ctxs s c)"
    and "t = fold (jr_do c) ops s"
  shows "jc_tx_open (jr_ctxs t c) \<and> tx_tid (jc_tx (jr_ctxs t c)) = tx_tid (jc_tx (jr_ctxs s c)) \<and>
    tx_block_count (jc_tx (jr_ctxs s c)) \<le> tx_block_count (jc_tx (jr_ctxs t c)) \<and>
    (tx_block_count (jc_tx (jr_ctxs s c)) = JR_MAX_BLOCKS \<longrightarrow>
       jr_vfs_get_write_access now (Some c) blk buf t = (JR_FULL, t) \<and>
       jr_vfs_dirty_metadata now (Some c) blk buf t = (JR_FULL, t) \<and>
       jr_vfs_revoke now (Some c) blk t = (JR_FULL, t)) \<and>
    fst (jr_unmount (Some c) t) = JR_NOMEM"
proof -
  have g: "grows c s t" unfolding assms(3) by (rule grows_steps)
  then have o: "jc_tx_open (jr_ctxs t c)" "jc_initialized (jr_ctxs t c)"
    using assms(1,2) by (simp_all add: grows_def)
  moreover have "fst (jr_unmount (Some c) t) = JR_NOMEM"
    using o by (simp add: jr_unmount_def jr_force_commit_def)
  moreover have "JR_MAX_BLOCKS \<le> tx_block_count (jc_tx (jr_ctxs t c))"
    if "tx_block_count (jc_tx (jr_ctxs s c)) = JR_MAX_BLOCKS"
    using g assms(1) that by (simp add: grows_def)
  ultimately show ?thesis
    using g assms(1) hook_refused(1,2) [OF o(1) _ o(2), of now blk buf] hook_refused(3) [OF o(1) _ o(2), of now blk]
    by (auto simp: grows_def)
qed

text \<open>A freshly initialised journal, and one whose transaction holds 256 blocks.\<close>

definition jr_blank :: jr_state where
  "jr_blank = \<lparr>jr_handles = (\<lambda>_. zero_handle), jr_used = (\<lambda>_. False), jr_ctxs = (\<lambda>_. zero_ctx), s_jr = (\<lambda>_. None)\<rparr>"

definition jr_demo :: jr_state where
  "jr_demo = snd (jr_init (Some 0) 0 1024 MODE_METADATA jr_blank)"

lemma jr_demo_ready: "jr_ready 0 jr_demo" "jr_room 0 jr_demo" "jr_image (jr_ctxs jr_demo 0) = (\<lambda>_. None)"
  by (auto simp: jr_demo_def jr_blank_def jr_init_def JR_MIN_LOG_BLOCKS_def jr_ready_def jr_room_def
      jr_ok_def zero_ctx_def JR_MAX_HANDLES_def jr_image_def intro: exI [of _ 0])

lemma jr_demo_pre: "jr_room 0 (snd (jr_vfs_get_write_access 5 (Some 0) 259 [1] jr_demo))"
proof -
  obtain t where "jr_vfs_get_write_access 5 (Some 0) 259 [1] jr_demo = (JR_OK, t)"
    "jr_ctxs t = (jr_ctxs jr_demo)(0 := log_access 259 [1] (begun 5 (jr_ctxs jr_demo 0)))"
    using hooks_run [OF jr_demo_ready(1,2), of 5 259 "[1]"] by metis
  then show ?thesis
    by (simp add: jr_room_def log_access_def Let_def begun_def logged_idx_def first_idx_def zero_tx_def
        jr_demo_def jr_init_def jr_blank_def JR_MIN_LOG_BLOCKS_def zero_ctx_def JR_MAX_BLOCKS_def)
qed

lemma journal_logs_update_witness:
  "jr_image (jr_ctxs (snd (jr_vfs_dirty_metadata 5 (Some 0) 259 [0]
      (snd (jr_vfs_get_write_access 5 (Some 0) 259 [1] jr_demo)))) 0) = [259 \<mapsto> [0]]"
  using journal_logs_update [OF jr_demo_ready(1), of 5 259 "[0]" "[1]"] jr_demo_ready(2,3) jr_demo_pre
  by simp

definition jr_full_demo :: jr_state where
  "jr_full_demo = upd_ctx 0 (\<lambda>k. k\<lparr>jc_tx_open := True, jc_tx := (jc_tx k)\<lparr>tx_block_count := 256\<rparr>\<rparr>) jr_demo"

lemma journal_never_commits_witness:
  "jr_vfs_get_write_access 9 (Some 0) 259 [1] (fold (jr_do 0) [Tick 6000, NotePre 7 261 [2]] jr_full_demo) =
     (JR_FULL, fold (jr_do 0) [Tick 6000, NotePre 7 261 [2]] jr_full_demo) \<and>
   jr_vfs_revoke 9 (Some 0) 259 (fold (jr_do 0) [Tick 6000, NotePre 7 261 [2]] jr_full_demo) =
     (JR_FULL, fold (jr_do 0) [Tick 6000, NotePre 7 261 [2]] jr_full_demo)"
proof -
  have "jc_tx_open (jr_ctxs jr_full_demo 0)" "tx_block_count (jc_tx (jr_ctxs jr_full_demo 0)) = JR_MAX_BLOCKS"
    "jc_initialized (jr_ctxs jr_full_demo 0)"
    using jr_demo_ready(1) by (simp_all add: jr_full_demo_def JR_MAX_BLOCKS_def jr_ready_def)
  with journal_never_commits [of jr_full_demo 0 _ "[Tick 6000, NotePre 7 261 [2]]" 9 259 "[1]", OF _ _ refl]
  show ?thesis by blast
qed

end
