(* ===== verification/JrnlRecover.thy ===== *)
theory JrnlRecover
  imports JrnlProps
begin

text \<open>
  Crash recovery of the journal (\<open>uiox_kix_jrnl_recover.c\<close>): the scan that builds the replay map
  from the log, the replay, and mounting.  The replay map, an array with a count, is a list of at
  most 512 entries.  The platform's storage is the state \<open>'m\<close> of the hooks.
\<close>

section \<open>The replay map\<close>

record jr_replay_entry =
  re_blocknr :: u64
  re_log :: u32
  re_seq :: u32
  re_revoked :: bool

record jr_stats =
  st_txns_found :: u32
  st_txns_partial :: u32
  st_replayed :: u32
  st_revoked :: u32
  st_corrupt :: u32
  st_clean :: bool

definition zero_jr_stats :: jr_stats where
  "zero_jr_stats = \<lparr>st_txns_found = 0, st_txns_partial = 0, st_replayed = 0, st_revoked = 0,
     st_corrupt = 0, st_clean = False\<rparr>"

definition REPLAY_MAP_SIZE :: nat where "REPLAY_MAP_SIZE = 512"

definition FLAG_LAST_TAG :: u32 where "FLAG_LAST_TAG = 2"

definition log_wrap :: "jr_ctx \<Rightarrow> u32 \<Rightarrow> u32" where
  "log_wrap k blk = blk mod jc_log_blocks k"

text \<open>The map with an entry for the block, and the entry's index, unless the map is full.\<close>

definition map_find_or_insert :: "u64 \<Rightarrow> jr_replay_entry list \<Rightarrow> nat option \<times> jr_replay_entry list" where
  "map_find_or_insert blk es =
     (case first_idx (\<lambda>i. re_blocknr (es ! i) = blk) (length es) of
        Some i \<Rightarrow> (Some i, es)
      | None \<Rightarrow>
          if REPLAY_MAP_SIZE \<le> length es then (None, es)
          else (Some (length es), es @ [\<lparr>re_blocknr = blk, re_log = 0, re_seq = 0, re_revoked = False\<rparr>]))"

section \<open>The scan\<close>

text \<open>The tags of a descriptor block, from offset \<open>off\<close> on: block number, flags, checksum.\<close>

function scan_tags :: "jr_ctx \<Rightarrow> u32 \<Rightarrow> u8 list \<Rightarrow> nat \<Rightarrow> u32 \<Rightarrow> jr_replay_entry list \<Rightarrow> jr_replay_entry list"
where
  "scan_tags k seq blk off data_pos es =
     (if JR_BLOCK_SIZE < off + 16 then es
      else
        (let b = le_word 8 blk off :: u64; flags = le_word 4 blk (off + 8) :: u32 in
         if b = 0 then es
         else
           (let (e, es) = map_find_or_insert b es;
                es = (case e of
                        None \<Rightarrow> es
                      | Some i \<Rightarrow> es[i := (es ! i)\<lparr>re_log := log_wrap k data_pos, re_seq := seq,
                                              re_revoked := False\<rparr>])
            in if flags AND FLAG_LAST_TAG \<noteq> 0 then es
               else scan_tags k seq blk (off + 16) (data_pos + 1) es)))"
  by pat_completeness auto

termination by (relation "measure (\<lambda>(k, seq, blk, off, data_pos, es). JR_BLOCK_SIZE - off)")
    (auto simp: JR_BLOCK_SIZE_def)

declare scan_tags.simps [simp del]

text \<open>One revoke record: it marks the entries that are not newer than it.\<close>

definition revoke_one :: "u32 \<Rightarrow> u64 \<Rightarrow> jr_replay_entry list \<Rightarrow> jr_replay_entry list" where
  "revoke_one seq b es =
     map (\<lambda>e. if re_blocknr e = b \<and> re_seq e \<le> seq then e\<lparr>re_revoked := True\<rparr> else e) es"

text \<open>\<open>sizeof(uiox_jr_revoke_hdr_t)\<close>: the packed header is padded to a whole block.\<close>

definition REVOKE_HDR_SIZE :: nat where "REVOKE_HDR_SIZE = 16 + (JR_BLOCK_SIZE - 16)"

text \<open>The loop over the revoke records, from the end of the header on, while eight more bytes fit.\<close>

definition scan_revokes :: "u32 \<Rightarrow> u8 list \<Rightarrow> jr_replay_entry list \<Rightarrow> jr_replay_entry list" where
  "scan_revokes seq blk es =
     fold (\<lambda>r. revoke_one seq (le_word 8 blk (REVOKE_HDR_SIZE + 8 * r)))
       [0..<min (unat (le_word 4 blk 12 :: u32)) ((JR_BLOCK_SIZE - REVOKE_HDR_SIZE) div 8)] es"

definition is_jr_magic :: "u32 \<Rightarrow> bool" where
  "is_jr_magic w \<longleftrightarrow> w = JR_DESC_MAGIC \<or> w = JR_COMMIT_MAGIC \<or> w = JR_REVOKE_MAGIC"

text \<open>The walk over at most \<open>n\<close> log blocks.\<close>

primrec scan_loop ::
  "nat \<Rightarrow> 'm jr_plat \<Rightarrow> 'm \<Rightarrow> jr_ctx \<Rightarrow> u32 \<Rightarrow> jr_replay_entry list \<Rightarrow> u32 \<Rightarrow> jr_replay_entry list \<times> u32"
where
  "scan_loop 0 p m k pos es last_seq = (es, last_seq)"
| "scan_loop (Suc n) p m k pos es last_seq =
     (let cur = log_wrap k pos; (e, blk) = plat_log_read p (jc_log_dev_base k) cur m in
      if e \<noteq> JR_OK then (es, last_seq)
      else if \<not> is_jr_magic (le_word 4 blk 0) then (es, last_seq)
      else
        (let blocktype = le_word 4 blk 4 :: u32; seq = le_word 4 blk 8;
             es' = (if blocktype = 1 then scan_tags k seq blk 16 (cur + 1) es
                    else if blocktype = 3 then scan_revokes seq blk es
                    else es);
             last_seq' = (if blocktype = 2 \<and> last_seq < seq then seq else last_seq)
         in scan_loop n p m k (log_wrap k (pos + 1)) es' last_seq'))"

definition jr_scan :: "'m jr_plat \<Rightarrow> 'm \<Rightarrow> jr_ctx \<Rightarrow> jr_replay_entry list \<times> u32" where
  "jr_scan p m k =
     (let (es, last_seq) = scan_loop (unat (jc_log_blocks k)) p m k (js_log_start (jc_jsb k)) [] 0
      in (filter (\<lambda>e. re_seq e \<le> last_seq \<and> \<not> re_revoked e) es, last_seq))"

section \<open>Replay and recovery\<close>

definition replay_one ::
  "'m jr_plat \<Rightarrow> u64 \<Rightarrow> jr_replay_entry \<Rightarrow> jr_stats \<times> 'm \<Rightarrow> jr_stats \<times> 'm" where
  "replay_one p base e r =
     (let (st, m) = r in
      if re_revoked e then (st\<lparr>st_revoked := st_revoked st + 1\<rparr>, m)
      else
        (let (rc, data) = plat_log_read p base (re_log e) m in
         if rc \<noteq> JR_OK then (st\<lparr>st_corrupt := st_corrupt st + 1\<rparr>, m)
         else
           (let (rc, m) = plat_fs_write p (re_blocknr e) data m in
            if rc \<noteq> JR_OK then (st\<lparr>st_corrupt := st_corrupt st + 1\<rparr>, m)
            else (st\<lparr>st_replayed := st_replayed st + 1\<rparr>, m))))"

definition jr_replay ::
  "'m jr_plat \<Rightarrow> jr_ctx \<Rightarrow> jr_replay_entry list \<Rightarrow> jr_stats \<Rightarrow> 'm \<Rightarrow> jr_stats \<times> 'm" where
  "jr_replay p k es st m = fold (replay_one p (jc_log_dev_base k)) es (st, m)"

text \<open>\<open>uiox_jr_recover\<close>; \<open>st\<close> is the caller's statistics, or NULL for a local record.\<close>

definition jr_recover ::
  "'m jr_plat \<Rightarrow> nat option \<Rightarrow> jr_stats option \<Rightarrow> jr_state \<Rightarrow> 'm \<Rightarrow> jr_err \<times> jr_stats \<times> jr_state \<times> 'm" where
  "jr_recover p cp stp s m =
     (let st = (case stp of None \<Rightarrow> zero_jr_stats | Some st \<Rightarrow> st) in
      case cp of
        None \<Rightarrow> (JR_INVAL, st, s, m)
      | Some c \<Rightarrow>
          (let k = jr_ctxs s c in
           if js_log_start (jc_jsb k) = 0 then (JR_OK, st\<lparr>st_clean := True\<rparr>, s, m)
           else
             (let (es, last_seq) = jr_scan p m k; st = st\<lparr>st_txns_found := last_seq\<rparr> in
              if es = [] then (JR_OK, st\<lparr>st_clean := True\<rparr>, s, m)
              else
                (let (st, m) = jr_replay p k es st m in
                 (JR_OK, st, upd_ctx c (\<lambda>k. k\<lparr>jc_jsb := (jc_jsb k)\<lparr>js_log_start := 0,
                     js_sequence := last_seq + 1\<rparr>\<rparr>) s, m)))))"

definition jr_mount ::
  "'m jr_plat \<Rightarrow> nat option \<Rightarrow> jr_stats option \<Rightarrow> jr_state \<Rightarrow> 'm \<Rightarrow> jr_err \<times> jr_stats \<times> jr_state \<times> 'm" where
  "jr_mount p cp stp s m =
     (let st = (case stp of None \<Rightarrow> zero_jr_stats | Some st \<Rightarrow> st) in
      case cp of
        None \<Rightarrow> (JR_INVAL, st, s, m)
      | Some c \<Rightarrow>
          if \<not> jc_initialized (jr_ctxs s c) then (JR_INVAL, st, s, m)
          else
            (let (rc, st, s, m) = jr_recover p (Some c) stp s m in
             if rc \<noteq> JR_OK then (rc, st, s, m)
             else (JR_OK, st, upd_ctx c (\<lambda>k. k\<lparr>jc_mounted := True\<rparr>) s, m)))"

section \<open>The map the scan builds\<close>

text \<open>
  What the scan computes, without its loops.  \<open>scan_records\<close> are the records it reads: log blocks one
  after the other from \<open>log_start\<close> on, as long as they can be read and start with a magic number.
  \<open>rec_tags\<close> are the tags of a descriptor, up to a zero block number or the tag marked as the last,
  each with the log block its copy should be in and the descriptor's sequence number.  A replay map
  stands for a partial function from file-system blocks.
\<close>

definition tag_nr :: "u8 list \<Rightarrow> nat \<Rightarrow> u64" where
  "tag_nr blk j = le_word 8 blk (16 + 16 * j)"

definition tag_last :: "u8 list \<Rightarrow> nat \<Rightarrow> bool" where
  "tag_last blk j \<longleftrightarrow> (le_word 4 blk (16 + 16 * j + 8) :: u32) AND FLAG_LAST_TAG \<noteq> 0"

definition tags_from :: "u8 list \<Rightarrow> nat \<Rightarrow> nat list" where
  "tags_from blk i =
     filter (\<lambda>j. (\<forall>l\<in>{i..j}. tag_nr blk l \<noteq> 0) \<and> (\<forall>l\<in>{i..<j}. \<not> tag_last blk l)) [i..<255]"

definition rec_tags :: "jr_ctx \<Rightarrow> u32 \<times> u8 list \<Rightarrow> (u64 \<times> u32 \<times> u32) list" where
  "rec_tags k r =
     (if le_word 4 (snd r) 4 = (1 :: u32)
      then map (\<lambda>j. (tag_nr (snd r) j, log_wrap k (fst r + 1 + of_nat j), le_word 4 (snd r) 8))
             (tags_from (snd r) 0)
      else [])"

definition readable :: "u64 \<Rightarrow> 'm jr_plat \<Rightarrow> 'm \<Rightarrow> u32 \<Rightarrow> bool" where
  "readable base p m cur \<longleftrightarrow>
     fst (plat_log_read p base cur m) = JR_OK \<and> is_jr_magic (le_word 4 (snd (plat_log_read p base cur m)) 0)"

definition records_from :: "'m jr_plat \<Rightarrow> 'm \<Rightarrow> jr_ctx \<Rightarrow> nat \<Rightarrow> u32 \<Rightarrow> (u32 \<times> u8 list) list" where
  "records_from p m k n pos =
     map (\<lambda>cur. (cur, snd (plat_log_read p (jc_log_dev_base k) cur m)))
       (takeWhile (readable (jc_log_dev_base k) p m)
         (map (\<lambda>i. log_wrap k (((\<lambda>q. log_wrap k (q + 1)) ^^ i) pos)) [0..<n]))"

definition scan_records :: "'m jr_plat \<Rightarrow> 'm \<Rightarrow> jr_ctx \<Rightarrow> (u32 \<times> u8 list) list" where
  "scan_records p m k = records_from p m k (unat (jc_log_blocks k)) (js_log_start (jc_jsb k))"

definition replay_abs :: "jr_replay_entry list \<Rightarrow> u64 \<rightharpoonup> u32 \<times> u32" where
  "replay_abs es = map_of (map (\<lambda>e. (re_blocknr e, re_log e, re_seq e)) es)"

text \<open>A tag replaces what the map has for its block; a new block needs room.\<close>

definition note_tag :: "u64 \<times> u32 \<times> u32 \<Rightarrow> (u64 \<rightharpoonup> u32 \<times> u32) \<Rightarrow> u64 \<rightharpoonup> u32 \<times> u32" where
  "note_tag t M = (if fst t \<in> dom M \<or> card (dom M) < REPLAY_MAP_SIZE then M(fst t \<mapsto> snd t) else M)"

text \<open>What holds of every map the scan goes through.\<close>

definition map_inv :: "u32 \<Rightarrow> jr_replay_entry list \<Rightarrow> bool" where
  "map_inv n es \<longleftrightarrow> length es \<le> REPLAY_MAP_SIZE \<and> distinct (map re_blocknr es) \<and>
     (\<forall>e\<in>set es. re_log e < n \<and> \<not> re_revoked e)"

lemma find_or_insert_cases:
  assumes "map_find_or_insert b es = (i, es1)"
  obtains "i = None" "es1 = es" "b \<notin> set (map re_blocknr es)" "REPLAY_MAP_SIZE \<le> length es"
    | j where "i = Some j" "es1 = es" "j < length es" "re_blocknr (es ! j) = b"
    | e where "i = Some (length es)" "es1 = es @ [e]" "re_blocknr e = b"
      "b \<notin> set (map re_blocknr es)" "length es < REPLAY_MAP_SIZE"
proof (cases "first_idx (\<lambda>i. re_blocknr (es ! i) = b) (length es)")
  case None
  then have "b \<notin> set (map re_blocknr es)" by (auto simp: first_idx_None_iff in_set_conv_nth)
  note new = this
  show ?thesis
  proof (cases "REPLAY_MAP_SIZE \<le> length es")
    case True
    with None assms have "i = None" "es1 = es" by (simp_all add: map_find_or_insert_def)
    then show ?thesis using new True by (rule that(1))
  next
    case False
    with None assms have "i = Some (length es)"
      "es1 = es @ [\<lparr>re_blocknr = b, re_log = 0, re_seq = 0, re_revoked = False\<rparr>]"
      by (simp_all add: map_find_or_insert_def)
    then show ?thesis by (rule that(3)) (use new False in simp_all)
  qed
next
  case (Some j)
  then have "j < length es" "re_blocknr (es ! j) = b" by (rule first_idx_SomeD)+
  moreover have "i = Some j" "es1 = es" using Some assms by (simp_all add: map_find_or_insert_def)
  ultimately show ?thesis by (intro that(2))
qed

text \<open>One tag, in the list and in the partial function.\<close>

fun map_note :: "u64 \<times> u32 \<times> u32 \<Rightarrow> jr_replay_entry list \<Rightarrow> jr_replay_entry list" where
  "map_note (b, l, q) es =
     (let (i, es) = map_find_or_insert b es in
      case i of None \<Rightarrow> es | Some i \<Rightarrow> es[i := (es ! i)\<lparr>re_log := l, re_seq := q, re_revoked := False\<rparr>])"

lemma map_note_cases:
  obtains "map_note (b, l, q) es = es" "b \<notin> set (map re_blocknr es)" "REPLAY_MAP_SIZE \<le> length es"
    | j where "map_note (b, l, q) es = es[j := (es ! j)\<lparr>re_log := l, re_seq := q, re_revoked := False\<rparr>]"
      "j < length es" "re_blocknr (es ! j) = b"
    | e where "map_note (b, l, q) es = es @ [e\<lparr>re_log := l, re_seq := q, re_revoked := False\<rparr>]"
      "re_blocknr e = b" "b \<notin> set (map re_blocknr es)" "length es < REPLAY_MAP_SIZE"
proof -
  obtain i es1 where f: "map_find_or_insert b es = (i, es1)" by fastforce
  from f show thesis
    by (rule find_or_insert_cases) (use f that in auto)
qed

declare map_note.simps [simp del]

lemma scan_tags_step:
  assumes "off = 16 + 16 * j"
  shows "scan_tags k seq blk off pos es =
     (if 255 \<le> j \<or> tag_nr blk j = 0 then es
      else (let es = map_note (tag_nr blk j, log_wrap k pos, seq) es in
            if tag_last blk j then es else scan_tags k seq blk (off + 16) (pos + 1) es))"
proof -
  have "JR_BLOCK_SIZE < off + 16 \<longleftrightarrow> 255 \<le> j" using assms by (auto simp: JR_BLOCK_SIZE_def)
  moreover have "tag_nr blk j = le_word 8 blk off"
    "tag_last blk j = ((le_word 4 blk (off + 8) :: u32) AND FLAG_LAST_TAG \<noteq> 0)"
    using assms by (simp_all add: tag_nr_def tag_last_def)
  ultimately show ?thesis
    by (subst scan_tags.simps) (simp add: Let_def map_note.simps split_beta)
qed

lemma tags_from_step:
  "tags_from blk j = (if 255 \<le> j \<or> tag_nr blk j = 0 then []
     else j # (if tag_last blk j then [] else tags_from blk (Suc j)))"
proof (cases "255 \<le> j \<or> tag_nr blk j = 0")
  case True
  then show ?thesis by (auto simp: tags_from_def filter_empty_conv)
next
  case False
  then have u: "[j..<255] = j # [Suc j..<255]" by (simp add: upt_conv_Cons)
  let ?P = "\<lambda>i n. (\<forall>l\<in>{i..n}. tag_nr blk l \<noteq> 0) \<and> (\<forall>l\<in>{i..<n}. \<not> tag_last blk l)"
  have "filter (?P j) [Suc j..<255] = (if tag_last blk j then [] else filter (?P (Suc j)) [Suc j..<255])"
  proof (cases "tag_last blk j")
    case True
    then show ?thesis by (auto simp: filter_empty_conv Bex_def)
  next
    case last: False
    have "?P j n = ?P (Suc j) n" if "n \<in> set [Suc j..<255]" for n
    proof -
      have "{j..n} = insert j {Suc j..n}" "{j..<n} = insert j {Suc j..<n}" using that by auto
      then show ?thesis using last False by simp
    qed
    then have "filter (?P j) [Suc j..<255] = filter (?P (Suc j)) [Suc j..<255]" by (intro filter_cong [OF refl])
    then show ?thesis using last by simp
  qed
  then show ?thesis using False unfolding tags_from_def u by simp
qed

lemma scan_tags_notes:
  assumes "off = 16 + 16 * j"
  shows "scan_tags k seq blk off pos es =
     fold map_note (map (\<lambda>i. (tag_nr blk i, log_wrap k (pos + of_nat (i - j)), seq)) (tags_from blk j)) es"
  using assms
proof (induction "255 - j" arbitrary: j off pos es)
  case 0
  then show ?case by (subst scan_tags_step [OF 0(2)], subst tags_from_step) simp
next
  case (Suc n)
  have ge: "Suc j \<le> i" if "i \<in> set (tags_from blk (Suc j))" for i using that by (simp add: tags_from_def)
  have m: "map (\<lambda>i. (tag_nr blk i, log_wrap k (pos + 1 + of_nat (i - Suc j)), seq)) (tags_from blk (Suc j)) =
      map (\<lambda>i. (tag_nr blk i, log_wrap k (pos + of_nat (i - j)), seq)) (tags_from blk (Suc j))"
  proof (rule map_cong [OF refl])
    fix i assume "i \<in> set (tags_from blk (Suc j))"
    then have "i - j = Suc (i - Suc j)" using ge by fastforce
    then show "(tag_nr blk i, log_wrap k (pos + 1 + of_nat (i - Suc j)), seq) =
        (tag_nr blk i, log_wrap k (pos + of_nat (i - j)), seq)" by (simp add: algebra_simps)
  qed
  have n: "n = 255 - Suc j" "off + 16 = 16 + 16 * Suc j" using Suc.hyps(2) Suc.prems by simp_all
  show ?case
    by (subst scan_tags_step [OF Suc.prems], subst tags_from_step)
      (simp add: Let_def Suc.hyps(1) [OF n] m)
qed

text \<open>The list of entries and the partial function go together.\<close>

lemma replay_abs_dom: "dom (replay_abs es) = set (map re_blocknr es)"
  by (force simp: replay_abs_def dom_map_of_conv_image_fst image_image)

lemma replay_abs_nth:
  assumes "distinct (map re_blocknr es)" and "i < length es"
  shows "replay_abs es (re_blocknr (es ! i)) = Some (re_log (es ! i), re_seq (es ! i))"
proof -
  have "distinct (map fst (map (\<lambda>e. (re_blocknr e, re_log e, re_seq e)) es))"
    using assms(1) by (simp add: comp_def)
  then show ?thesis unfolding replay_abs_def
    by (rule map_of_is_SomeI) (use assms(2) in \<open>auto intro!: image_eqI [of _ _ "es ! i"]\<close>)
qed

lemma replay_abs_update:
  assumes d: "distinct (map re_blocknr es)" and i: "i < length es" and e: "re_blocknr e = re_blocknr (es ! i)"
  shows "replay_abs (es[i := e]) = (replay_abs es)(re_blocknr e \<mapsto> (re_log e, re_seq e))"
    and "distinct (map re_blocknr (es[i := e]))"
proof -
  have same: "map re_blocknr (es[i := e]) = map re_blocknr es"
    using i e by (simp add: map_update list_update_same_conv)
  then show d': "distinct (map re_blocknr (es[i := e]))" using d by simp
  show "replay_abs (es[i := e]) = (replay_abs es)(re_blocknr e \<mapsto> (re_log e, re_seq e))"
  proof (rule ext)
    fix b
    show "replay_abs (es[i := e]) b = ((replay_abs es)(re_blocknr e \<mapsto> (re_log e, re_seq e))) b"
    proof (cases "b \<in> set (map re_blocknr es)")
      case True
      then obtain j where j: "j < length es" "b = re_blocknr (es ! j)" by (auto simp: in_set_conv_nth)
      then have b: "b = re_blocknr (es[i := e] ! j)" using e by (cases "i = j") simp_all
      have "(b = re_blocknr e) = (j = i)" using d i j e by (auto simp: distinct_conv_nth)
      then show ?thesis
        using replay_abs_nth [OF d' , of j] replay_abs_nth [OF d j(1)] j b i by (cases "i = j") simp_all
    next
      case False
      then have "b \<notin> dom (replay_abs es)" "b \<notin> dom (replay_abs (es[i := e]))" "b \<noteq> re_blocknr e"
        using i e by (auto simp: replay_abs_dom same)
      then show ?thesis by (metis domIff fun_upd_other)
    qed
  qed
qed

lemma map_note_ok:
  assumes inv: "map_inv n es" and l: "l < n"
  shows "map_inv n (map_note (b, l, q) es)"
    and "replay_abs (map_note (b, l, q) es) = note_tag (b, l, q) (replay_abs es)"
proof -
  have d: "distinct (map re_blocknr es)" "length es \<le> REPLAY_MAP_SIZE" using inv by (simp_all add: map_inv_def)
  have c: "card (dom (replay_abs es)) = length es"
    unfolding replay_abs_dom using distinct_card [OF d(1)] by simp
  show "map_inv n (map_note (b, l, q) es)"
  proof (rule map_note_cases [of b l q es])
    fix j assume j: "map_note (b, l, q) es = es[j := (es ! j)\<lparr>re_log := l, re_seq := q, re_revoked := False\<rparr>]" "j < length es"
    let ?e = "(es ! j)\<lparr>re_log := l, re_seq := q, re_revoked := False\<rparr>"
    have "set (es[j := ?e]) \<subseteq> insert ?e (set es)" by (rule set_update_subset_insert)
    then show ?thesis
      using inv l replay_abs_update(2) [OF d(1) j(2), of ?e] unfolding map_inv_def j(1) by auto
  qed (use inv l in \<open>auto simp: map_inv_def\<close>)
  show "replay_abs (map_note (b, l, q) es) = note_tag (b, l, q) (replay_abs es)"
  proof (rule map_note_cases [of b l q es])
    assume "map_note (b, l, q) es = es" "b \<notin> set (map re_blocknr es)" "REPLAY_MAP_SIZE \<le> length es"
    then show ?thesis by (simp add: note_tag_def c) (simp add: replay_abs_dom)
  next
    fix j assume j: "map_note (b, l, q) es = es[j := (es ! j)\<lparr>re_log := l, re_seq := q, re_revoked := False\<rparr>]"
      "j < length es" "re_blocknr (es ! j) = b"
    then have "b \<in> dom (replay_abs es)" by (auto simp: replay_abs_dom)
    then show ?thesis
      using replay_abs_update(1) [OF d(1) j(2), of "(es ! j)\<lparr>re_log := l, re_seq := q, re_revoked := False\<rparr>"] j(3)
      by (simp add: note_tag_def j(1))
  next
    fix e assume e: "map_note (b, l, q) es = es @ [e\<lparr>re_log := l, re_seq := q, re_revoked := False\<rparr>]"
      "re_blocknr e = b" "b \<notin> set (map re_blocknr es)" "length es < REPLAY_MAP_SIZE"
    then have none: "map_of (map (\<lambda>e. (re_blocknr e, re_log e, re_seq e)) es) b = None"
      by (simp add: map_of_eq_None_iff image_image)
    have "replay_abs (es @ [e\<lparr>re_log := l, re_seq := q, re_revoked := False\<rparr>]) = (replay_abs es)(b \<mapsto> (l, q))"
      unfolding replay_abs_def using none e(2) by (auto simp: fun_eq_iff map_add_def split: option.split)
    then show ?thesis using e(4) by (simp add: note_tag_def c e(1))
  qed
qed

lemma map_notes_ok:
  assumes "map_inv n es" and "\<And>b l q. (b, l, q) \<in> set ts \<Longrightarrow> l < n"
  shows "map_inv n (fold map_note ts es) \<and> replay_abs (fold map_note ts es) = fold note_tag ts (replay_abs es)"
  using assms
proof (induction ts arbitrary: es)
  case (Cons t ts)
  obtain b l q where t: "t = (b, l, q)" by (cases t)
  have "l < n" using Cons.prems(2) [of b l q] t by simp
  note step = map_note_ok [OF Cons.prems(1) this, of b q, folded t]
  have "map_inv n (fold map_note ts (map_note t es)) \<and>
      replay_abs (fold map_note ts (map_note t es)) = fold note_tag ts (replay_abs (map_note t es))"
    by (rule Cons.IH [OF step(1)]) (use Cons.prems(2) in auto)
  then show ?case by (simp add: step(2))
qed simp

section \<open>The scan's loop\<close>

lemma scan_revokes_none: "scan_revokes seq blk es = es"
  by (simp add: scan_revokes_def REVOKE_HDR_SIZE_def JR_BLOCK_SIZE_def)

definition commit_seqs :: "(u32 \<times> u8 list) list \<Rightarrow> u32 set" where
  "commit_seqs recs = {le_word 4 blk 8 | cur blk. (cur, blk) \<in> set recs \<and> le_word 4 blk 4 = (2 :: u32)}"

lemma commit_seqs_Cons [simp]:
  "commit_seqs [] = {}"
  "commit_seqs (r # recs) = (if le_word 4 (snd r) 4 = (2 :: u32) then insert (le_word 4 (snd r) 8) (commit_seqs recs)
     else commit_seqs recs)"
  by (cases r; auto simp: commit_seqs_def)+

lemma finite_commit_seqs [simp]: "finite (commit_seqs recs)"
  by (induction recs) auto

lemma records_from_Suc:
  "records_from p m k (Suc n) pos =
     (let cur = log_wrap k pos in
      if readable (jc_log_dev_base k) p m cur
      then (cur, snd (plat_log_read p (jc_log_dev_base k) cur m)) # records_from p m k n (log_wrap k (pos + 1))
      else [])"
proof -
  let ?f = "\<lambda>q. log_wrap k (q + 1)"
  have "map (\<lambda>i. log_wrap k ((?f ^^ i) pos)) [0..<Suc n] =
      log_wrap k pos # map (\<lambda>i. log_wrap k ((?f ^^ i) (?f pos))) [0..<n]"
    by (simp add: upt_conv_Cons map_Suc_upt [symmetric] funpow_Suc_right del: upt_Suc funpow.simps)
  then show ?thesis by (simp add: records_from_def Let_def del: upt_Suc)
qed

lemma scan_loop_records:
  "scan_loop n p m k pos es last_seq =
     (fold map_note (concat (map (rec_tags k) (records_from p m k n pos))) es,
      Max (insert last_seq (commit_seqs (records_from p m k n pos))))"
proof (induction n arbitrary: pos es last_seq)
  case 0
  then show ?case by (simp add: records_from_def)
next
  case (Suc n)
  let ?cur = "log_wrap k pos" and ?next = "log_wrap k (pos + 1)"
  obtain e blk where r: "plat_log_read p (jc_log_dev_base k) ?cur m = (e, blk)" by fastforce
  show ?case
  proof (cases "readable (jc_log_dev_base k) p m ?cur")
    case False
    then show ?thesis by (auto simp: records_from_Suc Let_def r readable_def)
  next
    case True
    then have ok: "e = JR_OK" "is_jr_magic (le_word 4 blk 0)" by (simp_all add: readable_def r)
    let ?type = "le_word 4 blk 4 :: u32" and ?seq = "le_word 4 blk 8 :: u32"
    have tags: "scan_tags k ?seq blk 16 (?cur + 1) es =
        fold map_note (map (\<lambda>j. (tag_nr blk j, log_wrap k (?cur + 1 + of_nat j), ?seq)) (tags_from blk 0)) es"
      using scan_tags_notes [of 16 0 k ?seq blk "?cur + 1" es] by simp
    have recs: "records_from p m k (Suc n) pos = (?cur, blk) # records_from p m k n ?next"
      using True by (simp add: records_from_Suc r)
    have mx: "Max (insert (if ?type = 2 \<and> last_seq < ?seq then ?seq else last_seq) X) =
        Max (insert last_seq (if ?type = 2 then insert ?seq X else X))" if "finite X" for X
    proof -
      have "Max (insert last_seq (insert ?seq X)) = Max (insert (max last_seq ?seq) X)"
        using that by (cases "X = {}") (simp_all add: max.assoc)
      then show ?thesis by (auto simp: max_def insert_commute)
    qed
    have "scan_loop (Suc n) p m k pos es last_seq =
        scan_loop n p m k ?next (fold map_note (rec_tags k (?cur, blk)) es)
          (if ?type = 2 \<and> last_seq < ?seq then ?seq else last_seq)"
      using ok by (simp add: Let_def r tags scan_revokes_none rec_tags_def)
    then show ?thesis unfolding Suc.IH recs by (simp add: mx)
  qed
qed

lemma rec_tags_log:
  "jc_log_blocks k \<noteq> 0 \<Longrightarrow> (b, l, q) \<in> set (rec_tags k r) \<Longrightarrow> l < jc_log_blocks k \<and> q = le_word 4 (snd r) 8"
  by (auto simp: rec_tags_def log_wrap_def word_mod_less_divisor word_neq_0_conv split: if_splits)

text \<open>A descriptor gives its own sequence number to every entry it makes or refreshes.\<close>

lemma scan_tags_seq:
  assumes "e \<in> set (scan_tags k seq blk 16 pos [])"
  shows "re_seq e = seq"
proof -
  have "\<forall>e\<in>set (fold map_note ts es). re_seq e = seq"
    if "\<forall>t\<in>set ts. snd (snd t) = seq" "\<forall>e\<in>set es. re_seq e = seq" for ts es
    using that
  proof (induction ts arbitrary: es)
    case (Cons t ts)
    obtain b l where t: "t = (b, l, seq)" using Cons.prems(1) by (cases t) auto
    have "\<forall>e\<in>set (map_note t es). re_seq e = seq"
      unfolding t
    proof (rule map_note_cases [of b l seq es])
      fix j assume "map_note (b, l, seq) es = es[j := (es ! j)\<lparr>re_log := l, re_seq := seq, re_revoked := False\<rparr>]"
      then show "\<forall>e\<in>set (map_note (b, l, seq) es). re_seq e = seq"
        using Cons.prems(2) set_update_subset_insert [of es j] by fastforce
    qed (use Cons.prems(2) in auto)
    with Cons show ?case by simp
  qed simp
  from this [of "map (\<lambda>j. (tag_nr blk j, log_wrap k (pos + of_nat j), seq)) (tags_from blk 0)" "[]"]
  show ?thesis using assms scan_tags_notes [of 16 0 k seq blk pos "[]"] by simp
qed

section \<open>Properties\<close>

text \<open>C34: Whatever the log holds, the scan computes this.  It reads records from \<open>log_start\<close> on, one per
  block, until one cannot be read or has no magic number, at most \<open>log_blocks\<close> of them, and the
  sequence number it reports is the highest of a commit record among them.  For each block it returns
  the place in the log and the sequence number of the last tag that names it in any descriptor,
  tags for a 513th block being ignored, if this sequence number is not above the reported one:
  whether that transaction has a commit record of its own is not asked, and revoke records have no
  effect at all.  No block is named twice, and every copy lies inside the log.\<close>

theorem scan_replay_map:
  assumes "jr_scan p m k = (es, last_seq)" and "jc_log_blocks k \<noteq> 0"
  shows "last_seq = Max (insert 0 (commit_seqs (scan_records p m k))) \<and>
    replay_abs es = (\<lambda>b. case fold note_tag (concat (map (rec_tags k) (scan_records p m k))) Map.empty b of
      Some (l, q) \<Rightarrow> if q \<le> last_seq then Some (l, q) else None | None \<Rightarrow> None) \<and>
    length es \<le> REPLAY_MAP_SIZE \<and> distinct (map re_blocknr es) \<and>
    (\<forall>e\<in>set es. re_log e < jc_log_blocks k \<and> \<not> re_revoked e)"
proof -
  let ?recs = "scan_records p m k"
  define es0 where "es0 = fold map_note (concat (map (rec_tags k) ?recs)) []"
  have es: "es = filter (\<lambda>e. re_seq e \<le> last_seq \<and> \<not> re_revoked e) es0"
    and last_seq: "last_seq = Max (insert 0 (commit_seqs ?recs))"
    using assms(1) by (auto simp: jr_scan_def scan_loop_records scan_records_def es0_def)
  have "l < jc_log_blocks k" if "(b, l, q) \<in> set (concat (map (rec_tags k) ?recs))" for b l q
    using rec_tags_log [OF assms(2)] that by fastforce
  moreover have "map_inv (jc_log_blocks k) []" by (simp add: map_inv_def)
  ultimately have inv: "map_inv (jc_log_blocks k) es0"
    and "replay_abs es0 = fold note_tag (concat (map (rec_tags k) ?recs)) (replay_abs [])"
    unfolding es0_def using map_notes_ok by blast+
  then have abs: "replay_abs es0 = fold note_tag (concat (map (rec_tags k) ?recs)) Map.empty"
    by (simp add: replay_abs_def)
  have d: "distinct (map re_blocknr es0)" using inv by (simp add: map_inv_def)
  have live: "es = filter (\<lambda>e. re_seq e \<le> last_seq) es0"
    unfolding es using inv by (intro filter_cong) (auto simp: map_inv_def)
  have "replay_abs es b = (case replay_abs es0 b of
      Some (l, q) \<Rightarrow> if q \<le> last_seq then Some (l, q) else None | None \<Rightarrow> None)" for b
    unfolding live using d
    by (induction es0) (auto simp: replay_abs_def map_of_eq_None_iff image_image split: option.splits)
  then show ?thesis
    using inv d last_seq unfolding abs es map_inv_def
    by (auto simp: fun_eq_iff distinct_map_filter intro: order_trans [OF length_filter_le])
qed

text \<open>C35: Recovery never replays a transaction laid out as the journal's own format has it, a
  descriptor, the data blocks it names, then the commit record: the scan steps from the descriptor
  to the block behind it, takes that data block for the next record, finds no magic number and
  stops before any commit, so mounting reports a clean log, writes nothing to the file system and
  leaves the log marked in use, whatever follows in the log.\<close>

theorem recovery_skips_committed:
  assumes "jc_initialized (jr_ctxs s c)" and "js_log_start (jc_jsb (jr_ctxs s c)) \<noteq> 0"
    and "2 \<le> jc_log_blocks (jr_ctxs s c)"
    and "plat_log_read p (jc_log_dev_base (jr_ctxs s c)) (log_wrap (jr_ctxs s c) (js_log_start (jc_jsb (jr_ctxs s c)))) m = (JR_OK, desc)"
    and "le_word 4 desc 0 = JR_DESC_MAGIC" and "le_word 4 desc 4 = (1 :: u32)" and "le_word 4 desc 8 \<noteq> (0 :: u32)"
    and "plat_log_read p (jc_log_dev_base (jr_ctxs s c))
      (log_wrap (jr_ctxs s c) (log_wrap (jr_ctxs s c) (js_log_start (jc_jsb (jr_ctxs s c)) + 1))) m = (JR_OK, block)"
    and "\<not> is_jr_magic (le_word 4 block 0)"
  shows "jr_mount p (Some c) None s m =
    (JR_OK, zero_jr_stats\<lparr>st_clean := True\<rparr>, upd_ctx c (\<lambda>k. k\<lparr>jc_mounted := True\<rparr>) s, m)"
proof -
  let ?k = "jr_ctxs s c"
  let ?seq = "le_word 4 desc 8 :: u32" and ?cur = "log_wrap ?k (js_log_start (jc_jsb ?k))"
  let ?es = "scan_tags ?k ?seq desc 16 (?cur + 1) []"
  have "2 \<le> unat (jc_log_blocks ?k)" using assms(3) by (simp add: word_le_nat_alt)
  then obtain n where "unat (jc_log_blocks ?k) = 2 + n" using le_Suc_ex by blast
  then have n: "unat (jc_log_blocks ?k) = Suc (Suc n)" by simp
  have "scan_loop (Suc (Suc n)) p m ?k (js_log_start (jc_jsb ?k)) [] 0 = (?es, 0)"
    using assms(4-6,8,9) by (simp add: Let_def is_jr_magic_def)
  moreover have "filter (\<lambda>e. re_seq e \<le> 0 \<and> \<not> re_revoked e) ?es = []"
    using scan_tags_seq [of _ ?k ?seq desc "?cur + 1"] assms(7) by (auto simp: filter_empty_conv)
  ultimately have "jr_scan p m ?k = ([], 0)" by (simp add: jr_scan_def n)
  then show ?thesis
    using assms(1,2) by (simp add: jr_mount_def jr_recover_def Let_def zero_jr_stats_def)
qed

text \<open>After \<open>uiox_jr_init\<close>, mounting never looks at the log: the superblock is built in memory
  with \<open>log_start\<close> zero and is never read from the device, so every mount takes the journal for
  clean, and the sequence numbers start again at one, whatever a crash left behind.\<close>

theorem mount_after_init_is_clean:
  assumes "jr_init (Some c) base blocks mode s = (JR_OK, t)"
  shows "jr_mount p (Some c) None t m =
      (JR_OK, zero_jr_stats\<lparr>st_clean := True\<rparr>, upd_ctx c (\<lambda>k. k\<lparr>jc_mounted := True\<rparr>) t, m) \<and>
    js_sequence (jc_jsb (jr_ctxs t c)) = 1"
  using assms
  by (auto simp: jr_init_def jr_mount_def jr_recover_def zero_super_def zero_ctx_def Let_def split: if_splits)

text \<open>The witnesses: a log of memory that holds a descriptor at block 1, a data block and a commit.\<close>

definition log_demo :: "u64 \<Rightarrow> u8" where
  "log_demo a =
     (let w = (\<lambda>(b :: u64) (v :: u32). if unat (a - b) < 4 then Some (le_bytes 4 v ! unat (a - b)) else None) in
      case w 4096 JR_DESC_MAGIC of Some x \<Rightarrow> x | None \<Rightarrow>
      case w 4100 1 of Some x \<Rightarrow> x | None \<Rightarrow>
      case w 4104 7 of Some x \<Rightarrow> x | None \<Rightarrow>
      case w 4112 259 of Some x \<Rightarrow> x | None \<Rightarrow>
      case w 4120 FLAG_LAST_TAG of Some x \<Rightarrow> x | None \<Rightarrow>
      case w 12288 JR_COMMIT_MAGIC of Some x \<Rightarrow> x | None \<Rightarrow>
      case w 12292 2 of Some x \<Rightarrow> x | None \<Rightarrow>
      case w 12296 7 of Some x \<Rightarrow> x | None \<Rightarrow> 0)"

definition crashed_demo :: jr_state where
  "crashed_demo = upd_ctx 0 (\<lambda>k. k\<lparr>jc_jsb := (jc_jsb k)\<lparr>js_log_start := 1\<rparr>\<rparr>) jr_demo"

lemma le_word_4: "le_word 4 bs i = ucast (bs ! i) OR push_bit 8 (ucast (bs ! (i + 1)) OR
    push_bit 8 (ucast (bs ! (i + 2)) OR push_bit 8 (ucast (bs ! (i + 3)))))"
  by (simp add: eval_nat_numeral)

lemma le_bytes_4: "le_bytes 4 w = [ucast w, ucast (drop_bit 8 w), ucast (drop_bit 16 w), ucast (drop_bit 24 w)]"
  by (simp add: eval_nat_numeral drop_bit_drop_bit)

lemma mem_read_word:
  assumes "i < JR_BLOCK_SIZE"
  shows "snd (mem_log_read base blk m) ! i = m (base + ucast blk * of_nat JR_BLOCK_SIZE + of_nat i)"
  using assms by (simp add: mem_log_read_def)

lemma crashed_facts:
  "jc_initialized (jr_ctxs crashed_demo 0)" "js_log_start (jc_jsb (jr_ctxs crashed_demo 0)) = 1"
  "jc_log_blocks (jr_ctxs crashed_demo 0) = 1024" "jc_log_dev_base (jr_ctxs crashed_demo 0) = 0"
  by (simp_all add: crashed_demo_def jr_demo_def jr_init_def jr_blank_def JR_MIN_LOG_BLOCKS_def)

lemma log_demo_words:
  "le_word 4 (snd (mem_log_read 0 1 log_demo)) 0 = JR_DESC_MAGIC"
  "le_word 4 (snd (mem_log_read 0 1 log_demo)) 4 = (1 :: u32)"
  "le_word 4 (snd (mem_log_read 0 1 log_demo)) 8 = (7 :: u32)"
  "le_word 4 (snd (mem_log_read 0 2 log_demo)) 0 = (0 :: u32)"
  by (simp_all add: le_word_4 mem_read_word JR_BLOCK_SIZE_def log_demo_def le_bytes_4
      JR_DESC_MAGIC_def FLAG_LAST_TAG_def JR_COMMIT_MAGIC_def)

lemma recovery_skips_committed_witness:
  "jr_mount mem_plat (Some 0) None crashed_demo log_demo =
     (JR_OK, zero_jr_stats\<lparr>st_clean := True\<rparr>, upd_ctx 0 (\<lambda>k. k\<lparr>jc_mounted := True\<rparr>) crashed_demo, log_demo)"
proof -
  have r: "plat_log_read mem_plat 0 b log_demo = (JR_OK, snd (mem_log_read 0 b log_demo))" for b
    by (simp add: mem_plat_def mem_log_read_def)
  show ?thesis
    by (rule recovery_skips_committed [where desc = "snd (mem_log_read 0 1 log_demo)"
          and block = "snd (mem_log_read 0 2 log_demo)"])
      (simp_all add: crashed_facts log_demo_words r log_wrap_def is_jr_magic_def
        JR_DESC_MAGIC_def JR_COMMIT_MAGIC_def JR_REVOKE_MAGIC_def)
qed

lemma scan_replay_map_witness:
  "length (fst (jr_scan mem_plat log_demo (jr_ctxs crashed_demo 0))) \<le> REPLAY_MAP_SIZE"
  using scan_replay_map [of mem_plat log_demo "jr_ctxs crashed_demo 0", OF surjective_pairing]
  by (simp add: crashed_facts)

lemma mount_after_init_is_clean_witness:
  "fst (jr_mount mem_plat (Some 0) None jr_demo log_demo) = JR_OK"
proof -
  have "jr_init (Some 0) 0 1024 MODE_METADATA jr_blank = (JR_OK, jr_demo)"
    by (simp add: jr_demo_def jr_init_def JR_MIN_LOG_BLOCKS_def)
  from mount_after_init_is_clean [OF this, of mem_plat log_demo] show ?thesis by simp
qed

end
