(* ===== verification/UnfsIo.thy ===== *)
theory UnfsIo
  imports BufProps Bytes
begin

text \<open>
  UNFS block I/O (\<open>32_FS/10_unfs/src/unfs_io.c\<close>): a 4096-byte file-system block is eight buffers
  of the block cache, read with \<open>bread\<close> and written with \<open>getblk\<close> and a synchronous \<open>bwrite\<close>.  The
  interface \<open>block_io\<close> is what the allocator, the formatter and the mount code rely on; it is
  interpreted on the block cache of BufAlg, for the blocks whose eight sectors are resident (a
  lookup of any other block does not return, see BufProps).
\<close>

section \<open>The code\<close>

definition UNFS_BLOCK_SIZE :: nat where "UNFS_BLOCK_SIZE = 4096"
definition UNFS_SECTORS_PER_BLOCK :: nat where "UNFS_SECTORS_PER_BLOCK = 8"

text \<open>The sector loop of \<open>unfs_bdev_read\<close>: the bytes of the sectors listed, \<open>None\<close> for UNFS_EIO.
  Not returning is \<open>None\<close> at the outside, as for \<open>bread\<close>.\<close>

fun read_sectors :: "u8 \<Rightarrow> u32 \<Rightarrow> nat list \<Rightarrow> 'm bcache \<Rightarrow> (u8 list option \<times> 'm bcache) option" where
  "read_sectors d base [] s = Some (Some [], s)"
| "read_sectors d base (x # xs) s =
     (case bread d (base + of_nat x) s of
        None \<Rightarrow> None
      | Some (None, s) \<Rightarrow> Some (None, s)
      | Some (Some b, s) \<Rightarrow>
          (let part = take BLOCK_SIZE (data (hdr s b)) in
           case read_sectors d base xs (brelse (Some b) s) of
             None \<Rightarrow> None
           | Some (None, s) \<Rightarrow> Some (None, s)
           | Some (Some rest, s) \<Rightarrow> Some (Some (part @ rest), s)))"

definition unfs_bdev_read :: "u32 \<Rightarrow> u32 \<Rightarrow> 'm bcache \<Rightarrow> (u8 list option \<times> 'm bcache) option" where
  "unfs_bdev_read dv blk s =
     read_sectors (ucast dv) (blk * of_nat UNFS_SECTORS_PER_BLOCK) [0..<UNFS_SECTORS_PER_BLOCK] s"

text \<open>The sector loop of \<open>unfs_bdev_write\<close>; the flag is \<open>UNFS_OK\<close>.\<close>

fun write_sectors :: "u8 \<Rightarrow> u32 \<Rightarrow> u8 list \<Rightarrow> nat list \<Rightarrow> 'm bcache \<Rightarrow> (bool \<times> 'm bcache) option" where
  "write_sectors d base buf [] s = Some (True, s)"
| "write_sectors d base buf (x # xs) s =
     (case getblk d (base + of_nat x) s of
        None \<Rightarrow> None
      | Some (None, s) \<Rightarrow> Some (False, s)
      | Some (Some b, s) \<Rightarrow>
          (let s = upd b (\<lambda>h. h\<lparr>data := slice (x * BLOCK_SIZE) BLOCK_SIZE buf\<rparr>) s
           in write_sectors d base buf xs (bwrite (Some b) True False s)))"

definition unfs_bdev_write :: "u32 \<Rightarrow> u32 \<Rightarrow> u8 list \<Rightarrow> 'm bcache \<Rightarrow> (bool \<times> 'm bcache) option" where
  "unfs_bdev_write dv blk buf s =
     write_sectors (ucast dv) (blk * of_nat UNFS_SECTORS_PER_BLOCK) buf [0..<UNFS_SECTORS_PER_BLOCK] s"

section \<open>The interface\<close>

text \<open>\<open>img s b\<close> is the content of a block whose reads and writes return, \<open>None\<close> for the others.\<close>

locale block_io =
  fixes rd :: "u32 \<Rightarrow> 's \<Rightarrow> (u8 list option \<times> 's) option"
    and wr :: "u32 \<Rightarrow> u8 list \<Rightarrow> 's \<Rightarrow> (bool \<times> 's) option"
    and ok :: "'s \<Rightarrow> bool" and img :: "'s \<Rightarrow> u32 \<Rightarrow> u8 list option"
  assumes rd_ok: "ok s \<Longrightarrow> img s b = Some xs \<Longrightarrow> \<exists>t. rd b s = Some (Some xs, t) \<and> ok t \<and> img t = img s"
    and wr_ok: "ok s \<Longrightarrow> img s b \<noteq> None \<Longrightarrow> length ys = UNFS_BLOCK_SIZE \<Longrightarrow>
      \<exists>t. wr b ys s = Some (True, t) \<and> ok t \<and> img t = (img s)(b \<mapsto> ys)"
    and img_len: "ok s \<Longrightarrow> img s b = Some xs \<Longrightarrow> length xs = UNFS_BLOCK_SIZE"

section \<open>Resident sectors\<close>

text \<open>What a cached, released and valid buffer holds of a sector.\<close>

definition usable :: "'m bcache \<Rightarrow> bref \<Rightarrow> bool" where
  "usable s b \<longleftrightarrow> \<not> locked s b \<and> has (status (hdr s b)) BUF_VALID \<and> length (data (hdr s b)) = BLOCK_SIZE"

definition sector :: "'m bcache \<Rightarrow> u8 \<Rightarrow> u32 \<Rightarrow> u8 list option" where
  "sector s d n =
     (case bcache_hash_lookup d n s of
        Some (Some b) \<Rightarrow> if usable s b then Some (data (hdr s b)) else None
      | _ \<Rightarrow> None)"

lemma sector_cached:
  assumes "cache_inv s F Q" and "d \<noteq> 255"
  shows "sector s d n =
    (case cached_buf s Q d n of None \<Rightarrow> None | Some b \<Rightarrow> if usable s b then Some (data (hdr s b)) else None)"
proof (cases "cached_buf s Q d n")
  case None
  with lookup_miss [OF assms(1) None] assms(2) show ?thesis by (simp add: sector_def)
next
  case (Some b)
  with lookup_hit [OF assms(1) Some] show ?thesis by (simp add: sector_def)
qed

text \<open>Reading a resident sector and releasing it leaves every resident sector as it was.\<close>

lemma sector_read:
  assumes inv: "cache_inv s F Q" and d: "d \<noteq> 255" and sec: "sector s d n = Some xs"
  obtains b t F' where "bread d n s = Some (Some b, t)" and "data (hdr t b) = xs"
    and "cache_inv (brelse (Some b) t) F' Q" and "\<And>d n. d \<noteq> 255 \<Longrightarrow> sector (brelse (Some b) t) d n = sector s d n"
proof -
  obtain b where b: "cached_buf s Q d n = Some b" "usable s b" "data (hdr s b) = xs"
    using sec sector_cached [OF inv d] by (auto split: option.splits if_splits)
  then have nl: "\<not> locked s b" and v: "has (status (hdr s b)) BUF_VALID" by (auto simp: usable_def)
  have ib: "is_buf b" by (rule cached_bufD(1) [OF inv b(1)])
  define t where "t = bstat (\<lambda>t. t\<lparr>reads := reads t + 1\<rparr>) (getblk_hit b s)"
  have "has (status (hdr (getblk_hit b s) b)) BUF_VALID" using v by (simp add: getblk_hit_core flags)
  then have "bread d n s = Some (Some b, t)"
    using bread_spec [OF inv, of d n] d b(1) nl by (simp add: bread_fill_def t_def)
  moreover have "data (hdr t b) = xs" by (simp add: t_def getblk_hit_core b(3))
  moreover have it: "cache_inv t (remove1 b F) Q"
    unfolding t_def by (rule cache_inv_stay [OF getblk_hit_inv(1) [OF inv ib nl]]) (simp_all add: stay)
  have lt: "locked t b" using getblk_hit_inv(2) [OF inv ib nl] by (simp add: t_def)
  have it': "cache_inv (brelse (Some b) t) (release_order t b (remove1 b F)) Q"
    by (rule brelse_inv [OF it ib lt])
  moreover have "sector (brelse (Some b) t) d' n' = sector s d' n'" if "d' \<noteq> 255" for d' n'
  proof -
    have c: "cached_buf (brelse (Some b) t) Q d' n' = cached_buf s Q d' n'"
      by (rule cached_cong) (simp add: t_def getblk_hit_core)
    have u: "usable (brelse (Some b) t) c = usable s c" for c
      using nl by (auto simp: usable_def t_def getblk_hit_core clrf_or flags)
    have dat: "data (hdr (brelse (Some b) t) c) = data (hdr s c)" for c
      by (simp add: t_def getblk_hit_core)
    show ?thesis
      unfolding sector_cached [OF it' that] sector_cached [OF inv that] c by (simp only: u dat)
  qed
  ultimately show ?thesis by (intro that) auto
qed

text \<open>Writing a resident sector changes that sector and no other.\<close>

lemma sector_write:
  assumes inv: "cache_inv s F Q" and d: "d \<noteq> 255" and sec: "sector s d n \<noteq> None"
    and len: "length ys = BLOCK_SIZE"
  obtains b t F' where "getblk d n s = Some (Some b, t)"
    and "cache_inv (bwrite (Some b) True False (upd b (\<lambda>h. h\<lparr>data := ys\<rparr>) t)) F' Q"
    and "\<And>d' n'. d' \<noteq> 255 \<Longrightarrow> sector (bwrite (Some b) True False (upd b (\<lambda>h. h\<lparr>data := ys\<rparr>) t)) d' n' =
      (if d' = d \<and> n' = n then Some ys else sector s d' n')"
proof -
  obtain b where b: "cached_buf s Q d n = Some b" "usable s b"
    using sec sector_cached [OF inv d] by (auto split: option.splits if_splits)
  then have nl: "\<not> locked s b" by (auto simp: usable_def)
  have ib: "is_buf b" "keyed s b d n" by (rule cached_bufD [OF inv b(1)])+
  let ?t = "getblk_hit b s"
  let ?u = "upd b (\<lambda>h. h\<lparr>data := ys\<rparr>) ?t"
  let ?w = "bwrite (Some b) True False ?u"
  have "getblk d n s = Some (Some b, ?t)"
    using getblk_spec [OF inv, of d n] d b(1) nl by simp
  moreover have "cache_inv ?u (remove1 b F) Q"
    by (rule cache_inv_stay [OF getblk_hit_inv(1) [OF inv ib(1) nl]]) (simp_all add: same_links_def)
  moreover have lu: "locked ?u b" using getblk_hit_inv(2) [OF inv ib(1) nl] by simp
  ultimately have iw: "cache_inv ?w (release_order (bwrite_ready b False ?u) b (remove1 b F)) Q"
    using bwrite_inv [OF _ ib(1)] by blast
  have "sector ?w d' n' = (if d' = d \<and> n' = n then Some ys else sector s d' n')" if "d' \<noteq> 255" for d' n'
  proof -
    have c: "cached_buf ?w Q d' n' = cached_buf s Q d' n'"
      by (rule cached_cong) (simp add: bwrite_fields getblk_hit_core)
    have dat: "data (hdr ?w c) = (if c = b then ys else data (hdr s c))" for c
      by (simp add: bwrite_fields getblk_hit_core)
    have u: "usable ?w c = (c = b \<or> usable s c)" for c
      using nl len by (auto simp: usable_def dat bwrite_status getblk_hit_core flags)
    have S: "sector ?w d' n' = (case cached_buf s Q d' n' of None \<Rightarrow> None
        | Some c \<Rightarrow> if c = b \<or> usable s c then Some (if c = b then ys else data (hdr s c)) else None)"
      unfolding sector_cached [OF iw that] c by (simp only: u dat)
    show ?thesis
    proof (cases "cached_buf s Q d' n' = Some b")
      case True
      then have "d' = d \<and> n' = n" using cached_bufD(2) [OF inv True] ib(2) by (simp add: keyed_def)
      with S True show ?thesis by simp
    next
      case False
      with b(1) have "\<not> (d' = d \<and> n' = n)" by auto
      with S False show ?thesis
        unfolding sector_cached [OF inv that] by (cases "cached_buf s Q d' n'") auto
    qed
  qed
  with \<open>getblk d n s = Some (Some b, ?t)\<close> iw show ?thesis by (intro that) auto
qed


section \<open>Resident blocks\<close>

definition io_ok :: "'m bcache \<Rightarrow> bool" where
  "io_ok s \<longleftrightarrow> (\<exists>F Q. cache_inv s F Q)"

abbreviation sector_of :: "u32 \<Rightarrow> nat \<Rightarrow> u32" where
  "sector_of blk x \<equiv> blk * of_nat UNFS_SECTORS_PER_BLOCK + of_nat x"

text \<open>A block is resident when its sector numbers do not wrap and its eight sectors are.\<close>

definition block_img :: "u8 \<Rightarrow> 'm bcache \<Rightarrow> u32 \<Rightarrow> u8 list option" where
  "block_img d s blk =
     (if d \<noteq> 255 \<and> unat blk < 2 ^ 29 \<and> (\<forall>x<UNFS_SECTORS_PER_BLOCK. sector s d (sector_of blk x) \<noteq> None)
      then Some (concat (map (\<lambda>x. the (sector s d (sector_of blk x))) [0..<UNFS_SECTORS_PER_BLOCK]))
      else None)"

lemma sector_length: "sector s d n = Some xs \<Longrightarrow> length xs = BLOCK_SIZE"
  by (auto simp: sector_def usable_def split: option.splits if_splits)

lemma sector_unat:
  assumes "unat blk < 2 ^ 29" and "x < UNFS_SECTORS_PER_BLOCK"
  shows "unat (sector_of blk x) = unat blk * 8 + x"
proof -
  have "unat blk * 8 + x < 2 ^ 32" using assms by (simp add: UNFS_SECTORS_PER_BLOCK_def)
  moreover have "sector_of blk x = of_nat (unat blk * 8 + x)" by (simp add: UNFS_SECTORS_PER_BLOCK_def)
  ultimately show ?thesis by (simp only: unsigned_of_nat) (simp add: take_bit_nat_eq_self)
qed

lemma sector_inj:
  assumes "unat b < 2 ^ 29" and "unat c < 2 ^ 29" and "x < UNFS_SECTORS_PER_BLOCK" and "y < UNFS_SECTORS_PER_BLOCK"
    and "sector_of b x = sector_of c y"
  shows "b = c" and "x = y"
proof -
  have e: "unat b * 8 + x = unat c * 8 + y"
    using sector_unat [OF assms(1,3)] sector_unat [OF assms(2,4)] assms(5) by simp
  have "x < 8" "y < 8" using assms(3,4) by (simp_all add: UNFS_SECTORS_PER_BLOCK_def)
  with e have "unat b = unat c \<and> x = y" by presburger
  then show "b = c" "x = y" by (simp_all add: word_unat_eq_iff)
qed

lemma read_sectors_spec:
  assumes "io_ok s" and d: "d \<noteq> 255" and "\<And>x. x \<in> set xs \<Longrightarrow> sector s d (base + of_nat x) \<noteq> None"
  shows "\<exists>t. read_sectors d base xs s = Some (Some (concat (map (\<lambda>x. the (sector s d (base + of_nat x))) xs)), t) \<and>
    io_ok t \<and> (\<forall>d n. d \<noteq> 255 \<longrightarrow> sector t d n = sector s d n)"
  using assms(1,3)
proof (induction xs arbitrary: s)
  case (Cons x xs)
  obtain F Q where inv: "cache_inv s F Q" using Cons.prems(1) by (auto simp: io_ok_def)
  obtain ys where ys: "sector s d (base + of_nat x) = Some ys" using Cons.prems(2) [of x] by auto
  obtain b t F' where r: "bread d (base + of_nat x) s = Some (Some b, t)" "data (hdr t b) = ys"
    "cache_inv (brelse (Some b) t) F' Q"
    and same: "\<And>d n. d \<noteq> 255 \<Longrightarrow> sector (brelse (Some b) t) d n = sector s d n"
    using sector_read [OF inv d ys] by blast
  have "io_ok (brelse (Some b) t)" using r(3) by (auto simp: io_ok_def)
  from Cons.IH [OF this] Cons.prems(2) same [OF d]
  obtain u where u: "read_sectors d base xs (brelse (Some b) t) =
      Some (Some (concat (map (\<lambda>x. the (sector s d (base + of_nat x))) xs)), u)" "io_ok u"
    "\<forall>d n. d \<noteq> 255 \<longrightarrow> sector u d n = sector s d n"
    using same by auto
  show ?case using r(1,2) u sector_length [OF ys] ys by simp
qed simp

lemma write_sectors_spec:
  assumes "io_ok s" and d: "d \<noteq> 255" and "\<And>x. x \<in> set xs \<Longrightarrow> sector s d (base + of_nat x) \<noteq> None"
    and inj: "\<And>x y. x \<in> set xs \<Longrightarrow> y \<in> set xs \<Longrightarrow> base + of_nat x = base + of_nat y \<Longrightarrow> x = y"
    and len: "\<And>x. x \<in> set xs \<Longrightarrow> (x + 1) * BLOCK_SIZE \<le> length buf"
  shows "\<exists>t. write_sectors d base buf xs s = Some (True, t) \<and> io_ok t \<and>
    (\<forall>x\<in>set xs. sector t d (base + of_nat x) = Some (slice (x * BLOCK_SIZE) BLOCK_SIZE buf)) \<and>
    (\<forall>d' n. d' \<noteq> 255 \<longrightarrow> (d' = d \<longrightarrow> n \<notin> (\<lambda>x. base + of_nat x) ` set xs) \<longrightarrow> sector t d' n = sector s d' n)"
  using assms(1,3) inj len
proof (induction xs arbitrary: s)
  case (Cons x xs)
  let ?n = "base + of_nat x :: u32" and ?ys = "slice (x * BLOCK_SIZE) BLOCK_SIZE buf"
  obtain F Q where inv: "cache_inv s F Q" using Cons.prems(1) by (auto simp: io_ok_def)
  have ly: "length ?ys = BLOCK_SIZE" using Cons.prems(4) [of x] by (simp add: length_slice)
  obtain b t F' where g: "getblk d ?n s = Some (Some b, t)"
    and w: "cache_inv (bwrite (Some b) True False (upd b (\<lambda>h. h\<lparr>data := ?ys\<rparr>) t)) F' Q"
    and sec: "\<And>d' n'. d' \<noteq> 255 \<Longrightarrow> sector (bwrite (Some b) True False (upd b (\<lambda>h. h\<lparr>data := ?ys\<rparr>) t)) d' n' =
      (if d' = d \<and> n' = ?n then Some ?ys else sector s d' n')"
    by (rule sector_write [OF inv d _ ly, of ?n]) (use Cons.prems(2) [of x] in simp, rule that)
  define v where "v = bwrite (Some b) True False (upd b (\<lambda>h. h\<lparr>data := ?ys\<rparr>) t)"
  note sec = sec [folded v_def]
  have "io_ok v" using w by (auto simp: io_ok_def v_def)
  moreover have "sector v d (base + of_nat y) \<noteq> None" if "y \<in> set xs" for y
    using sec [OF d] Cons.prems(2) [of y] that by simp
  moreover have "y = z" if "y \<in> set xs" "z \<in> set xs" "base + of_nat y = base + of_nat z" for y z
    using Cons.prems(3) [of y z] that by simp
  moreover have "(y + 1) * BLOCK_SIZE \<le> length buf" if "y \<in> set xs" for y
    using Cons.prems(4) [of y] that by simp
  ultimately obtain u where u: "write_sectors d base buf xs v = Some (True, u) \<and> io_ok u \<and>
    (\<forall>x\<in>set xs. sector u d (base + of_nat x) = Some (slice (x * BLOCK_SIZE) BLOCK_SIZE buf)) \<and>
    (\<forall>d' n. d' \<noteq> 255 \<longrightarrow> (d' = d \<longrightarrow> n \<notin> (\<lambda>x. base + of_nat x) ` set xs) \<longrightarrow> sector u d' n = sector v d' n)"
    using Cons.IH [of v] by blast
  have new: "sector u d (base + of_nat y) = Some (slice (y * BLOCK_SIZE) BLOCK_SIZE buf)" if "y \<in> set xs" for y
    using u that by blast
  have old: "sector u d' n = sector v d' n"
    if "d' \<noteq> 255" "d' = d \<longrightarrow> n \<notin> (\<lambda>x. base + of_nat x) ` set xs" for d' n
    using u that by blast
  have "sector u d ?n = Some ?ys"
  proof (cases "x \<in> set xs")
    case True
    then show ?thesis by (rule new)
  next
    case False
    then have "?n \<notin> (\<lambda>x. base + of_nat x) ` set xs" using Cons.prems(3) by fastforce
    then have "sector u d ?n = sector v d ?n" by (intro old [OF d] impI)
    with sec [OF d] show ?thesis by simp
  qed
  moreover have "sector u d' n = sector s d' n"
    if "d' \<noteq> 255" "d' = d \<longrightarrow> n \<notin> (\<lambda>x. base + of_nat x) ` set (x # xs)" for d' n
  proof -
    have "sector u d' n = sector v d' n" by (rule old [OF that(1)]) (use that(2) in auto)
    moreover have "\<not> (d' = d \<and> n = ?n)" using that(2) by auto
    ultimately show ?thesis using sec [OF that(1), of n] by simp
  qed
  moreover have "write_sectors d base buf (x # xs) s = Some (True, u)"
    using g u by (simp add: v_def Let_def)
  ultimately show ?case using u new by auto
qed simp

lemma concat_slices: "n * k \<le> length xs \<Longrightarrow> concat (map (\<lambda>x. slice (x * k) k xs) [0..<n]) = take (n * k) xs"
proof (induction n)
  case (Suc n)
  have "take (n * k) xs @ slice (n * k) k xs = take (n * k + k) xs"
    by (simp add: slice_def take_add)
  with Suc show ?case by (simp add: add.commute)
qed simp

interpretation unfs: block_io "unfs_bdev_read dv" "unfs_bdev_write dv" io_ok "block_img (ucast dv)" for dv
proof unfold_locales
  fix s :: "'a bcache" and b xs
  assume ok: "io_ok s" and img: "block_img (ucast dv) s b = Some xs"
  let ?d = "ucast dv :: u8"
  have h: "?d \<noteq> 255" "\<And>x. x < UNFS_SECTORS_PER_BLOCK \<Longrightarrow> sector s ?d (sector_of b x) \<noteq> None"
    and xs: "xs = concat (map (\<lambda>x. the (sector s ?d (sector_of b x))) [0..<UNFS_SECTORS_PER_BLOCK])"
    using img by (auto simp: block_img_def split: if_splits)
  obtain t where "read_sectors ?d (b * of_nat UNFS_SECTORS_PER_BLOCK) [0..<UNFS_SECTORS_PER_BLOCK] s = Some (Some xs, t)"
    "io_ok t" "\<forall>d n. d \<noteq> 255 \<longrightarrow> sector t d n = sector s d n"
    using read_sectors_spec [OF ok h(1), of "[0..<UNFS_SECTORS_PER_BLOCK]" "b * of_nat UNFS_SECTORS_PER_BLOCK"]
      h(2) xs by fastforce
  moreover from this(3) have "block_img ?d t = block_img ?d s"
    by (intro ext) (simp add: block_img_def cong: conj_cong)
  ultimately show "\<exists>t. unfs_bdev_read dv b s = Some (Some xs, t) \<and> io_ok t \<and> block_img ?d t = block_img ?d s"
    by (auto simp: unfs_bdev_read_def)
  have "length (the (sector s ?d (sector_of b x))) = BLOCK_SIZE" if "x < UNFS_SECTORS_PER_BLOCK" for x
    using h(2) [OF that] sector_length by fastforce
  then have "sum_list (map (length \<circ> (\<lambda>x. the (sector s ?d (sector_of b x)))) [0..<UNFS_SECTORS_PER_BLOCK]) =
      sum_list (map (\<lambda>x. BLOCK_SIZE) [0..<UNFS_SECTORS_PER_BLOCK])"
    by (intro arg_cong [where f = sum_list] map_cong) auto
  then show "length xs = UNFS_BLOCK_SIZE"
    by (simp add: xs length_concat sum_list_triv BLOCK_SIZE_def UNFS_BLOCK_SIZE_def UNFS_SECTORS_PER_BLOCK_def)
next
  fix s :: "'a bcache" and b and ys :: "u8 list"
  assume ok: "io_ok s" and img: "block_img (ucast dv) s b \<noteq> None" and len: "length ys = UNFS_BLOCK_SIZE"
  let ?d = "ucast dv :: u8" and ?xs = "[0..<UNFS_SECTORS_PER_BLOCK]" and ?base = "b * of_nat UNFS_SECTORS_PER_BLOCK"
  have h: "?d \<noteq> 255" "unat b < 2 ^ 29" "\<And>x. x < UNFS_SECTORS_PER_BLOCK \<Longrightarrow> sector s ?d (sector_of b x) \<noteq> None"
    using img by (auto simp: block_img_def split: if_splits)
  have fits: "(x + 1) * BLOCK_SIZE \<le> length ys" if "x \<in> set ?xs" for x
    using that len by (auto simp: BLOCK_SIZE_def UNFS_BLOCK_SIZE_def UNFS_SECTORS_PER_BLOCK_def)
  obtain t where t: "write_sectors ?d ?base ys ?xs s = Some (True, t)" "io_ok t"
    and new: "\<And>x. x < UNFS_SECTORS_PER_BLOCK \<Longrightarrow> sector t ?d (sector_of b x) = Some (slice (x * BLOCK_SIZE) BLOCK_SIZE ys)"
    and old: "\<And>n. n \<notin> (\<lambda>x. ?base + of_nat x) ` set ?xs \<Longrightarrow> sector t ?d n = sector s ?d n"
    using write_sectors_spec [OF ok h(1), of ?xs ?base ys] h sector_inj(2) [OF h(2) h(2)] fits by fastforce
  have "block_img ?d t c = ((block_img ?d s)(b \<mapsto> ys)) c" for c
  proof (cases "c = b")
    case True
    have "concat (map (\<lambda>x. slice (x * BLOCK_SIZE) BLOCK_SIZE ys) ?xs) = ys"
      using concat_slices [of UNFS_SECTORS_PER_BLOCK BLOCK_SIZE ys] len
      by (simp add: BLOCK_SIZE_def UNFS_BLOCK_SIZE_def UNFS_SECTORS_PER_BLOCK_def)
    moreover have m: "map (\<lambda>x. the (sector t ?d (sector_of b x))) ?xs = map (\<lambda>x. slice (x * BLOCK_SIZE) BLOCK_SIZE ys) ?xs"
      by (simp add: new)
    ultimately show ?thesis using True h(1,2) new by (simp add: block_img_def m del: map_eq_conv)
  next
    case False
    have same: "sector t ?d (sector_of c x) = sector s ?d (sector_of c x)"
      if "unat c < 2 ^ 29" "x < UNFS_SECTORS_PER_BLOCK" for x
      using old [of "sector_of c x"] sector_inj(1) [OF that(1) h(2) that(2)] False by fastforce
    have "block_img ?d t c = block_img ?d s c"
    proof (cases "unat c < 2 ^ 29")
      case True
      have "map (\<lambda>x. the (sector t ?d (sector_of c x))) ?xs = map (\<lambda>x. the (sector s ?d (sector_of c x))) ?xs"
        by (simp add: same [OF True])
      then show ?thesis by (simp add: block_img_def same [OF True] del: map_eq_conv)
    qed (simp add: block_img_def)
    with False show ?thesis by simp
  qed
  then have "block_img ?d t = (block_img ?d s)(b \<mapsto> ys)" by (rule ext)
  with t show "\<exists>t. unfs_bdev_write dv b ys s = Some (True, t) \<and> io_ok t \<and>
      block_img ?d t = (block_img ?d s)(b \<mapsto> ys)"
    by (auto simp: unfs_bdev_write_def)
qed


section \<open>A cache that holds given blocks\<close>

text \<open>What \<open>getblk\<close> and \<open>bwrite\<close> would leave if the lookup of an absent block returned: buffer
  \<open>k\<close> reassigned to sector \<open>n\<close>, filled and released.  With it the properties of the layers above
  are applied to a concrete cache.\<close>

definition load_sector :: "u8 \<Rightarrow> nat \<times> u32 \<times> u8 list \<Rightarrow> 'm bcache \<Rightarrow> 'm bcache" where
  "load_sector d p s =
     (let (k, n, xs) = p in
      bwrite (Some (Buf k)) True False (upd (Buf k) (\<lambda>h. h\<lparr>data := xs\<rparr>)
        (getblk_reassign d n (Buf k) (bcache_fl_remove (Buf k) s))))"

lemma load_one:
  assumes inv: "cache_inv s (Buf k # F) Q" and un: "\<And>q. Buf k \<notin> set (Q q)"
    and none: "cached_buf s Q d n = None" and d: "d \<noteq> 255" and len: "length xs = BLOCK_SIZE"
  defines "t \<equiv> load_sector d (k, n, xs) s" and "R \<equiv> requeue (Buf k) (bcache_hash_slot d n) Q"
  shows "cache_inv t (F @ [Buf k]) R"
    and "\<And>d' n'. cached_buf t R d' n' = (if d' = d \<and> n' = n then Some (Buf k) else cached_buf s Q d' n')"
    and "\<And>d' n'. d' \<noteq> 255 \<Longrightarrow> sector t d' n' = (if d' = d \<and> n' = n then Some xs else sector s d' n')"
proof -
  let ?b = "Buf k"
  let ?r = "getblk_reassign d n ?b (bcache_fl_remove ?b s)"
  let ?u = "upd ?b (\<lambda>h. h\<lparr>data := xs\<rparr>) ?r"
  have R: "R q = (if q = bcache_hash_slot d n then ?b # Q q else Q q)" for q
    using un by (simp add: R_def requeue_def removeAll_id)
  have ib: "is_buf ?b" using cache_inv_hd(1) [OF inv] .
  have iu: "cache_inv ?u F R"
    using reassign_inv [OF inv none] unfolding R_def
    by (rule cache_inv_stay) (simp_all add: same_links_def)
  have lu: "locked ?u ?b" by (simp add: reassign_fields flag_tests BUF_LOCKED_bit)
  have ro: "release_order (bwrite_ready ?b False ?u) ?b F = F @ [?b]"
    by (simp add: release_order_def flag_tests bwrite_ready_status reassign_fields BUF_LOCKED_bit)
  show it: "cache_inv t (F @ [?b]) R"
    using bwrite_inv [OF iu ib lu, of True False] ro by (simp add: t_def load_sector_def)
  have fields: "dev (hdr t c) = (if c = ?b then d else dev (hdr s c))"
    "blkno (hdr t c) = (if c = ?b then n else blkno (hdr s c))"
    "data (hdr t c) = (if c = ?b then xs else data (hdr s c))" for c
    by (simp_all add: t_def load_sector_def bwrite_fields reassign_fields fl_remove_fields)
  have st: "m < 32 \<Longrightarrow> bit (status (hdr t c)) m = (if c = ?b then m = 1 else bit (status (hdr s c)) m)" for c m
    by (auto simp: t_def load_sector_def bwrite_status reassign_fields fl_remove_fields BUF_LOCKED_bit)
  show c: "cached_buf t R d' n' = (if d' = d \<and> n' = n then Some ?b else cached_buf s Q d' n')" for d' n'
  proof (cases "d' = d \<and> n' = n")
    case True
    then show ?thesis by (simp add: cached_buf_def R keyed_def fields)
  next
    case False
    have "find (\<lambda>b. keyed t b d' n') (Q q) = find (\<lambda>b. keyed s b d' n') (Q q)" for q
      by (rule find_cong) (use un in \<open>auto simp: keyed_def fields\<close>)
    with False show ?thesis by (auto simp: cached_buf_def R keyed_def fields)
  qed
  have u: "usable t c = (c = ?b \<or> usable s c)" for c
    using len by (auto simp: usable_def fields flag_tests st)
  show "sector t d' n' = (if d' = d \<and> n' = n then Some xs else sector s d' n')" if "d' \<noteq> 255" for d' n'
  proof (cases "d' = d \<and> n' = n")
    case True
    with d have "sector t d n = Some xs" by (simp add: sector_cached [OF it] c u fields)
    with True show ?thesis by simp
  next
    case False
    have "cached_buf s Q d' n' \<noteq> Some ?b"
      using cached_bufD(3) [OF inv, of d' n'] un by blast
    with False show ?thesis
      unfolding sector_cached [OF it that] sector_cached [OF inv that] c u fields
      by (cases "cached_buf s Q d' n'") auto
  qed
qed

lemma load_many:
  assumes "cache_inv s (map Buf [k..<k + length ps] @ F) Q"
    and "\<And>j q. k \<le> j \<Longrightarrow> Buf j \<notin> set (Q q)"
    and "\<And>n. n \<in> fst ` set ps \<Longrightarrow> cached_buf s Q d n = None" and "distinct (map fst ps)"
    and "d \<noteq> 255" and "\<And>p. p \<in> set ps \<Longrightarrow> length (snd p) = BLOCK_SIZE"
  shows "io_ok (fold (load_sector d) (zip [k..<k + length ps] ps) s)"
    and "d' \<noteq> 255 \<Longrightarrow> sector (fold (load_sector d) (zip [k..<k + length ps] ps) s) d' n =
      (if d' = d \<and> n \<in> fst ` set ps then map_of ps n else sector s d' n)"
proof -
  have "io_ok (fold (load_sector d) (zip [k..<k + length ps] ps) s) \<and>
    (\<forall>d' n. d' \<noteq> 255 \<longrightarrow> sector (fold (load_sector d) (zip [k..<k + length ps] ps) s) d' n =
      (if d' = d \<and> n \<in> fst ` set ps then map_of ps n else sector s d' n))"
    using assms(1-4,6)
  proof (induction ps arbitrary: s k F Q)
    case Nil
    then show ?case by (auto simp: io_ok_def)
  next
    case (Cons p ps)
    obtain n xs where p: "p = (n, xs)" by fastforce
    have up: "[k..<k + length (p # ps)] = k # [Suc k..<Suc k + length ps]" by (simp add: upt_rec)
    have inv: "cache_inv s (Buf k # (map Buf [Suc k..<Suc k + length ps] @ F)) Q"
      using Cons.prems(1) unfolding up by simp
    have none: "cached_buf s Q d n = None" using Cons.prems(3) [of n] p by simp
    have len: "length xs = BLOCK_SIZE" using Cons.prems(5) [of p] p by simp
    note L = load_one [OF inv Cons.prems(2) [OF order_refl] none assms(5) len]
    let ?t = "load_sector d (k, n, xs) s" and ?R = "requeue (Buf k) (bcache_hash_slot d n) Q"
    have "cache_inv ?t (map Buf [Suc k..<Suc k + length ps] @ (F @ [Buf k])) ?R" using L(1) by simp
    moreover have "Buf j \<notin> set (?R q)" if "Suc k \<le> j" for j q
      using Cons.prems(2) [of j] that by (simp add: requeue_def)
    moreover have "cached_buf ?t ?R d m = None" if "m \<in> fst ` set ps" for m
    proof -
      have "m \<noteq> n" using that Cons.prems(4) p by auto
      with L(2) [of d m] Cons.prems(3) [of m] that show ?thesis by simp
    qed
    ultimately have ih: "io_ok (fold (load_sector d) (zip [Suc k..<Suc k + length ps] ps) ?t) \<and>
      (\<forall>d' m. d' \<noteq> 255 \<longrightarrow> sector (fold (load_sector d) (zip [Suc k..<Suc k + length ps] ps) ?t) d' m =
        (if d' = d \<and> m \<in> fst ` set ps then map_of ps m else sector ?t d' m))"
      by (rule Cons.IH) (use Cons.prems(4,5) in auto)
    have "n \<notin> fst ` set ps" using Cons.prems(4) p by simp
    with ih L(3) show ?case unfolding up by (auto simp: p)
  qed
  then show "io_ok (fold (load_sector d) (zip [k..<k + length ps] ps) s)"
    "d' \<noteq> 255 \<Longrightarrow> sector (fold (load_sector d) (zip [k..<k + length ps] ps) s) d' n =
      (if d' = d \<and> n \<in> fst ` set ps then map_of ps n else sector s d' n)" by blast+
qed

text \<open>A volume's blocks, each eight sectors, loaded into the freshly initialised cache.\<close>

definition block_sectors :: "u32 \<times> u8 list \<Rightarrow> (u32 \<times> u8 list) list" where
  "block_sectors p = map (\<lambda>x. (sector_of (fst p) x, slice (x * BLOCK_SIZE) BLOCK_SIZE (snd p))) [0..<UNFS_SECTORS_PER_BLOCK]"

definition volume_cache :: "u8 \<Rightarrow> (u32 \<times> u8 list) list \<Rightarrow> 'm bcache \<Rightarrow> 'm bcache" where
  "volume_cache d vol s = fold (load_sector d)
     (zip [0..<length (concat (map block_sectors vol))] (concat (map block_sectors vol))) (bcache_init s)"

lemma block_sectors_fst: "fst ` set (block_sectors p) = sector_of (fst p) ` {..<UNFS_SECTORS_PER_BLOCK}"
  by (simp add: block_sectors_def image_image lessThan_atLeast0)

lemma block_sectors_map_of:
  assumes "unat b < 2 ^ 29" and "x < UNFS_SECTORS_PER_BLOCK"
  shows "map_of (block_sectors (b, ys)) (sector_of b x) = Some (slice (x * BLOCK_SIZE) BLOCK_SIZE ys)"
proof -
  have "distinct (map fst (block_sectors (b, ys)))"
    using sector_inj(2) [OF assms(1) assms(1)] by (auto simp: block_sectors_def distinct_map inj_on_def)
  moreover have "(sector_of b x, slice (x * BLOCK_SIZE) BLOCK_SIZE ys) \<in> set (block_sectors (b, ys))"
    using assms(2) by (auto simp: block_sectors_def)
  ultimately show ?thesis by (simp add: map_of_is_SomeI)
qed

lemma volume_sectors:
  assumes "distinct (map fst vol)" and "\<And>p. p \<in> set vol \<Longrightarrow> unat (fst p) < 2 ^ 29"
  shows "distinct (map fst (concat (map block_sectors vol)))"
    and "(b, ys) \<in> set vol \<Longrightarrow> x < UNFS_SECTORS_PER_BLOCK \<Longrightarrow>
      map_of (concat (map block_sectors vol)) (sector_of b x) = Some (slice (x * BLOCK_SIZE) BLOCK_SIZE ys)"
proof -
  have "distinct (map fst (concat (map block_sectors vol))) \<and> (\<forall>b ys x. (b, ys) \<in> set vol \<longrightarrow> x < UNFS_SECTORS_PER_BLOCK \<longrightarrow>
      map_of (concat (map block_sectors vol)) (sector_of b x) = Some (slice (x * BLOCK_SIZE) BLOCK_SIZE ys))"
    using assms
  proof (induction vol)
    case (Cons p vol)
    have p: "unat (fst p) < 2 ^ 29" by (rule Cons.prems(2)) simp
    have apart: "sector_of (fst p) x \<noteq> sector_of (fst q) y"
      if "q \<in> set vol" "x < UNFS_SECTORS_PER_BLOCK" "y < UNFS_SECTORS_PER_BLOCK" for q x y
      using sector_inj(1) [OF p _ that(2,3), of "fst q"] Cons.prems(1) Cons.prems(2) [of q] that(1)
      by (auto simp: image_iff)
    have d1: "distinct (map fst (block_sectors p))"
      using sector_inj(2) [OF p p] by (auto simp: block_sectors_def distinct_map inj_on_def)
    have dis: "set (map fst (block_sectors p)) \<inter> set (map fst (concat (map block_sectors vol))) = {}"
    proof -
      have "fst ` set (block_sectors p) \<inter> fst ` set (block_sectors q) = {}" if "q \<in> set vol" for q
        using apart [OF that] by (auto simp: block_sectors_fst)
      then show ?thesis by fastforce
    qed
    have ih: "distinct (map fst (concat (map block_sectors vol)))"
      "\<And>b ys x. (b, ys) \<in> set vol \<Longrightarrow> x < UNFS_SECTORS_PER_BLOCK \<Longrightarrow>
        map_of (concat (map block_sectors vol)) (sector_of b x) = Some (slice (x * BLOCK_SIZE) BLOCK_SIZE ys)"
      using Cons.IH Cons.prems by auto
    have "map_of (concat (map block_sectors (p # vol))) (sector_of b x) = Some (slice (x * BLOCK_SIZE) BLOCK_SIZE ys)"
      if bx: "(b, ys) \<in> set (p # vol)" "x < UNFS_SECTORS_PER_BLOCK" for b ys x
    proof (cases "(b, ys) \<in> set vol")
      case True
      have "sector_of b x \<notin> fst ` set (block_sectors p)"
      proof
        assume "sector_of b x \<in> fst ` set (block_sectors p)"
        then obtain y where "y < UNFS_SECTORS_PER_BLOCK" "sector_of b x = sector_of (fst p) y"
          unfolding block_sectors_fst by blast
        with apart [OF True this(1) bx(2)] show False by simp
      qed
      then have "map_of (block_sectors p) (sector_of b x) = None" by (simp add: map_of_eq_None_iff)
      with ih(2) [OF True bx(2)] show ?thesis by (simp add: map_add_def)
    next
      case False
      with bx(1) have "p = (b, ys)" by auto
      with block_sectors_map_of [of b x ys] p bx(2)
      have "map_of (block_sectors p) (sector_of b x) = Some (slice (x * BLOCK_SIZE) BLOCK_SIZE ys)" by simp
      moreover from this have "sector_of b x \<notin> set (map fst (concat (map block_sectors vol)))"
        using dis by (force dest: map_of_SomeD)
      then have "map_of (concat (map block_sectors vol)) (sector_of b x) = None"
        by (simp add: map_of_eq_None_iff)
      ultimately show ?thesis by (simp add: map_add_def)
    qed
    with d1 dis ih(1) show ?case by simp
  qed simp
  then show "distinct (map fst (concat (map block_sectors vol)))"
    "(b, ys) \<in> set vol \<Longrightarrow> x < UNFS_SECTORS_PER_BLOCK \<Longrightarrow>
      map_of (concat (map block_sectors vol)) (sector_of b x) = Some (slice (x * BLOCK_SIZE) BLOCK_SIZE ys)"
    by blast+
qed

lemma volume_cache_ok:
  assumes vol: "distinct (map fst vol)" "\<And>p. p \<in> set vol \<Longrightarrow> unat (fst p) < 2 ^ 29"
    "\<And>p. p \<in> set vol \<Longrightarrow> length (snd p) = UNFS_BLOCK_SIZE"
    and d: "d \<noteq> 255" and room: "length vol \<le> 32"
  shows "io_ok (volume_cache d vol s)" and "(b, ys) \<in> set vol \<Longrightarrow> block_img d (volume_cache d vol s) b = Some ys"
proof -
  let ?ps = "concat (map block_sectors vol)"
  have lp: "length ?ps = length vol * 8"
    by (simp add: length_concat block_sectors_def comp_def sum_list_triv UNFS_SECTORS_PER_BLOCK_def)
  define F where "F = map Buf [length ?ps..<NUM_BUFFERS]"
  have "[0..<NUM_BUFFERS] = [0..<length ?ps] @ [length ?ps..<NUM_BUFFERS]"
    using upt_add_eq_append [of 0 "length ?ps" "NUM_BUFFERS - length ?ps"] lp room by (simp add: NUM_BUFFERS_def)
  then have inv: "cache_inv (bcache_init s) (map Buf [0..<0 + length ?ps] @ F) (\<lambda>_. [])"
    using init_inv [of s] by (simp add: all_bufs_def F_def)
  have len: "length (snd p) = BLOCK_SIZE" if "p \<in> set ?ps" for p
    using that vol(3) by (auto simp: block_sectors_def length_slice UNFS_BLOCK_SIZE_def BLOCK_SIZE_def
        UNFS_SECTORS_PER_BLOCK_def)
  note L = load_many [OF inv _ _ volume_sectors(1) [OF vol(1,2)] d len]
  show "io_ok (volume_cache d vol s)"
    using L(1) by (simp add: volume_cache_def cached_buf_def)
  show "block_img d (volume_cache d vol s) b = Some ys" if b: "(b, ys) \<in> set vol"
  proof -
    have ub: "unat b < 2 ^ 29" and ly: "length ys = UNFS_BLOCK_SIZE" using vol(2,3) [OF b] by simp_all
    have sec: "sector (volume_cache d vol s) d (sector_of b x) = Some (slice (x * BLOCK_SIZE) BLOCK_SIZE ys)"
      if "x < UNFS_SECTORS_PER_BLOCK" for x
    proof -
      have "map_of ?ps (sector_of b x) = Some (slice (x * BLOCK_SIZE) BLOCK_SIZE ys)"
        by (rule volume_sectors(2) [OF vol(1,2) b that])
      moreover from this have "sector_of b x \<in> fst ` set ?ps" by (force dest: map_of_SomeD)
      ultimately show ?thesis
        using L(2) [of d "sector_of b x"] d by (simp add: volume_cache_def cached_buf_def)
    qed
    have m: "map (\<lambda>x. the (sector (volume_cache d vol s) d (sector_of b x))) [0..<UNFS_SECTORS_PER_BLOCK] =
        map (\<lambda>x. slice (x * BLOCK_SIZE) BLOCK_SIZE ys) [0..<UNFS_SECTORS_PER_BLOCK]"
      by (simp add: sec)
    have "concat (map (\<lambda>x. slice (x * BLOCK_SIZE) BLOCK_SIZE ys) [0..<UNFS_SECTORS_PER_BLOCK]) = ys"
      using concat_slices [of UNFS_SECTORS_PER_BLOCK BLOCK_SIZE ys] ly
      by (simp add: BLOCK_SIZE_def UNFS_BLOCK_SIZE_def UNFS_SECTORS_PER_BLOCK_def)
    then show ?thesis using ub sec d by (simp add: block_img_def m del: map_eq_conv)
  qed
qed

section \<open>Writing and reading blocks\<close>

text \<open>C37: Writing a resident block succeeds, and reading any resident block afterwards returns the
  bytes written when it is that block and the bytes it held before otherwise: the eight sector
  writes land in the block's own sectors and in the order in which the reads collect them.\<close>
lemma unfs_block_roundtrip:
  assumes "io_ok s" and "block_img (ucast dv) s b \<noteq> None" and "block_img (ucast dv) s b' = Some xs"
    and "length ys = UNFS_BLOCK_SIZE"
  shows "\<exists>t u. unfs_bdev_write dv b ys s = Some (True, t) \<and>
    unfs_bdev_read dv b' t = Some (Some (if b' = b then ys else xs), u)"
proof -
  obtain t where t: "unfs_bdev_write dv b ys s = Some (True, t)" "io_ok t"
    "block_img (ucast dv) t = (block_img (ucast dv) s)(b \<mapsto> ys)"
    using unfs.wr_ok [OF assms(1,2,4)] by blast
  then have "block_img (ucast dv) t b' = Some (if b' = b then ys else xs)" using assms(3) by simp
  with unfs.rd_ok [OF t(2)] t(1) show ?thesis by blast
qed

lemma unfs_block_roundtrip_witness:
  "\<exists>t u. unfs_bdev_write 2 5 (replicate 4096 7) (volume_cache 2 [(5, replicate 4096 1), (6, replicate 4096 3)] ram_cache) =
      Some (True, t) \<and> unfs_bdev_read 2 6 t = Some (Some (replicate 4096 3), u)"
proof -
  let ?vol = "[(5, replicate 4096 1), (6, replicate 4096 3)] :: (u32 \<times> u8 list) list"
  note V = volume_cache_ok [where vol = ?vol and d = 2 and s = ram_cache, unfolded UNFS_BLOCK_SIZE_def]
  have "io_ok (volume_cache 2 ?vol ram_cache)" by (rule V(1)) auto
  moreover have "block_img 2 (volume_cache 2 ?vol ram_cache) 5 = Some (replicate 4096 1)" by (rule V(2)) auto
  moreover have "block_img 2 (volume_cache 2 ?vol ram_cache) 6 = Some (replicate 4096 3)" by (rule V(2)) auto
  ultimately show ?thesis
    using unfs_block_roundtrip [of "volume_cache 2 ?vol ram_cache" 2 5 6 "replicate 4096 3" "replicate 4096 7"]
    by (simp add: UNFS_BLOCK_SIZE_def)
qed

end
