(* ===== verification/UnfsAlloc.thy ===== *)
theory UnfsAlloc
  imports UnfsIo JrnlProps
begin

text \<open>
  Block and inode allocation over the group bitmaps (\<open>32_FS/10_unfs/src/unfs_alloc.c\<close>).  The
  routines are written over the block device they use (\<open>rd\<close>, \<open>wr\<close>) and over the journal's pair of
  hooks (\<open>hook\<close>), the way the code reaches both through calls; the last section plugs in the block
  cache and the journal.  A superblock and a bitmap are the 4096-byte images that the code copies.
  Bit indices, which stay below the number of bits of a bitmap, are natural numbers.
\<close>

section \<open>The superblock (\<open>unfs_format.h\<close>)\<close>

datatype unfs_err = UNFS_OK | UNFS_EIO | UNFS_EINVAL | UNFS_ENOENT | UNFS_ENOTSUP | UNFS_ENOSPC
  | UNFS_EBADMAGIC | UNFS_EBADCRC | UNFS_EBADSB

definition UNFS_MAGIC :: u32 where "UNFS_MAGIC = 0x554E4653"
definition UNFS_GROUP0_DESC :: u32 where "UNFS_GROUP0_DESC = 258"
definition UNFS_GROUP0_BBMAP :: u32 where "UNFS_GROUP0_BBMAP = 259"
definition UNFS_GROUP0_IBMAP :: u32 where "UNFS_GROUP0_IBMAP = 260"
definition UNFS_GROUP0_ITABLE :: u32 where "UNFS_GROUP0_ITABLE = 261"
definition UNFS_ITABLE_BLOCKS :: u32 where "UNFS_ITABLE_BLOCKS = 8"
definition UNFS_GROUP0_DATA :: u32 where "UNFS_GROUP0_DATA = 269"
definition UNFS_GROUP0_PKG_INDEX :: u32 where "UNFS_GROUP0_PKG_INDEX = 269"
definition UNFS_GROUP0_DATA_START :: u32 where "UNFS_GROUP0_DATA_START = 526"

lemmas unfs_layout = UNFS_GROUP0_DESC_def UNFS_GROUP0_BBMAP_def UNFS_GROUP0_IBMAP_def
  UNFS_GROUP0_ITABLE_def UNFS_ITABLE_BLOCKS_def UNFS_GROUP0_DATA_def UNFS_GROUP0_PKG_INDEX_def
  UNFS_GROUP0_DATA_START_def

text \<open>The fields of \<open>unfs_sb_t\<close> that the code reads, at their packed offsets.\<close>

definition s_magic :: "u8 list \<Rightarrow> u32" where "s_magic sb = le_word 4 sb 0"
definition s_block_size :: "u8 list \<Rightarrow> u32" where "s_block_size sb = le_word 4 sb 8"
definition s_inode_size :: "u8 list \<Rightarrow> u32" where "s_inode_size sb = le_word 4 sb 12"
definition s_block_count :: "u8 list \<Rightarrow> u64" where "s_block_count sb = le_word 8 sb 16"
definition s_free_blocks :: "u8 list \<Rightarrow> u64" where "s_free_blocks sb = le_word 8 sb 24"
definition s_free_inodes :: "u8 list \<Rightarrow> u32" where "s_free_inodes sb = le_word 4 sb 36"
definition s_inodes_per_group :: "u8 list \<Rightarrow> u32" where "s_inodes_per_group sb = le_word 4 sb 40"
definition s_blocks_per_group :: "u8 list \<Rightarrow> u32" where "s_blocks_per_group sb = le_word 4 sb 44"
definition s_group_count :: "u8 list \<Rightarrow> u32" where "s_group_count sb = le_word 4 sb 48"
definition s_sb_checksum :: "u8 list \<Rightarrow> u32" where "s_sb_checksum sb = le_word 4 sb 159"

lemmas sb_fields = s_magic_def s_block_size_def s_inode_size_def s_block_count_def s_free_blocks_def
  s_free_inodes_def s_inodes_per_group_def s_blocks_per_group_def s_group_count_def s_sb_checksum_def

definition set_free_blocks :: "u64 \<Rightarrow> u8 list \<Rightarrow> u8 list" where "set_free_blocks n sb = put_le 8 24 n sb"
definition set_free_inodes :: "u32 \<Rightarrow> u8 list \<Rightarrow> u8 list" where "set_free_inodes n sb = put_le 4 36 n sb"
definition set_checksum :: "u32 \<Rightarrow> u8 list \<Rightarrow> u8 list" where "set_checksum n sb = put_le 4 159 n sb"

lemmas sb_updates = set_free_blocks_def set_free_inodes_def set_checksum_def

text \<open>The steps \<open>if (unfs_bdev_read (\<dots>) != UNFS_OK) return e\<close> and the same for a write.\<close>

definition bdev_get :: "('a option \<times> 's) option \<Rightarrow> 'b \<Rightarrow> ('a \<Rightarrow> 's \<Rightarrow> ('b \<times> 's) option) \<Rightarrow> ('b \<times> 's) option" where
  "bdev_get r e f =
     (case r of None \<Rightarrow> None | Some (None, s) \<Rightarrow> Some (e, s) | Some (Some x, s) \<Rightarrow> f x s)"

definition bdev_put :: "(bool \<times> 's) option \<Rightarrow> 'b \<Rightarrow> ('s \<Rightarrow> ('b \<times> 's) option) \<Rightarrow> ('b \<times> 's) option" where
  "bdev_put r e f =
     (case r of None \<Rightarrow> None | Some (done, s) \<Rightarrow> if done then f s else Some (e, s))"

lemma bdev_simps [simp]:
  "bdev_get (Some (Some x, s)) e f = f x s" "bdev_put (Some (True, s)) e g = g s"
  by (simp_all add: bdev_get_def bdev_put_def)

type_synonym 's bdev_rd = "u32 \<Rightarrow> 's \<Rightarrow> (u8 list option \<times> 's) option"
type_synonym 's bdev_wr = "u32 \<Rightarrow> u8 list \<Rightarrow> 's \<Rightarrow> (bool \<times> 's) option"
type_synonym 's bdev_hook = "u32 \<Rightarrow> u8 list \<Rightarrow> u8 list \<Rightarrow> 's \<Rightarrow> 's"

definition read_sb :: "'s bdev_rd \<Rightarrow> 's \<Rightarrow> (u8 list option \<times> 's) option" where
  "read_sb rd s =
     bdev_get (rd 0 s) None (\<lambda>blk0 s. Some (if s_magic blk0 \<noteq> UNFS_MAGIC then None else Some blk0, s))"

text \<open>The checksum is computed over the image with the checksum field zero; \<open>sizeof (unfs_sb_t)\<close> is
  the block size, so the block read first is overwritten in full.\<close>

definition sealed :: "u8 list \<Rightarrow> u8 list" where
  "sealed sb = (let tmp = set_checksum 0 sb in set_checksum (unfs_crc32 tmp) tmp)"

definition write_sb :: "'s bdev_rd \<Rightarrow> 's bdev_wr \<Rightarrow> u8 list \<Rightarrow> 's \<Rightarrow> (bool \<times> 's) option" where
  "write_sb rd wr sb s = bdev_get (rd 0 s) False (\<lambda>blk0 s. wr 0 (sealed sb) s)"

section \<open>Bitmaps\<close>

definition bit_is_free :: "u8 list \<Rightarrow> nat \<Rightarrow> bool" where
  "bit_is_free bm b \<longleftrightarrow> bm ! (b div 8) AND push_bit (b mod 8) 1 \<noteq> 0"

definition bit_set_free :: "nat \<Rightarrow> u8 list \<Rightarrow> u8 list" where
  "bit_set_free b bm = bm[b div 8 := bm ! (b div 8) OR push_bit (b mod 8) 1]"

definition bit_set_used :: "nat \<Rightarrow> u8 list \<Rightarrow> u8 list" where
  "bit_set_used b bm = bm[b div 8 := bm ! (b div 8) AND NOT (push_bit (b mod 8) 1)]"

text \<open>The loops over a run of \<open>n\<close> bits.\<close>

definition claim_bits :: "nat \<Rightarrow> nat \<Rightarrow> u8 list \<Rightarrow> u8 list" where
  "claim_bits start n bm = fold (\<lambda>k. bit_set_used (start + k)) [0..<n] bm"

definition release_bits :: "nat \<Rightarrow> nat \<Rightarrow> u8 list \<Rightarrow> u8 list" where
  "release_bits start n bm = fold (\<lambda>k. bit_set_free (start + k)) [0..<n] bm"

text \<open>\<open>find_run\<close>: \<open>n\<close> bits are left to look at from bit \<open>b\<close> on.\<close>

primrec find_run_from :: "u8 list \<Rightarrow> nat \<Rightarrow> nat \<Rightarrow> nat \<Rightarrow> nat \<Rightarrow> nat \<Rightarrow> nat option" where
  "find_run_from bm want 0 b run run_start = None"
| "find_run_from bm want (Suc n) b run run_start =
     (if bit_is_free bm b
      then
        (let run_start = (if run = 0 then b else run_start); run = run + 1
         in if want \<le> run then Some run_start else find_run_from bm want n (b + 1) run run_start)
      else find_run_from bm want n (b + 1) 0 run_start)"

definition find_run :: "u8 list \<Rightarrow> u32 \<Rightarrow> u32 \<Rightarrow> nat option" where
  "find_run bm limit want = find_run_from bm (unat want) (unat limit) 0 0 0"

section \<open>Block runs\<close>

record unfs_run =
  first_blk :: u32
  run_count :: u32
  run_group :: u32

definition UNFS_BITS_PER_BITMAP_BLOCK :: u32 where "UNFS_BITS_PER_BITMAP_BLOCK = 32768"

definition group_bmap_blk :: "u32 \<Rightarrow> u32" where
  "group_bmap_blk grp =
     (if grp = 0 then UNFS_GROUP0_BBMAP
      else
        (let stride = 2 + UNFS_ITABLE_BLOCKS
         in UNFS_GROUP0_DATA_START + (grp - 1) * (stride + UNFS_ITABLE_BLOCKS) + stride))"

definition group_first_data_blk :: "u32 \<Rightarrow> u32" where
  "group_first_data_blk grp =
     (if grp = 0 then UNFS_GROUP0_DATA_START else group_bmap_blk grp + 2 + UNFS_ITABLE_BLOCKS)"

text \<open>How many bits of its bitmap a group uses: the last group may be cut short.\<close>

definition group_limit :: "u8 list \<Rightarrow> u32 \<Rightarrow> u32" where
  "group_limit sb grp =
     (let first_data = group_first_data_blk grp in
      if grp = s_group_count sb - 1 \<and> ucast (s_block_count sb) < first_data + s_blocks_per_group sb
      then ucast (s_block_count sb) - first_data
      else s_blocks_per_group sb)"

definition taken_from :: "u32 \<Rightarrow> u8 list \<Rightarrow> u64" where
  "taken_from want sb = (if ucast want \<le> s_free_blocks sb then s_free_blocks sb - ucast want else 0)"

text \<open>The loop of \<open>unfs_alloc_run\<close> over the groups from \<open>grp\<close> on, \<open>n\<close> of them.\<close>

primrec alloc_groups ::
  "'s bdev_rd \<Rightarrow> 's bdev_wr \<Rightarrow> 's bdev_hook \<Rightarrow> u8 list \<Rightarrow> u32 \<Rightarrow> unfs_run \<Rightarrow> nat \<Rightarrow> u32 \<Rightarrow> 's \<Rightarrow>
     ((unfs_err \<times> unfs_run) \<times> 's) option" where
  "alloc_groups rd wr hook sb want out 0 grp s = Some ((UNFS_ENOSPC, out), s)"
| "alloc_groups rd wr hook sb want out (Suc n) grp s =
     (let bmap_blk = group_bmap_blk grp in
      bdev_get (rd bmap_blk s) (UNFS_EIO, out) (\<lambda>bm s.
        case find_run bm (group_limit sb grp) want of
          None \<Rightarrow> alloc_groups rd wr hook sb want out n (grp + 1) s
        | Some start \<Rightarrow>
            (let bm' = claim_bits start (unat want) bm;
                 s = hook bmap_blk bm bm' s
             in bdev_put (wr bmap_blk bm' s) (UNFS_EIO, out) (\<lambda>s.
               bdev_put (write_sb rd wr (set_free_blocks (taken_from want sb) sb) s) (UNFS_EIO, out) (\<lambda>s.
                 Some ((UNFS_OK, \<lparr>first_blk = group_first_data_blk grp + of_nat start,
                   run_count = want, run_group = grp\<rparr>), s))))))"

definition alloc_run ::
  "'s bdev_rd \<Rightarrow> 's bdev_wr \<Rightarrow> 's bdev_hook \<Rightarrow> u32 \<Rightarrow> unfs_run \<Rightarrow> 's \<Rightarrow> ((unfs_err \<times> unfs_run) \<times> 's) option" where
  "alloc_run rd wr hook want out s =
     (if want = 0 then Some ((UNFS_EINVAL, out\<lparr>run_count := 0\<rparr>), s)
      else
        (let out = \<lparr>first_blk = 0, run_count = 0, run_group = 0\<rparr> in
         bdev_get (read_sb rd s) (UNFS_EIO, out) (\<lambda>sb s.
           if UNFS_BITS_PER_BITMAP_BLOCK < s_blocks_per_group sb then Some ((UNFS_ENOTSUP, out), s)
           else alloc_groups rd wr hook sb want out (unat (s_group_count sb)) 0 s)))"

definition alloc_block :: "'s bdev_rd \<Rightarrow> 's bdev_wr \<Rightarrow> 's bdev_hook \<Rightarrow> 's \<Rightarrow> (u32 \<times> 's) option" where
  "alloc_block rd wr hook s =
     (case alloc_run rd wr hook 1 \<lparr>first_blk = 0, run_count = 0, run_group = 0\<rparr> s of
        None \<Rightarrow> None
      | Some ((e, r), s) \<Rightarrow> Some (if e \<noteq> UNFS_OK then 0 else first_blk r, s))"

text \<open>The first loop of \<open>unfs_free_run\<close>: the group that holds the block.\<close>

definition owning_group :: "u8 list \<Rightarrow> u32 \<Rightarrow> nat option" where
  "owning_group sb blk =
     first_idx (\<lambda>g. group_first_data_blk (of_nat g) \<le> blk \<and>
         blk < group_first_data_blk (of_nat g) + s_blocks_per_group sb) (unat (s_group_count sb))"

definition free_run ::
  "'s bdev_rd \<Rightarrow> 's bdev_wr \<Rightarrow> 's bdev_hook \<Rightarrow> u32 \<Rightarrow> u32 \<Rightarrow> 's \<Rightarrow> (unfs_err \<times> 's) option" where
  "free_run rd wr hook first count s =
     (if count = 0 then Some (UNFS_EINVAL, s)
      else
        bdev_get (read_sb rd s) UNFS_EIO (\<lambda>sb s.
          case owning_group sb first of
            None \<Rightarrow> Some (UNFS_EINVAL, s)
          | Some g \<Rightarrow>
              (let grp = of_nat g;
                   start = unat (first - group_first_data_blk grp);
                   bmap_blk = group_bmap_blk grp
               in bdev_get (rd bmap_blk s) UNFS_EIO (\<lambda>bm s.
                 let bm' = release_bits start (min (unat count) (unat (s_blocks_per_group sb) - start)) bm;
                     s = hook bmap_blk bm bm' s
                 in bdev_put (wr bmap_blk bm' s) UNFS_EIO (\<lambda>s.
                   bdev_put (write_sb rd wr (set_free_blocks (s_free_blocks sb + ucast count) sb) s) UNFS_EIO
                     (\<lambda>s. Some (UNFS_OK, s)))))))"

definition group_free_blocks :: "'s bdev_rd \<Rightarrow> u32 \<Rightarrow> 's \<Rightarrow> (u32 \<times> 's) option" where
  "group_free_blocks rd grp s =
     bdev_get (read_sb rd s) 0 (\<lambda>sb s.
       if s_group_count sb \<le> grp then Some (0, s)
       else bdev_get (rd (group_bmap_blk grp) s) 0 (\<lambda>bm s.
         Some (of_nat (length (filter (bit_is_free bm) [0..<unat (s_blocks_per_group sb)])), s)))"

section \<open>The inode bitmap\<close>

definition alloc_inode_bit ::
  "'s bdev_rd \<Rightarrow> 's bdev_wr \<Rightarrow> 's bdev_hook \<Rightarrow> 's \<Rightarrow> ((unfs_err \<times> u32) \<times> 's) option" where
  "alloc_inode_bit rd wr hook s =
     bdev_get (read_sb rd s) (UNFS_EIO, 0) (\<lambda>sb s.
       if UNFS_BITS_PER_BITMAP_BLOCK < s_inodes_per_group sb then Some ((UNFS_ENOTSUP, 0), s)
       else bdev_get (rd UNFS_GROUP0_IBMAP s) (UNFS_EIO, 0) (\<lambda>im s.
         case first_idx (bit_is_free im) (unat (s_inodes_per_group sb)) of
           None \<Rightarrow> Some ((UNFS_ENOSPC, 0), s)
         | Some b \<Rightarrow>
             (let im' = bit_set_used b im;
                  s = hook UNFS_GROUP0_IBMAP im im' s
              in bdev_put (wr UNFS_GROUP0_IBMAP im' s) (UNFS_EIO, 0) (\<lambda>s.
                let sb = (if 0 < s_free_inodes sb then set_free_inodes (s_free_inodes sb - 1) sb else sb)
                in bdev_put (write_sb rd wr sb s) (UNFS_EIO, 0) (\<lambda>s. Some ((UNFS_OK, of_nat b + 1), s))))))"

definition free_inode_bit ::
  "'s bdev_rd \<Rightarrow> 's bdev_wr \<Rightarrow> 's bdev_hook \<Rightarrow> u32 \<Rightarrow> 's \<Rightarrow> (unfs_err \<times> 's) option" where
  "free_inode_bit rd wr hook ino s =
     (if ino = 0 then Some (UNFS_EINVAL, s)
      else
        bdev_get (read_sb rd s) UNFS_EIO (\<lambda>sb s.
          if s_inodes_per_group sb \<le> ino - 1 then Some (UNFS_EINVAL, s)
          else bdev_get (rd UNFS_GROUP0_IBMAP s) UNFS_EIO (\<lambda>im s.
            let im' = bit_set_free (unat (ino - 1)) im;
                s = hook UNFS_GROUP0_IBMAP im im' s
            in bdev_put (wr UNFS_GROUP0_IBMAP im' s) UNFS_EIO (\<lambda>s.
              bdev_put (write_sb rd wr (set_free_inodes (s_free_inodes sb + 1) sb) s) UNFS_EIO
                (\<lambda>s. Some (UNFS_OK, s))))))"

section \<open>Fields of a superblock image\<close>

lemma length_sb [simp]:
  assumes "length sb = UNFS_BLOCK_SIZE"
  shows "length (set_free_blocks n sb) = UNFS_BLOCK_SIZE" "length (set_free_inodes m sb) = UNFS_BLOCK_SIZE"
    "length (set_checksum m sb) = UNFS_BLOCK_SIZE" "length (sealed sb) = UNFS_BLOCK_SIZE"
  using assms by (simp_all add: sb_updates sealed_def Let_def UNFS_BLOCK_SIZE_def)

lemma free_blocks_sel [simp]:
  assumes "length sb = UNFS_BLOCK_SIZE"
  shows "s_magic (set_free_blocks n sb) = s_magic sb" "s_free_blocks (set_free_blocks n sb) = n"
    "s_block_count (set_free_blocks n sb) = s_block_count sb"
    "s_blocks_per_group (set_free_blocks n sb) = s_blocks_per_group sb"
    "s_group_count (set_free_blocks n sb) = s_group_count sb"
    "s_inodes_per_group (set_free_blocks n sb) = s_inodes_per_group sb"
    "s_free_inodes (set_free_blocks n sb) = s_free_inodes sb"
  using assms by (simp_all add: sb_fields sb_updates get_put_other get_put_same UNFS_BLOCK_SIZE_def)

lemma checksum_sel [simp]:
  assumes "length sb = UNFS_BLOCK_SIZE"
  shows "s_magic (set_checksum n sb) = s_magic sb" "s_free_blocks (set_checksum n sb) = s_free_blocks sb"
    "s_block_count (set_checksum n sb) = s_block_count sb"
    "s_blocks_per_group (set_checksum n sb) = s_blocks_per_group sb"
    "s_group_count (set_checksum n sb) = s_group_count sb"
    "s_inodes_per_group (set_checksum n sb) = s_inodes_per_group sb"
    "s_free_inodes (set_checksum n sb) = s_free_inodes sb"
    "s_block_size (set_checksum n sb) = s_block_size sb" "s_inode_size (set_checksum n sb) = s_inode_size sb"
    "s_sb_checksum (set_checksum n sb) = n"
  using assms by (simp_all add: sb_fields sb_updates get_put_other get_put_same UNFS_BLOCK_SIZE_def)

lemma sealed_sel [simp]:
  assumes "length sb = UNFS_BLOCK_SIZE"
  shows "s_magic (sealed sb) = s_magic sb" "s_free_blocks (sealed sb) = s_free_blocks sb"
    "s_block_count (sealed sb) = s_block_count sb" "s_blocks_per_group (sealed sb) = s_blocks_per_group sb"
    "s_group_count (sealed sb) = s_group_count sb" "s_inodes_per_group (sealed sb) = s_inodes_per_group sb"
    "s_free_inodes (sealed sb) = s_free_inodes sb"
  using assms by (simp_all add: sealed_def Let_def)

lemma group_limit_cong:
  "s_group_count sb' = s_group_count sb \<Longrightarrow> s_block_count sb' = s_block_count sb \<Longrightarrow>
     s_blocks_per_group sb' = s_blocks_per_group sb \<Longrightarrow> group_limit sb' g = group_limit sb g"
  by (simp only: group_limit_def)

section \<open>The allocator over its interface\<close>

text \<open>The block device and the journal hooks.  A hook may change the journal's part of the state,
  not the blocks.\<close>

locale logged_io = block_io rd wr ok img
  for rd :: "u32 \<Rightarrow> 's \<Rightarrow> (u8 list option \<times> 's) option"
    and wr :: "u32 \<Rightarrow> u8 list \<Rightarrow> 's \<Rightarrow> (bool \<times> 's) option"
    and ok :: "'s \<Rightarrow> bool" and img :: "'s \<Rightarrow> u32 \<Rightarrow> u8 list option" +
  fixes hook :: "u32 \<Rightarrow> u8 list \<Rightarrow> u8 list \<Rightarrow> 's \<Rightarrow> 's"
  assumes hook_ok: "ok s \<Longrightarrow> ok (hook b x y s)" and hook_img: "ok s \<Longrightarrow> img (hook b x y s) = img s"
begin

lemma read_sb_ok:
  assumes "ok s" and "img s 0 = Some sb" and "s_magic sb = UNFS_MAGIC"
  obtains t where "read_sb rd s = Some (Some sb, t)" and "ok t" and "img t = img s"
proof -
  obtain t where t: "rd 0 s = Some (Some sb, t)" "ok t" "img t = img s" using rd_ok [OF assms(1,2)] by blast
  show ?thesis by (rule that [of t]) (use t assms(3) in \<open>simp_all add: read_sb_def\<close>)
qed

lemma write_sb_ok:
  assumes "ok s" and "img s 0 = Some x" and "length sb = UNFS_BLOCK_SIZE"
  obtains t where "write_sb rd wr sb s = Some (True, t)" and "ok t" and "img t = (img s)(0 \<mapsto> sealed sb)"
proof -
  obtain u where u: "rd 0 s = Some (Some x, u)" "ok u" "img u = img s" using rd_ok [OF assms(1,2)] by blast
  have "img u 0 \<noteq> None" using u(3) assms(2) by simp
  then obtain t where t: "wr 0 (sealed sb) u = Some (True, t)" "ok t" "img t = (img u)(0 \<mapsto> sealed sb)"
    using wr_ok [OF u(2) _ length_sb(4) [OF assms(3)]] by blast
  show ?thesis by (rule that [of t]) (use t u in \<open>simp_all add: write_sb_def\<close>)
qed

text \<open>The end that the four routines share: hook, bitmap write, superblock write.\<close>

lemma commit_bitmap:
  assumes "ok s" and "img s 0 = Some x" and "img s b = Some bm" and "length bm' = UNFS_BLOCK_SIZE"
    and "length sb = UNFS_BLOCK_SIZE"
  obtains t where "bdev_put (wr b bm' (hook b bm bm' s)) e (\<lambda>s. bdev_put (write_sb rd wr sb s) e (\<lambda>s. Some (r, s))) =
      Some (r, t)" and "ok t" and "img t = (img s)(b \<mapsto> bm', 0 \<mapsto> sealed sb)"
proof -
  let ?s = "hook b bm bm' s"
  have h: "ok ?s" "img ?s = img s" using hook_ok [OF assms(1)] hook_img [OF assms(1)] by simp_all
  have "img ?s b \<noteq> None" using h(2) assms(3) by simp
  then obtain u where u: "wr b bm' ?s = Some (True, u)" "ok u" "img u = (img s)(b \<mapsto> bm')"
    using wr_ok [OF h(1) _ assms(4)] h(2) by auto
  have "img u 0 \<noteq> None" using u(3) assms(2) by simp
  then obtain y where y: "img u 0 = Some y" by blast
  obtain t where t: "write_sb rd wr sb u = Some (True, t)" "ok t" "img t = (img u)(0 \<mapsto> sealed sb)"
    by (rule write_sb_ok [OF u(2) y assms(5)])
  show ?thesis by (rule that [of t]) (use t u in simp_all)
qed

text \<open>The image after \<open>want\<close> bits from \<open>start\<close> on have been claimed in the bitmap \<open>bm\<close>.\<close>

lemma alloc_groups_hit:
  assumes "ok s" and "img s 0 = Some x" and "length sb = UNFS_BLOCK_SIZE" and "j < n"
    and skip: "\<And>i. i < j \<Longrightarrow> \<exists>bm. img s (group_bmap_blk (g + of_nat i)) = Some bm \<and>
        find_run bm (group_limit sb (g + of_nat i)) want = None"
    and hit: "img s (group_bmap_blk (g + of_nat j)) = Some bm"
      "find_run bm (group_limit sb (g + of_nat j)) want = Some start"
    and len: "length (claim_bits start (unat want) bm) = UNFS_BLOCK_SIZE"
  shows "\<exists>t. alloc_groups rd wr hook sb want out n g s =
      Some ((UNFS_OK, \<lparr>first_blk = group_first_data_blk (g + of_nat j) + of_nat start, run_count = want,
               run_group = g + of_nat j\<rparr>), t) \<and> ok t \<and>
      img t = (img s)(group_bmap_blk (g + of_nat j) \<mapsto> claim_bits start (unat want) bm,
                      0 \<mapsto> sealed (set_free_blocks (taken_from want sb) sb))"
  using assms(1,2,4) skip hit
proof (induction n arbitrary: j g s)
  case (Suc n)
  show ?case
  proof (cases j)
    case 0
    with Suc.prems(5,6) have b: "img s (group_bmap_blk g) = Some bm" "find_run bm (group_limit sb g) want = Some start"
      by simp_all
    obtain u where u: "rd (group_bmap_blk g) s = Some (Some bm, u)" "ok u" "img u = img s"
      using rd_ok [OF Suc.prems(1) b(1)] by blast
    have ix: "img u 0 = Some x" "img u (group_bmap_blk g) = Some bm" using u(3) Suc.prems(2) b(1) by simp_all
    let ?r = "(UNFS_OK, \<lparr>first_blk = group_first_data_blk g + of_nat start, run_count = want, run_group = g\<rparr>)"
    obtain t where "bdev_put (wr (group_bmap_blk g) (claim_bits start (unat want) bm)
          (hook (group_bmap_blk g) bm (claim_bits start (unat want) bm) u)) (UNFS_EIO, out)
          (\<lambda>s. bdev_put (write_sb rd wr (set_free_blocks (taken_from want sb) sb) s) (UNFS_EIO, out)
            (\<lambda>s. Some (?r, s))) = Some (?r, t)" and t: "ok t" "img t = (img u)(group_bmap_blk g \<mapsto> claim_bits start (unat want) bm,
                      0 \<mapsto> sealed (set_free_blocks (taken_from want sb) sb))"
      by (rule commit_bitmap [OF u(2) ix len length_sb(1) [OF assms(3)]])
    then have "alloc_groups rd wr hook sb want out (Suc n) g s = Some (?r, t)"
      using u(1) b(2) by (simp add: Let_def)
    moreover have "g + of_nat j = g" using 0 by simp
    ultimately show ?thesis unfolding t(2) u(3) [symmetric] using t by (auto simp only:)
  next
    case (Suc i)
    obtain bm0 where b: "img s (group_bmap_blk g) = Some bm0" "find_run bm0 (group_limit sb g) want = None"
      using Suc.prems(4) [of 0] Suc by auto
    obtain u where u: "rd (group_bmap_blk g) s = Some (Some bm0, u)" "ok u" "img u = img s"
      using rd_ok [OF Suc.prems(1) b(1)] by blast
    have gj: "g + of_nat j = (g + 1) + of_nat i" using Suc by simp
    have "\<exists>t. alloc_groups rd wr hook sb want out n (g + 1) u =
        Some ((UNFS_OK, \<lparr>first_blk = group_first_data_blk (g + of_nat j) + of_nat start, run_count = want,
               run_group = g + of_nat j\<rparr>), t) \<and> ok t \<and>
        img t = (img u)(group_bmap_blk (g + of_nat j) \<mapsto> claim_bits start (unat want) bm,
                        0 \<mapsto> sealed (set_free_blocks (taken_from want sb) sb))"
      unfolding gj
    proof (rule Suc.IH)
      show "\<exists>bm. img u (group_bmap_blk (g + 1 + of_nat k)) = Some bm \<and>
          find_run bm (group_limit sb (g + 1 + of_nat k)) want = None" if "k < i" for k
        using Suc.prems(4) [of "Suc k"] that Suc u(3) by (simp add: add.assoc)
    qed (use Suc.prems Suc u(2,3) gj in \<open>simp_all add: add.assoc\<close>)
    moreover have "alloc_groups rd wr hook sb want out (Suc n) g s = alloc_groups rd wr hook sb want out n (g + 1) u"
      using u(1) b(2) by (simp add: Let_def)
    ultimately show ?thesis by (simp only: u(3))
  qed
qed simp

lemma alloc_groups_miss:
  assumes "ok s"
    and "\<And>i. i < n \<Longrightarrow> \<exists>bm. img s (group_bmap_blk (g + of_nat i)) = Some bm \<and>
        find_run bm (group_limit sb (g + of_nat i)) want = None"
  shows "\<exists>t. alloc_groups rd wr hook sb want out n g s = Some ((UNFS_ENOSPC, out), t) \<and> ok t \<and> img t = img s"
  using assms
proof (induction n arbitrary: g s)
  case (Suc n)
  obtain bm0 where b: "img s (group_bmap_blk g) = Some bm0" "find_run bm0 (group_limit sb g) want = None"
    using Suc.prems(2) [of 0] by auto
  obtain u where u: "rd (group_bmap_blk g) s = Some (Some bm0, u)" "ok u" "img u = img s"
    using rd_ok [OF Suc.prems(1) b(1)] by blast
  have "\<exists>t. alloc_groups rd wr hook sb want out n (g + 1) u = Some ((UNFS_ENOSPC, out), t) \<and> ok t \<and> img t = img u"
  proof (rule Suc.IH [OF u(2)])
    show "\<exists>bm. img u (group_bmap_blk (g + 1 + of_nat k)) = Some bm \<and>
        find_run bm (group_limit sb (g + 1 + of_nat k)) want = None" if "k < n" for k
      using Suc.prems(2) [of "Suc k"] that u(3) by (simp add: add.assoc)
  qed
  then show ?case using u b(2) by (simp add: Let_def)
qed simp

end

section \<open>Over the block cache and the journal\<close>

record 'm fs_state =
  fs_cache :: "'m bcache"
  fs_jrnl :: jr_state

definition fs_read :: "u32 \<Rightarrow> 'm fs_state bdev_rd" where
  "fs_read dv blk s =
     (case unfs_bdev_read dv blk (fs_cache s) of
        None \<Rightarrow> None | Some (r, c) \<Rightarrow> Some (r, s\<lparr>fs_cache := c\<rparr>))"

definition fs_write :: "u32 \<Rightarrow> 'm fs_state bdev_wr" where
  "fs_write dv blk buf s =
     (case unfs_bdev_write dv blk buf (fs_cache s) of
        None \<Rightarrow> None | Some (r, c) \<Rightarrow> Some (r, s\<lparr>fs_cache := c\<rparr>))"

text \<open>\<open>if (jr) { uiox_jr_vfs_get_write_access (\<dots>); uiox_jr_vfs_dirty_metadata (\<dots>); }\<close>\<close>

definition fs_hook :: "u64 \<Rightarrow> u32 \<Rightarrow> 'm fs_state bdev_hook" where
  "fs_hook now dv blk pre post s =
     (case jr_ctx_for (ucast dv) (fs_jrnl s) of
        None \<Rightarrow> s
      | Some c \<Rightarrow> s\<lparr>fs_jrnl := snd (jr_vfs_dirty_metadata now (Some c) (ucast blk) post
                                (snd (jr_vfs_get_write_access now (Some c) (ucast blk) pre (fs_jrnl s))))\<rparr>)"

definition unfs_alloc_run :: "u64 \<Rightarrow> u32 \<Rightarrow> u32 \<Rightarrow> unfs_run \<Rightarrow> 'm fs_state \<Rightarrow> ((unfs_err \<times> unfs_run) \<times> 'm fs_state) option" where
  "unfs_alloc_run now dv = alloc_run (fs_read dv) (fs_write dv) (fs_hook now dv)"

definition unfs_alloc_block :: "u64 \<Rightarrow> u32 \<Rightarrow> 'm fs_state \<Rightarrow> (u32 \<times> 'm fs_state) option" where
  "unfs_alloc_block now dv = alloc_block (fs_read dv) (fs_write dv) (fs_hook now dv)"

definition unfs_free_run :: "u64 \<Rightarrow> u32 \<Rightarrow> u32 \<Rightarrow> u32 \<Rightarrow> 'm fs_state \<Rightarrow> (unfs_err \<times> 'm fs_state) option" where
  "unfs_free_run now dv = free_run (fs_read dv) (fs_write dv) (fs_hook now dv)"

definition unfs_alloc_inode_bit :: "u64 \<Rightarrow> u32 \<Rightarrow> 'm fs_state \<Rightarrow> ((unfs_err \<times> u32) \<times> 'm fs_state) option" where
  "unfs_alloc_inode_bit now dv = alloc_inode_bit (fs_read dv) (fs_write dv) (fs_hook now dv)"

definition unfs_free_inode_bit :: "u64 \<Rightarrow> u32 \<Rightarrow> u32 \<Rightarrow> 'm fs_state \<Rightarrow> (unfs_err \<times> 'm fs_state) option" where
  "unfs_free_inode_bit now dv = free_inode_bit (fs_read dv) (fs_write dv) (fs_hook now dv)"

text \<open>The whole state is in order when the cache is; its blocks are the resident ones.\<close>

interpretation fs: logged_io "fs_read dv" "fs_write dv" "io_ok \<circ> fs_cache" "block_img (ucast dv) \<circ> fs_cache"
  "fs_hook now dv" for now dv
proof unfold_locales
  fix s :: "'a fs_state" and b xs
  assume ok: "(io_ok \<circ> fs_cache) s"
  { assume "(block_img (ucast dv) \<circ> fs_cache) s b = Some xs"
    then obtain c where "unfs_bdev_read dv b (fs_cache s) = Some (Some xs, c)" "io_ok c"
      "block_img (ucast dv) c = block_img (ucast dv) (fs_cache s)"
      using unfs.rd_ok [of "fs_cache s" dv b xs] ok by auto
    then show "\<exists>t. fs_read dv b s = Some (Some xs, t) \<and> (io_ok \<circ> fs_cache) t \<and>
        (block_img (ucast dv) \<circ> fs_cache) t = (block_img (ucast dv) \<circ> fs_cache) s"
      by (simp add: fs_read_def)
  next
    assume "(block_img (ucast dv) \<circ> fs_cache) s b = Some xs"
    then show "length xs = UNFS_BLOCK_SIZE" using unfs.img_len [of "fs_cache s" dv b xs] ok by simp }
  { fix ys :: "u8 list"
    assume "(block_img (ucast dv) \<circ> fs_cache) s b \<noteq> None" "length ys = UNFS_BLOCK_SIZE"
    then obtain c where "unfs_bdev_write dv b ys (fs_cache s) = Some (True, c)" "io_ok c"
      "block_img (ucast dv) c = (block_img (ucast dv) (fs_cache s))(b \<mapsto> ys)"
      using unfs.wr_ok [of "fs_cache s" dv b ys] ok by auto
    then show "\<exists>t. fs_write dv b ys s = Some (True, t) \<and> (io_ok \<circ> fs_cache) t \<and>
        (block_img (ucast dv) \<circ> fs_cache) t = ((block_img (ucast dv) \<circ> fs_cache) s)(b \<mapsto> ys)"
      by (simp add: fs_write_def) }
  fix x y :: "u8 list"
  have "fs_cache (fs_hook now dv b x y s) = fs_cache s" by (simp add: fs_hook_def split: option.split)
  with ok show "(io_ok \<circ> fs_cache) (fs_hook now dv b x y s)"
    "(block_img (ucast dv) \<circ> fs_cache) (fs_hook now dv b x y s) = (block_img (ucast dv) \<circ> fs_cache) s"
    by simp_all
qed

end
