(* ===== verification/UnfsProps.thy ===== *)
theory UnfsProps
  imports UnfsAlloc
begin

text \<open>
  What the UNFS allocator guarantees: first fit, the agreement of the free counter with the bitmap
  under any sequence of allocations and releases of held blocks, and what a double release does.
\<close>

section \<open>First fit\<close>

lemma bit_is_free_bit: "bit_is_free bm b \<longleftrightarrow> bit (bm ! (b div 8)) (b mod 8)"
proof -
  have "b mod 8 < 8" by simp
  then show ?thesis
    by (simp add: bit_is_free_def push_bit_eq_mult and_exp_eq_0_iff_not_bit)
qed

text \<open>The scan keeps a run of free bits that ends where it stands; every start before that run is
  ruled out already.\<close>

lemma find_run_from_spec:
  assumes "0 < want" and "run \<le> b" and "run < want" and "0 < run \<Longrightarrow> rs = b - run"
    and "\<And>k. k < run \<Longrightarrow> bit_is_free bm (b - run + k)"
    and "\<And>st. st < b - run \<Longrightarrow> \<exists>k<want. \<not> bit_is_free bm (st + k)"
  shows "case find_run_from bm want n b run rs of
      None \<Rightarrow> \<forall>st. st + want \<le> b + n \<longrightarrow> (\<exists>k<want. \<not> bit_is_free bm (st + k))
    | Some st \<Rightarrow> st + want \<le> b + n \<and> (\<forall>k<want. bit_is_free bm (st + k)) \<and>
        (\<forall>st' < st. \<exists>k<want. \<not> bit_is_free bm (st' + k))"
  using assms
proof (induction n arbitrary: b run rs)
  case 0
  have "\<exists>k<want. \<not> bit_is_free bm (st + k)" if "st + want \<le> b" for st
    using that 0(3,6) by simp
  then show ?case by simp
next
  case (Suc n)
  show ?case
  proof (cases "bit_is_free bm b")
    case True
    let ?rs = "if run = 0 then b else rs"
    have rs: "?rs = b - run" using Suc.prems(2,4) by auto
    have fr: "bit_is_free bm (b - run + k)" if "k < Suc run" for k
      using that Suc.prems(2,5) True by (cases "k = run") auto
    show ?thesis
    proof (cases "want \<le> Suc run")
      case True
      then have w: "want = Suc run" using Suc.prems(3) by simp
      then have "find_run_from bm want (Suc n) b run rs = Some (b - run)"
        using \<open>bit_is_free bm b\<close> rs by (simp add: Let_def)
      moreover have "\<forall>k<want. bit_is_free bm (b - run + k)" using fr w by blast
      moreover have "b - run + want \<le> b + Suc n" using Suc.prems(2) w by simp
      ultimately show ?thesis using Suc.prems(6) by simp
    next
      case False
      have "find_run_from bm want (Suc n) b run rs = find_run_from bm want n (b + 1) (Suc run) ?rs"
        using \<open>bit_is_free bm b\<close> False by (simp add: Let_def)
      moreover have "b + 1 - Suc run = b - run" using Suc.prems(2) by simp
      ultimately show ?thesis
        using Suc.IH [of "Suc run" "b + 1" ?rs] Suc.prems(1,2,6) False rs fr
        by (simp del: find_run_from.simps split: option.splits)
    qed
  next
    case False
    have "find_run_from bm want (Suc n) b run rs = find_run_from bm want n (b + 1) 0 rs"
      using False by simp
    moreover have "\<exists>k<want. \<not> bit_is_free bm (st + k)" if "st < b + 1" for st
    proof (cases "st < b - run")
      case True
      then show ?thesis by (rule Suc.prems(6))
    next
      case c: False
      then have "b - st < want" "st + (b - st) = b" using that Suc.prems(2,3) by linarith+
      with False show ?thesis by metis
    qed
    ultimately show ?thesis using Suc.IH [of 0 "b + 1" rs] Suc.prems(1)
      by (simp del: find_run_from.simps split: option.splits)
  qed
qed

lemma find_run_Some:
  assumes "find_run bm limit want = Some st" and "want \<noteq> 0"
  shows "st + unat want \<le> unat limit" and "k < unat want \<Longrightarrow> bit_is_free bm (st + k)"
    and "st' < st \<Longrightarrow> \<exists>k<unat want. \<not> bit_is_free bm (st' + k)"
  using find_run_from_spec [of "unat want" 0 0 0 bm "unat limit"] assms
  by (simp_all add: find_run_def unat_gt_0)

lemma find_run_None:
  assumes "find_run bm limit want = None" and "want \<noteq> 0" and "st + unat want \<le> unat limit"
  shows "\<exists>k<unat want. \<not> bit_is_free bm (st + k)"
  using find_run_from_spec [of "unat want" 0 0 0 bm "unat limit"] assms
  by (simp add: find_run_def unat_gt_0)

section \<open>Bits claimed and released\<close>

lemma bit_set_used_free:
  assumes "b div 8 < length bm"
  shows "bit_is_free (bit_set_used b bm) c \<longleftrightarrow> c \<noteq> b \<and> bit_is_free bm c"
proof (cases "c div 8 = b div 8")
  case True
  then have "c = b \<longleftrightarrow> c mod 8 = b mod 8" by (metis mod_mult_div_eq)
  with True assms show ?thesis
    by (auto simp: bit_is_free_bit bit_set_used_def bit_simps bit_push_bit_iff bit_1_iff)
next
  case False
  then show ?thesis by (auto simp: bit_is_free_bit bit_set_used_def)
qed

lemma bit_set_free_free:
  assumes "b div 8 < length bm"
  shows "bit_is_free (bit_set_free b bm) c \<longleftrightarrow> c = b \<or> bit_is_free bm c"
proof (cases "c div 8 = b div 8")
  case True
  then have "c = b \<longleftrightarrow> c mod 8 = b mod 8" by (metis mod_mult_div_eq)
  with True assms show ?thesis
    by (auto simp: bit_is_free_bit bit_set_free_def bit_simps bit_push_bit_iff bit_1_iff)
next
  case False
  then show ?thesis by (auto simp: bit_is_free_bit bit_set_free_def)
qed

lemma length_claim [simp]: "length (claim_bits st n bm) = length bm" "length (release_bits st n bm) = length bm"
proof -
  have "length (fold (\<lambda>k. bit_set_used (st + k)) ks bm) = length bm" for ks
    by (induction ks arbitrary: bm) (simp_all add: bit_set_used_def)
  moreover have "length (fold (\<lambda>k. bit_set_free (st + k)) ks bm) = length bm" for ks
    by (induction ks arbitrary: bm) (simp_all add: bit_set_free_def)
  ultimately show "length (claim_bits st n bm) = length bm" "length (release_bits st n bm) = length bm"
    by (simp_all add: claim_bits_def release_bits_def)
qed

lemma claim_bits_free:
  assumes "st + n \<le> 8 * length bm"
  shows "bit_is_free (claim_bits st n bm) c \<longleftrightarrow> bit_is_free bm c \<and> \<not> (st \<le> c \<and> c < st + n)"
  using assms
proof (induction n)
  case (Suc n)
  have "claim_bits st (Suc n) bm = bit_set_used (st + n) (claim_bits st n bm)" by (simp add: claim_bits_def)
  moreover have "(st + n) div 8 < length (claim_bits st n bm)" using Suc.prems by simp
  ultimately show ?case using Suc by (auto simp: bit_set_used_free)
qed (simp add: claim_bits_def)

lemma release_bits_free:
  assumes "st + n \<le> 8 * length bm"
  shows "bit_is_free (release_bits st n bm) c \<longleftrightarrow> bit_is_free bm c \<or> (st \<le> c \<and> c < st + n)"
  using assms
proof (induction n)
  case (Suc n)
  have "release_bits st (Suc n) bm = bit_set_free (st + n) (release_bits st n bm)" by (simp add: release_bits_def)
  moreover have "(st + n) div 8 < length (release_bits st n bm)" using Suc.prems by simp
  ultimately show ?case using Suc by (auto simp: bit_set_free_free)
qed (auto simp: release_bits_def)

section \<open>A volume of one group\<close>

text \<open>What \<open>mkfs\<close> makes of a device of up to 32 MiB: one group whose bitmap is in block 259 and
  describes the blocks from 526 on.\<close>

abbreviation vol_img :: "u32 \<Rightarrow> 'm fs_state \<Rightarrow> u32 \<Rightarrow> u8 list option" where
  "vol_img dv s \<equiv> block_img (ucast dv) (fs_cache s)"

definition vol_ok :: "(u32 \<Rightarrow> u8 list option) \<Rightarrow> u8 list \<Rightarrow> u8 list \<Rightarrow> bool" where
  "vol_ok I sb bm \<longleftrightarrow> I 0 = Some sb \<and> I UNFS_GROUP0_BBMAP = Some bm \<and>
     length sb = UNFS_BLOCK_SIZE \<and> length bm = UNFS_BLOCK_SIZE \<and> s_magic sb = UNFS_MAGIC \<and>
     s_group_count sb = 1 \<and> s_blocks_per_group sb \<le> UNFS_BITS_PER_BITMAP_BLOCK \<and>
     526 \<le> unat (s_block_count sb) \<and> unat (s_block_count sb) < 2 ^ 32"

text \<open>The blocks that the bitmap says are free.\<close>

definition free_blks :: "u8 list \<Rightarrow> u8 list \<Rightarrow> nat set" where
  "free_blks sb bm = (\<lambda>b. 526 + b) ` {b. b < unat (group_limit sb 0) \<and> bit_is_free bm b}"

lemma in_free_blks:
  "x \<in> free_blks sb bm \<longleftrightarrow> 526 \<le> x \<and> x - 526 < unat (group_limit sb 0) \<and> bit_is_free bm (x - 526)"
  by (auto simp: free_blks_def image_iff)

lemma free_blks_eqI:
  assumes "\<And>b. b < unat (group_limit sb 0) \<and> bit_is_free bm b \<longleftrightarrow> 526 + b \<in> A" and "\<And>x. x \<in> A \<Longrightarrow> 526 \<le> x"
  shows "free_blks sb bm = A"
proof -
  have "x \<in> free_blks sb bm \<longleftrightarrow> x \<in> A" for x
  proof (cases "526 \<le> x")
    case True
    then obtain b where "x = 526 + b" using le_Suc_ex by blast
    with assms(1) [of b] show ?thesis by (simp add: in_free_blks)
  next
    case False
    with assms(2) [of x] show ?thesis by (auto simp: in_free_blks)
  qed
  then show ?thesis by blast
qed

lemma finite_free_blks [simp]: "finite (free_blks sb bm)"
  by (simp add: free_blks_def)

lemma vol_okD:
  assumes "vol_ok I sb bm"
  shows "I 0 = Some sb" "I UNFS_GROUP0_BBMAP = Some bm" "length sb = UNFS_BLOCK_SIZE"
    "length bm = UNFS_BLOCK_SIZE" "s_magic sb = UNFS_MAGIC" "s_group_count sb = 1"
    "s_blocks_per_group sb \<le> UNFS_BITS_PER_BITMAP_BLOCK"
    "unat (s_blocks_per_group sb) \<le> 32768" "526 \<le> unat (s_block_count sb)" "unat (s_block_count sb) < 2 ^ 32"
  using assms by (auto simp: vol_ok_def UNFS_BITS_PER_BITMAP_BLOCK_def word_le_nat_alt)

lemma group0_limit:
  assumes "vol_ok I sb bm"
  shows "unat (group_limit sb 0) = min (unat (s_blocks_per_group sb)) (unat (s_block_count sb) - 526)"
proof -
  note v = vol_okD [OF assms]
  have c: "unat (ucast (s_block_count sb) :: u32) = unat (s_block_count sb)"
    using v(10) by (simp add: unsigned_ucast_eq take_bit_nat_eq_self)
  have u: "unat ((526 :: u32) + s_blocks_per_group sb) = 526 + unat (s_blocks_per_group sb)"
    using v(8) by (subst unat_add_lem [THEN iffD1]) simp_all
  show ?thesis
    using v(9) c u v(6)
    by (auto simp: group_limit_def Let_def group_first_data_blk_def UNFS_GROUP0_DATA_START_def
        word_less_nat_alt word_le_nat_alt unat_sub)
qed

lemma limit_bits: "vol_ok I sb bm \<Longrightarrow> unat (group_limit sb 0) \<le> 8 * length bm"
  using group0_limit [of I sb bm] vol_okD(4,8) [of I sb bm] by (simp add: UNFS_BLOCK_SIZE_def)

lemma first_block:
  assumes "vol_ok I sb bm" and "st \<le> unat (group_limit sb 0)"
  shows "unat ((526 :: u32) + of_nat st) = 526 + st"
proof -
  have "st < 2 ^ 16" using limit_bits [OF assms(1)] assms(2) vol_okD(4) [OF assms(1)] by (simp add: UNFS_BLOCK_SIZE_def)
  then have "unat (of_nat st :: u32) = st" by (simp add: unsigned_of_nat take_bit_nat_eq_self)
  with \<open>st < 2 ^ 16\<close> show ?thesis by (subst unat_add_lem [THEN iffD1]) simp_all
qed

lemma fs_len: "io_ok (fs_cache s) \<Longrightarrow> vol_img dv s b = Some xs \<Longrightarrow> length xs = UNFS_BLOCK_SIZE"
  using fs.img_len [of s dv b xs] by simp

text \<open>The calls on such a volume.\<close>

definition zero_run :: unfs_run where "zero_run = \<lparr>first_blk = 0, run_count = 0, run_group = 0\<rparr>"

lemma alloc_one:
  assumes ok: "io_ok (fs_cache s)" and vol: "vol_ok (vol_img dv s) sb bm" and want: "want \<noteq> 0"
  shows "\<exists>t. io_ok (fs_cache t) \<and> (case find_run bm (group_limit sb 0) want of
      None \<Rightarrow> unfs_alloc_run now dv want out s = Some ((UNFS_ENOSPC, zero_run), t) \<and> vol_img dv t = vol_img dv s
    | Some st \<Rightarrow> unfs_alloc_run now dv want out s =
          Some ((UNFS_OK, \<lparr>first_blk = 526 + of_nat st, run_count = want, run_group = 0\<rparr>), t) \<and>
        vol_img dv t = (vol_img dv s)(UNFS_GROUP0_BBMAP \<mapsto> claim_bits st (unat want) bm,
          0 \<mapsto> sealed (set_free_blocks (taken_from want sb) sb)))"
proof -
  note v = vol_okD [OF vol]
  obtain u where u: "read_sb (fs_read dv) s = Some (Some sb, u)" "io_ok (fs_cache u)" "vol_img dv u = vol_img dv s"
    using fs.read_sb_ok [of s dv sb] ok v(1,5) by auto
  have nb: "\<not> UNFS_BITS_PER_BITMAP_BLOCK < s_blocks_per_group sb" using v(7) by (simp only: not_less)
  have run: "unfs_alloc_run now dv want out s =
      alloc_groups (fs_read dv) (fs_write dv) (fs_hook now dv) sb want zero_run 1 0 u"
    using want u(1) v(6) nb by (simp add: unfs_alloc_run_def alloc_run_def zero_run_def Let_def del: alloc_groups.simps)
  have g: "group_bmap_blk 0 = UNFS_GROUP0_BBMAP" "group_first_data_blk 0 = 526"
    by (simp_all add: group_bmap_blk_def group_first_data_blk_def UNFS_GROUP0_DATA_START_def)
  show ?thesis
  proof (cases "find_run bm (group_limit sb 0) want")
    case None
    have "\<exists>t. alloc_groups (fs_read dv) (fs_write dv) (fs_hook now dv) sb want zero_run 1 0 u =
        Some ((UNFS_ENOSPC, zero_run), t) \<and> (io_ok \<circ> fs_cache) t \<and>
        (block_img (ucast dv) \<circ> fs_cache) t = (block_img (ucast dv) \<circ> fs_cache) u"
      by (rule fs.alloc_groups_miss) (use u v None g in simp_all)
    with run u None show ?thesis by auto
  next
    case (Some st)
    have "\<exists>t. alloc_groups (fs_read dv) (fs_write dv) (fs_hook now dv) sb want zero_run 1 0 u =
      Some ((UNFS_OK, \<lparr>first_blk = group_first_data_blk (0 + of_nat 0) + of_nat st, run_count = want,
               run_group = 0 + of_nat 0\<rparr>), t) \<and> (io_ok \<circ> fs_cache) t \<and>
      (block_img (ucast dv) \<circ> fs_cache) t = ((block_img (ucast dv) \<circ> fs_cache) u)
        (group_bmap_blk (0 + of_nat 0) \<mapsto> claim_bits st (unat want) bm, 0 \<mapsto> sealed (set_free_blocks (taken_from want sb) sb))"
      by (rule fs.alloc_groups_hit) (use u v Some g in simp_all)
    then obtain t where "alloc_groups (fs_read dv) (fs_write dv) (fs_hook now dv) sb want zero_run 1 0 u =
        Some ((UNFS_OK, \<lparr>first_blk = 526 + of_nat st, run_count = want, run_group = 0\<rparr>), t)" "io_ok (fs_cache t)"
      "vol_img dv t = (vol_img dv u)(UNFS_GROUP0_BBMAP \<mapsto> claim_bits st (unat want) bm,
          0 \<mapsto> sealed (set_free_blocks (taken_from want sb) sb))"
      unfolding comp_def by (auto simp del: fun_upd_apply simp: g)
    with Some show ?thesis unfolding run u(3) by auto
  qed
qed

lemma free_one:
  assumes ok: "io_ok (fs_cache s)" and vol: "vol_ok (vol_img dv s) sb bm" and count: "count \<noteq> 0"
    and lo: "526 \<le> unat b" and hi: "unat b - 526 + unat count \<le> unat (s_blocks_per_group sb)"
  shows "\<exists>t. unfs_free_run now dv b count s = Some (UNFS_OK, t) \<and> io_ok (fs_cache t) \<and>
    vol_img dv t = (vol_img dv s)(UNFS_GROUP0_BBMAP \<mapsto> release_bits (unat b - 526) (unat count) bm,
      0 \<mapsto> sealed (set_free_blocks (s_free_blocks sb + ucast count) sb))"
proof -
  note v = vol_okD [OF vol]
  have g: "group_bmap_blk 0 = UNFS_GROUP0_BBMAP" "group_first_data_blk 0 = 526"
    by (simp_all add: group_bmap_blk_def group_first_data_blk_def UNFS_GROUP0_DATA_START_def)
  have c0: "0 < unat count" using count by (simp add: unat_gt_0)
  have "unat ((526 :: u32) + s_blocks_per_group sb) = 526 + unat (s_blocks_per_group sb)"
    using v(8) by (subst unat_add_lem [THEN iffD1]) simp_all
  then have own: "owning_group sb b = Some 0"
    using v(6) lo hi c0 by (simp add: owning_group_def first_idx_def g word_le_nat_alt word_less_nat_alt)
  have st: "unat (b - 526) = unat b - 526" using lo by (simp add: unat_sub word_le_nat_alt)
  have n: "min (unat count) (unat (s_blocks_per_group sb) - (unat b - 526)) = unat count" using hi by simp
  obtain u where u: "read_sb (fs_read dv) s = Some (Some sb, u)" "io_ok (fs_cache u)" "vol_img dv u = vol_img dv s"
    using fs.read_sb_ok [of s dv sb] ok v(1,5) by auto
  obtain w where w: "fs_read dv UNFS_GROUP0_BBMAP u = Some (Some bm, w)" "io_ok (fs_cache w)" "vol_img dv w = vol_img dv u"
    using fs.rd_ok [of u dv UNFS_GROUP0_BBMAP bm] u(2,3) v(2) by auto
  let ?bm = "release_bits (unat b - 526) (unat count) bm" and ?sb = "set_free_blocks (s_free_blocks sb + ucast count) sb"
  have "(io_ok \<circ> fs_cache) w" "(block_img (ucast dv) \<circ> fs_cache) w 0 = Some sb"
    "(block_img (ucast dv) \<circ> fs_cache) w UNFS_GROUP0_BBMAP = Some bm"
    using w(2,3) u(3) v(1,2) by simp_all
  then obtain t where t: "bdev_put (fs_write dv UNFS_GROUP0_BBMAP ?bm (fs_hook now dv UNFS_GROUP0_BBMAP bm ?bm w)) UNFS_EIO
      (\<lambda>s. bdev_put (write_sb (fs_read dv) (fs_write dv) ?sb s) UNFS_EIO (\<lambda>s. Some (UNFS_OK, s))) = Some (UNFS_OK, t)"
    "io_ok (fs_cache t)" "vol_img dv t = (vol_img dv w)(UNFS_GROUP0_BBMAP \<mapsto> ?bm, 0 \<mapsto> sealed ?sb)"
    unfolding comp_def
    by (rule fs.commit_bitmap [of w dv sb UNFS_GROUP0_BBMAP bm ?bm ?sb now UNFS_EIO UNFS_OK, unfolded comp_def])
      (use v(3,4) in simp_all)
  have "unfs_free_run now dv b count s = Some (UNFS_OK, t)"
    using count u(1) own w(1) t(1) by (simp add: unfs_free_run_def free_run_def Let_def g st n)
  with t(2,3) w(3) u(3) show ?thesis by (simp only:) blast
qed

section \<open>Allocation and release keep the books\<close>

lemma unat_widened: "unat (ucast (w :: u32) :: u64) = unat w"
proof -
  have "unat w < 2 ^ 64" by (rule less_trans [OF unsigned_less]) simp
  then show ?thesis by (simp add: unsigned_ucast_eq take_bit_nat_eq_self)
qed

lemma vol_commit:
  assumes "vol_ok I sb bm" and "length bm' = UNFS_BLOCK_SIZE" and "I' = I(UNFS_GROUP0_BBMAP \<mapsto> bm', 0 \<mapsto> sealed (set_free_blocks n sb))"
  shows "vol_ok I' (sealed (set_free_blocks n sb)) bm'"
    and "group_limit (sealed (set_free_blocks n sb)) g = group_limit sb g"
    and "s_free_blocks (sealed (set_free_blocks n sb)) = n"
proof -
  note v = vol_okD [OF assms(1)]
  show "group_limit (sealed (set_free_blocks n sb)) g = group_limit sb g"
    by (rule group_limit_cong) (simp_all add: v(3))
  show "s_free_blocks (sealed (set_free_blocks n sb)) = n" by (simp add: v(3))
  show "vol_ok I' (sealed (set_free_blocks n sb)) bm'"
    using v assms(2) by (simp add: vol_ok_def assms(3) UNFS_GROUP0_BBMAP_def)
qed

abbreviation blk_run :: "u32 \<Rightarrow> u32 \<Rightarrow> nat list" where
  "blk_run b n \<equiv> [unat b..<unat b + unat n]"

lemma alloc_books:
  assumes ok: "io_ok (fs_cache s)" and vol: "vol_ok (vol_img dv s) sb bm"
    and fr: "unat (s_free_blocks sb) = card (free_blks sb bm)" and want: "want \<noteq> 0"
    and find: "find_run bm (group_limit sb 0) want = Some st"
  obtains t sb' bm' where "unfs_alloc_run now dv want out s =
      Some ((UNFS_OK, \<lparr>first_blk = 526 + of_nat st, run_count = want, run_group = 0\<rparr>), t)"
    and "io_ok (fs_cache t)" and "vol_ok (vol_img dv t) sb' bm'"
    and "set (blk_run (526 + of_nat st) want) \<subseteq> free_blks sb bm"
    and "free_blks sb' bm' = free_blks sb bm - set (blk_run (526 + of_nat st) want)"
    and "unat (s_free_blocks sb') = card (free_blks sb' bm')" and "group_limit sb' 0 = group_limit sb 0"
proof -
  let ?sb = "sealed (set_free_blocks (taken_from want sb) sb)" and ?bm = "claim_bits st (unat want) bm"
  obtain t where t: "unfs_alloc_run now dv want out s =
      Some ((UNFS_OK, \<lparr>first_blk = 526 + of_nat st, run_count = want, run_group = 0\<rparr>), t)" "io_ok (fs_cache t)"
    "vol_img dv t = (vol_img dv s)(UNFS_GROUP0_BBMAP \<mapsto> ?bm, 0 \<mapsto> ?sb)"
    using alloc_one [OF ok vol want, of now out] find by auto
  note F = find_run_Some [OF find want]
  have st: "unat ((526 :: u32) + of_nat st) = 526 + st" by (rule first_block [OF vol]) (use F(1) in simp)
  note V = vol_commit [OF vol _ t(3)]
  have bits: "bit_is_free ?bm c \<longleftrightarrow> bit_is_free bm c \<and> \<not> (st \<le> c \<and> c < st + unat want)" for c
    by (rule claim_bits_free) (use F(1) limit_bits [OF vol] in simp)
  have sub: "set (blk_run (526 + of_nat st) want) \<subseteq> free_blks sb bm"
  proof
    fix x assume "x \<in> set (blk_run (526 + of_nat st) want)"
    then have x: "526 + st \<le> x" "x < 526 + st + unat want" by (simp_all add: st)
    then have "x - 526 = st + (x - 526 - st)" "x - 526 - st < unat want" by simp_all
    with F(2) have "bit_is_free bm (x - 526)" by metis
    with x F(1) show "x \<in> free_blks sb bm" by (simp add: in_free_blks)
  qed
  have len: "length ?bm = UNFS_BLOCK_SIZE" using vol_okD(4) [OF vol] by simp
  have fb: "free_blks ?sb ?bm = free_blks sb bm - set (blk_run (526 + of_nat st) want)"
    by (rule free_blks_eqI) (auto simp: in_free_blks bits st V(2) [OF len])
  have n: "unat want \<le> card (free_blks sb bm)"
    using card_mono [OF _ sub] by simp
  have "unat (s_free_blocks ?sb) = card (free_blks sb bm) - unat want"
  proof -
    have u: "unat (ucast want :: u64) = unat want" by (rule unat_widened)
    then have "ucast want \<le> s_free_blocks sb" using n fr by (simp add: word_le_nat_alt)
    then have "unat (taken_from want sb) = unat (s_free_blocks sb) - unat want"
      using u by (simp add: taken_from_def unat_sub)
    with V(3) fr vol_okD(4) [OF vol] show ?thesis by simp
  qed
  also have "\<dots> = card (free_blks ?sb ?bm)" unfolding fb using sub by (simp add: card_Diff_subset)
  finally have c: "unat (s_free_blocks ?sb) = card (free_blks ?sb ?bm)" .
  have "vol_ok (vol_img dv t) ?sb ?bm" using V(1) vol_okD(4) [OF vol] by simp
  then show ?thesis using that t(1,2) sub fb c V(2) [OF len] by blast
qed

lemma free_books:
  assumes ok: "io_ok (fs_cache s)" and vol: "vol_ok (vol_img dv s) sb bm"
    and fr: "unat (s_free_blocks sb) = card (free_blks sb bm)" and n: "n \<noteq> 0"
    and sub: "set (blk_run b n) \<subseteq> {526..<526 + unat (group_limit sb 0)}"
    and held: "set (blk_run b n) \<inter> free_blks sb bm = {}"
  obtains t sb' bm' where "unfs_free_run now dv b n s = Some (UNFS_OK, t)"
    and "io_ok (fs_cache t)" and "vol_ok (vol_img dv t) sb' bm'"
    and "free_blks sb' bm' = free_blks sb bm \<union> set (blk_run b n)"
    and "unat (s_free_blocks sb') = card (free_blks sb' bm')" and "group_limit sb' 0 = group_limit sb 0"
proof -
  let ?sb = "sealed (set_free_blocks (s_free_blocks sb + ucast n) sb)"
    and ?bm = "release_bits (unat b - 526) (unat n) bm"
  have n0: "0 < unat n" using n by (simp add: unat_gt_0)
  have "unat b \<in> set (blk_run b n)" "unat b + unat n - 1 \<in> set (blk_run b n)" using n0 by auto
  with sub have lo: "526 \<le> unat b" and hi: "unat b - 526 + unat n \<le> unat (group_limit sb 0)" by auto
  have hi': "unat b - 526 + unat n \<le> unat (s_blocks_per_group sb)"
    using hi group0_limit [OF vol] by simp
  obtain t where t: "unfs_free_run now dv b n s = Some (UNFS_OK, t)" "io_ok (fs_cache t)"
    "vol_img dv t = (vol_img dv s)(UNFS_GROUP0_BBMAP \<mapsto> ?bm, 0 \<mapsto> ?sb)"
    using free_one [OF ok vol n lo hi'] by blast
  note V = vol_commit [OF vol _ t(3)]
  have bits: "bit_is_free ?bm c \<longleftrightarrow> bit_is_free bm c \<or> (unat b - 526 \<le> c \<and> c < unat b - 526 + unat n)" for c
    by (rule release_bits_free) (use hi limit_bits [OF vol] in simp)
  have len: "length ?bm = UNFS_BLOCK_SIZE" using vol_okD(4) [OF vol] by simp
  have fb: "free_blks ?sb ?bm = free_blks sb bm \<union> set (blk_run b n)"
    by (rule free_blks_eqI) (use lo hi in \<open>auto simp: in_free_blks bits V(2) [OF len]\<close>)
  have "card (free_blks ?sb ?bm) = card (free_blks sb bm) + unat n"
    unfolding fb using held by (subst card_Un_disjoint) auto
  moreover have "card (free_blks sb bm) + unat n < 2 ^ 32"
  proof -
    have "free_blks sb bm \<union> set (blk_run b n) \<subseteq> {526..<526 + unat (group_limit sb 0)}"
      using sub by (auto simp: in_free_blks)
    then have "card (free_blks sb bm \<union> set (blk_run b n)) \<le> unat (group_limit sb 0)"
      using card_mono [of "{526..<526 + unat (group_limit sb 0)}"] by fastforce
    moreover have "card (free_blks sb bm \<union> set (blk_run b n)) = card (free_blks sb bm) + unat n"
      using held by (subst card_Un_disjoint) auto
    ultimately show ?thesis using limit_bits [OF vol] vol_okD(4) [OF vol] by (simp add: UNFS_BLOCK_SIZE_def)
  qed
  moreover have "unat (s_free_blocks sb + ucast n :: u64) = card (free_blks sb bm) + unat n"
    if "card (free_blks sb bm) + unat n < 2 ^ 32"
  proof -
    have u: "unat (ucast n :: u64) = unat n" by (rule unat_widened)
    show ?thesis using that by (subst unat_add_lem [THEN iffD1]) (simp_all add: u fr)
  qed
  ultimately have "unat (s_free_blocks ?sb) = card (free_blks ?sb ?bm)" using V(3) [OF len] by simp
  then show ?thesis using that t(1,2) V(1,2) [OF len] fb by blast
qed

section \<open>Sequences of calls\<close>

text \<open>A client that takes runs of blocks and gives back blocks it holds; the second part of the
  state lists the blocks it holds.\<close>

datatype vol_op = Take u32 | Give u32 u32

fun vol_ops :: "u64 \<Rightarrow> u32 \<Rightarrow> vol_op list \<Rightarrow> 'm fs_state \<times> nat list \<Rightarrow> ('m fs_state \<times> nat list) option" where
  "vol_ops now dv [] p = Some p"
| "vol_ops now dv (Take n # ops) (s, H) =
     (case unfs_alloc_run now dv n zero_run s of
        None \<Rightarrow> None
      | Some ((e, r), t) \<Rightarrow>
          vol_ops now dv ops (t, if e = UNFS_OK then blk_run (first_blk r) (run_count r) @ H else H))"
| "vol_ops now dv (Give b n # ops) (s, H) =
     (if set (blk_run b n) \<subseteq> set H
      then
        (case unfs_free_run now dv b n s of
           None \<Rightarrow> None
         | Some (e, t) \<Rightarrow> vol_ops now dv ops (t, filter (\<lambda>x. x \<notin> set (blk_run b n)) H))
      else vol_ops now dv ops (s, H))"

definition books :: "u32 \<Rightarrow> nat set \<Rightarrow> 'm fs_state \<times> nat list \<Rightarrow> bool" where
  "books dv A p \<longleftrightarrow> (\<exists>sb bm. io_ok (fs_cache (fst p)) \<and> vol_ok (vol_img dv (fst p)) sb bm \<and>
     unat (s_free_blocks sb) = card (free_blks sb bm) \<and> distinct (snd p) \<and>
     set (snd p) \<inter> free_blks sb bm = {} \<and> set (snd p) \<union> free_blks sb bm = A \<and>
     A \<subseteq> {526..<526 + unat (group_limit sb 0)})"

lemma free_blks_range: "free_blks sb bm \<subseteq> {526..<526 + unat (group_limit sb 0)}"
  by (auto simp: in_free_blks)

lemma books_take:
  assumes "books dv A (s, H)"
  shows "\<exists>e r t. unfs_alloc_run now dv n zero_run s = Some ((e, r), t) \<and>
    books dv A (t, if e = UNFS_OK then blk_run (first_blk r) (run_count r) @ H else H)"
proof -
  obtain sb bm where b: "io_ok (fs_cache s)" "vol_ok (vol_img dv s) sb bm"
    "unat (s_free_blocks sb) = card (free_blks sb bm)" "distinct H" "set H \<inter> free_blks sb bm = {}"
    "set H \<union> free_blks sb bm = A" "A \<subseteq> {526..<526 + unat (group_limit sb 0)}"
    using assms by (auto simp: books_def)
  show ?thesis
  proof (cases "n = 0")
    case True
    then show ?thesis using assms by (simp add: unfs_alloc_run_def alloc_run_def)
  next
    case n: False
    show ?thesis
    proof (cases "find_run bm (group_limit sb 0) n")
      case None
      obtain t where t: "unfs_alloc_run now dv n zero_run s = Some ((UNFS_ENOSPC, zero_run), t)"
        "io_ok (fs_cache t)" "vol_img dv t = vol_img dv s"
        using alloc_one [OF b(1,2) n, of now zero_run] None by auto
      have "books dv A (t, H)" unfolding books_def using b t(2,3) by (intro exI [of _ sb] exI [of _ bm]) simp
      with t(1) show ?thesis by simp
    next
      case (Some st)
      let ?r = "\<lparr>first_blk = 526 + of_nat st, run_count = n, run_group = 0\<rparr>" and ?R = "blk_run (526 + of_nat st) n"
      obtain t sb' bm' where t: "unfs_alloc_run now dv n zero_run s = Some ((UNFS_OK, ?r), t)"
        "io_ok (fs_cache t)" "vol_ok (vol_img dv t) sb' bm'" "set ?R \<subseteq> free_blks sb bm"
        "free_blks sb' bm' = free_blks sb bm - set ?R" "unat (s_free_blocks sb') = card (free_blks sb' bm')"
        "group_limit sb' 0 = group_limit sb 0"
        by (rule alloc_books [OF b(1,2,3) n Some, of now zero_run])
      have "distinct (?R @ H)" "set (?R @ H) \<inter> free_blks sb' bm' = {}" "set (?R @ H) \<union> free_blks sb' bm' = A"
        using b(4-6) t(4,5) by (simp_all only: distinct_append distinct_upt set_append) blast+
      then have "books dv A (t, ?R @ H)"
        unfolding books_def using t(2,3,6,7) b(7) by (intro exI [of _ sb'] exI [of _ bm']) simp
      with t(1) show ?thesis by simp
    qed
  qed
qed

lemma books_give:
  assumes "books dv A (s, H)" and held: "set (blk_run b n) \<subseteq> set H"
  shows "\<exists>e t. unfs_free_run now dv b n s = Some (e, t) \<and>
    books dv A (t, filter (\<lambda>x. x \<notin> set (blk_run b n)) H)"
proof (cases "n = 0")
  case True
  then show ?thesis using assms by (simp add: unfs_free_run_def free_run_def)
next
  case False
  obtain sb bm where k: "io_ok (fs_cache s)" "vol_ok (vol_img dv s) sb bm"
    "unat (s_free_blocks sb) = card (free_blks sb bm)" "distinct H" "set H \<inter> free_blks sb bm = {}"
    "set H \<union> free_blks sb bm = A" "A \<subseteq> {526..<526 + unat (group_limit sb 0)}"
    using assms(1) by (auto simp: books_def)
  have "set (blk_run b n) \<subseteq> {526..<526 + unat (group_limit sb 0)}" "set (blk_run b n) \<inter> free_blks sb bm = {}"
    using held k(5-7) by blast+
  then obtain t sb' bm' where t: "unfs_free_run now dv b n s = Some (UNFS_OK, t)"
    "io_ok (fs_cache t)" "vol_ok (vol_img dv t) sb' bm'"
    "free_blks sb' bm' = free_blks sb bm \<union> set (blk_run b n)" "unat (s_free_blocks sb') = card (free_blks sb' bm')"
    "group_limit sb' 0 = group_limit sb 0"
    by (rule free_books [OF k(1,2,3) False, of b now])
  let ?H = "filter (\<lambda>x. x \<notin> set (blk_run b n)) H"
  have "distinct ?H" "set ?H \<inter> free_blks sb' bm' = {}" "set ?H \<union> free_blks sb' bm' = A"
    using k(4-6) t(4) held by (auto simp del: set_upt)
  then have "books dv A (t, ?H)"
    unfolding books_def using t(2,3,5,6) k(7) by (intro exI [of _ sb'] exI [of _ bm']) simp
  with t(1) show ?thesis by blast
qed

lemma books_ops: "books dv A p \<Longrightarrow> \<exists>q. vol_ops now dv ops p = Some q \<and> books dv A q"
proof (induction ops arbitrary: p)
  case (Cons op ops)
  obtain s H where p: "p = (s, H)" by fastforce
  note b = Cons.prems [unfolded p]
  show ?case
  proof (cases op)
    case (Take n)
    obtain e r t where "unfs_alloc_run now dv n zero_run s = Some ((e, r), t)"
      "books dv A (t, if e = UNFS_OK then blk_run (first_blk r) (run_count r) @ H else H)"
      using books_take [OF b] by blast
    with Cons.IH show ?thesis by (simp add: p Take)
  next
    case (Give c n)
    show ?thesis
    proof (cases "set (blk_run c n) \<subseteq> set H")
      case True
      obtain e t where "unfs_free_run now dv c n s = Some (e, t)"
        "books dv A (t, filter (\<lambda>x. x \<notin> set (blk_run c n)) H)"
        using books_give [OF b True] by blast
      with Cons.IH True show ?thesis by (simp add: p Give)
    next
      case False
      with Cons.IH b show ?thesis by (simp add: p Give)
    qed
  qed
qed simp

text \<open>The groups after the first are laid out inside the data area of group 0: the bitmap block and the
  first data block of group 1 are both blocks that group 0 hands out and takes back.\<close>

lemma unfs_groups_overlap:
  assumes "1 < s_group_count sb" and "20 < unat (s_blocks_per_group sb)" and "unat (s_blocks_per_group sb) \<le> 32768"
  shows "group_bmap_blk 1 = group_first_data_blk 0 + 10" and "group_first_data_blk 1 = group_first_data_blk 0 + 20"
    and "owning_group sb (group_bmap_blk 1) = Some 0" and "owning_group sb (group_first_data_blk 1) = Some 0"
proof -
  have g: "group_first_data_blk 0 = 526" "group_bmap_blk 1 = 536" "group_first_data_blk 1 = 546"
    by (simp_all add: group_bmap_blk_def group_first_data_blk_def unfs_layout)
  then show "group_bmap_blk 1 = group_first_data_blk 0 + 10" "group_first_data_blk 1 = group_first_data_blk 0 + 20"
    by simp_all
  have u: "unat ((526 :: u32) + s_blocks_per_group sb) = 526 + unat (s_blocks_per_group sb)"
    using assms(3) by (subst unat_add_lem [THEN iffD1]) simp_all
  have n: "0 < unat (s_group_count sb)" using assms(1) by (simp add: word_less_nat_alt)
  show "owning_group sb (group_bmap_blk 1) = Some 0" "owning_group sb (group_first_data_blk 1) = Some 0"
    unfolding owning_group_def first_idx_Some_iff using n g u assms(2)
    by (simp_all add: word_le_nat_alt word_less_nat_alt)
qed

section \<open>Properties\<close>

lemma free_run_iff:
  assumes "0 < n"
  shows "set [x..<x + n] \<subseteq> free_blks sb bm \<longleftrightarrow>
    526 \<le> x \<and> x - 526 + n \<le> unat (group_limit sb 0) \<and> (\<forall>k<n. bit_is_free bm (x - 526 + k))"
proof
  assume sub: "set [x..<x + n] \<subseteq> free_blks sb bm"
  have *: "x + k \<in> free_blks sb bm" if "k < n" for k using sub that by auto
  have lo: "526 \<le> x" using * [of 0] assms by (simp add: in_free_blks)
  have "bit_is_free bm (x - 526 + k)" if "k < n" for k using * [OF that] lo by (simp add: in_free_blks)
  moreover have "x + (n - 1) - 526 < unat (group_limit sb 0)" using * [of "n - 1"] assms by (simp add: in_free_blks)
  then have "x - 526 + n \<le> unat (group_limit sb 0)" using assms lo by linarith
  ultimately show "526 \<le> x \<and> x - 526 + n \<le> unat (group_limit sb 0) \<and> (\<forall>k<n. bit_is_free bm (x - 526 + k))"
    using lo by blast
next
  assume r: "526 \<le> x \<and> x - 526 + n \<le> unat (group_limit sb 0) \<and> (\<forall>k<n. bit_is_free bm (x - 526 + k))"
  show "set [x..<x + n] \<subseteq> free_blks sb bm"
  proof
    fix y assume "y \<in> set [x..<x + n]"
    then obtain k where k: "y = x + k" "k < n" by (auto simp: nat_le_iff_add)
    have "x - 526 + k = y - 526" using k r by simp
    moreover have "bit_is_free bm (x - 526 + k)" "x - 526 + k < unat (group_limit sb 0)" using r k by auto
    ultimately show "y \<in> free_blks sb bm" using k r by (simp add: in_free_blks)
  qed
qed

text \<open>\<open>unfs_alloc_run\<close> is first fit: when the bitmap has a run of \<open>want\<close> free blocks it returns the
  lowest one, takes exactly those blocks off the free ones and keeps the superblock's counter equal
  to their number; when there is none it reports no space and changes no block.\<close>

theorem unfs_alloc_first_fit:
  assumes "io_ok (fs_cache s)" and "vol_ok (vol_img dv s) sb bm"
    and "unat (s_free_blocks sb) = card (free_blks sb bm)" and "want \<noteq> 0"
  shows "\<exists>e r t. unfs_alloc_run now dv want out s = Some ((e, r), t) \<and> io_ok (fs_cache t) \<and>
    (if \<exists>x. set [x..<x + unat want] \<subseteq> free_blks sb bm
     then e = UNFS_OK \<and> run_count r = want \<and>
       unat (first_blk r) = (LEAST x. set [x..<x + unat want] \<subseteq> free_blks sb bm) \<and>
       (\<exists>sb' bm'. vol_ok (vol_img dv t) sb' bm' \<and>
          free_blks sb' bm' = free_blks sb bm - set (blk_run (first_blk r) want) \<and>
          unat (s_free_blocks sb') = card (free_blks sb' bm'))
     else e = UNFS_ENOSPC \<and> run_count r = 0 \<and> vol_img dv t = vol_img dv s)"
proof -
  have w: "0 < unat want" using assms(4) by (simp add: unat_gt_0)
  note R = free_run_iff [OF w]
  show ?thesis
  proof (cases "find_run bm (group_limit sb 0) want")
    case None
    have no: "\<not> (\<exists>x. set [x..<x + unat want] \<subseteq> free_blks sb bm)"
      unfolding R using find_run_None [OF None assms(4)] by blast
    obtain t where "unfs_alloc_run now dv want out s = Some ((UNFS_ENOSPC, zero_run), t)"
      "io_ok (fs_cache t)" "vol_img dv t = vol_img dv s"
      using alloc_one [OF assms(1,2,4), of now out] None by auto
    then show ?thesis unfolding if_not_P [OF no]
      by (intro exI [of _ UNFS_ENOSPC] exI [of _ zero_run] exI [of _ t]) (simp add: zero_run_def)
  next
    case (Some st)
    let ?r = "\<lparr>first_blk = 526 + of_nat st, run_count = want, run_group = 0\<rparr>"
    note F = find_run_Some [OF Some assms(4)]
    have fst: "unat (first_blk ?r) = 526 + st" using first_block [OF assms(2), of st] F(1) by simp
    obtain t sb' bm' where t: "unfs_alloc_run now dv want out s = Some ((UNFS_OK, ?r), t)"
      "io_ok (fs_cache t)" "vol_ok (vol_img dv t) sb' bm'" "set (blk_run (526 + of_nat st) want) \<subseteq> free_blks sb bm"
      "free_blks sb' bm' = free_blks sb bm - set (blk_run (526 + of_nat st) want)"
      "unat (s_free_blocks sb') = card (free_blks sb' bm')" "group_limit sb' 0 = group_limit sb 0"
      by (rule alloc_books [OF assms(1-3) assms(4) Some, of now out])
    have yes: "set [526 + st..<526 + st + unat want] \<subseteq> free_blks sb bm" using t(4) fst by simp
    moreover have "526 + st \<le> x" if "set [x..<x + unat want] \<subseteq> free_blks sb bm" for x
    proof (rule ccontr)
      assume "\<not> 526 + st \<le> x"
      with that have "x - 526 < st" "\<forall>k<unat want. bit_is_free bm (x - 526 + k)" unfolding R by auto
      with F(3) show False by blast
    qed
    ultimately have least: "(LEAST x. set [x..<x + unat want] \<subseteq> free_blks sb bm) = 526 + st"
      by (rule Least_equality)
    have ex: "\<exists>x. set [x..<x + unat want] \<subseteq> free_blks sb bm" using yes by blast
    have "\<exists>sb' bm'. vol_ok (vol_img dv t) sb' bm' \<and>
        free_blks sb' bm' = free_blks sb bm - set (blk_run (first_blk ?r) want) \<and>
        unat (s_free_blocks sb') = card (free_blks sb' bm')"
      using t(3,5,6) by (intro exI [of _ sb'] exI [of _ bm']) simp
    then show ?thesis unfolding if_P [OF ex] least
      using t(1,2) fst by (intro exI [of _ UNFS_OK] exI [of _ ?r] exI [of _ t]) simp
  qed
qed

text \<open>C19: Under any sequence of allocations and of releases of blocks held, every call returns, no
  block is handed out twice while it is held, no block is lost (each is held or free), and the free
  counter of the superblock is the number of free bits of the bitmap.\<close>

theorem unfs_blocks_shared_out:
  assumes "io_ok (fs_cache s)" and "vol_ok (vol_img dv s) sb bm"
    and "unat (s_free_blocks sb) = card (free_blks sb bm)"
  shows "\<exists>t H sb' bm'. vol_ops now dv ops (s, []) = Some (t, H) \<and> io_ok (fs_cache t) \<and>
    vol_ok (vol_img dv t) sb' bm' \<and> distinct H \<and> set H \<inter> free_blks sb' bm' = {} \<and>
    set H \<union> free_blks sb' bm' = free_blks sb bm \<and> unat (s_free_blocks sb') = card (free_blks sb' bm')"
proof -
  have "books dv (free_blks sb bm) (s, [])"
    unfolding books_def using assms free_blks_range by (intro exI [of _ sb] exI [of _ bm]) simp
  then obtain q where "vol_ops now dv ops (s, []) = Some q" "books dv (free_blks sb bm) q"
    using books_ops by blast
  moreover obtain t H where "q = (t, H)" by fastforce
  ultimately show ?thesis by (auto simp: books_def)
qed

text \<open>Releasing a run that is free already is accepted: no bit changes, but the counter grows by
  the length of the run, so it no longer agrees with the bitmap and later releases keep the error.\<close>

theorem unfs_double_release_inflates:
  assumes "io_ok (fs_cache s)" and "vol_ok (vol_img dv s) sb bm" and "n \<noteq> 0"
    and "set (blk_run b n) \<subseteq> free_blks sb bm"
    and "unat (s_free_blocks sb) = card (free_blks sb bm)"
  shows "\<exists>t sb' bm'. unfs_free_run now dv b n s = Some (UNFS_OK, t) \<and> vol_ok (vol_img dv t) sb' bm' \<and>
    free_blks sb' bm' = free_blks sb bm \<and> s_free_blocks sb' = s_free_blocks sb + ucast n \<and>
    unat (s_free_blocks sb') \<noteq> card (free_blks sb' bm')"
proof -
  have n0: "0 < unat n" using assms(3) by (simp add: unat_gt_0)
  have r: "526 \<le> unat b" "unat b - 526 + unat n \<le> unat (group_limit sb 0)"
    "\<And>k. k < unat n \<Longrightarrow> bit_is_free bm (unat b - 526 + k)"
    using assms(4) free_run_iff [OF n0] by blast+
  let ?bm = "release_bits (unat b - 526) (unat n) bm" and ?sb = "sealed (set_free_blocks (s_free_blocks sb + ucast n) sb)"
  have "unat b - 526 + unat n \<le> unat (s_blocks_per_group sb)" using r(2) group0_limit [OF assms(2)] by simp
  then obtain t where t: "unfs_free_run now dv b n s = Some (UNFS_OK, t)"
    "vol_img dv t = (vol_img dv s)(UNFS_GROUP0_BBMAP \<mapsto> ?bm, 0 \<mapsto> ?sb)"
    using free_one [OF assms(1-3) r(1)] by blast
  have len: "length ?bm = UNFS_BLOCK_SIZE" using vol_okD(4) [OF assms(2)] by simp
  note V = vol_commit [OF assms(2) len t(2)]
  have "bit_is_free ?bm c = bit_is_free bm c" for c
  proof -
    have "bit_is_free ?bm c \<longleftrightarrow> bit_is_free bm c \<or> (unat b - 526 \<le> c \<and> c < unat b - 526 + unat n)"
      by (rule release_bits_free) (use r(2) limit_bits [OF assms(2)] in simp)
    with r(3) [of "c - (unat b - 526)"] show ?thesis by auto
  qed
  then have "free_blks ?sb ?bm = free_blks sb bm" by (simp add: free_blks_def V(2))
  moreover have "unat (s_free_blocks ?sb) \<noteq> card (free_blks sb bm)"
  proof -
    have "(ucast n :: u64) \<noteq> 0" using unat_widened [of n] n0 by (metis less_irrefl unat_0)
    then have "s_free_blocks ?sb \<noteq> s_free_blocks sb" using V(3) by simp
    then show ?thesis using assms(5) by (simp add: word_unat_eq_iff)
  qed
  ultimately show ?thesis using t(1) V(1,3) by (intro exI [of _ t] exI [of _ ?sb] exI [of _ ?bm]) simp
qed

text \<open>A volume with four free blocks, 529 to 532.\<close>

definition sb_demo :: "u8 list" where
  "sb_demo = set_free_blocks 4 (put_le 4 48 (1 :: u32) (put_le 4 44 (8192 :: u32) (put_le 8 16 (8192 :: u64)
     (put_le 4 0 UNFS_MAGIC (replicate 4096 0)))))"

definition bm_demo :: "u8 list" where "bm_demo = release_bits 3 4 (replicate 4096 0)"

definition fs_demo :: "ramdisk fs_state" where
  "fs_demo = \<lparr>fs_cache = volume_cache 1 [(0, sb_demo), (259, bm_demo)] ram_cache, fs_jrnl = jr_blank\<rparr>"

lemma fs_demo_vol:
  "io_ok (fs_cache fs_demo)" "vol_ok (vol_img 1 fs_demo) sb_demo bm_demo"
  "free_blks sb_demo bm_demo = {529, 530, 531, 532}" "s_free_blocks sb_demo = 4"
proof -
  have l: "length sb_demo = 4096" "length bm_demo = 4096" by (simp_all add: sb_demo_def bm_demo_def sb_updates)
  note V = volume_cache_ok [where vol = "[(0, sb_demo), (259, bm_demo)]" and d = 1 and s = ram_cache, unfolded UNFS_BLOCK_SIZE_def]
  show io: "io_ok (fs_cache fs_demo)" unfolding fs_demo_def fs_state.simps by (rule V(1)) (auto simp: l)
  have "block_img 1 (fs_cache fs_demo) 0 = Some sb_demo" "block_img 1 (fs_cache fs_demo) 259 = Some bm_demo"
    unfolding fs_demo_def fs_state.simps by (rule V(2); auto simp: l)+
  moreover have f: "s_magic sb_demo = UNFS_MAGIC" "s_group_count sb_demo = 1" "s_blocks_per_group sb_demo = 8192"
    "s_block_count sb_demo = 8192"
    by (simp_all add: sb_demo_def sb_fields sb_updates get_put_other get_put_same)
  ultimately show vol: "vol_ok (vol_img 1 fs_demo) sb_demo bm_demo"
    by (simp add: vol_ok_def l UNFS_GROUP0_BBMAP_def UNFS_BITS_PER_BITMAP_BLOCK_def UNFS_BLOCK_SIZE_def)
  show "s_free_blocks sb_demo = 4" by (simp add: sb_demo_def sb_fields sb_updates get_put_same)
  have lim: "unat (group_limit sb_demo 0) = 7666" using group0_limit [OF vol] f by simp
  have "bit_is_free bm_demo c \<longleftrightarrow> 3 \<le> c \<and> c < 7" if "c < 32768" for c
  proof -
    have "bit_is_free bm_demo c \<longleftrightarrow> bit_is_free (replicate 4096 0) c \<or> (3 \<le> c \<and> c < 3 + 4)"
      unfolding bm_demo_def by (rule release_bits_free) simp
    with that show ?thesis by (simp add: bit_is_free_bit less_mult_imp_div_less)
  qed
  then show "free_blks sb_demo bm_demo = {529, 530, 531, 532}"
    by (intro free_blks_eqI) (auto simp: lim)
qed

lemma unfs_alloc_first_fit_witness:
  "\<exists>r t. unfs_alloc_run 0 1 2 zero_run fs_demo = Some ((UNFS_OK, r), t) \<and> unat (first_blk r) = 529"
proof -
  have ex: "\<exists>x. set [x..<x + unat (2 :: u32)] \<subseteq> free_blks sb_demo bm_demo"
    unfolding fs_demo_vol(3) by (rule exI [of _ 529]) auto
  have least: "(LEAST x. set [x..<x + unat (2 :: u32)] \<subseteq> free_blks sb_demo bm_demo) = 529"
  proof (rule Least_equality)
    show "set [529..<529 + unat (2 :: u32)] \<subseteq> free_blks sb_demo bm_demo" unfolding fs_demo_vol(3) by auto
    show "529 \<le> x" if "set [x..<x + unat (2 :: u32)] \<subseteq> free_blks sb_demo bm_demo" for x
    proof -
      have "x \<in> set [x..<x + unat (2 :: u32)]" by simp
      with that have "x \<in> free_blks sb_demo bm_demo" by (rule subsetD)
      then show ?thesis by (auto simp: fs_demo_vol(3))
    qed
  qed
  have c: "unat (s_free_blocks sb_demo) = card (free_blks sb_demo bm_demo)" by (simp add: fs_demo_vol(3,4))
  have z: "(2 :: u32) \<noteq> 0" by simp
  show ?thesis
    using unfs_alloc_first_fit [OF fs_demo_vol(1,2) c z, of 0 zero_run] unfolding if_P [OF ex] least
    by blast
qed

lemma unfs_blocks_shared_out_witness:
  "\<exists>t H sb' bm'. vol_ops 0 1 [Take 3, Take 2, Give 529 2, Take 1] (fs_demo, []) = Some (t, H) \<and>
    distinct H \<and> set H \<union> free_blks sb' bm' = {529, 530, 531, 532} \<and> vol_img 1 t 259 = Some bm'"
proof -
  have "unat (s_free_blocks sb_demo) = card (free_blks sb_demo bm_demo)" by (simp add: fs_demo_vol(3,4))
  then obtain t H sb' bm' where "vol_ops 0 1 [Take 3, Take 2, Give 529 2, Take 1] (fs_demo, []) = Some (t, H)"
    "vol_ok (vol_img 1 t) sb' bm'" "distinct H" "set H \<union> free_blks sb' bm' = free_blks sb_demo bm_demo"
    using unfs_blocks_shared_out [OF fs_demo_vol(1,2)] by blast
  then show ?thesis
    by (intro exI [of _ t] exI [of _ H] exI [of _ sb'] exI [of _ bm'])
      (simp only: fs_demo_vol(3) vol_ok_def UNFS_GROUP0_BBMAP_def simp_thms)
qed

lemma unfs_double_release_inflates_witness:
  "\<exists>t sb' bm'. unfs_free_run 0 1 530 2 fs_demo = Some (UNFS_OK, t) \<and> vol_ok (vol_img 1 t) sb' bm' \<and>
    s_free_blocks sb' = 6 \<and> free_blks sb' bm' = {529, 530, 531, 532}"
proof -
  have "set (blk_run 530 2) \<subseteq> free_blks sb_demo bm_demo" unfolding fs_demo_vol(3) by auto
  moreover have "unat (s_free_blocks sb_demo) = card (free_blks sb_demo bm_demo)" by (simp add: fs_demo_vol(3,4))
  moreover have "(2 :: u32) \<noteq> 0" by simp
  ultimately obtain t sb' bm' where "unfs_free_run 0 1 530 2 fs_demo = Some (UNFS_OK, t)"
    "vol_ok (vol_img 1 t) sb' bm'" "free_blks sb' bm' = free_blks sb_demo bm_demo"
    "s_free_blocks sb' = s_free_blocks sb_demo + ucast (2 :: u32)"
    using unfs_double_release_inflates [OF fs_demo_vol(1,2), of 2 530 0] by blast
  then show ?thesis unfolding fs_demo_vol(3,4) by (intro exI [of _ t] exI [of _ sb'] exI [of _ bm']) simp
qed

end
