(* ===== verification/UnfsFormat.thy ===== *)
theory UnfsFormat
  imports UnfsProps
begin

text \<open>
  Making and mounting a volume (\<open>32_FS/10_unfs/src/unfs_format.c\<close>, \<open>unfs_mount.c\<close>), over the block
  device as in UnfsAlloc.  Structures that go to the device are built as their byte images, fields at
  their packed offsets.  The last sections relate \<open>mkfs\<close>, the mount code and the allocator.
\<close>

section \<open>mkfs\<close>

definition UNFS_DEFAULT_BLOCKS_PER_GROUP :: u32 where "UNFS_DEFAULT_BLOCKS_PER_GROUP = 8192"
definition UNFS_DEFAULT_INODES_PER_GROUP :: u32 where "UNFS_DEFAULT_INODES_PER_GROUP = 512"
definition UNFS_ROOT_INO :: u32 where "UNFS_ROOT_INO = 2"
definition UNFS_INODE_BYTES :: u32 where "UNFS_INODE_BYTES = 256"
definition UNFS_EXT_LEAF :: u16 where "UNFS_EXT_LEAF = 1"
definition UNFS_IFDIR :: u16 where "UNFS_IFDIR = 0x4000"
definition UNFS_DT_DIR :: u8 where "UNFS_DT_DIR = 4"

definition zero_block :: "u8 list" where "zero_block = replicate UNFS_BLOCK_SIZE 0"

definition bitmap_set_free :: "nat \<Rightarrow> u8 list \<Rightarrow> u8 list" where
  "bitmap_set_free b bm = bm[b div 8 := bm ! (b div 8) AND NOT (push_bit (b mod 8) 1)]"

definition bitmap_set_used :: "nat \<Rightarrow> u8 list \<Rightarrow> u8 list" where
  "bitmap_set_used b bm = bm[b div 8 := bm ! (b div 8) OR push_bit (b mod 8) 1]"

text \<open>Group \<open>i\<close> of \<open>ncg\<close>: its blocks, the two bitmaps and the descriptor.  The bits set for group 0
  lie inside the block as long as \<open>ncg \<le> 134\<close>; beyond that the bound wraps and the C code leaves the
  buffer.\<close>

definition META_BLOCKS :: u32 where "META_BLOCKS = UNFS_GROUP0_DATA"

definition group_first_blk :: "u32 \<Rightarrow> u32 \<Rightarrow> u32" where
  "group_first_blk blk i = (if i = 0 then blk else i * UNFS_DEFAULT_BLOCKS_PER_GROUP)"

definition group_nblocks :: "u32 \<Rightarrow> u32 \<Rightarrow> u32 \<Rightarrow> u32 \<Rightarrow> u32" where
  "group_nblocks nblk ncg blk i =
     (if i = ncg - 1 then nblk - group_first_blk blk i else UNFS_DEFAULT_BLOCKS_PER_GROUP)"

definition group_bb :: "u32 \<Rightarrow> u32 \<Rightarrow> u32" where
  "group_bb blk i = (if i = 0 then group_first_blk blk i + 1 else group_first_blk blk i)"

definition mkfs_bbmap :: "u32 \<Rightarrow> u32 \<Rightarrow> u32 \<Rightarrow> u32 \<Rightarrow> u8 list" where
  "mkfs_bbmap nblk ncg blk i =
     (let bm = fold bitmap_set_free [0..<min (unat (group_nblocks nblk ncg blk i)) (UNFS_BLOCK_SIZE * 8)] zero_block
      in if i = 0
         then fold bitmap_set_used [unat UNFS_GROUP0_PKG_INDEX..<unat UNFS_GROUP0_DATA_START]
                (fold bitmap_set_used [0..<unat (META_BLOCKS - 2 * ncg)] bm)
         else bm)"

definition mkfs_ibmap :: "u32 \<Rightarrow> u8 list" where
  "mkfs_ibmap i =
     (let bm = bitmap_set_used 0 (fold bitmap_set_free [0..<unat UNFS_DEFAULT_INODES_PER_GROUP] zero_block)
      in if i = 0 then bitmap_set_used (unat (UNFS_ROOT_INO - 1)) bm else bm)"

definition group_desc :: "u32 \<Rightarrow> u32 \<Rightarrow> u32 \<Rightarrow> u8 list" where
  "group_desc bb ib it = le_bytes 4 bb @ le_bytes 4 ib @ le_bytes 4 it"

definition group_free :: "u32 \<Rightarrow> u32 \<Rightarrow> u32 \<Rightarrow> u32 \<Rightarrow> u32" where
  "group_free nblk ncg blk i =
     (if i = 0 then group_nblocks nblk ncg blk i - 2 - ((META_BLOCKS - 2 * ncg) - 2)
      else group_nblocks nblk ncg blk i - 2)"

text \<open>The loop over the groups: \<open>n\<close> of them left, from \<open>i\<close> on; \<open>fb\<close> and \<open>fi\<close> are the counters of the
  superblock.  \<open>junk\<close> is what a failed read of the descriptor block leaves in the zeroed buffer.\<close>

primrec mkfs_groups ::
  "'s bdev_rd \<Rightarrow> 's bdev_wr \<Rightarrow> u8 list \<Rightarrow> u32 \<Rightarrow> u32 \<Rightarrow> nat \<Rightarrow> u32 \<Rightarrow> u32 \<Rightarrow> u32 \<Rightarrow> u64 \<Rightarrow> u32 \<Rightarrow> 's \<Rightarrow>
     ((unfs_err \<times> u64 \<times> u32) \<times> 's) option" where
  "mkfs_groups rd wr junk nblk ncg 0 i blk ino fb fi s = Some ((UNFS_OK, fb, fi), s)"
| "mkfs_groups rd wr junk nblk ncg (Suc n) i blk ino fb fi s =
     (let bb = group_bb blk i; ib = bb + 1;
          it = UNFS_GROUP0_ITABLE + ((ino - 1) * UNFS_INODE_BYTES) div of_nat UNFS_BLOCK_SIZE;
          fb' = fb + ucast (group_free nblk ncg blk i);
          fi' = fi + (if i = 0 then UNFS_DEFAULT_INODES_PER_GROUP - 2 else UNFS_DEFAULT_INODES_PER_GROUP)
      in bdev_put (wr bb (mkfs_bbmap nblk ncg blk i) s) (UNFS_EIO, fb, fi) (\<lambda>s.
         bdev_put (wr ib (mkfs_ibmap i) s) (UNFS_EIO, fb, fi) (\<lambda>s.
         case rd 1 s of
           None \<Rightarrow> None
         | Some (r, s) \<Rightarrow>
             (let gblock = (case r of None \<Rightarrow> junk | Some b \<Rightarrow> b);
                  off = unat (i * 12) mod UNFS_BLOCK_SIZE
              in bdev_put (wr 1 (put_bytes off (group_desc bb ib it) gblock) s) (UNFS_EIO, fb', fi') (\<lambda>s.
                   mkfs_groups rd wr junk nblk ncg n (i + 1)
                     (group_first_blk blk i + group_nblocks nblk ncg blk i)
                     (ino + UNFS_DEFAULT_INODES_PER_GROUP) fb' fi' s)))))"

text \<open>The root directory: its data block with the two entries, and its inode.\<close>

definition root_dirents :: "u8 list" where
  "root_dirents =
     put_le 4 0 UNFS_ROOT_INO (put_le 2 4 (12 :: u16) (put_le 1 6 (1 :: u8) (put_le 1 7 UNFS_DT_DIR
       (put_le 1 8 (0x2E :: u8)
     (put_le 4 12 UNFS_ROOT_INO (put_le 2 16 (of_nat (UNFS_BLOCK_SIZE - 12) :: u16) (put_le 1 18 (2 :: u8)
       (put_le 1 19 UNFS_DT_DIR (put_le 1 20 (0x2E :: u8) (put_le 1 21 (0x2E :: u8) zero_block))))))))))"

definition root_inode :: "u32 \<Rightarrow> u8 list" where
  "root_inode data_blk =
     put_le 2 0 (UNFS_IFDIR OR 0x1ED) (put_le 2 6 (2 :: u16) (put_le 8 8 (of_nat UNFS_BLOCK_SIZE :: u64)
       (put_le 4 40 (of_nat (UNFS_BLOCK_SIZE div 512) :: u32)
       (put_le 4 68 (0 :: u32) (put_le 4 72 data_blk (put_le 2 76 (1 :: u16) (put_le 2 78 UNFS_EXT_LEAF
       (replicate (unat UNFS_INODE_BYTES) 0))))))))"

definition root_slot_blk :: u32 where
  "root_slot_blk = UNFS_GROUP0_ITABLE + ((UNFS_ROOT_INO - 1) * UNFS_INODE_BYTES) div of_nat UNFS_BLOCK_SIZE"

definition root_slot_off :: nat where
  "root_slot_off = unat ((UNFS_ROOT_INO - 1) * UNFS_INODE_BYTES) mod UNFS_BLOCK_SIZE"

definition mkfs_root :: "'s bdev_rd \<Rightarrow> 's bdev_wr \<Rightarrow> 's \<Rightarrow> (unfs_err \<times> 's) option" where
  "mkfs_root rd wr s =
     bdev_get (rd UNFS_GROUP0_BBMAP s) UNFS_EIO (\<lambda>bm s.
       case first_idx (\<lambda>b. bm ! (b div 8) AND push_bit (b mod 8) 1 = 0) (unat UNFS_GROUP0_DATA) of
         None \<Rightarrow> Some (UNFS_ENOSPC, s)
       | Some b \<Rightarrow>
           (let root_blk = UNFS_GROUP0_DATA_START + of_nat b
            in bdev_put (wr UNFS_GROUP0_BBMAP (bitmap_set_used b bm) s) UNFS_EIO (\<lambda>s.
               bdev_put (wr root_blk root_dirents s) UNFS_EIO (\<lambda>s.
               case rd root_slot_blk s of
                 None \<Rightarrow> None
               | Some (r, s) \<Rightarrow>
                   (let ibuf = (case r of None \<Rightarrow> zero_block | Some x \<Rightarrow> x)
                    in bdev_put (wr root_slot_blk (put_bytes root_slot_off (root_inode root_blk) ibuf) s) UNFS_EIO
                         (\<lambda>s. Some (UNFS_OK, s)))))))"

definition mkfs_sb :: "u32 \<Rightarrow> u32 \<Rightarrow> u64 \<Rightarrow> u32 \<Rightarrow> u8 list" where
  "mkfs_sb nblk ncg fb fi =
     put_le 4 0 UNFS_MAGIC (put_le 2 4 (1 :: u16) (put_le 2 6 (0 :: u16)
     (put_le 4 8 (of_nat UNFS_BLOCK_SIZE :: u32) (put_le 4 12 UNFS_INODE_BYTES (put_le 8 16 (ucast nblk :: u64)
     (put_le 8 24 fb (put_le 4 32 (ncg * UNFS_DEFAULT_INODES_PER_GROUP) (put_le 4 36 fi
     (put_le 4 40 UNFS_DEFAULT_INODES_PER_GROUP (put_le 4 44 UNFS_DEFAULT_BLOCKS_PER_GROUP (put_le 4 48 ncg
     (put_le 1 76 (1 :: u8) (put_le 1 77 (1 :: u8) zero_block)))))))))))))"

text \<open>The second component is \<open>*root_ino_out\<close> where the code sets it.\<close>

definition unfs_format ::
  "'s bdev_rd \<Rightarrow> 's bdev_wr \<Rightarrow> u8 list \<Rightarrow> u32 \<Rightarrow> 's \<Rightarrow> ((unfs_err \<times> u32 option) \<times> 's) option" where
  "unfs_format rd wr junk nblk s =
     (if nblk < 64 then Some ((UNFS_EINVAL, None), s)
      else
        (let ncg = (nblk + UNFS_DEFAULT_BLOCKS_PER_GROUP - 1) div UNFS_DEFAULT_BLOCKS_PER_GROUP;
             ncg = (if ncg = 0 then 1 else ncg);
             inodes_total = ncg * UNFS_DEFAULT_INODES_PER_GROUP
         in case mkfs_groups rd wr junk nblk ncg (unat ncg) 0 UNFS_GROUP0_ITABLE 1
                   (ucast (nblk - META_BLOCKS)) inodes_total s of
              None \<Rightarrow> None
            | Some ((e, fb, fi), s) \<Rightarrow>
                if e \<noteq> UNFS_OK then Some ((e, None), s)
                else
                  (case mkfs_root rd wr s of
                     None \<Rightarrow> None
                   | Some (e, s) \<Rightarrow>
                       if e \<noteq> UNFS_OK then Some ((e, None), s)
                       else bdev_put (wr 0 (sealed (mkfs_sb nblk ncg fb fi)) s) (UNFS_EIO, None)
                              (\<lambda>s. Some ((UNFS_OK, Some UNFS_ROOT_INO), s)))))"

section \<open>Mounting\<close>

definition UNFS_MAX_GROUPS :: u32 where "UNFS_MAX_GROUPS = 256"

record unfs_fs =
  fs_disk :: "u8 list"
  fs_groups :: "nat \<Rightarrow> u32 \<times> u32 \<times> u32"
  fs_n_groups :: u32
  fs_n_snapshots :: u8
  fs_cow_active :: u8
  fs_dev_id :: u32
  fs_mounted :: u8

definition verify_sb :: "u8 list \<Rightarrow> unfs_err" where
  "verify_sb d =
     (if s_magic d \<noteq> UNFS_MAGIC then UNFS_EBADMAGIC
      else if s_block_size d \<noteq> of_nat UNFS_BLOCK_SIZE then UNFS_EBADSB
      else if s_inode_size d \<noteq> UNFS_INODE_BYTES then UNFS_EBADSB
      else if s_block_count d = 0 then UNFS_EBADSB
      else if s_group_count d = 0 then UNFS_EBADSB
      else if UNFS_MAX_GROUPS < s_group_count d then UNFS_EBADSB
      else if s_sb_checksum d \<noteq> 0 \<and> unfs_crc32 (set_checksum 0 d) \<noteq> s_sb_checksum d then UNFS_EBADCRC
      else UNFS_OK)"

definition GROUPS_PER_BLOCK :: nat where "GROUPS_PER_BLOCK = UNFS_BLOCK_SIZE div 12"

text \<open>The loop of \<open>load_groups\<close> over \<open>n\<close> groups from \<open>i\<close> on.\<close>

primrec load_from :: "'s bdev_rd \<Rightarrow> u8 list \<Rightarrow> nat \<Rightarrow> nat \<Rightarrow> unfs_fs \<Rightarrow> 's \<Rightarrow> ((unfs_err \<times> unfs_fs) \<times> 's) option" where
  "load_from rd d 0 i fs s = Some ((UNFS_OK, fs), s)"
| "load_from rd d (Suc n) i fs s =
     bdev_get (rd (UNFS_GROUP0_DESC + of_nat (i div GROUPS_PER_BLOCK)) s) (UNFS_EIO, fs) (\<lambda>gblock s.
       let off = (i mod GROUPS_PER_BLOCK) * 12;
           bb = le_word 4 gblock off; ib = le_word 4 gblock (off + 4); it = le_word 4 gblock (off + 8);
           fs = fs\<lparr>fs_groups := (fs_groups fs)(i := (bb, ib, it))\<rparr>;
           blocks = ucast (s_block_count d)
       in if bb = 0 \<or> blocks \<le> bb \<or> blocks \<le> ib \<or> blocks \<le> it then Some ((UNFS_EBADSB, fs), s)
          else load_from rd d n (i + 1) fs s)"

definition load_groups :: "'s bdev_rd \<Rightarrow> u8 list \<Rightarrow> unfs_fs \<Rightarrow> 's \<Rightarrow> ((unfs_err \<times> unfs_fs) \<times> 's) option" where
  "load_groups rd d fs s =
     (case load_from rd d (unat (s_group_count d)) 0 fs s of
        None \<Rightarrow> None
      | Some ((e, fs), s) \<Rightarrow>
          Some ((e, if e = UNFS_OK then fs\<lparr>fs_n_groups := s_group_count d\<rparr> else fs), s))"

definition unfs_kern_mount :: "'s bdev_rd \<Rightarrow> u32 \<Rightarrow> unfs_fs \<Rightarrow> 's \<Rightarrow> ((unfs_err \<times> unfs_fs) \<times> 's) option" where
  "unfs_kern_mount rd dv fs s =
     (let fs = fs\<lparr>fs_n_groups := 0, fs_mounted := 0, fs_cow_active := 0, fs_n_snapshots := 0, fs_dev_id := dv\<rparr>
      in bdev_get (rd 0 s) (UNFS_EIO, fs) (\<lambda>blk0 s.
           let fs = fs\<lparr>fs_disk := blk0\<rparr>; rc = verify_sb blk0 in
           if rc \<noteq> UNFS_OK then Some ((rc, fs), s)
           else
             (case load_groups rd blk0 fs s of
                None \<Rightarrow> None
              | Some ((rc, fs), s) \<Rightarrow>
                  if rc \<noteq> UNFS_OK then Some ((rc, fs), s)
                  else Some ((UNFS_OK, fs\<lparr>fs_mounted := 1\<rparr>), s))))"

definition unfs_kern_unmount :: "unfs_fs \<Rightarrow> unfs_err \<times> unfs_fs" where
  "unfs_kern_unmount fs =
     (if fs_mounted fs = 0 then (UNFS_EINVAL, fs)
      else (UNFS_OK, fs\<lparr>fs_mounted := 0, fs_n_groups := 0, fs_cow_active := 0, fs_n_snapshots := 0\<rparr>))"

definition unfs_kern_sync :: "'s bdev_rd \<Rightarrow> 's bdev_wr \<Rightarrow> unfs_fs \<Rightarrow> 's \<Rightarrow> (unfs_err \<times> 's) option" where
  "unfs_kern_sync rd wr fs s =
     (if fs_mounted fs = 0 then Some (UNFS_EINVAL, s)
      else bdev_get (rd 0 s) UNFS_EIO (\<lambda>blk0 s.
        bdev_put (wr 0 (sealed (fs_disk fs)) s) UNFS_EIO (\<lambda>s. Some (UNFS_OK, s))))"

section \<open>A volume of one group\<close>

lemma length_mkfs [simp]:
  "length zero_block = UNFS_BLOCK_SIZE" "length (bitmap_set_used b bm) = length bm"
  "length (bitmap_set_free b bm) = length bm"
  by (simp_all add: zero_block_def bitmap_set_used_def bitmap_set_free_def)

lemma length_fold_bits [simp]:
  "length (fold bitmap_set_used ks bm) = length bm" "length (fold bitmap_set_free ks bm) = length bm"
  by (induction ks arbitrary: bm) simp_all

text \<open>A field put into a block, with the length as a fixed number so that nested updates stay cheap.\<close>

lemma put_block:
  fixes bs :: "u8 list"
  assumes "length bs = 4096" and "i + k \<le> 4096"
  shows "length (put_le k i w bs) = 4096"
    and "j + m \<le> 4096 \<Longrightarrow> j + m \<le> i \<or> i + k \<le> j \<Longrightarrow> le_word m (put_le k i w bs) j = le_word m bs j"
    and "LENGTH('a::len) = 8 * k \<Longrightarrow> le_word k (put_le k i (v :: 'a word) bs) i = v"
  using assms by (simp_all add: get_put_other get_put_same)

lemma length_maps [simp]:
  "length (mkfs_bbmap nblk ncg blk i) = UNFS_BLOCK_SIZE" "length (mkfs_ibmap i) = UNFS_BLOCK_SIZE"
  "length (group_desc bb ib it) = 12" "length (root_inode b) = 256"
  by (simp_all add: mkfs_bbmap_def mkfs_ibmap_def Let_def group_desc_def root_inode_def UNFS_INODE_BYTES_def)

lemma length_images [simp]:
  "length (mkfs_sb nblk ncg fb fi) = UNFS_BLOCK_SIZE" "length root_dirents = UNFS_BLOCK_SIZE"
  by (simp_all add: mkfs_sb_def root_dirents_def UNFS_BLOCK_SIZE_def zero_block_def put_block(1) del: length_put_le)

lemma mkfs_sb_sel [simp]:
  "s_magic (mkfs_sb nblk ncg fb fi) = UNFS_MAGIC" "s_block_size (mkfs_sb nblk ncg fb fi) = 4096"
  "s_inode_size (mkfs_sb nblk ncg fb fi) = UNFS_INODE_BYTES" "s_block_count (mkfs_sb nblk ncg fb fi) = ucast nblk"
  "s_group_count (mkfs_sb nblk ncg fb fi) = ncg" "s_blocks_per_group (mkfs_sb nblk ncg fb fi) = 8192"
  "s_free_blocks (mkfs_sb nblk ncg fb fi) = fb"
  by (simp_all add: sb_fields mkfs_sb_def zero_block_def UNFS_BLOCK_SIZE_def put_block
      UNFS_DEFAULT_BLOCKS_PER_GROUP_def del: length_put_le)

text \<open>What \<open>mkfs\<close> makes of the counter: the blocks behind the metadata are counted twice.\<close>

definition mkfs_count :: "u32 \<Rightarrow> u64" where
  "mkfs_count nblk = ucast (nblk - 269) + ucast (group_free nblk 1 UNFS_GROUP0_ITABLE 0)"

lemma one_group:
  assumes "64 \<le> unat nblk" and "unat nblk \<le> 8192"
  shows "(nblk + UNFS_DEFAULT_BLOCKS_PER_GROUP - 1) div UNFS_DEFAULT_BLOCKS_PER_GROUP = (1 :: u32)"
proof -
  have "unat (8191 + nblk) = 8191 + unat nblk" using assms by (subst unat_add_lem [THEN iffD1]) simp_all
  moreover have "(8191 + unat nblk) div 8192 = 1" using assms by simp
  moreover have "nblk + 8192 - 1 = 8191 + nblk" by simp
  ultimately have "unat ((nblk + 8192 - 1) div 8192) = 1" by (simp add: unat_div_distrib)
  then show ?thesis by (simp add: UNFS_DEFAULT_BLOCKS_PER_GROUP_def word_unat_eq_iff)
qed

context logged_io
begin

lemma mkfs_group0:
  assumes "ok s" and "\<And>b. b \<in> {1, 262, 263} \<Longrightarrow> img s b \<noteq> None"
  obtains t d where "mkfs_groups rd wr junk nblk 1 1 0 UNFS_GROUP0_ITABLE 1 fb fi s =
      Some ((UNFS_OK, fb + ucast (group_free nblk 1 UNFS_GROUP0_ITABLE 0), fi + 510), t)"
    and "ok t" and "length d = UNFS_BLOCK_SIZE"
    and "img t = (img s)(262 \<mapsto> mkfs_bbmap nblk 1 UNFS_GROUP0_ITABLE 0, 263 \<mapsto> mkfs_ibmap 0, 1 \<mapsto> d)"
proof -
  let ?bm = "mkfs_bbmap nblk 1 UNFS_GROUP0_ITABLE 0" and ?D = "group_desc 262 263 UNFS_GROUP0_ITABLE"
  obtain s1 where s1: "wr 262 ?bm s = Some (True, s1)" "ok s1" "img s1 = (img s)(262 \<mapsto> ?bm)"
    using wr_ok [OF assms(1), of 262 ?bm] assms(2) [of 262] by auto
  have "img s1 263 \<noteq> None" using s1(3) assms(2) [of 263] by simp
  then obtain s2 where s2: "wr 263 (mkfs_ibmap 0) s1 = Some (True, s2)" "ok s2" "img s2 = (img s1)(263 \<mapsto> mkfs_ibmap 0)"
    using wr_ok [OF s1(2), of 263 "mkfs_ibmap 0"] by auto
  obtain g where g: "img s2 1 = Some g" using s2(3) s1(3) assms(2) [of 1] by auto
  obtain s3 where s3: "rd 1 s2 = Some (Some g, s3)" "ok s3" "img s3 = img s2" using rd_ok [OF s2(2) g] by blast
  have lg: "length g = UNFS_BLOCK_SIZE" by (rule img_len [OF s2(2) g])
  let ?d = "put_bytes 0 ?D g"
  have ld: "length ?d = UNFS_BLOCK_SIZE" using lg by (simp add: UNFS_BLOCK_SIZE_def)
  have "img s3 1 \<noteq> None" using s3(3) g by simp
  then obtain s4 where s4: "wr 1 ?d s3 = Some (True, s4)" "ok s4" "img s4 = (img s3)(1 \<mapsto> ?d)"
    using wr_ok [OF s3(2) _ ld] by blast
  have bb: "group_bb UNFS_GROUP0_ITABLE 0 = 262" by (simp add: group_bb_def group_first_blk_def UNFS_GROUP0_ITABLE_def)
  have "mkfs_groups rd wr junk nblk 1 (Suc 0) 0 UNFS_GROUP0_ITABLE 1 fb fi s =
      Some ((UNFS_OK, fb + ucast (group_free nblk 1 UNFS_GROUP0_ITABLE 0), fi + 510), s4)"
    using s1(1) s2(1) s3(1) s4(1)
    by (simp add: Let_def bb UNFS_DEFAULT_INODES_PER_GROUP_def)
  moreover have "img s4 = (img s)(262 \<mapsto> ?bm, 263 \<mapsto> mkfs_ibmap 0, 1 \<mapsto> ?d)" by (simp only: s4(3) s3(3) s2(3) s1(3))
  ultimately show ?thesis using that s4(2) ld by simp
qed

lemma mkfs_root_zero:
  assumes "ok s" and "img s 259 = Some zero_block" and "img s 526 \<noteq> None" and "img s 261 = Some x"
  obtains t where "mkfs_root rd wr s = Some (UNFS_OK, t)" and "ok t"
    and "img t = (img s)(259 \<mapsto> bitmap_set_used 0 zero_block, 526 \<mapsto> root_dirents, 261 \<mapsto> put_bytes 256 (root_inode 526) x)"
proof -
  let ?bm = "bitmap_set_used 0 zero_block"
  have first: "first_idx (\<lambda>b. zero_block ! (b div 8) AND push_bit (b mod 8) 1 = 0) (unat UNFS_GROUP0_DATA) = Some 0"
    by (simp add: first_idx_Some_iff UNFS_GROUP0_DATA_def zero_block_def UNFS_BLOCK_SIZE_def)
  obtain s0 where s0: "rd 259 s = Some (Some zero_block, s0)" "ok s0" "img s0 = img s" using rd_ok [OF assms(1,2)] by blast
  have "img s0 259 \<noteq> None" using s0(3) assms(2) by simp
  then obtain s1 where s1: "wr 259 ?bm s0 = Some (True, s1)" "ok s1" "img s1 = (img s0)(259 \<mapsto> ?bm)"
    using wr_ok [OF s0(2), of 259 ?bm] by auto
  have "img s1 526 \<noteq> None" using s1(3) s0(3) assms(3) by simp
  then obtain s2 where s2: "wr 526 root_dirents s1 = Some (True, s2)" "ok s2" "img s2 = (img s1)(526 \<mapsto> root_dirents)"
    using wr_ok [OF s1(2), of 526 root_dirents] by auto
  have x: "img s2 261 = Some x" using s2(3) s1(3) s0(3) assms(4) by simp
  obtain s3 where s3: "rd 261 s2 = Some (Some x, s3)" "ok s3" "img s3 = img s2" using rd_ok [OF s2(2) x] by blast
  have lx: "length (put_bytes 256 (root_inode 526) x) = UNFS_BLOCK_SIZE"
    using img_len [OF s2(2) x] by (simp add: UNFS_BLOCK_SIZE_def)
  have "img s3 261 \<noteq> None" using s3(3) x by simp
  then obtain s4 where s4: "wr 261 (put_bytes 256 (root_inode 526) x) s3 = Some (True, s4)" "ok s4"
    "img s4 = (img s3)(261 \<mapsto> put_bytes 256 (root_inode 526) x)"
    using wr_ok [OF s3(2) _ lx] by blast
  have c: "UNFS_GROUP0_BBMAP = 259" "root_slot_blk = 261" "root_slot_off = 256" "UNFS_GROUP0_DATA_START = 526"
    by (simp_all add: unfs_layout root_slot_blk_def root_slot_off_def UNFS_ROOT_INO_def UNFS_INODE_BYTES_def UNFS_BLOCK_SIZE_def)
  have "mkfs_root rd wr s = Some (UNFS_OK, s4)"
    using s0(1) s1(1) s2(1) s3(1) s4(1) first by (simp add: mkfs_root_def c)
  moreover have "img s4 = (img s)(259 \<mapsto> ?bm, 526 \<mapsto> root_dirents, 261 \<mapsto> put_bytes 256 (root_inode 526) x)"
    by (simp only: s4(3) s3(3) s2(3) s1(3) s0(3))
  ultimately show ?thesis using that s4(2) by blast
qed

lemma format_one:
  assumes "ok s" and n: "64 \<le> unat nblk" "unat nblk \<le> 8192"
    and res: "\<And>b. b \<in> {0, 1, 261, 262, 263, 526} \<Longrightarrow> img s b \<noteq> None" and z: "img s 259 = Some zero_block"
  obtains t d x fi where "unfs_format rd wr junk nblk s = Some ((UNFS_OK, Some UNFS_ROOT_INO), t)" and "ok t"
    and "img t = (img s)(262 \<mapsto> mkfs_bbmap nblk 1 UNFS_GROUP0_ITABLE 0, 263 \<mapsto> mkfs_ibmap 0, 1 \<mapsto> d,
      259 \<mapsto> bitmap_set_used 0 zero_block, 526 \<mapsto> root_dirents, 261 \<mapsto> put_bytes 256 (root_inode 526) x,
      0 \<mapsto> sealed (mkfs_sb nblk 1 (mkfs_count nblk) fi))" and "length x = UNFS_BLOCK_SIZE"
proof -
  obtain s1 d where s1: "mkfs_groups rd wr junk nblk 1 1 0 UNFS_GROUP0_ITABLE 1 (ucast (nblk - 269)) 512 s =
      Some ((UNFS_OK, mkfs_count nblk, 1022), s1)" "ok s1"
    "img s1 = (img s)(262 \<mapsto> mkfs_bbmap nblk 1 UNFS_GROUP0_ITABLE 0, 263 \<mapsto> mkfs_ibmap 0, 1 \<mapsto> d)"
    by (rule mkfs_group0 [OF assms(1), of junk nblk "ucast (nblk - 269)" 512]) (use res in \<open>auto simp: mkfs_count_def\<close>)
  have r: "img s1 259 = Some zero_block" "img s1 526 \<noteq> None" "img s1 0 \<noteq> None" using s1(3) res z by simp_all
  obtain x where x: "img s1 261 = Some x" using s1(3) res [of 261] by auto
  obtain s2 where s2: "mkfs_root rd wr s1 = Some (UNFS_OK, s2)" "ok s2"
    "img s2 = (img s1)(259 \<mapsto> bitmap_set_used 0 zero_block, 526 \<mapsto> root_dirents, 261 \<mapsto> put_bytes 256 (root_inode 526) x)"
    by (rule mkfs_root_zero [OF s1(2) r(1,2) x])
  let ?sb = "sealed (mkfs_sb nblk 1 (mkfs_count nblk) 1022)"
  have "img s2 0 \<noteq> None" "length ?sb = UNFS_BLOCK_SIZE" using s2(3) r(3) by simp_all
  then obtain t where t: "wr 0 ?sb s2 = Some (True, t)" "ok t" "img t = (img s2)(0 \<mapsto> ?sb)"
    using wr_ok [OF s2(2)] by blast
  have "\<not> nblk < 64" using n(1) by (simp add: word_less_nat_alt)
  then have "unfs_format rd wr junk nblk s = Some ((UNFS_OK, Some UNFS_ROOT_INO), t)"
    using s1(1) s2(1) t(1)
    by (simp add: unfs_format_def one_group [OF n] Let_def META_BLOCKS_def UNFS_GROUP0_DATA_def
        UNFS_DEFAULT_INODES_PER_GROUP_def del: mkfs_groups.simps)
  moreover have "img t = (img s)(262 \<mapsto> mkfs_bbmap nblk 1 UNFS_GROUP0_ITABLE 0, 263 \<mapsto> mkfs_ibmap 0, 1 \<mapsto> d,
      259 \<mapsto> bitmap_set_used 0 zero_block, 526 \<mapsto> root_dirents, 261 \<mapsto> put_bytes 256 (root_inode 526) x, 0 \<mapsto> ?sb)"
    by (simp only: t(3) s2(3) s1(3))
  ultimately show ?thesis using that t(2) img_len [OF s1(2) x] by blast
qed

end

section \<open>Mounting a volume of one group\<close>

lemma put_le_twice:
  fixes bs :: "u8 list"
  assumes "i + k \<le> length bs"
  shows "put_le k i w (put_le k i v bs) = put_le k i w bs"
  by (rule nth_equalityI) (use assms in \<open>simp_all add: put_le_def put_bytes_nth\<close>)

lemma verify_sealed:
  assumes "length sb = UNFS_BLOCK_SIZE" and "s_magic sb = UNFS_MAGIC" and "s_block_size sb = 4096"
    and "s_inode_size sb = UNFS_INODE_BYTES" and "s_block_count sb \<noteq> 0" and "s_group_count sb = 1"
  shows "verify_sb (sealed sb) = UNFS_OK"
proof -
  have "set_checksum 0 (sealed sb) = set_checksum 0 sb"
    using assms(1) by (simp add: sealed_def Let_def set_checksum_def put_le_twice UNFS_BLOCK_SIZE_def)
  moreover have "s_sb_checksum (sealed sb) = unfs_crc32 (set_checksum 0 sb)"
    using assms(1) by (simp add: sealed_def Let_def)
  moreover have "s_block_size (sealed sb) = s_block_size sb" "s_inode_size (sealed sb) = s_inode_size sb"
    using assms(1) by (simp_all add: sealed_def Let_def)
  ultimately show ?thesis
    using assms by (simp add: verify_sb_def UNFS_BLOCK_SIZE_def UNFS_MAX_GROUPS_def)
qed

definition bad_desc :: "u8 list \<Rightarrow> u8 list \<Rightarrow> bool" where
  "bad_desc sb g \<longleftrightarrow> le_word 4 g 0 = (0 :: u32) \<or> ucast (s_block_count sb) \<le> (le_word 4 g 0 :: u32) \<or>
     ucast (s_block_count sb) \<le> (le_word 4 g 4 :: u32) \<or> ucast (s_block_count sb) \<le> (le_word 4 g 8 :: u32)"

context logged_io
begin

lemma mount_one:
  assumes "ok s" and "img s 0 = Some sb" and "s_group_count sb = 1" and "img s 258 = Some g"
  obtains u h' where "unfs_kern_mount rd dv h s =
      Some ((if verify_sb sb \<noteq> UNFS_OK then verify_sb sb else if bad_desc sb g then UNFS_EBADSB else UNFS_OK, h'), u)"
    and "ok u" and "img u = img s" and "fs_disk h' = sb"
    and "fs_mounted h' = (if verify_sb sb = UNFS_OK \<and> \<not> bad_desc sb g then 1 else 0)"
proof -
  obtain s1 where s1: "rd 0 s = Some (Some sb, s1)" "ok s1" "img s1 = img s" using rd_ok [OF assms(1,2)] by blast
  have "img s1 258 = Some g" using s1(3) assms(4) by simp
  then obtain s2 where s2: "rd 258 s1 = Some (Some g, s2)" "ok s2" "img s2 = img s1" using rd_ok [OF s1(2)] by blast
  let ?h = "h\<lparr>fs_n_groups := 0, fs_mounted := 0, fs_cow_active := 0, fs_n_snapshots := 0, fs_dev_id := dv, fs_disk := sb\<rparr>"
  show ?thesis
  proof (cases "verify_sb sb = UNFS_OK")
    case False
    then show ?thesis using s1
      by (intro that [where u = s1 and h' = ?h]) (simp_all add: unfs_kern_mount_def Let_def)
  next
    case True
    define k where "k = ?h\<lparr>fs_groups := (fs_groups ?h)(0 := (le_word 4 g 0, le_word 4 g 4, le_word 4 g 8))\<rparr>"
    have "load_groups rd sb ?h s1 = Some ((if bad_desc sb g then UNFS_EBADSB else UNFS_OK,
        (if bad_desc sb g then k else k\<lparr>fs_n_groups := 1\<rparr>)), s2)"
      using s2(1) assms(3) by (auto simp: load_groups_def UNFS_GROUP0_DESC_def Let_def bad_desc_def k_def)
    then show ?thesis using True s1 s2(2,3)
      by (intro that [where u = s2 and h' = "if bad_desc sb g then k else k\<lparr>fs_n_groups := 1, fs_mounted := 1\<rparr>"])
        (simp_all add: unfs_kern_mount_def Let_def k_def)
  qed
qed

lemma sync_ok:
  assumes "ok s" and "img s 0 \<noteq> None" and "fs_mounted h \<noteq> 0" and "length (fs_disk h) = UNFS_BLOCK_SIZE"
  shows "\<exists>u. unfs_kern_sync rd wr h s = Some (UNFS_OK, u) \<and> ok u \<and> img u = (img s)(0 \<mapsto> sealed (fs_disk h))"
proof -
  obtain x where x: "img s 0 = Some x" using assms(2) by blast
  obtain s1 where s1: "rd 0 s = Some (Some x, s1)" "ok s1" "img s1 = img s" using rd_ok [OF assms(1) x] by blast
  have "img s1 0 \<noteq> None" using s1(3) assms(2) by simp
  then obtain u where u: "wr 0 (sealed (fs_disk h)) s1 = Some (True, u)" "ok u" "img u = (img s1)(0 \<mapsto> sealed (fs_disk h))"
    using wr_ok [OF s1(2) _ length_sb(4) [OF assms(4)]] by blast
  have "unfs_kern_sync rd wr h s = Some (UNFS_OK, u)" using assms(3) s1(1) u(1) by (simp add: unfs_kern_sync_def)
  then show ?thesis using u(2,3) unfolding s1(3) by blast
qed

end

section \<open>Properties\<close>

text \<open>The blocks that \<open>mkfs\<close> reads or writes on a device of one group.\<close>

abbreviation mkfs_blks :: "u32 set" where "mkfs_blks \<equiv> {0, 1, 261, 262, 263, 526}"

lemma fresh_format:
  fixes s :: "'m fs_state"
  assumes "io_ok (fs_cache s)" and "64 \<le> unat nblk" and "unat nblk \<le> 8192"
    and "\<And>b. b \<in> mkfs_blks \<Longrightarrow> vol_img dv s b \<noteq> None" and "vol_img dv s 259 = Some zero_block"
  obtains t :: "'m fs_state" and d x fi
  where "unfs_format (fs_read dv) (fs_write dv) junk nblk s = Some ((UNFS_OK, Some UNFS_ROOT_INO), t)"
    and "io_ok (fs_cache t)"
    and "vol_img dv t = (vol_img dv s)(262 \<mapsto> mkfs_bbmap nblk 1 UNFS_GROUP0_ITABLE 0, 263 \<mapsto> mkfs_ibmap 0, 1 \<mapsto> d,
      259 \<mapsto> bitmap_set_used 0 zero_block, 526 \<mapsto> root_dirents, 261 \<mapsto> put_bytes 256 (root_inode 526) x,
      0 \<mapsto> sealed (mkfs_sb nblk 1 (mkfs_count nblk) fi))" and "length x = UNFS_BLOCK_SIZE"
  by (rule fs.format_one [where dv = dv and s = s and nblk = nblk and junk = junk, unfolded comp_def])
    (use assms in auto)

text \<open>C38: A volume that \<open>mkfs\<close> has just made cannot be mounted: \<open>mkfs\<close> packs the group descriptors into
  block 1, the mount code reads them from block 258, finds the zero bitmap number that was there and
  refuses the volume, although its superblock passes every check.\<close>

theorem fresh_volume_never_mounts:
  assumes "io_ok (fs_cache s)" and "64 \<le> unat nblk" and "unat nblk \<le> 8192"
    and "\<And>b. b \<in> mkfs_blks \<Longrightarrow> vol_img dv s b \<noteq> None" and "vol_img dv s 259 = Some zero_block"
    and "vol_img dv s 258 = Some g" and "le_word 4 g 0 = (0 :: u32)"
  shows "\<exists>t sb. unfs_format (fs_read dv) (fs_write dv) junk nblk s = Some ((UNFS_OK, Some UNFS_ROOT_INO), t) \<and>
    vol_img dv t 0 = Some sb \<and> verify_sb sb = UNFS_OK \<and>
    (\<forall>h. \<exists>h' u. unfs_kern_mount (fs_read dv) dv h t = Some ((UNFS_EBADSB, h'), u) \<and> fs_mounted h' = 0)"
proof -
  obtain t d x fi where t: "unfs_format (fs_read dv) (fs_write dv) junk nblk s = Some ((UNFS_OK, Some UNFS_ROOT_INO), t)"
    "io_ok (fs_cache t)"
    "vol_img dv t = (vol_img dv s)(262 \<mapsto> mkfs_bbmap nblk 1 UNFS_GROUP0_ITABLE 0, 263 \<mapsto> mkfs_ibmap 0, 1 \<mapsto> d,
      259 \<mapsto> bitmap_set_used 0 zero_block, 526 \<mapsto> root_dirents, 261 \<mapsto> put_bytes 256 (root_inode 526) x,
      0 \<mapsto> sealed (mkfs_sb nblk 1 (mkfs_count nblk) fi))"
    by (rule fresh_format [OF assms(1-5)])
  let ?sb = "sealed (mkfs_sb nblk 1 (mkfs_count nblk) fi)"
  have i: "vol_img dv t 0 = Some ?sb" "vol_img dv t 258 = Some g" using assms(6) by (simp_all add: t(3))
  have "(ucast nblk :: u64) \<noteq> 0" using unat_widened [of nblk] assms(2) by (metis not_numeral_le_zero unat_0)
  then have v: "verify_sb ?sb = UNFS_OK" by (intro verify_sealed) simp_all
  have bad: "bad_desc ?sb g" using assms(7) by (simp add: bad_desc_def)
  have "\<exists>h' u. unfs_kern_mount (fs_read dv) dv h t = Some ((UNFS_EBADSB, h'), u) \<and> fs_mounted h' = 0" for h
    by (rule fs.mount_one [where dv = dv and s = t and sb = ?sb and g = g and h = h, unfolded comp_def])
      (use t(2) i v bad in auto)
  with t(1) i(1) v show ?thesis by blast
qed

lemma fresh_bits: "bit_is_free (bitmap_set_used 0 zero_block) c \<longleftrightarrow> c = 0" if "c < 32768"
proof -
  have "bitmap_set_used 0 zero_block = release_bits 0 1 zero_block"
    by (simp add: bitmap_set_used_def release_bits_def bit_set_free_def)
  moreover have "bit_is_free (release_bits 0 1 zero_block) c \<longleftrightarrow> bit_is_free zero_block c \<or> (0 \<le> c \<and> c < 0 + 1)"
    by (rule release_bits_free) (simp add: UNFS_BLOCK_SIZE_def)
  moreover have "\<not> bit_is_free zero_block c"
    using that by (simp add: zero_block_def bit_is_free_bit less_mult_imp_div_less UNFS_BLOCK_SIZE_def)
  ultimately show ?thesis by simp
qed

lemma find_one: "find_run bm limit 1 = Some st \<Longrightarrow> bit_is_free bm st \<and> st < unat limit"
  using find_run_Some(1,2) [of bm limit 1 st] by force

text \<open>\<open>mkfs\<close> and the allocator disagree on what a set bit means, and on where the bitmap is: on a
  zeroed device the only block that the allocator finds free after \<open>mkfs\<close> is the one that holds the
  root directory.  The first allocation hands it out, and the volume is full after that.\<close>

theorem fresh_volume_gives_root_block:
  assumes "io_ok (fs_cache s)" and "527 \<le> unat nblk" and "unat nblk \<le> 8192"
    and "\<And>b. b \<in> mkfs_blks \<Longrightarrow> vol_img dv s b \<noteq> None" and "vol_img dv s 259 = Some zero_block"
  shows "\<exists>t u v itab. unfs_format (fs_read dv) (fs_write dv) junk nblk s = Some ((UNFS_OK, Some UNFS_ROOT_INO), t) \<and>
    vol_img dv t 261 = Some itab \<and> le_word 4 itab (256 + 72) = (526 :: u32) \<and>
    vol_img dv t 526 = Some root_dirents \<and>
    unfs_alloc_block now dv t = Some (526, u) \<and> unfs_alloc_block now dv u = Some (0, v)"
proof -
  have n64: "64 \<le> unat nblk" using assms(2) by simp
  obtain t d x fi where t: "unfs_format (fs_read dv) (fs_write dv) junk nblk s = Some ((UNFS_OK, Some UNFS_ROOT_INO), t)"
    "io_ok (fs_cache t)"
    "vol_img dv t = (vol_img dv s)(262 \<mapsto> mkfs_bbmap nblk 1 UNFS_GROUP0_ITABLE 0, 263 \<mapsto> mkfs_ibmap 0, 1 \<mapsto> d,
      259 \<mapsto> bitmap_set_used 0 zero_block, 526 \<mapsto> root_dirents, 261 \<mapsto> put_bytes 256 (root_inode 526) x,
      0 \<mapsto> sealed (mkfs_sb nblk 1 (mkfs_count nblk) fi))" "length x = UNFS_BLOCK_SIZE"
    by (rule fresh_format [OF assms(1) n64 assms(3-5)])
  let ?sb = "sealed (mkfs_sb nblk 1 (mkfs_count nblk) fi)" and ?bm = "bitmap_set_used 0 zero_block"
  have vol: "vol_ok (vol_img dv t) ?sb ?bm"
    using assms(2) unsigned_less [of nblk]
    by (simp add: vol_ok_def t(3) UNFS_GROUP0_BBMAP_def UNFS_BITS_PER_BITMAP_BLOCK_def unat_widened)
  have lim: "0 < unat (group_limit ?sb 0)" "unat (group_limit ?sb 0) \<le> 32768"
    using group0_limit [OF vol] assms(2) vol_okD(8) [OF vol] by (simp_all add: unat_widened)
  have one: "find_run ?bm (group_limit ?sb 0) 1 = Some 0"
  proof (cases "find_run ?bm (group_limit ?sb 0) 1")
    case None
    have "\<exists>k<unat (1 :: u32). \<not> bit_is_free ?bm (0 + k)"
      by (rule find_run_None [OF None]) (use lim(1) in simp_all)
    then show ?thesis using fresh_bits by simp
  next
    case (Some st)
    then show ?thesis using find_one [OF Some] fresh_bits [of st] lim(2) by simp
  qed
  obtain u where u: "unfs_alloc_run now dv 1 zero_run t = Some ((UNFS_OK, \<lparr>first_blk = 526, run_count = 1, run_group = 0\<rparr>), u)"
    "io_ok (fs_cache u)" "vol_img dv u = (vol_img dv t)(UNFS_GROUP0_BBMAP \<mapsto> claim_bits 0 (unat (1 :: u32)) ?bm,
       0 \<mapsto> sealed (set_free_blocks (taken_from 1 ?sb) ?sb))"
    using alloc_one [OF t(2) vol, of 1 now zero_run] one by auto
  let ?bm' = "claim_bits 0 (unat (1 :: u32)) ?bm"
  have len: "length ?bm' = UNFS_BLOCK_SIZE" by simp
  note V = vol_commit [OF vol len u(3)]
  have "find_run ?bm' (group_limit (sealed (set_free_blocks (taken_from 1 ?sb) ?sb)) 0) 1 = None"
  proof (rule ccontr)
    assume "find_run ?bm' (group_limit (sealed (set_free_blocks (taken_from 1 ?sb) ?sb)) 0) 1 \<noteq> None"
    then obtain st where st: "bit_is_free ?bm' st" "st < 32768" using find_one lim(2) V(2) by fastforce
    moreover have "bit_is_free ?bm' st \<longleftrightarrow> bit_is_free ?bm st \<and> \<not> (0 \<le> st \<and> st < 0 + unat (1 :: u32))"
      by (rule claim_bits_free) (simp add: UNFS_BLOCK_SIZE_def)
    ultimately show False using fresh_bits [of st] by auto
  qed
  then obtain v where v: "unfs_alloc_run now dv 1 zero_run u = Some ((UNFS_ENOSPC, zero_run), v)"
    using alloc_one [OF u(2) V(1), of 1 now zero_run] by auto
  have "unfs_alloc_block now dv t = Some (526, u)" "unfs_alloc_block now dv u = Some (0, v)"
    using u(1) v by (simp_all add: unfs_alloc_block_def alloc_block_def unfs_alloc_run_def zero_run_def)
  moreover have "le_word 4 (put_bytes 256 (root_inode 526) x) (256 + 72) = (526 :: u32)"
  proof -
    have "le_word 4 (put_bytes 256 (root_inode 526) x) (256 + 72) = (le_word 4 (root_inode 526) 72 :: u32)"
      using t(4) by (simp add: eval_nat_numeral(2,3) put_bytes_nth UNFS_BLOCK_SIZE_def)
    then show ?thesis by (simp add: root_inode_def UNFS_INODE_BYTES_def get_put_same get_put_other)
  qed
  moreover have "vol_img dv t 261 = Some (put_bytes 256 (root_inode 526) x)" "vol_img dv t 526 = Some root_dirents"
    by (simp_all add: t(3))
  ultimately show ?thesis using t(1) by blast
qed

text \<open>\<open>unfs_kern_sync\<close> writes back the superblock read at mount time, although the allocator keeps
  its counter on the device: an allocation between mount and sync is undone in the counter and not in
  the bitmap, so the volume reports more free blocks than it has.\<close>

theorem sync_reverts_free_count:
  assumes "io_ok (fs_cache s)" and "vol_ok (vol_img dv s) sb bm"
    and "unat (s_free_blocks sb) = card (free_blks sb bm)" and "vol_img dv s 258 = Some g"
    and "unfs_kern_mount (fs_read dv) dv h s = Some ((UNFS_OK, fs), s1)"
    and "want \<noteq> 0" and "unfs_alloc_run now dv want out s1 = Some ((UNFS_OK, r), t)"
  shows "\<exists>u sb' bm'. unfs_kern_sync (fs_read dv) (fs_write dv) fs t = Some (UNFS_OK, u) \<and>
    vol_ok (vol_img dv u) sb' bm' \<and> s_free_blocks sb' = s_free_blocks sb \<and>
    unat (s_free_blocks sb') = card (free_blks sb' bm') + unat want"
proof -
  note v = vol_okD [OF assms(2)]
  have m: "io_ok (fs_cache s1)" "vol_img dv s1 = vol_img dv s" "fs_disk fs = sb" "fs_mounted fs \<noteq> 0"
    by (rule fs.mount_one [where dv = dv and s = s and sb = sb and g = g and h = h, unfolded comp_def];
        use assms(1,4,5) v(1,6) in \<open>auto split: if_splits\<close>)+
  have vol1: "vol_ok (vol_img dv s1) sb bm" using assms(2) m(2) by simp
  have "find_run bm (group_limit sb 0) want \<noteq> None"
    using alloc_one [OF m(1) vol1 assms(6), of now out] assms(7) by (auto split: option.splits)
  then obtain st where st: "find_run bm (group_limit sb 0) want = Some st" by blast
  obtain t' where t': "unfs_alloc_run now dv want out s1 =
      Some ((UNFS_OK, \<lparr>first_blk = 526 + of_nat st, run_count = want, run_group = 0\<rparr>), t')" "io_ok (fs_cache t')"
    "vol_img dv t' = (vol_img dv s1)(UNFS_GROUP0_BBMAP \<mapsto> claim_bits st (unat want) bm,
       0 \<mapsto> sealed (set_free_blocks (taken_from want sb) sb))"
    using alloc_one [OF m(1) vol1 assms(6), of now out] st by auto
  with assms(7) have tt: "t' = t" by simp
  obtain t2 sb2 bm2 where b: "unfs_alloc_run now dv want out s1 =
      Some ((UNFS_OK, \<lparr>first_blk = 526 + of_nat st, run_count = want, run_group = 0\<rparr>), t2)"
    "vol_ok (vol_img dv t2) sb2 bm2" "set (blk_run (526 + of_nat st) want) \<subseteq> free_blks sb bm"
    "free_blks sb2 bm2 = free_blks sb bm - set (blk_run (526 + of_nat st) want)" "group_limit sb2 0 = group_limit sb 0"
    by (rule alloc_books [OF m(1) vol1 assms(3) assms(6) st, of now out])
  with assms(7) have t2: "t2 = t" by simp
  have bm2: "bm2 = claim_bits st (unat want) bm"
    using vol_okD(2) [OF b(2)] t'(3) unfolding t2 tt by (simp add: UNFS_GROUP0_BBMAP_def)
  have "vol_img dv t 0 \<noteq> None" using t'(3) unfolding tt by simp
  then obtain u where u: "unfs_kern_sync (fs_read dv) (fs_write dv) fs t = Some (UNFS_OK, u)"
    "vol_img dv u = (vol_img dv t)(0 \<mapsto> sealed sb)"
    using fs.sync_ok [of t dv fs] t'(2) m(3,4) v(3) unfolding tt by auto
  have lim: "group_limit (sealed sb) 0 = group_limit sb 0" by (rule group_limit_cong) (simp_all add: v(3))
  have "vol_img dv u = (vol_img dv s1)(UNFS_GROUP0_BBMAP \<mapsto> bm2, 0 \<mapsto> sealed sb)"
    using t'(3) unfolding u(2) tt bm2 by simp
  then have "vol_ok (vol_img dv u) (sealed sb) bm2"
    using v bm2 by (simp add: vol_ok_def UNFS_GROUP0_BBMAP_def)
  moreover have "free_blks (sealed sb) bm2 = free_blks sb2 bm2" by (simp add: free_blks_def lim b(5))
  moreover have "card (free_blks sb2 bm2) + unat want = card (free_blks sb bm)"
    using card_mono [OF _ b(3)] b(3,4) by (simp add: card_Diff_subset)
  ultimately show ?thesis using u(1) assms(3) v(3) by (intro exI [of _ u] exI [of _ "sealed sb"] exI [of _ bm2]) simp
qed

text \<open>A zeroed device with the blocks that \<open>mkfs\<close> and the mount code touch, and a volume whose
  descriptor is where the mount code looks for it.\<close>

definition blank_demo :: "ramdisk fs_state" where
  "blank_demo = \<lparr>fs_cache = volume_cache 1 (map (\<lambda>b. (b, zero_block)) [0, 1, 258, 259, 261, 262, 263, 526]) ram_cache,
     fs_jrnl = jr_blank\<rparr>"

lemma blank_demo_vol:
  "io_ok (fs_cache blank_demo)"
  "b \<in> {0, 1, 258, 259, 261, 262, 263, 526} \<Longrightarrow> vol_img 1 blank_demo b = Some zero_block"
proof -
  let ?vol = "map (\<lambda>b. (b :: u32, zero_block)) [0, 1, 258, 259, 261, 262, 263, 526]"
  note V = volume_cache_ok [where vol = ?vol and d = 1 and s = ram_cache]
  show "io_ok (fs_cache blank_demo)" unfolding blank_demo_def fs_state.simps by (rule V(1)) auto
  assume b: "b \<in> {0, 1, 258, 259, 261, 262, 263, 526}"
  have "block_img 1 (fs_cache blank_demo) b = Some zero_block"
    unfolding blank_demo_def fs_state.simps by (rule V(2)) (use b in auto)
  then show "vol_img 1 blank_demo b = Some zero_block" by simp
qed

lemma blank_demo_res: "b \<in> mkfs_blks \<Longrightarrow> vol_img 1 blank_demo b \<noteq> None"
  using blank_demo_vol(2) [of b] by auto

lemma blank_demo_zero:
  "vol_img 1 blank_demo 259 = Some zero_block" "vol_img 1 blank_demo 258 = Some zero_block"
  "le_word 4 zero_block 0 = (0 :: u32)"
  using blank_demo_vol(2) [of 259] blank_demo_vol(2) [of 258]
  by (simp_all add: zero_block_def UNFS_BLOCK_SIZE_def eval_nat_numeral(2,3))

lemma fresh_volume_never_mounts_witness:
  "\<exists>t. unfs_format (fs_read 1) (fs_write 1) zero_block 8192 blank_demo = Some ((UNFS_OK, Some UNFS_ROOT_INO), t) \<and>
    (\<forall>h. \<exists>h' u. unfs_kern_mount (fs_read 1) 1 h t = Some ((UNFS_EBADSB, h'), u))"
proof -
  have n: "64 \<le> unat (8192 :: u32)" "unat (8192 :: u32) \<le> 8192" by simp_all
  show ?thesis
    using fresh_volume_never_mounts [OF blank_demo_vol(1) n blank_demo_res blank_demo_zero, of zero_block] by metis
qed

lemma fresh_volume_gives_root_block_witness:
  "\<exists>t u v. unfs_format (fs_read 1) (fs_write 1) zero_block 8192 blank_demo = Some ((UNFS_OK, Some UNFS_ROOT_INO), t) \<and>
    vol_img 1 t 526 = Some root_dirents \<and>
    unfs_alloc_block 0 1 t = Some (526, u) \<and> unfs_alloc_block 0 1 u = Some (0, v)"
proof -
  have n: "527 \<le> unat (8192 :: u32)" "unat (8192 :: u32) \<le> 8192" by simp_all
  show ?thesis
    using fresh_volume_gives_root_block [OF blank_demo_vol(1) n blank_demo_res blank_demo_zero(1), of zero_block 0] by metis
qed

definition sb_mount :: "u8 list" where
  "sb_mount = put_le 4 8 (4096 :: u32) (put_le 4 12 UNFS_INODE_BYTES sb_demo)"

definition desc_demo :: "u8 list" where "desc_demo = put_le 4 0 (259 :: u32) (put_le 4 4 (260 :: u32) (put_le 4 8 (261 :: u32) zero_block))"

definition mount_demo :: "ramdisk fs_state" where
  "mount_demo = \<lparr>fs_cache = volume_cache 1 [(0, sb_mount), (258, desc_demo), (259, bm_demo)] ram_cache, fs_jrnl = jr_blank\<rparr>"

definition handle_demo :: unfs_fs where
  "handle_demo = \<lparr>fs_disk = [], fs_groups = (\<lambda>_. (0, 0, 0)), fs_n_groups = 0, fs_n_snapshots = 0,
     fs_cow_active = 0, fs_dev_id = 0, fs_mounted = 0\<rparr>"

lemma sb_mount_sel:
  "length sb_mount = 4096" "s_magic sb_mount = UNFS_MAGIC" "s_group_count sb_mount = 1" "s_blocks_per_group sb_mount = 8192"
  "s_block_count sb_mount = 8192" "s_block_size sb_mount = 4096" "s_inode_size sb_mount = UNFS_INODE_BYTES"
  "s_free_blocks sb_mount = 4" "s_sb_checksum sb_mount = 0"
proof -
  have z: "le_word 4 (replicate 4096 0) 159 = (0 :: u32)" by (simp add: eval_nat_numeral(2,3))
  show "length sb_mount = 4096" "s_magic sb_mount = UNFS_MAGIC" "s_group_count sb_mount = 1" "s_blocks_per_group sb_mount = 8192"
    "s_block_count sb_mount = 8192" "s_block_size sb_mount = 4096" "s_inode_size sb_mount = UNFS_INODE_BYTES"
    "s_free_blocks sb_mount = 4" "s_sb_checksum sb_mount = 0"
    by (simp_all add: sb_mount_def sb_demo_def sb_fields sb_updates put_block z del: length_put_le)
qed

lemma mount_demo_vol:
  "io_ok (fs_cache mount_demo)" "vol_ok (vol_img 1 mount_demo) sb_mount bm_demo"
  "free_blks sb_mount bm_demo = {529, 530, 531, 532}" "vol_img 1 mount_demo 258 = Some desc_demo"
proof -
  have lb: "length bm_demo = 4096" by (simp add: bm_demo_def)
  have ld: "length desc_demo = 4096" by (simp add: desc_demo_def zero_block_def UNFS_BLOCK_SIZE_def)
  note l = lb ld sb_mount_sel(1)
  note V = volume_cache_ok [where vol = "[(0, sb_mount), (258, desc_demo), (259, bm_demo)]" and d = 1 and s = ram_cache,
      unfolded UNFS_BLOCK_SIZE_def]
  show "io_ok (fs_cache mount_demo)" unfolding mount_demo_def fs_state.simps by (rule V(1)) (auto simp: l)
  have b: "block_img 1 (fs_cache mount_demo) 0 = Some sb_mount" "block_img 1 (fs_cache mount_demo) 259 = Some bm_demo"
    "block_img 1 (fs_cache mount_demo) 258 = Some desc_demo"
    unfolding mount_demo_def fs_state.simps by (rule V(2); auto simp: l)+
  then show "vol_img 1 mount_demo 258 = Some desc_demo" by simp
  show "vol_ok (vol_img 1 mount_demo) sb_mount bm_demo"
    using b sb_mount_sel by (simp add: vol_ok_def l UNFS_GROUP0_BBMAP_def UNFS_BITS_PER_BITMAP_BLOCK_def UNFS_BLOCK_SIZE_def)
  have "s_group_count sb_demo = 1" "s_block_count sb_demo = 8192" "s_blocks_per_group sb_demo = 8192"
    by (simp_all add: sb_demo_def sb_fields sb_updates put_block del: length_put_le)
  then have "group_limit sb_mount 0 = group_limit sb_demo 0"
    by (intro group_limit_cong) (simp_all add: sb_mount_sel)
  then show "free_blks sb_mount bm_demo = {529, 530, 531, 532}"
    using fs_demo_vol(3) by (simp add: free_blks_def)
qed

lemma mount_demo_mounts:
  obtains h u where "unfs_kern_mount (fs_read 1) 1 handle_demo mount_demo = Some ((UNFS_OK, h), u)"
    and "io_ok (fs_cache u)" and "vol_img 1 u = vol_img 1 mount_demo"
proof -
  have v: "verify_sb sb_mount = UNFS_OK"
    by (simp add: verify_sb_def sb_mount_sel UNFS_BLOCK_SIZE_def UNFS_MAX_GROUPS_def)
  have bad: "\<not> bad_desc sb_mount desc_demo"
    by (simp add: bad_desc_def sb_mount_sel desc_demo_def zero_block_def UNFS_BLOCK_SIZE_def put_block del: length_put_le)
  have "vol_img 1 mount_demo 0 = Some sb_mount" "s_group_count sb_mount = 1"
    using vol_okD(1,6) [OF mount_demo_vol(2)] by simp_all
  then obtain h u where "unfs_kern_mount (fs_read 1) 1 handle_demo mount_demo = Some ((UNFS_OK, h), u)"
    "io_ok (fs_cache u)" "vol_img 1 u = vol_img 1 mount_demo"
    by (rule fs.mount_one [where dv = 1 and s = mount_demo and sb = sb_mount and g = desc_demo and h = handle_demo and dva = 1,
          unfolded comp_def, rotated 1]) (use v bad mount_demo_vol(1,4) in auto)
  then show ?thesis by (rule that)
qed

lemma sync_reverts_free_count_witness:
  "\<exists>fs s1 r t u sb'. unfs_kern_mount (fs_read 1) 1 handle_demo mount_demo = Some ((UNFS_OK, fs), s1) \<and>
    unfs_alloc_run 0 1 3 zero_run s1 = Some ((UNFS_OK, r), t) \<and>
    unfs_kern_sync (fs_read 1) (fs_write 1) fs t = Some (UNFS_OK, u) \<and>
    vol_img 1 u 0 = Some sb' \<and> s_free_blocks sb' = 4"
proof -
  obtain h u where m: "unfs_kern_mount (fs_read 1) 1 handle_demo mount_demo = Some ((UNFS_OK, h), u)"
    "io_ok (fs_cache u)" "vol_img 1 u = vol_img 1 mount_demo" by (rule mount_demo_mounts)
  have c: "unat (s_free_blocks sb_mount) = card (free_blks sb_mount bm_demo)"
    by (simp add: mount_demo_vol(3) sb_mount_sel)
  have z: "(3 :: u32) \<noteq> 0" by simp
  have vol: "vol_ok (vol_img 1 u) sb_mount bm_demo" using mount_demo_vol(2) m(3) by simp
  have "set [529..<529 + unat (3 :: u32)] \<subseteq> free_blks sb_mount bm_demo" unfolding mount_demo_vol(3) by auto
  then have ex: "\<exists>x. set [x..<x + unat (3 :: u32)] \<subseteq> free_blks sb_mount bm_demo" by blast
  obtain r t where a: "unfs_alloc_run 0 1 3 zero_run u = Some ((UNFS_OK, r), t)"
    using unfs_alloc_first_fit [OF m(2) vol c z, of 0 zero_run] unfolding if_P [OF ex] by blast
  obtain w sb' bm' where "unfs_kern_sync (fs_read 1) (fs_write 1) h t = Some (UNFS_OK, w)"
    "vol_ok (vol_img 1 w) sb' bm'" "s_free_blocks sb' = s_free_blocks sb_mount"
    using sync_reverts_free_count [OF mount_demo_vol(1,2) c mount_demo_vol(4) m(1) z a] by blast
  then show ?thesis using m(1) a vol_okD(1) sb_mount_sel(8) by fastforce
qed

end
