(* ===== verification/Extents.thy ===== *)
theory Extents
  imports UnfsFormat
begin

text \<open>
  The block map of a file (\<open>32_FS/01_fsa/src/bmap.c\<close>): four extents in the inode and one overflow
  block that is only read.  Mapping, placing a block, and allocation of a block for an offset,
  composed with the block cache and the UNFS allocator.
\<close>

section \<open>Extents\<close>

record extent =
  e_logical :: u32
  e_physical :: u32
  e_len :: u16
  e_flags :: u16

definition UNFS_EXT_HOLE :: u16 where "UNFS_EXT_HOLE = 2"
definition UNFS_INLINE_EXTENTS :: nat where "UNFS_INLINE_EXTENTS = 4"
definition EXTREE_PER_SECTOR :: nat where "EXTREE_PER_SECTOR = BLOCK_SIZE div 12"

text \<open>The fields of \<open>InCoreInode\<close> that the block map uses.\<close>

record icinode =
  ip_size :: u32
  ip_extents :: "extent list"
  ip_extent_tree :: u32
  ip_dev :: u8

definition extent_covers :: "extent \<Rightarrow> u32 \<Rightarrow> bool" where
  "extent_covers e lb \<longleftrightarrow> e_len e \<noteq> 0 \<and> \<not> lb < e_logical e \<and> \<not> e_logical e + ucast (e_len e) \<le> lb"

definition extent_phys :: "extent \<Rightarrow> u32 \<Rightarrow> u32" where
  "extent_phys e lb =
     (if \<not> extent_covers e lb then 0
      else if e_flags e AND UNFS_EXT_HOLE \<noteq> 0 then 0
      else e_physical e + (lb - e_logical e))"

text \<open>The entries of the overflow block, sector by sector: \<open>Some p\<close> is the return of \<open>p\<close>.\<close>

definition extent_at :: "u8 list \<Rightarrow> nat \<Rightarrow> extent" where
  "extent_at d k = \<lparr>e_logical = le_word 4 d (12 * k), e_physical = le_word 4 d (12 * k + 4),
     e_len = le_word 2 d (12 * k + 8), e_flags = le_word 2 d (12 * k + 10)\<rparr>"

fun extree_scan :: "u8 list \<Rightarrow> u32 \<Rightarrow> nat list \<Rightarrow> u32 option" where
  "extree_scan d lb [] = None"
| "extree_scan d lb (k # ks) =
     (let et = extent_at d k in
      if e_len et = 0 then Some 0
      else if extent_covers et lb then Some (extent_phys et lb)
      else extree_scan d lb ks)"

fun extree_sectors :: "u8 \<Rightarrow> u32 \<Rightarrow> u32 \<Rightarrow> nat list \<Rightarrow> 'm bcache \<Rightarrow> (u32 \<times> 'm bcache) option" where
  "extree_sectors d base lb [] s = Some (0, s)"
| "extree_sectors d base lb (x # xs) s =
     (case bread d (base + of_nat x) s of
        None \<Rightarrow> None
      | Some (None, s) \<Rightarrow> Some (0, s)
      | Some (Some b, s) \<Rightarrow>
          (case extree_scan (data (hdr s b)) lb [0..<EXTREE_PER_SECTOR] of
             Some p \<Rightarrow> Some (p, brelse (Some b) s)
           | None \<Rightarrow> extree_sectors d base lb xs (brelse (Some b) s)))"

definition extree_lookup :: "u8 \<Rightarrow> u32 \<Rightarrow> u32 \<Rightarrow> 'm bcache \<Rightarrow> (u32 \<times> 'm bcache) option" where
  "extree_lookup d tree_blk lb s =
     extree_sectors d (tree_blk * of_nat UNFS_SECTORS_PER_BLOCK) lb [0..<UNFS_SECTORS_PER_BLOCK] s"

section \<open>bmap\<close>

record bmap_result =
  bm_dev :: u8
  bm_blkno :: u32
  bm_offset :: u32
  bm_bytes :: u32
  bm_readahead :: u32
  bm_valid :: bool

definition bmap_none :: bmap_result where
  "bmap_none = \<lparr>bm_dev = 0, bm_blkno = 0, bm_offset = 0, bm_bytes = 0, bm_readahead = 0, bm_valid = False\<rparr>"

text \<open>What both routines fill in first.\<close>

definition bmap_start :: "icinode \<Rightarrow> u32 \<Rightarrow> bmap_result" where
  "bmap_start ip off = bmap_none\<lparr>bm_dev := ip_dev ip, bm_offset := off mod of_nat UNFS_BLOCK_SIZE,
     bm_bytes := of_nat UNFS_BLOCK_SIZE - off mod of_nat UNFS_BLOCK_SIZE\<rparr>"

abbreviation lblk :: "u32 \<Rightarrow> u32" where "lblk off \<equiv> off div of_nat UNFS_BLOCK_SIZE"

definition bmap_extent_find :: "extent list \<Rightarrow> u32 \<Rightarrow> nat option" where
  "bmap_extent_find es lb = first_idx (\<lambda>i. extent_covers (es ! i) lb) UNFS_INLINE_EXTENTS"

definition bmap :: "icinode \<Rightarrow> u32 \<Rightarrow> 'm bcache \<Rightarrow> (bmap_result \<times> 'm bcache) option" where
  "bmap ip off s =
     (let r = bmap_start ip off in
      case bmap_extent_find (ip_extents ip) (lblk off) of
        Some i \<Rightarrow>
          (let p = extent_phys (ip_extents ip ! i) (lblk off)
           in Some (r\<lparr>bm_blkno := p, bm_valid := p \<noteq> 0\<rparr>, s))
      | None \<Rightarrow>
          if ip_extent_tree ip \<noteq> 0
          then
            (case extree_lookup (ip_dev ip) (ip_extent_tree ip) (lblk off) s of
               None \<Rightarrow> None
             | Some (p, s) \<Rightarrow> Some (r\<lparr>bm_blkno := p, bm_valid := p \<noteq> 0\<rparr>, s))
          else Some (r, s))"

section \<open>Placing a block\<close>

definition leaf_extent :: "u32 \<Rightarrow> u32 \<Rightarrow> extent" where
  "leaf_extent lb p = \<lparr>e_logical = lb, e_physical = p, e_len = 1, e_flags = UNFS_EXT_LEAF\<rparr>"

text \<open>The loop that fills the first empty slot, at the end of cases 2 and 3.\<close>

definition place_leaf :: "extent list \<Rightarrow> u32 \<Rightarrow> u32 \<Rightarrow> unfs_err \<times> extent list" where
  "place_leaf es lb p =
     (case first_idx (\<lambda>i. e_len (es ! i) = 0) UNFS_INLINE_EXTENTS of
        None \<Rightarrow> (UNFS_ENOTSUP, es)
      | Some i \<Rightarrow> (UNFS_OK, es[i := leaf_extent lb p]))"

text \<open>The two parts that remain of an extent around the changed block.\<close>

definition head_of :: "extent \<Rightarrow> u32 \<Rightarrow> extent" where
  "head_of e lb = e\<lparr>e_len := ucast (lb - e_logical e)\<rparr>"

definition tail_of :: "extent \<Rightarrow> u32 \<Rightarrow> extent" where
  "tail_of e lb = \<lparr>e_logical = lb + 1, e_physical = e_physical e + (lb + 1 - e_logical e),
     e_len = ucast (ucast (e_len e) - (lb - e_logical e) - 1), e_flags = e_flags e\<rparr>"

text \<open>Case 2: the head shrinks in its slot, the tail takes the first empty slot, the block itself
  goes to the head's slot when the head is empty and to another empty slot otherwise.\<close>

definition place_split :: "extent list \<Rightarrow> nat \<Rightarrow> u32 \<Rightarrow> u32 \<Rightarrow> unfs_err \<times> extent list" where
  "place_split es slot lb p =
     (let e = es ! slot in
      case first_idx (\<lambda>i. i \<noteq> slot \<and> e_len (es ! i) = 0) UNFS_INLINE_EXTENTS of
        None \<Rightarrow> (UNFS_ENOTSUP, es)
      | Some f \<Rightarrow>
          (let es = es[slot := head_of e lb, f := tail_of e lb]
           in if e_len (es ! slot) = 0 then (UNFS_OK, es[slot := leaf_extent lb p])
              else place_leaf es lb p))"

definition bmap_extent_place :: "extent list \<Rightarrow> u32 \<Rightarrow> u32 \<Rightarrow> unfs_err \<times> extent list" where
  "bmap_extent_place es lb p =
     (if p = 0 then (UNFS_EINVAL, es)
      else
        (case bmap_extent_find es lb of
           Some slot \<Rightarrow>
             if e_len (es ! slot) = 1
             then (UNFS_OK, es[slot := (es ! slot)\<lparr>e_physical := p, e_flags := UNFS_EXT_LEAF\<rparr>])
             else place_split es slot lb p
         | None \<Rightarrow> place_leaf es lb p))"

section \<open>Allocating for an offset\<close>

definition bmap_alloc ::
  "u64 \<Rightarrow> icinode \<Rightarrow> u32 \<Rightarrow> 'm fs_state \<Rightarrow> ((bmap_result \<times> icinode) \<times> 'm fs_state) option" where
  "bmap_alloc now ip off s =
     (let r = bmap_start ip off; lb = lblk off in
      if bmap_extent_find (ip_extents ip) lb \<noteq> None
      then
        (case bmap ip off (fs_cache s) of
           None \<Rightarrow> None | Some (r, c) \<Rightarrow> Some ((r, ip), s\<lparr>fs_cache := c\<rparr>))
      else
        (case unfs_alloc_run now (ucast (ip_dev ip)) 1 \<lparr>first_blk = 0, run_count = 0, run_group = 0\<rparr> s of
           None \<Rightarrow> None
         | Some ((rc, run), s) \<Rightarrow>
             if rc \<noteq> UNFS_OK \<or> run_count run = 0 then Some ((r\<lparr>bm_valid := False\<rparr>, ip), s)
             else
               (let (rc, es) = bmap_extent_place (ip_extents ip) lb (first_blk run);
                    ip = ip\<lparr>ip_extents := es\<rparr>
                in if rc \<noteq> UNFS_OK then Some ((r\<lparr>bm_blkno := first_blk run, bm_valid := False\<rparr>, ip), s)
                   else
                     (let top_end = (lb + 1) * of_nat UNFS_BLOCK_SIZE
                      in Some ((r\<lparr>bm_blkno := first_blk run, bm_valid := True\<rparr>,
                               if ip_size ip < top_end then ip\<lparr>ip_size := top_end\<rparr> else ip), s)))))"

section \<open>Extents as a map\<close>

text \<open>The block that the inline extents give for a logical block; 0 for a hole or no extent.\<close>

definition ext_map :: "extent list \<Rightarrow> u32 \<Rightarrow> u32" where
  "ext_map es lb = (case bmap_extent_find es lb of None \<Rightarrow> 0 | Some i \<Rightarrow> extent_phys (es ! i) lb)"

text \<open>No extent wraps, and no logical block is covered twice.\<close>

definition ext_ok :: "extent \<Rightarrow> bool" where
  "ext_ok e \<longleftrightarrow> unat (e_logical e) + unat (e_len e) < 2 ^ 32"

definition exts_ok :: "extent list \<Rightarrow> bool" where
  "exts_ok es \<longleftrightarrow> length es = UNFS_INLINE_EXTENTS \<and> (\<forall>i<UNFS_INLINE_EXTENTS. ext_ok (es ! i)) \<and>
     (\<forall>i<UNFS_INLINE_EXTENTS. \<forall>j<UNFS_INLINE_EXTENTS. \<forall>x.
        extent_covers (es ! i) x \<longrightarrow> extent_covers (es ! j) x \<longrightarrow> i = j)"

lemma covers_iff:
  assumes "ext_ok e"
  shows "extent_covers e x \<longleftrightarrow> unat (e_logical e) \<le> unat x \<and> unat x < unat (e_logical e) + unat (e_len e)"
proof -
  have l: "unat (ucast (e_len e) :: u32) = unat (e_len e)"
  proof -
    have "unat (e_len e) < 2 ^ 32" by (rule less_trans [OF unsigned_less]) simp
    then show ?thesis by (simp add: unsigned_ucast_eq take_bit_nat_eq_self)
  qed
  have "unat (e_logical e + ucast (e_len e)) = unat (e_logical e) + unat (e_len e)"
    using assms l by (subst unat_add_lem [THEN iffD1]) (simp_all add: ext_ok_def)
  then have "extent_covers e x \<longleftrightarrow>
      e_len e \<noteq> 0 \<and> \<not> unat x < unat (e_logical e) \<and> \<not> unat (e_logical e) + unat (e_len e) \<le> unat x"
    by (simp only: extent_covers_def word_less_nat_alt word_le_nat_alt)
  moreover have "e_len e = 0 \<longleftrightarrow> unat (e_len e) = 0" by (metis unat_0 word_unat_eq_iff)
  ultimately show ?thesis by linarith
qed

lemma exts_okD:
  assumes "exts_ok es"
  shows "length es = UNFS_INLINE_EXTENTS" and "i < UNFS_INLINE_EXTENTS \<Longrightarrow> ext_ok (es ! i)"
    and "i < UNFS_INLINE_EXTENTS \<Longrightarrow> j < UNFS_INLINE_EXTENTS \<Longrightarrow> extent_covers (es ! i) x \<Longrightarrow>
      extent_covers (es ! j) x \<Longrightarrow> i = j"
  using assms by (auto simp: exts_ok_def)

lemma ext_map_at:
  assumes "exts_ok es" and "i < UNFS_INLINE_EXTENTS" and "extent_covers (es ! i) x"
  shows "ext_map es x = extent_phys (es ! i) x" and "bmap_extent_find es x = Some i"
proof -
  have "\<not> extent_covers (es ! j) x" if "j < i" for j
  proof
    assume "extent_covers (es ! j) x"
    moreover have "j < UNFS_INLINE_EXTENTS" using that assms(2) by simp
    ultimately have "j = i" using exts_okD(3) [OF assms(1) _ assms(2) _ assms(3)] by simp
    with that show False by simp
  qed
  with assms(2,3) show "bmap_extent_find es x = Some i"
    by (simp add: bmap_extent_find_def first_idx_Some_iff)
  then show "ext_map es x = extent_phys (es ! i) x" by (simp add: ext_map_def)
qed

lemma ext_map_none:
  assumes "\<And>i. i < UNFS_INLINE_EXTENTS \<Longrightarrow> \<not> extent_covers (es ! i) x"
  shows "ext_map es x = 0"
proof -
  have "bmap_extent_find es x = None"
    using assms by (simp add: bmap_extent_find_def first_idx_None_iff)
  then show ?thesis by (simp add: ext_map_def)
qed

lemma find_cases:
  assumes "exts_ok es"
  obtains (covered) i where "i < UNFS_INLINE_EXTENTS" "bmap_extent_find es lb = Some i" "extent_covers (es ! i) lb"
    "ext_map es lb = extent_phys (es ! i) lb"
  | (free) "bmap_extent_find es lb = None" "\<And>i. i < UNFS_INLINE_EXTENTS \<Longrightarrow> \<not> extent_covers (es ! i) lb"
proof (cases "bmap_extent_find es lb")
  case None
  then show ?thesis using free by (simp add: bmap_extent_find_def first_idx_None_iff)
next
  case (Some i)
  then have "i < UNFS_INLINE_EXTENTS" "extent_covers (es ! i) lb"
    by (simp_all add: bmap_extent_find_def first_idx_Some_iff)
  with covered [of i] Some show ?thesis by (simp add: ext_map_def)
qed

section \<open>One slot changes\<close>

lemma slot_update:
  assumes ok: "exts_ok es" and i: "i < UNFS_INLINE_EXTENTS" and e: "ext_ok e"
    and new: "\<And>x j. extent_covers e x \<Longrightarrow> j < UNFS_INLINE_EXTENTS \<Longrightarrow> extent_covers (es ! j) x \<Longrightarrow> j = i"
  shows "exts_ok (es[i := e])"
    and "ext_map (es[i := e]) x =
      (if extent_covers e x then extent_phys e x else if extent_covers (es ! i) x then 0 else ext_map es x)"
proof -
  note D = exts_okD [OF ok]
  have nth: "es[i := e] ! j = (if j = i then e else es ! j)" if "j < UNFS_INLINE_EXTENTS" for j
    using that D(1) by (cases "j = i") simp_all
  show ok': "exts_ok (es[i := e])"
    unfolding exts_ok_def
  proof (intro conjI allI impI)
    show "length (es[i := e]) = UNFS_INLINE_EXTENTS" using D(1) by simp
    show "ext_ok (es[i := e] ! j)" if "j < UNFS_INLINE_EXTENTS" for j using that e D(2) nth by simp
    show "j = k" if "j < UNFS_INLINE_EXTENTS" "k < UNFS_INLINE_EXTENTS" "extent_covers (es[i := e] ! j) x"
      "extent_covers (es[i := e] ! k) x" for j k x
      using that new [of x j] new [of x k] D(3) [of j k x] nth by (simp split: if_splits)
  qed
  show "ext_map (es[i := e]) x =
      (if extent_covers e x then extent_phys e x else if extent_covers (es ! i) x then 0 else ext_map es x)"
  proof (cases "\<exists>j<UNFS_INLINE_EXTENTS. extent_covers (es[i := e] ! j) x")
    case True
    then obtain j where j: "j < UNFS_INLINE_EXTENTS" "extent_covers (es[i := e] ! j) x" by blast
    have m: "ext_map (es[i := e]) x = extent_phys (es[i := e] ! j) x" by (rule ext_map_at(1) [OF ok' j])
    show ?thesis
    proof (cases "j = i")
      case True
      with m j nth show ?thesis by simp
    next
      case False
      then have c: "extent_covers (es ! j) x" using j nth by simp
      then have "\<not> extent_covers e x" "\<not> extent_covers (es ! i) x"
        using new [OF _ j(1) c] D(3) [OF j(1) i c] False by auto
      with m nth [OF j(1)] False ext_map_at(1) [OF ok j(1) c] show ?thesis by simp
    qed
  next
    case False
    then have n: "\<not> extent_covers e x" "\<And>j. j < UNFS_INLINE_EXTENTS \<Longrightarrow> j \<noteq> i \<Longrightarrow> \<not> extent_covers (es ! j) x"
      using i nth by (metis, metis)
    have "ext_map (es[i := e]) x = 0" by (rule ext_map_none) (use False in auto)
    moreover have "ext_map es x = 0" if "\<not> extent_covers (es ! i) x"
      by (rule ext_map_none) (use n(2) that in blast)
    ultimately show ?thesis using n(1) by simp
  qed
qed

lemma empty_covers: "e_len e = 0 \<Longrightarrow> \<not> extent_covers e x"
  by (simp add: extent_covers_def)

lemma leaf_covers:
  assumes "lb \<noteq> - 1"
  shows "ext_ok (leaf_extent lb p)" and "extent_covers (leaf_extent lb p) x \<longleftrightarrow> x = lb"
    and "extent_phys (leaf_extent lb p) lb = p"
proof -
  have "unat lb \<noteq> 2 ^ 32 - 1"
  proof
    assume "unat lb = 2 ^ 32 - 1"
    then have "lb = - 1" by (simp only: word_unat_eq_iff unsigned_minus_1_eq_mask mask_eq_exp_minus_1) simp
    with assms show False by contradiction
  qed
  moreover have "unat lb < 2 ^ 32" by (rule less_le_trans [OF unsigned_less]) simp
  ultimately have l: "unat lb + 1 < 2 ^ 32" by linarith
  then show ok: "ext_ok (leaf_extent lb p)" by (simp add: ext_ok_def leaf_extent_def)
  show c: "extent_covers (leaf_extent lb p) x \<longleftrightarrow> x = lb" for x
    unfolding covers_iff [OF ok] by (auto simp: leaf_extent_def word_unat_eq_iff)
  show "extent_phys (leaf_extent lb p) lb = p"
    using c [of lb] by (simp add: extent_phys_def) (simp add: leaf_extent_def UNFS_EXT_LEAF_def UNFS_EXT_HOLE_def)
qed

lemma fill_slot:
  assumes ok: "exts_ok es" and i: "i < UNFS_INLINE_EXTENTS" and e: "e_len (es ! i) = 0" and lb: "lb \<noteq> - 1"
    and free: "\<And>j. j < UNFS_INLINE_EXTENTS \<Longrightarrow> \<not> extent_covers (es ! j) lb"
  shows "exts_ok (es[i := leaf_extent lb p])" and "ext_map (es[i := leaf_extent lb p]) = (ext_map es)(lb := p)"
proof -
  note L = leaf_covers [OF lb]
  have new: "j = i" if "extent_covers (leaf_extent lb p) x" "j < UNFS_INLINE_EXTENTS" "extent_covers (es ! j) x" for x j
    using that free [OF that(2)] by (simp add: L(2))
  show "exts_ok (es[i := leaf_extent lb p])" by (rule slot_update(1) [OF ok i L(1)]) (rule new)
  show "ext_map (es[i := leaf_extent lb p]) = (ext_map es)(lb := p)"
  proof
    fix x
    have "ext_map (es[i := leaf_extent lb p]) x =
        (if extent_covers (leaf_extent lb p) x then extent_phys (leaf_extent lb p) x
         else if extent_covers (es ! i) x then 0 else ext_map es x)"
      by (rule slot_update(2) [OF ok i L(1)]) (rule new)
    then show "ext_map (es[i := leaf_extent lb p]) x = ((ext_map es)(lb := p)) x"
      using L(2,3) empty_covers [OF e] by auto
  qed
qed

lemma place_leaf_spec:
  assumes ok: "exts_ok es" and lb: "lb \<noteq> - 1"
    and free: "\<And>j. j < UNFS_INLINE_EXTENTS \<Longrightarrow> \<not> extent_covers (es ! j) lb"
  shows "if \<exists>i<UNFS_INLINE_EXTENTS. e_len (es ! i) = 0
    then \<exists>es'. place_leaf es lb p = (UNFS_OK, es') \<and> exts_ok es' \<and> ext_map es' = (ext_map es)(lb := p)
    else place_leaf es lb p = (UNFS_ENOTSUP, es)"
proof (cases "first_idx (\<lambda>i. e_len (es ! i) = 0) UNFS_INLINE_EXTENTS")
  case None
  then have "\<not> (\<exists>i<UNFS_INLINE_EXTENTS. e_len (es ! i) = 0)" by (simp add: first_idx_None_iff)
  with None show ?thesis by (simp only: if_False place_leaf_def option.case)
next
  case (Some i)
  note S = first_idx_SomeD(1,2) [OF Some]
  have ex: "\<exists>i<UNFS_INLINE_EXTENTS. e_len (es ! i) = 0" using S by blast
  have "place_leaf es lb p = (UNFS_OK, es[i := leaf_extent lb p])" by (simp add: place_leaf_def Some)
  then show ?thesis unfolding if_P [OF ex] using fill_slot [OF ok S lb free] by blast
qed

section \<open>Splitting an extent\<close>

lemma split_lens:
  assumes ok: "ext_ok e" and c: "extent_covers e lb"
  shows "unat (e_logical (head_of e lb)) = unat (e_logical e)"
    and "unat (e_len (head_of e lb)) = unat lb - unat (e_logical e)"
    and "unat (e_logical (tail_of e lb)) = unat lb + 1"
    and "unat (e_len (tail_of e lb)) = unat (e_logical e) + unat (e_len e) - unat lb - 1"
proof -
  have b: "unat (e_logical e) \<le> unat lb" "unat lb < unat (e_logical e) + unat (e_len e)"
    using c unfolding covers_iff [OF ok] by auto
  have len: "unat (e_len e) < 2 ^ 16" by (rule less_le_trans [OF unsigned_less]) simp
  have l: "unat (ucast (e_len e) :: u32) = unat (e_len e)"
    using len by (simp add: unsigned_ucast_eq take_bit_nat_eq_self)
  have d: "unat (lb - e_logical e) = unat lb - unat (e_logical e)"
    using b(1) by (simp add: unat_sub word_le_nat_alt)
  show "unat (e_logical (head_of e lb)) = unat (e_logical e)" by (simp add: head_of_def)
  show "unat (e_len (head_of e lb)) = unat lb - unat (e_logical e)"
    using d b len by (simp add: head_of_def unsigned_ucast_eq take_bit_nat_eq_self)
  have "unat lb + 1 < 2 ^ 32" using b ok by (simp add: ext_ok_def)
  then show "unat (e_logical (tail_of e lb)) = unat lb + 1"
    by (simp add: tail_of_def) (subst unat_add_lem [THEN iffD1]; simp)
  have s: "unat (ucast (e_len e) - (lb - e_logical e) :: u32) = unat (e_len e) - (unat lb - unat (e_logical e))"
    using b d l by (simp add: unat_sub word_le_nat_alt)
  then have "unat (ucast (e_len e) - (lb - e_logical e) - 1 :: u32) = unat (e_len e) - (unat lb - unat (e_logical e)) - 1"
    using b by (simp add: unat_sub word_le_nat_alt)
  moreover have "unat (e_len e) - (unat lb - unat (e_logical e)) - 1 < 2 ^ 16" using len by simp
  ultimately show "unat (e_len (tail_of e lb)) = unat (e_logical e) + unat (e_len e) - unat lb - 1"
    using b by (simp add: tail_of_def unsigned_ucast_eq take_bit_nat_eq_self)
qed

lemma split_covers:
  assumes ok: "ext_ok e" and c: "extent_covers e lb"
  shows "ext_ok (head_of e lb)" and "ext_ok (tail_of e lb)"
    and "extent_covers (head_of e lb) x \<longleftrightarrow> extent_covers e x \<and> unat x < unat lb"
    and "extent_covers (tail_of e lb) x \<longleftrightarrow> extent_covers e x \<and> unat lb < unat x"
    and "extent_covers (head_of e lb) x \<Longrightarrow> extent_phys (head_of e lb) x = extent_phys e x"
    and "extent_covers (tail_of e lb) x \<Longrightarrow> extent_phys (tail_of e lb) x = extent_phys e x"
proof -
  note L = split_lens [OF ok c]
  have b: "unat (e_logical e) \<le> unat lb" "unat lb < unat (e_logical e) + unat (e_len e)"
    using c unfolding covers_iff [OF ok] by auto
  show h: "ext_ok (head_of e lb)" and t: "ext_ok (tail_of e lb)"
    using b ok unfolding ext_ok_def L by auto
  show H: "extent_covers (head_of e lb) x \<longleftrightarrow> extent_covers e x \<and> unat x < unat lb" for x
    unfolding covers_iff [OF h] covers_iff [OF ok] L using b by auto
  show T: "extent_covers (tail_of e lb) x \<longleftrightarrow> extent_covers e x \<and> unat lb < unat x" for x
    unfolding covers_iff [OF t] covers_iff [OF ok] L using b by auto
  show "extent_phys (head_of e lb) x = extent_phys e x" if "extent_covers (head_of e lb) x"
    using that H [of x] by (simp add: extent_phys_def) (simp add: head_of_def)
  show "extent_phys (tail_of e lb) x = extent_phys e x" if "extent_covers (tail_of e lb) x"
    using that T [of x] by (simp add: extent_phys_def) (simp add: tail_of_def)
qed

section \<open>Placing a block refines a map update\<close>

lemma split_slots:
  assumes ok: "exts_ok es" and i: "i < UNFS_INLINE_EXTENTS" and c: "extent_covers (es ! i) lb"
    and f: "f < UNFS_INLINE_EXTENTS" "f \<noteq> i" "e_len (es ! f) = 0"
  defines "es' \<equiv> es[i := head_of (es ! i) lb, f := tail_of (es ! i) lb]"
  shows "exts_ok es'" and "ext_map es' = (ext_map es)(lb := 0)"
    and "\<And>j. j < UNFS_INLINE_EXTENTS \<Longrightarrow> \<not> extent_covers (es' ! j) lb"
proof -
  note D = exts_okD [OF ok]
  note S = split_covers [OF D(2) [OF i] c]
  let ?h = "es[i := head_of (es ! i) lb]"
  have h: "exts_ok ?h" "\<And>x. ext_map ?h x = (if extent_covers (head_of (es ! i) lb) x
      then extent_phys (head_of (es ! i) lb) x else if extent_covers (es ! i) x then 0 else ext_map es x)"
    by (rule slot_update [OF ok i S(1)]; use S(3) D(3) [OF i] in blast)+
  have hf: "?h ! f = es ! f" "?h ! i = head_of (es ! i) lb" using f(2) i D(1) by simp_all
  have new: "j = f" if "extent_covers (tail_of (es ! i) lb) x" "j < UNFS_INLINE_EXTENTS" "extent_covers (?h ! j) x" for x j
  proof (cases "j = i")
    case True
    with that hf S(3,4) show ?thesis by auto
  next
    case False
    then have "extent_covers (es ! j) x" using that(3) D(1) by simp
    with that(1) D(3) [OF that(2) i, of x] False S(4) show ?thesis by auto
  qed
  show ok': "exts_ok es'" unfolding es'_def by (rule slot_update(1) [OF h(1) f(1) S(2)]) (rule new)
  have m: "ext_map es' x = (if extent_covers (tail_of (es ! i) lb) x then extent_phys (tail_of (es ! i) lb) x
      else if extent_covers (?h ! f) x then 0 else ext_map ?h x)" for x
    unfolding es'_def by (rule slot_update(2) [OF h(1) f(1) S(2)]) (rule new)
  show "ext_map es' = (ext_map es)(lb := 0)"
  proof
    fix x
    have e: "ext_map es x = extent_phys (es ! i) x" if "extent_covers (es ! i) x"
      using ext_map_at(1) [OF ok i that] .
    have "unat x < unat lb \<or> x = lb \<or> unat lb < unat x" by (auto simp: word_unat_eq_iff)
    then show "ext_map es' x = ((ext_map es)(lb := 0)) x"
      unfolding m h(2) hf(1) using empty_covers [OF f(3)] S(3,4) [of x] S(5,6) [of x] e c by auto
  qed
  show "\<not> extent_covers (es' ! j) lb" if j: "j < UNFS_INLINE_EXTENTS" for j
  proof (cases "j = i \<or> j = f")
    case True
    then show ?thesis using f D(1) i S(3,4) unfolding es'_def by auto
  next
    case False
    then have "es' ! j = es ! j" unfolding es'_def by simp
    with D(3) [OF j i _ c] False show ?thesis by auto
  qed
qed

text \<open>The slots that a block at \<open>lb\<close> needs and the slots that are free.\<close>

definition slots_needed :: "extent list \<Rightarrow> u32 \<Rightarrow> nat" where
  "slots_needed es lb =
     (case bmap_extent_find es lb of
        None \<Rightarrow> 1
      | Some i \<Rightarrow> if e_len (es ! i) = 1 then 0
                  else if e_len (head_of (es ! i) lb) = 0 \<or> e_len (tail_of (es ! i) lb) = 0 then 1 else 2)"

definition slots_free :: "extent list \<Rightarrow> nat" where
  "slots_free es = length [i \<leftarrow> [0..<UNFS_INLINE_EXTENTS]. e_len (es ! i) = 0]"

lemma slots_free_card: "slots_free es = card {i. i < UNFS_INLINE_EXTENTS \<and> e_len (es ! i) = 0}"
proof -
  have "slots_free es = card (set [i \<leftarrow> [0..<UNFS_INLINE_EXTENTS]. e_len (es ! i) = 0])"
    unfolding slots_free_def by (rule distinct_card [symmetric]) simp
  then show ?thesis by (simp add: atLeastLessThan_def lessThan_def)
qed

lemma slots_free_0: "slots_free es = 0 \<longleftrightarrow> \<not> (\<exists>i<UNFS_INLINE_EXTENTS. e_len (es ! i) = 0)"
  by (auto simp: slots_free_card)

lemma slots_free_2:
  assumes "f < UNFS_INLINE_EXTENTS" and "e_len (es ! f) = 0"
  shows "2 \<le> slots_free es \<longleftrightarrow> (\<exists>g<UNFS_INLINE_EXTENTS. g \<noteq> f \<and> e_len (es ! g) = 0)"
proof -
  let ?F = "{i. i < UNFS_INLINE_EXTENTS \<and> e_len (es ! i) = 0}"
  have "card ?F = Suc (card (?F - {f}))" using assms by (intro card.remove) auto
  moreover have "card (?F - {f}) = 0 \<longleftrightarrow> ?F - {f} = {}" by simp
  ultimately have "2 \<le> slots_free es \<longleftrightarrow> ?F - {f} \<noteq> {}" unfolding slots_free_card by linarith
  then show ?thesis by blast
qed

lemma place_split_spec:
  assumes ok: "exts_ok es" and i: "i < UNFS_INLINE_EXTENTS" and c: "extent_covers (es ! i) lb" and lb: "lb \<noteq> - 1"
  defines "need \<equiv> (if e_len (head_of (es ! i) lb) = 0 \<or> e_len (tail_of (es ! i) lb) = 0 then 1 else 2)"
  shows "\<exists>es'. place_split es i lb p = (if need \<le> slots_free es then UNFS_OK else UNFS_ENOTSUP, es') \<and>
    exts_ok es' \<and> ext_map es' = (if need \<le> slots_free es then (ext_map es)(lb := p)
      else if slots_free es = 0 then ext_map es else (ext_map es)(lb := 0))"
proof (cases "first_idx (\<lambda>j. j \<noteq> i \<and> e_len (es ! j) = 0) UNFS_INLINE_EXTENTS")
  case None
  have ei: "e_len (es ! i) \<noteq> 0" using c by (auto simp: extent_covers_def)
  have "\<not> (\<exists>j<UNFS_INLINE_EXTENTS. e_len (es ! j) = 0)"
    using None ei unfolding first_idx_None_iff by metis
  then have z: "slots_free es = 0" unfolding slots_free_0 .
  moreover have "\<not> need \<le> 0" by (simp add: need_def)
  ultimately show ?thesis using None ok by (simp add: place_split_def)
next
  case (Some f)
  have f: "f < UNFS_INLINE_EXTENTS" "f \<noteq> i" "e_len (es ! f) = 0" using first_idx_SomeD [OF Some] by auto
  define es1 where "es1 = es[i := head_of (es ! i) lb, f := tail_of (es ! i) lb]"
  note S = split_slots [OF ok i c f, folded es1_def]
  have D: "length es = UNFS_INLINE_EXTENTS" using exts_okD(1) [OF ok] .
  have nth: "es1 ! i = head_of (es ! i) lb" "es1 ! f = tail_of (es ! i) lb"
    "\<And>j. j \<noteq> i \<Longrightarrow> j \<noteq> f \<Longrightarrow> es1 ! j = es ! j"
    using D f i unfolding es1_def by simp_all
  have z: "1 \<le> slots_free es" "slots_free es \<noteq> 0" using f(1,3) slots_free_0 [of es] by auto
  have run: "place_split es i lb p = (if e_len (es1 ! i) = 0 then (UNFS_OK, es1[i := leaf_extent lb p]) else place_leaf es1 lb p)"
    using Some by (simp add: place_split_def es1_def Let_def)
  show ?thesis
  proof (cases "e_len (es1 ! i) = 0")
    case True
    then have n: "need = 1" unfolding need_def nth(1) by simp
    note F = fill_slot [OF S(1) i True lb S(3), of p]
    with run True n z S(2) show ?thesis by (intro exI [of _ "es1[i := leaf_extent lb p]"]) simp
  next
    case False
    note P = place_leaf_spec [OF S(1) lb S(3), of p]
    have iff: "(\<exists>j<UNFS_INLINE_EXTENTS. e_len (es1 ! j) = 0) \<longleftrightarrow> need \<le> slots_free es"
    proof (cases "e_len (tail_of (es ! i) lb) = 0")
      case True
      then have "need = 1" "e_len (es1 ! f) = 0" by (simp_all add: need_def nth(2))
      with f(1) z show ?thesis by auto
    next
      case t: False
      then have n: "need = 2" using False nth(1) by (simp add: need_def)
      have "(\<exists>j<UNFS_INLINE_EXTENTS. e_len (es1 ! j) = 0) \<longleftrightarrow> (\<exists>g<UNFS_INLINE_EXTENTS. g \<noteq> f \<and> e_len (es ! g) = 0)"
        using nth t False c f(2) by (metis empty_covers)
      then show ?thesis unfolding n slots_free_2 [OF f(1,3)] .
    qed
    show ?thesis
    proof (cases "need \<le> slots_free es")
      case True
      then have ex: "\<exists>j<UNFS_INLINE_EXTENTS. e_len (es1 ! j) = 0" unfolding iff .
      obtain es' where "place_leaf es1 lb p = (UNFS_OK, es')" "exts_ok es'" "ext_map es' = (ext_map es1)(lb := p)"
        using P unfolding if_P [OF ex] by blast
      with run False True S(2) show ?thesis by (intro exI [of _ es']) simp
    next
      case n: False
      then have ex: "\<not> (\<exists>j<UNFS_INLINE_EXTENTS. e_len (es1 ! j) = 0)" unfolding iff .
      have "place_leaf es1 lb p = (UNFS_ENOTSUP, es1)" using P unfolding if_not_P [OF ex] .
      with run False n z S(1,2) show ?thesis by (intro exI [of _ es1]) simp
    qed
  qed
qed

lemma one_block:
  assumes ok: "ext_ok e" and c: "extent_covers e lb" and l: "e_len e = 1"
  shows "e_logical e = lb" and "extent_covers e x \<longleftrightarrow> x = lb"
proof -
  have "unat (e_logical e) \<le> unat lb" "unat lb < unat (e_logical e) + 1"
    using c l unfolding covers_iff [OF ok] by simp_all
  then show e: "e_logical e = lb" by (simp add: word_unat_eq_iff)
  show "extent_covers e x \<longleftrightarrow> x = lb"
    unfolding covers_iff [OF ok] e l by (auto simp: word_unat_eq_iff)
qed

text \<open>C8: Placing block \<open>p\<close> at \<open>lb\<close> refines the update of the file's block map at \<open>lb\<close> and keeps the
  extents disjoint, exactly when the inode has the slots for it: none to repoint a one-block
  extent, one to append or to split at an end, two to split in the middle. When a split in the
  middle finds one free slot the call reports ENOTSUP after it has cut the extent: the file has
  lost the block it had at \<open>lb\<close>; with no free slot nothing changes.\<close>

theorem extent_place_refines:
  assumes "exts_ok es" and "lb \<noteq> - 1" and "p \<noteq> 0"
  shows "\<exists>rc es'. bmap_extent_place es lb p = (rc, es') \<and> exts_ok es' \<and>
    (if slots_needed es lb \<le> slots_free es then rc = UNFS_OK \<and> ext_map es' = (ext_map es)(lb := p)
     else rc = UNFS_ENOTSUP \<and>
       ext_map es' = (if slots_free es = 0 then ext_map es else (ext_map es)(lb := 0)))"
  using assms(1)
proof (cases rule: find_cases [of es lb])
  case (covered i)
  note c = covered(1,3)
  show ?thesis
  proof (cases "e_len (es ! i) = 1")
    case True
    let ?e = "(es ! i)\<lparr>e_physical := p, e_flags := UNFS_EXT_LEAF\<rparr>"
    have ok: "ext_ok (es ! i)" by (rule exts_okD(2) [OF assms(1) c(1)])
    note one = one_block [OF ok c(2) True]
    have "extent_covers ?e x = extent_covers (es ! i) x" for x by (simp add: extent_covers_def)
    then have cov: "extent_covers ?e x \<longleftrightarrow> x = lb" "extent_covers (es ! i) x \<longleftrightarrow> x = lb" for x
      using one(2) by simp_all
    have ph: "extent_phys ?e lb = p"
      using cov(1) [of lb] one(1) by (simp add: extent_phys_def UNFS_EXT_LEAF_def UNFS_EXT_HOLE_def)
    have new: "j = i" if "extent_covers ?e x" "j < UNFS_INLINE_EXTENTS" "extent_covers (es ! j) x" for x j
      using that cov(1) exts_okD(3) [OF assms(1) that(2) c(1) _ c(2)] by simp
    have ok': "ext_ok ?e" using ok by (simp add: ext_ok_def)
    have "exts_ok (es[i := ?e])" by (rule slot_update(1) [OF assms(1) c(1) ok']) (rule new)
    moreover have "ext_map (es[i := ?e]) = (ext_map es)(lb := p)"
    proof
      fix x
      have "ext_map (es[i := ?e]) x = (if extent_covers ?e x then extent_phys ?e x
          else if extent_covers (es ! i) x then 0 else ext_map es x)"
        by (rule slot_update(2) [OF assms(1) c(1) ok']) (rule new)
      then show "ext_map (es[i := ?e]) x = ((ext_map es)(lb := p)) x" unfolding cov using ph by simp
    qed
    moreover have "bmap_extent_place es lb p = (UNFS_OK, es[i := ?e])" "slots_needed es lb = 0"
      using covered(2) True assms(3) by (simp_all add: bmap_extent_place_def slots_needed_def)
    ultimately show ?thesis by (intro exI [of _ UNFS_OK] exI [of _ "es[i := ?e]"]) simp
  next
    case False
    then have e: "bmap_extent_place es lb p = place_split es i lb p"
      "slots_needed es lb = (if e_len (head_of (es ! i) lb) = 0 \<or> e_len (tail_of (es ! i) lb) = 0 then 1 else 2)"
      using covered(2) assms(3) by (simp_all add: bmap_extent_place_def slots_needed_def)
    obtain es' where
      "bmap_extent_place es lb p = (if slots_needed es lb \<le> slots_free es then UNFS_OK else UNFS_ENOTSUP, es')"
      "exts_ok es'" "ext_map es' = (if slots_needed es lb \<le> slots_free es then (ext_map es)(lb := p)
        else if slots_free es = 0 then ext_map es else (ext_map es)(lb := 0))"
      using place_split_spec [OF assms(1) c assms(2), of p, folded e] by blast
    then show ?thesis
      by (intro exI [of _ "if slots_needed es lb \<le> slots_free es then UNFS_OK else UNFS_ENOTSUP"] exI [of _ es'])
        (simp del: fun_upd_apply)
  qed
next
  case free
  have run: "bmap_extent_place es lb p = place_leaf es lb p" "slots_needed es lb = 1"
    using free(1) assms(3) by (simp_all add: bmap_extent_place_def slots_needed_def)
  note P = place_leaf_spec [OF assms(1,2) free(2), of p]
  show ?thesis
  proof (cases "slots_free es = 0")
    case True
    then have ex: "\<not> (\<exists>i<UNFS_INLINE_EXTENTS. e_len (es ! i) = 0)" unfolding slots_free_0 .
    have "place_leaf es lb p = (UNFS_ENOTSUP, es)" using P unfolding if_not_P [OF ex] .
    with run True assms(1) show ?thesis by simp
  next
    case False
    then have ex: "\<exists>i<UNFS_INLINE_EXTENTS. e_len (es ! i) = 0" unfolding slots_free_0 by simp
    have "\<exists>es'. place_leaf es lb p = (UNFS_OK, es') \<and> exts_ok es' \<and> ext_map es' = (ext_map es)(lb := p)"
      using P unfolding if_P [OF ex] .
    with run False show ?thesis by (auto simp del: fun_upd_apply)
  qed
qed

text \<open>One extent for the blocks 0 to 7 of a file, in blocks 600 to 607, and one free slot.\<close>

definition es_demo :: "extent list" where
  "es_demo = [\<lparr>e_logical = 0, e_physical = 600, e_len = 8, e_flags = 1\<rparr>, \<lparr>e_logical = 8, e_physical = 700, e_len = 1, e_flags = 1\<rparr>,
     \<lparr>e_logical = 9, e_physical = 800, e_len = 1, e_flags = 1\<rparr>, \<lparr>e_logical = 0, e_physical = 0, e_len = 0, e_flags = 0\<rparr>]"

lemma four: "i < UNFS_INLINE_EXTENTS \<longleftrightarrow> i = 0 \<or> i = 1 \<or> i = 2 \<or> i = 3"
  by (auto simp: UNFS_INLINE_EXTENTS_def)

lemma es_demo_ok: "exts_ok es_demo"
proof -
  have l: "length es_demo = UNFS_INLINE_EXTENTS" by (simp add: es_demo_def UNFS_INLINE_EXTENTS_def)
  have o: "ext_ok (es_demo ! i)" if "i < UNFS_INLINE_EXTENTS" for i
    using that unfolding four by (auto simp: es_demo_def ext_ok_def)
  have c: "extent_covers (es_demo ! i) x \<longleftrightarrow> (i = 0 \<and> unat x < 8) \<or> (i = 1 \<and> unat x = 8) \<or> (i = 2 \<and> unat x = 9)"
    if "i < UNFS_INLINE_EXTENTS" for i x
    using that unfolding covers_iff [OF o [OF that]] four by (auto simp: es_demo_def)
  show ?thesis unfolding exts_ok_def using l o by (auto simp: c)
qed

lemma extent_place_refines_witness:
  "\<exists>es'. bmap_extent_place es_demo 3 900 = (UNFS_ENOTSUP, es') \<and> ext_map es_demo 3 = 603 \<and> ext_map es' 3 = 0"
proof -
  have n: "slots_needed es_demo 3 = 2" "slots_free es_demo = 1" "ext_map es_demo 3 = 603"
    by code_simp+
  have "(3 :: u32) \<noteq> - 1" "(900 :: u32) \<noteq> 0" by simp_all
  from extent_place_refines [OF es_demo_ok this] n show ?thesis by auto
qed

section \<open>Allocation for an offset\<close>

lemma lblk_bound: "lblk off \<noteq> - 1"
proof
  assume "lblk off = - 1"
  then have "unat (lblk off) = 2 ^ 32 - 1"
    by (simp only: unsigned_minus_1_eq_mask mask_eq_exp_minus_1) simp
  moreover have "unat (lblk off) = unat off div 4096" by (simp add: unat_div UNFS_BLOCK_SIZE_def)
  moreover have "unat off < 2 ^ 32" by (rule less_le_trans [OF unsigned_less]) simp
  ultimately show False by simp
qed

lemma bmap_mapped:
  assumes "exts_ok (ip_extents ip)" and "ext_map (ip_extents ip) (lblk off) = p" and "p \<noteq> 0"
  shows "bmap ip off s = Some ((bmap_start ip off)\<lparr>bm_blkno := p, bm_valid := True\<rparr>, s)"
  using assms(1)
proof (cases rule: find_cases [of _ "lblk off"])
  case (covered i)
  with assms show ?thesis by (simp add: bmap_def Let_def)
next
  case free
  then have "ext_map (ip_extents ip) (lblk off) = 0" by (simp add: ext_map_def)
  with assms show ?thesis by simp
qed

text \<open>One block from a volume that has one.\<close>

lemma alloc_one_block:
  assumes "io_ok (fs_cache s)" and vol: "vol_ok (vol_img dv s) sb bm"
    and "unat (s_free_blocks sb) = card (free_blks sb bm)" and ne: "free_blks sb bm \<noteq> {}"
  obtains b t sb' bm' where "unfs_alloc_run now dv 1 out s =
      Some ((UNFS_OK, \<lparr>first_blk = b, run_count = 1, run_group = 0\<rparr>), t)"
    and "unat b \<in> free_blks sb bm" and "b \<noteq> 0" and "io_ok (fs_cache t)" and "vol_ok (vol_img dv t) sb' bm'"
    and "free_blks sb' bm' = free_blks sb bm - {unat b}" and "unat (s_free_blocks sb') = card (free_blks sb' bm')"
proof -
  have w: "(1 :: u32) \<noteq> 0" by simp
  obtain x where "x \<in> free_blks sb bm" using ne by blast
  then have "\<exists>c. c < unat (group_limit sb 0) \<and> bit_is_free bm c" by (auto simp: in_free_blks)
  then have "find_run bm (group_limit sb 0) 1 \<noteq> None"
    using find_run_None [OF _ w, of bm "group_limit sb 0"] by (fastforce simp: Suc_le_eq)
  then obtain st where f: "find_run bm (group_limit sb 0) 1 = Some st" by blast
  obtain t sb' bm' where t: "unfs_alloc_run now dv 1 out s =
      Some ((UNFS_OK, \<lparr>first_blk = 526 + of_nat st, run_count = 1, run_group = 0\<rparr>), t)"
    "io_ok (fs_cache t)" "vol_ok (vol_img dv t) sb' bm'" "set (blk_run (526 + of_nat st) 1) \<subseteq> free_blks sb bm"
    "free_blks sb' bm' = free_blks sb bm - set (blk_run (526 + of_nat st) 1)"
    "unat (s_free_blocks sb') = card (free_blks sb' bm')" "group_limit sb' 0 = group_limit sb 0"
    by (rule alloc_books [OF assms(1-3) w f, of now out])
  have r: "set (blk_run b 1) = {unat b}" for b :: u32 by auto
  have m: "unat (526 + of_nat st :: u32) \<in> free_blks sb bm" using t(4) unfolding r by simp
  then have "526 \<le> unat (526 + of_nat st :: u32)" by (simp add: in_free_blks)
  then have "(526 + of_nat st :: u32) \<noteq> 0" by (metis not_numeral_le_zero unat_0)
  then show ?thesis by (rule that [OF t(1) m _ t(2,3) _ t(6)]) (use t(5) r in simp)
qed

text \<open>C27: For an offset that no extent covers, on a volume with a free block and an inode with a free
  slot, \<open>bmap_alloc\<close> takes one block off the free ones, enters it in the file's map at that offset
  and nowhere else, and \<open>bmap\<close> afterwards answers for the offset what the call answered.\<close>

theorem bmap_alloc_maps_fresh_block:
  assumes "exts_ok (ip_extents ip)" and "bmap_extent_find (ip_extents ip) (lblk off) = None"
    and "slots_free (ip_extents ip) \<noteq> 0" and "io_ok (fs_cache s)"
    and "vol_ok (vol_img (ucast (ip_dev ip)) s) sb bm"
    and "unat (s_free_blocks sb) = card (free_blks sb bm)" and "free_blks sb bm \<noteq> {}"
  shows "\<exists>r ip' t sb' bm'. bmap_alloc now ip off s = Some ((r, ip'), t) \<and> bm_valid r \<and>
    unat (bm_blkno r) \<in> free_blks sb bm \<and> exts_ok (ip_extents ip') \<and>
    ext_map (ip_extents ip') = (ext_map (ip_extents ip))(lblk off := bm_blkno r) \<and>
    bmap ip' off (fs_cache t) = Some (r, fs_cache t) \<and> io_ok (fs_cache t) \<and>
    vol_ok (vol_img (ucast (ip_dev ip)) t) sb' bm' \<and>
    free_blks sb' bm' = free_blks sb bm - {unat (bm_blkno r)} \<and>
    unat (s_free_blocks sb') = card (free_blks sb' bm')"
proof -
  obtain b t sb' bm' where t: "unfs_alloc_run now (ucast (ip_dev ip)) 1 \<lparr>first_blk = 0, run_count = 0, run_group = 0\<rparr> s =
      Some ((UNFS_OK, \<lparr>first_blk = b, run_count = 1, run_group = 0\<rparr>), t)"
    "unat b \<in> free_blks sb bm" "b \<noteq> 0" "io_ok (fs_cache t)" "vol_ok (vol_img (ucast (ip_dev ip)) t) sb' bm'"
    "free_blks sb' bm' = free_blks sb bm - {unat b}" "unat (s_free_blocks sb') = card (free_blks sb' bm')"
    by (rule alloc_one_block [OF assms(4-7), of now])
  have ex: "\<exists>i<UNFS_INLINE_EXTENTS. e_len (ip_extents ip ! i) = 0" using assms(3) unfolding slots_free_0 by simp
  have nc: "\<not> extent_covers (ip_extents ip ! j) (lblk off)" if "j < UNFS_INLINE_EXTENTS" for j
    using assms(2) that unfolding bmap_extent_find_def first_idx_None_iff by blast
  obtain es where es: "place_leaf (ip_extents ip) (lblk off) b = (UNFS_OK, es)" "exts_ok es"
    "ext_map es = (ext_map (ip_extents ip))(lblk off := b)"
    using place_leaf_spec [OF assms(1) lblk_bound nc, of b] unfolding if_P [OF ex] by blast
  then have pl: "bmap_extent_place (ip_extents ip) (lblk off) b = (UNFS_OK, es)"
    using assms(2) t(3) by (simp add: bmap_extent_place_def)
  let ?r = "(bmap_start ip off)\<lparr>bm_blkno := b, bm_valid := True\<rparr>" and ?e = "(lblk off + 1) * of_nat UNFS_BLOCK_SIZE"
  let ?ip = "if ip_size ip < ?e then ip\<lparr>ip_extents := es, ip_size := ?e\<rparr> else ip\<lparr>ip_extents := es\<rparr>"
  have run: "bmap_alloc now ip off s = Some ((?r, ?ip), t)"
    using assms(2) t(1) pl by (simp add: bmap_alloc_def Let_def)
  have ip: "ip_extents ?ip = es" "bmap_start ?ip off = bmap_start ip off" by (simp_all add: bmap_start_def)
  have "bmap ?ip off (fs_cache t) = Some (?r, fs_cache t)"
    using bmap_mapped [of ?ip off b "fs_cache t"] es(2,3) t(3) unfolding ip by simp
  with run ip(1) es t(2,4-7) show ?thesis
    by (intro exI [of _ ?r] exI [of _ ?ip] exI [of _ t] exI [of _ sb'] exI [of _ bm']) (simp del: fun_upd_apply)
qed

text \<open>Calling again after the answer that nothing was placed, as a writer that retries does.\<close>

fun alloc_retries :: "u64 \<Rightarrow> icinode \<Rightarrow> u32 \<Rightarrow> nat \<Rightarrow> 'm fs_state \<Rightarrow> 'm fs_state option" where
  "alloc_retries now ip off 0 s = Some s"
| "alloc_retries now ip off (Suc n) s =
     (case bmap_alloc now ip off s of
        None \<Rightarrow> None
      | Some ((r, ip'), t) \<Rightarrow> if bm_valid r \<or> ip' \<noteq> ip then None else alloc_retries now ip off n t)"

lemma bmap_alloc_full:
  assumes "bmap_extent_find (ip_extents ip) (lblk off) = None"
    and "slots_free (ip_extents ip) = 0" and "io_ok (fs_cache s)"
    and "vol_ok (vol_img (ucast (ip_dev ip)) s) sb bm"
    and "unat (s_free_blocks sb) = card (free_blks sb bm)" and "free_blks sb bm \<noteq> {}"
  obtains r t sb' bm' where "bmap_alloc now ip off s = Some ((r, ip), t)" and "\<not> bm_valid r"
    and "io_ok (fs_cache t)" and "vol_ok (vol_img (ucast (ip_dev ip)) t) sb' bm'"
    and "unat (bm_blkno r) \<in> free_blks sb bm" and "free_blks sb' bm' = free_blks sb bm - {unat (bm_blkno r)}"
    and "unat (s_free_blocks sb') = card (free_blks sb' bm')"
proof -
  obtain b t sb' bm' where t: "unfs_alloc_run now (ucast (ip_dev ip)) 1 \<lparr>first_blk = 0, run_count = 0, run_group = 0\<rparr> s =
      Some ((UNFS_OK, \<lparr>first_blk = b, run_count = 1, run_group = 0\<rparr>), t)"
    "unat b \<in> free_blks sb bm" "b \<noteq> 0" "io_ok (fs_cache t)" "vol_ok (vol_img (ucast (ip_dev ip)) t) sb' bm'"
    "free_blks sb' bm' = free_blks sb bm - {unat b}" "unat (s_free_blocks sb') = card (free_blks sb' bm')"
    by (rule alloc_one_block [OF assms(3-6), of now])
  have "first_idx (\<lambda>i. e_len (ip_extents ip ! i) = 0) UNFS_INLINE_EXTENTS = None"
    using assms(2) unfolding slots_free_0 first_idx_None_iff by blast
  then have "bmap_extent_place (ip_extents ip) (lblk off) b = (UNFS_ENOTSUP, ip_extents ip)"
    using assms(1) t(3) by (simp add: bmap_extent_place_def place_leaf_def)
  then have "bmap_alloc now ip off s = Some (((bmap_start ip off)\<lparr>bm_blkno := b, bm_valid := False\<rparr>, ip), t)"
    using assms(1) t(1) by (simp add: bmap_alloc_def Let_def)
  then show ?thesis by (rule that [OF _ _ t(4,5) _ _ t(7)]) (use t(2,6) in simp_all)
qed

text \<open>For an offset of a file whose four extents are all used, every call of \<open>bmap_alloc\<close> takes a
  block off the volume and places it nowhere: it answers not valid, the file stays as it is, and a
  writer that retries uses up every free block of the volume.\<close>

theorem bmap_alloc_retries_drain:
  assumes "bmap_extent_find (ip_extents ip) (lblk off) = None" and "slots_free (ip_extents ip) = 0"
    and "io_ok (fs_cache s)" and "vol_ok (vol_img (ucast (ip_dev ip)) s) sb bm"
    and "unat (s_free_blocks sb) = card (free_blks sb bm)" and "n \<le> card (free_blks sb bm)"
  shows "\<exists>t sb' bm'. alloc_retries now ip off n s = Some t \<and>
    vol_ok (vol_img (ucast (ip_dev ip)) t) sb' bm' \<and> free_blks sb' bm' \<subseteq> free_blks sb bm \<and>
    card (free_blks sb' bm') = card (free_blks sb bm) - n"
  using assms(3-6)
proof (induction n arbitrary: s sb bm)
  case 0
  then show ?case by auto
next
  case (Suc n)
  then have ne: "free_blks sb bm \<noteq> {}" by auto
  obtain r t sb1 bm1 where t: "bmap_alloc now ip off s = Some ((r, ip), t)" "\<not> bm_valid r" "io_ok (fs_cache t)"
    "vol_ok (vol_img (ucast (ip_dev ip)) t) sb1 bm1" "unat (bm_blkno r) \<in> free_blks sb bm"
    "free_blks sb1 bm1 = free_blks sb bm - {unat (bm_blkno r)}" "unat (s_free_blocks sb1) = card (free_blks sb1 bm1)"
    by (rule bmap_alloc_full [OF assms(1,2) Suc.prems(1-3) ne, of now])
  have c: "card (free_blks sb1 bm1) = card (free_blks sb bm) - 1" using t(5,6) by simp
  then have "n \<le> card (free_blks sb1 bm1)" using Suc.prems(4) by simp
  from Suc.IH [OF t(3,4,7) this] obtain t' sb' bm' where t': "alloc_retries now ip off n t = Some t'"
    "vol_ok (vol_img (ucast (ip_dev ip)) t') sb' bm'" "free_blks sb' bm' \<subseteq> free_blks sb1 bm1"
    "card (free_blks sb' bm') = card (free_blks sb1 bm1) - n" by blast
  have "alloc_retries now ip off (Suc n) s = Some t'" using t(1,2) t'(1) by simp
  moreover have "free_blks sb' bm' \<subseteq> free_blks sb bm" using t'(3) t(6) by blast
  ultimately show ?case using t'(2,4) c by (intro exI [of _ t'] exI [of _ sb'] exI [of _ bm']) simp
qed

definition ip_demo :: icinode where
  "ip_demo = \<lparr>ip_size = 0, ip_extents = es_demo, ip_extent_tree = 0, ip_dev = 1\<rparr>"

definition ip_full :: icinode where
  "ip_full = ip_demo\<lparr>ip_extents := es_demo[3 := \<lparr>e_logical = 10, e_physical = 900, e_len = 1, e_flags = 1\<rparr>]\<rparr>"

lemma demo_counted:
  "unat (s_free_blocks sb_demo) = card (free_blks sb_demo bm_demo)" "free_blks sb_demo bm_demo \<noteq> {}"
  "card (free_blks sb_demo bm_demo) = 4"
  by (simp_all add: fs_demo_vol(3,4))

lemma demo_vol_dev: "ip_dev ip = 1 \<Longrightarrow> vol_ok (vol_img (ucast (ip_dev ip)) fs_demo) sb_demo bm_demo"
  using fs_demo_vol(2) by simp

lemma bmap_alloc_maps_fresh_block_witness:
  "\<exists>r ip' t. bmap_alloc 0 ip_demo 45056 fs_demo = Some ((r, ip'), t) \<and> bm_valid r \<and>
    ext_map (ip_extents ip') 11 = bm_blkno r \<and> unat (bm_blkno r) \<in> {529, 530, 531, 532}"
proof -
  have e: "ip_extents ip_demo = es_demo" "ip_dev ip_demo = 1" by (simp_all add: ip_demo_def)
  have "exts_ok (ip_extents ip_demo)" using es_demo_ok e by simp
  moreover have "bmap_extent_find (ip_extents ip_demo) (lblk 45056) = None" "slots_free (ip_extents ip_demo) \<noteq> 0"
    by code_simp+
  ultimately obtain r ip' t where "bmap_alloc 0 ip_demo 45056 fs_demo = Some ((r, ip'), t)" "bm_valid r"
    "unat (bm_blkno r) \<in> free_blks sb_demo bm_demo"
    "ext_map (ip_extents ip') = (ext_map (ip_extents ip_demo))(lblk 45056 := bm_blkno r)"
    using bmap_alloc_maps_fresh_block [OF _ _ _ fs_demo_vol(1) demo_vol_dev [OF e(2)] demo_counted(1,2)] by blast
  moreover have "lblk 45056 = 11" by (simp add: UNFS_BLOCK_SIZE_def)
  ultimately show ?thesis unfolding fs_demo_vol(3) [symmetric]
    by (intro exI [of _ r] exI [of _ ip'] exI [of _ t]) simp
qed

lemma bmap_alloc_retries_drain_witness:
  "\<exists>t sb' bm'. alloc_retries 0 ip_full 45056 4 fs_demo = Some t \<and> vol_ok (vol_img 1 t) sb' bm' \<and>
    free_blks sb' bm' = {}"
proof -
  have e: "ip_dev ip_full = 1" by (simp add: ip_full_def ip_demo_def)
  have "bmap_extent_find (ip_extents ip_full) (lblk 45056) = None" "slots_free (ip_extents ip_full) = 0"
    by code_simp+
  then obtain t sb' bm' where "alloc_retries 0 ip_full 45056 4 fs_demo = Some t"
    "vol_ok (vol_img (ucast (ip_dev ip_full)) t) sb' bm'" "card (free_blks sb' bm') = card (free_blks sb_demo bm_demo) - 4"
    using bmap_alloc_retries_drain [OF _ _ fs_demo_vol(1) demo_vol_dev [OF e] demo_counted(1), of 45056 4 0]
      demo_counted(3) by auto
  then show ?thesis using e demo_counted(3)
    by (intro exI [of _ t] exI [of _ sb'] exI [of _ bm']) simp
qed

end
