(* ===== verification/Context.thy ===== *)
theory Context
  imports Prelude
begin

text \<open>
  The interrupt context stack (\<open>33_PCS/40_psa/src/uiox_kix_psa_context.c\<close>): the vector table, the
  bounded stack of register frames that each u area carries, the record of the current context,
  and \<open>inthand\<close>. Handlers are numbered and their effect is a parameter; the register transfer
  \<open>arch_context_switch\<close> is assembly and outside of the model.
\<close>

section \<open>Frames and contexts\<close>

record reg_context =
  rc_pc :: u64
  rc_sp :: u64
  rc_sr :: u32
  rc_carry :: u32
  rc_gpr :: "u64 list"
  rc_r0 :: u32
  rc_r1 :: u32

record sys_context =
  sc_uarea :: "nat option"
  sc_layer_top :: int
  sc_layers :: "reg_context list"

record intr_vector =
  iv_num :: int
  iv_handler :: "nat option"
  iv_name :: string

definition MAX_CTX_LAYERS :: nat where "MAX_CTX_LAYERS = 8"
definition NVEC :: int where "NVEC = 256"

text \<open>
  \<open>sys_ctxs\<close> is the context at an address, \<open>u_sysctx\<close> the stack in the u area of a process slot;
  \<open>current_context\<close> is an address, 0 for NULL.
\<close>

record contexts =
  intr_table :: "nat \<Rightarrow> intr_vector"
  current_context :: u64
  sys_ctxs :: "u64 \<Rightarrow> sys_context"
  u_sysctx :: "nat \<Rightarrow> sys_context"

definition intr_register :: "int \<Rightarrow> nat option \<Rightarrow> string \<Rightarrow> 'z contexts_scheme \<Rightarrow> 'z contexts_scheme" where
  "intr_register vec handler nm s =
     (if vec < 0 \<or> NVEC \<le> vec then s
      else s\<lparr>intr_table := (intr_table s)(nat vec := \<lparr>iv_num = vec, iv_handler = handler, iv_name = nm\<rparr>)\<rparr>)"

definition context_save :: "sys_context \<Rightarrow> reg_context option \<Rightarrow> sys_context" where
  "context_save c regs =
     (case regs of
        None \<Rightarrow> c
      | Some r \<Rightarrow>
          if int MAX_CTX_LAYERS - 1 \<le> sc_layer_top c then c
          else c\<lparr>sc_layer_top := sc_layer_top c + 1,
                 sc_layers := (sc_layers c)[nat (sc_layer_top c + 1) := r]\<rparr>)"

definition context_restore :: "sys_context \<Rightarrow> reg_context option \<Rightarrow> reg_context option \<times> sys_context" where
  "context_restore c regs =
     (case regs of
        None \<Rightarrow> (None, c)
      | Some r \<Rightarrow>
          if sc_layer_top c < 0 then (Some r, c)
          else (Some (sc_layers c ! nat (sc_layer_top c)), c\<lparr>sc_layer_top := sc_layer_top c - 1\<rparr>))"

text \<open>What \<open>context_switch\<close> records; \<open>from\<close> matters to the register transfer only.\<close>

definition context_switch :: "u64 \<Rightarrow> u64 \<Rightarrow> u64" where
  "context_switch to cur = (if to = 0 then cur else to)"

definition current_uarea :: "'z contexts_scheme \<Rightarrow> nat" where
  "current_uarea s =
     (if current_context s \<noteq> 0
      then (case sc_uarea (sys_ctxs s (current_context s)) of Some k \<Rightarrow> k | None \<Rightarrow> 0)
      else 0)"

text \<open>\<open>context_save\<close> and \<open>context_restore\<close> on \<open>uiox_kix_psa_u.u_sysctx\<close>.\<close>

definition save_u :: "reg_context option \<Rightarrow> 'z contexts_scheme \<Rightarrow> 'z contexts_scheme" where
  "save_u regs s =
     (let k = current_uarea s in s\<lparr>u_sysctx := (u_sysctx s)(k := context_save (u_sysctx s k) regs)\<rparr>)"

definition restore_u :: "reg_context option \<Rightarrow> 'z contexts_scheme \<Rightarrow> reg_context option \<times> 'z contexts_scheme" where
  "restore_u regs s =
     (let k = current_uarea s; (regs, c) = context_restore (u_sysctx s k) regs
      in (regs, s\<lparr>u_sysctx := (u_sysctx s)(k := c)\<rparr>))"

type_synonym 'z handlers = "nat \<Rightarrow> int \<Rightarrow> reg_context option \<Rightarrow> 'z contexts_scheme
  \<Rightarrow> reg_context option \<times> 'z contexts_scheme"

definition inthand :: "'z handlers \<Rightarrow> int \<Rightarrow> reg_context option \<Rightarrow> 'z contexts_scheme
    \<Rightarrow> reg_context option \<times> 'z contexts_scheme" where
  "inthand h vec regs s =
     (let s = save_u regs s in
      if vec < 0 \<or> NVEC \<le> vec then restore_u regs s
      else
        (let (regs, s) = (case iv_handler (intr_table s (nat vec)) of
                            None \<Rightarrow> (regs, s) | Some f \<Rightarrow> h f vec regs s)
         in restore_u regs s))"

section \<open>The stack of the current u area\<close>

definition cur_stack :: "'z contexts_scheme \<Rightarrow> sys_context" where
  "cur_stack s = u_sysctx s (current_uarea s)"

definition stack_ok :: "sys_context \<Rightarrow> bool" where
  "stack_ok c \<longleftrightarrow> length (sc_layers c) = MAX_CTX_LAYERS \<and> - 1 \<le> sc_layer_top c \<and> sc_layer_top c < int MAX_CTX_LAYERS"

text \<open>The frames on the stack, the top one last.\<close>

definition frames_of :: "sys_context \<Rightarrow> reg_context list" where
  "frames_of c = take (nat (sc_layer_top c + 1)) (sc_layers c)"

lemma current_uarea_cong:
  "current_context t = current_context s \<Longrightarrow> sys_ctxs t = sys_ctxs s \<Longrightarrow> current_uarea t = current_uarea s"
  by (simp add: current_uarea_def)

lemma save_u_sel [simp]:
  "intr_table (save_u r s) = intr_table s" "current_context (save_u r s) = current_context s"
  "sys_ctxs (save_u r s) = sys_ctxs s" "current_uarea (save_u r s) = current_uarea s"
  "cur_stack (save_u r s) = context_save (cur_stack s) r"
  by (simp_all add: save_u_def Let_def current_uarea_def cur_stack_def)

lemma save_frames:
  assumes "stack_ok c" and "sc_layer_top c < int MAX_CTX_LAYERS - 1"
  shows "stack_ok (context_save c (Some r))" and "frames_of (context_save c (Some r)) = frames_of c @ [r]"
    and "sc_layer_top (context_save c (Some r)) = sc_layer_top c + 1"
proof -
  have n: "nat (sc_layer_top c + 1) < length (sc_layers c)" "nat (sc_layer_top c + 2) = Suc (nat (sc_layer_top c + 1))"
    using assms by (auto simp: stack_ok_def)
  show "sc_layer_top (context_save c (Some r)) = sc_layer_top c + 1" using assms(2) by (simp add: context_save_def)
  show "stack_ok (context_save c (Some r))" using assms by (auto simp: context_save_def stack_ok_def)
  have "frames_of (context_save c (Some r)) = take (nat (sc_layer_top c + 2)) ((sc_layers c)[nat (sc_layer_top c + 1) := r])"
    using assms(2) by (simp add: context_save_def frames_of_def algebra_simps)
  then show "frames_of (context_save c (Some r)) = frames_of c @ [r]"
    using n by (simp add: frames_of_def take_Suc_conv_app_nth)
qed

lemma save_full: "int MAX_CTX_LAYERS - 1 \<le> sc_layer_top c \<Longrightarrow> context_save c r = c"
  by (simp add: context_save_def split: option.split)

lemma restore_frames:
  assumes "stack_ok c" and "frames_of c = fs @ [r]"
  shows "\<exists>d. context_restore c (Some q) = (Some r, d) \<and> stack_ok d \<and> frames_of d = fs \<and> sc_layers d = sc_layers c \<and>
    sc_layer_top d = sc_layer_top c - 1"
proof -
  let ?d = "c\<lparr>sc_layer_top := sc_layer_top c - 1\<rparr>"
  have t: "0 \<le> sc_layer_top c"
  proof (rule ccontr)
    assume "\<not> 0 \<le> sc_layer_top c"
    then have "nat (sc_layer_top c + 1) = 0" by simp
    with assms(2) show False by (simp add: frames_of_def)
  qed
  then have n: "nat (sc_layer_top c) < length (sc_layers c)" "nat (sc_layer_top c + 1) = Suc (nat (sc_layer_top c))"
    using assms(1) by (auto simp: stack_ok_def)
  then have f: "frames_of c = take (nat (sc_layer_top c)) (sc_layers c) @ [sc_layers c ! nat (sc_layer_top c)]"
    by (simp add: frames_of_def take_Suc_conv_app_nth)
  with assms(2) have "sc_layers c ! nat (sc_layer_top c) = r" "take (nat (sc_layer_top c)) (sc_layers c) = fs" by simp_all
  moreover have "stack_ok ?d" using assms(1) t by (simp add: stack_ok_def)
  ultimately show ?thesis using t
    by (intro exI [of _ ?d]) (simp add: context_restore_def frames_of_def)
qed

lemma restore_u_frames:
  assumes "stack_ok (cur_stack s)" and "frames_of (cur_stack s) = fs @ [r]"
  shows "\<exists>t. restore_u (Some q) s = (Some r, t) \<and> current_uarea t = current_uarea s \<and>
    stack_ok (cur_stack t) \<and> frames_of (cur_stack t) = fs \<and> intr_table t = intr_table s \<and> contexts.more t = contexts.more s"
proof -
  obtain d where d: "context_restore (cur_stack s) (Some q) = (Some r, d)" "stack_ok d" "frames_of d = fs"
    using restore_frames [OF assms] by blast
  let ?t = "s\<lparr>u_sysctx := (u_sysctx s)(current_uarea s := d)\<rparr>"
  have k: "current_uarea ?t = current_uarea s" by (rule current_uarea_cong) simp_all
  then have "restore_u (Some q) s = (Some r, ?t)"
    using d(1) by (simp add: restore_u_def Let_def cur_stack_def)
  moreover have "cur_stack ?t = d" using k by (simp add: cur_stack_def)
  ultimately show ?thesis using k d(2,3) by (intro exI [of _ ?t]) simp
qed

section \<open>One interrupt\<close>

text \<open>Below the limit of the stack an interrupt is transparent, and more than it should be: the
  interrupted process resumes with the registers it had, whatever the handler wrote to the frame
  it was given, and the stack of frames is as before. The header says that a handler's changes to
  the frame are what the process resumes with.\<close>

theorem inthand_discards_changes:
  assumes "stack_ok (cur_stack s)" and "sc_layer_top (cur_stack s) < int MAX_CTX_LAYERS - 1"
    and "0 \<le> vec" and "vec < NVEC" and "iv_handler (intr_table s (nat vec)) = Some f"
    and "h f vec (Some r) (save_u (Some r) s) = (Some q, u)"
    and "current_uarea u = current_uarea s" and "cur_stack u = cur_stack (save_u (Some r) s)"
  shows "\<exists>t. inthand h vec (Some r) s = (Some r, t) \<and> stack_ok (cur_stack t) \<and>
    frames_of (cur_stack t) = frames_of (cur_stack s)"
proof -
  note S = save_frames [OF assms(1,2), of r]
  have "stack_ok (cur_stack u)" "frames_of (cur_stack u) = frames_of (cur_stack s) @ [r]"
    using S assms(8) by simp_all
  then obtain t where "restore_u (Some q) u = (Some r, t)" "stack_ok (cur_stack t)"
    "frames_of (cur_stack t) = frames_of (cur_stack s)"
    using restore_u_frames by blast
  moreover have "inthand h vec (Some r) s = restore_u (Some q) u"
    using assms(3-6) by (simp add: inthand_def Let_def)
  ultimately show ?thesis by auto
qed

section \<open>Nested interrupts\<close>

text \<open>
  Each handler is interrupted by the next one, all on vector \<open>v\<close>; the frames that the interrupted
  code resumes with are logged, the outermost first.
\<close>

primrec intr_tower :: "int \<Rightarrow> reg_context list \<Rightarrow> reg_context option list contexts_scheme
    \<Rightarrow> reg_context option list contexts_scheme" where
  "intr_tower v [] s = s"
| "intr_tower v (r # rs) s =
     (let (q, t) = inthand (\<lambda>f vec q u. (q, intr_tower v rs u)) v (Some r) s
      in contexts.more_update (\<lambda>qs. q # qs) t)"

lemma more_update_sel [simp]:
  "current_uarea (contexts.more_update f s) = current_uarea s" "cur_stack (contexts.more_update f s) = cur_stack s"
  "intr_table (contexts.more_update f s) = intr_table s" "contexts.more (contexts.more_update f s) = f (contexts.more s)"
  by (cases s; simp add: current_uarea_def cur_stack_def)+

lemma more_save_u [simp]: "contexts.more (save_u r s) = contexts.more s"
  by (simp add: save_u_def Let_def)

lemma length_frames: "stack_ok c \<Longrightarrow> int (length (frames_of c)) = sc_layer_top c + 1 \<and> length (frames_of c) \<le> MAX_CTX_LAYERS"
  by (auto simp: stack_ok_def frames_of_def)

lemma save_take:
  assumes "stack_ok c"
  shows "stack_ok (context_save c (Some r))"
    and "take MAX_CTX_LAYERS (frames_of (context_save c (Some r)) @ rs) = take MAX_CTX_LAYERS (frames_of c @ r # rs)"
proof -
  have "stack_ok (context_save c (Some r)) \<and>
    take MAX_CTX_LAYERS (frames_of (context_save c (Some r)) @ rs) = take MAX_CTX_LAYERS (frames_of c @ r # rs)"
  proof (cases "sc_layer_top c < int MAX_CTX_LAYERS - 1")
    case True
    with save_frames [OF assms True, of r] show ?thesis by simp
  next
    case False
    with assms have "length (frames_of c) = MAX_CTX_LAYERS"
      using length_frames [OF assms] by (simp add: stack_ok_def)
    with False assms save_full [of c "Some r"] show ?thesis by simp
  qed
  then show "stack_ok (context_save c (Some r))"
    "take MAX_CTX_LAYERS (frames_of (context_save c (Some r)) @ rs) = take MAX_CTX_LAYERS (frames_of c @ r # rs)" by auto
qed

lemma restore_u_empty:
  assumes "stack_ok (cur_stack s)" and "frames_of (cur_stack s) = []"
  shows "\<exists>t. restore_u (Some q) s = (Some q, t) \<and> current_uarea t = current_uarea s \<and> cur_stack t = cur_stack s \<and>
    intr_table t = intr_table s \<and> contexts.more t = contexts.more s"
proof -
  have "sc_layer_top (cur_stack s) < 0" using length_frames [OF assms(1)] assms(2) by simp
  then have r: "context_restore (cur_stack s) (Some q) = (Some q, cur_stack s)" by (simp add: context_restore_def)
  let ?t = "s\<lparr>u_sysctx := (u_sysctx s)(current_uarea s := cur_stack s)\<rparr>"
  have k: "current_uarea ?t = current_uarea s" by (rule current_uarea_cong) simp_all
  then have "restore_u (Some q) s = (Some q, ?t)" using r by (simp add: restore_u_def Let_def cur_stack_def)
  moreover have "cur_stack ?t = cur_stack s" using k by (simp add: cur_stack_def)
  ultimately show ?thesis using k by (intro exI [of _ ?t]) simp
qed

lemma tower:
  fixes s :: "reg_context option list contexts_scheme" and rs :: "reg_context list"
  assumes "stack_ok (cur_stack s)" and "0 \<le> v" and "v < NVEC" and "iv_handler (intr_table s (nat v)) = Some f"
  defines "F \<equiv> take MAX_CTX_LAYERS (frames_of (cur_stack s) @ rs)"
  shows "current_uarea (intr_tower v rs s) = current_uarea s \<and> stack_ok (cur_stack (intr_tower v rs s)) \<and>
    intr_table (intr_tower v rs s) = intr_table s \<and>
    frames_of (cur_stack (intr_tower v rs s)) = take (length F - length rs) F \<and>
    contexts.more (intr_tower v rs s) =
      map Some (take (length rs - length F) rs @ drop (length F - length rs) F) @ contexts.more s"
  using assms(1-4) unfolding F_def
proof (induction rs arbitrary: s)
  case Nil
  then show ?case using length_frames [of "cur_stack s"] by simp
next
  case (Cons r rs)
  let ?s = "save_u (Some r) s"
  define F where "F = take MAX_CTX_LAYERS (frames_of (cur_stack s) @ r # rs)"
  have F: "take MAX_CTX_LAYERS (frames_of (cur_stack ?s) @ rs) = F"
    unfolding save_u_sel F_def by (rule save_take(2) [OF Cons.prems(1)])
  have ok: "stack_ok (cur_stack ?s)" using save_take(1) [OF Cons.prems(1)] by simp
  have IH: "current_uarea (intr_tower v rs ?s) = current_uarea s" "stack_ok (cur_stack (intr_tower v rs ?s))"
    "intr_table (intr_tower v rs ?s) = intr_table s"
    "frames_of (cur_stack (intr_tower v rs ?s)) = take (length F - length rs) F"
    "contexts.more (intr_tower v rs ?s) =
      map Some (take (length rs - length F) rs @ drop (length F - length rs) F) @ contexts.more s"
    using Cons.IH [OF ok Cons.prems(2,3)] Cons.prems(4) unfolding F by simp_all
  have run: "inthand (\<lambda>f vec q u. (q, intr_tower v rs u)) v (Some r) s = restore_u (Some r) (intr_tower v rs ?s)"
    using Cons.prems(2-4) by (simp add: inthand_def Let_def)
  show ?case
  proof (cases "length rs < length F")
    case True
    define n where "n = length F - length (r # rs)"
    have n: "length F - length rs = Suc n" "n < length F" "length rs - length F = 0" "length (r # rs) - length F = 0"
      using True by (auto simp: n_def)
    have fr: "frames_of (cur_stack (intr_tower v rs ?s)) = take n F @ [F ! n]"
      unfolding IH(4) n(1) by (rule take_Suc_conv_app_nth [OF n(2)])
    obtain t where t: "restore_u (Some r) (intr_tower v rs ?s) = (Some (F ! n), t)"
      "current_uarea t = current_uarea s" "stack_ok (cur_stack t)" "frames_of (cur_stack t) = take n F"
      "intr_table t = intr_table s" "contexts.more t = map Some (drop (Suc n) F) @ contexts.more s"
      using restore_u_frames [OF IH(2) fr, of r] IH unfolding n(1,3) by auto
    have "intr_tower v (r # rs) s = contexts.more_update (\<lambda>qs. Some (F ! n) # qs) t"
      using run t(1) by simp
    moreover have "drop n F = F ! n # drop (Suc n) F" by (rule Cons_nth_drop_Suc [OF n(2), symmetric])
    ultimately show ?thesis using t n(4) unfolding F_def [symmetric] n_def [symmetric] by simp
  next
    case False
    then have z: "length F - length rs = 0" "length F - length (r # rs) = 0"
      "length (r # rs) - length F = Suc (length rs - length F)" by auto
    have fr: "frames_of (cur_stack (intr_tower v rs ?s)) = []" using IH(4) z(1) by simp
    obtain t where t: "restore_u (Some r) (intr_tower v rs ?s) = (Some r, t)"
      "current_uarea t = current_uarea (intr_tower v rs ?s)" "cur_stack t = cur_stack (intr_tower v rs ?s)"
      "intr_table t = intr_table (intr_tower v rs ?s)" "contexts.more t = contexts.more (intr_tower v rs ?s)"
      using restore_u_empty [OF IH(2) fr, of r] by blast
    have "intr_tower v (r # rs) s = contexts.more_update (\<lambda>qs. Some r # qs) t"
      using run t(1) by simp
    then show ?thesis using t(2-5) IH fr unfolding F_def [symmetric] z by simp
  qed
qed

text \<open>C29: Interrupts nested in one another, each handler interrupted by the next on the same vector,
  unwind exactly when the stack has room for all their frames: each one's code resumes with its own
  registers and the stack is as before. When it has not, the saves beyond the limit are dropped and
  the restores are not, so with \<open>o\<close> frames too many every interrupted code resumes with the frame
  that lies \<open>o\<close> places below its own, unless so few lie below that the stack is empty by then: then
  it keeps its own registers. The stack has lost the top
  \<open>o\<close> of the frames it had before, all of them if it had fewer.\<close>

theorem nested_interrupts_unwind:
  fixes s :: "reg_context option list contexts_scheme" and rs :: "reg_context list"
  assumes "stack_ok (cur_stack s)" and "0 \<le> v" and "v < NVEC" and "iv_handler (intr_table s (nat v)) = Some f"
    and "contexts.more s = []"
  shows "let p = length (frames_of (cur_stack s)); m = length rs; too_many = p + m - MAX_CTX_LAYERS in
    (p + m \<le> MAX_CTX_LAYERS \<longrightarrow> contexts.more (intr_tower v rs s) = map Some rs \<and>
      frames_of (cur_stack (intr_tower v rs s)) = frames_of (cur_stack s)) \<and>
    (MAX_CTX_LAYERS < p + m \<longrightarrow>
      contexts.more (intr_tower v rs s) = map (\<lambda>i. Some (if p + i < too_many then rs ! i
          else (frames_of (cur_stack s) @ rs) ! (p + i - too_many))) [0..<m] \<and>
      frames_of (cur_stack (intr_tower v rs s)) = take (p - too_many) (frames_of (cur_stack s)))"
proof -
  let ?fs = "frames_of (cur_stack s)" and ?F = "take MAX_CTX_LAYERS (frames_of (cur_stack s) @ rs)"
  have p: "length ?fs \<le> MAX_CTX_LAYERS" using length_frames [OF assms(1)] by simp
  note T = tower [OF assms(1-4), of rs]
  have fits: "contexts.more (intr_tower v rs s) = map Some rs \<and> frames_of (cur_stack (intr_tower v rs s)) = ?fs"
    if "length ?fs + length rs \<le> MAX_CTX_LAYERS"
    using T that assms(5) by simp
  have "contexts.more (intr_tower v rs s) = map (\<lambda>i. Some (if length ?fs + i < e then rs ! i
          else (?fs @ rs) ! (length ?fs + i - e))) [0..<length rs] \<and>
      frames_of (cur_stack (intr_tower v rs s)) = take (length ?fs - e) ?fs"
    if big: "MAX_CTX_LAYERS < length ?fs + length rs" and e: "e = length ?fs + length rs - MAX_CTX_LAYERS" for e
  proof -
    have l: "length ?F = MAX_CTX_LAYERS" using big by simp
    have k: "length ?fs - e = MAX_CTX_LAYERS - length rs" using e p big by simp
    have "frames_of (cur_stack (intr_tower v rs s)) = take (length ?fs - e) ?fs"
    proof -
      have "length ?fs - e \<le> length ?fs" "length ?fs - e \<le> MAX_CTX_LAYERS" using p by simp_all
      moreover have "frames_of (cur_stack (intr_tower v rs s)) = take (length ?fs - e) ?F"
        using T unfolding l k by blast
      ultimately show ?thesis using p by simp
    qed
    moreover have "take (length rs - MAX_CTX_LAYERS) rs @ drop (MAX_CTX_LAYERS - length rs) ?F =
        map (\<lambda>i. if length ?fs + i < e then rs ! i else (?fs @ rs) ! (length ?fs + i - e)) [0..<length rs]"
    proof (rule nth_equalityI)
      fix i assume "i < length (take (length rs - MAX_CTX_LAYERS) rs @ drop (MAX_CTX_LAYERS - length rs) ?F)"
      then have i: "i < length rs" using l by simp
      show "(take (length rs - MAX_CTX_LAYERS) rs @ drop (MAX_CTX_LAYERS - length rs) ?F) ! i =
        map (\<lambda>i. if length ?fs + i < e then rs ! i else (?fs @ rs) ! (length ?fs + i - e)) [0..<length rs] ! i"
      proof (cases "length ?fs + i < e")
        case True
        then have "i < length rs - MAX_CTX_LAYERS" using e by simp
        with True i show ?thesis by (simp add: nth_append)
      next
        case False
        then have ge: "length rs - MAX_CTX_LAYERS \<le> i" using e by simp
        have eq: "MAX_CTX_LAYERS - length rs + (i - (length rs - MAX_CTX_LAYERS)) = length ?fs + i - e"
          using e ge big False i by simp
        have "length ?fs + i - e < MAX_CTX_LAYERS" using e big i by (auto simp: MAX_CTX_LAYERS_def)
        then have "?F ! (length ?fs + i - e) = (?fs @ rs) ! (length ?fs + i - e)" by (rule nth_take)
        moreover have "(take (length rs - MAX_CTX_LAYERS) rs @ drop (MAX_CTX_LAYERS - length rs) ?F) ! i =
            drop (MAX_CTX_LAYERS - length rs) ?F ! (i - (length rs - MAX_CTX_LAYERS))"
          using ge by (subst nth_append) simp
        moreover have "\<dots> = ?F ! (length ?fs + i - e)"
          unfolding eq [symmetric] by (rule nth_drop) (use l in simp)
        ultimately show ?thesis using False i by simp
      qed
    qed (use l in simp)
    ultimately show ?thesis using T assms(5) unfolding l by simp
  qed
  with fits show ?thesis by (simp add: Let_def)
qed

section \<open>Instances\<close>

definition frame_demo :: "u64 \<Rightarrow> reg_context" where
  "frame_demo pc = \<lparr>rc_pc = pc, rc_sp = 0, rc_sr = 0, rc_carry = 0, rc_gpr = replicate 16 0, rc_r0 = 0, rc_r1 = 0\<rparr>"

text \<open>As after boot: every stack zero filled, so that its top is 0 and its first frame counts as saved.\<close>

definition boot_contexts :: "reg_context option list contexts_scheme" where
  "boot_contexts = \<lparr>intr_table = (\<lambda>i. \<lparr>iv_num = int i, iv_handler = Some 1, iv_name = ''irq''\<rparr>), current_context = 0,
     sys_ctxs = (\<lambda>a. \<lparr>sc_uarea = None, sc_layer_top = 0, sc_layers = replicate 8 (frame_demo 0)\<rparr>),
     u_sysctx = (\<lambda>k. \<lparr>sc_uarea = None, sc_layer_top = 0, sc_layers = replicate 8 (frame_demo 0)\<rparr>), \<dots> = []\<rparr>"

lemma boot_stack: "stack_ok (cur_stack boot_contexts)" "frames_of (cur_stack boot_contexts) = [frame_demo 0]"
  "sc_layer_top (cur_stack boot_contexts) = 0" "current_uarea boot_contexts = 0"
  by (simp_all add: boot_contexts_def cur_stack_def current_uarea_def stack_ok_def frames_of_def MAX_CTX_LAYERS_def)

lemma inthand_discards_changes_witness:
  "\<exists>t. inthand (\<lambda>f vec q u. (Some (frame_demo 99), u)) 32 (Some (frame_demo 7)) boot_contexts = (Some (frame_demo 7), t)"
  using inthand_discards_changes [of boot_contexts 32 1 "\<lambda>f vec q u. (Some (frame_demo 99), u)" "frame_demo 7" "frame_demo 99"
      "save_u (Some (frame_demo 7)) boot_contexts"] boot_stack
  by (auto simp: NVEC_def MAX_CTX_LAYERS_def boot_contexts_def)

lemma nested_interrupts_unwind_witness:
  "contexts.more (intr_tower 32 (map frame_demo [1, 2, 3, 4, 5, 6, 7, 8, 9]) boot_contexts) =
     map (Some \<circ> frame_demo) [1, 0, 1, 2, 3, 4, 5, 6, 7]"
  using nested_interrupts_unwind [OF boot_stack(1), of 32 1 "map frame_demo [1, 2, 3, 4, 5, 6, 7, 8, 9]"] boot_stack(2)
  by (simp add: NVEC_def MAX_CTX_LAYERS_def eval_nat_numeral) (simp add: boot_contexts_def)

end
