(* ===== verification/Sched.thy ===== *)
theory Sched
  imports Proc Context
begin

text \<open>
  The scheduler and the clock (\<open>33_PCS/01_schedular/src/uiox_kix_scheduler.c\<close>,
  \<open>uiox_kix_clock.c\<close>, \<open>uiox_kix_profiler.c\<close>): the feedback run queue of five bands, the choice of
  the next process, the charge of a tick, the callout table, the load averages and the profiler.
  A process is the index of its wrapper; the queue links are those of the embedded entry. A
  callout's function is a number whose effect is a parameter of the clock. Walks over a band have
  an option result, \<open>None\<close> if they do not end.
\<close>

section \<open>Types and state\<close>

definition HZ :: u64 where "HZ = 1000"
definition TICK_NSEC :: u32 where "TICK_NSEC = 1000000"
definition TIME_QUANTUM :: int where "TIME_QUANTUM = 10"
definition MAX_PRIORITY :: int where "MAX_PRIORITY = 140"
definition MAX_CALLOUTS :: nat where "MAX_CALLOUTS = 32"
definition MAX_PRIORITY_QUEUES :: nat where "MAX_PRIORITY_QUEUES = 5"
definition PROF_BUCKETS :: u64 where "PROF_BUCKETS = 256"

datatype sched_policy = SCHED_NORMAL | SCHED_FIFO | SCHED_RR | SCHED_FAIR

record sproc =
  sp :: proc
  s_time_slice :: int
  s_total_ticks :: u64
  s_cpu_usage :: u32
  s_policy :: sched_policy
  s_group_id :: int
  s_in_memory :: int

record load_avg =
  load_1 :: u32
  load_5 :: u32
  load_15 :: u32

record callout =
  delta_ticks :: int
  co_fn :: "nat option"
  co_arg :: u64
  co_active :: bool

record profiler =
  kernel_hits :: "nat \<Rightarrow> u64"
  user_hits :: "nat \<Rightarrow> u64"
  kernel_profiling :: bool
  user_profiling :: bool
  total_samples :: u64

record nmi_watchdog =
  nmi_enabled :: bool
  nmi_last_jiffies :: u64
  nmi_threshold :: u64
  nmi_count :: u64

record sched =
  sprocs :: "nat \<Rightarrow> sproc"
  rq_heads :: "nat \<Rightarrow> nat option"
  rq_count :: int
  s_current :: "nat option"
  sched_context :: u64
  k_jiffies :: u64
  k_jiffies_64 :: u64
  x_sec :: int
  x_nsec :: u32
  callouts :: "nat \<Rightarrow> callout"
  callout_count :: int
  loads :: load_avg
  last_second_tick :: u64
  total_ticks :: u64
  prof :: profiler
  nmi_wd :: nmi_watchdog

definition upd_sproc :: "nat \<Rightarrow> (sproc \<Rightarrow> sproc) \<Rightarrow> sched \<Rightarrow> sched" where
  "upd_sproc i f s = s\<lparr>sprocs := (sprocs s)(i := f (sprocs s i))\<rparr>"

text \<open>Access to the embedded entry.\<close>

abbreviation ent :: "sched \<Rightarrow> nat \<Rightarrow> proc" where "ent s i \<equiv> sp (sprocs s i)"
abbreviation prio :: "sched \<Rightarrow> nat \<Rightarrow> int" where "prio s i \<equiv> p_pri (p_sched (ent s i))"

definition upd_ent :: "nat \<Rightarrow> (proc \<Rightarrow> proc) \<Rightarrow> sched \<Rightarrow> sched" where
  "upd_ent i f s = upd_sproc i (\<lambda>x. x\<lparr>sp := f (sp x)\<rparr>) s"

definition set_pri :: "int \<Rightarrow> proc \<Rightarrow> proc" where
  "set_pri n e = e\<lparr>p_sched := (p_sched e)\<lparr>p_pri := n\<rparr>\<rparr>"

section \<open>The run queue\<close>

definition priority_to_band :: "int \<Rightarrow> nat" where
  "priority_to_band pr =
     (let band = MAX_PRIORITY div int MAX_PRIORITY_QUEUES;
          pr = (if pr < 0 then 0 else pr);
          pr = (if MAX_PRIORITY \<le> pr then MAX_PRIORITY - 1 else pr)
      in nat (pr div band))"

definition sched_eligible :: "proc option \<Rightarrow> bool \<Rightarrow> bool" where
  "sched_eligible e in_memory =
     (case e of None \<Rightarrow> False | Some e \<Rightarrow> in_memory \<and> p_state e = READY)"

definition scheduler_init :: "sched \<Rightarrow> sched" where
  "scheduler_init s =
     s\<lparr>rq_heads := (\<lambda>q. if q < MAX_PRIORITY_QUEUES then None else rq_heads s q), rq_count := 0, s_current := None\<rparr>"

definition uiox_sched_init :: "sched \<Rightarrow> sched" where "uiox_sched_init = scheduler_init"

definition enqueue_process :: "nat option \<Rightarrow> sched \<Rightarrow> sched" where
  "enqueue_process p s =
     (case p of
        None \<Rightarrow> s
      | Some i \<Rightarrow>
          if \<not> sched_eligible (Some (ent s i)) (s_in_memory (sprocs s i) \<noteq> 0) then s
          else
            (let q = priority_to_band (prio s i);
                 s = upd_ent i (\<lambda>e. e\<lparr>p_next := rq_heads s q\<rparr>) s;
                 s = upd_ent i (\<lambda>e. e\<lparr>p_prev := None\<rparr>) s;
                 s = (case rq_heads s q of None \<Rightarrow> s | Some h \<Rightarrow> upd_ent h (\<lambda>e. e\<lparr>p_prev := Some i\<rparr>) s);
                 s = s\<lparr>rq_heads := (rq_heads s)(q := Some i)\<rparr>
             in s\<lparr>rq_count := rq_count s + 1\<rparr>))"

definition dequeue_process :: "nat option \<Rightarrow> sched \<Rightarrow> sched" where
  "dequeue_process p s =
     (case p of
        None \<Rightarrow> s
      | Some i \<Rightarrow>
          (let q = priority_to_band (prio s i);
               s = (case p_prev (ent s i) of
                      Some l \<Rightarrow> upd_ent l (\<lambda>e. e\<lparr>p_next := p_next (ent s i)\<rparr>) s
                    | None \<Rightarrow> s\<lparr>rq_heads := (rq_heads s)(q := p_next (ent s i))\<rparr>);
               s = (case p_next (ent s i) of
                      Some r \<Rightarrow> upd_ent r (\<lambda>e. e\<lparr>p_prev := p_prev (ent s i)\<rparr>) s
                    | None \<Rightarrow> s);
               s = upd_ent i (\<lambda>e. e\<lparr>p_next := None\<rparr>) s;
               s = upd_ent i (\<lambda>e. e\<lparr>p_prev := None\<rparr>) s
           in s\<lparr>rq_count := rq_count s - 1\<rparr>))"

section \<open>Priorities\<close>

definition recalculate_priority :: "nat option \<Rightarrow> sched \<Rightarrow> sched" where
  "recalculate_priority p s =
     (case p of
        None \<Rightarrow> s
      | Some i \<Rightarrow>
          (let n = p_cpu (p_sched (ent s i)) + p_nice (p_sched (ent s i));
               n = (if n < 1 then 1 else n);
               n = (if MAX_PRIORITY \<le> n then MAX_PRIORITY - 1 else n)
           in upd_ent i (set_pri n) s))"

text \<open>The loop over one band, \<open>for (e = head; e; e = e->p_next)\<close>, and over all of them.\<close>

partial_function (option) for_band :: "(nat \<Rightarrow> 'a \<times> sched \<Rightarrow> 'a \<times> sched) \<Rightarrow> nat option \<Rightarrow> 'a \<times> sched
    \<Rightarrow> ('a \<times> sched) option" where
  "for_band f e x =
     (case e of
        None \<Rightarrow> Some x
      | Some i \<Rightarrow> for_band f (p_next (ent (snd (f i x)) i)) (f i x))"

fun for_bands :: "(nat \<Rightarrow> 'a \<times> sched \<Rightarrow> 'a \<times> sched) \<Rightarrow> nat list \<Rightarrow> 'a \<times> sched \<Rightarrow> ('a \<times> sched) option" where
  "for_bands f [] x = Some x"
| "for_bands f (q # qs) x =
     (case for_band f (rq_heads (snd x) q) x of None \<Rightarrow> None | Some x \<Rightarrow> for_bands f qs x)"

definition for_queued :: "(nat \<Rightarrow> 'a \<times> sched \<Rightarrow> 'a \<times> sched) \<Rightarrow> 'a \<times> sched \<Rightarrow> ('a \<times> sched) option" where
  "for_queued f x = for_bands f [0..<MAX_PRIORITY_QUEUES] x"

definition readjust_one :: "nat \<Rightarrow> unit \<times> sched \<Rightarrow> unit \<times> sched" where
  "readjust_one i = (\<lambda>(u, s). (u, if p_state (ent s i) = READY then recalculate_priority (Some i) s else s))"

definition readjust_all_priorities :: "sched \<Rightarrow> sched option" where
  "readjust_all_priorities s = map_option snd (for_queued readjust_one ((), s))"

section \<open>Choosing a process\<close>

partial_function (option) band_pick :: "sched \<Rightarrow> nat option \<Rightarrow> nat option option" where
  "band_pick s e =
     (case e of
        None \<Rightarrow> Some None
      | Some i \<Rightarrow>
          if sched_eligible (Some (ent s i)) (s_in_memory (sprocs s i) \<noteq> 0) then Some (Some i)
          else band_pick s (p_next (ent s i)))"

fun bands_pick :: "sched \<Rightarrow> nat list \<Rightarrow> nat option option" where
  "bands_pick s [] = Some None"
| "bands_pick s (q # qs) =
     (case band_pick s (rq_heads s q) of
        None \<Rightarrow> None
      | Some (Some i) \<Rightarrow> Some (Some i)
      | Some None \<Rightarrow> bands_pick s qs)"

definition sched_set_state :: "nat \<Rightarrow> pstate \<Rightarrow> sched \<Rightarrow> sched" where
  "sched_set_state i new s =
     (if valid_transition (p_state (ent s i)) new then upd_ent i (enter_state new) s else s)"

definition dispatch :: "nat \<Rightarrow> sched \<Rightarrow> sched" where
  "dispatch i s =
     (let s = dequeue_process (Some i) s;
          s = sched_set_state i KERNEL_RUNNING s;
          s = upd_sproc i (\<lambda>x. x\<lparr>s_time_slice := TIME_QUANTUM\<rparr>) s;
          s = s\<lparr>s_current := Some i\<rparr>
      in s\<lparr>sched_context := context_switch (p_addr (ent s i)) (sched_context s)\<rparr>)"

definition schedule_process :: "sched \<Rightarrow> (nat option \<times> sched) option" where
  "schedule_process s =
     (case bands_pick s [0..<MAX_PRIORITY_QUEUES] of
        None \<Rightarrow> None
      | Some None \<Rightarrow> Some (None, s)
      | Some (Some i) \<Rightarrow> Some (Some i, dispatch i s))"

definition charge_tick :: "sproc \<Rightarrow> sproc" where
  "charge_tick x =
     (let x = x\<lparr>s_total_ticks := s_total_ticks x + 1\<rparr>;
          x = x\<lparr>sp := (sp x)\<lparr>p_timers := (p_timers (sp x))\<lparr>p_utime := p_utime (p_timers (sp x)) + 1\<rparr>\<rparr>\<rparr>;
          x = x\<lparr>s_cpu_usage := (s_cpu_usage x * 7 + 255) div 8\<rparr>;
          x = x\<lparr>sp := (sp x)\<lparr>p_sched := (p_sched (sp x))\<lparr>p_cpu := sint (s_cpu_usage x)\<rparr>\<rparr>\<rparr>
      in if 0 < s_time_slice x then x\<lparr>s_time_slice := s_time_slice x - 1\<rparr> else x)"

definition tick_process :: "nat option \<Rightarrow> sched \<Rightarrow> bool \<times> sched" where
  "tick_process r s =
     (case r of
        None \<Rightarrow> (False, s)
      | Some i \<Rightarrow>
          (let s = upd_sproc i charge_tick s in
           if s_time_slice (sprocs s i) = 0
           then
             (let s = (if prio s i < MAX_PRIORITY - 1 then upd_ent i (set_pri (prio s i + 1)) s else s);
                  s = sched_set_state i READY s
              in (True, enqueue_process (Some i) s))
           else (False, s)))"

section \<open>Fair share\<close>

definition share_sum :: "int \<Rightarrow> nat \<Rightarrow> (u64 \<times> int) \<times> sched \<Rightarrow> (u64 \<times> int) \<times> sched" where
  "share_sum g i = (\<lambda>((t, n), s).
     if s_group_id (sprocs s i) = g then ((t + s_total_ticks (sprocs s i), n + 1), s) else ((t, n), s))"

definition share_one :: "int \<Rightarrow> u64 \<Rightarrow> nat \<Rightarrow> unit \<times> sched \<Rightarrow> unit \<times> sched" where
  "share_one g avg i = (\<lambda>(u, s).
     if s_group_id (sprocs s i) \<noteq> g then (u, s)
     else if avg < s_total_ticks (sprocs s i) \<and> prio s i < MAX_PRIORITY - 1
       then (u, upd_ent i (set_pri (prio s i + 1)) s)
     else if s_total_ticks (sprocs s i) < avg \<and> 1 < prio s i
       then (u, upd_ent i (set_pri (prio s i - 1)) s)
     else (u, s))"

definition fair_share_adjust :: "int \<Rightarrow> sched \<Rightarrow> sched option" where
  "fair_share_adjust g s =
     (case for_queued (share_sum g) ((0, 0), s) of
        None \<Rightarrow> None
      | Some ((t, n), s) \<Rightarrow>
          if n = 0 then Some s
          else map_option snd (for_queued (share_one g (t div of_int n)) ((), s)))"

section \<open>The profiler\<close>

definition profiler_init :: "bool \<Rightarrow> bool \<Rightarrow> sched \<Rightarrow> sched" where
  "profiler_init kernel_on user_on s =
     s\<lparr>prof := \<lparr>kernel_hits = (\<lambda>i. if i < unat PROF_BUCKETS then 0 else kernel_hits (prof s) i),
               user_hits = (\<lambda>i. if i < unat PROF_BUCKETS then 0 else user_hits (prof s) i),
               kernel_profiling = kernel_on, user_profiling = user_on, total_samples = 0\<rparr>,
       nmi_wd := \<lparr>nmi_enabled = False, nmi_last_jiffies = 0, nmi_threshold = 0, nmi_count = 0\<rparr>\<rparr>"

definition prof_bucket :: "u64 \<Rightarrow> nat" where
  "prof_bucket pc = unat (drop_bit 8 pc mod PROF_BUCKETS)"

definition bump :: "nat \<Rightarrow> (nat \<Rightarrow> u64) \<Rightarrow> nat \<Rightarrow> u64" where "bump b h = h(b := h b + 1)"

definition profiler_tick :: "u64 \<Rightarrow> u64 \<Rightarrow> sched \<Rightarrow> sched" where
  "profiler_tick kernel_pc user_pc s =
     (let p = prof s;
          p = p\<lparr>total_samples := total_samples p + 1\<rparr>;
          p = (if kernel_profiling p then p\<lparr>kernel_hits := bump (prof_bucket kernel_pc) (kernel_hits p)\<rparr> else p);
          p = (if user_profiling p then p\<lparr>user_hits := bump (prof_bucket user_pc) (user_hits p)\<rparr> else p);
          w = nmi_wd s;
          w = (if nmi_enabled w then w\<lparr>nmi_last_jiffies := k_jiffies s, nmi_count := nmi_count w + 1\<rparr> else w)
      in s\<lparr>prof := p, nmi_wd := w\<rparr>)"

definition pick_top :: "(nat \<Rightarrow> u64) \<Rightarrow> int \<times> (nat \<Rightarrow> u64)" where
  "pick_top hits =
     (let (max_hits, max_idx) = fold (\<lambda>b (m, i). if m < hits b then (hits b, int b) else (m, i)) [0..<unat PROF_BUCKETS] (0, - 1)
      in (max_idx, if 0 \<le> max_idx then hits(nat max_idx := 0) else hits))"

text \<open>The buckets that one half of the report prints.\<close>

fun report_top :: "nat \<Rightarrow> (nat \<Rightarrow> u64) \<Rightarrow> int list \<times> (nat \<Rightarrow> u64)" where
  "report_top 0 hits = ([], hits)"
| "report_top (Suc n) hits =
     (let (i, h) = pick_top hits in
      if i < 0 then ([], h) else (let (is, h) = report_top n h in (i # is, h)))"

definition profiler_report :: "int \<Rightarrow> sched \<Rightarrow> (int list \<times> int list) \<times> sched" where
  "profiler_report top_n s =
     (let (ks, kh) = report_top (nat top_n) (kernel_hits (prof s));
          (us, uh) = report_top (nat top_n) (user_hits (prof s))
      in ((ks, us), s\<lparr>prof := (prof s)\<lparr>kernel_hits := kh, user_hits := uh\<rparr>\<rparr>))"

definition nmi_watchdog_enable :: "u64 \<Rightarrow> sched \<Rightarrow> sched" where
  "nmi_watchdog_enable threshold s =
     s\<lparr>nmi_wd := \<lparr>nmi_enabled = True, nmi_last_jiffies = k_jiffies s, nmi_threshold = threshold, nmi_count = 0\<rparr>\<rparr>"

text \<open>The number of ticks in the freeze message, if it is printed.\<close>

definition nmi_watchdog_check :: "sched \<Rightarrow> u64 option" where
  "nmi_watchdog_check s =
     (if \<not> nmi_enabled (nmi_wd s) then None
      else
        (let elapsed = k_jiffies s - nmi_last_jiffies (nmi_wd s)
         in if nmi_threshold (nmi_wd s) \<le> elapsed then Some elapsed else None))"

section \<open>The clock\<close>

definition LOAD_ALPHA_1 :: u32 where "LOAD_ALPHA_1 = 920"
definition LOAD_ALPHA_5 :: u32 where "LOAD_ALPHA_5 = 983"
definition LOAD_ALPHA_15 :: u32 where "LOAD_ALPHA_15 = 994"

definition ewma_update :: "u32 \<Rightarrow> u32 \<Rightarrow> u32 \<Rightarrow> u32" where
  "ewma_update alpha old sample =
     ucast ((ucast alpha * (ucast old :: u64) + ucast (1000 - alpha) * (ucast sample :: u64)) div 1000)"

definition zero_load :: load_avg where "zero_load = \<lparr>load_1 = 0, load_5 = 0, load_15 = 0\<rparr>"

definition clock_init :: "sched \<Rightarrow> sched" where
  "clock_init s =
     s\<lparr>callouts := (\<lambda>i. if i < MAX_CALLOUTS then \<lparr>delta_ticks = 0, co_fn = None, co_arg = 0, co_active = False\<rparr>
                     else callouts s i),
       callout_count := 0, loads := zero_load, last_second_tick := 0, total_ticks := 0\<rparr>"

definition upd_callout :: "nat \<Rightarrow> (callout \<Rightarrow> callout) \<Rightarrow> sched \<Rightarrow> sched" where
  "upd_callout i f s = s\<lparr>callouts := (callouts s)(i := f (callouts s i))\<rparr>"

definition callout_one :: "(nat \<Rightarrow> u64 \<Rightarrow> sched \<Rightarrow> sched) \<Rightarrow> nat \<Rightarrow> sched \<Rightarrow> sched" where
  "callout_one cb i s =
     (if \<not> co_active (callouts s i) then s
      else
        (let s = upd_callout i (\<lambda>c. c\<lparr>delta_ticks := delta_ticks c - 1\<rparr>) s in
         if 0 < delta_ticks (callouts s i) then s
         else
           (let f = co_fn (callouts s i);
                s = upd_callout i (\<lambda>c. c\<lparr>co_active := False\<rparr>) s;
                s = s\<lparr>callout_count := callout_count s - 1\<rparr>
            in case f of None \<Rightarrow> s | Some f \<Rightarrow> cb f (co_arg (callouts s i)) s)))"

definition process_callouts :: "(nat \<Rightarrow> u64 \<Rightarrow> sched \<Rightarrow> sched) \<Rightarrow> sched \<Rightarrow> sched" where
  "process_callouts cb s = fold (callout_one cb) [0..<MAX_CALLOUTS] s"

definition count_active :: "nat \<Rightarrow> u32 \<times> sched \<Rightarrow> u32 \<times> sched" where
  "count_active i = (\<lambda>(n, s).
     (if p_state (ent s i) = READY \<and> s_in_memory (sprocs s i) \<noteq> 0 then n + 1 else n, s))"

definition feed_loads :: "u32 \<Rightarrow> load_avg \<Rightarrow> load_avg" where
  "feed_loads active l =
     \<lparr>load_1 = ewma_update LOAD_ALPHA_1 (load_1 l) active, load_5 = ewma_update LOAD_ALPHA_5 (load_5 l) active,
      load_15 = ewma_update LOAD_ALPHA_15 (load_15 l) active\<rparr>"

definition update_load_avg :: "sched \<Rightarrow> sched option" where
  "update_load_avg s =
     (case for_queued count_active (0, s) of
        None \<Rightarrow> None
      | Some (active, s) \<Rightarrow>
          (case for_queued readjust_one ((), s\<lparr>loads := feed_loads active (loads s)\<rparr>) of
             None \<Rightarrow> None
           | Some (_, s) \<Rightarrow> readjust_all_priorities s))"

definition advance_time :: "sched \<Rightarrow> sched" where
  "advance_time s =
     (let s = s\<lparr>total_ticks := total_ticks s + 1, k_jiffies := k_jiffies s + 1, k_jiffies_64 := k_jiffies_64 s + 1,
                x_nsec := x_nsec s + TICK_NSEC\<rparr>
      in if 1000000000 \<le> x_nsec s then s\<lparr>x_nsec := x_nsec s - 1000000000, x_sec := x_sec s + 1\<rparr> else s)"

definition usage_one :: "nat \<Rightarrow> unit \<times> sched \<Rightarrow> unit \<times> sched" where
  "usage_one i = (\<lambda>(u, s).
     (u, if s_cpu_usage (sprocs s i) < 255 then upd_sproc i (\<lambda>x. x\<lparr>s_cpu_usage := s_cpu_usage x + 1\<rparr>) s else s))"

definition clock_tick :: "(nat \<Rightarrow> u64 \<Rightarrow> sched \<Rightarrow> sched) \<Rightarrow> sched \<Rightarrow> sched option" where
  "clock_tick cb s =
     (let s = profiler_tick 0 0 (process_callouts cb (advance_time s)) in
      case for_queued usage_one ((), s) of
        None \<Rightarrow> None
      | Some (_, s) \<Rightarrow>
          (let (resched, s) = tick_process (s_current s) s in
           case (if resched then schedule_process s else Some (None, s)) of
             None \<Rightarrow> None
           | Some (_, s) \<Rightarrow>
               if HZ \<le> k_jiffies s - last_second_tick s
               then update_load_avg (s\<lparr>last_second_tick := k_jiffies s\<rparr>)
               else Some s))"


definition callout_cancel :: "int \<Rightarrow> sched \<Rightarrow> sched" where
  "callout_cancel idx s =
     (if idx < 0 \<or> int MAX_CALLOUTS \<le> idx then s
      else if co_active (callouts s (nat idx))
        then (upd_callout (nat idx) (\<lambda>c. c\<lparr>co_active := False\<rparr>) s)\<lparr>callout_count := callout_count s - 1\<rparr>
        else s)"

section \<open>Bands as lists\<close>

definition nxt :: "sched \<Rightarrow> nat \<Rightarrow> nat option" where "nxt s i = p_next (ent s i)"
definition prv :: "sched \<Rightarrow> nat \<Rightarrow> nat option" where "prv s i = p_prev (ent s i)"

text \<open>A wrapper without its queue links.\<close>

definition core :: "sched \<Rightarrow> nat \<Rightarrow> sproc" where
  "core s i = (sprocs s i)\<lparr>sp := (ent s i)\<lparr>p_next := None, p_prev := None\<rparr>\<rparr>"

definition elig :: "sched \<Rightarrow> nat \<Rightarrow> bool" where
  "elig s i \<longleftrightarrow> s_in_memory (sprocs s i) \<noteq> 0 \<and> p_state (ent s i) = READY"

definition bands_ok :: "sched \<Rightarrow> (nat \<Rightarrow> nat list) \<Rightarrow> bool" where
  "bands_ok s B \<longleftrightarrow>
     (\<forall>q<MAX_PRIORITY_QUEUES. dll (nxt s) (prv s) (rq_heads s q) (lastp None (B q)) (B q)) \<and>
     (\<forall>q<MAX_PRIORITY_QUEUES. \<forall>r<MAX_PRIORITY_QUEUES. q \<noteq> r \<longrightarrow> set (B q) \<inter> set (B r) = {})"

text \<open>Every process is in the band that its priority names.\<close>

definition bands_right :: "sched \<Rightarrow> (nat \<Rightarrow> nat list) \<Rightarrow> bool" where
  "bands_right s B \<longleftrightarrow> (\<forall>q<MAX_PRIORITY_QUEUES. \<forall>i\<in>set (B q). priority_to_band (prio s i) = q)"

definition queue_order :: "(nat \<Rightarrow> nat list) \<Rightarrow> nat list" where
  "queue_order B = concat (map B [0..<MAX_PRIORITY_QUEUES])"

lemma core_sel:
  assumes "core t i = core s i"
  shows "prio t i = prio s i" "elig t i = elig s i" "s_time_slice (sprocs t i) = s_time_slice (sprocs s i)"
    "s_total_ticks (sprocs t i) = s_total_ticks (sprocs s i)" "p_state (ent t i) = p_state (ent s i)"
    "s_in_memory (sprocs t i) = s_in_memory (sprocs s i)" "p_addr (ent t i) = p_addr (ent s i)"
proof -
  have f: "g (core t i) = g (core s i)" for g :: "sproc \<Rightarrow> 'b" by (simp add: assms)
  show "prio t i = prio s i" using f [of "\<lambda>x. p_pri (p_sched (sp x))"] by (simp add: core_def)
  show st: "p_state (ent t i) = p_state (ent s i)" using f [of "\<lambda>x. p_state (sp x)"] by (simp add: core_def)
  show mem: "s_in_memory (sprocs t i) = s_in_memory (sprocs s i)" using f [of s_in_memory] by (simp add: core_def)
  show "elig t i = elig s i" using st mem by (simp add: elig_def)
  show "s_time_slice (sprocs t i) = s_time_slice (sprocs s i)" using f [of s_time_slice] by (simp add: core_def)
  show "s_total_ticks (sprocs t i) = s_total_ticks (sprocs s i)" using f [of s_total_ticks] by (simp add: core_def)
  show "p_addr (ent t i) = p_addr (ent s i)" using f [of "\<lambda>x. p_addr (sp x)"] by (simp add: core_def)
qed

lemma upd_sproc_sel [simp]:
  "sprocs (upd_sproc i f s) = (sprocs s)(i := f (sprocs s i))" "rq_heads (upd_sproc i f s) = rq_heads s"
  "rq_count (upd_sproc i f s) = rq_count s" "s_current (upd_sproc i f s) = s_current s"
  "callouts (upd_sproc i f s) = callouts s" "k_jiffies (upd_sproc i f s) = k_jiffies s"
  "last_second_tick (upd_sproc i f s) = last_second_tick s"
  by (simp_all add: upd_sproc_def)

lemma upd_ent_sel [simp]:
  "sprocs (upd_ent i f s) = (sprocs s)(i := (sprocs s i)\<lparr>sp := f (ent s i)\<rparr>)" "rq_heads (upd_ent i f s) = rq_heads s"
  "rq_count (upd_ent i f s) = rq_count s" "s_current (upd_ent i f s) = s_current s"
  "callouts (upd_ent i f s) = callouts s" "k_jiffies (upd_ent i f s) = k_jiffies s"
  "last_second_tick (upd_ent i f s) = last_second_tick s"
  by (simp_all add: upd_ent_def)

lemma links_upd [simp]:
  "nxt (upd_ent i (\<lambda>e. e\<lparr>p_next := v\<rparr>) s) = (nxt s)(i := v)" "prv (upd_ent i (\<lambda>e. e\<lparr>p_next := v\<rparr>) s) = prv s"
  "nxt (upd_ent i (\<lambda>e. e\<lparr>p_prev := v\<rparr>) s) = nxt s" "prv (upd_ent i (\<lambda>e. e\<lparr>p_prev := v\<rparr>) s) = (prv s)(i := v)"
  "core (upd_ent i (\<lambda>e. e\<lparr>p_next := v\<rparr>) s) = core s" "core (upd_ent i (\<lambda>e. e\<lparr>p_prev := v\<rparr>) s) = core s"
  by (simp_all add: fun_eq_iff nxt_def prv_def core_def)

lemma links_fields [simp]:
  "nxt (s\<lparr>rq_heads := h\<rparr>) = nxt s" "prv (s\<lparr>rq_heads := h\<rparr>) = prv s" "core (s\<lparr>rq_heads := h\<rparr>) = core s"
  "nxt (s\<lparr>rq_count := n\<rparr>) = nxt s" "prv (s\<lparr>rq_count := n\<rparr>) = prv s" "core (s\<lparr>rq_count := n\<rparr>) = core s"
  by (simp_all add: fun_eq_iff nxt_def prv_def core_def)

lemma bands_okD:
  assumes "bands_ok s B"
  shows "q < MAX_PRIORITY_QUEUES \<Longrightarrow> dll (nxt s) (prv s) (rq_heads s q) (lastp None (B q)) (B q)"
    and "q < MAX_PRIORITY_QUEUES \<Longrightarrow> r < MAX_PRIORITY_QUEUES \<Longrightarrow> x \<in> set (B q) \<Longrightarrow> x \<in> set (B r) \<Longrightarrow> q = r"
    and "q < MAX_PRIORITY_QUEUES \<Longrightarrow> rq_heads s q = headp (B q) None"
  using assms dll_ends unfolding bands_ok_def by blast+

lemma bands_ok_cong:
  "nxt t = nxt s \<Longrightarrow> prv t = prv s \<Longrightarrow> rq_heads t = rq_heads s \<Longrightarrow> bands_ok t B = bands_ok s B"
  by (simp add: bands_ok_def)

lemma bands_ok_lists: "(\<And>q. q < MAX_PRIORITY_QUEUES \<Longrightarrow> C q = D q) \<Longrightarrow> bands_ok s C = bands_ok s D"
  by (simp add: bands_ok_def)

lemma band_bound: "priority_to_band p < MAX_PRIORITY_QUEUES"
proof -
  have "p' div 28 < 5" if "p' < 140" for p' :: int using that by simp
  then show ?thesis by (auto simp: priority_to_band_def Let_def MAX_PRIORITY_def MAX_PRIORITY_QUEUES_def nat_less_iff)
qed

text \<open>One band is relinked; the links of the other bands' nodes do not change.\<close>

lemma bands_ok_band:
  assumes ok: "bands_ok s B" and q: "q < MAX_PRIORITY_QUEUES"
    and dl: "dll (nxt t) (prv t) (rq_heads t q) (lastp None xs) xs"
    and hd: "\<And>r. r < MAX_PRIORITY_QUEUES \<Longrightarrow> r \<noteq> q \<Longrightarrow> rq_heads t r = rq_heads s r"
    and other: "\<And>r x. r < MAX_PRIORITY_QUEUES \<Longrightarrow> r \<noteq> q \<Longrightarrow> x \<in> set (B r) \<Longrightarrow>
      nxt t x = nxt s x \<and> prv t x = prv s x \<and> x \<notin> set xs"
  shows "bands_ok t (B(q := xs))"
proof -
  have "dll (nxt t) (prv t) (rq_heads t r) (lastp None (B r)) (B r)" if "r < MAX_PRIORITY_QUEUES" "r \<noteq> q" for r
  proof -
    have "dll (nxt s) (prv s) (rq_heads t r) (lastp None (B r)) (B r)"
      using bands_okD(1) [OF ok that(1)] hd [OF that] by simp
    then show ?thesis by (subst dll_cong [of "B r" "nxt t" "nxt s" "prv t" "prv s"]) (use other [OF that] in auto)
  qed
  moreover have "set ((B(q := xs)) r) \<inter> set ((B(q := xs)) r') = {}"
    if "r < MAX_PRIORITY_QUEUES" "r' < MAX_PRIORITY_QUEUES" "r \<noteq> r'" for r r'
    using that other bands_okD(2) [OF ok, of r r'] q by auto
  ultimately show ?thesis using dl unfolding bands_ok_def by auto
qed

section \<open>Enqueue and dequeue\<close>

lemma enqueue_links:
  assumes "elig s i" and "rq_heads s (priority_to_band (prio s i)) \<noteq> Some i"
  defines "q \<equiv> priority_to_band (prio s i)" and "t \<equiv> enqueue_process (Some i) s"
  shows "nxt t = (nxt s)(i := rq_heads s q)" and "prv t = (updo (rq_heads s q) (Some i) (prv s))(i := None)"
    and "rq_heads t = (rq_heads s)(q := Some i)" and "core t = core s" and "rq_count t = rq_count s + 1"
    and "s_current t = s_current s"
proof -
  have e: "sched_eligible (Some (ent s i)) (s_in_memory (sprocs s i) \<noteq> 0)"
    using assms(1) by (simp add: sched_eligible_def elig_def)
  show "nxt t = (nxt s)(i := rq_heads s q)" "prv t = (updo (rq_heads s q) (Some i) (prv s))(i := None)"
    "rq_heads t = (rq_heads s)(q := Some i)" "core t = core s" "rq_count t = rq_count s + 1" "s_current t = s_current s"
    using assms(2) e unfolding t_def q_def
    by (auto simp: enqueue_process_def Let_def updo_def fun_upd_twist split: option.split)
qed

lemma enqueue_bands:
  assumes ok: "bands_ok s B" and e: "elig s i" and new: "\<And>r. r < MAX_PRIORITY_QUEUES \<Longrightarrow> i \<notin> set (B r)"
  defines "q \<equiv> priority_to_band (prio s i)" and "t \<equiv> enqueue_process (Some i) s"
  shows "bands_ok t (B(q := i # B q))" and "core t = core s" and "rq_count t = rq_count s + 1" and "s_current t = s_current s"
proof -
  have q: "q < MAX_PRIORITY_QUEUES" by (simp add: q_def band_bound)
  have h: "rq_heads s q = headp (B q) None" by (rule bands_okD(3) [OF ok q])
  then have ni: "rq_heads s q \<noteq> Some i" using new [OF q] headp_in [of "B q" i] by auto
  note L = enqueue_links [OF e ni [unfolded q_def], folded q_def t_def]
  show "core t = core s" "rq_count t = rq_count s + 1" "s_current t = s_current s" by (rule L)+
  show "bands_ok t (B(q := i # B q))"
  proof (rule bands_ok_band [OF ok q])
    have "dll (nxt s) (prv s) (rq_heads s q) (lastp None (B q)) ([] @ B q)" using bands_okD(1) [OF ok q] by simp
    from dll_insert [OF this] new [OF q] show "dll (nxt t) (prv t) (rq_heads t q) (lastp None (i # B q)) (i # B q)"
      unfolding L h by (cases "B q") auto
    show "rq_heads t r = rq_heads s r" if "r < MAX_PRIORITY_QUEUES" "r \<noteq> q" for r using that by (simp add: L(3))
    fix r x assume r: "r < MAX_PRIORITY_QUEUES" "r \<noteq> q" "x \<in> set (B r)"
    then have "x \<noteq> i" "x \<notin> set (B q)" using new [OF r(1)] bands_okD(2) [OF ok r(1) q] by auto
    then show "nxt t x = nxt s x \<and> prv t x = prv s x \<and> x \<notin> set (i # B q)"
      unfolding L h using headp_in [of "B q"] by (auto simp: updo_def split: option.split)
  qed
qed

lemma dequeue_links:
  assumes "nxt s i \<noteq> Some i" and "prv s i \<noteq> Some i"
  defines "q \<equiv> priority_to_band (prio s i)" and "t \<equiv> dequeue_process (Some i) s"
  shows "nxt t = (updo (prv s i) (nxt s i) (nxt s))(i := None)" and "prv t = (updo (nxt s i) (prv s i) (prv s))(i := None)"
    and "rq_heads t = (if prv s i = None then (rq_heads s)(q := nxt s i) else rq_heads s)"
    and "core t = core s" and "rq_count t = rq_count s - 1" and "s_current t = s_current s"
proof -
  have a: "p_next (ent s i) = nxt s i" "p_prev (ent s i) = prv s i" by (simp_all add: nxt_def prv_def)
  show "nxt t = (updo (prv s i) (nxt s i) (nxt s))(i := None)" "prv t = (updo (nxt s i) (prv s i) (prv s))(i := None)"
    "rq_heads t = (if prv s i = None then (rq_heads s)(q := nxt s i) else rq_heads s)"
    "core t = core s" "rq_count t = rq_count s - 1" "s_current t = s_current s"
    using assms(1,2) unfolding t_def q_def
    by (cases "prv s i"; cases "nxt s i"; simp add: dequeue_process_def Let_def a)+
qed

lemma dequeue_band:
  assumes ok: "bands_ok s B" and q: "q < MAX_PRIORITY_QUEUES" and B: "B q = as @ i # bs"
    and right: "priority_to_band (prio s i) = q"
  defines "t \<equiv> dequeue_process (Some i) s"
  shows "bands_ok t (B(q := as @ bs))" and "core t = core s" and "rq_count t = rq_count s - 1" and "s_current t = s_current s"
proof -
  have d: "dll (nxt s) (prv s) (rq_heads s q) (lastp None (B q)) (as @ i # bs)" using bands_okD(1) [OF ok q] B by simp
  note lk = dll_links [OF d]
  have dis: "distinct (as @ i # bs)" by (rule dll_distinct [OF d])
  have n: "nxt s i \<noteq> Some i" "prv s i \<noteq> Some i"
    using dis headp_in [of bs i] lastp_in [of as i] unfolding lk by auto
  note L = dequeue_links [OF n, folded t_def, unfolded right]
  show "core t = core s" "rq_count t = rq_count s - 1" "s_current t = s_current s" by (rule L)+
  show "bands_ok t (B(q := as @ bs))"
  proof (rule bands_ok_band [OF ok q])
    have "lastp None (as @ bs) = (if nxt s i = None then prv s i else lastp None (B q))"
      unfolding lk B by (cases bs) auto
    with dll_remove [OF d] show "dll (nxt t) (prv t) (rq_heads t q) (lastp None (as @ bs)) (as @ bs)"
      unfolding L by auto
    show "rq_heads t r = rq_heads s r" if "r < MAX_PRIORITY_QUEUES" "r \<noteq> q" for r using that by (simp add: L(3))
    fix r x assume r: "r < MAX_PRIORITY_QUEUES" "r \<noteq> q" "x \<in> set (B r)"
    then have x: "x \<notin> set (as @ i # bs)" using bands_okD(2) [OF ok r(1) q, of x] B by auto
    then have "lastp None as \<noteq> Some x" "headp bs None \<noteq> Some x" using lastp_in [of as x] headp_in [of bs x] by auto
    with x show "nxt t x = nxt s x \<and> prv t x = prv s x \<and> x \<notin> set (as @ bs)"
      unfolding L lk by (auto simp: updo_other)
  qed
qed

section \<open>Walks\<close>

lemma band_pick_eq: "dseg (nxt s) pv p h xs p' None \<Longrightarrow> band_pick s h = Some (find (elig s) xs)"
proof (induction xs arbitrary: p h)
  case Nil
  then show ?case by (simp add: band_pick.simps)
next
  case (Cons x xs)
  then have "h = Some x" "band_pick s (nxt s x) = Some (find (elig s) xs)" by auto
  then show ?case by (subst band_pick.simps) (simp add: sched_eligible_def elig_def nxt_def)
qed

lemma bands_pick_eq:
  assumes "bands_ok s B" and "\<And>q. q \<in> set qs \<Longrightarrow> q < MAX_PRIORITY_QUEUES"
  shows "bands_pick s qs = Some (find (elig s) (concat (map B qs)))"
  using assms(2)
proof (induction qs)
  case (Cons q qs)
  then have "band_pick s (rq_heads s q) = Some (find (elig s) (B q))"
    using bands_okD(1) [OF assms(1), of q] band_pick_eq unfolding dll_def by fastforce
  with Cons show ?case by (simp add: find_append split: option.split)
qed simp

lemma for_band_eq:
  assumes "\<And>i x. nxt (snd (f i x)) = nxt (snd x)"
  shows "dseg (nxt (snd x)) pv p h xs p' None \<Longrightarrow> for_band f h x = Some (fold f xs x)"
proof (induction xs arbitrary: p h x)
  case Nil
  then show ?case by (simp add: for_band.simps)
next
  case (Cons i xs)
  then have h: "h = Some i" and "dseg (nxt (snd (f i x))) pv (Some i) (nxt (snd x) i) xs p' None"
    using assms [of i x] by auto
  from Cons.IH [OF this(2)] have "for_band f (nxt (snd (f i x)) i) (f i x) = Some (fold f xs (f i x))" using assms [of i x] by simp
  then show ?case unfolding h by (subst for_band.simps) (simp add: nxt_def)
qed

definition keeps_queue :: "(nat \<Rightarrow> 'a \<times> sched \<Rightarrow> 'a \<times> sched) \<Rightarrow> bool" where
  "keeps_queue f \<longleftrightarrow> (\<forall>i x. nxt (snd (f i x)) = nxt (snd x) \<and> prv (snd (f i x)) = prv (snd x) \<and>
     rq_heads (snd (f i x)) = rq_heads (snd x))"

lemma keeps_fold:
  assumes "keeps_queue f"
  shows "nxt (snd (fold f xs x)) = nxt (snd x) \<and> prv (snd (fold f xs x)) = prv (snd x) \<and>
    rq_heads (snd (fold f xs x)) = rq_heads (snd x)"
  using assms unfolding keeps_queue_def by (induction xs arbitrary: x) auto

lemma for_bands_eq:
  assumes k: "keeps_queue f" and "bands_ok (snd x) B" and "\<And>q. q \<in> set qs \<Longrightarrow> q < MAX_PRIORITY_QUEUES"
  shows "for_bands f qs x = Some (fold f (concat (map B qs)) x)"
  using assms(2,3)
proof (induction qs arbitrary: x)
  case (Cons q qs)
  have "dseg (nxt (snd x)) (prv (snd x)) None (rq_heads (snd x) q) (B q) (lastp None (B q)) None"
    using bands_okD(1) [OF Cons.prems(1), of q] Cons.prems(2) by (simp add: dll_def)
  then have "for_band f (rq_heads (snd x) q) x = Some (fold f (B q) x)"
    by (rule for_band_eq [rotated]) (use k in \<open>unfold keeps_queue_def, blast\<close>)
  moreover have "bands_ok (snd (fold f (B q) x)) B"
    using bands_ok_cong keeps_fold [OF k, of "B q" x] Cons.prems(1) by metis
  ultimately show ?case using Cons.IH Cons.prems(2) by simp
qed simp

lemma for_queued_eq:
  assumes "keeps_queue f" and "bands_ok (snd x) B"
  shows "for_queued f x = Some (fold f (queue_order B) x)" and "bands_ok (snd (fold f (queue_order B) x)) B"
  using for_bands_eq [OF assms, of "[0..<MAX_PRIORITY_QUEUES]"] keeps_fold [OF assms(1), of "queue_order B" x] assms(2)
    bands_ok_cong [of "snd (fold f (queue_order B) x)" "snd x" B]
  by (auto simp: for_queued_def queue_order_def)

lemma in_queue_order: "i \<in> set (queue_order B) \<longleftrightarrow> (\<exists>q<MAX_PRIORITY_QUEUES. i \<in> set (B q))"
  by (auto simp: queue_order_def)

section \<open>The choice\<close>

lemma set_state_links [simp]:
  "nxt (sched_set_state i st s) = nxt s" "prv (sched_set_state i st s) = prv s" "rq_heads (sched_set_state i st s) = rq_heads s"
  "s_current (sched_set_state i st s) = s_current s" "rq_count (sched_set_state i st s) = rq_count s"
  "j \<noteq> i \<Longrightarrow> core (sched_set_state i st s) j = core s j" "prio (sched_set_state i st s) j = prio s j"
  by (auto simp: sched_set_state_def nxt_def prv_def core_def enter_state_def Let_def fun_eq_iff)

lemma dispatch_spec:
  assumes ok: "bands_ok s B" and q: "q < MAX_PRIORITY_QUEUES" and i: "i \<in> set (B q)" and e: "elig s i"
    and pb: "priority_to_band (prio s i) = q"
  shows "bands_ok (dispatch i s) (\<lambda>r. remove1 i (B r))" and "s_current (dispatch i s) = Some i" and "p_state (ent (dispatch i s) i) = KERNEL_RUNNING"
    and "s_time_slice (sprocs (dispatch i s) i) = TIME_QUANTUM" and "rq_count (dispatch i s) = rq_count s - 1"
    and "\<And>j. j \<noteq> i \<Longrightarrow> core (dispatch i s) j = core s j" and "prio (dispatch i s) i = prio s i"
proof -
  let ?d = "dequeue_process (Some i) s"
  from i obtain as bs where B: "B q = as @ i # bs" by (meson split_list)
  note D = dequeue_band [OF ok q B pb]
  have c: "core ?d = core s" by (rule D(2))
  have e': "elig ?d i" "prio ?d i = prio s i" using core_sel(1,2) [of ?d i s] c e by simp_all
  have dis: "i \<notin> set as" using bands_okD(1) [OF ok q] B dll_distinct by fastforce
  have rm: "remove1 i (B r) = (B(q := as @ bs)) r" if "r < MAX_PRIORITY_QUEUES" for r
  proof (cases "r = q")
    case True
    with dis B show ?thesis by (simp add: remove1_append)
  next
    case False
    then have "i \<notin> set (B r)" using bands_okD(2) [OF ok that q _ i] by blast
    with False show ?thesis by (simp add: remove1_idem)
  qed
  have lk: "nxt (dispatch i s) = nxt ?d" "prv (dispatch i s) = prv ?d" "rq_heads (dispatch i s) = rq_heads ?d"
    by (simp_all add: dispatch_def Let_def fun_eq_iff nxt_def prv_def sched_set_state_def enter_state_def)
  have "bands_ok (dispatch i s) (B(q := as @ bs))" using D(1) bands_ok_cong [OF lk] by simp
  then show "bands_ok (dispatch i s) (\<lambda>r. remove1 i (B r))"
    using bands_ok_lists [of "\<lambda>r. remove1 i (B r)" "B(q := as @ bs)"] rm by simp
  have st: "p_state (ent ?d i) = READY" "valid_transition READY KERNEL_RUNNING"
    using e'(1) by (simp_all add: elig_def valid_transition_def)
  show "s_current (dispatch i s) = Some i" "s_time_slice (sprocs (dispatch i s) i) = TIME_QUANTUM"
    "p_state (ent (dispatch i s) i) = KERNEL_RUNNING"
    using st by (simp_all add: dispatch_def Let_def sched_set_state_def enter_state_def)
  show "rq_count (dispatch i s) = rq_count s - 1" using D(3) by (simp add: dispatch_def Let_def)
  show "prio (dispatch i s) i = prio s i" using e'(2) st by (simp add: dispatch_def Let_def sched_set_state_def enter_state_def)
  show "core (dispatch i s) j = core s j" if "j \<noteq> i" for j
  proof -
    have "core (dispatch i s) j = core ?d j"
      using that by (simp add: dispatch_def Let_def core_def sched_set_state_def)
    with c show ?thesis by simp
  qed
qed

lemma dispatch_right:
  assumes "bands_ok s B" and right: "bands_right s B" and "q < MAX_PRIORITY_QUEUES" and "i \<in> set (B q)" and "elig s i"
  shows "bands_right (dispatch i s) (\<lambda>r. remove1 i (B r))" and "priority_to_band (prio s i) = q"
proof -
  show pb: "priority_to_band (prio s i) = q" using right assms(3,4) by (simp add: bands_right_def)
  note D = dispatch_spec [OF assms(1,3,4,5) pb]
  show "bands_right (dispatch i s) (\<lambda>r. remove1 i (B r))"
    unfolding bands_right_def
  proof (intro allI impI ballI)
    fix r x assume "r < MAX_PRIORITY_QUEUES" "x \<in> set (remove1 i (B r))"
    then have "priority_to_band (prio s x) = r" using right notin_set_remove1 unfolding bands_right_def by fast
    moreover have "prio (dispatch i s) x = prio s x"
      using core_sel(1) [OF D(6) [of x]] D(7) by (cases "x = i") simp_all
    ultimately show "priority_to_band (prio (dispatch i s) x) = r" by simp
  qed
qed

section \<open>A tick\<close>

lemma charge_sel [simp]:
  "p_state (sp (charge_tick x)) = p_state (sp x)" "p_pri (p_sched (sp (charge_tick x))) = p_pri (p_sched (sp x))"
  "p_next (sp (charge_tick x)) = p_next (sp x)" "p_prev (sp (charge_tick x)) = p_prev (sp x)"
  "s_in_memory (charge_tick x) = s_in_memory x" "s_total_ticks (charge_tick x) = s_total_ticks x + 1"
  "s_time_slice (charge_tick x) = (if 0 < s_time_slice x then s_time_slice x - 1 else s_time_slice x)"
  by (simp_all add: charge_tick_def Let_def)

lemma tick_goes_on:
  assumes "s_time_slice (charge_tick (sprocs s i)) \<noteq> 0"
  defines "t \<equiv> upd_sproc i charge_tick s"
  shows "tick_process (Some i) s = (False, t)" and "nxt t = nxt s" and "prv t = prv s" and "rq_heads t = rq_heads s"
    and "\<And>j. j \<noteq> i \<Longrightarrow> core t j = core s j"
  using assms by (auto simp: tick_process_def Let_def t_def nxt_def prv_def core_def fun_eq_iff)

lemma tick_expires:
  assumes ok: "bands_ok s B" and new: "\<And>r. r < MAX_PRIORITY_QUEUES \<Longrightarrow> i \<notin> set (B r)"
    and run: "p_state (ent s i) = KERNEL_RUNNING" "s_in_memory (sprocs s i) \<noteq> 0"
    and slice: "s_time_slice (charge_tick (sprocs s i)) = 0"
  defines "n \<equiv> (if prio s i < MAX_PRIORITY - 1 then prio s i + 1 else prio s i)"
  shows "\<exists>t. tick_process (Some i) s = (True, t) \<and> bands_ok t (B(priority_to_band n := i # B (priority_to_band n))) \<and>
    elig t i \<and> prio t i = n \<and> s_current t = s_current s \<and> (\<forall>j. j \<noteq> i \<longrightarrow> core t j = core s j) \<and> rq_count t = rq_count s + 1"
proof -
  let ?a = "upd_sproc i charge_tick s"
  let ?b = "if prio ?a i < MAX_PRIORITY - 1 then upd_ent i (set_pri (prio ?a i + 1)) ?a else ?a"
  let ?c = "sched_set_state i READY ?b"
  have b: "nxt ?b = nxt s" "prv ?b = prv s" "rq_heads ?b = rq_heads s" "prio ?b i = n" "p_state (ent ?b i) = KERNEL_RUNNING"
    "s_in_memory (sprocs ?b i) \<noteq> 0" "s_current ?b = s_current s" "rq_count ?b = rq_count s" "\<And>j. j \<noteq> i \<Longrightarrow> core ?b j = core s j"
    using run by (auto simp: nxt_def prv_def core_def fun_eq_iff set_pri_def n_def)
  have c: "elig ?c i" "prio ?c i = n"
    using b(4-6) by (auto simp: sched_set_state_def elig_def valid_transition_def enter_state_def Let_def)
  have bc: "bands_ok ?c B" using ok bands_ok_cong [of ?c s B] b(1-3) by simp
  note E = enqueue_bands [OF bc c(1) new, unfolded c(2)]
  have "tick_process (Some i) s = (True, enqueue_process (Some i) ?c)"
    using slice by (simp add: tick_process_def Let_def)
  moreover have "elig (enqueue_process (Some i) ?c) i" "prio (enqueue_process (Some i) ?c) i = n"
    using core_sel(1,2) [of "enqueue_process (Some i) ?c" i ?c] E(2) c by simp_all
  moreover have "\<forall>j. j \<noteq> i \<longrightarrow> core (enqueue_process (Some i) ?c) j = core s j"
    using E(2) b(9) by (simp del: if_split)
  ultimately show ?thesis using E(1,3,4) b(7,8)
    by (intro exI [of _ "enqueue_process (Some i) ?c"]) simp
qed

section \<open>Properties of the scheduler\<close>

lemma schedule_eq:
  assumes "bands_ok s B"
  shows "schedule_process s = Some (case find (elig s) (queue_order B) of None \<Rightarrow> (None, s) | Some i \<Rightarrow> (Some i, dispatch i s))"
  using bands_pick_eq [OF assms, of "[0..<MAX_PRIORITY_QUEUES]"]
  by (simp add: schedule_process_def queue_order_def split: option.split)

text \<open>C3: From bands in which every process has the priority of its band, \<open>schedule_process\<close> takes the
  first eligible process of the highest band that has one: it leaves its band, runs in kernel
  mode with a full quantum and is the current one; nobody else changes. When none is eligible
  nothing changes.\<close>

theorem schedule_picks_best:
  assumes "bands_ok s B" and "bands_right s B"
  shows "\<exists>r t. schedule_process s = Some (r, t) \<and> r = find (elig s) (queue_order B) \<and>
    (case r of
       None \<Rightarrow> t = s
     | Some i \<Rightarrow> bands_ok t (\<lambda>q. remove1 i (B q)) \<and> bands_right t (\<lambda>q. remove1 i (B q)) \<and> s_current t = Some i \<and>
         p_state (ent t i) = KERNEL_RUNNING \<and> s_time_slice (sprocs t i) = TIME_QUANTUM \<and>
         rq_count t = rq_count s - 1 \<and> (\<forall>j. j \<noteq> i \<longrightarrow> core t j = core s j))"
proof (cases "find (elig s) (queue_order B)")
  case None
  then show ?thesis using schedule_eq [OF assms(1)] by simp
next
  case (Some i)
  then have i: "elig s i" "i \<in> set (queue_order B)" by (auto simp: find_Some_iff)
  then obtain q where q: "q < MAX_PRIORITY_QUEUES" "i \<in> set (B q)" by (auto simp: in_queue_order)
  note R = dispatch_right [OF assms q i(1)]
  from dispatch_spec [OF assms(1) q i(1) R(2)] R(1) Some show ?thesis using schedule_eq [OF assms(1)]
    by (intro exI [of _ "Some i"] exI [of _ "dispatch i s"]) simp
qed

text \<open>A cut of the queue: the head of band \<open>q\<close> is dequeued while its priority names band \<open>r\<close>.\<close>

lemma stale_dequeue:
  assumes ok: "bands_ok s B" and q: "q < MAX_PRIORITY_QUEUES" and B: "B q = i # rest" and r: "priority_to_band (prio s i) \<noteq> q"
  defines "t \<equiv> dequeue_process (Some i) s"
  shows "bands_ok t (B(q := [i], priority_to_band (prio s i) := rest))" and "core t = core s"
proof -
  let ?r = "priority_to_band (prio s i)"
  have rr: "?r < MAX_PRIORITY_QUEUES" by (rule band_bound)
  have d: "dll (nxt s) (prv s) (rq_heads s q) (lastp None (B q)) ([] @ i # rest)" using bands_okD(1) [OF ok q] B by simp
  note lk = dll_links [OF d]
  have dis: "i \<notin> set rest" using dll_distinct [OF d] by simp
  have n: "nxt s i \<noteq> Some i" "prv s i \<noteq> Some i" using dis headp_in [of rest i] unfolding lk by auto
  note L = dequeue_links [OF n, folded t_def]
  show "core t = core s" by (rule L)
  have h: "rq_heads s q = Some i" using bands_okD(3) [OF ok q] B by simp
  have p: "prv s i = None" using lk by simp
  have ii: "dll (nxt t) (prv t) (rq_heads t q) (Some i) [i]"
    using h r unfolding dll_def by (simp add: L(1,2,3) p)
  have "dll (nxt t) (prv t) (nxt s i) (lastp None rest) rest"
  proof -
    have "(if nxt s i = None then prv s i else lastp None (B q)) = lastp None rest" unfolding lk B by (cases rest) auto
    then show ?thesis using dll_remove [OF d] unfolding L(1,2) by (simp add: p)
  qed
  then have rs: "dll (nxt t) (prv t) (rq_heads t ?r) (lastp None rest) rest" by (simp add: L(3) p)
  have same: "nxt t x = nxt s x \<and> prv t x = prv s x" if "x \<notin> set (i # rest)" for x
  proof -
    have "headp rest None \<noteq> Some x" using that headp_in [of rest x] by auto
    with that show ?thesis unfolding L(1,2) p lk by (simp add: updo_other)
  qed
  have other: "dll (nxt t) (prv t) (rq_heads t k) (lastp None (B k)) (B k)"
    if "k < MAX_PRIORITY_QUEUES" "k \<noteq> q" "k \<noteq> ?r" for k
  proof -
    have "x \<notin> set (i # rest)" if "x \<in> set (B k)" for x
      using bands_okD(2) [OF ok \<open>k < _\<close> q that] B \<open>k \<noteq> q\<close> by auto
    then have "dll (nxt t) (prv t) (rq_heads s k) (lastp None (B k)) (B k)"
      using dll_cong [of "B k" "nxt t" "nxt s" "prv t" "prv s"] same bands_okD(1) [OF ok that(1)] by blast
    with that show ?thesis by (simp add: L(3))
  qed
  show "bands_ok t (B(q := [i], ?r := rest))"
    unfolding bands_ok_def
  proof (intro conjI allI impI)
    fix k assume "k < MAX_PRIORITY_QUEUES"
    with ii rs other show "dll (nxt t) (prv t) (rq_heads t k) (lastp None ((B(q := [i], ?r := rest)) k)) ((B(q := [i], ?r := rest)) k)"
      using r by auto
  next
    fix k l assume "k < MAX_PRIORITY_QUEUES" "l < MAX_PRIORITY_QUEUES" "k \<noteq> l"
    with bands_okD(2) [OF ok, of k l] bands_okD(2) [OF ok, of k q] bands_okD(2) [OF ok, of q l] q B dis
    show "set ((B(q := [i], ?r := rest)) k) \<inter> set ((B(q := [i], ?r := rest)) l) = {}" by auto
  qed
qed

section \<open>Readjusting the priorities\<close>

definition new_pri :: "sched \<Rightarrow> nat \<Rightarrow> int" where
  "new_pri s i = (let n = p_cpu (p_sched (ent s i)) + p_nice (p_sched (ent s i)) in min (max n 1) (MAX_PRIORITY - 1))"

lemma new_pri_bounds: "1 \<le> new_pri s i \<and> new_pri s i < MAX_PRIORITY"
  by (auto simp: new_pri_def Let_def MAX_PRIORITY_def)

lemma readjust_one_eq:
  "readjust_one i (u, s) = (u, if p_state (ent s i) = READY then upd_ent i (set_pri (new_pri s i)) s else s)"
  by (auto simp: readjust_one_def recalculate_priority_def new_pri_def Let_def min_def max_def MAX_PRIORITY_def intro: arg_cong2 [where f = "\<lambda>f s. upd_ent i f s"])

text \<open>What the loops over the queue that charge and readjust leave alone.\<close>

definition same_but_pri :: "sched \<Rightarrow> sched \<Rightarrow> bool" where
  "same_but_pri s t \<longleftrightarrow> nxt t = nxt s \<and> prv t = prv s \<and> rq_heads t = rq_heads s \<and> rq_count t = rq_count s \<and>
     s_current t = s_current s \<and> callouts t = callouts s \<and> elig t = elig s \<and>
     (\<forall>i. new_pri t i = new_pri s i \<and> s_total_ticks (sprocs t i) = s_total_ticks (sprocs s i) \<and>
        p_state (ent t i) = p_state (ent s i) \<and> s_in_memory (sprocs t i) = s_in_memory (sprocs s i))"

lemma same_but_pri_refl [simp]: "same_but_pri s s"
  by (simp add: same_but_pri_def)

lemma same_but_pri_trans: "same_but_pri s t \<Longrightarrow> same_but_pri t u \<Longrightarrow> same_but_pri s u"
  by (simp add: same_but_pri_def)

lemma same_set_pri: "same_but_pri s (upd_ent i (set_pri n) s)"
  by (auto simp: same_but_pri_def nxt_def prv_def elig_def fun_eq_iff set_pri_def new_pri_def)

lemma same_bands: "same_but_pri s t \<Longrightarrow> bands_ok t B = bands_ok s B"
  by (rule bands_ok_cong) (simp_all add: same_but_pri_def)

lemma keeps_readjust: "keeps_queue readjust_one"
  by (auto simp: keeps_queue_def readjust_one_eq nxt_def prv_def fun_eq_iff set_pri_def)

lemma fold_readjust:
  "same_but_pri s (snd (fold readjust_one xs ((), s))) \<and>
   (\<forall>i. prio (snd (fold readjust_one xs ((), s))) i =
     (if i \<in> set xs \<and> p_state (ent s i) = READY then new_pri s i else prio s i))"
proof (induction xs rule: rev_induct)
  case (snoc x xs)
  let ?t = "snd (fold readjust_one xs ((), s))"
  have f: "fold readjust_one (xs @ [x]) ((), s) = readjust_one x (fst (fold readjust_one xs ((), s)), ?t)"
    by (simp only: fold_append fold.simps comp_def id_def prod.collapse)
  have st: "p_state (ent ?t i) = p_state (ent s i)" "new_pri ?t i = new_pri s i" for i
    using snoc by (simp_all add: same_but_pri_def)
  show ?case
  proof (cases "p_state (ent s x) = READY")
    case True
    then have "snd (fold readjust_one (xs @ [x]) ((), s)) = upd_ent x (set_pri (new_pri s x)) ?t"
      unfolding f readjust_one_eq by (simp add: st)
    moreover have "same_but_pri s (upd_ent x (set_pri (new_pri s x)) ?t)"
      using snoc same_set_pri same_but_pri_trans by blast
    moreover have "prio (upd_ent x (set_pri (new_pri s x)) ?t) i = (if i = x then new_pri s x else prio ?t i)" for i
      by (simp add: set_pri_def)
    ultimately show ?thesis using snoc True by (simp only:) auto
  next
    case False
    then have "snd (fold readjust_one (xs @ [x]) ((), s)) = ?t" unfolding f readjust_one_eq by (simp add: st)
    with snoc False show ?thesis by auto
  qed
qed simp

lemma readjust_eq:
  assumes "bands_ok s B"
  shows "\<exists>t. readjust_all_priorities s = Some t \<and> same_but_pri s t \<and> bands_ok t B \<and>
    (\<forall>i. prio t i = (if i \<in> set (queue_order B) \<and> p_state (ent s i) = READY then new_pri s i else prio s i))"
  using for_queued_eq [OF keeps_readjust, of "((), s)" B] assms fold_readjust [of s "queue_order B"]
  by (intro exI [of _ "snd (fold readjust_one (queue_order B) ((), s))"]) (simp add: readjust_all_priorities_def)

text \<open>C20: The readjustment of the priorities changes them in place and moves nobody to the band of the new
  priority, so that the next choice cuts the queue: when the process at the head of the band it is
  taken from has got a priority of another band, it stays at the head of its old band while it
  runs, the processes behind it become the list of the other band, and the processes that were in
  that band are in no band any more.\<close>

theorem readjusted_choice_cuts_queue:
  assumes "bands_ok s B" and "bands_right s B" and "q < MAX_PRIORITY_QUEUES" and "B q = i # rest"
    and "find (elig s) (queue_order B) = Some i" and "priority_to_band (new_pri s i) \<noteq> q"
  shows "\<exists>u t. readjust_all_priorities s = Some u \<and> schedule_process u = Some (Some i, t) \<and>
    s_current t = Some i \<and> p_state (ent t i) = KERNEL_RUNNING \<and>
    bands_ok t (B(q := [i], priority_to_band (new_pri s i) := rest)) \<and>
    (\<forall>x\<in>set (B (priority_to_band (new_pri s i))). \<forall>k<MAX_PRIORITY_QUEUES.
       x \<notin> set ((B(q := [i], priority_to_band (new_pri s i) := rest)) k))"
proof -
  let ?r = "priority_to_band (new_pri s i)" and ?C = "B(q := [i], priority_to_band (new_pri s i) := rest)"
  have el: "elig s i" using assms(5) by (auto simp: find_Some_iff)
  have iq: "i \<in> set (queue_order B)" using assms(3,4) by (auto simp: in_queue_order)
  obtain u where u: "readjust_all_priorities s = Some u" "same_but_pri s u" "bands_ok u B" "prio u i = new_pri s i"
    using readjust_eq [OF assms(1)] iq el by (auto simp: elig_def)
  have e: "elig u = elig s" using u(2) by (simp add: same_but_pri_def)
  have run: "schedule_process u = Some (Some i, dispatch i u)" using schedule_eq [OF u(3)] assms(5) by (simp add: e)
  let ?d = "dequeue_process (Some i) u"
  note D = stale_dequeue [OF u(3) assms(3,4), unfolded u(4), OF assms(6)]
  have st: "p_state (ent ?d i) = READY" "valid_transition READY KERNEL_RUNNING"
    using core_sel(2) [of ?d i u] D(2) e el by (simp_all add: elig_def valid_transition_def)
  have lk: "nxt (dispatch i u) = nxt ?d" "prv (dispatch i u) = prv ?d" "rq_heads (dispatch i u) = rq_heads ?d"
    by (simp_all add: dispatch_def Let_def fun_eq_iff nxt_def prv_def sched_set_state_def enter_state_def)
  have b: "bands_ok (dispatch i u) ?C" using D(1) bands_ok_cong [OF lk] by simp
  have lost: "x \<notin> set (?C k)" if "x \<in> set (B ?r)" "k < MAX_PRIORITY_QUEUES" for x k
  proof -
    have "x \<notin> set (B q)" using bands_okD(2) [OF assms(1) band_bound assms(3) that(1)] assms(6) by blast
    moreover have "x \<notin> set (B k)" if "k \<noteq> ?r" using bands_okD(2) [OF assms(1) band_bound _ \<open>x \<in> set (B ?r)\<close>, of k] that \<open>k < _\<close> by blast
    ultimately show ?thesis using assms(4) by auto
  qed
  have "s_current (dispatch i u) = Some i" "p_state (ent (dispatch i u) i) = KERNEL_RUNNING"
    using st by (simp_all add: dispatch_def Let_def sched_set_state_def enter_state_def)
  with u(1) run b lost show ?thesis by (intro exI [of _ u] exI [of _ "dispatch i u"]) blast
qed

section \<open>The clock's loops\<close>

lemma same_if_sprocs:
  "sprocs t = sprocs s \<Longrightarrow> rq_heads t = rq_heads s \<Longrightarrow> rq_count t = rq_count s \<Longrightarrow> s_current t = s_current s \<Longrightarrow>
    callouts t = callouts s \<Longrightarrow> same_but_pri s t"
  by (simp add: same_but_pri_def nxt_def prv_def elig_def fun_eq_iff new_pri_def)

lemma advance_sel [simp]:
  "sprocs (advance_time s) = sprocs s" "rq_heads (advance_time s) = rq_heads s" "rq_count (advance_time s) = rq_count s"
  "s_current (advance_time s) = s_current s" "callouts (advance_time s) = callouts s"
  "sprocs (profiler_tick k u s) = sprocs s" "rq_heads (profiler_tick k u s) = rq_heads s" "rq_count (profiler_tick k u s) = rq_count s"
  "s_current (profiler_tick k u s) = s_current s" "callouts (profiler_tick k u s) = callouts s"
  by (simp_all add: advance_time_def profiler_tick_def Let_def)

lemma no_callouts:
  assumes "\<And>k. k < MAX_CALLOUTS \<Longrightarrow> \<not> co_active (callouts s k)"
  shows "process_callouts cb s = s"
proof -
  have "fold (callout_one cb) ks s = s" if "set ks \<subseteq> {..<MAX_CALLOUTS}" for ks
    using that by (induction ks) (simp_all add: callout_one_def assms)
  from this [of "[0..<MAX_CALLOUTS]"] show ?thesis by (simp add: process_callouts_def subset_iff)
qed

lemma usage_one_eq:
  "usage_one i (u, s) = (u, if s_cpu_usage (sprocs s i) < 255
     then upd_sproc i (\<lambda>x. x\<lparr>s_cpu_usage := s_cpu_usage x + 1\<rparr>) s else s)"
  by (simp add: usage_one_def)

lemma keeps_usage: "keeps_queue usage_one"
  by (auto simp: keeps_queue_def usage_one_eq nxt_def prv_def fun_eq_iff)

lemma fold_usage:
  "same_but_pri s (snd (fold usage_one xs ((), s))) \<and> (\<forall>i. prio (snd (fold usage_one xs ((), s))) i = prio s i)"
proof (induction xs arbitrary: s)
  case (Cons x xs)
  let ?s = "snd (usage_one x ((), s))"
  have "same_but_pri s ?s" "\<forall>i. prio ?s i = prio s i"
    by (auto simp: usage_one_eq same_but_pri_def nxt_def prv_def elig_def fun_eq_iff new_pri_def)
  moreover have "fold usage_one (x # xs) ((), s) = fold usage_one xs ((), ?s)" by (simp add: usage_one_eq)
  ultimately show ?case using Cons.IH [of ?s] same_but_pri_trans by fastforce
qed simp

lemma keeps_count: "keeps_queue count_active"
  by (auto simp: keeps_queue_def count_active_def)

lemma fold_count: "snd (fold count_active xs (n, s)) = s"
  by (induction xs arbitrary: n) (auto simp: count_active_def)

lemma update_load_avg_eq:
  assumes "bands_ok s B"
  shows "\<exists>t. update_load_avg s = Some t \<and> same_but_pri s t \<and> bands_ok t B \<and>
    (\<forall>i. i \<notin> set (queue_order B) \<longrightarrow> prio t i = prio s i)"
proof -
  obtain n where c: "for_queued count_active (0, s) = Some (n, s)"
    using for_queued_eq(1) [OF keeps_count, of "(0, s)" B] assms fold_count [of "queue_order B" 0 s]
    by (metis prod.collapse snd_conv)
  let ?s = "s\<lparr>loads := feed_loads n (loads s)\<rparr>"
  have s1: "same_but_pri s ?s" by (rule same_if_sprocs) simp_all
  have b1: "bands_ok ?s B" using same_bands [OF s1] assms by simp
  let ?t = "snd (fold readjust_one (queue_order B) ((), ?s))"
  have t1: "for_queued readjust_one ((), ?s) = Some ((), ?t)"
    using for_queued_eq(1) [OF keeps_readjust, of "((), ?s)" B] b1
    by (cases "fold readjust_one (queue_order B) ((), ?s)") simp
  have s2: "same_but_pri ?s ?t" and p2: "i \<notin> set (queue_order B) \<Longrightarrow> prio ?t i = prio s i" for i
    using fold_readjust [of ?s "queue_order B"] by auto
  have b2: "bands_ok ?t B" using same_bands [OF s2] b1 by simp
  obtain u where u: "readjust_all_priorities ?t = Some u" "same_but_pri ?t u" "bands_ok u B"
    "\<And>i. i \<notin> set (queue_order B) \<Longrightarrow> prio u i = prio ?t i"
    using readjust_eq [OF b2] by auto
  have "update_load_avg s = Some u" using c t1 u(1) by (simp add: update_load_avg_def)
  moreover have "same_but_pri s u" using s1 s2 u(2) same_but_pri_trans by blast
  ultimately show ?thesis using u(3,4) p2 by auto
qed

section \<open>A process that keeps the processor\<close>

fun clock_ticks :: "(nat \<Rightarrow> u64 \<Rightarrow> sched \<Rightarrow> sched) \<Rightarrow> nat \<Rightarrow> sched \<Rightarrow> sched option" where
  "clock_ticks cb 0 s = Some s"
| "clock_ticks cb (Suc n) s = (case clock_tick cb s of None \<Rightarrow> None | Some t \<Rightarrow> clock_ticks cb n t)"

text \<open>Process \<open>i\<close> runs at a priority of the last band, the other queued processes are in that band
  too, and no callout is pending.\<close>

definition hogs :: "sched \<Rightarrow> (nat \<Rightarrow> nat list) \<Rightarrow> nat \<Rightarrow> bool" where
  "hogs s B i \<longleftrightarrow> bands_ok s B \<and> (\<forall>q<4. B q = []) \<and> s_current s = Some i \<and> i \<notin> set (B 4) \<and>
     p_state (ent s i) = KERNEL_RUNNING \<and> s_in_memory (sprocs s i) \<noteq> 0 \<and> 112 \<le> prio s i \<and> prio s i < MAX_PRIORITY \<and>
     (\<forall>k<MAX_CALLOUTS. \<not> co_active (callouts s k))"

lemma last_band: "112 \<le> p \<Longrightarrow> p < MAX_PRIORITY \<Longrightarrow> priority_to_band p = 4"
proof -
  assume "112 \<le> p" "p < MAX_PRIORITY"
  then have "p div 28 = 4" by (simp add: MAX_PRIORITY_def)
  with \<open>112 \<le> p\<close> \<open>p < MAX_PRIORITY\<close> show ?thesis
    by (simp add: priority_to_band_def Let_def MAX_PRIORITY_def MAX_PRIORITY_QUEUES_def)
qed

lemma last_band_order:
  "(\<And>q. q < 4 \<Longrightarrow> B q = []) \<Longrightarrow> queue_order B = B 4"
  by (simp add: queue_order_def MAX_PRIORITY_QUEUES_def upt_rec numeral_eq_Suc)

lemma callouts_fixed [simp]:
  "callouts (sched_set_state i st s) = callouts s" "callouts (enqueue_process p s) = callouts s"
  "callouts (dequeue_process p s) = callouts s" "callouts (dispatch i s) = callouts s"
  "callouts (snd (tick_process p s)) = callouts s"
  by (simp_all add: sched_set_state_def enqueue_process_def dequeue_process_def dispatch_def tick_process_def Let_def
      split: option.split)

lemma total_fixed [simp]:
  "s_total_ticks (sprocs (upd_ent j f s) i) = s_total_ticks (sprocs s i)"
  "s_total_ticks (sprocs (sched_set_state j st s) i) = s_total_ticks (sprocs s i)"
  "s_total_ticks (sprocs (enqueue_process p s) i) = s_total_ticks (sprocs s i)"
  "s_total_ticks (sprocs (dequeue_process p s) i) = s_total_ticks (sprocs s i)"
  "s_total_ticks (sprocs (dispatch j s) i) = s_total_ticks (sprocs s i)"
  by (simp_all add: sched_set_state_def enqueue_process_def dequeue_process_def dispatch_def Let_def split: option.split)

lemma total_tick:
  "s_total_ticks (sprocs (snd (tick_process (Some i) s)) j) = (if j = i then s_total_ticks (sprocs s j) + 1 else s_total_ticks (sprocs s j))"
  by (simp add: tick_process_def Let_def)

lemma hog_charge:
  assumes h: "hogs s B i"
  shows "\<exists>b t u r. tick_process (Some i) s = (b, t) \<and> (if b then schedule_process t else Some (None, t)) = Some (r, u) \<and>
    hogs u B i \<and> (\<forall>j. s_total_ticks (sprocs u j) = (if j = i then s_total_ticks (sprocs s j) + 1 else s_total_ticks (sprocs s j)))"
proof -
  have five: "(4 :: nat) < MAX_PRIORITY_QUEUES" by (simp add: MAX_PRIORITY_QUEUES_def)
  note H = h [unfolded hogs_def]
  have new: "i \<notin> set (B r)" if "r < MAX_PRIORITY_QUEUES" for r
    using H that by (cases "r = 4") (auto simp: MAX_PRIORITY_QUEUES_def)
  note T = total_tick [of i s]
  show ?thesis
  proof (cases "s_time_slice (charge_tick (sprocs s i)) = 0")
    case False
    note G = tick_goes_on [OF False]
    let ?t = "upd_sproc i charge_tick s"
    have "bands_ok ?t B" using bands_ok_cong [OF G(2-4)] H by simp
    then have "hogs ?t B i" using H by (simp add: hogs_def)
    moreover have "s_total_ticks (sprocs ?t j) = (if j = i then s_total_ticks (sprocs s j) + 1 else s_total_ticks (sprocs s j))" for j
      using T [of j] unfolding G(1) by simp
    ultimately show ?thesis using G(1) by (intro exI [of _ False] exI [of _ ?t] exI [of _ ?t] exI [of _ None]) auto
  next
    case True
    let ?n = "if prio s i < MAX_PRIORITY - 1 then prio s i + 1 else prio s i"
    have n: "112 \<le> ?n" "?n < MAX_PRIORITY" using H by auto
    obtain t where t: "tick_process (Some i) s = (True, t)" "bands_ok t (B(4 := i # B 4))" "elig t i" "prio t i = ?n"
      "s_current t = s_current s"
    proof -
      have a: "bands_ok s B" "p_state (ent s i) = KERNEL_RUNNING" "s_in_memory (sprocs s i) \<noteq> 0" using H by simp_all
      from tick_expires [OF a(1) new a(2,3) True] show ?thesis using that unfolding last_band [OF n] by blast
    qed
    let ?C = "B(4 := i # B 4)"
    have "queue_order ?C = i # B 4" using last_band_order [of ?C] H by simp
    then have run: "schedule_process t = Some (Some i, dispatch i t)" using schedule_eq [OF t(2)] t(3) by simp
    have pb: "priority_to_band (prio t i) = 4" using last_band [OF n] t(4) by simp
    note D = dispatch_spec [OF t(2) five _ t(3) pb]
    have "remove1 i (?C r) = B r" if "r < MAX_PRIORITY_QUEUES" for r
      using new [OF that] by (cases "r = 4") (simp_all add: remove1_idem)
    then have "bands_ok (dispatch i t) B" using D(1) bands_ok_lists [of "\<lambda>r. remove1 i (?C r)" B] by simp
    moreover have "callouts t = callouts s" using callouts_fixed(5) [of "Some i" s] t(1) by simp
    moreover have "s_in_memory (sprocs (dispatch i t) i) \<noteq> 0"
    proof -
      have "s_in_memory (sprocs (dispatch i t) i) = s_in_memory (sprocs t i)"
        by (simp add: dispatch_def dequeue_process_def Let_def sched_set_state_def split: option.split)
      with t(3) show ?thesis by (simp add: elig_def)
    qed
    ultimately have "hogs (dispatch i t) B i" using H D(2,3,7) n t(4) by (simp add: hogs_def)
    moreover have "s_total_ticks (sprocs (dispatch i t) j) = (if j = i then s_total_ticks (sprocs s j) + 1 else s_total_ticks (sprocs s j))" for j
      using T [of j] t(1) by simp
    ultimately show ?thesis using t(1) run
      by (intro exI [of _ True] exI [of _ t] exI [of _ "dispatch i t"] exI [of _ "Some i"]) auto
  qed
qed

lemma same_hogs:
  assumes "same_but_pri s t" and "hogs s B i" and "prio t i = prio s i"
  shows "hogs t B i"
  using assms same_bands [OF assms(1)] by (simp add: hogs_def same_but_pri_def)

lemma hog_tick:
  assumes h: "hogs s B i"
  shows "\<exists>t. clock_tick cb s = Some t \<and> hogs t B i \<and>
    (\<forall>j. s_total_ticks (sprocs t j) = (if j = i then s_total_ticks (sprocs s j) + 1 else s_total_ticks (sprocs s j)))"
proof -
  have nc: "process_callouts cb (advance_time s) = advance_time s"
    by (rule no_callouts) (use h in \<open>simp add: hogs_def\<close>)
  let ?a = "profiler_tick 0 0 (advance_time s)"
  have a: "same_but_pri s ?a" by (rule same_if_sprocs) simp_all
  have ha: "hogs ?a B i" by (rule same_hogs [OF a h]) simp
  then have ba: "bands_ok ?a B" by (simp add: hogs_def)
  let ?b = "snd (fold usage_one (queue_order B) ((), ?a))"
  have b: "for_queued usage_one ((), ?a) = Some ((), ?b)"
    using for_queued_eq(1) [OF keeps_usage, of "((), ?a)" B] ba by (cases "fold usage_one (queue_order B) ((), ?a)") simp
  have sb: "same_but_pri ?a ?b" "prio ?b i = prio ?a i" using fold_usage [of ?a "queue_order B"] by auto
  have hb: "hogs ?b B i" by (rule same_hogs [OF sb(1) ha sb(2)])
  have cur: "s_current ?b = Some i" using hb by (simp add: hogs_def)
  have tot: "s_total_ticks (sprocs ?b j) = s_total_ticks (sprocs s j)" for j using sb(1) a by (simp add: same_but_pri_def)
  obtain x t u r where t: "tick_process (Some i) ?b = (x, t)" "(if x then schedule_process t else Some (None, t)) = Some (r, u)"
    "hogs u B i" "\<And>j. s_total_ticks (sprocs u j) = (if j = i then s_total_ticks (sprocs s j) + 1 else s_total_ticks (sprocs s j))"
    using hog_charge [OF hb] tot by auto
  have run: "clock_tick cb s = (if HZ \<le> k_jiffies u - last_second_tick u
      then update_load_avg (u\<lparr>last_second_tick := k_jiffies u\<rparr>) else Some u)"
    using nc b cur t(1,2) by (simp add: clock_tick_def Let_def)
  let ?u = "u\<lparr>last_second_tick := k_jiffies u\<rparr>"
  have su: "same_but_pri u ?u" by (rule same_if_sprocs) simp_all
  have hu: "hogs ?u B i" by (rule same_hogs [OF su t(3)]) simp
  have iq: "i \<notin> set (queue_order B)"
    using hu last_band_order [of B] by (simp add: hogs_def)
  obtain v where v: "update_load_avg ?u = Some v" "same_but_pri ?u v" "prio v i = prio ?u i"
    using update_load_avg_eq [of ?u B] hu iq by (auto simp: hogs_def)
  have "hogs v B i" by (rule same_hogs [OF v(2) hu v(3)])
  moreover have "s_total_ticks (sprocs v j) = s_total_ticks (sprocs u j)" for j using v(2) su by (simp add: same_but_pri_def)
  ultimately show ?thesis using run v(1) t(3,4) by (cases "HZ \<le> k_jiffies u - last_second_tick u") auto
qed

text \<open>C12: A process in the last band shares the processor with nobody: when its quantum ends it is put at
  the head of its band and chosen again, so while no process of a higher band becomes ready it
  stays the current one after any number of ticks, every tick is charged to it, and the other
  processes of the band, however many there are, wait for ever.\<close>

theorem last_band_starves:
  assumes "hogs s B i" and "j \<in> set (B 4)"
  shows "\<exists>t. clock_ticks cb n s = Some t \<and> s_current t = Some i \<and> bands_ok t B \<and>
    s_total_ticks (sprocs t i) = s_total_ticks (sprocs s i) + of_nat n \<and>
    s_total_ticks (sprocs t j) = s_total_ticks (sprocs s j)"
proof -
  have ne: "j \<noteq> i" using assms by (auto simp: hogs_def)
  have "\<exists>t. clock_ticks cb n s = Some t \<and> hogs t B i \<and>
    s_total_ticks (sprocs t i) = s_total_ticks (sprocs s i) + of_nat n \<and> s_total_ticks (sprocs t j) = s_total_ticks (sprocs s j)"
    using assms(1)
  proof (induction n arbitrary: s)
    case (Suc n)
    obtain t where t: "clock_tick cb s = Some t" "hogs t B i" "s_total_ticks (sprocs t i) = s_total_ticks (sprocs s i) + 1"
      "s_total_ticks (sprocs t j) = s_total_ticks (sprocs s j)"
      using hog_tick [OF Suc.prems, of cb] ne by auto
    from Suc.IH [OF t(2)] t show ?case by (auto simp: algebra_simps)
  qed simp
  then show ?thesis by (auto simp: hogs_def)
qed

section \<open>Load averages\<close>

lemma unat_ucast32: "unat (ucast (w :: u32) :: u64) = unat w"
proof -
  have "unat w < 2 ^ 64" by (rule less_trans [OF unsigned_less]) simp
  then show ?thesis by (simp add: unsigned_ucast_eq take_bit_nat_eq_self)
qed

lemma ewma_nat:
  assumes "unat alpha \<le> 1000" and "unat old \<le> m" and "unat sample \<le> m" and "m < 2 ^ 32"
  shows "unat (ewma_update alpha old sample) = (unat alpha * unat old + (1000 - unat alpha) * unat sample) div 1000"
    and "unat (ewma_update alpha old sample) \<le> m"
proof -
  let ?x = "unat alpha * unat old" and ?y = "(1000 - unat alpha) * unat sample"
  have "?x \<le> unat alpha * m" "?y \<le> (1000 - unat alpha) * m" using assms by simp_all
  moreover have "unat alpha * m + (1000 - unat alpha) * m = 1000 * m"
    using assms(1) by (simp add: algebra_simps flip: add_mult_distrib)
  ultimately have s: "?x + ?y \<le> 1000 * m" by linarith
  have a: "unat (1000 - alpha) = 1000 - unat alpha" using assms(1) by (simp add: unat_sub word_le_nat_alt)
  have x: "unat (ucast alpha * (ucast old :: u64)) = ?x"
    using s assms(4) by (subst unat_mult_lem [THEN iffD1]) (simp_all add: unat_ucast32)
  have y: "unat (ucast (1000 - alpha) * (ucast sample :: u64)) = ?y"
    using s assms(4) by (subst unat_mult_lem [THEN iffD1]) (simp_all add: unat_ucast32 a)
  have z: "unat (ucast alpha * (ucast old :: u64) + ucast (1000 - alpha) * ucast sample) = ?x + ?y"
    using s assms(4) by (subst unat_add_lem [THEN iffD1]) (simp_all only: x y, simp)
  have d: "(?x + ?y) div 1000 \<le> m" using div_le_mono [OF s, of 1000] by simp
  with assms(4) show e: "unat (ewma_update alpha old sample) = (?x + ?y) div 1000"
    by (simp add: ewma_update_def unsigned_ucast_eq unat_div z take_bit_nat_eq_self)
  show "unat (ewma_update alpha old sample) \<le> m" unfolding e by (rule d)
qed

lemma ewma_zero:
  assumes "unat alpha \<le> 1000" and "(1000 - unat alpha) * unat sample < 1000"
  shows "ewma_update alpha 0 sample = 0"
proof -
  have m: "unat sample < 2 ^ 32" by (rule less_le_trans [OF unsigned_less]) simp
  have "unat (ewma_update alpha 0 sample) = 0"
    using ewma_nat(1) [OF assms(1) _ order_refl m, of 0] assms(2) by simp
  then show ?thesis by (simp add: word_unat_eq_iff)
qed

text \<open>C39: The load averages, which a reader takes for a thousandth of a process each, are in processes and
  rounded down at every second: they never exceed the largest sample, and with at most 64
  processes the 15-minute average is always 0, with at most 58 runnable ones the 5-minute average
  and with at most 12 the 1-minute average.\<close>

theorem load_averages_vanish:
  assumes "\<forall>a\<in>set samples. unat a \<le> m" and "m \<le> 64"
  defines "l \<equiv> fold feed_loads samples zero_load"
  shows "unat (load_1 l) \<le> m \<and> unat (load_5 l) \<le> m \<and> load_15 l = 0 \<and> (m \<le> 58 \<longrightarrow> load_5 l = 0) \<and> (m \<le> 12 \<longrightarrow> load_1 l = 0)"
  using assms(1) unfolding l_def
proof (induction samples rule: rev_induct)
  case Nil
  then show ?case by (simp add: zero_load_def)
next
  case (snoc a samples)
  let ?l = "fold feed_loads samples zero_load"
  have a: "unat a \<le> m" and IH: "unat (load_1 ?l) \<le> m" "unat (load_5 ?l) \<le> m" "load_15 ?l = 0"
    "m \<le> 58 \<longrightarrow> load_5 ?l = 0" "m \<le> 12 \<longrightarrow> load_1 ?l = 0" using snoc by simp_all
  have m: "m < 2 ^ 32" using assms(2) by simp
  have al: "unat LOAD_ALPHA_1 = 920" "unat LOAD_ALPHA_5 = 983" "unat LOAD_ALPHA_15 = 994"
    by (simp_all add: LOAD_ALPHA_1_def LOAD_ALPHA_5_def LOAD_ALPHA_15_def)
  have f: "fold feed_loads (samples @ [a]) zero_load = feed_loads a ?l" by simp
  have "unat (ewma_update LOAD_ALPHA_1 (load_1 ?l) a) \<le> m" "unat (ewma_update LOAD_ALPHA_5 (load_5 ?l) a) \<le> m"
    using ewma_nat(2) [OF _ IH(1) a m, of LOAD_ALPHA_1] ewma_nat(2) [OF _ IH(2) a m, of LOAD_ALPHA_5] al by simp_all
  moreover have "ewma_update LOAD_ALPHA_15 (load_15 ?l) a = 0"
    using ewma_zero [of LOAD_ALPHA_15 a] al a assms(2) IH(3) by simp
  moreover have "ewma_update LOAD_ALPHA_5 (load_5 ?l) a = 0" if "m \<le> 58"
    using ewma_zero [of LOAD_ALPHA_5 a] al a that IH(4) by simp
  moreover have "ewma_update LOAD_ALPHA_1 (load_1 ?l) a = 0" if "m \<le> 12"
    using ewma_zero [of LOAD_ALPHA_1 a] al a that IH(5) by simp
  ultimately show ?case unfolding f by (simp add: feed_loads_def)
qed

section \<open>Callouts\<close>






section \<open>Instances\<close>

definition sproc_demo :: "pstate \<Rightarrow> int \<Rightarrow> int \<Rightarrow> nat option \<Rightarrow> nat option \<Rightarrow> sproc" where
  "sproc_demo st pr cpu nx pv = \<lparr>sp = zero_proc\<lparr>p_state := st, p_sched := \<lparr>p_pri = pr, p_cpu = cpu, p_nice = 0, p_time = 0\<rparr>,
     p_next := nx, p_prev := pv\<rparr>, s_time_slice = 10, s_total_ticks = 0, s_cpu_usage = 0, s_policy = SCHED_NORMAL,
     s_group_id = 0, s_in_memory = 1\<rparr>"

text \<open>Processes 0 and 1 in band 0, 2 in band 4; 3 runs in band 4.\<close>

definition sched_demo :: sched where
  "sched_demo = \<lparr>sprocs = (\<lambda>i. if i = 0 then sproc_demo READY 10 200 (Some 1) None
       else if i = 1 then sproc_demo READY 12 5 None (Some 0)
       else if i = 2 then sproc_demo READY 130 130 None None
       else sproc_demo KERNEL_RUNNING 120 120 None None),
     rq_heads = (\<lambda>q. None)(0 := Some 0, 4 := Some 2), rq_count = 3, s_current = Some 3, sched_context = 0,
     k_jiffies = 0, k_jiffies_64 = 0, x_sec = 0, x_nsec = 0,
     callouts = (\<lambda>k. \<lparr>delta_ticks = 0, co_fn = None, co_arg = 0, co_active = False\<rparr>), callout_count = 0,
     loads = zero_load, last_second_tick = 0, total_ticks = 0,
     prof = \<lparr>kernel_hits = (\<lambda>i. 0), user_hits = (\<lambda>i. 0), kernel_profiling = False, user_profiling = False, total_samples = 0\<rparr>,
     nmi_wd = \<lparr>nmi_enabled = False, nmi_last_jiffies = 0, nmi_threshold = 0, nmi_count = 0\<rparr>\<rparr>"

definition demo_bands :: "nat \<Rightarrow> nat list" where "demo_bands = (\<lambda>q. [])(0 := [0, 1], 4 := [2])"

text \<open>The same without the processes of band 0.\<close>

definition hog_demo :: sched where "hog_demo = sched_demo\<lparr>rq_heads := (\<lambda>q. None)(4 := Some 2)\<rparr>"

lemma demo_ok: "bands_ok sched_demo demo_bands" "bands_right sched_demo demo_bands"
  "queue_order demo_bands = [0, 1, 2]" "find (elig sched_demo) (queue_order demo_bands) = Some 0"
  "priority_to_band (new_pri sched_demo 0) = 4"
proof -
  show "bands_ok sched_demo demo_bands"
    by (auto simp: bands_ok_def demo_bands_def sched_demo_def sproc_demo_def dll_def nxt_def prv_def)
  show "bands_right sched_demo demo_bands"
    by (auto simp: bands_right_def demo_bands_def sched_demo_def sproc_demo_def priority_to_band_def MAX_PRIORITY_def
        MAX_PRIORITY_QUEUES_def)
  show o: "queue_order demo_bands = [0, 1, 2]"
    by (simp add: queue_order_def demo_bands_def MAX_PRIORITY_QUEUES_def upt_rec numeral_eq_Suc)
  show "find (elig sched_demo) (queue_order demo_bands) = Some 0"
    unfolding o by (simp add: elig_def sched_demo_def sproc_demo_def)
  show "priority_to_band (new_pri sched_demo 0) = 4"
    by (simp add: new_pri_def sched_demo_def sproc_demo_def priority_to_band_def MAX_PRIORITY_def MAX_PRIORITY_QUEUES_def)
qed

lemma hog_demo_ok: "hogs hog_demo ((\<lambda>q. [])(4 := [2])) 3"
  by (auto simp: hogs_def bands_ok_def hog_demo_def sched_demo_def sproc_demo_def dll_def nxt_def prv_def MAX_PRIORITY_def)

lemma schedule_picks_best_witness:
  "\<exists>t. schedule_process sched_demo = Some (Some 0, t) \<and> s_current t = Some 0 \<and> p_state (ent t 0) = KERNEL_RUNNING"
  using schedule_picks_best [OF demo_ok(1,2)] unfolding demo_ok(4) by auto

lemma readjusted_choice_cuts_queue_witness:
  "\<exists>u t. readjust_all_priorities sched_demo = Some u \<and> schedule_process u = Some (Some 0, t) \<and>
    bands_ok t ((\<lambda>q. [])(0 := [0], 4 := [1]))"
proof -
  have q: "(0 :: nat) < MAX_PRIORITY_QUEUES" "demo_bands 0 = 0 # [1]" by (simp_all add: MAX_PRIORITY_QUEUES_def demo_bands_def)
  have b: "demo_bands(0 := [0], 4 := [1]) = (\<lambda>q. [])(0 := [0], 4 := [1])" by (auto simp: demo_bands_def)
  show ?thesis
    using readjusted_choice_cuts_queue [OF demo_ok(1,2) q demo_ok(4)] unfolding demo_ok(5) b by auto
qed

lemma last_band_starves_witness:
  "\<exists>t. clock_ticks (\<lambda>f a s. s) 100000 hog_demo = Some t \<and> s_current t = Some 3 \<and> s_total_ticks (sprocs t 2) = 0"
  using last_band_starves [OF hog_demo_ok, of 2 "\<lambda>f a s. s" 100000]
  by (auto simp: hog_demo_def sched_demo_def sproc_demo_def)

lemma load_averages_vanish_witness:
  "load_1 (fold feed_loads (replicate 600 12) zero_load) = 0 \<and> load_15 (fold feed_loads (replicate 600 12) zero_load) = 0"
  using load_averages_vanish [of "replicate 600 12" 12] by simp


end
