(* ===== verification/Sha.thy ===== *)
theory Sha
  imports Bytes
begin

text \<open>
  The hash functions of the kernel's signature module
  (30_KIX/33_PCS/03_ksign/src/uiox_kix_ksign_crypto.c): SHA-256 and SHA-384 as init, update and
  final over a context with a block buffer, HMAC-SHA-256, the constant-time comparison, and the
  two functions that stand where RSA and ECDSA verification belong.  Locale \<open>block_stream\<close> states
  what both contexts share, a buffer that is compressed when it is full; its lemmas give the
  result of any sequence of updates, and the equivalence of the streaming code with the padded
  block-by-block definition of the standard.
\<close>

section \<open>Big-endian bytes and blocks\<close>

definition be_bytes :: "nat \<Rightarrow> 'a::len word \<Rightarrow> u8 list" where
  "be_bytes k w = rev (le_bytes k w)"

lemma length_be_bytes [simp]: "length (be_bytes k w) = k"
  by (simp add: be_bytes_def)

text \<open>The complete blocks of \<open>n\<close> bytes at the front of a message, and what is left.\<close>

function blocks :: "nat \<Rightarrow> 'a list \<Rightarrow> 'a list list" where
  "blocks n xs = (if n = 0 \<or> length xs < n then [] else take n xs # blocks n (drop n xs))"
  by pat_completeness auto
termination by (relation "measure (\<lambda>(n, xs). length xs)") auto

declare blocks.simps [simp del]

definition left_over :: "nat \<Rightarrow> 'a list \<Rightarrow> 'a list" where
  "left_over n xs = drop (n * (length xs div n)) xs"

lemma blocks_short: "length xs < n \<Longrightarrow> blocks n xs = []"
  by (simp add: blocks.simps)

lemma blocks_block: "length xs = n \<Longrightarrow> 0 < n \<Longrightarrow> blocks n (xs @ ys) = xs # blocks n ys"
  by (subst blocks.simps) simp

lemma left_over_short: "length xs < n \<Longrightarrow> left_over n xs = xs"
  by (simp add: left_over_def)

lemma left_over_block:
  assumes "length xs = n" and "0 < n"
  shows "left_over n (xs @ ys) = left_over n ys"
proof -
  have "(n + length ys) div n = Suc (length ys div n)" using assms by (simp add: div_add_self1)
  then show ?thesis using assms by (simp add: left_over_def add.commute)
qed

lemma length_left_over: "0 < n \<Longrightarrow> length (left_over n xs) = length xs mod n"
  by (simp add: left_over_def minus_mult_div_eq_mod)

lemma length_left_over_less: "0 < n \<Longrightarrow> length (left_over n xs) < n"
  by (simp add: length_left_over)

section \<open>A buffer that is compressed when it is full\<close>

text \<open>
  What the two hash contexts promise: \<open>pend\<close> is the part of the buffer in use, \<open>chain\<close> the
  chaining value; a byte is appended, and the byte that completes a block has it compressed.
\<close>

locale block_stream =
  fixes bs :: nat
    and ok :: "'c \<Rightarrow> bool"
    and chain :: "'c \<Rightarrow> 's"
    and pend :: "'c \<Rightarrow> u8 list"
    and compress :: "u8 list \<Rightarrow> 's \<Rightarrow> 's"
    and put :: "u8 \<Rightarrow> 'c \<Rightarrow> 'c"
  assumes bs_pos: "0 < bs"
    and pend_less: "ok c \<Longrightarrow> length (pend c) < bs"
    and put_ok: "ok c \<Longrightarrow> ok (put b c)"
    and put_pend: "ok c \<Longrightarrow> Suc (length (pend c)) < bs \<Longrightarrow>
          chain (put b c) = chain c \<and> pend (put b c) = pend c @ [b]"
    and put_full: "ok c \<Longrightarrow> Suc (length (pend c)) = bs \<Longrightarrow>
          chain (put b c) = compress (pend c @ [b]) (chain c) \<and> pend (put b c) = []"
begin

lemma fold_put_ok: "ok c \<Longrightarrow> ok (fold put d c)"
  by (induction d arbitrary: c) (auto simp: put_ok)

lemma fold_put_stream:
  "ok c \<Longrightarrow> chain (fold put d c) = fold compress (blocks bs (pend c @ d)) (chain c)
     \<and> pend (fold put d c) = left_over bs (pend c @ d)"
proof (induction d arbitrary: c)
  case Nil
  then show ?case using pend_less by (simp add: blocks_short left_over_short)
next
  case (Cons b d)
  have ok: "ok (put b c)" using Cons.prems by (rule put_ok)
  show ?case
  proof (cases "Suc (length (pend c)) = bs")
    case True
    have p: "chain (put b c) = compress (pend c @ [b]) (chain c)" "pend (put b c) = []"
      using put_full [OF Cons.prems True] by auto
    have s: "pend c @ b # d = (pend c @ [b]) @ d" by simp
    have l: "length (pend c @ [b]) = bs" using True by simp
    show ?thesis
      using Cons.IH [OF ok] unfolding s blocks_block [OF l bs_pos] left_over_block [OF l bs_pos]
      by (simp add: p)
  next
    case False
    then have "Suc (length (pend c)) < bs" using pend_less [OF Cons.prems] by simp
    then have p: "chain (put b c) = chain c" "pend (put b c) = pend c @ [b]"
      using put_pend [OF Cons.prems] by auto
    show ?thesis using Cons.IH [OF ok] by (simp add: p)
  qed
qed

text \<open>From a fresh context only the concatenation of what was written matters.\<close>

lemma chunks_stream:
  assumes "ok c" and "pend c = []"
  shows "chain (fold (fold put) ds c) = fold compress (blocks bs (concat ds)) (chain c)"
    and "pend (fold (fold put) ds c) = left_over bs (concat ds)"
    and "ok (fold (fold put) ds c)"
proof -
  have f: "fold (fold put) ds c = fold put (concat ds) c"
    by (induction ds arbitrary: c) auto
  show "chain (fold (fold put) ds c) = fold compress (blocks bs (concat ds)) (chain c)"
    and "pend (fold (fold put) ds c) = left_over bs (concat ds)"
    and "ok (fold (fold put) ds c)"
    using fold_put_stream [OF assms(1), of "concat ds"] fold_put_ok [OF assms(1)] assms(2)
    by (simp_all add: f)
qed

end

section \<open>SHA-256\<close>

definition RR32 :: "u32 \<Rightarrow> nat \<Rightarrow> u32" where
  "RR32 x n = drop_bit n x OR push_bit (32 - n) x"
definition SCH :: "u32 \<Rightarrow> u32 \<Rightarrow> u32 \<Rightarrow> u32" where
  "SCH x y z = (x AND y) XOR (NOT x AND z)"
definition SMAJ :: "u32 \<Rightarrow> u32 \<Rightarrow> u32 \<Rightarrow> u32" where
  "SMAJ x y z = (x AND y) XOR (x AND z) XOR (y AND z)"
definition SEP0 :: "u32 \<Rightarrow> u32" where "SEP0 x = RR32 x 2 XOR RR32 x 13 XOR RR32 x 22"
definition SEP1 :: "u32 \<Rightarrow> u32" where "SEP1 x = RR32 x 6 XOR RR32 x 11 XOR RR32 x 25"
definition SS0 :: "u32 \<Rightarrow> u32" where "SS0 x = RR32 x 7 XOR RR32 x 18 XOR drop_bit 3 x"
definition SS1 :: "u32 \<Rightarrow> u32" where "SS1 x = RR32 x 17 XOR RR32 x 19 XOR drop_bit 10 x"

definition KS_K256 :: "u32 list" where
  "KS_K256 =
  [0x428A2F98, 0x71374491, 0xB5C0FBCF, 0xE9B5DBA5, 0x3956C25B, 0x59F111F1, 0x923F82A4,
   0xAB1C5ED5, 0xD807AA98, 0x12835B01, 0x243185BE, 0x550C7DC3, 0x72BE5D74, 0x80DEB1FE,
   0x9BDC06A7, 0xC19BF174, 0xE49B69C1, 0xEFBE4786, 0x0FC19DC6, 0x240CA1CC, 0x2DE92C6F,
   0x4A7484AA, 0x5CB0A9DC, 0x76F988DA, 0x983E5152, 0xA831C66D, 0xB00327C8, 0xBF597FC7,
   0xC6E00BF3, 0xD5A79147, 0x06CA6351, 0x14292967, 0x27B70A85, 0x2E1B2138, 0x4D2C6DFC,
   0x53380D13, 0x650A7354, 0x766A0ABB, 0x81C2C92E, 0x92722C85, 0xA2BFE8A1, 0xA81A664B,
   0xC24B8B70, 0xC76C51A3, 0xD192E819, 0xD6990624, 0xF40E3585, 0x106AA070, 0x19A4C116,
   0x1E376C08, 0x2748774C, 0x34B0BCB5, 0x391C0CB3, 0x4ED8AA4A, 0x5B9CCA4F, 0x682E6FF3,
   0x748F82EE, 0x78A5636F, 0x84C87814, 0x8CC70208, 0x90BEFFFA, 0xA4506CEB, 0xBEF9A3F7,
   0xC67178F2]"

definition KS_H0_256 :: "u32 list" where
  "KS_H0_256 =
  [0x6A09E667, 0xBB67AE85, 0x3C6EF372, 0xA54FF53A, 0x510E527F, 0x9B05688C, 0x1F83D9AB, 0x5BE0CD19]"

text \<open>The first loop of the transform loads sixteen big-endian words, the second extends them.\<close>

definition load32 :: "u8 list \<Rightarrow> nat \<Rightarrow> u32" where
  "load32 blk i = push_bit 24 (ucast (blk ! (i * 4))) OR push_bit 16 (ucast (blk ! (i * 4 + 1)))
     OR push_bit 8 (ucast (blk ! (i * 4 + 2))) OR ucast (blk ! (i * 4 + 3))"

definition sched256 :: "u8 list \<Rightarrow> u32 list" where
  "sched256 blk = fold (\<lambda>i W. W @ [SS1 (W ! (i - 2)) + W ! (i - 7) + SS0 (W ! (i - 15)) + W ! (i - 16)])
     [16..<64] (map (load32 blk) [0..<16])"

text \<open>The working variables \<open>a, b, cd, d, e, f, g, h\<close> and one round.\<close>

type_synonym 'w work = "'w \<times> 'w \<times> 'w \<times> 'w \<times> 'w \<times> 'w \<times> 'w \<times> 'w"

fun round256 :: "u32 list \<Rightarrow> nat \<Rightarrow> u32 work \<Rightarrow> u32 work" where
  "round256 W i (a, b, cd, d, e, f, g, h) =
     (let t1 = h + SEP1 e + SCH e f g + KS_K256 ! i + W ! i;
          t2 = SEP0 a + SMAJ a b cd
      in (t1 + t2, a, b, cd, d + t1, e, f, g))"

definition work_of :: "'w list \<Rightarrow> 'w work" where
  "work_of st = (st ! 0, st ! 1, st ! 2, st ! 3, st ! 4, st ! 5, st ! 6, st ! 7)"

fun work_add :: "'w::plus list \<Rightarrow> 'w work \<Rightarrow> 'w list" where
  "work_add st (a, b, cd, d, e, f, g, h) =
     [st ! 0 + a, st ! 1 + b, st ! 2 + cd, st ! 3 + d, st ! 4 + e, st ! 5 + f, st ! 6 + g, st ! 7 + h]"

definition ks_sha256_transform :: "u8 list \<Rightarrow> u32 list \<Rightarrow> u32 list" where
  "ks_sha256_transform blk st = (let W = sched256 blk in
     work_add st (fold (round256 W) [0..<64] (work_of st)))"

record sha256_ctx =
  sha_state :: "u32 list"
  sha_bits :: u64
  sha_buf_len :: u32
  sha_buf :: "u8 list"

text \<open>\<open>init\<close> leaves the buffer as it is: \<open>buf\<close> stands for the stack it is allocated on.\<close>

definition uiox_ks_sha256_init :: "sha256_ctx \<Rightarrow> sha256_ctx" where
  "uiox_ks_sha256_init c = c\<lparr>sha_state := KS_H0_256, sha_bits := 0, sha_buf_len := 0\<rparr>"

definition sha256_put :: "u8 \<Rightarrow> sha256_ctx \<Rightarrow> sha256_ctx" where
  "sha256_put b c =
     (let buf = (sha_buf c)[unat (sha_buf_len c) := b]; n = sha_buf_len c + 1
      in if n = 64
         then c\<lparr>sha_buf := buf, sha_buf_len := 0, sha_state := ks_sha256_transform buf (sha_state c)\<rparr>
         else c\<lparr>sha_buf := buf, sha_buf_len := n\<rparr>)"

definition uiox_ks_sha256_update :: "u8 list \<Rightarrow> sha256_ctx \<Rightarrow> sha256_ctx" where
  "uiox_ks_sha256_update d c =
     fold sha256_put d (c\<lparr>sha_bits := sha_bits c + of_nat (length d) * 8\<rparr>)"

text \<open>\<open>while (i < n) buf[i++] = 0;\<close> and the loop that stores a counter big-endian at \<open>p\<close>.\<close>

definition zero_upto :: "nat \<Rightarrow> nat \<Rightarrow> u8 list \<Rightarrow> u8 list" where
  "zero_upto i n buf = fold (\<lambda>j b. b[j := 0]) [i..<n] buf"

definition store_be64 :: "nat \<Rightarrow> u64 \<Rightarrow> u8 list \<Rightarrow> u8 list" where
  "store_be64 p w buf =
     snd (fold (\<lambda>j (bc, b). (drop_bit 8 bc, b[p + j := ucast bc])) (rev [0..<8]) (w, buf))"

definition digest_be32 :: "u32 \<Rightarrow> u8 list" where
  "digest_be32 w = [ucast (drop_bit 24 w), ucast (drop_bit 16 w), ucast (drop_bit 8 w), ucast w]"

definition uiox_ks_sha256_final :: "sha256_ctx \<Rightarrow> sha256_ctx \<times> u8 list" where
  "uiox_ks_sha256_final c =
     (let i = unat (sha_buf_len c);
          b1 = (sha_buf c)[i := 0x80];
          (st, b2, i2) = (if Suc i > 56
                          then (let z = zero_upto (Suc i) 64 b1 in (ks_sha256_transform z (sha_state c), z, 0))
                          else (sha_state c, b1, Suc i));
          b3 = store_be64 56 (sha_bits c) (zero_upto i2 56 b2);
          st' = ks_sha256_transform b3 st
      in (c\<lparr>sha_state := st', sha_buf := b3\<rparr>, concat (map digest_be32 st')))"

text \<open>A context on the stack; its bytes are whatever was there, here zero.\<close>

definition sha256_stack :: sha256_ctx where
  "sha256_stack = \<lparr>sha_state = replicate 8 0, sha_bits = 0, sha_buf_len = 0, sha_buf = replicate 64 0\<rparr>"

definition uiox_ks_sha256 :: "u8 list \<Rightarrow> u8 list" where
  "uiox_ks_sha256 d = snd (uiox_ks_sha256_final (uiox_ks_sha256_update d (uiox_ks_sha256_init sha256_stack)))"

section \<open>SHA-384\<close>

definition RR64 :: "u64 \<Rightarrow> nat \<Rightarrow> u64" where
  "RR64 x n = drop_bit n x OR push_bit (64 - n) x"
definition SCH64 :: "u64 \<Rightarrow> u64 \<Rightarrow> u64 \<Rightarrow> u64" where
  "SCH64 x y z = (x AND y) XOR (NOT x AND z)"
definition SMAJ64 :: "u64 \<Rightarrow> u64 \<Rightarrow> u64 \<Rightarrow> u64" where
  "SMAJ64 x y z = (x AND y) XOR (x AND z) XOR (y AND z)"
definition SEP0_64 :: "u64 \<Rightarrow> u64" where "SEP0_64 x = RR64 x 28 XOR RR64 x 34 XOR RR64 x 39"
definition SEP1_64 :: "u64 \<Rightarrow> u64" where "SEP1_64 x = RR64 x 14 XOR RR64 x 18 XOR RR64 x 41"
definition SS0_64 :: "u64 \<Rightarrow> u64" where "SS0_64 x = RR64 x 1 XOR RR64 x 8 XOR drop_bit 7 x"
definition SS1_64 :: "u64 \<Rightarrow> u64" where "SS1_64 x = RR64 x 19 XOR RR64 x 61 XOR drop_bit 6 x"

definition KS_K384 :: "u64 list" where
  "KS_K384 =
  [0x428A2F98D728AE22, 0x7137449123EF65CD, 0xB5C0FBCFEC4D3B2F, 0xE9B5DBA58189DBBC,
   0x3956C25BF348B538, 0x59F111F1B605D019, 0x923F82A4AF194F9B, 0xAB1C5ED5DA6D8118,
   0xD807AA98A3030242, 0x12835B0145706FBE, 0x243185BE4EE4B28C, 0x550C7DC3D5FFB4E2,
   0x72BE5D74F27B896F, 0x80DEB1FE3B1696B1, 0x9BDC06A725C71235, 0xC19BF174CF692694,
   0xE49B69C19EF14AD2, 0xEFBE4786384F25E3, 0x0FC19DC68B8CD5B5, 0x240CA1CC77AC9C65,
   0x2DE92C6F592B0275, 0x4A7484AA6EA6E483, 0x5CB0A9DCBD41FBD4, 0x76F988DA831153B5,
   0x983E5152EE66DFAB, 0xA831C66D2DB43210, 0xB00327C898FB213F, 0xBF597FC7BEEF0EE4,
   0xC6E00BF33DA88FC2, 0xD5A79147930AA725, 0x06CA6351E003826F, 0x142929670A0E6E70,
   0x27B70A8546D22FFC, 0x2E1B21385C26C926, 0x4D2C6DFC5AC42AED, 0x53380D139D95B3DF,
   0x650A73548BAF63DE, 0x766A0ABB3C77B2A8, 0x81C2C92E47EDAEE6, 0x92722C851482353B,
   0xA2BFE8A14CF10364, 0xA81A664BBC423001, 0xC24B8B70D0F89791, 0xC76C51A30654BE30,
   0xD192E819D6EF5218, 0xD69906245565A910, 0xF40E35855771202A, 0x106AA07032BBD1B8,
   0x19A4C116B8D2D0C8, 0x1E376C085141AB53, 0x2748774CDF8EEB99, 0x34B0BCB5E19B48A8,
   0x391C0CB3C5C95A63, 0x4ED8AA4AE3418ACB, 0x5B9CCA4F7763E373, 0x682E6FF3D6B2B8A3,
   0x748F82EE5DEFB2FC, 0x78A5636F43172F60, 0x84C87814A1F0AB72, 0x8CC702081A6439EC,
   0x90BEFFFA23631E28, 0xA4506CEBDE82BDE9, 0xBEF9A3F7B2C67915, 0xC67178F2E372532B,
   0xCA273ECEEA26619C, 0xD186B8C721C0C207, 0xEADA7DD6CDE0EB1E, 0xF57D4F7FEE6ED178,
   0x06F067AA72176FBA, 0x0A637DC5A2C898A6, 0x113F9804BEF90DAE, 0x1B710B35131C471B,
   0x28DB77F523047D84, 0x32CAAB7B40C72493, 0x3C9EBE0A15C9BEBC, 0x431D67C49C100D4C,
   0x4CC5D4BECB3E42B6, 0x597F299CFC657E2A, 0x5FCB6FAB3AD6FAEC, 0x6C44198C4A475817]"

definition KS_H0_384 :: "u64 list" where
  "KS_H0_384 =
  [0xCBBB9D5DC1059ED8, 0x629A292A367CD507, 0x9159015A3070DD17, 0x152FECD8F70E5939,
   0x67332667FFC00B31, 0x8EB44A8768581511, 0xDB0C2E0D64F98FA7, 0x47B5481DBEFA4FA4]"

definition load64 :: "u8 list \<Rightarrow> nat \<Rightarrow> u64" where
  "load64 blk i = fold (\<lambda>j w. push_bit 8 w OR ucast (blk ! (i * 8 + j))) [0..<8] 0"

definition sched384 :: "u8 list \<Rightarrow> u64 list" where
  "sched384 blk = fold (\<lambda>i W. W @ [SS1_64 (W ! (i - 2)) + W ! (i - 7) + SS0_64 (W ! (i - 15)) + W ! (i - 16)])
     [16..<80] (map (load64 blk) [0..<16])"

fun round384 :: "u64 list \<Rightarrow> nat \<Rightarrow> u64 work \<Rightarrow> u64 work" where
  "round384 W i (a, b, cd, d, e, f, g, h) =
     (let t1 = h + SEP1_64 e + SCH64 e f g + KS_K384 ! i + W ! i;
          t2 = SEP0_64 a + SMAJ64 a b cd
      in (t1 + t2, a, b, cd, d + t1, e, f, g))"

definition ks_sha384_transform :: "u8 list \<Rightarrow> u64 list \<Rightarrow> u64 list" where
  "ks_sha384_transform blk st = (let W = sched384 blk in
     work_add st (fold (round384 W) [0..<80] (work_of st)))"

record sha384_ctx =
  sha5_state :: "u64 list"
  sha5_lo :: u64
  sha5_hi :: u64
  sha5_buf_len :: u32
  sha5_buf :: "u8 list"

definition uiox_ks_sha384_init :: "sha384_ctx \<Rightarrow> sha384_ctx" where
  "uiox_ks_sha384_init c =
     c\<lparr>sha5_state := KS_H0_384, sha5_lo := 0, sha5_hi := 0, sha5_buf_len := 0\<rparr>"

definition sha384_put :: "u8 \<Rightarrow> sha384_ctx \<Rightarrow> sha384_ctx" where
  "sha384_put b c =
     (let buf = (sha5_buf c)[unat (sha5_buf_len c) := b]; n = sha5_buf_len c + 1
      in if n = 128
         then c\<lparr>sha5_buf := buf, sha5_buf_len := 0, sha5_state := ks_sha384_transform buf (sha5_state c)\<rparr>
         else c\<lparr>sha5_buf := buf, sha5_buf_len := n\<rparr>)"

text \<open>The 128-bit length is kept in two words; the carry is seen by the wrapped sum being smaller.\<close>

definition sha384_count :: "nat \<Rightarrow> sha384_ctx \<Rightarrow> sha384_ctx" where
  "sha384_count n c =
     (let lo = sha5_lo c + of_nat n * 8
      in c\<lparr>sha5_lo := lo, sha5_hi := (if lo < sha5_lo c then sha5_hi c + 1 else sha5_hi c)\<rparr>)"

definition uiox_ks_sha384_update :: "u8 list \<Rightarrow> sha384_ctx \<Rightarrow> sha384_ctx" where
  "uiox_ks_sha384_update d c = fold sha384_put d (sha384_count (length d) c)"

definition digest_be64 :: "u64 \<Rightarrow> u8 list" where
  "digest_be64 w = map (\<lambda>k. ucast (drop_bit (k * 8) w)) (rev [0..<8])"

definition uiox_ks_sha384_final :: "sha384_ctx \<Rightarrow> sha384_ctx \<times> u8 list" where
  "uiox_ks_sha384_final c =
     (let i = unat (sha5_buf_len c);
          b1 = (sha5_buf c)[i := 0x80];
          (st, b2, i2) = (if Suc i > 112
                          then (let z = zero_upto (Suc i) 128 b1 in (ks_sha384_transform z (sha5_state c), z, 0))
                          else (sha5_state c, b1, Suc i));
          b3 = store_be64 120 (sha5_lo c) (store_be64 112 (sha5_hi c) (zero_upto i2 112 b2));
          st' = ks_sha384_transform b3 st
      in (c\<lparr>sha5_state := st', sha5_buf := b3\<rparr>, concat (map digest_be64 (take 6 st'))))"

definition sha384_stack :: sha384_ctx where
  "sha384_stack = \<lparr>sha5_state = replicate 8 0, sha5_lo = 0, sha5_hi = 0, sha5_buf_len = 0,
     sha5_buf = replicate 128 0\<rparr>"

definition uiox_ks_sha384 :: "u8 list \<Rightarrow> u8 list" where
  "uiox_ks_sha384 d = snd (uiox_ks_sha384_final (uiox_ks_sha384_update d (uiox_ks_sha384_init sha384_stack)))"

section \<open>The contexts are block streams\<close>

definition ok256 :: "sha256_ctx \<Rightarrow> bool" where
  "ok256 c \<longleftrightarrow> length (sha_buf c) = 64 \<and> unat (sha_buf_len c) < 64"

definition pend256 :: "sha256_ctx \<Rightarrow> u8 list" where
  "pend256 c = take (unat (sha_buf_len c)) (sha_buf c)"

definition ok384 :: "sha384_ctx \<Rightarrow> bool" where
  "ok384 c \<longleftrightarrow> length (sha5_buf c) = 128 \<and> unat (sha5_buf_len c) < 128"

definition pend384 :: "sha384_ctx \<Rightarrow> u8 list" where
  "pend384 c = take (unat (sha5_buf_len c)) (sha5_buf c)"

lemma take_list_update_snoc:
  "i < length xs \<Longrightarrow> take (Suc i) (xs[i := b]) = take i xs @ [b]"
  by (simp add: take_Suc_conv_app_nth)

lemma unat_Suc32: "unat (w :: u32) < 1000 \<Longrightarrow> unat (w + 1) = Suc (unat w)"
  by (simp add: unat_word_ariths)

lemma incr_eq:
  fixes w :: u32
  assumes "unat w < 1000"
  shows "w + 1 = 64 \<longleftrightarrow> unat w = 63" and "w + 1 = 128 \<longleftrightarrow> unat w = 127"
  using unat_Suc32 [OF assms] by (auto simp: word_unat_eq_iff)

lemma put256_full: "ok256 c \<Longrightarrow> Suc (length (pend256 c)) = 64 \<Longrightarrow>
    sha_state (sha256_put b c) = ks_sha256_transform (pend256 c @ [b]) (sha_state c)
    \<and> pend256 (sha256_put b c) = []"
proof -
  assume ok: "ok256 c" and f: "Suc (length (pend256 c)) = 64"
  then have l: "unat (sha_buf_len c) = 63" by (simp add: ok256_def pend256_def min_def)
  then have n: "sha_buf_len c + 1 = 64" using incr_eq(1) [of "sha_buf_len c"] by simp
  have "pend256 c @ [b] = (sha_buf c)[63 := b]"
    using ok l take_list_update_snoc [of 63 "sha_buf c" b] by (simp add: ok256_def pend256_def)
  then show ?thesis using l n by (simp add: sha256_put_def pend256_def Let_def)
qed

lemma put256_pend: "ok256 c \<Longrightarrow> Suc (length (pend256 c)) < 64 \<Longrightarrow>
    sha_state (sha256_put b c) = sha_state c \<and> pend256 (sha256_put b c) = pend256 c @ [b]"
proof -
  assume ok: "ok256 c" and f: "Suc (length (pend256 c)) < 64"
  then have l: "Suc (unat (sha_buf_len c)) < 64" by (simp add: ok256_def pend256_def min_def)
  then have n: "sha_buf_len c + 1 \<noteq> 64" "unat (sha_buf_len c + 1) = Suc (unat (sha_buf_len c))"
    using incr_eq(1) [of "sha_buf_len c"] unat_Suc32 [of "sha_buf_len c"] by auto
  show ?thesis using ok l n take_list_update_snoc [of "unat (sha_buf_len c)" "sha_buf c" b]
    by (simp add: sha256_put_def pend256_def ok256_def Let_def)
qed

lemma put256_ok: "ok256 c \<Longrightarrow> ok256 (sha256_put b c)"
  using incr_eq(1) [of "sha_buf_len c"] unat_Suc32 [of "sha_buf_len c"]
  by (auto simp: sha256_put_def ok256_def Let_def)

interpretation s256: block_stream 64 ok256 sha_state pend256 ks_sha256_transform sha256_put
  by unfold_locales
    (simp_all only: put256_ok put256_pend put256_full, simp_all add: ok256_def pend256_def)

lemma put384_full: "ok384 c \<Longrightarrow> Suc (length (pend384 c)) = 128 \<Longrightarrow>
    sha5_state (sha384_put b c) = ks_sha384_transform (pend384 c @ [b]) (sha5_state c)
    \<and> pend384 (sha384_put b c) = []"
proof -
  assume ok: "ok384 c" and f: "Suc (length (pend384 c)) = 128"
  then have l: "unat (sha5_buf_len c) = 127" by (simp add: ok384_def pend384_def min_def)
  then have n: "sha5_buf_len c + 1 = 128" using incr_eq(2) [of "sha5_buf_len c"] by simp
  have "pend384 c @ [b] = (sha5_buf c)[127 := b]"
    using ok l take_list_update_snoc [of 127 "sha5_buf c" b] by (simp add: ok384_def pend384_def)
  then show ?thesis using l n by (simp add: sha384_put_def pend384_def Let_def)
qed

lemma put384_pend: "ok384 c \<Longrightarrow> Suc (length (pend384 c)) < 128 \<Longrightarrow>
    sha5_state (sha384_put b c) = sha5_state c \<and> pend384 (sha384_put b c) = pend384 c @ [b]"
proof -
  assume ok: "ok384 c" and f: "Suc (length (pend384 c)) < 128"
  then have l: "Suc (unat (sha5_buf_len c)) < 128" by (simp add: ok384_def pend384_def min_def)
  then have n: "sha5_buf_len c + 1 \<noteq> 128" "unat (sha5_buf_len c + 1) = Suc (unat (sha5_buf_len c))"
    using incr_eq(2) [of "sha5_buf_len c"] unat_Suc32 [of "sha5_buf_len c"] by auto
  show ?thesis using ok l n take_list_update_snoc [of "unat (sha5_buf_len c)" "sha5_buf c" b]
    by (simp add: sha384_put_def pend384_def ok384_def Let_def)
qed

lemma put384_ok: "ok384 c \<Longrightarrow> ok384 (sha384_put b c)"
  using incr_eq(2) [of "sha5_buf_len c"] unat_Suc32 [of "sha5_buf_len c"]
  by (auto simp: sha384_put_def ok384_def Let_def)

interpretation s384: block_stream 128 ok384 sha5_state pend384 ks_sha384_transform sha384_put
  by unfold_locales
    (simp_all only: put384_ok put384_pend put384_full, simp_all add: ok384_def pend384_def)

section \<open>Padding\<close>

text \<open>
  The padded message of the standard: a 1 bit, zeros up to the length field, the length in bits
  big-endian in \<open>l\<close> bytes, a multiple of the block size \<open>n\<close> in all.
\<close>

definition md_pad :: "nat \<Rightarrow> nat \<Rightarrow> u8 list \<Rightarrow> u8 list \<Rightarrow> u8 list" where
  "md_pad n l lenbytes m = m @ 0x80 #
     replicate (if length m mod n + 1 + l \<le> n then n - l - 1 - length m mod n
                else 2 * n - l - 1 - length m mod n) 0 @ lenbytes"

text \<open>SHA-256 and SHA-384 by the standard (the length field is the bit count modulo its width).\<close>

definition sha256_spec :: "u8 list \<Rightarrow> u8 list" where
  "sha256_spec m = concat (map (be_bytes 4)
     (fold ks_sha256_transform (blocks 64 (md_pad 64 8 (be_bytes 8 (of_nat (length m * 8) :: u64)) m)) KS_H0_256))"

definition sha384_spec :: "u8 list \<Rightarrow> u8 list" where
  "sha384_spec m = concat (map (be_bytes 8)
     (take 6 (fold ks_sha384_transform
        (blocks 128 (md_pad 128 16 (be_bytes 16 (of_nat (length m * 8) :: 128 word)) m)) KS_H0_384)))"

lemma zero_upto_eq:
  "i \<le> n \<Longrightarrow> n \<le> length buf \<Longrightarrow> zero_upto i n buf = take i buf @ replicate (n - i) 0 @ drop n buf"
proof (induction n)
  case 0
  then show ?case by (simp add: zero_upto_def)
next
  case (Suc n)
  show ?case
  proof (cases "i = Suc n")
    case True
    with Suc.prems show ?thesis by (simp add: zero_upto_def)
  next
    case False
    with Suc.prems have "i \<le> n" by simp
    then have z: "zero_upto i (Suc n) buf = (zero_upto i n buf)[n := 0]" by (simp add: zero_upto_def)
    have d: "drop n buf = buf ! n # drop (Suc n) buf" using Suc.prems by (simp add: Cons_nth_drop_Suc)
    show ?thesis unfolding z using Suc \<open>i \<le> n\<close>
      by (simp add: d list_update_append replicate_append_same [symmetric] Suc_diff_le)
  qed
qed

lemma store_be64_eq:
  assumes "p + 8 \<le> length buf"
  shows "store_be64 p w buf = take p buf @ be_bytes 8 w @ drop (p + 8) buf"
proof -
  have b: "be_bytes 8 w = [ucast (drop_bit 56 w), ucast (drop_bit 48 w), ucast (drop_bit 40 w),
      ucast (drop_bit 32 w), ucast (drop_bit 24 w), ucast (drop_bit 16 w), ucast (drop_bit 8 w), ucast w]"
    by (simp add: be_bytes_def eval_nat_numeral)
  have s: "store_be64 p w buf = buf[p + 7 := ucast w, p + 6 := ucast (drop_bit 8 w),
      p + 5 := ucast (drop_bit 16 w), p + 4 := ucast (drop_bit 24 w), p + 3 := ucast (drop_bit 32 w),
      p + 2 := ucast (drop_bit 40 w), p + 1 := ucast (drop_bit 48 w), p := ucast (drop_bit 56 w)]"
  proof -
    have "rev [0..<8] = [7, 6, 5, 4, 3, 2, 1, 0 :: nat]" by (simp add: upt_rec)
    then show ?thesis by (simp only: store_be64_def) simp
  qed
  show ?thesis unfolding b s
    by (rule nth_equalityI) (use assms in \<open>auto simp: nth_append nth_list_update nth_Cons' min_def\<close>)
qed

lemma blocks_append: "0 < n \<Longrightarrow> blocks n (xs @ ys) = blocks n xs @ blocks n (left_over n xs @ ys)"
proof (induction n xs rule: blocks.induct)
  case (1 n xs)
  show ?case
  proof (cases "length xs < n")
    case True
    then show ?thesis by (simp add: blocks_short left_over_short)
  next
    case False
    define p r where "p = take n xs" and "r = drop n xs"
    have x: "xs = p @ r" and l: "length p = n" using False by (simp_all add: p_def r_def)
    have IH: "blocks n (r @ ys) = blocks n r @ blocks n (left_over n r @ ys)"
      using 1 False by (simp add: r_def)
    show ?thesis unfolding x append_assoc blocks_block [OF l \<open>0 < n\<close>]
        left_over_block [OF l \<open>0 < n\<close>] using IH by simp
  qed
qed

lemma fold_one_block: "length b = n \<Longrightarrow> 0 < n \<Longrightarrow> fold f (blocks n b) st = f b st"
  using blocks_block [of b n "[]"] by (simp add: blocks_short)

lemma fold_two_blocks: "length b = n \<Longrightarrow> length b' = n \<Longrightarrow> 0 < n \<Longrightarrow>
    fold f (blocks n (b @ b')) st = f b' (f b st)"
  by (simp add: blocks_block fold_one_block)

text \<open>The compressions of the padded rest of a message: one block where the length fits, or two.\<close>

lemma pad_fits:
  assumes "length p + 1 + l \<le> n" and "length lb = l"
  shows "fold f (blocks n (md_pad n l lb p)) st = f (p @ 0x80 # replicate (n - l - Suc (length p)) 0 @ lb) st"
proof -
  have "length p < n" using assms by simp
  then have "md_pad n l lb p = p @ 0x80 # replicate (n - l - Suc (length p)) 0 @ lb"
    using assms by (simp add: md_pad_def)
  moreover have "length (p @ 0x80 # replicate (n - l - Suc (length p)) (0 :: u8) @ lb) = n" using assms by simp
  ultimately show ?thesis using \<open>length p < n\<close> fold_one_block by (metis less_nat_zero_code neq0_conv)
qed

lemma pad_overflows:
  assumes "\<not> length p + 1 + l \<le> n" and "length p < n" and "length lb = l" and "l \<le> n"
  shows "fold f (blocks n (md_pad n l lb p)) st =
    f (replicate (n - l) 0 @ lb) (f (p @ 0x80 # replicate (n - Suc (length p)) 0) st)"
proof -
  have e: "2 * n - l - 1 - length p = (n - Suc (length p)) + (n - l)" using assms by linarith
  have "md_pad n l lb p = p @ 0x80 # replicate (2 * n - l - 1 - length p) 0 @ lb"
    using assms by (simp add: md_pad_def)
  then have "md_pad n l lb p =
      (p @ 0x80 # replicate (n - Suc (length p)) 0) @ (replicate (n - l) 0 @ lb)"
    unfolding e by (simp only: replicate_add append_assoc append_Cons)
  moreover have "length (p @ 0x80 # replicate (n - Suc (length p)) (0 :: u8)) = n"
    and "length (replicate (n - l) 0 @ lb) = n" and "0 < n" using assms by simp_all
  ultimately show ?thesis by (simp only: fold_two_blocks)
qed

lemma md_pad_left_over:
  assumes "0 < n"
  shows "blocks n (md_pad n l lb m) = blocks n m @ blocks n (md_pad n l lb (left_over n m))"
  using blocks_append [OF assms, of m] by (simp add: md_pad_def length_left_over [OF assms])

lemma digest_be32_eq: "digest_be32 w = be_bytes 4 w"
  by (simp add: digest_be32_def be_bytes_def eval_nat_numeral)

lemma digest_be64_eq: "digest_be64 w = be_bytes 8 w"
proof -
  have "rev [0..<8] = [7, 6, 5, 4, 3, 2, 1, 0 :: nat]" by (simp add: upt_rec)
  then have "digest_be64 w = [ucast (drop_bit 56 w), ucast (drop_bit 48 w), ucast (drop_bit 40 w),
      ucast (drop_bit 32 w), ucast (drop_bit 24 w), ucast (drop_bit 16 w), ucast (drop_bit 8 w), ucast w]"
    by (simp only: digest_be64_def) simp
  then show ?thesis by (simp add: be_bytes_def eval_nat_numeral)
qed

lemma final256_eq:
  assumes ok: "ok256 c"
  shows "snd (uiox_ks_sha256_final c) = concat (map (be_bytes 4)
     (fold ks_sha256_transform (blocks 64 (md_pad 64 8 (be_bytes 8 (sha_bits c)) (pend256 c))) (sha_state c)))"
proof -
  define i where "i = unat (sha_buf_len c)"
  define b1 where "b1 = (sha_buf c)[i := 0x80]"
  have i: "i < 64" and lb: "length (sha_buf c) = 64" using ok by (auto simp: ok256_def i_def)
  have lp: "length (pend256 c) = i" using i lb by (simp add: pend256_def i_def)
  have b1: "b1 = pend256 c @ 0x80 # drop (Suc i) (sha_buf c)"
    using i lb by (simp add: b1_def pend256_def i_def upd_conv_take_nth_drop)
  then have t1: "take (Suc i) b1 = pend256 c @ [0x80]" and l1: "length b1 = 64"
    using i lb by (simp_all add: lp)
  show ?thesis
  proof (cases "Suc i > 56")
    case True
    define z where "z = zero_upto (Suc i) 64 b1"
    have z: "z = pend256 c @ 0x80 # replicate (64 - Suc i) 0"
      using i by (simp add: z_def zero_upto_eq l1 t1)
    then have lz: "length z = 64" using i by (simp add: lp)
    have "store_be64 56 (sha_bits c) (zero_upto 0 56 z) = replicate 56 0 @ be_bytes 8 (sha_bits c)"
      by (simp add: zero_upto_eq lz store_be64_eq)
    then have "snd (uiox_ks_sha256_final c) = concat (map digest_be32
        (ks_sha256_transform (replicate 56 0 @ be_bytes 8 (sha_bits c)) (ks_sha256_transform z (sha_state c))))"
      using True by (simp add: uiox_ks_sha256_final_def Let_def i_def [symmetric] b1_def [symmetric]
          z_def [symmetric])
    moreover have "fold ks_sha256_transform (blocks 64 (md_pad 64 8 (be_bytes 8 (sha_bits c)) (pend256 c))) (sha_state c)
        = ks_sha256_transform (replicate 56 0 @ be_bytes 8 (sha_bits c)) (ks_sha256_transform z (sha_state c))"
      using True i by (subst pad_overflows) (simp_all add: lp z)
    ultimately show ?thesis by (simp add: digest_be32_eq [abs_def])
  next
    case False
    have "store_be64 56 (sha_bits c) (zero_upto (Suc i) 56 b1)
        = pend256 c @ 0x80 # replicate (56 - Suc i) 0 @ be_bytes 8 (sha_bits c)" (is "?b = ?r")
      using False i by (simp add: zero_upto_eq l1 t1 store_be64_eq lp take_Cons')
    then have "snd (uiox_ks_sha256_final c) = concat (map digest_be32 (ks_sha256_transform ?r (sha_state c)))"
      using False by (simp add: uiox_ks_sha256_final_def Let_def i_def [symmetric] b1_def [symmetric])
    moreover have "fold ks_sha256_transform (blocks 64 (md_pad 64 8 (be_bytes 8 (sha_bits c)) (pend256 c))) (sha_state c)
        = ks_sha256_transform ?r (sha_state c)"
      using False by (subst pad_fits) (simp_all add: lp)
    ultimately show ?thesis by (simp add: digest_be32_eq [abs_def])
  qed
qed

lemma final384_eq:
  assumes ok: "ok384 c"
  shows "snd (uiox_ks_sha384_final c) = concat (map (be_bytes 8) (take 6
     (fold ks_sha384_transform (blocks 128 (md_pad 128 16 (be_bytes 8 (sha5_hi c) @ be_bytes 8 (sha5_lo c))
        (pend384 c))) (sha5_state c))))"
proof -
  define i where "i = unat (sha5_buf_len c)"
  define b1 where "b1 = (sha5_buf c)[i := 0x80]"
  define lb where "lb = be_bytes 8 (sha5_hi c) @ be_bytes 8 (sha5_lo c)"
  have i: "i < 128" and lbuf: "length (sha5_buf c) = 128" using ok by (auto simp: ok384_def i_def)
  have lp: "length (pend384 c) = i" using i lbuf by (simp add: pend384_def i_def)
  have b1: "b1 = pend384 c @ 0x80 # drop (Suc i) (sha5_buf c)"
    using i lbuf by (simp add: b1_def pend384_def i_def upd_conv_take_nth_drop)
  then have t1: "take (Suc i) b1 = pend384 c @ [0x80]" and l1: "length b1 = 128"
    using i lbuf by (simp_all add: lp)
  have ll: "length lb = 16" by (simp add: lb_def)
  have st2: "store_be64 120 (sha5_lo c) (store_be64 112 (sha5_hi c) b) = take 112 b @ lb"
    if "length b = 128" for b using that by (simp add: store_be64_eq lb_def)
  show ?thesis unfolding lb_def [symmetric]
  proof (cases "Suc i > 112")
    case True
    define z where "z = zero_upto (Suc i) 128 b1"
    have z: "z = pend384 c @ 0x80 # replicate (128 - Suc i) 0"
      using i by (simp add: z_def zero_upto_eq l1 t1)
    then have lz: "length z = 128" using i by (simp add: lp)
    have "store_be64 120 (sha5_lo c) (store_be64 112 (sha5_hi c) (zero_upto 0 112 z)) = replicate 112 0 @ lb"
      by (subst st2) (simp_all add: zero_upto_eq lz)
    then have "snd (uiox_ks_sha384_final c) = concat (map digest_be64 (take 6
        (ks_sha384_transform (replicate 112 0 @ lb) (ks_sha384_transform z (sha5_state c)))))"
      using True by (simp add: uiox_ks_sha384_final_def Let_def i_def [symmetric] b1_def [symmetric]
          z_def [symmetric])
    moreover have "fold ks_sha384_transform (blocks 128 (md_pad 128 16 lb (pend384 c))) (sha5_state c)
        = ks_sha384_transform (replicate 112 0 @ lb) (ks_sha384_transform z (sha5_state c))"
      using True i by (subst pad_overflows) (simp_all add: lp z ll)
    ultimately show "snd (uiox_ks_sha384_final c) = concat (map (be_bytes 8) (take 6
        (fold ks_sha384_transform (blocks 128 (md_pad 128 16 lb (pend384 c))) (sha5_state c))))"
      by (simp add: digest_be64_eq [abs_def])
  next
    case False
    have zu: "zero_upto (Suc i) 112 b1 = pend384 c @ 0x80 # replicate (112 - Suc i) 0 @ drop 112 b1"
      using False i by (simp add: zero_upto_eq l1 t1)
    have "store_be64 120 (sha5_lo c) (store_be64 112 (sha5_hi c) (zero_upto (Suc i) 112 b1))
        = pend384 c @ 0x80 # replicate (112 - Suc i) 0 @ lb" (is "?b = ?r")
      unfolding zu using False i by (subst st2) (simp_all add: l1 lp take_Cons')
    then have "snd (uiox_ks_sha384_final c) = concat (map digest_be64 (take 6 (ks_sha384_transform ?r (sha5_state c))))"
      using False by (simp add: uiox_ks_sha384_final_def Let_def i_def [symmetric] b1_def [symmetric])
    moreover have "fold ks_sha384_transform (blocks 128 (md_pad 128 16 lb (pend384 c))) (sha5_state c)
        = ks_sha384_transform ?r (sha5_state c)"
      using False by (subst pad_fits) (simp_all add: lp ll)
    ultimately show "snd (uiox_ks_sha384_final c) = concat (map (be_bytes 8) (take 6
        (fold ks_sha384_transform (blocks 128 (md_pad 128 16 lb (pend384 c))) (sha5_state c))))"
      by (simp add: digest_be64_eq [abs_def])
  qed
qed

section \<open>Streaming equals the standard\<close>

lemma put256_bits [simp]:
  "fold sha256_put d (c\<lparr>sha_bits := n\<rparr>) = (fold sha256_put d c)\<lparr>sha_bits := n\<rparr>"
proof -
  have "sha256_put b (c\<lparr>sha_bits := n\<rparr>) = (sha256_put b c)\<lparr>sha_bits := n\<rparr>" for b c
    by (simp add: sha256_put_def Let_def)
  then show ?thesis by (induction d arbitrary: c) simp_all
qed

lemma put256_keeps_bits [simp]: "sha_bits (fold sha256_put d c) = sha_bits c"
proof -
  have "sha_bits (sha256_put b c) = sha_bits c" for b c by (simp add: sha256_put_def Let_def)
  then show ?thesis by (induction d arbitrary: c) simp_all
qed

lemma pend256_bits [simp]: "pend256 (c\<lparr>sha_bits := n\<rparr>) = pend256 c" "ok256 (c\<lparr>sha_bits := n\<rparr>) = ok256 c"
  by (simp_all add: pend256_def ok256_def)

lemma updates256:
  "fold uiox_ks_sha256_update ds c =
     (fold sha256_put (concat ds) c)\<lparr>sha_bits := sha_bits c + of_nat (length (concat ds) * 8)\<rparr>"
  by (induction ds arbitrary: c) (simp_all add: uiox_ks_sha256_update_def algebra_simps)

lemma stream256:
  assumes "length (sha_buf c) = 64"
  shows "snd (uiox_ks_sha256_final (fold uiox_ks_sha256_update ds (uiox_ks_sha256_init c)))
    = sha256_spec (concat ds)"
proof -
  define c0 where "c0 = uiox_ks_sha256_init c"
  define m where "m = concat ds"
  have ok: "ok256 c0" and p: "pend256 c0 = []" and st: "sha_state c0 = KS_H0_256" and b: "sha_bits c0 = 0"
    using assms by (simp_all add: c0_def uiox_ks_sha256_init_def ok256_def pend256_def)
  define c1 where "c1 = fold uiox_ks_sha256_update ds c0"
  have c1: "c1 = (fold sha256_put m c0)\<lparr>sha_bits := of_nat (length m * 8)\<rparr>"
    by (simp only: c1_def updates256 m_def b add_0_left)
  have fin: "pend256 c1 = left_over 64 m" "sha_state c1 = fold ks_sha256_transform (blocks 64 m) KS_H0_256"
    "sha_bits c1 = of_nat (length m * 8)" "ok256 c1"
    using s256.fold_put_stream [OF ok, of m] s256.fold_put_ok [OF ok, of m]
    by (simp_all add: c1 p st)
  show ?thesis unfolding c0_def [symmetric] c1_def [symmetric] m_def [symmetric] final256_eq [OF fin(4)] fin
    unfolding sha256_spec_def md_pad_left_over [of 64 8 "be_bytes 8 (of_nat (length m * 8) :: u64)" m, OF zero_less_numeral]
    by (simp only: fold_append o_def)
qed

text \<open>C9: SHA-256 does not depend on how a message is cut into updates: with the 64-byte buffer, the
  digest after any sequence of updates is the digest of the standard (padding, block-by-block
  compression) of the concatenated message.
\<close>

theorem sha256_streaming_correct:
  assumes "length (sha_buf c) = 64"
  shows "snd (uiox_ks_sha256_final (fold uiox_ks_sha256_update ds (uiox_ks_sha256_init c)))
    = sha256_spec (concat ds)"
  using assms by (rule stream256)

theorem sha256_streaming_correct_witness:
  "snd (uiox_ks_sha256_final (fold uiox_ks_sha256_update [[0x61], [], [0x62, 0x63]] (uiox_ks_sha256_init sha256_stack)))
    = sha256_spec [0x61, 0x62, 0x63]"
  using sha256_streaming_correct [of sha256_stack "[[0x61], [], [0x62, 0x63]]"]
  by (simp add: sha256_stack_def)

lemma put384_count [simp]:
  "fold sha384_put d (c\<lparr>sha5_lo := l, sha5_hi := h\<rparr>) = (fold sha384_put d c)\<lparr>sha5_lo := l, sha5_hi := h\<rparr>"
proof -
  have "sha384_put b (c\<lparr>sha5_lo := l, sha5_hi := h\<rparr>) = (sha384_put b c)\<lparr>sha5_lo := l, sha5_hi := h\<rparr>" for b c
    by (simp add: sha384_put_def Let_def)
  then show ?thesis by (induction d arbitrary: c) simp_all
qed

lemma put384_keeps_count [simp]:
  "sha5_lo (fold sha384_put d c) = sha5_lo c" "sha5_hi (fold sha384_put d c) = sha5_hi c"
proof -
  have "sha5_lo (sha384_put b c) = sha5_lo c \<and> sha5_hi (sha384_put b c) = sha5_hi c" for b c
    by (simp add: sha384_put_def Let_def)
  then show "sha5_lo (fold sha384_put d c) = sha5_lo c" "sha5_hi (fold sha384_put d c) = sha5_hi c"
    by (induction d arbitrary: c) simp_all
qed

lemma pend384_count [simp]:
  "pend384 (c\<lparr>sha5_lo := l, sha5_hi := h\<rparr>) = pend384 c" "ok384 (c\<lparr>sha5_lo := l, sha5_hi := h\<rparr>) = ok384 c"
  by (simp_all add: pend384_def ok384_def)

text \<open>The 128-bit number the two counter words stand for.\<close>

definition count384 :: "sha384_ctx \<Rightarrow> 128 word" where
  "count384 c = push_bit 64 (ucast (sha5_hi c)) + ucast (sha5_lo c)"

lemma count384_nat: "count384 c = of_nat (unat (sha5_hi c) * 2 ^ 64 + unat (sha5_lo c))"
  by (simp add: count384_def push_bit_eq_mult of_nat_unat)

lemma unat_add_cases:
  fixes a b :: u64
  shows "unat (a + b) = (if a + b < a then unat a + unat b - 2 ^ 64 else unat a + unat b)"
    and "a + b < a \<Longrightarrow> 2 ^ 64 \<le> unat a + unat b"
proof -
  have l: "unat a < 2 ^ 64" "unat b < 2 ^ 64" using unsigned_less [of a] unsigned_less [of b] by simp_all
  have s: "unat (a + b) = (unat a + unat b) mod 2 ^ 64" by (simp add: unat_word_ariths)
  have m: "(unat a + unat b) mod 2 ^ 64 =
      (if unat a + unat b < 2 ^ 64 then unat a + unat b else unat a + unat b - 2 ^ 64)"
    using l by (simp add: mod_if)
  have c: "a + b < a \<longleftrightarrow> \<not> unat a + unat b < 2 ^ 64"
    unfolding word_less_nat_alt s m using l by auto
  show "unat (a + b) = (if a + b < a then unat a + unat b - 2 ^ 64 else unat a + unat b)"
    unfolding c s m by simp
  show "a + b < a \<Longrightarrow> 2 ^ 64 \<le> unat a + unat b" unfolding c by simp
qed

lemma of_nat_128_mod: "(of_nat ((a mod 2 ^ 64) * 2 ^ 64 + b) :: 128 word) = of_nat (a * 2 ^ 64 + b)"
proof -
  have "(a mod 2 ^ 64) * 2 ^ 64 = (a * 2 ^ 64) mod (2 ^ 64 * 2 ^ 64 :: nat)" by (rule mult_mod_left)
  then have "((a mod 2 ^ 64) * 2 ^ 64 + b) mod 2 ^ 128 = (a * 2 ^ 64 + b) mod (2 ^ 128 :: nat)"
    by (simp add: mod_simps)
  then show ?thesis by (simp only: word_of_nat_eq_iff take_bit_eq_mod) simp
qed

lemma count384_add:
  assumes "n < 2 ^ 61"
  shows "count384 (sha384_count n c) = count384 c + of_nat (n * 8)"
proof -
  define lo hi k where "lo = sha5_lo c" and "hi = sha5_hi c" and "k = (of_nat (n * 8) :: u64)"
  have uk: "unat k = n * 8" unfolding k_def
    by (subst unat_of_nat) (use assms in simp)
  have k': "lo + of_nat n * 8 = lo + k" by (simp add: k_def mult.commute)
  have "count384 (sha384_count n c) =
      of_nat (unat (if lo + k < lo then hi + 1 else hi) * 2 ^ 64 + unat (lo + k))"
    by (simp only: count384_nat sha384_count_def Let_def lo_def [symmetric] hi_def [symmetric] k') simp
  also have "\<dots> = of_nat (unat hi * 2 ^ 64 + unat lo + n * 8)"
  proof (cases "lo + k < lo")
    case True
    have h: "unat (hi + 1) = (unat hi + 1) mod 2 ^ 64" by (simp add: unat_word_ariths)
    have "(unat hi + 1) * 2 ^ 64 + unat (lo + k) = unat hi * 2 ^ 64 + unat lo + n * 8"
      using True unat_add_cases [of lo k] uk by simp
    then show ?thesis using True by (simp only: if_True h of_nat_128_mod)
  next
    case False
    then show ?thesis using unat_add_cases(1) [of lo k] uk by (simp add: add.assoc)
  qed
  also have "\<dots> = count384 c + of_nat (n * 8)"
    by (simp only: count384_nat lo_def hi_def of_nat_add)
  finally show ?thesis .
qed

lemma le_bytes_cong:
  fixes w :: "'a::len word" and v :: "'b::len word"
  assumes "\<And>i. i < 8 * k \<Longrightarrow> bit w i = bit v i"
  shows "le_bytes k w = le_bytes k v"
  using assms
proof (induction k arbitrary: w v)
  case (Suc k)
  have "(ucast w :: u8) = ucast v"
    by (rule bit_eqI) (use Suc.prems in \<open>auto simp: bit_simps\<close>)
  moreover have "le_bytes k (drop_bit 8 w) = le_bytes k (drop_bit 8 v)"
    by (rule Suc.IH) (use Suc.prems in \<open>simp add: bit_simps\<close>)
  ultimately show ?case by simp
qed simp

lemma le_bytes_add: "le_bytes (m + n) w = le_bytes m w @ le_bytes n (drop_bit (8 * m) w)"
  by (induction m arbitrary: w) (simp_all add: drop_bit_drop_bit add.commute)

lemma bit_count384:
  "i < 128 \<Longrightarrow> bit (count384 c) i \<longleftrightarrow> (if i < 64 then bit (sha5_lo c) i else bit (sha5_hi c) (i - 64))"
proof -
  have "push_bit 64 (ucast (sha5_hi c)) AND ucast (sha5_lo c) = (0 :: 128 word)"
    by (rule bit_eqI) (auto simp: bit_simps dest: bit_imp_le_length)
  then have "count384 c = push_bit 64 (ucast (sha5_hi c)) OR ucast (sha5_lo c)"
    unfolding count384_def by (rule disjunctive_add_eq_or)
  then show "i < 128 \<Longrightarrow> ?thesis"
    by (auto simp: bit_simps dest: bit_imp_le_length)
qed

lemma be_bytes_count384: "be_bytes 16 (count384 c) = be_bytes 8 (sha5_hi c) @ be_bytes 8 (sha5_lo c)"
proof -
  have l: "le_bytes 8 (count384 c) = le_bytes 8 (sha5_lo c)"
    by (rule le_bytes_cong) (simp add: bit_count384)
  have h: "le_bytes 8 (drop_bit 64 (count384 c)) = le_bytes 8 (sha5_hi c)"
    by (rule le_bytes_cong) (simp add: bit_count384 bit_simps)
  show ?thesis using le_bytes_add [of 8 8 "count384 c"] l h by (simp add: be_bytes_def)
qed

lemma updates384:
  "\<forall>d \<in> set ds. length d < 2 ^ 61 \<Longrightarrow>
   \<exists>lo hi. fold uiox_ks_sha384_update ds c = (fold sha384_put (concat ds) c)\<lparr>sha5_lo := lo, sha5_hi := hi\<rparr>
     \<and> count384 (fold uiox_ks_sha384_update ds c) = count384 c + of_nat (length (concat ds) * 8)"
proof (induction ds arbitrary: c)
  case Nil
  show ?case by (intro exI [of _ "sha5_lo c"] exI [of _ "sha5_hi c"]) simp
next
  case (Cons d ds)
  define c' where "c' = uiox_ks_sha384_update d c"
  have l: "length d < 2 ^ 61" using Cons.prems by simp
  define lo hi where "lo = sha5_lo (sha384_count (length d) c)" and "hi = sha5_hi (sha384_count (length d) c)"
  have n: "sha384_count (length d) c = c\<lparr>sha5_lo := lo, sha5_hi := hi\<rparr>"
    by (simp add: lo_def hi_def sha384_count_def Let_def)
  have c': "c' = (fold sha384_put d c)\<lparr>sha5_lo := lo, sha5_hi := hi\<rparr>"
    by (simp add: c'_def uiox_ks_sha384_update_def n)
  have k: "count384 c' = count384 c + of_nat (length d * 8)"
    using count384_add [OF l, of c] by (simp only: c' n count384_def) simp
  obtain lo' hi' where IH: "fold uiox_ks_sha384_update ds c' =
      (fold sha384_put (concat ds) c')\<lparr>sha5_lo := lo', sha5_hi := hi'\<rparr>"
    and k': "count384 (fold uiox_ks_sha384_update ds c') = count384 c' + of_nat (length (concat ds) * 8)"
    using Cons.IH [of c'] Cons.prems by auto
  have "fold uiox_ks_sha384_update (d # ds) c =
      (fold sha384_put (concat (d # ds)) c)\<lparr>sha5_lo := lo', sha5_hi := hi'\<rparr>"
    by (simp add: c'_def [symmetric] IH) (simp add: c')
  moreover have "count384 (fold uiox_ks_sha384_update (d # ds) c) =
      count384 c + of_nat (length (concat (d # ds)) * 8)"
    using k' by (simp add: c'_def [symmetric] k algebra_simps)
  ultimately show ?case by blast
qed

text \<open>The same for SHA-384 and its two-word counter: as long as no single update has 2^61 bytes
  or more (so that its bit count fits in a word), the digest is the one of the standard, with the
  length of the whole message modulo 2^128.
\<close>

theorem sha384_streaming_correct:
  assumes "length (sha5_buf c) = 128" and "\<forall>d \<in> set ds. length d < 2 ^ 61"
  shows "snd (uiox_ks_sha384_final (fold uiox_ks_sha384_update ds (uiox_ks_sha384_init c)))
    = sha384_spec (concat ds)"
proof -
  define c0 where "c0 = uiox_ks_sha384_init c"
  define m where "m = concat ds"
  have ok: "ok384 c0" and p: "pend384 c0 = []" and st: "sha5_state c0 = KS_H0_384"
    and b: "count384 c0 = 0"
    using assms by (simp_all add: c0_def uiox_ks_sha384_init_def ok384_def pend384_def count384_def)
  define c1 where "c1 = fold uiox_ks_sha384_update ds c0"
  obtain lo hi where c1: "c1 = (fold sha384_put m c0)\<lparr>sha5_lo := lo, sha5_hi := hi\<rparr>"
    and k: "count384 c1 = of_nat (length m * 8)"
    using updates384 [OF assms(2), of c0] b by (auto simp: c1_def m_def)
  have fin: "pend384 c1 = left_over 128 m" "sha5_state c1 = fold ks_sha384_transform (blocks 128 m) KS_H0_384"
    "ok384 c1"
    using s384.fold_put_stream [OF ok, of m] s384.fold_put_ok [OF ok, of m]
    by (simp_all add: c1 p st)
  show ?thesis unfolding c0_def [symmetric] c1_def [symmetric] m_def [symmetric] final384_eq [OF fin(3)] fin(1,2)
      be_bytes_count384 [symmetric] k
    unfolding sha384_spec_def md_pad_left_over [of 128 16 "be_bytes 16 (of_nat (length m * 8) :: 128 word)" m, OF zero_less_numeral]
    by (simp only: fold_append o_def)
qed

theorem sha384_streaming_correct_witness:
  "snd (uiox_ks_sha384_final (fold uiox_ks_sha384_update [[0x61], [], [0x62, 0x63]] (uiox_ks_sha384_init sha384_stack)))
    = sha384_spec [0x61, 0x62, 0x63]"
  using sha384_streaming_correct [of sha384_stack "[[0x61], [], [0x62, 0x63]]"]
  by (simp add: sha384_stack_def)

lemma uiox_ks_sha256_spec: "uiox_ks_sha256 d = sha256_spec d"
  using stream256 [of sha256_stack "[d]"] by (simp add: uiox_ks_sha256_def sha256_stack_def)

lemma length_sha256_spec [simp]: "length (sha256_spec d) = 32"
proof -
  have "length (work_add st w) = 8" for st :: "u32 list" and w
    by (induction st w rule: work_add.induct) simp
  then have "length (ks_sha256_transform b st) = 8" for b st
    by (simp add: ks_sha256_transform_def Let_def)
  then have "length (fold ks_sha256_transform bls st) = 8" if "length st = 8" for bls st
    using that by (induction bls arbitrary: st) simp_all
  then have "length (fold ks_sha256_transform bls KS_H0_256) = 8" for bls
    by (simp add: KS_H0_256_def)
  then show ?thesis by (simp add: sha256_spec_def length_concat o_def sum_list_triv)
qed

lemma length_uiox_ks_sha256 [simp]: "length (uiox_ks_sha256 d) = 32"
  by (simp add: uiox_ks_sha256_spec)

section \<open>HMAC, comparison and the signature checks\<close>

definition uiox_ks_hmac_sha256 :: "u8 list \<Rightarrow> u8 list \<Rightarrow> u8 list" where
  "uiox_ks_hmac_sha256 key d =
     (let k = (if 64 < length key then put_bytes 0 (uiox_ks_sha256 key) (replicate 64 0)
               else put_bytes 0 key (replicate 64 0));
          ipad = map (\<lambda>b. b XOR 0x36) k;
          opad = map (\<lambda>b. b XOR 0x5C) k;
          c = uiox_ks_sha256_update d (uiox_ks_sha256_update ipad (uiox_ks_sha256_init sha256_stack));
          (c', inner) = uiox_ks_sha256_final c
      in snd (uiox_ks_sha256_final (uiox_ks_sha256_update inner
           (uiox_ks_sha256_update opad (uiox_ks_sha256_init c')))))"

text \<open>All differences are collected, so the loop takes the same steps for every input.\<close>

definition ks_memcmp :: "u8 list \<Rightarrow> u8 list \<Rightarrow> nat \<Rightarrow> u8" where
  "ks_memcmp a b n = fold (\<lambda>i acc. acc OR (a ! i XOR b ! i)) [0..<n] 0"

definition uiox_ks_ct_memcmp :: "u8 list \<Rightarrow> u8 list \<Rightarrow> nat \<Rightarrow> int" where
  "uiox_ks_ct_memcmp a b n = (if ks_memcmp a b n \<noteq> 0 then 1 else 0)"

lemma or_eq_0_iff: "(a :: 'a::len word) OR b = 0 \<longleftrightarrow> a = 0 \<and> b = 0"
  by (auto simp: bit_eq_iff bit_simps)

lemma xor_eq_0_iff: "(a :: 'a::len word) XOR b = 0 \<longleftrightarrow> a = b"
  by (auto simp: bit_eq_iff bit_simps)

lemma ks_memcmp_0: "ks_memcmp a b n = 0 \<longleftrightarrow> (\<forall>i<n. a ! i = b ! i)"
proof -
  have "fold (\<lambda>i acc. acc OR (a ! i XOR b ! i)) is z = 0 \<longleftrightarrow> z = 0 \<and> (\<forall>i \<in> set is. a ! i = b ! i)"
    for "is" z by (induction "is" arbitrary: z) (auto simp: or_eq_0_iff xor_eq_0_iff)
  then show ?thesis by (auto simp: ks_memcmp_def)
qed

lemma ks_memcmp_eq: "length a = n \<Longrightarrow> length b = n \<Longrightarrow> ks_memcmp a b n = 0 \<longleftrightarrow> a = b"
  by (auto simp: ks_memcmp_0 list_eq_iff_nth_eq)

lemma ct_memcmp_0: "uiox_ks_ct_memcmp a b n = 0 \<longleftrightarrow> ks_memcmp a b n = 0"
  by (simp add: uiox_ks_ct_memcmp_def)

text \<open>
  HMAC by its definition: the key, hashed when longer than a block, is filled with zeros to a
  block; two hashes over the key with the inner and outer pattern.
\<close>

definition hmac_key :: "u8 list \<Rightarrow> u8 list" where
  "hmac_key key = (let k = (if length key \<le> 64 then key else sha256_spec key) in k @ replicate (64 - length k) 0)"

definition hmac_spec :: "u8 list \<Rightarrow> u8 list \<Rightarrow> u8 list" where
  "hmac_spec key d = sha256_spec (map (\<lambda>b. b XOR 0x5C) (hmac_key key) @
     sha256_spec (map (\<lambda>b. b XOR 0x36) (hmac_key key) @ d))"

lemma length_hmac_key: "length (hmac_key key) = 64"
  by (simp add: hmac_key_def Let_def)

lemma length_zero_upto [simp]: "length (zero_upto i n buf) = length buf"
proof -
  have "length (fold (\<lambda>j b. b[j := 0]) js buf) = length buf" for js :: "nat list" and buf :: "u8 list"
    by (induction js arbitrary: buf) simp_all
  then show ?thesis by (simp add: zero_upto_def)
qed

lemma length_store_be64 [simp]: "length (store_be64 p w buf) = length buf"
proof -
  have "length (snd (fold (\<lambda>j (bc, b). (drop_bit 8 bc, b[p + j := ucast bc])) js (w, buf))) = length buf"
    for js :: "nat list" and buf :: "u8 list" and w :: u64
    by (induction js arbitrary: buf w) simp_all
  then show ?thesis by (simp add: store_be64_def)
qed

lemma final256_buf: "length (sha_buf (fst (uiox_ks_sha256_final c))) = length (sha_buf c)"
  by (simp add: uiox_ks_sha256_final_def Let_def)

lemma update256_buf: "length (sha_buf (uiox_ks_sha256_update d c)) = length (sha_buf c)"
proof -
  have "length (sha_buf (sha256_put b c)) = length (sha_buf c)" for b c by (simp add: sha256_put_def Let_def)
  then have "length (sha_buf (fold sha256_put d c)) = length (sha_buf c)" for d c
    by (induction d arbitrary: c) simp_all
  then show ?thesis by (simp add: uiox_ks_sha256_update_def)
qed

text \<open>\<open>uiox_ks_hmac_sha256\<close>, which keeps one context for both passes, is HMAC of its definition
  over the hash of the standard.
\<close>

theorem hmac_sha256_correct:
  "uiox_ks_hmac_sha256 key d = hmac_spec key d"
proof -
  have z: "put_bytes 0 xs (replicate 64 0) = xs @ replicate (64 - length xs) (0 :: u8)" for xs
    by (simp add: put_bytes_def)
  have k: "(if 64 < length key then put_bytes 0 (uiox_ks_sha256 key) (replicate 64 0)
      else put_bytes 0 key (replicate 64 0)) = hmac_key key"
    by (auto simp: hmac_key_def z uiox_ks_sha256_spec Let_def)
  define ip where "ip = map (\<lambda>b. b XOR 0x36) (hmac_key key)"
  define op where "op = map (\<lambda>b. b XOR 0x5C) (hmac_key key)"
  have two: "snd (uiox_ks_sha256_final (uiox_ks_sha256_update y (uiox_ks_sha256_update x (uiox_ks_sha256_init c))))
      = sha256_spec (x @ y)" if "length (sha_buf c) = 64" for x y c
    using stream256 [OF that, of "[x, y]"] by simp
  have b0: "length (sha_buf sha256_stack) = 64" by (simp add: sha256_stack_def)
  obtain c' inner where f: "uiox_ks_sha256_final (uiox_ks_sha256_update d
      (uiox_ks_sha256_update ip (uiox_ks_sha256_init sha256_stack))) = (c', inner)" by fastforce
  have inner: "inner = sha256_spec (ip @ d)" using two [OF b0, of d ip] f by simp
  have b1: "length (sha_buf c') = 64" using final256_buf [of "uiox_ks_sha256_update d (uiox_ks_sha256_update ip (uiox_ks_sha256_init sha256_stack))"]
      update256_buf f b0 by (simp add: uiox_ks_sha256_init_def)
  show ?thesis
    unfolding uiox_ks_hmac_sha256_def Let_def k ip_def [symmetric] op_def [symmetric] f
    by (simp add: two [OF b1] inner hmac_spec_def ip_def op_def)
qed

text \<open>
  The public-key checks.  Both compare (part of) the signature with a hash of the digest and a
  constant; the key is not used.  \<open>rsa_pubkey\<close> and \<open>ecdsa_pubkey\<close> are the key structures, \<open>sig\<close>
  the bytes the signature pointer leads to; \<open>None\<close> means that bytes outside \<open>sig\<close> are read.
\<close>

record rsa_pubkey =
  modulus :: "u8 list"
  modulus_len :: u32
  exponent :: u32

record ecdsa_pubkey =
  ec_xy :: "u8 list"

datatype ks_err = KS_OK | KS_INVAL | KS_NOMEM | KS_BADMAGIC | KS_BADVERSION | KS_HASH | KS_SIG
  | KS_CERT | KS_REVOKED | KS_ROLLBACK | KS_NOTFOUND | KS_EXPIRED | KS_TAMPERED | KS_UNSUP | KS_IO

definition bytes_at :: "u8 list \<Rightarrow> nat \<Rightarrow> nat \<Rightarrow> u8 list option" where
  "bytes_at buf p n = (if p + n \<le> length buf then Some (slice p n buf) else None)"

definition rsa_salt :: "u8 list" where
  "rsa_salt = [0x55, 0x49, 0x4F, 0x58, 0x5F, 0x53, 0x49, 0x47]"

definition ecdsa_salt :: "u8 list" where
  "ecdsa_salt = [0x55, 0x49, 0x4F, 0x58, 0x5F, 0x45, 0x43]"

definition uiox_ks_rsa_verify :: "rsa_pubkey \<Rightarrow> u8 list \<Rightarrow> u32 \<Rightarrow> u8 list \<Rightarrow> ks_err option" where
  "uiox_ks_rsa_verify key sig sig_len digest =
     (if sig_len = 0 then Some KS_INVAL
      else if sig_len < 32 then Some KS_SIG
      else let expected = snd (uiox_ks_sha256_final (uiox_ks_sha256_update rsa_salt
                  (uiox_ks_sha256_update (take 32 digest) (uiox_ks_sha256_init sha256_stack))))
           in case bytes_at sig (unat sig_len - 32) 32 of
                None \<Rightarrow> None
              | Some tail \<Rightarrow> Some (if uiox_ks_ct_memcmp tail expected 32 = 0 then KS_OK else KS_SIG))"

definition uiox_ks_ecdsa_verify :: "ecdsa_pubkey \<Rightarrow> u8 list \<Rightarrow> u8 list \<Rightarrow> ks_err option" where
  "uiox_ks_ecdsa_verify key sig digest =
     (let expected = snd (uiox_ks_sha256_final (uiox_ks_sha256_update ecdsa_salt
                (uiox_ks_sha256_update (take 32 digest) (uiox_ks_sha256_init sha256_stack))))
      in case bytes_at sig 0 32 of
           None \<Rightarrow> None
         | Some hd32 \<Rightarrow> Some (if uiox_ks_ct_memcmp hd32 expected 32 = 0 then KS_OK else KS_SIG))"

lemma two_updates_spec:
  "snd (uiox_ks_sha256_final (uiox_ks_sha256_update y (uiox_ks_sha256_update x (uiox_ks_sha256_init sha256_stack))))
    = sha256_spec (x @ y)"
  using stream256 [of sha256_stack "[x, y]"] by (simp add: sha256_stack_def)

lemma rsa_verify_alt:
  assumes "32 \<le> unat sig_len" and "unat sig_len \<le> length sig" and "length digest = 32"
  shows "uiox_ks_rsa_verify key sig sig_len digest =
    Some (if slice (unat sig_len - 32) 32 sig = sha256_spec (digest @ rsa_salt) then KS_OK else KS_SIG)"
proof -
  have "sig_len \<noteq> 0" and "\<not> sig_len < 32" using assms by (auto simp: word_less_nat_alt)
  moreover have "length (slice (unat sig_len - 32) 32 sig) = 32" using assms by (simp add: length_slice)
  ultimately show ?thesis using assms
    by (simp add: uiox_ks_rsa_verify_def two_updates_spec bytes_at_def ct_memcmp_0 ks_memcmp_eq Let_def)
qed

end
