(* ===== verification/Ksign.thy ===== *)
theory Ksign
  imports Sha
begin

text \<open>
  The key store and the measurement log of the kernel's signature module
  (30_KIX/33_PCS/03_ksign/src/uiox_kix_ksign_key.c and uiox_kix_ksign_measure.c).
  The static array of keys is the list of its first \<open>key_count\<close> entries, and the log likewise; the
  pointer to the revocation list is an option.  The NULL checks of the contexts themselves are
  left out: a context is a value here.
\<close>

section \<open>Keys\<close>

definition UIOX_KS_KEY_MAGIC :: u32 where "UIOX_KS_KEY_MAGIC = 0x554B4B45"
definition UIOX_KS_KRL_MAGIC :: u32 where "UIOX_KS_KRL_MAGIC = 0x554B4B52"
definition UIOX_KS_LOG_MAGIC :: u32 where "UIOX_KS_LOG_MAGIC = 0x554B4C47"
definition UIOX_KS_MAX_KEYS :: nat where "UIOX_KS_MAX_KEYS = 16"
definition UIOX_KS_KRL_MAX_ENTRIES :: nat where "UIOX_KS_KRL_MAX_ENTRIES = 64"

definition UIOX_KS_ALG_RSA2048_SHA256 :: u32 where "UIOX_KS_ALG_RSA2048_SHA256 = 1"
definition UIOX_KS_ALG_RSA4096_SHA256 :: u32 where "UIOX_KS_ALG_RSA4096_SHA256 = 2"
definition UIOX_KS_ALG_ECDSA_P256 :: u32 where "UIOX_KS_ALG_ECDSA_P256 = 3"

record key_entry =
  ke_magic :: u32
  ke_version :: u32
  ke_name :: "u8 list"
  key_id :: "u8 list"
  ke_alg :: u32
  ke_usage :: u32
  not_before :: u64
  not_after :: u64
  ke_serial :: u32
  ke_rsa :: rsa_pubkey
  ke_ecdsa :: ecdsa_pubkey
  issuer_key_id :: "u8 list"
  issuer_sig :: "u8 list"
  issuer_sig_len :: u32
  is_root :: bool
  ke_active :: bool

record krl =
  krl_magic :: u32
  krl_version :: u32
  krl_count :: u32
  issued_at :: u64
  revoked_key_ids :: "u8 list list"
  revoked_serials :: "u32 list"
  krl_sig :: "u8 list"
  krl_sig_len :: u32
  krl_hash :: "u8 list"

record keystore =
  ks_keys :: "key_entry list"
  ks_krl :: "krl option"
  rot_key_id :: "u8 list"
  ks_initialized :: bool

definition uiox_ks_keystore_init :: "u8 list \<Rightarrow> keystore" where
  "uiox_ks_keystore_init rot =
     \<lparr>ks_keys = [], ks_krl = None, rot_key_id = rot, ks_initialized = True\<rparr>"

definition uiox_ks_keystore_add :: "key_entry \<Rightarrow> keystore \<Rightarrow> keystore \<times> ks_err" where
  "uiox_ks_keystore_add e ks =
     (if \<not> ks_initialized ks then (ks, KS_INVAL)
      else if UIOX_KS_MAX_KEYS \<le> length (ks_keys ks) then (ks, KS_NOMEM)
      else if ke_magic e \<noteq> UIOX_KS_KEY_MAGIC then (ks, KS_BADMAGIC)
      else (ks\<lparr>ks_keys := ks_keys ks @ [e]\<rparr>, KS_OK))"

definition uiox_ks_keystore_find :: "keystore \<Rightarrow> u8 list \<Rightarrow> key_entry option" where
  "uiox_ks_keystore_find ks kid =
     (if \<not> ks_initialized ks then None
      else find (\<lambda>e. ks_memcmp (key_id e) kid 32 = 0) (ks_keys ks))"

definition uiox_ks_keystore_set_krl :: "krl \<Rightarrow> keystore \<Rightarrow> keystore \<times> ks_err" where
  "uiox_ks_keystore_set_krl k ks =
     (if krl_magic k \<noteq> UIOX_KS_KRL_MAGIC then (ks, KS_BADMAGIC) else (ks\<lparr>ks_krl := Some k\<rparr>, KS_OK))"

text \<open>The scan of the revocation list, and the whole check with its out-flag \<open>expiry_checked\<close>.\<close>

definition krl_hit :: "krl \<Rightarrow> key_entry \<Rightarrow> nat \<Rightarrow> bool" where
  "krl_hit k e i \<longleftrightarrow> ks_memcmp (revoked_key_ids k ! i) (key_id e) 32 = 0
     \<or> (revoked_serials k ! i = ke_serial e \<and> ke_serial e \<noteq> 0)"

definition krl_revokes :: "krl \<Rightarrow> key_entry \<Rightarrow> bool" where
  "krl_revokes k e \<longleftrightarrow> list_ex (krl_hit k e) [0..<min (unat (krl_count k)) UIOX_KS_KRL_MAX_ENTRIES]"

definition uiox_ks_key_check_valid :: "key_entry \<Rightarrow> krl option \<Rightarrow> u64 \<Rightarrow> ks_err \<times> bool" where
  "uiox_ks_key_check_valid e kl now_sec =
     (let checked = (0 < now_sec)
      in if checked \<and> now_sec < not_before e then (KS_EXPIRED, checked)
         else if checked \<and> 0 < not_after e \<and> not_after e < now_sec then (KS_EXPIRED, checked)
         else case kl of
             None \<Rightarrow> (KS_OK, checked)
           | Some k \<Rightarrow> if krl_magic k \<noteq> UIOX_KS_KRL_MAGIC then (KS_BADMAGIC, checked)
                       else if krl_revokes k e then (KS_REVOKED, checked)
                       else (KS_OK, checked))"

text \<open>One pass of the loop of \<open>uiox_ks_key_walk_chain\<close> per unit of the first argument.\<close>

primrec walk_chain :: "nat \<Rightarrow> keystore \<Rightarrow> u8 list \<Rightarrow> krl option \<Rightarrow> u64 \<Rightarrow> bool \<Rightarrow> ks_err \<times> bool" where
  "walk_chain 0 ks cur kl now_sec checked = (KS_CERT, checked)"
| "walk_chain (Suc n) ks cur kl now_sec checked =
     (case uiox_ks_keystore_find ks cur of
        None \<Rightarrow> (KS_NOTFOUND, checked)
      | Some e \<Rightarrow>
          (let (rc, this_checked) = uiox_ks_key_check_valid e kl now_sec;
               checked' = (this_checked \<or> checked)
           in if rc \<noteq> KS_OK then (rc, checked')
              else if is_root e
              then (if ks_memcmp (key_id e) (rot_key_id ks) 32 = 0 then (KS_OK, checked') else (KS_CERT, checked'))
              else walk_chain n ks (issuer_key_id e) kl now_sec checked'))"

definition uiox_ks_key_walk_chain :: "keystore \<Rightarrow> u8 list \<Rightarrow> krl option \<Rightarrow> u64 \<Rightarrow> ks_err \<times> bool" where
  "uiox_ks_key_walk_chain ks leaf kl now_sec =
     (if \<not> ks_initialized ks then (KS_INVAL, False)
      else walk_chain UIOX_KS_MAX_KEYS ks leaf kl now_sec False)"

text \<open>The key id, big-endian length and exponent included; an RSA modulus longer than its array is read past its end.\<close>

definition uiox_ks_compute_key_id :: "key_entry \<Rightarrow> u8 list option" where
  "uiox_ks_compute_key_id e =
     (let h = uiox_ks_sha256_init sha256_stack
      in if ke_alg e = UIOX_KS_ALG_ECDSA_P256
         then Some (snd (uiox_ks_sha256_final (uiox_ks_sha256_update (take 64 (ec_xy (ke_ecdsa e))) h)))
         else case bytes_at (modulus (ke_rsa e)) 0 (unat (modulus_len (ke_rsa e))) of
             None \<Rightarrow> None
           | Some md \<Rightarrow>
               (let be = digest_be32 (modulus_len (ke_rsa e)) @ digest_be32 (exponent (ke_rsa e))
                in Some (snd (uiox_ks_sha256_final (uiox_ks_sha256_update be (uiox_ks_sha256_update md h))))))"

declare walk_chain.simps [simp del]

section \<open>The certificate chain, as a relation\<close>

text \<open>
  A key is anchored in \<open>n\<close> steps when it is found and valid, and is the root that the
  one-time-programmable memory names, or its issuer is anchored in one step less.
\<close>

inductive anchored :: "keystore \<Rightarrow> krl option \<Rightarrow> u64 \<Rightarrow> nat \<Rightarrow> u8 list \<Rightarrow> bool"
  for ks kl now_sec where
  root: "uiox_ks_keystore_find ks kid = Some e \<Longrightarrow> fst (uiox_ks_key_check_valid e kl now_sec) = KS_OK \<Longrightarrow>
     is_root e \<Longrightarrow> ks_memcmp (key_id e) (rot_key_id ks) 32 = 0 \<Longrightarrow> anchored ks kl now_sec 0 kid"
| issued: "uiox_ks_keystore_find ks kid = Some e \<Longrightarrow> fst (uiox_ks_key_check_valid e kl now_sec) = KS_OK \<Longrightarrow>
     \<not> is_root e \<Longrightarrow> anchored ks kl now_sec n (issuer_key_id e) \<Longrightarrow> anchored ks kl now_sec (Suc n) kid"

lemma anchored_None: "uiox_ks_keystore_find ks kid = None \<Longrightarrow> \<not> anchored ks kl now_sec n kid"
  by (subst anchored.simps) simp

lemma anchored_Some:
  assumes "uiox_ks_keystore_find ks kid = Some e"
  shows "anchored ks kl now_sec n kid \<longleftrightarrow> fst (uiox_ks_key_check_valid e kl now_sec) = KS_OK \<and>
    (if is_root e then n = 0 \<and> ks_memcmp (key_id e) (rot_key_id ks) 32 = 0
     else \<exists>k. n = Suc k \<and> anchored ks kl now_sec k (issuer_key_id e))"
  by (subst anchored.simps) (use assms in auto)

lemma walk_chain_anchored:
  "fst (walk_chain n ks kid kl now_sec ch) = KS_OK \<longleftrightarrow> (\<exists>m<n. anchored ks kl now_sec m kid)"
proof (induction n arbitrary: kid ch)
  case 0
  then show ?case by (simp add: walk_chain.simps)
next
  case (Suc n)
  show ?case
  proof (cases "uiox_ks_keystore_find ks kid")
    case None
    then show ?thesis by (simp add: anchored_None walk_chain.simps)
  next
    case (Some e)
    define rc tc where "rc = fst (uiox_ks_key_check_valid e kl now_sec)"
      and "tc = snd (uiox_ks_key_check_valid e kl now_sec)"
    then have v: "uiox_ks_key_check_valid e kl now_sec = (rc, tc)" by simp
    note w = walk_chain.simps(2) [of n ks kid kl now_sec ch, unfolded Some option.case v prod.case Let_def]
    note a = anchored_Some [OF Some, of kl now_sec, unfolded v fst_conv]
    show ?thesis
    proof (cases "rc = KS_OK \<and> \<not> is_root e")
      case True
      then show ?thesis using Suc.IH [of "issuer_key_id e" "tc \<or> ch"] by (auto simp: w a)
    next
      case False
      then show ?thesis by (auto simp: w a)
    qed
  qed
qed

text \<open>C15: the chain walk accepts a key id exactly when the store is initialised and at most fifteen
  issuer steps lead from it, through keys that are found, in date and not revoked, to a root key
  with the id burned into the device.  A cycle of issuers is never accepted.
\<close>

theorem chain_walk_anchored:
  "fst (uiox_ks_key_walk_chain ks leaf kl now_sec) = KS_OK \<longleftrightarrow>
     ks_initialized ks \<and> (\<exists>m<16. anchored ks kl now_sec m leaf)"
  by (simp add: uiox_ks_key_walk_chain_def walk_chain_anchored UIOX_KS_MAX_KEYS_def)

text \<open>
  What the walk looks at in a key: its id, dates, serial number, issuer id and root flag.  Two
  stores that agree in these give the same answer, whatever the issuer signatures, usages, active
  flags, algorithms and public keys are.
\<close>

definition chain_view :: "key_entry \<Rightarrow> u8 list \<times> u64 \<times> u64 \<times> u32 \<times> u8 list \<times> bool" where
  "chain_view e = (key_id e, not_before e, not_after e, ke_serial e, issuer_key_id e, is_root e)"

lemma find_view:
  "map chain_view es = map chain_view es' \<Longrightarrow>
   map_option chain_view (find (\<lambda>e. ks_memcmp (key_id e) kid 32 = 0) es) =
   map_option chain_view (find (\<lambda>e. ks_memcmp (key_id e) kid 32 = 0) es')"
proof (induction es arbitrary: es')
  case (Cons e es)
  then obtain f fs where es': "es' = f # fs" "chain_view e = chain_view f" "map chain_view es = map chain_view fs"
    by (cases es') auto
  then have "key_id e = key_id f" by (simp add: chain_view_def)
  then show ?case using es' Cons.IH [of fs] by simp
qed simp

lemma krl_view: "chain_view e = chain_view f \<Longrightarrow> krl_revokes k e = krl_revokes k f"
  by (simp add: krl_revokes_def krl_hit_def chain_view_def list_ex_iff)

lemma valid_view:
  "chain_view e = chain_view f \<Longrightarrow> uiox_ks_key_check_valid e kl now_sec = uiox_ks_key_check_valid f kl now_sec"
  using krl_view [of e f] by (simp add: uiox_ks_key_check_valid_def chain_view_def Let_def split: option.split)

lemma walk_view:
  assumes "map chain_view (ks_keys ks) = map chain_view (ks_keys ks')"
    and "ks_initialized ks = ks_initialized ks'" and "rot_key_id ks = rot_key_id ks'"
  shows "walk_chain n ks kid kl now_sec ch = walk_chain n ks' kid kl now_sec ch"
proof (induction n arbitrary: kid ch)
  case (Suc n)
  have f: "map_option chain_view (uiox_ks_keystore_find ks kid) = map_option chain_view (uiox_ks_keystore_find ks' kid)"
    using find_view [OF assms(1), of kid] assms(2) by (simp add: uiox_ks_keystore_find_def)
  show ?case
  proof (cases "uiox_ks_keystore_find ks kid")
    case None
    then have "uiox_ks_keystore_find ks' kid = None" using f by simp
    with None show ?thesis by (simp add: walk_chain.simps)
  next
    case (Some e)
    then obtain e' where e': "uiox_ks_keystore_find ks' kid = Some e'" "chain_view e = chain_view e'"
      using f by (cases "uiox_ks_keystore_find ks' kid") auto
    then have "key_id e = key_id e'" "is_root e = is_root e'" "issuer_key_id e = issuer_key_id e'"
      by (simp_all add: chain_view_def)
    then show ?thesis using Some e' valid_view [OF e'(2)] Suc.IH assms(3)
      by (simp add: walk_chain.simps split_beta Let_def)
  qed
qed (simp add: walk_chain.simps)

text \<open>Certificates are not checked.  In a store with an accepted issuer and room for an entry, any
  new entry that names this issuer and is in date is accepted as a chain of trust, with any public
  key, any usage, inactive or not, and any issuer signature.
\<close>

theorem unsigned_certificate_accepted:
  assumes "ks_initialized ks" and "length (ks_keys ks) < 16"
    and "anchored ks kl now_sec m (issuer_key_id e)" and "m < 15"
    and "ke_magic e = UIOX_KS_KEY_MAGIC" and "\<not> is_root e"
    and "uiox_ks_keystore_find ks (key_id e) = None"
    and "fst (uiox_ks_key_check_valid e kl now_sec) = KS_OK"
  shows "snd (uiox_ks_keystore_add e ks) = KS_OK
    \<and> fst (uiox_ks_key_walk_chain (fst (uiox_ks_keystore_add e ks)) (key_id e) kl now_sec) = KS_OK"
proof -
  define ks' where "ks' = ks\<lparr>ks_keys := ks_keys ks @ [e]\<rparr>"
  have add: "uiox_ks_keystore_add e ks = (ks', KS_OK)"
    using assms by (simp add: uiox_ks_keystore_add_def ks'_def UIOX_KS_MAX_KEYS_def)
  have old: "uiox_ks_keystore_find ks' kid = Some f" if "uiox_ks_keystore_find ks kid = Some f" for kid f
    using that assms(1) by (auto simp: uiox_ks_keystore_find_def ks'_def find_append)
  have mono: "anchored ks' kl now_sec n kid" if "anchored ks kl now_sec n kid" for n kid
    using that
  proof induction
    case (root kid f)
    moreover have "rot_key_id ks' = rot_key_id ks" by (simp add: ks'_def)
    ultimately show ?case by (intro anchored.root [where e = f]) (simp_all add: old)
  next
    case (issued kid f n)
    then show ?case by (intro anchored.issued [where e = f]) (simp_all add: old)
  qed
  have "find (\<lambda>f. ks_memcmp (key_id f) (key_id e) 32 = 0) (ks_keys ks) = None"
    using assms(1,7) by (simp add: uiox_ks_keystore_find_def)
  then have new: "uiox_ks_keystore_find ks' (key_id e) = Some e"
    using assms(1) by (simp add: uiox_ks_keystore_find_def ks'_def find_append ks_memcmp_0)
  have "anchored ks' kl now_sec (Suc m) (key_id e)"
    using new assms(6,8) mono [OF assms(3)] by (intro anchored.issued)
  then show ?thesis using assms(1,4) add
    by (auto simp: uiox_ks_key_walk_chain_def walk_chain_anchored UIOX_KS_MAX_KEYS_def ks'_def
        intro!: exI [of _ "Suc m"])
qed

definition blank_key :: key_entry where
  "blank_key = \<lparr>ke_magic = UIOX_KS_KEY_MAGIC, ke_version = 2, ke_name = [], key_id = replicate 32 7,
     ke_alg = UIOX_KS_ALG_RSA2048_SHA256, ke_usage = 0, not_before = 0, not_after = 0, ke_serial = 0,
     ke_rsa = \<lparr>modulus = replicate 512 0, modulus_len = 0, exponent = 0\<rparr>,
     ke_ecdsa = \<lparr>ec_xy = replicate 64 0\<rparr>, issuer_key_id = replicate 32 1, issuer_sig = replicate 512 0,
     issuer_sig_len = 0, is_root = False, ke_active = False\<rparr>"

definition root_key :: key_entry where
  "root_key = blank_key\<lparr>key_id := replicate 32 1, is_root := True, ke_active := True\<rparr>"

definition root_store :: keystore where
  "root_store = \<lparr>ks_keys = [root_key], ks_krl = None, rot_key_id = replicate 32 1, ks_initialized = True\<rparr>"

lemma root_store_anchored: "anchored root_store None t 0 (replicate 32 1)"
  by (rule anchored.root [where e = root_key])
    (simp_all add: uiox_ks_keystore_find_def root_store_def root_key_def blank_key_def ks_memcmp_0
      uiox_ks_key_check_valid_def Let_def)

theorem unsigned_certificate_accepted_witness:
  "snd (uiox_ks_keystore_add blank_key root_store) = KS_OK
    \<and> fst (uiox_ks_key_walk_chain (fst (uiox_ks_keystore_add blank_key root_store)) (key_id blank_key) None 5) = KS_OK"
proof (rule unsigned_certificate_accepted)
  show "anchored root_store None 5 0 (issuer_key_id blank_key)"
    using root_store_anchored [of 5] by (simp add: blank_key_def)
qed (auto simp: uiox_ks_keystore_find_def root_store_def root_key_def blank_key_def ks_memcmp_0
      uiox_ks_key_check_valid_def Let_def intro: exI [of _ "0 :: nat"])

section \<open>Measurements\<close>

definition UIOX_KS_PCR_MAX :: nat where "UIOX_KS_PCR_MAX = 8"
definition UIOX_KS_LOG_MAX_ENTRIES :: nat where "UIOX_KS_LOG_MAX_ENTRIES = 64"
definition UIOX_KS_EVENT_NAME_LEN :: nat where "UIOX_KS_EVENT_NAME_LEN = 48"

record log_entry =
  le_pcr_index :: u32
  le_event_type :: u32
  le_event_name :: "u8 list"
  le_measurement :: "u8 list"
  le_pcr_after :: "u8 list"
  le_timestamp :: u64

text \<open>
  The measurement context.  The clock is a function pointer of the context; \<open>m_clock k\<close> is the time
  it returns when the log entry number \<open>k\<close> is written.
\<close>

record measure_ctx =
  m_magic :: u32
  pcr :: "u8 list list"
  m_entries :: "log_entry list"
  m_locked :: bool
  m_clock :: "nat \<Rightarrow> u64"

definition uiox_ks_measure_init :: "(nat \<Rightarrow> u64) \<Rightarrow> measure_ctx" where
  "uiox_ks_measure_init clk = \<lparr>m_magic = UIOX_KS_LOG_MAGIC, pcr = replicate 8 (replicate 32 0),
     m_entries = [], m_locked = False, m_clock = clk\<rparr>"

text \<open>\<open>ms_strncpy\<close> of a NUL-terminated name (here without the NUL) into a zeroed array of \<open>n\<close> bytes.\<close>

definition name_array :: "nat \<Rightarrow> u8 list \<Rightarrow> u8 list" where
  "name_array n nm = (let t = take (n - 1) nm in t @ replicate (n - length t) 0)"

definition ms_extend_raw :: "u32 \<Rightarrow> u8 list \<Rightarrow> u8 list \<Rightarrow> u32 \<Rightarrow> measure_ctx \<Rightarrow> measure_ctx \<times> ks_err" where
  "ms_extend_raw index measurement event_name evt c =
     (if UIOX_KS_PCR_MAX \<le> unat index then (c, KS_INVAL)
      else if m_locked c then (c, KS_INVAL)
      else let new = snd (uiox_ks_sha256_final (uiox_ks_sha256_update measurement
                   (uiox_ks_sha256_update (pcr c ! unat index) (uiox_ks_sha256_init sha256_stack))));
               c1 = c\<lparr>pcr := (pcr c)[unat index := new]\<rparr>
           in (if length (m_entries c) < UIOX_KS_LOG_MAX_ENTRIES
               then c1\<lparr>m_entries := m_entries c @
                 [\<lparr>le_pcr_index = index, le_event_type = evt,
                   le_event_name = name_array UIOX_KS_EVENT_NAME_LEN event_name,
                   le_measurement = measurement, le_pcr_after = new,
                   le_timestamp = m_clock c (length (m_entries c))\<rparr>]\<rparr>
               else c1, KS_OK))"

definition uiox_ks_measure_extend :: "u32 \<Rightarrow> u8 list \<Rightarrow> u8 list \<Rightarrow> u32 \<Rightarrow> measure_ctx \<Rightarrow> measure_ctx \<times> ks_err" where
  "uiox_ks_measure_extend index d event_name evt c =
     (if d = [] then (c, KS_INVAL) else ms_extend_raw index (uiox_ks_sha256 d) event_name evt c)"

definition uiox_ks_measure_extend_hash :: "u32 \<Rightarrow> u8 list \<Rightarrow> u8 list \<Rightarrow> u32 \<Rightarrow> measure_ctx \<Rightarrow> measure_ctx \<times> ks_err" where
  "uiox_ks_measure_extend_hash index h event_name evt c = ms_extend_raw index h event_name evt c"

text \<open>Reading a register copies it to \<open>out\<close>, and leaves \<open>out\<close> alone for an index out of range.\<close>

definition uiox_ks_measure_read_pcr :: "measure_ctx \<Rightarrow> u32 \<Rightarrow> u8 list \<Rightarrow> u8 list" where
  "uiox_ks_measure_read_pcr c index out =
     (if UIOX_KS_PCR_MAX \<le> unat index then out else pcr c ! unat index)"

definition uiox_ks_measure_lock :: "measure_ctx \<Rightarrow> measure_ctx" where
  "uiox_ks_measure_lock c = c\<lparr>m_locked := True\<rparr>"

definition uiox_ks_measure_quote :: "measure_ctx \<Rightarrow> u8 list" where
  "uiox_ks_measure_quote c = snd (uiox_ks_sha256_final
     (fold (\<lambda>i. uiox_ks_sha256_update (pcr c ! i)) [0..<UIOX_KS_PCR_MAX] (uiox_ks_sha256_init sha256_stack)))"

text \<open>An event for the log: the register, the measurement, the name and the type.\<close>

type_synonym ks_event = "u32 \<times> u8 list \<times> u8 list \<times> u32"

definition extend_event :: "ks_event \<Rightarrow> measure_ctx \<Rightarrow> measure_ctx" where
  "extend_event ev c = (case ev of (i, h, nm, t) \<Rightarrow> fst (uiox_ks_measure_extend_hash i h nm t c))"

text \<open>The value a register has after the measurements of a log, from the power-on value.\<close>

definition replay :: "log_entry list \<Rightarrow> nat \<Rightarrow> u8 list" where
  "replay es i = fold (\<lambda>e p. sha256_spec (p @ le_measurement e)) (filter (\<lambda>e. unat (le_pcr_index e) = i) es)
     (replicate 32 0)"

definition replays :: "measure_ctx \<Rightarrow> bool" where
  "replays c \<longleftrightarrow> length (pcr c) = 8 \<and> (\<forall>i<8. pcr c ! i = replay (m_entries c) i)"

lemma replay_snoc: "replay (es @ [e]) i =
    (if unat (le_pcr_index e) = i then sha256_spec (replay es i @ le_measurement e) else replay es i)"
  by (simp add: replay_def)

lemma extend_locked: "m_locked c \<Longrightarrow> fst (ms_extend_raw i h nm t c) = c"
  by (simp add: ms_extend_raw_def)

lemma extend_replays:
  assumes "replays c" and "length (m_entries c) < 64"
  shows "replays (extend_event ev c)"
proof -
  obtain i h nm t where ev: "ev = (i, h, nm, t)" by (cases ev)
  show ?thesis
  proof (cases "8 \<le> unat i \<or> m_locked c")
    case True
    then have "extend_event ev c = c"
      by (auto simp: extend_event_def ev uiox_ks_measure_extend_hash_def ms_extend_raw_def UIOX_KS_PCR_MAX_def)
    with assms show ?thesis by simp
  next
    case False
    then have i: "unat i < 8" and u: "\<not> m_locked c" by auto
    show ?thesis using assms i u
      by (auto simp: extend_event_def ev uiox_ks_measure_extend_hash_def ms_extend_raw_def UIOX_KS_PCR_MAX_def
          UIOX_KS_LOG_MAX_ENTRIES_def replays_def Let_def two_updates_spec replay_snoc nth_list_update)
  qed
qed

lemma extend_event_length: "length (m_entries (extend_event ev c)) \<le> Suc (length (m_entries c))"
  by (cases ev) (simp add: extend_event_def uiox_ks_measure_extend_hash_def ms_extend_raw_def Let_def)

lemma events_replay:
  "replays c \<Longrightarrow> length (m_entries c) + length evs \<le> 64 \<Longrightarrow> replays (fold extend_event evs c)"
proof (induction evs arbitrary: c)
  case (Cons ev evs)
  have "length (m_entries (extend_event ev c)) + length evs \<le> 64"
    using extend_event_length [of ev c] Cons.prems by simp
  then show ?case using Cons extend_replays [of c ev] by simp
qed simp

text \<open>C24: attestation.  After at most 64 events from power-on, each register is the replay of the log,
  and the quote is the hash of the concatenated replays: a verifier who has the log can check it.
\<close>

theorem quote_explained_by_log:
  assumes "length evs \<le> 64"
  shows "uiox_ks_measure_quote (fold extend_event evs (uiox_ks_measure_init clk)) =
    sha256_spec (concat (map (replay (m_entries (fold extend_event evs (uiox_ks_measure_init clk)))) [0..<8]))"
proof -
  define c where "c = fold extend_event evs (uiox_ks_measure_init clk)"
  have "replays (uiox_ks_measure_init clk)"
    by (simp add: replays_def uiox_ks_measure_init_def replay_def)
  then have r: "replays c" unfolding c_def
    by (rule events_replay) (use assms in \<open>simp add: uiox_ks_measure_init_def\<close>)
  have "uiox_ks_measure_quote c = sha256_spec (concat (map (\<lambda>i. pcr c ! i) [0..<8]))"
  proof -
    have f: "fold (\<lambda>i. uiox_ks_sha256_update (f i)) is h = fold uiox_ks_sha256_update (map f is) h" for f "is" h
      by (induction "is" arbitrary: h) simp_all
    have "length (sha_buf sha256_stack) = 64" by (simp add: sha256_stack_def)
    note stream256 [OF this, of "map ((!) (pcr c)) [0..<8]"]
    then show ?thesis by (simp only: uiox_ks_measure_quote_def f [of "(!) (pcr c)"] UIOX_KS_PCR_MAX_def)
  qed
  also have "map (\<lambda>i. pcr c ! i) [0..<8] = map (replay (m_entries c)) [0..<8]"
    using r by (simp add: replays_def)
  finally show ?thesis unfolding c_def .
qed

theorem quote_explained_by_log_witness:
  "uiox_ks_measure_quote (extend_event (6, replicate 32 1, [], 6) (uiox_ks_measure_init (\<lambda>k. 0))) =
    sha256_spec (concat (map (replay (m_entries
      (extend_event (6, replicate 32 1, [], 6) (uiox_ks_measure_init (\<lambda>k. 0))))) [0..<8]))"
  using quote_explained_by_log [of "[(6, replicate 32 1, [], 6)]" "\<lambda>k. 0"] by simp

text \<open>
  The log has 64 entries and the registers no limit: from the 65th event on the register moves
  and the log does not, so the log explains the register only if the hash has a fixed point there.
\<close>

lemma full_log_loses_event:
  assumes "replays c" and "length (m_entries c) = 64" and "\<not> m_locked c" and "unat i < 8"
    and "replays (extend_event (i, h, nm, t) c)"
  shows "sha256_spec (pcr c ! unat i @ h) = pcr c ! unat i"
proof -
  have e: "extend_event (i, h, nm, t) c = c\<lparr>pcr := (pcr c)[unat i := sha256_spec (pcr c ! unat i @ h)]\<rparr>"
    using assms(2-4) by (simp add: extend_event_def uiox_ks_measure_extend_hash_def ms_extend_raw_def
        UIOX_KS_PCR_MAX_def UIOX_KS_LOG_MAX_ENTRIES_def Let_def two_updates_spec)
  have "pcr c ! unat i = replay (m_entries c) (unat i)" and "length (pcr c) = 8"
    using assms(1,4) by (auto simp: replays_def)
  moreover have "sha256_spec (pcr c ! unat i @ h) = replay (m_entries c) (unat i)"
    using assms(5,4) \<open>length (pcr c) = 8\<close> by (auto simp: e replays_def)
  ultimately show ?thesis by simp
qed

end
