(* ===== verification/KsVerify.thy ===== *)
theory KsVerify
  imports Ksign
begin

text \<open>
  Verification of a signed kernel image, the runtime integrity monitor and the boot sequence
  (30_KIX/33_PCS/03_ksign/src: uiox_kix_ksign_image.c, uiox_kix_ksign_verify.c,
  uiox_kix_ksign_runtime.c, uiox_kix_ksign.c).  An image is the list of its bytes; the code reads its
  packed structures through pointers, and a read that leaves the image is the value \<open>None\<close> of
  an operation.  Live memory is a function from addresses to bytes.
\<close>

section \<open>Image header and sections\<close>

definition UIOX_KS_IMG_MAGIC :: u32 where "UIOX_KS_IMG_MAGIC = 0x554B5349"
definition UIOX_KS_SIG_MAGIC :: u32 where "UIOX_KS_SIG_MAGIC = 0x554B5347"
definition UIOX_KS_FORMAT_VERSION :: u32 where "UIOX_KS_FORMAT_VERSION = 2"
definition UIOX_KS_FORMAT_VERSION_1 :: u32 where "UIOX_KS_FORMAT_VERSION_1 = 1"
definition UIOX_KS_IMG_HDR_SIZE :: nat where "UIOX_KS_IMG_HDR_SIZE = 512"
definition UIOX_KS_PCR_KERNEL_CODE :: u32 where "UIOX_KS_PCR_KERNEL_CODE = 1"
definition UIOX_KS_PCR_KERNEL_DATA :: u32 where "UIOX_KS_PCR_KERNEL_DATA = 2"
definition UIOX_KS_PCR_RUNTIME_HASH :: u32 where "UIOX_KS_PCR_RUNTIME_HASH = 5"
definition UIOX_KS_PCR_KEY_LOAD :: u32 where "UIOX_KS_PCR_KEY_LOAD = 6"
definition UIOX_KS_PCR_INTEGRITY :: u32 where "UIOX_KS_PCR_INTEGRITY = 7"
definition UIOX_KS_EVT_KERNEL_CODE :: u32 where "UIOX_KS_EVT_KERNEL_CODE = 1"
definition UIOX_KS_EVT_KERNEL_DATA :: u32 where "UIOX_KS_EVT_KERNEL_DATA = 2"
definition UIOX_KS_EVT_RUNTIME_CHK :: u32 where "UIOX_KS_EVT_RUNTIME_CHK = 5"
definition UIOX_KS_EVT_KEY_LOAD :: u32 where "UIOX_KS_EVT_KEY_LOAD = 6"

record img_hdr =
  ih_magic :: u32
  ih_format_version :: u32
  ih_name :: "u8 list"
  ih_arch :: u32
  ih_min_kernel_version :: u32
  ih_kernel_version :: u32
  ih_load_addr :: u64
  ih_entry_addr :: u64
  ih_payload_offset :: u64
  ih_payload_size :: u64
  ih_payload_hash :: "u8 list"
  ih_payload_hash384 :: "u8 list"
  ih_sig_section_offset :: u64
  ih_sig_section_size :: u32
  ih_signing_key_id :: "u8 list"
  ih_sig_alg :: u32
  ih_build_time :: u64
  ih_build_id :: "u8 list"
  ih_flags :: u32

text \<open>The packed header at the start of an image: 272 bytes of fields, padded to 512.\<close>

definition img_hdr_at :: "u8 list \<Rightarrow> img_hdr" where
  "img_hdr_at buf =
     \<lparr>ih_magic = le_word 4 buf 0, ih_format_version = le_word 4 buf 4, ih_name = slice 8 48 buf,
      ih_arch = le_word 4 buf 56, ih_min_kernel_version = le_word 4 buf 60,
      ih_kernel_version = le_word 4 buf 64, ih_load_addr = le_word 8 buf 68,
      ih_entry_addr = le_word 8 buf 76, ih_payload_offset = le_word 8 buf 84,
      ih_payload_size = le_word 8 buf 92, ih_payload_hash = slice 100 32 buf,
      ih_payload_hash384 = slice 132 48 buf, ih_sig_section_offset = le_word 8 buf 180,
      ih_sig_section_size = le_word 4 buf 188, ih_signing_key_id = slice 192 32 buf,
      ih_sig_alg = le_word 4 buf 224, ih_build_time = le_word 8 buf 228,
      ih_build_id = slice 236 32 buf, ih_flags = le_word 4 buf 268\<rparr>"

definition uiox_ks_img_parse_hdr :: "u8 list \<Rightarrow> ks_err + img_hdr" where
  "uiox_ks_img_parse_hdr buf =
     (if length buf < UIOX_KS_IMG_HDR_SIZE then Inl KS_INVAL
      else let h = img_hdr_at buf
           in if ih_magic h \<noteq> UIOX_KS_IMG_MAGIC then Inl KS_BADMAGIC
              else if ih_format_version h \<noteq> UIOX_KS_FORMAT_VERSION
                      \<and> ih_format_version h \<noteq> UIOX_KS_FORMAT_VERSION_1 then Inl KS_BADVERSION
              else Inr h)"

text \<open>The bounds test adds two 64-bit header fields, and the sum may wrap.\<close>

definition uiox_ks_img_hash_payload :: "u8 list \<Rightarrow> img_hdr \<Rightarrow> (ks_err + u8 list) option" where
  "uiox_ks_img_hash_payload buf h =
     (if of_nat (length buf) < ih_payload_offset h + ih_payload_size h then Some (Inl KS_INVAL)
      else map_option (\<lambda>p. Inr (uiox_ks_sha256 p))
             (bytes_at buf (unat (ih_payload_offset h)) (unat (ih_payload_size h))))"

text \<open>The result is the offset of the section.\<close>

definition uiox_ks_img_get_sig_section :: "u8 list \<Rightarrow> img_hdr \<Rightarrow> (ks_err + nat) option" where
  "uiox_ks_img_get_sig_section buf h =
     (if ih_sig_section_offset h = 0 \<or> ih_sig_section_size h = 0 then Some (Inl KS_NOTFOUND)
      else if of_nat (length buf) < ih_sig_section_offset h + ucast (ih_sig_section_size h)
           then Some (Inl KS_INVAL)
      else let so = unat (ih_sig_section_offset h)
           in case bytes_at buf so 4 of
                None \<Rightarrow> None
              | Some _ \<Rightarrow>
                  let magic = le_word 4 buf so :: u32
                  in Some (if (if ih_format_version h = UIOX_KS_FORMAT_VERSION_1
                               then magic \<noteq> UIOX_KS_IMG_MAGIC else magic \<noteq> UIOX_KS_SIG_MAGIC)
                           then Inl KS_BADMAGIC else Inr so))"

definition uiox_ks_img_check_version :: "img_hdr \<Rightarrow> u32 \<Rightarrow> ks_err" where
  "uiox_ks_img_check_version h min_version =
     (if min_version \<le> ih_kernel_version h then KS_OK else KS_ROLLBACK)"

section \<open>Verification\<close>

record verify_report =
  r_result :: ks_err
  header_ok :: bool
  hash_ok :: bool
  sig_ok :: bool
  cert_chain_ok :: bool
  krl_ok :: bool
  rollback_ok :: bool
  expiry_checked :: bool
  sigs_checked :: u32
  sigs_valid :: u32
  r_kernel_version :: u32
  r_payload_hash :: "u8 list"
  r_signing_key_id :: "u8 list"
  fail_reason :: string

definition blank_report :: verify_report where
  "blank_report = \<lparr>r_result = KS_OK, header_ok = False, hash_ok = False, sig_ok = False,
     cert_chain_ok = False, krl_ok = False, rollback_ok = False, expiry_checked = False,
     sigs_checked = 0, sigs_valid = 0, r_kernel_version = 0, r_payload_hash = replicate 32 0,
     r_signing_key_id = replicate 32 0, fail_reason = []\<rparr>"

text \<open>
  The verification context, without its two pointers: the key store and the measurement context
  (which may be NULL) are arguments of the operations, since the boot sequence shares them.
\<close>

record verify_ctx =
  v_min_kernel_version :: u32
  v_current_time_unix :: u64
  v_image_base :: u64
  v_image_size :: u64
  v_allow_test_keys :: bool

definition uiox_ks_verify_init :: "u32 \<Rightarrow> verify_ctx" where
  "uiox_ks_verify_init min_ver = \<lparr>v_min_kernel_version = min_ver, v_current_time_unix = 0,
     v_image_base = 0, v_image_size = 0, v_allow_test_keys = False\<rparr>"

text \<open>
  A signature entry at \<open>p\<close>: signer id (32 bytes), algorithm (4), signature length (4), 512 bytes of
  signature, length of the certificate chain (4).
\<close>

definition SIG_ENTRY_SIZE :: nat where "SIG_ENTRY_SIZE = 556"

definition uiox_ks_verify_sig_entry :: "keystore \<Rightarrow> u8 list \<Rightarrow> nat \<Rightarrow> u8 list \<Rightarrow> ks_err option" where
  "uiox_ks_verify_sig_entry ks buf p h =
     (case bytes_at buf p 32 of
        None \<Rightarrow> None
      | Some kid \<Rightarrow>
          (case uiox_ks_keystore_find ks kid of
             None \<Rightarrow> Some KS_NOTFOUND
           | Some key \<Rightarrow>
               if ke_alg key = UIOX_KS_ALG_RSA2048_SHA256 \<or> ke_alg key = UIOX_KS_ALG_RSA4096_SHA256
               then (case bytes_at buf (p + 36) 4 of
                       None \<Rightarrow> None
                     | Some _ \<Rightarrow> uiox_ks_rsa_verify (ke_rsa key) (drop (p + 40) buf) (le_word 4 buf (p + 36)) h)
               else if ke_alg key = UIOX_KS_ALG_ECDSA_P256
               then uiox_ks_ecdsa_verify (ke_ecdsa key) (drop (p + 40) buf) h
               else Some KS_UNSUP))"

definition uiox_ks_verify_cert_chain :: "keystore \<Rightarrow> verify_ctx \<Rightarrow> u8 list \<Rightarrow> ks_err" where
  "uiox_ks_verify_cert_chain ks ctx kid =
     (case uiox_ks_keystore_find ks kid of
        None \<Rightarrow> KS_NOTFOUND
      | Some key \<Rightarrow> fst (uiox_ks_key_walk_chain ks (key_id key) (ks_krl ks) (v_current_time_unix ctx)))"

definition ks_name :: "string \<Rightarrow> u8 list" where
  "ks_name s = map of_char s"

definition measure_opt :: "u32 \<Rightarrow> u8 list \<Rightarrow> u8 list \<Rightarrow> u32 \<Rightarrow> measure_ctx option \<Rightarrow> measure_ctx option" where
  "measure_opt i h nm t = map_option (\<lambda>c. fst (uiox_ks_measure_extend_hash i h nm t c))"

text \<open>
  Step 5, the loop over the signature entries: one pass per unit of the first argument.  The last
  component of the result tells that the loop returned because of a revoked key.
\<close>

primrec verify_sigs :: "nat \<Rightarrow> u8 list \<Rightarrow> keystore \<Rightarrow> verify_ctx \<Rightarrow> u8 list \<Rightarrow> nat \<Rightarrow> verify_report
    \<Rightarrow> measure_ctx option \<Rightarrow> (verify_report \<times> measure_ctx option \<times> bool) option" where
  "verify_sigs 0 buf ks ctx h p r ms = Some (r, ms, False)"
| "verify_sigs (Suc n) buf ks ctx h p r ms =
     (case bytes_at buf p 32 of
        None \<Rightarrow> None
      | Some kid \<Rightarrow>
          (let r1 = r\<lparr>sigs_checked := sigs_checked r + 1\<rparr>
           in case uiox_ks_keystore_find ks kid of
                None \<Rightarrow> verify_sigs n buf ks ctx h (p + SIG_ENTRY_SIZE) r1 ms
              | Some key \<Rightarrow>
                  (let (rc, ck) = uiox_ks_key_check_valid key (ks_krl ks) (v_current_time_unix ctx);
                       r2 = (if ck then r1\<lparr>expiry_checked := True\<rparr> else r1)
                   in if rc = KS_REVOKED
                      then Some (r2\<lparr>r_result := KS_REVOKED, fail_reason := ''signing key revoked''\<rparr>, ms, True)
                      else let r3 = r2\<lparr>krl_ok := True\<rparr>
                           in if rc \<noteq> KS_OK then verify_sigs n buf ks ctx h (p + SIG_ENTRY_SIZE) r3 ms
                              else if uiox_ks_verify_cert_chain ks ctx kid \<noteq> KS_OK
                              then verify_sigs n buf ks ctx h (p + SIG_ENTRY_SIZE) r3 ms
                              else let r4 = r3\<lparr>cert_chain_ok := True\<rparr>
                                   in case uiox_ks_verify_sig_entry ks buf p h of
                                        None \<Rightarrow> None
                                      | Some rc' \<Rightarrow>
                                          if rc' = KS_OK
                                          then verify_sigs n buf ks ctx h (p + SIG_ENTRY_SIZE)
                                                 (r4\<lparr>sigs_valid := sigs_valid r4 + 1, sig_ok := True,
                                                     r_signing_key_id := kid\<rparr>)
                                                 (measure_opt UIOX_KS_PCR_KEY_LOAD kid
                                                    (ks_name ''kernel-signing-key'') UIOX_KS_EVT_KEY_LOAD ms)
                                          else verify_sigs n buf ks ctx h (p + SIG_ENTRY_SIZE) r4 ms)))"

text \<open>The result of verification: the context, the measurements and the report.\<close>

type_synonym verify_out = "verify_ctx \<times> measure_ctx option \<times> verify_report"

definition verify_fail :: "verify_ctx \<Rightarrow> measure_ctx option \<Rightarrow> verify_report \<Rightarrow> ks_err \<Rightarrow> string \<Rightarrow> verify_out" where
  "verify_fail ctx ms r rc why = (ctx, ms, r\<lparr>r_result := rc, fail_reason := why\<rparr>)"

definition uiox_ks_verify_image :: "keystore \<Rightarrow> verify_ctx \<Rightarrow> measure_ctx option \<Rightarrow> u64 \<Rightarrow> u8 list
    \<Rightarrow> verify_out option" where
  "uiox_ks_verify_image ks ctx ms addr buf =
     (if buf = [] then Some (verify_fail ctx ms blank_report KS_INVAL [])
      else case uiox_ks_img_parse_hdr buf of
        Inl rc \<Rightarrow> Some (verify_fail ctx ms blank_report rc ''bad image header'')
      | Inr hdr \<Rightarrow>
          (let r1 = blank_report\<lparr>header_ok := True, r_kernel_version := ih_kernel_version hdr\<rparr>;
               ctx1 = ctx\<lparr>v_image_base := addr, v_image_size := of_nat (length buf)\<rparr>;
               rcv = uiox_ks_img_check_version hdr (v_min_kernel_version ctx)
           in if rcv \<noteq> KS_OK then Some (verify_fail ctx1 ms r1 rcv ''rollback denied'')
              else let r2 = r1\<lparr>rollback_ok := True\<rparr>
                   in case uiox_ks_img_hash_payload buf hdr of
                        None \<Rightarrow> None
                      | Some (Inl rc) \<Rightarrow> Some (verify_fail ctx1 ms r2 rc ''payload hash failed'')
                      | Some (Inr h) \<Rightarrow>
                          if uiox_ks_ct_memcmp h (ih_payload_hash hdr) 32 \<noteq> 0
                          then Some (verify_fail ctx1 ms r2 KS_HASH ''SHA-256 payload mismatch'')
                          else let r3 = r2\<lparr>hash_ok := True, r_payload_hash := h\<rparr>
                               in case uiox_ks_img_get_sig_section buf hdr of
                                    None \<Rightarrow> None
                                  | Some (Inl rc) \<Rightarrow> Some (verify_fail ctx1 ms r3 KS_SIG ''no .uiox_sig section'')
                                  | Some (Inr so) \<Rightarrow>
                                      (case bytes_at buf so 8 of
                                         None \<Rightarrow> None
                                       | Some _ \<Rightarrow>
                                           (case verify_sigs (unat (le_word 4 buf (so + 4) :: u32)) buf ks ctx1 h
                                                   (so + 8) r3 ms of
                                              None \<Rightarrow> None
                                            | Some (r4, ms', revoked) \<Rightarrow>
                                                Some (if revoked then (ctx1, ms', r4)
                                                      else if \<not> sig_ok r4
                                                      then verify_fail ctx1 ms' r4 KS_SIG ''no valid signature found''
                                                      else (ctx1, ms', r4\<lparr>r_result := KS_OK\<rparr>))))))"

section \<open>Runtime integrity monitor\<close>

definition UIOX_KS_RT_MAX_REGIONS :: nat where "UIOX_KS_RT_MAX_REGIONS = 8"
definition UIOX_KS_RT_CHECK_INTERVAL :: u64 where "UIOX_KS_RT_CHECK_INTERVAL = 60000"
definition UIOX_KS_RT_REGION_NAME_LEN :: nat where "UIOX_KS_RT_REGION_NAME_LEN = 24"

datatype rt_state = RT_UNINIT | RT_OK | RT_TAMPERED | RT_DISABLED

record rt_region =
  rg_name :: "u8 list"
  rg_base :: u64
  rg_size :: u64
  rg_expected :: "u8 list"
  rg_last_check :: u64
  rg_violations :: u32
  rg_active :: bool

text \<open>
  The monitor's context, without its pointer to the measurements (an argument of the operations).
  \<open>rt_calls\<close> records the calls of the violation callback, if one is set.
\<close>

record rt_ctx =
  rt_regions :: "rt_region list"
  rt_st :: rt_state
  rt_cb :: bool
  rt_calls :: "(rt_region \<times> u8 list) list"
  rt_check_count :: u32
  rt_violation_count :: u32
  rt_initialized :: bool

definition uiox_ks_rt_init :: rt_ctx where
  "uiox_ks_rt_init = \<lparr>rt_regions = [], rt_st = RT_UNINIT, rt_cb = False, rt_calls = [],
     rt_check_count = 0, rt_violation_count = 0, rt_initialized = False\<rparr>"

definition uiox_ks_rt_set_cb :: "bool \<Rightarrow> rt_ctx \<Rightarrow> rt_ctx" where
  "uiox_ks_rt_set_cb cb ctx = ctx\<lparr>rt_cb := cb\<rparr>"

text \<open>The byte \<open>i\<close> of a NUL-terminated string, and the bounded comparison with a name array.\<close>

definition cstr_at :: "u8 list \<Rightarrow> nat \<Rightarrow> u8" where
  "cstr_at s i = (if i < length s then s ! i else 0)"

primrec rt_name_eq_from :: "nat \<Rightarrow> nat \<Rightarrow> u8 list \<Rightarrow> u8 list \<Rightarrow> bool" where
  "rt_name_eq_from 0 i a b = False"
| "rt_name_eq_from (Suc n) i a b =
     (if a ! i \<noteq> cstr_at b i then False else if a ! i = 0 then True else rt_name_eq_from n (Suc i) a b)"

definition rt_name_eq :: "u8 list \<Rightarrow> u8 list \<Rightarrow> bool" where
  "rt_name_eq a b = rt_name_eq_from UIOX_KS_RT_REGION_NAME_LEN 0 a b"

definition uiox_ks_rt_register :: "u8 list \<Rightarrow> u64 \<Rightarrow> u64 \<Rightarrow> rt_ctx \<Rightarrow> rt_ctx \<times> ks_err" where
  "uiox_ks_rt_register nm base sz ctx =
     (if sz = 0 then (ctx, KS_INVAL)
      else if UIOX_KS_RT_MAX_REGIONS \<le> length (rt_regions ctx) then (ctx, KS_NOMEM)
      else (ctx\<lparr>rt_regions := rt_regions ctx @
              [\<lparr>rg_name = name_array UIOX_KS_RT_REGION_NAME_LEN nm, rg_base = base, rg_size = sz,
                rg_expected = replicate 32 0, rg_last_check = 0, rg_violations = 0, rg_active = False\<rparr>]\<rparr>, KS_OK))"

definition arm_region :: "nat \<Rightarrow> u64 \<Rightarrow> u8 list \<Rightarrow> rt_ctx \<Rightarrow> rt_ctx" where
  "arm_region i sz expected ctx = ctx\<lparr>rt_regions := (rt_regions ctx)[i := (rt_regions ctx ! i)
     \<lparr>rg_expected := expected, rg_size := sz, rg_last_check := 0, rg_active := True\<rparr>]\<rparr>"

definition uiox_ks_rt_register_hash :: "u8 list \<Rightarrow> u64 \<Rightarrow> u64 \<Rightarrow> u8 list \<Rightarrow> rt_ctx \<Rightarrow> rt_ctx \<times> ks_err" where
  "uiox_ks_rt_register_hash nm base sz expected ctx =
     (case first_idx (\<lambda>i. rt_name_eq (rg_name (rt_regions ctx ! i)) nm \<and> rg_base (rt_regions ctx ! i) = base)
             (length (rt_regions ctx)) of
        Some i \<Rightarrow> (arm_region i sz expected ctx, KS_OK)
      | None \<Rightarrow>
          (let (ctx1, rc) = uiox_ks_rt_register nm base sz ctx
           in if rc \<noteq> KS_OK then (ctx1, rc)
              else (arm_region (length (rt_regions ctx1) - 1) sz expected ctx1, KS_OK)))"

type_synonym memory = "u64 \<Rightarrow> u8"

definition mem_bytes :: "memory \<Rightarrow> u64 \<Rightarrow> u64 \<Rightarrow> u8 list" where
  "mem_bytes mem base sz = map (\<lambda>i. mem (base + of_nat i)) [0..<unat sz]"

definition uiox_ks_rt_seed_from_image :: "memory \<Rightarrow> img_hdr \<Rightarrow> u64 \<Rightarrow> u64 \<Rightarrow> u64
    \<Rightarrow> rt_ctx \<times> measure_ctx option \<Rightarrow> (rt_ctx \<times> measure_ctx option) \<times> ks_err" where
  "uiox_ks_rt_seed_from_image mem hdr img rodata_base rodata_size s =
     (case s of (ctx, ms) \<Rightarrow>
        if ih_payload_size hdr = 0 then ((ctx, ms), KS_INVAL)
        else let (ctx1, rc) = uiox_ks_rt_register_hash (ks_name ''kernel-payload'')
                     (img + ih_payload_offset hdr) (ih_payload_size hdr) (ih_payload_hash hdr) ctx
             in if rc \<noteq> KS_OK then ((ctx1, ms), rc)
                else let (ctx2, rc2) = (if 0 < rodata_size
                             then uiox_ks_rt_register_hash (ks_name ''.rodata'') rodata_base rodata_size
                                    (uiox_ks_sha256 (mem_bytes mem rodata_base rodata_size)) ctx1
                             else (ctx1, KS_OK))
                     in if rc2 \<noteq> KS_OK then ((ctx2, ms), rc2)
                        else ((ctx2\<lparr>rt_st := RT_OK, rt_initialized := True\<rparr>,
                               measure_opt UIOX_KS_PCR_RUNTIME_HASH (ih_payload_hash hdr)
                                 (ks_name ''rt-seed-payload'') UIOX_KS_EVT_KERNEL_CODE ms), KS_OK))"

text \<open>
  The check of region \<open>i\<close>.  \<open>clk\<close> is what the clock returns during the check.  Both outcomes extend
  the register of integrity events with the hash found.
\<close>

definition rt_check_region :: "memory \<Rightarrow> u64 \<Rightarrow> nat \<Rightarrow> rt_ctx \<times> measure_ctx option
    \<Rightarrow> (rt_ctx \<times> measure_ctx option) \<times> ks_err" where
  "rt_check_region mem clk i s =
     (case s of (ctx, ms) \<Rightarrow>
        let r = rt_regions ctx ! i;
            actual = uiox_ks_sha256 (mem_bytes mem (rg_base r) (rg_size r));
            ms' = measure_opt UIOX_KS_PCR_INTEGRITY actual (takeWhile (\<lambda>b. b \<noteq> 0) (rg_name r))
                    UIOX_KS_EVT_RUNTIME_CHK ms;
            r1 = r\<lparr>rg_last_check := clk\<rparr>
        in if ks_memcmp actual (rg_expected r) 32 \<noteq> 0
           then let r2 = r1\<lparr>rg_violations := rg_violations r1 + 1\<rparr>;
                    ctx1 = ctx\<lparr>rt_regions := (rt_regions ctx)[i := r2],
                               rt_violation_count := rt_violation_count ctx + 1\<rparr>
                in ((if rt_cb ctx then ctx1\<lparr>rt_calls := rt_calls ctx @ [(r2, actual)]\<rparr> else ctx1, ms'), KS_TAMPERED)
           else ((ctx\<lparr>rt_regions := (rt_regions ctx)[i := r1]\<rparr>, ms'), KS_OK))"

text \<open>The loops of tick and of the full check; \<open>due\<close> says which active regions are looked at.\<close>

definition rt_scan :: "memory \<Rightarrow> (nat \<Rightarrow> u64) \<Rightarrow> (rt_region \<Rightarrow> bool) \<Rightarrow> rt_ctx \<times> measure_ctx option
    \<Rightarrow> (rt_ctx \<times> measure_ctx option) \<times> bool" where
  "rt_scan mem clk due s = fold
     (\<lambda>i (s, any). if rg_active (rt_regions (fst s) ! i) \<and> due (rt_regions (fst s) ! i)
        then (case rt_check_region mem (clk i) i s of (s', rc) \<Rightarrow> (s', any \<or> rc \<noteq> KS_OK))
        else (s, any))
     [0..<length (rt_regions (fst s))] (s, False)"

definition rt_due :: "u64 \<Rightarrow> rt_region \<Rightarrow> bool" where
  "rt_due now_ms r \<longleftrightarrow> rg_last_check r = 0 \<or> UIOX_KS_RT_CHECK_INTERVAL \<le> now_ms - rg_last_check r"

text \<open>\<open>now0\<close> is the clock when the tick starts; it stands in for an argument of zero.\<close>

definition uiox_ks_rt_tick :: "memory \<Rightarrow> u64 \<Rightarrow> (nat \<Rightarrow> u64) \<Rightarrow> u64 \<Rightarrow> rt_ctx \<times> measure_ctx option
    \<Rightarrow> rt_ctx \<times> measure_ctx option" where
  "uiox_ks_rt_tick mem now0 clk now_ms s =
     (if \<not> rt_initialized (fst s) then s
      else let now' = (if now_ms = 0 then now0 else now_ms);
               ((ctx, ms), any) = rt_scan mem clk (rt_due now') s
           in (ctx\<lparr>rt_check_count := rt_check_count ctx + 1,
                   rt_st := (if any then RT_TAMPERED else RT_OK)\<rparr>, ms))"

definition uiox_ks_rt_check_all :: "memory \<Rightarrow> (nat \<Rightarrow> u64) \<Rightarrow> rt_ctx \<times> measure_ctx option
    \<Rightarrow> (rt_ctx \<times> measure_ctx option) \<times> rt_state" where
  "uiox_ks_rt_check_all mem clk s =
     (if \<not> rt_initialized (fst s) then (s, RT_UNINIT)
      else let ((ctx, ms), any) = rt_scan mem clk (\<lambda>r. True) s;
               st = (if any then RT_TAMPERED else RT_OK)
           in ((ctx\<lparr>rt_st := st\<rparr>, ms), st))"

section \<open>The boot sequence\<close>

text \<open>The weak platform hooks: root of trust, minimum version, clock.\<close>

record ks_plat =
  p_rot_key_id :: "u8 list"
  p_min_version :: u32
  p_time_ms :: "nat \<Rightarrow> u64"

definition default_plat :: ks_plat where
  "default_plat = \<lparr>p_rot_key_id = replicate 32 0, p_min_version = 0, p_time_ms = (\<lambda>k. 0)\<rparr>"

record ks_boot =
  g_verify_ctx :: verify_ctx
  g_rt_ctx :: rt_ctx
  g_measure_ctx :: measure_ctx
  g_keystore :: keystore
  g_last_report :: verify_report

definition uiox_ks_boot_init :: "ks_plat \<Rightarrow> verify_report \<Rightarrow> ks_boot" where
  "uiox_ks_boot_init pl rep =
     \<lparr>g_verify_ctx = uiox_ks_verify_init (p_min_version pl), g_rt_ctx = uiox_ks_rt_init,
      g_measure_ctx = uiox_ks_measure_init (p_time_ms pl),
      g_keystore = uiox_ks_keystore_init (p_rot_key_id pl), g_last_report = rep\<rparr>"

text \<open>The image at address \<open>addr\<close>; NULL is address 0.\<close>

definition uiox_ks_boot_verify :: "u64 \<Rightarrow> u8 list \<Rightarrow> ks_boot \<Rightarrow> (ks_boot \<times> ks_err) option" where
  "uiox_ks_boot_verify addr buf s =
     (if addr = 0 \<or> buf = [] then Some (s, KS_INVAL)
      else case uiox_ks_verify_image (g_keystore s) (g_verify_ctx s) (Some (g_measure_ctx s)) addr buf of
          None \<Rightarrow> None
        | Some (ctx, ms, r) \<Rightarrow>
            Some (s\<lparr>g_verify_ctx := ctx, g_measure_ctx := the ms, g_last_report := r\<rparr>, r_result r))"

definition uiox_ks_boot_measure :: "u64 \<Rightarrow> u8 list \<Rightarrow> ks_boot \<Rightarrow> (ks_boot \<times> ks_err) option" where
  "uiox_ks_boot_measure addr buf s =
     (if addr = 0 \<or> buf = [] then Some (s, KS_INVAL)
      else if length buf < 224 then None
      else let hdr = img_hdr_at buf;
               ext = (\<lambda>i h nm t c. fst (uiox_ks_measure_extend_hash i h nm t c));
               c1 = ext UIOX_KS_PCR_KERNEL_CODE (ih_payload_hash hdr) (ks_name ''kernel-payload-sha256'')
                      UIOX_KS_EVT_KERNEL_CODE (g_measure_ctx s);
               c2 = ext UIOX_KS_PCR_KERNEL_DATA (take 32 (ih_payload_hash384 hdr)) (ks_name ''kernel-payload-sha384'')
                      UIOX_KS_EVT_KERNEL_DATA c1;
               c3 = ext UIOX_KS_PCR_KEY_LOAD (ih_signing_key_id hdr) (ks_name ''kernel-signing-key'')
                      UIOX_KS_EVT_KEY_LOAD c2
           in Some (s\<lparr>g_measure_ctx := c3\<rparr>, KS_OK))"

definition uiox_ks_boot_arm_runtime :: "memory \<Rightarrow> u64 \<Rightarrow> u8 list \<Rightarrow> u64 \<Rightarrow> u64 \<Rightarrow> ks_boot
    \<Rightarrow> (ks_boot \<times> ks_err) option" where
  "uiox_ks_boot_arm_runtime mem addr buf rodata_base rodata_size s =
     (if addr = 0 then Some (s, KS_INVAL)
      else if length buf < 132 then None
      else case uiox_ks_rt_seed_from_image mem (img_hdr_at buf) addr rodata_base rodata_size
                  (g_rt_ctx s, Some (g_measure_ctx s)) of
          ((rt, ms), rc) \<Rightarrow> Some (s\<lparr>g_rt_ctx := rt, g_measure_ctx := the ms\<rparr>, rc))"

text \<open>How the boot entry ends: halted for ever, or in the kernel at an entry address.\<close>

datatype boot_end = Halted | Kernel u64 ks_boot

definition uiox_ks_boot_handoff :: "u8 list \<Rightarrow> ks_boot \<Rightarrow> boot_end option" where
  "uiox_ks_boot_handoff buf s =
     (if length buf < 84 then None
      else Some (Kernel (ih_entry_addr (img_hdr_at buf)) (s\<lparr>g_measure_ctx := uiox_ks_measure_lock (g_measure_ctx s)\<rparr>)))"

definition uiox_ks_boot_entry :: "ks_plat \<Rightarrow> verify_report \<Rightarrow> memory \<Rightarrow> u64 \<Rightarrow> u8 list \<Rightarrow> u64 \<Rightarrow> u64
    \<Rightarrow> boot_end option" where
  "uiox_ks_boot_entry pl rep mem addr buf rodata_base rodata_size =
     (case uiox_ks_boot_verify addr buf (uiox_ks_boot_init pl rep) of
        None \<Rightarrow> None
      | Some (s1, rc1) \<Rightarrow>
          if rc1 \<noteq> KS_OK then Some Halted
          else case uiox_ks_boot_measure addr buf s1 of
              None \<Rightarrow> None
            | Some (s2, rc2) \<Rightarrow>
                if rc2 \<noteq> KS_OK then Some Halted
                else case uiox_ks_boot_arm_runtime mem addr buf rodata_base rodata_size s2 of
                    None \<Rightarrow> None
                  | Some (s3, rc3) \<Rightarrow>
                      if rc3 \<noteq> KS_OK then Some Halted else uiox_ks_boot_handoff buf s3)"

text \<open>The scheduler's hook: a tick with argument 0 on the monitor's context.\<close>

definition uiox_ks_scheduler_tick :: "memory \<Rightarrow> u64 \<Rightarrow> (nat \<Rightarrow> u64) \<Rightarrow> ks_boot \<Rightarrow> ks_boot" where
  "uiox_ks_scheduler_tick mem now0 clk s =
     (case uiox_ks_rt_tick mem now0 clk 0 (g_rt_ctx s, Some (g_measure_ctx s)) of
        (rt, ms) \<Rightarrow> s\<lparr>g_rt_ctx := rt, g_measure_ctx := the ms\<rparr>)"

section \<open>What is accepted\<close>

text \<open>The verdict on one signature entry, and when the loop over the entries ends with a valid signature.\<close>

datatype verdict = Skip | Revoked | Valid

definition entry_verdict :: "keystore \<Rightarrow> verify_ctx \<Rightarrow> u8 list \<Rightarrow> u8 list \<Rightarrow> nat \<Rightarrow> verdict option" where
  "entry_verdict ks ctx buf h p =
     (case bytes_at buf p 32 of
        None \<Rightarrow> None
      | Some kid \<Rightarrow>
          (case uiox_ks_keystore_find ks kid of
             None \<Rightarrow> Some Skip
           | Some key \<Rightarrow>
               (let rc = fst (uiox_ks_key_check_valid key (ks_krl ks) (v_current_time_unix ctx))
                in if rc = KS_REVOKED then Some Revoked
                   else if rc \<noteq> KS_OK \<or> uiox_ks_verify_cert_chain ks ctx kid \<noteq> KS_OK then Some Skip
                   else map_option (\<lambda>rc'. if rc' = KS_OK then Valid else Skip)
                          (uiox_ks_verify_sig_entry ks buf p h))))"

definition entries_ok :: "keystore \<Rightarrow> verify_ctx \<Rightarrow> u8 list \<Rightarrow> u8 list \<Rightarrow> nat \<Rightarrow> nat \<Rightarrow> bool" where
  "entries_ok ks ctx buf h p n \<longleftrightarrow>
     (\<forall>i<n. entry_verdict ks ctx buf h (p + i * SIG_ENTRY_SIZE) \<in> {Some Skip, Some Valid})"

definition some_valid :: "keystore \<Rightarrow> verify_ctx \<Rightarrow> u8 list \<Rightarrow> u8 list \<Rightarrow> nat \<Rightarrow> nat \<Rightarrow> bool" where
  "some_valid ks ctx buf h p n \<longleftrightarrow>
     (\<exists>i<n. entry_verdict ks ctx buf h (p + i * SIG_ENTRY_SIZE) = Some Valid)"

declare verify_sigs.simps [simp del]

lemma verify_sigs_step:
  "entry_verdict ks ctx buf h p = None \<Longrightarrow> verify_sigs (Suc n) buf ks ctx h p r ms = None"
  "entry_verdict ks ctx buf h p = Some Revoked \<Longrightarrow>
     \<exists>r'. verify_sigs (Suc n) buf ks ctx h p r ms = Some (r', ms, True) \<and> r_result r' = KS_REVOKED"
  "entry_verdict ks ctx buf h p = Some Skip \<Longrightarrow>
     \<exists>r'. verify_sigs (Suc n) buf ks ctx h p r ms = verify_sigs n buf ks ctx h (p + SIG_ENTRY_SIZE) r' ms
       \<and> sig_ok r' = sig_ok r"
  "entry_verdict ks ctx buf h p = Some Valid \<Longrightarrow>
     \<exists>r' ms'. verify_sigs (Suc n) buf ks ctx h p r ms = verify_sigs n buf ks ctx h (p + SIG_ENTRY_SIZE) r' ms'
       \<and> sig_ok r'"
  by (force simp: entry_verdict_def verify_sigs.simps Let_def split_beta
      split: option.splits if_splits)+

lemma range_Suc:
  "(\<forall>i<Suc n. P (p + i * k)) \<longleftrightarrow> P p \<and> (\<forall>i<n. P (p + k + i * k))" for p k :: nat
  by (auto simp: less_Suc_eq_0_disj ac_simps)

lemma entries_ok_Suc: "entries_ok ks ctx buf h p (Suc n) \<longleftrightarrow>
    entry_verdict ks ctx buf h p \<in> {Some Skip, Some Valid} \<and> entries_ok ks ctx buf h (p + SIG_ENTRY_SIZE) n"
  unfolding entries_ok_def by (rule range_Suc)

lemma some_valid_Suc: "some_valid ks ctx buf h p (Suc n) \<longleftrightarrow>
    entry_verdict ks ctx buf h p = Some Valid \<or> some_valid ks ctx buf h (p + SIG_ENTRY_SIZE) n"
  using range_Suc [of n "\<lambda>q. entry_verdict ks ctx buf h q \<noteq> Some Valid" p SIG_ENTRY_SIZE]
  unfolding some_valid_def by blast

lemma verify_sigs_accepts:
  "(\<exists>r' ms'. verify_sigs n buf ks ctx h p r ms = Some (r', ms', False) \<and> sig_ok r') \<longleftrightarrow>
     entries_ok ks ctx buf h p n \<and> (sig_ok r \<or> some_valid ks ctx buf h p n)"
proof (induction n arbitrary: p r ms)
  case 0
  then show ?case by (simp add: verify_sigs.simps entries_ok_def some_valid_def)
next
  case (Suc n)
  show ?case
  proof (cases "entry_verdict ks ctx buf h p")
    case None
    then show ?thesis using verify_sigs_step(1) [OF None] by (simp add: entries_ok_Suc)
  next
    case (Some v)
    show ?thesis
    proof (cases v)
      case Skip
      then obtain r' where "verify_sigs (Suc n) buf ks ctx h p r ms = verify_sigs n buf ks ctx h (p + SIG_ENTRY_SIZE) r' ms"
        and "sig_ok r' = sig_ok r" using verify_sigs_step(3) Some by blast
      then show ?thesis using Suc.IH [of "p + SIG_ENTRY_SIZE" r' ms] Some Skip
        by (simp add: entries_ok_Suc some_valid_Suc)
    next
      case Revoked
      then obtain r' where "verify_sigs (Suc n) buf ks ctx h p r ms = Some (r', ms, True)"
        using verify_sigs_step(2) Some by blast
      then show ?thesis using Some Revoked by (simp add: entries_ok_Suc)
    next
      case Valid
      then obtain r' ms' where "verify_sigs (Suc n) buf ks ctx h p r ms = verify_sigs n buf ks ctx h (p + SIG_ENTRY_SIZE) r' ms'"
        and "sig_ok r'" using verify_sigs_step(4) Some by blast
      then show ?thesis using Suc.IH [of "p + SIG_ENTRY_SIZE" r' ms'] Some Valid
        by (simp add: entries_ok_Suc some_valid_Suc)
    qed
  qed
qed

lemma verify_sigs_revoked:
  "verify_sigs n buf ks ctx h p r ms = Some (r', ms', True) \<Longrightarrow> r_result r' = KS_REVOKED"
proof (induction n arbitrary: p r ms)
  case 0
  then show ?case by (simp add: verify_sigs.simps)
next
  case (Suc n)
  show ?case
  proof (cases "entry_verdict ks ctx buf h p")
    case None
    then show ?thesis using verify_sigs_step(1) [OF None] Suc.prems by simp
  next
    case (Some v)
    show ?thesis
    proof (cases v)
      case Skip
      then show ?thesis using verify_sigs_step(3) Some Suc by metis
    next
      case Revoked
      then obtain q where "verify_sigs (Suc n) buf ks ctx h p r ms = Some (q, ms, True)" and "r_result q = KS_REVOKED"
        using verify_sigs_step(2) Some by blast
      then show ?thesis using Suc.prems by simp
    next
      case Valid
      then show ?thesis using verify_sigs_step(4) Some Suc by metis
    qed
  qed
qed

definition accepts :: "keystore \<Rightarrow> verify_ctx \<Rightarrow> measure_ctx option \<Rightarrow> u64 \<Rightarrow> u8 list \<Rightarrow> bool" where
  "accepts ks ctx ms addr buf \<longleftrightarrow>
     (\<exists>c m r. uiox_ks_verify_image ks ctx ms addr buf = Some (c, m, r) \<and> r_result r = KS_OK)"

lemma entry_verdict_ctx:
  "v_current_time_unix c = v_current_time_unix c' \<Longrightarrow> entry_verdict ks c buf h p = entry_verdict ks c' buf h p"
proof -
  assume t: "v_current_time_unix c = v_current_time_unix c'"
  have "uiox_ks_verify_cert_chain ks c = uiox_ks_verify_cert_chain ks c'"
    unfolding uiox_ks_verify_cert_chain_def t ..
  note cc = this
  show ?thesis unfolding entry_verdict_def t cc ..
qed

lemma img_parse_Inr:
  "uiox_ks_img_parse_hdr buf = Inr h \<longleftrightarrow> 512 \<le> length buf \<and> h = img_hdr_at buf
     \<and> ih_magic h = UIOX_KS_IMG_MAGIC \<and> ih_format_version h \<in> {1, 2}"
  by (auto simp: uiox_ks_img_parse_hdr_def Let_def UIOX_KS_IMG_HDR_SIZE_def UIOX_KS_FORMAT_VERSION_def
      UIOX_KS_FORMAT_VERSION_1_def)

lemma img_parse_Inl: "uiox_ks_img_parse_hdr buf = Inl rc \<Longrightarrow> rc \<noteq> KS_OK"
  by (auto simp: uiox_ks_img_parse_hdr_def Let_def split: if_splits)

lemma img_hash_Inl: "uiox_ks_img_hash_payload buf h = Some (Inl rc) \<Longrightarrow> rc \<noteq> KS_OK"
  by (auto simp: uiox_ks_img_hash_payload_def split: if_splits)

text \<open>The part of the pipeline after the header is parsed, on a context that records the image.\<close>

lemma accepts_parsed:
  assumes "uiox_ks_img_parse_hdr buf = Inr hdr"
  shows "accepts ks ctx ms addr buf \<longleftrightarrow> v_min_kernel_version ctx \<le> ih_kernel_version hdr
     \<and> (\<exists>h so. uiox_ks_img_hash_payload buf hdr = Some (Inr h) \<and> ks_memcmp h (ih_payload_hash hdr) 32 = 0
         \<and> uiox_ks_img_get_sig_section buf hdr = Some (Inr so) \<and> so + 8 \<le> length buf
         \<and> entries_ok ks ctx buf h (so + 8) (unat (le_word 4 buf (so + 4) :: u32))
         \<and> some_valid ks ctx buf h (so + 8) (unat (le_word 4 buf (so + 4) :: u32)))"
    (is "_ \<longleftrightarrow> ?R")
proof -
  have ne: "buf \<noteq> []" using assms by (auto simp: img_parse_Inr)
  define ctx1 where "ctx1 = ctx\<lparr>v_image_base := addr, v_image_size := of_nat (length buf)\<rparr>"
  have ev: "entry_verdict ks ctx1 b h p = entry_verdict ks ctx b h p" for b h p
    by (rule entry_verdict_ctx) (simp add: ctx1_def)
  note v = uiox_ks_verify_image_def [of ks ctx ms addr buf, unfolded assms sum.case
      ctx1_def [symmetric] Let_def if_not_P [OF ne]]
  consider (low) "\<not> v_min_kernel_version ctx \<le> ih_kernel_version hdr"
    | (hash) "v_min_kernel_version ctx \<le> ih_kernel_version hdr"
        "\<nexists>h. uiox_ks_img_hash_payload buf hdr = Some (Inr h) \<and> ks_memcmp h (ih_payload_hash hdr) 32 = 0"
    | (sect) h where "v_min_kernel_version ctx \<le> ih_kernel_version hdr"
        "uiox_ks_img_hash_payload buf hdr = Some (Inr h)" "ks_memcmp h (ih_payload_hash hdr) 32 = 0"
        "\<nexists>so. uiox_ks_img_get_sig_section buf hdr = Some (Inr so) \<and> so + 8 \<le> length buf"
    | (loop) h so where "v_min_kernel_version ctx \<le> ih_kernel_version hdr"
        "uiox_ks_img_hash_payload buf hdr = Some (Inr h)" "ks_memcmp h (ih_payload_hash hdr) 32 = 0"
        "uiox_ks_img_get_sig_section buf hdr = Some (Inr so)" "so + 8 \<le> length buf"
    by blast
  then show ?thesis
  proof cases
    case low
    then show ?thesis by (simp add: accepts_def v uiox_ks_img_check_version_def verify_fail_def)
  next
    case hash
    then show ?thesis
      by (auto simp: accepts_def v uiox_ks_img_check_version_def verify_fail_def ct_memcmp_0 dest: img_hash_Inl
          split: option.splits sum.splits if_splits)
  next
    case sect
    then show ?thesis
      by (auto simp: accepts_def v uiox_ks_img_check_version_def verify_fail_def ct_memcmp_0 bytes_at_def
          split: option.splits sum.splits if_splits)
  next
    case loop
    define r3 where "r3 = blank_report\<lparr>header_ok := True, r_kernel_version := ih_kernel_version hdr,
        rollback_ok := True, hash_ok := True, r_payload_hash := h\<rparr>"
    define n where "n = unat (le_word 4 buf (so + 4) :: u32)"
    define out where "out = verify_sigs n buf ks ctx1 h (so + 8) r3 ms"
    have "uiox_ks_verify_image ks ctx ms addr buf = (case out of None \<Rightarrow> None | Some (r4, ms', revoked) \<Rightarrow>
        Some (if revoked then (ctx1, ms', r4)
              else if \<not> sig_ok r4 then verify_fail ctx1 ms' r4 KS_SIG ''no valid signature found''
              else (ctx1, ms', r4\<lparr>r_result := KS_OK\<rparr>)))"
      using loop by (simp add: v uiox_ks_img_check_version_def ct_memcmp_0 bytes_at_def out_def n_def r3_def)
    then have "accepts ks ctx ms addr buf \<longleftrightarrow> (\<exists>r' ms'. out = Some (r', ms', False) \<and> sig_ok r')"
      using verify_sigs_revoked [of n buf ks ctx1 h "so + 8" r3 ms]
      by (auto simp: accepts_def verify_fail_def out_def split: option.splits if_splits)
    also have "\<dots> \<longleftrightarrow> entries_ok ks ctx1 buf h (so + 8) n \<and> some_valid ks ctx1 buf h (so + 8) n"
      unfolding out_def verify_sigs_accepts by (simp add: r3_def blank_report_def)
    finally show ?thesis using loop by (simp add: n_def entries_ok_def some_valid_def ev)
  qed
qed

lemma accepts_iff:
  "accepts ks ctx ms addr buf \<longleftrightarrow>
     512 \<le> length buf \<and> ih_magic (img_hdr_at buf) = UIOX_KS_IMG_MAGIC
     \<and> ih_format_version (img_hdr_at buf) \<in> {1, 2}
     \<and> v_min_kernel_version ctx \<le> ih_kernel_version (img_hdr_at buf)
     \<and> (\<exists>h so. uiox_ks_img_hash_payload buf (img_hdr_at buf) = Some (Inr h)
         \<and> ks_memcmp h (ih_payload_hash (img_hdr_at buf)) 32 = 0
         \<and> uiox_ks_img_get_sig_section buf (img_hdr_at buf) = Some (Inr so) \<and> so + 8 \<le> length buf
         \<and> entries_ok ks ctx buf h (so + 8) (unat (le_word 4 buf (so + 4) :: u32))
         \<and> some_valid ks ctx buf h (so + 8) (unat (le_word 4 buf (so + 4) :: u32)))"
proof (cases "uiox_ks_img_parse_hdr buf")
  case (Inl rc)
  have "\<not> accepts ks ctx ms addr buf"
    using Inl img_parse_Inl [OF Inl] by (auto simp: accepts_def uiox_ks_verify_image_def verify_fail_def)
  with Inl show ?thesis using img_parse_Inr [of buf "img_hdr_at buf"] by auto
next
  case (Inr hdr)
  then have "hdr = img_hdr_at buf" and "512 \<le> length buf" and "ih_magic hdr = UIOX_KS_IMG_MAGIC"
    and "ih_format_version hdr \<in> {1, 2}" by (auto simp: img_parse_Inr)
  then show ?thesis using accepts_parsed [OF Inr] by simp
qed

text \<open>C7: which images are accepted.  Exactly those with a header of the right magic and a known
  version, a kernel version not below the minimum, a payload inside the image whose SHA-256 is the
  one the header states, and a signature section whose entries all lie in the image, none of them by
  a revoked key, at least one of them valid for the payload hash.
\<close>

theorem verify_image_accepts_iff:
  "accepts ks ctx ms addr buf \<longleftrightarrow>
     512 \<le> length buf \<and> ih_magic (img_hdr_at buf) = UIOX_KS_IMG_MAGIC
     \<and> ih_format_version (img_hdr_at buf) \<in> {1, 2}
     \<and> v_min_kernel_version ctx \<le> ih_kernel_version (img_hdr_at buf)
     \<and> (\<exists>h so. uiox_ks_img_hash_payload buf (img_hdr_at buf) = Some (Inr h)
         \<and> ks_memcmp h (ih_payload_hash (img_hdr_at buf)) 32 = 0
         \<and> uiox_ks_img_get_sig_section buf (img_hdr_at buf) = Some (Inr so) \<and> so + 8 \<le> length buf
         \<and> entries_ok ks ctx buf h (so + 8) (unat (le_word 4 buf (so + 4) :: u32))
         \<and> some_valid ks ctx buf h (so + 8) (unat (le_word 4 buf (so + 4) :: u32)))"
  by (rule accepts_iff)

text \<open>
  Positions of the header that verification does not look at: name, architecture, minimum version,
  kernel version, load and entry address, SHA-384, signing key id, algorithm, build data, flags.
\<close>

definition unread :: "nat \<Rightarrow> bool" where
  "unread i \<longleftrightarrow> (8 \<le> i \<and> i < 84) \<or> (132 \<le> i \<and> i < 180) \<or> (192 \<le> i \<and> i < 512)"

definition same_checked :: "u8 list \<Rightarrow> u8 list \<Rightarrow> bool" where
  "same_checked buf buf' \<longleftrightarrow> length buf = length buf' \<and>
     (\<forall>i<length buf. \<not> unread i \<longrightarrow> buf ! i = buf' ! i)"

lemma same_checked_fields:
  assumes "same_checked buf buf'" and "512 \<le> length buf"
  shows "ih_magic (img_hdr_at buf) = ih_magic (img_hdr_at buf')"
    and "ih_format_version (img_hdr_at buf) = ih_format_version (img_hdr_at buf')"
    and "ih_payload_offset (img_hdr_at buf) = ih_payload_offset (img_hdr_at buf')"
    and "ih_payload_size (img_hdr_at buf) = ih_payload_size (img_hdr_at buf')"
    and "ih_payload_hash (img_hdr_at buf) = ih_payload_hash (img_hdr_at buf')"
    and "ih_sig_section_offset (img_hdr_at buf) = ih_sig_section_offset (img_hdr_at buf')"
    and "ih_sig_section_size (img_hdr_at buf) = ih_sig_section_size (img_hdr_at buf')"
proof -
  have w: "le_word k buf i = le_word k buf' i" if "\<forall>j. i \<le> j \<and> j < i + k \<longrightarrow> \<not> unread j \<and> j < 512" for k i
    by (rule le_word_cong) (use that assms in \<open>auto simp: same_checked_def\<close>)
  have u: "\<not> unread j" if "j < 8 \<or> 84 \<le> j \<and> j < 132 \<or> 180 \<le> j \<and> j < 192" for j
    using that by (auto simp: unread_def)
  show "ih_magic (img_hdr_at buf) = ih_magic (img_hdr_at buf')"
    and "ih_format_version (img_hdr_at buf) = ih_format_version (img_hdr_at buf')"
    and "ih_payload_offset (img_hdr_at buf) = ih_payload_offset (img_hdr_at buf')"
    and "ih_payload_size (img_hdr_at buf) = ih_payload_size (img_hdr_at buf')"
    and "ih_sig_section_offset (img_hdr_at buf) = ih_sig_section_offset (img_hdr_at buf')"
    and "ih_sig_section_size (img_hdr_at buf) = ih_sig_section_size (img_hdr_at buf')"
    by (simp_all add: img_hdr_at_def, (rule w, simp add: u)+)
  show "ih_payload_hash (img_hdr_at buf) = ih_payload_hash (img_hdr_at buf')"
    using assms u by (auto simp: img_hdr_at_def slice_def same_checked_def list_eq_iff_nth_eq)
qed

lemma same_checked_tail:
  assumes "same_checked buf buf'" and "512 \<le> p"
  shows "bytes_at buf p n = bytes_at buf' p n" and "drop p buf = drop p buf'"
    and "p + k \<le> length buf \<Longrightarrow> le_word k buf p = le_word k buf' p"
proof -
  have at: "buf ! i = buf' ! i" if "p \<le> i" "i < length buf" for i
    using assms that by (auto simp: same_checked_def unread_def)
  have l: "length buf = length buf'" using assms by (simp add: same_checked_def)
  show d: "drop p buf = drop p buf'"
    by (rule nth_equalityI) (use at l in \<open>auto\<close>)
  show "bytes_at buf p n = bytes_at buf' p n" by (simp add: bytes_at_def slice_def d l)
  assume "p + k \<le> length buf"
  then show "le_word k buf p = le_word k buf' p" by (intro le_word_cong at) auto
qed

lemma same_checked_verdict:
  assumes "same_checked buf buf'" and "512 \<le> p"
  shows "entry_verdict ks ctx buf h p = entry_verdict ks ctx buf' h p"
proof -
  have b: "bytes_at buf q n = bytes_at buf' q n" "drop q buf = drop q buf'" if "512 \<le> q" for q n
    using same_checked_tail [OF assms(1) that] by auto
  have w: "le_word 4 buf (p + 36) = (le_word 4 buf' (p + 36) :: u32)" if "bytes_at buf (p + 36) 4 = Some x" for x
    using that same_checked_tail(3) [OF assms(1), of "p + 36" 4] assms(2)
    by (auto simp: bytes_at_def split: if_splits)
  have e: "uiox_ks_verify_sig_entry ks buf p h = uiox_ks_verify_sig_entry ks buf' p h"
    using assms(2) w by (auto simp: uiox_ks_verify_sig_entry_def b split: option.split)
  show ?thesis unfolding entry_verdict_def b(1) [OF assms(2)] e ..
qed

text \<open>C13: only the payload is authenticated.  From an accepted image whose payload and signatures lie
  behind the header, any change of the entry address, the load address, the kernel version (not below
  the minimum), the SHA-384 and the key id that are measured, or the other unread fields gives an
  accepted image again.
\<close>

theorem header_not_authenticated:
  assumes "accepts ks ctx ms addr buf" and "same_checked buf buf'"
    and "512 \<le> unat (ih_payload_offset (img_hdr_at buf))"
    and "512 \<le> unat (ih_sig_section_offset (img_hdr_at buf))"
    and "v_min_kernel_version ctx' \<le> ih_kernel_version (img_hdr_at buf')"
    and "v_current_time_unix ctx' = v_current_time_unix ctx"
  shows "accepts ks ctx' ms' addr' buf'"
proof -
  define hdr hdr' where "hdr = img_hdr_at buf" and "hdr' = img_hdr_at buf'"
  obtain h so where a: "512 \<le> length buf" "ih_magic hdr = UIOX_KS_IMG_MAGIC" "ih_format_version hdr \<in> {1, 2}"
    "uiox_ks_img_hash_payload buf hdr = Some (Inr h)" "ks_memcmp h (ih_payload_hash hdr) 32 = 0"
    "uiox_ks_img_get_sig_section buf hdr = Some (Inr so)" "so + 8 \<le> length buf"
    "entries_ok ks ctx buf h (so + 8) (unat (le_word 4 buf (so + 4) :: u32))"
    "some_valid ks ctx buf h (so + 8) (unat (le_word 4 buf (so + 4) :: u32))"
    using assms(1) unfolding accepts_iff hdr_def by blast
  have l: "length buf' = length buf" using assms(2) by (simp add: same_checked_def)
  note f = same_checked_fields [OF assms(2) a(1), folded hdr_def hdr'_def]
  note t = same_checked_tail [OF assms(2)]
  have so: "so = unat (ih_sig_section_offset hdr)" "512 \<le> so" using a(6) assms(4)
    by (auto simp: uiox_ks_img_get_sig_section_def hdr_def Let_def split: if_splits option.splits)
  have op: "512 \<le> unat (ih_payload_offset hdr)" using assms(3) by (simp add: hdr_def)
  have p: "uiox_ks_img_hash_payload buf' hdr' = Some (Inr h)"
    using a(4) unfolding uiox_ks_img_hash_payload_def l f [symmetric] t(1) [OF op, symmetric] .
  have m: "le_word 4 buf' so = (le_word 4 buf so :: u32)" by (rule t(3) [OF so(2), symmetric]) (use a(7) in simp)
  have s: "uiox_ks_img_get_sig_section buf' hdr' = Some (Inr so)"
    using a(6) unfolding uiox_ks_img_get_sig_section_def Let_def l f [symmetric] so(1) [symmetric]
      t(1) [OF so(2), symmetric] m .
  have c: "le_word 4 buf' (so + 4) = (le_word 4 buf (so + 4) :: u32)"
    by (rule t(3) [symmetric]) (use so(2) a(7) in simp_all)
  have v: "entry_verdict ks ctx' buf' h (so + 8 + k) = entry_verdict ks ctx buf h (so + 8 + k)" for k
    using same_checked_verdict [OF assms(2), of "so + 8 + k" ks ctx h] so(2)
      entry_verdict_ctx [OF assms(6), of ks buf' h "so + 8 + k"] by simp
  have "entries_ok ks ctx' buf' h (so + 8) (unat (le_word 4 buf' (so + 4) :: u32))"
    and "some_valid ks ctx' buf' h (so + 8) (unat (le_word 4 buf' (so + 4) :: u32))"
    using a(8,9) by (simp_all only: c entries_ok_def some_valid_def v)
  then show ?thesis unfolding accepts_iff hdr'_def [symmetric]
    using a assms(5) p s l f by (auto simp: hdr'_def)
qed

section \<open>An image made without a key\<close>

lemma concat_split:
  assumes "j < length ps"
  shows "concat ps = concat (take j ps) @ ps ! j @ concat (drop (Suc j) ps)"
proof -
  have "ps = take j ps @ ps ! j # drop (Suc j) ps" using assms by (rule id_take_nth_drop)
  then have "concat ps = concat (take j ps @ ps ! j # drop (Suc j) ps)" by simp
  then show ?thesis by simp
qed

lemma le_word_part:
  fixes w :: "'a::len word"
  assumes "j < length ps" and "ps ! j = le_bytes k w" and "length (concat (take j ps)) = i"
    and "LENGTH('a) = 8 * k"
  shows "le_word k (concat ps) i = w"
proof -
  have "le_word k (concat ps) i = take_bit (8 * k) w"
    unfolding concat_split [OF assms(1)] assms(2) assms(3) [symmetric] by (rule le_word_take_bit)
  then show ?thesis by (simp add: assms(4) [symmetric])
qed

lemma slice_part:
  assumes "j < length ps" and "length (concat (take j ps)) = i" and "length (ps ! j) = n"
  shows "slice i n (concat ps) = ps ! j"
  unfolding concat_split [OF assms(1)] slice_def assms(2,3) [symmetric] by simp

definition forge_parts :: "u64 \<Rightarrow> u8 list \<Rightarrow> u8 list \<Rightarrow> u8 list list" where
  "forge_parts entry payload kid =
    [le_bytes 4 UIOX_KS_IMG_MAGIC, le_bytes 4 UIOX_KS_FORMAT_VERSION, replicate 56 0,
     le_bytes 4 (0xFFFFFFFF :: u32), replicate 8 0, le_bytes 8 entry, le_bytes 8 (512 :: u64),
     le_bytes 8 (of_nat (length payload) :: u64), sha256_spec payload, replicate 48 0,
     le_bytes 8 (of_nat (512 + length payload) :: u64), le_bytes 4 (564 :: u32), replicate 320 0,
     payload,
     le_bytes 4 UIOX_KS_SIG_MAGIC, le_bytes 4 (1 :: u32), kid, le_bytes 4 UIOX_KS_ALG_RSA2048_SHA256,
     le_bytes 4 (32 :: u32), sha256_spec (sha256_spec payload @ rsa_salt), replicate 484 0]"

definition forge :: "u64 \<Rightarrow> u8 list \<Rightarrow> u8 list \<Rightarrow> u8 list" where
  "forge entry payload kid = concat (forge_parts entry payload kid)"

lemma forge_length: "length kid = 32 \<Longrightarrow> length (forge entry payload kid) = 1076 + length payload"
  by (simp add: forge_def forge_parts_def)

lemma forge_header:
  "ih_magic (img_hdr_at (forge entry payload kid)) = UIOX_KS_IMG_MAGIC"
  "ih_format_version (img_hdr_at (forge entry payload kid)) = UIOX_KS_FORMAT_VERSION"
  "ih_kernel_version (img_hdr_at (forge entry payload kid)) = 0xFFFFFFFF"
  "ih_entry_addr (img_hdr_at (forge entry payload kid)) = entry"
  "ih_payload_offset (img_hdr_at (forge entry payload kid)) = 512"
  "ih_payload_size (img_hdr_at (forge entry payload kid)) = of_nat (length payload)"
  "ih_sig_section_offset (img_hdr_at (forge entry payload kid)) = of_nat (512 + length payload)"
  "ih_sig_section_size (img_hdr_at (forge entry payload kid)) = 564"
  "ih_payload_hash (img_hdr_at (forge entry payload kid)) = sha256_spec payload"
proof -
  note d = img_hdr_at_def forge_def
  show "ih_magic (img_hdr_at (forge entry payload kid)) = UIOX_KS_IMG_MAGIC"
    by (simp add: d) (rule le_word_part [of 0]; simp add: forge_parts_def)
  show "ih_format_version (img_hdr_at (forge entry payload kid)) = UIOX_KS_FORMAT_VERSION"
    by (simp add: d) (rule le_word_part [of 1]; simp add: forge_parts_def)
  show "ih_kernel_version (img_hdr_at (forge entry payload kid)) = 0xFFFFFFFF"
    by (simp add: d) (rule le_word_part [of 3]; simp add: forge_parts_def)
  show "ih_entry_addr (img_hdr_at (forge entry payload kid)) = entry"
    by (simp add: d) (rule le_word_part [of 5]; simp add: forge_parts_def)
  show "ih_payload_offset (img_hdr_at (forge entry payload kid)) = 512"
    by (simp add: d) (rule le_word_part [of 6]; simp add: forge_parts_def)
  show "ih_payload_size (img_hdr_at (forge entry payload kid)) = of_nat (length payload)"
    by (simp add: d) (rule le_word_part [of 7]; simp add: forge_parts_def)
  show "ih_sig_section_offset (img_hdr_at (forge entry payload kid)) = of_nat (512 + length payload)"
    by (simp add: d) (rule le_word_part [of 10]; simp add: forge_parts_def)
  show "ih_sig_section_size (img_hdr_at (forge entry payload kid)) = 564"
    by (simp add: d) (rule le_word_part [of 11]; simp add: forge_parts_def)
  show "ih_payload_hash (img_hdr_at (forge entry payload kid)) = sha256_spec payload"
    using slice_part [of 8 "forge_parts entry payload kid" 100 32] by (simp add: d) (simp add: forge_parts_def)
qed

lemma forge_section:
  assumes "length kid = 32"
  shows "slice 512 (length payload) (forge entry payload kid) = payload"
    and "le_word 4 (forge entry payload kid) (512 + length payload) = UIOX_KS_SIG_MAGIC"
    and "le_word 4 (forge entry payload kid) (516 + length payload) = (1 :: u32)"
    and "slice (520 + length payload) 32 (forge entry payload kid) = kid"
    and "le_word 4 (forge entry payload kid) (556 + length payload) = (32 :: u32)"
    and "slice (560 + length payload) 32 (forge entry payload kid) = sha256_spec (sha256_spec payload @ rsa_salt)"
proof -
  show "slice 512 (length payload) (forge entry payload kid) = payload"
    using slice_part [of 13 "forge_parts entry payload kid" 512 "length payload"]
    by (simp add: forge_def) (simp add: forge_parts_def)
  show "le_word 4 (forge entry payload kid) (512 + length payload) = UIOX_KS_SIG_MAGIC"
    unfolding forge_def by (rule le_word_part [of 14]; simp add: forge_parts_def)
  show "le_word 4 (forge entry payload kid) (516 + length payload) = (1 :: u32)"
    unfolding forge_def by (rule le_word_part [of 15]; simp add: forge_parts_def)
  show "slice (520 + length payload) 32 (forge entry payload kid) = kid"
    using slice_part [of 16 "forge_parts entry payload kid" "520 + length payload" 32] assms
    by (simp add: forge_def) (simp add: forge_parts_def)
  show "le_word 4 (forge entry payload kid) (556 + length payload) = (32 :: u32)"
    unfolding forge_def by (rule le_word_part [of 18]; simp add: forge_parts_def assms)
  show "slice (560 + length payload) 32 (forge entry payload kid) = sha256_spec (sha256_spec payload @ rsa_salt)"
    using slice_part [of 19 "forge_parts entry payload kid" "560 + length payload" 32] assms
    by (simp add: forge_def) (simp add: forge_parts_def)
qed

lemma forge_accepted:
  assumes "length kid = 32" and "length payload < 2 ^ 32"
    and "uiox_ks_keystore_find ks kid = Some key"
    and "ke_alg key = UIOX_KS_ALG_RSA2048_SHA256 \<or> ke_alg key = UIOX_KS_ALG_RSA4096_SHA256"
    and "fst (uiox_ks_key_check_valid key (ks_krl ks) (v_current_time_unix ctx)) = KS_OK"
    and "uiox_ks_verify_cert_chain ks ctx kid = KS_OK"
  shows "accepts ks ctx ms addr (forge entry payload kid)"
proof -
  define buf where "buf = forge entry payload kid"
  define n where "n = length payload"
  define hdr where "hdr = img_hdr_at buf"
  define h where "h = sha256_spec payload"
  have len: "length buf = 1076 + n" using assms(1) by (simp add: buf_def n_def forge_length)
  have n32: "n < 2 ^ 32" using assms(2) by (simp add: n_def)
  have un: "unat (of_nat (512 + n) :: u64) = 512 + n" "unat (of_nat n :: u64) = n"
    using n32 by (simp_all only: unat_of_nat) simp_all
  note f = forge_header [where entry = entry and payload = payload and kid = kid, folded buf_def hdr_def n_def h_def]
  note s = forge_section [OF assms(1), where payload = payload and entry = entry, folded buf_def n_def h_def]
  have lt: "\<not> (of_nat (length buf) :: u64) < a + b" if "unat a + unat b \<le> length buf" for a b :: u64
  proof -
    have "unat (a + b) \<le> unat a + unat b" by (simp add: unat_word_ariths)
    moreover have "unat (of_nat (length buf) :: u64) = length buf"
      unfolding len unat_of_nat using n32 by simp
    ultimately show ?thesis using that by (simp add: word_less_nat_alt not_less)
  qed
  have p: "uiox_ks_img_hash_payload buf hdr = Some (Inr h)"
    unfolding uiox_ks_img_hash_payload_def f using lt [of 512 "of_nat n"] un len s(1)
    by (simp add: bytes_at_def h_def uiox_ks_sha256_spec)
  have sec: "uiox_ks_img_get_sig_section buf hdr = Some (Inr (512 + n))"
  proof -
    have "(of_nat (512 + n) :: u64) \<noteq> 0" using un(1) by (metis add_is_0 numeral_neq_zero unat_0)
    moreover have "unat (ucast (564 :: u32) :: u64) = 564" by simp
    ultimately show ?thesis
      unfolding uiox_ks_img_get_sig_section_def f Let_def un(1)
      using lt [of "of_nat (512 + n)" "ucast (564 :: u32)"] un(1) len s(2)
      by (simp add: bytes_at_def UIOX_KS_FORMAT_VERSION_def UIOX_KS_FORMAT_VERSION_1_def del: of_nat_add)
  qed
  have rsa: "uiox_ks_rsa_verify (ke_rsa key) (drop (560 + n) buf) 32 h = Some KS_OK"
  proof -
    have "slice 0 32 (drop (560 + n) buf) = sha256_spec (h @ rsa_salt)" using s(6) by (simp add: slice_def)
    then show ?thesis using len by (subst rsa_verify_alt) (simp_all add: h_def)
  qed
  have kid: "bytes_at buf (520 + n) 32 = Some kid" using len s(4) by (simp add: bytes_at_def)
  have v: "entry_verdict ks ctx buf h (520 + n) = Some Valid"
  proof -
    have "uiox_ks_verify_sig_entry ks buf (520 + n) h = Some KS_OK"
      unfolding uiox_ks_verify_sig_entry_def kid option.case assms(3)
      using assms(4) rsa s(5) len by (simp add: bytes_at_def add.commute [of _ n] add.assoc)
    then show ?thesis unfolding entry_verdict_def kid option.case assms(3) using assms(5,6) by simp
  qed
  have c: "le_word 4 buf (512 + n + 4) = (1 :: u32)" using s(3) by simp
  have e: "entries_ok ks ctx buf h (512 + n + 8) (unat (le_word 4 buf (512 + n + 4) :: u32))"
    "some_valid ks ctx buf h (512 + n + 8) (unat (le_word 4 buf (512 + n + 4) :: u32))"
    unfolding c using v by (simp_all add: entries_ok_def some_valid_def)
  have "unat (v_min_kernel_version ctx) < 2 ^ LENGTH(32)" by (rule unsigned_less)
  then have "v_min_kernel_version ctx \<le> 0xFFFFFFFF" by (simp add: word_le_nat_alt)
  then show ?thesis unfolding buf_def [symmetric] accepts_iff hdr_def [symmetric]
    using len p sec e f by (auto simp: UIOX_KS_FORMAT_VERSION_def ks_memcmp_eq h_def)
qed

text \<open>C25: signatures need no key.  For any payload, any entry address and the id of any RSA key that the
  store trusts, the image \<open>forge entry payload kid\<close>, which is computed from public data only, is
  accepted, whatever the minimum version is.
\<close>

theorem forged_image_accepted:
  assumes "length kid = 32" and "length payload < 2 ^ 32"
    and "uiox_ks_keystore_find ks kid = Some key"
    and "ke_alg key = UIOX_KS_ALG_RSA2048_SHA256 \<or> ke_alg key = UIOX_KS_ALG_RSA4096_SHA256"
    and "fst (uiox_ks_key_check_valid key (ks_krl ks) (v_current_time_unix ctx)) = KS_OK"
    and "uiox_ks_verify_cert_chain ks ctx kid = KS_OK"
  shows "accepts ks ctx ms addr (forge entry payload kid)
    \<and> ih_entry_addr (img_hdr_at (forge entry payload kid)) = entry"
  using forge_accepted [OF assms, of ms addr entry] by (simp add: forge_header(4))

lemma root_store_trusts:
  "uiox_ks_keystore_find root_store (replicate 32 1) = Some root_key"
  "ke_alg root_key = UIOX_KS_ALG_RSA2048_SHA256"
  "fst (uiox_ks_key_check_valid root_key (ks_krl root_store) t) = KS_OK"
  "uiox_ks_verify_cert_chain root_store ctx (replicate 32 1) = KS_OK"
proof -
  show f: "uiox_ks_keystore_find root_store (replicate 32 1) = Some root_key"
    by (simp add: uiox_ks_keystore_find_def root_store_def root_key_def blank_key_def ks_memcmp_0)
  show "ke_alg root_key = UIOX_KS_ALG_RSA2048_SHA256" by (simp add: root_key_def blank_key_def)
  show "fst (uiox_ks_key_check_valid root_key (ks_krl root_store) t) = KS_OK"
    by (simp add: uiox_ks_key_check_valid_def root_key_def blank_key_def root_store_def Let_def)
  have "fst (walk_chain 16 root_store (replicate 32 1) None (v_current_time_unix ctx) False) = KS_OK"
    using root_store_anchored unfolding walk_chain_anchored by (intro exI [of _ 0]) simp
  then show "uiox_ks_verify_cert_chain root_store ctx (replicate 32 1) = KS_OK"
    unfolding uiox_ks_verify_cert_chain_def f
    by (simp add: uiox_ks_key_walk_chain_def UIOX_KS_MAX_KEYS_def root_store_def root_key_def)
qed

theorem forged_image_accepted_witness:
  "accepts root_store (uiox_ks_verify_init 9) None 0x1000 (forge 0xBAD [0x90, 0xF4] (replicate 32 1))
    \<and> ih_entry_addr (img_hdr_at (forge 0xBAD [0x90, 0xF4] (replicate 32 1))) = 0xBAD"
  by (rule forged_image_accepted [where key = root_key]) (simp_all add: root_store_trusts)

definition patched_image :: "u8 list" where
  "patched_image = put_le 8 76 (0xE1E1 :: u64) (forge 0x1000 [0x90] (replicate 32 1))"

theorem header_not_authenticated_witness:
  "accepts root_store (uiox_ks_verify_init 9) None 0x1000 patched_image"
proof (rule header_not_authenticated [where buf = "forge 0x1000 [0x90] (replicate 32 1)" and ctx = "uiox_ks_verify_init 0"
      and ms = None and addr = 0])
  show "accepts root_store (uiox_ks_verify_init 0) None 0 (forge 0x1000 [0x90] (replicate 32 1))"
    by (rule forge_accepted [where key = root_key]) (simp_all add: root_store_trusts)
  have l: "length (forge 0x1000 [0x90] (replicate 32 1)) = 1077" by (simp add: forge_length)
  show "same_checked (forge 0x1000 [0x90] (replicate 32 1)) patched_image"
    by (auto simp: same_checked_def patched_image_def put_le_def l put_bytes_nth unread_def)
  have "ih_kernel_version (img_hdr_at patched_image) = ih_kernel_version (img_hdr_at (forge 0x1000 [0x90] (replicate 32 1)))"
    by (simp add: img_hdr_at_def) (rule le_word_cong, simp add: patched_image_def put_le_def l put_bytes_nth)
  then show "v_min_kernel_version (uiox_ks_verify_init 9) \<le> ih_kernel_version (img_hdr_at patched_image)"
    by (simp add: forge_header uiox_ks_verify_init_def)
qed (simp_all add: forge_header uiox_ks_verify_init_def)

section \<open>The boot always stops\<close>

text \<open>C22: nothing adds keys.  The boot sequence verifies against the store it has just emptied, so for
  every image, platform and memory the boot entry halts or reads outside the image; it never
  reaches the kernel.  With the size 0 that \<open>uiox_kernel_main\<close> passes it halts.
\<close>

theorem boot_never_reaches_kernel:
  "uiox_ks_boot_entry pl rep mem addr buf rodata_base rodata_size \<in> {None, Some Halted}
    \<and> uiox_ks_boot_entry pl rep mem addr [] rodata_base rodata_size = Some Halted"
proof -
  define s0 where "s0 = uiox_ks_boot_init pl rep"
  have none: "uiox_ks_keystore_find (g_keystore s0) kid = None" for kid
    by (simp add: s0_def uiox_ks_boot_init_def uiox_ks_keystore_init_def uiox_ks_keystore_find_def)
  have "\<not> some_valid (g_keystore s0) ctx b h p n" for ctx b h p n
    by (auto simp: some_valid_def entry_verdict_def none split: option.splits)
  then have no: "\<not> accepts (g_keystore s0) ctx ms a b" for ctx ms a b
    unfolding accepts_iff by blast
  have rc: "rc \<noteq> KS_OK" if "uiox_ks_boot_verify addr buf s0 = Some (s1, rc)" for s1 rc
    using that no [of "g_verify_ctx s0" "Some (g_measure_ctx s0)" addr buf]
    by (auto simp: uiox_ks_boot_verify_def accepts_def split: if_splits option.splits)
  have "uiox_ks_boot_entry pl rep mem addr buf rodata_base rodata_size \<in> {None, Some Halted}"
    using rc by (auto simp: uiox_ks_boot_entry_def s0_def [symmetric] split: option.splits)
  moreover have "uiox_ks_boot_entry pl rep mem addr [] rodata_base rodata_size = Some Halted"
    by (simp add: uiox_ks_boot_entry_def uiox_ks_boot_verify_def)
  ultimately show ?thesis ..
qed

section \<open>What the runtime monitor reports\<close>

definition region_bad :: "memory \<Rightarrow> rt_region \<Rightarrow> bool" where
  "region_bad mem r \<longleftrightarrow>
     ks_memcmp (uiox_ks_sha256 (mem_bytes mem (rg_base r) (rg_size r))) (rg_expected r) 32 \<noteq> 0"

text \<open>One check: what it returns, and that it touches its own region only, and there the time and the counter.\<close>

lemma rt_check_region_result:
  assumes "i < length (rt_regions ctx)"
  shows "snd (rt_check_region mem clk i (ctx, ms)) \<noteq> KS_OK \<longleftrightarrow> region_bad mem (rt_regions ctx ! i)"
    and "\<exists>v. rt_regions (fst (fst (rt_check_region mem clk i (ctx, ms)))) =
       (rt_regions ctx)[i := (rt_regions ctx ! i)\<lparr>rg_last_check := clk, rg_violations := v\<rparr>]"
    and "rt_initialized (fst (fst (rt_check_region mem clk i (ctx, ms)))) = rt_initialized ctx"
proof -
  show "snd (rt_check_region mem clk i (ctx, ms)) \<noteq> KS_OK \<longleftrightarrow> region_bad mem (rt_regions ctx ! i)"
    by (simp add: rt_check_region_def region_bad_def Let_def)
  show "rt_initialized (fst (fst (rt_check_region mem clk i (ctx, ms)))) = rt_initialized ctx"
    by (simp add: rt_check_region_def Let_def)
  define r where "r = rt_regions ctx ! i"
  show "\<exists>v. rt_regions (fst (fst (rt_check_region mem clk i (ctx, ms)))) =
       (rt_regions ctx)[i := (rt_regions ctx ! i)\<lparr>rg_last_check := clk, rg_violations := v\<rparr>]"
  proof (cases "region_bad mem r")
    case True
    then have "rt_regions (fst (fst (rt_check_region mem clk i (ctx, ms)))) =
        (rt_regions ctx)[i := r\<lparr>rg_last_check := clk, rg_violations := rg_violations r + 1\<rparr>]"
      by (simp add: rt_check_region_def region_bad_def r_def Let_def)
    then show ?thesis unfolding r_def by blast
  next
    case False
    then have "rt_regions (fst (fst (rt_check_region mem clk i (ctx, ms)))) =
        (rt_regions ctx)[i := r\<lparr>rg_last_check := clk, rg_violations := rg_violations r\<rparr>]"
      by (simp add: rt_check_region_def region_bad_def r_def Let_def)
    then show ?thesis unfolding r_def by blast
  qed
qed

text \<open>The scan: the flag, and the regions after it.\<close>

definition scan_step :: "memory \<Rightarrow> (nat \<Rightarrow> u64) \<Rightarrow> (rt_region \<Rightarrow> bool) \<Rightarrow> nat
    \<Rightarrow> (rt_ctx \<times> measure_ctx option) \<times> bool \<Rightarrow> (rt_ctx \<times> measure_ctx option) \<times> bool" where
  "scan_step mem clk due = (\<lambda>i (s, any). if rg_active (rt_regions (fst s) ! i) \<and> due (rt_regions (fst s) ! i)
        then (case rt_check_region mem (clk i) i s of (s', rc) \<Rightarrow> (s', any \<or> rc \<noteq> KS_OK))
        else (s, any))"

lemma rt_scan_steps:
  fixes mem clk due s
  defines "R0 \<equiv> rt_regions (fst s)"
  assumes "k \<le> length R0"
  shows "length (rt_regions (fst (fst (fold (scan_step mem clk due) [0..<k] (s, False))))) = length R0
    \<and> rt_initialized (fst (fst (fold (scan_step mem clk due) [0..<k] (s, False)))) = rt_initialized (fst s)
    \<and> (snd (fold (scan_step mem clk due) [0..<k] (s, False)) \<longleftrightarrow>
         (\<exists>i<k. rg_active (R0 ! i) \<and> due (R0 ! i) \<and> region_bad mem (R0 ! i)))
    \<and> (\<forall>i<length R0. \<exists>v. rt_regions (fst (fst (fold (scan_step mem clk due) [0..<k] (s, False)))) ! i =
         (if i < k \<and> rg_active (R0 ! i) \<and> due (R0 ! i)
          then (R0 ! i)\<lparr>rg_last_check := clk i, rg_violations := v\<rparr> else R0 ! i))"
  using assms(2)
proof (induction k)
  case 0
  then show ?case by (simp add: R0_def)
next
  case (Suc k)
  define q any where "q = fst (fold (scan_step mem clk due) [0..<k] (s, False))"
    and "any = snd (fold (scan_step mem clk due) [0..<k] (s, False))"
  obtain ctx ms where q: "q = (ctx, ms)" by (cases q)
  have k: "k < length R0" using Suc.prems by simp
  have IH: "length (rt_regions ctx) = length R0" "rt_initialized ctx = rt_initialized (fst s)"
    "any \<longleftrightarrow> (\<exists>i<k. rg_active (R0 ! i) \<and> due (R0 ! i) \<and> region_bad mem (R0 ! i))"
    "\<And>i. i < length R0 \<Longrightarrow> \<exists>v. rt_regions ctx ! i = (if i < k \<and> rg_active (R0 ! i) \<and> due (R0 ! i)
          then (R0 ! i)\<lparr>rg_last_check := clk i, rg_violations := v\<rparr> else R0 ! i)"
    using Suc.IH k by (auto simp: q_def [symmetric] any_def [symmetric] q)
  have cur: "rt_regions ctx ! k = R0 ! k" using IH(4) [OF k] by simp
  have f: "fold (scan_step mem clk due) [0..<Suc k] (s, False) = scan_step mem clk due k ((ctx, ms), any)"
    by (simp add: q [symmetric] q_def any_def)
  show ?case
  proof (cases "rg_active (R0 ! k) \<and> due (R0 ! k)")
    case False
    then have st: "scan_step mem clk due k ((ctx, ms), any) = ((ctx, ms), any)"
      by (auto simp: scan_step_def cur)
    have "\<exists>v. rt_regions ctx ! i = (if i < Suc k \<and> rg_active (R0 ! i) \<and> due (R0 ! i)
          then (R0 ! i)\<lparr>rg_last_check := clk i, rg_violations := v\<rparr> else R0 ! i)" if "i < length R0" for i
      using IH(4) [OF that] False by (cases "i = k") (auto simp: less_Suc_eq)
    then show ?thesis unfolding f st using IH(1,2,3) False by (auto simp: less_Suc_eq)
  next
    case True
    have kl: "k < length (rt_regions ctx)" using k IH(1) by simp
    define c where "c = rt_check_region mem (clk k) k (ctx, ms)"
    have st: "scan_step mem clk due k ((ctx, ms), any) = (fst c, any \<or> snd c \<noteq> KS_OK)"
      using True by (simp add: scan_step_def cur c_def split_beta)
    note res = rt_check_region_result [OF kl, of mem "clk k" ms, folded c_def, unfolded cur]
    obtain v where v: "rt_regions (fst (fst c)) =
        (rt_regions ctx)[k := (R0 ! k)\<lparr>rg_last_check := clk k, rg_violations := v\<rparr>]" using res(2) by blast
    have "\<exists>v. rt_regions (fst (fst c)) ! i = (if i < Suc k \<and> rg_active (R0 ! i) \<and> due (R0 ! i)
          then (R0 ! i)\<lparr>rg_last_check := clk i, rg_violations := v\<rparr> else R0 ! i)" if "i < length R0" for i
      using IH(4) [OF that] True kl by (cases "i = k") (auto simp: v less_Suc_eq)
    then show ?thesis unfolding f st using IH(1,2,3) True res(1,3) by (auto simp: v less_Suc_eq)
  qed
qed

lemma rt_scan_eq: "rt_scan mem clk due s =
    fold (scan_step mem clk due) [0..<length (rt_regions (fst s))] (s, False)"
  by (simp add: rt_scan_def scan_step_def)

lemma rt_scan_after:
  "rt_initialized (fst (fst (rt_scan mem clk due s))) = rt_initialized (fst s)"
  "length (rt_regions (fst (fst (rt_scan mem clk due s)))) = length (rt_regions (fst s))"
  "i < length (rt_regions (fst s)) \<Longrightarrow> \<exists>v. rt_regions (fst (fst (rt_scan mem clk due s))) ! i =
     (if rg_active (rt_regions (fst s) ! i) \<and> due (rt_regions (fst s) ! i)
      then (rt_regions (fst s) ! i)\<lparr>rg_last_check := clk i, rg_violations := v\<rparr> else rt_regions (fst s) ! i)"
  unfolding rt_scan_eq using rt_scan_steps [of "length (rt_regions (fst s))" s mem clk due]
  by simp_all

lemma rt_scan_any:
  "snd (rt_scan mem clk due s) \<longleftrightarrow>
    (\<exists>r \<in> set (rt_regions (fst s)). rg_active r \<and> due r \<and> region_bad mem r)"
proof -
  have "snd (rt_scan mem clk due s) \<longleftrightarrow> (\<exists>i<length (rt_regions (fst s)).
      rg_active (rt_regions (fst s) ! i) \<and> due (rt_regions (fst s) ! i) \<and> region_bad mem (rt_regions (fst s) ! i))"
    unfolding rt_scan_eq using rt_scan_steps [of "length (rt_regions (fst s))" s mem clk due] by simp
  also have "\<dots> \<longleftrightarrow> (\<exists>r \<in> set (rt_regions (fst s)). rg_active r \<and> due r \<and> region_bad mem r)"
    by (metis in_set_conv_nth)
  finally show ?thesis .
qed

lemma rt_tick_state:
  assumes "rt_initialized (fst s)" and "now_ms \<noteq> 0"
  shows "rt_st (fst (uiox_ks_rt_tick mem now0 clk now_ms s)) =
    (if \<exists>r \<in> set (rt_regions (fst s)). rg_active r \<and> rt_due now_ms r \<and> region_bad mem r then RT_TAMPERED else RT_OK)"
  using assms rt_scan_any [of mem clk "rt_due now_ms" s]
  by (simp add: uiox_ks_rt_tick_def split_beta Let_def)

lemma region_bad_stamp [simp]: "region_bad mem (r\<lparr>rg_last_check := l, rg_violations := v\<rparr>) = region_bad mem r"
  by (simp add: region_bad_def)

text \<open>The regions after a tick: the time of the check is new in those that were due.\<close>

lemma rt_tick_regions:
  fixes mem :: memory and now0 now_ms :: u64 and clk :: "nat \<Rightarrow> u64" and s :: "rt_ctx \<times> measure_ctx option"
  assumes "rt_initialized (fst s)" and "now_ms \<noteq> 0"
  defines "s1 \<equiv> uiox_ks_rt_tick mem now0 clk now_ms s"
  shows "rt_initialized (fst s1)" and "length (rt_regions (fst s1)) = length (rt_regions (fst s))"
    and "i < length (rt_regions (fst s)) \<Longrightarrow> \<exists>v. rt_regions (fst s1) ! i =
      (if rg_active (rt_regions (fst s) ! i) \<and> rt_due now_ms (rt_regions (fst s) ! i)
       then (rt_regions (fst s) ! i)\<lparr>rg_last_check := clk i, rg_violations := v\<rparr> else rt_regions (fst s) ! i)"
proof -
  define out where "out = rt_scan mem clk (rt_due now_ms) s"
  have r: "rt_regions (fst s1) = rt_regions (fst (fst out))" "rt_initialized (fst s1) = rt_initialized (fst (fst out))"
    using assms(1,2) by (simp_all add: s1_def uiox_ks_rt_tick_def out_def split_beta Let_def)
  show "rt_initialized (fst s1)" "length (rt_regions (fst s1)) = length (rt_regions (fst s))"
    using rt_scan_after(1,2) [of mem clk "rt_due now_ms" s] assms(1) by (simp_all add: r out_def)
  show "i < length (rt_regions (fst s)) \<Longrightarrow> \<exists>v. rt_regions (fst s1) ! i =
      (if rg_active (rt_regions (fst s) ! i) \<and> rt_due now_ms (rt_regions (fst s) ! i)
       then (rt_regions (fst s) ! i)\<lparr>rg_last_check := clk i, rg_violations := v\<rparr> else rt_regions (fst s) ! i)"
    using rt_scan_after(3) [of i s mem clk "rt_due now_ms"] unfolding r out_def .
qed

lemma rt_tick_state_idx:
  assumes "rt_initialized (fst s)" and "now_ms \<noteq> 0"
  shows "rt_st (fst (uiox_ks_rt_tick mem now0 clk now_ms s)) =
    (if \<exists>i<length (rt_regions (fst s)). rg_active (rt_regions (fst s) ! i) \<and>
        rt_due now_ms (rt_regions (fst s) ! i) \<and> region_bad mem (rt_regions (fst s) ! i) then RT_TAMPERED else RT_OK)"
  unfolding rt_tick_state [OF assms] by (simp add: Bex_def in_set_conv_nth) metis

text \<open>C26: the state of the monitor speaks of the last tick only.  A tick at a time \<open>t\<close> says TAMPERED
  exactly when one of the active regions that have never been checked or were last checked 60
  seconds ago or more has a hash different from the expected one.  The next tick says TAMPERED by the
  same rule, with the regions that the first one checked counted from then on: a changed region that
  the first tick has found does not count until 60 seconds have passed, and the state says OK,
  although the memory is as it was, unless another region is due and changed.
\<close>

theorem violation_forgotten:
  assumes "rt_initialized (fst s)" and "t \<noteq> 0" and "t' \<noteq> 0"
  shows "let R = rt_regions (fst s); s1 = uiox_ks_rt_tick mem now0 clk t s;
      old = (\<lambda>now l. l = 0 \<or> 60000 \<le> now - l);
      checked = (\<lambda>i. if old t (rg_last_check (R ! i)) then clk i else rg_last_check (R ! i)) in
    rt_st (fst s1) = (if \<exists>i<length R. rg_active (R ! i) \<and> old t (rg_last_check (R ! i)) \<and> region_bad mem (R ! i)
      then RT_TAMPERED else RT_OK) \<and>
    rt_st (fst (uiox_ks_rt_tick mem' now0' clk' t' s1)) =
      (if \<exists>i<length R. rg_active (R ! i) \<and> old t' (checked i) \<and> region_bad mem' (R ! i)
       then RT_TAMPERED else RT_OK)"
proof -
  let ?R = "rt_regions (fst s)"
  define s1 where "s1 = uiox_ks_rt_tick mem now0 clk t s"
  let ?due = "\<lambda>now l. l = 0 \<or> 60000 \<le> now - l"
  let ?last = "\<lambda>i. if ?due t (rg_last_check (?R ! i)) then clk i else rg_last_check (?R ! i)"
  have due: "rt_due now r = ?due now (rg_last_check r)" for now r
    by (simp add: rt_due_def UIOX_KS_RT_CHECK_INTERVAL_def)
  note T = rt_tick_regions [where mem = mem and ?now0.0 = now0 and clk = clk, OF assms(1,2), folded s1_def]
  have same: "rg_active (rt_regions (fst s1) ! i) = rg_active (?R ! i) \<and>
      region_bad mem' (rt_regions (fst s1) ! i) = region_bad mem' (?R ! i) \<and>
      (rg_active (?R ! i) \<longrightarrow> rg_last_check (rt_regions (fst s1) ! i) = ?last i)" if i: "i < length ?R" for i
  proof -
    obtain v where "rt_regions (fst s1) ! i = (if rg_active (?R ! i) \<and> rt_due t (?R ! i)
        then (?R ! i)\<lparr>rg_last_check := clk i, rg_violations := v\<rparr> else ?R ! i)" using T(3) [OF i] by blast
    then show ?thesis by (cases "rg_active (?R ! i) \<and> rt_due t (?R ! i)") (auto simp: due)
  qed
  have "(\<exists>i<length (rt_regions (fst s1)). rg_active (rt_regions (fst s1) ! i) \<and> rt_due t' (rt_regions (fst s1) ! i) \<and>
        region_bad mem' (rt_regions (fst s1) ! i)) \<longleftrightarrow>
      (\<exists>i<length ?R. rg_active (?R ! i) \<and> ?due t' (?last i) \<and> region_bad mem' (?R ! i))"
    unfolding T(2) due using same by (intro ex_cong) auto
  then show ?thesis
    using rt_tick_state_idx [OF assms(1,2), of mem now0 clk] rt_tick_state_idx [OF T(1) assms(3), of mem' now0' clk']
    unfolding Let_def s1_def [symmetric] due by simp
qed

definition armed_ctx :: rt_ctx where
  "armed_ctx = (fst (uiox_ks_rt_register_hash (ks_name ''.text'') 0x1000 16 (replicate 32 0) uiox_ks_rt_init))
     \<lparr>rt_st := RT_OK, rt_initialized := True\<rparr>"

lemma armed_ctx_region: "rt_initialized armed_ctx" "\<exists>r. rt_regions armed_ctx = [r] \<and> rg_active r \<and> rg_last_check r = 0"
  by (simp_all add: armed_ctx_def uiox_ks_rt_register_hash_def uiox_ks_rt_init_def uiox_ks_rt_register_def
      UIOX_KS_RT_MAX_REGIONS_def arm_region_def first_idx_def Let_def)

theorem violation_forgotten_witness:
  "rt_st (fst (uiox_ks_rt_tick (\<lambda>a. 0) 5 (\<lambda>i. 5) 70000
     (uiox_ks_rt_tick (\<lambda>a. 0) 5 (\<lambda>i. 20000) 20000 (armed_ctx, None)))) = RT_OK"
  using violation_forgotten [of "(armed_ctx, None)" 20000 70000 "\<lambda>a. 0" 5 "\<lambda>i. 20000" "\<lambda>a. 0" 5 "\<lambda>i. 5"]
    armed_ctx_region
  by (auto simp: Let_def)

text \<open>Nothing is measured after the handoff.  The boot sequence locks the registers before it enters
  the kernel, so no tick of the running kernel, with a clean or a changed region, moves a register
  or the log, and the quote stays the one of the boot.
\<close>

theorem runtime_checks_not_measured:
  assumes "uiox_ks_boot_handoff buf s = Some (Kernel entry s')"
  shows "g_measure_ctx (uiox_ks_scheduler_tick mem now0 clk s') = g_measure_ctx s'
    \<and> uiox_ks_measure_quote (g_measure_ctx (uiox_ks_scheduler_tick mem now0 clk s')) = uiox_ks_measure_quote (g_measure_ctx s)"
proof -
  have s': "s' = s\<lparr>g_measure_ctx := uiox_ks_measure_lock (g_measure_ctx s)\<rparr>"
    using assms by (auto simp: uiox_ks_boot_handoff_def split: if_splits)
  define c where "c = g_measure_ctx s'"
  have lck: "m_locked c" by (simp add: c_def s' uiox_ks_measure_lock_def)
  have chk: "snd (fst (rt_check_region mem cl i (rt, Some c))) = Some c" for cl i rt
    using extend_locked [OF lck]
    by (simp add: rt_check_region_def measure_opt_def uiox_ks_measure_extend_hash_def Let_def)
  have stp: "snd (fst (scan_step mem clk due i (q, any))) = Some c" if "snd q = Some c" for due i q any
    using that chk by (cases q) (auto simp: scan_step_def split_beta)
  have "snd (fst (fold (scan_step mem clk due) is z)) = Some c" if "snd (fst z) = Some c" for due "is" z
    using that
  proof (induction "is" arbitrary: z)
    case (Cons i "is")
    then show ?case using stp [of "fst z" due i "snd z"] by simp
  qed simp
  then have "snd (fst (rt_scan mem clk due (rt, Some c))) = Some c" for due rt by (simp add: rt_scan_eq)
  then have "snd (uiox_ks_rt_tick mem now0 clk 0 (rt, Some c)) = Some c" for rt
    by (simp add: uiox_ks_rt_tick_def split_beta Let_def)
  then have tick: "g_measure_ctx (uiox_ks_scheduler_tick mem now0 clk s') = c"
    by (simp add: uiox_ks_scheduler_tick_def split_beta c_def)
  have "uiox_ks_measure_quote c = uiox_ks_measure_quote (g_measure_ctx s)"
    by (simp add: c_def s' uiox_ks_measure_quote_def uiox_ks_measure_lock_def)
  with tick show ?thesis by (simp add: c_def)
qed

theorem runtime_checks_not_measured_witness:
  "g_measure_ctx (uiox_ks_scheduler_tick (\<lambda>a. 0) 7 (\<lambda>i. 7)
      ((uiox_ks_boot_init default_plat blank_report)\<lparr>g_rt_ctx := armed_ctx,
         g_measure_ctx := uiox_ks_measure_lock (uiox_ks_measure_init (\<lambda>k. 0))\<rparr>))
    = uiox_ks_measure_lock (uiox_ks_measure_init (\<lambda>k. 0))"
proof -
  define s where "s = (uiox_ks_boot_init default_plat blank_report)\<lparr>g_rt_ctx := armed_ctx\<rparr>"
  have g: "g_measure_ctx s = uiox_ks_measure_init (\<lambda>k. 0)"
    by (simp add: s_def uiox_ks_boot_init_def default_plat_def)
  have "uiox_ks_boot_handoff (replicate 84 0) s =
      Some (Kernel (ih_entry_addr (img_hdr_at (replicate 84 0))) (s\<lparr>g_measure_ctx := uiox_ks_measure_lock (g_measure_ctx s)\<rparr>))"
    by (simp add: uiox_ks_boot_handoff_def)
  from runtime_checks_not_measured [OF this, of "\<lambda>a. 0" 7 "\<lambda>i. 7"]
  show ?thesis by (simp add: g) (simp add: s_def)
qed

end
